(* ===== verification/Prelude.thy ===== *)
theory Prelude
  imports Main "HOL-Library.Word" "HOL-Library.Multiset"
begin

unbundle bit_operations_syntax

text \<open>
  What the components share: the machine types of the 32-bit target, the faults a C program can
  run into (an access outside an object, a null pointer, a failed assertion, a kernel panic) as
  values of a sum type, a bind for the sequential composition of fallible steps, and generic
  lemmas on lists, sums over index sets and words. The collection \<open>res_simps\<close> carries the facts
  about fallible steps; component theories add to it.
\<close>

section \<open>Machine types\<close>

type_synonym u8 = "8 word"
type_synonym u16 = "16 word"
type_synonym u32 = "32 word"
type_synonym u64 = "64 word"

text \<open>
  Where a model computes with natural numbers, \<open>u32n\<close> and \<open>sub32\<close> write the wrap-around of 32-bit
  unsigned arithmetic out.
\<close>

definition u32n :: "nat \<Rightarrow> nat" where "u32n n = n mod 2 ^ 32"

definition sub32 :: "nat \<Rightarrow> nat \<Rightarrow> nat" where "sub32 a b = u32n (a + 2 ^ 32 - b)"

lemma u32n_small [simp]: "n < 2 ^ 32 \<Longrightarrow> u32n n = n"
  by (simp add: u32n_def)

lemma u32n_lt [simp]: "u32n n < 4294967296"
  by (simp add: u32n_def)

lemma u32n_sub:
  assumes "n \<le> a" "a < 2 ^ 32"
  shows "u32n (a + 2 ^ 32 - n) = a - n"
proof -
  have "a + 2 ^ 32 - n = a - n + 2 ^ 32" using assms(1) by linarith
  moreover have "a - n < 2 ^ 32" using assms(2) by linarith
  ultimately show ?thesis by (simp only: u32n_def mod_add_self2 mod_less)
qed

lemma sub32_small [simp]: "b \<le> a \<Longrightarrow> a < 2 ^ 32 \<Longrightarrow> sub32 a b = a - b"
  unfolding sub32_def by (rule u32n_sub)

section \<open>Faults and fallible steps\<close>

text \<open>
  \<open>OutOfBounds\<close>, \<open>NullDeref\<close> and \<open>DivZero\<close> stand for undefined behaviour of the C source, \<open>AssertFail\<close> for
  an \<open>assert\<close> that does not hold, \<open>Panic\<close> for a call of \<open>kernel_panic\<close> with its message and
  \<open>ErrExit\<close> for the exit of a user process with a message. A step yields \<open>Inl\<close> of a fault or
  \<open>Inr\<close> of its result.
\<close>

datatype fault =
    OutOfBounds
  | NullDeref
  | DivZero
  | AssertFail
  | Panic string
  | ErrExit string

type_synonym 'a res = "fault + 'a"

definition bindR :: "'a res \<Rightarrow> ('a \<Rightarrow> 'b res) \<Rightarrow> 'b res" where
  "bindR r f = (case r of Inl e \<Rightarrow> Inl e | Inr a \<Rightarrow> f a)"

definition get_at :: "'a list \<Rightarrow> nat \<Rightarrow> 'a res" where
  "get_at xs i = (if i < length xs then Inr (xs ! i) else Inl OutOfBounds)"

definition set_at :: "'a list \<Rightarrow> nat \<Rightarrow> 'a \<Rightarrow> 'a list res" where
  "set_at xs i v = (if i < length xs then Inr (xs[i := v]) else Inl OutOfBounds)"

named_theorems res_simps

lemma bindR_simps [simp, res_simps]:
  "bindR (Inl e) f = Inl e"
  "bindR (Inr a) f = f a"
  by (simp_all add: bindR_def)

lemma bindR_eq_Inr [simp]: "bindR r f = Inr b \<longleftrightarrow> (\<exists>a. r = Inr a \<and> f a = Inr b)"
  by (cases r) auto

lemma bindR_assoc: "bindR (bindR r f) g = bindR r (\<lambda>a. bindR (f a) g)"
  by (cases r) auto

lemma bindR_cong [fundef_cong]:
  "r = r' \<Longrightarrow> (\<And>a. r' = Inr a \<Longrightarrow> f a = g a) \<Longrightarrow> bindR r f = bindR r' g"
  by (cases r') auto

lemma get_at_in [simp, res_simps]: "i < length xs \<Longrightarrow> get_at xs i = Inr (xs ! i)"
  by (simp add: get_at_def)

lemma get_at_eq_Inr: "get_at xs i = Inr v \<longleftrightarrow> i < length xs \<and> v = xs ! i"
  by (auto simp: get_at_def)

lemma set_at_in [simp, res_simps]: "i < length xs \<Longrightarrow> set_at xs i v = Inr (xs[i := v])"
  by (simp add: set_at_def)

lemma set_at_eq_Inr: "set_at xs i v = Inr ys \<longleftrightarrow> i < length xs \<and> ys = xs[i := v]"
  by (auto simp: set_at_def)

text \<open>A fallible step after which control may not return (\<open>None\<close>: a loop that does not end).\<close>

definition bindO :: "'a res option \<Rightarrow> ('a \<Rightarrow> 'b res option) \<Rightarrow> 'b res option" where
  "bindO x f = (case x of None \<Rightarrow> None | Some (Inl e) \<Rightarrow> Some (Inl e) | Some (Inr a) \<Rightarrow> f a)"

lemma bindO_simps [simp]:
  "bindO None f = None" "bindO (Some (Inl e)) f = Some (Inl e)" "bindO (Some (Inr a)) f = f a"
  by (simp_all add: bindO_def)

lemma bindO_mono [partial_function_mono]:
  assumes "mono_option B" and "\<And>y. mono_option (\<lambda>f. C y f)"
  shows "mono_option (\<lambda>f. bindO (B f) (\<lambda>y. C y f))"
proof (rule monotoneI)
  fix f g :: "'a \<Rightarrow> 'b option" assume fg: "fun_ord option_ord f g"
  have B: "option_ord (B f) (B g)" and C: "option_ord (C y f) (C y g)" for y
    using assms fg by (auto dest: monotoneD)
  have "B f = None \<or> B f = B g" using B by (auto simp: flat_ord_def)
  then show "option_ord (bindO (B f) (\<lambda>y. C y f)) (bindO (B g) (\<lambda>y. C y g))"
  proof
    assume eq: "B f = B g"
    show ?thesis
    proof (cases "\<exists>y. B g = Some (Inr y)")
      case True then show ?thesis using C eq by auto
    next
      case False then show ?thesis
        using eq by (auto simp: flat_ord_def bindO_def split: option.splits sum.splits)
    qed
  qed (simp add: flat_ord_def)
qed

lemma bindO_assoc: "bindO (bindO x f) g = bindO x (\<lambda>a. bindO (f a) g)"
  by (auto simp: bindO_def split: option.splits sum.splits)

lemma bindO_Inr: "bindO x f = Some (Inr b) \<longleftrightarrow> (\<exists>a. x = Some (Inr a) \<and> f a = Some (Inr b))"
  by (auto simp: bindO_def split: option.splits sum.splits)

text \<open>A loop over a list whose body may fault.\<close>

fun foldR :: "('a \<Rightarrow> 's \<Rightarrow> 's res) \<Rightarrow> 'a list \<Rightarrow> 's \<Rightarrow> 's res" where
  "foldR f [] s = Inr s"
| "foldR f (x # xs) s = bindR (f x s) (foldR f xs)"

lemma foldR_append [simp]: "foldR f (xs @ ys) s = bindR (foldR f xs s) (foldR f ys)"
proof (induction xs arbitrary: s)
  case (Cons x xs)
  then show ?case by (cases "f x s") auto
qed simp

text \<open>The rule of a loop invariant for \<open>foldR\<close>.\<close>

lemma foldR_inv:
  assumes "I 0 s"
    and "\<And>i s. i < length xs \<Longrightarrow> I i s \<Longrightarrow> \<exists>s'. f (xs ! i) s = Inr s' \<and> I (Suc i) s'"
  shows "\<exists>s'. foldR f xs s = Inr s' \<and> I (length xs) s'"
  using assms
proof (induction xs arbitrary: s I)
  case (Cons x xs)
  obtain s1 where s1: "f x s = Inr s1" "I 1 s1" using Cons.prems(2) [of 0 s] Cons.prems(1) by auto
  have "\<exists>s'. foldR f xs s1 = Inr s' \<and> I (Suc (length xs)) s'"
    using Cons.prems(2) s1(2) by (intro Cons.IH [of "\<lambda>i. I (Suc i)"]) fastforce+
  with s1 show ?case by simp
qed simp

section \<open>Sequences of fallible operations\<close>

text \<open>
  The interface of a component whose operations, on admissible arguments and from states of its
  invariant, return a result and keep the invariant: then every sequence of operations does.
\<close>

locale total_ops =
  fixes step :: "'o \<Rightarrow> 's \<Rightarrow> ('r \<times> 's) res"
    and inv :: "'s \<Rightarrow> bool"
    and ok :: "'o \<Rightarrow> bool"
  assumes step_total: "inv s \<Longrightarrow> ok x \<Longrightarrow> \<exists>r s'. step x s = Inr (r, s') \<and> inv s'"
begin

fun run :: "'o list \<Rightarrow> 's \<Rightarrow> ('r list \<times> 's) res" where
  "run [] s = Inr ([], s)"
| "run (x # xs) s = bindR (step x s) (\<lambda>(r, s). bindR (run xs s) (\<lambda>(rs, s). Inr (r # rs, s)))"

lemma run_total:
  "inv s \<Longrightarrow> (\<And>x. x \<in> set xs \<Longrightarrow> ok x) \<Longrightarrow> \<exists>rs s'. run xs s = Inr (rs, s') \<and> length rs = length xs \<and> inv s'"
proof (induction xs arbitrary: s)
  case (Cons x xs)
  then obtain r s1 where s1: "step x s = Inr (r, s1)" "inv s1" using step_total [of s x] by auto
  with Cons.IH [of s1] Cons.prems show ?case by fastforce
qed simp

end

section \<open>Sums over index sets\<close>

lemma sum_lessThan_member:
  fixes f :: "nat \<Rightarrow> nat"
  assumes "i < n"
  shows "f i \<le> (\<Sum>k<n. f k)"
  using assms by (meson finite_lessThan lessThan_iff member_le_sum zero_le)

lemma sum_insert_index:
  fixes f :: "nat \<Rightarrow> nat"
  assumes "finite S" "i \<notin> S"
  shows "(\<Sum>k\<in>insert i S. f k) = f i + (\<Sum>k\<in>S. f k)"
  using assms by simp

lemma sum_update_index:
  fixes f :: "nat \<Rightarrow> nat"
  assumes "i < n" "\<And>k. k < n \<Longrightarrow> k \<noteq> i \<Longrightarrow> g k = f k"
  shows "(\<Sum>k<n. g k) + f i = (\<Sum>k<n. f k) + g i"
proof -
  have split: "(\<Sum>k<n. h k) = h i + (\<Sum>k\<in>{..<n} - {i}. h k)" for h :: "nat \<Rightarrow> nat"
    using assms(1) by (simp add: sum.remove)
  have "(\<Sum>k\<in>{..<n} - {i}. g k) = (\<Sum>k\<in>{..<n} - {i}. f k)"
    using assms(2) by (intro sum.cong) auto
  then show ?thesis using split [of f] split [of g] by simp
qed

text \<open>Bounded quantifiers and sums over small numeral bounds, for closed instances.\<close>

lemma all_less_small:
  "(\<forall>k<2. P k) \<longleftrightarrow> P 0 \<and> P (1 :: nat)"
  "(\<forall>k<3. P k) \<longleftrightarrow> P 0 \<and> P 1 \<and> P (2 :: nat)"
  "(\<forall>k<4. P k) \<longleftrightarrow> P 0 \<and> P 1 \<and> P 2 \<and> P (3 :: nat)"
  by (auto simp: less_Suc_eq numeral_eq_Suc)

lemma sum_less_small:
  fixes f :: "nat \<Rightarrow> nat"
  shows "(\<Sum>k<2. f k) = f 0 + f 1" "(\<Sum>k<3. f k) = f 0 + f 1 + f 2"
  by (simp_all add: numeral_2_eq_2 numeral_3_eq_3)

lemmas small_bounds = all_less_small sum_less_small

section \<open>Words\<close>

lemma unat_add_no_wrap:
  fixes a b :: u32
  assumes "unat a + unat b < 2 ^ 32"
  shows "unat (a + b) = unat a + unat b"
  using assms by (simp add: unat_word_ariths)

lemma unat_sub_le:
  fixes a b :: "'l :: len word"
  assumes "unat b \<le> unat a"
  shows "unat (a - b) = unat a - unat b"
  using assms by (simp add: unat_sub word_le_nat_alt)

lemma word_le_unat: "(a :: 'l :: len word) \<le> b \<longleftrightarrow> unat a \<le> unat b"
  by (rule word_le_nat_alt)

lemma word_gt_unat: "(a :: 'l :: len word) > b \<longleftrightarrow> unat b < unat a"
  by (rule word_less_nat_alt)

lemma word_le_1_cases:
  assumes "(w :: 'l :: len word) \<le> 1"
  shows "w = 0 \<or> w = 1"
proof -
  have "unat w \<le> 1" using assms by (simp add: word_le_nat_alt)
  then have "unat w = unat (0 :: 'l word) \<or> unat w = unat (1 :: 'l word)" by auto
  then show ?thesis by (simp only: word_unat_eq_iff)
qed

text \<open>Clearing the low bits of a word rounds it down.\<close>

lemma unat_and_not_mask: "unat ((w :: 'l :: len word) AND NOT (mask n)) = unat w - unat w mod 2 ^ n"
proof -
  have "w AND NOT (mask n) = w AND NOT (take_bit n w)"
    by (rule bit_word_eqI) (auto simp: bit_simps)
  also have "\<dots> = w - take_bit n w"
    by (rule disjunctive_diff [symmetric]) (auto simp: bit_simps)
  finally have "w AND NOT (mask n) = w - take_bit n w" .
  moreover have "unat (take_bit n w) = unat w mod 2 ^ n"
    by (subst unsigned_take_bit_eq) (simp only: take_bit_eq_mod)
  ultimately show ?thesis by (simp add: unat_sub_le)
qed

lemma nat_round_down: "a - a mod n = a div n * (n :: nat)"
  by (simp add: minus_mod_eq_div_mult)

lemma page_mask: "(0xFFFFF000 :: u32) = NOT (mask 12)" "(0x3FFFFF :: u32) = mask 22" "(0xF :: u32) = mask 4"
  by (simp_all add: mask_eq_exp_minus_1)

end
