(* ===== verification/Ipc.thy ===== *)
theory Ipc
  imports Prelude
begin

text \<open>
  The client/server exercise under \<open>src/system_call\<close>: a client process forks one child per file, each
  child splits its file in four parts and sends one part over each of two FIFOs, a message queue and a
  shared memory; the server collects the parts and writes one output file per input file.

  This theory has the definitions: the choice of the files (\<open>defines.c\<close>), the split of a file and the
  sending loop of a child (\<open>client_0.c\<close>), the receiving loop and the output of the server
  (\<open>server.c\<close>). A child and the server advance one system call at a time; \<open>Ipc_Correct\<close> lets them
  interleave in every order. What the operating system decides is a parameter: how many messages fit
  into a FIFO or the queue (\<open>cap\<close>), the process ids, the directory and file contents, and in every step
  which system calls fail (\<open>os\<close>). A failure that the code looks at ends the process with its message; one
  that it does not look at is passed over. Left out are the calls that set up and remove the channels (the code
  exits when they fail); \<open>malloc\<close> and the \<open>open\<close> of an existing input file succeed.
\<close>

section \<open>Choosing the files\<close>

definition c_str :: "string \<Rightarrow> string" where
  "c_str s = takeWhile (\<lambda>c. c \<noteq> CHR 0x00) s"

text \<open>
  \<open>hasValidFilename\<close>: the flag for the extension is not initialised when the name has no dot;
  \<open>junk\<close> is the value it then happens to have.
\<close>

definition starts_with :: "string \<Rightarrow> string \<Rightarrow> bool" where
  "starts_with p s \<longleftrightarrow> take (length p) s = p"

fun from_last_dot :: "string \<Rightarrow> string option" where
  "from_last_dot [] = None"
| "from_last_dot (c # cs) = (case from_last_dot cs of Some r \<Rightarrow> Some r
     | None \<Rightarrow> if c = CHR ''.'' then Some (c # cs) else None)"

definition hasValidFilename :: "bool \<Rightarrow> string \<Rightarrow> bool" where
  "hasValidFilename junk s \<longleftrightarrow> starts_with ''sendme_'' s \<and>
     (case from_last_dot s of Some p \<Rightarrow> p = ''.txt'' | None \<Rightarrow> junk)"

fun contains_str :: "string \<Rightarrow> string \<Rightarrow> bool" where
  "contains_str [] p \<longleftrightarrow> p = []"
| "contains_str (c # cs) p \<longleftrightarrow> starts_with p (c # cs) \<or> contains_str cs p"

definition acceptable_size :: "nat \<Rightarrow> bool" where
  "acceptable_size n \<longleftrightarrow> n < 4096 \<and> \<not> (n < 4 \<or> n > 4 \<and> n < 7 \<or> n = 9)"

text \<open>A directory as \<open>readdir\<close> lists it: subdirectories, regular files with their size, anything else.\<close>

datatype dentry = Dir string "dentry list" | Reg string nat | Other string

definition PATH_MAX :: nat where "PATH_MAX = 4096"

definition join_path :: "string \<Rightarrow> string \<Rightarrow> string" where
  "join_path d n = take (PATH_MAX - 1) (d @ ''/'' @ n)"

text \<open>
  \<open>enumerate_dir\<close> works on the caller's counter and table of 100 names. Each call sets the counter to
  0 first, the recursive ones too.
\<close>

definition wanted :: "bool \<Rightarrow> string \<Rightarrow> nat \<Rightarrow> bool" where
  "wanted junk n sz \<longleftrightarrow> hasValidFilename junk n \<and> \<not> contains_str n ''_out'' \<and> acceptable_size sz"

fun enumerate_loop :: "bool \<Rightarrow> string \<Rightarrow> dentry list \<Rightarrow> nat \<times> string option list \<Rightarrow> nat \<times> string option list" where
  "enumerate_loop junk d [] st = st"
| "enumerate_loop junk d (e # es) (cnt, files) =
     (if \<not> cnt < 100 then (cnt, files)
      else case e of
        Dir n sub \<Rightarrow> if n \<noteq> ''.'' \<and> n \<noteq> ''..''
          then enumerate_loop junk d es (enumerate_loop junk (join_path d n) sub (0, files))
          else enumerate_loop junk d es (cnt, files)
      | Reg n sz \<Rightarrow> if wanted junk n sz
          then enumerate_loop junk d es (cnt + 1, files[cnt := Some (join_path d n)])
          else enumerate_loop junk d es (cnt, files)
      | Other n \<Rightarrow> enumerate_loop junk d es (cnt, files))"

definition enumerate_dir :: "bool \<Rightarrow> string \<Rightarrow> dentry list \<Rightarrow> nat \<times> string option list" where
  "enumerate_dir junk d es = enumerate_loop junk d es (0, replicate 100 None)"

section \<open>Messages and the split of a file\<close>

datatype ipc = FIFO1 | FIFO2 | MSGQ | SHM

fun ipc_index :: "ipc \<Rightarrow> nat" where
  "ipc_index FIFO1 = 0"
| "ipc_index FIFO2 = 1"
| "ipc_index MSGQ = 2"
| "ipc_index SHM = 3"

definition ipcs_names :: "string list" where
  "ipcs_names = [''FIFO1'', ''FIFO2'', ''msgQueue'', ''ShdMem'']"

text \<open>The bytes of \<open>msg\<close> after the stored terminator are not represented.\<close>

record message =
  msg :: string
  pid :: int
  index :: nat
  filename :: string

definition baseSize :: "nat \<Rightarrow> nat" where
  "baseSize n = (if n mod 4 = 0 then n div 4 else n div 4 + 1)"

definition filePartsSize :: "nat \<Rightarrow> int list" where
  "filePartsSize n = [int (baseSize n), int (baseSize n), int (baseSize n), int n - int (baseSize n) * 3]"

text \<open>
  The reads of one part after the other: a read that returns less than the size of the part, or a
  negative size, ends the process; a part longer than 1024 bytes does not fit into the buffer with
  its terminator.
\<close>

fun read_parts :: "int list \<Rightarrow> string \<Rightarrow> string list res" where
  "read_parts [] rest = Inr []"
| "read_parts (z # zs) rest =
     (if z < 0 \<or> length rest < nat z then Inl (ErrExit ''couldn't read file properly'')
      else if nat z > 1024 then Inl OutOfBounds
      else bindR (read_parts zs (drop (nat z) rest)) (\<lambda>ps. Inr (take (nat z) rest # ps)))"

text \<open>The part of \<open>child\<close> before the barrier. \<open>txt\<close> is the content of the file, if it exists.\<close>

definition child_messages :: "nat \<Rightarrow> int \<Rightarrow> string \<Rightarrow> string option \<Rightarrow> message list res" where
  "child_messages i p path txt =
     (case txt of
        None \<Rightarrow> Inl (ErrExit (''file doesn't exists: '' @ path))
      | Some t \<Rightarrow> if length path \<ge> 160 then Inl OutOfBounds
          else bindR (read_parts (filePartsSize (length t)) t) (\<lambda>ps.
               Inr (map (\<lambda>x. \<lparr>msg = x, pid = p, index = i, filename = path\<rparr>) ps)))"

section \<open>The shared state\<close>

datatype child_pc = Arrive | AwaitAll | LoopTest | Try ipc | Put ipc | ShmLock | ShmFind | ShmFlag nat | ShmUnlock | Exited

record child =
  cpc :: child_pc
  sent :: "ipc \<Rightarrow> bool"
  messages :: "message list"

datatype server_pc = SLoop | SRead ipc | SPost ipc message | SStore ipc message | SMutex | SFind | SPostShm nat | SClear nat | SUnlock | SDone

text \<open>An entry of \<open>files_parts\<close>: not assigned yet, a copy of a message, or freed.\<close>

datatype part = Unset | Part message | Freed

record sys =
  csem :: nat
  sems :: "ipc \<Rightarrow> nat"
  mutex :: nat
  queue :: "ipc \<Rightarrow> message list"
  shm_buf :: "message list"
  shm_flags :: "bool list"
  children :: "child list"
  spc :: server_pc
  files_parts :: "part list list"
  contatori :: "nat list"
  received :: nat
  fs :: "string \<rightharpoonup> string"

text \<open>\<open>semop\<close> on one semaphore: \<open>None\<close> when the call has to wait (or fails with \<open>EAGAIN\<close>).\<close>

definition semOp :: "nat \<Rightarrow> int \<Rightarrow> nat option" where
  "semOp v op = (if op = 0 then if v = 0 then Some 0 else None
     else if int v + op \<ge> 0 then Some (nat (int v + op)) else None)"

text \<open>
  What the operating system does in one step of a process: whether its \<open>semop\<close> fails other than with
  \<open>EAGAIN\<close>, whether its \<open>read\<close>, \<open>write\<close>, \<open>msgsnd\<close> or \<open>msgrcv\<close> on a channel fails other than for an empty channel,
  whether the output file cannot be opened, and how many bytes of the \<open>i\<close>-th write to it are
  written when these are not all (none when the write fails). \<open>works\<close>: every call succeeds.
\<close>

record os =
  sem_fails :: bool
  io_fails :: bool
  open_fails :: bool
  written :: "nat \<Rightarrow> nat option"

definition works :: os where
  "works = \<lparr>sem_fails = False, io_fails = False, open_fails = False, written = (\<lambda>i. None)\<rparr>"

text \<open>A call of \<open>semOp\<close> whose result is not looked at: when it fails the process goes on, the value is as before.\<close>

definition semOp_unchecked :: "os \<Rightarrow> nat \<Rightarrow> int \<Rightarrow> nat option" where
  "semOp_unchecked os v op = (if sem_fails os then Some v else semOp v op)"

text \<open>The channels in the messages of \<open>ErrExit\<close>.\<close>

fun ipc_text :: "ipc \<Rightarrow> string" where
  "ipc_text FIFO1 = ''fifo1''"
| "ipc_text FIFO2 = ''fifo2''"
| "ipc_text MSGQ = ''msgq''"
| "ipc_text SHM = ''shm''"

definition findSHM :: "bool list \<Rightarrow> bool \<Rightarrow> nat option" where
  "findSHM shm value = List.find (\<lambda>i. shm ! i = value) [0..<50]"

section \<open>A child\<close>

definition put_child :: "nat \<Rightarrow> child \<Rightarrow> sys \<Rightarrow> sys" where
  "put_child k ch s = s\<lparr>children := (children s)[k := ch]\<rparr>"

text \<open>The program point after the block of a channel in the loop of \<open>ipcs_write\<close>.\<close>

fun next_try :: "ipc \<Rightarrow> child_pc" where
  "next_try FIFO1 = Try FIFO2"
| "next_try FIFO2 = Try MSGQ"
| "next_try MSGQ = Try SHM"
| "next_try SHM = LoopTest"

definition try_ipc :: "os \<Rightarrow> nat \<Rightarrow> child \<Rightarrow> ipc \<Rightarrow> sys \<Rightarrow> sys res" where
  "try_ipc os k ch c s =
     (if sent ch c then Inr (put_child k (ch\<lparr>cpc := next_try c\<rparr>) s)
      else if sem_fails os then Inl (ErrExit (''semop '' @ ipc_text c @ '' failed''))
      else case semOp (sems s c) (- 1) of
        None \<Rightarrow> Inr (put_child k (ch\<lparr>cpc := next_try c\<rparr>) s)
      | Some v \<Rightarrow> Inr (put_child k (ch\<lparr>cpc := if c = SHM then ShmLock else Put c\<rparr>) (s\<lparr>sems := (sems s)(c := v)\<rparr>)))"

definition put_ipc :: "os \<Rightarrow> (ipc \<Rightarrow> nat) \<Rightarrow> nat \<Rightarrow> child \<Rightarrow> ipc \<Rightarrow> sys \<Rightarrow> sys res option" where
  "put_ipc os cap k ch c s =
     (if io_fails os then Some (Inl (ErrExit (ipc_text c @ '' failed'')))
      else if length (queue s c) < cap c
      then Some (Inr (put_child k (ch\<lparr>cpc := next_try c, sent := (sent ch)(c := True)\<rparr>)
             (s\<lparr>queue := (queue s)(c := queue s c @ [messages ch ! ipc_index c])\<rparr>)))
      else None)"

text \<open>
  One step of child \<open>k\<close>: the barrier of \<open>child\<close>, the loop of \<open>ipcs_write\<close> and \<open>shm_write\<close>. \<open>None\<close>
  when the child waits in a system call or has exited. A child that fails has changed nothing in
  this step: for the other processes it is a child that does not run any more.
\<close>

definition child_step :: "os \<Rightarrow> (ipc \<Rightarrow> nat) \<Rightarrow> nat \<Rightarrow> sys \<Rightarrow> sys res option" where
  "child_step os cap k s =
     (let ch = children s ! k in
      case cpc ch of
        Arrive \<Rightarrow> map_option (\<lambda>v. Inr (put_child k (ch\<lparr>cpc := AwaitAll\<rparr>) (s\<lparr>csem := v\<rparr>))) (semOp_unchecked os (csem s) (- 1))
      | AwaitAll \<Rightarrow> map_option (\<lambda>v. Inr (put_child k (ch\<lparr>cpc := LoopTest\<rparr>) (s\<lparr>csem := v\<rparr>))) (semOp_unchecked os (csem s) 0)
      | LoopTest \<Rightarrow> Some (Inr (put_child k
          (ch\<lparr>cpc := if \<not> sent ch FIFO1 \<or> \<not> sent ch FIFO2 \<or> \<not> sent ch MSGQ \<or> \<not> sent ch SHM then Try FIFO1 else Exited\<rparr>) s))
      | Try c \<Rightarrow> Some (try_ipc os k ch c s)
      | Put c \<Rightarrow> put_ipc os cap k ch c s
      | ShmLock \<Rightarrow> map_option (\<lambda>v. Inr (put_child k (ch\<lparr>cpc := ShmFind\<rparr>) (s\<lparr>mutex := v\<rparr>))) (semOp_unchecked os (mutex s) (- 1))
      | ShmFind \<Rightarrow> Some (case findSHM (shm_flags s) False of
          None \<Rightarrow> Inl (ErrExit ''findSHM failed'')
        | Some i \<Rightarrow> Inr (put_child k (ch\<lparr>cpc := ShmFlag i\<rparr>) (s\<lparr>shm_buf := (shm_buf s)[i := messages ch ! 3]\<rparr>)))
      | ShmFlag i \<Rightarrow> Some (Inr (put_child k (ch\<lparr>cpc := ShmUnlock\<rparr>) (s\<lparr>shm_flags := (shm_flags s)[i := True]\<rparr>)))
      | ShmUnlock \<Rightarrow> map_option (\<lambda>v. Inr (put_child k (ch\<lparr>cpc := LoopTest, sent := (sent ch)(SHM := True)\<rparr>) (s\<lparr>mutex := v\<rparr>)))
          (semOp_unchecked os (mutex s) 1)
      | Exited \<Rightarrow> None)"

section \<open>The server\<close>

text \<open>The decimal text of an integer, as \<open>%d\<close> prints it.\<close>

fun show_nat :: "nat \<Rightarrow> string" where
  "show_nat n = (if n < 10 then [char_of (48 + n)] else show_nat (n div 10) @ [char_of (48 + n mod 10)])"

declare show_nat.simps [simp del]

definition show_int :: "int \<Rightarrow> string" where
  "show_int i = (if i < 0 then ''-'' @ show_nat (nat (- i)) else show_nat (nat i))"

definition NL :: string where "NL = [CHR 0x0A]"

definition part_header :: "nat \<Rightarrow> message \<Rightarrow> string" where
  "part_header i m = ''[Parte '' @ show_nat i @ '', del file '' @ filename m @ '', spedita dal processo '' @
     show_int (pid m) @ '' tramite '' @ ipcs_names ! i @ '']''"

text \<open>The writes for one part, and the text they add up to.\<close>

definition part_writes :: "nat \<Rightarrow> message \<Rightarrow> string list" where
  "part_writes i m = [part_header i m, NL, c_str (msg m), NL] @ (if i \<noteq> 3 then [NL] else [])"

definition part_text :: "nat \<Rightarrow> message \<Rightarrow> string" where
  "part_text i m = concat (part_writes i m)"

definition path_out :: "string \<Rightarrow> string" where
  "path_out p = take (length p - 4) p @ ''_out.txt''"

definition the_part :: "part \<Rightarrow> message res" where
  "the_part p = (case p of Part m \<Rightarrow> Inr m | _ \<Rightarrow> Inl NullDeref)"

text \<open>The output file is opened without \<open>O_TRUNC\<close>: what is written replaces the first bytes of an existing file.\<close>

definition write_over :: "string \<Rightarrow> string option \<Rightarrow> string" where
  "write_over new old = new @ drop (length new) (case old of None \<Rightarrow> [] | Some t \<Rightarrow> t)"

text \<open>What a sequence of writes puts into the file; the results of the writes are not looked at.\<close>

definition transferred :: "os \<Rightarrow> string list \<Rightarrow> string" where
  "transferred os ws = concat (map (\<lambda>i. case written os i of None \<Rightarrow> ws ! i | Some n \<Rightarrow> take n (ws ! i)) [0..<length ws])"

definition write_on_file :: "os \<Rightarrow> nat \<Rightarrow> part list list \<Rightarrow> (string \<rightharpoonup> string) \<Rightarrow> (string \<rightharpoonup> string) res" where
  "write_on_file os row ps f =
     bindR (get_at ps row) (\<lambda>r.
     bindR (bindR (get_at r 0) the_part) (\<lambda>m0.
     if length (filename m0) < 4 then Inl OutOfBounds
     else if open_fails os then Inl (ErrExit ''error while opening output file'')
     else
       bindR (bindR (get_at r 1) the_part) (\<lambda>m1.
       bindR (bindR (get_at r 2) the_part) (\<lambda>m2.
       bindR (bindR (get_at r 3) the_part) (\<lambda>m3.
       let p = path_out (filename m0) in
       Inr (f(p \<mapsto> write_over (transferred os (part_writes 0 m0 @ part_writes 1 m1 @ part_writes 2 m2 @ part_writes 3 m3)) (f p))))))))"

definition update_parts :: "os \<Rightarrow> message \<Rightarrow> nat \<Rightarrow> nat \<Rightarrow> sys \<Rightarrow> sys res" where
  "update_parts os m row i s =
     bindR (get_at (files_parts s) row) (\<lambda>r.
     bindR (set_at r i (Part m)) (\<lambda>r.
     bindR (get_at (contatori s) row) (\<lambda>n.
     let ps = (files_parts s)[row := r]; s = s\<lparr>files_parts := ps, contatori := (contatori s)[row := n + 1]\<rparr> in
     if n + 1 = 4
     then bindR (write_on_file os row ps (fs s)) (\<lambda>f. Inr (s\<lparr>fs := f, files_parts := ps[row := replicate 4 Freed]\<rparr>))
     else Inr s)))"

fun next_read :: "ipc \<Rightarrow> server_pc" where
  "next_read FIFO1 = SRead FIFO2"
| "next_read FIFO2 = SRead MSGQ"
| "next_read MSGQ = SMutex"
| "next_read SHM = SLoop"

text \<open>
  One step of the loop of \<open>ipcs_read\<close>; \<open>None\<close> when the loop is left. A server that fails has changed nothing that
  the children see in this step.
\<close>

definition server_step :: "os \<Rightarrow> sys \<Rightarrow> sys res option" where
  "server_step os s =
     (case spc s of
        SLoop \<Rightarrow> Some (Inr (s\<lparr>spc := if received s < length (children s) * 4 then SRead FIFO1 else SDone\<rparr>))
      | SRead c \<Rightarrow> Some (if io_fails os then Inl (ErrExit (ipc_text c @ '' read failed''))
          else Inr (case queue s c of
            [] \<Rightarrow> s\<lparr>spc := next_read c\<rparr>
          | m # q \<Rightarrow> s\<lparr>queue := (queue s)(c := q), spc := SPost c m\<rparr>))
      | SPost c m \<Rightarrow> map_option (\<lambda>v. Inr (s\<lparr>sems := (sems s)(c := v), spc := SStore c m\<rparr>)) (semOp_unchecked os (sems s c) 1)
      | SStore c m \<Rightarrow> Some (bindR (update_parts os m (index m) (ipc_index c) s)
          (\<lambda>s. Inr (s\<lparr>received := received s + 1, spc := next_read c\<rparr>)))
      | SMutex \<Rightarrow> Some (if sem_fails os then Inl (ErrExit ''Shared Memory failed'')
          else Inr (case semOp (mutex s) (- 1) of
            None \<Rightarrow> s\<lparr>spc := SLoop\<rparr>
          | Some v \<Rightarrow> s\<lparr>mutex := v, spc := SFind\<rparr>))
      | SFind \<Rightarrow> Some (case findSHM (shm_flags s) True of
          None \<Rightarrow> Inr (s\<lparr>spc := SUnlock\<rparr>)
        | Some i \<Rightarrow> bindR (update_parts os (shm_buf s ! i) (index (shm_buf s ! i)) 3 s) (\<lambda>s. Inr (s\<lparr>spc := SPostShm i\<rparr>)))
      | SPostShm i \<Rightarrow> map_option (\<lambda>v. Inr (s\<lparr>sems := (sems s)(SHM := v), spc := SClear i\<rparr>)) (semOp_unchecked os (sems s SHM) 1)
      | SClear i \<Rightarrow> Some (Inr (s\<lparr>shm_flags := (shm_flags s)[i := False], received := received s + 1, spc := SUnlock\<rparr>))
      | SUnlock \<Rightarrow> map_option (\<lambda>v. Inr (s\<lparr>mutex := v, spc := SLoop\<rparr>)) (semOp_unchecked os (mutex s) 1)
      | SDone \<Rightarrow> None)"

section \<open>The start of a round\<close>

text \<open>The semaphore set of the server, in the order of \<open>semaphore.h\<close>.\<close>

definition semInitVal :: "nat list" where "semInitVal = [0, 0, 50, 50, 50, 50, 1, 0]"

definition init_child :: "message list \<Rightarrow> child" where
  "init_child ms = \<lparr>cpc = Arrive, sent = (\<lambda>c. False), messages = ms\<rparr>"

definition init_sys :: "message list list \<Rightarrow> message list \<Rightarrow> (string \<rightharpoonup> string) \<Rightarrow> sys" where
  "init_sys mss buf f = \<lparr>csem = length mss, sems = (\<lambda>c. semInitVal ! (ipc_index c + 2)), mutex = semInitVal ! 6,
     queue = (\<lambda>c. []), shm_buf = buf, shm_flags = replicate 50 False, children = map init_child mss, spc = SLoop,
     files_parts = replicate (length mss) (replicate 4 Unset), contatori = replicate (length mss) 0, received = 0, fs = f\<rparr>"

end
