(* ===== verification/Ipc_Files.thy ===== *)
theory Ipc_Files
  imports Ipc
begin

text \<open>
  What the client does with the files: the split of a file into four messages loses nothing, and which
  files \<open>enumerate_dir\<close> finds.
\<close>

section \<open>The split of a file\<close>

lemma accepted_sizes:
  assumes "acceptable_size n"
  shows "1 \<le> baseSize n" "baseSize n \<le> 1024" "baseSize n * 3 < n" "n \<le> baseSize n * 4"
proof -
  have n: "4 \<le> n" "n < 4096" "n \<noteq> 5" "n \<noteq> 6" "n \<noteq> 9" using assms by (auto simp: acceptable_size_def)
  let ?q = "n div 4" and ?r = "n mod 4"
  have nr: "n = 4 * ?q + ?r" "?r < 4" by simp_all
  have b: "baseSize n = (if ?r = 0 then ?q else ?q + 1)" by (simp add: baseSize_def)
  show "1 \<le> baseSize n" using n nr b by (auto split: if_splits)
  show "baseSize n \<le> 1024" using n nr b by (auto split: if_splits)
  show "n \<le> baseSize n * 4" using n nr b by (auto split: if_splits)
  show "baseSize n * 3 < n"
  proof (cases "?r = 0")
    case True
    then show ?thesis using n nr b by auto
  next
    case False
    have "?q + ?r > 3"
    proof (rule ccontr)
      assume "\<not> ?q + ?r > 3"
      then have "?q = 1 \<and> ?r = 1 \<or> ?q = 1 \<and> ?r = 2 \<or> ?q = 2 \<and> ?r = 1" using False n nr by linarith
      then have "n = 5 \<or> n = 6 \<or> n = 9" using nr(1) by presburger
      then show False using n by simp
    qed
    moreover have "baseSize n = ?q + 1" using False b by simp
    ultimately show ?thesis using nr(1) by linarith
  qed
qed

lemma drop_twice: "drop b (drop b t) = drop (2 * b) t" "drop b (drop (2 * b) t) = drop (3 * b) t"
  by (simp_all add: mult_2 numeral_3_eq_3)

lemma read_four:
  assumes "length t = 3 * b + z" "b \<le> 1024" "z \<le> 1024"
  shows "read_parts [int b, int b, int b, int z] t =
    Inr [take b t, take b (drop b t), take b (drop (2 * b) t), drop (3 * b) t]"
  using assms by (simp add: drop_twice del: drop_drop)

lemma concat_four: "concat [take b t, take b (drop b t), take b (drop (2 * b) t), drop (3 * b) t] = t"
  by (metis append_take_drop_id concat.simps append_Nil2 drop_twice)

lemma child_messages_split:
  assumes "acceptable_size (length t)" "length path < 160"
  shows "\<exists>ms. child_messages i p path (Some t) = Inr ms \<and> length ms = 4 \<and> concat (map msg ms) = t \<and>
    (\<forall>m\<in>set ms. 1 \<le> length (msg m) \<and> length (msg m) \<le> 1024 \<and> index m = i \<and> pid m = p \<and> filename m = path)"
proof -
  let ?b = "baseSize (length t)"
  note sz = accepted_sizes [OF assms(1)]
  have z: "int (length t) - int ?b * 3 = int (length t - 3 * ?b)" using sz(3) by simp
  have r: "read_parts (filePartsSize (length t)) t =
      Inr [take ?b t, take ?b (drop ?b t), take ?b (drop (2 * ?b) t), drop (3 * ?b) t]"
    unfolding filePartsSize_def z by (rule read_four) (use sz in auto)
  let ?ms = "map (\<lambda>x. \<lparr>msg = x, pid = p, index = i, filename = path\<rparr>)
    [take ?b t, take ?b (drop ?b t), take ?b (drop (2 * ?b) t), drop (3 * ?b) t]"
  have "child_messages i p path (Some t) = Inr ?ms"
    using assms(2) by (simp add: child_messages_def r del: list.map)
  moreover have "concat (map msg ?ms) = t"
    using concat_four [of ?b t] by (simp add: comp_def)
  moreover have "\<forall>m\<in>set ?ms. 1 \<le> length (msg m) \<and> length (msg m) \<le> 1024 \<and> index m = i \<and> pid m = p \<and> filename m = path"
    using sz by auto
  ultimately show ?thesis by (intro exI [of _ ?ms]) simp
qed

text \<open>
  C22. Every file that the client accepts (4, 7, 8 or 10 to 4095 bytes, with a path of less than 160
  characters) is split into four non-empty messages of at most 1024 bytes that carry the number of the
  file, the process id and the path, and whose texts put together are the file.
\<close>

theorem file_split_roundtrip:
  assumes "acceptable_size (length t)" "length path < 160"
  shows "\<exists>ms. child_messages i p path (Some t) = Inr ms \<and> length ms = 4 \<and> concat (map msg ms) = t \<and>
    (\<forall>m\<in>set ms. 1 \<le> length (msg m) \<and> length (msg m) \<le> 1024 \<and> index m = i \<and> pid m = p \<and> filename m = path)"
  using child_messages_split [OF assms] .

theorem file_split_roundtrip_witness:
  "\<exists>ms. child_messages 0 7 ''/tmp/sendme_a.txt'' (Some ''abcdefg'') = Inr ms \<and> concat (map msg ms) = ''abcdefg''"
  using file_split_roundtrip [of "''abcdefg''" "''/tmp/sendme_a.txt''" 0 7] by (auto simp: acceptable_size_def)

section \<open>The files that are found\<close>

text \<open>The loop of \<open>enumerate_dir\<close> on the list of the names found instead of the table and its counter.\<close>

fun listed :: "bool \<Rightarrow> string \<Rightarrow> dentry list \<Rightarrow> string list \<Rightarrow> string list" where
  "listed junk d [] acc = acc"
| "listed junk d (e # es) acc =
     (if \<not> length acc < 100 then acc
      else listed junk d es (case e of
        Dir n sub \<Rightarrow> if n \<noteq> ''.'' \<and> n \<noteq> ''..'' then listed junk (join_path d n) sub [] else acc
      | Reg n sz \<Rightarrow> if wanted junk n sz then acc @ [join_path d n] else acc
      | Other n \<Rightarrow> acc))"

definition table_ok :: "nat \<times> string option list \<Rightarrow> string list \<Rightarrow> bool" where
  "table_ok st acc \<longleftrightarrow> length (snd st) = 100 \<and> fst st = length acc \<and> length acc \<le> 100 \<and>
     take (fst st) (snd st) = map Some acc"

lemma take_Suc_update: "i < length xs \<Longrightarrow> take (Suc i) (xs[i := v]) = take i xs @ [v]"
  by (simp add: take_Suc_conv_app_nth)

lemma enumerate_loop_refines:
  "table_ok st acc \<Longrightarrow> table_ok (enumerate_loop junk d es st) (listed junk d es acc)"
proof (induction junk d es st arbitrary: acc rule: enumerate_loop.induct)
  case (2 junk d e es cnt files)
  show ?case
  proof (cases "cnt < 100")
    case True
    then have l: "length acc < 100" "cnt = length acc" using 2(7) by (auto simp: table_ok_def)
    have t0: "table_ok (0, files) []" using 2(7) by (auto simp: table_ok_def)
    show ?thesis
    proof (cases e)
      case (Dir n sub)
      then show ?thesis using 2(1-3) True l t0 2(7) by (cases "n \<noteq> ''.'' \<and> n \<noteq> ''..''") auto
    next
      case (Reg n sz)
      have "table_ok (cnt + 1, files[cnt := Some (join_path d n)]) (acc @ [join_path d n])"
        using 2(7) l by (simp add: table_ok_def take_Suc_update)
      then show ?thesis using 2(4,5) True l Reg 2(7) by auto
    next
      case (Other n)
      then show ?thesis using 2(6) True l 2(7) by auto
    qed
  next
    case False
    then show ?thesis using 2(7) by (auto simp: table_ok_def)
  qed
qed simp

lemma enumerate_dir_refines: "table_ok (enumerate_dir junk d es) (listed junk d es [])"
  unfolding enumerate_dir_def by (rule enumerate_loop_refines) (simp add: table_ok_def)

text \<open>The names the client goes on with: the first \<open>N\<close> entries of \<open>files_list\<close>.\<close>

definition found :: "nat \<times> string option list \<Rightarrow> string option list" where
  "found st = take (fst st) (snd st)"

lemma found_enumerate: "found (enumerate_dir junk d es) = map Some (listed junk d es [])"
  using enumerate_dir_refines [of junk d es] unfolding found_def table_ok_def by (elim conjE)

lemma listed_append:
  "length (listed junk d es1 acc) < 100 \<Longrightarrow> listed junk d (es1 @ es2) acc = listed junk d es2 (listed junk d es1 acc)"
  by (induction es1 arbitrary: acc) (auto split: if_splits)

text \<open>The paths of the wanted regular files among the entries.\<close>

fun wanted_paths :: "bool \<Rightarrow> string \<Rightarrow> dentry list \<Rightarrow> string list" where
  "wanted_paths junk d [] = []"
| "wanted_paths junk d (Reg n sz # es) = (if wanted junk n sz then [join_path d n] else []) @ wanted_paths junk d es"
| "wanted_paths junk d (e # es) = wanted_paths junk d es"

fun no_subdir :: "dentry list \<Rightarrow> bool" where
  "no_subdir [] \<longleftrightarrow> True"
| "no_subdir (Dir n sub # es) \<longleftrightarrow> (n = ''.'' \<or> n = ''..'') \<and> no_subdir es"
| "no_subdir (e # es) \<longleftrightarrow> no_subdir es"

lemma listed_flat:
  "no_subdir es \<Longrightarrow> length acc \<le> 100 \<Longrightarrow> listed junk d es acc = take 100 (acc @ wanted_paths junk d es)"
proof (induction es arbitrary: acc)
  case (Cons e es)
  show ?case
  proof (cases "length acc < 100")
    case True
    then show ?thesis using Cons by (cases e) auto
  next
    case False
    then show ?thesis using Cons.prems by simp
  qed
qed simp

text \<open>
  In a directory without subdirectories \<open>enumerate_dir\<close> finds exactly the files whose name has the
  prefix, the extension and no \<open>_out\<close> and whose size is accepted, the first 100 in the order of the
  directory. A subdirectory resets the count: as soon as one is visited, the files found before it are
  forgotten, and the result is that of the directory without the entries before it.
\<close>

theorem enumerate_dir_finds:
  assumes "found (enumerate_dir junk d es1) = fs1" "length fs1 < 100" "n \<noteq> ''.''" "n \<noteq> ''..''" "no_subdir es"
  shows "found (enumerate_dir junk d es) = map Some (take 100 (wanted_paths junk d es)) \<and>
    found (enumerate_dir junk d (es1 @ Dir n sub # es2)) = found (enumerate_dir junk d (Dir n sub # es2))"
proof
  show "found (enumerate_dir junk d es) = map Some (take 100 (wanted_paths junk d es))"
    using assms(5) by (simp add: found_enumerate listed_flat)
  have l: "length (listed junk d es1 []) < 100" using assms(1,2) by (auto simp: found_enumerate)
  have "listed junk d (es1 @ Dir n sub # es2) [] = listed junk d (Dir n sub # es2) []"
    using listed_append [OF l, of "Dir n sub # es2"] l assms(3,4) by simp
  then show "found (enumerate_dir junk d (es1 @ Dir n sub # es2)) = found (enumerate_dir junk d (Dir n sub # es2))"
    by (simp add: found_enumerate)
qed

lemma example_wanted:
  "wanted False ''sendme_a.txt'' 4" "wanted False ''sendme_b.txt'' 8" "\<not> wanted False ''notes.txt'' 8"
  by (simp_all add: wanted_def hasValidFilename_def starts_with_def acceptable_size_def)

theorem enumerate_dir_finds_witness:
  "found (enumerate_dir False ''d'' [Reg ''sendme_a.txt'' 4, Reg ''notes.txt'' 8]) = [Some ''d/sendme_a.txt''] \<and>
   found (enumerate_dir False ''d'' [Reg ''sendme_a.txt'' 4, Dir ''s'' [], Reg ''sendme_b.txt'' 8]) =
   found (enumerate_dir False ''d'' [Dir ''s'' [], Reg ''sendme_b.txt'' 8])"
proof -
  have c: "length (found (enumerate_dir False ''d'' [Reg ''sendme_a.txt'' 4])) < 100"
    by (simp add: found_enumerate example_wanted)
  show ?thesis
    using enumerate_dir_finds [OF refl c, of "''s''" "[Reg ''sendme_a.txt'' 4, Reg ''notes.txt'' 8]" "[]" "[Reg ''sendme_b.txt'' 8]"]
    by (simp add: example_wanted join_path_def PATH_MAX_def)
qed

end
