(* ===== verification/Ipc_Correct.thy ===== *)
theory Ipc_Correct
  imports Ipc_Files
begin

text \<open>
  The children and the server of \<open>src/system_call\<close> interleaved in every order: an invariant of the
  semaphores, the channels and the tables of the server, which steps fail when system calls fail, and that the
  server, when it is done, has written every file.
\<close>

section \<open>Interleaving\<close>

text \<open>
  Runs in which the system calls succeed. A process that a failing call has ended is one that takes no more
  steps, so these are also the runs of the others after it. Not covered are runs in which a \<open>semop\<close> fails whose result
  the code does not look at, or a write to an output file is not complete.
\<close>

inductive sys_step :: "(ipc \<Rightarrow> nat) \<Rightarrow> sys \<Rightarrow> sys res \<Rightarrow> bool" for cap where
  child: "k < length (children s) \<Longrightarrow> child_step works cap k s = Some r \<Longrightarrow> sys_step cap s r"
| server: "server_step works s = Some r \<Longrightarrow> sys_step cap s r"

inductive_cases sys_stepE: "sys_step cap s r"

inductive reachable :: "(ipc \<Rightarrow> nat) \<Rightarrow> sys \<Rightarrow> sys \<Rightarrow> bool" for cap s0 where
  start: "reachable cap s0 s0"
| step: "reachable cap s0 s \<Longrightarrow> sys_step cap s (Inr s') \<Longrightarrow> reachable cap s0 s'"

section \<open>Counting\<close>

definition tally :: "('a \<Rightarrow> nat) \<Rightarrow> 'a list \<Rightarrow> nat" where
  "tally w xs = sum_list (map w xs)"

lemma tally_ge: "k < length xs \<Longrightarrow> w (xs ! k) \<le> tally w xs"
  by (simp add: tally_def member_le_sum_list)

lemma tally_update: "k < length xs \<Longrightarrow> tally w (xs[k := y]) + w (xs ! k) = tally w xs + w y"
  using tally_ge [of k xs w] by (simp add: tally_def map_update sum_list_update)

lemma tally_two:
  assumes "i < length xs" "j < length xs" "i \<noteq> j"
  shows "w (xs ! i) + w (xs ! j) \<le> tally w xs"
proof -
  define y where "y = xs ! i"
  have "tally (\<lambda>n. n) ((map w xs)[i := 0]) + w (xs ! i) = tally w xs"
    using tally_update [of i "map w xs" "\<lambda>n. n" 0] assms by (simp add: tally_def)
  moreover have "w (xs ! j) \<le> tally (\<lambda>n. n) ((map w xs)[i := 0])"
    using tally_ge [of j "(map w xs)[i := 0]" "\<lambda>n. n"] assms by simp
  ultimately show ?thesis by simp
qed

lemma tally_zero: "tally w xs = 0 \<longleftrightarrow> (\<forall>k<length xs. w (xs ! k) = 0)"
  by (metis (no_types, lifting) in_set_conv_nth length_map map_eq_conv nth_map sum_list_eq_0_iff tally_def)



section \<open>The invariant\<close>

text \<open>Each child has four messages with its number and a path that ends in an extension.\<close>

definition good_jobs :: "message list list \<Rightarrow> bool" where
  "good_jobs mss \<longleftrightarrow> (\<forall>k<length mss. length (mss ! k) = 4 \<and> (\<forall>j<4. index (mss ! k ! j) = k) \<and>
     4 \<le> length (filename (mss ! k ! 0))) \<and> distinct (map (\<lambda>ms. path_out (filename (ms ! 0))) mss)"

definition job_path :: "message list list \<Rightarrow> nat \<Rightarrow> string" where
  "job_path mss k = path_out (filename (mss ! k ! 0))"

definition job_text :: "message list list \<Rightarrow> nat \<Rightarrow> string" where
  "job_text mss k = part_text 0 (mss ! k ! 0) @ part_text 1 (mss ! k ! 1) @ part_text 2 (mss ! k ! 2) @ part_text 3 (mss ! k ! 3)"

definition got :: "sys \<Rightarrow> nat \<Rightarrow> ipc \<Rightarrow> bool" where
  "got s k c \<longleftrightarrow> files_parts s ! k ! ipc_index c \<noteq> Unset"

definition inv_struct :: "message list list \<Rightarrow> sys \<Rightarrow> bool" where
  "inv_struct mss s \<longleftrightarrow> map messages (children s) = mss \<and> length (shm_flags s) = 50 \<and> length (shm_buf s) = 50"

definition in_put :: "ipc \<Rightarrow> child \<Rightarrow> nat" where
  "in_put c ch = of_bool (cpc ch = Put c)"

definition in_shm :: "child \<Rightarrow> nat" where
  "in_shm ch = (case cpc ch of ShmLock \<Rightarrow> 1 | ShmFind \<Rightarrow> 1 | ShmFlag i \<Rightarrow> 1 | _ \<Rightarrow> 0)"

definition in_hold :: "child \<Rightarrow> nat" where
  "in_hold ch = (case cpc ch of ShmFind \<Rightarrow> 1 | ShmFlag i \<Rightarrow> 1 | ShmUnlock \<Rightarrow> 1 | _ \<Rightarrow> 0)"

definition sv_post :: "ipc \<Rightarrow> server_pc \<Rightarrow> nat" where
  "sv_post c p = (case p of SPost c' m \<Rightarrow> of_bool (c' = c) | _ \<Rightarrow> 0)"

definition sv_carry :: "server_pc \<Rightarrow> nat" where
  "sv_carry p = (case p of SPost c m \<Rightarrow> 1 | SStore c m \<Rightarrow> 1 | _ \<Rightarrow> 0)"

definition sv_clear :: "server_pc \<Rightarrow> nat" where
  "sv_clear p = (case p of SClear i \<Rightarrow> 1 | _ \<Rightarrow> 0)"

definition sv_took :: "server_pc \<Rightarrow> nat" where
  "sv_took p = (case p of SPostShm i \<Rightarrow> 1 | SClear i \<Rightarrow> 1 | _ \<Rightarrow> 0)"

definition sv_hold :: "server_pc \<Rightarrow> nat" where
  "sv_hold p = (case p of SFind \<Rightarrow> 1 | SPostShm i \<Rightarrow> 1 | SClear i \<Rightarrow> 1 | SUnlock \<Rightarrow> 1 | _ \<Rightarrow> 0)"

lemmas weight_defs = in_put_def in_shm_def in_hold_def sv_post_def sv_carry_def sv_clear_def sv_took_def sv_hold_def

text \<open>Each channel holds at most 50 messages; the semaphores count the free places.\<close>

definition inv_sems :: "sys \<Rightarrow> bool" where
  "inv_sems s \<longleftrightarrow>
     (\<forall>c. c \<noteq> SHM \<longrightarrow> sems s c + tally (in_put c) (children s) + length (queue s c) + sv_post c (spc s) = 50) \<and>
     sems s SHM + tally in_shm (children s) + tally of_bool (shm_flags s) = 50 + sv_clear (spc s)"

definition inv_mutex :: "sys \<Rightarrow> bool" where
  "inv_mutex s \<longleftrightarrow> mutex s + tally in_hold (children s) + sv_hold (spc s) = 1"

definition child_ok :: "sys \<Rightarrow> nat \<Rightarrow> bool" where
  "child_ok s k \<longleftrightarrow> (let ch = children s ! k in
     case cpc ch of
       Put c \<Rightarrow> c \<noteq> SHM \<and> \<not> sent ch c
     | ShmLock \<Rightarrow> \<not> sent ch SHM
     | ShmFind \<Rightarrow> \<not> sent ch SHM
     | ShmFlag i \<Rightarrow> \<not> sent ch SHM \<and> i < 50 \<and> \<not> shm_flags s ! i \<and> shm_buf s ! i = messages ch ! 3
     | ShmUnlock \<Rightarrow> \<not> sent ch SHM \<and> \<not> got s k SHM
     | Exited \<Rightarrow> (\<forall>c. sent ch c)
     | _ \<Rightarrow> True)"

definition server_ok :: "sys \<Rightarrow> bool" where
  "server_ok s \<longleftrightarrow> (case spc s of
       SRead c \<Rightarrow> c \<noteq> SHM
     | SPost c m \<Rightarrow> c \<noteq> SHM
     | SStore c m \<Rightarrow> c \<noteq> SHM
     | SPostShm i \<Rightarrow> i < 50 \<and> shm_flags s ! i
     | SClear i \<Rightarrow> i < 50 \<and> shm_flags s ! i
     | SDone \<Rightarrow> length (children s) * 4 \<le> received s
     | _ \<Rightarrow> True)"

text \<open>What is under way is a part of a file, in the channel of its part.\<close>

definition is_part :: "message list list \<Rightarrow> ipc \<Rightarrow> message \<Rightarrow> bool" where
  "is_part mss c m \<longleftrightarrow> index m < length mss \<and> m = mss ! index m ! ipc_index c"

definition inv_msgs :: "message list list \<Rightarrow> sys \<Rightarrow> bool" where
  "inv_msgs mss s \<longleftrightarrow> (\<forall>c. c \<noteq> SHM \<longrightarrow> (\<forall>m\<in>set (queue s c). is_part mss c m)) \<and>
     (case spc s of SPost c m \<Rightarrow> is_part mss c m | SStore c m \<Rightarrow> is_part mss c m | _ \<Rightarrow> True) \<and>
     (\<forall>i<50. shm_flags s ! i \<longrightarrow> is_part mss SHM (shm_buf s ! i))"

text \<open>No part is lost or doubled: a part that has left its child is under way once, or the server has it.\<close>

definition in_server :: "ipc \<Rightarrow> nat \<Rightarrow> server_pc \<Rightarrow> nat" where
  "in_server c k p = (case p of SPost c' m \<Rightarrow> of_bool (c' = c \<and> index m = k)
     | SStore c' m \<Rightarrow> of_bool (c' = c \<and> index m = k) | _ \<Rightarrow> 0)"

definition in_slots :: "nat \<Rightarrow> sys \<Rightarrow> nat" where
  "in_slots k s = tally (\<lambda>(f, m). of_bool (f \<and> index m = k)) (zip (shm_flags s) (shm_buf s))"

definition being_cleared :: "nat \<Rightarrow> sys \<Rightarrow> nat" where
  "being_cleared k s = (case spc s of SPostShm i \<Rightarrow> of_bool (index (shm_buf s ! i) = k)
     | SClear i \<Rightarrow> of_bool (index (shm_buf s ! i) = k) | _ \<Rightarrow> 0)"

definition has_left :: "child \<Rightarrow> bool" where
  "has_left ch \<longleftrightarrow> sent ch SHM \<or> cpc ch = ShmUnlock"

definition conserved :: "sys \<Rightarrow> nat \<Rightarrow> bool" where
  "conserved s k \<longleftrightarrow> (let ch = children s ! k in
     (\<forall>c. c \<noteq> SHM \<longrightarrow> count_list (map index (queue s c)) k + in_server c k (spc s) + of_bool (got s k c) =
        (of_bool (sent ch c) :: nat)) \<and>
     in_slots k s + of_bool (got s k SHM) = of_bool (has_left ch) + being_cleared k s)"

text \<open>The tables of the server: the counter of a row counts its parts, and a full row is written.\<close>

definition row_ok :: "message list list \<Rightarrow> (string \<rightharpoonup> string) \<Rightarrow> nat \<Rightarrow> part list \<Rightarrow> nat \<Rightarrow> string option \<Rightarrow> bool" where
  "row_ok mss f0 k row n file \<longleftrightarrow> length row = 4 \<and> n = length (filter (\<lambda>p. p \<noteq> Unset) row) \<and>
     (if n < 4 then (\<forall>j<4. row ! j = Unset \<or> row ! j = Part (mss ! k ! j)) \<and> file = f0 (job_path mss k)
      else file = Some (write_over (job_text mss k) (f0 (job_path mss k))))"

definition rows_ok :: "message list list \<Rightarrow> (string \<rightharpoonup> string) \<Rightarrow> part list list \<Rightarrow> nat list \<Rightarrow> (string \<rightharpoonup> string) \<Rightarrow> bool" where
  "rows_ok mss f0 P C F \<longleftrightarrow> length P = length mss \<and> length C = length mss \<and>
     (\<forall>k<length mss. row_ok mss f0 k (P ! k) (C ! k) (F (job_path mss k)))"

definition inv_recv :: "sys \<Rightarrow> bool" where
  "inv_recv s \<longleftrightarrow> tally (\<lambda>n. n) (contatori s) = received s + sv_took (spc s)"

definition sys_inv :: "message list list \<Rightarrow> (string \<rightharpoonup> string) \<Rightarrow> sys \<Rightarrow> bool" where
  "sys_inv mss f0 s \<longleftrightarrow> inv_struct mss s \<and> inv_sems s \<and> inv_mutex s \<and> server_ok s \<and> inv_msgs mss s \<and> inv_recv s \<and>
     (\<forall>k<length mss. child_ok s k \<and> conserved s k) \<and> rows_ok mss f0 (files_parts s) (contatori s) (fs s)"

section \<open>Steps of a child\<close>

lemma sys_inv_children: "sys_inv mss f0 s \<Longrightarrow> length (children s) = length mss"
  by (auto simp: sys_inv_def inv_struct_def)

lemma map_update_same: "f y = f (xs ! k) \<Longrightarrow> map f (xs[k := y]) = map f xs"
  by (metis list_update_id map_update)

lemma child_update_inv:
  assumes inv: "sys_inv mss f0 s" and k: "k < length mss" and ch: "ch = children s ! k"
    and t: "children t = children s" "spc t = spc s" "files_parts t = files_parts s" "contatori t = contatori s"
      "received t = received s" "fs t = fs s" "length (shm_flags t) = 50" "length (shm_buf t) = 50"
    and ch': "messages ch' = messages ch"
    and sems: "\<And>c. c \<noteq> SHM \<Longrightarrow> sems t c + in_put c ch' + length (queue t c) = sems s c + in_put c ch + length (queue s c)"
      "sems t SHM + in_shm ch' + tally of_bool (shm_flags t) = sems s SHM + in_shm ch + tally of_bool (shm_flags s)"
    and mut: "mutex t + in_hold ch' = mutex s + in_hold ch"
    and sv: "server_ok t" "inv_msgs mss t"
    and own: "child_ok (put_child k ch' t) k" "conserved (put_child k ch' t) k"
    and others: "\<And>j. j < length mss \<Longrightarrow> j \<noteq> k \<Longrightarrow> child_ok (put_child k ch' t) j \<and> conserved (put_child k ch' t) j"
  shows "sys_inv mss f0 (put_child k ch' t)"
proof -
  have kl: "k < length (children s)" using k sys_inv_children [OF inv] by simp
  have up: "tally w ((children s)[k := ch']) + w ch = tally w (children s) + w ch'" for w
    using tally_update [OF kl, of w ch'] ch by simp
  have "inv_struct mss (put_child k ch' t)"
    using inv t ch' map_update_same [of messages ch' "children s" k] ch by (simp add: sys_inv_def inv_struct_def put_child_def)
  moreover have "inv_sems (put_child k ch' t)"
    unfolding inv_sems_def
  proof (intro conjI allI impI)
    fix c assume c: "c \<noteq> SHM"
    have "sems s c + tally (in_put c) (children s) + length (queue s c) + sv_post c (spc s) = 50"
      using inv c by (simp add: sys_inv_def inv_sems_def)
    then show "sems (put_child k ch' t) c + tally (in_put c) (children (put_child k ch' t)) +
        length (queue (put_child k ch' t) c) + sv_post c (spc (put_child k ch' t)) = 50"
      using up [of "in_put c"] sems(1) [OF c] t by (simp add: put_child_def)
  next
    have "sems s SHM + tally in_shm (children s) + tally of_bool (shm_flags s) = 50 + sv_clear (spc s)"
      using inv by (simp add: sys_inv_def inv_sems_def)
    then show "sems (put_child k ch' t) SHM + tally in_shm (children (put_child k ch' t)) +
        tally of_bool (shm_flags (put_child k ch' t)) = 50 + sv_clear (spc (put_child k ch' t))"
      using up [of in_shm] sems(2) t by (simp add: put_child_def)
  qed
  moreover have "inv_mutex (put_child k ch' t)"
    using inv up [of in_hold] mut t by (simp add: sys_inv_def inv_mutex_def put_child_def)
  moreover have "server_ok (put_child k ch' t)" "inv_msgs mss (put_child k ch' t)" "inv_recv (put_child k ch' t)"
      "rows_ok mss f0 (files_parts (put_child k ch' t)) (contatori (put_child k ch' t)) (fs (put_child k ch' t))"
    using sv inv t by (auto simp: put_child_def server_ok_def inv_msgs_def sys_inv_def inv_recv_def split: server_pc.splits)
  moreover have "\<forall>j<length mss. child_ok (put_child k ch' t) j \<and> conserved (put_child k ch' t) j"
    using own others by (metis)
  ultimately show ?thesis by (simp add: sys_inv_def)
qed

text \<open>A step that touches only semaphores and the child itself.\<close>

lemma child_quiet_inv:
  assumes inv: "sys_inv mss f0 s" and k: "k < length mss" and ch: "ch = children s ! k"
    and ch': "messages ch' = messages ch" "\<And>c. c \<noteq> SHM \<Longrightarrow> sent ch' c = sent ch c"
      "has_left ch' = has_left ch"
    and sems: "\<And>c. c \<noteq> SHM \<Longrightarrow> b c + in_put c ch' = sems s c + in_put c ch"
      "b SHM + in_shm ch' = sems s SHM + in_shm ch"
    and mut: "m + in_hold ch' = mutex s + in_hold ch"
    and own: "child_ok (put_child k ch' s) k"
  shows "sys_inv mss f0 (put_child k ch' (s\<lparr>csem := a, sems := b, mutex := m\<rparr>))"
proof (rule child_update_inv [OF inv k ch])
  have kl: "k < length (children s)" using k sys_inv_children [OF inv] by simp
  let ?t = "s\<lparr>csem := a, sems := b, mutex := m\<rparr>"
  show "server_ok ?t" "inv_msgs mss ?t"
    using inv by (auto simp: sys_inv_def server_ok_def inv_msgs_def split: server_pc.splits)
  show "child_ok (put_child k ch' ?t) k"
    using own by (simp add: child_ok_def put_child_def got_def cong: child_pc.case_cong)
  have "conserved s k" using inv k by (simp add: sys_inv_def)
  then show "conserved (put_child k ch' ?t) k"
    using kl ch ch' by (simp add: conserved_def put_child_def got_def in_slots_def being_cleared_def Let_def cong: server_pc.case_cong)
  show "child_ok (put_child k ch' ?t) j \<and> conserved (put_child k ch' ?t) j" if "j < length mss" "j \<noteq> k" for j
    using inv that
    by (simp add: sys_inv_def conserved_def child_ok_def put_child_def got_def in_slots_def being_cleared_def
        cong: child_pc.case_cong server_pc.case_cong)
qed (use assms in \<open>auto simp: sys_inv_def inv_struct_def\<close>)

lemma works_simps [simp]:
  "sem_fails works = False" "io_fails works = False" "open_fails works = False" "written works i = None"
  "semOp_unchecked works v op = semOp v op" "transferred works ws = concat ws"
  by (simp_all add: works_def semOp_unchecked_def transferred_def map_nth)

lemma semOp_simps [simp]:
  "semOp v (- 1) = Some u \<longleftrightarrow> v = Suc u"
  "semOp v (- 1) = None \<longleftrightarrow> v = 0"
  "semOp (Suc u) (- 1) = Some u"
  "semOp v 1 = Some (Suc v)"
  by (auto simp: semOp_def)

lemma findSHM_Some: "findSHM fl b = Some i \<Longrightarrow> i < 50 \<and> fl ! i = b"
  by (auto simp: findSHM_def find_Some_iff)

lemma findSHM_None: "findSHM fl b = None \<longleftrightarrow> (\<forall>i<50. fl ! i \<noteq> b)"
  by (auto simp: findSHM_def find_None_iff)

text \<open>The holder of the mutex is alone.\<close>

lemma only_holder:
  assumes "sys_inv mss f0 s" "k < length mss" "in_hold (children s ! k) = 1"
  shows "mutex s = 0 \<and> sv_hold (spc s) = 0 \<and> (\<forall>j<length mss. j \<noteq> k \<longrightarrow> in_hold (children s ! j) = 0)"
proof -
  have l: "length (children s) = length mss" using sys_inv_children [OF assms(1)] .
  have m: "mutex s + tally in_hold (children s) + sv_hold (spc s) = 1" using assms(1) by (simp add: sys_inv_def inv_mutex_def)
  have "in_hold (children s ! j) = 0" if "j < length mss" "j \<noteq> k" for j
    using tally_two [of k "children s" j in_hold] assms(2,3) that l m by simp
  moreover have "1 \<le> tally in_hold (children s)" using tally_ge [of k "children s" in_hold] assms(2,3) l by simp
  ultimately show ?thesis using m by auto
qed

lemma server_holds_alone:
  assumes "sys_inv mss f0 s" "sv_hold (spc s) = 1" "k < length mss"
  shows "in_hold (children s ! k) = 0"
  using assms tally_ge [of k "children s" in_hold] sys_inv_children [OF assms(1)] by (simp add: sys_inv_def inv_mutex_def)

lemma child_messages_eq: "sys_inv mss f0 s \<Longrightarrow> k < length mss \<Longrightarrow> messages (children s ! k) = mss ! k"
  by (auto simp: sys_inv_def inv_struct_def)

lemma free_slot_exists:
  assumes "sys_inv mss f0 s" "k < length mss" "cpc (children s ! k) = ShmFind"
  shows "findSHM (shm_flags s) False \<noteq> None"
proof
  assume n: "findSHM (shm_flags s) False = None"
  have fl: "length (shm_flags s) = 50" using assms(1) by (simp add: sys_inv_def inv_struct_def)
  have "shm_flags s = replicate 50 True"
    by (rule nth_equalityI) (use fl n in \<open>auto simp: findSHM_None\<close>)
  then have f: "tally of_bool (shm_flags s) = 50" by (simp add: tally_def sum_list_replicate)
  have "sv_hold (spc s) = 0" using only_holder [OF assms(1,2)] assms(3) by (simp add: in_hold_def)
  then have "sv_clear (spc s) = 0" by (auto simp: sv_hold_def sv_clear_def split: server_pc.splits)
  moreover have "1 \<le> tally in_shm (children s)"
    using tally_ge [of k "children s" in_shm] assms sys_inv_children [OF assms(1)] by (simp add: in_shm_def)
  ultimately show False using assms(1) f by (simp add: sys_inv_def inv_sems_def)
qed

lemma put_inv:
  assumes inv: "sys_inv mss f0 s" and g: "good_jobs mss" and k: "k < length mss" and ch: "ch = children s ! k" "cpc ch = Put c"
  shows "sys_inv mss f0 (put_child k (ch\<lparr>cpc := next_try c, sent := (sent ch)(c := True)\<rparr>)
    (s\<lparr>queue := (queue s)(c := queue s c @ [messages ch ! ipc_index c])\<rparr>))"
    (is "sys_inv mss f0 (put_child k ?ch ?t)")
proof (rule child_update_inv [OF inv k ch(1)])
  have kl: "k < length (children s)" using k sys_inv_children [OF inv] by simp
  have c: "c \<noteq> SHM" "\<not> sent ch c" using inv k ch by (auto simp: sys_inv_def child_ok_def)
  have nt: "next_try c = Try FIFO2 \<or> next_try c = Try MSGQ \<or> next_try c = Try SHM" using c(1) by (cases c) auto
  have m: "messages ch = mss ! k" using child_messages_eq [OF inv k] ch by simp
  have ix: "index (mss ! k ! ipc_index c) = k" using g k by (cases c) (auto simp: good_jobs_def)
  have cons: "conserved s j" if "j < length mss" for j using inv that by (simp add: sys_inv_def)
  show "sems ?t c' + in_put c' ?ch + length (queue ?t c') = sems s c' + in_put c' ch + length (queue s c')" for c'
    using nt ch by (auto simp: in_put_def)
  show "sems ?t SHM + in_shm ?ch + tally of_bool (shm_flags ?t) = sems s SHM + in_shm ch + tally of_bool (shm_flags s)"
    "mutex ?t + in_hold ?ch = mutex s + in_hold ch"
    using nt ch by (auto simp: in_shm_def in_hold_def)
  show "server_ok ?t" using inv by (simp add: sys_inv_def server_ok_def cong: server_pc.case_cong)
  show "inv_msgs mss ?t" using inv m ix k by (auto simp: sys_inv_def inv_msgs_def is_part_def)
  show "child_ok (put_child k ?ch ?t) k" using nt kl by (auto simp: child_ok_def put_child_def)
  have hl: "has_left ?ch = has_left ch" using nt ch c by (auto simp: has_left_def)
  show "conserved (put_child k ?ch ?t) k"
    using cons [OF k] kl ch c m ix hl
    by (auto simp: conserved_def put_child_def got_def in_slots_def being_cleared_def Let_def cong: server_pc.case_cong)
  show "child_ok (put_child k ?ch ?t) j \<and> conserved (put_child k ?ch ?t) j" if "j < length mss" "j \<noteq> k" for j
    using inv that m ix
    by (auto simp: sys_inv_def conserved_def child_ok_def put_child_def got_def in_slots_def being_cleared_def Let_def
        cong: child_pc.case_cong server_pc.case_cong)
qed (use inv in \<open>auto simp: sys_inv_def inv_struct_def\<close>)

lemma slots_buf:
  assumes "length fl = 50" "length buf = 50" "i < 50" "\<not> fl ! i"
  shows "tally (\<lambda>(f, m). of_bool (f \<and> index m = j)) (zip fl (buf[i := m])) =
    tally (\<lambda>(f, m). of_bool (f \<and> index m = j)) (zip fl buf)"
proof -
  have "fl[i := False] = fl" using assms by (metis (full_types) list_update_id)
  then show ?thesis
    using tally_update [of i "zip fl buf" "\<lambda>(f, m). of_bool (f \<and> index m = j)" "(False, m)"] assms
    by (simp add: update_zip)
qed

lemma slots_flag:
  assumes "length fl = 50" "length buf = 50" "i < 50"
  shows "tally (\<lambda>(f, m). of_bool (f \<and> index m = j)) (zip (fl[i := b]) buf) + of_bool (fl ! i \<and> index (buf ! i) = j) =
    tally (\<lambda>(f, m). of_bool (f \<and> index m = j)) (zip fl buf) + of_bool (b \<and> index (buf ! i) = j)"
  using tally_update [of i "zip fl buf" "\<lambda>(f, m). of_bool (f \<and> index m = j)" "(b, buf ! i)"] assms
  by (simp add: update_zip)

lemma flag_holders:
  assumes "cpc ch = ShmFlag i \<or> cpc ch = ShmFind \<or> cpc ch = ShmUnlock"
  shows "in_hold ch = 1"
  using assms by (auto simp: in_hold_def)

lemma not_took: "sv_hold p = 0 \<Longrightarrow> sv_took p = 0 \<and> sv_clear p = 0"
  by (auto simp: weight_defs split: server_pc.splits)

lemma not_cleared: "sv_took (spc s) = 0 \<Longrightarrow> being_cleared k s = 0"
  by (auto simp: being_cleared_def sv_took_def split: server_pc.splits)

lemma conserved_frame:
  assumes "conserved s j" "queue s' = queue s" "\<And>c. in_server c j (spc s') = in_server c j (spc s)" "files_parts s' = files_parts s"
    and "sent (children s' ! j) = sent (children s ! j)"
    and "in_slots j s' + of_bool (has_left (children s ! j)) + being_cleared j s =
      in_slots j s + of_bool (has_left (children s' ! j)) + being_cleared j s'"
  shows "conserved s' j"
proof -
  have "got s' = got s" using assms(4) by (simp add: got_def fun_eq_iff)
  moreover have "in_slots j s + of_bool (got s j SHM) = of_bool (has_left (children s ! j)) + being_cleared j s"
    using assms(1) unfolding conserved_def Let_def by blast
  then have "in_slots j s' + of_bool (got s j SHM) = of_bool (has_left (children s' ! j)) + being_cleared j s'"
    using assms(6) by linarith
  ultimately show ?thesis using assms(1,2,3,5) unfolding conserved_def Let_def by metis
qed

lemma shm_find_inv:
  assumes inv: "sys_inv mss f0 s" and k: "k < length mss" and ch: "ch = children s ! k" "cpc ch = ShmFind"
    and i: "findSHM (shm_flags s) False = Some i"
  shows "sys_inv mss f0 (put_child k (ch\<lparr>cpc := ShmFlag i\<rparr>) (s\<lparr>shm_buf := (shm_buf s)[i := messages ch ! 3]\<rparr>))"
    (is "sys_inv mss f0 (put_child k ?ch ?t)")
proof (rule child_update_inv [OF inv k ch(1)])
  have kl: "k < length (children s)" using k sys_inv_children [OF inv] by simp
  have len: "length (shm_flags s) = 50" "length (shm_buf s) = 50" using inv by (auto simp: sys_inv_def inv_struct_def)
  have fi: "i < 50" "\<not> shm_flags s ! i" using findSHM_Some [OF i] by auto
  have alone: "sv_hold (spc s) = 0" "\<And>j. j < length mss \<Longrightarrow> j \<noteq> k \<Longrightarrow> in_hold (children s ! j) = 0"
    using only_holder [OF inv k] ch by (auto simp: in_hold_def)
  note nt = not_took [OF alone(1)]
  have slots: "in_slots j (put_child k ?ch ?t) = in_slots j s" for j
    using slots_buf [OF len fi] by (simp add: in_slots_def put_child_def)
  have bc: "being_cleared j (put_child k ?ch ?t) = 0" "being_cleared j s = 0" for j
    using nt by (simp_all add: not_cleared put_child_def)
  have ns: "\<not> sent ch SHM" using inv k ch by (auto simp: sys_inv_def child_ok_def)
  show "server_ok ?t" using inv by (simp add: sys_inv_def server_ok_def cong: server_pc.case_cong)
  show "inv_msgs mss ?t" using inv fi len by (auto simp: sys_inv_def inv_msgs_def nth_list_update)
  show "child_ok (put_child k ?ch ?t) k" using kl fi len ns by (auto simp: child_ok_def put_child_def)
  have "conserved s k" using inv k by (simp add: sys_inv_def)
  then show "conserved (put_child k ?ch ?t) k"
    by (rule conserved_frame) (simp_all add: slots bc, simp_all add: put_child_def kl ch(2) ch(1) [symmetric] has_left_def)
  show "child_ok (put_child k ?ch ?t) j \<and> conserved (put_child k ?ch ?t) j" if j: "j < length mss" "j \<noteq> k" for j
  proof
    have ok: "child_ok s j" "conserved s j" using inv j by (simp_all add: sys_inv_def)
    show "child_ok (put_child k ?ch ?t) j"
      using ok(1) alone(2) [OF j] j
      by (auto simp: child_ok_def put_child_def got_def Let_def in_hold_def split: child_pc.splits)
    show "conserved (put_child k ?ch ?t) j"
      by (rule conserved_frame [OF ok(2)]) (simp_all add: slots bc j, simp_all add: put_child_def j(2) [symmetric])
  qed
qed (use inv ch in \<open>auto simp: sys_inv_def inv_struct_def weight_defs\<close>)

lemma shm_flag_inv:
  assumes inv: "sys_inv mss f0 s" and g: "good_jobs mss" and k: "k < length mss" and ch: "ch = children s ! k" "cpc ch = ShmFlag i"
  shows "sys_inv mss f0 (put_child k (ch\<lparr>cpc := ShmUnlock\<rparr>) (s\<lparr>shm_flags := (shm_flags s)[i := True]\<rparr>))"
    (is "sys_inv mss f0 (put_child k ?ch ?t)")
proof (rule child_update_inv [OF inv k ch(1)])
  have kl: "k < length (children s)" using k sys_inv_children [OF inv] by simp
  have len: "length (shm_flags s) = 50" "length (shm_buf s) = 50" using inv by (auto simp: sys_inv_def inv_struct_def)
  have fi: "i < 50" "\<not> shm_flags s ! i" "\<not> sent ch SHM" "shm_buf s ! i = mss ! k ! 3"
    using inv k ch child_messages_eq [OF inv k] by (auto simp: sys_inv_def child_ok_def)
  have ix: "index (mss ! k ! 3) = k" using g k by (simp add: good_jobs_def)
  have alone: "sv_hold (spc s) = 0" "\<And>j. j < length mss \<Longrightarrow> j \<noteq> k \<Longrightarrow> in_hold (children s ! j) = 0"
    using only_holder [OF inv k] ch by (auto simp: in_hold_def)
  note nt = not_took [OF alone(1)]
  have slots: "in_slots j (put_child k ?ch ?t) = in_slots j s + of_bool (j = k)" for j
    using slots_flag [OF len fi(1), of j True] fi ix by (simp add: in_slots_def put_child_def eq_commute)
  have bc: "being_cleared j (put_child k ?ch ?t) = 0" "being_cleared j s = 0" for j
    using nt by (simp_all add: not_cleared put_child_def)
  have cons: "conserved s k" using inv k by (simp add: sys_inv_def)
  then have ng: "\<not> got s k SHM" using ch fi bc by (auto simp: conserved_def Let_def has_left_def)
  have "tally of_bool ((shm_flags s)[i := True]) = tally of_bool (shm_flags s) + (1 :: nat)"
    using tally_update [of i "shm_flags s" of_bool True] fi len by simp
  then show "sems ?t SHM + in_shm ?ch + tally of_bool (shm_flags ?t) = sems s SHM + in_shm ch + tally of_bool (shm_flags s)"
    using ch by (simp add: in_shm_def)
  show "server_ok ?t"
    using inv nt by (auto simp: sys_inv_def server_ok_def sv_took_def split: server_pc.splits)
  have "is_part mss SHM (shm_buf s ! i)" using fi ix k by (simp add: is_part_def)
  then show "inv_msgs mss ?t" using inv fi len by (auto simp: sys_inv_def inv_msgs_def nth_list_update)
  show "child_ok (put_child k ?ch ?t) k" using kl fi ng by (auto simp: child_ok_def put_child_def got_def)
  from cons show "conserved (put_child k ?ch ?t) k"
    by (rule conserved_frame) (simp_all add: slots bc, simp_all add: put_child_def kl ch(2) ch(1) [symmetric] has_left_def fi)
  show "child_ok (put_child k ?ch ?t) j \<and> conserved (put_child k ?ch ?t) j" if j: "j < length mss" "j \<noteq> k" for j
  proof
    have ok: "child_ok s j" "conserved s j" using inv j by (simp_all add: sys_inv_def)
    show "child_ok (put_child k ?ch ?t) j"
      using ok(1) alone(2) [OF j] j
      by (auto simp: child_ok_def put_child_def got_def Let_def in_hold_def split: child_pc.splits)
    show "conserved (put_child k ?ch ?t) j"
      by (rule conserved_frame [OF ok(2)]) (simp_all add: slots bc j, simp_all add: put_child_def j(2) [symmetric])
  qed
qed (use inv ch in \<open>auto simp: sys_inv_def inv_struct_def weight_defs\<close>)

lemma child_step_inv:
  assumes inv: "sys_inv mss f0 s" and g: "good_jobs mss" and k: "k < length mss" and r: "child_step works cap k s = Some r"
  shows "\<exists>s'. r = Inr s' \<and> sys_inv mss f0 s'"
proof -
  define ch where "ch = children s ! k"
  note quiet = child_quiet_inv [OF inv k ch_def]
  have kl: "k < length (children s)" using k sys_inv_children [OF inv] by simp
  have ok: "child_ok s k" using inv k by (simp add: sys_inv_def)
  show ?thesis
  proof (cases "cpc ch")
    case Arrive
    then obtain v where r: "r = Inr (put_child k (ch\<lparr>cpc := AwaitAll\<rparr>) (s\<lparr>csem := v\<rparr>))"
      using r by (auto simp: child_step_def ch_def [symmetric] Let_def)
    show ?thesis using quiet [of "ch\<lparr>cpc := AwaitAll\<rparr>" "sems s" "mutex s" v] Arrive kl
      by (auto simp: r weight_defs has_left_def child_ok_def put_child_def)
  next
    case AwaitAll
    then obtain v where r: "r = Inr (put_child k (ch\<lparr>cpc := LoopTest\<rparr>) (s\<lparr>csem := v\<rparr>))"
      using r by (auto simp: child_step_def ch_def [symmetric] Let_def)
    show ?thesis using quiet [of "ch\<lparr>cpc := LoopTest\<rparr>" "sems s" "mutex s" v] AwaitAll kl
      by (auto simp: r weight_defs has_left_def child_ok_def put_child_def)
  next
    case LoopTest
    define p where "p = (if \<not> sent ch FIFO1 \<or> \<not> sent ch FIFO2 \<or> \<not> sent ch MSGQ \<or> \<not> sent ch SHM then Try FIFO1 else Exited)"
    have p: "p = Try FIFO1 \<or> p = Exited \<and> (\<forall>c. sent ch c)" unfolding p_def by (auto elim: ipc.exhaust) (metis ipc.exhaust)
    have r: "r = Inr (put_child k (ch\<lparr>cpc := p\<rparr>) s)"
      using r LoopTest by (simp add: child_step_def ch_def [symmetric] Let_def p_def)
    show ?thesis using quiet [of "ch\<lparr>cpc := p\<rparr>" "sems s" "mutex s" "csem s"] LoopTest kl p
      by (auto simp: r weight_defs has_left_def child_ok_def put_child_def)
  next
    case (Try c)
    have nt: "next_try c = LoopTest \<or> (\<exists>c'. next_try c = Try c')" by (cases c) auto
    show ?thesis
    proof (cases "sent ch c \<or> sems s c = 0")
      case True
      then have r: "r = Inr (put_child k (ch\<lparr>cpc := next_try c\<rparr>) s)"
        using r Try by (auto simp: child_step_def ch_def [symmetric] Let_def try_ipc_def split: option.splits)
      show ?thesis using quiet [of "ch\<lparr>cpc := next_try c\<rparr>" "sems s" "mutex s" "csem s"] Try kl nt
        by (auto simp: r weight_defs has_left_def child_ok_def put_child_def)
    next
      case False
      then obtain v where v: "sems s c = Suc v" using not0_implies_Suc by auto
      define p where "p = (if c = SHM then ShmLock else Put c)"
      have r: "r = Inr (put_child k (ch\<lparr>cpc := p\<rparr>) (s\<lparr>sems := (sems s)(c := v)\<rparr>))"
        using r Try False v by (simp add: child_step_def ch_def [symmetric] Let_def try_ipc_def p_def)
      show ?thesis using quiet [of "ch\<lparr>cpc := p\<rparr>" "(sems s)(c := v)" "mutex s" "csem s"] Try kl v False
        by (auto simp: r p_def weight_defs has_left_def child_ok_def put_child_def)
    qed
  next
    case (Put c)
    then have "r = Inr (put_child k (ch\<lparr>cpc := next_try c, sent := (sent ch)(c := True)\<rparr>)
        (s\<lparr>queue := (queue s)(c := queue s c @ [messages ch ! ipc_index c])\<rparr>))"
      using r by (auto simp: child_step_def ch_def [symmetric] Let_def put_ipc_def split: if_splits)
    then show ?thesis using put_inv [OF inv g k ch_def Put] by simp
  next
    case ShmLock
    then obtain v where v: "mutex s = Suc v" and r: "r = Inr (put_child k (ch\<lparr>cpc := ShmFind\<rparr>) (s\<lparr>mutex := v\<rparr>))"
      using r by (auto simp: child_step_def ch_def [symmetric] Let_def)
    show ?thesis using quiet [of "ch\<lparr>cpc := ShmFind\<rparr>" "sems s" v "csem s"] ShmLock kl v ok
      by (auto simp: r weight_defs has_left_def child_ok_def put_child_def ch_def)
  next
    case ShmFind
    then obtain i where "findSHM (shm_flags s) False = Some i" using free_slot_exists [OF inv k] by (auto simp: ch_def)
    then show ?thesis using r ShmFind shm_find_inv [OF inv k ch_def ShmFind]
      by (auto simp: child_step_def ch_def [symmetric] Let_def)
  next
    case (ShmFlag i)
    then show ?thesis using r shm_flag_inv [OF inv g k ch_def ShmFlag]
      by (auto simp: child_step_def ch_def [symmetric] Let_def)
  next
    case ShmUnlock
    then have r: "r = Inr (put_child k (ch\<lparr>cpc := LoopTest, sent := (sent ch)(SHM := True)\<rparr>) (s\<lparr>mutex := Suc (mutex s)\<rparr>))"
      using r by (auto simp: child_step_def ch_def [symmetric] Let_def)
    show ?thesis using quiet [of "ch\<lparr>cpc := LoopTest, sent := (sent ch)(SHM := True)\<rparr>" "sems s" "Suc (mutex s)" "csem s"] ShmUnlock kl
      by (auto simp: r weight_defs has_left_def child_ok_def put_child_def)
  next
    case Exited
    then show ?thesis using r by (simp add: child_step_def ch_def [symmetric] Let_def)
  qed
qed

section \<open>The tables of the server\<close>

lemma filter_tally: "length (filter P xs) = tally (\<lambda>x. of_bool (P x)) xs"
  by (induction xs) (simp_all add: tally_def)

lemma filter_update:
  "j < length xs \<Longrightarrow> \<not> P (xs ! j) \<Longrightarrow> P y \<Longrightarrow> length (filter P (xs[j := y])) = Suc (length (filter P xs))"
  using tally_update [of j xs "\<lambda>x. of_bool (P x)" y] by (simp add: filter_tally)

lemma filter_all: "length (filter P xs) = length xs \<Longrightarrow> j < length xs \<Longrightarrow> P (xs ! j)"
  by (metis filter_id_conv length_filter_less nat_less_le nth_mem)

lemma write_full_row:
  assumes "k < length P" "length (P ! k) = 4" "\<And>j. j < 4 \<Longrightarrow> P ! k ! j = Part (mss ! k ! j)"
    and "4 \<le> length (filename (mss ! k ! 0))"
  shows "write_on_file works k P F = Inr (F(job_path mss k \<mapsto> write_over (job_text mss k) (F (job_path mss k))))"
  using assms by (simp add: write_on_file_def the_part_def job_path_def job_text_def part_text_def Let_def)

definition table_step :: "sys \<Rightarrow> nat \<Rightarrow> nat \<Rightarrow> nat \<Rightarrow> part list list \<Rightarrow> nat list \<Rightarrow> bool" where
  "table_step s n k j P C \<longleftrightarrow>
     (\<forall>k'<n. \<forall>j'<4. (P ! k' ! j' \<noteq> Unset) = (files_parts s ! k' ! j' \<noteq> Unset \<or> k' = k \<and> j' = j)) \<and>
     tally (\<lambda>n. n) C = tally (\<lambda>n. n) (contatori s) + 1"

lemma update_parts_ok:
  assumes rows: "rows_ok mss f0 (files_parts s) (contatori s) (fs s)" and g: "good_jobs mss"
    and k: "k < length mss" and j: "j < 4" and free: "files_parts s ! k ! j = Unset"
  shows "\<exists>P C F. update_parts works (mss ! k ! j) k j s = Inr (s\<lparr>files_parts := P, contatori := C, fs := F\<rparr>) \<and>
    rows_ok mss f0 P C F \<and> table_step s (length mss) k j P C"
proof -
  define P0 where "P0 = files_parts s" define C0 where "C0 = contatori s"
  define row where "row = (P0 ! k)[j := Part (mss ! k ! j)]"
  define P where "P = P0[k := row]" define C where "C = C0[k := C0 ! k + 1]"
  have len: "length P0 = length mss" "length C0 = length mss" "length (P0 ! k) = 4" "length row = 4"
    using rows k by (simp_all add: rows_ok_def row_ok_def P0_def C0_def row_def)
  have n: "C0 ! k = length (filter (\<lambda>p. p \<noteq> Unset) (P0 ! k))" using rows k by (simp add: rows_ok_def row_ok_def P0_def C0_def)
  have n': "length (filter (\<lambda>p. p \<noteq> Unset) row) = C0 ! k + 1"
    unfolding row_def n using filter_update [of j "P0 ! k" "\<lambda>p. p \<noteq> Unset"] j len free by (simp add: P0_def)
  have lt: "C0 ! k < 4" using n' len(4) length_filter_le [of "\<lambda>p. p \<noteq> Unset" row] by simp
  have old: "\<forall>j<4. P0 ! k ! j = Unset \<or> P0 ! k ! j = Part (mss ! k ! j)" "fs s (job_path mss k) = f0 (job_path mss k)"
    using rows k lt by (auto simp: rows_ok_def row_ok_def P0_def C0_def)
  have new: "row ! i = Unset \<or> row ! i = Part (mss ! k ! i)" if "i < 4" for i
    using old(1) that len j by (auto simp: row_def nth_list_update)
  have sum: "tally (\<lambda>n. n) C = tally (\<lambda>n. n) C0 + 1"
    using tally_update [of k C0 "\<lambda>n. n" "C0 ! k + 1"] k len by (simp add: C_def)
  have mark: "(row ! i \<noteq> Unset) = (P0 ! k ! i \<noteq> Unset \<or> i = j)" if "i < 4" for i
    using that len j by (auto simp: row_def nth_list_update)
  have up: "update_parts works (mss ! k ! j) k j s = (if C0 ! k + 1 = 4
      then bindR (write_on_file works k P (fs s)) (\<lambda>f. Inr (s\<lparr>contatori := C, fs := f, files_parts := P[k := replicate 4 Freed]\<rparr>))
      else Inr (s\<lparr>files_parts := P, contatori := C\<rparr>))"
    using k j len by (simp add: update_parts_def P_def C_def row_def P0_def C0_def Let_def)
  have others: "job_path mss i \<noteq> job_path mss k" if "i < length mss" "i \<noteq> k" for i
    using g that k by (auto simp: good_jobs_def job_path_def distinct_conv_nth)
  show ?thesis
  proof (cases "C0 ! k + 1 = 4")
    case True
    have full: "P ! k ! i = Part (mss ! k ! i)" if "i < 4" for i
      using new [OF that] filter_all [of "\<lambda>p. p \<noteq> Unset" row i] n' True len that k by (simp add: P_def)
    let ?F = "(fs s)(job_path mss k \<mapsto> write_over (job_text mss k) (fs s (job_path mss k)))"
    let ?P = "P[k := replicate 4 Freed]"
    have "write_on_file works k P (fs s) = Inr ?F"
      by (rule write_full_row) (use k len full g in \<open>auto simp: P_def good_jobs_def\<close>)
    then have "update_parts works (mss ! k ! j) k j s = Inr (s\<lparr>files_parts := ?P, contatori := C, fs := ?F\<rparr>)"
      using True by (simp add: up)
    moreover have "row_ok mss f0 k (replicate 4 Freed) (C0 ! k + 1) (?F (job_path mss k))"
      using True old by (simp add: row_ok_def)
    then have "rows_ok mss f0 ?P C ?F"
      using rows k len others by (auto simp: rows_ok_def P_def C_def P0_def [symmetric] C0_def [symmetric] nth_list_update)
    moreover have "table_step s (length mss) k j ?P C"
      using mark filter_all [of "\<lambda>p. p \<noteq> Unset" row] n' True sum k len
      by (auto simp: table_step_def P_def P0_def [symmetric] C0_def [symmetric] nth_list_update)
    ultimately show ?thesis by blast
  next
    case False
    then have "update_parts works (mss ! k ! j) k j s = Inr (s\<lparr>files_parts := P, contatori := C, fs := fs s\<rparr>)"
      by (simp add: up)
    moreover have "row_ok mss f0 k row (C0 ! k + 1) (fs s (job_path mss k))"
      using False lt new n' old len by (simp add: row_ok_def)
    then have "rows_ok mss f0 P C (fs s)"
      using rows k len by (auto simp: rows_ok_def P_def C_def P0_def [symmetric] C0_def [symmetric] nth_list_update)
    moreover have "table_step s (length mss) k j P C"
      using mark sum k len by (auto simp: table_step_def P_def P0_def [symmetric] C0_def [symmetric] nth_list_update)
    ultimately show ?thesis by blast
  qed
qed

section \<open>Steps of the server\<close>

lemma server_update_inv:
  assumes inv: "sys_inv mss f0 s"
    and t: "children t = children s" "length (shm_flags t) = 50" "length (shm_buf t) = 50"
    and sems: "\<And>c. c \<noteq> SHM \<Longrightarrow> sems t c + length (queue t c) + sv_post c (spc t) = sems s c + length (queue s c) + sv_post c (spc s)"
      "sems t SHM + tally of_bool (shm_flags t) + sv_clear (spc s) = sems s SHM + tally of_bool (shm_flags s) + sv_clear (spc t)"
    and mut: "mutex t + sv_hold (spc t) = mutex s + sv_hold (spc s)"
    and sv: "server_ok t" "inv_msgs mss t"
    and recv: "tally (\<lambda>n. n) (contatori t) + received s + sv_took (spc s) = tally (\<lambda>n. n) (contatori s) + received t + sv_took (spc t)"
    and rows: "rows_ok mss f0 (files_parts t) (contatori t) (fs t)"
    and ch: "\<And>k. k < length mss \<Longrightarrow> child_ok t k" "\<And>k. k < length mss \<Longrightarrow> conserved t k"
  shows "sys_inv mss f0 t"
proof -
  have "inv_struct mss t" using inv t by (simp add: sys_inv_def inv_struct_def)
  moreover have "inv_sems t"
    unfolding inv_sems_def
  proof (intro conjI allI impI)
    fix c assume c: "c \<noteq> SHM"
    have "sems s c + tally (in_put c) (children s) + length (queue s c) + sv_post c (spc s) = 50"
      using inv c by (simp add: sys_inv_def inv_sems_def)
    then show "sems t c + tally (in_put c) (children t) + length (queue t c) + sv_post c (spc t) = 50"
      using sems(1) [OF c] t(1) by simp
  next
    have "sems s SHM + tally in_shm (children s) + tally of_bool (shm_flags s) = 50 + sv_clear (spc s)"
      using inv by (simp add: sys_inv_def inv_sems_def)
    then show "sems t SHM + tally in_shm (children t) + tally of_bool (shm_flags t) = 50 + sv_clear (spc t)"
      using sems(2) t(1) by simp
  qed
  moreover have "inv_mutex t" using inv mut t(1) by (simp add: sys_inv_def inv_mutex_def)
  moreover have "inv_recv t" using inv recv by (simp add: sys_inv_def inv_recv_def)
  ultimately show ?thesis using sv rows ch by (simp add: sys_inv_def)
qed

lemma child_ok_frame:
  assumes "child_ok s k" "children t = children s" "shm_flags t = shm_flags s" "shm_buf t = shm_buf s"
    and "cpc (children s ! k) = ShmUnlock \<Longrightarrow> got t k SHM = got s k SHM"
  shows "child_ok t k"
  using assms by (auto simp: child_ok_def Let_def split: child_pc.splits)

text \<open>A step that only moves the server and changes semaphores.\<close>

lemma server_quiet_inv:
  assumes inv: "sys_inv mss f0 s"
    and sems: "\<And>c. c \<noteq> SHM \<Longrightarrow> b c = sems s c" "b SHM + sv_clear (spc s) = sems s SHM + sv_clear p"
    and pc: "sv_carry (spc s) = 0 \<and> sv_carry p = 0" "sv_took p = sv_took (spc s)"
      "sv_took p = 1 \<Longrightarrow> \<exists>i. spc s = SPostShm i \<and> p = SClear i"
    and mut: "m + sv_hold p = mutex s + sv_hold (spc s)"
    and sv: "server_ok (s\<lparr>spc := p\<rparr>)"
  shows "sys_inv mss f0 (s\<lparr>sems := b, mutex := m, spc := p\<rparr>)" (is "sys_inv mss f0 ?t")
proof (rule server_update_inv [OF inv])
  have np: "spc s \<noteq> SPost c x" "p \<noteq> SPost c x" "spc s \<noteq> SStore c x" "p \<noteq> SStore c x" for c x
    using pc(1) by (auto simp: sv_carry_def)
  then have "sv_post c (spc s) = 0" "sv_post c p = 0" for c by (simp_all add: sv_post_def split: server_pc.split)
  then show "sems ?t c + length (queue ?t c) + sv_post c (spc ?t) = sems s c + length (queue s c) + sv_post c (spc s)" if "c \<noteq> SHM" for c
    using sems(1) [OF that] by simp
  show "server_ok ?t" using sv by (simp add: server_ok_def cong: server_pc.case_cong)
  show "inv_msgs mss ?t" using inv np by (auto simp: sys_inv_def inv_msgs_def split: server_pc.splits)
  show "child_ok ?t k" if "k < length mss" for k
    by (rule child_ok_frame [of s]) (use inv that in \<open>auto simp: sys_inv_def got_def\<close>)
  show "conserved ?t k" if "k < length mss" for k
  proof (rule conserved_frame [of s])
    show "conserved s k" using inv that by (simp add: sys_inv_def)
    show "in_server c k (spc ?t) = in_server c k (spc s)" for c
      using np by (auto simp: in_server_def split: server_pc.splits)
    have "being_cleared k ?t = being_cleared k s"
    proof (cases "sv_took p = 1")
      case True
      then show ?thesis using pc(3) by (auto simp: being_cleared_def)
    next
      case False
      then have "sv_took p = 0" by (auto simp: sv_took_def split: server_pc.splits)
      then show ?thesis using pc(2) by (simp add: not_cleared)
    qed
    then show "in_slots k ?t + of_bool (has_left (children s ! k)) + being_cleared k s =
        in_slots k s + of_bool (has_left (children ?t ! k)) + being_cleared k ?t"
      by (simp add: in_slots_def)
  qed simp_all
qed (use inv sems pc mut in \<open>auto simp: sys_inv_def inv_struct_def\<close>)

lemma server_read_inv:
  assumes inv: "sys_inv mss f0 s" and p: "spc s = SRead c" and q: "queue s c = m # q"
  shows "sys_inv mss f0 (s\<lparr>queue := (queue s)(c := q), spc := SPost c m\<rparr>)" (is "sys_inv mss f0 ?t")
proof (rule server_update_inv [OF inv])
  have c: "c \<noteq> SHM" using inv p by (simp add: sys_inv_def server_ok_def)
  show "server_ok ?t" using c by (simp add: server_ok_def)
  show "inv_msgs mss ?t" using inv p q c by (auto simp: sys_inv_def inv_msgs_def)
  show "child_ok ?t k" if "k < length mss" for k
    by (rule child_ok_frame [of s]) (use inv that in \<open>auto simp: sys_inv_def got_def\<close>)
  show "conserved ?t k" if "k < length mss" for k
    unfolding conserved_def Let_def
  proof (intro conjI allI impI)
    have cons: "conserved s k" using inv that by (simp add: sys_inv_def)
    show "count_list (map index (queue ?t c')) k + in_server c' k (spc ?t) + of_bool (got ?t k c') =
        of_bool (sent (children ?t ! k) c')" if "c' \<noteq> SHM" for c'
    proof -
      have "count_list (map index (queue s c')) k + in_server c' k (spc s) + of_bool (got s k c') = of_bool (sent (children s ! k) c')"
        using cons that by (simp add: conserved_def Let_def)
      then show ?thesis using q p by (cases "c' = c") (auto simp: in_server_def got_def of_bool_def split: if_splits)
    qed
    show "in_slots k ?t + of_bool (got ?t k SHM) = of_bool (has_left (children ?t ! k)) + being_cleared k ?t"
      using cons p by (simp add: conserved_def Let_def in_slots_def got_def being_cleared_def)
  qed
qed (use inv p q in \<open>auto simp: sys_inv_def inv_struct_def weight_defs\<close>)

lemma ipc_index_inj [simp]: "ipc_index c = ipc_index c' \<longleftrightarrow> c = c'"
  by (cases c; cases c') auto

lemma ipc_index_less [simp]: "ipc_index c < 4"
  by (cases c) auto

lemma got_table:
  assumes "table_step s n k (ipc_index c) P C" "k' < n" "files_parts t = P"
  shows "got t k' c' = (got s k' c' \<or> k' = k \<and> c' = c)"
  using assms by (simp add: table_step_def got_def)

text \<open>The part in the hand of the server was not received before.\<close>

lemma store_fresh:
  assumes inv: "sys_inv mss f0 s" and p: "spc s = SStore c m"
  shows "c \<noteq> SHM \<and> index m < length mss \<and> m = mss ! index m ! ipc_index c \<and> \<not> got s (index m) c"
proof -
  have c: "c \<noteq> SHM" "is_part mss c m" using inv p by (auto simp: sys_inv_def server_ok_def inv_msgs_def)
  then have k: "index m < length mss" "m = mss ! index m ! ipc_index c" by (auto simp: is_part_def)
  have "count_list (map index (queue s c)) (index m) + in_server c (index m) (spc s) + of_bool (got s (index m) c) =
      of_bool (sent (children s ! index m) c)"
    using inv k(1) c(1) by (simp add: sys_inv_def conserved_def Let_def)
  then have "\<not> got s (index m) c" using p by (auto simp: in_server_def of_bool_def split: if_splits)
  with c k show ?thesis by simp
qed

lemma server_post_inv:
  assumes inv: "sys_inv mss f0 s" and p: "spc s = SPost c m"
  shows "sys_inv mss f0 (s\<lparr>sems := (sems s)(c := Suc (sems s c)), spc := SStore c m\<rparr>)" (is "sys_inv mss f0 ?t")
proof (rule server_update_inv [OF inv])
  have c: "c \<noteq> SHM" using inv p by (simp add: sys_inv_def server_ok_def)
  show "sems ?t c' + length (queue ?t c') + sv_post c' (spc ?t) = sems s c' + length (queue s c') + sv_post c' (spc s)" for c'
    by (simp add: p sv_post_def)
  show "sems ?t SHM + tally of_bool (shm_flags ?t) + sv_clear (spc s) = sems s SHM + tally of_bool (shm_flags s) + sv_clear (spc ?t)"
    using c by (simp add: p sv_clear_def)
  show "server_ok ?t" using c by (simp add: server_ok_def)
  show "inv_msgs mss ?t" using inv p by (simp add: sys_inv_def inv_msgs_def)
  show "child_ok ?t k" if "k < length mss" for k
    by (rule child_ok_frame [of s]) (use inv that in \<open>auto simp: sys_inv_def got_def\<close>)
  show "conserved ?t k" if "k < length mss" for k
    by (rule conserved_frame [of s]) (use inv that p in \<open>auto simp: sys_inv_def in_server_def in_slots_def being_cleared_def\<close>)
qed (use inv p in \<open>auto simp: sys_inv_def inv_struct_def weight_defs\<close>)

lemma server_store_inv:
  assumes inv: "sys_inv mss f0 s" and g: "good_jobs mss" and p: "spc s = SStore c m"
  shows "\<exists>s'. server_step works s = Some (Inr s') \<and> sys_inv mss f0 s'"
proof -
  let ?k = "index m"
  have f: "c \<noteq> SHM" "?k < length mss" "m = mss ! ?k ! ipc_index c" "\<not> got s ?k c" using store_fresh [OF inv p] by auto
  have "\<exists>P C F. update_parts works (mss ! ?k ! ipc_index c) ?k (ipc_index c) s =
      Inr (s\<lparr>files_parts := P, contatori := C, fs := F\<rparr>) \<and> rows_ok mss f0 P C F \<and> table_step s (length mss) ?k (ipc_index c) P C"
    by (rule update_parts_ok) (use inv g f in \<open>auto simp: sys_inv_def got_def\<close>)
  then obtain P C F where u: "update_parts works m ?k (ipc_index c) s = Inr (s\<lparr>files_parts := P, contatori := C, fs := F\<rparr>)"
      "rows_ok mss f0 P C F" "table_step s (length mss) ?k (ipc_index c) P C"
    unfolding f(3) [symmetric] by (auto simp: table_step_def)
  define t where "t = s\<lparr>files_parts := P, contatori := C, fs := F, received := received s + 1, spc := next_read c\<rparr>"
  have nr: "(\<exists>c'. c' \<noteq> SHM \<and> next_read c = SRead c') \<or> next_read c = SMutex" using f(1) by (cases c) auto
  have got: "got t k' c' = (got s k' c' \<or> k' = ?k \<and> c' = c)" if "k' < length mss" for k' c'
    by (rule got_table [OF u(3) that]) (simp add: t_def)
  have nh: "sv_hold (next_read c) = 0" "sv_took (next_read c) = 0" "sv_clear (next_read c) = 0" "sv_post c' (next_read c) = 0"
      "in_server c' k (next_read c) = 0" for c' k
    using nr by (auto simp: weight_defs in_server_def)
  have "sys_inv mss f0 t"
  proof (rule server_update_inv [OF inv])
    show "server_ok t" using nr by (auto simp: server_ok_def t_def)
    show "inv_msgs mss t" using inv nr by (auto simp: sys_inv_def inv_msgs_def t_def)
    show "tally (\<lambda>n. n) (contatori t) + received s + sv_took (spc s) = tally (\<lambda>n. n) (contatori s) + received t + sv_took (spc t)"
      using u(3) nh p by (simp add: t_def table_step_def sv_took_def [of "SStore c m"])
    show "child_ok t k" if "k < length mss" for k
      by (rule child_ok_frame [of s]) (use inv that got f(1) in \<open>auto simp: sys_inv_def t_def\<close>)
    show "conserved t k" if k: "k < length mss" for k
      unfolding conserved_def Let_def
    proof (intro conjI allI impI)
      have cons: "conserved s k" using inv k by (simp add: sys_inv_def)
      show "count_list (map index (queue t c')) k + in_server c' k (spc t) + of_bool (got t k c') =
          of_bool (sent (children t ! k) c')" if "c' \<noteq> SHM" for c'
      proof -
        have "count_list (map index (queue s c')) k + in_server c' k (spc s) + of_bool (got s k c') = of_bool (sent (children s ! k) c')"
          using cons that by (simp add: conserved_def Let_def)
        then show ?thesis using p f nh got [OF k] by (auto simp: in_server_def [of _ _ "SStore c m"] t_def of_bool_def split: if_splits)
      qed
      have "in_slots k s + of_bool (got s k SHM) = of_bool (has_left (children s ! k)) + being_cleared k s"
        using cons by (simp add: conserved_def Let_def)
      moreover have "being_cleared k s = 0" "being_cleared k t = 0" "in_slots k t = in_slots k s" "children t = children s"
        using p nh by (simp_all add: not_cleared sv_took_def [of "SStore c m"] t_def in_slots_def)
      moreover have "got t k SHM = got s k SHM" using got [OF k] f(1) by simp
      ultimately show "in_slots k t + of_bool (got t k SHM) = of_bool (has_left (children t ! k)) + being_cleared k t"
        by simp
    qed
  qed (use inv p f nh u in \<open>auto simp: sys_inv_def inv_struct_def t_def sv_clear_def [of "SStore c m"] sv_hold_def [of "SStore c m"] sv_post_def [of _ "SStore c m"]\<close>)
  moreover have "server_step works s = Some (Inr t)" using p u(1) by (simp add: server_step_def t_def)
  ultimately show ?thesis by blast
qed

lemma slot_fresh:
  assumes inv: "sys_inv mss f0 s" and p: "spc s = SFind" and i: "i < 50" "shm_flags s ! i"
  shows "index (shm_buf s ! i) < length mss \<and> shm_buf s ! i = mss ! index (shm_buf s ! i) ! 3 \<and> \<not> got s (index (shm_buf s ! i)) SHM"
proof -
  let ?k = "index (shm_buf s ! i)"
  have "is_part mss SHM (shm_buf s ! i)" using inv i by (simp add: sys_inv_def inv_msgs_def)
  then have k: "?k < length mss" "shm_buf s ! i = mss ! ?k ! 3" by (simp_all add: is_part_def)
  have len: "length (shm_flags s) = 50" "length (shm_buf s) = 50" using inv by (auto simp: sys_inv_def inv_struct_def)
  have "1 \<le> in_slots ?k s"
    using tally_ge [of i "zip (shm_flags s) (shm_buf s)" "\<lambda>(f, m). of_bool (f \<and> index m = ?k)"] i len by (simp add: in_slots_def)
  moreover have "in_slots ?k s + of_bool (got s ?k SHM) = of_bool (has_left (children s ! ?k)) + being_cleared ?k s"
    using inv k(1) by (simp add: sys_inv_def conserved_def Let_def)
  moreover have "being_cleared ?k s = 0" using p by (simp add: not_cleared sv_took_def)
  ultimately have "\<not> got s ?k SHM" by (auto simp: of_bool_def split: if_splits)
  with k show ?thesis by simp
qed

lemma server_find_inv:
  assumes inv: "sys_inv mss f0 s" and g: "good_jobs mss" and p: "spc s = SFind" and i: "findSHM (shm_flags s) True = Some i"
  shows "\<exists>s'. server_step works s = Some (Inr s') \<and> sys_inv mss f0 s'"
proof -
  let ?m = "shm_buf s ! i" let ?k = "index ?m"
  have fi: "i < 50" "shm_flags s ! i" using findSHM_Some [OF i] by auto
  have f: "?k < length mss" "?m = mss ! ?k ! 3" "\<not> got s ?k SHM" using slot_fresh [OF inv p fi] by auto
  have "\<exists>P C F. update_parts works (mss ! ?k ! 3) ?k 3 s = Inr (s\<lparr>files_parts := P, contatori := C, fs := F\<rparr>) \<and>
      rows_ok mss f0 P C F \<and> table_step s (length mss) ?k 3 P C"
    by (rule update_parts_ok) (use inv g f in \<open>auto simp: sys_inv_def got_def\<close>)
  then obtain P C F where u: "update_parts works ?m ?k 3 s = Inr (s\<lparr>files_parts := P, contatori := C, fs := F\<rparr>)"
      "rows_ok mss f0 P C F" "table_step s (length mss) ?k (ipc_index SHM) P C"
    unfolding f(2) [symmetric] by auto
  define t where "t = s\<lparr>files_parts := P, contatori := C, fs := F, spc := SPostShm i\<rparr>"
  have got: "got t k' c' = (got s k' c' \<or> k' = ?k \<and> c' = SHM)" if "k' < length mss" for k' c'
    by (rule got_table [OF u(3) that]) (simp add: t_def)
  have alone: "in_hold (children s ! k) = 0" if "k < length mss" for k
    by (rule server_holds_alone [OF inv _ that]) (simp add: p sv_hold_def)
  have "sys_inv mss f0 t"
  proof (rule server_update_inv [OF inv])
    show "server_ok t" using fi by (simp add: server_ok_def t_def)
    show "inv_msgs mss t" using inv by (auto simp: sys_inv_def inv_msgs_def t_def)
    show "tally (\<lambda>n. n) (contatori t) + received s + sv_took (spc s) = tally (\<lambda>n. n) (contatori s) + received t + sv_took (spc t)"
      using u(3) p by (simp add: t_def table_step_def sv_took_def)
    show "child_ok t k" if "k < length mss" for k
      by (rule child_ok_frame [of s]) (use inv that alone [OF that] in \<open>auto simp: sys_inv_def t_def in_hold_def\<close>)
    show "conserved t k" if k: "k < length mss" for k
      unfolding conserved_def Let_def
    proof (intro conjI allI impI)
      have cons: "conserved s k" using inv k by (simp add: sys_inv_def)
      show "count_list (map index (queue t c')) k + in_server c' k (spc t) + of_bool (got t k c') =
          of_bool (sent (children t ! k) c')" if "c' \<noteq> SHM" for c'
      proof -
        have "count_list (map index (queue s c')) k + in_server c' k (spc s) + of_bool (got s k c') = of_bool (sent (children s ! k) c')"
          using cons that by (simp add: conserved_def Let_def)
        then show ?thesis using p that got [OF k] by (simp add: in_server_def t_def)
      qed
      have "in_slots k s + of_bool (got s k SHM) = of_bool (has_left (children s ! k)) + being_cleared k s"
        using cons by (simp add: conserved_def Let_def)
      moreover have "of_bool (got t k SHM) = of_bool (got s k SHM) + (of_bool (?k = k) :: nat)" using got [OF k, of SHM] f(3) by auto
      ultimately show "in_slots k t + of_bool (got t k SHM) = of_bool (has_left (children t ! k)) + being_cleared k t"
        using p by (simp add: being_cleared_def in_slots_def t_def)
    qed
  qed (use inv p u in \<open>auto simp: sys_inv_def inv_struct_def t_def weight_defs\<close>)
  moreover have "server_step works s = Some (Inr t)" using p i u(1) by (simp add: server_step_def t_def)
  ultimately show ?thesis by blast
qed

lemma server_clear_inv:
  assumes inv: "sys_inv mss f0 s" and p: "spc s = SClear i"
  shows "sys_inv mss f0 (s\<lparr>shm_flags := (shm_flags s)[i := False], received := received s + 1, spc := SUnlock\<rparr>)" (is "sys_inv mss f0 ?t")
proof (rule server_update_inv [OF inv])
  have fi: "i < 50" "shm_flags s ! i" using inv p by (simp_all add: sys_inv_def server_ok_def)
  have len: "length (shm_flags s) = 50" "length (shm_buf s) = 50" using inv by (auto simp: sys_inv_def inv_struct_def)
  have alone: "in_hold (children s ! k) = 0" if "k < length mss" for k
    by (rule server_holds_alone [OF inv _ that]) (simp add: p sv_hold_def)
  have "tally of_bool ((shm_flags s)[i := False]) + (1 :: nat) = tally of_bool (shm_flags s)"
    using tally_update [of i "shm_flags s" of_bool False] fi len by simp
  then show "sems ?t SHM + tally of_bool (shm_flags ?t) + sv_clear (spc s) = sems s SHM + tally of_bool (shm_flags s) + sv_clear (spc ?t)"
    using p by (simp add: sv_clear_def)
  show "server_ok ?t" by (simp add: server_ok_def)
  show "inv_msgs mss ?t" using inv fi len by (auto simp: sys_inv_def inv_msgs_def nth_list_update)
  show "child_ok ?t k" if "k < length mss" for k
    using inv alone [OF that] that by (auto simp: sys_inv_def child_ok_def in_hold_def Let_def got_def split: child_pc.splits)
  show "conserved ?t k" if "k < length mss" for k
  proof (rule conserved_frame [of s])
    show "conserved s k" using inv that by (simp add: sys_inv_def)
    show "in_server c k (spc ?t) = in_server c k (spc s)" for c using p by (simp add: in_server_def)
    show "in_slots k ?t + of_bool (has_left (children s ! k)) + being_cleared k s =
        in_slots k s + of_bool (has_left (children ?t ! k)) + being_cleared k ?t"
      using slots_flag [OF len fi(1), of k False] fi p by (simp add: in_slots_def being_cleared_def)
  qed simp_all
qed (use inv p in \<open>auto simp: sys_inv_def inv_struct_def weight_defs\<close>)

lemma server_step_inv:
  assumes inv: "sys_inv mss f0 s" and g: "good_jobs mss" and r: "server_step works s = Some r"
  shows "\<exists>s'. r = Inr s' \<and> sys_inv mss f0 s'"
proof -
  note quiet = server_quiet_inv [OF inv]
  have len: "length (children s) = length mss" using sys_inv_children [OF inv] .
  show ?thesis
  proof (cases "spc s")
    case SLoop
    then show ?thesis using r quiet [of "sems s" "SRead FIFO1" "mutex s"] quiet [of "sems s" SDone "mutex s"]
      by (auto simp: server_step_def weight_defs server_ok_def)
  next
    case (SRead c)
    have c: "c \<noteq> SHM" using inv SRead by (simp add: sys_inv_def server_ok_def)
    have nr: "(\<exists>c'. c' \<noteq> SHM \<and> next_read c = SRead c') \<or> next_read c = SMutex" using c by (cases c) auto
    show ?thesis
    proof (cases "queue s c")
      case Nil
      then show ?thesis using r SRead quiet [of "sems s" "next_read c" "mutex s"] nr
        by (auto simp: server_step_def weight_defs server_ok_def)
    next
      case (Cons m q)
      then show ?thesis using r SRead server_read_inv [OF inv SRead Cons] by (auto simp: server_step_def)
    qed
  next
    case (SPost c m)
    then show ?thesis using r server_post_inv [OF inv SPost] by (auto simp: server_step_def)
  next
    case (SStore c m)
    then show ?thesis using server_store_inv [OF inv g SStore] r by auto
  next
    case SMutex
    show ?thesis
    proof (cases "mutex s")
      case 0
      have "sys_inv mss f0 (s\<lparr>spc := SLoop\<rparr>)"
        using SMutex quiet [of "sems s" SLoop "mutex s"] by (auto simp: weight_defs server_ok_def)
      then show ?thesis using 0 r SMutex by (auto simp: server_step_def split: option.splits)
    next
      case (Suc v)
      then show ?thesis using r SMutex quiet [of "sems s" SFind v]
        by (auto simp: server_step_def weight_defs server_ok_def)
    qed
  next
    case SFind
    show ?thesis
    proof (cases "findSHM (shm_flags s) True")
      case None
      then show ?thesis using r SFind quiet [of "sems s" SUnlock "mutex s"]
        by (auto simp: server_step_def weight_defs server_ok_def)
    next
      case (Some i)
      then show ?thesis using server_find_inv [OF inv g SFind Some] r by auto
    qed
  next
    case (SPostShm i)
    then show ?thesis using r quiet [of "(sems s)(SHM := Suc (sems s SHM))" "SClear i" "mutex s"] inv
      by (auto simp: server_step_def weight_defs server_ok_def sys_inv_def)
  next
    case (SClear i)
    then show ?thesis using r server_clear_inv [OF inv SClear] by (auto simp: server_step_def)
  next
    case SUnlock
    then show ?thesis using r quiet [of "sems s" SLoop "Suc (mutex s)"]
      by (auto simp: server_step_def weight_defs server_ok_def)
  next
    case SDone
    then show ?thesis using r by (simp add: server_step_def)
  qed
qed

section \<open>Every interleaving\<close>

lemma semInitVal_ipc: "semInitVal ! (ipc_index c + 2) = 50" "semInitVal ! 6 = 1"
  by (cases c) (simp_all add: semInitVal_def)

lemma sys_inv_init:
  assumes "length buf = 50" "good_jobs mss"
  shows "sys_inv mss f0 (init_sys mss buf f0)" (is "sys_inv mss f0 ?s")
proof -
  have z: "tally w (map init_child mss) = 0" if "\<And>ms. w (init_child ms) = 0" for w
    using that by (simp add: tally_zero)
  have zs: "tally (\<lambda>(f, m). of_bool (f \<and> index m = k)) (zip (replicate 50 False) buf) = 0" for k
    using assms by (simp add: tally_zero)
  have "inv_struct mss ?s" using assms by (simp add: inv_struct_def init_sys_def init_child_def comp_def)
  moreover have w: "tally (in_put c) (map init_child mss) = 0" "tally in_shm (map init_child mss) = 0"
      "tally in_hold (map init_child mss) = 0" for c
    by (rule z, simp add: weight_defs init_child_def)+
  have "tally of_bool (replicate 50 False) = (0 :: nat)" by (simp add: tally_zero)
  then have "inv_sems ?s" "inv_mutex ?s"
    by (simp_all only: inv_sems_def inv_mutex_def init_sys_def sys.simps semInitVal_ipc w) (simp_all add: weight_defs)
  moreover have "server_ok ?s" "inv_msgs mss ?s" "inv_recv ?s"
    by (simp_all add: server_ok_def inv_msgs_def inv_recv_def init_sys_def sv_took_def tally_def sum_list_replicate)
  moreover have "child_ok ?s k \<and> conserved ?s k" if "k < length mss" for k
    using that zs [of k]
    by (auto simp: child_ok_def conserved_def init_sys_def init_child_def has_left_def got_def in_server_def in_slots_def
        being_cleared_def nth_append elim: ipc.exhaust)
  moreover have "rows_ok mss f0 (files_parts ?s) (contatori ?s) (fs ?s)"
    by (simp add: rows_ok_def row_ok_def init_sys_def)
  ultimately show ?thesis by (simp add: sys_inv_def)
qed

lemma sys_step_inv:
  assumes "sys_inv mss f0 s" "good_jobs mss" "sys_step cap s r"
  shows "\<exists>s'. r = Inr s' \<and> sys_inv mss f0 s'"
  using assms(3)
proof (cases rule: sys_step.cases)
  case (child k)
  then show ?thesis using child_step_inv [OF assms(1,2), of k cap r] sys_inv_children [OF assms(1)] by simp
next
  case server
  then show ?thesis by (rule server_step_inv [OF assms(1,2)])
qed

lemma reachable_inv:
  assumes "reachable cap (init_sys mss buf f0) s" "length buf = 50" "good_jobs mss"
  shows "sys_inv mss f0 s"
  using assms(1)
proof induction
  case start
  then show ?case by (rule sys_inv_init [OF assms(2,3)])
next
  case (step s s')
  then show ?case using sys_step_inv [OF step.IH assms(3) step.hyps(2)] by auto
qed

section \<open>Failing calls\<close>

lemma bindR_return_fails [simp]: "bindR x (\<lambda>a. Inr (f a)) = Inl e \<longleftrightarrow> x = Inl e"
  by (cases x) simp_all

lemma write_on_file_fails:
  assumes "write_on_file works k P F = Inr F'"
  shows "write_on_file os k P F = Inl e \<longleftrightarrow> open_fails os \<and> e = ErrExit ''error while opening output file''"
  using assms by (auto simp: write_on_file_def Let_def split: if_splits)

lemma update_parts_fails:
  assumes "update_parts works m k j s = Inr s'"
  shows "update_parts os m k j s = Inl e \<longleftrightarrow>
    open_fails os \<and> contatori s ! k = 3 \<and> e = ErrExit ''error while opening output file''"
proof -
  obtain r' n where u: "bindR (get_at (files_parts s) k) (\<lambda>r. set_at r j (Part m)) = Inr r'" "get_at (contatori s) k = Inr n"
    using assms by (auto simp: update_parts_def)
  let ?P = "(files_parts s)[k := r']"
  have n: "n = contatori s ! k" using u(2) by (auto simp: get_at_def split: if_splits)
  have up: "update_parts os m k j s = (let s = s\<lparr>files_parts := ?P, contatori := (contatori s)[k := n + 1]\<rparr> in
      if n + 1 = 4 then bindR (write_on_file os k ?P (fs s)) (\<lambda>f. Inr (s\<lparr>fs := f, files_parts := ?P[k := replicate 4 Freed]\<rparr>))
      else Inr s)" for os
    using u by (auto simp: update_parts_def Let_def)
  show ?thesis
  proof (cases "n + 1 = 4")
    case True
    then obtain F where "write_on_file works k ?P (fs s) = Inr F" using assms up [of works] by (auto simp: Let_def)
    from write_on_file_fails [OF this, of os e] True show ?thesis by (simp add: up [of os] Let_def n [symmetric])
  qed (use n in \<open>simp add: up [of os] Let_def\<close>)
qed

lemma child_step_fails:
  assumes inv: "sys_inv mss f0 s" and k: "k < length mss"
  shows "child_step os cap k s = Some (Inl e) \<longleftrightarrow>
    (\<exists>c. cpc (children s ! k) = Try c \<and> \<not> sent (children s ! k) c \<and> sem_fails os \<and> e = ErrExit (''semop '' @ ipc_text c @ '' failed'')) \<or>
    (\<exists>c. cpc (children s ! k) = Put c \<and> io_fails os \<and> e = ErrExit (ipc_text c @ '' failed''))"
proof (cases "cpc (children s ! k)")
  case ShmFind
  then show ?thesis using free_slot_exists [OF inv k] by (auto simp: child_step_def Let_def)
qed (auto simp: child_step_def Let_def try_ipc_def put_ipc_def split: option.splits)

lemma server_step_fails:
  assumes inv: "sys_inv mss f0 s" and g: "good_jobs mss"
  shows "server_step os s = Some (Inl e) \<longleftrightarrow>
    (\<exists>c. spc s = SRead c \<and> io_fails os \<and> e = ErrExit (ipc_text c @ '' read failed'')) \<or>
    spc s = SMutex \<and> sem_fails os \<and> e = ErrExit ''Shared Memory failed'' \<or>
    ((\<exists>c m. spc s = SStore c m \<and> contatori s ! index m = 3) \<or>
     (\<exists>i. spc s = SFind \<and> findSHM (shm_flags s) True = Some i \<and> contatori s ! index (shm_buf s ! i) = 3)) \<and>
     open_fails os \<and> e = ErrExit ''error while opening output file''"
proof (cases "spc s")
  case (SStore c m)
  obtain s' where "server_step works s = Some (Inr s')" using server_store_inv [OF inv g SStore] by blast
  then obtain s'' where "update_parts works m (index m) (ipc_index c) s = Inr s''" using SStore by (auto simp: server_step_def)
  from update_parts_fails [OF this, of os e] SStore show ?thesis by (auto simp: server_step_def)
next
  case SFind
  show ?thesis
  proof (cases "findSHM (shm_flags s) True")
    case (Some i)
    let ?m = "shm_buf s ! i"
    obtain s' where "server_step works s = Some (Inr s')" using server_find_inv [OF inv g SFind Some] by blast
    then obtain s'' where "update_parts works ?m (index ?m) 3 s = Inr s''" using SFind Some by (auto simp: server_step_def)
    from update_parts_fails [OF this, of os e] SFind Some show ?thesis by (auto simp: server_step_def)
  qed (simp add: server_step_def SFind)
qed (auto simp: server_step_def)

text \<open>A \<open>semop\<close> on the mutex that fails is not noticed: the child goes on without it.\<close>

lemma shm_lock_unchecked:
  "cpc (children s ! k) = ShmLock \<Longrightarrow> sem_fails os \<Longrightarrow>
     child_step os cap k s = Some (Inr (put_child k ((children s ! k)\<lparr>cpc := ShmFind\<rparr>) s))"
  by (simp add: child_step_def semOp_unchecked_def)

text \<open>
  C5. When a process fails. However the children and the server interleave, a step of a child ends with an error
  exactly when its \<open>semop\<close> on a channel or its write to one fails, and a step of the server exactly when a read from a
  channel or the \<open>semop\<close> on the mutex fails, or when the fourth part of a file has come and the output file cannot be
  opened; the error is the exit with the message of that call. So a child that has a place in the shared
  memory always finds a free slot, and the server never touches a part that is missing or freed. At most 50
  messages are in each FIFO and in the queue; and at most one process is between taking and giving back the
  mutex of the shared memory. The steps before were taken with calls that succeed; the step itself may see any
  failures.
\<close>

theorem ipc_fails_only_by_os:
  assumes "reachable cap (init_sys mss buf f0) s" "length buf = 50" "good_jobs mss"
  shows "(\<forall>k<length mss. \<forall>os e. child_step os cap k s = Some (Inl e) \<longleftrightarrow>
      (\<exists>c. cpc (children s ! k) = Try c \<and> \<not> sent (children s ! k) c \<and> sem_fails os \<and> e = ErrExit (''semop '' @ ipc_text c @ '' failed'')) \<or>
      (\<exists>c. cpc (children s ! k) = Put c \<and> io_fails os \<and> e = ErrExit (ipc_text c @ '' failed''))) \<and>
    (\<forall>os e. server_step os s = Some (Inl e) \<longleftrightarrow>
      (\<exists>c. spc s = SRead c \<and> io_fails os \<and> e = ErrExit (ipc_text c @ '' read failed'')) \<or>
      spc s = SMutex \<and> sem_fails os \<and> e = ErrExit ''Shared Memory failed'' \<or>
      ((\<exists>c m. spc s = SStore c m \<and> contatori s ! index m = 3) \<or>
       (\<exists>i. spc s = SFind \<and> findSHM (shm_flags s) True = Some i \<and> contatori s ! index (shm_buf s ! i) = 3)) \<and>
       open_fails os \<and> e = ErrExit ''error while opening output file'') \<and>
    (\<forall>c. c \<noteq> SHM \<longrightarrow> length (queue s c) \<le> 50) \<and> tally in_hold (children s) + sv_hold (spc s) \<le> 1"
proof -
  have inv: "sys_inv mss f0 s" by (rule reachable_inv [OF assms])
  have "length (queue s c) \<le> 50" if "c \<noteq> SHM" for c
    using inv that unfolding sys_inv_def inv_sems_def by (metis add.assoc le_add1 le_add2 le_trans)
  moreover have "tally in_hold (children s) + sv_hold (spc s) \<le> 1"
    using inv unfolding sys_inv_def inv_mutex_def by linarith
  ultimately show ?thesis using child_step_fails [OF inv] server_step_fails [OF inv assms(3)] by blast
qed

section \<open>The end of a round\<close>






text \<open>A run along a given schedule, for examples: \<open>Some k\<close> is a step of child \<open>k\<close>, \<open>None\<close> one of the server.\<close>

fun run_schedule :: "(ipc \<Rightarrow> nat) \<Rightarrow> nat option list \<Rightarrow> sys \<Rightarrow> sys option" where
  "run_schedule cap [] s = Some s"
| "run_schedule cap (p # ps) s =
     (case (case p of None \<Rightarrow> server_step works s | Some k \<Rightarrow> if k < length (children s) then child_step works cap k s else None) of
        Some (Inr s') \<Rightarrow> run_schedule cap ps s'
      | _ \<Rightarrow> None)"

lemma run_schedule_reachable:
  "run_schedule cap ps s = Some s' \<Longrightarrow> reachable cap s0 s \<Longrightarrow> reachable cap s0 s'"
proof (induction ps arbitrary: s)
  case (Cons p ps)
  then obtain s1 where "sys_step cap s (Inr s1)" "run_schedule cap ps s1 = Some s'"
    by (cases p) (auto split: option.splits sum.splits if_splits intro: sys_step.intros)
  then show ?case using Cons.IH Cons.prems(2) reachable.step by blast
qed simp

definition example_message :: "string \<Rightarrow> message" where
  "example_message x = \<lparr>msg = x, pid = 7, index = 0, filename = ''sendme_a.txt''\<rparr>"

definition example_jobs :: "message list list" where
  "example_jobs = [[example_message ''a'', example_message ''b'', example_message ''c'', example_message ''d'']]"

definition example_start :: sys where
  "example_start = init_sys example_jobs (replicate 50 (example_message ''e'')) Map.empty"

lemma example_jobs_good: "good_jobs example_jobs"
  by (simp add: good_jobs_def example_jobs_def example_message_def all_less_small)


text \<open>The server has the message of the shared memory before it, the fourth of its file.\<close>

lemma example_last_part:
  "map_option (\<lambda>s. (spc s, findSHM (shm_flags s) True, contatori s ! index (shm_buf s ! 0)))
     (run_schedule (\<lambda>c. 1) (replicate 14 (Some 0) @ replicate 11 None) example_start) = Some (SFind, Some 0, 3)"
  by code_simp

theorem ipc_fails_only_by_os_witness:
  "\<exists>s. reachable (\<lambda>c. 1) example_start s \<and> spc s = SFind \<and> length (queue s FIFO1) \<le> 50 \<and>
     server_step (works\<lparr>open_fails := True\<rparr>) s = Some (Inl (ErrExit ''error while opening output file'')) \<and>
     (\<forall>e. server_step works s \<noteq> Some (Inl e)) \<and> (\<forall>e. child_step works (\<lambda>c. 1) 0 s \<noteq> Some (Inl e))"
proof -
  obtain s where s: "run_schedule (\<lambda>c. 1) (replicate 14 (Some 0) @ replicate 11 None) example_start = Some s"
    "spc s = SFind" "findSHM (shm_flags s) True = Some 0" "contatori s ! index (shm_buf s ! 0) = 3"
    using example_last_part by auto
  have r: "reachable (\<lambda>c. 1) example_start s" by (rule run_schedule_reachable [OF s(1) reachable.start])
  then have "reachable (\<lambda>c. 1) (init_sys example_jobs (replicate 50 (example_message ''e'')) Map.empty) s"
    by (simp add: example_start_def)
  note f = ipc_fails_only_by_os [OF this _ example_jobs_good]
  have "\<forall>e. child_step works (\<lambda>c. 1) 0 s \<noteq> Some (Inl e)" using f by (simp add: example_jobs_def)
  moreover have "length (queue s FIFO1) \<le> 50" using f by simp
  ultimately show ?thesis using f r s(2-4) by (intro exI [of _ s]) (simp add: works_def)
qed


section \<open>The jobs of a client\<close>

text \<open>The messages that the children build from accepted files satisfy the precondition of a round.\<close>

lemma children_good_jobs:
  assumes "length paths = length mss" "distinct (map path_out paths)"
    and "\<And>k. k < length mss \<Longrightarrow> acceptable_size (length (txts k)) \<and> 4 \<le> length (paths ! k) \<and> length (paths ! k) < 160"
    and "\<And>k. k < length mss \<Longrightarrow> child_messages k (ps k) (paths ! k) (Some (txts k)) = Inr (mss ! k)"
  shows "good_jobs mss"
proof -
  have each: "length (mss ! k) = 4 \<and> (\<forall>m\<in>set (mss ! k). index m = k \<and> filename m = paths ! k)" if k: "k < length mss" for k
    using child_messages_split [of "txts k" "paths ! k" k "ps k"] assms(3) [OF k] assms(4) [OF k] by auto
  have names: "filename (mss ! k ! 0) = paths ! k" if "k < length mss" for k using each [OF that] by simp
  have "map (\<lambda>ms. path_out (filename (ms ! 0))) mss = map path_out paths"
    by (rule nth_equalityI) (use assms(1) names in auto)
  then show ?thesis using each names assms(2,3) by (auto simp: good_jobs_def)
qed

end
