(* ===== verification/C_String.thy ===== *)
theory C_String
  imports Prelude
begin

text \<open>
  The string and memory routines of \<open>src/libc/string.c\<close> and the character tests of
  \<open>src/libc/ctype.c\<close>, on a flat memory of bytes. A pointer is an address, and objects do not wrap
  around the end of the address space; the frame parts of the lemmas say which bytes a routine may
  write. A loop that runs to a terminator is a partial function with value \<open>None\<close> when it does not
  end; a loop with a counter recurses on the counter. Plain \<open>char\<close> is signed on the target.
\<close>

type_synonym mem = "nat \<Rightarrow> u8"

section \<open>Characters\<close>

definition schar :: "u8 \<Rightarrow> int" where "schar c = sint c"
definition uchar :: "u8 \<Rightarrow> int" where "uchar c = uint c"

definition isdigit_c :: "int \<Rightarrow> bool" where "isdigit_c c \<longleftrightarrow> c \<ge> 48 \<and> c \<le> 57"
definition isalpha_c :: "int \<Rightarrow> bool" where "isalpha_c c \<longleftrightarrow> c \<ge> 65 \<and> c \<le> 90 \<or> c \<ge> 97 \<and> c \<le> 122"
definition isalnum_c :: "int \<Rightarrow> bool" where "isalnum_c c \<longleftrightarrow> isalpha_c c \<or> isdigit_c c"
definition isxdigit_c :: "int \<Rightarrow> bool" where "isxdigit_c c \<longleftrightarrow> isdigit_c c \<or> c \<ge> 65 \<and> c \<le> 70"
definition islower_c :: "int \<Rightarrow> bool" where "islower_c c \<longleftrightarrow> c \<ge> 97 \<and> c \<le> 122"
definition isupper_c :: "int \<Rightarrow> bool" where "isupper_c c \<longleftrightarrow> c \<ge> 65 \<and> c \<le> 90"
definition isspace_c :: "int \<Rightarrow> bool" where "isspace_c c \<longleftrightarrow> c = 32"

definition tolower_c :: "int \<Rightarrow> int" where
  "tolower_c c = (if \<not> isalpha_c c \<or> islower_c c then c else c + 32)"

definition toupper_c :: "int \<Rightarrow> int" where
  "toupper_c c = (if \<not> isalpha_c c \<or> isupper_c c then c else c - 32)"

lemmas ctype_defs = isdigit_c_def isalpha_c_def isalnum_c_def isxdigit_c_def islower_c_def isupper_c_def
  isspace_c_def tolower_c_def toupper_c_def

section \<open>Routines with a counter\<close>

fun memcpy :: "mem \<Rightarrow> nat \<Rightarrow> nat \<Rightarrow> nat \<Rightarrow> mem" where
  "memcpy m dst src 0 = m"
| "memcpy m dst src (Suc n) = memcpy (m(dst := m src)) (Suc dst) (Suc src) n"

fun memcpy_down :: "mem \<Rightarrow> nat \<Rightarrow> nat \<Rightarrow> nat \<Rightarrow> mem" where
  "memcpy_down m dst src 0 = m"
| "memcpy_down m dst src (Suc n) = memcpy_down (m(dst + n := m (src + n))) dst src n"

text \<open>
  \<open>memmove\<close>: upwards when the destination is not inside the source, downwards otherwise. The
  downward loop has its pointers at \<open>dst + n - 1\<close> and \<open>src + n - 1\<close>.
\<close>

definition memmove :: "mem \<Rightarrow> nat \<Rightarrow> nat \<Rightarrow> nat \<Rightarrow> mem" where
  "memmove m dst src n =
     (if dst \<le> src \<or> dst \<ge> src + n then memcpy m dst src n else memcpy_down m dst src n)"

fun memset_loop :: "mem \<Rightarrow> nat \<Rightarrow> u8 \<Rightarrow> nat \<Rightarrow> mem" where
  "memset_loop m dst c 0 = m"
| "memset_loop m dst c (Suc n) = memset_loop (m(dst := c)) (Suc dst) c n"

definition memset :: "mem \<Rightarrow> nat \<Rightarrow> int \<Rightarrow> nat \<Rightarrow> mem" where
  "memset m dst v n = memset_loop m dst (word_of_int (v AND 0xFF)) n"

fun memchr :: "mem \<Rightarrow> nat \<Rightarrow> u8 \<Rightarrow> nat \<Rightarrow> nat option" where
  "memchr m buf ch 0 = None"
| "memchr m buf ch (Suc n) = (if m buf \<noteq> ch then memchr m (Suc buf) ch n else Some buf)"

fun memcmp_loop :: "mem \<Rightarrow> nat \<Rightarrow> nat \<Rightarrow> nat \<Rightarrow> int" where
  "memcmp_loop m a b 0 = uchar (m a) - uchar (m b)"
| "memcmp_loop m a b (Suc n) =
     (if m a = m b then memcmp_loop m (Suc a) (Suc b) n else uchar (m a) - uchar (m b))"

definition memcmp :: "mem \<Rightarrow> nat \<Rightarrow> nat \<Rightarrow> nat \<Rightarrow> int" where
  "memcmp m a b n = (if n = 0 then 0 else memcmp_loop m a b (n - 1))"

fun strncmp_loop :: "mem \<Rightarrow> nat \<Rightarrow> nat \<Rightarrow> nat \<Rightarrow> int" where
  "strncmp_loop m a b 0 = uchar (m a) - uchar (m b)"
| "strncmp_loop m a b (Suc n) =
     (if m a \<noteq> 0 \<and> m b \<noteq> 0 \<and> m a = m b then strncmp_loop m (Suc a) (Suc b) n else uchar (m a) - uchar (m b))"

definition strncmp :: "mem \<Rightarrow> nat \<Rightarrow> nat \<Rightarrow> nat \<Rightarrow> int" where
  "strncmp m a b n = (if n = 0 then 0 else strncmp_loop m a b (n - 1))"

fun strnlen :: "mem \<Rightarrow> nat \<Rightarrow> nat \<Rightarrow> nat" where
  "strnlen m s 0 = 0"
| "strnlen m s (Suc n) = (if m s \<noteq> 0 then Suc (strnlen m (Suc s) n) else 0)"

text \<open>The first loop of \<open>strncpy\<close>: the memory, the destination and the counter it leaves.\<close>

fun strncpy_copy :: "mem \<Rightarrow> nat \<Rightarrow> nat \<Rightarrow> nat \<Rightarrow> mem \<times> nat \<times> nat" where
  "strncpy_copy m dst src 0 = (m, dst, 0)"
| "strncpy_copy m dst src (Suc n) =
     (let c = m src; m = m(dst := c)
      in if c \<noteq> 0 then strncpy_copy m (Suc dst) (Suc src) n else (m, Suc dst, Suc n))"

definition strncpy :: "mem \<Rightarrow> nat \<Rightarrow> nat \<Rightarrow> nat \<Rightarrow> mem" where
  "strncpy m dst src n =
     (case strncpy_copy m dst src n of (m, dst, n) \<Rightarrow> if n \<noteq> 0 then memset_loop m dst 0 (n - 1) else m)"

fun strncat_copy :: "mem \<Rightarrow> nat \<Rightarrow> nat \<Rightarrow> nat \<Rightarrow> mem" where
  "strncat_copy m s1 s2 0 = m(s1 := 0)"
| "strncat_copy m s1 s2 (Suc n) =
     (let c = m s2; m = m(s1 := c) in if c = 0 then m else strncat_copy m (Suc s1) (Suc s2) n)"

section \<open>Routines that run to the terminator\<close>

text \<open>\<open>while (*s) s++\<close>: the address of the terminator.\<close>

partial_function (option) scan_end :: "mem \<Rightarrow> nat \<Rightarrow> nat option" where
  "scan_end m s = (if m s \<noteq> 0 then scan_end m (Suc s) else Some s)"

definition strlen :: "mem \<Rightarrow> nat \<Rightarrow> nat option" where
  "strlen m s = map_option (\<lambda>e. e - s) (scan_end m s)"

partial_function (option) strcpy :: "mem \<Rightarrow> nat \<Rightarrow> nat \<Rightarrow> mem option" where
  "strcpy m dst src =
     (let c = m src; m = m(dst := c) in if c \<noteq> 0 then strcpy m (Suc dst) (Suc src) else Some m)"

definition strcat :: "mem \<Rightarrow> nat \<Rightarrow> nat \<Rightarrow> mem option" where
  "strcat m dst src = (case scan_end m dst of None \<Rightarrow> None | Some cp \<Rightarrow> strcpy m cp src)"

definition strncat :: "mem \<Rightarrow> nat \<Rightarrow> nat \<Rightarrow> nat \<Rightarrow> mem option" where
  "strncat m s1 s2 n = map_option (\<lambda>e. strncat_copy m e s2 n) (scan_end m s1)"

partial_function (option) strcmp_loop :: "mem \<Rightarrow> nat \<Rightarrow> nat \<Rightarrow> int option" where
  "strcmp_loop m a b =
     (let ret = schar (m a) - schar (m b)
      in if ret = 0 \<and> m b \<noteq> 0 then strcmp_loop m (Suc a) (Suc b) else Some ret)"

definition strcmp :: "mem \<Rightarrow> nat \<Rightarrow> nat \<Rightarrow> int option" where
  "strcmp m a b = map_option (\<lambda>ret. if ret < 0 then -1 else if ret > 0 then 1 else 0) (strcmp_loop m a b)"

partial_function (option) strchr :: "mem \<Rightarrow> nat \<Rightarrow> u8 \<Rightarrow> nat option option" where
  "strchr m s ch =
     (if m s \<noteq> 0 \<and> m s \<noteq> ch then strchr m (Suc s) ch else Some (if m s = ch then Some s else None))"

text \<open>The backward loop of \<open>strrchr\<close>, entered with \<open>s\<close> at the terminator.\<close>

fun strrchr_down :: "mem \<Rightarrow> nat \<Rightarrow> nat \<Rightarrow> u8 \<Rightarrow> nat" where
  "strrchr_down m start 0 ch = start"
| "strrchr_down m start (Suc k) ch = (if m (start + Suc k) \<noteq> ch then strrchr_down m start k ch else start + Suc k)"

definition strrchr :: "mem \<Rightarrow> nat \<Rightarrow> u8 \<Rightarrow> nat option option" where
  "strrchr m s ch =
     map_option (\<lambda>e. let p = strrchr_down m s (e - s) ch in if m p = ch then Some p else None) (scan_end m s)"

text \<open>The exchange loop of \<open>strrev\<close> between the first and the last character.\<close>

function strrev_loop :: "mem \<Rightarrow> nat \<Rightarrow> nat \<Rightarrow> mem" where
  "strrev_loop m left s =
     (if left < s then strrev_loop (m(left := m s, s := m left)) (Suc left) (s - 1) else m)"
  by pat_completeness auto
termination
  by (relation "measure (\<lambda>(m, left, s). s - left)") auto

declare strrev_loop.simps [simp del]

definition strrev :: "mem \<Rightarrow> nat \<Rightarrow> mem option" where
  "strrev m s = map_option (\<lambda>e. strrev_loop m s (e - 1)) (scan_end m s)"

partial_function (option) map_string :: "(u8 \<Rightarrow> u8) \<Rightarrow> mem \<Rightarrow> nat \<Rightarrow> mem option" where
  "map_string f m p = (if m p \<noteq> 0 then map_string f (m(p := f (m p))) (Suc p) else Some m)"

definition strlwr :: "mem \<Rightarrow> nat \<Rightarrow> mem option" where
  "strlwr m s = map_string (\<lambda>c. word_of_int (tolower_c (schar c))) m s"

definition strupr :: "mem \<Rightarrow> nat \<Rightarrow> mem option" where
  "strupr m s = map_string (\<lambda>c. word_of_int (toupper_c (schar c))) m s"

definition strset :: "mem \<Rightarrow> nat \<Rightarrow> u8 \<Rightarrow> mem option" where
  "strset m s c = map_string (\<lambda>_. c) m s"

fun strnset :: "mem \<Rightarrow> nat \<Rightarrow> u8 \<Rightarrow> nat \<Rightarrow> mem" where
  "strnset m s c 0 = m"
| "strnset m s c (Suc n) = (if m s \<noteq> 0 then strnset (m(s := c)) (Suc s) c n else m)"

definition strdup :: "mem \<Rightarrow> nat \<Rightarrow> nat \<Rightarrow> mem option" where
  "strdup m new s = map_option (\<lambda>l. memcpy m new s (l + 1)) (strlen m s)"

section \<open>Copying\<close>

lemma memcpy_eq:
  assumes "dst \<le> src \<or> src + n \<le> dst"
  shows "memcpy m dst src n = (\<lambda>a. if dst \<le> a \<and> a < dst + n then m (src + (a - dst)) else m a)"
  using assms
proof (induction n arbitrary: m dst src)
  case (Suc n)
  have "memcpy m dst src (Suc n) = memcpy (m(dst := m src)) (Suc dst) (Suc src) n" by simp
  also have "\<dots> = (\<lambda>a. if Suc dst \<le> a \<and> a < Suc dst + n then (m(dst := m src)) (Suc src + (a - Suc dst))
      else (m(dst := m src)) a)" using Suc.prems by (intro Suc.IH) auto
  also have "\<dots> = (\<lambda>a. if dst \<le> a \<and> a < dst + Suc n then m (src + (a - dst)) else m a)"
  proof
    fix a
    consider "a = dst" | "a < dst" | k where "a = Suc dst + k"
      by (metis less_imp_Suc_add linorder_neqE_nat add_Suc)
    then show "(if Suc dst \<le> a \<and> a < Suc dst + n then (m(dst := m src)) (Suc src + (a - Suc dst))
      else (m(dst := m src)) a) = (if dst \<le> a \<and> a < dst + Suc n then m (src + (a - dst)) else m a)"
      using Suc.prems by cases auto
  qed
  finally show ?case .
qed (auto simp: fun_eq_iff)

lemma memcpy_down_eq:
  assumes "src \<le> dst"
  shows "memcpy_down m dst src n = (\<lambda>a. if dst \<le> a \<and> a < dst + n then m (src + (a - dst)) else m a)"
proof (induction n arbitrary: m)
  case (Suc n)
  show ?case using assms by (auto simp: Suc.IH fun_eq_iff less_Suc_eq)
qed (auto simp: fun_eq_iff)

lemma memset_loop_eq: "memset_loop m dst c n = (\<lambda>a. if dst \<le> a \<and> a < dst + n then c else m a)"
  by (induction n arbitrary: m dst) (auto simp: fun_eq_iff)

text \<open>
  \<open>memmove\<close> copies correctly however the two blocks overlap: afterwards each byte of the
  destination is the byte the source had before the call, and no other byte has changed.
\<close>

theorem memmove_overlap:
  "memmove m dst src n = (\<lambda>a. if dst \<le> a \<and> a < dst + n then m (src + (a - dst)) else m a)"
  by (auto simp: memmove_def memcpy_eq memcpy_down_eq)

section \<open>Strings in memory\<close>

text \<open>\<open>cstr m a xs\<close>: the bytes \<open>xs\<close>, none of them zero, and a terminator after them, at \<open>a\<close>.\<close>

fun cstr :: "mem \<Rightarrow> nat \<Rightarrow> u8 list \<Rightarrow> bool" where
  "cstr m a [] \<longleftrightarrow> m a = 0"
| "cstr m a (x # xs) \<longleftrightarrow> m a = x \<and> x \<noteq> 0 \<and> cstr m (Suc a) xs"

lemma cstr_nth: "cstr m a xs \<longleftrightarrow> (\<forall>i<length xs. m (a + i) = xs ! i \<and> xs ! i \<noteq> 0) \<and> m (a + length xs) = 0"
  by (induction xs arbitrary: a) (auto simp: All_less_Suc2)

lemma cstr_append:
  "cstr m a (xs @ ys) \<longleftrightarrow> (\<forall>i<length xs. m (a + i) = xs ! i \<and> xs ! i \<noteq> 0) \<and> cstr m (a + length xs) ys"
  by (induction xs arbitrary: a) (auto simp: All_less_Suc2)

lemma cstr_functional: "cstr m a xs \<Longrightarrow> cstr m a ys \<Longrightarrow> xs = ys"
proof (induction xs arbitrary: a ys)
  case Nil
  then show ?case by (cases ys) auto
next
  case (Cons x xs)
  then show ?case by (cases ys) auto
qed

lemma cstr_frame: "cstr m a xs \<Longrightarrow> (\<And>i. i \<le> length xs \<Longrightarrow> m' (a + i) = m (a + i)) \<Longrightarrow> cstr m' a xs"
  by (auto simp: cstr_nth)

lemma scan_end_cstr: "cstr m a xs \<Longrightarrow> scan_end m a = Some (a + length xs)"
proof (induction xs arbitrary: a)
  case Nil
  then show ?case by (simp add: scan_end.simps)
next
  case (Cons x xs)
  then show ?case by (subst scan_end.simps) auto
qed

lemma strlen_cstr: "cstr m a xs \<Longrightarrow> strlen m a = Some (length xs)"
  by (simp add: strlen_def scan_end_cstr)

text \<open>Two blocks of \<open>n\<close> and \<open>k\<close> bytes with no byte in common.\<close>

definition apart :: "nat \<Rightarrow> nat \<Rightarrow> nat \<Rightarrow> nat \<Rightarrow> bool" where
  "apart a n b k \<longleftrightarrow> a + n \<le> b \<or> b + k \<le> a"

lemma strcpy_cstr:
  "cstr m src xs \<Longrightarrow> apart dst (Suc (length xs)) src (Suc (length xs)) \<Longrightarrow>
     strcpy m dst src = Some (memcpy m dst src (Suc (length xs)))"
proof (induction xs arbitrary: m dst src)
  case Nil
  then show ?case by (simp add: strcpy.simps fun_upd_def)
next
  case (Cons x xs)
  have "cstr m (Suc src) xs" using Cons.prems(1) by simp
  then have "cstr (m(dst := m src)) (Suc src) xs"
    by (rule cstr_frame) (use Cons.prems(2) in \<open>auto simp: apart_def\<close>)
  then have "strcpy (m(dst := m src)) (Suc dst) (Suc src) =
      Some (memcpy (m(dst := m src)) (Suc dst) (Suc src) (Suc (length xs)))"
    using Cons.prems by (intro Cons.IH) (auto simp: apart_def fun_upd_def)
  with Cons.prems show ?case by (subst strcpy.simps) (auto simp: fun_upd_def)
qed

lemma memcpy_cstr:
  assumes "cstr m src xs" "apart dst (Suc (length xs)) src (Suc (length xs))"
  shows "cstr (memcpy m dst src (Suc (length xs))) dst xs"
proof -
  have "memcpy m dst src (Suc (length xs)) =
      (\<lambda>a. if dst \<le> a \<and> a < dst + Suc (length xs) then m (src + (a - dst)) else m a)"
    using assms(2) by (intro memcpy_eq) (auto simp: apart_def)
  with assms(1) show ?thesis by (auto simp: cstr_nth)
qed

text \<open>
  Concatenation: for a string \<open>xs\<close> at \<open>dst\<close> followed by room that does not meet the string \<open>ys\<close> at
  \<open>src\<close>, \<open>strcat\<close> returns, the destination then holds \<open>xs\<close> followed by \<open>ys\<close> (whose length is the sum,
  as \<open>strlen\<close> finds), the source is intact, and only the bytes from the old terminator of the
  destination to the new one have been written.
\<close>

theorem strcat_concatenates:
  assumes "cstr m dst xs" "cstr m src ys" "apart dst (length xs + Suc (length ys)) src (Suc (length ys))"
  shows "\<exists>m'. strcat m dst src = Some m' \<and> cstr m' dst (xs @ ys) \<and> strlen m' dst = Some (length xs + length ys) \<and>
    cstr m' src ys \<and> (\<forall>a. \<not> (dst + length xs \<le> a \<and> a \<le> dst + length xs + length ys) \<longrightarrow> m' a = m a)"
proof -
  let ?e = "dst + length xs" and ?n = "Suc (length ys)"
  let ?m = "memcpy m ?e src ?n"
  have ap: "apart ?e ?n src ?n" using assms(3) by (auto simp: apart_def)
  have eq: "?m = (\<lambda>a. if ?e \<le> a \<and> a < ?e + ?n then m (src + (a - ?e)) else m a)"
    using ap by (intro memcpy_eq) (auto simp: apart_def)
  have "strcat m dst src = Some ?m"
    using scan_end_cstr [OF assms(1)] strcpy_cstr [OF assms(2) ap] by (simp add: strcat_def)
  moreover have "cstr ?m ?e ys" using memcpy_cstr [OF assms(2) ap] .
  then have cat: "cstr ?m dst (xs @ ys)" using assms(1) eq by (auto simp: cstr_append cstr_nth [of m])
  moreover have "strlen ?m dst = Some (length xs + length ys)" using strlen_cstr [OF cat] by simp
  moreover have "cstr ?m src ys"
    using assms(2) by (rule cstr_frame) (use ap in \<open>auto simp: eq apart_def simp del: memcpy.simps\<close>)
  moreover have "\<forall>a. \<not> (?e \<le> a \<and> a \<le> ?e + length ys) \<longrightarrow> ?m a = m a" unfolding eq by auto
  ultimately show ?thesis by blast
qed

definition example_mem :: mem where
  "example_mem = (\<lambda>_. 0)(1 := 104, 2 := 101, 10 := 105, 11 := 106, 12 := 107)"

theorem strcat_concatenates_witness:
  "\<exists>m'. strcat example_mem 1 10 = Some m' \<and> cstr m' 1 [104, 101, 105, 106, 107] \<and> strlen m' 1 = Some 5"
  using strcat_concatenates [of example_mem 1 "[104, 101]" 10 "[105, 106, 107]"]
  by (auto simp: example_mem_def apart_def)

lemma strdup_cstr:
  assumes "cstr m s xs" "apart new (Suc (length xs)) s (Suc (length xs))"
  shows "\<exists>m'. strdup m new s = Some m' \<and> cstr m' new xs"
  using memcpy_cstr [OF assms] strlen_cstr [OF assms(1)] by (simp add: strdup_def)

section \<open>Comparison\<close>

text \<open>The comparison of two strings, character by character as signed values, the terminator last.\<close>

fun string_order :: "u8 list \<Rightarrow> u8 list \<Rightarrow> int" where
  "string_order [] [] = 0"
| "string_order [] (y # ys) = - schar y"
| "string_order (x # xs) [] = schar x"
| "string_order (x # xs) (y # ys) = (if x = y then string_order xs ys else schar x - schar y)"

lemma schar_0 [simp]: "schar 0 = 0"
  by (simp add: schar_def)

lemma schar_inj [simp]: "schar x = schar y \<longleftrightarrow> x = y"
  unfolding schar_def by (rule word_eq_iff_signed [symmetric])

lemma schar_eq_0 [simp]: "schar x = 0 \<longleftrightarrow> x = 0"
  using schar_inj [of x 0] by (simp del: schar_inj)

lemma strcmp_loop_cstr: "cstr m a xs \<Longrightarrow> cstr m b ys \<Longrightarrow> strcmp_loop m a b = Some (string_order xs ys)"
proof (induction xs ys arbitrary: a b rule: string_order.induct)
  case (4 x xs y ys)
  then show ?case by (subst strcmp_loop.simps) (auto simp: Let_def)
qed (subst strcmp_loop.simps, auto simp: Let_def)+

lemma string_order_0: "0 \<notin> set xs \<Longrightarrow> 0 \<notin> set ys \<Longrightarrow> string_order xs ys = 0 \<longleftrightarrow> xs = ys"
  by (induction xs ys rule: string_order.induct) auto

lemma string_order_swap: "string_order ys xs = - string_order xs ys"
  by (induction xs ys rule: string_order.induct) auto

lemma cstr_no_zero: "cstr m a xs \<Longrightarrow> 0 \<notin> set xs"
  by (induction xs arbitrary: a) auto

text \<open>
  \<open>strcmp\<close> on two strings returns -1, 0 or 1, the sign of the difference of the first characters that
  differ, taken as signed (the terminator counts as the character 0); it returns 0 exactly for equal
  strings, and exchanging the arguments changes the sign.
\<close>

theorem strcmp_orders:
  assumes "cstr m a xs" "cstr m b ys"
  shows "\<exists>r. strcmp m a b = Some r \<and> r = sgn (string_order xs ys) \<and> (r = 0 \<longleftrightarrow> xs = ys) \<and>
    strcmp m b a = Some (- r)"
proof -
  have "strcmp m a b = Some (sgn (string_order xs ys))" "strcmp m b a = Some (sgn (string_order ys xs))"
    using assms by (simp_all add: strcmp_def strcmp_loop_cstr sgn_if)
  moreover have "sgn (string_order xs ys) = 0 \<longleftrightarrow> xs = ys"
    using string_order_0 [OF cstr_no_zero [OF assms(1)] cstr_no_zero [OF assms(2)]] by (simp add: sgn_0_0)
  ultimately show ?thesis by (simp add: string_order_swap [of ys xs] sgn_minus)
qed

theorem strcmp_orders_witness:
  "strcmp example_mem 1 10 = Some (-1) \<and> strcmp example_mem 10 1 = Some 1"
proof -
  have "string_order [104, 101] [105, 106, 107] = -1" by code_simp
  then show ?thesis
    using strcmp_orders [of example_mem 1 "[104, 101]" 10 "[105, 106, 107]"] by (auto simp: example_mem_def)
qed

section \<open>Searching and reversing\<close>

lemma strchr_cstr:
  "cstr m s xs \<Longrightarrow> c \<noteq> 0 \<Longrightarrow> strchr m s c =
     Some (if c \<in> set xs then Some (s + length (takeWhile (\<lambda>x. x \<noteq> c) xs)) else None)"
proof (induction xs arbitrary: s)
  case Nil
  then show ?case by (subst strchr.simps) simp
next
  case (Cons x xs)
  then show ?case by (subst strchr.simps) auto
qed

text \<open>The memory with the bytes from \<open>l\<close> to \<open>r\<close> in the opposite order.\<close>

definition mirror :: "nat \<Rightarrow> nat \<Rightarrow> mem \<Rightarrow> mem" where
  "mirror l r m = (\<lambda>a. if l \<le> a \<and> a \<le> r then m (l + r - a) else m a)"

lemma mirror_twice [simp]: "mirror l r (mirror l r m) = m"
  by (auto simp: mirror_def fun_eq_iff)

lemma mirror_in: "l \<le> a \<Longrightarrow> a \<le> r \<Longrightarrow> mirror l r m a = m (l + r - a)"
  and mirror_out: "\<not> (l \<le> a \<and> a \<le> r) \<Longrightarrow> mirror l r m a = m a"
  by (auto simp: mirror_def)

lemma strrev_loop_eq: "strrev_loop m l r = mirror l r m"
  unfolding mirror_def
proof (induction m l r rule: strrev_loop.induct)
  case (1 m l r)
  show ?case
  proof (cases "l < r")
    case True
    let ?m = "m(l := m r, r := m l)"
    have "strrev_loop m l r = strrev_loop ?m (Suc l) (r - 1)"
      using True by (subst strrev_loop.simps) simp
    also have "\<dots> = (\<lambda>a. if Suc l \<le> a \<and> a \<le> r - 1 then ?m (Suc l + (r - 1) - a) else ?m a)"
      using 1 [OF True] .
    also have "\<dots> = (\<lambda>a. if l \<le> a \<and> a \<le> r then m (l + r - a) else m a)"
    proof
      fix a
      show "(if Suc l \<le> a \<and> a \<le> r - 1 then ?m (Suc l + (r - 1) - a) else ?m a) =
          (if l \<le> a \<and> a \<le> r then m (l + r - a) else m a)"
        using True by (cases "a = l"; cases "a = r") auto
    qed
    finally show ?thesis .
  next
    case False
    then have "l + r - a = a" if "l \<le> a" "a \<le> r" for a using that by auto
    then show ?thesis using False by (subst strrev_loop.simps) (auto simp: fun_eq_iff)
  qed
qed

text \<open>
  \<open>strrev\<close> reverses a string in place: it returns, the memory then holds the reversed string at the
  same address and no byte outside the string has changed; applied twice it restores the memory.
\<close>

theorem strrev_reverses:
  assumes "cstr m s xs"
  shows "\<exists>m'. strrev m s = Some m' \<and> cstr m' s (rev xs) \<and>
    (\<forall>a. a < s \<or> s + length xs \<le> a \<longrightarrow> m' a = m a) \<and> strrev m' s = Some m"
proof -
  let ?r = "s + length xs - 1"
  have run: "strrev k s = Some (mirror s ?r k)" if "cstr k s ys" "length ys = length xs" for k ys
    using scan_end_cstr [OF that(1)] that(2) by (simp add: strrev_def strrev_loop_eq)
  have out: "mirror s ?r m a = m a" if "a < s \<or> s + length xs \<le> a" for a
  proof (cases "xs = [] \<and> s = 0")
    case True
    then show ?thesis by (simp add: mirror_def)
  next
    case False
    then show ?thesis using that by (intro mirror_out) (cases xs; auto)
  qed
  have "mirror s ?r m (s + i) = rev xs ! i \<and> rev xs ! i \<noteq> 0" if i: "i < length xs" for i
  proof -
    have "s + ?r - (s + i) = s + (length xs - Suc i)" "s + i \<le> ?r" using i by linarith+
    then have "mirror s ?r m (s + i) = m (s + (length xs - Suc i))" by (simp only: mirror_in le_add1)
    moreover have "length xs - Suc i < length xs" using i by simp
    then have "m (s + (length xs - Suc i)) = xs ! (length xs - Suc i) \<and> xs ! (length xs - Suc i) \<noteq> 0"
      using assms unfolding cstr_nth by blast
    ultimately show ?thesis unfolding rev_nth [OF i] by simp
  qed
  moreover have "mirror s ?r m (s + length xs) = 0" using out [of "s + length xs"] assms by (simp add: cstr_nth)
  ultimately have rev: "cstr (mirror s ?r m) s (rev xs)" unfolding cstr_nth length_rev by blast
  have "strrev (mirror s ?r m) s = Some m" using run [OF rev] by simp
  then show ?thesis using run [OF assms refl] rev out by blast
qed

theorem strrev_reverses_witness:
  "\<exists>m'. strrev example_mem 10 = Some m' \<and> cstr m' 10 [107, 106, 105] \<and> strrev m' 10 = Some example_mem"
  using strrev_reverses [of example_mem 10 "[105, 106, 107]"] by (auto simp: example_mem_def)

end
