(* ===== verification/Hashmap.thy ===== *)
theory Hashmap
  imports C_String
begin

text \<open>
  The hash map of \<open>src/libc/hashmap.c\<close>. The functions on keys are fields of the map, as in the source;
  a bucket is the chain of its entries in order. A value is a pointer, \<open>None\<close> for \<open>NULL\<close>; a string
  key is the list of its characters before the terminator.
\<close>

section \<open>Keys\<close>

text \<open>Both functions on strings read up to the first null character.\<close>

definition c_chars :: "u8 list \<Rightarrow> u8 list" where "c_chars key = takeWhile (\<lambda>c. c \<noteq> 0) key"

definition hashmap_string_hash :: "u8 list \<Rightarrow> u32" where
  "hashmap_string_hash key = foldl (\<lambda>h c. scast c + push_bit 6 h + push_bit 16 h - h) 0 (c_chars key)"

definition hashmap_string_comp :: "u8 list \<Rightarrow> u8 list \<Rightarrow> bool" where
  "hashmap_string_comp a b \<longleftrightarrow> string_order (c_chars a) (c_chars b) = 0"

definition hashmap_int_hash :: "u32 \<Rightarrow> u32" where "hashmap_int_hash key = key"

definition hashmap_int_comp :: "u32 \<Rightarrow> u32 \<Rightarrow> bool" where
  "hashmap_int_comp a b \<longleftrightarrow> sint a = sint b"

section \<open>The map\<close>

record ('k, 'v) hashmap =
  hash_func :: "'k \<Rightarrow> u32"
  hash_comp :: "'k \<Rightarrow> 'k \<Rightarrow> bool"
  hm_size :: u32
  entries :: "('k \<times> 'v option) list list"

definition hashmap_create :: "u32 \<Rightarrow> (u8 list, 'v) hashmap" where
  "hashmap_create sz = \<lparr>hash_func = hashmap_string_hash, hash_comp = hashmap_string_comp, hm_size = sz,
     entries = replicate (unat sz) []\<rparr>"

definition hashmap_create_int :: "u32 \<Rightarrow> (u32, 'v) hashmap" where
  "hashmap_create_int sz = \<lparr>hash_func = hashmap_int_hash, hash_comp = hashmap_int_comp, hm_size = sz,
     entries = replicate (unat sz) []\<rparr>"

definition bucket_index :: "('k, 'v) hashmap \<Rightarrow> 'k \<Rightarrow> nat res" where
  "bucket_index m key = (if hm_size m = 0 then Inl DivZero else Inr (unat (hash_func m key mod hm_size m)))"

text \<open>The loops along a chain.\<close>

fun set_chain :: "('k \<Rightarrow> 'k \<Rightarrow> bool) \<Rightarrow> 'k \<Rightarrow> 'v option \<Rightarrow> ('k \<times> 'v option) list \<Rightarrow> 'v option \<times> ('k \<times> 'v option) list" where
  "set_chain cmp key value [] = (None, [(key, value)])"
| "set_chain cmp key value ((k, v) # xs) =
     (if cmp k key then (v, (k, value) # xs)
      else let (out, ys) = set_chain cmp key value xs in (out, (k, v) # ys))"

fun find_chain :: "('k \<Rightarrow> 'k \<Rightarrow> bool) \<Rightarrow> 'k \<Rightarrow> ('k \<times> 'v option) list \<Rightarrow> 'v option option" where
  "find_chain cmp key [] = None"
| "find_chain cmp key ((k, v) # xs) = (if cmp k key then Some v else find_chain cmp key xs)"

fun remove_chain :: "('k \<Rightarrow> 'k \<Rightarrow> bool) \<Rightarrow> 'k \<Rightarrow> ('k \<times> 'v option) list \<Rightarrow> 'v option \<times> ('k \<times> 'v option) list" where
  "remove_chain cmp key [] = (None, [])"
| "remove_chain cmp key ((k, v) # xs) =
     (if cmp k key then (v, xs) else let (out, ys) = remove_chain cmp key xs in (out, (k, v) # ys))"

definition hashmap_set :: "('k, 'v) hashmap \<Rightarrow> 'k \<Rightarrow> 'v option \<Rightarrow> ('v option \<times> ('k, 'v) hashmap) res" where
  "hashmap_set m key value =
     bindR (bucket_index m key) (\<lambda>i. bindR (get_at (entries m) i) (\<lambda>b.
     let (out, b) = set_chain (hash_comp m) key value b in Inr (out, m\<lparr>entries := (entries m)[i := b]\<rparr>)))"

definition hashmap_get :: "('k, 'v) hashmap \<Rightarrow> 'k \<Rightarrow> 'v option res" where
  "hashmap_get m key =
     bindR (bucket_index m key) (\<lambda>i. bindR (get_at (entries m) i) (\<lambda>b.
     Inr (case find_chain (hash_comp m) key b of None \<Rightarrow> None | Some v \<Rightarrow> v)))"

definition hashmap_has :: "('k, 'v) hashmap \<Rightarrow> 'k \<Rightarrow> bool res" where
  "hashmap_has m key =
     bindR (bucket_index m key) (\<lambda>i. bindR (get_at (entries m) i) (\<lambda>b. Inr (find_chain (hash_comp m) key b \<noteq> None)))"

text \<open>
  In \<open>hashmap_remove\<close> the loop behind the first entry reads the key of an entry before it tests whether
  there is one.
\<close>

definition hashmap_remove :: "('k, 'v) hashmap \<Rightarrow> 'k \<Rightarrow> ('v option \<times> ('k, 'v) hashmap) res" where
  "hashmap_remove m key =
     bindR (bucket_index m key) (\<lambda>i. bindR (get_at (entries m) i) (\<lambda>b.
     case b of
       [] \<Rightarrow> Inr (None, m)
     | (k, v) # xs \<Rightarrow>
         if hash_comp m k key then Inr (v, m\<lparr>entries := (entries m)[i := xs]\<rparr>)
         else if xs = [] then Inl NullDeref
         else let (out, ys) = remove_chain (hash_comp m) key xs in Inr (out, m\<lparr>entries := (entries m)[i := (k, v) # ys]\<rparr>)))"

definition hashmap_is_empty :: "('k, 'v) hashmap \<Rightarrow> bool" where
  "hashmap_is_empty m \<longleftrightarrow> list_all (\<lambda>b. b = []) (entries m)"

text \<open>The lists of keys and values, in the order of the buckets; \<open>list_insert_back\<close> asserts that what it adds is not null.\<close>

definition hashmap_keys :: "('k \<Rightarrow> bool) \<Rightarrow> ('k, 'v) hashmap \<Rightarrow> 'k list res" where
  "hashmap_keys is_null m =
     (let ks = map fst (concat (entries m)) in if list_ex is_null ks then Inl AssertFail else Inr ks)"

definition hashmap_values :: "('k, 'v) hashmap \<Rightarrow> 'v list res" where
  "hashmap_values m =
     (let vs = map snd (concat (entries m)) in if list_ex (\<lambda>v. v = None) vs then Inl AssertFail else Inr (map the vs))"

lemma list_pair_induct [case_names Nil Cons]:
  "P [] \<Longrightarrow> (\<And>k v xs. P xs \<Longrightarrow> P ((k, v) # xs)) \<Longrightarrow> P xs"
  by (induction xs) auto

text \<open>No two entries of a chain have equivalent keys.\<close>

fun apart_keys :: "('k \<Rightarrow> 'k \<Rightarrow> bool) \<Rightarrow> ('k \<times> 'v option) list \<Rightarrow> bool" where
  "apart_keys cmp [] \<longleftrightarrow> True"
| "apart_keys cmp ((k, v) # xs) \<longleftrightarrow> (\<forall>x\<in>set xs. \<not> cmp k (fst x)) \<and> apart_keys cmp xs"

definition hash_index :: "('k, 'v) hashmap \<Rightarrow> 'k \<Rightarrow> nat" where
  "hash_index m key = unat (hash_func m key mod hm_size m)"

definition hm_wf :: "('k, 'v) hashmap \<Rightarrow> bool" where
  "hm_wf m \<longleftrightarrow> hm_size m \<noteq> 0 \<and> length (entries m) = unat (hm_size m) \<and>
     (\<forall>i<length (entries m). apart_keys (hash_comp m) (entries m ! i) \<and> (\<forall>x\<in>set (entries m ! i). hash_index m (fst x) = i))"

text \<open>The entry of a key: \<open>None\<close> when there is none, otherwise its value.\<close>

definition hm_lookup :: "('k, 'v) hashmap \<Rightarrow> 'k \<Rightarrow> 'v option option" where
  "hm_lookup m key = find_chain (hash_comp m) key (entries m ! hash_index m key)"

lemma hash_index_less: "hm_wf m \<Longrightarrow> hash_index m key < length (entries m)"
  by (simp add: hm_wf_def hash_index_def unat_mod_distrib unat_gt_0)

lemma bucket_index_wf: "hm_wf m \<Longrightarrow> bucket_index m key = Inr (hash_index m key)"
  by (simp add: bucket_index_def hash_index_def hm_wf_def)


section \<open>What a map needs of its keys\<close>

text \<open>The comparison is an equivalence, and equivalent keys have the same hash.\<close>

locale hash_keys =
  fixes hash :: "'k \<Rightarrow> u32"
    and cmp :: "'k \<Rightarrow> 'k \<Rightarrow> bool"
  assumes cmp_refl: "cmp a a"
    and cmp_sym: "cmp a b \<Longrightarrow> cmp b a"
    and cmp_trans: "cmp a b \<Longrightarrow> cmp b c \<Longrightarrow> cmp a c"
    and cmp_hash: "cmp a b \<Longrightarrow> hash a = hash b"
begin

lemma cmp_eq: "cmp a b \<Longrightarrow> cmp a c = cmp b c"
  using cmp_sym cmp_trans by blast

lemma find_cmp: "cmp a b \<Longrightarrow> find_chain cmp a xs = find_chain cmp b xs"
  by (induction xs rule: list_pair_induct) (auto dest: cmp_trans cmp_sym)

lemma find_None: "find_chain cmp key xs = None \<longleftrightarrow> (\<forall>x\<in>set xs. \<not> cmp (fst x) key)"
  by (induction xs rule: list_pair_induct) auto

lemma set_chain_out: "fst (set_chain cmp key value xs) = (case find_chain cmp key xs of None \<Rightarrow> None | Some v \<Rightarrow> v)"
  by (induction xs rule: list_pair_induct) (auto simp: Let_def split: prod.splits)

lemma set_chain_keys: "fst ` set (snd (set_chain cmp key value xs)) \<subseteq> insert key (fst ` set xs)"
proof (induction xs rule: list_pair_induct)
  case (Cons k v xs)
  then show ?case by (cases "set_chain cmp key value xs") auto
qed simp

lemma set_chain_find:
  "find_chain cmp key' (snd (set_chain cmp key value xs)) = (if cmp key key' then Some value else find_chain cmp key' xs)"
  by (induction xs rule: list_pair_induct)
    (auto simp: Let_def split: prod.splits dest: cmp_trans cmp_sym)

lemma set_chain_apart: "apart_keys cmp xs \<Longrightarrow> apart_keys cmp (snd (set_chain cmp key value xs))"
proof (induction xs rule: list_pair_induct)
  case (Cons k v xs)
  then show ?case using set_chain_keys [of key "value" xs] by (fastforce simp: Let_def split: prod.splits)
qed simp

lemma remove_chain_out: "fst (remove_chain cmp key xs) = (case find_chain cmp key xs of None \<Rightarrow> None | Some v \<Rightarrow> v)"
  by (induction xs rule: list_pair_induct) (auto simp: Let_def split: prod.splits)

lemma remove_chain_keys: "set (snd (remove_chain cmp key xs)) \<subseteq> set xs"
  by (induction xs rule: list_pair_induct) (auto simp: Let_def split: prod.splits)

lemma remove_chain_find:
  "apart_keys cmp xs \<Longrightarrow> find_chain cmp key' (snd (remove_chain cmp key xs)) = (if cmp key key' then None else find_chain cmp key' xs)"
proof (induction xs rule: list_pair_induct)
  case (Cons k v xs)
  show ?case
  proof (cases "cmp k key")
    case True
    have "find_chain cmp key' xs = None" if kk: "cmp key key'"
      unfolding find_None
    proof
      fix x assume x: "x \<in> set xs"
      have "\<not> cmp k (fst x)" using Cons.prems x by simp
      moreover have "cmp k key'" by (rule cmp_trans [OF True kk])
      ultimately show "\<not> cmp (fst x) key'" using cmp_trans [of k key' "fst x"] cmp_sym [of "fst x" key'] by blast
    qed
    moreover have "cmp k key' = cmp key key'" using cmp_eq [OF True] .
    ultimately show ?thesis using True by simp
  next
    case False
    then have "cmp key key' \<Longrightarrow> \<not> cmp k key'" using cmp_trans cmp_sym by blast
    then show ?thesis using Cons False by (auto simp: Let_def split: prod.splits)
  qed
qed simp

lemma remove_chain_apart: "apart_keys cmp xs \<Longrightarrow> apart_keys cmp (snd (remove_chain cmp key xs))"
proof (induction xs rule: list_pair_induct)
  case (Cons k v xs)
  then show ?case using remove_chain_keys [of key xs] by (fastforce simp: Let_def split: prod.splits)
qed simp

text \<open>The operations on a map with these functions on keys.\<close>

lemma find_index: "hm_wf m \<Longrightarrow> hash_func m = hash \<Longrightarrow> cmp a b \<Longrightarrow> hash_index m a = hash_index m b"
  using cmp_hash by (simp add: hash_index_def)

lemma wf_update:
  assumes "hm_wf m" "hash_func m = hash" "hash_comp m = cmp" "i = hash_index m key" "apart_keys cmp b"
    and "\<And>x. x \<in> set b \<Longrightarrow> hash_index m (fst x) = i"
  shows "hm_wf (m\<lparr>entries := (entries m)[i := b]\<rparr>)"
proof -
  have "hash_index (m\<lparr>entries := xs\<rparr>) = hash_index m" for xs by (simp add: hash_index_def fun_eq_iff)
  moreover have "i < length (entries m)" using hash_index_less [OF assms(1), of key] assms(4) by simp
  ultimately show ?thesis using assms(1,3,5,6) by (simp add: hm_wf_def nth_list_update)
qed

lemma lookup_update:
  assumes "hm_wf m" "hash_func m = hash" "hash_comp m = cmp" "i = hash_index m key"
    and "\<And>k. cmp key k \<Longrightarrow> find_chain cmp k b = new"
    and "\<And>k. \<not> cmp key k \<Longrightarrow> find_chain cmp k b = find_chain cmp k (entries m ! i)"
  shows "hm_lookup (m\<lparr>entries := (entries m)[i := b]\<rparr>) k = (if cmp key k then new else hm_lookup m k)"
proof -
  have l: "i < length (entries m)" using hash_index_less [OF assms(1), of key] assms(4) by simp
  have "cmp key k \<Longrightarrow> hash_index m k = i" using find_index [OF assms(1,2), of key k] assms(4) by simp
  moreover have "hash_index (m\<lparr>entries := (entries m)[i := b]\<rparr>) k = hash_index m k" by (simp add: hash_index_def)
  ultimately show ?thesis using assms(3,5,6) l by (auto simp: hm_lookup_def nth_list_update)
qed

lemma hashmap_set_ok:
  assumes "hm_wf m" "hash_func m = hash" "hash_comp m = cmp"
  shows "\<exists>m'. hashmap_set m key v = Inr (case hm_lookup m key of None \<Rightarrow> None | Some v \<Rightarrow> v, m') \<and> hm_wf m' \<and>
    (\<forall>k. hm_lookup m' k = (if cmp key k then Some v else hm_lookup m k))"
proof -
  let ?i = "hash_index m key" let ?b = "entries m ! ?i"
  let ?m = "m\<lparr>entries := (entries m)[?i := snd (set_chain cmp key v ?b)]\<rparr>"
  have wf: "apart_keys cmp ?b" "\<And>x. x \<in> set ?b \<Longrightarrow> hash_index m (fst x) = ?i"
    using assms hash_index_less [OF assms(1), of key] by (auto simp: hm_wf_def)
  have "hashmap_set m key v = Inr (case hm_lookup m key of None \<Rightarrow> None | Some v \<Rightarrow> v, ?m)"
    using bucket_index_wf [OF assms(1)] hash_index_less [OF assms(1)] assms(3) set_chain_out [of key v ?b]
    by (auto simp: hashmap_set_def hm_lookup_def Let_def split: prod.splits)
  moreover have "hm_wf ?m"
  proof (rule wf_update [OF assms refl])
    show "apart_keys cmp (snd (set_chain cmp key v ?b))" by (rule set_chain_apart [OF wf(1)])
    show "hash_index m (fst x) = ?i" if "x \<in> set (snd (set_chain cmp key v ?b))" for x
      using set_chain_keys [of key v ?b] that wf(2) by fastforce
  qed
  moreover have "hm_lookup ?m k = (if cmp key k then Some v else hm_lookup m k)" for k
    by (rule lookup_update [OF assms refl]) (simp_all add: set_chain_find)
  ultimately show ?thesis by blast
qed

lemma hashmap_get_ok:
  assumes "hm_wf m"
  shows "hashmap_get m key = Inr (case hm_lookup m key of None \<Rightarrow> None | Some v \<Rightarrow> v)"
    "hashmap_has m key = Inr (hm_lookup m key \<noteq> None)"
  using bucket_index_wf [OF assms] hash_index_less [OF assms] by (simp_all add: hashmap_get_def hashmap_has_def hm_lookup_def)

lemma hashmap_remove_ok:
  assumes "hm_wf m" "hash_func m = hash" "hash_comp m = cmp"
    and "hm_lookup m key = None \<Longrightarrow> length (entries m ! hash_index m key) \<noteq> 1"
  shows "\<exists>m'. hashmap_remove m key = Inr (case hm_lookup m key of None \<Rightarrow> None | Some v \<Rightarrow> v, m') \<and> hm_wf m' \<and>
    (\<forall>k. hm_lookup m' k = (if cmp key k then None else hm_lookup m k))"
proof -
  let ?i = "hash_index m key" let ?b = "entries m ! ?i" let ?r = "snd (remove_chain cmp key ?b)"
  let ?m = "m\<lparr>entries := (entries m)[?i := ?r]\<rparr>"
  have wf: "apart_keys cmp ?b" "\<And>x. x \<in> set ?b \<Longrightarrow> hash_index m (fst x) = ?i"
    using assms hash_index_less [OF assms(1), of key] by (auto simp: hm_wf_def)
  have "hashmap_remove m key = Inr (case hm_lookup m key of None \<Rightarrow> None | Some v \<Rightarrow> v, ?m)"
  proof (cases ?b)
    case Nil
    then have "(entries m)[?i := ?r] = entries m" by (simp add: list_update_same_conv hash_index_less [OF assms(1)])
    then have "?m = m" by simp
    then show ?thesis using Nil bucket_index_wf [OF assms(1)] hash_index_less [OF assms(1)]
      by (simp add: hashmap_remove_def hm_lookup_def)
  next
    case (Cons x xs)
    obtain k v where x: "x = (k, v)" by (cases x)
    have "hashmap_remove m key = (if cmp k key then Inr (v, m\<lparr>entries := (entries m)[?i := xs]\<rparr>)
        else if xs = [] then Inl NullDeref
        else Inr (fst (remove_chain cmp key xs), m\<lparr>entries := (entries m)[?i := (k, v) # snd (remove_chain cmp key xs)]\<rparr>))"
      using Cons x bucket_index_wf [OF assms(1), of key] hash_index_less [OF assms(1), of key] assms(3)
      by (simp add: hashmap_remove_def case_prod_beta Let_def)
    moreover have "xs = [] \<Longrightarrow> cmp k key" using assms(3,4) Cons x by (cases "cmp k key") (auto simp: hm_lookup_def)
    moreover have "hm_lookup m key = (if cmp k key then Some v else find_chain cmp key xs)"
      using Cons x assms(3) by (simp add: hm_lookup_def)
    ultimately show ?thesis using Cons x remove_chain_out [of key xs] by (simp add: case_prod_beta Let_def)
  qed
  moreover have "hm_wf ?m"
  proof (rule wf_update [OF assms(1-3) refl])
    show "apart_keys cmp ?r" by (rule remove_chain_apart [OF wf(1)])
    show "hash_index m (fst x) = ?i" if "x \<in> set ?r" for x using remove_chain_keys [of key ?b] that wf(2) by blast
  qed
  moreover have "hm_lookup ?m k = (if cmp key k then None else hm_lookup m k)" for k
    by (rule lookup_update [OF assms(1-3) refl]) (simp_all add: remove_chain_find wf)
  ultimately show ?thesis by blast
qed

lemma hashmap_remove_faults:
  assumes "hm_wf m" "hash_comp m = cmp" "entries m ! hash_index m key = [(k, v)]" "\<not> cmp k key"
  shows "hashmap_remove m key = Inl NullDeref"
  using bucket_index_wf [OF assms(1)] hash_index_less [OF assms(1)] assms by (simp add: hashmap_remove_def)

end

section \<open>The two kinds of keys\<close>

lemma c_chars_no_zero: "0 \<notin> set (c_chars key)"
  by (auto simp: c_chars_def dest: set_takeWhileD)

lemma string_comp_eq: "hashmap_string_comp a b \<longleftrightarrow> c_chars a = c_chars b"
  by (simp add: hashmap_string_comp_def string_order_0 c_chars_no_zero)

interpretation string_keys: hash_keys hashmap_string_hash hashmap_string_comp
  by unfold_locales (simp_all add: string_comp_eq hashmap_string_hash_def)

interpretation int_keys: hash_keys hashmap_int_hash hashmap_int_comp
  by unfold_locales (simp_all add: hashmap_int_comp_def hashmap_int_hash_def signed_word_eqI)

lemma hashmap_create_wf:
  assumes "sz \<noteq> 0"
  shows "hm_wf (hashmap_create sz)" "hm_wf (hashmap_create_int sz)"
  using assms by (simp_all add: hm_wf_def hashmap_create_def hashmap_create_int_def)

text \<open>
  C40. A hash map with string keys implements a partial function: setting a key returns the old value and
  changes the entry of that key only, getting and testing a key report its entry, and removing a key
  returns its value and deletes its entry only; all keep the map well formed. The exception is the removal
  of a missing key from a bucket that holds one other entry, which dereferences a null pointer.
\<close>

theorem hashmap_refines_map:
  assumes "hm_wf m" "hash_func m = hashmap_string_hash" "hash_comp m = hashmap_string_comp"
  shows "(\<exists>m'. hashmap_set m key v = Inr (case hm_lookup m key of None \<Rightarrow> None | Some w \<Rightarrow> w, m') \<and> hm_wf m' \<and>
      (\<forall>k. hm_lookup m' k = (if c_chars key = c_chars k then Some v else hm_lookup m k))) \<and>
    hashmap_get m key = Inr (case hm_lookup m key of None \<Rightarrow> None | Some w \<Rightarrow> w) \<and>
    hashmap_has m key = Inr (hm_lookup m key \<noteq> None) \<and>
    (if hm_lookup m key = None \<and> length (entries m ! hash_index m key) = 1 then hashmap_remove m key = Inl NullDeref
     else \<exists>m'. hashmap_remove m key = Inr (case hm_lookup m key of None \<Rightarrow> None | Some w \<Rightarrow> w, m') \<and> hm_wf m' \<and>
      (\<forall>k. hm_lookup m' k = (if c_chars key = c_chars k then None else hm_lookup m k)))"
proof (intro conjI)
  show "\<exists>m'. hashmap_set m key v = Inr (case hm_lookup m key of None \<Rightarrow> None | Some w \<Rightarrow> w, m') \<and> hm_wf m' \<and>
      (\<forall>k. hm_lookup m' k = (if c_chars key = c_chars k then Some v else hm_lookup m k))"
    using string_keys.hashmap_set_ok [OF assms, of key v] by (auto simp: string_comp_eq)
  show "hashmap_get m key = Inr (case hm_lookup m key of None \<Rightarrow> None | Some w \<Rightarrow> w)"
    "hashmap_has m key = Inr (hm_lookup m key \<noteq> None)"
    by (rule string_keys.hashmap_get_ok [OF assms(1)])+
  show "if hm_lookup m key = None \<and> length (entries m ! hash_index m key) = 1 then hashmap_remove m key = Inl NullDeref
     else \<exists>m'. hashmap_remove m key = Inr (case hm_lookup m key of None \<Rightarrow> None | Some w \<Rightarrow> w, m') \<and> hm_wf m' \<and>
      (\<forall>k. hm_lookup m' k = (if c_chars key = c_chars k then None else hm_lookup m k))"
  proof (cases "hm_lookup m key = None \<and> length (entries m ! hash_index m key) = 1")
    case True
    then obtain k w where b: "entries m ! hash_index m key = [(k, w)]" by (auto simp: length_Suc_conv)
    then have "\<not> hashmap_string_comp k key" using True assms(3) by (simp add: hm_lookup_def split: if_splits)
    then show ?thesis using True string_keys.hashmap_remove_faults [OF assms(1,3) b] by simp
  next
    case False
    then show ?thesis using string_keys.hashmap_remove_ok [OF assms, of key] by (auto simp: string_comp_eq)
  qed
qed

definition example_map :: "(u8 list, nat) hashmap" where
  "example_map = (hashmap_create 4)\<lparr>entries := [[], [([65], Some 7)], [], []]\<rparr>"

theorem hashmap_refines_map_witness:
  "hashmap_get example_map [65] = Inr (Some 7) \<and> hashmap_remove example_map [69] = Inl NullDeref"
proof -
  have h: "hashmap_string_hash [65] = 65" "hashmap_string_hash [69] = 69" by (simp_all add: hashmap_string_hash_def c_chars_def)
  have i: "hash_index example_map [65] = 1" "hash_index example_map [69] = 1"
    by (simp_all add: hash_index_def example_map_def hashmap_create_def h)
  have wf: "hm_wf example_map"
    using i by (simp add: hm_wf_def example_map_def hashmap_create_def All_less_Suc)
  have l: "hm_lookup example_map [65] = Some (Some 7)" "hm_lookup example_map [69] = None"
    by (simp_all add: hm_lookup_def i) (simp_all add: example_map_def hashmap_create_def string_comp_eq c_chars_def)
  have e: "length (entries example_map ! Suc 0) = Suc 0" by (simp add: example_map_def)
  have f: "hash_func example_map = hashmap_string_hash" "hash_comp example_map = hashmap_string_comp"
    by (simp_all add: example_map_def hashmap_create_def)
  show ?thesis
    using hashmap_refines_map [OF wf f, of "[65]"] hashmap_refines_map [OF wf f, of "[69]"] by (simp add: l i e)
qed

end
