(* ===== verification/C_List.thy ===== *)
theory C_List
  imports Prelude
begin

text \<open>
  The doubly linked list of \<open>src/libc/list.c\<close> on a store of nodes. The list pointer is not null in the
  model; a null value is \<open>None\<close> and fails the assertion of the routines that have one. The address of
  a node that \<open>calloc\<close> returns is the argument \<open>new\<close>; reading through a null pointer or a freed
  node is the fault \<open>NullDeref\<close>. The walks along the list are \<open>None\<close> when they do not end.
\<close>

section \<open>The operations\<close>

record listnode =
  lvalue :: nat
  lprev :: "nat option"
  lnext :: "nat option"

record list_t =
  lnodes :: "nat \<rightharpoonup> listnode"
  lhead :: "nat option"
  ltail :: "nat option"
  lsize :: u32

definition list_create :: list_t where
  "list_create = \<lparr>lnodes = Map.empty, lhead = None, ltail = None, lsize = 0\<rparr>"

definition list_size :: "list_t \<Rightarrow> u32" where "list_size l = lsize l"

definition list_empty :: "list_t \<Rightarrow> bool" where "list_empty l \<longleftrightarrow> lsize l = 0"

definition node_at :: "list_t \<Rightarrow> nat option \<Rightarrow> listnode res" where
  "node_at l p = (case p of None \<Rightarrow> Inl NullDeref | Some a \<Rightarrow> (case lnodes l a of None \<Rightarrow> Inl NullDeref | Some x \<Rightarrow> Inr x))"

definition upd_node :: "nat option \<Rightarrow> (listnode \<Rightarrow> listnode) \<Rightarrow> list_t \<Rightarrow> list_t res" where
  "upd_node p g l = bindR (node_at l p) (\<lambda>x. Inr (l\<lparr>lnodes := (lnodes l)(the p \<mapsto> g x)\<rparr>))"

definition free_node :: "nat option \<Rightarrow> list_t \<Rightarrow> list_t" where
  "free_node p l = (case p of None \<Rightarrow> l | Some a \<Rightarrow> l\<lparr>lnodes := (lnodes l)(a := None)\<rparr>)"

definition calloc_node :: "nat \<Rightarrow> list_t \<Rightarrow> list_t" where
  "calloc_node new l = l\<lparr>lnodes := (lnodes l)(new \<mapsto> \<lparr>lvalue = 0, lprev = None, lnext = None\<rparr>)\<rparr>"

definition list_insert_front :: "nat \<Rightarrow> nat option \<Rightarrow> list_t \<Rightarrow> (nat \<times> list_t) res" where
  "list_insert_front new v l =
     (case v of None \<Rightarrow> Inl AssertFail | Some v \<Rightarrow>
       let l = calloc_node new l in
       bindR (upd_node (lhead l) (\<lambda>x. x\<lparr>lprev := Some new\<rparr>) l) (\<lambda>l.
       bindR (upd_node (Some new) (\<lambda>x. x\<lparr>lnext := lhead l, lvalue := v\<rparr>) l) (\<lambda>l.
       let l = (if lhead l = None then l\<lparr>ltail := Some new\<rparr> else l) in
       Inr (new, l\<lparr>lhead := Some new, lsize := lsize l + 1\<rparr>))))"

definition list_insert_back :: "nat \<Rightarrow> nat option \<Rightarrow> list_t \<Rightarrow> (nat \<times> list_t) res" where
  "list_insert_back new v l =
     (case v of None \<Rightarrow> Inl AssertFail | Some v \<Rightarrow>
       let l = calloc_node new l in
       bindR (upd_node (Some new) (\<lambda>x. x\<lparr>lprev := ltail l\<rparr>) l) (\<lambda>l.
       bindR (if ltail l \<noteq> None then upd_node (ltail l) (\<lambda>x. x\<lparr>lnext := Some new\<rparr>) l else Inr l) (\<lambda>l.
       bindR (upd_node (Some new) (\<lambda>x. x\<lparr>lvalue := v\<rparr>) l) (\<lambda>l.
       let l = (if lhead l = None then l\<lparr>lhead := Some new\<rparr> else l) in
       Inr (new, l\<lparr>ltail := Some new, lsize := lsize l + 1\<rparr>)))))"

definition list_insert_node_back :: "nat \<Rightarrow> list_t \<Rightarrow> list_t res" where
  "list_insert_node_back node l =
     bindR (upd_node (Some node) (\<lambda>x. x\<lparr>lprev := ltail l\<rparr>) l) (\<lambda>l.
     bindR (if ltail l \<noteq> None then upd_node (ltail l) (\<lambda>x. x\<lparr>lnext := Some node\<rparr>) l else Inr l) (\<lambda>l.
     let l = (if lhead l = None then l\<lparr>lhead := Some node\<rparr> else l) in
     Inr (l\<lparr>ltail := Some node, lsize := lsize l + 1\<rparr>)))"

definition list_remove_front :: "list_t \<Rightarrow> (nat option \<times> list_t) res" where
  "list_remove_front l =
     (if lhead l = None then Inr (None, l)
      else bindR (node_at l (lhead l)) (\<lambda>x. let node = lhead l; l = l\<lparr>lhead := lnext x\<rparr> in
        bindR (if lhead l \<noteq> None then upd_node (lhead l) (\<lambda>y. y\<lparr>lprev := None\<rparr>) l else Inr l) (\<lambda>l.
        Inr (Some (lvalue x), (free_node node l)\<lparr>lsize := lsize l - 1\<rparr>))))"

definition list_remove_back :: "list_t \<Rightarrow> (nat option \<times> list_t) res" where
  "list_remove_back l =
     (if lhead l = None then Inr (None, l)
      else bindR (node_at l (ltail l)) (\<lambda>x. let node = ltail l; l = l\<lparr>ltail := lprev x\<rparr> in
        bindR (if ltail l \<noteq> None then upd_node (ltail l) (\<lambda>y. y\<lparr>lnext := None\<rparr>) l else Inr l) (\<lambda>l.
        Inr (Some (lvalue x), (free_node node l)\<lparr>lsize := lsize l - 1\<rparr>))))"

definition list_remove_node :: "nat \<Rightarrow> list_t \<Rightarrow> (nat option \<times> list_t) res" where
  "list_remove_node node l =
     (if lhead l = Some node then list_remove_front l
      else if ltail l = Some node then list_remove_back l
      else bindR (node_at l (Some node)) (\<lambda>x.
        bindR (upd_node (lnext x) (\<lambda>y. y\<lparr>lprev := lprev x\<rparr>) l) (\<lambda>l.
        bindR (upd_node (lprev x) (\<lambda>y. y\<lparr>lnext := lnext x\<rparr>) l) (\<lambda>l.
        Inr (Some (lvalue x), free_node (Some node) (l\<lparr>lsize := lsize l - 1\<rparr>))))))"

text \<open>The walk of \<open>listnode_foreach\<close> with a test on the position and the value; the position and the node where it stops.\<close>

partial_function (option) foreach_find :: "(nat \<Rightarrow> nat \<Rightarrow> bool) \<Rightarrow> list_t \<Rightarrow> nat option \<Rightarrow> nat \<Rightarrow> (nat \<times> nat) option res option" where
  "foreach_find test l p i =
     (case p of None \<Rightarrow> Some (Inr None)
      | Some a \<Rightarrow> (case node_at l p of Inl e \<Rightarrow> Some (Inl e)
          | Inr x \<Rightarrow> if test i (lvalue x) then Some (Inr (Some (i, a))) else foreach_find test l (lnext x) (Suc i)))"

definition mapO :: "('a \<Rightarrow> 'b) \<Rightarrow> 'a res option \<Rightarrow> 'b res option" where
  "mapO f r = map_option (map_sum (\<lambda>e. e) f) r"

definition list_find :: "list_t \<Rightarrow> nat \<Rightarrow> nat option res option" where
  "list_find l v = mapO (map_option snd) (foreach_find (\<lambda>i w. w = v) l (lhead l) 0)"

definition list_contain :: "list_t \<Rightarrow> nat option \<Rightarrow> int res option" where
  "list_contain l v = (case v of None \<Rightarrow> Some (Inl AssertFail)
     | Some v \<Rightarrow> mapO (\<lambda>r. case r of None \<Rightarrow> -1 | Some (i, a) \<Rightarrow> int i) (foreach_find (\<lambda>i w. w = v) l (lhead l) 0))"

definition list_get_node_by_index :: "list_t \<Rightarrow> u32 \<Rightarrow> nat option res option" where
  "list_get_node_by_index l n =
     (if n \<ge> list_size l then Some (Inr None)
      else mapO (map_option snd) (foreach_find (\<lambda>i w. n = of_nat i) l (lhead l) 0))"

definition list_remove_by_index :: "list_t \<Rightarrow> u32 \<Rightarrow> (nat option \<times> list_t) res option" where
  "list_remove_by_index l n = map_option (\<lambda>r. bindR r (\<lambda>node.
     case node of None \<Rightarrow> Inr (None, l) | Some a \<Rightarrow> list_remove_node a l)) (list_get_node_by_index l n)"

definition list_push :: "nat \<Rightarrow> nat option \<Rightarrow> list_t \<Rightarrow> list_t res" where
  "list_push new v l = bindR (list_insert_back new v l) (\<lambda>(n, l). Inr l)"

definition list_pop_back :: "list_t \<Rightarrow> (nat option \<times> list_t) res" where
  "list_pop_back l =
     (if lhead l = None then Inr (None, l)
      else bindR (node_at l (ltail l)) (\<lambda>x. let node = ltail l; l = l\<lparr>ltail := lprev x\<rparr> in
        bindR (if ltail l \<noteq> None then upd_node (ltail l) (\<lambda>y. y\<lparr>lnext := None\<rparr>) l else Inr l) (\<lambda>l.
        Inr (node, l\<lparr>lsize := lsize l - 1\<rparr>))))"

definition list_pop_front :: "list_t \<Rightarrow> (nat option \<times> list_t) res" where
  "list_pop_front l =
     (if lhead l = None then Inr (None, l)
      else bindR (node_at l (lhead l)) (\<lambda>x. Inr (lhead l, l\<lparr>lhead := lnext x, lsize := lsize l - 1\<rparr>)))"

definition list_enqueue :: "nat \<Rightarrow> nat option \<Rightarrow> list_t \<Rightarrow> list_t res" where
  "list_enqueue new v l = bindR (list_insert_front new v l) (\<lambda>(n, l). Inr l)"

definition list_dequeue :: "list_t \<Rightarrow> (nat option \<times> list_t) res" where
  "list_dequeue l = list_pop_back l"

definition list_peek_front :: "list_t \<Rightarrow> nat option res" where
  "list_peek_front l = (if lhead l = None then Inr None else bindR (node_at l (lhead l)) (\<lambda>x. Inr (Some (lvalue x))))"

definition list_peek_back :: "list_t \<Rightarrow> nat option res" where
  "list_peek_back l = (if ltail l = None then Inr None else bindR (node_at l (ltail l)) (\<lambda>x. Inr (Some (lvalue x))))"

text \<open>\<open>list_merge\<close> of two lists whose nodes lie in one store, that of the target.\<close>

definition list_merge :: "list_t \<Rightarrow> list_t \<Rightarrow> list_t res" where
  "list_merge target source =
     bindR (if ltail target \<noteq> None then upd_node (ltail target) (\<lambda>x. x\<lparr>lnext := lhead source\<rparr>) target
            else Inr (target\<lparr>lhead := lhead source\<rparr>)) (\<lambda>t.
     let t = (if ltail source \<noteq> None then t\<lparr>ltail := ltail source\<rparr> else t) in
     Inr (t\<lparr>lsize := lsize t + lsize source\<rparr>))"

section \<open>What a list holds\<close>

fun first_ptr :: "(nat \<times> nat) list \<Rightarrow> nat option \<Rightarrow> nat option" where
  "first_ptr [] e = e"
| "first_ptr (x # xs) e = Some (fst x)"

definition last_ptr :: "nat option \<Rightarrow> (nat \<times> nat) list \<Rightarrow> nat option" where
  "last_ptr p xs = (if xs = [] then p else Some (fst (last xs)))"

text \<open>A segment of nodes after \<open>p\<close> and before \<open>e\<close>, with addresses and values.\<close>

fun seg :: "(nat \<rightharpoonup> listnode) \<Rightarrow> nat option \<Rightarrow> (nat \<times> nat) list \<Rightarrow> nat option \<Rightarrow> bool" where
  "seg N p [] e \<longleftrightarrow> True"
| "seg N p (x # xs) e \<longleftrightarrow> N (fst x) = Some \<lparr>lvalue = snd x, lprev = p, lnext = first_ptr xs e\<rparr> \<and> seg N (Some (fst x)) xs e"

definition list_holds :: "list_t \<Rightarrow> (nat \<times> nat) list \<Rightarrow> bool" where
  "list_holds l xs \<longleftrightarrow> seg (lnodes l) None xs None \<and> lhead l = first_ptr xs None \<and> ltail l = last_ptr None xs \<and>
     distinct (map fst xs) \<and> lsize l = of_nat (length xs)"

lemma first_ptr_append [simp]: "first_ptr (xs @ ys) e = first_ptr xs (first_ptr ys e)"
  by (cases xs) auto

lemma last_ptr_Nil [simp]:
  "last_ptr p [] = p"
  by (simp add: last_ptr_def)

lemma last_ptr_Cons [simp]: "last_ptr p (x # xs) = last_ptr (Some (fst x)) xs"
  by (simp add: last_ptr_def)

lemma last_ptr_append [simp]: "last_ptr p (xs @ ys) = last_ptr (last_ptr p xs) ys"
  by (simp add: last_ptr_def)

lemma seg_append [simp]: "seg N p (xs @ ys) e \<longleftrightarrow> seg N p xs (first_ptr ys e) \<and> seg N (last_ptr p xs) ys e"
  by (induction xs arbitrary: p) auto

lemma seg_frame: "seg N p xs e \<Longrightarrow> (\<And>a. a \<in> fst ` set xs \<Longrightarrow> N' a = N a) \<Longrightarrow> seg N' p xs e"
  by (induction xs arbitrary: p) auto

lemma seg_node: "seg N p (xs @ (a, v) # ys) e \<Longrightarrow> N a = Some \<lparr>lvalue = v, lprev = last_ptr p xs, lnext = first_ptr ys e\<rparr>"
  by simp

text \<open>The last node of a segment linked to another successor.\<close>

lemma seg_relink_last:
  assumes "seg N p (xs @ [(b, v)]) e" "distinct (map fst (xs @ [(b, v)]))"
  shows "seg (N(b \<mapsto> \<lparr>lvalue = v, lprev = last_ptr p xs, lnext = e'\<rparr>)) p (xs @ [(b, v)]) e'"
proof -
  have "seg (N(b \<mapsto> \<lparr>lvalue = v, lprev = last_ptr p xs, lnext = e'\<rparr>)) p xs (Some b)"
    by (rule seg_frame [of N]) (use assms in \<open>auto simp: image_iff\<close>)
  then show ?thesis by simp
qed

text \<open>The first node of a segment linked to another predecessor.\<close>

lemma seg_relink_first:
  assumes "seg N p ((b, v) # xs) e" "distinct (map fst ((b, v) # xs))"
  shows "seg (N(b \<mapsto> \<lparr>lvalue = v, lprev = p', lnext = first_ptr xs e\<rparr>)) p' ((b, v) # xs) e"
proof -
  have "seg (N(b \<mapsto> \<lparr>lvalue = v, lprev = p', lnext = first_ptr xs e\<rparr>)) (Some b) xs e"
    by (rule seg_frame [of N]) (use assms in \<open>auto simp: image_iff\<close>)
  then show ?thesis by simp
qed

lemma seg_other: "seg N p xs e \<Longrightarrow> a \<notin> fst ` set xs \<Longrightarrow> seg (N(a := z)) p xs e"
  by (erule seg_frame) auto

lemma insert_back_holds:
  assumes "list_holds l xs" "n \<notin> fst ` set xs"
  shows "\<exists>l'. list_insert_back n (Some v) l = Inr (n, l') \<and> list_holds l' (xs @ [(n, v)])"
proof (cases xs rule: rev_cases)
  case Nil
  then show ?thesis using assms
    by (simp add: list_holds_def list_insert_back_def calloc_node_def upd_node_def node_at_def Let_def)
next
  case (snoc ys y)
  obtain b w where y: "y = (b, w)" by (cases y)
  have h: "seg (lnodes l) None (ys @ [(b, w)]) None" "distinct (map fst (ys @ [(b, w)]))" "ltail l = Some b"
      "lhead l = first_ptr ys (Some b)" "lsize l = of_nat (Suc (length ys))"
    using assms(1) snoc y by (auto simp: list_holds_def)
  have nb: "n \<noteq> b" "n \<notin> fst ` set ys" using assms(2) snoc y by auto
  have b: "lnodes l b = Some \<lparr>lvalue = w, lprev = last_ptr None ys, lnext = None\<rparr>" using h(1) by simp
  define N where "N = (lnodes l)(b \<mapsto> \<lparr>lvalue = w, lprev = last_ptr None ys, lnext = Some n\<rparr>, n \<mapsto> \<lparr>lvalue = v, lprev = Some b, lnext = None\<rparr>)"
  have "list_insert_back n (Some v) l = Inr (n, l\<lparr>lnodes := N, ltail := Some n, lsize := lsize l + 1\<rparr>)"
    using h b nb
    by (cases ys) (auto simp: list_insert_back_def calloc_node_def upd_node_def node_at_def Let_def N_def fun_upd_twist)
  moreover have "seg N None (ys @ [(b, w)]) (Some n)"
    unfolding N_def by (rule seg_other [OF seg_relink_last [OF h(1,2)]]) (use nb in auto)
  then have "list_holds (l\<lparr>lnodes := N, ltail := Some n, lsize := lsize l + 1\<rparr>) (xs @ [(n, v)])"
    using h nb snoc y by (auto simp: list_holds_def N_def)
  ultimately show ?thesis by blast
qed

lemma insert_front_holds:
  assumes "list_holds l (x # xs)" "n \<notin> fst ` set (x # xs)"
  shows "\<exists>l'. list_insert_front n (Some v) l = Inr (n, l') \<and> list_holds l' ((n, v) # x # xs)"
proof -
  obtain b w where x: "x = (b, w)" by (cases x)
  have h: "seg (lnodes l) None ((b, w) # xs) None" "distinct (map fst ((b, w) # xs))" "lhead l = Some b"
      "ltail l = last_ptr None ((b, w) # xs)" "lsize l = of_nat (Suc (length xs))"
    using assms(1) x by (auto simp: list_holds_def)
  have nb: "n \<noteq> b" "n \<notin> fst ` set xs" using assms(2) x by auto
  have b: "lnodes l b = Some \<lparr>lvalue = w, lprev = None, lnext = first_ptr xs None\<rparr>" using h(1) by simp
  define N where "N = (lnodes l)(b \<mapsto> \<lparr>lvalue = w, lprev = Some n, lnext = first_ptr xs None\<rparr>, n \<mapsto> \<lparr>lvalue = v, lprev = None, lnext = Some b\<rparr>)"
  have "list_insert_front n (Some v) l = Inr (n, l\<lparr>lnodes := N, lhead := Some n, lsize := lsize l + 1\<rparr>)"
    using h b nb by (auto simp: list_insert_front_def calloc_node_def upd_node_def node_at_def Let_def N_def fun_upd_twist)
  moreover have "seg N (Some n) ((b, w) # xs) None"
    unfolding N_def by (rule seg_other [OF seg_relink_first [OF h(1,2)]]) (use nb in auto)
  then have "list_holds (l\<lparr>lnodes := N, lhead := Some n, lsize := lsize l + 1\<rparr>) ((n, v) # x # xs)"
    using h nb x by (auto simp: list_holds_def N_def)
  ultimately show ?thesis by blast
qed

lemma remove_front_holds:
  assumes "list_holds l (x # y # ys)"
  shows "\<exists>l'. list_remove_front l = Inr (Some (snd x), l') \<and> list_holds l' (y # ys)"
proof -
  obtain a v b w where x: "x = (a, v)" "y = (b, w)" by (cases x, cases y)
  have h: "lnodes l a = Some \<lparr>lvalue = v, lprev = None, lnext = Some b\<rparr>" "seg (lnodes l) (Some a) ((b, w) # ys) None"
      "lhead l = Some a" "ltail l = last_ptr (Some a) ((b, w) # ys)" "distinct (map fst ((b, w) # ys))" "a \<noteq> b" "a \<notin> fst ` set ys"
      "lsize l = of_nat (Suc (Suc (length ys)))"
    using assms x by (auto simp: list_holds_def)
  have b: "lnodes l b = Some \<lparr>lvalue = w, lprev = Some a, lnext = first_ptr ys None\<rparr>" using h(2) by simp
  define N where "N = (lnodes l)(b \<mapsto> \<lparr>lvalue = w, lprev = None, lnext = first_ptr ys None\<rparr>, a := None)"
  have "list_remove_front l = Inr (Some v, l\<lparr>lnodes := N, lhead := Some b, lsize := lsize l - 1\<rparr>)"
    using h b by (auto simp: list_remove_front_def upd_node_def node_at_def free_node_def Let_def N_def)
  moreover have "seg N None ((b, w) # ys) None"
    unfolding N_def by (rule seg_other [OF seg_relink_first [OF h(2,5)]]) (use h in auto)
  then have "list_holds (l\<lparr>lnodes := N, lhead := Some b, lsize := lsize l - 1\<rparr>) (y # ys)"
    using h x by (auto simp: list_holds_def)
  ultimately show ?thesis using x by auto
qed

lemma remove_back_holds:
  assumes "list_holds l (ys @ [y, x])"
  shows "\<exists>l'. list_remove_back l = Inr (Some (snd x), l') \<and> list_holds l' (ys @ [y])"
proof -
  obtain a v b w where x: "x = (a, v)" "y = (b, w)" by (cases x, cases y)
  have h: "lnodes l a = Some \<lparr>lvalue = v, lprev = Some b, lnext = None\<rparr>" "seg (lnodes l) None (ys @ [(b, w)]) (Some a)"
      "lhead l = first_ptr ys (Some b)" "ltail l = Some a" "distinct (map fst (ys @ [(b, w)]))" "a \<noteq> b" "a \<notin> fst ` set ys"
      "lsize l = of_nat (Suc (Suc (length ys)))"
    using assms x by (auto simp: list_holds_def)
  have b: "lnodes l b = Some \<lparr>lvalue = w, lprev = last_ptr None ys, lnext = Some a\<rparr>" using h(2) by simp
  have hd: "lhead l \<noteq> None" using h(3) by (cases ys) auto
  define N where "N = (lnodes l)(b \<mapsto> \<lparr>lvalue = w, lprev = last_ptr None ys, lnext = None\<rparr>, a := None)"
  have "list_remove_back l = Inr (Some v, l\<lparr>lnodes := N, ltail := Some b, lsize := lsize l - 1\<rparr>)"
    using h b hd by (auto simp: list_remove_back_def upd_node_def node_at_def free_node_def Let_def N_def)
  moreover have "seg N None (ys @ [(b, w)]) None"
    unfolding N_def by (rule seg_other [OF seg_relink_last [OF h(2,5)]]) (use h in auto)
  then have "list_holds (l\<lparr>lnodes := N, ltail := Some b, lsize := lsize l - 1\<rparr>) (ys @ [y])"
    using h x by (auto simp: list_holds_def)
  ultimately show ?thesis using x by auto
qed

lemma remove_middle_holds:
  assumes "list_holds l (ys @ [y, x, z] @ zs)"
  shows "\<exists>l'. list_remove_node (fst x) l = Inr (Some (snd x), l') \<and> list_holds l' (ys @ [y, z] @ zs)"
proof -
  obtain a v b w c u where x: "x = (a, v)" "y = (b, w)" "z = (c, u)" by (cases x, cases y, cases z)
  have h: "lnodes l a = Some \<lparr>lvalue = v, lprev = Some b, lnext = Some c\<rparr>" "seg (lnodes l) None (ys @ [(b, w)]) (Some a)"
      "seg (lnodes l) (Some a) ((c, u) # zs) None" "lhead l = first_ptr ys (Some b)" "ltail l = last_ptr (Some a) ((c, u) # zs)"
      "lsize l = of_nat (length ys + length zs + 3)"
    using assms x by (auto simp: list_holds_def)
  have d: "distinct (map fst (ys @ [(b, w)]))" "distinct (map fst ((c, u) # zs))" "a \<notin> fst ` set (ys @ [(b, w)])"
      "a \<notin> fst ` set ((c, u) # zs)" "fst ` set (ys @ [(b, w)]) \<inter> fst ` set ((c, u) # zs) = {}"
    using assms x by (auto simp: list_holds_def)
  have b: "lnodes l b = Some \<lparr>lvalue = w, lprev = last_ptr None ys, lnext = Some a\<rparr>" using h(2) by simp
  have c: "lnodes l c = Some \<lparr>lvalue = u, lprev = Some a, lnext = first_ptr zs None\<rparr>" using h(3) by simp
  have ne: "a \<noteq> b" "a \<noteq> c" "b \<noteq> c" using d by auto
  have hd: "lhead l \<noteq> Some a" using h(4) d(3) by (cases ys) auto
  have tl: "ltail l \<noteq> Some a"
  proof -
    have "fst (last ((c, u) # zs)) \<in> fst ` set ((c, u) # zs)" by (rule imageI, rule last_in_set) simp
    then show ?thesis using h(5) d(4) by (auto simp: last_ptr_def)
  qed
  define N where "N = (lnodes l)(c \<mapsto> \<lparr>lvalue = u, lprev = Some b, lnext = first_ptr zs None\<rparr>,
    b \<mapsto> \<lparr>lvalue = w, lprev = last_ptr None ys, lnext = Some c\<rparr>, a := None)"
  have "list_remove_node a l = Inr (Some v, l\<lparr>lnodes := N, lsize := lsize l - 1\<rparr>)"
    using h(1) b c hd tl ne by (auto simp: list_remove_node_def upd_node_def node_at_def free_node_def Let_def N_def)
  moreover have "seg N None (ys @ [(b, w)]) (Some c)"
  proof -
    have "seg ((lnodes l)(b \<mapsto> \<lparr>lvalue = w, lprev = last_ptr None ys, lnext = Some c\<rparr>)) None (ys @ [(b, w)]) (Some c)"
      by (rule seg_relink_last [OF h(2) d(1)])
    then show ?thesis by (rule seg_frame) (use d ne in \<open>auto simp: N_def\<close>)
  qed
  moreover have "seg N (Some b) ((c, u) # zs) None"
  proof -
    have "seg ((lnodes l)(c \<mapsto> \<lparr>lvalue = u, lprev = Some b, lnext = first_ptr zs None\<rparr>)) (Some b) ((c, u) # zs) None"
      by (rule seg_relink_first [OF h(3) d(2)])
    then show ?thesis by (rule seg_frame) (use d ne in \<open>auto simp: N_def\<close>)
  qed
  ultimately have "list_holds (l\<lparr>lnodes := N, lsize := lsize l - 1\<rparr>) (ys @ [y, z] @ zs)"
    using h d x by (auto simp: list_holds_def)
  with \<open>list_remove_node a l = _\<close> show ?thesis using x by auto
qed

section \<open>Walks\<close>

fun find_from :: "(nat \<Rightarrow> nat \<Rightarrow> bool) \<Rightarrow> nat \<Rightarrow> (nat \<times> nat) list \<Rightarrow> (nat \<times> nat) option" where
  "find_from test i [] = None"
| "find_from test i (x # xs) = (if test i (snd x) then Some (i, fst x) else find_from test (Suc i) xs)"

lemma foreach_find_seg: "seg (lnodes l) p xs None \<Longrightarrow> foreach_find test l (first_ptr xs None) i = Some (Inr (find_from test i xs))"
proof (induction xs arbitrary: p i)
  case Nil
  then show ?case by (subst foreach_find.simps) simp
next
  case (Cons x xs)
  then have "foreach_find test l (first_ptr xs None) (Suc i) = Some (Inr (find_from test (Suc i) xs))" by auto
  then show ?case using Cons.prems by (subst foreach_find.simps) (simp add: node_at_def)
qed

lemma find_from_None: "find_from test i xs = None \<longleftrightarrow> (\<forall>j<length xs. \<not> test (i + j) (snd (xs ! j)))"
proof (induction xs arbitrary: i)
  case (Cons x xs)
  then show ?case by (auto simp: nth_Cons split: nat.splits)
qed simp

lemma find_from_Some:
  "find_from test i xs = Some (k, a) \<Longrightarrow>
     \<exists>j<length xs. k = i + j \<and> a = fst (xs ! j) \<and> test k (snd (xs ! j)) \<and> (\<forall>j'<j. \<not> test (i + j') (snd (xs ! j')))"
proof (induction xs arbitrary: i)
  case (Cons x xs)
  show ?case
  proof (cases "test i (snd x)")
    case True
    then show ?thesis using Cons.prems by (intro exI [of _ 0]) auto
  next
    case False
    then obtain j where "j < length xs" "k = Suc i + j" "a = fst (xs ! j)" "test k (snd (xs ! j))"
        "\<forall>j'<j. \<not> test (Suc i + j') (snd (xs ! j'))"
      using Cons.IH [of "Suc i"] Cons.prems by auto
    then show ?thesis using False
      by (intro exI [of _ "Suc j"]) (auto simp: nth_Cons split: nat.splits)
  qed
qed simp

lemma get_node_by_index_holds:
  assumes "list_holds l xs" "length xs < 2 ^ 32" "i < length xs"
  shows "list_get_node_by_index l (of_nat i) = Some (Inr (Some (fst (xs ! i))))"
proof -
  have s: "seg (lnodes l) None xs None" "lhead l = first_ptr xs None" "lsize l = of_nat (length xs)"
    using assms(1) by (auto simp: list_holds_def)
  have inj: "(of_nat i :: u32) = of_nat j \<longleftrightarrow> i = j" if "j < length xs" for j
    using assms(2,3) that by (simp add: word_of_nat_eq_iff take_bit_nat_eq_self)
  have lt: "\<not> list_size l \<le> of_nat i"
    using assms(2,3) s(3) by (simp add: list_size_def not_le word_of_nat_less_iff take_bit_nat_eq_self)
  obtain k a where f: "find_from (\<lambda>j w. (of_nat i :: u32) = of_nat j) 0 xs = Some (k, a)"
    using find_from_None [of "\<lambda>j w. (of_nat i :: u32) = of_nat j" 0 xs] assms(3)
    by (cases "find_from (\<lambda>j w. (of_nat i :: u32) = of_nat j) 0 xs") auto
  from find_from_Some [OF f] have "a = fst (xs ! i)" using inj by auto
  with f show ?thesis using foreach_find_seg [OF s(1), of "\<lambda>j w. (of_nat i :: u32) = of_nat j" 0] lt s(2)
    by (simp add: list_get_node_by_index_def mapO_def)
qed

lemma contain_holds:
  assumes "list_holds l xs"
  shows "\<exists>r. list_contain l (Some v) = Some (Inr r) \<and>
    (r = -1 \<and> v \<notin> snd ` set xs \<or> (\<exists>j<length xs. r = int j \<and> snd (xs ! j) = v \<and> (\<forall>j'<j. snd (xs ! j') \<noteq> v)))"
proof (cases "find_from (\<lambda>i w. w = v) 0 xs")
  case None
  then have "list_contain l (Some v) = Some (Inr (- 1))"
    using foreach_find_seg [of l None xs "\<lambda>i w. w = v" 0] assms by (simp add: list_holds_def list_contain_def mapO_def)
  moreover have "v \<notin> snd ` set xs" using None by (force simp: find_from_None in_set_conv_nth)
  ultimately show ?thesis by blast
next
  case (Some q)
  obtain k a where q: "q = (k, a)" by (cases q)
  show ?thesis using foreach_find_seg [of l None xs "\<lambda>i w. w = v" 0] assms Some find_from_Some [of "\<lambda>i w. w = v" 0 xs k a] q
    by (auto simp: list_holds_def list_contain_def mapO_def)
qed

lemma remove_by_index_holds:
  assumes h: "list_holds l xs" and n: "length xs < 2 ^ 32" "2 \<le> length xs" "i < length xs"
  shows "\<exists>l'. list_remove_by_index l (of_nat i) = Some (Inr (Some (snd (xs ! i)), l')) \<and> list_holds l' (take i xs @ drop (Suc i) xs)"
proof -
  have r: "list_remove_by_index l (of_nat i) = Some (list_remove_node (fst (xs ! i)) l)"
    using get_node_by_index_holds [OF h n(1,3)] by (simp add: list_remove_by_index_def)
  have hd: "lhead l = first_ptr xs None" "ltail l = last_ptr None xs" "distinct (map fst xs)"
    using h by (auto simp: list_holds_def)
  consider "i = 0" | "i \<noteq> 0" "Suc i = length xs" | "i \<noteq> 0" "Suc i < length xs" using n(3) by linarith
  then show ?thesis
  proof cases
    case 1
    obtain x y ys where xs: "xs = x # y # ys" using n(2) by (auto simp: Suc_le_length_iff numeral_2_eq_2)
    have "list_remove_node (fst x) l = list_remove_front l" using hd xs by (simp add: list_remove_node_def)
    then show ?thesis using r 1 xs remove_front_holds [of l x y ys] h by auto
  next
    case 2
    have "xs \<noteq> []" "butlast xs \<noteq> []" using n 2 length_butlast [of xs] by (auto simp del: length_butlast)
    then obtain ys y x where xs: "xs = ys @ [y, x]"
      by (metis append.assoc append_Cons append_Nil append_butlast_last_id)
    then have i: "i = Suc (length ys)" using 2 by simp
    have "lhead l \<noteq> Some (fst x)" using hd xs by (cases ys) auto
    then have "list_remove_node (fst x) l = list_remove_back l" using hd xs by (simp add: list_remove_node_def)
    then show ?thesis using r i xs remove_back_holds [of l ys y x] h by (simp add: nth_append)
  next
    case 3
    obtain j where i: "i = Suc j" using 3(1) not0_implies_Suc by blast
    define zs where "zs = drop (Suc (Suc i)) xs"
    have d: "drop (Suc i) xs = xs ! Suc i # zs" "drop i xs = xs ! i # xs ! Suc i # zs" "drop j xs = xs ! j # xs ! i # xs ! Suc i # zs"
      using 3 i Cons_nth_drop_Suc [of "Suc i" xs] Cons_nth_drop_Suc [of i xs] Cons_nth_drop_Suc [of j xs] by (simp_all add: zs_def)
    have xs: "xs = take j xs @ [xs ! j, xs ! i, xs ! Suc i] @ zs" using append_take_drop_id [of j xs] d(3) by simp
    have t: "take i xs = take j xs @ [xs ! j]" using i 3 by (simp add: take_Suc_conv_app_nth)
    show ?thesis using r d(1) t remove_middle_holds [of l "take j xs" "xs ! j" "xs ! i" "xs ! Suc i" zs] h xs by simp
  qed
qed

section \<open>The list as a sequence\<close>

lemma single_then_push_faults:
  assumes "list_holds l [(a, w)]" "n \<noteq> a"
  shows "\<exists>l'. list_remove_front l = Inr (Some w, l') \<and> list_push n (Some v) l' = Inl NullDeref"
  using assms
  by (simp add: list_holds_def list_remove_front_def list_push_def list_insert_back_def calloc_node_def upd_node_def node_at_def
      free_node_def Let_def)

text \<open>
  The list implements a sequence: pushing a value appends it; enqueueing one puts it in front of a
  non-empty list; removing by index deletes exactly that element of a list of two or more and returns its
  value; \<open>list_contain\<close> returns the first position of a value, or -1. On an empty list enqueueing
  dereferences the null head, and after the only element has been removed the tail still points to the
  freed node, so that the next push uses it.
\<close>

theorem list_is_sequence:
  assumes "list_holds l xs" "length xs < 2 ^ 32" "n \<notin> fst ` set xs"
  shows "(\<exists>l'. list_push n (Some v) l = Inr l' \<and> list_holds l' (xs @ [(n, v)])) \<and>
    (if xs = [] then list_enqueue n (Some v) l = Inl NullDeref
     else \<exists>l'. list_enqueue n (Some v) l = Inr l' \<and> list_holds l' ((n, v) # xs)) \<and>
    (\<forall>i<length xs. 2 \<le> length xs \<longrightarrow> (\<exists>l'. list_remove_by_index l (of_nat i) = Some (Inr (Some (snd (xs ! i)), l')) \<and>
       list_holds l' (take i xs @ drop (Suc i) xs))) \<and>
    (\<exists>r. list_contain l (Some v) = Some (Inr r) \<and>
       (r = -1 \<and> v \<notin> snd ` set xs \<or> (\<exists>j<length xs. r = int j \<and> snd (xs ! j) = v \<and> (\<forall>j'<j. snd (xs ! j') \<noteq> v)))) \<and>
    (length xs = 1 \<longrightarrow> (\<exists>l'. list_remove_front l = Inr (Some (snd (hd xs)), l') \<and> list_push n (Some v) l' = Inl NullDeref))"
proof (intro conjI)
  show "\<exists>l'. list_push n (Some v) l = Inr l' \<and> list_holds l' (xs @ [(n, v)])"
    using insert_back_holds [OF assms(1,3), of v] by (auto simp: list_push_def)
  show "if xs = [] then list_enqueue n (Some v) l = Inl NullDeref
     else \<exists>l'. list_enqueue n (Some v) l = Inr l' \<and> list_holds l' ((n, v) # xs)"
  proof (cases xs)
    case Nil
    then show ?thesis using assms(1)
      by (simp add: list_holds_def list_enqueue_def list_insert_front_def calloc_node_def upd_node_def node_at_def)
  next
    case (Cons x ys)
    then show ?thesis using insert_front_holds [of l x ys n v] assms by (auto simp: list_enqueue_def)
  qed
  show "\<forall>i<length xs. 2 \<le> length xs \<longrightarrow> (\<exists>l'. list_remove_by_index l (of_nat i) = Some (Inr (Some (snd (xs ! i)), l')) \<and>
       list_holds l' (take i xs @ drop (Suc i) xs))"
    using remove_by_index_holds [OF assms(1,2)] by blast
  show "\<exists>r. list_contain l (Some v) = Some (Inr r) \<and>
       (r = -1 \<and> v \<notin> snd ` set xs \<or> (\<exists>j<length xs. r = int j \<and> snd (xs ! j) = v \<and> (\<forall>j'<j. snd (xs ! j') \<noteq> v)))"
    by (rule contain_holds [OF assms(1)])
  show "length xs = 1 \<longrightarrow> (\<exists>l'. list_remove_front l = Inr (Some (snd (hd xs)), l') \<and> list_push n (Some v) l' = Inl NullDeref)"
    using single_then_push_faults [of l "fst (hd xs)" "snd (hd xs)" n v] assms by (cases xs) auto
qed

definition example_list :: list_t where
  "example_list = \<lparr>lnodes = [1 \<mapsto> \<lparr>lvalue = 10, lprev = None, lnext = Some 2\<rparr>, 2 \<mapsto> \<lparr>lvalue = 20, lprev = Some 1, lnext = None\<rparr>],
     lhead = Some 1, ltail = Some 2, lsize = 2\<rparr>"

theorem list_is_sequence_witness:
  "(\<exists>l'. list_push 3 (Some 30) example_list = Inr l' \<and> list_holds l' [(1, 10), (2, 20), (3, 30)]) \<and>
   (\<exists>l'. list_remove_by_index example_list 1 = Some (Inr (Some 20, l')) \<and> list_holds l' [(1, 10)])"
proof -
  have "list_holds example_list [(1, 10), (2, 20)]" by (simp add: list_holds_def example_list_def)
  from list_is_sequence [OF this, of 3 30] show ?thesis by (force dest: spec [of _ "1 :: nat"])
qed

end
