(* ===== verification/Arr_Math.thy ===== *)
theory Arr_Math
  imports Prelude
begin

text \<open>
  The array arithmetic of \<open>src/Mentos/mentos/src/experimental/math/arr_math.c\<close>: each routine is
  the loop of the source over an index \<open>i\<close>, on arrays of 32-bit unsigned words that wrap around.
  An array is the list of the words of the object it points to; reading or writing past its end is
  \<open>OutOfBounds\<close>. The interface \<open>any_scan\<close> states once what the four \<open>_any\<close> routines and their
  negations have in common.
\<close>

section \<open>The routines\<close>

function all_loop :: "u32 list \<Rightarrow> u32 \<Rightarrow> nat \<Rightarrow> nat \<Rightarrow> u32 list res" where
  "all_loop dst value n i =
     (if i < n then bindR (set_at dst i value) (\<lambda>dst. all_loop dst value n (Suc i))
      else Inr dst)"
  by pat_completeness auto
termination
  by (relation "measure (\<lambda>(dst, value, n, i). n - i)") auto

definition all_arr :: "u32 list \<Rightarrow> u32 \<Rightarrow> nat \<Rightarrow> u32 list res" where
  "all_arr dst value n = all_loop dst value n 0"

function arr_sub_loop :: "u32 list \<Rightarrow> u32 list \<Rightarrow> nat \<Rightarrow> nat \<Rightarrow> u32 list res" where
  "arr_sub_loop left right n i =
     (if i < n then
        bindR (get_at left i) (\<lambda>a. bindR (get_at right i) (\<lambda>b.
        bindR (set_at left i (a - b)) (\<lambda>left. arr_sub_loop left right n (Suc i))))
      else Inr left)"
  by pat_completeness auto
termination
  by (relation "measure (\<lambda>(left, right, n, i). n - i)") auto

definition arr_sub :: "u32 list \<Rightarrow> u32 list \<Rightarrow> nat \<Rightarrow> u32 list res" where
  "arr_sub left right n = arr_sub_loop left right n 0"

function arr_add_loop :: "u32 list \<Rightarrow> u32 list \<Rightarrow> nat \<Rightarrow> nat \<Rightarrow> u32 list res" where
  "arr_add_loop left right n i =
     (if i < n then
        bindR (get_at left i) (\<lambda>a. bindR (get_at right i) (\<lambda>b.
        bindR (set_at left i (a + b)) (\<lambda>left. arr_add_loop left right n (Suc i))))
      else Inr left)"
  by pat_completeness auto
termination
  by (relation "measure (\<lambda>(left, right, n, i). n - i)") auto

definition arr_add :: "u32 list \<Rightarrow> u32 list \<Rightarrow> nat \<Rightarrow> u32 list res" where
  "arr_add left right n = arr_add_loop left right n 0"

function arr_g_any_loop :: "u32 list \<Rightarrow> u32 list \<Rightarrow> nat \<Rightarrow> nat \<Rightarrow> bool res" where
  "arr_g_any_loop left right n i =
     (if i < n then
        bindR (get_at left i) (\<lambda>a. bindR (get_at right i) (\<lambda>b.
        if a > b then Inr True else arr_g_any_loop left right n (Suc i)))
      else Inr False)"
  by pat_completeness auto
termination
  by (relation "measure (\<lambda>(left, right, n, i). n - i)") auto

definition arr_g_any :: "u32 list \<Rightarrow> u32 list \<Rightarrow> nat \<Rightarrow> bool res" where
  "arr_g_any left right n = arr_g_any_loop left right n 0"

function arr_ge_any_loop :: "u32 list \<Rightarrow> u32 list \<Rightarrow> nat \<Rightarrow> nat \<Rightarrow> bool res" where
  "arr_ge_any_loop left right n i =
     (if i < n then
        bindR (get_at left i) (\<lambda>a. bindR (get_at right i) (\<lambda>b.
        if a \<ge> b then Inr True else arr_ge_any_loop left right n (Suc i)))
      else Inr False)"
  by pat_completeness auto
termination
  by (relation "measure (\<lambda>(left, right, n, i). n - i)") auto

definition arr_ge_any :: "u32 list \<Rightarrow> u32 list \<Rightarrow> nat \<Rightarrow> bool res" where
  "arr_ge_any left right n = arr_ge_any_loop left right n 0"

function arr_l_any_loop :: "u32 list \<Rightarrow> u32 list \<Rightarrow> nat \<Rightarrow> nat \<Rightarrow> bool res" where
  "arr_l_any_loop left right n i =
     (if i < n then
        bindR (get_at left i) (\<lambda>a. bindR (get_at right i) (\<lambda>b.
        if a < b then Inr True else arr_l_any_loop left right n (Suc i)))
      else Inr False)"
  by pat_completeness auto
termination
  by (relation "measure (\<lambda>(left, right, n, i). n - i)") auto

definition arr_l_any :: "u32 list \<Rightarrow> u32 list \<Rightarrow> nat \<Rightarrow> bool res" where
  "arr_l_any left right n = arr_l_any_loop left right n 0"

function arr_le_any_loop :: "u32 list \<Rightarrow> u32 list \<Rightarrow> nat \<Rightarrow> nat \<Rightarrow> bool res" where
  "arr_le_any_loop left right n i =
     (if i < n then
        bindR (get_at left i) (\<lambda>a. bindR (get_at right i) (\<lambda>b.
        if a \<le> b then Inr True else arr_le_any_loop left right n (Suc i)))
      else Inr False)"
  by pat_completeness auto
termination
  by (relation "measure (\<lambda>(left, right, n, i). n - i)") auto

definition arr_le_any :: "u32 list \<Rightarrow> u32 list \<Rightarrow> nat \<Rightarrow> bool res" where
  "arr_le_any left right n = arr_le_any_loop left right n 0"

definition arr_g :: "u32 list \<Rightarrow> u32 list \<Rightarrow> nat \<Rightarrow> bool res" where
  "arr_g left right n = bindR (arr_le_any left right n) (\<lambda>b. Inr (\<not> b))"

definition arr_ge :: "u32 list \<Rightarrow> u32 list \<Rightarrow> nat \<Rightarrow> bool res" where
  "arr_ge left right n = bindR (arr_l_any left right n) (\<lambda>b. Inr (\<not> b))"

definition arr_l :: "u32 list \<Rightarrow> u32 list \<Rightarrow> nat \<Rightarrow> bool res" where
  "arr_l left right n = bindR (arr_ge_any left right n) (\<lambda>b. Inr (\<not> b))"

definition arr_le :: "u32 list \<Rightarrow> u32 list \<Rightarrow> nat \<Rightarrow> bool res" where
  "arr_le left right n = bindR (arr_g_any left right n) (\<lambda>b. Inr (\<not> b))"

function arr_e_loop :: "u32 list \<Rightarrow> u32 list \<Rightarrow> nat \<Rightarrow> nat \<Rightarrow> bool res" where
  "arr_e_loop left right n i =
     (if i < n then
        bindR (get_at left i) (\<lambda>a. bindR (get_at right i) (\<lambda>b.
        if a \<noteq> b then Inr False else arr_e_loop left right n (Suc i)))
      else Inr True)"
  by pat_completeness auto
termination
  by (relation "measure (\<lambda>(left, right, n, i). n - i)") auto

definition arr_e :: "u32 list \<Rightarrow> u32 list \<Rightarrow> nat \<Rightarrow> bool res" where
  "arr_e left right n = arr_e_loop left right n 0"

definition arr_ne :: "u32 list \<Rightarrow> u32 list \<Rightarrow> nat \<Rightarrow> bool res" where
  "arr_ne left right n = bindR (arr_e left right n) (\<lambda>b. Inr (\<not> b))"

declare all_loop.simps [simp del] arr_sub_loop.simps [simp del] arr_add_loop.simps [simp del]
  arr_g_any_loop.simps [simp del] arr_ge_any_loop.simps [simp del]
  arr_l_any_loop.simps [simp del] arr_le_any_loop.simps [simp del] arr_e_loop.simps [simp del]


section \<open>The scans\<close>

text \<open>
  The contract the four scans share: a loop that reads both arrays at each index in turn and stops
  at the first pair the comparison accepts.
\<close>

locale any_scan =
  fixes scan :: "u32 list \<Rightarrow> u32 list \<Rightarrow> nat \<Rightarrow> nat \<Rightarrow> bool res"
    and cmp :: "u32 \<Rightarrow> u32 \<Rightarrow> bool"
  assumes scan_unfold: "scan left right n i =
     (if i < n then
        bindR (get_at left i) (\<lambda>a. bindR (get_at right i) (\<lambda>b.
        if cmp a b then Inr True else scan left right n (Suc i)))
      else Inr False)"
begin

lemma scan_from:
  assumes "n \<le> length left" "n \<le> length right"
  shows "scan left right n i = Inr (\<exists>k. i \<le> k \<and> k < n \<and> cmp (left ! k) (right ! k))"
proof (induction "n - i" arbitrary: i)
  case 0
  then show ?case by (subst scan_unfold) auto
next
  case (Suc d)
  then have i: "i < n" and IH: "scan left right n (Suc i) =
      Inr (\<exists>k. Suc i \<le> k \<and> k < n \<and> cmp (left ! k) (right ! k))" by auto
  show ?case
  proof (cases "cmp (left ! i) (right ! i)")
    case True
    with i assms show ?thesis by (subst scan_unfold) auto
  next
    case False
    then have "(\<exists>k. Suc i \<le> k \<and> k < n \<and> cmp (left ! k) (right ! k)) \<longleftrightarrow>
        (\<exists>k. i \<le> k \<and> k < n \<and> cmp (left ! k) (right ! k))"
      by (metis Suc_leD le_antisym not_less_eq_eq)
    with False i assms IH show ?thesis by (subst scan_unfold) auto
  qed
qed

lemma scan_all:
  assumes "n \<le> length left" "n \<le> length right"
  shows "scan left right n 0 = Inr (\<exists>k<n. cmp (left ! k) (right ! k))"
  using scan_from [OF assms, of 0] by auto

lemma scan_neg:
  assumes "n \<le> length left" "n \<le> length right"
  shows "bindR (scan left right n 0) (\<lambda>b. Inr (\<not> b)) =
    (Inr (\<forall>k<n. \<not> cmp (left ! k) (right ! k)) :: bool res)"
  using scan_all [OF assms] by auto

end

interpretation g_any: any_scan arr_g_any_loop "(>)"
  by unfold_locales (rule arr_g_any_loop.simps)

interpretation ge_any: any_scan arr_ge_any_loop "(\<ge>)"
  by unfold_locales (rule arr_ge_any_loop.simps)

interpretation l_any: any_scan arr_l_any_loop "(<)"
  by unfold_locales (rule arr_l_any_loop.simps)

interpretation le_any: any_scan arr_le_any_loop "(\<le>)"
  by unfold_locales (rule arr_le_any_loop.simps)

lemma arr_g_any_eq:
  "n \<le> length l \<Longrightarrow> n \<le> length r \<Longrightarrow> arr_g_any l r n = Inr (\<exists>k<n. l ! k > r ! k)"
  by (simp add: arr_g_any_def g_any.scan_all)

lemma arr_ge_any_eq:
  "n \<le> length l \<Longrightarrow> n \<le> length r \<Longrightarrow> arr_ge_any l r n = Inr (\<exists>k<n. l ! k \<ge> r ! k)"
  by (simp add: arr_ge_any_def ge_any.scan_all)

lemma arr_l_any_eq:
  "n \<le> length l \<Longrightarrow> n \<le> length r \<Longrightarrow> arr_l_any l r n = Inr (\<exists>k<n. l ! k < r ! k)"
  by (simp add: arr_l_any_def l_any.scan_all)

lemma arr_le_any_eq:
  "n \<le> length l \<Longrightarrow> n \<le> length r \<Longrightarrow> arr_le_any l r n = Inr (\<exists>k<n. l ! k \<le> r ! k)"
  by (simp add: arr_le_any_def le_any.scan_all)

text \<open>The all-quantified comparisons are the negated scans of the opposite comparison.\<close>

lemma arr_order_eq:
  assumes "n \<le> length l" "n \<le> length r"
  shows "arr_g l r n = Inr (\<forall>k<n. l ! k > r ! k)"
    and "arr_ge l r n = Inr (\<forall>k<n. l ! k \<ge> r ! k)"
    and "arr_l l r n = Inr (\<forall>k<n. l ! k < r ! k)"
    and "arr_le l r n = Inr (\<forall>k<n. l ! k \<le> r ! k)"
  using le_any.scan_neg [OF assms] l_any.scan_neg [OF assms] ge_any.scan_neg [OF assms]
    g_any.scan_neg [OF assms]
  by (simp_all add: arr_g_def arr_ge_def arr_l_def arr_le_def arr_le_any_def arr_l_any_def
      arr_ge_any_def arr_g_any_def not_le not_less)

lemma arr_e_loop_eq:
  assumes "n \<le> length l" "n \<le> length r"
  shows "arr_e_loop l r n i = Inr (\<forall>k. i \<le> k \<and> k < n \<longrightarrow> l ! k = r ! k)"
proof (induction "n - i" arbitrary: i)
  case 0
  then show ?case by (subst arr_e_loop.simps) auto
next
  case (Suc d)
  then have i: "i < n" and IH: "arr_e_loop l r n (Suc i) =
      Inr (\<forall>k. Suc i \<le> k \<and> k < n \<longrightarrow> l ! k = r ! k)" by auto
  have "(\<forall>k. i \<le> k \<and> k < n \<longrightarrow> l ! k = r ! k) \<longleftrightarrow>
      l ! i = r ! i \<and> (\<forall>k. Suc i \<le> k \<and> k < n \<longrightarrow> l ! k = r ! k)"
    using i by (metis Suc_leD le_antisym le_refl not_less_eq_eq)
  with i IH assms show ?case by (subst arr_e_loop.simps) auto
qed

lemma arr_ne_eq:
  assumes "n \<le> length l" "n \<le> length r"
  shows "arr_ne l r n = Inr (\<exists>k<n. l ! k \<noteq> r ! k)"
  using arr_e_loop_eq [OF assms, of 0] by (auto simp: arr_ne_def arr_e_def)

section \<open>The updates\<close>

definition pointwise :: "(u32 \<Rightarrow> u32 \<Rightarrow> u32) \<Rightarrow> u32 list \<Rightarrow> u32 list \<Rightarrow> nat \<Rightarrow> u32 list" where
  "pointwise f l r n = map (\<lambda>k. if k < n then f (l ! k) (r ! k) else l ! k) [0..<length l]"

lemma length_pointwise [simp]: "length (pointwise f l r n) = length l"
  by (simp add: pointwise_def)

lemma nth_pointwise [simp]:
  "k < length l \<Longrightarrow> pointwise f l r n ! k = (if k < n then f (l ! k) (r ! k) else l ! k)"
  by (simp add: pointwise_def)

text \<open>A loop that writes \<open>f a b\<close> at each index computes the pointwise update.\<close>

locale update_loop =
  fixes upd :: "u32 list \<Rightarrow> u32 list \<Rightarrow> nat \<Rightarrow> nat \<Rightarrow> u32 list res"
    and f :: "u32 \<Rightarrow> u32 \<Rightarrow> u32"
  assumes upd_unfold: "upd left right n i =
     (if i < n then
        bindR (get_at left i) (\<lambda>a. bindR (get_at right i) (\<lambda>b.
        bindR (set_at left i (f a b)) (\<lambda>left. upd left right n (Suc i))))
      else Inr left)"
begin

lemma upd_from:
  assumes "n \<le> length left" "n \<le> length right"
  shows "\<exists>left'. upd left right n i = Inr left' \<and> length left' = length left \<and>
    (\<forall>k < length left. left' ! k =
       (if i \<le> k \<and> k < n then f (left ! k) (right ! k) else left ! k))"
  using assms
proof (induction "n - i" arbitrary: i left)
  case 0
  then show ?case by (subst upd_unfold) auto
next
  case (Suc d)
  let ?left = "left[i := f (left ! i) (right ! i)]"
  have "d = n - Suc i" "n \<le> length ?left" using Suc.hyps(2) Suc.prems by auto
  from Suc.hyps(1) [OF this Suc.prems(2)]
  obtain left' where l': "upd ?left right n (Suc i) = Inr left'"
    "length left' = length left"
    "\<forall>k < length left. left' ! k =
       (if Suc i \<le> k \<and> k < n then f (?left ! k) (right ! k) else ?left ! k)"
    by auto
  from Suc.hyps(2) Suc.prems have "upd left right n i = upd ?left right n (Suc i)"
    by (subst upd_unfold) auto
  with l' Suc.hyps(2) Suc.prems show ?case
    by (intro exI [of _ left']) (auto simp: nth_list_update)
qed

lemma upd_all:
  assumes "n \<le> length left" "n \<le> length right"
  shows "upd left right n 0 = Inr (pointwise f left right n)"
proof -
  obtain left' where "upd left right n 0 = Inr left'" "length left' = length left"
    "\<forall>k < length left. left' ! k = (if k < n then f (left ! k) (right ! k) else left ! k)"
    using upd_from [OF assms, of 0] by auto
  then show ?thesis by (auto intro: nth_equalityI)
qed

end

interpretation sub_upd: update_loop arr_sub_loop "(-)"
  by unfold_locales (rule arr_sub_loop.simps)

interpretation add_upd: update_loop arr_add_loop "(+)"
  by unfold_locales (rule arr_add_loop.simps)

lemma arr_sub_eq:
  "n \<le> length l \<Longrightarrow> n \<le> length r \<Longrightarrow> arr_sub l r n = Inr (pointwise (-) l r n)"
  by (simp add: arr_sub_def sub_upd.upd_all)

lemma arr_add_eq:
  "n \<le> length l \<Longrightarrow> n \<le> length r \<Longrightarrow> arr_add l r n = Inr (pointwise (+) l r n)"
  by (simp add: arr_add_def add_upd.upd_all)

lemma all_loop_eq:
  assumes "n \<le> length dst"
  shows "i \<le> n \<Longrightarrow> all_loop dst v n i = Inr (take i dst @ replicate (n - i) v @ drop n dst)"
  using assms
proof (induction "n - i" arbitrary: i dst)
  case 0
  then show ?case by (subst all_loop.simps) auto
next
  case (Suc d)
  then have i: "i < n" "n \<le> length dst" by auto
  have "all_loop (dst[i := v]) v n (Suc i) =
      Inr (take (Suc i) (dst[i := v]) @ replicate (n - Suc i) v @ drop n (dst[i := v]))"
    using Suc.hyps(2) i by (intro Suc.hyps(1)) auto
  moreover have "take (Suc i) (dst[i := v]) = take i dst @ [v]"
    using i by (simp add: take_Suc_conv_app_nth)
  moreover have "replicate (n - i) v = v # replicate (n - Suc i) v"
    using i by (metis Suc_diff_Suc replicate_Suc)
  ultimately show ?case using i by (subst all_loop.simps) auto
qed

lemma all_arr_eq: "length dst = n \<Longrightarrow> all_arr dst v n = Inr (replicate n v)"
  using all_loop_eq [of n dst 0 v] by (simp add: all_arr_def)

lemmas arr_eqs = arr_g_any_eq arr_ge_any_eq arr_l_any_eq arr_le_any_eq arr_ne_eq
  arr_sub_eq arr_add_eq all_arr_eq

text \<open>Adding back what was subtracted restores the array, wrap-around included.\<close>

lemma pointwise_sub_add: "pointwise (+) (pointwise (-) l r n) r n = l"
  by (rule nth_equalityI) auto

lemma pointwise_add_sub: "pointwise (-) (pointwise (+) l r n) r n = l"
  by (rule nth_equalityI) auto

end
