(* ===== verification/Deadlock.thy ===== *)
theory Deadlock
  imports Arr_Math
begin

text \<open>
  Deadlock prevention by the banker's algorithm, from
  \<open>src/Mentos/mentos/src/experimental/deadlock_prevention.c\<close>: the safety test \<open>state_safe\<close> and the
  resource request \<open>request\<close>, on the arrays of available, allocated and needed instances. The
  specification \<open>banker_safe\<close> is the textbook one, over natural numbers: some order of the tasks
  lets each of them obtain its remaining need from what is free and what the tasks before it gave
  back. Allocation of the work arrays with \<open>kmalloc\<close> is taken to succeed, and their contents are
  those the routine writes.
\<close>

section \<open>The code\<close>

datatype deadlock_status = SAFE | WAIT | WAIT_UNSAFE | ERROR

record banker =
  available :: "u32 list"
  mat_alloc :: "u32 list list"
  mat_need :: "u32 list list"

text \<open>The copy of \<open>m\<close> words into a fresh block.\<close>

definition copy_words :: "u32 list \<Rightarrow> nat \<Rightarrow> u32 list res" where
  "copy_words src m = (if m \<le> length src then Inr (take m src) else Inl OutOfBounds)"

text \<open>The \<open>for\<close> loop that looks for an unfinished task whose need fits into \<open>work\<close>.\<close>

function find_task :: "u32 list \<Rightarrow> u32 list list \<Rightarrow> u32 list \<Rightarrow> nat \<Rightarrow> nat \<Rightarrow> nat \<Rightarrow> nat res" where
  "find_task finish need work n m i =
     (if i < n then
        bindR (get_at finish i) (\<lambda>f.
        if f \<noteq> 0 then find_task finish need work n m (Suc i)
        else bindR (get_at need i) (\<lambda>row. bindR (arr_g_any row work m) (\<lambda>g.
             if g then find_task finish need work n m (Suc i) else Inr i)))
      else Inr i)"
  by pat_completeness auto
termination
  by (relation "measure (\<lambda>(finish, need, work, n, m, i). n - i)") auto

declare find_task.simps [simp del]

lemma find_task_step:
  assumes "i < n"
  shows "find_task finish need work n m i = Inr j \<longleftrightarrow>
    i < length finish \<and>
    (if finish ! i \<noteq> 0 then find_task finish need work n m (Suc i) = Inr j
     else i < length need \<and>
       (\<exists>g. arr_g_any (need ! i) work m = Inr g \<and>
         (if g then find_task finish need work n m (Suc i) = Inr j else i = j)))"
  using assms by (subst find_task.simps) (auto simp: get_at_eq_Inr)

lemma find_task_Inr:
  "find_task finish need work n m i = Inr j \<Longrightarrow> i \<le> n \<Longrightarrow> j \<noteq> n \<Longrightarrow>
     i \<le> j \<and> j < n \<and> j < length finish \<and> finish ! j = 0"
proof (induction "n - i" arbitrary: i)
  case 0
  then show ?case by (subst (asm) find_task.simps) auto
next
  case (Suc d)
  from Suc.hyps(2) have i: "i < n" "d = n - Suc i" by auto
  note IH = Suc.hyps(1) [OF i(2)]
  show ?case
  proof (cases "find_task finish need work n m (Suc i) = Inr j")
    case True
    from IH [OF True] i Suc.prems show ?thesis by auto
  next
    case False
    from Suc.prems(1) [unfolded find_task_step [OF i(1)]] False i(1) show ?thesis
      by (simp split: if_splits) blast
  qed
qed

definition unfinished :: "u32 list \<Rightarrow> nat \<Rightarrow> nat set" where
  "unfinished finish n = {k. k < n \<and> k < length finish \<and> finish ! k = 0}"

lemma unfinished_update:
  assumes "i \<in> unfinished finish n"
  shows "unfinished (finish[i := 1]) n = unfinished finish n - {i}"
  using assms by (auto simp: unfinished_def nth_list_update)

lemma card_unfinished_update:
  assumes "i < n" "i < length finish" "finish ! i = 0"
  shows "card (unfinished (finish[i := 1]) n) < card (unfinished finish n)"
proof -
  have "i \<in> unfinished finish n" using assms by (simp add: unfinished_def)
  moreover have "finite (unfinished finish n)" by (simp add: unfinished_def)
  ultimately show ?thesis unfolding unfinished_update [OF \<open>i \<in> _\<close>] by (rule card_Diff1_less [rotated])
qed

text \<open>The \<open>while\<close> loop, entered with the current \<open>work\<close> and \<open>finish\<close> arrays.\<close>

function state_safe_loop ::
  "u32 list \<Rightarrow> u32 list \<Rightarrow> u32 list \<Rightarrow> u32 list list \<Rightarrow> u32 list list \<Rightarrow> nat \<Rightarrow> nat \<Rightarrow> bool res" where
  "state_safe_loop work finish all_true alloc need n m =
     bindR (arr_ne finish all_true n) (\<lambda>ne.
     if \<not> ne then Inr True
     else bindR (find_task finish need work n m 0) (\<lambda>i.
          if i = n then Inr False
          else bindR (get_at alloc i) (\<lambda>row. bindR (arr_add work row m) (\<lambda>work'.
               state_safe_loop work' (finish[i := 1]) all_true alloc need n m))))"
  by pat_completeness auto
termination
proof (relation "measure (\<lambda>(work, finish, all_true, alloc, need, n, m). card (unfinished finish n))",
    goal_cases)
  case 1
  show ?case by simp
next
  case (2 work finish all_true alloc need n m ne i row work')
  then show ?case using find_task_Inr [of finish need work n m 0 i]
    by (auto intro!: card_unfinished_update)
qed

declare state_safe_loop.simps [simp del]

definition state_safe :: "u32 list \<Rightarrow> u32 list list \<Rightarrow> u32 list list \<Rightarrow> nat \<Rightarrow> nat \<Rightarrow> bool res" where
  "state_safe avail alloc need n m =
     bindR (copy_words avail m) (\<lambda>work.
     bindR (all_arr (replicate n 0) 0 n) (\<lambda>finish.
     bindR (all_arr (replicate n 0) 1 n) (\<lambda>all_true.
     state_safe_loop work finish all_true alloc need n m)))"

text \<open>
  A request of task \<open>t\<close>: the two early returns, the tentative allocation, and its withdrawal when
  the resulting state is not safe.
\<close>

definition request :: "u32 list \<Rightarrow> nat \<Rightarrow> banker \<Rightarrow> nat \<Rightarrow> nat \<Rightarrow> (deadlock_status \<times> banker) res" where
  "request req t b n m =
     bindR (get_at (mat_need b) t) (\<lambda>need_t.
     bindR (arr_g_any req need_t m) (\<lambda>over.
     if over then Inr (ERROR, b)
     else bindR (arr_g_any req (available b) m) (\<lambda>lacking.
     if lacking then Inr (WAIT, b)
     else bindR (arr_sub (available b) req m) (\<lambda>avail.
          bindR (get_at (mat_alloc b) t) (\<lambda>alloc_t.
          bindR (arr_add alloc_t req m) (\<lambda>alloc_t.
          bindR (set_at (mat_alloc b) t alloc_t) (\<lambda>alloc.
          bindR (arr_sub need_t req m) (\<lambda>need_t.
          bindR (set_at (mat_need b) t need_t) (\<lambda>need.
          bindR (state_safe avail alloc need n m) (\<lambda>safe.
          if \<not> safe then
            bindR (arr_add avail req m) (\<lambda>avail.
            bindR (arr_sub alloc_t req m) (\<lambda>alloc_t.
            bindR (set_at alloc t alloc_t) (\<lambda>alloc.
            bindR (arr_add need_t req m) (\<lambda>need_t.
            bindR (set_at need t need_t) (\<lambda>need.
            Inr (WAIT_UNSAFE, \<lparr>available = avail, mat_alloc = alloc, mat_need = need\<rparr>))))))
          else Inr (SAFE, \<lparr>available = avail, mat_alloc = alloc, mat_need = need\<rparr>)))))))))))"


section \<open>The specification\<close>

text \<open>
  Over natural numbers: \<open>completes W A N m ts\<close> says that the tasks \<open>ts\<close> can run to completion in
  this order from the free instances \<open>W\<close>, each one obtaining its need \<open>N t\<close> and then giving back
  its allocation \<open>A t\<close>.
\<close>

fun completes ::
  "(nat \<Rightarrow> nat) \<Rightarrow> (nat \<Rightarrow> nat \<Rightarrow> nat) \<Rightarrow> (nat \<Rightarrow> nat \<Rightarrow> nat) \<Rightarrow> nat \<Rightarrow> nat list \<Rightarrow> bool" where
  "completes W A N m [] = True"
| "completes W A N m (t # ts) =
     ((\<forall>j<m. N t j \<le> W j) \<and> completes (\<lambda>j. W j + A t j) A N m ts)"

definition banker_safe ::
  "(nat \<Rightarrow> nat) \<Rightarrow> (nat \<Rightarrow> nat \<Rightarrow> nat) \<Rightarrow> (nat \<Rightarrow> nat \<Rightarrow> nat) \<Rightarrow> nat set \<Rightarrow> nat \<Rightarrow> bool" where
  "banker_safe W A N T m = (\<exists>ts. distinct ts \<and> set ts = T \<and> completes W A N m ts)"

abbreviation vec :: "u32 list \<Rightarrow> nat \<Rightarrow> nat" where
  "vec xs \<equiv> \<lambda>j. unat (xs ! j)"

abbreviation mat :: "u32 list list \<Rightarrow> nat \<Rightarrow> nat \<Rightarrow> nat" where
  "mat M \<equiv> \<lambda>i j. unat (M ! i ! j)"

lemma completes_cong:
  "(\<And>j. j < m \<Longrightarrow> W j = W' j) \<Longrightarrow> completes W A N m ts = completes W' A N m ts"
proof (induction ts arbitrary: W W')
  case (Cons t ts)
  have "completes (\<lambda>j. W j + A t j) A N m ts = completes (\<lambda>j. W' j + A t j) A N m ts"
    using Cons.prems by (intro Cons.IH) simp
  with Cons.prems show ?case by simp
qed simp

lemma completes_mono:
  "completes W A N m ts \<Longrightarrow> (\<And>j. j < m \<Longrightarrow> W j \<le> W' j) \<Longrightarrow> completes W' A N m ts"
proof (induction ts arbitrary: W W')
  case (Cons t ts)
  then show ?case
    by (auto intro: order_trans Cons.IH [of "\<lambda>j. W j + A t j" "\<lambda>j. W' j + A t j"])
qed simp

lemma completes_cong_rows:
  assumes "\<And>t j. t \<in> set ts \<Longrightarrow> j < m \<Longrightarrow> A t j = A' t j \<and> N t j = N' t j"
  shows "completes W A N m ts = completes W A' N' m ts"
  using assms
proof (induction ts arbitrary: W)
  case (Cons t ts)
  have "completes (\<lambda>j. W j + A t j) A N m ts = completes (\<lambda>j. W j + A' t j) A N m ts"
    using Cons.prems by (intro completes_cong) auto
  with Cons show ?case by auto
qed simp

text \<open>A task whose need is met now may be run first, whatever place it has in a safe order.\<close>

lemma completes_promote:
  "completes W A N m (xs @ i # ys) \<Longrightarrow> completes (\<lambda>j. W j + A i j) A N m (xs @ ys)"
proof (induction xs arbitrary: W)
  case Nil
  then show ?case by simp
next
  case (Cons x xs)
  have eq: "(\<lambda>j. W j + A i j + A x j) = (\<lambda>j. W j + A x j + A i j)"
    by (auto simp: algebra_simps)
  from Cons show ?case by (auto simp: eq intro: trans_le_add1)
qed

lemma banker_safe_step:
  assumes i: "i \<in> T" and fits: "\<And>j. j < m \<Longrightarrow> N i j \<le> W j"
  shows "banker_safe W A N T m \<longleftrightarrow> banker_safe (\<lambda>j. W j + A i j) A N (T - {i}) m"
proof
  assume "banker_safe W A N T m"
  then obtain ts where ts: "distinct ts" "set ts = T" "completes W A N m ts"
    by (auto simp: banker_safe_def)
  from i ts(2) obtain xs ys where eq: "ts = xs @ i # ys" by (meson split_list)
  from ts eq have "distinct (xs @ ys)" "set (xs @ ys) = T - {i}" by auto
  moreover from ts(3) eq have "completes (\<lambda>j. W j + A i j) A N m (xs @ ys)"
    by (simp add: completes_promote)
  ultimately show "banker_safe (\<lambda>j. W j + A i j) A N (T - {i}) m"
    unfolding banker_safe_def by blast
next
  assume "banker_safe (\<lambda>j. W j + A i j) A N (T - {i}) m"
  then obtain ts where "distinct ts" "set ts = T - {i}" "completes (\<lambda>j. W j + A i j) A N m ts"
    by (auto simp: banker_safe_def)
  with i fits have "distinct (i # ts) \<and> set (i # ts) = T \<and> completes W A N m (i # ts)" by auto
  then show "banker_safe W A N T m" unfolding banker_safe_def by blast
qed

lemma banker_safe_empty [simp]: "banker_safe W A N {} m"
  by (auto simp: banker_safe_def)

lemma banker_safe_cong:
  assumes "\<And>j. j < m \<Longrightarrow> W j = W' j"
  shows "banker_safe W A N T m = banker_safe W' A N T m"
  unfolding banker_safe_def using completes_cong [of m W W' A N] assms by auto

lemma banker_safe_cong_rows:
  assumes "\<And>t j. t \<in> T \<Longrightarrow> j < m \<Longrightarrow> A t j = A' t j \<and> N t j = N' t j"
  shows "banker_safe W A N T m = banker_safe W A' N' T m"
  unfolding banker_safe_def using completes_cong_rows [of _ m A A' N N' W] assms by metis

lemma banker_stuck:
  assumes "T \<noteq> {}" "\<And>t. t \<in> T \<Longrightarrow> \<exists>j<m. W j < N t j"
  shows "\<not> banker_safe W A N T m"
proof
  assume "banker_safe W A N T m"
  then obtain ts where ts: "set ts = T" "completes W A N m ts" by (auto simp: banker_safe_def)
  with assms(1) obtain t ts' where "ts = t # ts'" by (cases ts) auto
  with ts assms(2) [of t] show False by fastforce
qed

section \<open>Correctness of the safety test\<close>

text \<open>
  Well-formed arrays for \<open>n\<close> tasks and \<open>m\<close> resources, and no column whose instances, free and
  allocated together, exceed a 32-bit word.
\<close>

definition wf_arrays :: "u32 list \<Rightarrow> u32 list list \<Rightarrow> u32 list list \<Rightarrow> nat \<Rightarrow> nat \<Rightarrow> bool" where
  "wf_arrays avail alloc need n m \<longleftrightarrow>
     length avail = m \<and> length alloc = n \<and> length need = n \<and>
     (\<forall>i<n. length (alloc ! i) = m) \<and> (\<forall>i<n. length (need ! i) = m)"

definition instances :: "u32 list \<Rightarrow> u32 list list \<Rightarrow> nat \<Rightarrow> nat \<Rightarrow> nat" where
  "instances avail alloc n j = vec avail j + (\<Sum>i<n. mat alloc i j)"

definition no_overflow :: "u32 list \<Rightarrow> u32 list list \<Rightarrow> nat \<Rightarrow> nat \<Rightarrow> bool" where
  "no_overflow avail alloc n m \<longleftrightarrow> (\<forall>j<m. instances avail alloc n j < 2 ^ 32)"

lemma find_task_eq:
  assumes "length finish = n" "length need = n" "length work = m" "\<forall>i<n. length (need ! i) = m"
  shows "\<exists>j. find_task finish need work n m i = Inr j \<and>
    (\<forall>k. i \<le> k \<and> k < n \<and> k < j \<longrightarrow> finish ! k \<noteq> 0 \<or> (\<exists>l<m. vec work l < mat need k l)) \<and>
    (j < n \<longrightarrow> i \<le> j \<and> finish ! j = 0 \<and> (\<forall>l<m. mat need j l \<le> vec work l)) \<and>
    (i \<le> n \<longrightarrow> j \<le> n)"
proof (induction "n - i" arbitrary: i)
  case 0
  then show ?case by (subst find_task.simps) auto
next
  case (Suc d)
  from Suc.hyps(2) have i: "i < n" "d = n - Suc i" by auto
  from Suc.hyps(1) [OF i(2)] obtain j where j: "find_task finish need work n m (Suc i) = Inr j"
    "\<forall>k. Suc i \<le> k \<and> k < n \<and> k < j \<longrightarrow> finish ! k \<noteq> 0 \<or> (\<exists>l<m. vec work l < mat need k l)"
    "j < n \<longrightarrow> Suc i \<le> j \<and> finish ! j = 0 \<and> (\<forall>l<m. mat need j l \<le> vec work l)" "j \<le> n"
    using i by auto
  have g: "arr_g_any (need ! i) work m = Inr (\<exists>l<m. vec work l < mat need i l)"
    using assms i by (simp add: arr_g_any_eq word_gt_unat)
  show ?case
  proof (cases "finish ! i \<noteq> 0 \<or> (\<exists>l<m. vec work l < mat need i l)")
    case True
    then have "find_task finish need work n m i = Inr j"
      using i g j(1) assms by (subst find_task.simps) auto
    moreover have "finish ! k \<noteq> 0 \<or> (\<exists>l<m. vec work l < mat need k l)"
      if "i \<le> k" "k < n" "k < j" for k
      using that True j(2) by (cases "k = i") auto
    ultimately show ?thesis using j(3,4) by auto
  next
    case False
    then have z: "finish ! i = 0" and fits: "\<forall>l<m. mat need i l \<le> vec work l"
      by (simp, meson not_le)
    have "find_task finish need work n m i = Inr i"
      using i g assms False by (subst find_task.simps) auto
    with i z fits show ?thesis by (intro exI [of _ i] conjI impI allI) (simp_all add: z)
  qed
qed

text \<open>
  The loop invariant: \<open>finish\<close> holds a 1 for the tasks of \<open>S\<close>, and \<open>work\<close> is what is free plus
  what the tasks of \<open>S\<close> hold.
\<close>

definition loop_inv ::
  "u32 list \<Rightarrow> u32 list list \<Rightarrow> nat \<Rightarrow> nat \<Rightarrow> nat set \<Rightarrow> u32 list \<Rightarrow> u32 list \<Rightarrow> bool" where
  "loop_inv avail alloc n m S work finish \<longleftrightarrow>
     S \<subseteq> {..<n} \<and> length finish = n \<and> length work = m \<and>
     (\<forall>k<n. finish ! k = (if k \<in> S then 1 else 0)) \<and>
     (\<forall>j<m. vec work j = vec avail j + (\<Sum>i\<in>S. mat alloc i j))"

lemma loop_inv_start:
  assumes "length avail = m"
  shows "loop_inv avail alloc n m {} avail (replicate n 0)"
  using assms by (auto simp: loop_inv_def)

lemma loop_work_add:
  assumes inv: "loop_inv avail alloc n m S work finish" and i: "i < n" "i \<notin> S"
    and no: "no_overflow avail alloc n m" and j: "j < m"
  shows "vec (pointwise (+) work (alloc ! i) m) j = vec work j + mat alloc i j"
proof -
  have S: "finite S" "insert i S \<subseteq> {..<n}"
    using inv i by (auto simp: loop_inv_def intro: finite_subset)
  have "(\<Sum>k\<in>insert i S. mat alloc k j) \<le> (\<Sum>k<n. mat alloc k j)"
    using S by (intro sum_mono2) auto
  moreover have "(\<Sum>k\<in>insert i S. mat alloc k j) = mat alloc i j + (\<Sum>k\<in>S. mat alloc k j)"
    using S(1) i(2) by (rule sum_insert_index)
  moreover have "vec avail j + (\<Sum>k<n. mat alloc k j) < 2 ^ 32"
    using no j by (simp add: no_overflow_def instances_def)
  ultimately have "vec work j + mat alloc i j < 2 ^ 32"
    using inv j by (simp add: loop_inv_def)
  with inv j show ?thesis by (simp add: loop_inv_def unat_add_no_wrap)
qed

lemma loop_inv_step:
  assumes inv: "loop_inv avail alloc n m S work finish" and i: "i < n" "i \<notin> S"
    and no: "no_overflow avail alloc n m"
  shows "loop_inv avail alloc n m (insert i S) (pointwise (+) work (alloc ! i) m) (finish[i := 1])"
proof -
  have S: "finite S" "insert i S \<subseteq> {..<n}"
    using inv i by (auto simp: loop_inv_def intro: finite_subset)
  have "vec (pointwise (+) work (alloc ! i) m) j =
      vec avail j + (\<Sum>k\<in>insert i S. mat alloc k j)" if j: "j < m" for j
    using loop_work_add [OF inv i no j] inv j sum_insert_index [OF S(1) i(2), of "\<lambda>k. mat alloc k j"]
    by (simp add: loop_inv_def)
  with inv i S show ?thesis by (auto simp: loop_inv_def nth_list_update)
qed

lemma loop_safe_step:
  assumes inv: "loop_inv avail alloc n m S work finish" and i: "i < n" "i \<notin> S"
    and no: "no_overflow avail alloc n m" and fits: "\<forall>l<m. mat need i l \<le> vec work l"
  shows "banker_safe (vec (pointwise (+) work (alloc ! i) m)) (mat alloc) (mat need)
      ({..<n} - insert i S) m = banker_safe (vec work) (mat alloc) (mat need) ({..<n} - S) m"
proof -
  have T: "{..<n} - insert i S = {..<n} - S - {i}" by auto
  have "banker_safe (vec (pointwise (+) work (alloc ! i) m)) (mat alloc) (mat need)
      ({..<n} - S - {i}) m =
    banker_safe (\<lambda>l. vec work l + mat alloc i l) (mat alloc) (mat need) ({..<n} - S - {i}) m"
    using loop_work_add [OF inv i no] by (intro banker_safe_cong)
  also have "\<dots> = banker_safe (vec work) (mat alloc) (mat need) ({..<n} - S) m"
    using fits i by (intro banker_safe_step [symmetric]) auto
  finally show ?thesis unfolding T .
qed

lemma state_safe_loop_correct:
  assumes wf: "wf_arrays avail alloc need n m" and no: "no_overflow avail alloc n m"
  shows "loop_inv avail alloc n m S work finish \<Longrightarrow>
    state_safe_loop work finish (replicate n 1) alloc need n m =
      Inr (banker_safe (vec work) (mat alloc) (mat need) ({..<n} - S) m)"
proof (induction "n - card S" arbitrary: S work finish rule: less_induct)
  case less
  note inv = less.prems
  have ne: "arr_ne finish (replicate n 1) n = Inr (S \<noteq> {..<n})"
    using inv by (auto simp: arr_ne_eq loop_inv_def)
  obtain j where j: "find_task finish need work n m 0 = Inr j" "j \<le> n"
    "\<And>k. k < n \<Longrightarrow> k < j \<Longrightarrow> finish ! k \<noteq> 0 \<or> (\<exists>l<m. vec work l < mat need k l)"
    "j < n \<Longrightarrow> finish ! j = 0 \<and> (\<forall>l<m. mat need j l \<le> vec work l)"
    using find_task_eq [of finish n need work m 0] inv wf
    by (auto simp: loop_inv_def wf_arrays_def)
  consider "S = {..<n}" | "S \<noteq> {..<n}" "j = n" | "S \<noteq> {..<n}" "j < n" using j(2) by linarith
  then show ?case
  proof cases
    case 1
    with ne show ?thesis by (subst state_safe_loop.simps) simp
  next
    case 2
    have "\<exists>l<m. vec work l < mat need t l" if "t \<in> {..<n} - S" for t
      using that j(3) [of t] inv 2 by (auto simp: loop_inv_def)
    then have "\<not> banker_safe (vec work) (mat alloc) (mat need) ({..<n} - S) m"
      using 2(1) inv by (intro banker_stuck) (auto simp: loop_inv_def)
    with 2 ne j(1) show ?thesis by (subst state_safe_loop.simps) simp
  next
    case 3
    with j inv have jS: "j \<notin> S" by (auto simp: loop_inv_def split: if_splits)
    have S: "finite S" "S \<subseteq> {..<n}"
      using inv by (auto simp: loop_inv_def intro: finite_subset)
    then have "card S < n" using 3 jS
      by (metis card_lessThan finite_lessThan psubsetI psubset_card_mono)
    then have "n - card (insert j S) < n - card S" using S jS by simp
    from less.hyps [OF this loop_inv_step [OF inv 3(2) jS no]] loop_safe_step [OF inv 3(2) jS no] j(4)
    have "state_safe_loop (pointwise (+) work (alloc ! j) m) (finish[j := 1]) (replicate n 1) alloc need n m =
        Inr (banker_safe (vec work) (mat alloc) (mat need) ({..<n} - S) m)"
      using 3(2) by simp
    then show ?thesis
      using ne 3 j(1) wf inv
      by (subst state_safe_loop.simps) (auto simp: wf_arrays_def loop_inv_def arr_add_eq)
  qed
qed


section \<open>Correctness of requests\<close>

definition wf_banker :: "banker \<Rightarrow> nat \<Rightarrow> nat \<Rightarrow> bool" where
  "wf_banker b n m \<longleftrightarrow> wf_arrays (available b) (mat_alloc b) (mat_need b) n m \<and>
     no_overflow (available b) (mat_alloc b) n m"

definition safe_banker :: "banker \<Rightarrow> nat \<Rightarrow> nat \<Rightarrow> bool" where
  "safe_banker b n m = banker_safe (vec (available b)) (mat (mat_alloc b)) (mat (mat_need b)) {..<n} m"

text \<open>Some entry of the first vector exceeds the one of the second.\<close>

definition exceeds :: "u32 list \<Rightarrow> u32 list \<Rightarrow> nat \<Rightarrow> bool" where
  "exceeds l r m \<longleftrightarrow> (\<exists>j<m. r ! j < l ! j)"

lemma not_exceeds: "\<not> exceeds l r m \<longleftrightarrow> (\<forall>j<m. l ! j \<le> r ! j)"
  unfolding exceeds_def by (meson not_le)

lemma arr_g_any_exceeds: "m \<le> length l \<Longrightarrow> m \<le> length r \<Longrightarrow> arr_g_any l r m = Inr (exceeds l r m)"
  by (simp add: arr_g_any_eq exceeds_def)

text \<open>The allocation that a granted request leaves.\<close>

definition grant :: "u32 list \<Rightarrow> nat \<Rightarrow> banker \<Rightarrow> nat \<Rightarrow> banker" where
  "grant req t b m = b\<lparr>available := pointwise (-) (available b) req m,
     mat_alloc := (mat_alloc b)[t := pointwise (+) (mat_alloc b ! t) req m],
     mat_need := (mat_need b)[t := pointwise (-) (mat_need b ! t) req m]\<rparr>"

lemma grant_sel [simp]:
  "available (grant req t b m) = pointwise (-) (available b) req m"
  "mat_alloc (grant req t b m) = (mat_alloc b)[t := pointwise (+) (mat_alloc b ! t) req m]"
  "mat_need (grant req t b m) = (mat_need b)[t := pointwise (-) (mat_need b ! t) req m]"
  by (simp_all add: grant_def)

lemma instances_member:
  "i < n \<Longrightarrow> vec avail j + mat alloc i j \<le> instances avail alloc n j"
  using sum_lessThan_member [of i n "\<lambda>i. mat alloc i j"] by (simp add: instances_def)

lemma grant_alloc_entry:
  assumes "wf_banker b n m" "t < n" "j < m" "req ! j \<le> available b ! j"
  shows "mat (mat_alloc (grant req t b m)) t j = mat (mat_alloc b) t j + vec req j"
proof -
  have "vec (available b) j + mat (mat_alloc b) t j < 2 ^ 32"
    using instances_member [OF assms(2), of "available b" j "mat_alloc b"] assms(1,3)
    by (fastforce simp: wf_banker_def no_overflow_def)
  with assms show ?thesis
    by (simp add: wf_banker_def wf_arrays_def unat_add_no_wrap word_le_unat)
qed

lemma grant_instances:
  assumes wf: "wf_banker b n m" and t: "t < n" and j: "j < m" and le: "req ! j \<le> available b ! j"
  shows "instances (available (grant req t b m)) (mat_alloc (grant req t b m)) n j =
    instances (available b) (mat_alloc b) n j"
proof -
  let ?A = "\<lambda>i. mat (mat_alloc b) i j" and ?A' = "\<lambda>i. mat (mat_alloc (grant req t b m)) i j"
  have "(\<Sum>i<n. ?A' i) + ?A t = (\<Sum>i<n. ?A i) + ?A' t"
    using t by (intro sum_update_index) auto
  moreover have "?A' t = ?A t + vec req j"
    using grant_alloc_entry [OF wf t j le] .
  moreover have "vec (available (grant req t b m)) j = vec (available b) j - vec req j"
    using wf j le by (simp add: wf_banker_def wf_arrays_def unat_sub_le word_le_unat)
  ultimately show ?thesis using le by (simp add: instances_def word_le_unat)
qed

lemma grant_wf:
  assumes wf: "wf_banker b n m" and t: "t < n" and le: "\<And>j. j < m \<Longrightarrow> req ! j \<le> available b ! j"
  shows "wf_banker (grant req t b m) n m"
proof -
  have "wf_arrays (available (grant req t b m)) (mat_alloc (grant req t b m))
      (mat_need (grant req t b m)) n m"
    using wf t by (auto simp: wf_banker_def wf_arrays_def nth_list_update)
  moreover have "no_overflow (available (grant req t b m)) (mat_alloc (grant req t b m)) n m"
    unfolding no_overflow_def
  proof (intro allI impI)
    fix j assume j: "j < m"
    with wf have "instances (available b) (mat_alloc b) n j < 2 ^ 32"
      by (simp add: wf_banker_def no_overflow_def)
    then show "instances (available (grant req t b m)) (mat_alloc (grant req t b m)) n j < 2 ^ 32"
      unfolding grant_instances [OF wf t j le [OF j]] .
  qed
  ultimately show ?thesis by (simp add: wf_banker_def)
qed

lemma wf_banker_dims:
  assumes "wf_banker b n m"
  shows "length (available b) = m" "length (mat_alloc b) = n" "length (mat_need b) = n"
    "i < n \<Longrightarrow> length (mat_alloc b ! i) = m" "i < n \<Longrightarrow> length (mat_need b ! i) = m"
  using assms by (auto simp: wf_banker_def wf_arrays_def)

lemma banker_record_id:
  "t < length (mat_alloc b) \<Longrightarrow> t < length (mat_need b) \<Longrightarrow>
   \<lparr>available = available b, mat_alloc = (mat_alloc b)[t := mat_alloc b ! t],
     mat_need = (mat_need b)[t := mat_need b ! t]\<rparr> = b"
  by simp

lemma request_granted_path:
  assumes wf: "wf_banker b n m" and t: "t < n" and req: "length req = m"
    and fits: "\<not> exceeds req (mat_need b ! t) m" and free: "\<not> exceeds req (available b) m"
  shows "request req t b n m =
    bindR (state_safe (available (grant req t b m)) (mat_alloc (grant req t b m))
        (mat_need (grant req t b m)) n m)
      (\<lambda>safe. Inr (if safe then (SAFE, grant req t b m) else (WAIT_UNSAFE, b)))"
proof -
  note dims = wf_banker_dims [OF wf]
  have over: "arr_g_any req (mat_need b ! t) m = Inr False"
    using fits t req dims by (simp add: arr_g_any_exceeds)
  have lacking: "arr_g_any req (available b) m = Inr False"
    using free req dims by (simp add: arr_g_any_exceeds)
  show ?thesis
    using t req dims over lacking
    by (cases "state_safe (available (grant req t b m)) (mat_alloc (grant req t b m))
        (mat_need (grant req t b m)) n m")
      (simp_all add: request_def arr_sub_eq arr_add_eq pointwise_sub_add pointwise_add_sub)
qed

lemma request_refused:
  assumes wf: "wf_banker b n m" and t: "t < n" and req: "length req = m"
  shows "exceeds req (mat_need b ! t) m \<Longrightarrow> request req t b n m = Inr (ERROR, b)"
    and "\<not> exceeds req (mat_need b ! t) m \<Longrightarrow> exceeds req (available b) m \<Longrightarrow>
      request req t b n m = Inr (WAIT, b)"
proof -
  note dims = wf_banker_dims [OF wf]
  have over: "arr_g_any req (mat_need b ! t) m = Inr (exceeds req (mat_need b ! t) m)"
    using t req dims by (simp add: arr_g_any_exceeds)
  have lacking: "arr_g_any req (available b) m = Inr (exceeds req (available b) m)"
    using req dims by (simp add: arr_g_any_exceeds)
  show "exceeds req (mat_need b ! t) m \<Longrightarrow> request req t b n m = Inr (ERROR, b)"
    using t dims over by (simp add: request_def)
  show "\<not> exceeds req (mat_need b ! t) m \<Longrightarrow> exceeds req (available b) m \<Longrightarrow>
      request req t b n m = Inr (WAIT, b)"
    using t dims over lacking by (simp add: request_def)
qed

lemma state_safe_banker:
  "wf_banker b n m \<Longrightarrow>
   state_safe (available b) (mat_alloc b) (mat_need b) n m = Inr (safe_banker b n m)"
  using loop_inv_start [of "available b" m "mat_alloc b" n]
    state_safe_loop_correct [of "available b" "mat_alloc b" "mat_need b" n m "{}" "available b" "replicate n 0"]
  by (simp add: state_safe_def copy_words_def all_arr_eq wf_banker_def wf_arrays_def safe_banker_def)

lemma request_eq:
  assumes wf: "wf_banker b n m" and t: "t < n" and req: "length req = m"
  shows "request req t b n m = Inr
    (if exceeds req (mat_need b ! t) m then (ERROR, b)
     else if exceeds req (available b) m then (WAIT, b)
     else if safe_banker (grant req t b m) n m then (SAFE, grant req t b m)
     else (WAIT_UNSAFE, b))"
proof -
  have "wf_banker (grant req t b m) n m" if "\<not> exceeds req (available b) m"
    using that by (intro grant_wf [OF wf t]) (simp add: not_exceeds)
  with request_refused [OF assms] request_granted_path [OF assms] show ?thesis
    by (simp del: grant_sel add: state_safe_banker)
qed

text \<open>In a safe state a task whose need is free can be given all of it, and the state stays safe.\<close>

lemma completes_first_grant:
  assumes "completes W A N m (t # ts)" "t \<notin> set ts"
  shows "completes (\<lambda>j. W j - N t j) (A(t := \<lambda>j. A t j + N t j)) (N(t := \<lambda>_. 0)) m (t # ts)"
proof -
  have "completes (\<lambda>j. W j + A t j) (A(t := \<lambda>j. A t j + N t j)) (N(t := \<lambda>_. 0)) m ts"
    using assms by (subst completes_cong_rows [where A' = A and N' = N]) auto
  then have "completes (\<lambda>j. W j - N t j + (A t j + N t j)) (A(t := \<lambda>j. A t j + N t j))
      (N(t := \<lambda>_. 0)) m ts"
    using assms by (elim completes_mono) auto
  then show ?thesis by simp
qed

lemma grant_rows:
  assumes wf: "wf_banker b n m" and t: "t < n" and i: "i < n" and j: "j < m"
    and le: "mat_need b ! t ! j \<le> available b ! j"
  shows "mat (mat_alloc (grant (mat_need b ! t) t b m)) i j =
      ((mat (mat_alloc b))(t := \<lambda>j. mat (mat_alloc b) t j + mat (mat_need b) t j)) i j"
    and "mat (mat_need (grant (mat_need b ! t) t b m)) i j = ((mat (mat_need b))(t := \<lambda>_. 0)) i j"
    and "vec (available (grant (mat_need b ! t) t b m)) j =
      vec (available b) j - mat (mat_need b) t j"
  using grant_alloc_entry [OF wf t j le] wf_banker_dims [OF wf] t i j le
  by (auto simp: unat_sub_le word_le_unat nth_list_update)

lemma grant_need_safe:
  assumes wf: "wf_banker b n m" and safe: "safe_banker b n m" and t: "t < n"
    and le: "\<And>j. j < m \<Longrightarrow> mat_need b ! t ! j \<le> available b ! j"
  shows "safe_banker (grant (mat_need b ! t) t b m) n m"
proof -
  let ?W = "vec (available b)" and ?A = "mat (mat_alloc b)" and ?N = "mat (mat_need b)"
  have fits: "?N t j \<le> ?W j" if "j < m" for j using le [OF that] by (simp add: word_le_unat)
  have "banker_safe (\<lambda>j. ?W j + ?A t j) ?A ?N ({..<n} - {t}) m"
    using banker_safe_step [of t "{..<n}" m ?N ?W ?A] safe t fits by (simp add: safe_banker_def)
  then obtain ts' where ts': "distinct ts'" "set ts' = {..<n} - {t}" "completes (\<lambda>j. ?W j + ?A t j) ?A ?N m ts'"
    by (auto simp: banker_safe_def)
  define ts where "ts = t # ts'"
  have ts: "distinct ts" "set ts = {..<n}" "t \<notin> set ts'" using ts' t by (auto simp: ts_def)
  let ?g = "grant (mat_need b ! t) t b m"
  have "completes (\<lambda>j. ?W j - ?N t j) (?A(t := \<lambda>j. ?A t j + ?N t j)) (?N(t := \<lambda>_. 0)) m ts"
    unfolding ts_def using ts'(3) ts(3) fits by (intro completes_first_grant) auto
  then have "completes (\<lambda>j. ?W j - ?N t j) (mat (mat_alloc ?g)) (mat (mat_need ?g)) m ts"
    by (subst completes_cong_rows [where A' = "?A(t := \<lambda>j. ?A t j + ?N t j)"
        and N' = "?N(t := \<lambda>_. 0)"]) (use grant_rows [OF wf t] le ts(2) in auto)
  then have "completes (vec (available ?g)) (mat (mat_alloc ?g)) (mat (mat_need ?g)) m ts"
    by (subst completes_cong [where W' = "\<lambda>j. ?W j - ?N t j"])
      (use grant_rows(3) [OF wf t t] le in auto)
  with ts show ?thesis unfolding safe_banker_def banker_safe_def by blast
qed

text \<open>
  C1. The safety test \<open>state_safe\<close> returns on well-formed arrays whose columns do not exceed a
  32-bit word, and it returns true exactly when some order lets every task run to completion.
\<close>

theorem state_safe_correct:
  assumes "wf_arrays avail alloc need n m" "no_overflow avail alloc n m"
  shows "state_safe avail alloc need n m =
    Inr (banker_safe (vec avail) (mat alloc) (mat need) {..<n} m)"
  using assms loop_inv_start [of avail m alloc n]
    state_safe_loop_correct [OF assms, of "{}" avail "replicate n 0"]
  by (simp add: state_safe_def copy_words_def all_arr_eq wf_arrays_def)

lemma example_arrays:
  "wf_arrays [1, 0] [[0, 1], [2, 0]] [[1, 0], [0, 1]] 2 2"
  "no_overflow [1, 0] [[0, 1], [2, 0]] 2 2"
  by (simp_all add: wf_arrays_def no_overflow_def instances_def small_bounds)

theorem state_safe_correct_witness:
  "state_safe [1, 0] [[0, 1], [2, 0]] [[1, 0], [0, 1]] 2 2 =
     Inr (banker_safe (vec [1, 0]) (mat [[0, 1], [2, 0]]) (mat [[1, 0], [0, 1]]) {..<2} 2)"
  by (rule state_safe_correct) (fact example_arrays)+

text \<open>
  C2. Every outcome of a request on well-formed arrays: an error when it exceeds the task's need,
  a wait when it exceeds what is free, a grant when the resulting allocation is safe, and
  otherwise a wait that leaves all three arrays as they were before the tentative allocation.
\<close>

theorem request_correct:
  assumes "wf_banker b n m" "t < n" "length req = m"
  shows "request req t b n m = Inr
    (if exceeds req (mat_need b ! t) m then (ERROR, b)
     else if exceeds req (available b) m then (WAIT, b)
     else if safe_banker (grant req t b m) n m then (SAFE, grant req t b m)
     else (WAIT_UNSAFE, b))"
  using assms by (rule request_eq)

definition example_banker :: banker where
  "example_banker = \<lparr>available = [1, 1], mat_alloc = [[1, 0], [0, 1]], mat_need = [[1, 1], [2, 1]]\<rparr>"

lemma example_banker_wf: "wf_banker example_banker 2 2"
  by (simp add: example_banker_def wf_banker_def wf_arrays_def no_overflow_def instances_def
      small_bounds)

theorem request_correct_witness:
  "(if exceeds [1, 0] (mat_need example_banker ! 1) 2 then (ERROR, example_banker)
     else if exceeds [1, 0] (available example_banker) 2 then (WAIT, example_banker)
     else if safe_banker (grant [1, 0] 1 example_banker 2) 2 2
       then (SAFE, grant [1, 0] 1 example_banker 2)
     else (WAIT_UNSAFE, example_banker)) = (WAIT_UNSAFE, example_banker)"
proof -
  have "request [1, 0] 1 example_banker 2 2 = Inr (WAIT_UNSAFE, example_banker)" by code_simp
  with request_correct [OF example_banker_wf, of 1 "[1, 0]"] show ?thesis by simp
qed

text \<open>What every outcome of a request keeps.\<close>

lemma request_keeps:
  assumes "wf_banker b n m" "safe_banker b n m" "t < n" "length req = m"
    and "request req t b n m = Inr (status, b')"
  shows "wf_banker b' n m \<and> safe_banker b' n m \<and>
    (\<forall>j<m. instances (available b') (mat_alloc b') n j = instances (available b) (mat_alloc b) n j) \<and>
    (\<forall>i<n. \<forall>j<m. mat_alloc b' ! i ! j + mat_need b' ! i ! j = mat_alloc b ! i ! j + mat_need b ! i ! j)"
proof -
  from assms(5) request_eq [OF assms(1,3,4)] consider "b' = b" |
    "b' = grant req t b m" "safe_banker b' n m" "\<forall>j<m. req ! j \<le> available b ! j"
    by (auto simp: not_exceeds split: if_splits)
  then show ?thesis
  proof cases
    case 1
    with assms show ?thesis by simp
  next
    case 2
    have "wf_banker b' n m" unfolding 2(1) using 2(3) assms(1,3) by (intro grant_wf) auto
    moreover have "\<forall>j<m. instances (available b') (mat_alloc b') n j =
        instances (available b) (mat_alloc b) n j"
      unfolding 2(1) using 2(3) assms(1,3) by (auto simp del: grant_sel intro!: grant_instances)
    moreover have "\<forall>i<n. \<forall>j<m. mat_alloc b' ! i ! j + mat_need b' ! i ! j =
        mat_alloc b ! i ! j + mat_need b ! i ! j"
      using wf_banker_dims [OF assms(1)] assms(3) by (auto simp: 2(1) nth_list_update)
    ultimately show ?thesis using 2(2) by blast
  qed
qed

text \<open>
  C3. A request never loses or invents instances and never leaves the safe states: whatever its
  outcome, the arrays stay well formed, each resource keeps its total of free and allocated
  instances, each task its total of allocation and need, and a safe state stays safe.
\<close>

theorem request_invariant:
  assumes "wf_banker b n m" "safe_banker b n m" "t < n" "length req = m"
    and "request req t b n m = Inr (status, b')"
  shows "wf_banker b' n m \<and> safe_banker b' n m \<and>
    (\<forall>j<m. instances (available b') (mat_alloc b') n j = instances (available b) (mat_alloc b) n j) \<and>
    (\<forall>i<n. \<forall>j<m. mat_alloc b' ! i ! j + mat_need b' ! i ! j = mat_alloc b ! i ! j + mat_need b ! i ! j)"
  using assms by (rule request_keeps)

lemma example_banker_safe: "safe_banker example_banker 2 2"
proof -
  have "state_safe (available example_banker) (mat_alloc example_banker) (mat_need example_banker) 2 2
      = Inr True" by code_simp
  with state_safe_banker [OF example_banker_wf] show ?thesis by simp
qed

theorem request_invariant_witness:
  "wf_banker (grant [1, 1] 0 example_banker 2) 2 2 \<and> safe_banker (grant [1, 1] 0 example_banker 2) 2 2"
proof -
  have "request [1, 1] 0 example_banker 2 2 = Inr (SAFE, grant [1, 1] 0 example_banker 2)" by code_simp
  from request_invariant [OF example_banker_wf example_banker_safe _ _ this] show ?thesis by simp
qed

end
