(* ===== verification/Deadlock_Simulation.thy ===== *)
theory Deadlock_Simulation
  imports Deadlock
begin

text \<open>
  The deterministic simulation of \<open>src/experimental/deadlock_simulation.c\<close>, which the kernel runs
  when the scheduler is initialised: two tasks lock and free two resources through \<open>request\<close>. The
  globals \<open>arr_available\<close>, \<open>mat_alloc\<close> and \<open>mat_need\<close> are a \<open>banker\<close>, or \<open>None\<close> while the matrices
  are null. The printing is left out; each operation yields what it would report.
\<close>

section \<open>The code\<close>

definition SIM_N :: nat where "SIM_N = 2"
definition SIM_M :: nat where "SIM_M = 2"

datatype op_t = FREE | LOCK

record req_t =
  req_task :: nat
  op :: op_t
  req_vec :: "u32 list"

datatype sim_result = Skipped | Locked deadlock_status | Freed | FreeError

definition initial_available :: "u32 list" where "initial_available = [1, 1]"
definition initial_max :: "u32 list list" where "initial_max = [[1, 1], [1, 1]]"
definition initial_alloc :: "u32 list list" where "initial_alloc = [[0, 0], [0, 0]]"

definition lock_req :: "nat \<Rightarrow> u32 list \<Rightarrow> req_t" where
  "lock_req t v = \<lparr>req_task = t, op = LOCK, req_vec = v\<rparr>"

definition free_req :: "nat \<Rightarrow> u32 list \<Rightarrow> req_t" where
  "free_req t v = \<lparr>req_task = t, op = FREE, req_vec = v\<rparr>"

definition req_vec_test :: "req_t list" where
  "req_vec_test =
    [lock_req 0 [1, 0], lock_req 1 [0, 1], lock_req 0 [0, 1], lock_req 1 [0, 1], lock_req 0 [0, 1],
     free_req 0 [0, 1], lock_req 1 [0, 1], free_req 0 [1, 0], lock_req 1 [1, 0], free_req 1 [1, 0],
     free_req 1 [0, 1], free_req 1 [0, 1]]"

definition simulation_try_lock ::
  "u32 list \<Rightarrow> nat \<Rightarrow> nat \<Rightarrow> nat \<Rightarrow> banker \<Rightarrow> (deadlock_status \<times> banker) res" where
  "simulation_try_lock v t n m b = request v t b n m"

definition simulation_lock :: "u32 list \<Rightarrow> nat \<Rightarrow> banker option \<Rightarrow> (sim_result \<times> banker option) res" where
  "simulation_lock v t s =
     (case s of
        None \<Rightarrow> Inr (Skipped, None)
      | Some b \<Rightarrow> bindR (simulation_try_lock v t SIM_N SIM_M b) (\<lambda>(st, b'). Inr (Locked st, Some b')))"

definition simulation_free :: "u32 list \<Rightarrow> nat \<Rightarrow> banker option \<Rightarrow> (sim_result \<times> banker option) res" where
  "simulation_free v t s =
     (case s of
        None \<Rightarrow> Inl NullDeref
      | Some b \<Rightarrow>
          bindR (get_at (mat_alloc b) t) (\<lambda>alloc_t.
          bindR (arr_l_any alloc_t v SIM_M) (\<lambda>less.
          if less then Inr (FreeError, Some b)
          else bindR (arr_add (available b) v SIM_M) (\<lambda>avail.
               bindR (arr_sub alloc_t v SIM_M) (\<lambda>alloc_t.
               bindR (set_at (mat_alloc b) t alloc_t) (\<lambda>alloc.
               Inr (Freed, Some (b\<lparr>available := avail, mat_alloc := alloc\<rparr>))))))))"

fun init_rows :: "nat \<Rightarrow> u32 list list \<Rightarrow> u32 list list \<Rightarrow> u32 list list res" where
  "init_rows m [] [] = Inr []"
| "init_rows m (mx # mxs) (al # als) =
     bindR (copy_words mx m) (\<lambda>need. bindR (arr_sub need al m) (\<lambda>need.
     bindR (init_rows m mxs als) (\<lambda>rest. Inr (need # rest))))"
| "init_rows m _ _ = Inl OutOfBounds"

definition simulation_init :: "banker option res" where
  "simulation_init =
     bindR (init_rows SIM_M initial_max initial_alloc) (\<lambda>need.
     Inr (Some \<lparr>available = initial_available, mat_alloc = initial_alloc, mat_need = need\<rparr>))"

definition simulation_step :: "req_t \<Rightarrow> banker option \<Rightarrow> (sim_result \<times> banker option) res" where
  "simulation_step r s =
     (case op r of FREE \<Rightarrow> simulation_free (req_vec r) (req_task r) s
      | LOCK \<Rightarrow> simulation_lock (req_vec r) (req_task r) s)"

fun simulation_start :: "req_t list \<Rightarrow> banker option \<Rightarrow> (sim_result list \<times> banker option) res" where
  "simulation_start [] s = Inr ([], s)"
| "simulation_start (r # rs) s =
     bindR (simulation_step r s) (\<lambda>(x, s). bindR (simulation_start rs s) (\<lambda>(xs, s). Inr (x # xs, s)))"

definition simulation_close :: "banker option \<Rightarrow> banker option" where
  "simulation_close s = None"

definition deadlock_simulation :: "(sim_result list \<times> banker option) res" where
  "deadlock_simulation =
     bindR simulation_init (\<lambda>s. bindR (simulation_start req_vec_test s) (\<lambda>(xs, s).
     Inr (xs, simulation_close s)))"

section \<open>Giving resources back keeps a state safe\<close>

definition release :: "u32 list \<Rightarrow> nat \<Rightarrow> banker \<Rightarrow> nat \<Rightarrow> banker" where
  "release v t b m = b\<lparr>available := pointwise (+) (available b) v m,
     mat_alloc := (mat_alloc b)[t := pointwise (-) (mat_alloc b ! t) v m]\<rparr>"

lemma release_sel [simp]:
  "available (release v t b m) = pointwise (+) (available b) v m"
  "mat_alloc (release v t b m) = (mat_alloc b)[t := pointwise (-) (mat_alloc b ! t) v m]"
  "mat_need (release v t b m) = mat_need b"
  by (simp_all add: release_def)

lemma completes_release:
  assumes "completes W A N m ts" "distinct ts" "\<And>j. j < m \<Longrightarrow> r j \<le> A t j"
    and "\<And>j. j < m \<Longrightarrow> W' j = W j + r j" "\<And>j. j < m \<Longrightarrow> A' t j = A t j - r j"
    and "\<And>i j. i \<noteq> t \<Longrightarrow> j < m \<Longrightarrow> A' i j = A i j"
  shows "completes W' A' N m ts"
  using assms(1,2,4)
proof (induction ts arbitrary: W W')
  case (Cons i ts)
  have fits: "\<forall>j<m. N i j \<le> W' j" using Cons.prems by (auto intro: trans_le_add1)
  have "completes (\<lambda>j. W' j + A' i j) A' N m ts"
  proof (cases "i = t")
    case True
    have same: "A' k j = A k j" if "k \<in> set ts" "j < m" for k j
      by (rule assms(6)) (use True Cons.prems(2) that in auto)
    have "completes (\<lambda>j. W j + A i j) A' N m ts"
      using Cons.prems same by (subst completes_cong_rows [of ts m A' A N N]) auto
    then show ?thesis
      using Cons.prems(3) assms(3,5) True
      by (subst completes_cong [of m _ "\<lambda>j. W j + A i j"]) auto
  next
    case False
    then show ?thesis using Cons.prems assms(6) by (intro Cons.IH [of "\<lambda>j. W j + A i j"]) auto
  qed
  with fits show ?case by simp
qed simp

lemma release_entries:
  assumes "wf_banker b n m" "t < n" "j < m" "v ! j \<le> mat_alloc b ! t ! j"
  shows "vec (available (release v t b m)) j = vec (available b) j + vec v j"
    and "mat (mat_alloc (release v t b m)) t j = mat (mat_alloc b) t j - vec v j"
proof -
  have "vec (available b) j + mat (mat_alloc b) t j < 2 ^ 32"
    using instances_member [OF assms(2), of "available b" j "mat_alloc b"] assms(1,3)
    by (fastforce simp: wf_banker_def no_overflow_def)
  with assms show "vec (available (release v t b m)) j = vec (available b) j + vec v j"
    by (simp add: wf_banker_def wf_arrays_def unat_add_no_wrap word_le_unat)
  show "mat (mat_alloc (release v t b m)) t j = mat (mat_alloc b) t j - vec v j"
    using assms by (simp add: wf_banker_def wf_arrays_def unat_sub_le word_le_unat)
qed

lemma release_instances:
  assumes wf: "wf_banker b n m" and t: "t < n" and j: "j < m" and le: "v ! j \<le> mat_alloc b ! t ! j"
  shows "instances (available (release v t b m)) (mat_alloc (release v t b m)) n j =
    instances (available b) (mat_alloc b) n j"
proof -
  let ?A = "\<lambda>i. mat (mat_alloc b) i j" and ?A' = "\<lambda>i. mat (mat_alloc (release v t b m)) i j"
  have "(\<Sum>i<n. ?A' i) + ?A t = (\<Sum>i<n. ?A i) + ?A' t"
    using t by (intro sum_update_index) auto
  moreover have "vec v j \<le> ?A t" using le by (simp add: word_le_unat)
  ultimately show ?thesis using release_entries [OF wf t j le] by (simp only: instances_def)
qed

lemma release_keeps:
  assumes wf: "wf_banker b n m" and safe: "safe_banker b n m" and t: "t < n"
    and le: "\<And>j. j < m \<Longrightarrow> v ! j \<le> mat_alloc b ! t ! j"
  shows "wf_banker (release v t b m) n m \<and> safe_banker (release v t b m) n m"
proof -
  have "wf_arrays (available (release v t b m)) (mat_alloc (release v t b m))
      (mat_need (release v t b m)) n m"
    using wf t by (auto simp: wf_banker_def wf_arrays_def nth_list_update)
  moreover have "no_overflow (available (release v t b m)) (mat_alloc (release v t b m)) n m"
    using release_instances [OF wf t _ le] wf
    by (auto simp: no_overflow_def wf_banker_def simp del: release_sel)
  moreover obtain ts where ts: "distinct ts" "set ts = {..<n}"
      "completes (vec (available b)) (mat (mat_alloc b)) (mat (mat_need b)) m ts"
    using safe by (auto simp: safe_banker_def banker_safe_def)
  have "completes (vec (available (release v t b m))) (mat (mat_alloc (release v t b m))) (mat (mat_need b)) m ts"
    by (rule completes_release [OF ts(3,1), of "vec v" t])
      (use release_entries [OF wf t _ le] le in \<open>auto simp: word_le_unat simp del: release_sel\<close>,
       simp add: release_def)
  ultimately show ?thesis using ts by (auto simp: wf_banker_def safe_banker_def banker_safe_def simp del: release_sel(1,2))
qed

section \<open>Every task of a safe state can finish\<close>

text \<open>
  The tasks \<open>ts\<close> one after the other: each one requests all it still needs and, when the request is
  granted, gives back all it holds; \<open>None\<close> when a request is not granted.
\<close>

fun run_tasks :: "nat list \<Rightarrow> banker \<Rightarrow> nat \<Rightarrow> nat \<Rightarrow> banker option" where
  "run_tasks [] b n m = Some b"
| "run_tasks (t # ts) b n m =
     (case request (mat_need b ! t) t b n m of
        Inr (SAFE, b') \<Rightarrow> run_tasks ts (release (mat_alloc b' ! t) t b' m) n m
      | _ \<Rightarrow> None)"

definition finished :: "banker \<Rightarrow> nat \<Rightarrow> nat \<Rightarrow> bool" where
  "finished b t m \<longleftrightarrow> (\<forall>j<m. mat_alloc b ! t ! j = 0 \<and> mat_need b ! t ! j = 0)"

definition finish_task :: "nat \<Rightarrow> banker \<Rightarrow> nat \<Rightarrow> banker" where
  "finish_task t b m =
     (let g = grant (mat_need b ! t) t b m in release (mat_alloc g ! t) t g m)"

lemma finish_task_entries:
  assumes wf: "wf_banker b n m" and t: "t < n" and le: "\<And>j. j < m \<Longrightarrow> mat_need b ! t ! j \<le> available b ! j"
    and j: "j < m"
  shows "vec (available (finish_task t b m)) j = vec (available b) j + mat (mat_alloc b) t j"
    and "mat_alloc (finish_task t b m) ! t ! j = 0 \<and> mat_need (finish_task t b m) ! t ! j = 0"
    and "i < n \<Longrightarrow> i \<noteq> t \<Longrightarrow> mat_alloc (finish_task t b m) ! i = mat_alloc b ! i \<and>
      mat_need (finish_task t b m) ! i = mat_need b ! i"
    and "instances (available (finish_task t b m)) (mat_alloc (finish_task t b m)) n j =
      instances (available b) (mat_alloc b) n j"
proof -
  let ?g = "grant (mat_need b ! t) t b m"
  have wfg: "wf_banker ?g n m" by (rule grant_wf [OF wf t le])
  note dims = wf_banker_dims [OF wf]
  have f: "finish_task t b m = release (mat_alloc ?g ! t) t ?g m" by (simp add: finish_task_def)
  have "mat (mat_need b) t j \<le> vec (available b) j" using le [OF j] by (simp add: word_le_unat)
  then show "vec (available (finish_task t b m)) j = vec (available b) j + mat (mat_alloc b) t j"
    unfolding f release_entries(1) [OF wfg t j order_refl]
    using grant_rows(1,3) [OF wf t t j le [OF j]] by (simp del: grant_sel)
  show "mat_alloc (finish_task t b m) ! t ! j = 0 \<and> mat_need (finish_task t b m) ! t ! j = 0"
    using dims t j by (simp add: f)
  show "i < n \<Longrightarrow> i \<noteq> t \<Longrightarrow> mat_alloc (finish_task t b m) ! i = mat_alloc b ! i \<and>
      mat_need (finish_task t b m) ! i = mat_need b ! i" by (simp add: f)
  show "instances (available (finish_task t b m)) (mat_alloc (finish_task t b m)) n j =
      instances (available b) (mat_alloc b) n j"
    unfolding f release_instances [OF wfg t j order_refl] by (rule grant_instances [OF wf t j le [OF j]])
qed

lemma run_tasks_step:
  assumes wf: "wf_banker b n m" and safe: "safe_banker b n m" and t: "t < n"
    and le: "\<And>j. j < m \<Longrightarrow> mat_need b ! t ! j \<le> available b ! j"
  shows "run_tasks (t # ts) b n m = run_tasks ts (finish_task t b m) n m"
    and "wf_banker (finish_task t b m) n m \<and> safe_banker (finish_task t b m) n m"
proof -
  let ?g = "grant (mat_need b ! t) t b m"
  have g: "wf_banker ?g n m" "safe_banker ?g n m" using grant_wf grant_need_safe assms by blast+
  have "\<not> exceeds (mat_need b ! t) (available b) m" "\<not> exceeds (mat_need b ! t) (mat_need b ! t) m"
    using le by (simp_all add: not_exceeds)
  then have "request (mat_need b ! t) t b n m = Inr (SAFE, ?g)"
    using g(2) request_eq [OF wf t wf_banker_dims(5) [OF wf t]] by simp
  then show "run_tasks (t # ts) b n m = run_tasks ts (finish_task t b m) n m"
    by (simp add: finish_task_def Let_def del: grant_sel)
  show "wf_banker (finish_task t b m) n m \<and> safe_banker (finish_task t b m) n m"
    unfolding finish_task_def Let_def using release_keeps [OF g t] by blast
qed

lemma run_tasks_completes:
  "wf_banker b n m \<Longrightarrow> safe_banker b n m \<Longrightarrow> distinct ts \<Longrightarrow> set ts \<subseteq> {..<n} \<Longrightarrow>
   completes (vec (available b)) (mat (mat_alloc b)) (mat (mat_need b)) m ts \<Longrightarrow>
   \<exists>b'. run_tasks ts b n m = Some b' \<and> (\<forall>t\<in>set ts. finished b' t m) \<and>
     (\<forall>i<n. i \<notin> set ts \<longrightarrow> mat_alloc b' ! i = mat_alloc b ! i \<and> mat_need b' ! i = mat_need b ! i) \<and>
     (\<forall>j<m. instances (available b') (mat_alloc b') n j = instances (available b) (mat_alloc b) n j)"
proof (induction ts arbitrary: b)
  case (Cons t ts)
  let ?b = "finish_task t b m"
  from Cons.prems have t: "t < n" "t \<notin> set ts" by auto
  have le: "mat_need b ! t ! j \<le> available b ! j" if "j < m" for j
    using Cons.prems(5) that by (simp add: word_le_unat)
  note step = run_tasks_step [OF Cons.prems(1,2) t(1) le] and e = finish_task_entries [OF Cons.prems(1) t(1) le]
  have rows: "mat_alloc ?b ! i = mat_alloc b ! i \<and> mat_need ?b ! i = mat_need b ! i" if "i < n" "i \<noteq> t" "0 < m" for i
    using e(3) that by blast
  have "completes (vec (available ?b)) (mat (mat_alloc ?b)) (mat (mat_need ?b)) m ts"
  proof (subst completes_cong_rows [where A' = "mat (mat_alloc b)" and N' = "mat (mat_need b)"])
    show "completes (vec (available ?b)) (mat (mat_alloc b)) (mat (mat_need b)) m ts"
      using Cons.prems(5) e(1) by (subst completes_cong [where W' = "\<lambda>j. vec (available b) j + mat (mat_alloc b) t j"]) auto
    show "mat (mat_alloc ?b) i j = mat (mat_alloc b) i j \<and> mat (mat_need ?b) i j = mat (mat_need b) i j"
      if "i \<in> set ts" "j < m" for i j
    proof -
      have "i < n" "i \<noteq> t" using that(1) Cons.prems(4) t(2) by auto
      then show ?thesis using rows [of i] that(2) by simp
    qed
  qed
  with Cons.IH [of ?b] step(2) Cons.prems obtain b' where b': "run_tasks ts ?b n m = Some b'" "\<forall>t\<in>set ts. finished b' t m"
    "\<forall>i<n. i \<notin> set ts \<longrightarrow> mat_alloc b' ! i = mat_alloc ?b ! i \<and> mat_need b' ! i = mat_need ?b ! i"
    "\<forall>j<m. instances (available b') (mat_alloc b') n j = instances (available ?b) (mat_alloc ?b) n j" by auto
  have "finished b' t m" using b'(3) t e(2) by (simp add: finished_def)
  moreover have "mat_alloc b' ! i = mat_alloc b ! i \<and> mat_need b' ! i = mat_need b ! i" if "i < n" "i \<notin> set (t # ts)" for i
    using that b'(3) by (simp add: finish_task_def Let_def)
  ultimately show ?case using b' step(1) e(4) by auto
qed simp

text \<open>
  C9. A safe state is not a dead end: in some order of all the tasks, each one can request all it still needs at
  once, is granted it (\<open>SAFE\<close>), and gives back what it then holds. In the end no task needs or holds
  anything and all instances of every resource are free.
\<close>

theorem safe_state_completes:
  assumes "wf_banker b n m" "safe_banker b n m"
  shows "\<exists>ts b'. distinct ts \<and> set ts = {..<n} \<and> run_tasks ts b n m = Some b' \<and> (\<forall>t<n. finished b' t m) \<and>
    (\<forall>j<m. vec (available b') j = instances (available b) (mat_alloc b) n j)"
proof -
  obtain ts where ts: "distinct ts" "set ts = {..<n}"
      "completes (vec (available b)) (mat (mat_alloc b)) (mat (mat_need b)) m ts"
    using assms(2) by (auto simp: safe_banker_def banker_safe_def)
  obtain b' where b': "run_tasks ts b n m = Some b'" "\<forall>t\<in>set ts. finished b' t m"
    "\<forall>j<m. instances (available b') (mat_alloc b') n j = instances (available b) (mat_alloc b) n j"
    using run_tasks_completes [OF assms ts(1) _ ts(3)] ts(2) by auto
  have "instances (available b') (mat_alloc b') n j = vec (available b') j" if "j < m" for j
    using b'(2) ts(2) that by (simp add: instances_def finished_def)
  with b' ts show ?thesis by (intro exI [of _ ts] exI [of _ b']) auto
qed

theorem safe_state_completes_witness:
  "\<exists>ts b'. set ts = {..<2} \<and> run_tasks ts example_banker 2 2 = Some b' \<and> vec (available b') 0 = 2 \<and> finished b' 1 2"
proof -
  obtain ts b' where r: "set ts = {..<2}" "run_tasks ts example_banker 2 2 = Some b'" "\<forall>t<2. finished b' t 2"
      "\<forall>j<2. vec (available b') j = instances (available example_banker) (mat_alloc example_banker) 2 j"
    using safe_state_completes [OF example_banker_wf example_banker_safe] by blast
  moreover have "instances (available example_banker) (mat_alloc example_banker) 2 0 = 2"
    by (simp add: instances_def example_banker_def numeral_2_eq_2)
  ultimately show ?thesis by (intro exI [of _ ts] exI [of _ b']) simp
qed

section \<open>The simulation never deadlocks\<close>

lemma simulation_free_eq:
  assumes "wf_banker b SIM_N SIM_M" "t < SIM_N" "length v = SIM_M"
  shows "simulation_free v t (Some b) = Inr
    (if exceeds v (mat_alloc b ! t) SIM_M then (FreeError, Some b) else (Freed, Some (release v t b SIM_M)))"
  using assms wf_banker_dims [OF assms(1)]
  by (auto simp: simulation_free_def arr_l_any_eq arr_add_eq arr_sub_eq release_def exceeds_def)

definition sim_ok :: "req_t \<Rightarrow> bool" where
  "sim_ok r \<longleftrightarrow> req_task r < SIM_N \<and> length (req_vec r) = SIM_M"

definition sim_inv :: "banker option \<Rightarrow> bool" where
  "sim_inv s = (case s of None \<Rightarrow> False | Some b \<Rightarrow> wf_banker b SIM_N SIM_M \<and> safe_banker b SIM_N SIM_M)"

lemma simulation_step_total:
  assumes "sim_inv s" "sim_ok r"
  shows "\<exists>x s'. simulation_step r s = Inr (x, s') \<and> sim_inv s'"
proof -
  obtain b where b: "s = Some b" "wf_banker b SIM_N SIM_M" "safe_banker b SIM_N SIM_M"
    using assms(1) by (auto simp: sim_inv_def split: option.splits)
  have r: "req_task r < SIM_N" "length (req_vec r) = SIM_M" using assms(2) by (auto simp: sim_ok_def)
  show ?thesis
  proof (cases "op r")
    case FREE
    have "\<not> exceeds (req_vec r) (mat_alloc b ! req_task r) SIM_M \<Longrightarrow>
        sim_inv (Some (release (req_vec r) (req_task r) b SIM_M))"
      using release_keeps [OF b(2,3) r(1)] by (simp add: sim_inv_def not_exceeds)
    then show ?thesis
      using FREE b(1) simulation_free_eq [OF b(2) r] assms(1) by (simp add: simulation_step_def)
  next
    case LOCK
    obtain st b' where q: "request (req_vec r) (req_task r) b SIM_N SIM_M = Inr (st, b')"
      using request_eq [OF b(2) r] by fastforce
    from request_keeps [OF b(2,3) r q] have "sim_inv (Some b')" by (simp add: sim_inv_def)
    then show ?thesis
      using LOCK b(1) q by (simp add: simulation_step_def simulation_lock_def simulation_try_lock_def)
  qed
qed

interpretation sim: total_ops simulation_step sim_inv sim_ok
  by unfold_locales (rule simulation_step_total)

lemma simulation_start_run: "simulation_start rs s = sim.run rs s"
proof (induction rs arbitrary: s)
  case (Cons r rs)
  then show ?case by (cases "simulation_step r s") auto
qed simp

text \<open>
  C39. Whatever two tasks lock and free through the deadlock prevention, in any order and however often,
  no operation faults and the allocation is safe after each of them: from a safe state, a deadlock
  is never reached.
\<close>

theorem simulation_stays_safe:
  assumes "wf_banker b SIM_N SIM_M" "safe_banker b SIM_N SIM_M"
    and "\<And>r. r \<in> set rs \<Longrightarrow> req_task r < SIM_N \<and> length (req_vec r) = SIM_M"
  shows "\<exists>xs b'. simulation_start rs (Some b) = Inr (xs, Some b') \<and> length xs = length rs \<and>
    wf_banker b' SIM_N SIM_M \<and> safe_banker b' SIM_N SIM_M"
proof -
  have "sim_inv (Some b)" using assms by (simp add: sim_inv_def)
  from sim.run_total [OF this, of rs] assms(3) show ?thesis
    unfolding simulation_start_run by (auto simp: sim_ok_def sim_inv_def split: option.splits)
qed

theorem simulation_stays_safe_witness:
  "\<exists>xs b'. simulation_start [lock_req 0 [1, 0], lock_req 1 [0, 1], free_req 0 [1, 0]] (Some example_banker)
     = Inr (xs, Some b') \<and> safe_banker b' SIM_N SIM_M"
proof -
  have "wf_banker example_banker SIM_N SIM_M" "safe_banker example_banker SIM_N SIM_M"
    using example_banker_wf example_banker_safe by (simp_all add: SIM_N_def SIM_M_def)
  moreover have "req_task r < SIM_N \<and> length (req_vec r) = SIM_M"
    if "r \<in> set [lock_req 0 [1, 0], lock_req 1 [0, 1], free_req 0 [1, 0]]" for r
    using that by (auto simp: lock_req_def free_req_def SIM_N_def SIM_M_def)
  ultimately show ?thesis
    using simulation_stays_safe [of example_banker "[lock_req 0 [1, 0], lock_req 1 [0, 1], free_req 0 [1, 0]]"]
    by blast
qed

text \<open>
  The simulation at boot reports, for its twelve operations: a grant to task 0, an unsafe wait of
  task 1 (which would close the circle), a grant to task 0, a busy wait of task 1, an error of task 0
  which has all it declared, a release by task 0, now a grant to task 1, the last release of task 0,
  the second grant to task 1 and its two releases, and an error for the release of a resource not
  owned; it ends with the matrices freed.
\<close>

theorem deadlock_simulation_trace:
  "deadlock_simulation = Inr
     ([Locked SAFE, Locked WAIT_UNSAFE, Locked SAFE, Locked WAIT, Locked ERROR, Freed, Locked SAFE, Freed,
       Locked SAFE, Freed, Freed, FreeError], None)"
  by code_simp

end
