(* ===== verification/List_Head.thy ===== *)
theory List_Head
  imports Prelude
begin

text \<open>
  The intrusive circular doubly linked lists of \<open>src/Mentos/mentos/inc/libc/list_head.h\<close> on an
  explicit store of links: \<open>nxt\<close> and \<open>prv\<close> hold the two pointers of each node, \<open>None\<close> being the
  null pointer. Each routine performs the pointer assignments of the source in their order;
  dereferencing null is the fault \<open>NullDeref\<close>. A ring \<open>ring s h xs\<close> is a list head \<open>h\<close> with the
  nodes \<open>xs\<close> after it, and the lemmas say what each routine does to rings. The interface
  \<open>ring_list\<close> packages them for the components that keep their objects in such lists.
\<close>

section \<open>The routines\<close>

record 'n links =
  nxt :: "'n \<Rightarrow> 'n option"
  prv :: "'n \<Rightarrow> 'n option"

definition set_nxt :: "'n \<Rightarrow> 'n option \<Rightarrow> 'n links \<Rightarrow> 'n links" where
  "set_nxt a p s = s\<lparr>nxt := (nxt s)(a := p)\<rparr>"

definition set_prv :: "'n \<Rightarrow> 'n option \<Rightarrow> 'n links \<Rightarrow> 'n links" where
  "set_prv a p s = s\<lparr>prv := (prv s)(a := p)\<rparr>"

definition deref :: "'n option \<Rightarrow> 'n res" where
  "deref p = (case p of None \<Rightarrow> Inl NullDeref | Some a \<Rightarrow> Inr a)"

definition list_head_init :: "'n \<Rightarrow> 'n links \<Rightarrow> 'n links" where
  "list_head_init h s = set_nxt h (Some h) (set_prv h (Some h) s)"

definition list_head_insert_after :: "'n \<Rightarrow> 'n \<Rightarrow> 'n links \<Rightarrow> 'n links res" where
  "list_head_insert_after l1 l2 s =
     (let l1_next = nxt s l1;
          s = set_nxt l1 (Some l2) s;
          s = set_prv l2 (Some l1) s;
          s = set_nxt l2 l1_next s
      in bindR (deref l1_next) (\<lambda>b. Inr (set_prv b (Some l2) s)))"

definition list_head_insert_before :: "'n \<Rightarrow> 'n \<Rightarrow> 'n links \<Rightarrow> 'n links res" where
  "list_head_insert_before l1 l2 s =
     (let l1_prev = prv s l1
      in bindR (deref l1_prev) (\<lambda>a.
         let s = set_nxt a (Some l2) s;
             s = set_prv l2 l1_prev s;
             s = set_nxt l2 (Some l1) s
         in Inr (set_prv l1 (Some l2) s)))"

definition list_head_del :: "'n \<Rightarrow> 'n links \<Rightarrow> 'n links res" where
  "list_head_del l s =
     bindR (deref (prv s l)) (\<lambda>a.
     let s = set_nxt a (nxt s l) s
     in bindR (deref (nxt s l)) (\<lambda>b.
        let s = set_prv b (prv s l) s
        in Inr (set_nxt l (Some l) (set_prv l (Some l) s))))"

definition list_head_empty :: "'n \<Rightarrow> 'n links \<Rightarrow> bool" where
  "list_head_empty h s \<longleftrightarrow> nxt s h = Some h"

text \<open>\<open>__list_add\<close>: the new entry goes between two consecutive entries.\<close>

definition list_add :: "'n \<Rightarrow> 'n option \<Rightarrow> 'n option \<Rightarrow> 'n links \<Rightarrow> 'n links res" where
  "list_add new prev next s =
     bindR (deref next) (\<lambda>b.
     let s = set_prv b (Some new) s;
         s = set_nxt new next s;
         s = set_prv new prev s
     in bindR (deref prev) (\<lambda>a. Inr (set_nxt a (Some new) s)))"

definition list_head_add :: "'n \<Rightarrow> 'n \<Rightarrow> 'n links \<Rightarrow> 'n links res" where
  "list_head_add new head s = list_add new (Some head) (nxt s head) s"

definition list_head_add_tail :: "'n \<Rightarrow> 'n \<Rightarrow> 'n links \<Rightarrow> 'n links res" where
  "list_head_add_tail new head s = list_add new (prv s head) (Some head) s"

text \<open>
  \<open>list_for_each\<close> with a body that returns at the first node it accepts: the cursor starts at
  \<open>head->next\<close> and follows \<open>next\<close> until it is the head. \<open>None\<close> is a traversal that never returns.
\<close>

partial_function (option) for_each_find ::
  "('n \<Rightarrow> bool) \<Rightarrow> 'n links \<Rightarrow> 'n \<Rightarrow> 'n option \<Rightarrow> 'n option res option" where
  "for_each_find P s h pos =
     (case pos of
        None \<Rightarrow> Some (Inl NullDeref)
      | Some a \<Rightarrow>
          if a = h then Some (Inr None)
          else if P a then Some (Inr (Some a))
          else for_each_find P s h (nxt s a))"

definition list_for_each_find :: "('n \<Rightarrow> bool) \<Rightarrow> 'n links \<Rightarrow> 'n \<Rightarrow> 'n option res option" where
  "list_for_each_find P s h = for_each_find P s h (nxt s h)"

text \<open>\<open>list_for_each\<close> with a body that visits every node: the nodes in the order of the visit.\<close>

partial_function (option) for_each_nodes ::
  "'n links \<Rightarrow> 'n \<Rightarrow> 'n option \<Rightarrow> 'n list \<Rightarrow> 'n list res option" where
  "for_each_nodes s h pos acc =
     (case pos of
        None \<Rightarrow> Some (Inl NullDeref)
      | Some a \<Rightarrow>
          if a = h then Some (Inr (rev acc))
          else for_each_nodes s h (nxt s a) (a # acc))"

definition list_for_each :: "'n links \<Rightarrow> 'n \<Rightarrow> 'n list res option" where
  "list_for_each s h = for_each_nodes s h (nxt s h) []"

section \<open>Chains and rings\<close>

lemma set_links_sel [simp]:
  "nxt (set_nxt a p s) = (nxt s)(a := p)" "prv (set_nxt a p s) = prv s"
  "prv (set_prv a p s) = (prv s)(a := p)" "nxt (set_prv a p s) = nxt s"
  by (simp_all add: set_nxt_def set_prv_def)

lemma deref_simps [simp]: "deref (Some a) = Inr a" "deref None = Inl NullDeref"
  by (simp_all add: deref_def)

text \<open>\<open>chain s a xs b\<close>: from \<open>a\<close> through the nodes \<open>xs\<close> to \<open>b\<close>, with matching back pointers.\<close>

fun chain :: "'n links \<Rightarrow> 'n \<Rightarrow> 'n list \<Rightarrow> 'n \<Rightarrow> bool" where
  "chain s a [] b \<longleftrightarrow> nxt s a = Some b \<and> prv s b = Some a"
| "chain s a (x # xs) b \<longleftrightarrow> nxt s a = Some x \<and> prv s x = Some a \<and> chain s x xs b"

definition ring :: "'n links \<Rightarrow> 'n \<Rightarrow> 'n list \<Rightarrow> bool" where
  "ring s h xs \<longleftrightarrow> chain s h xs h \<and> distinct (h # xs)"

lemma chain_append:
  "chain s a (xs @ y # ys) b \<longleftrightarrow> chain s a xs y \<and> chain s y ys b"
  by (induction xs arbitrary: a) auto

lemma chain_frame:
  assumes "chain s a xs b"
    and "\<And>n. n \<in> insert a (set xs) \<Longrightarrow> nxt s' n = nxt s n"
    and "\<And>n. n \<in> insert b (set xs) \<Longrightarrow> prv s' n = prv s n"
  shows "chain s' a xs b"
  using assms by (induction xs arbitrary: a) auto

lemma ring_frame:
  assumes "ring s h xs"
    and "\<And>n. n \<in> insert h (set xs) \<Longrightarrow> nxt s' n = nxt s n \<and> prv s' n = prv s n"
  shows "ring s' h xs"
  using assms unfolding ring_def by (auto intro: chain_frame)

lemma chain_ends:
  "chain s a xs b \<Longrightarrow> nxt s a = Some (hd (xs @ [b])) \<and> prv s b = Some (last (a # xs))"
proof (induction xs arbitrary: a)
  case (Cons x xs)
  then show ?case by (cases xs) auto
qed simp

lemma ring_ends:
  "ring s h xs \<Longrightarrow> nxt s h = Some (hd (xs @ [h])) \<and> prv s h = Some (last (h # xs))"
  unfolding ring_def using chain_ends [of s h xs h] by blast

lemma ring_Nil [simp]: "ring s h [] \<longleftrightarrow> nxt s h = Some h \<and> prv s h = Some h"
  by (simp add: ring_def)

lemma chain_snoc_split: "chain s a (xs @ [y]) b \<longleftrightarrow> chain s a xs y \<and> chain s y [] b"
  using chain_append [of s a xs y "[]" b] by simp

lemma chain_cons_split: "chain s a (y # xs) b \<longleftrightarrow> chain s a [] y \<and> chain s y xs b"
  by auto

lemma ring_functional:
  assumes "ring s h xs" "ring s h ys"
  shows "xs = ys"
proof -
  have "chain s a xs h \<Longrightarrow> chain s a ys h \<Longrightarrow> h \<notin> set xs \<Longrightarrow> h \<notin> set ys \<Longrightarrow> xs = ys" for a
  proof (induction xs arbitrary: a ys)
    case Nil
    then show ?case by (cases ys) auto
  next
    case (Cons x xs)
    then show ?case by (cases ys) auto
  qed
  with assms show ?thesis unfolding ring_def by auto
qed

subsection \<open>What the routines do to rings\<close>

lemma list_head_init_ring: "ring (list_head_init h s) h []"
  by (simp add: list_head_init_def)

lemma list_head_init_frame:
  "ring s k ys \<Longrightarrow> h \<noteq> k \<Longrightarrow> h \<notin> set ys \<Longrightarrow> ring (list_head_init h s) k ys"
  by (erule ring_frame) (auto simp: list_head_init_def)

lemma list_head_empty_ring:
  assumes "ring s h xs"
  shows "list_head_empty h s \<longleftrightarrow> xs = []"
proof (cases xs)
  case Nil
  with assms show ?thesis by (simp add: list_head_empty_def)
next
  case (Cons x ys)
  with assms have "nxt s h = Some x" "x \<noteq> h" by (auto simp: ring_def)
  with Cons show ?thesis by (simp add: list_head_empty_def)
qed

lemma last_not_first: "distinct (h # x # xs) \<Longrightarrow> h \<noteq> last (h # x # xs)"
  by (metis distinct.simps(2) last_ConsR last_in_set list.discI)

text \<open>Putting a node between two neighbours of a chain, and taking one out.\<close>

lemma chain_link:
  assumes "chain s h (xs @ ys) k" "distinct (h # xs)" "distinct (ys @ [k])"
    and "last (h # xs) \<notin> set ys" "hd (ys @ [k]) \<notin> set xs" "new \<notin> insert h (set xs) \<union> insert k (set ys)"
    and "nxt s' (last (h # xs)) = Some new" "prv s' new = Some (last (h # xs))"
    and "nxt s' new = Some (hd (ys @ [k]))" "prv s' (hd (ys @ [k])) = Some new"
    and "\<And>n. n \<in> set (h # xs) \<union> set ys \<Longrightarrow> n \<noteq> last (h # xs) \<Longrightarrow> nxt s' n = nxt s n"
    and "\<And>n. n \<in> set xs \<union> set (ys @ [k]) \<Longrightarrow> n \<noteq> hd (ys @ [k]) \<Longrightarrow> prv s' n = prv s n"
  shows "chain s' h (xs @ new # ys) k"
  using assms
proof (induction xs arbitrary: h)
  case Nil
  show ?case
  proof (cases ys)
    case Nil
    with Nil.prems show ?thesis by simp
  next
    case (Cons y ys')
    have "chain s y ys' k" using Nil.prems(1) Cons by simp
    moreover have "nxt s' n = nxt s n" if "n \<in> insert y (set ys')" for n
      by (rule Nil.prems(11)) (use that Cons Nil.prems(4) in auto)
    moreover have "prv s' n = prv s n" if "n \<in> insert k (set ys')" for n
      by (rule Nil.prems(12)) (use that Cons Nil.prems(3) in auto)
    ultimately have "chain s' y ys' k" by (rule chain_frame)
    with Nil.prems(7-10) Cons show ?thesis by simp
  qed
next
  case (Cons x xs)
  have "nxt s' h = nxt s h"
    by (rule Cons.prems(11)) (use last_not_first [OF Cons.prems(2)] in simp_all)
  moreover have "prv s' x = prv s x"
    by (rule Cons.prems(12)) (use Cons.prems(5) in auto)
  moreover have "chain s' x (xs @ new # ys) k"
    using Cons.prems by (intro Cons.IH) auto
  ultimately show ?case using Cons.prems(1) by simp
qed

lemma chain_unlink:
  assumes "chain s h xs x" "chain s x ys k" "distinct (h # xs)" "distinct (ys @ [k])"
    and "last (h # xs) \<notin> set ys" "hd (ys @ [k]) \<notin> set xs"
    and "nxt s' (last (h # xs)) = Some (hd (ys @ [k]))" "prv s' (hd (ys @ [k])) = Some (last (h # xs))"
    and "\<And>n. n \<in> set (h # xs) \<union> set ys \<Longrightarrow> n \<noteq> last (h # xs) \<Longrightarrow> nxt s' n = nxt s n"
    and "\<And>n. n \<in> set xs \<union> set (ys @ [k]) \<Longrightarrow> n \<noteq> hd (ys @ [k]) \<Longrightarrow> prv s' n = prv s n"
  shows "chain s' h (xs @ ys) k"
  using assms
proof (induction xs arbitrary: h)
  case Nil
  show ?case
  proof (cases ys)
    case Nil
    with Nil.prems show ?thesis by simp
  next
    case (Cons y ys')
    have "chain s y ys' k" using Nil.prems(2) Cons by simp
    moreover have "nxt s' n = nxt s n" if "n \<in> insert y (set ys')" for n
      by (rule Nil.prems(9)) (use that Cons Nil.prems(5) in auto)
    moreover have "prv s' n = prv s n" if "n \<in> insert k (set ys')" for n
      by (rule Nil.prems(10)) (use that Cons Nil.prems(4) in auto)
    ultimately have "chain s' y ys' k" by (rule chain_frame)
    with Nil.prems(7,8) Cons show ?thesis by simp
  qed
next
  case (Cons z xs)
  have "nxt s' h = nxt s h"
    by (rule Cons.prems(9)) (use last_not_first [OF Cons.prems(3)] in simp_all)
  moreover have "prv s' z = prv s z"
    by (rule Cons.prems(10)) (use Cons.prems(6) in auto)
  moreover have "chain s' z (xs @ ys) k"
    using Cons.prems by (intro Cons.IH) auto
  ultimately show ?case using Cons.prems(1) by simp
qed

text \<open>The store agrees with the old one away from the nodes of \<open>S\<close>.\<close>

definition same_off :: "'n set \<Rightarrow> 'n links \<Rightarrow> 'n links \<Rightarrow> bool" where
  "same_off S s s' \<longleftrightarrow> (\<forall>n. n \<notin> S \<longrightarrow> nxt s' n = nxt s n \<and> prv s' n = prv s n)"

lemma ring_same_off:
  "ring s k ys \<Longrightarrow> same_off S s s' \<Longrightarrow> insert k (set ys) \<inter> S = {} \<Longrightarrow> ring s' k ys"
  by (erule ring_frame) (auto simp: same_off_def)

lemma ring_link:
  assumes r: "ring s h (xs @ ys)" and new: "new \<notin> insert h (set (xs @ ys))"
    and s': "nxt s' = (nxt s)(last (h # xs) := Some new, new := Some (hd (ys @ [h])))"
      "prv s' = (prv s)(hd (ys @ [h]) := Some new, new := Some (last (h # xs)))"
  shows "ring s' h (xs @ new # ys)" and "same_off (insert new (insert h (set (xs @ ys)))) s s'"
proof -
  have d: "distinct (h # xs @ ys)" and c: "chain s h (xs @ ys) h"
    using r by (auto simp: ring_def)
  have l: "last (h # xs) \<in> insert h (set xs)" and b: "hd (ys @ [h]) \<in> insert h (set ys)"
    using last_in_set [of "h # xs"] hd_in_set [of "ys @ [h]"] by auto
  have "chain s' h (xs @ new # ys) h"
    by (rule chain_link [OF c]) (use d l b new s' in auto)
  with d new show "ring s' h (xs @ new # ys)" by (auto simp: ring_def)
  show "same_off (insert new (insert h (set (xs @ ys)))) s s'"
    using l b by (auto simp: same_off_def s')
qed

lemma list_head_add_tail_ring:
  assumes "ring s h xs" "new \<notin> insert h (set xs)"
  shows "\<exists>s'. list_head_add_tail new h s = Inr s' \<and> ring s' h (xs @ [new]) \<and>
    same_off (insert new (insert h (set xs))) s s'"
proof -
  let ?s = "set_nxt (last (h # xs)) (Some new) (set_prv new (Some (last (h # xs)))
      (set_nxt new (Some h) (set_prv h (Some new) s)))"
  have "last (h # xs) \<noteq> new" using assms(2) last_in_set [of "h # xs"] by auto
  then have "nxt ?s = (nxt s)(last (h # xs) := Some new, new := Some (hd ([] @ [h])))"
    "prv ?s = (prv s)(hd ([] @ [h]) := Some new, new := Some (last (h # xs)))"
    by (auto simp: fun_upd_twist simp del: last.simps)
  from ring_link [of s h xs "[]" new ?s, OF _ _ this] assms
  have "ring ?s h (xs @ [new])" "same_off (insert new (insert h (set xs))) s ?s" by simp_all
  moreover have "list_head_add_tail new h s = Inr ?s"
    using ring_ends [OF assms(1)] by (simp add: list_head_add_tail_def list_add_def)
  ultimately show ?thesis by blast
qed

lemma list_head_add_ring:
  assumes "ring s h xs" "new \<notin> insert h (set xs)"
  shows "\<exists>s'. list_head_add new h s = Inr s' \<and> ring s' h (new # xs) \<and>
    same_off (insert new (insert h (set xs))) s s'"
proof -
  let ?b = "hd (xs @ [h])"
  let ?s = "set_nxt h (Some new) (set_prv new (Some h) (set_nxt new (Some ?b) (set_prv ?b (Some new) s)))"
  have "new \<noteq> h" using assms(2) by auto
  then have "nxt ?s = (nxt s)(last (h # []) := Some new, new := Some ?b)"
    "prv ?s = (prv s)(?b := Some new, new := Some (last (h # [])))"
    by (auto simp: fun_upd_twist)
  from ring_link [of s h "[]" xs new ?s, OF _ _ this] assms
  have "ring ?s h (new # xs)" "same_off (insert new (insert h (set xs))) s ?s" by simp_all
  moreover have "list_head_add new h s = Inr ?s"
    using ring_ends [OF assms(1)] by (simp add: list_head_add_def list_add_def)
  ultimately show ?thesis by blast
qed

lemma list_head_del_ring:
  assumes "ring s h (xs @ x # ys)"
  shows "\<exists>s'. list_head_del x s = Inr s' \<and> ring s' h (xs @ ys) \<and> ring s' x [] \<and>
    same_off (insert h (set (xs @ x # ys))) s s'"
proof -
  let ?a = "last (h # xs)" and ?b = "hd (ys @ [h])"
  have d: "distinct (h # xs @ x # ys)" and c: "chain s h xs x" "chain s x ys h"
    using assms by (auto simp: ring_def chain_append)
  have a: "?a \<in> insert h (set xs)" and b: "?b \<in> insert h (set ys)"
    using last_in_set [of "h # xs"] hd_in_set [of "ys @ [h]"] by auto
  with d have ax: "?a \<noteq> x" and bx: "?b \<noteq> x" by (auto simp del: last.simps)
  have px: "prv s x = Some ?a" and nx: "nxt s x = Some ?b"
    using chain_ends [OF c(1)] chain_ends [OF c(2)] by auto
  let ?s = "set_nxt x (Some x) (set_prv x (Some x) (set_prv ?b (Some ?a) (set_nxt ?a (Some ?b) s)))"
  have del: "list_head_del x s = Inr ?s"
    using px nx ax bx by (simp add: list_head_del_def Let_def del: last.simps)
  have "chain ?s h (xs @ ys) h"
    by (rule chain_unlink [OF c]) (use d a b ax bx in \<open>auto simp del: last.simps\<close>)
  then have "ring ?s h (xs @ ys)" using d by (auto simp: ring_def)
  moreover have "ring ?s x []" by simp
  moreover have "same_off (insert h (set (xs @ x # ys))) s ?s"
    using a b by (auto simp: same_off_def simp del: last.simps)
  ultimately show ?thesis using del by blast
qed

text \<open>Traversals of a ring return, and visit its nodes in order.\<close>

lemma for_each_find_chain:
  assumes "chain s a xs h" "h \<notin> set xs"
  shows "for_each_find P s h (nxt s a) = Some (Inr (List.find P xs))"
  using assms
proof (induction xs arbitrary: a)
  case Nil
  then show ?case by (simp add: for_each_find.simps)
next
  case (Cons x xs)
  then have "x \<noteq> h" by auto
  have "for_each_find P s h (nxt s a) =
      (if P x then Some (Inr (Some x)) else for_each_find P s h (nxt s x))"
    using Cons.prems \<open>x \<noteq> h\<close> by (subst for_each_find.simps) simp
  with Cons show ?case by simp
qed

lemma list_for_each_find_ring:
  "ring s h xs \<Longrightarrow> list_for_each_find P s h = Some (Inr (List.find P xs))"
  by (simp add: list_for_each_find_def ring_def for_each_find_chain)

lemma for_each_nodes_chain:
  assumes "chain s a xs h" "h \<notin> set xs"
  shows "for_each_nodes s h (nxt s a) acc = Some (Inr (rev acc @ xs))"
  using assms
proof (induction xs arbitrary: a acc)
  case Nil
  then show ?case by (simp add: for_each_nodes.simps)
next
  case (Cons x xs)
  then have "x \<noteq> h" by auto
  have "for_each_nodes s h (nxt s a) acc = for_each_nodes s h (nxt s x) (x # acc)"
    using Cons.prems \<open>x \<noteq> h\<close> by (subst for_each_nodes.simps) simp
  with Cons show ?case by simp
qed

lemma list_for_each_ring: "ring s h xs \<Longrightarrow> list_for_each s h = Some (Inr xs)"
  using for_each_nodes_chain [of s h xs h "[]"] by (simp add: list_for_each_def ring_def)

section \<open>The interface of a list kept in a store\<close>

text \<open>
  What a component that keeps its objects in a list relies on: adding at the tail and removing a
  member, against the list of members (\<open>member_list\<close>), and a traversal that stops at the first node
  it accepts (\<open>ring_list\<close>).
\<close>

locale member_list =
  fixes holds :: "'s \<Rightarrow> 'n list \<Rightarrow> bool"
    and free :: "'s \<Rightarrow> 'n \<Rightarrow> bool"
    and add :: "'n \<Rightarrow> 's \<Rightarrow> 's res"
    and del :: "'n \<Rightarrow> 's \<Rightarrow> 's res"
  assumes add_holds: "holds s xs \<Longrightarrow> free s x \<Longrightarrow> x \<notin> set xs \<Longrightarrow>
      \<exists>s'. add x s = Inr s' \<and> holds s' (xs @ [x]) \<and> (\<forall>y. free s' y = free s y)"
    and del_holds: "holds s (xs @ x # ys) \<Longrightarrow>
      \<exists>s'. del x s = Inr s' \<and> holds s' (xs @ ys) \<and> (\<forall>y. free s' y = free s y)"
    and holds_distinct: "holds s xs \<Longrightarrow> distinct xs"
begin

fun add_all :: "'n list \<Rightarrow> 's \<Rightarrow> 's res" where
  "add_all [] s = Inr s"
| "add_all (x # xs) s = bindR (add x s) (add_all xs)"

lemma add_all_holds:
  assumes "holds s ys" "distinct (ys @ xs)" "\<And>x. x \<in> set xs \<Longrightarrow> free s x"
  shows "\<exists>s'. add_all xs s = Inr s' \<and> holds s' (ys @ xs)"
  using assms
proof (induction xs arbitrary: s ys)
  case Nil
  then show ?case by simp
next
  case (Cons x xs)
  then obtain s1 where s1: "add x s = Inr s1" "holds s1 (ys @ [x])" "\<And>y. free s1 y = free s y"
    using add_holds [of s ys x] by auto
  with Cons.IH [of s1 "ys @ [x]"] Cons.prems show ?case by auto
qed

lemma add_then_del:
  assumes "holds s xs" "free s x" "x \<notin> set xs"
  shows "\<exists>s'. bindR (add x s) (del x) = Inr s' \<and> holds s' xs"
proof -
  obtain s1 where s1: "add x s = Inr s1" "holds s1 (xs @ [x])"
    using add_holds [OF assms] by blast
  then show ?thesis using del_holds [of s1 xs x "[]"] by auto
qed

lemma del_member:
  assumes "holds s xs" "x \<in> set xs"
  shows "\<exists>s'. del x s = Inr s' \<and> holds s' (remove1 x xs)"
proof -
  obtain ys zs where eq: "xs = ys @ x # zs" and "x \<notin> set ys"
    using assms(2) by (meson split_list_first)
  then have "remove1 x xs = ys @ zs" by (simp add: remove1_append)
  with del_holds [of s ys x zs] assms(1) eq show ?thesis by auto
qed

end

locale ring_list = member_list holds free add del
  for holds :: "'s \<Rightarrow> 'n list \<Rightarrow> bool"
    and free :: "'s \<Rightarrow> 'n \<Rightarrow> bool"
    and add :: "'n \<Rightarrow> 's \<Rightarrow> 's res"
    and del :: "'n \<Rightarrow> 's \<Rightarrow> 's res" +
  fixes search :: "('n \<Rightarrow> bool) \<Rightarrow> 's \<Rightarrow> 'n option res option"
  assumes search_holds: "holds s xs \<Longrightarrow> search P s = Some (Inr (List.find P xs))"
begin

lemma search_found:
  assumes "holds s xs"
  shows "(\<exists>x. search P s = Some (Inr (Some x))) \<longleftrightarrow> (\<exists>x\<in>set xs. P x)"
  using search_holds [OF assms] by (simp add: find_None_iff) (metis find_None_iff not_None_eq)

end

interpretation rl: ring_list "\<lambda>s xs. ring s h xs" "\<lambda>s x. x \<noteq> h" "\<lambda>x s. list_head_add_tail x h s"
  list_head_del "\<lambda>P s. list_for_each_find P s h" for h
proof (unfold_locales, goal_cases)
  case (1 s xs x)
  then show ?case using list_head_add_tail_ring [of s h xs x] by auto
next
  case (2 s xs x ys)
  then show ?case using list_head_del_ring [of s h xs x ys] by auto
next
  case (3 s xs)
  then show ?case by (simp add: ring_def)
next
  case (4 s xs P)
  then show ?case by (rule list_for_each_find_ring)
qed

end
