(* ===== verification/Scheduler.thy ===== *)
theory Scheduler
  imports List_Head
begin

text \<open>
  Processes and the scheduler: the structures of \<open>inc/process/process.h\<close>,
  \<open>inc/process/scheduler.h\<close> and \<open>inc/process/prio.h\<close>, the run queue and the system calls of
  \<open>src/process/scheduler.c\<close>, the Round-Robin branch of \<open>src/process/scheduler_algorithm.c\<close> (the
  one the build selects), \<open>sys_vfork\<close>, \<open>create_init_process\<close> and the working directory of
  \<open>src/process/process.c\<close>, and the saving and restoring of the FPU of \<open>src/devices/fpu.c\<close>.

  Tasks live in a store indexed by the address of their \<open>task_struct\<close>; the three list nodes inside
  a task and the head of the run queue are the nodes of one store of links. A task that has been
  freed is not in the store, and reading it is a fault. The clock is read with interrupts off, so
  a handler sees one value \<open>now\<close> of \<open>get_millisecond\<close>.
\<close>

section \<open>Data\<close>

record pt_regs =
  r_gs :: u32
  r_fs :: u32
  r_es :: u32
  r_ds :: u32
  r_edi :: u32
  r_esi :: u32
  r_ebp :: u32
  r_esp :: u32
  r_ebx :: u32
  r_edx :: u32
  r_ecx :: u32
  r_eax :: u32
  r_int_no :: u32
  r_err_code :: u32
  r_eip :: u32
  r_cs :: u32
  r_eflags :: u32
  r_useresp :: u32
  r_ss :: u32

record thread_struct =
  t_ebp :: u32
  t_useresp :: u32
  t_ebx :: u32
  t_edx :: u32
  t_ecx :: u32
  t_eax :: u32
  t_eip :: u32
  t_eflags :: u32
  t_gs :: u32
  t_fs :: u32
  t_es :: u32
  t_ds :: u32
  t_edi :: u32
  t_esi :: u32
  fpu_enabled :: bool
  fpu_register :: "u8 list"

record sched_entity =
  prio :: int
  start_runtime :: u32
  exec_start :: u32
  sum_exec_runtime :: u32
  vruntime :: u32

type_synonym tid = nat

datatype task_state = TASK_RUNNING | TASK_INTERRUPTIBLE | TASK_UNINTERRUPTIBLE | EXIT_DEAD | EXIT_ZOMBIE

record task_struct =
  pid :: int
  state :: task_state
  parent :: "tid option"
  thread :: thread_struct
  se :: sched_entity
  exit_code :: u32
  name :: string
  mm :: "nat option"
  cwd :: string
  resources :: "nat option list"

text \<open>The list nodes: the head of the run queue and the three nodes inside each task.\<close>

datatype node = Queue | RunList tid | Children tid | Sibling tid

text \<open>
  The global state: the tasks, the links, the run queue (\<open>num_active\<close>, \<open>curr\<close>; its head is the node
  \<open>Queue\<close>), the static counter of \<open>get_new_pid\<close>, the FPU with the buffer \<open>saves\<close>, the live process
  images (the start of the stack segment of each \<open>mm_struct\<close>), the user memory and \<open>errno\<close>.
\<close>

record kernel =
  tasks :: "tid \<Rightarrow> task_struct option"
  links_of :: "node links"
  num_active :: u32
  curr :: "tid option"
  next_tid :: u32
  fpu :: "u8 list"
  saves :: "u8 list"
  images :: "nat \<Rightarrow> u32 option"
  umem :: "u32 \<Rightarrow> u8"
  errno :: int

definition DEFAULT_STACK_SIZE :: u32 where "DEFAULT_STACK_SIZE = 0x100000"
definition TASK_RESOURCE_MAX_AMOUNT :: nat where "TASK_RESOURCE_MAX_AMOUNT = 32"
definition PATH_MAX :: nat where "PATH_MAX = 4096"
definition EFLAG_IF :: u32 where "EFLAG_IF = 512"

definition state_code :: "task_state \<Rightarrow> int" where
  "state_code s = (case s of TASK_RUNNING \<Rightarrow> 0 | TASK_INTERRUPTIBLE \<Rightarrow> 1
     | TASK_UNINTERRUPTIBLE \<Rightarrow> 2 | EXIT_DEAD \<Rightarrow> 0x10 | EXIT_ZOMBIE \<Rightarrow> 0x20)"

subsection \<open>Priorities\<close>

definition MAX_NICE :: int where "MAX_NICE = 19"
definition MIN_NICE :: int where "MIN_NICE = -20"
definition NICE_WIDTH :: int where "NICE_WIDTH = MAX_NICE - MIN_NICE + 1"
definition MAX_RT_PRIO :: int where "MAX_RT_PRIO = 100"
definition MAX_PRIO :: int where "MAX_PRIO = MAX_RT_PRIO + NICE_WIDTH"
definition DEFAULT_PRIO :: int where "DEFAULT_PRIO = MAX_RT_PRIO + NICE_WIDTH div 2"
definition NICE_TO_PRIO :: "int \<Rightarrow> int" where "NICE_TO_PRIO nice = nice + DEFAULT_PRIO"
definition PRIO_TO_NICE :: "int \<Rightarrow> int" where "PRIO_TO_NICE p = p - DEFAULT_PRIO"

lemmas prio_defs = MAX_NICE_def MIN_NICE_def NICE_WIDTH_def MAX_RT_PRIO_def MAX_PRIO_def
  DEFAULT_PRIO_def NICE_TO_PRIO_def PRIO_TO_NICE_def

section \<open>Access to tasks and links\<close>

definition get_task :: "kernel \<Rightarrow> tid \<Rightarrow> task_struct res" where
  "get_task k t = (case tasks k t of None \<Rightarrow> Inl NullDeref | Some p \<Rightarrow> Inr p)"

definition put_task :: "tid \<Rightarrow> task_struct \<Rightarrow> kernel \<Rightarrow> kernel" where
  "put_task t p k = k\<lparr>tasks := (tasks k)(t \<mapsto> p)\<rparr>"

definition upd_task :: "tid \<Rightarrow> (task_struct \<Rightarrow> task_struct) \<Rightarrow> kernel \<Rightarrow> kernel res" where
  "upd_task t g k = bindR (get_task k t) (\<lambda>p. Inr (put_task t (g p) k))"

definition with_links :: "(node links \<Rightarrow> node links res) \<Rightarrow> kernel \<Rightarrow> kernel res" where
  "with_links f k = bindR (f (links_of k)) (\<lambda>l. Inr (k\<lparr>links_of := l\<rparr>))"

text \<open>\<open>list_entry\<close> for the member \<open>run_list\<close>; on any other node the address is not a task.\<close>

definition entry_run_list :: "node option \<Rightarrow> tid res" where
  "entry_run_list n =
     (case n of None \<Rightarrow> Inl NullDeref | Some (RunList t) \<Rightarrow> Inr t | Some _ \<Rightarrow> Inl OutOfBounds)"

definition entry_sibling :: "node \<Rightarrow> tid res" where
  "entry_sibling n = (case n of Sibling t \<Rightarrow> Inr t | _ \<Rightarrow> Inl OutOfBounds)"

definition get_current :: "kernel \<Rightarrow> tid res" where
  "get_current k = (case curr k of None \<Rightarrow> Inl (Panic ''There is no current process!'') | Some c \<Rightarrow> Inr c)"

section \<open>The run queue\<close>

definition get_new_pid :: "kernel \<Rightarrow> u32 \<times> kernel" where
  "get_new_pid k = (next_tid k, k\<lparr>next_tid := next_tid k + 1\<rparr>)"

text \<open>
  A traversal with a test on the entries stops at the first entry that passes the test; at a node
  that is no entry, or at a freed one, it stops too, and reading the entry is then the fault.
\<close>

definition has_pid :: "int \<Rightarrow> kernel \<Rightarrow> node \<Rightarrow> bool" where
  "has_pid p k n =
     (case n of RunList t \<Rightarrow> (case tasks k t of Some q \<Rightarrow> pid q = p | None \<Rightarrow> True) | _ \<Rightarrow> True)"

definition kernel_get_running_process :: "int \<Rightarrow> kernel \<Rightarrow> tid option res option" where
  "kernel_get_running_process p k =
     map_option (\<lambda>r. bindR r (\<lambda>n.
       case n of
         None \<Rightarrow> Inr None
       | Some m \<Rightarrow> bindR (entry_run_list (Some m)) (\<lambda>t. bindR (get_task k t) (\<lambda>q. Inr (Some t)))))
     (list_for_each_find (has_pid p k) (links_of k) Queue)"

definition kernel_get_active_processes :: "kernel \<Rightarrow> u32" where
  "kernel_get_active_processes k = num_active k"

definition kernel_initialize_scheduler :: "kernel \<Rightarrow> kernel" where
  "kernel_initialize_scheduler k =
     k\<lparr>links_of := list_head_init Queue (links_of k), curr := None, num_active := 0\<rparr>"

definition enqueue_task :: "tid \<Rightarrow> kernel \<Rightarrow> kernel res" where
  "enqueue_task t k =
     (let k = (if curr k = None then k\<lparr>curr := Some t\<rparr> else k)
      in bindR (with_links (list_head_add_tail (RunList t) Queue) k)
           (\<lambda>k. Inr (k\<lparr>num_active := num_active k + 1\<rparr>)))"

definition dequeue_task :: "tid \<Rightarrow> kernel \<Rightarrow> kernel res" where
  "dequeue_task t k =
     bindR (with_links (list_head_del (RunList t)) k)
       (\<lambda>k. Inr (k\<lparr>num_active := num_active k - 1\<rparr>))"

text \<open>The Round-Robin \<open>pick_next_task\<close>.\<close>

definition next_node :: "tid \<Rightarrow> kernel \<Rightarrow> node option" where
  "next_node c k =
     (let n = nxt (links_of k) (RunList c)
      in if n = Some Queue then nxt (links_of k) Queue else n)"

definition pick_next_task :: "kernel \<Rightarrow> u32 \<Rightarrow> tid res" where
  "pick_next_task k delta_exec =
     (case curr k of None \<Rightarrow> Inl NullDeref | Some c \<Rightarrow> entry_run_list (next_node c k))"

section \<open>The context switch\<close>

definition save_fpu :: "tid \<Rightarrow> kernel \<Rightarrow> kernel res" where
  "save_fpu t k =
     (let k = k\<lparr>saves := fpu k\<rparr>
      in upd_task t (\<lambda>p. p\<lparr>thread := (thread p)\<lparr>fpu_register := saves k\<rparr>\<rparr>) k)"

definition restore_fpu :: "tid \<Rightarrow> kernel \<Rightarrow> kernel res" where
  "restore_fpu t k =
     bindR (get_task k t) (\<lambda>p.
     let k = k\<lparr>saves := fpu_register (thread p)\<rparr>
     in Inr (k\<lparr>fpu := saves k\<rparr>))"

definition switch_fpu :: "kernel \<Rightarrow> kernel res" where
  "switch_fpu k = (case curr k of None \<Rightarrow> Inl AssertFail | Some c \<Rightarrow> save_fpu c k)"

definition unswitch_fpu :: "kernel \<Rightarrow> kernel res" where
  "unswitch_fpu k = (case curr k of None \<Rightarrow> Inl AssertFail | Some c \<Rightarrow> restore_fpu c k)"

definition store_regs :: "pt_regs \<Rightarrow> thread_struct \<Rightarrow> thread_struct" where
  "store_regs f th = th\<lparr>
     t_gs := r_gs f, t_fs := r_fs f, t_es := r_es f, t_ds := r_ds f, t_edi := r_edi f,
     t_esi := r_esi f, t_ebp := r_ebp f, t_ebx := r_ebx f, t_edx := r_edx f, t_ecx := r_ecx f,
     t_eax := r_eax f, t_eip := r_eip f, t_eflags := r_eflags f, t_useresp := r_useresp f\<rparr>"

definition load_regs :: "thread_struct \<Rightarrow> pt_regs \<Rightarrow> pt_regs" where
  "load_regs th f = f\<lparr>
     r_gs := t_gs th, r_fs := t_fs th, r_es := t_es th, r_ds := t_ds th, r_edi := t_edi th,
     r_esi := t_esi th, r_ebp := t_ebp th, r_ebx := t_ebx th, r_edx := t_edx th, r_ecx := t_ecx th,
     r_eax := t_eax th, r_eip := t_eip th, r_eflags := t_eflags th, r_useresp := t_useresp th\<rparr>"

definition update_context :: "pt_regs \<Rightarrow> tid \<Rightarrow> kernel \<Rightarrow> kernel res" where
  "update_context f t k =
     bindR (upd_task t (\<lambda>p. p\<lparr>thread := store_regs f (thread p)\<rparr>) k) switch_fpu"

definition do_switch :: "tid \<Rightarrow> pt_regs \<Rightarrow> kernel \<Rightarrow> (kernel \<times> pt_regs) res" where
  "do_switch t f k =
     (let k = k\<lparr>curr := Some t\<rparr>
      in bindR (get_task k t) (\<lambda>p.
         let f = load_regs (thread p) f
         in bindR (unswitch_fpu k) (\<lambda>k. Inr (k, f))))"

definition upd_se :: "(sched_entity \<Rightarrow> sched_entity) \<Rightarrow> task_struct \<Rightarrow> task_struct" where
  "upd_se g p = p\<lparr>se := g (se p)\<rparr>"

text \<open>The choice of the next process: a zombie leaves the run queue, its successor runs next.\<close>

definition schedule_next :: "tid \<Rightarrow> u32 \<Rightarrow> kernel \<Rightarrow> (tid \<times> kernel) res" where
  "schedule_next c delta_exec k =
     bindR (get_task k c) (\<lambda>p.
     if state p = EXIT_ZOMBIE
     then bindR (entry_run_list (next_node c k)) (\<lambda>n. bindR (dequeue_task c k) (\<lambda>k. Inr (n, k)))
     else bindR (pick_next_task k delta_exec) (\<lambda>n. Inr (n, k)))"

text \<open>The switch to another process, with the statistics the code updates after \<open>do_switch\<close>.\<close>

definition schedule_switch :: "tid \<Rightarrow> u32 \<Rightarrow> pt_regs \<Rightarrow> kernel \<Rightarrow> (kernel \<times> pt_regs) res" where
  "schedule_switch n now f k =
     (if Some n \<noteq> curr k
      then bindR (do_switch n f k) (\<lambda>(k, f).
           case curr k of
             None \<Rightarrow> Inl NullDeref
           | Some c \<Rightarrow>
               bindR (upd_task c (upd_se (\<lambda>e. e\<lparr>sum_exec_runtime := now\<rparr>)) k) (\<lambda>k.
               bindR (upd_task n (upd_se (\<lambda>e. e\<lparr>exec_start := now\<rparr>)) k) (\<lambda>k. Inr (k, f))))
      else Inr (k, f))"

definition kernel_schedule :: "u32 \<Rightarrow> pt_regs \<Rightarrow> kernel \<Rightarrow> (kernel \<times> pt_regs) res" where
  "kernel_schedule now f k =
     (case curr k of
        None \<Rightarrow> Inr (k, f)
      | Some c \<Rightarrow>
          bindR (get_task k c) (\<lambda>p.
          let delta_exec = now - exec_start (se p) in
          bindR (upd_task c (upd_se (\<lambda>e. e\<lparr>sum_exec_runtime := sum_exec_runtime e + delta_exec\<rparr>)) k) (\<lambda>k.
          bindR (schedule_next c delta_exec k) (\<lambda>(n, k).
          bindR (update_context f c k) (\<lambda>k.
          bindR (schedule_switch n now f k) (\<lambda>(k, f).
          bindR (get_task k n) (\<lambda>q.
          Inr (if start_runtime (se q) = 0
               then put_task n (upd_se (\<lambda>e. e\<lparr>start_runtime := now\<rparr>) q) k else k, f))))))))"

section \<open>System calls\<close>

definition set_user_nice :: "tid \<Rightarrow> int \<Rightarrow> kernel \<Rightarrow> (int \<times> kernel) res" where
  "set_user_nice t nice k =
     bindR (get_task k t) (\<lambda>p.
     let k = (if PRIO_TO_NICE (prio (se p)) \<noteq> nice \<and> nice \<ge> MIN_NICE \<and> nice \<le> MAX_NICE
              then put_task t (upd_se (\<lambda>e. e\<lparr>prio := NICE_TO_PRIO nice\<rparr>) p) k else k)
     in bindR (get_task k t) (\<lambda>p. Inr (PRIO_TO_NICE (prio (se p)), k)))"

definition sys_getpid :: "kernel \<Rightarrow> int res" where
  "sys_getpid k = bindR (get_current k) (\<lambda>c. bindR (get_task k c) (\<lambda>p. Inr (pid p)))"

definition sys_getppid :: "kernel \<Rightarrow> int res" where
  "sys_getppid k =
     bindR (get_current k) (\<lambda>c. bindR (get_task k c) (\<lambda>p.
     case parent p of None \<Rightarrow> Inr 0 | Some q \<Rightarrow> bindR (get_task k q) (\<lambda>p. Inr (pid p))))"

definition sys_nice :: "int \<Rightarrow> kernel \<Rightarrow> (int \<times> kernel) res" where
  "sys_nice increment k =
     bindR (get_current k) (\<lambda>c. bindR (get_task k c) (\<lambda>p.
     let increment = (if increment < -40 then -40 else increment);
         increment = (if increment > 40 then 40 else increment);
         newNice = PRIO_TO_NICE (prio (se p)) + increment;
         newNice = (if newNice < MIN_NICE then MIN_NICE else newNice);
         newNice = (if newNice > MAX_NICE then MAX_NICE else newNice)
     in set_user_nice c newNice k))"

definition ESRCH :: int where "ESRCH = 3"
definition ECHILD :: int where "ECHILD = 10"
definition EFAULT :: int where "EFAULT = 14"
definition EINVAL :: int where "EINVAL = 22"
definition WNOHANG :: int where "WNOHANG = 1"

lemmas errno_defs = ESRCH_def ECHILD_def EFAULT_def EINVAL_def WNOHANG_def

text \<open>
  The loop of \<open>sys_waitpid\<close> stops at the first child that is a zombie and, when \<open>pid\<close> is greater
  than one, has this \<open>pid\<close>.
\<close>

definition reapable :: "int \<Rightarrow> kernel \<Rightarrow> node \<Rightarrow> bool" where
  "reapable p k n =
     (case n of Sibling t \<Rightarrow>
        (case tasks k t of
           Some q \<Rightarrow> state q = EXIT_ZOMBIE \<and> \<not> (p > 1 \<and> pid q \<noteq> p)
         | None \<Rightarrow> True)
      | _ \<Rightarrow> True)"

definition reap :: "node \<Rightarrow> kernel \<Rightarrow> (int \<times> int option \<times> kernel) res" where
  "reap n k =
     bindR (entry_sibling n) (\<lambda>t. bindR (get_task k t) (\<lambda>q.
     bindR (with_links (list_head_del (Sibling t)) k) (\<lambda>k.
     Inr (pid q, Some (state_code (state q)), k\<lparr>tasks := (tasks k)(t := None)\<rparr>))))"

text \<open>
  The result is the value returned, what is written to \<open>*status\<close> if anything, and the state.
  \<open>status\<close> says whether the pointer is not null.
\<close>

definition sys_waitpid :: "int \<Rightarrow> bool \<Rightarrow> int \<Rightarrow> kernel \<Rightarrow> (int \<times> int option \<times> kernel) res option" where
  "sys_waitpid p status options k =
     (case curr k of
        None \<Rightarrow> Some (Inl (Panic ''There is no current process!''))
      | Some c \<Rightarrow>
          if p < -1 \<or> p = 0 then Some (Inr (-1, None, k\<lparr>errno := ESRCH\<rparr>))
          else case tasks k c of None \<Rightarrow> Some (Inl NullDeref) | Some q \<Rightarrow>
            if p = pid q then Some (Inr (-1, None, k\<lparr>errno := ECHILD\<rparr>))
            else if options \<noteq> 0 \<and> options \<noteq> WNOHANG then Some (Inr (-1, None, k\<lparr>errno := EINVAL\<rparr>))
            else if \<not> status then Some (Inr (-1, None, k\<lparr>errno := EFAULT\<rparr>))
            else map_option (\<lambda>r. bindR r (\<lambda>f. case f of None \<Rightarrow> Inr (0, None, k) | Some n \<Rightarrow> reap n k))
                   (list_for_each_find (reapable p k) (links_of k) (Children c)))"

text \<open>
  \<open>sys_exit\<close> moves the children to \<open>init\<close>. The loop takes the entry under the cursor, steps the
  cursor back, unlinks the entry and calls \<open>list_head_add_tail\<close> with the list of \<open>init\<close> as the new
  element and the sibling node as the head, as the source does. A second traversal prints the
  children of \<open>init\<close>.
\<close>

definition adopt :: "tid \<Rightarrow> tid \<Rightarrow> kernel \<Rightarrow> (node option \<times> kernel) res" where
  "adopt t init k =
     (let it = prv (links_of k) (Sibling t)
      in bindR (with_links (list_head_del (Sibling t)) k) (\<lambda>k.
         bindR (with_links (list_head_add_tail (Children init) (Sibling t)) k) (\<lambda>k.
         bindR (upd_task t (\<lambda>p. p\<lparr>parent := Some init\<rparr>) k) (\<lambda>k. Inr (it, k)))))"

partial_function (option) adopt_loop ::
  "tid \<Rightarrow> tid \<Rightarrow> node option \<Rightarrow> kernel \<Rightarrow> kernel res option" where
  "adopt_loop c init it k =
     (case it of
        None \<Rightarrow> Some (Inl NullDeref)
      | Some n \<Rightarrow>
          if n = Children c then Some (Inr k)
          else case bindR (entry_sibling n) (\<lambda>t. adopt t init k) of
            Inl e \<Rightarrow> Some (Inl e)
          | Inr (prev, k') \<Rightarrow>
             (case prev of
                None \<Rightarrow> Some (Inl NullDeref)
              | Some m \<Rightarrow> adopt_loop c init (nxt (links_of k') m) k'))"

definition destroy_image :: "nat option \<Rightarrow> kernel \<Rightarrow> kernel res" where
  "destroy_image m k =
     (case m of None \<Rightarrow> Inl AssertFail | Some i \<Rightarrow> Inr (k\<lparr>images := (images k)(i := None)\<rparr>))"

definition exit_finish :: "tid \<Rightarrow> kernel \<Rightarrow> kernel res" where
  "exit_finish c k =
     bindR (get_task k c) (\<lambda>p.
     bindR (destroy_image (mm p) k) (\<lambda>k.
     upd_task c (\<lambda>p. p\<lparr>resources := replicate TASK_RESOURCE_MAX_AMOUNT None\<rparr>) k))"

definition sys_exit :: "u32 \<Rightarrow> kernel \<Rightarrow> kernel res option" where
  "sys_exit code k =
     (case curr k of
        None \<Rightarrow> Some (Inl (Panic ''There is no current process!''))
      | Some c \<Rightarrow>
         (case kernel_get_running_process 1 k of
            None \<Rightarrow> None
          | Some (Inl e) \<Rightarrow> Some (Inl e)
          | Some (Inr init) \<Rightarrow>
              if init = Some c then Some (Inl (Panic ''Init process cannot call sys_exit!''))
              else case upd_task c (\<lambda>p. p\<lparr>exit_code := push_bit 8 code AND 0xFF00, state := EXIT_ZOMBIE\<rparr>) k of
                Inl e \<Rightarrow> Some (Inl e)
              | Inr k1 \<Rightarrow>
                  if list_head_empty (Children c) (links_of k1) then Some (exit_finish c k1)
                  else case init of
                    None \<Rightarrow> Some (Inl NullDeref)
                  | Some i \<Rightarrow>
                     (case adopt_loop c i (nxt (links_of k1) (Children c)) k1 of
                        None \<Rightarrow> None
                      | Some (Inl e) \<Rightarrow> Some (Inl e)
                      | Some (Inr k2) \<Rightarrow>
                          map_option (\<lambda>r. bindR r (\<lambda>ns. exit_finish c k2))
                            (list_for_each (links_of k2) (Children i)))))"

section \<open>Creation of processes\<close>

definition init_nodes :: "tid \<Rightarrow> node links \<Rightarrow> node links" where
  "init_nodes t l = list_head_init (Sibling t) (list_head_init (Children t) (list_head_init (RunList t) l))"

definition copy_stack :: "u32 \<Rightarrow> u32 \<Rightarrow> (u32 \<Rightarrow> u8) \<Rightarrow> u32 \<Rightarrow> u8" where
  "copy_stack dst src m = (\<lambda>a. if a - dst < DEFAULT_STACK_SIZE then m (src + (a - dst)) else m a)"

definition forked_thread :: "pt_regs \<Rightarrow> u32 \<Rightarrow> u32 \<Rightarrow> thread_struct \<Rightarrow> thread_struct" where
  "forked_thread r stack parent_stack th = th\<lparr>
     t_useresp := stack + (r_useresp r - parent_stack),
     t_ebp := stack + DEFAULT_STACK_SIZE,
     t_eip := r_eip r, t_eax := 0, t_ebx := r_ebx r, t_ecx := r_ecx r, t_edx := r_edx r,
     t_eflags := t_eflags th OR EFLAG_IF\<rparr>"

text \<open>
  \<open>new\<close> is the block that \<open>kmalloc\<close> returns for the task and \<open>img\<close>, \<open>stack\<close> the image and the start of
  its stack segment that \<open>create_process_image\<close> returns. The copied list nodes are initialised
  before they are read, so the copy of the links is left out.
\<close>

definition sys_vfork :: "tid \<Rightarrow> nat \<Rightarrow> u32 \<Rightarrow> pt_regs \<Rightarrow> kernel \<Rightarrow> (int \<times> kernel) res" where
  "sys_vfork new img stack r k =
     bindR (get_current k) (\<lambda>c.
     bindR (get_task k c) (\<lambda>cur.
     let (id, k) = get_new_pid k;
         child = cur\<lparr>pid := sint id,
           se := \<lparr>prio = DEFAULT_PRIO, start_runtime = 0, exec_start = 0, sum_exec_runtime = 0,
                  vruntime = vruntime (se cur)\<rparr>,
           mm := Some img\<rparr>;
         k = k\<lparr>images := (images k)(img \<mapsto> stack)\<rparr>
     in bindR (case mm cur of None \<Rightarrow> Inl NullDeref | Some i \<Rightarrow>
                 (case images k i of None \<Rightarrow> Inl NullDeref | Some s \<Rightarrow> Inr s)) (\<lambda>parent_stack.
        let k = k\<lparr>umem := copy_stack stack parent_stack (umem k)\<rparr>;
            child = child\<lparr>thread := forked_thread r stack parent_stack (thread child),
              state := TASK_RUNNING, parent := Some c\<rparr>;
            k = put_task new child k;
            k = k\<lparr>links_of := init_nodes new (links_of k)\<rparr>
        in bindR (with_links (list_head_add_tail (Children c) (Sibling new)) k) (\<lambda>k.
           bindR (enqueue_task new k) (\<lambda>k. Inr (pid child, k))))))"

text \<open>
  \<open>create_init_process\<close>: the block \<open>new\<close>, the image and its stack are those the allocators return,
  \<open>handler\<close> and \<open>entry\<close> the addresses of \<open>exit_handler\<close> and \<open>main_init\<close>. The block is zeroed
  first; the stack is zeroed and the address of the exit handler pushed on it.
\<close>

definition zero_thread :: thread_struct where
  "zero_thread = \<lparr>t_ebp = 0, t_useresp = 0, t_ebx = 0, t_edx = 0, t_ecx = 0, t_eax = 0, t_eip = 0,
     t_eflags = 0, t_gs = 0, t_fs = 0, t_es = 0, t_ds = 0, t_edi = 0, t_esi = 0,
     fpu_enabled = False, fpu_register = replicate 512 0\<rparr>"

definition fresh_entity :: sched_entity where
  "fresh_entity = \<lparr>prio = DEFAULT_PRIO, start_runtime = 0, exec_start = 0, sum_exec_runtime = 0,
     vruntime = 0\<rparr>"

definition store32 :: "u32 \<Rightarrow> u32 \<Rightarrow> (u32 \<Rightarrow> u8) \<Rightarrow> u32 \<Rightarrow> u8" where
  "store32 a v m = m(a := ucast v, a + 1 := ucast (drop_bit 8 v), a + 2 := ucast (drop_bit 16 v),
     a + 3 := ucast (drop_bit 24 v))"

definition clear_stack :: "u32 \<Rightarrow> (u32 \<Rightarrow> u8) \<Rightarrow> u32 \<Rightarrow> u8" where
  "clear_stack dst m = (\<lambda>a. if a - dst < DEFAULT_STACK_SIZE then 0 else m a)"

definition create_init_process ::
  "tid \<Rightarrow> nat \<Rightarrow> u32 \<Rightarrow> u32 \<Rightarrow> u32 \<Rightarrow> kernel \<Rightarrow> kernel res" where
  "create_init_process new img stack handler entry k =
     (let (id, k) = get_new_pid k;
          ebp = stack + DEFAULT_STACK_SIZE;
          esp = ebp - 4;
          k = k\<lparr>images := (images k)(img \<mapsto> stack),
                 umem := store32 esp handler (clear_stack stack (umem k)),
                 links_of := init_nodes new (links_of k)\<rparr>;
          p = \<lparr>pid = sint id, state = TASK_RUNNING, parent = None,
               thread = zero_thread\<lparr>t_useresp := esp, t_ebp := ebp, t_eip := entry,
                 t_eflags := t_eflags zero_thread OR EFLAG_IF\<rparr>,
               se = fresh_entity, exit_code = 0, name = ''init'', mm = Some img, cwd = [],
               resources = replicate TASK_RESOURCE_MAX_AMOUNT None\<rparr>
      in enqueue_task new (put_task new p k))"

text \<open>
  The working directory. \<open>sys_chdir\<close> copies the path into an array of \<open>PATH_MAX\<close> bytes without a
  check; a longer path is written past the array.
\<close>

definition sys_chdir :: "string option \<Rightarrow> kernel \<Rightarrow> kernel res" where
  "sys_chdir path k =
     (case (curr k, path) of
        (Some c, Some d) \<Rightarrow>
          if length d < PATH_MAX then upd_task c (\<lambda>p. p\<lparr>cwd := d\<rparr>) k else Inl OutOfBounds
      | _ \<Rightarrow> Inr k)"

definition get_current_dir_name :: "kernel \<Rightarrow> string res" where
  "get_current_dir_name k =
     (case curr k of None \<Rightarrow> Inr ''/'' | Some c \<Rightarrow> bindR (get_task k c) (\<lambda>p. Inr (cwd p)))"

end
