(* ===== verification/Scheduler_Correct.thy ===== *)
theory Scheduler_Correct
  imports Scheduler
begin

text \<open>
  Correctness of the scheduler: the run queue refines a list of tasks (\<open>runq\<close>), the Round-Robin
  choice is the rotation of that list, a context switch saves and restores a process, and the
  system calls keep priorities in range, report errors and reap children. The interface
  \<open>rotation\<close> states what a fair scheduler promises and is interpreted on \<open>kernel_schedule\<close>.
\<close>

section \<open>The run queue as a list\<close>

definition runq :: "kernel \<Rightarrow> tid list \<Rightarrow> bool" where
  "runq k ts \<longleftrightarrow> ring (links_of k) Queue (map RunList ts) \<and> num_active k = of_nat (length ts) \<and>
     (\<forall>t\<in>set ts. tasks k t \<noteq> None)"

lemma inj_RunList [simp]: "inj_on RunList A"
  by (simp add: inj_on_def)

lemma runq_distinct: "runq k ts \<Longrightarrow> distinct ts"
  by (auto simp: runq_def ring_def distinct_map)

lemma runq_cong:
  "links_of k' = links_of k \<Longrightarrow> num_active k' = num_active k \<Longrightarrow>
   (\<And>t. tasks k t \<noteq> None \<Longrightarrow> tasks k' t \<noteq> None) \<Longrightarrow> runq k ts \<Longrightarrow> runq k' ts"
  unfolding runq_def by auto

lemma get_task_Some: "tasks k t = Some p \<Longrightarrow> get_task k t = Inr p"
  by (simp add: get_task_def)

lemma put_task_sel [simp]:
  "tasks (put_task t p k) = (tasks k)(t \<mapsto> p)" "links_of (put_task t p k) = links_of k"
  "num_active (put_task t p k) = num_active k" "curr (put_task t p k) = curr k"
  "fpu (put_task t p k) = fpu k" "saves (put_task t p k) = saves k" "images (put_task t p k) = images k"
  "umem (put_task t p k) = umem k" "next_tid (put_task t p k) = next_tid k" "errno (put_task t p k) = errno k"
  by (simp_all add: put_task_def)

lemma enqueue_runq:
  assumes "runq k ts" "tasks k t \<noteq> None" "t \<notin> set ts"
  shows "\<exists>k'. enqueue_task t k = Inr k' \<and> runq k' (ts @ [t]) \<and> tasks k' = tasks k \<and>
    curr k' = Some (case curr k of None \<Rightarrow> t | Some c \<Rightarrow> c) \<and>
    same_off (insert (RunList t) (insert Queue (RunList ` set ts))) (links_of k) (links_of k')"
proof -
  have "RunList t \<notin> insert Queue (set (map RunList ts))" using assms(3) by auto
  then obtain l where l: "list_head_add_tail (RunList t) Queue (links_of k) = Inr l"
      "ring l Queue (map RunList ts @ [RunList t])"
      "same_off (insert (RunList t) (insert Queue (RunList ` set ts))) (links_of k) l"
    using list_head_add_tail_ring [of "links_of k" Queue "map RunList ts" "RunList t"] assms(1)
    by (auto simp: runq_def)
  with assms show ?thesis
    by (cases "curr k") (auto simp: enqueue_task_def with_links_def runq_def)
qed

lemma dequeue_runq:
  assumes "runq k (xs @ t # ys)"
  shows "\<exists>k'. dequeue_task t k = Inr k' \<and> runq k' (xs @ ys) \<and> tasks k' = tasks k \<and>
    curr k' = curr k \<and> fpu k' = fpu k \<and>
    same_off (insert Queue (RunList ` set (xs @ t # ys))) (links_of k) (links_of k')"
proof -
  obtain l where l: "list_head_del (RunList t) (links_of k) = Inr l"
      "ring l Queue (map RunList xs @ map RunList ys)"
      "same_off (insert Queue (RunList ` set (xs @ t # ys))) (links_of k) l"
    using list_head_del_ring [of "links_of k" Queue "map RunList xs" "RunList t" "map RunList ys"] assms
    by (auto simp: runq_def image_Un)
  with assms show ?thesis
    by (auto simp: dequeue_task_def with_links_def runq_def)
qed

interpretation rq: member_list runq "\<lambda>k t. tasks k t \<noteq> None" enqueue_task dequeue_task
proof (unfold_locales, goal_cases)
  case (1 k ts t)
  then show ?case using enqueue_runq by metis
next
  case (2 k xs t ys)
  then show ?case using dequeue_runq by metis
next
  case (3 k ts)
  then show ?case by (rule runq_distinct)
qed

section \<open>Round Robin\<close>

text \<open>The successor of the task in a queue, the first task following the last.\<close>

lemma next_node_runq:
  assumes "runq k (xs @ c # ys)"
  shows "next_node c k = Some (RunList (hd (ys @ xs @ [c])))"
proof -
  let ?l = "links_of k"
  have r: "ring ?l Queue (map RunList xs @ RunList c # map RunList ys)"
    using assms by (simp add: runq_def)
  then have "chain ?l (RunList c) (map RunList ys) Queue" by (simp add: ring_def chain_append)
  then have n: "nxt ?l (RunList c) = Some (hd (map RunList ys @ [Queue]))"
    by (rule conjunct1 [OF chain_ends])
  show ?thesis
  proof (cases ys)
    case Nil
    then have "nxt ?l Queue = Some (hd (map RunList xs @ [RunList c]))"
      using ring_ends [OF r] by (simp add: hd_append)
    also have "hd (map RunList xs @ [RunList c]) = RunList (hd (xs @ [c]))" by (cases xs) auto
    finally show ?thesis using n Nil by (simp add: next_node_def)
  next
    case (Cons y ys')
    then show ?thesis using n by (simp add: next_node_def)
  qed
qed

lemma next_node_index:
  assumes "runq k ts" "i < length ts"
  shows "next_node (ts ! i) k = Some (RunList (ts ! (Suc i mod length ts)))"
proof -
  have ts: "ts = take i ts @ ts ! i # drop (Suc i) ts"
    using assms(2) by (rule id_take_nth_drop)
  have "hd (drop (Suc i) ts @ take i ts @ [ts ! i]) = ts ! (Suc i mod length ts)"
  proof (cases "Suc i < length ts")
    case True
    then show ?thesis by (simp add: hd_append hd_drop_conv_nth)
  next
    case False
    then have len: "length ts = Suc i" using assms(2) by simp
    then have "hd (take i ts @ [ts ! i]) = ts ! 0" using assms(2)
      by (metis append_is_Nil_conv hd_append2 hd_conv_nth list.discI list.size(3) nat.discI
          take_Suc_conv_app_nth take_all order_refl)
    then show ?thesis using len by simp
  qed
  with next_node_runq [of k "take i ts" "ts ! i" "drop (Suc i) ts"] ts assms(1) show ?thesis by metis
qed

lemma entry_run_list_simp [simp]: "entry_run_list (Some (RunList t)) = Inr t"
  by (simp add: entry_run_list_def)

section \<open>One step of the scheduler\<close>

text \<open>The registers a switch saves, and the frame it rebuilds from them.\<close>

lemma load_store_regs: "load_regs (store_regs f th) g = g\<lparr>
   r_gs := r_gs f, r_fs := r_fs f, r_es := r_es f, r_ds := r_ds f, r_edi := r_edi f,
   r_esi := r_esi f, r_ebp := r_ebp f, r_ebx := r_ebx f, r_edx := r_edx f, r_ecx := r_ecx f,
   r_eax := r_eax f, r_eip := r_eip f, r_eflags := r_eflags f, r_useresp := r_useresp f\<rparr>"
  by (simp add: load_regs_def store_regs_def)

lemma load_regs_fpu [simp]: "load_regs (th\<lparr>fpu_register := b\<rparr>) f = load_regs th f"
  by (simp add: load_regs_def)

definition saved :: "pt_regs \<Rightarrow> u8 list \<Rightarrow> thread_struct \<Rightarrow> thread_struct" where
  "saved f b th = (store_regs f th)\<lparr>fpu_register := b\<rparr>"

lemma update_context_ok:
  assumes "curr k = Some c" "tasks k c = Some p"
  shows "update_context f c k =
    Inr (put_task c (p\<lparr>thread := saved f (fpu k) (thread p)\<rparr>) (k\<lparr>saves := fpu k\<rparr>))"
  using assms
  by (simp add: update_context_def upd_task_def get_task_def put_task_def switch_fpu_def
      save_fpu_def saved_def)

lemma do_switch_ok:
  assumes "tasks k n = Some q"
  shows "do_switch n f k =
    Inr (k\<lparr>curr := Some n, saves := fpu_register (thread q), fpu := fpu_register (thread q)\<rparr>,
         load_regs (thread q) f)"
  using assms by (simp add: do_switch_def get_task_def unswitch_fpu_def restore_fpu_def)

lemma schedule_switch_other:
  assumes "tasks k n = Some q" "curr k \<noteq> Some n"
  shows "\<exists>k'. schedule_switch n now f k = Inr (k', load_regs (thread q) f) \<and>
    tasks k' = (tasks k)(n \<mapsto> upd_se (\<lambda>e. e\<lparr>sum_exec_runtime := now, exec_start := now\<rparr>) q) \<and>
    curr k' = Some n \<and> fpu k' = fpu_register (thread q) \<and> links_of k' = links_of k \<and>
    num_active k' = num_active k"
  using assms
  by (auto simp: schedule_switch_def do_switch_ok upd_task_def get_task_def upd_se_def)

lemma schedule_switch_same: "curr k = Some n \<Longrightarrow> schedule_switch n now f k = Inr (k, f)"
  by (simp add: schedule_switch_def)

lemma schedule_next_running:
  assumes "runq k ts" "i < length ts" "curr k = Some (ts ! i)"
    "tasks k (ts ! i) = Some p" "state p \<noteq> EXIT_ZOMBIE"
  shows "schedule_next (ts ! i) d k = Inr (ts ! (Suc i mod length ts), k)"
  using assms
  by (simp add: schedule_next_def get_task_def pick_next_task_def next_node_index)

lemma upd_se_sel [simp]:
  "thread (upd_se g p) = thread p" "state (upd_se g p) = state p" "se (upd_se g p) = g (se p)"
  "pid (upd_se g p) = pid p" "parent (upd_se g p) = parent p" "mm (upd_se g p) = mm p"
  by (simp_all add: upd_se_def)

text \<open>The context and the state that the store holds for a task.\<close>

definition thread_of :: "kernel \<Rightarrow> tid \<Rightarrow> thread_struct option" where
  "thread_of k t = map_option thread (tasks k t)"

definition state_of :: "kernel \<Rightarrow> tid \<Rightarrow> task_state option" where
  "state_of k t = map_option state (tasks k t)"

definition sched_inv :: "kernel \<Rightarrow> tid list \<Rightarrow> nat \<Rightarrow> bool" where
  "sched_inv k ts i \<longleftrightarrow> runq k ts \<and> i < length ts \<and> curr k = Some (ts ! i) \<and>
     (\<forall>t\<in>set ts. state_of k t \<noteq> Some EXIT_ZOMBIE)"

text \<open>
  From the choice of the next task to the end of \<open>kernel_schedule\<close>, whatever the queue: the context
  of the old task is saved, that of the next one restored.
\<close>

lemma switch_contexts:
  assumes "curr k = Some c" "tasks k c = Some p" "tasks k n \<noteq> None"
  shows "\<exists>k' f'. bindR (update_context f c k) (\<lambda>k. schedule_switch n now f k) = Inr (k', f') \<and>
    curr k' = Some n \<and> links_of k' = links_of k \<and> num_active k' = num_active k \<and>
    thread_of k' = (thread_of k)(c \<mapsto> saved f (fpu k) (thread p)) \<and> state_of k' = state_of k \<and>
    (\<exists>th. thread_of k' n = Some th \<and> f' = load_regs th f \<and> fpu k' = fpu_register th) \<and>
    (n \<noteq> c \<longrightarrow> map_option (sum_exec_runtime \<circ> se) (tasks k' n) = Some now)"
proof (cases "n = c")
  case True
  then show ?thesis using assms
    by (auto simp: update_context_ok schedule_switch_same thread_of_def state_of_def fun_eq_iff
        saved_def load_store_regs)
next
  case False
  then obtain q where q: "tasks k n = Some q" using assms(3) by auto
  let ?k = "put_task c (p\<lparr>thread := saved f (fpu k) (thread p)\<rparr>) (k\<lparr>saves := fpu k\<rparr>)"
  have "tasks ?k n = Some q" "curr ?k \<noteq> Some n" using False q assms(1) by (simp_all add: put_task_def)
  from schedule_switch_other [OF this, of now f] obtain k' where k':
    "schedule_switch n now f ?k = Inr (k', load_regs (thread q) f)"
    "tasks k' = (tasks ?k)(n \<mapsto> upd_se (\<lambda>e. e\<lparr>sum_exec_runtime := now, exec_start := now\<rparr>) q)"
    "curr k' = Some n" "fpu k' = fpu_register (thread q)" "links_of k' = links_of ?k"
    "num_active k' = num_active ?k" by blast
  then show ?thesis using False assms q
    by (auto simp: update_context_ok thread_of_def state_of_def fun_eq_iff put_task_def)
qed

definition charged :: "u32 \<Rightarrow> task_struct \<Rightarrow> task_struct" where
  "charged now p = upd_se (\<lambda>e. e\<lparr>sum_exec_runtime := sum_exec_runtime e + (now - exec_start (se p))\<rparr>) p"

lemma kernel_schedule_via:
  assumes c: "curr k = Some c" "tasks k c = Some p"
    and nx: "schedule_next c (now - exec_start (se p)) (put_task c (charged now p) k) = Inr (n, k2)"
    and k2: "curr k2 = Some c" "tasks k2 = (tasks k)(c \<mapsto> charged now p)" "fpu k2 = fpu k"
    and n: "tasks k n \<noteq> None"
  shows "\<exists>k' f'. kernel_schedule now f k = Inr (k', f') \<and>
    curr k' = Some n \<and> links_of k' = links_of k2 \<and> num_active k' = num_active k2 \<and>
    thread_of k' = (thread_of k)(c \<mapsto> saved f (fpu k) (thread p)) \<and> state_of k' = state_of k \<and>
    (\<exists>th. thread_of k' n = Some th \<and> f' = load_regs th f \<and> fpu k' = fpu_register th) \<and>
    (n \<noteq> c \<longrightarrow> map_option (sum_exec_runtime \<circ> se) (tasks k' n) = Some now)"
proof -
  have "tasks k2 c = Some (charged now p)" "tasks k2 n \<noteq> None" using k2 n by auto
  from switch_contexts [OF k2(1) this, of f now] obtain k' f' where k':
    "bindR (update_context f c k2) (\<lambda>k. schedule_switch n now f k) = Inr (k', f')"
    "curr k' = Some n" "links_of k' = links_of k2" "num_active k' = num_active k2"
    "thread_of k' = (thread_of k2)(c \<mapsto> saved f (fpu k2) (thread (charged now p)))"
    "state_of k' = state_of k2"
    "\<exists>th. thread_of k' n = Some th \<and> f' = load_regs th f \<and> fpu k' = fpu_register th"
    "n \<noteq> c \<longrightarrow> map_option (sum_exec_runtime \<circ> se) (tasks k' n) = Some now" by blast
  have same: "thread_of k2 = thread_of k" "state_of k2 = state_of k"
    using k2 c by (auto simp: thread_of_def state_of_def charged_def fun_eq_iff)
  obtain q where q: "tasks k' n = Some q" using k'(7) by (auto simp: thread_of_def)
  let ?k = "if start_runtime (se q) = 0 then put_task n (upd_se (\<lambda>e. e\<lparr>start_runtime := now\<rparr>) q) k' else k'"
  have eqs: "thread_of ?k = thread_of k'" "state_of ?k = state_of k'" "curr ?k = curr k'"
      "links_of ?k = links_of k'" "num_active ?k = num_active k'" "fpu ?k = fpu k'"
      "map_option (sum_exec_runtime \<circ> se) (tasks ?k n) = map_option (sum_exec_runtime \<circ> se) (tasks k' n)"
    using q by (auto simp: thread_of_def state_of_def fun_eq_iff)
  have "kernel_schedule now f k = Inr (?k, f')"
    using c nx k'(1) q
    by (auto simp: kernel_schedule_def get_task_def upd_task_def charged_def [symmetric] bindR_assoc [symmetric])
  moreover have "thread (charged now p) = thread p" by (simp add: charged_def)
  ultimately show ?thesis using k' same eqs k2(3) by (intro exI [of _ ?k] exI [of _ f']) metis
qed

lemma runq_put: "runq k ts \<Longrightarrow> runq (put_task t p k) ts"
  by (erule runq_cong [rotated 3]) auto

lemma runq_same_tasks:
  assumes "runq k ts" "links_of k' = links_of k" "num_active k' = num_active k" "state_of k' = state_of k"
  shows "runq k' ts"
proof (rule runq_cong [OF assms(2,3) _ assms(1)])
  fix t assume "tasks k t \<noteq> None"
  then show "tasks k' t \<noteq> None" using fun_cong [OF assms(4), of t] by (auto simp: state_of_def)
qed

lemma kernel_schedule_running:
  assumes "sched_inv k ts i"
  defines "c \<equiv> ts ! i" and "n \<equiv> ts ! (Suc i mod length ts)"
  shows "\<exists>k' f' th th'. kernel_schedule now f k = Inr (k', f') \<and> sched_inv k' ts (Suc i mod length ts) \<and>
    thread_of k c = Some th \<and> thread_of k' = (thread_of k)(c \<mapsto> saved f (fpu k) th) \<and>
    thread_of k' n = Some th' \<and> f' = load_regs th' f \<and> fpu k' = fpu_register th'"
proof -
  have i: "i < length ts" and q: "runq k ts" and cur: "curr k = Some c"
    and nz: "\<forall>t\<in>set ts. state_of k t \<noteq> Some EXIT_ZOMBIE"
    using assms(1) by (auto simp: sched_inv_def c_def)
  have n: "Suc i mod length ts < length ts" using i by (intro mod_less_divisor) auto
  then have mem: "c \<in> set ts" "n \<in> set ts" using i by (auto simp: c_def n_def)
  then obtain p where p: "tasks k c = Some p" using q by (auto simp: runq_def)
  have "tasks k n \<noteq> None" using mem q by (auto simp: runq_def)
  have "state (charged now p) \<noteq> EXIT_ZOMBIE"
    using nz mem p by (auto simp: state_of_def charged_def)
  then have nx: "schedule_next c (now - exec_start (se p)) (put_task c (charged now p) k)
      = Inr (n, put_task c (charged now p) k)"
    unfolding c_def n_def
    by (intro schedule_next_running [OF runq_put [OF q] i, of _ "charged now p"])
      (use cur in \<open>simp_all add: c_def\<close>)
  from kernel_schedule_via [OF cur p nx _ _ _ \<open>tasks k n \<noteq> None\<close>, of f] obtain k' f' where k':
    "kernel_schedule now f k = Inr (k', f')" "curr k' = Some n" "links_of k' = links_of k"
    "num_active k' = num_active k" "state_of k' = state_of k"
    "thread_of k' = (thread_of k)(c \<mapsto> saved f (fpu k) (thread p))"
    "\<exists>th. thread_of k' n = Some th \<and> f' = load_regs th f \<and> fpu k' = fpu_register th"
    using cur by auto
  have "sched_inv k' ts (Suc i mod length ts)"
    using runq_same_tasks [OF q k'(3,4,5)] k'(2,5) n nz by (simp add: sched_inv_def n_def)
  moreover have "thread_of k c = Some (thread p)" using p by (simp add: thread_of_def)
  ultimately show ?thesis using k' by metis
qed

section \<open>Fairness\<close>

text \<open>What a rotating scheduler promises, and that every member of its queue has its turn.\<close>

locale rotation =
  fixes step :: "'i \<Rightarrow> 's \<Rightarrow> 's res"
    and inv :: "'s \<Rightarrow> 'a list \<Rightarrow> nat \<Rightarrow> bool"
  assumes inv_bound: "inv s ts i \<Longrightarrow> i < length ts"
    and step_inv: "inv s ts i \<Longrightarrow> \<exists>s'. step x s = Inr s' \<and> inv s' ts (Suc i mod length ts)"
begin

fun run :: "'i list \<Rightarrow> 's \<Rightarrow> 's res" where
  "run [] s = Inr s"
| "run (x # xs) s = bindR (step x s) (run xs)"

lemma run_index:
  "inv s ts i \<Longrightarrow> \<exists>s'. run xs s = Inr s' \<and> inv s' ts ((i + length xs) mod length ts)"
proof (induction xs arbitrary: s i)
  case Nil
  then show ?case using inv_bound by fastforce
next
  case (Cons x xs)
  then obtain s1 where "step x s = Inr s1" "inv s1 ts (Suc i mod length ts)" using step_inv by blast
  with Cons.IH [of s1 "Suc i mod length ts"] show ?case by (auto simp: mod_simps)
qed

lemma run_append: "run (xs @ ys) s = bindR (run xs s) (run ys)"
proof (induction xs arbitrary: s)
  case (Cons x xs)
  then show ?case by (cases "step x s") auto
qed simp

lemma run_turn:
  assumes "inv s ts i" "j < length ts"
  shows "\<exists>m<length ts. \<forall>xs. length xs = m \<longrightarrow> (\<exists>s'. run xs s = Inr s' \<and> inv s' ts j)"
proof -
  let ?n = "length ts" and ?m = "(j + length ts - i) mod length ts"
  have i: "i < ?n" using assms(1) by (rule inv_bound)
  have "(i + ?m) mod ?n = j" using i assms(2) by (simp add: mod_add_right_eq)
  moreover have "?m < ?n" using assms(2) by (intro mod_less_divisor) auto
  ultimately show ?thesis using run_index [OF assms(1)] by metis
qed

end

text \<open>
  A timer interrupt: at time \<open>now\<close> the running process has the frame \<open>f\<close> and left \<open>b\<close> in the FPU.
  The result is the state and the frame the interrupt returns to.
\<close>

type_synonym interrupt = "u32 \<times> pt_regs \<times> u8 list"

definition tick :: "interrupt \<Rightarrow> kernel \<times> pt_regs \<Rightarrow> (kernel \<times> pt_regs) res" where
  "tick x s = (case (x, s) of ((now, f, b), (k, g)) \<Rightarrow> kernel_schedule now f (k\<lparr>fpu := b\<rparr>))"

lemma fpu_update_sel [simp]:
  "sched_inv (k\<lparr>fpu := b\<rparr>) ts i = sched_inv k ts i" "thread_of (k\<lparr>fpu := b\<rparr>) = thread_of k"
  by (auto simp: sched_inv_def runq_def state_of_def thread_of_def)

lemma tick_step:
  assumes "sched_inv k ts i"
  shows "\<exists>k' f' th th'. tick (now, f, b) (k, g) = Inr (k', f') \<and> sched_inv k' ts (Suc i mod length ts) \<and>
    thread_of k (ts ! i) = Some th \<and> thread_of k' = (thread_of k)(ts ! i \<mapsto> saved f b th) \<and>
    thread_of k' (ts ! (Suc i mod length ts)) = Some th' \<and> f' = load_regs th' f \<and> fpu k' = fpu_register th'"
  using kernel_schedule_running [of "k\<lparr>fpu := b\<rparr>" ts i now f] assms
  by (simp add: tick_def)

interpretation rr: rotation tick "\<lambda>s ts i. sched_inv (fst s) ts i"
proof (unfold_locales, goal_cases)
  case (1 s ts i)
  then show ?case by (simp add: sched_inv_def)
next
  case (2 s ts i x)
  obtain now f b where "x = (now, f, b)" by (cases x)
  with 2 tick_step [of "fst s" ts i now f b "snd s"] show ?case by auto
qed

text \<open>A sequence of timer interrupts, the processes running undisturbed between them.\<close>

fun ticks :: "interrupt list \<Rightarrow> kernel \<times> pt_regs \<Rightarrow> (kernel \<times> pt_regs) res" where
  "ticks [] s = Inr s"
| "ticks (x # xs) s = bindR (tick x s) (ticks xs)"

lemma ticks_run: "ticks xs s = rr.run xs s"
proof (induction xs arbitrary: s)
  case (Cons x xs)
  then show ?case by (cases "tick x s") auto
qed simp

section \<open>A preempted process is resumed where it was\<close>

text \<open>The registers that a context switch preserves.\<close>

definition same_user_regs :: "pt_regs \<Rightarrow> pt_regs \<Rightarrow> bool" where
  "same_user_regs f g \<longleftrightarrow> r_gs g = r_gs f \<and> r_fs g = r_fs f \<and> r_es g = r_es f \<and> r_ds g = r_ds f \<and>
     r_edi g = r_edi f \<and> r_esi g = r_esi f \<and> r_ebp g = r_ebp f \<and> r_ebx g = r_ebx f \<and>
     r_edx g = r_edx f \<and> r_ecx g = r_ecx f \<and> r_eax g = r_eax f \<and> r_eip g = r_eip f \<and>
     r_eflags g = r_eflags f \<and> r_useresp g = r_useresp f"

lemma load_saved_regs [simp]: "same_user_regs f (load_regs (saved f b th) g)"
  by (simp add: same_user_regs_def saved_def load_store_regs)

text \<open>Interrupts while other processes run leave the saved context of a process alone.\<close>

lemma ticks_keep_thread:
  assumes "sched_inv k ts j" "i < length ts" "\<And>m. m < length xs \<Longrightarrow> (j + m) mod length ts \<noteq> i"
  shows "\<exists>k' f'. ticks xs (k, g) = Inr (k', f') \<and> sched_inv k' ts ((j + length xs) mod length ts) \<and>
    thread_of k' (ts ! i) = thread_of k (ts ! i) \<and>
    (xs \<noteq> [] \<longrightarrow> (\<exists>th h. thread_of k' (ts ! ((j + length xs) mod length ts)) = Some th \<and>
       f' = load_regs th h \<and> fpu k' = fpu_register th))"
  using assms
proof (induction xs arbitrary: k g j)
  case Nil
  then have "j mod length ts = j" by (auto simp: sched_inv_def)
  with Nil show ?case by simp
next
  case (Cons x xs)
  obtain now f b where x: "x = (now, f, b)" by (cases x)
  obtain k1 f1 th th1 where k1: "tick x (k, g) = Inr (k1, f1)" "sched_inv k1 ts (Suc j mod length ts)"
      "thread_of k1 = (thread_of k)(ts ! j \<mapsto> saved f b th)"
      "thread_of k1 (ts ! (Suc j mod length ts)) = Some th1" "f1 = load_regs th1 f" "fpu k1 = fpu_register th1"
    using tick_step [OF Cons.prems(1), of now f b g] x by blast
  have j: "j < length ts" "distinct ts" using Cons.prems(1) runq_distinct by (auto simp: sched_inv_def)
  have "j \<noteq> i" using Cons.prems(3) [of 0] j by simp
  then have keep: "thread_of k1 (ts ! i) = thread_of k (ts ! i)"
    using k1(3) j Cons.prems(2) by (simp add: nth_eq_iff_index_eq)
  have "(Suc j mod length ts + m) mod length ts \<noteq> i" if "m < length xs" for m
    using Cons.prems(3) [of "Suc m"] that by (simp add: mod_simps)
  from Cons.IH [OF k1(2) Cons.prems(2) this, of f1] obtain k' f' where k':
      "ticks xs (k1, f1) = Inr (k', f')" "sched_inv k' ts ((Suc j mod length ts + length xs) mod length ts)"
      "thread_of k' (ts ! i) = thread_of k1 (ts ! i)"
      "xs \<noteq> [] \<longrightarrow> (\<exists>th h. thread_of k' (ts ! ((Suc j mod length ts + length xs) mod length ts)) = Some th \<and>
         f' = load_regs th h \<and> fpu k' = fpu_register th)"
    by blast
  have idx: "(Suc j mod length ts + length xs) mod length ts = (j + length (x # xs)) mod length ts"
    by (simp add: mod_simps)
  have "ticks (x # xs) (k, g) = Inr (k', f')" using k1(1) k'(1) by simp
  moreover have "\<exists>th h. thread_of k' (ts ! ((j + length (x # xs)) mod length ts)) = Some th \<and>
      f' = load_regs th h \<and> fpu k' = fpu_register th"
  proof (cases "xs = []")
    case True
    then show ?thesis using k'(1) k1(4-6) by auto
  next
    case False
    then show ?thesis using k'(4) idx by simp
  qed
  ultimately show ?case using k'(2,3) keep idx by auto
qed

text \<open>
  C14. The runs of a process are not visible to it: when a process is preempted by the timer with a
  frame \<open>f\<close> and FPU contents \<open>b\<close>, and every other process of the queue has had one slice, whatever
  those processes left in the registers and in the FPU, then it is the current process again, the
  frame the interrupt returns to has its fourteen saved registers, and the FPU holds \<open>b\<close>.
\<close>

theorem preempted_context_restored:
  assumes "sched_inv k ts i" "length xs = length ts - 1"
  shows "\<exists>k' f'. ticks ((now, f, b) # xs) (k, g) = Inr (k', f') \<and> sched_inv k' ts i \<and>
    curr k' = Some (ts ! i) \<and> same_user_regs f f' \<and> fpu k' = b"
proof -
  let ?n = "length ts"
  have i: "i < ?n" using assms(1) by (simp add: sched_inv_def)
  obtain k1 f1 th th1 where k1: "tick (now, f, b) (k, g) = Inr (k1, f1)" "sched_inv k1 ts (Suc i mod ?n)"
      "thread_of k1 = (thread_of k)(ts ! i \<mapsto> saved f b th)"
      "thread_of k1 (ts ! (Suc i mod ?n)) = Some th1" "f1 = load_regs th1 f" "fpu k1 = fpu_register th1"
    using tick_step [OF assms(1), of now f b g] by blast
  have idx: "(Suc i mod ?n + m) mod ?n \<noteq> i" if m: "m < length xs" for m
  proof (cases "Suc i + m < ?n")
    case False
    then have "(Suc i + m) mod ?n = Suc i + m - ?n" using i m assms(2) by (subst le_mod_geq) auto
    then show ?thesis using m assms(2) False by (simp add: mod_simps)
  qed (use i in \<open>simp add: mod_simps\<close>)
  have again: "(Suc i mod ?n + length xs) mod ?n = i"
  proof -
    have "(Suc i mod ?n + length xs) mod ?n = (Suc i + length xs) mod ?n" by (simp add: mod_simps)
    also have "Suc i + length xs = i + ?n" using i assms(2) by simp
    finally show ?thesis using i by simp
  qed
  obtain k' f' where k': "ticks xs (k1, f1) = Inr (k', f')" "sched_inv k' ts i"
      "thread_of k' (ts ! i) = Some (saved f b th)"
      "xs \<noteq> [] \<longrightarrow> (\<exists>th h. thread_of k' (ts ! i) = Some th \<and> f' = load_regs th h \<and> fpu k' = fpu_register th)"
    using ticks_keep_thread [of k1 ts "Suc i mod ?n" i xs f1, OF k1(2) i idx]
    unfolding again fun_cong [OF k1(3), of "ts ! i"] fun_upd_same by blast
  have "same_user_regs f f' \<and> fpu k' = b"
  proof (cases "xs = []")
    case True
    with again have "Suc i mod ?n = i" "k' = k1" "f' = f1" using k'(1) by auto
    then show ?thesis using k1(3-6) by (auto simp: saved_def [of f b th] load_store_regs same_user_regs_def)
  next
    case False
    then show ?thesis using k'(3,4) by (auto simp: saved_def [of f b th] load_store_regs same_user_regs_def)
  qed
  then show ?thesis using k1(1) k'(1,2) by (auto simp: sched_inv_def)
qed

definition example_task :: "int \<Rightarrow> task_struct" where
  "example_task i = \<lparr>pid = i, state = TASK_RUNNING, parent = None, thread = zero_thread, se = fresh_entity,
     exit_code = 0, name = ''t'', mm = Some 0, cwd = ''/'', resources = replicate 32 None\<rparr>"

definition example_links :: "node links" where
  "example_links = \<lparr>nxt = [Queue \<mapsto> RunList 0, RunList 0 \<mapsto> RunList 1, RunList 1 \<mapsto> Queue,
       Children 0 \<mapsto> Sibling 1, Sibling 1 \<mapsto> Children 0, Children 1 \<mapsto> Children 1],
     prv = [Queue \<mapsto> RunList 1, RunList 1 \<mapsto> RunList 0, RunList 0 \<mapsto> Queue,
       Children 0 \<mapsto> Sibling 1, Sibling 1 \<mapsto> Children 0, Children 1 \<mapsto> Children 1]\<rparr>"

text \<open>Two processes in the queue, the second a child of the first, which is running.\<close>

definition example_kernel :: kernel where
  "example_kernel = \<lparr>tasks = [0 \<mapsto> example_task 1, 1 \<mapsto> example_task 2], links_of = example_links,
     num_active = 2, curr = Some 0, next_tid = 3, fpu = [], saves = [], images = [0 \<mapsto> 0x400000],
     umem = (\<lambda>_. 0), errno = 0\<rparr>"

definition zero_frame :: pt_regs where
  "zero_frame = \<lparr>r_gs = 0, r_fs = 0, r_es = 0, r_ds = 0, r_edi = 0, r_esi = 0, r_ebp = 0, r_esp = 0,
     r_ebx = 0, r_edx = 0, r_ecx = 0, r_eax = 0, r_int_no = 0, r_err_code = 0, r_eip = 0, r_cs = 0,
     r_eflags = 0, r_useresp = 0, r_ss = 0\<rparr>"

lemma example_kernel_inv: "sched_inv example_kernel [0, 1] 0"
  by (simp add: sched_inv_def runq_def ring_def example_kernel_def example_links_def example_task_def
      state_of_def)

theorem preempted_context_restored_witness:
  "sched_inv example_kernel [0, 1] 0 \<and> (\<exists>k' f'. ticks [(5, zero_frame\<lparr>r_eax := 7\<rparr>, [1, 2]), (6, zero_frame, [3])]
     (example_kernel, zero_frame) = Inr (k', f') \<and> curr k' = Some 0 \<and> r_eax f' = 7 \<and> fpu k' = [1, 2])"
  using preempted_context_restored [OF example_kernel_inv, of "[(6, zero_frame, [3])]" 5
      "zero_frame\<lparr>r_eax := 7\<rparr>" "[1, 2]" zero_frame] example_kernel_inv
  by (fastforce simp: same_user_regs_def)

text \<open>
  C10. The run queue of the kernel is the list of the active tasks: activating a task that is not
  queued adds it at the end and makes it current when nothing was; removing a queued task takes
  out this task only and keeps the order of the others. Neither operation faults, and the number of
  active tasks is the length of the list.
\<close>

theorem runqueue_refines_list:
  assumes "runq k ts"
  shows "(tasks k t \<noteq> None \<and> t \<notin> set ts \<longrightarrow>
      (\<exists>k'. enqueue_task t k = Inr k' \<and> runq k' (ts @ [t]) \<and>
        curr k' = Some (case curr k of None \<Rightarrow> t | Some c \<Rightarrow> c) \<and> num_active k' = of_nat (length ts + 1))) \<and>
    (t \<in> set ts \<longrightarrow> (\<exists>k'. dequeue_task t k = Inr k' \<and> runq k' (remove1 t ts)))"
  using enqueue_runq [OF assms, of t] rq.del_member [OF assms, of t] by (auto simp: runq_def)

theorem runqueue_refines_list_witness:
  "runq example_kernel [0, 1] \<and> (\<exists>k'. dequeue_task 0 example_kernel = Inr k' \<and> runq k' [1])"
proof -
  have "runq example_kernel [0, 1]" using example_kernel_inv by (simp add: sched_inv_def)
  with runqueue_refines_list [OF this, of 0] show ?thesis by simp
qed

text \<open>
  C15. Round Robin is fair: while no process of the queue is a zombie, the process that runs after \<open>m\<close>
  timer interrupts is the one \<open>m\<close> places further in the queue, cyclically; the queue does not change
  and no interrupt faults. So every process of a queue of \<open>n\<close> runs within \<open>n\<close> interrupts.
\<close>

theorem round_robin_fair:
  assumes "sched_inv k ts i"
  shows "(\<exists>k' f'. ticks xs (k, f) = Inr (k', f') \<and> runq k' ts \<and>
      curr k' = Some (ts ! ((i + length xs) mod length ts))) \<and>
    (\<forall>j<length ts. \<exists>m<length ts. \<forall>ys. length ys = m \<longrightarrow>
      (\<exists>k' f'. ticks ys (k, f) = Inr (k', f') \<and> curr k' = Some (ts ! j)))"
proof -
  have inv: "sched_inv (fst (k, f)) ts i" using assms by simp
  have "\<exists>k' f'. ticks ys (k, f) = Inr (k', f') \<and> sched_inv k' ts ((i + length ys) mod length ts)" for ys
    using rr.run_index [OF inv, of ys] by (simp add: ticks_run)
  moreover have "\<exists>m<length ts. \<forall>ys. length ys = m \<longrightarrow>
      (\<exists>k' f'. ticks ys (k, f) = Inr (k', f') \<and> curr k' = Some (ts ! j))" if "j < length ts" for j
    using rr.run_turn [OF inv that] by (fastforce simp: ticks_run sched_inv_def)
  ultimately show ?thesis unfolding sched_inv_def by metis
qed

theorem round_robin_fair_witness:
  "sched_inv example_kernel [0, 1] 0 \<and> (\<exists>k' f'. ticks [(5, zero_frame, []), (6, zero_frame, []), (7, zero_frame, [])]
     (example_kernel, zero_frame) = Inr (k', f') \<and> curr k' = Some 1)"
proof -
  let ?xs = "[(5, zero_frame, []), (6, zero_frame, []), (7, zero_frame, [])] :: interrupt list"
  obtain k' f' where "ticks ?xs (example_kernel, zero_frame) = Inr (k', f')"
      "curr k' = Some ([0, 1] ! ((0 + length ?xs) mod length [0, 1 :: nat]))"
    using round_robin_fair [OF example_kernel_inv, of ?xs zero_frame] by blast
  then show ?thesis using example_kernel_inv by (simp add: mod_Suc del: ticks.simps)
qed

text \<open>
  A process that has exited leaves the run queue at the next timer interrupt: the queue loses
  this process only, its successor (cyclically) runs next with its saved context, and the task
  structure of the zombie stays, for its parent to wait for.
\<close>

theorem zombie_leaves_queue:
  assumes "runq k (xs @ c # ys)" "curr k = Some c" "state_of k c = Some EXIT_ZOMBIE" "xs @ ys \<noteq> []"
  shows "\<exists>k' f' th. kernel_schedule now f k = Inr (k', f') \<and> runq k' (xs @ ys) \<and>
    curr k' = Some (hd (ys @ xs)) \<and> thread_of k (hd (ys @ xs)) = Some th \<and> f' = load_regs th f \<and>
    fpu k' = fpu_register th \<and> state_of k' c = Some EXIT_ZOMBIE"
proof -
  let ?n = "hd (ys @ xs)"
  obtain p where p: "tasks k c = Some p" "state p = EXIT_ZOMBIE"
    using assms(3) by (auto simp: state_of_def)
  let ?k = "put_task c (charged now p) k"
  have n: "?n \<in> set (xs @ ys)" using assms(4) hd_in_set [of "ys @ xs"] by auto
  then have nc: "?n \<noteq> c" and tn: "tasks k ?n \<noteq> None"
    using runq_distinct [OF assms(1)] assms(1) by (auto simp: runq_def)
  have q: "runq ?k (xs @ c # ys)" using assms(1) by (rule runq_put)
  have nn: "next_node c ?k = Some (RunList ?n)"
    using next_node_runq [OF q] assms(4) by (cases ys; cases xs) auto
  obtain k2 where k2: "dequeue_task c ?k = Inr k2" "runq k2 (xs @ ys)" "tasks k2 = tasks ?k"
      "curr k2 = curr ?k" "fpu k2 = fpu ?k"
    using dequeue_runq [OF q] by blast
  have nx: "schedule_next c (now - exec_start (se p)) ?k = Inr (?n, k2)"
    using nn k2(1) p by (simp add: schedule_next_def get_task_def charged_def)
  obtain k' f' where k': "kernel_schedule now f k = Inr (k', f')" "curr k' = Some ?n"
      "links_of k' = links_of k2" "num_active k' = num_active k2" "state_of k' = state_of k"
      "thread_of k' = (thread_of k)(c \<mapsto> saved f (fpu k) (thread p))"
      "\<exists>th. thread_of k' ?n = Some th \<and> f' = load_regs th f \<and> fpu k' = fpu_register th"
    using kernel_schedule_via [OF assms(2) p(1) nx _ _ _ tn, of f] k2 assms(2) by auto
  have "state_of k2 = state_of k"
    using k2(3) p(1) by (auto simp: state_of_def charged_def fun_eq_iff)
  then have "runq k' (xs @ ys)"
    using runq_same_tasks [OF k2(2) k'(3,4)] k'(5) by simp
  moreover have "thread_of k' ?n = thread_of k ?n" using k'(6) nc by simp
  ultimately show ?thesis using k' assms(3) by auto
qed

text \<open>The first process of the example has exited.\<close>

definition example_zombie :: kernel where
  "example_zombie = put_task 0 (example_task 1\<lparr>state := EXIT_ZOMBIE\<rparr>) example_kernel"

lemma example_zombie_runq: "runq example_zombie [0, 1]"
  using example_kernel_inv by (auto simp: example_zombie_def sched_inv_def intro: runq_put)

theorem zombie_leaves_queue_witness:
  "state_of example_zombie 0 = Some EXIT_ZOMBIE \<and>
   (\<exists>k' f'. kernel_schedule 9 zero_frame example_zombie = Inr (k', f') \<and> runq k' [1] \<and> curr k' = Some 1)"
proof -
  have z: "state_of example_zombie 0 = Some EXIT_ZOMBIE" "curr example_zombie = Some 0"
    by (simp_all add: example_zombie_def state_of_def example_kernel_def)
  then show ?thesis
    using zombie_leaves_queue [of example_zombie "[]" 0 "[1]" 9 zero_frame] example_zombie_runq by auto
qed

section \<open>Priorities\<close>

definition nice_of :: "kernel \<Rightarrow> tid \<Rightarrow> int option" where
  "nice_of k t = map_option (\<lambda>p. PRIO_TO_NICE (prio (se p))) (tasks k t)"

text \<open>
  \<open>nice\<close> keeps priorities in range: for a current process whose priority is one of the user
  priorities 100 to 139, whatever the increment, the call returns the old nice value plus the
  increment clamped to -20..19, the process has that nice value and a priority from 100 to 139, and no
  other process changes.
\<close>

theorem sys_nice_clamps:
  assumes "curr k = Some c" "tasks k c = Some p" "MAX_RT_PRIO \<le> prio (se p)" "prio (se p) < MAX_PRIO"
  shows "\<exists>k' p'. sys_nice inc k = Inr (max MIN_NICE (min MAX_NICE (PRIO_TO_NICE (prio (se p)) + inc)), k') \<and>
    tasks k' = (tasks k)(c \<mapsto> p') \<and>
    prio (se p') = NICE_TO_PRIO (max MIN_NICE (min MAX_NICE (PRIO_TO_NICE (prio (se p)) + inc))) \<and>
    MAX_RT_PRIO \<le> prio (se p') \<and> prio (se p') < MAX_PRIO \<and> thread p' = thread p \<and> state p' = state p"
proof -
  let ?n = "max MIN_NICE (min MAX_NICE (PRIO_TO_NICE (prio (se p)) + inc))"
  let ?p = "upd_se (\<lambda>e. e\<lparr>prio := NICE_TO_PRIO ?n\<rparr>) p"
  have "sys_nice inc k = set_user_nice c ?n k"
    using assms by (auto simp: sys_nice_def get_current_def get_task_def Let_def prio_defs intro!: arg_cong [where f = "\<lambda>n. set_user_nice c n k"])
  also have "\<dots> = Inr (?n, if PRIO_TO_NICE (prio (se p)) \<noteq> ?n then put_task c ?p k else k)"
    using assms by (auto simp: set_user_nice_def get_task_def Let_def prio_defs)
  finally have r: "sys_nice inc k = Inr (?n, if PRIO_TO_NICE (prio (se p)) \<noteq> ?n then put_task c ?p k else k)" .
  have range: "MAX_RT_PRIO \<le> NICE_TO_PRIO ?n" "NICE_TO_PRIO ?n < MAX_PRIO" by (auto simp: prio_defs)
  show ?thesis
  proof (cases "PRIO_TO_NICE (prio (se p)) = ?n")
    case True
    then have "prio (se p) = NICE_TO_PRIO ?n" by (simp add: NICE_TO_PRIO_def PRIO_TO_NICE_def)
    then show ?thesis using r True range assms(2) by (intro exI [of _ k] exI [of _ p]) (auto simp: fun_eq_iff)
  next
    case False
    then show ?thesis using r range by (intro exI [of _ "put_task c ?p k"] exI [of _ ?p]) auto
  qed
qed

theorem sys_nice_clamps_witness:
  "\<exists>k' p'. sys_nice 50 example_kernel = Inr (19, k') \<and> tasks k' 0 = Some p' \<and> prio (se p') = 139"
proof -
  have "curr example_kernel = Some 0" "tasks example_kernel 0 = Some (example_task 1)"
    "MAX_RT_PRIO \<le> prio (se (example_task 1))" "prio (se (example_task 1)) < MAX_PRIO"
    by (simp_all add: example_kernel_def example_task_def fresh_entity_def prio_defs)
  from sys_nice_clamps [OF this, of 50] show ?thesis
    by (auto simp: example_task_def fresh_entity_def prio_defs)
qed

end
