(* ===== verification/Process_Calls.thy ===== *)
theory Process_Calls
  imports Scheduler_Correct
begin

text \<open>
  The system calls on families of processes, over the definitions of \<open>Scheduler\<close>: what
  \<open>sys_waitpid\<close> reaps and which calls it refuses, what a process created by \<open>sys_vfork\<close> looks
  like, what \<open>sys_exit\<close> leaves, and what the two calls do to the lists of children.
\<close>

section \<open>The children of a process\<close>

definition children :: "kernel \<Rightarrow> tid \<Rightarrow> tid list \<Rightarrow> bool" where
  "children k c cs \<longleftrightarrow> ring (links_of k) (Children c) (map Sibling cs) \<and> (\<forall>t\<in>set cs. tasks k t \<noteq> None)"


lemma find_map: "List.find P (map f xs) = map_option f (List.find (P \<circ> f) xs)"
  by (induction xs) auto

lemma find_cong: "(\<And>x. x \<in> set xs \<Longrightarrow> P x = Q x) \<Longrightarrow> List.find P xs = List.find Q xs"
  by (induction xs) auto


lemma find_member: "List.find P xs = Some x \<Longrightarrow> x \<in> set xs \<and> P x"
  by (auto simp: find_Some_iff)

text \<open>
  The calls of \<open>waitpid\<close> that are accepted: for any child or for a process other than the caller, without
  options or with \<open>WNOHANG\<close>, and with a place for the status.
\<close>

definition valid_wait :: "int \<Rightarrow> bool \<Rightarrow> int \<Rightarrow> int \<Rightarrow> bool" where
  "valid_wait p status options own \<longleftrightarrow> (p = -1 \<or> 0 < p) \<and> p \<noteq> own \<and> options \<in> {0, WNOHANG} \<and> status"


lemma sys_waitpid_refused:
  assumes "curr k = Some c" "tasks k c = Some q" "\<not> valid_wait p status options (pid q)"
  shows "\<exists>e\<in>{ESRCH, ECHILD, EINVAL, EFAULT}. sys_waitpid p status options k = Some (Inr (-1, None, k\<lparr>errno := e\<rparr>))"
proof -
  consider "p < -1 \<or> p = 0" | "\<not> (p < -1 \<or> p = 0)" "p = pid q" | "\<not> (p < -1 \<or> p = 0)" "p \<noteq> pid q" "options \<notin> {0, WNOHANG}"
    | "\<not> (p < -1 \<or> p = 0)" "p \<noteq> pid q" "options \<in> {0, WNOHANG}" "\<not> status"
    using assms(3) unfolding valid_wait_def by linarith
  then show ?thesis by cases (use assms(1,2) in \<open>simp_all add: sys_waitpid_def\<close>)
qed

text \<open>The process group of the caller, \<open>pid\<close> 0, is refused.\<close>

lemma sys_waitpid_group_refused:
  "curr k = Some c \<Longrightarrow> sys_waitpid 0 status options k = Some (Inr (-1, None, k\<lparr>errno := ESRCH\<rparr>))"
  by (simp add: sys_waitpid_def)






section \<open>Adding a list head to a node\<close>

text \<open>
  \<open>list_head_add_tail(&parent->children, &child->sibling)\<close>: the two calls in \<open>sys_vfork\<close> and \<open>sys_exit\<close>
  pass the head of the list as the new element. The links of the head are overwritten, so the list
  is the new child alone, whatever it was before.
\<close>

lemma swapped_add_tail:
  assumes "ring l (Sibling t) []"
  shows "\<exists>l'. list_head_add_tail (Children c) (Sibling t) l = Inr l' \<and> ring l' (Children c) [Sibling t] \<and>
    same_off {Children c, Sibling t} l l'"
proof -
  obtain l' where l': "list_head_add_tail (Children c) (Sibling t) l = Inr l'"
      "ring l' (Sibling t) [Children c]" "same_off {Children c, Sibling t} l l'"
    using list_head_add_tail_ring [OF assms, of "Children c"] by auto
  moreover have "ring l' (Children c) [Sibling t]" using l'(2) by (auto simp: ring_def)
  ultimately show ?thesis by blast
qed

lemma same_off_trans: "same_off S l l' \<Longrightarrow> same_off S l' l'' \<Longrightarrow> same_off S l l''"
  by (auto simp: same_off_def)

lemma same_off_mono: "same_off S l l' \<Longrightarrow> S \<subseteq> T \<Longrightarrow> same_off T l l'"
  by (auto simp: same_off_def)

section \<open>vfork\<close>







section \<open>exit\<close>

lemma running_process_find:
  assumes "runq k ts"
  shows "kernel_get_running_process p k =
    Some (Inr (List.find (\<lambda>t. map_option pid (tasks k t) = Some p) ts))"
proof -
  let ?P = "\<lambda>t. map_option pid (tasks k t) = Some p"
  have ex: "\<forall>t\<in>set ts. tasks k t \<noteq> None" and r: "ring (links_of k) Queue (map RunList ts)"
    using assms by (auto simp: runq_def)
  have "List.find (has_pid p k \<circ> RunList) ts = List.find ?P ts"
    by (rule find_cong) (use ex in \<open>auto simp: has_pid_def\<close>)
  moreover have "tasks k t \<noteq> None" if "List.find ?P ts = Some t" for t
    using find_member [OF that] ex by blast
  ultimately show ?thesis
    by (auto simp: kernel_get_running_process_def list_for_each_find_ring [OF r] find_map get_task_def
        split: option.splits)
qed

text \<open>One step of the loop that moves children: the first child goes to \<open>init\<close>, as its only child.\<close>

lemma adopt_first:
  assumes "children k c (t # cs)" "i \<noteq> c"
  shows "\<exists>k'. adopt t i k = Inr (Some (Children c), k') \<and> children k' c cs \<and> children k' i [t] \<and>
    tasks k' = (tasks k)(t := map_option (\<lambda>p. p\<lparr>parent := Some i\<rparr>) (tasks k t)) \<and>
    curr k' = curr k \<and> images k' = images k \<and> num_active k' = num_active k \<and>
    same_off (insert (Children c) (insert (Children i) (Sibling ` set (t # cs)))) (links_of k) (links_of k')"
proof -
  have r: "ring (links_of k) (Children c) ([] @ Sibling t # map Sibling cs)"
    and ex: "\<forall>u\<in>set (t # cs). tasks k u \<noteq> None"
    using assms(1) by (auto simp: children_def)
  then obtain q where q: "tasks k t = Some q" by auto
  have t: "t \<notin> set cs" using r by (auto simp: ring_def)
  have prv: "prv (links_of k) (Sibling t) = Some (Children c)" using r by (simp add: ring_def)
  obtain l where l: "list_head_del (Sibling t) (links_of k) = Inr l"
      "ring l (Children c) (map Sibling cs)" "ring l (Sibling t) []"
      "same_off (insert (Children c) (set (map Sibling (t # cs)))) (links_of k) l"
    using list_head_del_ring [OF r] by auto
  obtain l' where l': "list_head_add_tail (Children i) (Sibling t) l = Inr l'"
      "ring l' (Children i) [Sibling t]" "same_off {Children i, Sibling t} l l'"
    using swapped_add_tail [OF l(3), of i] by blast
  have rc: "ring l' (Children c) (map Sibling cs)"
    by (rule ring_same_off [OF l(2) l'(3)]) (use t assms(2) in auto)
  have "same_off (insert (Children c) (insert (Children i) (Sibling ` set (t # cs)))) (links_of k) l'"
    by (rule same_off_trans [OF same_off_mono [OF l(4)] same_off_mono [OF l'(3)]]) auto
  with l l' rc prv q ex t show ?thesis
    by (auto simp: adopt_def with_links_def upd_task_def get_task_def put_task_def children_def fun_eq_iff)
qed

lemma adopt_loop_children:
  assumes "children k c cs" "i \<noteq> c" "cs \<noteq> []"
  shows "\<exists>k'. adopt_loop c i (nxt (links_of k) (Children c)) k = Some (Inr k') \<and> children k' c [] \<and>
    children k' i [last cs] \<and> curr k' = curr k \<and> images k' = images k \<and> num_active k' = num_active k \<and>
    tasks k' = (\<lambda>t. if t \<in> set cs then map_option (\<lambda>p. p\<lparr>parent := Some i\<rparr>) (tasks k t) else tasks k t) \<and>
    same_off (insert (Children c) (insert (Children i) (Sibling ` set cs))) (links_of k) (links_of k')"
  using assms
proof (induction cs arbitrary: k)
  case (Cons t cs)
  have n: "nxt (links_of k) (Children c) = Some (Sibling t)"
    using Cons.prems(1) by (simp add: children_def ring_def)
  obtain k1 where k1: "adopt t i k = Inr (Some (Children c), k1)" "children k1 c cs" "children k1 i [t]"
      "tasks k1 = (tasks k)(t := map_option (\<lambda>p. p\<lparr>parent := Some i\<rparr>) (tasks k t))"
      "curr k1 = curr k" "images k1 = images k" "num_active k1 = num_active k"
      "same_off (insert (Children c) (insert (Children i) (Sibling ` set (t # cs)))) (links_of k) (links_of k1)"
    using adopt_first [OF Cons.prems(1,2)] by blast
  have t: "t \<notin> set cs" using Cons.prems(1) by (auto simp: children_def ring_def)
  have step: "adopt_loop c i (nxt (links_of k) (Children c)) k =
      adopt_loop c i (nxt (links_of k1) (Children c)) k1"
    using n k1(1) by (subst adopt_loop.simps) (simp add: entry_sibling_def)
  show ?case
  proof (cases "cs = []")
    case True
    then have "nxt (links_of k1) (Children c) = Some (Children c)" using k1(2) by (simp add: children_def)
    then have "adopt_loop c i (nxt (links_of k1) (Children c)) k1 = Some (Inr k1)"
      by (simp add: adopt_loop.simps)
    with step True k1 show ?thesis by (intro exI [of _ k1]) (auto simp: fun_eq_iff)
  next
    case False
    obtain k' where k': "adopt_loop c i (nxt (links_of k1) (Children c)) k1 = Some (Inr k')"
        "children k' c []" "children k' i [last cs]" "curr k' = curr k1" "images k' = images k1"
        "num_active k' = num_active k1"
        "tasks k' = (\<lambda>t. if t \<in> set cs then map_option (\<lambda>p. p\<lparr>parent := Some i\<rparr>) (tasks k1 t) else tasks k1 t)"
        "same_off (insert (Children c) (insert (Children i) (Sibling ` set cs))) (links_of k1) (links_of k')"
      using Cons.IH [OF k1(2) Cons.prems(2) False] by blast
    have "same_off (insert (Children c) (insert (Children i) (Sibling ` set (t # cs)))) (links_of k) (links_of k')"
      by (rule same_off_trans [OF k1(8) same_off_mono [OF k'(8)]]) auto
    moreover have "tasks k' = (\<lambda>u. if u \<in> set (t # cs) then map_option (\<lambda>p. p\<lparr>parent := Some i\<rparr>) (tasks k u)
        else tasks k u)" using k'(7) k1(4) t by (auto simp: fun_eq_iff)
    ultimately show ?thesis using step False k' k1(5-7) by (intro exI [of _ k']) auto
  qed
qed simp

lemma exit_finish_ok:
  assumes "tasks k c = Some q" "mm q = Some m"
  shows "exit_finish c k = Inr (put_task c (q\<lparr>resources := replicate TASK_RESOURCE_MAX_AMOUNT None\<rparr>)
    (k\<lparr>images := (images k)(m := None)\<rparr>))"
  using assms by (simp add: exit_finish_def get_task_def destroy_image_def upd_task_def)

lemma children_cong:
  "children k c cs \<Longrightarrow> links_of k' = links_of k \<Longrightarrow> (\<And>t. tasks k t \<noteq> None \<Longrightarrow> tasks k' t \<noteq> None) \<Longrightarrow>
   children k' c cs"
  unfolding children_def by auto

text \<open>What \<open>sys_exit\<close> has done to the task of the caller before the children are moved.\<close>

definition exited :: "u32 \<Rightarrow> task_struct \<Rightarrow> task_struct" where
  "exited code q = q\<lparr>exit_code := push_bit 8 code AND 0xFF00, state := EXIT_ZOMBIE\<rparr>"

lemma exited_sel [simp]: "mm (exited code q) = mm q" "state (exited code q) = EXIT_ZOMBIE"
  "exit_code (exited code q) = push_bit 8 code AND 0xFF00"
  by (simp_all add: exited_def)

lemma sys_exit_moves_children:
  assumes q: "runq k ts" and cur: "curr k = Some c" and tc: "tasks k c = Some q" and m: "mm q = Some m"
    and init: "List.find (\<lambda>t. map_option pid (tasks k t) = Some 1) ts = Some i" "i \<noteq> c"
    and ch: "children k c cs" "c \<notin> set cs"
  shows "\<exists>k1. sys_exit code k = Some (exit_finish c k1) \<and> runq k1 ts \<and> curr k1 = Some c \<and>
    tasks k1 c = Some (exited code q) \<and> images k1 = images k \<and> children k1 c [] \<and>
    (cs \<noteq> [] \<longrightarrow> children k1 i [last cs]) \<and>
    (\<forall>t\<in>set cs. map_option parent (tasks k1 t) = Some (Some i))"
proof -
  let ?k = "put_task c (exited code q) k"
  have up: "upd_task c (\<lambda>p. p\<lparr>exit_code := push_bit 8 code AND 0xFF00, state := EXIT_ZOMBIE\<rparr>) k = Inr ?k"
    using tc by (simp add: upd_task_def get_task_def exited_def)
  have run: "kernel_get_running_process 1 k = Some (Inr (Some i))"
    using running_process_find [OF q] init by simp
  have ch': "children ?k c cs" by (rule children_cong [OF ch(1)]) auto
  have q': "runq ?k ts" using q by (rule runq_put)
  show ?thesis
  proof (cases "cs = []")
    case True
    then have "list_head_empty (Children c) (links_of ?k)"
      using ch' by (simp add: children_def list_head_empty_def)
    then have "sys_exit code k = Some (exit_finish c ?k)"
      using cur run init(2) up by (simp add: sys_exit_def)
    then show ?thesis using True ch' q' cur by (intro exI [of _ ?k]) auto
  next
    case False
    have ne: "\<not> list_head_empty (Children c) (links_of ?k)"
      using False list_head_empty_ring [of "links_of ?k" "Children c" "map Sibling cs"] ch' by (simp add: children_def)
    obtain k1 where k1: "adopt_loop c i (nxt (links_of ?k) (Children c)) ?k = Some (Inr k1)"
        "children k1 c []" "children k1 i [last cs]" "curr k1 = curr ?k" "images k1 = images ?k"
        "tasks k1 = (\<lambda>t. if t \<in> set cs then map_option (\<lambda>p. p\<lparr>parent := Some i\<rparr>) (tasks ?k t) else tasks ?k t)"
        "same_off (insert (Children c) (insert (Children i) (Sibling ` set cs))) (links_of ?k) (links_of k1)"
        "num_active k1 = num_active ?k"
      using adopt_loop_children [OF ch' init(2) False] by blast
    have print: "list_for_each (links_of k1) (Children i) = Some (Inr [Sibling (last cs)])"
      using k1(3) list_for_each_ring by (fastforce simp: children_def)
    have "sys_exit code k = Some (exit_finish c k1)"
      using cur run init(2) up ne k1(1) print by (simp add: sys_exit_def)
    moreover have "ring (links_of k1) Queue (map RunList ts)"
      by (rule ring_same_off [OF _ k1(7)]) (use q' in \<open>auto simp: runq_def\<close>)
    then have "runq k1 ts" using q' k1(6,8) by (auto simp: runq_def)
    moreover have "\<forall>t\<in>set cs. map_option parent (tasks k1 t) = Some (Some i)"
      using k1(6) ch' by (auto simp: children_def)
    ultimately show ?thesis using k1 cur ch(2) by (intro exI [of _ k1]) auto
  qed
qed

text \<open>
  C17. Exit of a process that has an image and is not \<open>init\<close>, which is in the run queue: the call returns (the loop over the children ends, no
  pointer is null), the caller is a zombie whose exit code has the low byte of the argument in bits 8
  to 15, its image is destroyed, its resources are dropped, it stays queued until the next interrupt,
  every child has \<open>init\<close> as its parent, and the list of its children is empty. The list of children of
  \<open>init\<close> is then the last of the moved children alone.
\<close>

theorem sys_exit_zombie:
  assumes "runq k ts" "curr k = Some c" "tasks k c = Some q" "mm q = Some m"
    "List.find (\<lambda>t. map_option pid (tasks k t) = Some 1) ts = Some i" "i \<noteq> c"
    "children k c cs" "c \<notin> set cs"
  shows "\<exists>k' p. sys_exit code k = Some (Inr k') \<and> runq k' ts \<and> curr k' = Some c \<and>
    tasks k' c = Some p \<and> state p = EXIT_ZOMBIE \<and> exit_code p = push_bit 8 (code AND 0xFF) \<and>
    resources p = replicate 32 None \<and> images k' m = None \<and> children k' c [] \<and>
    (\<forall>t\<in>set cs. map_option parent (tasks k' t) = Some (Some i)) \<and>
    (cs \<noteq> [] \<longrightarrow> children k' i [last cs])"
proof -
  obtain k1 where k1: "sys_exit code k = Some (exit_finish c k1)" "runq k1 ts" "curr k1 = Some c"
      "tasks k1 c = Some (exited code q)" "children k1 c []" "cs \<noteq> [] \<longrightarrow> children k1 i [last cs]"
      "\<forall>t\<in>set cs. map_option parent (tasks k1 t) = Some (Some i)"
    using sys_exit_moves_children [OF assms, of code] by blast
  let ?p = "(exited code q)\<lparr>resources := replicate TASK_RESOURCE_MAX_AMOUNT None\<rparr>"
  let ?k = "put_task c ?p (k1\<lparr>images := (images k1)(m := None)\<rparr>)"
  have fin: "exit_finish c k1 = Inr ?k" using exit_finish_ok [OF k1(4)] assms(4) by simp
  have keep: "children k1 d ds \<Longrightarrow> children ?k d ds" for d ds by (erule children_cong) (auto simp: put_task_def)
  have "runq ?k ts" by (rule runq_cong [OF _ _ _ k1(2)]) (auto simp: put_task_def)
  moreover have "push_bit 8 code AND 0xFF00 = push_bit 8 (code AND 0xFF)"
    by (simp add: push_bit_and)
  ultimately show ?thesis using k1 fin keep assms(8)
    by (intro exI [of _ ?k] exI [of _ ?p]) (auto simp: put_task_def TASK_RESOURCE_MAX_AMOUNT_def)
qed

text \<open>The example with its second process running, which has a child of its own.\<close>

definition example_family :: kernel where
  "example_family = put_task 2 (example_task 3\<lparr>parent := Some 1\<rparr>) (example_kernel\<lparr>curr := Some 1,
     links_of := \<lparr>nxt = (nxt example_links)(Children 1 \<mapsto> Sibling 2, Sibling 2 \<mapsto> Children 1),
                  prv = (prv example_links)(Children 1 \<mapsto> Sibling 2, Sibling 2 \<mapsto> Children 1)\<rparr>\<rparr>)"

theorem sys_exit_zombie_witness:
  "\<exists>k' p. sys_exit 7 example_family = Some (Inr k') \<and> tasks k' 1 = Some p \<and> exit_code p = 0x700 \<and>
     children k' 0 [2]"
proof -
  have "runq example_family [0, 1]" "curr example_family = Some 1"
    "tasks example_family 1 = Some (example_task 2)" "mm (example_task 2) = Some 0"
    "List.find (\<lambda>t. map_option pid (tasks example_family t) = Some 1) [0, 1] = Some 0"
    "(0 :: nat) \<noteq> 1" "children example_family 1 [2]" "(1 :: nat) \<notin> set [2]"
    by (simp_all add: example_family_def example_kernel_def example_links_def example_task_def runq_def
        children_def ring_def put_task_def)
  from sys_exit_zombie [OF this, where code = "7"] show ?thesis by auto
qed

end
