(* ===== verification/Resource.thy ===== *)
theory Resource
  imports Scheduler_Correct Deadlock
begin

text \<open>
  The resources of \<open>src/experimental/resource.c\<close> (structures in \<open>inc/experimental/resource.h\<close>): their
  creation, destruction and assignment, and the construction of the matrices of the deadlock
  prevention from the run queue and the list of resources. Resources live in a store indexed by
  their address; the list of resources is a list head of its own. Loops whose body does not change
  the list run over the nodes that \<open>list_for_each\<close> visits.
\<close>

section \<open>Data\<close>

record resource =
  rid :: u32
  n_instances :: u32
  category :: string
  assigned_task :: "tid option"
  assigned_instances :: u32

datatype rnode = RHead | RNode nat

record rstate =
  kern :: kernel
  res_of :: "nat \<Rightarrow> resource option"
  rlinks :: "rnode links"
  r_active :: u32

definition get_resource :: "rstate \<Rightarrow> nat \<Rightarrow> resource res" where
  "get_resource s r = (case res_of s r of None \<Rightarrow> Inl NullDeref | Some x \<Rightarrow> Inr x)"

definition put_resource :: "nat \<Rightarrow> resource \<Rightarrow> rstate \<Rightarrow> rstate" where
  "put_resource r x s = s\<lparr>res_of := (res_of s)(r \<mapsto> x)\<rparr>"

definition upd_resource :: "nat \<Rightarrow> (resource \<Rightarrow> resource) \<Rightarrow> rstate \<Rightarrow> rstate res" where
  "upd_resource r g s = bindR (get_resource s r) (\<lambda>x. Inr (put_resource r (g x) s))"

text \<open>The entries that a traversal of the run queue and of the list of resources visits.\<close>

definition entry_resource :: "rnode \<Rightarrow> nat res" where
  "entry_resource n = (case n of RNode r \<Rightarrow> Inr r | RHead \<Rightarrow> Inl OutOfBounds)"

fun mapR :: "('a \<Rightarrow> 'b res) \<Rightarrow> 'a list \<Rightarrow> 'b list res" where
  "mapR f [] = Inr []"
| "mapR f (x # xs) = bindR (f x) (\<lambda>y. bindR (mapR f xs) (\<lambda>ys. Inr (y # ys)))"

definition visit :: "'n links \<Rightarrow> 'n \<Rightarrow> ('n \<Rightarrow> 'b res) \<Rightarrow> 'b list res option" where
  "visit l h entry = map_option (\<lambda>r. bindR r (mapR entry)) (list_for_each l h)"

definition queue_tasks :: "rstate \<Rightarrow> tid list res option" where
  "queue_tasks s = visit (links_of (kern s)) Queue (\<lambda>n. entry_run_list (Some n))"

definition all_resources :: "rstate \<Rightarrow> nat list res option" where
  "all_resources s = visit (rlinks s) RHead entry_resource"


section \<open>Life of a resource\<close>

text \<open>The search for a free slot in the table of the current task: \<open>None\<close> when all are taken.\<close>

function free_slot :: "nat option list \<Rightarrow> nat \<Rightarrow> nat option res" where
  "free_slot rs i =
     bindR (get_at rs i) (\<lambda>x.
     if x = None then Inr (Some i)
     else if Suc i \<ge> TASK_RESOURCE_MAX_AMOUNT then Inr None else free_slot rs (Suc i))"
  by pat_completeness auto
termination
  by (relation "measure (\<lambda>(rs, i). TASK_RESOURCE_MAX_AMOUNT - i)") auto

declare free_slot.simps [simp del]

text \<open>\<open>new\<close> is the block \<open>kmalloc\<close> returns. The result is the resource, or \<open>None\<close> for null.\<close>

definition resource_create :: "string \<Rightarrow> nat \<Rightarrow> rstate \<Rightarrow> (nat option \<times> rstate) res" where
  "resource_create cat new s =
     (case curr (kern s) of
        None \<Rightarrow> Inl NullDeref
      | Some c \<Rightarrow>
          bindR (get_task (kern s) c) (\<lambda>p.
          bindR (free_slot (resources p) 0) (\<lambda>slot.
          case slot of
            None \<Rightarrow> Inr (None, s)
          | Some i \<Rightarrow>
              let s = s\<lparr>r_active := r_active s + 1\<rparr>;
                  x = \<lparr>rid = r_active s - 1, n_instances = 1, category = cat, assigned_task = None,
                       assigned_instances = 0\<rparr>;
                  s = put_resource new x s;
                  s = s\<lparr>kern := put_task c (p\<lparr>resources := (resources p)[i := Some new]\<rparr>) (kern s)\<rparr>;
                  s = s\<lparr>rlinks := list_head_init (RNode new) (rlinks s)\<rparr>
              in bindR (list_head_add_tail (RNode new) RHead (rlinks s)) (\<lambda>l.
                 Inr (Some new, s\<lparr>rlinks := l\<rparr>)))))"

definition resource_init :: "nat option \<Rightarrow> rstate \<Rightarrow> rstate res" where
  "resource_init r s =
     (case r of None \<Rightarrow> Inr s
      | Some a \<Rightarrow> upd_resource a (\<lambda>x. x\<lparr>assigned_task := None, assigned_instances := 0\<rparr>) s)"

definition resource_assign :: "nat option \<Rightarrow> rstate \<Rightarrow> rstate res" where
  "resource_assign r s =
     (case r of None \<Rightarrow> Inr s
      | Some a \<Rightarrow> upd_resource a (\<lambda>x. x\<lparr>assigned_task := curr (kern s), assigned_instances := 1\<rparr>) s)"

definition resource_deassign :: "nat option \<Rightarrow> rstate \<Rightarrow> rstate res" where
  "resource_deassign r s =
     (case r of None \<Rightarrow> Inr s
      | Some a \<Rightarrow> upd_resource a (\<lambda>x. x\<lparr>assigned_task := None, assigned_instances := 0\<rparr>) s)"

definition clear_slots :: "nat \<Rightarrow> nat option list \<Rightarrow> nat option list" where
  "clear_slots r = map (\<lambda>x. if x = Some r then None else x)"

definition clean_resource_reference :: "nat option \<Rightarrow> rstate \<Rightarrow> rstate res option" where
  "clean_resource_reference r s =
     (case r of
        None \<Rightarrow> Some (Inr s)
      | Some a \<Rightarrow>
          bindO (queue_tasks s) (\<lambda>ts.
          Some (foldR (\<lambda>t s. bindR (upd_task t (\<lambda>p. p\<lparr>resources := clear_slots a (resources p)\<rparr>) (kern s))
            (\<lambda>k. Inr (s\<lparr>kern := k\<rparr>))) ts s)))"

definition resource_destroy :: "nat option \<Rightarrow> rstate \<Rightarrow> rstate res option" where
  "resource_destroy r s =
     (case r of
        None \<Rightarrow> Some (Inr s)
      | Some a \<Rightarrow>
          bindO (clean_resource_reference r s) (\<lambda>s.
          bindO (Some (list_head_del (RNode a) (rlinks s))) (\<lambda>l.
          let s = s\<lparr>rlinks := l, res_of := (res_of s)(a := None), r_active := r_active s - 1\<rparr>
          in bindO (all_resources s) (\<lambda>rs.
             Some (foldR (\<lambda>b. upd_resource b (\<lambda>x. x\<lparr>rid := 0\<rparr>)) rs s)))))"

definition kernel_get_active_resources :: "rstate \<Rightarrow> u32" where
  "kernel_get_active_resources s = r_active s"

section \<open>The matrices of the deadlock prevention\<close>

definition set_entry :: "'a list list \<Rightarrow> nat \<Rightarrow> nat \<Rightarrow> 'a \<Rightarrow> 'a list list res" where
  "set_entry M i j v = bindR (get_at M i) (\<lambda>row. bindR (set_at row j v) (\<lambda>row. set_at M i row))"

record matrices =
  m_available :: "u32 list"
  m_max :: "u32 list list"
  m_alloc :: "u32 list list"
  m_need :: "u32 list list"
  idx_map :: "tid option list"

definition active_n :: "rstate \<Rightarrow> nat" where "active_n s = unat (kernel_get_active_processes (kern s))"
definition active_m :: "rstate \<Rightarrow> nat" where "active_m s = unat (kernel_get_active_resources s)"

text \<open>The rows that \<open>kmalloc\<close> and \<open>kmmalloc\<close> returned are zeroed; \<open>mat_need\<close> is written later.\<close>

definition reset_deadlock_structures :: "rstate \<Rightarrow> matrices" where
  "reset_deadlock_structures s = \<lparr>m_available = replicate (active_m s) 0,
     m_max = replicate (active_n s) (replicate (active_m s) 0),
     m_alloc = replicate (active_n s) (replicate (active_m s) 0),
     m_need = replicate (active_n s) (replicate (active_m s) 0),
     idx_map = replicate (active_n s) None\<rparr>"

definition compute_index_map_task_struct :: "tid list \<Rightarrow> matrices \<Rightarrow> matrices res" where
  "compute_index_map_task_struct ts M =
     foldR (\<lambda>(i, t) M. bindR (set_at (idx_map M) i (Some t)) (\<lambda>v. Inr (M\<lparr>idx_map := v\<rparr>))) (enumerate 0 ts) M"

definition fill_alloc :: "rstate \<Rightarrow> nat list \<Rightarrow> matrices \<Rightarrow> matrices res" where
  "fill_alloc s rs M =
     foldR (\<lambda>r M. bindR (get_resource s r) (\<lambda>x.
       foldR (\<lambda>i M. bindR (get_at (idx_map M) i) (\<lambda>t.
         if t = assigned_task x
         then bindR (set_entry (m_alloc M) i (unat (rid x)) (assigned_instances x)) (\<lambda>A. Inr (M\<lparr>m_alloc := A\<rparr>))
         else Inr M)) [0..<active_n s] M)) rs M"

definition fill_max :: "rstate \<Rightarrow> matrices \<Rightarrow> matrices res" where
  "fill_max s M =
     foldR (\<lambda>i M. bindR (get_at (idx_map M) i) (\<lambda>t.
       case t of
         None \<Rightarrow> Inr M
       | Some t \<Rightarrow>
           foldR (\<lambda>j M. bindR (get_task (kern s) t) (\<lambda>p. bindR (get_at (resources p) j) (\<lambda>r.
             case r of
               None \<Rightarrow> Inr M
             | Some a \<Rightarrow> bindR (get_resource s a) (\<lambda>x.
                 bindR (set_entry (m_max M) i j (n_instances x)) (\<lambda>A. Inr (M\<lparr>m_max := A\<rparr>))))))
             [0..<active_m s] M)) [0..<active_n s] M"

definition fill_available :: "rstate \<Rightarrow> nat list \<Rightarrow> matrices \<Rightarrow> matrices res" where
  "fill_available s rs M =
     foldR (\<lambda>r M. bindR (get_resource s r) (\<lambda>x.
       bindR (set_at (m_available M) (unat (rid x)) (n_instances x - assigned_instances x)) (\<lambda>v.
       Inr (M\<lparr>m_available := v\<rparr>)))) rs M"

definition fill_need :: "rstate \<Rightarrow> matrices \<Rightarrow> matrices res" where
  "fill_need s M =
     foldR (\<lambda>i M. bindR (get_at (m_max M) i) (\<lambda>mx. bindR (get_at (m_alloc M) i) (\<lambda>al.
       bindR (copy_words mx (active_m s)) (\<lambda>row. bindR (arr_sub row al (active_m s)) (\<lambda>row.
       bindR (set_at (m_need M) i row) (\<lambda>N. Inr (M\<lparr>m_need := N\<rparr>))))))) [0..<active_n s] M"

definition init_deadlock_structures :: "rstate \<Rightarrow> matrices res option" where
  "init_deadlock_structures s =
     bindO (queue_tasks s) (\<lambda>ts.
     bindO (all_resources s) (\<lambda>rs.
     Some (bindR (compute_index_map_task_struct ts (reset_deadlock_structures s)) (\<lambda>M.
           bindR (fill_alloc s rs M) (\<lambda>M.
           bindR (fill_max s M) (\<lambda>M.
           bindR (fill_available s rs M) (\<lambda>M.
           fill_need s M)))))))"

text \<open>The position of the current task in the map: \<open>None\<close> for -1.\<close>

definition get_current_task_idx_from :: "rstate \<Rightarrow> matrices \<Rightarrow> nat option" where
  "get_current_task_idx_from s M =
     List.find (\<lambda>i. i < length (idx_map M) \<and> idx_map M ! i = curr (kern s)) [0..<active_n s]"

end
