(* ===== verification/Resource_Correct.thy ===== *)
theory Resource_Correct
  imports Resource
begin

text \<open>
  Correctness of the resources: creation keeps the list of resources and their numbering, destruction
  renumbers every remaining resource with 0, and the matrices of the deadlock prevention are computed
  without a fault and have the entries given here.
\<close>

section \<open>Traversals\<close>

lemma mapR_map: "(\<And>x. x \<in> set xs \<Longrightarrow> f x = Inr (g x)) \<Longrightarrow> mapR f xs = Inr (map g xs)"
  by (induction xs) auto

lemma visit_ring:
  assumes "ring l h (map N xs)" "\<And>x. entry (N x) = Inr x"
  shows "visit l h entry = Some (Inr xs)"
proof -
  have "mapR entry (map N xs) = Inr xs"
    using mapR_map [of "map N xs" entry "\<lambda>n. case entry n of Inr x \<Rightarrow> x"] assms(2) by (force simp: comp_def)
  then show ?thesis using list_for_each_ring [OF assms(1)] by (simp add: visit_def)
qed

definition rlist :: "rstate \<Rightarrow> nat list \<Rightarrow> bool" where
  "rlist s rs \<longleftrightarrow> ring (rlinks s) RHead (map RNode rs) \<and> (\<forall>r\<in>set rs. res_of s r \<noteq> None)"

text \<open>The resources are numbered by their place in the list.\<close>

definition numbered :: "rstate \<Rightarrow> nat list \<Rightarrow> bool" where
  "numbered s rs \<longleftrightarrow> r_active s = of_nat (length rs) \<and>
     (\<forall>i<length rs. map_option rid (res_of s (rs ! i)) = Some (of_nat i))"

lemma queue_tasks_eq: "runq (kern s) ts \<Longrightarrow> queue_tasks s = Some (Inr ts)"
  unfolding queue_tasks_def runq_def by (rule visit_ring) auto

lemma all_resources_eq: "rlist s rs \<Longrightarrow> all_resources s = Some (Inr rs)"
  unfolding all_resources_def rlist_def by (rule visit_ring) (auto simp: entry_resource_def)

lemma rlist_distinct: "rlist s rs \<Longrightarrow> distinct rs"
  by (auto simp: rlist_def ring_def distinct_map)

section \<open>Creation and destruction\<close>

lemma free_slot_eq:
  assumes "length rs = TASK_RESOURCE_MAX_AMOUNT" "i < TASK_RESOURCE_MAX_AMOUNT"
  shows "free_slot rs i = Inr (List.find (\<lambda>j. rs ! j = None) [i..<TASK_RESOURCE_MAX_AMOUNT])"
  using assms(2)
proof (induction "TASK_RESOURCE_MAX_AMOUNT - i" arbitrary: i)
  case (Suc d)
  have ups: "[i..<TASK_RESOURCE_MAX_AMOUNT] = i # [Suc i..<TASK_RESOURCE_MAX_AMOUNT]"
    using Suc.prems by (rule upt_conv_Cons)
  show ?case
  proof (cases "Suc i < TASK_RESOURCE_MAX_AMOUNT")
    case True
    then have "free_slot rs (Suc i) = Inr (List.find (\<lambda>j. rs ! j = None) [Suc i..<TASK_RESOURCE_MAX_AMOUNT])"
      using Suc.hyps by simp
    then show ?thesis using True Suc.prems assms(1) ups by (subst free_slot.simps) auto
  next
    case False
    then show ?thesis using Suc.prems assms(1) ups by (subst free_slot.simps) auto
  qed
qed simp

text \<open>
  Creating a resource: for a current task with a free slot in its table, a resource with one
  instance and nobody holding it is put last in the list of resources and into the first free slot of
  the task; if the list was numbered 0, 1, ... it stays so, the new one having the next number.
\<close>

theorem resource_create_numbered:
  assumes "rlist s rs" "numbered s rs" "new \<notin> set rs" "curr (kern s) = Some c" "tasks (kern s) c = Some p"
    "length (resources p) = TASK_RESOURCE_MAX_AMOUNT"
    "List.find (\<lambda>j. resources p ! j = None) [0..<TASK_RESOURCE_MAX_AMOUNT] = Some i"
  shows "\<exists>s'. resource_create cat new s = Inr (Some new, s') \<and> rlist s' (rs @ [new]) \<and>
    numbered s' (rs @ [new]) \<and>
    tasks (kern s') = (tasks (kern s))(c \<mapsto> p\<lparr>resources := (resources p)[i := Some new]\<rparr>) \<and>
    (\<exists>x. res_of s' new = Some x \<and> n_instances x = 1 \<and> assigned_task x = None)"
proof -
  let ?x = "\<lparr>rid = r_active s, n_instances = 1, category = cat, assigned_task = None, assigned_instances = 0\<rparr>"
  let ?l = "list_head_init (RNode new) (rlinks s)"
  have slot: "free_slot (resources p) 0 = Inr (Some i)"
    using free_slot_eq [OF assms(6), of 0] assms(7) by (simp add: TASK_RESOURCE_MAX_AMOUNT_def)
  have "ring ?l RHead (map RNode rs)"
    using assms(1,3) by (intro list_head_init_frame) (auto simp: rlist_def)
  then obtain l where l: "list_head_add_tail (RNode new) RHead ?l = Inr l"
      "ring l RHead (map RNode rs @ [RNode new])"
    using list_head_add_tail_ring [of ?l RHead "map RNode rs" "RNode new"] assms(3) by auto
  let ?s = "(put_resource new ?x (s\<lparr>r_active := r_active s + 1\<rparr>))
      \<lparr>kern := put_task c (p\<lparr>resources := (resources p)[i := Some new]\<rparr>) (kern s), rlinks := l\<rparr>"
  have "resource_create cat new s = Inr (Some new, ?s)"
    using assms(4,5) slot l(1)
    by (simp add: resource_create_def get_task_def put_resource_def Let_def)
  moreover have "rlist ?s (rs @ [new])" using assms(1) l(2) by (auto simp: rlist_def put_resource_def)
  moreover have "numbered ?s (rs @ [new])"
    using assms(2,3) by (auto simp: numbered_def put_resource_def nth_append less_Suc_eq)
  ultimately show ?thesis by (intro exI [of _ ?s]) (auto simp: put_resource_def)
qed

text \<open>The example kernel with a list of resources that holds one resource, owned by nobody.\<close>

definition example_rstate :: rstate where
  "example_rstate = \<lparr>kern = example_kernel,
     res_of = [7 \<mapsto> \<lparr>rid = 0, n_instances = 1, category = ''sem'', assigned_task = None, assigned_instances = 0\<rparr>],
     rlinks = \<lparr>nxt = [RHead \<mapsto> RNode 7, RNode 7 \<mapsto> RHead], prv = [RHead \<mapsto> RNode 7, RNode 7 \<mapsto> RHead]\<rparr>,
     r_active = 1\<rparr>"

lemma example_rstate_facts:
  "rlist example_rstate [7]" "numbered example_rstate [7]" "curr (kern example_rstate) = Some 0"
  "tasks (kern example_rstate) 0 = Some (example_task 1)" "kern example_rstate = example_kernel"
  "length (resources (example_task 1)) = TASK_RESOURCE_MAX_AMOUNT"
  by (simp_all add: example_rstate_def rlist_def numbered_def ring_def example_kernel_def example_task_def
      TASK_RESOURCE_MAX_AMOUNT_def)

theorem resource_create_numbered_witness:
  "\<exists>s'. resource_create ''sem'' 9 example_rstate = Inr (Some 9, s') \<and> rlist s' [7, 9] \<and> numbered s' [7, 9]"
proof -
  have "List.find (\<lambda>j. resources (example_task 1) ! j = None) [0..<TASK_RESOURCE_MAX_AMOUNT] = Some 0"
    by (simp add: example_task_def TASK_RESOURCE_MAX_AMOUNT_def upt_conv_Cons)
  from resource_create_numbered [OF example_rstate_facts(1,2) _ example_rstate_facts(3,4,6) this, of 9 "''sem''"]
  show ?thesis by auto
qed

text \<open>Loops that update one entry after the other.\<close>

lemma upd_tasks_loop:
  assumes "\<And>t. t \<in> set ts \<Longrightarrow> tasks (kern s) t \<noteq> None" "distinct ts"
  shows "foldR (\<lambda>t s. bindR (upd_task t g (kern s)) (\<lambda>k. Inr (s\<lparr>kern := k\<rparr>))) ts s =
    Inr (s\<lparr>kern := (kern s)\<lparr>tasks := (\<lambda>t. if t \<in> set ts then map_option g (tasks (kern s) t)
       else tasks (kern s) t)\<rparr>\<rparr>)"
  using assms
proof (induction ts arbitrary: s)
  case (Cons t ts)
  then obtain p where p: "tasks (kern s) t = Some p" by fastforce
  let ?s = "s\<lparr>kern := put_task t (g p) (kern s)\<rparr>"
  have "tasks (kern ?s) u \<noteq> None" if "u \<in> set ts" for u using Cons.prems(1) that by simp
  from Cons.IH [OF this] Cons.prems(2) p show ?case
    by (auto simp: upd_task_def get_task_def put_task_def fun_eq_iff)
qed simp

lemma upd_resources_loop:
  assumes "\<And>r. r \<in> set rs \<Longrightarrow> res_of s r \<noteq> None" "distinct rs"
  shows "foldR (\<lambda>r. upd_resource r g) rs s =
    Inr (s\<lparr>res_of := (\<lambda>r. if r \<in> set rs then map_option g (res_of s r) else res_of s r)\<rparr>)"
  using assms
proof (induction rs arbitrary: s)
  case (Cons r rs)
  then obtain x where x: "res_of s r = Some x" by fastforce
  let ?s = "put_resource r (g x) s"
  have "res_of ?s u \<noteq> None" if "u \<in> set rs" for u using Cons.prems(1) that by (simp add: put_resource_def)
  from Cons.IH [OF this] Cons.prems(2) x show ?case
    by (auto simp: upd_resource_def get_resource_def put_resource_def fun_eq_iff)
qed simp

text \<open>
  Destroying a resource: it leaves the list and the store, no queued task refers to it any more,
  the other resources keep their order and their owners, and the number of resources falls by one.
  But every remaining resource gets the number 0: the renumbering loop never advances its counter,
  so with two or more resources left the numbers are not those of their places.
\<close>

theorem resource_destroy_renumbers:
  assumes "rlist s rs" "runq (kern s) ts" "a \<in> set rs"
  shows "\<exists>s'. resource_destroy (Some a) s = Some (Inr s') \<and> rlist s' (remove1 a rs) \<and>
    r_active s' = r_active s - 1 \<and> res_of s' a = None \<and>
    (\<forall>r\<in>set (remove1 a rs). \<exists>x x'. res_of s r = Some x \<and> res_of s' r = Some x' \<and> rid x' = 0 \<and>
       assigned_task x' = assigned_task x) \<and>
    (\<forall>t\<in>set ts. \<forall>p. tasks (kern s') t = Some p \<longrightarrow> Some a \<notin> set (resources p))"
proof -
  let ?g = "\<lambda>p. p\<lparr>resources := clear_slots a (resources p)\<rparr>"
  let ?k = "(kern s)\<lparr>tasks := (\<lambda>t. if t \<in> set ts then map_option ?g (tasks (kern s) t) else tasks (kern s) t)\<rparr>"
  have "clean_resource_reference (Some a) s = Some (Inr (s\<lparr>kern := ?k\<rparr>))"
    using queue_tasks_eq [OF assms(2)] upd_tasks_loop [of ts s ?g] runq_distinct [OF assms(2)] assms(2)
    by (simp add: clean_resource_reference_def runq_def)
  moreover have mem: "RNode a \<in> set (map RNode rs)" using assms(3) by auto
  obtain l where l: "list_head_del (RNode a) (rlinks s) = Inr l"
      "ring l RHead (remove1 (RNode a) (map RNode rs))"
    using rl.del_member [OF _ mem, of "rlinks s" RHead] assms(1) by (auto simp: rlist_def)
  have rem: "remove1 (RNode a) (map RNode rs) = map RNode (remove1 a rs)" by (induction rs) auto
  have d: "distinct rs" using assms(1) by (rule rlist_distinct)
  let ?s = "s\<lparr>kern := ?k, rlinks := l, res_of := (res_of s)(a := None), r_active := r_active s - 1\<rparr>"
  have r: "rlist ?s (remove1 a rs)" using l(2) rem assms(1) d by (auto simp: rlist_def)
  have ex: "res_of ?s r \<noteq> None" if "r \<in> set (remove1 a rs)" for r using r that by (simp add: rlist_def)
  let ?s' = "?s\<lparr>res_of := (\<lambda>r. if r \<in> set (remove1 a rs) then map_option (\<lambda>x. x\<lparr>rid := 0\<rparr>) (res_of ?s r)
      else res_of ?s r)\<rparr>"
  have loop: "foldR (\<lambda>b. upd_resource b (\<lambda>x. x\<lparr>rid := 0\<rparr>)) (remove1 a rs) ?s = Inr ?s'"
    using ex d by (intro upd_resources_loop) auto
  have "resource_destroy (Some a) s = Some (Inr ?s')"
    using calculation l(1) all_resources_eq [OF r] loop by (simp add: resource_destroy_def Let_def)
  moreover have "rlist ?s' (remove1 a rs)" using r by (auto simp: rlist_def)
  moreover have "\<forall>t\<in>set ts. \<forall>p. tasks (kern ?s') t = Some p \<longrightarrow> Some a \<notin> set (resources p)"
    by (auto simp: clear_slots_def)
  moreover have "\<exists>x x'. res_of s r = Some x \<and> res_of ?s' r = Some x' \<and> rid x' = 0 \<and>
       assigned_task x' = assigned_task x" if r: "r \<in> set (remove1 a rs)" for r
  proof -
    have "r \<noteq> a" using r d by auto
    with ex [OF r] obtain x where "res_of s r = Some x" by auto
    with r \<open>r \<noteq> a\<close> d show ?thesis by auto
  qed
  moreover have "res_of ?s' a = None" "r_active ?s' = r_active s - 1" using d by simp_all
  ultimately show ?thesis by (intro exI [of _ ?s']) blast
qed

theorem resource_destroy_renumbers_witness:
  "\<exists>s'. resource_destroy (Some 7) example_rstate = Some (Inr s') \<and> rlist s' [] \<and> res_of s' 7 = None"
  using resource_destroy_renumbers [OF example_rstate_facts(1), of "[0, 1]" 7] example_kernel_inv
  by (auto simp: example_rstate_facts(5) sched_inv_def)

section \<open>The matrices\<close>

text \<open>A loop that rewrites each element of an array from its old value.\<close>

lemma foldR_map: "foldR f (map h xs) s = foldR (f \<circ> h) xs s"
proof (induction xs arbitrary: s)
  case (Cons x xs)
  then show ?case by (cases "f (h x) s") auto
qed simp

lemma foldR_cong: "(\<And>x. x \<in> set xs \<Longrightarrow> f x = g x) \<Longrightarrow> foldR f xs s = foldR g xs s"
proof (induction xs arbitrary: s)
  case (Cons x xs)
  then show ?case by (cases "g x s") auto
qed simp

lemma foldR_index: "foldR f xs s = foldR (\<lambda>i. f (xs ! i)) [0..<length xs] s"
  using foldR_map [of f "(!) xs" "[0..<length xs]" s] by (simp add: map_nth comp_def)

lemma foldR_array:
  assumes step: "\<And>i A. i < n \<Longrightarrow> length A = n \<Longrightarrow> A ! i = B ! i \<Longrightarrow> g i (put A) = Inr (put (A[i := h i (B ! i)]))"
    and len: "length B = n"
  shows "foldR g [0..<n] (put B) = Inr (put (map (\<lambda>i. h i (B ! i)) [0..<n]))"
proof -
  let ?A = "\<lambda>i. map (\<lambda>k. h k (B ! k)) [0..<i] @ drop i B"
  have "\<exists>s'. foldR g [0..<n] (put B) = Inr s' \<and> s' = put (?A (length [0..<n]))"
  proof (rule foldR_inv [of "\<lambda>i s. s = put (?A i)"])
    fix i s assume i: "i < length [0..<n]" and s: "s = put (?A i)"
    have "g i (put (?A i)) = Inr (put ((?A i)[i := h i (B ! i)]))"
      using i len by (intro step) (auto simp: nth_append)
    moreover have "(?A i)[i := h i (B ! i)] = ?A (Suc i)"
      using i len by (auto simp: list_update_append Cons_nth_drop_Suc [symmetric])
    ultimately show "\<exists>s'. g ([0..<n] ! i) s = Inr s' \<and> s' = put (?A (Suc i))" using i s by simp
  qed simp
  then show ?thesis using len by simp
qed

lemma compute_index_map_eq:
  assumes "length (idx_map M) = length ts"
  shows "compute_index_map_task_struct ts M = Inr (M\<lparr>idx_map := map Some ts\<rparr>)"
proof -
  have "foldR (\<lambda>i M. bindR (set_at (idx_map M) i (Some (ts ! i))) (\<lambda>v. Inr (M\<lparr>idx_map := v\<rparr>))) [0..<length ts]
      (M\<lparr>idx_map := idx_map M\<rparr>) = Inr (M\<lparr>idx_map := map (\<lambda>i. Some (ts ! i)) [0..<length ts]\<rparr>)"
    using assms by (intro foldR_array [where put = "\<lambda>v. M\<lparr>idx_map := v\<rparr>" and h = "\<lambda>i _. Some (ts ! i)"]) auto
  moreover have "map (\<lambda>i. Some (ts ! i)) [0..<length ts] = map Some ts"
    by (rule nth_equalityI) auto
  moreover have "compute_index_map_task_struct ts M =
      foldR (\<lambda>i M. bindR (set_at (idx_map M) i (Some (ts ! i))) (\<lambda>v. Inr (M\<lparr>idx_map := v\<rparr>))) [0..<length ts] M"
    unfolding compute_index_map_task_struct_def foldR_index [of _ "enumerate 0 ts"] length_enumerate
    by (rule foldR_cong) (simp add: nth_enumerate_eq)
  ultimately show ?thesis by simp
qed

definition res_at :: "rstate \<Rightarrow> nat \<Rightarrow> resource" where
  "res_at s r = the (res_of s r)"

lemma rlist_numbered_nth:
  assumes "rlist s rs" "numbered s rs" "j < length rs" "length rs < 2 ^ 32"
  shows "get_resource s (rs ! j) = Inr (res_at s (rs ! j))" "unat (rid (res_at s (rs ! j))) = j"
proof -
  obtain x where x: "res_of s (rs ! j) = Some x" using assms(1,3) by (fastforce simp: rlist_def)
  then have "rid x = of_nat j" using assms(2,3) by (auto simp: numbered_def)
  moreover have "unat (of_nat j :: u32) = j" using assms(3,4) by (simp add: unat_of_nat)
  ultimately show "get_resource s (rs ! j) = Inr (res_at s (rs ! j))" "unat (rid (res_at s (rs ! j))) = j"
    using x by (simp_all add: get_resource_def res_at_def)
qed

lemma fill_available_eq:
  assumes "rlist s rs" "numbered s rs" "length rs < 2 ^ 32" "length (m_available M) = length rs"
  shows "fill_available s rs M =
    Inr (M\<lparr>m_available := map (\<lambda>r. n_instances (res_at s r) - assigned_instances (res_at s r)) rs\<rparr>)"
proof -
  let ?f = "\<lambda>r. n_instances (res_at s r) - assigned_instances (res_at s r)"
  have "foldR (\<lambda>i M. bindR (get_resource s (rs ! i)) (\<lambda>x.
       bindR (set_at (m_available M) (unat (rid x)) (n_instances x - assigned_instances x)) (\<lambda>v.
       Inr (M\<lparr>m_available := v\<rparr>)))) [0..<length rs] (M\<lparr>m_available := m_available M\<rparr>) =
      Inr (M\<lparr>m_available := map (\<lambda>i. ?f (rs ! i)) [0..<length rs]\<rparr>)"
    using assms rlist_numbered_nth [OF assms(1,2) _ assms(3)]
    by (intro foldR_array [where put = "\<lambda>v. M\<lparr>m_available := v\<rparr>" and h = "\<lambda>i _. ?f (rs ! i)"]) auto
  moreover have "map (\<lambda>i. ?f (rs ! i)) [0..<length rs] = map ?f rs" by (rule nth_equalityI) auto
  ultimately show ?thesis unfolding fill_available_def foldR_index [of _ rs] by simp
qed

lemma fill_need_eq:
  assumes "active_n s = n" "active_m s = m" "length (m_max M) = n" "length (m_alloc M) = n" "length (m_need M) = n"
    "\<And>i. i < n \<Longrightarrow> length (m_max M ! i) = m \<and> length (m_alloc M ! i) = m"
  shows "fill_need s M = Inr (M\<lparr>m_need := map (\<lambda>i. pointwise (-) (m_max M ! i) (m_alloc M ! i) m) [0..<n]\<rparr>)"
proof -
  have "foldR (\<lambda>i M. bindR (get_at (m_max M) i) (\<lambda>mx. bindR (get_at (m_alloc M) i) (\<lambda>al.
       bindR (copy_words mx (active_m s)) (\<lambda>row. bindR (arr_sub row al (active_m s)) (\<lambda>row.
       bindR (set_at (m_need M) i row) (\<lambda>N. Inr (M\<lparr>m_need := N\<rparr>))))))) [0..<n] (M\<lparr>m_need := m_need M\<rparr>) =
      Inr (M\<lparr>m_need := map (\<lambda>i. pointwise (-) (m_max M ! i) (m_alloc M ! i) m) [0..<n]\<rparr>)"
    using assms by (intro foldR_array [where put = "\<lambda>v. M\<lparr>m_need := v\<rparr>"
        and h = "\<lambda>i _. pointwise (-) (m_max M ! i) (m_alloc M ! i) m"]) (auto simp: copy_words_def arr_sub_eq)
  then show ?thesis using assms(1) by (simp add: fill_need_def)
qed

lemma list_update_old: "xs ! i = v \<Longrightarrow> xs[i := v] = xs"
  by auto

lemma set_entry_eq:
  "i < length M \<Longrightarrow> j < length (M ! i) \<Longrightarrow> set_entry M i j v = Inr (M[i := (M ! i)[j := v]])"
  by (simp add: set_entry_def)

text \<open>The matrix of the allocations once the first \<open>k\<close> resources have been looked at.\<close>

definition alloc_upto :: "rstate \<Rightarrow> tid list \<Rightarrow> nat list \<Rightarrow> nat \<Rightarrow> u32 list list" where
  "alloc_upto s ts rs k = map (\<lambda>t. map (\<lambda>j.
     if j < k \<and> assigned_task (res_at s (rs ! j)) = Some t then assigned_instances (res_at s (rs ! j)) else 0)
     [0..<length rs]) ts"

lemma alloc_upto_0: "alloc_upto s ts rs 0 = replicate (length ts) (replicate (length rs) 0)"
  by (simp add: alloc_upto_def map_replicate_const)

lemma alloc_upto_Suc:
  assumes "k < length rs"
  shows "alloc_upto s ts rs (Suc k) = map (\<lambda>i. if assigned_task (res_at s (rs ! k)) = Some (ts ! i)
      then (alloc_upto s ts rs k ! i)[k := assigned_instances (res_at s (rs ! k))]
      else alloc_upto s ts rs k ! i) [0..<length ts]"
  using assms by (auto simp: alloc_upto_def less_Suc_eq nth_list_update intro!: nth_equalityI)

lemma alloc_upto_dims [simp]:
  "length (alloc_upto s ts rs k) = length ts" "i < length ts \<Longrightarrow> length (alloc_upto s ts rs k ! i) = length rs"
  by (simp_all add: alloc_upto_def)

lemma fill_alloc_eq:
  assumes "rlist s rs" "numbered s rs" "length rs < 2 ^ 32" "active_n s = length ts"
    "idx_map M = map Some ts" "m_alloc M = alloc_upto s ts rs 0"
  shows "fill_alloc s rs M = Inr (M\<lparr>m_alloc := alloc_upto s ts rs (length rs)\<rparr>)"
proof -
  let ?body = "\<lambda>r M. bindR (get_resource s r) (\<lambda>x.
       foldR (\<lambda>i M. bindR (get_at (idx_map M) i) (\<lambda>t.
         if t = assigned_task x
         then bindR (set_entry (m_alloc M) i (unat (rid x)) (assigned_instances x)) (\<lambda>A. Inr (M\<lparr>m_alloc := A\<rparr>))
         else Inr M)) [0..<active_n s] M)"
  have "\<exists>M'. foldR ?body rs M = Inr M' \<and> M' = M\<lparr>m_alloc := alloc_upto s ts rs (length rs)\<rparr>"
  proof (rule foldR_inv [of "\<lambda>k M'. M' = M\<lparr>m_alloc := alloc_upto s ts rs k\<rparr>"])
    fix k M' assume k: "k < length rs" and M': "M' = M\<lparr>m_alloc := alloc_upto s ts rs k\<rparr>"
    let ?x = "res_at s (rs ! k)" and ?A = "alloc_upto s ts rs k"
    note x = rlist_numbered_nth [OF assms(1,2) k assms(3)]
    have "foldR (\<lambda>i M. bindR (get_at (idx_map M) i) (\<lambda>t.
         if t = assigned_task ?x
         then bindR (set_entry (m_alloc M) i k (assigned_instances ?x)) (\<lambda>A. Inr (M\<lparr>m_alloc := A\<rparr>))
         else Inr M)) [0..<length ts] (M\<lparr>m_alloc := ?A\<rparr>) =
        Inr (M\<lparr>m_alloc := map (\<lambda>i. if assigned_task ?x = Some (ts ! i)
          then (?A ! i)[k := assigned_instances ?x] else ?A ! i) [0..<length ts]\<rparr>)"
      by (rule foldR_array [where put = "\<lambda>A. M\<lparr>m_alloc := A\<rparr>" and B = ?A and h = "\<lambda>i row. if assigned_task ?x = Some (ts ! i)
          then row[k := assigned_instances ?x] else row"])
        (use k assms(5) in \<open>auto simp: set_entry_eq list_update_old\<close>)
    then show "\<exists>s'. ?body (rs ! k) M' = Inr s' \<and> s' = M\<lparr>m_alloc := alloc_upto s ts rs (Suc k)\<rparr>"
      using x M' assms(4) by (simp add: alloc_upto_Suc [OF k] cong: if_cong)
  qed (use assms(6) in simp)
  then show ?thesis by (simp add: fill_alloc_def)
qed

text \<open>The row of the maxima of a task: by the slots of its table.\<close>

definition max_row :: "rstate \<Rightarrow> tid \<Rightarrow> nat \<Rightarrow> u32 list" where
  "max_row s t m = map (\<lambda>j. case resources (the (tasks (kern s) t)) ! j of
     None \<Rightarrow> 0 | Some a \<Rightarrow> n_instances (res_at s a)) [0..<m]"

text \<open>Tasks whose tables have 32 slots with live resources.\<close>

definition tables_ok :: "rstate \<Rightarrow> tid list \<Rightarrow> bool" where
  "tables_ok s ts \<longleftrightarrow> (\<forall>t\<in>set ts. \<exists>p. tasks (kern s) t = Some p \<and>
     length (resources p) = TASK_RESOURCE_MAX_AMOUNT \<and> (\<forall>a. Some a \<in> set (resources p) \<longrightarrow> res_of s a \<noteq> None))"

lemma fill_max_row:
  assumes p: "tasks (kern s) t = Some p" "length (resources p) = TASK_RESOURCE_MAX_AMOUNT" "m \<le> TASK_RESOURCE_MAX_AMOUNT"
    and live: "\<And>a. Some a \<in> set (resources p) \<Longrightarrow> res_of s a \<noteq> None"
    and A: "i < length A" "A ! i = replicate m 0"
  shows "foldR (\<lambda>j M. bindR (get_task (kern s) t) (\<lambda>p. bindR (get_at (resources p) j) (\<lambda>r.
             case r of
               None \<Rightarrow> Inr M
             | Some a \<Rightarrow> bindR (get_resource s a) (\<lambda>x.
                 bindR (set_entry (m_max M) i j (n_instances x)) (\<lambda>A. Inr (M\<lparr>m_max := A\<rparr>))))))
             [0..<m] (M\<lparr>m_max := A\<rparr>) = Inr (M\<lparr>m_max := A[i := max_row s t m]\<rparr>)"
    (is "foldR ?g _ _ = _")
proof -
  let ?h = "\<lambda>j v. case resources p ! j of None \<Rightarrow> v | Some a \<Rightarrow> n_instances (res_at s a)"
  have "?g j (M\<lparr>m_max := A[i := row]\<rparr>) = Inr (M\<lparr>m_max := A[i := row[j := ?h j (replicate m 0 ! j)]]\<rparr>)"
    if "j < m" "length row = m" "row ! j = replicate m 0 ! j" for j row
  proof (cases "resources p ! j")
    case None
    then show ?thesis using that p list_update_id [of row j] by (simp add: get_task_def)
  next
    case (Some a)
    then have "Some a \<in> set (resources p)" using that p by (metis nth_mem order_less_le_trans)
    from live [OF this] have "get_resource s a = Inr (res_at s a)" by (auto simp: get_resource_def res_at_def)
    then show ?thesis using that p Some A(1) by (simp add: get_task_def set_entry_eq)
  qed
  from foldR_array [where put = "\<lambda>row. M\<lparr>m_max := A[i := row]\<rparr>" and g = ?g and B = "replicate m 0"
      and h = ?h and n = m, OF this]
  have "foldR ?g [0..<m] (M\<lparr>m_max := A[i := replicate m 0]\<rparr>) =
      Inr (M\<lparr>m_max := A[i := map (\<lambda>j. ?h j (replicate m 0 ! j)) [0..<m]]\<rparr>)" by simp
  moreover have "map (\<lambda>j. ?h j (replicate m 0 ! j)) [0..<m] = max_row s t m"
    using p(1) by (auto simp: max_row_def split: option.splits)
  moreover have "A[i := replicate m 0] = A" using A(2) by (rule list_update_old)
  ultimately show ?thesis by (simp only:)
qed

lemma fill_max_eq:
  assumes "tables_ok s ts" "active_n s = length ts" "active_m s = m" "m \<le> TASK_RESOURCE_MAX_AMOUNT"
    "idx_map M = map Some ts" "m_max M = replicate (length ts) (replicate m 0)"
  shows "fill_max s M = Inr (M\<lparr>m_max := map (\<lambda>t. max_row s t m) ts\<rparr>)"
proof -
  let ?Z = "replicate (length ts) (replicate m 0)"
  let ?g = "\<lambda>i M. bindR (get_at (idx_map M) i) (\<lambda>t.
       case t of
         None \<Rightarrow> Inr M
       | Some t \<Rightarrow>
           foldR (\<lambda>j M. bindR (get_task (kern s) t) (\<lambda>p. bindR (get_at (resources p) j) (\<lambda>r.
             case r of
               None \<Rightarrow> Inr M
             | Some a \<Rightarrow> bindR (get_resource s a) (\<lambda>x.
                 bindR (set_entry (m_max M) i j (n_instances x)) (\<lambda>A. Inr (M\<lparr>m_max := A\<rparr>))))))
             [0..<active_m s] M)"
  have "?g i (M\<lparr>m_max := A\<rparr>) = Inr (M\<lparr>m_max := A[i := max_row s (ts ! i) m]\<rparr>)"
    if i: "i < length ts" and A: "length A = length ts" "A ! i = ?Z ! i" for i A
  proof -
    obtain p where p: "tasks (kern s) (ts ! i) = Some p" "length (resources p) = TASK_RESOURCE_MAX_AMOUNT"
        "\<And>a. Some a \<in> set (resources p) \<Longrightarrow> res_of s a \<noteq> None"
      using assms(1) nth_mem [OF i] unfolding tables_ok_def by blast
    show ?thesis
      using fill_max_row [OF p(1,2) assms(4) p(3), of i A M] i A assms(3,5) by simp
  qed
  from foldR_array [where put = "\<lambda>A. M\<lparr>m_max := A\<rparr>" and g = ?g and B = ?Z
      and h = "\<lambda>i _. max_row s (ts ! i) m" and n = "length ts", OF this]
  have "foldR ?g [0..<length ts] (M\<lparr>m_max := ?Z\<rparr>) = Inr (M\<lparr>m_max := map (\<lambda>i. max_row s (ts ! i) m) [0..<length ts]\<rparr>)"
    by simp
  moreover have "map (\<lambda>i. max_row s (ts ! i) m) [0..<length ts] = map (\<lambda>t. max_row s t m) ts"
    by (rule nth_equalityI) auto
  moreover have "M\<lparr>m_max := ?Z\<rparr> = M" using assms(6) by simp
  ultimately show ?thesis using assms(2) by (simp add: fill_max_def)
qed

text \<open>The matrices the code builds, as functions of the tasks and of the resources.\<close>

definition matrices_of :: "rstate \<Rightarrow> tid list \<Rightarrow> nat list \<Rightarrow> matrices" where
  "matrices_of s ts rs = \<lparr>
     m_available = map (\<lambda>r. n_instances (res_at s r) - assigned_instances (res_at s r)) rs,
     m_max = map (\<lambda>t. max_row s t (length rs)) ts,
     m_alloc = alloc_upto s ts rs (length rs),
     m_need = map (\<lambda>i. pointwise (-) (map (\<lambda>t. max_row s t (length rs)) ts ! i)
       (alloc_upto s ts rs (length rs) ! i) (length rs)) [0..<length ts],
     idx_map = map Some ts\<rparr>"

lemma active_counts:
  assumes "runq (kern s) ts" "length ts < 2 ^ 32" "numbered s rs" "length rs < 2 ^ 32"
  shows "active_n s = length ts" "active_m s = length rs"
  using assms by (simp_all add: active_n_def active_m_def kernel_get_active_processes_def runq_def
      kernel_get_active_resources_def numbered_def unat_of_nat)

lemma init_deadlock_structures_eq:
  assumes "runq (kern s) ts" "length ts < 2 ^ 32" "rlist s rs" "numbered s rs" "length rs \<le> 32" "tables_ok s ts"
  shows "init_deadlock_structures s = Some (Inr (matrices_of s ts rs))"
proof -
  let ?n = "length ts" and ?m = "length rs"
  have m32: "?m < 2 ^ 32" "?m \<le> TASK_RESOURCE_MAX_AMOUNT" using assms(5) by (auto simp: TASK_RESOURCE_MAX_AMOUNT_def)
  note n = active_counts(1) [OF assms(1,2,4) m32(1)] and m = active_counts(2) [OF assms(1,2,4) m32(1)]
  let ?M0 = "reset_deadlock_structures s"
  let ?M1 = "?M0\<lparr>idx_map := map Some ts\<rparr>"
  let ?M2 = "?M1\<lparr>m_alloc := alloc_upto s ts rs ?m\<rparr>"
  let ?M3 = "?M2\<lparr>m_max := map (\<lambda>t. max_row s t ?m) ts\<rparr>"
  let ?M4 = "?M3\<lparr>m_available := map (\<lambda>r. n_instances (res_at s r) - assigned_instances (res_at s r)) rs\<rparr>"
  let ?M5 = "?M4\<lparr>m_need := map (\<lambda>i. pointwise (-) (m_max ?M4 ! i) (m_alloc ?M4 ! i) ?m) [0..<?n]\<rparr>"
  have "compute_index_map_task_struct ts ?M0 = Inr ?M1"
    by (rule compute_index_map_eq) (simp add: reset_deadlock_structures_def n)
  moreover have "fill_alloc s rs ?M1 = Inr ?M2"
    by (rule fill_alloc_eq [OF assms(3,4) m32(1) n])
      (simp_all add: reset_deadlock_structures_def n m alloc_upto_0)
  moreover have "fill_max s ?M2 = Inr ?M3"
    by (rule fill_max_eq [OF assms(6) n m m32(2)]) (simp_all add: reset_deadlock_structures_def n m)
  moreover have "fill_available s rs ?M3 = Inr ?M4"
    by (rule fill_available_eq [OF assms(3,4) m32(1)]) (simp add: reset_deadlock_structures_def m)
  moreover have "fill_need s ?M4 = Inr ?M5"
    by (rule fill_need_eq [OF n m]) (simp_all add: reset_deadlock_structures_def n max_row_def)
  ultimately have "init_deadlock_structures s = Some (Inr ?M5)"
    using queue_tasks_eq [OF assms(1)] all_resources_eq [OF assms(3)]
    by (simp add: init_deadlock_structures_def)
  moreover have "?M5 = matrices_of s ts rs" by (simp add: matrices_of_def reset_deadlock_structures_def)
  ultimately show ?thesis by (simp only:)
qed

text \<open>
  C38. The matrices handed to the deadlock prevention, for \<open>n\<close> queued tasks and \<open>m\<close> numbered resources,
  at most 32 of them: they are built without a fault, all dimensions are right, what is available of a
  resource is its instances less the assigned ones, the allocation of a task is what it is assigned
  (by the number of the resource), the need is the maximum less the allocation. The maximum of a task
  at column \<open>j\<close> is that of the resource in slot \<open>j\<close> of its table, not of the resource number \<open>j\<close>.
\<close>

theorem deadlock_matrices_built:
  assumes "runq (kern s) ts" "length ts < 2 ^ 32" "rlist s rs" "numbered s rs" "length rs \<le> 32" "tables_ok s ts"
  shows "\<exists>M. init_deadlock_structures s = Some (Inr M) \<and> idx_map M = map Some ts \<and>
    wf_arrays (m_available M) (m_alloc M) (m_need M) (length ts) (length rs) \<and>
    (\<forall>j<length rs. m_available M ! j =
       n_instances (res_at s (rs ! j)) - assigned_instances (res_at s (rs ! j))) \<and>
    (\<forall>i<length ts. \<forall>j<length rs. m_alloc M ! i ! j =
       (if assigned_task (res_at s (rs ! j)) = Some (ts ! i) then assigned_instances (res_at s (rs ! j)) else 0) \<and>
       m_max M ! i ! j = (case resources (the (tasks (kern s) (ts ! i))) ! j of
         None \<Rightarrow> 0 | Some a \<Rightarrow> n_instances (res_at s a)) \<and>
       m_need M ! i ! j = m_max M ! i ! j - m_alloc M ! i ! j)"
proof -
  have "wf_arrays (m_available (matrices_of s ts rs)) (m_alloc (matrices_of s ts rs))
      (m_need (matrices_of s ts rs)) (length ts) (length rs)"
    by (simp add: wf_arrays_def matrices_of_def max_row_def)
  then show ?thesis using init_deadlock_structures_eq [OF assms]
    by (intro exI [of _ "matrices_of s ts rs"]) (simp add: matrices_of_def alloc_upto_def max_row_def)
qed

lemma example_rstate_tables: "tables_ok example_rstate [0, 1]"
  by (auto simp: tables_ok_def example_rstate_def example_kernel_def example_task_def TASK_RESOURCE_MAX_AMOUNT_def)

theorem deadlock_matrices_built_witness:
  "\<exists>M. init_deadlock_structures example_rstate = Some (Inr M) \<and> idx_map M = [Some 0, Some 1] \<and>
     m_available M ! 0 = 1"
proof -
  have "runq (kern example_rstate) [0, 1]" "length [0, 1 :: nat] < 2 ^ 32" "length [7 :: nat] \<le> 32"
    using example_kernel_inv by (simp_all add: example_rstate_facts(5) sched_inv_def)
  from deadlock_matrices_built [OF this(1,2) example_rstate_facts(1,2) this(3) example_rstate_tables]
  show ?thesis by (auto simp: res_at_def example_rstate_def)
qed

end
