(* ===== verification/Smart_Sem.thy ===== *)
theory Smart_Sem
  imports Resource_Correct
begin

text \<open>
  The smart semaphores of \<open>src/experimental/smart_sem_kernel.c\<close> and their user-side wrappers of
  \<open>src/experimental/smart_sem_user.c\<close>, with the deadlock prevention enabled, as the build does. The
  allocations of the matrices succeed in the model (the code panics otherwise); \<open>new\<close> is the block
  that \<open>kmalloc\<close> returns for a resource.
\<close>

section \<open>The kernel side\<close>

definition SEM_MAX :: nat where "SEM_MAX = 356"

record smart_sem =
  sem_value :: u32
  used :: bool
  sem_resource :: "nat option"

record sem_state =
  rst :: rstate
  semaphores :: "smart_sem list"

definition upd_sem :: "nat \<Rightarrow> (smart_sem \<Rightarrow> smart_sem) \<Rightarrow> sem_state \<Rightarrow> sem_state res" where
  "upd_sem i g s = bindR (get_at (semaphores s) i) (\<lambda>x. Inr (s\<lparr>semaphores := (semaphores s)[i := g x]\<rparr>))"

text \<open>\<open>atomic_set_and_test\<close>: the new value is stored, the old one returned.\<close>

definition atomic_set_and_test :: "nat \<Rightarrow> u32 \<Rightarrow> sem_state \<Rightarrow> (u32 \<times> sem_state) res" where
  "atomic_set_and_test i v s =
     bindR (get_at (semaphores s) i) (\<lambda>x.
     bindR (upd_sem i (\<lambda>x. x\<lparr>sem_value := v\<rparr>) s) (\<lambda>s. Inr (sem_value x, s)))"

definition request_vector :: "nat \<Rightarrow> sem_state \<Rightarrow> u32 list res" where
  "request_vector i s =
     bindR (get_at (semaphores s) i) (\<lambda>x.
     bindR (deref (sem_resource x)) (\<lambda>r.
     bindR (get_resource (rst s) r) (\<lambda>y.
     set_at (replicate (active_m (rst s)) 0) (unat (rid y)) 1)))"

definition sys_sem_try :: "nat \<Rightarrow> sem_state \<Rightarrow> (bool \<times> sem_state) res option" where
  "sys_sem_try i s =
     bindO (init_deadlock_structures (rst s)) (\<lambda>M.
     bindO (Some (request_vector i s)) (\<lambda>req.
     case get_current_task_idx_from (rst s) M of
       None \<Rightarrow> Some (Inl (Panic ''did't find current task in idx_map_task_struct array''))
     | Some t \<Rightarrow>
         bindO (Some (request req t \<lparr>available = m_available M, mat_alloc = m_alloc M, mat_need = m_need M\<rparr>
           (active_n (rst s)) (active_m (rst s)))) (\<lambda>(status, b).
         case status of
           WAIT \<Rightarrow> Some (Inr (False, s))
         | WAIT_UNSAFE \<Rightarrow> Some (Inr (False, s))
         | SAFE \<Rightarrow> Some (bindR (atomic_set_and_test i 1 s) (\<lambda>(old, s).
             if old = 0 then Inr (True, s) else Inl (Panic ''allocation request return bad safe status'')))
         | ERROR \<Rightarrow> Some (Inl (Panic ''deadlock prevention error'')))))"

definition first_unused :: "sem_state \<Rightarrow> nat option" where
  "first_unused s = List.find (\<lambda>i. \<not> used (semaphores s ! i)) [0..<SEM_MAX]"

definition sys_sem_create :: "nat \<Rightarrow> sem_state \<Rightarrow> (int \<times> sem_state) res" where
  "sys_sem_create new s =
     (case first_unused s of
        None \<Rightarrow> Inr (-1, s)
      | Some i \<Rightarrow>
          bindR (resource_create ''sem'' new (rst s)) (\<lambda>(r, rs).
          bindR (upd_sem i (\<lambda>x. x\<lparr>sem_resource := r\<rparr>) (s\<lparr>rst := rs\<rparr>)) (\<lambda>s.
          if r = None then Inr (-1, s)
          else bindR (upd_sem i (\<lambda>x. x\<lparr>used := True\<rparr>) s) (\<lambda>s. Inr (int i, s)))))"

definition bad_id :: "int \<Rightarrow> bool" where
  "bad_id i \<longleftrightarrow> i < 0 \<or> i > int SEM_MAX"

definition sys_sem_destroy :: "int \<Rightarrow> sem_state \<Rightarrow> (int \<times> sem_state) res option" where
  "sys_sem_destroy i s =
     (if bad_id i then Some (Inr (-1, s))
      else bindO (Some (upd_sem (nat i) (\<lambda>x. x\<lparr>used := False\<rparr>) s)) (\<lambda>s.
           bindO (Some (get_at (semaphores s) (nat i))) (\<lambda>x.
           bindO (resource_destroy (sem_resource x) (rst s)) (\<lambda>r. Some (Inr (0, s\<lparr>rst := r\<rparr>))))))"

text \<open>The guards the other calls share: the range of the id, then whether the semaphore is in use.\<close>

definition with_sem ::
  "int \<Rightarrow> sem_state \<Rightarrow> (nat \<Rightarrow> smart_sem \<Rightarrow> (int \<times> sem_state) res option) \<Rightarrow> (int \<times> sem_state) res option" where
  "with_sem i s f =
     (if bad_id i then Some (Inr (-1, s))
      else bindO (Some (get_at (semaphores s) (nat i))) (\<lambda>x.
           if \<not> used x then Some (Inr (-1, s)) else f (nat i) x))"

definition sys_sem_init :: "int \<Rightarrow> sem_state \<Rightarrow> (int \<times> sem_state) res option" where
  "sys_sem_init i s = with_sem i s (\<lambda>j x.
     Some (bindR (atomic_set_and_test j 0 s) (\<lambda>(old, s).
           bindR (resource_init (sem_resource x) (rst s)) (\<lambda>r. Inr (0, s\<lparr>rst := r\<rparr>)))))"

definition sys_sem_try_acquire :: "int \<Rightarrow> sem_state \<Rightarrow> (int \<times> sem_state) res option" where
  "sys_sem_try_acquire i s = with_sem i s (\<lambda>j x.
     bindO (sys_sem_try j s) (\<lambda>(got, s).
     if got then Some (bindR (resource_assign (sem_resource x) (rst s)) (\<lambda>r. Inr (1, s\<lparr>rst := r\<rparr>)))
     else Some (Inr (0, s))))"

definition sys_sem_release :: "int \<Rightarrow> sem_state \<Rightarrow> (int \<times> sem_state) res option" where
  "sys_sem_release i s = with_sem i s (\<lambda>j x.
     Some (bindR (atomic_set_and_test j 0 s) (\<lambda>(old, s).
           bindR (resource_deassign (sem_resource x) (rst s)) (\<lambda>r. Inr (0, s\<lparr>rst := r\<rparr>)))))"

section \<open>The user side\<close>

text \<open>
  The wrappers turn a negative result into -1 and set \<open>errno\<close>; \<open>sem_acquire\<close> repeats the call until it
  returns 1. \<open>rets k\<close> is what the kernel returns to the attempt number \<open>k\<close>.
\<close>

definition syscall_result :: "int \<Rightarrow> int \<times> int option" where
  "syscall_result retval = (if retval < 0 then (-1, Some (- retval)) else (0, None))"

definition sem_create_result :: "int \<Rightarrow> int \<times> int option" where
  "sem_create_result retval = (if retval < 0 then (-1, Some (- retval)) else (retval, None))"

partial_function (option) sem_acquire_loop :: "(nat \<Rightarrow> int) \<Rightarrow> nat \<Rightarrow> int option" where
  "sem_acquire_loop rets k = (if rets k \<noteq> 1 then sem_acquire_loop rets (Suc k) else Some (rets k))"

definition sem_acquire :: "(nat \<Rightarrow> int) \<Rightarrow> (int \<times> int option) option" where
  "sem_acquire rets = map_option syscall_result (sem_acquire_loop rets 0)"

section \<open>Mutual exclusion\<close>

lemma atomic_set_and_test_eq:
  "j < length (semaphores s) \<Longrightarrow> atomic_set_and_test j v s =
     Inr (sem_value (semaphores s ! j), s\<lparr>semaphores := (semaphores s)[j := (semaphores s ! j)\<lparr>sem_value := v\<rparr>]\<rparr>)"
  by (simp add: atomic_set_and_test_def upd_sem_def)

lemma atomic_set_and_test_Inr:
  "atomic_set_and_test j v s = Inr (old, s') \<longleftrightarrow> j < length (semaphores s) \<and> old = sem_value (semaphores s ! j) \<and>
     s' = s\<lparr>semaphores := (semaphores s)[j := (semaphores s ! j)\<lparr>sem_value := v\<rparr>]\<rparr>"
  by (auto simp: atomic_set_and_test_def upd_sem_def get_at_eq_Inr)

lemma sys_sem_try_True:
  assumes "sys_sem_try j s = Some (Inr (True, s'))"
  shows "j < length (semaphores s) \<and> sem_value (semaphores s ! j) = 0 \<and>
    s' = s\<lparr>semaphores := (semaphores s)[j := (semaphores s ! j)\<lparr>sem_value := 1\<rparr>]\<rparr>"
  using assms unfolding sys_sem_try_def bindO_Inr
  by (auto split: option.splits deadlock_status.splits prod.splits if_splits simp: atomic_set_and_test_Inr bindO_Inr)
    (metis deadlock_status.exhaust)+

lemma sys_sem_try_False:
  assumes "sys_sem_try j s = Some (Inr (False, s'))"
  shows "s' = s"
  using assms unfolding sys_sem_try_def bindO_Inr
  by (auto split: option.splits deadlock_status.splits prod.splits if_splits simp: atomic_set_and_test_Inr bindO_Inr)
    (metis deadlock_status.exhaust)+

text \<open>
  One granted acquisition: the semaphore is in use and its value was 0 before; afterwards it is 1 and its
  resource is assigned to the current task, and no other semaphore changes.
\<close>

lemma sem_granted:
  assumes "sys_sem_try_acquire i s = Some (Inr (1, s'))"
  shows "0 \<le> i \<and> nat i < length (semaphores s) \<and> used (semaphores s ! nat i) \<and>
    sem_value (semaphores s ! nat i) = 0 \<and> sem_value (semaphores s' ! nat i) = 1 \<and>
    (\<forall>j. j \<noteq> nat i \<longrightarrow> semaphores s' ! j = semaphores s ! j) \<and>
    (\<forall>r. sem_resource (semaphores s ! nat i) = Some r \<longrightarrow>
       map_option assigned_task (res_of (rst s') r) = Some (curr (kern (rst s))))"
proof -
  obtain s1 where 1: "\<not> bad_id i" "nat i < length (semaphores s)" "used (semaphores s ! nat i)"
      "sys_sem_try (nat i) s = Some (Inr (True, s1))"
      "bindR (resource_assign (sem_resource (semaphores s ! nat i)) (rst s1)) (\<lambda>r. Inr (1 :: int, s1\<lparr>rst := r\<rparr>)) = Inr (1, s')"
    using assms unfolding sys_sem_try_acquire_def with_sem_def
    by (auto simp: bindO_Inr get_at_eq_Inr split: if_splits prod.splits)
  note 2 = sys_sem_try_True [OF 1(4)]
  have "semaphores s' = (semaphores s)[nat i := (semaphores s ! nat i)\<lparr>sem_value := 1\<rparr>]"
    using 1(5) 2 by auto
  moreover have "map_option assigned_task (res_of (rst s') r) = Some (curr (kern (rst s)))"
    if "sem_resource (semaphores s ! nat i) = Some r" for r
    using 1(5) 2 that by (auto simp: resource_assign_def upd_resource_def get_resource_def put_resource_def
        split: option.splits)
  ultimately show ?thesis using 1(1-3) 2 by (auto simp: bad_id_def)
qed

section \<open>Runs of semaphore calls\<close>

text \<open>
  The calls of all tasks in the order the kernel serves them, each with what it returned; \<open>Other\<close> is any
  other work of the kernel in between (scheduling, other calls), which does not touch the table of
  semaphores.
\<close>

datatype sem_call = SemCreate nat | SemDestroy int | SemInit int | SemTryAcquire int | SemRelease int

datatype sem_event = Call sem_call int | Other

fun serve :: "sem_call \<Rightarrow> sem_state \<Rightarrow> (int \<times> sem_state) res option" where
  "serve (SemCreate new) s = Some (sys_sem_create new s)"
| "serve (SemDestroy i) s = sys_sem_destroy i s"
| "serve (SemInit i) s = sys_sem_init i s"
| "serve (SemTryAcquire i) s = sys_sem_try_acquire i s"
| "serve (SemRelease i) s = sys_sem_release i s"

fun sem_step :: "sem_event \<Rightarrow> sem_state \<Rightarrow> sem_state \<Rightarrow> bool" where
  "sem_step (Call c r) s s' \<longleftrightarrow> serve c s = Some (Inr (r, s'))"
| "sem_step Other s s' \<longleftrightarrow> semaphores s' = semaphores s"

fun sem_run :: "sem_state \<Rightarrow> sem_event list \<Rightarrow> sem_state \<Rightarrow> bool" where
  "sem_run s [] s' \<longleftrightarrow> s' = s"
| "sem_run s (e # es) s' \<longleftrightarrow> (\<exists>s1. sem_step e s s1 \<and> sem_run s1 es s')"

lemma sem_run_append: "sem_run s (es @ fs) s' \<longleftrightarrow> (\<exists>s1. sem_run s es s1 \<and> sem_run s1 fs s')"
  by (induction es arbitrary: s) auto

definition frees :: "int \<Rightarrow> sem_event \<Rightarrow> bool" where
  "frees i e \<longleftrightarrow> e = Call (SemInit i) 0 \<or> e = Call (SemRelease i) 0"

text \<open>The value of a semaphore after the updates of its table entry that the calls make.\<close>

lemma value_upd_gen:
  assumes "\<And>x. sem_value (f x) = sem_value x"
  shows "sem_value (xs[j := f (xs ! j)] ! k) = sem_value (xs ! k)"
proof (cases "k = j \<and> j < length xs")
  case True
  then show ?thesis using assms by simp
next
  case False
  then have "xs[j := f (xs ! j)] ! k = xs ! k" by (cases "j < length xs") (auto simp: list_update_beyond not_less)
  then show ?thesis by simp
qed

lemmas value_upd =
  value_upd_gen [of "\<lambda>x. x\<lparr>sem_resource := r\<rparr>" for r, simplified]
  value_upd_gen [of "\<lambda>x. x\<lparr>used := u\<rparr>" for u, simplified]
  value_upd_gen [of "\<lambda>x. x\<lparr>sem_resource := r, used := u\<rparr>" for r u, simplified]

lemma create_value: "sys_sem_create new s = Inr (r, s') \<Longrightarrow> sem_value (semaphores s' ! k) = sem_value (semaphores s ! k)"
  by (auto simp: sys_sem_create_def upd_sem_def get_at_eq_Inr value_upd split: option.splits if_splits)

lemma destroy_value:
  assumes "sys_sem_destroy i s = Some (Inr (r, s'))"
  shows "sem_value (semaphores s' ! k) = sem_value (semaphores s ! k)"
proof (cases "bad_id i")
  case False
  then obtain s1 where "upd_sem (nat i) (\<lambda>x. x\<lparr>used := False\<rparr>) s = Inr s1" "semaphores s' = semaphores s1"
    using assms unfolding sys_sem_destroy_def by (simp only: if_False bindO_Inr) fastforce
  then show ?thesis by (simp add: upd_sem_def get_at_eq_Inr) (use value_upd(2) in fastforce)
qed (use assms in \<open>simp add: sys_sem_destroy_def\<close>)

lemma free_value:
  assumes "sys_sem_init i s = Some (Inr (r, s')) \<or> sys_sem_release i s = Some (Inr (r, s'))" "r = 0 \<Longrightarrow> i \<noteq> int k"
  shows "sem_value (semaphores s' ! k) = sem_value (semaphores s ! k)"
proof -
  from assms(1) consider "s' = s" | "r = 0" "0 \<le> i" "semaphores s' = (semaphores s)[nat i := (semaphores s ! nat i)\<lparr>sem_value := 0\<rparr>]"
    by (auto simp: sys_sem_init_def sys_sem_release_def with_sem_def bindO_Inr atomic_set_and_test_Inr bad_id_def split: if_splits)
  then show ?thesis by cases (use assms(2) in \<open>auto simp: nth_list_update_neq\<close>)
qed

lemma try_value:
  assumes "sys_sem_try_acquire i s = Some (Inr (r, s'))" "sem_value (semaphores s ! k) \<noteq> 0"
  shows "sem_value (semaphores s' ! k) = sem_value (semaphores s ! k)"
proof (cases "r = 1")
  case True
  then show ?thesis using sem_granted [of i s s'] assms by (cases "k = nat i") auto
next
  case False
  have "s' = s"
  proof (cases "bad_id i \<or> \<not> used (semaphores s ! nat i)")
    case True
    then show ?thesis using assms(1)
      by (auto simp: sys_sem_try_acquire_def with_sem_def bindO_Inr get_at_eq_Inr split: if_splits)
  next
    case ok: False
    then obtain s1 where "sys_sem_try (nat i) s = Some (Inr (False, s1))" "s' = s1"
      using assms(1) False by (auto simp: sys_sem_try_acquire_def with_sem_def bindO_Inr get_at_eq_Inr split: if_splits)
    then show ?thesis using sys_sem_try_False by simp
  qed
  then show ?thesis by simp
qed

lemma held_step:
  assumes "sem_step e s s'" "sem_value (semaphores s ! k) \<noteq> 0" "\<not> frees (int k) e"
  shows "sem_value (semaphores s' ! k) \<noteq> 0"
proof (cases e)
  case Other
  then show ?thesis using assms by simp
next
  case (Call c r)
  have "sem_value (semaphores s' ! k) = sem_value (semaphores s ! k)"
  proof (cases c)
    case (SemInit i)
    then show ?thesis using assms Call by (intro free_value [of i _ r]) (auto simp: frees_def)
  next
    case (SemRelease i)
    then show ?thesis using assms Call by (intro free_value [of i _ r]) (auto simp: frees_def)
  qed (use assms Call create_value destroy_value try_value in auto)
  then show ?thesis using assms(2) by simp
qed

lemma held_run:
  "sem_run s es s' \<Longrightarrow> sem_value (semaphores s ! k) \<noteq> 0 \<Longrightarrow> \<forall>e\<in>set es. \<not> frees (int k) e \<Longrightarrow> sem_value (semaphores s' ! k) \<noteq> 0"
proof (induction es arbitrary: s)
  case (Cons e es)
  then show ?case using held_step [of e s _ k] by auto
qed simp

text \<open>
  C37. Between two grants of a semaphore it is freed: in every run of semaphore calls by any tasks, with any other work
  of the kernel in between, after an acquisition that returned 1 no other acquisition of the same
  semaphore returns 1 until a \<open>sys_sem_release\<close> or a \<open>sys_sem_init\<close> of it has returned 0. Destroying the
  semaphore and creating it anew does not free it. Neither of the two calls asks who holds the semaphore.
\<close>

theorem sem_grants_separated:
  assumes "sem_run s (es1 @ Call (SemTryAcquire i) 1 # es2 @ Call (SemTryAcquire i) 1 # es3) s'"
  shows "Call (SemRelease i) 0 \<in> set es2 \<or> Call (SemInit i) 0 \<in> set es2"
proof (rule ccontr)
  assume none: "\<not> ?thesis"
  from assms obtain s1 s2 s3 s4 where 1: "sys_sem_try_acquire i s1 = Some (Inr (1, s2))" "sem_run s2 es2 s3"
      "sys_sem_try_acquire i s3 = Some (Inr (1, s4))"
    by (auto simp: sem_run_append)
  have i: "int (nat i) = i" and v: "sem_value (semaphores s2 ! nat i) \<noteq> 0" using sem_granted [OF 1(1)] by auto
  have "\<forall>e\<in>set es2. \<not> frees (int (nat i)) e" using none i by (auto simp: frees_def)
  with held_run [OF 1(2) v] have "sem_value (semaphores s3 ! nat i) \<noteq> 0" by blast
  then show False using sem_granted [OF 1(3)] by simp
qed

section \<open>What decides an acquisition\<close>

text \<open>
  A well-formed state for the queued tasks \<open>ts\<close> and the resources \<open>rs\<close>: a numbered list of at most 32
  resources with one instance each, and tasks whose tables refer to live resources.
\<close>

definition wf_sem :: "sem_state \<Rightarrow> tid list \<Rightarrow> nat list \<Rightarrow> bool" where
  "wf_sem s ts rs \<longleftrightarrow> runq (kern (rst s)) ts \<and> length ts < 2 ^ 32 \<and> rlist (rst s) rs \<and> numbered (rst s) rs \<and>
     length rs \<le> 32 \<and> tables_ok (rst s) ts \<and>
     (\<forall>r\<in>set rs. n_instances (res_at (rst s) r) = 1 \<and> assigned_instances (res_at (rst s) r) \<le> 1)"

definition banker_of :: "sem_state \<Rightarrow> tid list \<Rightarrow> nat list \<Rightarrow> banker" where
  "banker_of s ts rs = \<lparr>available = m_available (matrices_of (rst s) ts rs),
     mat_alloc = m_alloc (matrices_of (rst s) ts rs), mat_need = m_need (matrices_of (rst s) ts rs)\<rparr>"

lemma owner_column:
  assumes "distinct ts"
  shows "(\<Sum>i<length ts. if own = Some (ts ! i) then a else (0 :: nat)) \<le> a"
proof -
  have "card {i. i < length ts \<and> own = Some (ts ! i)} \<le> Suc 0"
    using assms by (subst card_le_Suc0_iff_eq) (auto simp: nth_eq_iff_index_eq)
  moreover have "(\<Sum>i<length ts. if own = Some (ts ! i) then a else (0 :: nat)) =
      a * card {i. i < length ts \<and> own = Some (ts ! i)}"
    by (simp add: sum.If_cases Int_def lessThan_def)
  ultimately show ?thesis by simp
qed

lemma banker_of_wf:
  assumes "wf_sem s ts rs"
  shows "wf_banker (banker_of s ts rs) (length ts) (length rs)"
proof -
  let ?M = "matrices_of (rst s) ts rs"
  have "wf_arrays (m_available ?M) (m_alloc ?M) (m_need ?M) (length ts) (length rs)"
    by (simp add: wf_arrays_def matrices_of_def max_row_def)
  moreover have "instances (m_available ?M) (m_alloc ?M) (length ts) j < 2 ^ 32" if j: "j < length rs" for j
  proof -
    let ?x = "res_at (rst s) (rs ! j)"
    have x: "n_instances ?x = 1" "assigned_instances ?x \<le> 1" using assms j by (auto simp: wf_sem_def)
    have "distinct ts" using assms runq_distinct by (auto simp: wf_sem_def)
    have "(\<Sum>i<length ts. mat (m_alloc ?M) i j) =
        (\<Sum>i<length ts. if assigned_task ?x = Some (ts ! i) then unat (assigned_instances ?x) else 0)"
      using j by (intro sum.cong) (auto simp: matrices_of_def alloc_upto_def)
    also have "\<dots> \<le> unat (assigned_instances ?x)" by (rule owner_column [OF \<open>distinct ts\<close>])
    also have "\<dots> \<le> 1" using x(2) by (simp add: word_le_unat)
    finally have "(\<Sum>i<length ts. mat (m_alloc ?M) i j) \<le> 1" .
    moreover have "unat (m_available ?M ! j) \<le> 1"
      using x j by (simp add: matrices_of_def unat_sub_le word_le_unat)
    ultimately show ?thesis by (simp add: instances_def)
  qed
  ultimately show ?thesis by (simp add: wf_banker_def no_overflow_def banker_of_def)
qed

definition unit_vec :: "nat \<Rightarrow> nat \<Rightarrow> u32 list" where
  "unit_vec m j = (replicate m 0)[j := 1]"

lemma find_first:
  assumes "c < n" "P c" "\<And>i. i < n \<Longrightarrow> P i \<Longrightarrow> i = c"
  shows "List.find P [0..<n] = Some c"
proof -
  have "\<not> P k" if "k < c" for k using assms(1) assms(3) [of k] that by auto
  with assms(1,2) show ?thesis unfolding find_Some_iff by (intro exI [of _ c]) simp
qed

lemma sys_sem_try_eq:
  assumes wf: "wf_sem s ts rs" and c: "c < length ts" "curr (kern (rst s)) = Some (ts ! c)"
    and i: "i < length (semaphores s)" "sem_resource (semaphores s ! i) = Some (rs ! j)" "j < length rs"
  shows "sys_sem_try i s = bindO (Some (request (unit_vec (length rs) j) c (banker_of s ts rs) (length ts) (length rs)))
    (\<lambda>(status, b). case status of
         WAIT \<Rightarrow> Some (Inr (False, s))
       | WAIT_UNSAFE \<Rightarrow> Some (Inr (False, s))
       | SAFE \<Rightarrow> Some (bindR (atomic_set_and_test i 1 s) (\<lambda>(old, s).
           if old = 0 then Inr (True, s) else Inl (Panic ''allocation request return bad safe status'')))
       | ERROR \<Rightarrow> Some (Inl (Panic ''deadlock prevention error'')))"
proof -
  let ?M = "matrices_of (rst s) ts rs"
  have w: "runq (kern (rst s)) ts" "length ts < 2 ^ 32" "rlist (rst s) rs" "numbered (rst s) rs"
      "length rs \<le> 32" "tables_ok (rst s) ts" "length rs < 2 ^ 32"
    using wf by (auto simp: wf_sem_def)
  note counts = active_counts [OF w(1,2,4,7)]
  have d: "distinct ts" using w(1) by (rule runq_distinct)
  have "get_current_task_idx_from (rst s) ?M = Some c"
    unfolding get_current_task_idx_from_def counts
    by (rule find_first) (use c d in \<open>auto simp: matrices_of_def nth_eq_iff_index_eq\<close>)
  moreover have "request_vector i s = Inr (unit_vec (length rs) j)"
    using i rlist_numbered_nth [OF w(3,4) i(3) w(7)] counts by (simp add: request_vector_def unit_vec_def)
  ultimately show ?thesis
    using init_deadlock_structures_eq [OF w(1-6)] counts
    by (simp add: sys_sem_try_def banker_of_def)
qed

lemma unit_vec_exceeds:
  assumes "j < m" "length v = m"
  shows "exceeds (unit_vec m j) v m \<longleftrightarrow> v ! j = 0"
proof -
  have "v ! j < 1 \<longleftrightarrow> v ! j = 0" by (simp add: word_less_nat_alt unat_eq_0)
  then show ?thesis using assms by (auto simp: exceeds_def unit_vec_def nth_list_update)
qed

text \<open>
  Which acquisitions succeed: in a well-formed state in which the semaphore of number \<open>j\<close> is in
  slot \<open>j\<close> of the current task's table, has the value of its assignment and is not held by the caller,
  \<open>sys_sem_try_acquire\<close> never panics. It returns 1 exactly when the semaphore is free and granting it
  leaves a safe state; otherwise it returns 0 and changes nothing.
\<close>

theorem sem_try_acquire_decides:
  assumes wf: "wf_sem s ts rs" and c: "c < length ts" "curr (kern (rst s)) = Some (ts ! c)"
    and i: "i < length (semaphores s)" "i \<le> SEM_MAX" "used (semaphores s ! i)"
    and j: "sem_resource (semaphores s ! i) = Some (rs ! j)" "j < length rs"
    and slot: "\<And>p. tasks (kern (rst s)) (ts ! c) = Some p \<Longrightarrow> resources p ! j = Some (rs ! j)"
    and val: "sem_value (semaphores s ! i) = assigned_instances (res_at (rst s) (rs ! j))"
    and other: "assigned_task (res_at (rst s) (rs ! j)) \<noteq> Some (ts ! c)"
  defines "b \<equiv> banker_of s ts rs" and "req \<equiv> unit_vec (length rs) j"
  shows "if sem_value (semaphores s ! i) = 0 \<and> safe_banker (grant req c b (length rs)) (length ts) (length rs)
    then \<exists>s'. sys_sem_try_acquire (int i) s = Some (Inr (1, s'))
    else sys_sem_try_acquire (int i) s = Some (Inr (0, s))"
proof -
  let ?m = "length rs" and ?n = "length ts" and ?x = "res_at (rst s) (rs ! j)"
  have wfb: "wf_banker b ?n ?m" unfolding b_def by (rule banker_of_wf [OF wf])
  obtain p where p: "tasks (kern (rst s)) (ts ! c) = Some p"
    using wf c(1) by (fastforce simp: wf_sem_def runq_def)
  have x: "n_instances ?x = 1" "assigned_instances ?x \<le> 1" using wf j(2) by (auto simp: wf_sem_def)
  have "mat_need b ! c ! j = 1"
    using c(1) j(2) p slot [OF p] other x(1)
    by (simp add: b_def banker_of_def matrices_of_def max_row_def alloc_upto_def)
  then have need: "\<not> exceeds req (mat_need b ! c) ?m"
    using wf_banker_dims(5) [OF wfb c(1)] j(2) by (simp add: req_def unit_vec_exceeds)
  have "available b ! j = 1 - assigned_instances ?x"
    using j(2) x(1) by (simp add: b_def banker_of_def matrices_of_def)
  moreover have "assigned_instances ?x = 0 \<or> assigned_instances ?x = 1"
    using x(2) by (rule word_le_1_cases)
  ultimately have avail: "exceeds req (available b) ?m \<longleftrightarrow> sem_value (semaphores s ! i) \<noteq> 0"
    using wf_banker_dims(1) [OF wfb] j(2) val by (auto simp: req_def unit_vec_exceeds)
  have "request req c b ?n ?m = Inr (if exceeds req (available b) ?m then (WAIT, b)
      else if safe_banker (grant req c b ?m) ?n ?m then (SAFE, grant req c b ?m) else (WAIT_UNSAFE, b))"
    using request_eq [OF wfb c(1), of req] need by (simp add: req_def unit_vec_def)
  then have tried: "sys_sem_try i s =
      (if sem_value (semaphores s ! i) = 0 \<and> safe_banker (grant req c b ?m) ?n ?m
       then Some (Inr (True, s\<lparr>semaphores := (semaphores s)[i := (semaphores s ! i)\<lparr>sem_value := 1\<rparr>]\<rparr>))
       else Some (Inr (False, s)))"
    using sys_sem_try_eq [OF wf c i(1) j] avail i(1)
    by (simp add: atomic_set_and_test_eq b_def req_def)
  have "\<exists>r'. resource_assign (Some (rs ! j)) (rst s) = Inr r'"
    using rlist_numbered_nth(1) [of "rst s" rs j] wf j(2)
    by (simp add: wf_sem_def resource_assign_def upd_resource_def)
  then show ?thesis using tried i j(1)
    by (auto simp: sys_sem_try_acquire_def with_sem_def bad_id_def)
qed

text \<open>Two tasks that share a resource in slot 0 of their tables, and a semaphore on it.\<close>

definition sharing_task :: "int \<Rightarrow> task_struct" where
  "sharing_task i = (example_task i)\<lparr>resources := Some 7 # replicate 31 None\<rparr>"

definition example_sem :: sem_state where
  "example_sem = \<lparr>rst = example_rstate\<lparr>kern := example_kernel\<lparr>tasks := [0 \<mapsto> sharing_task 1, 1 \<mapsto> sharing_task 2]\<rparr>\<rparr>,
     semaphores = \<lparr>sem_value = 0, used = True, sem_resource = Some 7\<rparr> #
       replicate 355 \<lparr>sem_value = 0, used = False, sem_resource = None\<rparr>\<rparr>"

lemma example_sem_sel [simp]:
  "kern (rst example_sem) = example_kernel\<lparr>tasks := [0 \<mapsto> sharing_task 1, 1 \<mapsto> sharing_task 2]\<rparr>"
  "res_of (rst example_sem) = res_of example_rstate" "rlinks (rst example_sem) = rlinks example_rstate"
  "r_active (rst example_sem) = 1" "semaphores example_sem ! 0 = \<lparr>sem_value = 0, used = True, sem_resource = Some 7\<rparr>"
  "length (semaphores example_sem) = 356"
  by (simp_all add: example_sem_def example_rstate_def)

lemma example_sem_wf: "wf_sem example_sem [0, 1] [7]"
proof -
  have "runq (kern (rst example_sem)) [0, 1]"
    using example_kernel_inv by (simp add: sched_inv_def runq_def)
  moreover have "rlist (rst example_sem) [7]" "numbered (rst example_sem) [7]"
    using example_rstate_facts(1,2) by (simp_all add: rlist_def numbered_def example_rstate_def)
  moreover have "tables_ok (rst example_sem) [0, 1]"
    by (auto simp: tables_ok_def sharing_task_def TASK_RESOURCE_MAX_AMOUNT_def example_rstate_def)
  ultimately show ?thesis by (simp add: wf_sem_def res_at_def example_rstate_def)
qed

lemma example_sem_matrices:
  "banker_of example_sem [0, 1] [7] = \<lparr>available = [1], mat_alloc = [[0], [0]], mat_need = [[1], [1]]\<rparr>"
  by (simp add: banker_of_def matrices_of_def alloc_upto_def max_row_def res_at_def example_rstate_def
      example_kernel_def sharing_task_def pointwise_def)

lemma example_sem_safe:
  "safe_banker (grant (unit_vec 1 0) 0 (banker_of example_sem [0, 1] [7]) 1) 2 1"
proof -
  have "wf_banker (banker_of example_sem [0, 1] [7]) 2 1" using banker_of_wf [OF example_sem_wf] by (simp add: numeral_2_eq_2)
  moreover have "request (unit_vec 1 0) 0 \<lparr>available = [1], mat_alloc = [[0], [0]], mat_need = [[1], [1]]\<rparr> 2 1 =
      Inr (SAFE, \<lparr>available = [0], mat_alloc = [[1], [0]], mat_need = [[0], [1]]\<rparr>)" by code_simp
  ultimately show ?thesis
    using request_eq [of "banker_of example_sem [0, 1] [7]" 2 1 0 "unit_vec 1 0"]
    unfolding example_sem_matrices by (simp add: unit_vec_def split: if_splits)
qed

theorem sem_try_acquire_decides_witness:
  "\<exists>s'. sys_sem_try_acquire 0 example_sem = Some (Inr (1, s'))"
  using sem_try_acquire_decides [OF example_sem_wf, of 0 0 0] example_sem_safe
  by (simp add: example_kernel_def sharing_task_def res_at_def example_rstate_def SEM_MAX_def numeral_2_eq_2)

lemma example_sem_acquired:
  "\<exists>s1. sys_sem_try_acquire 0 example_sem = Some (Inr (1, s1)) \<and> sys_sem_release 0 s1 = Some (Inr (0, example_sem))"
proof -
  have "sys_sem_try 0 example_sem = Some (Inr (True,
      example_sem\<lparr>semaphores := (semaphores example_sem)[0 := (semaphores example_sem ! 0)\<lparr>sem_value := 1\<rparr>]\<rparr>))"
  proof -
    have "request (unit_vec 1 0) 0 \<lparr>available = [1], mat_alloc = [[0], [0]], mat_need = [[1], [1]]\<rparr> 2 1 =
      Inr (SAFE, \<lparr>available = [0], mat_alloc = [[1], [0]], mat_need = [[0], [1]]\<rparr>)" by code_simp
    then show ?thesis
      using sys_sem_try_eq [OF example_sem_wf, of 0 0 0] unfolding example_sem_matrices
      by (simp add: example_kernel_def atomic_set_and_test_eq numeral_2_eq_2)
  qed
  moreover define s1 where "s1 = example_sem\<lparr>semaphores := (semaphores example_sem)[0 := (semaphores example_sem ! 0)\<lparr>sem_value := 1\<rparr>],
      rst := put_resource 7 \<lparr>rid = 0, n_instances = 1, category = ''sem'', assigned_task = Some 0, assigned_instances = 1\<rparr> (rst example_sem)\<rparr>"
  ultimately have "sys_sem_try_acquire 0 example_sem = Some (Inr (1, s1))"
    by (simp add: sys_sem_try_acquire_def with_sem_def bad_id_def resource_assign_def upd_resource_def get_resource_def
        example_rstate_def example_kernel_def)
  moreover have "(semaphores example_sem)[0 := \<lparr>sem_value = 0, used = True, sem_resource = Some 7\<rparr>] = semaphores example_sem"
    using list_update_id [of "semaphores example_sem" 0] by simp
  moreover have "put_resource 7 \<lparr>rid = 0, n_instances = 1, category = ''sem'', assigned_task = None, assigned_instances = 0\<rparr> (rst example_sem) = rst example_sem"
    by (simp add: put_resource_def example_sem_def example_rstate_def)
  ultimately show ?thesis
    by (intro exI [of _ s1]) (simp add: s1_def sys_sem_release_def with_sem_def bad_id_def resource_deassign_def
        upd_resource_def get_resource_def put_resource_def atomic_set_and_test_eq)
qed

theorem sem_grants_separated_witness:
  "(\<exists>s'. sem_run example_sem [Call (SemTryAcquire 0) 1, Call (SemRelease 0) 0, Call (SemTryAcquire 0) 1] s') \<and>
   \<not> (\<exists>s'. sem_run example_sem [Call (SemTryAcquire 0) 1, Other, Call (SemTryAcquire 0) 1] s')"
proof
  show "\<exists>s'. sem_run example_sem [Call (SemTryAcquire 0) 1, Call (SemRelease 0) 0, Call (SemTryAcquire 0) 1] s'"
    using example_sem_acquired by auto
  show "\<not> (\<exists>s'. sem_run example_sem [Call (SemTryAcquire 0) 1, Other, Call (SemTryAcquire 0) 1] s')"
    using sem_grants_separated [of example_sem "[]" 0 "[Other]" "[]"] by auto
qed

section \<open>Errors\<close>

text \<open>
  The range check of the semaphore calls accepts one id too many: the table has 356 entries, ids
  below 0 or above 356 are refused with -1 and change nothing, but the id 356 passes the check and
  every call then accesses the table past its end.
\<close>

theorem sem_id_off_by_one:
  assumes "length (semaphores s) = SEM_MAX"
  shows "(\<forall>i. i < 0 \<or> i > 356 \<longrightarrow> sys_sem_destroy i s = Some (Inr (-1, s)) \<and> sys_sem_init i s = Some (Inr (-1, s)) \<and>
      sys_sem_try_acquire i s = Some (Inr (-1, s)) \<and> sys_sem_release i s = Some (Inr (-1, s))) \<and>
    sys_sem_destroy 356 s = Some (Inl OutOfBounds) \<and> sys_sem_init 356 s = Some (Inl OutOfBounds) \<and>
    sys_sem_try_acquire 356 s = Some (Inl OutOfBounds) \<and> sys_sem_release 356 s = Some (Inl OutOfBounds)"
  using assms
  by (auto simp: sys_sem_destroy_def sys_sem_init_def sys_sem_try_acquire_def sys_sem_release_def with_sem_def
      bad_id_def upd_sem_def get_at_def SEM_MAX_def)

theorem sem_id_off_by_one_witness:
  "sys_sem_release 356 example_sem = Some (Inl OutOfBounds) \<and>
   sys_sem_release 357 example_sem = Some (Inr (-1, example_sem))"
  using sem_id_off_by_one [of example_sem] by (simp add: SEM_MAX_def)

text \<open>
  The first semaphore after boot: nothing initialises the head of the list of resources, whose
  pointers are null, so creating a semaphore for a task with a free slot dereferences null.
\<close>

theorem sem_create_at_boot_faults:
  assumes "nxt (rlinks (rst s)) RHead = None" "prv (rlinks (rst s)) RHead = None"
    "first_unused s = Some i" "curr (kern (rst s)) = Some c" "tasks (kern (rst s)) c = Some p"
    "free_slot (resources p) 0 = Inr (Some k)"
  shows "sys_sem_create new s = Inl NullDeref"
  using assms
  by (simp add: sys_sem_create_def resource_create_def get_task_def Let_def put_resource_def
      list_head_add_tail_def list_add_def list_head_init_def)

theorem sem_create_at_boot_faults_witness:
  "sys_sem_create 9 \<lparr>rst = example_rstate\<lparr>res_of := (\<lambda>_. None), rlinks := \<lparr>nxt = (\<lambda>_. None), prv = (\<lambda>_. None)\<rparr>, r_active := 0\<rparr>,
     semaphores = replicate 356 \<lparr>sem_value = 0, used = False, sem_resource = None\<rparr>\<rparr> = Inl NullDeref"
proof (rule sem_create_at_boot_faults [where i = 0 and c = 0 and p = "example_task 1" and k = 0])
  show "free_slot (resources (example_task 1)) 0 = Inr (Some 0)"
    by (subst free_slot.simps) (simp add: example_task_def)
qed (simp_all add: first_unused_def SEM_MAX_def upt_conv_Cons example_rstate_def example_kernel_def)

text \<open>
  Two acquisitions bring the kernel down although the semaphore exists: one by a task whose table
  has the semaphore in a slot other than its number (slot \<open>j\<close> empty, as after creating semaphore \<open>j > 0\<close>
  as its first), and one by the task that already holds it. In both cases the computed need is 0, the
  request is an error and \<open>kernel_panic\<close> is called.
\<close>

theorem sem_try_acquire_panics:
  assumes wf: "wf_sem s ts rs" and c: "c < length ts" "curr (kern (rst s)) = Some (ts ! c)"
    and i: "i < length (semaphores s)" "i \<le> SEM_MAX" "used (semaphores s ! i)"
    and j: "sem_resource (semaphores s ! i) = Some (rs ! j)" "j < length rs"
    and p: "tasks (kern (rst s)) (ts ! c) = Some p"
    and bad: "resources p ! j = None \<and> assigned_task (res_at (rst s) (rs ! j)) \<noteq> Some (ts ! c) \<or>
      resources p ! j = Some (rs ! j) \<and> assigned_task (res_at (rst s) (rs ! j)) = Some (ts ! c) \<and>
      assigned_instances (res_at (rst s) (rs ! j)) = 1"
  shows "sys_sem_try_acquire (int i) s = Some (Inl (Panic ''deadlock prevention error''))"
proof -
  let ?m = "length rs" and ?n = "length ts" and ?b = "banker_of s ts rs" and ?x = "res_at (rst s) (rs ! j)"
  have wfb: "wf_banker ?b ?n ?m" by (rule banker_of_wf [OF wf])
  have "n_instances ?x = 1" using wf j(2) by (auto simp: wf_sem_def)
  then have "mat_need ?b ! c ! j = 0"
    using c(1) j(2) p bad by (auto simp: banker_of_def matrices_of_def max_row_def alloc_upto_def)
  then have "exceeds (unit_vec ?m j) (mat_need ?b ! c) ?m"
    using wf_banker_dims(5) [OF wfb c(1)] j(2) by (simp add: unit_vec_exceeds)
  then have "request (unit_vec ?m j) c ?b ?n ?m = Inr (ERROR, ?b)"
    using request_eq [OF wfb c(1), of "unit_vec ?m j"] by (simp add: unit_vec_def)
  then show ?thesis
    using sys_sem_try_eq [OF wf c i(1) j] i by (simp add: sys_sem_try_acquire_def with_sem_def bad_id_def)
qed

text \<open>The example in which the first task holds the semaphore already.\<close>

definition example_held :: sem_state where
  "example_held = example_sem\<lparr>rst := put_resource 7 \<lparr>rid = 0, n_instances = 1, category = ''sem'',
     assigned_task = Some 0, assigned_instances = 1\<rparr> (rst example_sem)\<rparr>"

lemma example_held_wf: "wf_sem example_held [0, 1] [7]"
  using example_sem_wf
  by (auto simp: wf_sem_def example_held_def put_resource_def rlist_def numbered_def res_at_def tables_ok_def)

theorem sem_try_acquire_panics_witness:
  "sys_sem_try_acquire 0 example_held = Some (Inl (Panic ''deadlock prevention error''))"
  using sem_try_acquire_panics [OF example_held_wf, of 0 0 0 "sharing_task 1"]
  by (simp add: example_held_def put_resource_def res_at_def example_kernel_def sharing_task_def SEM_MAX_def)

section \<open>The user side loop\<close>

lemma sem_acquire_loop_returns:
  "rets (k + n) = 1 \<Longrightarrow> (\<And>i. i < n \<Longrightarrow> rets (k + i) \<noteq> 1) \<Longrightarrow> sem_acquire_loop rets k = Some 1"
proof (induction n arbitrary: k)
  case 0
  then show ?case by (simp add: sem_acquire_loop.simps)
next
  case (Suc n)
  have "sem_acquire_loop rets (Suc k) = Some 1"
    using Suc.prems(1) Suc.prems(2) [of "Suc _"] by (intro Suc.IH) auto
  moreover have "rets k \<noteq> 1" using Suc.prems(2) [of 0] by simp
  ultimately show ?case by (subst sem_acquire_loop.simps) simp
qed

lemma sem_acquire_loop_Some: "sem_acquire_loop rets k = Some r \<Longrightarrow> \<exists>n. rets n = 1"
  by (erule sem_acquire_loop.raw_induct [of "\<lambda>rets k r. \<exists>n. rets n = 1", rotated]) (auto split: if_splits)

text \<open>
  The user-side \<open>sem_acquire\<close> returns exactly when some attempt is granted, and then returns 0;
  it never reports an error: for a bad or unused id, to which the kernel always answers -1, it does not
  return.
\<close>

theorem sem_acquire_returns_iff_granted:
  "(sem_acquire rets = Some (0, None) \<longleftrightarrow> (\<exists>n. rets n = 1)) \<and>
   (sem_acquire rets \<noteq> None \<longleftrightarrow> (\<exists>n. rets n = 1))"
proof -
  have yes: "sem_acquire rets = Some (0, None)" if ex: "\<exists>n. rets n = 1"
  proof -
    obtain n where n: "rets n = 1" "\<forall>i<n. rets i \<noteq> 1"
      using ex unfolding exists_least_iff [of "\<lambda>n. rets n = 1"] by blast
    have "sem_acquire_loop rets 0 = Some 1" by (rule sem_acquire_loop_returns [of rets 0 n]) (use n in simp_all)
    then show ?thesis by (simp add: sem_acquire_def syscall_result_def)
  qed
  have "\<exists>n. rets n = 1" if "sem_acquire rets \<noteq> None"
  proof -
    from that obtain r where "sem_acquire_loop rets 0 = Some r" by (auto simp: sem_acquire_def)
    then show ?thesis by (rule sem_acquire_loop_Some)
  qed
  with yes show ?thesis by blast
qed

end
