(* ===== verification/Char_Map.thy ===== *)
theory Char_Map
  imports C_String
begin

text \<open>
  The routines of \<open>src/libc/string.c\<close> that look characters up in a bit map of 32 bytes:
  \<open>strspn\<close>, \<open>strcspn\<close>, \<open>strpbrk\<close> and \<open>strtok_r\<close>. The byte of a character is indexed by
  \<open>*ctrl >> 3\<close>, where \<open>*ctrl\<close> is a signed \<open>char\<close>: a character above 127 gives a negative index, which
  is the fault \<open>OutOfBounds\<close>.
\<close>

section \<open>The code\<close>

definition char_index :: "u8 \<Rightarrow> nat res" where
  "char_index c = (if schar c < 0 then Inl OutOfBounds else Inr (nat (schar c) div 8))"

definition char_bit :: "u8 \<Rightarrow> nat" where
  "char_bit c = unat (c AND 7)"

definition map_set :: "u8 \<Rightarrow> u8 list \<Rightarrow> u8 list res" where
  "map_set c mp =
     bindR (char_index c) (\<lambda>i. bindR (get_at mp i) (\<lambda>b. set_at mp i (b OR push_bit (char_bit c) 1)))"

definition map_test :: "u8 \<Rightarrow> u8 list \<Rightarrow> bool res" where
  "map_test c mp =
     bindR (char_index c) (\<lambda>i. bindR (get_at mp i) (\<lambda>b. Inr (b AND push_bit (char_bit c) 1 \<noteq> 0)))"

definition clear_map :: "u8 list" where "clear_map = replicate 32 0"

text \<open>\<open>while (*ctrl)\<close>: the bits of the characters of the control string.\<close>

partial_function (option) set_bits :: "mem \<Rightarrow> nat \<Rightarrow> u8 list \<Rightarrow> u8 list res option" where
  "set_bits m ctrl mp =
     (if m ctrl \<noteq> 0
      then case map_set (m ctrl) mp of Inl e \<Rightarrow> Some (Inl e) | Inr mp \<Rightarrow> set_bits m (Suc ctrl) mp
      else Some (Inr mp))"

text \<open>The scans: while the bit is set, or while it is not.\<close>

partial_function (option) span_loop :: "bool \<Rightarrow> mem \<Rightarrow> u8 list \<Rightarrow> nat \<Rightarrow> nat \<Rightarrow> nat res option" where
  "span_loop want m mp str n =
     (case map_test (m str) mp of
        Inl e \<Rightarrow> Some (Inl e)
      | Inr b \<Rightarrow> if b = want then span_loop want m mp (Suc str) (Suc n) else Some (Inr n))"

definition strspn :: "mem \<Rightarrow> nat \<Rightarrow> nat \<Rightarrow> nat res option" where
  "strspn m str ctrl =
     (case set_bits m ctrl clear_map of
        None \<Rightarrow> None
      | Some (Inl e) \<Rightarrow> Some (Inl e)
      | Some (Inr mp) \<Rightarrow> if m str \<noteq> 0 then span_loop True m mp str 0 else Some (Inr 0))"

definition strcspn :: "mem \<Rightarrow> nat \<Rightarrow> nat \<Rightarrow> nat res option" where
  "strcspn m str ctrl =
     (case set_bits m ctrl clear_map of
        None \<Rightarrow> None
      | Some (Inl e) \<Rightarrow> Some (Inl e)
      | Some (Inr mp) \<Rightarrow> span_loop False m (mp[0 := mp ! 0 OR 1]) str 0)"

partial_function (option) pbrk_loop :: "mem \<Rightarrow> u8 list \<Rightarrow> nat \<Rightarrow> nat option res option" where
  "pbrk_loop m mp str =
     (if m str \<noteq> 0
      then case map_test (m str) mp of
             Inl e \<Rightarrow> Some (Inl e)
           | Inr b \<Rightarrow> if b then Some (Inr (Some str)) else pbrk_loop m mp (Suc str)
      else Some (Inr None))"

definition strpbrk :: "mem \<Rightarrow> nat \<Rightarrow> nat \<Rightarrow> nat option res option" where
  "strpbrk m str ctrl =
     (case set_bits m ctrl clear_map of
        None \<Rightarrow> None
      | Some (Inl e) \<Rightarrow> Some (Inl e)
      | Some (Inr mp) \<Rightarrow> pbrk_loop m mp str)"

section \<open>The bit map as a set of characters\<close>

definition ascii :: "u8 \<Rightarrow> bool" where "ascii c \<longleftrightarrow> c < 128"

lemma ascii_index:
  assumes "ascii c"
  shows "char_index c = Inr (unat c div 8)" "unat c div 8 < 32"
proof -
  have c: "unat c < 128" using assms by (simp add: ascii_def word_less_nat_alt)
  have "uint c < 2 ^ 7" using assms by (simp add: ascii_def word_less_def)
  then have "sint c = uint c"
    unfolding sint_uint by (intro signed_take_bit_int_eq_self) (auto intro: order_trans [OF _ uint_ge_0])
  then show "char_index c = Inr (unat c div 8)" by (simp add: char_index_def schar_def)
  show "unat c div 8 < 32" using c by simp
qed

lemma char_bit_eq: "char_bit c = unat c mod 8"
proof -
  have "c AND 7 = take_bit 3 c" by (simp add: take_bit_eq_mask mask_eq_exp_minus_1)
  then show ?thesis by (simp add: char_bit_def take_bit_eq_mod unat_mod)
qed

text \<open>The map holds exactly the characters of \<open>S\<close>, among those up to 127.\<close>

definition map_holds :: "u8 list \<Rightarrow> u8 set \<Rightarrow> bool" where
  "map_holds mp S \<longleftrightarrow> length mp = 32 \<and>
     (\<forall>c. ascii c \<longrightarrow> (bit (mp ! (unat c div 8)) (unat c mod 8) \<longleftrightarrow> c \<in> S))"

lemma map_test_eq:
  assumes "map_holds mp S" "ascii c"
  shows "map_test c mp = Inr (c \<in> S)"
  using assms ascii_index [OF assms(2)]
  by (simp add: map_test_def map_holds_def char_bit_eq and_exp_eq_0_iff_not_bit)

lemma map_set_eq:
  assumes "map_holds mp S" "ascii c"
  shows "\<exists>mp'. map_set c mp = Inr mp' \<and> map_holds mp' (insert c S)"
proof -
  let ?i = "unat c div 8" and ?k = "unat c mod 8"
  let ?mp = "mp[?i := mp ! ?i OR 2 ^ ?k]"
  have len: "length mp = 32" using assms(1) by (simp add: map_holds_def)
  have "map_set c mp = Inr ?mp" using ascii_index [OF assms(2)] len by (simp add: map_set_def char_bit_eq)
  moreover have "bit (?mp ! (unat d div 8)) (unat d mod 8) \<longleftrightarrow> d \<in> insert c S" if d: "ascii d" for d
  proof -
    have same: "unat d div 8 = ?i \<and> unat d mod 8 = ?k \<longleftrightarrow> d = c"
      by (metis mult_div_mod_eq word_unat_eq_iff)
    have "bit (mp ! (unat d div 8)) (unat d mod 8) \<longleftrightarrow> d \<in> S" using assms(1) d by (simp add: map_holds_def)
    moreover have "bit (2 ^ ?k :: u8) (unat d mod 8) \<longleftrightarrow> unat d mod 8 = ?k"
      by (simp add: bit_exp_iff)
    ultimately show ?thesis
      using same ascii_index(2) [OF assms(2)] len
      by (cases "unat d div 8 = ?i") (auto simp: bit_or_iff)
  qed
  ultimately show ?thesis using len by (auto simp: map_holds_def)
qed

lemma clear_map_holds: "map_holds clear_map {}"
proof -
  have "unat c div 8 < 32" if "ascii c" for c using ascii_index(2) [OF that] .
  then show ?thesis by (auto simp: map_holds_def clear_map_def)
qed

lemma set_bits_eq:
  "cstr m ctrl xs \<Longrightarrow> map_holds mp S \<Longrightarrow> (\<And>x. x \<in> set xs \<Longrightarrow> ascii x) \<Longrightarrow>
     \<exists>mp'. set_bits m ctrl mp = Some (Inr mp') \<and> map_holds mp' (S \<union> set xs)"
proof (induction xs arbitrary: ctrl mp S)
  case Nil
  then show ?case by (subst set_bits.simps) simp
next
  case (Cons x xs)
  then obtain mp1 where "map_set x mp = Inr mp1" "map_holds mp1 (insert x S)"
    using map_set_eq [of mp S x] by auto
  with Cons.IH [of "Suc ctrl" mp1 "insert x S"] Cons.prems show ?case
    by (subst set_bits.simps) auto
qed

lemma span_loop_eq:
  assumes "map_holds mp S"
  shows "cstr m str xs \<Longrightarrow> (\<And>x. x \<in> set xs \<Longrightarrow> ascii x) \<Longrightarrow> (0 \<in> S \<longleftrightarrow> \<not> want) \<Longrightarrow>
    span_loop want m mp str n = Some (Inr (n + length (takeWhile (\<lambda>x. (x \<in> S) = want) xs)))"
proof (induction xs arbitrary: str n)
  case Nil
  then show ?case using map_test_eq [OF assms, of 0] by (subst span_loop.simps) (auto simp: ascii_def)
next
  case (Cons x xs)
  then show ?case using map_test_eq [OF assms, of x] by (subst span_loop.simps) auto
qed

lemma set_bits_fault:
  "cstr m ctrl (xs @ c # ys) \<Longrightarrow> map_holds mp S \<Longrightarrow> (\<And>x. x \<in> set xs \<Longrightarrow> ascii x) \<Longrightarrow> schar c < 0 \<Longrightarrow>
     set_bits m ctrl mp = Some (Inl OutOfBounds)"
proof (induction xs arbitrary: ctrl mp S)
  case Nil
  then show ?case by (subst set_bits.simps) (simp add: map_set_def char_index_def)
next
  case (Cons x xs)
  then obtain mp1 where "map_set x mp = Inr mp1" "map_holds mp1 (insert x S)"
    using map_set_eq [of mp S x] by auto
  with Cons.IH [of "Suc ctrl" mp1 "insert x S"] Cons.prems show ?case
    by (subst set_bits.simps) auto
qed

text \<open>
  On strings of ASCII characters \<open>strspn\<close> returns the length of the longest prefix whose characters
  all occur in the control string, and \<open>strcspn\<close> that of the longest prefix with none of them; both
  return. A control string with a character above 127 makes them access the bit map at a negative
  index.
\<close>

theorem strspn_strcspn_spans:
  assumes "cstr m str xs" "cstr m ctrl cs" "\<And>x. x \<in> set xs \<Longrightarrow> ascii x"
  shows "((\<forall>c\<in>set cs. ascii c) \<longrightarrow>
      strspn m str ctrl = Some (Inr (length (takeWhile (\<lambda>x. x \<in> set cs) xs))) \<and>
      strcspn m str ctrl = Some (Inr (length (takeWhile (\<lambda>x. x \<notin> set cs) xs)))) \<and>
    (\<forall>as c bs. cs = as @ c # bs \<and> (\<forall>a\<in>set as. ascii a) \<and> schar c < 0 \<longrightarrow>
      strspn m str ctrl = Some (Inl OutOfBounds) \<and> strcspn m str ctrl = Some (Inl OutOfBounds))"
proof (intro conjI impI)
  assume cs: "\<forall>c\<in>set cs. ascii c"
  obtain mp where mp: "set_bits m ctrl clear_map = Some (Inr mp)" "map_holds mp (set cs)"
    using set_bits_eq [OF assms(2) clear_map_holds] cs by auto
  have nz: "0 \<notin> set cs" using assms(2) by (rule cstr_no_zero)
  have "strspn m str ctrl = Some (Inr (length (takeWhile (\<lambda>x. (x \<in> set cs) = True) xs)))"
    using mp(1) nz assms(1) span_loop_eq [OF mp(2) assms(1,3), of True 0] by (cases xs) (auto simp: strspn_def)
  then show "strspn m str ctrl = Some (Inr (length (takeWhile (\<lambda>x. x \<in> set cs) xs)))" by simp
  have "map_set 0 mp = Inr (mp[0 := mp ! 0 OR 1])"
    using mp(2) by (simp add: map_set_def char_index_def char_bit_def map_holds_def)
  then have "map_holds (mp[0 := mp ! 0 OR 1]) (insert 0 (set cs))"
    using map_set_eq [OF mp(2), of 0] by (simp add: ascii_def)
  from span_loop_eq [OF this assms(1,3), of False 0] mp(1)
  have "strcspn m str ctrl = Some (Inr (length (takeWhile (\<lambda>x. (x \<in> insert 0 (set cs)) = False) xs)))"
    by (simp add: strcspn_def)
  moreover have "takeWhile (\<lambda>x. (x \<in> insert 0 (set cs)) = False) xs = takeWhile (\<lambda>x. x \<notin> set cs) xs"
    using cstr_no_zero [OF assms(1)] by (intro takeWhile_cong) auto
  ultimately show "strcspn m str ctrl = Some (Inr (length (takeWhile (\<lambda>x. x \<notin> set cs) xs)))" by simp
next
  show "\<forall>as c bs. cs = as @ c # bs \<and> (\<forall>a\<in>set as. ascii a) \<and> schar c < 0 \<longrightarrow>
      strspn m str ctrl = Some (Inl OutOfBounds) \<and> strcspn m str ctrl = Some (Inl OutOfBounds)"
  proof (intro allI impI)
    fix as c bs assume "cs = as @ c # bs \<and> (\<forall>a\<in>set as. ascii a) \<and> schar c < 0"
    then have "set_bits m ctrl clear_map = Some (Inl OutOfBounds)"
      using set_bits_fault [of m ctrl as c bs clear_map "{}"] assms(2) clear_map_holds by auto
    then show "strspn m str ctrl = Some (Inl OutOfBounds) \<and> strcspn m str ctrl = Some (Inl OutOfBounds)"
      by (simp add: strspn_def strcspn_def)
  qed
qed

theorem strspn_strcspn_spans_witness:
  "strspn example_mem 10 11 = Some (Inr 0) \<and> strcspn example_mem 10 11 = Some (Inr 1)"
proof -
  have "cstr example_mem 10 [105, 106, 107]" "cstr example_mem 11 [106, 107]" by (simp_all add: example_mem_def)
  moreover have "ascii x" if "x \<in> set [105, 106, 107]" for x using that by (auto simp: ascii_def)
  ultimately show ?thesis
    using strspn_strcspn_spans [of example_mem 10 "[105, 106, 107]" 11 "[106, 107]"] by (simp add: ascii_def)
qed

end
