(* ===== verification/Ordered_Array.thy ===== *)
theory Ordered_Array
  imports Prelude
begin

text \<open>
  The ordered arrays of \<open>src/libc/ordered_array.c\<close>: an array of \<open>max_size\<close> places of which the first
  \<open>size\<close> are in use. The order is the predicate the array was created with. Access beyond the
  allocated places is the fault \<open>OutOfBounds\<close>; \<open>insert_ordered_array\<close> checks no capacity.
\<close>

section \<open>The code\<close>

record 'a ordered_array =
  array :: "'a list"
  size_of :: nat
  less_than :: "'a \<Rightarrow> 'a \<Rightarrow> bool"

definition standard_lessthan_predicate :: "u32 \<Rightarrow> u32 \<Rightarrow> bool" where
  "standard_lessthan_predicate a b \<longleftrightarrow> a < b"

text \<open>The block is zeroed; \<open>z\<close> is the null pointer.\<close>

definition create_ordered_array :: "'a \<Rightarrow> nat \<Rightarrow> ('a \<Rightarrow> 'a \<Rightarrow> bool) \<Rightarrow> 'a ordered_array" where
  "create_ordered_array z max_size lt = \<lparr>array = replicate max_size z, size_of = 0, less_than = lt\<rparr>"

function find_place :: "'a \<Rightarrow> 'a ordered_array \<Rightarrow> nat \<Rightarrow> nat res" where
  "find_place item a it =
     (if it < size_of a
      then bindR (get_at (array a) it) (\<lambda>x. if less_than a x item then find_place item a (Suc it) else Inr it)
      else Inr it)"
  by pat_completeness auto
termination
  by (relation "measure (\<lambda>(item, a, it). size_of a - it)") auto

declare find_place.simps [simp del]

text \<open>The loop that moves the rest of the array one place up, carrying \<open>tmp\<close>.\<close>

function shift_up :: "'a list \<Rightarrow> nat \<Rightarrow> nat \<Rightarrow> 'a \<Rightarrow> 'a list res" where
  "shift_up xs n it tmp =
     (if it < n
      then bindR (get_at xs (Suc it)) (\<lambda>tmp2. bindR (set_at xs (Suc it) tmp) (\<lambda>xs. shift_up xs n (Suc it) tmp2))
      else Inr xs)"
  by pat_completeness auto
termination
  by (relation "measure (\<lambda>(xs, n, it, tmp). n - it)") auto

declare shift_up.simps [simp del]

definition insert_ordered_array :: "'a \<Rightarrow> 'a ordered_array \<Rightarrow> 'a ordered_array res" where
  "insert_ordered_array item a =
     bindR (find_place item a 0) (\<lambda>it.
     if it = size_of a
     then bindR (set_at (array a) (size_of a) item) (\<lambda>xs. Inr (a\<lparr>array := xs, size_of := size_of a + 1\<rparr>))
     else bindR (get_at (array a) it) (\<lambda>tmp.
          bindR (set_at (array a) it item) (\<lambda>xs.
          bindR (shift_up xs (size_of a) it tmp) (\<lambda>xs.
          Inr (a\<lparr>array := xs, size_of := size_of a + 1\<rparr>)))))"

definition lookup_ordered_array :: "nat \<Rightarrow> 'a ordered_array \<Rightarrow> 'a res" where
  "lookup_ordered_array i a = (if i < size_of a then get_at (array a) i else Inl AssertFail)"

function shift_down :: "'a list \<Rightarrow> nat \<Rightarrow> nat \<Rightarrow> 'a list res" where
  "shift_down xs n i =
     (if i < n
      then bindR (get_at xs (Suc i)) (\<lambda>v. bindR (set_at xs i v) (\<lambda>xs. shift_down xs n (Suc i)))
      else Inr xs)"
  by pat_completeness auto
termination
  by (relation "measure (\<lambda>(xs, n, i). n - i)") auto

declare shift_down.simps [simp del]

definition remove_ordered_array :: "nat \<Rightarrow> 'a ordered_array \<Rightarrow> 'a ordered_array res" where
  "remove_ordered_array i a =
     bindR (shift_down (array a) (size_of a) i) (\<lambda>xs. Inr (a\<lparr>array := xs, size_of := size_of a - 1\<rparr>))"

section \<open>Contents\<close>

definition contents :: "'a ordered_array \<Rightarrow> 'a list" where
  "contents a = take (size_of a) (array a)"

definition wf_array :: "'a ordered_array \<Rightarrow> bool" where
  "wf_array a \<longleftrightarrow> size_of a \<le> length (array a)"

lemma length_contents: "wf_array a \<Longrightarrow> length (contents a) = size_of a"
  by (simp add: contents_def wf_array_def)

lemma find_place_eq:
  assumes "wf_array a" "it \<le> size_of a"
  shows "find_place item a it =
    Inr (it + length (takeWhile (\<lambda>x. less_than a x item) (drop it (contents a))))"
  using assms(2)
proof (induction "size_of a - it" arbitrary: it)
  case 0
  then show ?case using assms(1) by (subst find_place.simps) (simp add: length_contents)
next
  case (Suc d)
  then have it: "it < size_of a" by simp
  then have "drop it (contents a) = array a ! it # drop (Suc it) (contents a)"
    using assms(1) by (subst Cons_nth_drop_Suc [symmetric]) (auto simp: contents_def wf_array_def)
  moreover have "find_place item a (Suc it) =
      Inr (Suc it + length (takeWhile (\<lambda>x. less_than a x item) (drop (Suc it) (contents a))))"
    using Suc.hyps it by simp
  ultimately show ?case using it assms(1) by (subst find_place.simps) (simp add: wf_array_def)
qed

lemma shift_up_eq:
  assumes "n < length xs" "it \<le> n"
  shows "shift_up xs n it tmp =
    Inr (if it < n then take (Suc it) xs @ tmp # take (n - Suc it) (drop (Suc it) xs) @ drop (Suc n) xs else xs)"
  using assms
proof (induction "n - it" arbitrary: it xs tmp)
  case 0
  then show ?case by (subst shift_up.simps) simp
next
  case (Suc d)
  then have it: "it < n" "Suc it < length xs" by auto
  let ?ys = "xs[Suc it := tmp]"
  have step: "shift_up xs n it tmp = shift_up ?ys n (Suc it) (xs ! Suc it)"
    using it by (subst shift_up.simps) simp
  have IH: "shift_up ?ys n (Suc it) (xs ! Suc it) = Inr (if Suc it < n
      then take (Suc (Suc it)) ?ys @ xs ! Suc it # take (n - Suc (Suc it)) (drop (Suc (Suc it)) ?ys) @ drop (Suc n) ?ys
      else ?ys)"
    using Suc.hyps Suc.prems it by (intro Suc.hyps(1)) auto
  have split: "take (Suc (Suc it)) ?ys = take (Suc it) xs @ [tmp]"
    using it by (simp add: take_Suc_conv_app_nth)
  show ?case
  proof (cases "Suc it < n")
    case True
    have "take (n - Suc it) (drop (Suc it) xs) = xs ! Suc it # take (n - Suc (Suc it)) (drop (Suc (Suc it)) xs)"
      using True it by (metis Cons_nth_drop_Suc Suc_diff_Suc take_Suc_Cons)
    then show ?thesis using True it step IH split by simp
  next
    case False
    then have n: "n = Suc it" using it by simp
    have "?ys = take (Suc it) xs @ tmp # drop (Suc n) xs" using it n by (simp add: upd_conv_take_nth_drop)
    then show ?thesis using n step IH by simp
  qed
qed

lemma shift_down_eq:
  assumes "n < length xs" "i \<le> n"
  shows "\<exists>ys. shift_down xs n i = Inr ys \<and> length ys = length xs \<and>
    (\<forall>k. ys ! k = (if i \<le> k \<and> k < n then xs ! Suc k else xs ! k))"
  using assms
proof (induction "n - i" arbitrary: i xs)
  case 0
  then show ?case by (subst shift_down.simps) auto
next
  case (Suc d)
  then have i: "i < n" "d = n - Suc i" by auto
  obtain ys where ys: "shift_down (xs[i := xs ! Suc i]) n (Suc i) = Inr ys" "length ys = length xs"
      "\<forall>k. ys ! k = (if Suc i \<le> k \<and> k < n then xs[i := xs ! Suc i] ! Suc k else xs[i := xs ! Suc i] ! k)"
    using Suc.hyps(1) [OF i(2), of "xs[i := xs ! Suc i]"] Suc.prems i(1) by auto
  have "ys ! k = (if i \<le> k \<and> k < n then xs ! Suc k else xs ! k)" for k
    using ys(3) i Suc.prems by (cases "k = i") auto
  with ys i Suc.prems show ?case by (subst shift_down.simps) auto
qed

section \<open>Insertion and removal\<close>

lemma insert_contents:
  assumes "wf_array a" "size_of a < length (array a)"
  shows "\<exists>a'. insert_ordered_array item a = Inr a' \<and> wf_array a' \<and> length (array a') = length (array a) \<and>
    less_than a' = less_than a \<and>
    contents a' = takeWhile (\<lambda>x. less_than a x item) (contents a) @ item # dropWhile (\<lambda>x. less_than a x item) (contents a)"
proof -
  let ?P = "\<lambda>x. less_than a x item" and ?n = "size_of a" and ?xs = "array a"
  define k where "k = length (takeWhile ?P (contents a))"
  have len: "length (contents a) = ?n" using assms(1) by (rule length_contents)
  have place: "find_place item a 0 = Inr k" using find_place_eq [OF assms(1), of 0 item] by (simp add: k_def)
  have k: "k \<le> ?n" using length_takeWhile_le [of ?P "contents a"] len by (simp add: k_def)
  have tw: "takeWhile ?P (contents a) = take k ?xs"
    using k unfolding k_def by (metis contents_def min_def take_take takeWhile_eq_take)
  have dw: "dropWhile ?P (contents a) = drop k (contents a)" unfolding k_def by (rule dropWhile_eq_drop)
  show ?thesis
  proof (cases "k = ?n")
    case True
    let ?a = "a\<lparr>array := ?xs[?n := item], size_of := ?n + 1\<rparr>"
    have "insert_ordered_array item a = Inr ?a"
      using place True assms(2) by (simp add: insert_ordered_array_def)
    moreover have c: "contents ?a = take ?n ?xs @ [item]"
      using assms(2) by (simp add: contents_def take_Suc_conv_app_nth)
    have t: "takeWhile ?P (contents a) = take ?n ?xs" using tw unfolding True .
    have d: "dropWhile ?P (contents a) = []" using dw len unfolding True by simp
    have "contents ?a = takeWhile ?P (contents a) @ item # dropWhile ?P (contents a)"
      unfolding c t d ..
    ultimately show ?thesis using assms by (intro exI [of _ ?a]) (simp add: wf_array_def)
  next
    case False
    then have kn: "k < ?n" using k by simp
    let ?ys = "?xs[k := item]"
    let ?zs = "take (Suc k) ?ys @ ?xs ! k # take (?n - Suc k) (drop (Suc k) ?ys) @ drop (Suc ?n) ?ys"
    let ?a = "a\<lparr>array := ?zs, size_of := ?n + 1\<rparr>"
    have "shift_up ?ys ?n k (?xs ! k) = Inr ?zs"
      using shift_up_eq [of ?n ?ys k "?xs ! k"] assms(2) kn by simp
    then have "insert_ordered_array item a = Inr ?a"
      using place kn assms(2) by (simp add: insert_ordered_array_def)
    then have ins: "insert_ordered_array item a = Inr ?a" .
    have "take (Suc k) ?ys = take k ?xs @ [item]"
      using kn assms(2) by (simp add: take_Suc_conv_app_nth)
    moreover have "Suc ?n - k = Suc (Suc (?n - Suc k))" using kn by simp
    ultimately have "contents ?a = take k ?xs @ item # ?xs ! k # take (?n - Suc k) (drop (Suc k) ?xs)"
      using kn assms(2) by (simp add: contents_def)
    moreover have "drop k (contents a) = ?xs ! k # take (?n - Suc k) (drop (Suc k) ?xs)"
      using kn assms(2)
      by (simp add: contents_def drop_take Cons_nth_drop_Suc [symmetric] take_Cons' flip: Cons_nth_drop_Suc)
    ultimately show ?thesis using assms tw dw kn ins
      by (intro exI [of _ ?a]) (auto simp: wf_array_def)
  qed
qed

lemma sorted_insert_place:
  fixes xs :: "'a :: linorder list"
  assumes "sorted xs"
  shows "sorted (takeWhile (\<lambda>x. x < y) xs @ y # dropWhile (\<lambda>x. x < y) xs)"
proof -
  have "sorted (takeWhile (\<lambda>x. x < y) xs @ dropWhile (\<lambda>x. x < y) xs)" using assms by simp
  moreover have "\<forall>z\<in>set (takeWhile (\<lambda>x. x < y) xs). z < y" by (auto dest: set_takeWhileD)
  moreover have "\<forall>z\<in>set (dropWhile (\<lambda>x. x < y) xs). y \<le> z"
  proof (cases "dropWhile (\<lambda>x. x < y) xs")
    case (Cons w ws)
    then have "\<not> w < y" by (simp add: dropWhile_eq_Cons_conv)
    moreover have "sorted (w # ws)" using assms Cons by (metis sorted_dropWhile)
    ultimately show ?thesis using Cons by auto
  next
    case Nil
    show ?thesis unfolding Nil by simp
  qed
  ultimately show ?thesis by (fastforce simp: sorted_append less_imp_le)
qed

text \<open>
  Insertion into an ordered array with a free place returns, keeps the array ordered and adds exactly
  the given item to its contents; into a full array it writes past the end. Removal of an index in use
  takes out that element only and keeps the order, unless the array is full: then it reads past the end.
\<close>

theorem ordered_array_insert_remove:
  fixes a :: "'a :: linorder ordered_array"
  assumes "wf_array a" "less_than a = (<)" "sorted (contents a)"
  shows "(size_of a < length (array a) \<longrightarrow>
      (\<exists>a'. insert_ordered_array item a = Inr a' \<and> wf_array a' \<and> sorted (contents a') \<and>
         mset (contents a') = add_mset item (mset (contents a)))) \<and>
    (size_of a = length (array a) \<and> (\<forall>x\<in>set (contents a). x < item) \<longrightarrow>
      insert_ordered_array item a = Inl OutOfBounds) \<and>
    (i < size_of a \<and> size_of a < length (array a) \<longrightarrow>
      (\<exists>a'. remove_ordered_array i a = Inr a' \<and> wf_array a' \<and> sorted (contents a') \<and>
         contents a' = take i (contents a) @ drop (Suc i) (contents a))) \<and>
    (i < size_of a \<and> size_of a = length (array a) \<longrightarrow> remove_ordered_array i a = Inl OutOfBounds)"
  (is "?ins \<and> ?full \<and> ?rem \<and> ?remfull")
proof (intro conjI impI)
  assume free: "size_of a < length (array a)"
  obtain a' where a': "insert_ordered_array item a = Inr a'" "wf_array a'"
      "contents a' = takeWhile (\<lambda>x. x < item) (contents a) @ item # dropWhile (\<lambda>x. x < item) (contents a)"
    using insert_contents [OF assms(1) free, of item] assms(2) by auto
  have "mset (takeWhile (\<lambda>x. x < item) (contents a)) + mset (dropWhile (\<lambda>x. x < item) (contents a)) = mset (contents a)"
    by (metis mset_append takeWhile_dropWhile_id)
  then have "mset (contents a') = add_mset item (mset (contents a))" unfolding a'(3) by simp
  then show "\<exists>a'. insert_ordered_array item a = Inr a' \<and> wf_array a' \<and> sorted (contents a') \<and>
      mset (contents a') = add_mset item (mset (contents a))"
    using a' sorted_insert_place [OF assms(3), of item] by auto
next
  assume full: "size_of a = length (array a) \<and> (\<forall>x\<in>set (contents a). x < item)"
  have "takeWhile (\<lambda>x. x < item) (contents a) = contents a" using full by (simp add: takeWhile_eq_all_conv)
  then have "length (takeWhile (\<lambda>x. less_than a x item) (contents a)) = size_of a"
    unfolding assms(2) length_contents [OF assms(1), symmetric] by (rule arg_cong)
  then have "find_place item a 0 = Inr (size_of a)"
    using find_place_eq [OF assms(1), of 0 item] by simp
  then show "insert_ordered_array item a = Inl OutOfBounds"
    using full by (simp add: insert_ordered_array_def set_at_def)
next
  assume i: "i < size_of a \<and> size_of a < length (array a)"
  obtain ys where ys: "shift_down (array a) (size_of a) i = Inr ys" "length ys = length (array a)"
      "\<forall>k. ys ! k = (if i \<le> k \<and> k < size_of a then array a ! Suc k else array a ! k)"
    using shift_down_eq [of "size_of a" "array a" i] i by auto
  let ?a = "a\<lparr>array := ys, size_of := size_of a - 1\<rparr>"
  have c: "contents ?a = take i (contents a) @ drop (Suc i) (contents a)"
  proof (rule nth_equalityI)
    show "length (contents ?a) = length (take i (contents a) @ drop (Suc i) (contents a))"
      using i ys(2) by (simp add: contents_def) linarith
    fix k assume "k < length (contents ?a)"
    then have "k < size_of a - 1" using ys(2) i by (simp add: contents_def)
    then have "k < size_of a - 1" "Suc k < size_of a" "k < size_of a" by simp_all
    then show "contents ?a ! k = (take i (contents a) @ drop (Suc i) (contents a)) ! k"
      using i spec [OF ys(3), of k] by (cases "k < i") (simp_all add: contents_def nth_append)
  qed
  have "contents a = take i (contents a) @ contents a ! i # drop (Suc i) (contents a)"
    using i length_contents [OF assms(1)] by (intro id_take_nth_drop) simp
  then have "sorted (take i (contents a) @ contents a ! i # drop (Suc i) (contents a))" using assms(3) by simp
  then have "sorted (take i (contents a) @ drop (Suc i) (contents a))" by (simp add: sorted_append)
  with c ys(1) i assms(1) show "\<exists>a'. remove_ordered_array i a = Inr a' \<and> wf_array a' \<and> sorted (contents a') \<and>
         contents a' = take i (contents a) @ drop (Suc i) (contents a)"
    by (intro exI [of _ ?a]) (auto simp: remove_ordered_array_def wf_array_def ys(2))
next
  assume i: "i < size_of a \<and> size_of a = length (array a)"
  have "shift_down xs (length xs) k = Inl OutOfBounds" if "k < length xs" for xs :: "'a list" and k
    using that
  proof (induction "length xs - k" arbitrary: k xs)
    case (Suc d)
    show ?case
    proof (cases "Suc k < length xs")
      case True
      have d: "d = length (xs[k := xs ! Suc k]) - Suc k" using Suc.hyps(2) by simp
      have "shift_down (xs[k := xs ! Suc k]) (length xs) (Suc k) = Inl OutOfBounds"
        using Suc.hyps(1) [OF d] True by simp
      then show ?thesis using True by (subst shift_down.simps) simp
    next
      case False
      then show ?thesis using Suc.prems by (subst shift_down.simps) (simp add: get_at_def)
    qed
  qed simp
  then show "remove_ordered_array i a = Inl OutOfBounds" using i by (simp add: remove_ordered_array_def)
qed

definition example_array :: "u32 ordered_array" where
  "example_array = \<lparr>array = [2, 5, 9, 0], size_of = 3, less_than = standard_lessthan_predicate\<rparr>"

theorem ordered_array_insert_remove_witness:
  "(\<exists>a'. insert_ordered_array 7 example_array = Inr a' \<and> sorted (contents a') \<and>
     mset (contents a') = {#2, 5, 7, 9#}) \<and>
   (\<exists>a'. remove_ordered_array 1 example_array = Inr a' \<and> contents a' = [2, 9])"
proof -
  have "wf_array example_array" "less_than example_array = (<)" "contents example_array = [2, 5, 9]"
    "size_of example_array = 3" "length (array example_array) = 4"
    by (auto simp: wf_array_def example_array_def standard_lessthan_predicate_def fun_eq_iff contents_def)
  then show ?thesis
    using ordered_array_insert_remove [of example_array 7 1] by (fastforce simp: add_mset_commute)
qed

end
