(* ===== verification/Queue.thy ===== *)
theory Queue
  imports C_String
begin

text \<open>
  The queues of \<open>src/libc/queue.c\<close> (\<open>inc/libc/queue.h\<close>): a singly linked list of nodes in a store, with
  pointers to its first and last node. A queue is \<open>None\<close> for the null pointer; \<open>node\<close> is the block
  that \<open>malloc\<close> returns for a new node. The data of a node is a pointer into memory, from which
  \<open>queue_front\<close> and \<open>queue_back\<close> copy \<open>data_size\<close> bytes. The interface \<open>fifo\<close> is what the queue
  promises.
\<close>

section \<open>The code\<close>

record queue_node =
  data :: nat
  next_of :: "nat option"

record queue_t =
  qnodes :: "nat \<Rightarrow> queue_node option"
  front :: "nat option"
  back_of :: "nat option"
  data_size :: nat

definition queue_create :: "nat \<Rightarrow> queue_t" where
  "queue_create n = \<lparr>qnodes = (\<lambda>_. None), front = None, back_of = None, data_size = n\<rparr>"

definition queue_is_empty :: "queue_t option \<Rightarrow> bool" where
  "queue_is_empty q = (case q of None \<Rightarrow> False | Some q \<Rightarrow> front q = None)"

definition get_node :: "queue_t \<Rightarrow> nat option \<Rightarrow> queue_node res" where
  "get_node q p = (case p of None \<Rightarrow> Inl NullDeref
     | Some a \<Rightarrow> (case qnodes q a of None \<Rightarrow> Inl NullDeref | Some x \<Rightarrow> Inr x))"

text \<open>\<open>d\<close> is the data pointer, \<open>None\<close> for null.\<close>

definition queue_enqueue :: "nat \<Rightarrow> nat option \<Rightarrow> queue_t option \<Rightarrow> (bool \<times> queue_t option) res" where
  "queue_enqueue node d q =
     (case q of
        None \<Rightarrow> Inr (False, None)
      | Some s \<Rightarrow>
         (case d of
            None \<Rightarrow> Inr (False, Some s)
          | Some v \<Rightarrow>
              let s = s\<lparr>qnodes := (qnodes s)(node \<mapsto> \<lparr>data = v, next_of = None\<rparr>)\<rparr>
              in if front s = None then Inr (True, Some (s\<lparr>front := Some node, back_of := Some node\<rparr>))
                 else bindR (get_node s (back_of s)) (\<lambda>b.
                      Inr (True, Some (s\<lparr>qnodes := (qnodes s)(the (back_of s) \<mapsto> b\<lparr>next_of := Some node\<rparr>),
                        back_of := Some node\<rparr>)))))"

definition queue_dequeue :: "queue_t \<Rightarrow> (bool \<times> queue_t) res" where
  "queue_dequeue q =
     (case front q of
        None \<Rightarrow> Inr (False, q)
      | Some f \<Rightarrow>
          bindR (if front q = back_of q then Inr (q\<lparr>front := None, back_of := None\<rparr>)
                 else bindR (get_node q (front q)) (\<lambda>x. Inr (q\<lparr>front := next_of x\<rparr>)))
            (\<lambda>q. Inr (True, q\<lparr>qnodes := (qnodes q)(f := None)\<rparr>)))"

definition queue_front :: "mem \<Rightarrow> nat \<Rightarrow> queue_t option \<Rightarrow> (bool \<times> mem) res" where
  "queue_front m dst q =
     (case q of
        None \<Rightarrow> Inr (False, m)
      | Some s \<Rightarrow>
          if front s = None then Inr (False, m)
          else bindR (get_node s (front s)) (\<lambda>x. Inr (True, memcpy m dst (data x) (data_size s))))"

definition queue_back :: "mem \<Rightarrow> nat \<Rightarrow> queue_t option \<Rightarrow> (bool \<times> mem) res" where
  "queue_back m dst q =
     (case q of
        None \<Rightarrow> Inr (False, m)
      | Some s \<Rightarrow>
          if back_of s = None then Inr (False, m)
          else bindR (get_node s (back_of s)) (\<lambda>x. Inr (True, memcpy m dst (data x) (data_size s))))"

definition queue_front_and_dequeue :: "mem \<Rightarrow> nat \<Rightarrow> queue_t \<Rightarrow> (bool \<times> mem \<times> queue_t) res" where
  "queue_front_and_dequeue m dst q =
     bindR (queue_front m dst (Some q)) (\<lambda>(ok, m).
     if \<not> ok then Inr (False, m, q)
     else bindR (queue_dequeue q) (\<lambda>(ok, q). if \<not> ok then Inr (False, m, q) else Inr (True, m, q)))"

text \<open>The loop of \<open>queue_clear\<close>.\<close>

partial_function (option) clear_loop :: "queue_t \<Rightarrow> queue_t res option" where
  "clear_loop q =
     (if front q \<noteq> None
      then case queue_dequeue q of Inl e \<Rightarrow> Some (Inl e) | Inr (ok, q) \<Rightarrow> clear_loop q
      else Some (Inr q))"

definition queue_clear :: "queue_t option \<Rightarrow> (bool \<times> queue_t option) res option" where
  "queue_clear q =
     (case q of
        None \<Rightarrow> Some (Inr (False, None))
      | Some s \<Rightarrow> if front s = None then Some (Inr (True, Some s))
          else map_option (\<lambda>r. bindR r (\<lambda>s. Inr (True, Some s))) (clear_loop s))"

section \<open>The interface of a queue\<close>

locale fifo =
  fixes holds :: "'s \<Rightarrow> 'v list \<Rightarrow> bool"
    and fresh :: "'v \<Rightarrow> 's \<Rightarrow> bool"
    and enq :: "'v \<Rightarrow> 's \<Rightarrow> 's res"
    and first :: "'s \<Rightarrow> 'w res"
    and val :: "'v \<Rightarrow> 'w"
    and deq :: "'s \<Rightarrow> 's res"
  assumes enq_holds: "holds s xs \<Longrightarrow> fresh x s \<Longrightarrow> \<exists>s'. enq x s = Inr s' \<and> holds s' (xs @ [x])"
    and first_holds: "holds s (x # xs) \<Longrightarrow> first s = Inr (val x)"
    and deq_holds: "holds s (x # xs) \<Longrightarrow> \<exists>s'. deq s = Inr s' \<and> holds s' xs"
begin

fun drain :: "nat \<Rightarrow> 's \<Rightarrow> ('w list \<times> 's) res" where
  "drain 0 s = Inr ([], s)"
| "drain (Suc n) s = bindR (first s) (\<lambda>v. bindR (deq s) (\<lambda>s. bindR (drain n s) (\<lambda>(vs, s). Inr (v # vs, s))))"

lemma drain_holds: "holds s (xs @ ys) \<Longrightarrow> \<exists>s'. drain (length xs) s = Inr (map val xs, s') \<and> holds s' ys"
proof (induction xs arbitrary: s)
  case (Cons x xs)
  then obtain s1 where "first s = Inr (val x)" "deq s = Inr s1" "holds s1 (xs @ ys)"
    using first_holds [of s x "xs @ ys"] deq_holds [of s x "xs @ ys"] by auto
  with Cons.IH [of s1] show ?case by auto
qed simp

text \<open>A value put into a queue of \<open>n\<close> comes out after those \<open>n\<close>.\<close>

lemma enq_drain:
  assumes "holds s xs" "fresh x s"
  shows "\<exists>s1 s2. enq x s = Inr s1 \<and> drain (Suc (length xs)) s1 = Inr (map val xs @ [val x], s2) \<and> holds s2 []"
proof -
  obtain s1 where s1: "enq x s = Inr s1" "holds s1 (xs @ [x])" using enq_holds [OF assms] by blast
  then obtain s2 where "drain (length (xs @ [x])) s1 = Inr (map val (xs @ [x]), s2)" "holds s2 []"
    using drain_holds [of s1 "xs @ [x]" "[]"] by auto
  with s1(1) show ?thesis by auto
qed

end

section \<open>The queue refines a list\<close>

text \<open>The nodes from \<open>p\<close> on are those of the list, with their data, and the last has no successor.\<close>

fun nodes_from :: "queue_t \<Rightarrow> nat option \<Rightarrow> (nat \<times> nat) list \<Rightarrow> bool" where
  "nodes_from q p [] \<longleftrightarrow> p = None"
| "nodes_from q p ((a, v) # xs) \<longleftrightarrow> p = Some a \<and>
     (\<exists>x. qnodes q a = Some x \<and> data x = v \<and> nodes_from q (next_of x) xs)"

definition queue_holds :: "queue_t \<Rightarrow> (nat \<times> nat) list \<Rightarrow> bool" where
  "queue_holds q xs \<longleftrightarrow> nodes_from q (front q) xs \<and> distinct (map fst xs) \<and>
     back_of q = (if xs = [] then None else Some (fst (last xs)))"

lemma nodes_from_frame:
  "nodes_from q p xs \<Longrightarrow> (\<And>a. a \<in> fst ` set xs \<Longrightarrow> qnodes q' a = qnodes q a) \<Longrightarrow> nodes_from q' p xs"
  by (induction xs arbitrary: p) fastforce+

lemma nodes_from_live: "nodes_from q p xs \<Longrightarrow> a \<in> fst ` set xs \<Longrightarrow> qnodes q a \<noteq> None"
proof (induction xs arbitrary: p)
  case (Cons x xs)
  obtain b v where [simp]: "x = (b, v)" by (cases x)
  from Cons.prems obtain y where y: "qnodes q b = Some y" "nodes_from q (next_of y) xs" by auto
  show ?case
  proof (cases "a = b")
    case False
    then have "a \<in> fst ` set xs" using Cons.prems(2) by simp
    then show ?thesis by (rule Cons.IH [OF y(2)])
  qed (simp add: y)
qed simp

lemma nodes_from_snoc:
  assumes "nodes_from q p (xs @ [(b, v)])" "distinct (map fst (xs @ [(b, v)]))"
    and "qnodes q b = Some x" "qnodes q' b = Some (x\<lparr>next_of := Some n\<rparr>)" "qnodes q' n = Some \<lparr>data = w, next_of = None\<rparr>"
    and "\<And>a. a \<in> fst ` set xs \<Longrightarrow> qnodes q' a = qnodes q a"
  shows "nodes_from q' p (xs @ [(b, v)] @ [(n, w)])"
  using assms by (induction xs arbitrary: p) fastforce+

lemma queue_enqueue_holds:
  assumes "queue_holds q xs" "n \<notin> fst ` set xs"
  shows "\<exists>q'. queue_enqueue n (Some v) (Some q) = Inr (True, Some q') \<and> queue_holds q' (xs @ [(n, v)]) \<and>
    data_size q' = data_size q"
proof (cases "xs = []")
  case True
  then show ?thesis using assms by (auto simp: queue_holds_def queue_enqueue_def)
next
  case False
  then obtain ys b w where xs: "xs = ys @ [(b, w)]" by (metis prod.collapse rev_exhaust)
  have bk: "back_of q = Some b" using assms(1) xs by (simp add: queue_holds_def)
  have fr: "front q \<noteq> None" using assms(1) False by (cases xs) (auto simp: queue_holds_def)
  have "nodes_from q p (ys @ [(b, w)]) \<Longrightarrow> \<exists>x. qnodes q b = Some x" for p
    by (induction ys arbitrary: p) auto
  then obtain x where x: "qnodes q b = Some x" using assms(1) xs by (auto simp: queue_holds_def)
  have nb: "n \<noteq> b" using assms(2) xs by auto
  let ?q = "q\<lparr>qnodes := (qnodes q)(n \<mapsto> \<lparr>data = v, next_of = None\<rparr>, b \<mapsto> x\<lparr>next_of := Some n\<rparr>), back_of := Some n\<rparr>"
  have "queue_enqueue n (Some v) (Some q) = Inr (True, Some ?q)"
    using fr bk x nb by (auto simp: queue_enqueue_def get_node_def)
  moreover have "nodes_from ?q (front q) (ys @ [(b, w)] @ [(n, v)])"
    by (rule nodes_from_snoc [of q _ _ _ _ x]) (use assms xs x nb in \<open>auto simp: queue_holds_def\<close>)
  ultimately show ?thesis using assms xs by (auto simp: queue_holds_def)
qed

lemma queue_dequeue_holds:
  assumes "queue_holds q ((a, v) # xs)"
  shows "\<exists>q'. queue_dequeue q = Inr (True, q') \<and> queue_holds q' xs \<and> qnodes q' a = None \<and> data_size q' = data_size q"
proof -
  obtain x where x: "front q = Some a" "qnodes q a = Some x" "data x = v" "nodes_from q (next_of x) xs"
      "a \<notin> fst ` set xs" "distinct (map fst xs)" "back_of q = Some (fst (last ((a, v) # xs)))"
    using assms by (auto simp: queue_holds_def)
  show ?thesis
  proof (cases "xs = []")
    case True
    then show ?thesis using x by (auto simp: queue_dequeue_def queue_holds_def)
  next
    case False
    then have "fst (last xs) \<in> fst ` set xs" by (simp add: last_in_set)
    then have ne: "front q \<noteq> back_of q" using x False by auto
    let ?q = "q\<lparr>front := next_of x, qnodes := (qnodes q)(a := None)\<rparr>"
    have "queue_dequeue q = Inr (True, ?q)" using x ne by (simp add: queue_dequeue_def get_node_def)
    moreover have "nodes_from ?q (next_of x) xs" by (rule nodes_from_frame [OF x(4)]) (use x(5) in auto)
    ultimately show ?thesis using x False by (auto simp: queue_holds_def)
  qed
qed

text \<open>The operations in the form of the interface: a value is a fresh node with a data pointer.\<close>

definition enqueue_node :: "nat \<times> nat \<Rightarrow> queue_t \<Rightarrow> queue_t res" where
  "enqueue_node x q = bindR (queue_enqueue (fst x) (Some (snd x)) (Some q)) (\<lambda>(ok, r).
     case r of Some q \<Rightarrow> Inr q | None \<Rightarrow> Inl NullDeref)"

definition dequeue_node :: "queue_t \<Rightarrow> queue_t res" where
  "dequeue_node q = bindR (queue_dequeue q) (\<lambda>(ok, q). Inr q)"

definition front_data :: "queue_t \<Rightarrow> nat res" where
  "front_data q = bindR (get_node q (front q)) (\<lambda>x. Inr (data x))"

interpretation lq: fifo queue_holds "\<lambda>x q. fst x \<notin> {a. qnodes q a \<noteq> None}" enqueue_node front_data snd dequeue_node
proof (unfold_locales, goal_cases)
  case (1 q xs x)
  then have "fst x \<notin> fst ` set xs" using nodes_from_live [of q "front q" xs "fst x"] by (auto simp: queue_holds_def)
  then obtain q' where "queue_enqueue (fst x) (Some (snd x)) (Some q) = Inr (True, Some q')"
      "queue_holds q' (xs @ [(fst x, snd x)])"
    using queue_enqueue_holds [OF 1(1), of "fst x" "snd x"] by blast
  then show ?case by (simp add: enqueue_node_def)
next
  case (2 q x xs)
  then show ?case by (cases x) (auto simp: queue_holds_def front_data_def get_node_def)
next
  case (3 q x xs)
  then show ?case using queue_dequeue_holds [of q "fst x" "snd x" xs] by (auto simp: dequeue_node_def)
qed

lemma clear_loop_holds: "queue_holds q xs \<Longrightarrow> \<exists>q'. clear_loop q = Some (Inr q') \<and> queue_holds q' []"
proof (induction xs arbitrary: q)
  case Nil
  then show ?case by (subst clear_loop.simps) (auto simp: queue_holds_def)
next
  case (Cons x xs)
  obtain q1 where q1: "queue_dequeue q = Inr (True, q1)" "queue_holds q1 xs"
    using queue_dequeue_holds [of q "fst x" "snd x" xs] Cons.prems by auto
  moreover have "front q \<noteq> None" using Cons.prems by (cases x) (auto simp: queue_holds_def)
  ultimately show ?case using Cons.IH [OF q1(2)] by (subst clear_loop.simps) simp
qed

text \<open>
  First in, first out: adding a non-null pointer with a fresh node appends it; taking the front of a
  non-empty queue copies the \<open>data_size\<close> bytes of the oldest element to a block that does not overlap
  them, and removes and frees exactly that element; on the empty queue it returns false and changes
  nothing; clearing returns and leaves the queue empty. A null queue or null data gives false.
\<close>

theorem queue_fifo:
  assumes "queue_holds q xs" "n \<notin> fst ` set xs"
  shows "(\<exists>q'. queue_enqueue n (Some v) (Some q) = Inr (True, Some q') \<and> queue_holds q' (xs @ [(n, v)])) \<and>
    (case xs of
       [] \<Rightarrow> queue_front_and_dequeue m dst q = Inr (False, m, q)
     | (a, w) # ys \<Rightarrow> apart dst (data_size q) w (data_size q) \<longrightarrow>
         (\<exists>m' q'. queue_front_and_dequeue m dst q = Inr (True, m', q') \<and> queue_holds q' ys \<and> qnodes q' a = None \<and>
            (\<forall>i<data_size q. m' (dst + i) = m (w + i)))) \<and>
    (\<exists>q'. queue_clear (Some q) = Some (Inr (True, Some q')) \<and> queue_is_empty (Some q')) \<and>
    queue_enqueue n None (Some q) = Inr (False, Some q) \<and> queue_enqueue n (Some v) None = Inr (False, None)"
proof (intro conjI)
  show "\<exists>q'. queue_enqueue n (Some v) (Some q) = Inr (True, Some q') \<and> queue_holds q' (xs @ [(n, v)])"
    using queue_enqueue_holds [OF assms] by blast
  show "case xs of
       [] \<Rightarrow> queue_front_and_dequeue m dst q = Inr (False, m, q)
     | (a, w) # ys \<Rightarrow> apart dst (data_size q) w (data_size q) \<longrightarrow>
         (\<exists>m' q'. queue_front_and_dequeue m dst q = Inr (True, m', q') \<and> queue_holds q' ys \<and> qnodes q' a = None \<and>
            (\<forall>i<data_size q. m' (dst + i) = m (w + i)))"
  proof (cases xs)
    case Nil
    then show ?thesis using assms(1) by (simp add: queue_holds_def queue_front_and_dequeue_def queue_front_def)
  next
    case (Cons x ys)
    obtain a w where x: "x = (a, w)" by (cases x)
    obtain q' where q': "queue_dequeue q = Inr (True, q')" "queue_holds q' ys" "qnodes q' a = None"
      using queue_dequeue_holds [of q a w ys] assms(1) Cons x by auto
    have "front_data q = Inr w" using lq.first_holds [of q "(a, w)" ys] assms(1) Cons x by simp
    then have f: "queue_front m dst (Some q) = Inr (True, memcpy m dst w (data_size q))"
      by (auto simp: front_data_def queue_front_def get_node_def split: option.splits)
    have "memcpy m dst w (data_size q) (dst + i) = m (w + i)" if "apart dst (data_size q) w (data_size q)" "i < data_size q" for i
      using that by (subst memcpy_eq) (auto simp: apart_def)
    then show ?thesis using Cons x q' f by (simp add: queue_front_and_dequeue_def)
  qed
  obtain q' where "clear_loop q = Some (Inr q')" "queue_holds q' []" using clear_loop_holds [OF assms(1)] by blast
  then show "\<exists>q'. queue_clear (Some q) = Some (Inr (True, Some q')) \<and> queue_is_empty (Some q')"
    by (auto simp: queue_clear_def queue_is_empty_def queue_holds_def)
  show "queue_enqueue n None (Some q) = Inr (False, Some q)" "queue_enqueue n (Some v) None = Inr (False, None)"
    by (simp_all add: queue_enqueue_def)
qed

definition example_queue :: queue_t where
  "example_queue = \<lparr>qnodes = [3 \<mapsto> \<lparr>data = 1, next_of = Some 4\<rparr>, 4 \<mapsto> \<lparr>data = 10, next_of = None\<rparr>], front = Some 3,
     back_of = Some 4, data_size = 2\<rparr>"

theorem queue_fifo_witness:
  "\<exists>m' q'. queue_front_and_dequeue example_mem 40 example_queue = Inr (True, m', q') \<and>
     queue_holds q' [(4, 10)] \<and> m' 40 = 104 \<and> m' 41 = 101"
proof -
  have "queue_holds example_queue [(3, 1), (4, 10)]" by (simp add: queue_holds_def example_queue_def)
  from queue_fifo [OF this, of 5 7 example_mem 40]
  obtain m' q' where r: "queue_front_and_dequeue example_mem 40 example_queue = Inr (True, m', q')"
      "queue_holds q' [(4, 10)]" "\<forall>i<2. m' (40 + i) = example_mem (1 + i)"
    by (auto simp: example_queue_def apart_def)
  from r(3) have "m' 40 = 104" "m' 41 = 101" by (simp_all add: all_less_small example_mem_def)
  with r show ?thesis by blast
qed

end
