(* ===== verification/Zone_Allocator.thy ===== *)
theory Zone_Allocator
  imports Prelude
begin

text \<open>
  The physical memory manager of \<open>src/mem/zone_allocator.c\<close> as it is built by default (without
  \<open>ENABLE_BUDDYSYSTEM\<close>): the page descriptors of \<open>mem_map\<close>, of which only \<open>_count\<close> is used, the two
  zones, the first-fit search of a run of free pages and the initialisation. A pointer to a page
  descriptor is its index in \<open>mem_map\<close>; reading or writing past the array is \<open>OutOfBounds\<close>.
\<close>

section \<open>Data\<close>

definition PAGE_SIZE :: nat where "PAGE_SIZE = 4096"
definition MAX_ORDER :: nat where "MAX_ORDER = 11"

definition GFP_RECLAIM :: u32 where "GFP_RECLAIM = 0x400 OR 0x800"
definition GFP_ATOMIC :: u32 where "GFP_ATOMIC = 0x20 OR 0x200 OR 0x800"
definition GFP_KERNEL :: u32 where "GFP_KERNEL = GFP_RECLAIM OR 0x40 OR 0x80"
definition GFP_NOWAIT :: u32 where "GFP_NOWAIT = 0x800"
definition GFP_NOIO :: u32 where "GFP_NOIO = GFP_RECLAIM"
definition GFP_NOFS :: u32 where "GFP_NOFS = GFP_RECLAIM OR 0x40"
definition GFP_USER :: u32 where "GFP_USER = GFP_RECLAIM OR 0x40 OR 0x80"
definition GFP_HIGHUSER :: u32 where "GFP_HIGHUSER = GFP_USER OR 0x02"

lemmas gfp_defs = GFP_RECLAIM_def GFP_ATOMIC_def GFP_KERNEL_def GFP_NOWAIT_def GFP_NOIO_def GFP_NOFS_def
  GFP_USER_def GFP_HIGHUSER_def

record zone =
  zone_free :: nat
  zone_mem_map :: nat
  zone_start_pfn :: nat
  zone_name :: string
  zone_size :: nat

record pmm =
  mem_map :: "int list"
  node_zones :: "zone list"

section \<open>Finding the zone\<close>

fun zone_of_page :: "zone list \<Rightarrow> nat \<Rightarrow> nat \<Rightarrow> nat option" where
  "zone_of_page [] k page = None"
| "zone_of_page (z # zs) k page =
     (if page < zone_mem_map z + zone_size z then Some k else zone_of_page zs (Suc k) page)"

definition get_zone_from_page :: "nat \<Rightarrow> pmm \<Rightarrow> nat option" where
  "get_zone_from_page page p = zone_of_page (node_zones p) 0 page"

definition get_zone_from_flags :: "u32 \<Rightarrow> nat option" where
  "get_zone_from_flags gfp_mask =
     (if gfp_mask = GFP_KERNEL \<or> gfp_mask = GFP_ATOMIC \<or> gfp_mask = GFP_NOFS \<or> gfp_mask = GFP_NOIO \<or> gfp_mask = GFP_NOWAIT then Some 0
      else if gfp_mask = GFP_HIGHUSER then Some 1
      else None)"

section \<open>Allocation and release of page frames\<close>

text \<open>The inner loop of the search: the offset of the first page of the block that is taken.\<close>

fun scan_block :: "int list \<Rightarrow> nat \<Rightarrow> nat \<Rightarrow> nat \<Rightarrow> nat option res" where
  "scan_block cs block i 0 = Inr None"
| "scan_block cs block i (Suc k) =
     bindR (get_at cs (block + i)) (\<lambda>c. if c = -1 then scan_block cs block (Suc i) k else Inr (Some i))"

text \<open>The outer loop: after a taken page the search restarts behind it.\<close>

function search_block :: "int list \<Rightarrow> nat \<Rightarrow> nat \<Rightarrow> nat \<Rightarrow> nat option res" where
  "search_block cs block_size last_frame block =
     (if block < last_frame
      then bindR (scan_block cs block 0 block_size) (\<lambda>r. case r of
             None \<Rightarrow> Inr (Some block)
           | Some i \<Rightarrow> search_block cs block_size last_frame (block + i + 1))
      else Inr None)"
  by pat_completeness auto
termination by (relation "measure (\<lambda>(cs, n, last_frame, block). last_frame - block)") auto

declare search_block.simps [simp del]

text \<open>The loops that set \<open>_count\<close> of \<open>n\<close> pages from \<open>block + i\<close>.\<close>

fun set_counts :: "int \<Rightarrow> nat \<Rightarrow> nat \<Rightarrow> nat \<Rightarrow> int list \<Rightarrow> int list res" where
  "set_counts v block i 0 cs = Inr cs"
| "set_counts v block i (Suc k) cs = bindR (set_at cs (block + i) v) (set_counts v block (Suc i) k)"

definition alloc_fail :: nat where "alloc_fail = 2 ^ 32 - 1"

definition alloc_pages :: "u32 \<Rightarrow> nat \<Rightarrow> pmm \<Rightarrow> (nat \<times> pmm) res" where
  "alloc_pages gfp_mask order p =
     (case get_zone_from_flags gfp_mask of None \<Rightarrow> Inl AssertFail
      | Some k \<Rightarrow>
     if \<not> order \<le> MAX_ORDER - 1 then Inl AssertFail
     else bindR (get_at (node_zones p) k) (\<lambda>z.
     let block_size = 2 ^ order;
         last_frame = zone_mem_map z + zone_size z + 1 - order
     in bindR (search_block (mem_map p) block_size last_frame (zone_mem_map z)) (\<lambda>r. case r of
          None \<Rightarrow> Inr (alloc_fail, p)
        | Some page \<Rightarrow>
            bindR (set_counts 0 page 0 block_size (mem_map p)) (\<lambda>cs.
            Inr (u32n ((zone_start_pfn z + (page - zone_mem_map z)) * PAGE_SIZE),
                 p\<lparr>mem_map := cs,
                   node_zones := (node_zones p)[k := z\<lparr>zone_free := u32n (zone_free z + 2 ^ 32 - block_size)\<rparr>]\<rparr>)))))"

definition alloc_page :: "u32 \<Rightarrow> pmm \<Rightarrow> (nat \<times> pmm) res" where
  "alloc_page gfp_mask p = alloc_pages gfp_mask 0 p"

definition free_pages :: "nat \<Rightarrow> nat \<Rightarrow> pmm \<Rightarrow> pmm res" where
  "free_pages addr order p =
     (let page = addr div PAGE_SIZE
      in case get_zone_from_page page p of None \<Rightarrow> Inl AssertFail
      | Some k \<Rightarrow>
        bindR (get_at (node_zones p) k) (\<lambda>z.
        bindR (set_counts (-1) page 0 (2 ^ order) (mem_map p)) (\<lambda>cs.
        Inr (p\<lparr>mem_map := cs,
               node_zones := (node_zones p)[k := z\<lparr>zone_free := u32n (zone_free z + 2 ^ order)\<rparr>]\<rparr>))))"

definition free_page :: "nat \<Rightarrow> pmm \<Rightarrow> pmm res" where
  "free_page addr p = free_pages addr 0 p"

text \<open>\<open>find_nearest_order_greater\<close>; the number of pages is below \<open>2^20\<close>, so \<open>1UL << order\<close> does not wrap.\<close>

function order_loop :: "nat \<Rightarrow> nat \<Rightarrow> nat" where
  "order_loop amount order = (if 2 ^ order < amount then order_loop amount (Suc order) else order)"
  by pat_completeness auto
termination
proof (relation "measure (\<lambda>(amount, order). amount - order)", goal_cases)
  case (2 amount order)
  have "order < amount" using 2 less_exp [of order] by linarith
  then show ?case by simp
qed simp

declare order_loop.simps [simp del]

definition find_nearest_order_greater :: "nat \<Rightarrow> nat" where
  "find_nearest_order_greater amount = order_loop (u32n (amount + PAGE_SIZE - 1) div PAGE_SIZE) 0"

section \<open>The self-test at boot\<close>

fun counts_free :: "int list \<Rightarrow> nat \<Rightarrow> nat \<Rightarrow> bool res" where
  "counts_free cs base 0 = Inr True"
| "counts_free cs base (Suc n) =
     bindR (get_at cs base) (\<lambda>c. if c \<noteq> -1 then Inr False else counts_free cs (Suc base) n)"

definition is_memory_clean :: "u32 \<Rightarrow> pmm \<Rightarrow> bool res" where
  "is_memory_clean gfp_mask p =
     (case get_zone_from_flags gfp_mask of None \<Rightarrow> Inl AssertFail
      | Some k \<Rightarrow> bindR (get_at (node_zones p) k) (\<lambda>z. counts_free (mem_map p) (zone_mem_map z) (zone_size z)))"

fun alloc_all :: "u32 \<Rightarrow> nat list \<Rightarrow> pmm \<Rightarrow> (nat list \<times> pmm) res" where
  "alloc_all gfp_mask [] p = Inr ([], p)"
| "alloc_all gfp_mask (order # os) p =
     bindR (alloc_pages gfp_mask order p) (\<lambda>(a, p). bindR (alloc_all gfp_mask os p) (\<lambda>(as, p). Inr (a # as, p)))"

fun free_all :: "(nat \<times> nat) list \<Rightarrow> pmm \<Rightarrow> pmm res" where
  "free_all [] p = Inr p"
| "free_all ((a, order) # xs) p = bindR (free_pages a order p) (free_all xs)"

text \<open>
  A step of \<open>pmm_check\<close>: blocks of the given orders are allocated, then released in the same
  order, and the zone must be clean again.
\<close>

definition check_step :: "u32 \<Rightarrow> nat list \<Rightarrow> pmm \<Rightarrow> (bool \<times> pmm) res" where
  "check_step gfp_mask os p =
     bindR (alloc_all gfp_mask os p) (\<lambda>(as, p).
     bindR (free_all (zip as os) p) (\<lambda>p.
     bindR (is_memory_clean gfp_mask p) (\<lambda>ok. Inr (ok, p))))"

text \<open>
  The last step keeps the addresses of its blocks in a page of its own, which it does not
  release by its own address: it releases the page of the first step once more.
\<close>

definition check_mixed :: "nat \<Rightarrow> pmm \<Rightarrow> (bool \<times> pmm) res" where
  "check_mixed ptr1 p =
     bindR (alloc_page GFP_KERNEL p) (\<lambda>(ptr, p).
     let os = replicate 5 0 @ replicate 15 2
     in bindR (alloc_all GFP_KERNEL os p) (\<lambda>(as, p).
        bindR (free_all (zip as os) p) (\<lambda>p.
        bindR (free_page ptr1 p) (\<lambda>p.
        bindR (is_memory_clean GFP_KERNEL p) (\<lambda>ok. Inr (ok, p))))))"

definition andR :: "(bool \<times> pmm) res \<Rightarrow> (pmm \<Rightarrow> (bool \<times> pmm) res) \<Rightarrow> (bool \<times> pmm) res" where
  "andR r f = bindR r (\<lambda>(ok, p). if \<not> ok then Inr (False, p) else f p)"

definition pmm_check :: "pmm \<Rightarrow> (bool \<times> pmm) res" where
  "pmm_check p =
     bindR (alloc_page GFP_KERNEL p) (\<lambda>(ptr1, p).
     bindR (free_page ptr1 p) (\<lambda>p.
     bindR (is_memory_clean GFP_KERNEL p) (\<lambda>ok.
     andR (Inr (ok, p)) (\<lambda>p.
     andR (check_step GFP_HIGHUSER (replicate 5 0) p) (\<lambda>p.
     andR (check_step GFP_KERNEL [3] p) (\<lambda>p.
     andR (check_step GFP_HIGHUSER [0, 1, 2, 3, 4] p) (\<lambda>p.
     check_mixed ptr1 p)))))))"

section \<open>Initialisation\<close>

definition max_order_align :: "nat \<Rightarrow> nat" where
  "max_order_align a = u32n (unat ((of_nat a :: u32) AND NOT 0x3FFFFF) + 0x400000)"

definition zone_init :: "string \<Rightarrow> nat \<Rightarrow> nat \<Rightarrow> zone res" where
  "zone_init name adr_from adr_to =
     (if \<not> (adr_from < adr_to \<and> unat ((of_nat adr_from :: u32) AND 0xFFFFF000) = adr_from \<and>
             unat ((of_nat adr_to :: u32) AND 0xFFFFF000) = adr_to)
      then Inl AssertFail
      else let num_page_frames = (adr_to - adr_from) div PAGE_SIZE;
               first_page_frame = adr_from div PAGE_SIZE
           in Inr \<lparr>zone_free = num_page_frames, zone_mem_map = first_page_frame, zone_start_pfn = first_page_frame,
                   zone_name = name, zone_size = num_page_frames\<rparr>)"

text \<open>The end of the modules: the larger of the start and every address that is set.\<close>

fun skip_modules :: "nat list \<Rightarrow> nat \<Rightarrow> nat" where
  "skip_modules [] start = start"
| "skip_modules (e # es) start = skip_modules es (if e \<noteq> 0 \<and> start < e then e else start)"

definition sizeof_page_t :: nat where "sizeof_page_t = 20"
definition sizeof_pg_data_t :: nat where "sizeof_pg_data_t = 332"

definition pmmngr_init :: "nat \<Rightarrow> nat list \<Rightarrow> nat \<Rightarrow> (bool \<times> pmm) res" where
  "pmmngr_init data_end module_end mem_size =
     (let memory_size = max_order_align mem_size;
          num_frames = memory_size div PAGE_SIZE;
          start = skip_modules module_end data_end;
          start = u32n (start + sizeof_page_t * num_frames);
          start = u32n (start + sizeof_pg_data_t);
          start_normal = max_order_align start;
          stop_normal = max_order_align (memory_size div 4)
      in bindR (zone_init ''Normal'' start_normal stop_normal) (\<lambda>zn.
         bindR (zone_init ''HighMem'' stop_normal memory_size) (\<lambda>zh.
         pmm_check \<lparr>mem_map = replicate num_frames (-1), node_zones = [zn, zh]\<rparr>)))"

end
