(* ===== verification/Kheap.thy ===== *)
theory Kheap
  imports C_String Zone_Allocator
begin

text \<open>
  The heap manager of \<open>src/mem/kheap.c\<close> over the byte memory of \<open>C_String\<close>: a heap is an area of
  memory whose first three words point to the first block, the last block and the first free block;
  a block is a header of three words (\<open>size\<close> with the free bit as its lowest bit, \<open>nextfree\<close>, \<open>next\<close>)
  followed by its payload. Addresses and sizes are natural numbers below \<open>2^32\<close>, with the
  wrap-around of the 32-bit sums written out (\<open>u32n\<close>); pointer \<open>0\<close> is \<open>NULL\<close>. The loops that follow
  links in memory are partial functions, with \<open>None\<close> for a walk that does not end.
\<close>

section \<open>Words in memory\<close>

text \<open>Conversion of an unsigned value to \<open>int\<close>, as in the call \<open>ksbrk(realsize)\<close>.\<close>

definition to_int32 :: "nat \<Rightarrow> int" where
  "to_int32 n = (if n < 2 ^ 31 then int n else int n - 2 ^ 32)"

definition read32 :: "mem \<Rightarrow> nat \<Rightarrow> nat" where
  "read32 m a = unat (m a) + 256 * (unat (m (a + 1)) + 256 * (unat (m (a + 2)) + 256 * unat (m (a + 3))))"

definition write32 :: "mem \<Rightarrow> nat \<Rightarrow> nat \<Rightarrow> mem" where
  "write32 m a v =
     m(a := of_nat v, a + 1 := of_nat (v div 256), a + 2 := of_nat (v div 256 div 256),
       a + 3 := of_nat (v div 256 div 256 div 256))"

definition overhead :: nat where "overhead = 12"

text \<open>The fields of a \<open>block_t\<close>.\<close>

definition blk_size :: "mem \<Rightarrow> nat \<Rightarrow> nat" where "blk_size m b = read32 m b"
definition nextfree :: "mem \<Rightarrow> nat \<Rightarrow> nat" where "nextfree m b = read32 m (b + 4)"
definition next_blk :: "mem \<Rightarrow> nat \<Rightarrow> nat" where "next_blk m b = read32 m (b + 8)"
definition set_size :: "nat \<Rightarrow> nat \<Rightarrow> mem \<Rightarrow> mem" where "set_size b v m = write32 m b v"
definition set_nextfree :: "nat \<Rightarrow> nat \<Rightarrow> mem \<Rightarrow> mem" where "set_nextfree b v m = write32 m (b + 4) v"
definition set_next :: "nat \<Rightarrow> nat \<Rightarrow> mem \<Rightarrow> mem" where "set_next b v m = write32 m (b + 8) v"

definition ceil_to :: "nat \<Rightarrow> nat \<Rightarrow> nat" where
  "ceil_to n b = unat ((of_nat (n + (b - 1)) :: u32) AND NOT (of_nat (b - 1)))"

definition ADDR_ALIGN :: "nat \<Rightarrow> nat" where
  "ADDR_ALIGN a = u32n ((a AND 0xFFFFF000) + 0x1000)"

definition IS_ALIGN :: "nat \<Rightarrow> bool" where
  "IS_ALIGN a \<longleftrightarrow> a AND 0xFFF = 0"

section \<open>State\<close>

record vm_area =
  vm_start :: nat
  vm_end :: nat

text \<open>
  A memory descriptor, with the fields that heap and paging use. \<open>mmap\<close> is the list of segments that
  \<open>vm_next\<close> links, each with the address of its \<open>vm_area_struct\<close>.
\<close>

record mm_struct =
  mm_addr :: nat
  mmap :: "(nat \<times> vm_area) list"
  mmap_cache :: nat
  map_count :: nat
  start_brk :: nat
  brk :: nat
  start_stack :: nat
  total_vm :: nat

record kheap =
  bytes :: mem
  kernel_heap :: vm_area
  kernel_heap_curr :: nat
  kheap_enabled :: bool
  cur_mm :: mm_struct
  pages :: pmm

text \<open>The heap argument of the functions below: the address of \<open>kernel_heap\<close> or a user segment.\<close>

datatype heap_ref = Kernel_Heap | User_Heap vm_area

definition heap_area :: "kheap \<Rightarrow> heap_ref \<Rightarrow> vm_area" where
  "heap_area s h = (case h of Kernel_Heap \<Rightarrow> kernel_heap s | User_Heap a \<Rightarrow> a)"

definition head_at :: "vm_area \<Rightarrow> nat" where "head_at a = vm_start a"
definition tail_at :: "vm_area \<Rightarrow> nat" where "tail_at a = u32n (vm_start a + 4)"
definition freelist_at :: "vm_area \<Rightarrow> nat" where "freelist_at a = u32n (vm_start a + 2 * 4)"

section \<open>The break\<close>

definition do_brk :: "nat \<Rightarrow> vm_area \<Rightarrow> int \<Rightarrow> nat \<times> nat" where
  "do_brk heap_curr heap increment =
     (if increment > 0
      then let new_boundary = nat ((int heap_curr + increment) mod 2 ^ 32)
           in if new_boundary \<le> vm_end heap then (heap_curr, new_boundary) else (0, heap_curr)
      else (0, heap_curr))"

definition ksbrk :: "int \<Rightarrow> kheap \<Rightarrow> nat \<times> kheap" where
  "ksbrk increment s =
     (case do_brk (kernel_heap_curr s) (kernel_heap s) increment of (p, c) \<Rightarrow> (p, s\<lparr>kernel_heap_curr := c\<rparr>))"

text \<open>
  \<open>find_user_heap\<close> walks \<open>mmap\<close> for the segment that starts at \<open>start_brk\<close>; running off the list is
  an access through a null pointer.
\<close>

fun find_segment :: "nat \<Rightarrow> (nat \<times> vm_area) list \<Rightarrow> vm_area res" where
  "find_segment start [] = Inl NullDeref"
| "find_segment start ((at, g) # gs) = (if vm_start g \<noteq> start then find_segment start gs else Inr g)"

definition find_user_heap :: "kheap \<Rightarrow> vm_area option res" where
  "find_user_heap s =
     (let start_heap = start_brk (cur_mm s)
      in if start_heap = 0 then Inr None else bindR (find_segment start_heap (mmap (cur_mm s))) (\<lambda>g. Inr (Some g)))"

definition usbrk :: "int \<Rightarrow> kheap \<Rightarrow> (nat \<times> kheap) res" where
  "usbrk increment s =
     bindR (find_user_heap s) (\<lambda>h. case h of
         None \<Rightarrow> Inl AssertFail
       | Some g \<Rightarrow> (case do_brk (brk (cur_mm s)) g increment of
           (p, c) \<Rightarrow> Inr (p, s\<lparr>cur_mm := (cur_mm s)\<lparr>brk := c\<rparr>\<rparr>)))"

definition heap_sbrk :: "heap_ref \<Rightarrow> nat \<Rightarrow> kheap \<Rightarrow> (nat \<times> kheap) res" where
  "heap_sbrk h n s = (case h of Kernel_Heap \<Rightarrow> Inr (ksbrk (to_int32 n) s) | User_Heap _ \<Rightarrow> usbrk (to_int32 n) s)"

section \<open>The block manager\<close>

definition get_real_size :: "nat \<Rightarrow> nat" where
  "get_real_size n = push_bit 1 (drop_bit 1 n)"

definition blkmngr_set_free :: "nat \<Rightarrow> bool \<Rightarrow> mem \<Rightarrow> mem" where
  "blkmngr_set_free b x m =
     (if x then set_size b (blk_size m b OR 1) m else set_size b (blk_size m b AND 0xFFFFFFFE) m)"

definition blkmngr_is_free :: "mem \<Rightarrow> nat \<Rightarrow> bool" where
  "blkmngr_is_free m b \<longleftrightarrow> b \<noteq> 0 \<and> blk_size m b AND 1 \<noteq> 0"

definition blkmngr_does_it_fit :: "mem \<Rightarrow> nat \<Rightarrow> nat \<Rightarrow> bool" where
  "blkmngr_does_it_fit m b n \<longleftrightarrow> blk_size m b \<ge> get_real_size n \<and> blkmngr_is_free m b"

text \<open>The search of the predecessor in the free list.\<close>

partial_function (option) free_prev :: "mem \<Rightarrow> nat \<Rightarrow> nat \<Rightarrow> nat option" where
  "free_prev m block prev =
     (if prev \<noteq> 0 \<and> nextfree m prev \<noteq> block then free_prev m block (nextfree m prev) else Some prev)"

definition blkmngr_remove_from_freelist :: "nat \<Rightarrow> nat \<Rightarrow> mem \<Rightarrow> mem res option" where
  "blkmngr_remove_from_freelist block freelist m =
     (if block = 0 \<or> freelist = 0 then Some (Inl AssertFail)
      else let first = read32 m freelist
      in if first = 0 then Some (Inl AssertFail)
      else if block = first
           then Some (Inr (set_nextfree block 0 (write32 m freelist (nextfree m block))))
      else map_option (\<lambda>prev. Inr (set_nextfree block 0
             (if prev \<noteq> 0 then set_nextfree prev (nextfree m block) m else m))) (free_prev m block first))"

definition blkmngr_add_to_freelist :: "nat \<Rightarrow> nat \<Rightarrow> mem \<Rightarrow> mem res" where
  "blkmngr_add_to_freelist block freelist m =
     (if block = 0 \<or> freelist = 0 then Inl AssertFail
      else Inr (write32 (set_nextfree block (read32 m freelist) m) freelist block))"

partial_function (option) best_fit_loop :: "mem \<Rightarrow> nat \<Rightarrow> nat \<Rightarrow> nat \<Rightarrow> nat option" where
  "best_fit_loop m n current best =
     (if current = 0 then Some best
      else if \<not> blkmngr_does_it_fit m current n then best_fit_loop m n (nextfree m current) best
      else if best = 0 \<or> blk_size m current < blk_size m best
           then best_fit_loop m n (nextfree m current) current
      else best_fit_loop m n (nextfree m current) best)"

definition blkmngr_find_best_fitting :: "nat \<Rightarrow> nat \<Rightarrow> mem \<Rightarrow> nat res option" where
  "blkmngr_find_best_fitting n freelist m =
     (if freelist = 0 then Some (Inl AssertFail)
      else let first = read32 m freelist
      in if first = 0 then Some (Inr 0) else map_option Inr (best_fit_loop m n first 0))"

partial_function (option) prev_blk_loop :: "mem \<Rightarrow> nat \<Rightarrow> nat \<Rightarrow> nat res option" where
  "prev_blk_loop m block prev =
     (if prev = 0 then Some (Inl NullDeref)
      else if next_blk m prev \<noteq> block then prev_blk_loop m block (next_blk m prev)
      else Some (Inr prev))"

definition blkmngr_get_previous_block :: "nat \<Rightarrow> nat \<Rightarrow> mem \<Rightarrow> nat res option" where
  "blkmngr_get_previous_block block head m =
     (if block = 0 \<or> head = 0 \<or> read32 m head = 0 then Some (Inl AssertFail)
      else if block = read32 m head then Some (Inr 0)
      else prev_blk_loop m block (read32 m head))"

definition blkmngr_get_next_block :: "nat \<Rightarrow> nat \<Rightarrow> mem \<Rightarrow> nat res" where
  "blkmngr_get_next_block block tail m =
     (if block = 0 \<or> tail = 0 \<or> read32 m tail = 0 then Inl AssertFail
      else if block = read32 m tail then Inr 0
      else Inr (next_blk m block))"

section \<open>Allocation\<close>

text \<open>
  The branch of \<open>__do_malloc\<close> that splits what is left of the best fitting block off as the block at
  \<open>block_ptr\<close>: it is merged with a free next block, or put back on its own.
\<close>

definition malloc_split :: "vm_area \<Rightarrow> nat \<Rightarrow> nat \<Rightarrow> nat \<Rightarrow> nat \<Rightarrow> nat \<Rightarrow> mem \<Rightarrow> mem res option" where
  "malloc_split a tail_block base_ptr block_ptr stored_next remaining_size m =
     bindO
      (if blkmngr_is_free m stored_next
       then bindO (blkmngr_remove_from_freelist stored_next (freelist_at a) m) (\<lambda>m.
            let m = set_size block_ptr (u32n (remaining_size + get_real_size (blk_size m stored_next))) m;
                m = blkmngr_set_free block_ptr True m
            in bindO (Some (blkmngr_get_next_block stored_next (tail_at a) m)) (\<lambda>n.
            let m = set_next block_ptr n m;
                m = (if stored_next = tail_block then write32 m (tail_at a) block_ptr else m)
            in Some (blkmngr_add_to_freelist block_ptr (freelist_at a) m)))
       else let m = set_size block_ptr (sub32 remaining_size overhead) m;
                m = blkmngr_set_free block_ptr True m;
                m = set_next block_ptr stored_next m;
                m = (if base_ptr = tail_block then write32 m (tail_at a) block_ptr else m)
            in Some (blkmngr_add_to_freelist block_ptr (freelist_at a) m))
      (\<lambda>m. Some (Inr (set_next base_ptr block_ptr m)))"

text \<open>
  The branch with a best fitting block. The unsigned difference \<open>chunk_size - block_size\<close> wraps.
\<close>

definition malloc_fit :: "vm_area \<Rightarrow> nat \<Rightarrow> nat \<Rightarrow> nat \<Rightarrow> mem \<Rightarrow> (nat \<times> mem) res option" where
  "malloc_fit a tail_block block_size best m =
     bindO (Some (blkmngr_get_next_block best (tail_at a) m)) (\<lambda>stored_next.
     let chunk_size = u32n (get_real_size (blk_size m best) + overhead);
         remaining_size = sub32 chunk_size block_size;
         real_size = (if remaining_size < 8 + overhead then chunk_size else block_size);
         m = set_size best (sub32 real_size overhead) m;
         m = blkmngr_set_free best False m;
         block_ptr = u32n (best + real_size)
     in bindO (if remaining_size < 8 + overhead then Some (Inr m)
               else malloc_split a tail_block best block_ptr stored_next remaining_size m) (\<lambda>m.
        bindO (blkmngr_remove_from_freelist best (freelist_at a) m) (\<lambda>m.
        Some (Inr (u32n (best + 12), m)))))"

text \<open>The branch that grows the heap.\<close>

definition malloc_grow :: "heap_ref \<Rightarrow> nat \<Rightarrow> kheap \<Rightarrow> (nat \<times> kheap) res" where
  "malloc_grow h block_size s =
     (let a = heap_area s h; head_block = read32 (bytes s) (head_at a); tail_block = read32 (bytes s) (tail_at a)
      in bindR (heap_sbrk h block_size s) (\<lambda>(ret, s).
         if ret = 0 then Inl AssertFail
         else bindR (if head_block = 0 then Inr (write32 (bytes s) (head_at a) ret)
                     else if tail_block = 0 then Inl NullDeref
                     else Inr (set_next tail_block ret (bytes s))) (\<lambda>m.
         let m = set_next ret 0 m;
             m = set_nextfree ret 0 m;
             m = write32 m (tail_at a) ret;
             m = set_size ret (sub32 block_size overhead) m;
             m = blkmngr_set_free ret False m
         in Inr (u32n (ret + 12), s\<lparr>bytes := m\<rparr>))))"

definition do_malloc :: "heap_ref \<Rightarrow> nat \<Rightarrow> kheap \<Rightarrow> (nat \<times> kheap) res option" where
  "do_malloc h n s =
     (if n = 0 then Some (Inr (0, s))
      else let a = heap_area s h;
               tail_block = read32 (bytes s) (tail_at a);
               rounded_size = ceil_to n 16;
               block_size = u32n (rounded_size + overhead)
      in bindO (blkmngr_find_best_fitting rounded_size (freelist_at a) (bytes s)) (\<lambda>best.
         if best \<noteq> 0
         then bindO (malloc_fit a tail_block block_size best (bytes s)) (\<lambda>(p, m). Some (Inr (p, s\<lparr>bytes := m\<rparr>)))
         else Some (malloc_grow h block_size s)))"

definition kmalloc :: "nat \<Rightarrow> kheap \<Rightarrow> (nat \<times> kheap) res option" where
  "kmalloc n s = (if \<not> kheap_enabled s then Some (Inl AssertFail) else do_malloc Kernel_Heap n s)"

text \<open>
  \<open>__do_malloc_align\<close>, called for the kernel heap. \<open>best_fitting + sizeof(block_t)\<close> is arithmetic
  on a pointer to \<open>block_t\<close>: twelve blocks, 144 bytes, further.
\<close>

definition do_malloc_align :: "nat \<Rightarrow> kheap \<Rightarrow> (nat \<times> kheap) res option" where
  "do_malloc_align n s =
     (if n = 0 then Some (Inr (0, s))
      else let a = kernel_heap s
      in if head_at a = 0 \<or> tail_at a = 0 \<or> freelist_at a = 0 then Some (Inl AssertFail)
      else let head_block = read32 (bytes s) (head_at a);
               tail_block = read32 (bytes s) (tail_at a);
               rounded_size = ceil_to n 16
      in bindO (blkmngr_find_best_fitting rounded_size (freelist_at a) (bytes s)) (\<lambda>best.
         if best \<noteq> 0 \<and> IS_ALIGN (u32n (best + 12 * 12)) then kmalloc n s
         else let needed_addr = ADDR_ALIGN (u32n (kernel_heap_curr s + 12) AND 0xFFFFF000);
                  block_addr = sub32 needed_addr 12;
                  realsize = u32n (sub32 block_addr (kernel_heap_curr s) + overhead + rounded_size)
         in Some (bindR (heap_sbrk Kernel_Heap realsize s) (\<lambda>(ret, s).
            if ret = 0 then Inl AssertFail
            else bindR (if head_block = 0 then Inr (write32 (bytes s) (head_at a) block_addr)
                        else if tail_block = 0 then Inl NullDeref
                        else Inr (set_next tail_block block_addr (bytes s))) (\<lambda>m.
            let m = set_next ret 0 m;
                m = set_nextfree ret 0 m;
                m = write32 m (tail_at a) block_addr;
                m = set_size block_addr rounded_size m;
                m = blkmngr_set_free block_addr False m
            in Inr (needed_addr, s\<lparr>bytes := m\<rparr>))))))"

definition kmalloc_align :: "nat \<Rightarrow> kheap \<Rightarrow> (nat \<times> kheap) res option" where
  "kmalloc_align n s = (if \<not> kheap_enabled s then Some (Inl AssertFail) else do_malloc_align n s)"

definition kcalloc :: "nat \<Rightarrow> nat \<Rightarrow> kheap \<Rightarrow> (nat \<times> kheap) res option" where
  "kcalloc num n s =
     bindO (kmalloc (u32n (num * n)) s) (\<lambda>(ptr, s).
     Some (Inr (ptr, if ptr \<noteq> 0 then s\<lparr>bytes := memset (bytes s) ptr 0 (u32n (num * n))\<rparr> else s)))"

section \<open>Release\<close>

definition do_free :: "vm_area \<Rightarrow> nat \<Rightarrow> mem \<Rightarrow> mem res option" where
  "do_free a ptr m =
     (if ptr = 0 then Some (Inl AssertFail)
      else if head_at a = 0 \<or> tail_at a = 0 \<or> freelist_at a = 0 then Some (Inl AssertFail)
      else let tail_block = read32 m (tail_at a);
               curr = sub32 ptr 12
      in bindO (blkmngr_get_previous_block curr (head_at a) m) (\<lambda>prev.
         bindO (Some (blkmngr_get_next_block curr (tail_at a) m)) (\<lambda>nxt.
         if blkmngr_is_free m prev \<and> blkmngr_is_free m nxt
         then let m = set_size prev (u32n (get_real_size (blk_size m prev) + 2 * overhead +
                                           get_real_size (blk_size m curr) + get_real_size (blk_size m nxt))) m;
                  m = blkmngr_set_free prev True m
              in bindO (Some (blkmngr_get_next_block nxt (tail_at a) m)) (\<lambda>n.
                 let m = set_next prev n m;
                     m = (if tail_block = nxt then write32 m (tail_at a) prev else m)
                 in blkmngr_remove_from_freelist nxt (freelist_at a) m)
         else if blkmngr_is_free m prev
         then let m = set_size prev (u32n (get_real_size (blk_size m prev) + overhead + get_real_size (blk_size m curr))) m;
                  m = blkmngr_set_free prev True m;
                  m = set_next prev nxt m;
                  m = (if tail_block = curr then write32 m (tail_at a) prev else m)
              in Some (Inr m)
         else if blkmngr_is_free m nxt
         then let m = set_size curr (u32n (get_real_size (blk_size m curr) + overhead + get_real_size (blk_size m nxt))) m;
                  m = blkmngr_set_free curr True m
              in bindO (Some (blkmngr_get_next_block nxt (tail_at a) m)) (\<lambda>n.
                 let m = set_next curr n m;
                     m = (if tail_block = nxt then write32 m (tail_at a) curr else m)
                 in bindO (blkmngr_remove_from_freelist nxt (freelist_at a) m) (\<lambda>m.
                    Some (blkmngr_add_to_freelist curr (freelist_at a) m)))
         else Some (blkmngr_add_to_freelist curr (freelist_at a) (blkmngr_set_free curr True m)))))"

definition kfree :: "nat \<Rightarrow> kheap \<Rightarrow> kheap res option" where
  "kfree ptr s = bindO (do_free (kernel_heap s) ptr (bytes s)) (\<lambda>m. Some (Inr (s\<lparr>bytes := m\<rparr>)))"

section \<open>Reallocation\<close>

text \<open>
  The expanding branches of \<open>__do_realloc\<close> on the kernel heap: merge with a free next block, merge
  with a free previous block, or move. Each merge writes the size once more at the end of the block.
\<close>

definition realloc_next :: "vm_area \<Rightarrow> nat \<Rightarrow> nat \<Rightarrow> nat \<Rightarrow> mem \<Rightarrow> (nat \<times> mem) res option" where
  "realloc_next a tail_block nptr nextBlock m =
     bindO (blkmngr_remove_from_freelist nextBlock (freelist_at a) m) (\<lambda>m.
     let m = set_size nptr (u32n (get_real_size (blk_size m nptr) + overhead + get_real_size (blk_size m nextBlock))) m;
         m = blkmngr_set_free nptr False m;
         m = write32 m (u32n (nptr + 12 + get_real_size (blk_size m nptr))) (blk_size m nptr);
         m = (if tail_block = nextBlock then write32 m (tail_at a) nptr else m)
     in Some (Inr (u32n (nptr + 12), m)))"

definition realloc_prev :: "vm_area \<Rightarrow> nat \<Rightarrow> nat \<Rightarrow> nat \<Rightarrow> nat \<Rightarrow> mem \<Rightarrow> (nat \<times> mem) res option" where
  "realloc_prev a tail_block ptr nptr prevBlock m =
     (let originalSize = get_real_size (blk_size m nptr)
      in bindO (blkmngr_remove_from_freelist prevBlock (freelist_at a) m) (\<lambda>m.
         let m = set_size prevBlock (u32n (originalSize + overhead + get_real_size (blk_size m prevBlock))) m;
             m = blkmngr_set_free prevBlock False m;
             m = write32 m (u32n (prevBlock + 12 + get_real_size (blk_size m prevBlock))) (blk_size m prevBlock);
             m = (if tail_block = nptr then write32 m (tail_at a) prevBlock else m);
             m = memcpy m (u32n (prevBlock + 12)) ptr originalSize
         in Some (Inr (u32n (prevBlock + 12), m))))"

definition realloc_move :: "nat \<Rightarrow> nat \<Rightarrow> nat \<Rightarrow> kheap \<Rightarrow> (nat \<times> kheap) res option" where
  "realloc_move ptr nptr n s =
     bindO (kmalloc n s) (\<lambda>(newplace, s).
     let s = s\<lparr>bytes := memcpy (bytes s) newplace ptr (get_real_size (blk_size (bytes s) nptr))\<rparr>
     in bindO (kfree ptr s) (\<lambda>s. Some (Inr (newplace, s))))"

text \<open>The shrinking branch: what is left becomes a block behind the copy of the size.\<close>

definition realloc_shrink :: "vm_area \<Rightarrow> nat \<Rightarrow> nat \<Rightarrow> nat \<Rightarrow> nat \<Rightarrow> nat \<Rightarrow> mem \<Rightarrow> (nat \<times> mem) res option" where
  "realloc_shrink a tail_block ptr nptr nextBlock block_size m =
     (let rest = sub32 (get_real_size (blk_size m nptr) + overhead) block_size
      in if rest < 8 + overhead then Some (Inr (ptr, m))
      else let m = set_size nptr (sub32 block_size overhead) m;
               m = blkmngr_set_free nptr False m;
               trailing = u32n (nptr + 12 + get_real_size (blk_size m nptr));
               m = write32 m trailing (blk_size m nptr);
               splitBlock = u32n (trailing + 4)
      in if nextBlock \<noteq> 0 \<and> blkmngr_is_free m nextBlock
         then let m = set_size splitBlock (u32n (rest + get_real_size (blk_size m nextBlock))) m;
                  m = blkmngr_set_free splitBlock True m;
                  m = write32 m (u32n (splitBlock + 12 + get_real_size (blk_size m splitBlock))) (blk_size m splitBlock)
              in bindO (blkmngr_remove_from_freelist nextBlock (freelist_at a) m) (\<lambda>m.
                 let m = (if tail_block = nextBlock then write32 m (tail_at a) splitBlock else m)
                 in bindO (Some (blkmngr_add_to_freelist splitBlock (freelist_at a) m)) (\<lambda>m. Some (Inr (ptr, m))))
         else let m = set_size splitBlock (sub32 rest overhead) m;
                  m = blkmngr_set_free splitBlock True m;
                  m = write32 m (u32n (splitBlock + 12 + get_real_size (blk_size m splitBlock))) (blk_size m splitBlock)
              in bindO (Some (blkmngr_add_to_freelist splitBlock (freelist_at a) m)) (\<lambda>m. Some (Inr (ptr, m))))"

definition krealloc :: "nat \<Rightarrow> nat \<Rightarrow> kheap \<Rightarrow> (nat \<times> kheap) res option" where
  "krealloc ptr n s =
     (let a = kernel_heap s; m = bytes s
      in if head_at a = 0 \<or> tail_at a = 0 \<or> freelist_at a = 0 then Some (Inl AssertFail)
      else if ptr = 0 then kmalloc n s
      else if n = 0 then bindO (kfree ptr s) (\<lambda>s. Some (Inr (0, s)))
      else let head_block = read32 m (head_at a);
               tail_block = read32 m (tail_at a);
               rounded_size = ceil_to n 16;
               block_size = u32n (rounded_size + overhead);
               nptr = sub32 ptr 12
      in bindO (Some (blkmngr_get_next_block nptr (tail_at a) m)) (\<lambda>nextBlock.
         bindO (blkmngr_get_previous_block nptr (head_at a) m) (\<lambda>prevBlock.
         if blk_size m nptr = n then Some (Inr (ptr, s))
         else if blk_size m nptr < n
         then if tail_block \<noteq> nptr \<and> blkmngr_is_free m nextBlock \<and>
                 u32n (get_real_size (blk_size m nptr) + overhead + get_real_size (blk_size m nextBlock)) \<ge> rounded_size
              then bindO (realloc_next a tail_block nptr nextBlock m) (\<lambda>(p, m). Some (Inr (p, s\<lparr>bytes := m\<rparr>)))
              else if head_block \<noteq> nptr \<and> blkmngr_is_free m prevBlock \<and>
                 u32n (get_real_size (blk_size m nptr) + overhead + get_real_size (blk_size m prevBlock)) \<ge> rounded_size
              then bindO (realloc_prev a tail_block ptr nptr prevBlock m) (\<lambda>(p, m). Some (Inr (p, s\<lparr>bytes := m\<rparr>)))
              else realloc_move ptr nptr n s
         else bindO (realloc_shrink a tail_block ptr nptr nextBlock block_size m) (\<lambda>(p, m).
              Some (Inr (p, s\<lparr>bytes := m\<rparr>))))))"

section \<open>Arrays of blocks, and the start of the heap\<close>

fun kmmalloc_loop :: "nat \<Rightarrow> nat \<Rightarrow> nat \<Rightarrow> nat \<Rightarrow> kheap \<Rightarrow> kheap res option" where
  "kmmalloc_loop ret n i 0 s = Some (Inr s)"
| "kmmalloc_loop ret n i (Suc k) s =
     bindO (kmalloc n s) (\<lambda>(p, s).
     if ret = 0 then Some (Inl NullDeref)
     else kmmalloc_loop ret n (Suc i) k (s\<lparr>bytes := write32 (bytes s) (u32n (ret + 4 * i)) p\<rparr>))"

definition kmmalloc :: "nat \<Rightarrow> nat \<Rightarrow> kheap \<Rightarrow> (nat \<times> kheap) res option" where
  "kmmalloc n sz s =
     bindO (kmalloc (u32n (n * 4)) s) (\<lambda>(ret, s).
     bindO (kmmalloc_loop ret sz 0 n s) (\<lambda>s. Some (Inr (ret, s))))"

fun kmfree_loop :: "nat \<Rightarrow> nat \<Rightarrow> nat \<Rightarrow> kheap \<Rightarrow> kheap res option" where
  "kmfree_loop src i 0 s = Some (Inr s)"
| "kmfree_loop src i (Suc k) s =
     (if src = 0 then Some (Inl NullDeref)
      else bindO (kfree (read32 (bytes s) (u32n (src + 4 * i))) s) (kmfree_loop src (Suc i) k))"

definition kmfree :: "nat \<Rightarrow> nat \<Rightarrow> kheap \<Rightarrow> kheap res option" where
  "kmfree src n s = bindO (kmfree_loop src 0 n s) (kfree src)"

text \<open>\<open>paging\<close> is what \<open>paging_is_enabled\<close> reads from the control register.\<close>

definition kheap_init :: "bool \<Rightarrow> nat \<Rightarrow> kheap \<Rightarrow> kheap res" where
  "kheap_init paging initial_size s =
     (if paging then Inl AssertFail
      else let order = find_nearest_order_greater initial_size
      in bindR (alloc_pages GFP_KERNEL order (pages s)) (\<lambda>(start, p).
         Inr (s\<lparr>pages := p,
                kernel_heap := \<lparr>vm_start = start, vm_end = u32n (start + 2 ^ order * PAGE_SIZE)\<rparr>,
                bytes := memset (bytes s) start 0 (3 * 4),
                kernel_heap_curr := u32n (start + 3 * 4),
                kheap_enabled := True\<rparr>)))"

end
