(* ===== verification/Kheap_Correct.thy ===== *)
theory Kheap_Correct
  imports Kheap
begin

text \<open>
  The invariant of a heap and what the block manager does to it. A heap is described by the list of
  its blocks (address, size of the payload, free or not) in the order of their addresses and by the
  list of the addresses of the free blocks in the order of the free list. The headers of the blocks
  and the three words at the start of the heap are separated cells, so that the fields behave like
  functions of the address that are updated point-wise.
\<close>

section \<open>Words in memory\<close>

lemma unat_of_nat_byte [simp]: "unat (of_nat n :: u8) = n mod 256"
  by (simp add: unat_of_nat)

lemma load_store_same: "v < 2 ^ 32 \<Longrightarrow> read32 (write32 m a v) a = v"
  unfolding read32_def write32_def by (simp del: One_nat_def)

lemma write32_byte: "x < a \<or> a + 4 \<le> x \<Longrightarrow> write32 m a v x = m x"
  by (auto simp: write32_def)

lemma load_store_other: "a + 4 \<le> b \<or> b + 4 \<le> a \<Longrightarrow> read32 (write32 m a v) b = read32 m b"
proof -
  assume d: "a + 4 \<le> b \<or> b + 4 \<le> a"
  have "write32 m a v b = m b" "write32 m a v (b + 1) = m (b + 1)" "write32 m a v (b + 2) = m (b + 2)"
    "write32 m a v (b + 3) = m (b + 3)" using d by (auto intro!: write32_byte)
  then show ?thesis by (simp only: read32_def)
qed

lemma read32_lt [simp]: "read32 m a < 4294967296"
proof -
  have "unat (m x) < 256" for x using unsigned_less [of "m x", where ?'a = nat] by simp
  from this [of a] this [of "a + 1"] this [of "a + 2"] this [of "a + 3"] show ?thesis
    unfolding read32_def by simp
qed

lemma field_lt [simp]: "blk_size m a < 4294967296" "nextfree m a < 4294967296" "next_blk m a < 4294967296"
  by (simp_all add: blk_size_def nextfree_def next_blk_def)

section \<open>The free bit\<close>

lemma real_size [simp]:
  "even n \<Longrightarrow> get_real_size n = n" "even n \<Longrightarrow> get_real_size (n + 1) = n" "even n \<Longrightarrow> get_real_size (Suc n) = n"
  by (auto simp: get_real_size_def push_bit_eq_mult drop_bit_eq_div elim!: evenE)

lemma or_one: "even (n :: nat) \<Longrightarrow> n OR 1 = n + 1"
  by (simp add: or_one_eq del: One_nat_def)

lemma and_free_mask: "n < 2 ^ 32 \<Longrightarrow> n AND 0xFFFFFFFE = n - n mod (2 :: nat)"
proof -
  assume n: "n < 2 ^ 32"
  have mask: "(0xFFFFFFFE :: nat) = push_bit 1 (mask 31)" by (simp add: push_bit_eq_mult mask_eq_exp_minus_1)
  have "n AND 0xFFFFFFFE = take_bit 32 n AND push_bit 1 (mask 31)" unfolding mask using n by (simp add: take_bit_nat_eq_self)
  also have "\<dots> = push_bit 1 (drop_bit 1 (take_bit 32 n))"
    by (rule bit_eqI)
      (auto simp only: bit_and_iff bit_take_bit_iff bit_push_bit_iff_nat bit_mask_iff possible_bit_def zero_less_power zero_less_numeral bit_drop_bit_eq comp_apply le_add_diff_inverse)
  also have "\<dots> = push_bit 1 (drop_bit 1 n)" using n by (simp add: take_bit_nat_eq_self)
  finally show ?thesis by (simp add: push_bit_eq_mult drop_bit_eq_div minus_mod_eq_div_mult)
qed

lemma and_one_odd: "n AND (1 :: nat) \<noteq> 0 \<longleftrightarrow> odd n"
  by (simp add: and_one_eq odd_iff_mod_2_eq_one)

lemma is_free_odd: "blkmngr_is_free m b \<longleftrightarrow> b \<noteq> 0 \<and> odd (blk_size m b)"
  unfolding blkmngr_is_free_def and_one_odd ..

lemma ceil_16:
  assumes "0 < n" "n + 15 < 2 ^ 32"
  shows "n \<le> ceil_to n 16" "ceil_to n 16 < n + 16" "16 dvd ceil_to n 16" "ceil_to n 16 < 2 ^ 32 - 15"
proof -
  have "of_nat (16 - 1) = (mask 4 :: u32)" "n + (16 - 1) = n + 15" by (simp_all add: mask_eq_exp_minus_1)
  moreover have "unat (of_nat (n + 15) :: u32) = n + 15" unfolding unat_of_nat using assms(2) by simp
  ultimately have "ceil_to n 16 = (n + 15) - (n + 15) mod 2 ^ 4" unfolding ceil_to_def by (simp only: unat_and_not_mask)
  then have c: "ceil_to n 16 = (n + 15) div 16 * 16" by (simp add: nat_round_down)
  show "n \<le> ceil_to n 16" "ceil_to n 16 < n + 16" "16 dvd ceil_to n 16" unfolding c by auto
  have "(n + 15) div 16 < 268435456" using assms(2) by (simp add: less_mult_imp_div_less)
  then show "ceil_to n 16 < 2 ^ 32 - 15" unfolding c by simp
qed

section \<open>Separated cells\<close>

text \<open>
  \<open>sep st A\<close>: the headers at the addresses of \<open>A\<close> overlap neither each other nor the three words at
  \<open>st\<close>. Then a field of a header changes only with a store to that field.
\<close>

definition sep :: "nat \<Rightarrow> nat set \<Rightarrow> bool" where
  "sep st A \<longleftrightarrow> (\<forall>a\<in>A. st + 12 \<le> a \<and> a < 2 ^ 32) \<and> (\<forall>a\<in>A. \<forall>b\<in>A. a = b \<or> a + 12 \<le> b \<or> b + 12 \<le> a)"

lemma sepD:
  assumes "sep st A" "a \<in> A"
  shows "st + 12 \<le> a" "a < 2 ^ 32" "a \<noteq> 0"
  using assms by (auto simp: sep_def)

lemma sep_apart: "sep st A \<Longrightarrow> a \<in> A \<Longrightarrow> b \<in> A \<Longrightarrow> a = b \<or> a + 12 \<le> b \<or> b + 12 \<le> a"
  by (auto simp: sep_def)

lemmas field_defs = blk_size_def nextfree_def next_blk_def set_size_def set_nextfree_def set_next_def

lemma sep_load_store:
  assumes "sep st A" "a \<in> A" "b \<in> A" "v < 2 ^ 32" "i \<in> {0, 4, 8}" "j \<in> {0, 4, 8}"
  shows "read32 (write32 m (a + i) v) (b + j) = (if b = a \<and> i = j then v else read32 m (b + j))"
proof (cases "b = a \<and> i = j")
  case True
  with assms(4) show ?thesis by (simp add: load_store_same)
next
  case False
  with sep_apart [OF assms(1-3)] assms(5,6) have "a + i + 4 \<le> b + j \<or> b + j + 4 \<le> a + i" by auto
  with False show ?thesis by (auto simp: load_store_other)
qed

lemma sep_fields:
  assumes "sep st A" "a \<in> A" "b \<in> A" "v < 2 ^ 32"
  shows "blk_size (set_size a v m) b = (if b = a then v else blk_size m b)"
    and "blk_size (set_nextfree a v m) b = blk_size m b"
    and "blk_size (set_next a v m) b = blk_size m b"
    and "nextfree (set_size a v m) b = nextfree m b"
    and "nextfree (set_nextfree a v m) b = (if b = a then v else nextfree m b)"
    and "nextfree (set_next a v m) b = nextfree m b"
    and "next_blk (set_size a v m) b = next_blk m b"
    and "next_blk (set_nextfree a v m) b = next_blk m b"
    and "next_blk (set_next a v m) b = (if b = a then v else next_blk m b)"
  using sep_load_store [OF assms, of 0 0 m] sep_load_store [OF assms, of 4 0 m] sep_load_store [OF assms, of 8 0 m]
    sep_load_store [OF assms, of 0 4 m] sep_load_store [OF assms, of 4 4 m] sep_load_store [OF assms, of 8 4 m]
    sep_load_store [OF assms, of 0 8 m] sep_load_store [OF assms, of 4 8 m] sep_load_store [OF assms, of 8 8 m]
  unfolding field_defs by simp_all

lemma sep_words:
  assumes "sep st A" "a \<in> A" "k \<le> 8"
  shows "read32 (set_size a v m) (st + k) = read32 m (st + k)"
    and "read32 (set_nextfree a v m) (st + k) = read32 m (st + k)"
    and "read32 (set_next a v m) (st + k) = read32 m (st + k)"
    and "blk_size (write32 m (st + k) v) a = blk_size m a"
    and "nextfree (write32 m (st + k) v) a = nextfree m a"
    and "next_blk (write32 m (st + k) v) a = next_blk m a"
  using sepD(1) [OF assms(1,2)] assms(3) unfolding field_defs by (simp_all add: load_store_other)

text \<open>The bytes that the block manager may write.\<close>

definition hdr_bytes :: "nat \<Rightarrow> nat set \<Rightarrow> nat set" where
  "hdr_bytes st A = {st..<st + 12} \<union> (\<Union>a\<in>A. {a..<a + 12})"

definition only_hdrs :: "nat \<Rightarrow> nat set \<Rightarrow> mem \<Rightarrow> mem \<Rightarrow> bool" where
  "only_hdrs st A m m' \<longleftrightarrow> (\<forall>x. x \<notin> hdr_bytes st A \<longrightarrow> m' x = m x)"

lemma only_hdrs_refl [simp]: "only_hdrs st A m m"
  by (simp add: only_hdrs_def)

lemma only_hdrs_trans [trans]: "only_hdrs st A m m' \<Longrightarrow> only_hdrs st A m' m'' \<Longrightarrow> only_hdrs st A m m''"
  by (simp add: only_hdrs_def)

lemma only_hdrs_store:
  "only_hdrs st A m (write32 m' st v) \<longleftrightarrow> only_hdrs st A m m'"
  "k \<le> 8 \<Longrightarrow> only_hdrs st A m (write32 m' (st + k) v) \<longleftrightarrow> only_hdrs st A m m'"
  "a \<in> A \<Longrightarrow> only_hdrs st A m (set_size a v m') \<longleftrightarrow> only_hdrs st A m m'"
  "a \<in> A \<Longrightarrow> only_hdrs st A m (set_nextfree a v m') \<longleftrightarrow> only_hdrs st A m m'"
  "a \<in> A \<Longrightarrow> only_hdrs st A m (set_next a v m') \<longleftrightarrow> only_hdrs st A m m'"
proof -
  have *: "only_hdrs st A m (write32 m' b v) \<longleftrightarrow> only_hdrs st A m m'" if "{b..<b + 4} \<subseteq> hdr_bytes st A" for b
  proof -
    have "write32 m' b v x = m' x" if "x \<notin> hdr_bytes st A" for x
      using that \<open>{b..<b + 4} \<subseteq> hdr_bytes st A\<close> by (intro write32_byte) (meson atLeastLessThan_iff in_mono not_less)
    then show ?thesis by (simp add: only_hdrs_def)
  qed
  show "only_hdrs st A m (write32 m' st v) \<longleftrightarrow> only_hdrs st A m m'" by (rule *) (auto simp: hdr_bytes_def)
  show "k \<le> 8 \<Longrightarrow> only_hdrs st A m (write32 m' (st + k) v) \<longleftrightarrow> only_hdrs st A m m'"
    by (rule *) (auto simp: hdr_bytes_def)
  show "a \<in> A \<Longrightarrow> only_hdrs st A m (set_size a v m') \<longleftrightarrow> only_hdrs st A m m'"
    "a \<in> A \<Longrightarrow> only_hdrs st A m (set_nextfree a v m') \<longleftrightarrow> only_hdrs st A m m'"
    "a \<in> A \<Longrightarrow> only_hdrs st A m (set_next a v m') \<longleftrightarrow> only_hdrs st A m m'"
    unfolding set_size_def set_nextfree_def set_next_def by (rule *, force simp: hdr_bytes_def)+
qed

section \<open>The free list\<close>

text \<open>\<open>fseg m p fs q\<close>: following \<open>nextfree\<close> from \<open>p\<close> visits \<open>fs\<close> and arrives at \<open>q\<close>.\<close>

fun fseg :: "mem \<Rightarrow> nat \<Rightarrow> nat list \<Rightarrow> nat \<Rightarrow> bool" where
  "fseg m p [] q \<longleftrightarrow> p = q"
| "fseg m p (a # as) q \<longleftrightarrow> p = a \<and> fseg m (nextfree m a) as q"

lemma fseg_append: "fseg m p (us @ vs) q \<longleftrightarrow> (\<exists>r. fseg m p us r \<and> fseg m r vs q)"
  by (induction us arbitrary: p) auto

lemma fseg_cong: "(\<And>a. a \<in> set fs \<Longrightarrow> nextfree m' a = nextfree m a) \<Longrightarrow> fseg m' p fs q = fseg m p fs q"
  by (induction fs arbitrary: p) auto

lemma fseg_keep:
  assumes "fseg m p fs q" "set fs \<subseteq> A" "\<And>b. b \<in> A \<Longrightarrow> nextfree m' b = nextfree m b"
  shows "fseg m' p fs q"
  using fseg_cong [of fs m' m p q] assms by (auto simp: subset_iff)

lemma free_prev_walk:
  assumes "fseg m p (us @ [u]) a" "0 \<notin> set (us @ [u])" "a \<notin> set (us @ [u])"
  shows "free_prev m a p = Some u"
  using assms
proof (induction us arbitrary: p)
  case Nil
  then show ?case by (subst free_prev.simps) auto
next
  case (Cons b us)
  then have "nextfree m b \<noteq> a"
    by (cases us) (auto simp: fseg_append)
  with Cons show ?case by (subst free_prev.simps) auto
qed

lemma remove_from_freelist:
  assumes sep: "sep st A" and fs: "set fs \<subseteq> A" "distinct fs" "a \<in> set fs"
    and chain: "fseg m (read32 m (st + 8)) fs 0"
  obtains m' where "blkmngr_remove_from_freelist a (st + 8) m = Some (Inr m')"
    "\<And>b. b \<in> A \<Longrightarrow> blk_size m' b = blk_size m b" "\<And>b. b \<in> A \<Longrightarrow> next_blk m' b = next_blk m b"
    "read32 m' st = read32 m st" "read32 m' (st + 4) = read32 m (st + 4)"
    "fseg m' (read32 m' (st + 8)) (remove1 a fs) 0" "only_hdrs st A m m'"
proof -
  have aA: "a \<in> A" and n0: "0 \<notin> set fs" using fs(1,3) sepD(3) [OF sep] by auto
  note S = sep_fields [OF sep] sep_words [OF sep] sep_words [OF sep, of _ 0, simplified]
  obtain us vs where split: "fs = us @ a # vs" using fs(3) by (auto dest: split_list)
  have nf: "fseg m (nextfree m a) vs 0" using chain split by (auto simp: fseg_append)
  have a0: "a \<noteq> 0" "a \<notin> set us" "a \<notin> set vs" using fs(2) split aA sepD(3) [OF sep] by auto
  have rm: "remove1 a fs = us @ vs" using split a0 by (simp add: remove1_append)
  show thesis
  proof (cases us rule: rev_cases)
    case Nil
    then have first: "read32 m (st + 8) = a" using chain split by simp
    let ?m = "set_nextfree a 0 (write32 m (st + 8) (nextfree m a))"
    have "blkmngr_remove_from_freelist a (st + 8) m = Some (Inr ?m)"
      using first a0 by (simp add: blkmngr_remove_from_freelist_def)
    moreover have "nextfree ?m b = nextfree m b" if "b \<in> set vs" for b
      using S that split fs(1) aA a0 by (auto simp: subset_iff)
    then have "fseg ?m (nextfree m a) vs 0" using nf fseg_cong [of vs ?m m] by simp
    moreover have "read32 ?m (st + 8) = nextfree m a" using S aA by (simp add: load_store_same)
    ultimately show thesis
      using that [of ?m] Nil rm aA S by (simp add: load_store_other only_hdrs_store)
  next
    case (snoc us' u)
    have uA: "u \<in> A" "u \<noteq> a" "u \<noteq> 0" using snoc split fs(1) a0(2) n0 by auto
    have seg: "fseg m (read32 m (st + 8)) (us' @ [u]) a" using chain snoc split by (auto simp: fseg_append)
    have first: "read32 m (st + 8) \<noteq> 0" "read32 m (st + 8) \<noteq> a"
      using seg n0 a0(2) snoc split by (cases us'; auto)+
    have walk: "free_prev m a (read32 m (st + 8)) = Some u"
      using free_prev_walk [OF seg] n0 a0(2) snoc split by auto
    let ?m = "set_nextfree a 0 (set_nextfree u (nextfree m a) m)"
    have "blkmngr_remove_from_freelist a (st + 8) m = Some (Inr ?m)"
      using first walk a0 uA by (simp add: blkmngr_remove_from_freelist_def)
    moreover have keep: "nextfree ?m b = nextfree m b" if "b \<in> set (us' @ vs)" for b
      using S that split snoc fs(1,2) aA uA a0 by (auto simp: subset_iff)
    have "nextfree ?m u = nextfree m a" using S aA uA by simp
    moreover have "fseg m (read32 m (st + 8)) us' u" using seg by (auto simp: fseg_append)
    ultimately have "fseg ?m (read32 m (st + 8)) (us @ vs) 0"
      using nf keep fseg_cong [of us' ?m m] fseg_cong [of vs ?m m] snoc by (auto simp: fseg_append)
    moreover have "read32 ?m (st + 8) = read32 m (st + 8)" using S aA uA by simp
    ultimately show thesis
      using that [of ?m] rm aA uA S first walk a0
      by (simp add: only_hdrs_store blkmngr_remove_from_freelist_def)
  qed
qed

lemma add_to_freelist:
  assumes sep: "sep st A" and a: "a \<in> A" "a \<notin> set fs" and fs: "set fs \<subseteq> A"
    and chain: "fseg m (read32 m (st + 8)) fs 0"
  obtains m' where "blkmngr_add_to_freelist a (st + 8) m = Inr m'"
    "\<And>b. b \<in> A \<Longrightarrow> blk_size m' b = blk_size m b" "\<And>b. b \<in> A \<Longrightarrow> next_blk m' b = next_blk m b"
    "read32 m' st = read32 m st" "read32 m' (st + 4) = read32 m (st + 4)"
    "fseg m' (read32 m' (st + 8)) (a # fs) 0" "only_hdrs st A m m'"
proof -
  note S = sep_fields [OF sep] sep_words [OF sep] sep_words [OF sep, of _ 0, simplified]
  let ?m = "write32 (set_nextfree a (read32 m (st + 8)) m) (st + 8) a"
  have "nextfree ?m b = nextfree m b" if "b \<in> set fs" for b using S that fs a by (auto simp: subset_iff)
  then have "fseg ?m (read32 m (st + 8)) fs 0" using chain fseg_cong [of fs ?m m] by simp
  moreover have "nextfree ?m a = read32 m (st + 8)" using S a by simp
  moreover have "read32 ?m (st + 8) = a" using sepD(2) [OF sep a(1)] by (simp add: load_store_same)
  moreover have "blkmngr_add_to_freelist a (st + 8) m = Inr ?m"
    using sepD(3) [OF sep a(1)] by (simp add: blkmngr_add_to_freelist_def)
  ultimately show thesis
    using that [of ?m] a(1) S by (simp add: load_store_other only_hdrs_store)
qed

section \<open>The best fitting block\<close>

text \<open>The candidates: the best block so far, if any, and the free blocks still to come that fit.\<close>

lemma best_fit_loop_min:
  assumes "fseg m p fs 0" "0 \<notin> set fs"
  shows "\<exists>r. best_fit_loop m n p best = Some r \<and>
    (let C = (if best = 0 then {} else {best}) \<union> {a \<in> set fs. blkmngr_does_it_fit m a n}
     in if C = {} then r = 0 else r \<in> C \<and> (\<forall>c\<in>C. blk_size m r \<le> blk_size m c))"
  using assms
proof (induction fs arbitrary: p best)
  case Nil
  then show ?case by (subst best_fit_loop.simps) (simp add: Let_def)
next
  case (Cons a fs)
  let ?fit = "blkmngr_does_it_fit m a n"
  let ?best = "if ?fit \<and> (best = 0 \<or> blk_size m a < blk_size m best) then a else best"
  let ?C = "\<lambda>best fs. (if best = 0 then {} else {best}) \<union> {a \<in> set fs. blkmngr_does_it_fit m a n}"
  have step: "best_fit_loop m n p best = best_fit_loop m n (nextfree m a) ?best"
    using Cons.prems by (subst best_fit_loop.simps) auto
  obtain r where r: "best_fit_loop m n (nextfree m a) ?best = Some r"
    "if ?C ?best fs = {} then r = 0 else r \<in> ?C ?best fs \<and> (\<forall>c\<in>?C ?best fs. blk_size m r \<le> blk_size m c)"
    using Cons.IH [of "nextfree m a" ?best] Cons.prems by (auto simp: Let_def)
  have a0: "a \<noteq> 0" using Cons.prems by auto
  have "if ?C best (a # fs) = {} then r = 0 else r \<in> ?C best (a # fs) \<and> (\<forall>c\<in>?C best (a # fs). blk_size m r \<le> blk_size m c)"
  proof (cases "?fit \<and> (best = 0 \<or> blk_size m a < blk_size m best)")
    case True
    then have "?C ?best fs = insert a {a \<in> set fs. blkmngr_does_it_fit m a n}" using a0 by auto
    moreover have "?C best (a # fs) = ?C ?best fs \<union> (if best = 0 then {} else {best})" using True a0 by auto
    ultimately show ?thesis using r(2) True by (auto split: if_splits)
  next
    case False
    then have eq: "?best = best" by auto
    have "?C best (a # fs) = ?C best fs \<union> (if ?fit then {a} else {})" by auto
    moreover have "?fit \<Longrightarrow> best \<noteq> 0 \<and> blk_size m best \<le> blk_size m a" using False by auto
    ultimately show ?thesis using r(2) unfolding eq by (cases ?fit) (auto split: if_splits)
  qed
  moreover have "best_fit_loop m n p best = Some r" using step r(1) by simp
  ultimately show ?case unfolding Let_def by blast
qed

lemma find_best_fitting:
  assumes "fseg m (read32 m fl) fs 0" "0 \<notin> set fs" "fl \<noteq> 0"
  obtains r where "blkmngr_find_best_fitting n fl m = Some (Inr r)"
    "r = 0 \<Longrightarrow> \<forall>a\<in>set fs. \<not> blkmngr_does_it_fit m a n"
    "r \<noteq> 0 \<Longrightarrow> r \<in> set fs \<and> blkmngr_does_it_fit m r n \<and>
       (\<forall>a\<in>set fs. blkmngr_does_it_fit m a n \<longrightarrow> blk_size m r \<le> blk_size m a)"
proof (cases fs)
  case Nil
  with assms show ?thesis by (intro that [of 0]) (auto simp: blkmngr_find_best_fitting_def)
next
  case (Cons a gs)
  let ?C = "{a \<in> set fs. blkmngr_does_it_fit m a n}"
  obtain r where r: "best_fit_loop m n (read32 m fl) 0 = Some r"
    "if ?C = {} then r = 0 else r \<in> ?C \<and> (\<forall>c\<in>?C. blk_size m r \<le> blk_size m c)"
    using best_fit_loop_min [OF assms(1,2), of n 0] unfolding Let_def if_P [OF refl] Un_empty_left by blast
  have "read32 m fl \<noteq> 0" using assms(1,2) Cons by auto
  with r(1) assms(3) have "blkmngr_find_best_fitting n fl m = Some (Inr r)"
    by (simp add: blkmngr_find_best_fitting_def)
  then show ?thesis
  proof (rule that)
    show "\<forall>a\<in>set fs. \<not> blkmngr_does_it_fit m a n" if "r = 0" using r(2) that assms(2) by (auto split: if_splits)
    show "r \<in> set fs \<and> blkmngr_does_it_fit m r n \<and>
       (\<forall>a\<in>set fs. blkmngr_does_it_fit m a n \<longrightarrow> blk_size m r \<le> blk_size m a)" if "r \<noteq> 0"
      using r(2) that by (auto split: if_splits)
  qed
qed

section \<open>The list of blocks\<close>

type_synonym blk = "nat \<times> nat \<times> bool"

definition addrs :: "blk list \<Rightarrow> nat set" where "addrs bs = fst ` set bs"

lemma addrs_simps [simp]:
  "addrs [] = {}" "addrs (b # bs) = insert (fst b) (addrs bs)" "addrs (xs @ ys) = addrs xs \<union> addrs ys"
  "fst ` set bs = addrs bs"
  by (auto simp: addrs_def)

lemma addrsI [intro]: "(a, n, f) \<in> set bs \<Longrightarrow> a \<in> addrs bs"
  by (force simp: addrs_def simp del: addrs_simps(4))

lemma last_addr: "bs \<noteq> [] \<Longrightarrow> fst (last bs) \<in> addrs bs"
  by (simp add: addrs_def del: addrs_simps(4))

lemma addrsE [elim]:
  assumes "a \<in> addrs bs"
  obtains n f where "(a, n, f) \<in> set bs"
  using assms by (force simp: addrs_def simp del: addrs_simps(4))

text \<open>The blocks lie between \<open>lo\<close> and \<open>hi\<close> in the order of the list and do not overlap.\<close>

fun ordered :: "nat \<Rightarrow> blk list \<Rightarrow> nat \<Rightarrow> bool" where
  "ordered lo [] hi \<longleftrightarrow> lo \<le> hi"
| "ordered lo ((a, n, f) # bs) hi \<longleftrightarrow> lo \<le> a \<and> ordered (a + 12 + n) bs hi"

text \<open>The headers of the blocks; \<open>next\<close> of the last one is \<open>e\<close>.\<close>

definition first_addr :: "blk list \<Rightarrow> nat \<Rightarrow> nat" where
  "first_addr bs e = (case bs of [] \<Rightarrow> e | (a, n, f) # _ \<Rightarrow> a)"

fun linked :: "mem \<Rightarrow> blk list \<Rightarrow> nat \<Rightarrow> bool" where
  "linked m [] e \<longleftrightarrow> True"
| "linked m ((a, n, f) # bs) e \<longleftrightarrow>
     blk_size m a = n + of_bool f \<and> even n \<and> next_blk m a = first_addr bs e \<and> linked m bs e"

text \<open>No two free blocks follow each other.\<close>

fun coalesced :: "blk list \<Rightarrow> bool" where
  "coalesced ((a, n, f) # (b, k, g) # bs) \<longleftrightarrow> \<not> (f \<and> g) \<and> coalesced ((b, k, g) # bs)"
| "coalesced bs \<longleftrightarrow> True"

lemma first_addr_simps [simp]: "first_addr [] e = e" "first_addr (b # bs) e = fst b"
  by (auto simp: first_addr_def split: prod.splits)

lemma first_addr_append: "first_addr (xs @ ys) e = first_addr xs (first_addr ys e)"
  by (cases xs) auto

lemma ordered_le: "ordered lo bs hi \<Longrightarrow> lo \<le> hi"
  by (induction lo bs hi rule: ordered.induct) auto

lemma ordered_append: "ordered lo (xs @ (a, n, f) # ys) hi \<longleftrightarrow> ordered lo xs a \<and> ordered (a + 12 + n) ys hi"
  by (induction lo xs a rule: ordered.induct) auto

lemma ordered_bounds: "ordered lo bs hi \<Longrightarrow> (a, n, f) \<in> set bs \<Longrightarrow> lo \<le> a \<and> a + 12 + n \<le> hi"
  by (induction lo bs hi rule: ordered.induct) (auto dest: ordered_le)

lemma ordered_mono: "ordered lo bs hi \<Longrightarrow> lo' \<le> lo \<Longrightarrow> hi \<le> hi' \<Longrightarrow> ordered lo' bs hi'"
  by (induction lo bs hi arbitrary: lo' rule: ordered.induct) auto

lemma ordered_apart:
  assumes "ordered lo bs hi" "(a, n, f) \<in> set bs" "(b, k, g) \<in> set bs"
  shows "(a, n, f) = (b, k, g) \<or> a + 12 + n \<le> b \<or> b + 12 + k \<le> a"
  using assms by (induction lo bs hi rule: ordered.induct) (auto dest: ordered_bounds)

lemma ordered_sep:
  assumes "ordered (st + 12) bs hi" "hi < 2 ^ 32"
  shows "sep st (addrs bs)"
  unfolding sep_def
proof (intro conjI ballI)
  fix a assume "a \<in> addrs bs"
  then obtain n f where "(a, n, f) \<in> set bs" by auto
  from ordered_bounds [OF assms(1) this] assms(2) show "st + 12 \<le> a" "a < 2 ^ 32" by auto
next
  fix a b assume "a \<in> addrs bs" "b \<in> addrs bs"
  then obtain n f k g where "(a, n, f) \<in> set bs" "(b, k, g) \<in> set bs" by (metis addrsE)
  from ordered_apart [OF assms(1) this] show "a = b \<or> a + 12 \<le> b \<or> b + 12 \<le> a" by auto
qed

lemma ordered_distinct: "ordered lo bs hi \<Longrightarrow> distinct (map fst bs)"
  by (induction lo bs hi rule: ordered.induct) (auto dest: ordered_bounds elim!: addrsE)

lemma linked_append: "linked m (xs @ ys) e \<longleftrightarrow> linked m xs (first_addr ys e) \<and> linked m ys e"
  by (induction m xs e rule: linked.induct) (auto simp: first_addr_append)

lemma linked_cong:
  assumes "\<And>a. a \<in> addrs bs \<Longrightarrow> blk_size m' a = blk_size m a \<and> next_blk m' a = next_blk m a"
  shows "linked m' bs e = linked m bs e"
  using assms by (induction m bs e rule: linked.induct) auto

lemma linked_member: "linked m bs e \<Longrightarrow> (a, n, f) \<in> set bs \<Longrightarrow> blk_size m a = n + of_bool f \<and> even n"
  by (induction m bs e rule: linked.induct) auto

lemma coalesced_cons: "coalesced (b # bs) \<longleftrightarrow> coalesced bs \<and> (bs \<noteq> [] \<longrightarrow> \<not> (snd (snd b) \<and> snd (snd (hd bs))))"
  by (cases b; cases bs) auto

lemma coalesced_append:
  "coalesced (xs @ ys) \<longleftrightarrow> coalesced xs \<and> coalesced ys \<and>
     (xs \<noteq> [] \<longrightarrow> ys \<noteq> [] \<longrightarrow> \<not> (snd (snd (last xs)) \<and> snd (snd (hd ys))))"
  by (induction xs) (auto simp: coalesced_cons hd_append)

section \<open>The invariant\<close>

definition free_addrs :: "blk list \<Rightarrow> nat set" where
  "free_addrs bs = {a. \<exists>n. (a, n, True) \<in> set bs}"

lemma free_addrs_simps [simp]:
  "free_addrs [] = {}" "free_addrs ((a, n, True) # bs) = insert a (free_addrs bs)"
  "free_addrs ((a, n, False) # bs) = free_addrs bs" "free_addrs (xs @ ys) = free_addrs xs \<union> free_addrs ys"
  by (auto simp: free_addrs_def)

lemma free_addrs_sub: "free_addrs bs \<subseteq> addrs bs"
  by (force simp: free_addrs_def)

definition heap_ok :: "mem \<Rightarrow> nat \<Rightarrow> nat \<Rightarrow> blk list \<Rightarrow> nat list \<Rightarrow> bool" where
  "heap_ok m st hc bs fs \<longleftrightarrow> 0 < st \<and> hc < 2 ^ 32 \<and> ordered (st + 12) bs hc \<and> (\<exists>e. linked m bs e) \<and>
     read32 m st = first_addr bs 0 \<and> (bs \<noteq> [] \<longrightarrow> read32 m (st + 4) = fst (last bs)) \<and>
     fseg m (read32 m (st + 8)) fs 0 \<and> distinct fs \<and> set fs = free_addrs bs \<and> coalesced bs"

lemma heap_ok_sep: "heap_ok m st hc bs fs \<Longrightarrow> sep st (addrs bs)"
  by (auto simp: heap_ok_def intro: ordered_sep)

lemma heap_ok_distinct: "heap_ok m st hc bs fs \<Longrightarrow> distinct (map fst bs)"
  unfolding heap_ok_def by (blast intro: ordered_distinct)

lemma heap_ok_words:
  assumes "heap_ok m st hc bs fs" "vm_start A = st"
  shows "head_at A = st" "tail_at A = st + 4" "freelist_at A = st + 8" "0 < st" "st + 12 \<le> hc" "hc < 2 ^ 32"
  using assms ordered_le [of "st + 12" bs hc]
  by (auto simp: heap_ok_def head_at_def tail_at_def freelist_at_def)

lemma heap_ok_fs:
  assumes "heap_ok m st hc bs fs"
  shows "set fs \<subseteq> addrs bs" "distinct fs" "0 \<notin> set fs" "fseg m (read32 m (st + 8)) fs 0" "set fs = free_addrs bs"
  using assms free_addrs_sub [of bs] sepD(3) [OF heap_ok_sep [OF assms]] by (auto simp: heap_ok_def)

text \<open>Neighbours of a block.\<close>

lemma prev_walk:
  assumes "linked m (us @ [(u, k, g)]) b" "0 \<notin> addrs (us @ [(u, k, g)])" "b \<notin> addrs (us @ [(u, k, g)])"
  shows "prev_blk_loop m b (first_addr (us @ [(u, k, g)]) e) = Some (Inr u)"
  using assms
proof (induction us)
  case Nil
  then show ?case by (subst prev_blk_loop.simps) auto
next
  case (Cons x us)
  obtain a n f where x: "x = (a, n, f)" by (cases x)
  have "first_addr (us @ [(u, k, g)]) b \<in> addrs (us @ [(u, k, g)])" by (cases us) auto
  moreover have "b \<notin> addrs (us @ [(u, k, g)])" using Cons.prems(3) by simp
  moreover have "next_blk m a = first_addr (us @ [(u, k, g)]) b" using Cons.prems(1) x by simp
  ultimately have "next_blk m a \<noteq> b" by metis
  moreover have "next_blk m a = first_addr (us @ [(u, k, g)]) e" using Cons.prems(1) x by (cases us) auto
  ultimately show ?case using Cons x by (subst prev_blk_loop.simps) auto
qed

lemma previous_block:
  assumes "heap_ok m st hc (xs @ (a, n, f) # ys) fs"
  shows "blkmngr_get_previous_block a st m = Some (Inr (if xs = [] then 0 else fst (last xs)))"
proof -
  have sep: "sep st (addrs (xs @ (a, n, f) # ys))" using heap_ok_sep [OF assms] .
  have nz: "0 \<notin> addrs (xs @ (a, n, f) # ys)" using sepD(3) [OF sep] by blast
  have st: "0 < st" "read32 m st = first_addr (xs @ (a, n, f) # ys) 0" using assms by (auto simp: heap_ok_def)
  note d = heap_ok_distinct [OF assms]
  show ?thesis
  proof (cases xs rule: rev_cases)
    case Nil
    with st nz show ?thesis by (simp add: blkmngr_get_previous_block_def)
  next
    case (snoc us x)
    obtain u k g where x: "x = (u, k, g)" by (cases x)
    have link: "linked m (us @ [(u, k, g)]) a" using assms snoc x by (auto simp: heap_ok_def linked_append)
    have head: "read32 m st = first_addr (us @ [(u, k, g)]) 0" using st(2) snoc x by (cases us) auto
    moreover have "first_addr (us @ [(u, k, g)]) 0 \<in> addrs (us @ [(u, k, g)])" by (cases us) auto
    moreover have "a \<notin> addrs (us @ [(u, k, g)])" using d snoc x by auto
    ultimately have "read32 m st \<noteq> 0" "read32 m st \<noteq> a" using nz snoc x by force+
    moreover have "prev_blk_loop m a (read32 m st) = Some (Inr u)"
      unfolding head using link nz d snoc x by (intro prev_walk) auto
    ultimately show ?thesis using st(1) nz snoc x by (simp add: blkmngr_get_previous_block_def)
  qed
qed

lemma tail_iff:
  assumes "heap_ok m st hc (xs @ (a, n, f) # ys) fs"
  shows "read32 m (st + 4) = a \<longleftrightarrow> ys = []"
proof -
  have "read32 m (st + 4) = fst (last (xs @ (a, n, f) # ys))" using assms by (auto simp: heap_ok_def)
  with heap_ok_distinct [OF assms] show ?thesis by (cases ys rule: rev_cases) auto
qed

lemma next_block:
  assumes "heap_ok m st hc (xs @ (a, n, f) # ys) fs"
  shows "blkmngr_get_next_block a (st + 4) m = Inr (first_addr ys 0)"
proof -
  have "0 \<notin> addrs (xs @ (a, n, f) # ys)" using sepD(3) [OF heap_ok_sep [OF assms]] by blast
  moreover have "read32 m (st + 4) = fst (last (xs @ (a, n, f) # ys))" using assms by (auto simp: heap_ok_def)
  moreover have "fst (last (xs @ (a, n, f) # ys)) \<in> addrs (xs @ (a, n, f) # ys)"
    by (rule last_addr) simp
  ultimately have "read32 m (st + 4) \<noteq> 0" "a \<noteq> 0" by force+
  moreover have "next_blk m a = first_addr ys 0" if "ys \<noteq> []"
    using assms that by (cases ys) (auto simp: heap_ok_def linked_append)
  ultimately show ?thesis using tail_iff [OF assms] by (auto simp: blkmngr_get_next_block_def)
qed

lemma is_free_block:
  assumes "heap_ok m st hc bs fs" "(a, n, f) \<in> set bs"
  shows "blkmngr_is_free m a \<longleftrightarrow> f" "blk_size m a = n + of_bool f" "even n" "get_real_size (blk_size m a) = n"
proof -
  obtain e where "linked m bs e" using assms(1) by (auto simp: heap_ok_def)
  from linked_member [OF this assms(2)] show sz: "blk_size m a = n + of_bool f" "even n" by auto
  have "a \<in> addrs bs" using assms(2) by force
  from sepD(3) [OF heap_ok_sep [OF assms(1)] this] sz
  show "blkmngr_is_free m a \<longleftrightarrow> f" "get_real_size (blk_size m a) = n" by (auto simp: is_free_odd)
qed

end
