(* ===== verification/Kheap_Ops.thy ===== *)
theory Kheap_Ops
  imports Kheap_Correct
begin

text \<open>
  Allocation and release on a heap of the invariant: \<open>kmalloc\<close> takes the best fitting free block,
  splitting what is left off, or grows the heap; \<open>kfree\<close> gives a block back and merges it with its
  free neighbours. Every loop ends, no other block and no payload in use is touched.
\<close>

section \<open>Marking a block\<close>

lemma store_store: "write32 (write32 m a v) a w = write32 m a w"
  by (rule ext) (simp add: write32_def)

lemma set_size_set_free:
  assumes "even v" "v < 2 ^ 32"
  shows "blkmngr_set_free a x (set_size a v m) = set_size a (v + of_bool x) m"
proof -
  have "blk_size (set_size a v m) a = v" using assms(2) by (simp add: field_defs load_store_same)
  moreover have "v AND 0xFFFFFFFE = v" using and_free_mask [OF assms(2)] assms(1) by simp
  ultimately show ?thesis
    using or_one [OF assms(1)] by (simp add: blkmngr_set_free_def set_size_def store_store)
qed

text \<open>What a change of the headers of a heap has to establish.\<close>

lemma heap_okI:
  assumes "0 < st" "hc < 2 ^ 32" "ordered (st + 12) bs hc" "linked m bs e"
    and "read32 m st = first_addr bs 0" "bs \<noteq> [] \<Longrightarrow> read32 m (st + 4) = fst (last bs)"
    and "fseg m (read32 m (st + 8)) fs 0" "distinct fs" "set fs = free_addrs bs" "coalesced bs"
  shows "heap_ok m st hc bs fs"
  using assms by (auto simp: heap_ok_def)

lemma heap_okD:
  assumes "heap_ok m st hc bs fs"
  obtains e where "linked m bs e" "ordered (st + 12) bs hc" "read32 m st = first_addr bs 0"
    "bs \<noteq> [] \<Longrightarrow> read32 m (st + 4) = fst (last bs)" "fseg m (read32 m (st + 8)) fs 0"
    "distinct fs" "set fs = free_addrs bs" "coalesced bs" "0 < st" "hc < 2 ^ 32"
  using assms by (auto simp: heap_ok_def)

text \<open>Blocks in the middle of the list are exchanged for others that start at the same address.\<close>

lemma linked_replace:
  assumes "linked m (xs @ p # ps @ ys) e" "fst p' = fst p" "linked m' (p' # ps') (first_addr ys e')" "ys = [] \<or> e' = e"
    and "\<And>b. b \<in> addrs xs \<Longrightarrow> blk_size m' b = blk_size m b \<and> next_blk m' b = next_blk m b"
    and "\<And>b. b \<in> addrs ys \<Longrightarrow> blk_size m' b = blk_size m b \<and> next_blk m' b = next_blk m b"
  shows "linked m' (xs @ p' # ps' @ ys) e'"
proof -
  have "linked m xs (fst p)" "linked m ys e" using assms(1) by (auto simp: linked_append [of m xs] linked_append [of m "p # ps", simplified])
  then have "linked m' xs (fst p')" "linked m' ys e'"
    using linked_cong [of xs m' m] linked_cong [of ys m' m] assms(2,4-6) by auto
  with assms(3) show ?thesis by (simp add: linked_append [of m' xs] linked_append [of m' "p' # ps'", simplified])
qed

section \<open>Taking a whole free block\<close>

lemma take_whole:
  assumes ok: "heap_ok m st hc (xs @ (a, n, True) # ys) fs"
  obtains m' where "blkmngr_remove_from_freelist a (st + 8) (set_size a n m) = Some (Inr m')"
    "heap_ok m' st hc (xs @ (a, n, False) # ys) (remove1 a fs)" "only_hdrs st (addrs (xs @ (a, n, True) # ys)) m m'"
proof -
  let ?bs = "xs @ (a, n, True) # ys" and ?bs' = "xs @ (a, n, False) # ys"
  obtain e where h: "linked m ?bs e" "ordered (st + 12) ?bs hc" "read32 m st = first_addr ?bs 0"
    "read32 m (st + 4) = fst (last ?bs)" "fseg m (read32 m (st + 8)) fs 0" "distinct fs" "set fs = free_addrs ?bs"
    "coalesced ?bs" "0 < st" "hc < 2 ^ 32" using heap_okD [OF ok] by (metis append_is_Nil_conv list.distinct(1))
  have sep: "sep st (addrs ?bs)" using heap_ok_sep [OF ok] .
  have d: "distinct (map fst ?bs)" using heap_ok_distinct [OF ok] .
  have aA: "a \<in> addrs ?bs" by simp
  have n: "even n" "n < 2 ^ 32" using is_free_block(3) [OF ok] ordered_bounds [OF h(2), of a n True] h(10) by auto
  note S = sep_fields [OF sep aA _ n(2)] sep_words [OF sep aA]
  let ?m = "set_size a n m"
  have chain: "fseg ?m (read32 ?m (st + 8)) fs 0"
    using h(5) S heap_ok_fs(1) [OF ok] fseg_cong [of fs ?m m] by (simp add: subset_iff)
  have "a \<in> set fs" using h(7) by simp
  then obtain m' where m': "blkmngr_remove_from_freelist a (st + 8) ?m = Some (Inr m')"
    "\<And>b. b \<in> addrs ?bs \<Longrightarrow> blk_size m' b = blk_size ?m b" "\<And>b. b \<in> addrs ?bs \<Longrightarrow> next_blk m' b = next_blk ?m b"
    "read32 m' st = read32 ?m st" "read32 m' (st + 4) = read32 ?m (st + 4)"
    "fseg m' (read32 m' (st + 8)) (remove1 a fs) 0" "only_hdrs st (addrs ?bs) ?m m'"
    using remove_from_freelist [OF sep heap_ok_fs(1,2) [OF ok] _ chain] ok by blast
  have sz: "blk_size m' b = (if b = a then n else blk_size m b)" "next_blk m' b = next_blk m b" if "b \<in> addrs ?bs" for b
    using m'(2,3) [OF that] S that by auto
  have "next_blk m a = first_addr ys e" using h(1) by (simp add: linked_append)
  then have "linked m' [(a, n, False)] (first_addr ys e)" using sz [OF aA] n by simp
  moreover have "blk_size m' b = blk_size m b \<and> next_blk m' b = next_blk m b" if "b \<in> addrs xs \<union> addrs ys" for b
    using sz [of b] d that by auto
  ultimately have link: "linked m' ?bs' e"
    using linked_replace [of m xs "(a, n, True)" "[]" ys e "(a, n, False)" m' "[]" e] h(1) by simp
  have ord: "ordered (st + 12) ?bs' hc" using h(2) by (simp add: ordered_append)
  have head: "read32 m' st = first_addr ?bs' 0" using m'(4) h(3) S(10) [of 0] by (simp add: first_addr_append)
  have tail: "read32 m' (st + 4) = fst (last ?bs')" using m'(5) h(4) S by (cases ys) auto
  have fset: "set (remove1 a fs) = free_addrs ?bs'"
    using h(6,7) d free_addrs_sub [of xs] free_addrs_sub [of ys] by (auto simp: set_remove1_eq)
  have coal: "coalesced ?bs'" using h(8) by (simp add: coalesced_append coalesced_cons)
  have "heap_ok m' st hc ?bs' (remove1 a fs)"
    using heap_okI [OF h(9,10) ord link head tail m'(6) distinct_remove1 [OF h(6)] fset coal] .
  moreover have "only_hdrs st (addrs ?bs) m m'" 
    using only_hdrs_trans [OF _ m'(7), of m] only_hdrs_store(3) [OF aA] by simp
  ultimately show thesis using that m'(1) by blast
qed

section \<open>Splitting a free block\<close>

text \<open>The memory after the rest of the block at \<open>a\<close> has become a block of its own at \<open>c\<close>.\<close>

lemma split_rest:
  assumes sep: "sep st A" and mem: "a \<in> A" "c \<in> A" "a \<noteq> c" "c \<notin> set fs" "a \<in> set fs" and fs: "set fs \<subseteq> A" "distinct fs"
    and chain: "fseg m (read32 m (st + 8)) fs 0" and v: "even r" "r < 2 ^ 32" "even k" "k < 2 ^ 32" "nx < 2 ^ 32"
  obtains m' where "bindO (Some (blkmngr_add_to_freelist c (st + 8)
        (let m = set_next c nx (set_size c (k + 1) (set_size a r m)) in if t then write32 m (st + 4) c else m)))
      (\<lambda>m. bindO (Some (Inr (set_next a c m))) (blkmngr_remove_from_freelist a (st + 8))) = Some (Inr m')"
    "\<And>b. b \<in> A \<Longrightarrow> blk_size m' b = (if b = a then r else if b = c then k + 1 else blk_size m b)"
    "\<And>b. b \<in> A \<Longrightarrow> next_blk m' b = (if b = a then c else if b = c then nx else next_blk m b)"
    "read32 m' st = read32 m st" "read32 m' (st + 4) = (if t then c else read32 m (st + 4))"
    "fseg m' (read32 m' (st + 8)) (c # remove1 a fs) 0" "only_hdrs st A m m'"
proof -
  note F = sep_fields [OF sep] and W = sep_words [OF sep] and W0 = sep_words [OF sep, of _ 0, simplified]
  have c32: "c < 2 ^ 32" using sepD(2) [OF sep mem(2)] .
  have k1: "k + 1 < 2 ^ 32" using v(3,4) by (metis Suc_eq_plus1 Suc_lessI even_Suc even_numeral even_power zero_less_numeral)
  let ?m1 = "set_next c nx (set_size c (k + 1) (set_size a r m))"
  let ?m2 = "if t then write32 ?m1 (st + 4) c else ?m1"
  have f2: "blk_size ?m2 b = (if b = a then r else if b = c then k + 1 else blk_size m b)"
    "next_blk ?m2 b = (if b = c then nx else next_blk m b)" "nextfree ?m2 b = nextfree m b" if "b \<in> A" for b
    using that mem v k1 by (auto simp: F W)
  have w2: "read32 ?m2 st = read32 m st" "read32 ?m2 (st + 8) = read32 m (st + 8)"
    "read32 ?m2 (st + 4) = (if t then c else read32 m (st + 4))"
    using mem c32 by (auto simp: W W0 load_store_other load_store_same)
  have h2: "only_hdrs st A m ?m2" using mem by (auto simp: only_hdrs_store)
  have "fseg ?m2 (read32 ?m2 (st + 8)) fs 0" unfolding w2(2) by (rule fseg_keep [OF chain fs(1) f2(3)])
  then obtain m3 where m3: "blkmngr_add_to_freelist c (st + 8) ?m2 = Inr m3"
    "\<And>b. b \<in> A \<Longrightarrow> blk_size m3 b = blk_size ?m2 b" "\<And>b. b \<in> A \<Longrightarrow> next_blk m3 b = next_blk ?m2 b"
    "read32 m3 st = read32 ?m2 st" "read32 m3 (st + 4) = read32 ?m2 (st + 4)"
    "fseg m3 (read32 m3 (st + 8)) (c # fs) 0" "only_hdrs st A ?m2 m3"
    using add_to_freelist [OF sep mem(2,4) fs(1)] by blast
  let ?m4 = "set_next a c m3"
  have "fseg ?m4 (read32 ?m4 (st + 8)) (c # fs) 0"
    unfolding W(3) [OF mem(1) order_refl]
    by (rule fseg_keep [OF m3(6), of A]) (use mem fs(1) c32 in \<open>auto simp: F\<close>)
  then obtain m5 where m5: "blkmngr_remove_from_freelist a (st + 8) ?m4 = Some (Inr m5)"
    "\<And>b. b \<in> A \<Longrightarrow> blk_size m5 b = blk_size ?m4 b" "\<And>b. b \<in> A \<Longrightarrow> next_blk m5 b = next_blk ?m4 b"
    "read32 m5 st = read32 ?m4 st" "read32 m5 (st + 4) = read32 ?m4 (st + 4)"
    "fseg m5 (read32 m5 (st + 8)) (remove1 a (c # fs)) 0" "only_hdrs st A ?m4 m5"
    using remove_from_freelist [OF sep, of "c # fs" a ?m4] mem fs by auto
  show thesis
  proof (rule that)
    show "bindO (Some (blkmngr_add_to_freelist c (st + 8) (let m = ?m1 in if t then write32 m (st + 4) c else m)))
      (\<lambda>m. bindO (Some (Inr (set_next a c m))) (blkmngr_remove_from_freelist a (st + 8))) = Some (Inr m5)"
      unfolding Let_def m3(1) using m5(1) by simp
    show "blk_size m5 b = (if b = a then r else if b = c then k + 1 else blk_size m b)" if "b \<in> A" for b
      using m5(2) [OF that] m3(2) [OF that] f2(1) [OF that] that mem(1) c32 by (simp add: F)
    show "next_blk m5 b = (if b = a then c else if b = c then nx else next_blk m b)" if "b \<in> A" for b
      using m5(3) [OF that] m3(3) [OF that] f2(2) [OF that] that mem(1) c32 by (simp add: F)
    show "read32 m5 st = read32 m st" using m5(4) m3(4) w2(1) mem(1) by (simp add: W0)
    show "read32 m5 (st + 4) = (if t then c else read32 m (st + 4))" using m5(5) m3(5) w2(3) mem(1) by (simp add: W)
    show "fseg m5 (read32 m5 (st + 8)) (c # remove1 a fs) 0" using m5(6) mem(3) by simp
    show "only_hdrs st A m m5"
    proof (rule only_hdrs_trans [OF _ m5(7)])
      show "only_hdrs st A m ?m4" using only_hdrs_trans [OF h2 m3(7)] only_hdrs_store(5) [OF mem(1)] by simp
    qed
  qed
qed

text \<open>The blocks after an allocation of \<open>r\<close> bytes from the free block at \<open>a\<close>.\<close>

definition take_blocks :: "blk list \<Rightarrow> nat \<Rightarrow> nat \<Rightarrow> nat \<Rightarrow> blk list \<Rightarrow> blk list" where
  "take_blocks xs a n r ys =
     (if n - r < 20 then xs @ (a, n, False) # ys else xs @ (a, r, False) # (a + 12 + r, n - r - 12, True) # ys)"

lemma malloc_fit_ok:
  assumes ok: "heap_ok m st hc (xs @ (a, n, True) # ys) fs" and B: "vm_start B = st" and r: "r \<le> n" "even r"
  obtains m' fs' where "malloc_fit B (read32 m (st + 4)) (r + 12) a m = Some (Inr (a + 12, m'))"
    "heap_ok m' st hc (take_blocks xs a n r ys) fs'" "only_hdrs st (addrs (take_blocks xs a n r ys)) m m'"
proof -
  let ?bs = "xs @ (a, n, True) # ys"
  note w = heap_ok_words [OF ok B] and blk = is_free_block [OF ok, of a n True, simplified]
  obtain e where h: "linked m ?bs e" "ordered (st + 12) ?bs hc" "read32 m st = first_addr ?bs 0"
    "read32 m (st + 4) = fst (last ?bs)" "fseg m (read32 m (st + 8)) fs 0" "distinct fs" "set fs = free_addrs ?bs"
    "coalesced ?bs" "0 < st" "hc < 2 ^ 32" using heap_okD [OF ok] by (metis append_is_Nil_conv list.distinct(1))
  have fit: "a + 12 + n \<le> hc" using ordered_bounds [OF h(2), of a n True] by simp
  have nums: "u32n (n + overhead) = n + 12" "sub32 (n + 12) (r + 12) = n - r" "u32n (a + 12) = a + 12"
    "u32n (a + (r + 12)) = a + 12 + r" "r < 2 ^ 32" "n < 2 ^ 32"
    "sub32 (n + 12) overhead = n" "sub32 (r + 12) overhead = r"
    using fit h(10) r(1) by (simp_all add: overhead_def)
  note next_blk = next_block [OF ok]
  show thesis
  proof (cases "n - r < 20")
    case True
    obtain m' where "blkmngr_remove_from_freelist a (st + 8) (set_size a n m) = Some (Inr m')"
      "heap_ok m' st hc (xs @ (a, n, False) # ys) (remove1 a fs)" "only_hdrs st (addrs ?bs) m m'"
      using take_whole [OF ok] by blast
    moreover from this(1) have "malloc_fit B (read32 m (st + 4)) (r + 12) a m = Some (Inr (a + 12, m'))"
      using True blk nums next_blk w(2,3) set_size_set_free [of n a False m]
      by (simp add: malloc_fit_def Let_def overhead_def)
    ultimately show thesis using that True by (simp add: take_blocks_def)
  next
    case False
    let ?c = "a + 12 + r" and ?k = "n - r - 12"
    let ?bs' = "xs @ (a, r, False) # (?c, ?k, True) # ys"
    have "?c + 12 + ?k = a + 12 + n" using False by simp
    then have ord: "ordered (st + 12) ?bs' hc"
      using h(2) by (simp only: ordered_append ordered.simps order_refl simp_thms)
    have sep: "sep st (addrs ?bs')" using ordered_sep [OF ord h(10)] .
    have d: "distinct (map fst ?bs')" using ordered_distinct [OF ord] .
    have k: "even ?k" "?k < 2 ^ 32" using False r blk(3) nums(6) by auto
    have fs: "set fs \<subseteq> addrs ?bs'" "?c \<notin> set fs" "a \<in> set fs"
      using h(7) d free_addrs_sub [of xs] free_addrs_sub [of ys] by auto
    have nx: "first_addr ys 0 < 2 ^ 32" using sepD(2) [OF sep] by (cases ys) auto
    obtain m' where m': "bindO (Some (blkmngr_add_to_freelist ?c (st + 8)
          (let m = set_next ?c (first_addr ys 0) (set_size ?c (?k + 1) (set_size a r m))
           in if ys = [] then write32 m (st + 4) ?c else m)))
        (\<lambda>m. bindO (Some (Inr (set_next a ?c m))) (blkmngr_remove_from_freelist a (st + 8))) = Some (Inr m')"
      "\<And>b. b \<in> addrs ?bs' \<Longrightarrow> blk_size m' b = (if b = a then r else if b = ?c then ?k + 1 else blk_size m b)"
      "\<And>b. b \<in> addrs ?bs' \<Longrightarrow> next_blk m' b = (if b = a then ?c else if b = ?c then first_addr ys 0 else next_blk m b)"
      "read32 m' st = read32 m st" "read32 m' (st + 4) = (if ys = [] then ?c else read32 m (st + 4))"
      "fseg m' (read32 m' (st + 8)) (?c # remove1 a fs) 0" "only_hdrs st (addrs ?bs') m m'"
      using split_rest [OF sep _ _ _ fs(2,3,1) h(6,5) r(2) nums(5) k nx, where t = "ys = []"] by auto
    have stored: "\<not> blkmngr_is_free (set_size a r m) (first_addr ys 0)"
    proof (cases ys)
      case (Cons y zs)
      obtain b j g where y: "y = (b, j, g)" by (cases y)
      have "\<not> g" using h(8) Cons y by (simp add: coalesced_append)
      moreover have "blk_size (set_size a r m) b = blk_size m b" "b \<noteq> 0"
        using sep_fields(1) [OF sep, of a b r m] d nums(5) sepD(3) [OF sep, of b] Cons y by auto
      ultimately show ?thesis
        using is_free_block(2,3) [OF ok, of b j g] Cons y by (auto simp: is_free_odd)
    qed (simp add: is_free_odd)
    have "read32 m (st + 4) = a \<longleftrightarrow> ys = []" by (rule tail_iff [OF ok])
    then have split: "malloc_split B (read32 m (st + 4)) a ?c (first_addr ys 0) (n - r) (set_size a r m) =
        bindO (Some (blkmngr_add_to_freelist ?c (st + 8)
          (let m = set_next ?c (first_addr ys 0) (set_size ?c (?k + 1) (set_size a r m))
           in if ys = [] then write32 m (st + 4) ?c else m))) (\<lambda>m. Some (Inr (set_next a ?c m)))"
      using stored w(2,3) set_size_set_free [OF k, of ?c True "set_size a r m"] False nums(6)
      by (auto simp: malloc_split_def Let_def overhead_def)
    have "malloc_fit B (read32 m (st + 4)) (r + 12) a m =
        bindO (malloc_split B (read32 m (st + 4)) a ?c (first_addr ys 0) (n - r) (set_size a r m))
          (\<lambda>m. bindO (blkmngr_remove_from_freelist a (st + 8) m) (\<lambda>m. Some (Inr (a + 12, m))))"
      using False blk nums next_blk w(2,3) set_size_set_free [OF r(2) nums(5), of a False m]
      by (simp add: malloc_fit_def Let_def overhead_def)
    also have "\<dots> = bindO (Some (Inr m')) (\<lambda>m. Some (Inr (a + 12, m)))"
      unfolding split m'(1) [symmetric] by (simp only: bindO_assoc)
    finally have "malloc_fit B (read32 m (st + 4)) (r + 12) a m = Some (Inr (a + 12, m'))" by simp
    moreover define e' where "e' = (if ys = [] then 0 else e)"
    have e': "first_addr ys e' = first_addr ys 0" "ys = [] \<or> e' = e" by (cases ys; simp add: e'_def)+
    have "heap_ok m' st hc ?bs' (?c # remove1 a fs)"
    proof (rule heap_okI [OF h(9,10) ord])
      have "linked m' [(a, r, False), (?c, ?k, True)] (first_addr ys e')"
        unfolding e'(1) using m'(2,3) d r(2) k(1) by auto
      moreover have "blk_size m' b = blk_size m b \<and> next_blk m' b = next_blk m b" if "b \<in> addrs xs \<union> addrs ys" for b
        using m'(2,3) [of b] d that by auto
      ultimately show "linked m' ?bs' e'"
        using linked_replace [of m xs "(a, n, True)" "[]" ys e "(a, r, False)" m' "[(?c, ?k, True)]" e'] h(1) e'(2) blk(3) by simp
      show "read32 m' st = first_addr ?bs' 0" using m'(4) h(3) by (simp add: first_addr_append)
      show "read32 m' (st + 4) = fst (last ?bs')" using m'(5) h(4) by (cases ys) auto
      show "fseg m' (read32 m' (st + 8)) (?c # remove1 a fs) 0" by (rule m'(6))
      show "distinct (?c # remove1 a fs)" using h(6) fs(2) by (auto dest: notin_set_remove1)
      show "set (?c # remove1 a fs) = free_addrs ?bs'"
        using h(6,7) d free_addrs_sub [of xs] free_addrs_sub [of ys] by (auto simp: set_remove1_eq)
      show "coalesced ?bs'" using h(8) by (auto simp: coalesced_append coalesced_cons)
    qed
    ultimately show thesis using that m'(7) False by (simp add: take_blocks_def)
  qed
qed

section \<open>Growing the heap\<close>

lemma ordered_snoc: "ordered lo (bs @ [(a, n, f)]) hi \<longleftrightarrow> ordered lo bs a \<and> a + 12 + n \<le> hi"
  by (simp add: ordered_append)

lemma grow_ok:
  assumes ok: "heap_ok m st hc bs fs" and r: "even r" "hc + 12 + r < 2 ^ 32"
    and m1: "m1 = (if bs = [] then write32 m st hc else set_next (read32 m (st + 4)) hc m)"
    and m2: "m2 = set_size hc r (write32 (set_nextfree hc 0 (set_next hc 0 m1)) (st + 4) hc)"
  shows "heap_ok m2 st (hc + 12 + r) (bs @ [(hc, r, False)]) fs" "only_hdrs st (addrs (bs @ [(hc, r, False)])) m m2"
proof -
  let ?bs = "bs @ [(hc, r, False)]"
  obtain e where h: "linked m bs e" "ordered (st + 12) bs hc" "read32 m st = first_addr bs 0"
    "bs \<noteq> [] \<Longrightarrow> read32 m (st + 4) = fst (last bs)" "fseg m (read32 m (st + 8)) fs 0" "distinct fs"
    "set fs = free_addrs bs" "coalesced bs" "0 < st" using heap_okD [OF ok] by metis
  have ord: "ordered (st + 12) ?bs (hc + 12 + r)" using h(2) by (simp add: ordered_snoc)
  have sep: "sep st (addrs ?bs)" using ordered_sep [OF ord r(2)] .
  have d: "distinct (map fst ?bs)" using ordered_distinct [OF ord] .
  have hA: "hc \<in> addrs ?bs" and h32: "hc < 2 ^ 32" and r32: "r < 2 ^ 32" using r(2) by auto
  have lastA: "fst (last bs) \<in> addrs ?bs" if "bs \<noteq> []" using last_addr [OF that] by simp
  note F = sep_fields [OF sep] and W = sep_words [OF sep] and W0 = sep_words [OF sep, of _ 0, simplified]
  have f: "blk_size m2 b = (if b = hc then r else blk_size m b)" "nextfree m2 b = (if b = hc then 0 else nextfree m b)"
    "next_blk m2 b = (if b = hc then 0 else if bs \<noteq> [] \<and> b = fst (last bs) then hc else next_blk m b)"
    if "b \<in> addrs ?bs" for b
    using that hA h32 r32 lastA h(4) unfolding m1 m2 by (auto simp: F W W0)
  have w: "read32 m2 st = (if bs = [] then hc else read32 m st)" "read32 m2 (st + 4) = hc" "read32 m2 (st + 8) = read32 m (st + 8)"
    using hA h32 lastA h(4) unfolding m1 m2 by (auto simp: W W0 load_store_same load_store_other)
  show "only_hdrs st (addrs ?bs) m m2" using hA lastA h(4) unfolding m1 m2 by (auto simp: only_hdrs_store)
  show "heap_ok m2 st (hc + 12 + r) ?bs fs"
  proof (rule heap_okI [OF h(9) r(2) ord])
    show "linked m2 ?bs 0"
    proof (cases bs rule: rev_cases)
      case Nil
      with f hA r(1) show ?thesis by simp
    next
      case (snoc us u)
      obtain a n g where u: "u = (a, n, g)" by (cases u)
      have same: "blk_size m2 b = blk_size m b \<and> next_blk m2 b = next_blk m b" if "b \<in> addrs us" for b
        using f [of b] that d snoc u by auto
      have "linked m us a" "blk_size m a = n + of_bool g" "even n" using h(1) snoc u by (auto simp: linked_append)
      then have "linked m2 us a" "blk_size m2 a = n + of_bool g" "next_blk m2 a = hc"
        using linked_cong [of us m2 m a] same f [of a] d snoc u by auto
      with f [OF hA] r(1) \<open>even n\<close> show ?thesis using snoc u by (simp add: linked_append)
    qed
    show "read32 m2 st = first_addr ?bs 0" using w(1) h(3) by (cases bs) auto
    show "read32 m2 (st + 4) = fst (last ?bs)" using w(2) by simp
    have "nextfree m2 b = nextfree m b" if "b \<in> addrs bs" for b using f(2) [of b] that d by auto
    then show "fseg m2 (read32 m2 (st + 8)) fs 0"
      unfolding w(3) by (rule fseg_keep [OF h(5) heap_ok_fs(1) [OF ok]])
    show "distinct fs" "set fs = free_addrs ?bs" using h(6,7) by auto
    show "coalesced ?bs" using h(8) by (auto simp: coalesced_append)
  qed
qed

section \<open>The kernel heap\<close>

definition kheap_inv :: "kheap \<Rightarrow> blk list \<Rightarrow> nat list \<Rightarrow> bool" where
  "kheap_inv s bs fs \<longleftrightarrow> kheap_enabled s \<and> vm_end (kernel_heap s) \<le> 2 ^ 31 \<and>
     kernel_heap_curr s \<le> vm_end (kernel_heap s) \<and>
     heap_ok (bytes s) (vm_start (kernel_heap s)) (kernel_heap_curr s) bs fs"

lemma ksbrk_eq:
  assumes "kernel_heap_curr s \<le> vm_end (kernel_heap s)" "vm_end (kernel_heap s) \<le> 2 ^ 31" "0 < n" "n < 2 ^ 32"
    and "0 < kernel_heap_curr s"
  shows "ksbrk (to_int32 n) s =
    (if kernel_heap_curr s + n \<le> vm_end (kernel_heap s)
     then (kernel_heap_curr s, s\<lparr>kernel_heap_curr := kernel_heap_curr s + n\<rparr>) else (0, s))"
proof (cases "n < 2 ^ 31")
  case True
  then have "int (kernel_heap_curr s) + int n < 2 ^ 32" using assms(1,2) by simp
  then have "nat ((int (kernel_heap_curr s) + int n) mod 2 ^ 32) = kernel_heap_curr s + n" by simp
  with True assms(3) show ?thesis by (simp add: ksbrk_def do_brk_def to_int32_def Let_def nat_add_distrib)
next
  case False
  with assms show ?thesis by (auto simp: ksbrk_def do_brk_def to_int32_def)
qed

text \<open>What \<open>kmalloc\<close> does to the list of blocks.\<close>

inductive malloc_blocks :: "blk list \<Rightarrow> nat \<Rightarrow> nat \<Rightarrow> blk list \<Rightarrow> nat \<Rightarrow> bool" where
  fit: "r \<le> n \<Longrightarrow> (\<And>b k. (b, k, True) \<in> set (xs @ (a, n, True) # ys) \<Longrightarrow> r \<le> k \<Longrightarrow> n \<le> k) \<Longrightarrow>
    malloc_blocks (xs @ (a, n, True) # ys) hc r (take_blocks xs a n r ys) a"
| grow: "(\<And>b k. (b, k, True) \<in> set bs \<Longrightarrow> k < r) \<Longrightarrow> malloc_blocks bs hc r (bs @ [(hc, r, False)]) hc"

lemma does_it_fit:
  assumes "heap_ok m st hc bs fs" "(a, n, True) \<in> set bs" "even r"
  shows "blkmngr_does_it_fit m a r \<longleftrightarrow> r \<le> n"
  using is_free_block(1,2) [OF assms(1,2)] is_free_block(3) [OF assms(1,2)] assms(3)
  by (auto simp: blkmngr_does_it_fit_def le_Suc_eq)

lemma malloc_grow_ok:
  assumes inv: "kheap_inv s bs fs" and r: "even r" "r + 12 < 2 ^ 32"
    and fits: "kernel_heap_curr s + 12 + r \<le> vm_end (kernel_heap s)"
  obtains m' where "malloc_grow Kernel_Heap (r + 12) s =
      Inr (kernel_heap_curr s + 12, s\<lparr>kernel_heap_curr := kernel_heap_curr s + 12 + r, bytes := m'\<rparr>)"
    "heap_ok m' (vm_start (kernel_heap s)) (kernel_heap_curr s + 12 + r) (bs @ [(kernel_heap_curr s, r, False)]) fs"
    "only_hdrs (vm_start (kernel_heap s)) (addrs (bs @ [(kernel_heap_curr s, r, False)])) (bytes s) m'"
proof -
  let ?hc = "kernel_heap_curr s" and ?st = "vm_start (kernel_heap s)"
  have ok: "heap_ok (bytes s) ?st ?hc bs fs" and e: "vm_end (kernel_heap s) \<le> 2 ^ 31" "?hc \<le> vm_end (kernel_heap s)"
    using inv by (auto simp: kheap_inv_def)
  note w = heap_ok_words [OF ok refl]
  have hc: "0 < ?hc" "?hc + 12 + r < 2 ^ 32" using w(5) fits e(1) by auto
  have brk: "ksbrk (to_int32 (r + 12)) s = (?hc, s\<lparr>kernel_heap_curr := ?hc + (r + 12)\<rparr>)"
    using ksbrk_eq [OF e(2,1) _ r(2) hc(1)] fits by (simp add: add.assoc add.commute)
  define m1 where "m1 = (if bs = [] then write32 (bytes s) ?st ?hc else set_next (read32 (bytes s) (?st + 4)) ?hc (bytes s))"
  define m2 where "m2 = set_size ?hc r (write32 (set_nextfree ?hc 0 (set_next ?hc 0 m1)) (?st + 4) ?hc)"
  note g = grow_ok [OF ok r(1) hc(2) m1_def m2_def]
  have sepb: "sep ?st (addrs bs)" using heap_ok_sep [OF ok] .
  have "read32 (bytes s) ?st = 0 \<longleftrightarrow> bs = []"
    using ok sepD(3) [OF sepb] by (cases bs) (auto simp: heap_ok_def)
  moreover have "read32 (bytes s) (?st + 4) \<noteq> 0" if "bs \<noteq> []"
    using ok that sepD(3) [OF sepb last_addr] by (auto simp: heap_ok_def)
  ultimately have "malloc_grow Kernel_Heap (r + 12) s = Inr (?hc + 12, s\<lparr>kernel_heap_curr := ?hc + 12 + r, bytes := m2\<rparr>)"
    using brk w(1,2) hc r set_size_set_free [OF r(1), of ?hc False]
    by (cases "bs = []")
      (simp_all add: malloc_grow_def heap_sbrk_def heap_area_def Let_def overhead_def m1_def m2_def add.assoc add.commute)
  with g that show thesis by blast
qed

lemma malloc_grow_full:
  assumes inv: "kheap_inv s bs fs" and r: "r + 12 < 2 ^ 32"
    and full: "vm_end (kernel_heap s) < kernel_heap_curr s + 12 + r"
  shows "malloc_grow Kernel_Heap (r + 12) s = Inl AssertFail"
proof -
  have ok: "heap_ok (bytes s) (vm_start (kernel_heap s)) (kernel_heap_curr s) bs fs"
    and e: "vm_end (kernel_heap s) \<le> 2 ^ 31" "kernel_heap_curr s \<le> vm_end (kernel_heap s)"
    using inv by (auto simp: kheap_inv_def)
  have "0 < kernel_heap_curr s" using heap_ok_words(5) [OF ok refl] by simp
  with ksbrk_eq [OF e(2,1) _ r] full have "ksbrk (to_int32 (r + 12)) s = (0, s)" by (simp add: add.assoc add.commute)
  then show ?thesis by (simp add: malloc_grow_def heap_sbrk_def Let_def)
qed

lemma kmalloc_cases:
  assumes inv: "kheap_inv s bs fs" and n: "0 < n" "n + 15 < 2 ^ 32" and r: "r = ceil_to n 16"
  obtains (fit) bs' fs' p m' where "kmalloc n s = Some (Inr (p + 12, s\<lparr>bytes := m'\<rparr>))"
    "malloc_blocks bs (kernel_heap_curr s) r bs' p" "kheap_inv (s\<lparr>bytes := m'\<rparr>) bs' fs'"
    "only_hdrs (vm_start (kernel_heap s)) (addrs bs') (bytes s) m'"
  | (grow) bs' fs' p m' where
    "kmalloc n s = Some (Inr (p + 12, s\<lparr>kernel_heap_curr := kernel_heap_curr s + 12 + r, bytes := m'\<rparr>))"
    "malloc_blocks bs (kernel_heap_curr s) r bs' p"
    "kheap_inv (s\<lparr>kernel_heap_curr := kernel_heap_curr s + 12 + r, bytes := m'\<rparr>) bs' fs'"
    "only_hdrs (vm_start (kernel_heap s)) (addrs bs') (bytes s) m'"
  | (full) "kmalloc n s = Some (Inl AssertFail)" "vm_end (kernel_heap s) < kernel_heap_curr s + 12 + r"
    "\<And>b k. (b, k, True) \<in> set bs \<Longrightarrow> k < r"
proof -
  let ?hc = "kernel_heap_curr s" and ?st = "vm_start (kernel_heap s)"
  have ok: "heap_ok (bytes s) ?st ?hc bs fs" and en: "kheap_enabled s" using inv by (auto simp: kheap_inv_def)
  note w = heap_ok_words [OF ok refl] and c = ceil_16 [OF n]
  have r2: "even r" "r + 12 < 2 ^ 32" using c(3,4) r by (auto simp: dvd_def)
  have km: "kmalloc n s = bindO (blkmngr_find_best_fitting r (?st + 8) (bytes s)) (\<lambda>best.
      if best \<noteq> 0
      then bindO (malloc_fit (kernel_heap s) (read32 (bytes s) (?st + 4)) (r + 12) best (bytes s))
             (\<lambda>(p, m). Some (Inr (p, s\<lparr>bytes := m\<rparr>)))
      else Some (malloc_grow Kernel_Heap (r + 12) s))"
    using en n(1) w r2 r by (simp add: kmalloc_def do_malloc_def heap_area_def Let_def overhead_def cong: if_cong)
  obtain b where b: "blkmngr_find_best_fitting r (?st + 8) (bytes s) = Some (Inr b)"
    "b = 0 \<Longrightarrow> \<forall>a\<in>set fs. \<not> blkmngr_does_it_fit (bytes s) a r"
    "b \<noteq> 0 \<Longrightarrow> b \<in> set fs \<and> blkmngr_does_it_fit (bytes s) b r \<and>
       (\<forall>a\<in>set fs. blkmngr_does_it_fit (bytes s) a r \<longrightarrow> blk_size (bytes s) b \<le> blk_size (bytes s) a)"
    using find_best_fitting [OF heap_ok_fs(4,3) [OF ok], of r] by auto
  have free: "a \<in> set fs" if "(a, k, True) \<in> set bs" for a k
    using heap_ok_fs(5) [OF ok] that by (auto simp: free_addrs_def)
  show thesis
  proof (cases "b = 0")
    case False
    then obtain k where "(b, k, True) \<in> set bs" using b(3) heap_ok_fs(5) [OF ok] by (auto simp: free_addrs_def)
    then obtain xs ys where bs: "bs = xs @ (b, k, True) # ys" by (auto dest: split_list)
    have rk: "r \<le> k" using does_it_fit [OF ok, of b k r] b(3) [OF False] r2(1) bs by simp
    have best: "k \<le> j" if "(a, j, True) \<in> set bs" "r \<le> j" for a j
      using b(3) [OF False] free [OF that(1)] does_it_fit [OF ok that(1) r2(1)] that(2)
        is_free_block(2) [OF ok that(1)] is_free_block(2) [OF ok, of b k True] bs by auto
    have "heap_ok (bytes s) ?st ?hc (xs @ (b, k, True) # ys) fs" using ok bs by simp
    from malloc_fit_ok [OF this refl rk r2(1)] obtain m' fs' where m':
      "malloc_fit (kernel_heap s) (read32 (bytes s) (?st + 4)) (r + 12) b (bytes s) = Some (Inr (b + 12, m'))"
      "heap_ok m' ?st ?hc (take_blocks xs b k r ys) fs'" "only_hdrs ?st (addrs (take_blocks xs b k r ys)) (bytes s) m'" .
    have "malloc_blocks bs ?hc r (take_blocks xs b k r ys) b" unfolding bs using rk best bs by (intro malloc_blocks.fit) auto
    moreover have "kmalloc n s = Some (Inr (b + 12, s\<lparr>bytes := m'\<rparr>))" using km b(1) False m'(1) by simp
    moreover have "kheap_inv (s\<lparr>bytes := m'\<rparr>) (take_blocks xs b k r ys) fs'" using inv m'(2) by (simp add: kheap_inv_def)
    ultimately show thesis using fit m'(3) by blast
  next
    case True
    have small: "j < r" if "(a, j, True) \<in> set bs" for a j
      using b(2) [OF True] free [OF that] does_it_fit [OF ok that r2(1)] by auto
    show thesis
    proof (cases "?hc + 12 + r \<le> vm_end (kernel_heap s)")
      case fits: True
      obtain m' where m': "malloc_grow Kernel_Heap (r + 12) s = Inr (?hc + 12, s\<lparr>kernel_heap_curr := ?hc + 12 + r, bytes := m'\<rparr>)"
        "heap_ok m' ?st (?hc + 12 + r) (bs @ [(?hc, r, False)]) fs"
        "only_hdrs ?st (addrs (bs @ [(?hc, r, False)])) (bytes s) m'"
        using malloc_grow_ok [OF inv r2 fits] .
      have "malloc_blocks bs ?hc r (bs @ [(?hc, r, False)]) ?hc" using small by (intro malloc_blocks.grow)
      moreover have "kheap_inv (s\<lparr>kernel_heap_curr := ?hc + 12 + r, bytes := m'\<rparr>) (bs @ [(?hc, r, False)]) fs"
        using inv m'(2) fits by (simp add: kheap_inv_def)
      ultimately show thesis using grow km b(1) True m' by simp
    next
      case False
      then show thesis using full km b(1) True malloc_grow_full [OF inv r2(2)] small by simp
    qed
  qed
qed

section \<open>Giving a block back\<close>

text \<open>The blocks after the release of the block at \<open>a\<close>: it absorbs a free right neighbour and is absorbed by a free left one.\<close>

definition join_right :: "nat \<Rightarrow> nat \<Rightarrow> blk list \<Rightarrow> nat \<times> blk list" where
  "join_right a n ys = (case ys of (b, k, True) # zs \<Rightarrow> (n + 12 + k, zs) | _ \<Rightarrow> (n, ys))"

definition free_blocks :: "blk list \<Rightarrow> nat \<Rightarrow> nat \<Rightarrow> blk list \<Rightarrow> blk list" where
  "free_blocks xs a n ys =
     (case join_right a n ys of (v, zs) \<Rightarrow>
        if xs \<noteq> [] \<and> snd (snd (last xs))
        then butlast xs @ (fst (last xs), fst (snd (last xs)) + 12 + v, True) # zs
        else xs @ (a, v, True) # zs)"

lemma merge_fields:
  assumes sep: "sep st A" and q: "q \<in> A" and v: "v + 1 < 2 ^ 32" "nx < 2 ^ 32"
    and m': "m' = (let m = set_next q nx (set_size q (v + 1) m) in if t then write32 m (st + 4) q else m)"
  shows "\<And>b. b \<in> A \<Longrightarrow> blk_size m' b = (if b = q then v + 1 else blk_size m b)"
    and "\<And>b. b \<in> A \<Longrightarrow> next_blk m' b = (if b = q then nx else next_blk m b)"
    and "\<And>b. b \<in> A \<Longrightarrow> nextfree m' b = nextfree m b"
    and "read32 m' st = read32 m st" "read32 m' (st + 8) = read32 m (st + 8)"
    and "read32 m' (st + 4) = (if t then q else read32 m (st + 4))" "only_hdrs st A m m'"
proof -
  note F = sep_fields [OF sep] and W = sep_words [OF sep] and W0 = sep_words [OF sep, of _ 0, simplified]
  have q32: "q < 2 ^ 32" using sepD(2) [OF sep q] .
  show "blk_size m' b = (if b = q then v + 1 else blk_size m b)" "next_blk m' b = (if b = q then nx else next_blk m b)"
    "nextfree m' b = nextfree m b" if "b \<in> A" for b
    using that q v unfolding m' Let_def by (auto simp: F W)
  show "read32 m' st = read32 m st" "read32 m' (st + 8) = read32 m (st + 8)"
    "read32 m' (st + 4) = (if t then q else read32 m (st + 4))"
    using q q32 unfolding m' Let_def by (auto simp: W W0 load_store_same load_store_other)
  show "only_hdrs st A m m'" using q unfolding m' Let_def by (auto simp: only_hdrs_store)
qed

lemma merged_ok:
  assumes ok: "heap_ok m st hc (xs @ (q, j, f) # ms @ ys) fs"
    and ord: "ordered (st + 12) (xs @ (q, v, True) # ys) hc" and coal: "coalesced (xs @ (q, v, True) # ys)"
    and q: "blk_size m' q = v + 1" "even v" "next_blk m' q = first_addr ys 0"
    and rest: "\<And>b. b \<in> addrs xs \<union> addrs ys \<Longrightarrow> blk_size m' b = blk_size m b \<and> next_blk m' b = next_blk m b"
    and words: "read32 m' st = read32 m st" "read32 m' (st + 4) = (if ys = [] then q else read32 m (st + 4))"
    and free: "fseg m' (read32 m' (st + 8)) fs' 0" "distinct fs'" "set fs' = free_addrs (xs @ (q, v, True) # ys)"
  shows "heap_ok m' st hc (xs @ (q, v, True) # ys) fs'"
proof -
  let ?bs = "xs @ (q, j, f) # ms @ ys" and ?bs' = "xs @ (q, v, True) # ys"
  obtain e where h: "linked m ?bs e" "read32 m st = first_addr ?bs 0" "read32 m (st + 4) = fst (last ?bs)"
    "0 < st" "hc < 2 ^ 32" using heap_okD [OF ok] by (metis append_is_Nil_conv list.distinct(1))
  define e' where "e' = (if ys = [] then 0 else e)"
  have e': "first_addr ys e' = first_addr ys 0" "ys = [] \<or> e' = e" by (cases ys; simp add: e'_def)+
  show ?thesis
  proof (rule heap_okI [OF h(4,5) ord])
    have "linked m' [(q, v, True)] (first_addr ys e')" unfolding e'(1) using q by simp
    with rest show "linked m' ?bs' e'"
      using linked_replace [of m xs "(q, j, f)" ms ys e "(q, v, True)" m' "[]" e'] h(1) e'(2) by simp
    show "read32 m' st = first_addr ?bs' 0" using words(1) h(2) by (simp add: first_addr_append)
    show "read32 m' (st + 4) = fst (last ?bs')" using words(2) h(3) by auto
  qed (use free coal in auto)
qed

text \<open>The neighbours that \<open>__do_free\<close> looks at.\<close>

lemma do_free_start:
  assumes ok: "heap_ok m st hc (xs @ (a, n, f) # ys) fs" and B: "vm_start B = st"
  shows "a + 12 < 2 ^ 32" "sub32 (a + 12) 12 = a"
    "blkmngr_get_previous_block a (head_at B) m = Some (Inr (if xs = [] then 0 else fst (last xs)))"
    "blkmngr_get_next_block a (tail_at B) m = Inr (first_addr ys 0)"
    "blkmngr_is_free m (if xs = [] then 0 else fst (last xs)) \<longleftrightarrow> xs \<noteq> [] \<and> snd (snd (last xs))"
    "blkmngr_is_free m (first_addr ys 0) \<longleftrightarrow> ys \<noteq> [] \<and> snd (snd (hd ys))"
proof -
  note w = heap_ok_words [OF ok B]
  have "ordered (st + 12) (xs @ (a, n, f) # ys) hc" using ok by (simp add: heap_ok_def)
  from ordered_bounds [OF this, of a n f] w(6) show a: "a + 12 < 2 ^ 32" by simp
  then show "sub32 (a + 12) 12 = a" by simp
  show "blkmngr_get_previous_block a (head_at B) m = Some (Inr (if xs = [] then 0 else fst (last xs)))"
    "blkmngr_get_next_block a (tail_at B) m = Inr (first_addr ys 0)"
    using previous_block [OF ok] next_block [OF ok] w(1,2) by auto
  show "blkmngr_is_free m (if xs = [] then 0 else fst (last xs)) \<longleftrightarrow> xs \<noteq> [] \<and> snd (snd (last xs))"
    using is_free_block(1) [OF ok, of "fst (last xs)" "fst (snd (last xs))" "snd (snd (last xs))"] last_in_set [of xs]
    by (auto simp: blkmngr_is_free_def)
  show "blkmngr_is_free m (first_addr ys 0) \<longleftrightarrow> ys \<noteq> [] \<and> snd (snd (hd ys))"
    using is_free_block(1) [OF ok, of "fst (hd ys)" "fst (snd (hd ys))" "snd (snd (hd ys))"]
    by (cases ys) (auto simp: blkmngr_is_free_def)
qed

lemma next_after_merge:
  assumes ok: "heap_ok m st hc (xs @ (b, k, g) # zs) fs" and q: "q \<in> addrs (xs @ (b, k, g) # zs)" "v < 2 ^ 32"
  shows "blkmngr_get_next_block b (st + 4) (set_size q v m) = Inr (first_addr zs 0)"
proof -
  have sep: "sep st (addrs (xs @ (b, k, g) # zs))" using heap_ok_sep [OF ok] .
  have "read32 (set_size q v m) (st + 4) = read32 m (st + 4)" "next_blk (set_size q v m) b = next_blk m b"
    using sep_words(1) [OF sep q(1)] sep_fields(7) [OF sep q(1) _ q(2)] by auto
  then have "blkmngr_get_next_block b (st + 4) (set_size q v m) = blkmngr_get_next_block b (st + 4) m"
    by (simp add: blkmngr_get_next_block_def)
  with next_block [OF ok] show ?thesis by simp
qed

lemma do_free_both:
  assumes ok: "heap_ok m st hc (us @ (p, j, True) # (a, n, False) # (b, k, True) # zs) fs" and B: "vm_start B = st"
  obtains m' where "do_free B (a + 12) m = Some (Inr m')"
    "heap_ok m' st hc (us @ (p, j + 12 + (n + 12 + k), True) # zs) (remove1 b fs)"
    "only_hdrs st (addrs (us @ (p, j, True) # (a, n, False) # (b, k, True) # zs)) m m'"
proof -
  let ?bs = "us @ (p, j, True) # (a, n, False) # (b, k, True) # zs" and ?v = "j + 12 + (n + 12 + k)"
  let ?xs = "us @ [(p, j, True)]" and ?ys = "(b, k, True) # zs"
  have ok1: "heap_ok m st hc (?xs @ (a, n, False) # ?ys) fs" and ok2: "heap_ok m st hc ((?xs @ [(a, n, False)]) @ ?ys) fs"
    using ok by simp_all
  note w = heap_ok_words [OF ok B] and start = do_free_start [OF ok1 B]
  have sep: "sep st (addrs ?bs)" and d: "distinct (map fst ?bs)" using heap_ok_sep heap_ok_distinct ok by blast+
  have h: "ordered (st + 12) ?bs hc" "coalesced ?bs" using ok by (auto simp: heap_ok_def)
  have sz: "get_real_size (blk_size m p) = j" "get_real_size (blk_size m a) = n" "get_real_size (blk_size m b) = k" "even ?v"
    using is_free_block(3,4) [OF ok, of p j True] is_free_block(3,4) [OF ok, of a n False] is_free_block(3,4) [OF ok, of b k True]
    by auto
  have v: "p + 12 + ?v \<le> b + 12 + k" "b + 12 + k \<le> hc"
    using h(1) ordered_le by (auto simp: ordered_append)
  have v32: "?v + 1 < 2 ^ 32" using v w(6) by simp
  have nx: "first_addr zs 0 < 2 ^ 32" using sepD(2) [OF sep] by (cases zs) auto
  define m2 where "m2 = (let m = set_next p (first_addr zs 0) (set_size p (?v + 1) m) in if zs = [] then write32 m (st + 4) p else m)"
  have pA: "p \<in> addrs ?bs" by simp
  note f = merge_fields [OF sep pA v32 nx m2_def]
  have chain: "fseg m2 (read32 m2 (st + 8)) fs 0"
    unfolding f(5) by (rule fseg_keep [OF heap_ok_fs(4,1) [OF ok] f(3)])
  have "b \<in> set fs" using heap_ok_fs(5) [OF ok] by simp
  then obtain m3 where m3: "blkmngr_remove_from_freelist b (st + 8) m2 = Some (Inr m3)"
    "\<And>c. c \<in> addrs ?bs \<Longrightarrow> blk_size m3 c = blk_size m2 c" "\<And>c. c \<in> addrs ?bs \<Longrightarrow> next_blk m3 c = next_blk m2 c"
    "read32 m3 st = read32 m2 st" "read32 m3 (st + 4) = read32 m2 (st + 4)"
    "fseg m3 (read32 m3 (st + 8)) (remove1 b fs) 0" "only_hdrs st (addrs ?bs) m2 m3"
    using remove_from_freelist [OF sep heap_ok_fs(1,2) [OF ok] _ chain] by blast
  have "read32 m (st + 4) = b \<longleftrightarrow> zs = []" using tail_iff [of m st hc "?xs @ [(a, n, False)]" b k True zs fs] ok2 by simp
  moreover have "blkmngr_get_next_block b (st + 4) (set_size p (?v + 1) m) = Inr (first_addr zs 0)"
    using next_after_merge [of m st hc "?xs @ [(a, n, False)]" b k True zs fs p "?v + 1"] ok2 v32 by simp
  ultimately have "do_free B (a + 12) m = Some (Inr m3)"
    using start w(1-4) sz v32 m3(1) set_size_set_free [OF sz(4), of p True m]
    by (cases "zs = []") (simp_all add: do_free_def Let_def overhead_def m2_def algebra_simps)
  moreover have "heap_ok m3 st hc (us @ (p, ?v, True) # zs) (remove1 b fs)"
  proof (rule merged_ok [where m = m and ms = "[(a, n, False), (b, k, True)]" and j = j and f = True and fs = fs])
    show "ordered (st + 12) (us @ (p, ?v, True) # zs) hc"
      using h(1) v(1) by (auto simp: ordered_append intro: ordered_mono)
    show "coalesced (us @ (p, ?v, True) # zs)" using h(2) by (auto simp: coalesced_append coalesced_cons)
    show "set (remove1 b fs) = free_addrs (us @ (p, ?v, True) # zs)"
      using heap_ok_fs(2,5) [OF ok] d free_addrs_sub [of us] free_addrs_sub [of zs] by (auto simp: set_remove1_eq)
    show "blk_size m3 c = blk_size m c \<and> next_blk m3 c = next_blk m c" if "c \<in> addrs us \<union> addrs zs" for c
      using m3(2,3) [of c] f(1,2) [of c] that d by auto
    show "blk_size m3 p = ?v + 1" "next_blk m3 p = first_addr zs 0" using m3(2,3) f(1,2) pA by auto
  qed (use ok m3 f sz(4) heap_ok_fs(2) [OF ok] in auto)
  ultimately show thesis using that only_hdrs_trans [OF f(7) m3(7)] by blast
qed

lemma do_free_left:
  assumes ok: "heap_ok m st hc (us @ (p, j, True) # (a, n, False) # ys) fs" and B: "vm_start B = st"
    and right: "ys = [] \<or> \<not> snd (snd (hd ys))"
  obtains m' where "do_free B (a + 12) m = Some (Inr m')"
    "heap_ok m' st hc (us @ (p, j + 12 + n, True) # ys) fs"
    "only_hdrs st (addrs (us @ (p, j, True) # (a, n, False) # ys)) m m'"
proof -
  let ?bs = "us @ (p, j, True) # (a, n, False) # ys" and ?v = "j + 12 + n"
  let ?xs = "us @ [(p, j, True)]"
  have ok1: "heap_ok m st hc (?xs @ (a, n, False) # ys) fs" using ok by simp
  note w = heap_ok_words [OF ok B] and start = do_free_start [OF ok1 B]
  have sep: "sep st (addrs ?bs)" and d: "distinct (map fst ?bs)" using heap_ok_sep heap_ok_distinct ok by blast+
  have h: "ordered (st + 12) ?bs hc" "coalesced ?bs" using ok by (auto simp: heap_ok_def)
  have sz: "get_real_size (blk_size m p) = j" "get_real_size (blk_size m a) = n" "even ?v"
    using is_free_block(3,4) [OF ok, of p j True] is_free_block(3,4) [OF ok, of a n False] by auto
  have v: "p + 12 + ?v \<le> a + 12 + n" "a + 12 + n \<le> hc" using h(1) ordered_le by (auto simp: ordered_append)
  have v32: "?v + 1 < 2 ^ 32" using v w(6) by simp
  have nx: "first_addr ys 0 < 2 ^ 32" using sepD(2) [OF sep] by (cases ys) auto
  define m2 where "m2 = (let m = set_next p (first_addr ys 0) (set_size p (?v + 1) m) in if ys = [] then write32 m (st + 4) p else m)"
  have pA: "p \<in> addrs ?bs" by simp
  note f = merge_fields [OF sep pA v32 nx m2_def]
  have "read32 m (st + 4) = a \<longleftrightarrow> ys = []" using tail_iff [OF ok1] .
  then have "do_free B (a + 12) m = Some (Inr m2)"
    using start w(1-4) sz v32 right set_size_set_free [OF sz(3), of p True m]
    by (cases "ys = []") (simp_all add: do_free_def Let_def overhead_def m2_def algebra_simps)
  moreover have "heap_ok m2 st hc (us @ (p, ?v, True) # ys) fs"
  proof (rule merged_ok [where m = m and ms = "[(a, n, False)]" and j = j and f = True and fs = fs])
    show "ordered (st + 12) (us @ (p, ?v, True) # ys) hc"
      using h(1) v(1) by (auto simp: ordered_append intro: ordered_mono)
    show "coalesced (us @ (p, ?v, True) # ys)" using h(2) right by (auto simp: coalesced_append coalesced_cons)
    show "blk_size m2 c = blk_size m c \<and> next_blk m2 c = next_blk m c" if "c \<in> addrs us \<union> addrs ys" for c
      using f(1,2) [of c] that d by auto
    show "fseg m2 (read32 m2 (st + 8)) fs 0" unfolding f(5) by (rule fseg_keep [OF heap_ok_fs(4,1) [OF ok] f(3)])
    show "set fs = free_addrs (us @ (p, ?v, True) # ys)" using heap_ok_fs(5) [OF ok] by simp
    show "blk_size m2 p = ?v + 1" "next_blk m2 p = first_addr ys 0" using f(1,2) pA by auto
  qed (use ok f sz(3) heap_ok_fs(2) [OF ok] in auto)
  ultimately show thesis using that f(7) by blast
qed

lemma do_free_right:
  assumes ok: "heap_ok m st hc (xs @ (a, n, False) # (b, k, True) # zs) fs" and B: "vm_start B = st"
    and left: "xs = [] \<or> \<not> snd (snd (last xs))"
  obtains m' where "do_free B (a + 12) m = Some (Inr m')"
    "heap_ok m' st hc (xs @ (a, n + 12 + k, True) # zs) (a # remove1 b fs)"
    "only_hdrs st (addrs (xs @ (a, n, False) # (b, k, True) # zs)) m m'"
proof -
  let ?bs = "xs @ (a, n, False) # (b, k, True) # zs" and ?v = "n + 12 + k"
  have ok2: "heap_ok m st hc ((xs @ [(a, n, False)]) @ (b, k, True) # zs) fs" using ok by simp
  note w = heap_ok_words [OF ok B] and start = do_free_start [OF ok B]
  have sep: "sep st (addrs ?bs)" and d: "distinct (map fst ?bs)" using heap_ok_sep heap_ok_distinct ok by blast+
  have h: "ordered (st + 12) ?bs hc" "coalesced ?bs" using ok by (auto simp: heap_ok_def)
  have sz: "get_real_size (blk_size m a) = n" "get_real_size (blk_size m b) = k" "even ?v"
    using is_free_block(3,4) [OF ok, of a n False] is_free_block(3,4) [OF ok, of b k True] by auto
  have v: "a + 12 + ?v \<le> b + 12 + k" "b + 12 + k \<le> hc" using h(1) ordered_le by (auto simp: ordered_append)
  have v32: "?v + 1 < 2 ^ 32" using v w(6) by simp
  have nx: "first_addr zs 0 < 2 ^ 32" using sepD(2) [OF sep] by (cases zs) auto
  define m2 where "m2 = (let m = set_next a (first_addr zs 0) (set_size a (?v + 1) m) in if zs = [] then write32 m (st + 4) a else m)"
  have aA: "a \<in> addrs ?bs" by simp
  note f = merge_fields [OF sep aA v32 nx m2_def]
  have chain: "fseg m2 (read32 m2 (st + 8)) fs 0"
    unfolding f(5) by (rule fseg_keep [OF heap_ok_fs(4,1) [OF ok] f(3)])
  have fs: "b \<in> set fs" "a \<notin> set fs"
    using heap_ok_fs(5) [OF ok] d free_addrs_sub [of xs] free_addrs_sub [of zs] by auto
  then obtain m3 where m3: "blkmngr_remove_from_freelist b (st + 8) m2 = Some (Inr m3)"
    "\<And>c. c \<in> addrs ?bs \<Longrightarrow> blk_size m3 c = blk_size m2 c" "\<And>c. c \<in> addrs ?bs \<Longrightarrow> next_blk m3 c = next_blk m2 c"
    "read32 m3 st = read32 m2 st" "read32 m3 (st + 4) = read32 m2 (st + 4)"
    "fseg m3 (read32 m3 (st + 8)) (remove1 b fs) 0" "only_hdrs st (addrs ?bs) m2 m3"
    using remove_from_freelist [OF sep heap_ok_fs(1,2) [OF ok] _ chain] by blast
  have "a \<notin> set (remove1 b fs)" "set (remove1 b fs) \<subseteq> addrs ?bs"
    using fs(2) heap_ok_fs(1) [OF ok] set_remove1_subset [of b fs] by auto
  then obtain m4 where m4: "blkmngr_add_to_freelist a (st + 8) m3 = Inr m4"
    "\<And>c. c \<in> addrs ?bs \<Longrightarrow> blk_size m4 c = blk_size m3 c" "\<And>c. c \<in> addrs ?bs \<Longrightarrow> next_blk m4 c = next_blk m3 c"
    "read32 m4 st = read32 m3 st" "read32 m4 (st + 4) = read32 m3 (st + 4)"
    "fseg m4 (read32 m4 (st + 8)) (a # remove1 b fs) 0" "only_hdrs st (addrs ?bs) m3 m4"
    using add_to_freelist [OF sep aA _ _ m3(6)] by blast
  obtain prev where prev: "blkmngr_get_previous_block a (head_at B) m = Some (Inr prev)" "\<not> blkmngr_is_free m prev"
    using start(3,5) left by blast
  have "read32 m (st + 4) = b \<longleftrightarrow> zs = []" using tail_iff [OF ok2] .
  moreover have "blkmngr_get_next_block b (st + 4) (set_size a (?v + 1) m) = Inr (first_addr zs 0)"
    using next_after_merge [OF ok2, of a "?v + 1"] v32 by simp
  ultimately have "do_free B (a + 12) m = Some (Inr m4)"
    using start(1,2,4,6) prev w(1-4) sz v32 m3(1) m4(1) set_size_set_free [OF sz(3), of a True m]
    by (cases "zs = []") (simp_all add: do_free_def Let_def overhead_def m2_def algebra_simps)
  moreover have "heap_ok m4 st hc (xs @ (a, ?v, True) # zs) (a # remove1 b fs)"
  proof (rule merged_ok [where m = m and ms = "[(b, k, True)]" and j = n and f = False and fs = fs])
    show "ordered (st + 12) (xs @ (a, ?v, True) # zs) hc"
      using h(1) v(1) by (auto simp: ordered_append intro: ordered_mono)
    show "coalesced (xs @ (a, ?v, True) # zs)" using h(2) left by (auto simp: coalesced_append coalesced_cons)
    show "distinct (a # remove1 b fs)" using fs(2) heap_ok_fs(2) [OF ok] by (auto dest: notin_set_remove1)
    show "set (a # remove1 b fs) = free_addrs (xs @ (a, ?v, True) # zs)"
      using heap_ok_fs(2,5) [OF ok] d free_addrs_sub [of xs] free_addrs_sub [of zs] by (auto simp: set_remove1_eq)
    show "blk_size m4 c = blk_size m c \<and> next_blk m4 c = next_blk m c" if "c \<in> addrs xs \<union> addrs zs" for c
      using m4(2,3) [of c] m3(2,3) [of c] f(1,2) [of c] that d by auto
    show "blk_size m4 a = ?v + 1" "next_blk m4 a = first_addr zs 0" using m4(2,3) m3(2,3) f(1,2) aA by auto
  qed (use ok m4 m3 f sz(3) in auto)
  ultimately show thesis using that only_hdrs_trans [OF only_hdrs_trans [OF f(7) m3(7)] m4(7)] by blast
qed

lemma do_free_alone:
  assumes ok: "heap_ok m st hc (xs @ (a, n, False) # ys) fs" and B: "vm_start B = st"
    and left: "xs = [] \<or> \<not> snd (snd (last xs))" and right: "ys = [] \<or> \<not> snd (snd (hd ys))"
  obtains m' where "do_free B (a + 12) m = Some (Inr m')"
    "heap_ok m' st hc (xs @ (a, n, True) # ys) (a # fs)" "only_hdrs st (addrs (xs @ (a, n, False) # ys)) m m'"
proof -
  let ?bs = "xs @ (a, n, False) # ys"
  note w = heap_ok_words [OF ok B] and start = do_free_start [OF ok B]
  have sep: "sep st (addrs ?bs)" and d: "distinct (map fst ?bs)" using heap_ok_sep heap_ok_distinct ok by blast+
  obtain e where h: "linked m ?bs e" "ordered (st + 12) ?bs hc" "read32 m (st + 4) = fst (last ?bs)" "coalesced ?bs"
    using heap_okD [OF ok] by (metis append_is_Nil_conv list.distinct(1))
  have sz: "blk_size m a = n" "even n" using is_free_block(2,3) [OF ok, of a n False] by auto
  have n32: "n + 1 < 2 ^ 32" using ordered_bounds [OF h(2), of a n False] w(6) by simp
  have aA: "a \<in> addrs ?bs" by simp
  note F = sep_fields [OF sep aA _ n32] and W = sep_words [OF sep aA] and W0 = sep_words [OF sep aA, of 0, simplified]
  let ?m = "set_size a (n + 1) m"
  have chain: "fseg ?m (read32 ?m (st + 8)) fs 0"
    unfolding W(1) [OF order_refl] by (rule fseg_keep [OF heap_ok_fs(4,1) [OF ok] F(4)])
  have fs: "a \<notin> set fs" using heap_ok_fs(5) [OF ok] d free_addrs_sub [of xs] free_addrs_sub [of ys] by auto
  then obtain m4 where m4: "blkmngr_add_to_freelist a (st + 8) ?m = Inr m4"
    "\<And>c. c \<in> addrs ?bs \<Longrightarrow> blk_size m4 c = blk_size ?m c" "\<And>c. c \<in> addrs ?bs \<Longrightarrow> next_blk m4 c = next_blk ?m c"
    "read32 m4 st = read32 ?m st" "read32 m4 (st + 4) = read32 ?m (st + 4)"
    "fseg m4 (read32 m4 (st + 8)) (a # fs) 0" "only_hdrs st (addrs ?bs) ?m m4"
    using add_to_freelist [OF sep aA _ heap_ok_fs(1) [OF ok] chain] by blast
  obtain prev where prev: "blkmngr_get_previous_block a (head_at B) m = Some (Inr prev)" "\<not> blkmngr_is_free m prev"
    using start(3,5) left by blast
  have "blkmngr_set_free a True m = ?m" using sz or_one [of n] by (simp add: blkmngr_set_free_def)
  then have "do_free B (a + 12) m = Some (Inr m4)"
    using start(1,2,4,6) prev w(1-4) right m4(1) by (auto simp: do_free_def Let_def)
  moreover have "heap_ok m4 st hc (xs @ (a, n, True) # ys) (a # fs)"
  proof (rule heap_okI [where e = e])
    have "blk_size m4 c = blk_size m c \<and> next_blk m4 c = next_blk m c" if "c \<in> addrs xs \<union> addrs ys" for c
      using m4(2,3) [of c] F(1,7) [of c] that d by auto
    moreover have "linked m4 [(a, n, True)] (first_addr ys e)"
      using m4(2,3) [OF aA] F(1,7) [OF aA] sz(2) h(1) by (simp add: linked_append)
    ultimately show "linked m4 (xs @ (a, n, True) # ys) e"
      using linked_replace [of m xs "(a, n, False)" "[]" ys e "(a, n, True)" m4 "[]" e] h(1) by simp
    show "read32 m4 st = first_addr (xs @ (a, n, True) # ys) 0"
      using m4(4) W0(1) ok by (simp add: heap_ok_def first_addr_append)
    show "read32 m4 (st + 4) = fst (last (xs @ (a, n, True) # ys))" using m4(5) W(1) [of 4] h(3) by (cases ys) auto
    show "coalesced (xs @ (a, n, True) # ys)" using h(4) left right by (auto simp: coalesced_append coalesced_cons)
    show "ordered (st + 12) (xs @ (a, n, True) # ys) hc" using h(2) by (simp add: ordered_append)
  qed (use ok m4 fs heap_ok_fs(2,5) [OF ok] w(4,6) in auto)
  moreover have "only_hdrs st (addrs ?bs) m m4"
    using only_hdrs_trans [OF _ m4(7), of m] only_hdrs_store(3) [OF aA] by simp
  ultimately show thesis using that by blast
qed

lemma do_free_ok:
  assumes ok: "heap_ok m st hc (xs @ (a, n, False) # ys) fs" and B: "vm_start B = st"
  obtains m' fs' where "do_free B (a + 12) m = Some (Inr m')" "heap_ok m' st hc (free_blocks xs a n ys) fs'"
    "only_hdrs st (addrs (xs @ (a, n, False) # ys)) m m'"
proof (cases "xs \<noteq> [] \<and> snd (snd (last xs))"; cases "ys \<noteq> [] \<and> snd (snd (hd ys))")
  assume l: "xs \<noteq> [] \<and> snd (snd (last xs))" and r: "ys \<noteq> [] \<and> snd (snd (hd ys))"
  from l obtain us p j where xs: "xs = us @ [(p, j, True)]" by (metis append_butlast_last_id prod.collapse)
  from r obtain b k zs where ys: "ys = (b, k, True) # zs" by (cases ys) auto
  have hk: "heap_ok m st hc (us @ (p, j, True) # (a, n, False) # (b, k, True) # zs) fs" using ok xs ys by simp
  have fb: "free_blocks xs a n ys = us @ (p, j + 12 + (n + 12 + k), True) # zs"
    using xs ys by (simp add: free_blocks_def join_right_def)
  show thesis by (rule do_free_both [OF hk B], rule that [of _ "remove1 b fs"], unfold fb) (simp_all add: xs ys)
next
  assume l: "xs \<noteq> [] \<and> snd (snd (last xs))" and r: "\<not> (ys \<noteq> [] \<and> snd (snd (hd ys)))"
  from l obtain us p j where xs: "xs = us @ [(p, j, True)]" by (metis append_butlast_last_id prod.collapse)
  have "join_right a n ys = (n, ys)" using r by (auto simp: join_right_def split: list.split)
  then have fb: "free_blocks xs a n ys = us @ (p, j + 12 + n, True) # ys" using xs by (simp add: free_blocks_def)
  have hk: "heap_ok m st hc (us @ (p, j, True) # (a, n, False) # ys) fs" using ok xs by simp
  have r': "ys = [] \<or> \<not> snd (snd (hd ys))" using r by simp
  show thesis by (rule do_free_left [OF hk B r'], rule that [of _ fs], unfold fb) (simp_all add: xs)
next
  assume l: "\<not> (xs \<noteq> [] \<and> snd (snd (last xs)))" and r: "ys \<noteq> [] \<and> snd (snd (hd ys))"
  from r obtain b k zs where ys: "ys = (b, k, True) # zs" by (cases ys) auto
  have hk: "heap_ok m st hc (xs @ (a, n, False) # (b, k, True) # zs) fs" using ok ys by simp
  have fb: "free_blocks xs a n ys = xs @ (a, n + 12 + k, True) # zs" using l ys by (simp add: free_blocks_def join_right_def)
  have l': "xs = [] \<or> \<not> snd (snd (last xs))" using l by simp
  show thesis by (rule do_free_right [OF hk B l'], rule that [of _ "a # remove1 b fs"], unfold fb) (simp_all add: ys)
next
  assume l: "\<not> (xs \<noteq> [] \<and> snd (snd (last xs)))" and r: "\<not> (ys \<noteq> [] \<and> snd (snd (hd ys)))"
  have "join_right a n ys = (n, ys)" using r by (auto simp: join_right_def split: list.split)
  with l have fb: "free_blocks xs a n ys = xs @ (a, n, True) # ys" by (simp add: free_blocks_def)
  have lr: "xs = [] \<or> \<not> snd (snd (last xs))" "ys = [] \<or> \<not> snd (snd (hd ys))" using l r by auto
  show thesis by (rule do_free_alone [OF ok B lr], rule that [of _ "a # fs"], unfold fb)
qed

lemma kfree_ok:
  assumes inv: "kheap_inv s (xs @ (a, n, False) # ys) fs"
  obtains m' fs' where "kfree (a + 12) s = Some (Inr (s\<lparr>bytes := m'\<rparr>))"
    "kheap_inv (s\<lparr>bytes := m'\<rparr>) (free_blocks xs a n ys) fs'"
    "only_hdrs (vm_start (kernel_heap s)) (addrs (xs @ (a, n, False) # ys)) (bytes s) m'"
proof -
  have "heap_ok (bytes s) (vm_start (kernel_heap s)) (kernel_heap_curr s) (xs @ (a, n, False) # ys) fs"
    using inv by (simp add: kheap_inv_def)
  from do_free_ok [OF this refl] obtain m' fs' where "do_free (kernel_heap s) (a + 12) (bytes s) = Some (Inr m')"
    "heap_ok m' (vm_start (kernel_heap s)) (kernel_heap_curr s) (free_blocks xs a n ys) fs'"
    "only_hdrs (vm_start (kernel_heap s)) (addrs (xs @ (a, n, False) # ys)) (bytes s) m'" by blast
  with that inv show thesis by (simp add: kfree_def kheap_inv_def)
qed

section \<open>Blocks in use and their contents\<close>

definition used :: "blk list \<Rightarrow> (nat \<times> nat) set" where
  "used bs = {(a, n). (a, n, False) \<in> set bs}"

lemma used_simps [simp]:
  "used [] = {}" "used ((a, n, True) # bs) = used bs" "used ((a, n, False) # bs) = insert (a, n) (used bs)"
  "used (xs @ ys) = used xs \<union> used ys"
  by (auto simp: used_def)

definition same_payload :: "(nat \<times> nat) set \<Rightarrow> mem \<Rightarrow> mem \<Rightarrow> bool" where
  "same_payload U m m' \<longleftrightarrow> (\<forall>(a, n)\<in>U. \<forall>x. a + 12 \<le> x \<and> x < a + 12 + n \<longrightarrow> m' x = m x)"

lemma same_payload_hdrs:
  assumes "ordered (st + 12) bs hi" "only_hdrs st (addrs bs) m m'" "U \<subseteq> used bs"
  shows "same_payload U m m'"
  unfolding same_payload_def
proof clarify
  fix a n x assume u: "(a, n) \<in> U" and x: "a + 12 \<le> x" "x < a + 12 + n"
  then have mem: "(a, n, False) \<in> set bs" using assms(3) by (auto simp: used_def)
  have "x \<notin> {b..<b + 12}" if bA: "b \<in> addrs bs" for b
  proof -
    obtain k f where "(b, k, f) \<in> set bs" using bA by blast
    from ordered_apart [OF assms(1) mem this] x show ?thesis by auto
  qed
  moreover have "st + 12 \<le> a" using ordered_bounds [OF assms(1) mem] by simp
  ultimately show "m' x = m x" using assms(2) x by (auto simp: only_hdrs_def hdr_bytes_def)
qed

lemma used_distinct:
  assumes "ordered lo bs hi" "(a, n) \<in> used bs" "(b, k) \<in> used bs"
  shows "(a, n) = (b, k) \<or> a + 12 + n \<le> b \<or> b + 12 + k \<le> a"
  using ordered_apart [OF assms(1), of a n False b k False] assms(2,3) by (auto simp: used_def)

lemma take_blocks_used:
  assumes "r \<le> n"
  obtains k where "(a, k) \<in> used (take_blocks xs a n r ys)" "r \<le> k"
    "used (take_blocks xs a n r ys) = insert (a, k) (used (xs @ (a, n, True) # ys))"
  using assms by (cases "n - r < 20") (auto simp: take_blocks_def)

lemma malloc_blocks_used:
  assumes "malloc_blocks bs hc r bs' p"
  obtains k where "(p, k) \<in> used bs'" "r \<le> k" "used bs' = insert (p, k) (used bs)"
  using assms
proof cases
  case (fit n xs ys)
  with take_blocks_used [of r n p xs ys] that show thesis by metis
next
  case grow
  with that [of r] show thesis by auto
qed

lemma join_right_used: "used (snd (join_right a n ys)) = used ys"
proof (cases ys)
  case (Cons y zs)
  obtain b k g where "y = (b, k, g)" by (cases y)
  with Cons show ?thesis by (cases g) (simp_all add: join_right_def)
qed (simp add: join_right_def)

lemma free_blocks_used: "used (free_blocks xs a n ys) = used xs \<union> used ys"
proof -
  obtain v zs where j: "join_right a n ys = (v, zs)" by (cases "join_right a n ys")
  with join_right_used [of a n ys] have zs: "used zs = used ys" by simp
  show ?thesis
  proof (cases "xs \<noteq> [] \<and> snd (snd (last xs))")
    case True
    then obtain us p k where "xs = us @ [(p, k, True)]" by (metis append_butlast_last_id prod.collapse)
    with j zs show ?thesis by (simp add: free_blocks_def)
  next
    case False
    then have "free_blocks xs a n ys = xs @ (a, v, True) # zs" unfolding free_blocks_def j by simp
    with zs show ?thesis by simp
  qed
qed

end
