(* ===== verification/Zone_Correct.thy ===== *)
theory Zone_Correct
  imports Zone_Allocator
begin

text \<open>
  Correctness of the physical memory manager: the search that restarts behind the first taken page
  is the plain first-fit search; an allocation that fits into its zone takes the lowest free run
  and keeps the books of the zone; a release undoes it; the self-test at boot succeeds and leaves
  the memory as it was.
\<close>

section \<open>First fit\<close>

definition free_run :: "int list \<Rightarrow> nat \<Rightarrow> nat \<Rightarrow> bool" where
  "free_run cs b n \<longleftrightarrow> b + n \<le> length cs \<and> list_all (\<lambda>i. cs ! i = -1) [b..<b + n]"

definition first_fit :: "int list \<Rightarrow> nat \<Rightarrow> nat \<Rightarrow> nat \<Rightarrow> nat option" where
  "first_fit cs n first last_frame = find (\<lambda>b. free_run cs b n) [first..<last_frame]"

lemma free_run_iff: "free_run cs b n \<longleftrightarrow> b + n \<le> length cs \<and> (\<forall>i. b \<le> i \<and> i < b + n \<longrightarrow> cs ! i = -1)"
  by (auto simp: free_run_def list_all_iff)

lemma scan_block_free:
  "b + i + k \<le> length cs \<Longrightarrow> (\<And>j. b + i \<le> j \<Longrightarrow> j < b + i + k \<Longrightarrow> cs ! j = -1) \<Longrightarrow> scan_block cs b i k = Inr None"
  by (induction k arbitrary: i) auto

lemma scan_block_taken:
  assumes "b + i \<le> t" "t < b + i + k" "t < length cs" "cs ! t \<noteq> -1"
  shows "\<exists>j. scan_block cs b i k = Inr (Some j) \<and> i \<le> j \<and> b + j \<le> t \<and> b + j < length cs \<and> cs ! (b + j) \<noteq> -1"
  using assms
proof (induction k arbitrary: i)
  case (Suc k)
  show ?case
  proof (cases "cs ! (b + i) = -1")
    case True
    with Suc.prems have "b + Suc i \<le> t" by (metis Suc_leI add_Suc_right le_neq_implies_less)
    with Suc.IH [of "Suc i"] Suc.prems True show ?thesis by fastforce
  qed (use Suc.prems in auto)
qed simp

text \<open>A block is free, or its scan stops at a taken page before its end.\<close>

lemma scan_block_cases:
  assumes "b + n \<le> length cs"
  obtains "free_run cs b n" "scan_block cs b 0 n = Inr None"
  | j where "\<not> free_run cs b n" "scan_block cs b 0 n = Inr (Some j)" "j < n" "b + j < length cs" "cs ! (b + j) \<noteq> -1"
proof (cases "free_run cs b n")
  case True
  then have "scan_block cs b 0 n = Inr None" by (intro scan_block_free) (auto simp: free_run_iff)
  with True show ?thesis using that(1) by blast
next
  case False
  then obtain t where "b \<le> t" "t < b + n" "cs ! t \<noteq> -1" using assms by (auto simp: free_run_iff)
  then show ?thesis using scan_block_taken [of b 0 t n cs] assms False that(2) by fastforce
qed

lemma free_run_avoids: "free_run cs c n \<Longrightarrow> cs ! t \<noteq> -1 \<Longrightarrow> c \<le> t \<Longrightarrow> c + n \<le> t"
  by (auto simp: free_run_iff not_less [symmetric])

lemma find_upt_skip:
  "(\<And>c. a \<le> c \<Longrightarrow> c < b \<Longrightarrow> \<not> P c) \<Longrightarrow> a \<le> b \<Longrightarrow> find P [a..<e] = find P [b..<e]"
proof (induction "b - a" arbitrary: a)
  case (Suc d)
  then have "find P [a..<e] = find P [Suc a..<e]"
    by (cases "a < e") (auto simp: upt_conv_Cons)
  also have "\<dots> = find P [b..<e]" using Suc by (intro Suc.hyps(1)) auto
  finally show ?case .
qed simp

lemma search_block_first_fit:
  assumes "0 < n" "last_frame + n \<le> length cs + 1"
  shows "search_block cs n last_frame block = Inr (first_fit cs n block last_frame)"
  using assms
proof (induction cs n last_frame block rule: search_block.induct)
  case (1 cs n last_frame block)
  show ?case
  proof (cases "block < last_frame")
    case True
    with "1.prems" have len: "block + n \<le> length cs" by simp
    then show ?thesis
    proof (cases rule: scan_block_cases)
      case 1
      with True show ?thesis by (subst search_block.simps) (simp add: first_fit_def upt_conv_Cons)
    next
      case (2 j)
      have "first_fit cs n block last_frame = first_fit cs n (block + j + 1) last_frame"
        unfolding first_fit_def
      proof (rule find_upt_skip)
        fix c assume "block \<le> c" "c < block + j + 1"
        with 2(3,5) free_run_avoids [of cs c n "block + j"] show "\<not> free_run cs c n" by auto
      qed simp
      with 2 True "1.IH" [OF True, of "Some j" j] "1.prems" show ?thesis
        by (subst search_block.simps) simp
    qed
  qed (simp add: search_block.simps first_fit_def)
qed

text \<open>When a free run starts before the end of the search, the search does not read past it.\<close>

lemma search_block_finds:
  assumes "0 < n" "free_run cs b n" "block \<le> b" "b < last_frame"
  shows "\<exists>b'. search_block cs n last_frame block = Inr (Some b') \<and> block \<le> b' \<and> b' \<le> b \<and> free_run cs b' n \<and>
    (\<forall>c. block \<le> c \<and> c < b' \<longrightarrow> \<not> free_run cs c n)"
  using assms
proof (induction cs n last_frame block rule: search_block.induct)
  case (1 cs n last_frame block)
  then have len: "block + n \<le> length cs" and lt: "block < last_frame" by (auto simp: free_run_iff)
  from len show ?case
  proof (cases rule: scan_block_cases)
    case 1
    with lt "1.prems" show ?thesis by (subst search_block.simps) auto
  next
    case (2 j)
    have skip: "\<not> free_run cs c n" if "block \<le> c" "c < block + j + 1" for c
      using that 2(3,5) free_run_avoids [of cs c n "block + j"] by auto
    with "1.prems" have "block + j + 1 \<le> b" by (metis not_less)
    with "1.IH" [OF lt, of "Some j" j] "1.prems" 2 obtain b' where b':
      "search_block cs n last_frame (block + j + 1) = Inr (Some b')" "block + j + 1 \<le> b'" "b' \<le> b" "free_run cs b' n"
      "\<forall>c. block + j + 1 \<le> c \<and> c < b' \<longrightarrow> \<not> free_run cs c n" by auto
    moreover have "\<not> free_run cs c n" if "block \<le> c" "c < b'" for c
      using skip [of c] b'(5) that by (cases "c < block + j + 1") auto
    ultimately show ?thesis using lt 2 by (subst search_block.simps) auto
  qed
qed

section \<open>Setting counters\<close>

definition fill :: "int \<Rightarrow> nat \<Rightarrow> nat \<Rightarrow> int list \<Rightarrow> int list" where
  "fill v b n cs = map (\<lambda>i. if b \<le> i \<and> i < b + n then v else cs ! i) [0..<length cs]"

lemma length_fill [simp]: "length (fill v b n cs) = length cs"
  by (simp add: fill_def)

lemma nth_fill [simp]: "i < length cs \<Longrightarrow> fill v b n cs ! i = (if b \<le> i \<and> i < b + n then v else cs ! i)"
  by (simp add: fill_def)

lemma fill_0 [simp]: "fill v b 0 cs = cs"
  by (rule nth_equalityI) auto

lemma fill_Suc: "b < length cs \<Longrightarrow> fill v (Suc b) n (cs[b := v]) = fill v b (Suc n) cs"
  by (rule nth_equalityI) (auto simp: nth_list_update)

lemma set_counts_fill: "b + i + n \<le> length cs \<Longrightarrow> set_counts v b i n cs = Inr (fill v (b + i) n cs)"
proof (induction n arbitrary: i cs)
  case (Suc n)
  then have "set_counts v b i (Suc n) cs = Inr (fill v (b + Suc i) n (cs[b + i := v]))"
    using Suc.IH [of "Suc i" "cs[b + i := v]"] by simp
  with Suc.prems fill_Suc [of "b + i" cs v n] show ?case by simp
qed simp

lemma fill_undo: "free_run cs b n \<Longrightarrow> fill (-1) b n (fill 0 b n cs) = cs"
  by (rule nth_equalityI) (auto simp: free_run_iff)

section \<open>The books of the zones\<close>

definition zone_pages :: "zone \<Rightarrow> nat set" where
  "zone_pages z = {zone_mem_map z..<zone_mem_map z + zone_size z}"

definition free_in :: "int list \<Rightarrow> zone \<Rightarrow> nat set" where
  "free_in cs z = {i \<in> zone_pages z. cs ! i = -1}"

definition zone_ok :: "int list \<Rightarrow> zone \<Rightarrow> bool" where
  "zone_ok cs z \<longleftrightarrow> zone_start_pfn z = zone_mem_map z \<and> zone_mem_map z + zone_size z \<le> length cs \<and>
     zone_free z = card (free_in cs z)"

definition pmm_inv :: "pmm \<Rightarrow> bool" where
  "pmm_inv p \<longleftrightarrow> length (node_zones p) = 2 \<and> length (mem_map p) \<le> 2 ^ 20 \<and>
     (\<forall>k<2. zone_ok (mem_map p) (node_zones p ! k)) \<and>
     zone_mem_map (node_zones p ! 0) + zone_size (node_zones p ! 0) \<le> zone_mem_map (node_zones p ! 1)"

lemma card_zone_pages [simp]: "card (zone_pages z) = zone_size z"
  by (simp add: zone_pages_def)

lemma finite_free_in [simp]: "finite (free_in cs z)"
  by (simp add: free_in_def zone_pages_def)

lemma card_free_in_le: "card (free_in cs z) \<le> zone_size z"
proof -
  have "card (free_in cs z) \<le> card (zone_pages z)"
    by (rule card_mono) (auto simp: free_in_def zone_pages_def)
  then show ?thesis by (simp add: zone_pages_def)
qed

text \<open>A run of the zone that changes hands moves as many pages between the free ones and the others.\<close>

lemma free_in_take:
  assumes "{b..<b + n} \<subseteq> zone_pages z" "zone_mem_map z + zone_size z \<le> length cs" "free_run cs b n"
  shows "card (free_in (fill 0 b n cs) z) + n = card (free_in cs z)"
proof -
  have bs: "{b..<b + n} \<subseteq> free_in cs z" using assms(1,3) by (auto simp: free_in_def free_run_iff)
  have "free_in (fill 0 b n cs) z = free_in cs z - {b..<b + n}"
    using assms(1,2) by (auto simp: free_in_def zone_pages_def split: if_splits)
  moreover have "card (free_in cs z - {b..<b + n}) = card (free_in cs z) - n"
    using bs by (subst card_Diff_subset) auto
  moreover have "n \<le> card (free_in cs z)"
    using card_mono [OF finite_free_in bs] by simp
  ultimately show ?thesis by simp
qed

lemma free_in_other:
  assumes "{b..<b + n} \<inter> zone_pages z = {}" "zone_mem_map z + zone_size z \<le> length cs"
  shows "free_in (fill v b n cs) z = free_in cs z"
  using assms by (fastforce simp: free_in_def zone_pages_def)

text \<open>Which zone a page belongs to.\<close>

lemma pmm_inv_zones:
  assumes "pmm_inv p" "k < 2"
  shows "zone_ok (mem_map p) (node_zones p ! k)" "k < length (node_zones p)"
  using assms by (auto simp: pmm_inv_def)

lemma two_list: "length zs = 2 \<Longrightarrow> zs = [zs ! 0, zs ! 1]"
  by (cases zs; cases "tl zs") auto

lemma get_zone_from_page_in:
  assumes "pmm_inv p" "k < 2" "b \<in> zone_pages (node_zones p ! k)"
  shows "get_zone_from_page b p = Some k"
proof -
  obtain z0 z1 where zs: "node_zones p = [z0, z1]"
    using assms(1) two_list [of "node_zones p"] by (auto simp: pmm_inv_def)
  from assms(2) have "k = 0 \<or> k = 1" by auto
  with assms(1,3) zs show ?thesis
    by (auto simp: get_zone_from_page_def zone_pages_def pmm_inv_def)
qed

lemma other_zone_disjoint:
  assumes "pmm_inv p" "k < 2" "j < 2" "j \<noteq> k"
  shows "zone_pages (node_zones p ! k) \<inter> zone_pages (node_zones p ! j) = {}"
proof -
  from assms(2-4) have "(k = 0 \<and> j = 1) \<or> (k = 1 \<and> j = 0)" by auto
  with assms(1) show ?thesis by (auto simp: pmm_inv_def zone_pages_def)
qed

text \<open>The state after the pages from \<open>b\<close> of zone \<open>k\<close> are set to \<open>v\<close> and \<open>m\<close> pages of it are free.\<close>

definition mark :: "nat \<Rightarrow> int \<Rightarrow> nat \<Rightarrow> nat \<Rightarrow> nat \<Rightarrow> pmm \<Rightarrow> pmm" where
  "mark k v b n m p = p\<lparr>mem_map := fill v b n (mem_map p),
     node_zones := (node_zones p)[k := (node_zones p ! k)\<lparr>zone_free := m\<rparr>]\<rparr>"

lemma zone_upd:
  assumes "k < length zs"
  shows "zone_mem_map (zs[k := (zs ! k)\<lparr>zone_free := m\<rparr>] ! j) = zone_mem_map (zs ! j)"
    and "zone_size (zs[k := (zs ! k)\<lparr>zone_free := m\<rparr>] ! j) = zone_size (zs ! j)"
  using assms by (cases "j = k", simp, simp)+

lemma mark_inv:
  assumes "pmm_inv p" "k < 2" "{b..<b + n} \<subseteq> zone_pages (node_zones p ! k)"
    and "m = card (free_in (fill v b n (mem_map p)) (node_zones p ! k))"
  shows "pmm_inv (mark k v b n m p)"
proof -
  have "zone_ok (fill v b n (mem_map p)) ((node_zones p)[k := (node_zones p ! k)\<lparr>zone_free := m\<rparr>] ! j)" if "j < 2" for j
  proof (cases "j = k")
    case True
    with assms pmm_inv_zones [OF assms(1,2)] show ?thesis
      by (auto simp: zone_ok_def free_in_def zone_pages_def)
  next
    case False
    have "{b..<b + n} \<inter> zone_pages (node_zones p ! j) = {}"
      using other_zone_disjoint [OF assms(1,2) that False] assms(3) by auto
    with False pmm_inv_zones [OF assms(1) that] show ?thesis
      using free_in_other [of b n "node_zones p ! j" "mem_map p" v] by (auto simp: zone_ok_def)
  qed
  then show ?thesis
    using assms(1) zone_upd [OF pmm_inv_zones(2) [OF assms(1,2)]] by (simp add: pmm_inv_def mark_def)
qed

section \<open>Allocation and release\<close>

lemma gfp_zone [simp]: "get_zone_from_flags GFP_KERNEL = Some 0" "get_zone_from_flags GFP_HIGHUSER = Some 1"
  by (simp_all add: get_zone_from_flags_def gfp_defs)

lemma gfp_zone_lt: "get_zone_from_flags g = Some k \<Longrightarrow> k < 2"
  by (auto simp: get_zone_from_flags_def split: if_splits)

lemma alloc_pages_in_zone:
  assumes inv: "pmm_inv p" and k: "get_zone_from_flags g = Some k" and order: "order \<le> 10"
    and run: "free_run (mem_map p) b (2 ^ order)" "{b..<b + 2 ^ order} \<subseteq> zone_pages (node_zones p ! k)"
  obtains b' where "alloc_pages g order p =
      Inr (b' * 4096, mark k 0 b' (2 ^ order) (zone_free (node_zones p ! k) - 2 ^ order) p)"
    "b' \<le> b" "free_run (mem_map p) b' (2 ^ order)" "{b'..<b' + 2 ^ order} \<subseteq> zone_pages (node_zones p ! k)"
    "\<And>c. zone_mem_map (node_zones p ! k) \<le> c \<Longrightarrow> c < b' \<Longrightarrow> \<not> free_run (mem_map p) c (2 ^ order)"
    "2 ^ order \<le> zone_free (node_zones p ! k)"
    "pmm_inv (mark k 0 b' (2 ^ order) (zone_free (node_zones p ! k) - 2 ^ order) p)"
proof -
  let ?z = "node_zones p ! k" and ?n = "2 ^ order :: nat"
  have k2: "k < 2" using gfp_zone_lt [OF k] .
  note z = pmm_inv_zones [OF inv k2]
  have pos: "0 < ?n" by simp
  have sub: "zone_mem_map ?z \<le> b" "b + ?n \<le> zone_mem_map ?z + zone_size ?z"
    using run(2) pos by (auto simp: zone_pages_def)
  have "order < ?n" by (rule less_exp)
  with sub have lt: "b < zone_mem_map ?z + zone_size ?z + 1 - order" by linarith
  obtain b' where b': "search_block (mem_map p) ?n (zone_mem_map ?z + zone_size ?z + 1 - order) (zone_mem_map ?z) = Inr (Some b')"
    "zone_mem_map ?z \<le> b'" "b' \<le> b" "free_run (mem_map p) b' ?n"
    "\<forall>c. zone_mem_map ?z \<le> c \<and> c < b' \<longrightarrow> \<not> free_run (mem_map p) c ?n"
    using search_block_finds [OF pos run(1) sub(1) lt] by auto
  have sub': "{b'..<b' + ?n} \<subseteq> zone_pages ?z" using b'(2,3) sub(2) by (auto simp: zone_pages_def)
  have len: "b' + ?n \<le> length (mem_map p)" using b'(4) by (simp add: free_run_iff)
  have taken: "card (free_in (fill 0 b' ?n (mem_map p)) ?z) + ?n = zone_free ?z"
    using free_in_take [OF sub' _ b'(4)] z(1) by (simp add: zone_ok_def)
  have "zone_free ?z \<le> zone_size ?z" "zone_size ?z \<le> 2 ^ 20"
    using z(1) card_free_in_le inv by (auto simp: zone_ok_def pmm_inv_def)
  then have small: "u32n (zone_free ?z + 2 ^ 32 - ?n) = zone_free ?z - ?n"
    using taken by (intro u32n_sub) (linarith, simp)
  have "b' < 2 ^ 20" using len inv pos unfolding pmm_inv_def by linarith
  then have adr: "u32n (b' * PAGE_SIZE) = b' * 4096" by (simp add: u32n_def PAGE_SIZE_def)
  have step: "alloc_pages g order p = Inr (b' * 4096, mark k 0 b' ?n (zone_free ?z - ?n) p)"
    using z b'(1,2) len order adr small k
    by (simp add: alloc_pages_def Let_def MAX_ORDER_def set_counts_fill zone_ok_def mark_def)
  have "pmm_inv (mark k 0 b' ?n (zone_free ?z - ?n) p)"
    using taken by (intro mark_inv [OF inv k2 sub']) simp
  then show thesis using that [OF step b'(3,4) sub'] b'(5) taken by auto
qed

lemma free_pages_in_zone:
  assumes inv: "pmm_inv p" and k: "k < 2" and sub: "{b..<b + 2 ^ order} \<subseteq> zone_pages (node_zones p ! k)"
    and small: "zone_free (node_zones p ! k) + 2 ^ order < 2 ^ 32"
  shows "free_pages (b * 4096) order p = Inr (mark k (-1) b (2 ^ order) (zone_free (node_zones p ! k) + 2 ^ order) p)"
proof -
  have pos: "(0::nat) < 2 ^ order" by simp
  have "b \<in> zone_pages (node_zones p ! k)" using sub pos by auto
  note zone = get_zone_from_page_in [OF inv k this]
  have "b + 2 ^ order \<le> length (mem_map p)"
    using sub pos pmm_inv_zones [OF inv k] by (auto simp: zone_pages_def zone_ok_def)
  with zone pmm_inv_zones [OF inv k] small show ?thesis
    by (simp add: free_pages_def PAGE_SIZE_def set_counts_fill mark_def u32n_def)
qed

lemma mark_undo:
  assumes "pmm_inv p" "k < 2" "free_run (mem_map p) b n"
  shows "mark k (-1) b n (zone_free (node_zones p ! k)) (mark k 0 b n m p) = p"
  using assms pmm_inv_zones(2) [OF assms(1,2)] by (simp add: mark_def fill_undo)

section \<open>The self-test\<close>

text \<open>
  \<open>clean_from c p k\<close>: in zone \<open>k\<close> exactly the pages from the \<open>c\<close>-th on are free. \<open>busy p k l r\<close>: the
  memory \<open>p\<close> after its pages \<open>l\<close> to \<open>r\<close> of zone \<open>k\<close> have been taken.
\<close>

definition clean_from :: "nat \<Rightarrow> pmm \<Rightarrow> nat \<Rightarrow> bool" where
  "clean_from c p k \<longleftrightarrow> c \<le> zone_size (node_zones p ! k) \<and>
     free_run (mem_map p) (zone_mem_map (node_zones p ! k) + c) (zone_size (node_zones p ! k) - c) \<and>
     list_all (\<lambda>i. mem_map p ! (zone_mem_map (node_zones p ! k) + i) \<noteq> -1) [0..<c]"

definition busy :: "pmm \<Rightarrow> nat \<Rightarrow> nat \<Rightarrow> nat \<Rightarrow> pmm" where
  "busy p k l r = mark k 0 (zone_mem_map (node_zones p ! k) + l) (r - l) (zone_free (node_zones p ! k) - (r - l)) p"

lemma clean_from_page:
  assumes "clean_from c p k" "zone_mem_map (node_zones p ! k) \<le> i" "i < zone_mem_map (node_zones p ! k) + zone_size (node_zones p ! k)"
  shows "mem_map p ! i = -1 \<longleftrightarrow> zone_mem_map (node_zones p ! k) + c \<le> i"
proof (cases "zone_mem_map (node_zones p ! k) + c \<le> i")
  case True
  with assms show ?thesis by (auto simp: clean_from_def free_run_iff)
next
  case False
  then have "i - zone_mem_map (node_zones p ! k) < c" using assms(2) by linarith
  moreover have "\<forall>j<c. mem_map p ! (zone_mem_map (node_zones p ! k) + j) \<noteq> -1"
    using assms(1) by (simp add: clean_from_def list_all_iff)
  ultimately have "mem_map p ! (zone_mem_map (node_zones p ! k) + (i - zone_mem_map (node_zones p ! k))) \<noteq> -1" by blast
  with False assms(2) show ?thesis by simp
qed

lemma clean_from_free:
  assumes "pmm_inv p" "k < 2" "clean_from c p k"
  shows "zone_free (node_zones p ! k) = zone_size (node_zones p ! k) - c"
proof -
  let ?z = "node_zones p ! k"
  have "free_in (mem_map p) ?z = {zone_mem_map ?z + c..<zone_mem_map ?z + zone_size ?z}"
    using clean_from_page [OF assms(3)] by (auto simp: free_in_def zone_pages_def)
  with pmm_inv_zones(1) [OF assms(1,2)] show ?thesis by (simp add: zone_ok_def)
qed

lemma free_run_sub: "free_run cs b n \<Longrightarrow> b \<le> c \<Longrightarrow> c + m \<le> b + n \<Longrightarrow> free_run cs c m"
  by (auto simp: free_run_iff)

lemma busy_inv:
  assumes "pmm_inv p" "k < 2" "clean_from c p k" "c \<le> l" "l \<le> r" "r \<le> zone_size (node_zones p ! k)"
  shows "pmm_inv (busy p k l r)"
proof -
  let ?z = "node_zones p ! k"
  let ?b = "zone_mem_map ?z + l"
  have sub: "{?b..<?b + (r - l)} \<subseteq> zone_pages ?z" using assms(5,6) by (auto simp: zone_pages_def)
  have "free_run (mem_map p) ?b (r - l)"
    by (rule free_run_sub [of "mem_map p" "zone_mem_map ?z + c" "zone_size ?z - c"])
      (use assms(3-6) in \<open>auto simp: clean_from_def\<close>)
  from free_in_take [OF sub _ this] pmm_inv_zones(1) [OF assms(1,2)]
  have "zone_free ?z - (r - l) = card (free_in (fill 0 ?b (r - l) (mem_map p)) ?z)" by (simp add: zone_ok_def)
  then show ?thesis unfolding busy_def by (rule mark_inv [OF assms(1,2) sub])
qed

lemma busy_empty [simp]: "busy p k l l = p"
  by (simp add: busy_def mark_def)

lemma busy_zone:
  assumes "pmm_inv p" "k < 2"
  shows "node_zones (busy p k l r) ! k = (node_zones p ! k)\<lparr>zone_free := zone_free (node_zones p ! k) - (r - l)\<rparr>"
  using pmm_inv_zones(2) [OF assms] by (simp add: busy_def mark_def)

lemma busy_map:
  "mem_map (busy p k l r) = fill 0 (zone_mem_map (node_zones p ! k) + l) (r - l) (mem_map p)"
  by (simp add: busy_def mark_def)

lemma busy_clean_from:
  assumes "pmm_inv p" "k < 2" "clean_from c p k" "c \<le> r" "r \<le> zone_size (node_zones p ! k)"
  shows "clean_from r (busy p k c r) k"
proof -
  have "zone_mem_map (node_zones p ! k) + zone_size (node_zones p ! k) \<le> length (mem_map p)"
    using pmm_inv_zones(1) [OF assms(1,2)] by (simp add: zone_ok_def)
  moreover have "mem_map p ! (zone_mem_map (node_zones p ! k) + i) \<noteq> -1" if "i < c" for i
    using clean_from_page [OF assms(3), of "zone_mem_map (node_zones p ! k) + i"] that assms(4,5) by simp
  ultimately show ?thesis
    using assms(3-5) unfolding clean_from_def busy_zone [OF assms(1,2)] busy_map
    by (auto simp: free_run_iff list_all_iff)
qed

lemma alloc_clean:
  assumes "pmm_inv p" "get_zone_from_flags g = Some k" "clean_from c p k" "order \<le> 10"
    and "c + 2 ^ order \<le> zone_size (node_zones p ! k)"
  shows "alloc_pages g order p = Inr ((zone_mem_map (node_zones p ! k) + c) * 4096, busy p k c (c + 2 ^ order))"
proof -
  let ?z = "node_zones p ! k" and ?n = "2 ^ order :: nat"
  let ?b = "zone_mem_map ?z + c"
  have run: "free_run (mem_map p) ?b ?n"
    by (rule free_run_sub [of "mem_map p" ?b "zone_size ?z - c"]) (use assms(3,5) in \<open>auto simp: clean_from_def\<close>)
  have sub: "{?b..<?b + ?n} \<subseteq> zone_pages ?z" using assms(5) by (auto simp: zone_pages_def)
  obtain b' where b': "alloc_pages g order p = Inr (b' * 4096, mark k 0 b' ?n (zone_free ?z - ?n) p)"
    "b' \<le> ?b" "free_run (mem_map p) b' ?n" "{b'..<b' + ?n} \<subseteq> zone_pages ?z"
    using alloc_pages_in_zone [OF assms(1,2,4) run sub] by metis
  have "b' \<in> zone_pages ?z" using b'(4) by auto
  moreover have "mem_map p ! b' = -1" using b'(3) by (simp add: free_run_iff)
  ultimately have "b' = ?b" using clean_from_page [OF assms(3), of b'] b'(2) by (simp add: zone_pages_def)
  with b'(1) show ?thesis by (simp add: busy_def)
qed

lemma free_busy:
  assumes "pmm_inv p" "k < 2" "clean_from c p k" "c \<le> l" "l + 2 ^ order \<le> r" "r \<le> zone_size (node_zones p ! k)"
  shows "free_pages ((zone_mem_map (node_zones p ! k) + l) * 4096) order (busy p k l r) = Inr (busy p k (l + 2 ^ order) r)"
proof -
  let ?z = "node_zones p ! k" and ?n = "2 ^ order :: nat"
  let ?b = "zone_mem_map ?z + l"
  note bz = busy_zone [OF assms(1,2), of l r]
  note zf = clean_from_free [OF assms(1-3)]
  have inv: "pmm_inv (busy p k l r)" using busy_inv [OF assms(1-4)] assms(5,6) by simp
  have len: "zone_mem_map ?z + zone_size ?z \<le> length (mem_map p)" "length (mem_map p) \<le> 2 ^ 20"
    using pmm_inv_zones(1) [OF assms(1,2)] assms(1) by (auto simp: zone_ok_def pmm_inv_def)
  have sub: "{?b..<?b + ?n} \<subseteq> zone_pages (node_zones (busy p k l r) ! k)"
    using assms(5,6) by (auto simp: bz zone_pages_def)
  have "zone_free ?z - (r - l) + ?n \<le> 2 ^ 20 + 2 ^ 20" using assms(5,6) len zf by linarith
  then have "zone_free ?z - (r - l) + ?n < 2 ^ 32" by simp
  with free_pages_in_zone [OF inv assms(2) sub] bz
  have step: "free_pages (?b * 4096) order (busy p k l r) =
      Inr (mark k (-1) ?b ?n (zone_free ?z - (r - l) + ?n) (busy p k l r))" by simp
  have "mem_map p ! i = -1" if "?b \<le> i" "i < ?b + ?n" for i
    using clean_from_page [OF assms(3), of i] that assms(4-6) by simp
  then have "fill (-1) ?b ?n (fill 0 ?b (r - l) (mem_map p)) = fill 0 (?b + ?n) (r - l - ?n) (mem_map p)"
    using assms(5) by (intro nth_equalityI) auto
  moreover have "zone_free ?z - (r - l) + ?n = zone_free ?z - (r - (l + ?n))" using assms(4-6) zf by linarith
  ultimately have "mark k (-1) ?b ?n (zone_free ?z - (r - l) + ?n) (busy p k l r) = busy p k (l + ?n) r"
    using pmm_inv_zones(2) [OF assms(1,2)] by (simp add: busy_def mark_def add.assoc)
  with step show ?thesis by simp
qed

lemma busy_busy:
  assumes "pmm_inv p" "k < 2" "c \<le> d" "d \<le> e"
  shows "busy (busy p k c d) k d e = busy p k c e"
proof -
  have "fill 0 (b + d) (e - d) (fill 0 (b + c) (d - c) cs) = fill 0 (b + c) (e - c) cs" for b cs
    using assms(3,4) by (intro nth_equalityI) auto
  then show ?thesis
    using assms pmm_inv_zones(2) [OF assms(1,2)] by (simp add: busy_def mark_def)
qed

text \<open>The pages a list of orders asks for.\<close>

abbreviation pages_of :: "nat list \<Rightarrow> nat" where
  "pages_of os \<equiv> sum_list (map (\<lambda>order. 2 ^ order) os)"

fun block_addrs :: "nat \<Rightarrow> nat list \<Rightarrow> nat list" where
  "block_addrs b [] = []"
| "block_addrs b (order # os) = b * 4096 # block_addrs (b + 2 ^ order) os"

lemma alloc_all_clean:
  "pmm_inv p \<Longrightarrow> get_zone_from_flags g = Some k \<Longrightarrow> clean_from c p k \<Longrightarrow>
    c + pages_of os \<le> zone_size (node_zones p ! k) \<Longrightarrow> \<forall>order\<in>set os. order \<le> 10 \<Longrightarrow>
    alloc_all g os p = Inr (block_addrs (zone_mem_map (node_zones p ! k) + c) os, busy p k c (c + pages_of os))"
proof (induction os arbitrary: p c)
  case (Cons order os)
  have k2: "k < 2" using gfp_zone_lt [OF Cons.prems(2)] .
  let ?q = "busy p k c (c + 2 ^ order)"
  have "pmm_inv ?q" "clean_from (c + 2 ^ order) ?q k"
    using busy_inv [OF Cons.prems(1) k2 Cons.prems(3)] busy_clean_from [OF Cons.prems(1) k2 Cons.prems(3)] Cons.prems(4) by auto
  with Cons.IH [of ?q "c + 2 ^ order"] Cons.prems busy_zone [OF Cons.prems(1) k2]
  have "alloc_all g os ?q = Inr (block_addrs (zone_mem_map (node_zones p ! k) + (c + 2 ^ order)) os,
      busy ?q k (c + 2 ^ order) (c + 2 ^ order + pages_of os))" by simp
  moreover have "busy ?q k (c + 2 ^ order) (c + 2 ^ order + pages_of os) = busy p k c (c + (2 ^ order + pages_of os))"
    using busy_busy [OF Cons.prems(1) k2] by (simp add: add.assoc)
  ultimately show ?case
    using alloc_clean [OF Cons.prems(1-3), of order] Cons.prems(4,5) by (simp add: add.assoc)
qed simp

lemma free_all_busy:
  assumes "pmm_inv p" "k < 2" "clean_from c p k" "e \<le> zone_size (node_zones p ! k)"
  shows "c \<le> l \<Longrightarrow> l + pages_of os \<le> e \<Longrightarrow>
    free_all (zip (block_addrs (zone_mem_map (node_zones p ! k) + l) os) os) (busy p k l e) = Inr (busy p k (l + pages_of os) e)"
proof (induction os arbitrary: l)
  case (Cons order os)
  with free_busy [OF assms(1-3) _ _ assms(4), of l order] Cons.IH [of "l + 2 ^ order"] show ?case
    by (simp add: add.assoc)
qed simp

lemma alloc_free_all:
  assumes "pmm_inv p" "get_zone_from_flags g = Some k" "clean_from c p k"
    and "c + pages_of os \<le> zone_size (node_zones p ! k)" "\<forall>order\<in>set os. order \<le> 10"
  obtains as q where "alloc_all g os p = Inr (as, q)" "free_all (zip as os) q = Inr p"
  using alloc_all_clean [OF assms] free_all_busy [OF assms(1) gfp_zone_lt [OF assms(2)] assms(3,4), of c os] assms(4)
  by simp

lemma counts_free_run: "free_run cs b n \<Longrightarrow> counts_free cs b n = Inr True"
proof (induction n arbitrary: b)
  case (Suc n)
  then have "free_run cs (Suc b) n" "b < length cs" "cs ! b = -1" by (auto simp: free_run_iff)
  with Suc.IH show ?case by simp
qed simp

lemma is_memory_clean_0:
  assumes "pmm_inv p" "get_zone_from_flags g = Some k" "clean_from 0 p k"
  shows "is_memory_clean g p = Inr True"
  using assms(2,3) pmm_inv_zones(2) [OF assms(1) gfp_zone_lt [OF assms(2)]]
  by (simp add: is_memory_clean_def clean_from_def counts_free_run)

lemma check_step_clean:
  assumes "pmm_inv p" "get_zone_from_flags g = Some k" "clean_from 0 p k"
    and "pages_of os \<le> zone_size (node_zones p ! k)" "\<forall>order\<in>set os. order \<le> 10"
  shows "check_step g os p = Inr (True, p)"
proof -
  obtain as q where "alloc_all g os p = Inr (as, q)" "free_all (zip as os) q = Inr p"
    using alloc_free_all [OF assms(1-3), of os] assms(4,5) by auto
  with is_memory_clean_0 [OF assms(1-3)] show ?thesis by (simp add: check_step_def)
qed

lemma alloc_free_page:
  assumes "pmm_inv p" "get_zone_from_flags g = Some k" "clean_from 0 p k" "1 \<le> zone_size (node_zones p ! k)"
  shows "alloc_page g p = Inr (zone_mem_map (node_zones p ! k) * 4096, busy p k 0 1)"
    and "free_page (zone_mem_map (node_zones p ! k) * 4096) (busy p k 0 1) = Inr p"
  using alloc_clean [OF assms(1-3), of 0] free_busy [OF assms(1) gfp_zone_lt [OF assms(2)] assms(3), of 0 0 1] assms(4)
  by (simp_all add: alloc_page_def free_page_def)

text \<open>
  The mixed step: the page for the addresses is the first of the zone, which is the page of the
  first step, so that the second release of that page gives it back.
\<close>

lemma check_mixed_clean:
  assumes "pmm_inv p" "clean_from 0 p 0" "66 \<le> zone_size (node_zones p ! 0)"
  shows "check_mixed (zone_mem_map (node_zones p ! 0) * 4096) p = Inr (True, p)"
proof -
  let ?q = "busy p 0 0 1" and ?os = "replicate 5 0 @ replicate 15 2 :: nat list"
  have q: "pmm_inv ?q" "clean_from 1 ?q 0"
    using busy_inv [OF assms(1) _ assms(2)] busy_clean_from [OF assms(1) _ assms(2)] assms(3) by auto
  have "pages_of ?os = 65" by (simp add: sum_list_replicate)
  moreover have "zone_size (node_zones ?q ! 0) = zone_size (node_zones p ! 0)"
    using busy_zone [OF assms(1), of 0] by simp
  ultimately obtain as r where af: "alloc_all GFP_KERNEL ?os ?q = Inr (as, r)" "free_all (zip as ?os) r = Inr ?q"
    using alloc_free_all [OF q(1) gfp_zone(1) q(2), of ?os] assms(3) by auto
  note one = alloc_free_page [OF assms(1) gfp_zone(1) assms(2)]
  show ?thesis
    unfolding check_mixed_def Let_def
    using af one is_memory_clean_0 [OF assms(1) gfp_zone(1) assms(2)] assms(3) by (simp)
qed

lemma pmm_check_clean:
  assumes "pmm_inv p" "clean_from 0 p 0" "clean_from 0 p 1"
    and "66 \<le> zone_size (node_zones p ! 0)" "31 \<le> zone_size (node_zones p ! 1)"
  shows "pmm_check p = Inr (True, p)"
proof -
  note k = assms(1) gfp_zone(1) assms(2) and u = assms(1) gfp_zone(2) assms(3)
  have "check_step GFP_HIGHUSER (replicate 5 0) p = Inr (True, p)"
    using assms(5) by (intro check_step_clean [OF u]) (auto simp: sum_list_replicate)
  moreover have "check_step GFP_KERNEL [3] p = Inr (True, p)"
    using assms(4) by (intro check_step_clean [OF k]) auto
  moreover have "check_step GFP_HIGHUSER [0, 1, 2, 3, 4] p = Inr (True, p)"
    using assms(5) by (intro check_step_clean [OF u]) auto
  ultimately show ?thesis
    using alloc_free_page [OF k] is_memory_clean_0 [OF k] check_mixed_clean [OF assms(1,2,4)] assms(4)
    by (simp add: pmm_check_def andR_def)
qed

section \<open>Boot\<close>

lemma max_order_align_eq:
  assumes "a < 2 ^ 32"
  shows "max_order_align a = u32n (a div 0x400000 * 0x400000 + 0x400000)"
  using assms by (simp add: max_order_align_def page_mask unat_and_not_mask nat_round_down take_bit_nat_eq_self unat_of_nat)

lemma max_order_align_dvd:
  assumes "a < 2 ^ 32"
  shows "0x400000 dvd max_order_align a" "max_order_align a < 2 ^ 32"
proof -
  have "(0x400000 :: nat) dvd a div 0x400000 * 0x400000 + 0x400000" by simp
  moreover have "(0x400000 :: nat) dvd 2 ^ 32" by (rule dvdI [of _ _ 1024]) simp
  ultimately show "0x400000 dvd max_order_align a"
    unfolding max_order_align_eq [OF assms] u32n_def by (rule dvd_mod)
qed (simp add: max_order_align_def u32n_def)

lemma zone_init_aligned:
  assumes "a < b" "b < 2 ^ 32" "4096 dvd a" "4096 dvd b"
  shows "zone_init name a b = Inr \<lparr>zone_free = (b - a) div 4096, zone_mem_map = a div 4096, zone_start_pfn = a div 4096,
    zone_name = name, zone_size = (b - a) div 4096\<rparr>"
proof -
  have "unat ((of_nat x :: u32) AND 0xFFFFF000) = x" if "x < 2 ^ 32" "4096 dvd x" for x
    using that by (simp add: page_mask unat_and_not_mask unat_of_nat)
  with assms show ?thesis by (simp add: zone_init_def Let_def PAGE_SIZE_def)
qed

definition boot_zone :: "string \<Rightarrow> nat \<Rightarrow> nat \<Rightarrow> zone" where
  "boot_zone name a b = \<lparr>zone_free = (b - a) div 4096, zone_mem_map = a div 4096, zone_start_pfn = a div 4096,
     zone_name = name, zone_size = (b - a) div 4096\<rparr>"

lemma boot_zone_sel [simp]:
  "zone_free (boot_zone name a b) = (b - a) div 4096" "zone_mem_map (boot_zone name a b) = a div 4096"
  "zone_start_pfn (boot_zone name a b) = a div 4096" "zone_size (boot_zone name a b) = (b - a) div 4096"
  by (simp_all add: boot_zone_def)

lemma boot_zone_end: "a \<le> b \<Longrightarrow> 4096 dvd a \<Longrightarrow> 4096 dvd b \<Longrightarrow> a div 4096 + (b - a) div 4096 = b div (4096 :: nat)"
  by (auto elim!: dvdE)

lemma boot_memory_clean:
  assumes "a < b" "b < c" "c < 2 ^ 32" "0x400000 dvd a" "0x400000 dvd b" "0x400000 dvd c"
  shows "pmm_check \<lparr>mem_map = replicate (c div 4096) (-1), node_zones = [boot_zone m a b, boot_zone n b c]\<rparr> =
    Inr (True, \<lparr>mem_map = replicate (c div 4096) (-1), node_zones = [boot_zone m a b, boot_zone n b c]\<rparr>)"
proof -
  let ?p = "\<lparr>mem_map = replicate (c div 4096) (-1), node_zones = [boot_zone m a b, boot_zone n b c]\<rparr>"
  have d: "4096 dvd a" "4096 dvd b" "4096 dvd c"
    using assms(4-6) dvd_trans [of 4096 "0x400000 :: nat"] by (auto simp: dvd_def)
  note e = boot_zone_end [OF less_imp_le [OF assms(1)] d(1,2)] boot_zone_end [OF less_imp_le [OF assms(2)] d(2,3)]
  have le: "b div 4096 \<le> c div 4096" "c div 4096 \<le> 2 ^ 20" using assms(2,3) by auto
  have fi: "free_in (replicate (c div 4096) (-1)) z = zone_pages z" if "zone_mem_map z + zone_size z \<le> c div 4096" for z
    using that by (auto simp: free_in_def zone_pages_def)
  have "pmm_inv ?p" using e le fi by (simp add: pmm_inv_def all_less_small zone_ok_def)
  moreover have "clean_from 0 ?p 0" "clean_from 0 ?p 1" using e le by (auto simp: clean_from_def free_run_iff)
  moreover have "1024 \<le> (b - a) div 4096" "1024 \<le> (c - b) div 4096"
    using assms by (auto elim!: dvdE)
  ultimately show ?thesis by (intro pmm_check_clean) auto
qed

lemma alloc_pages_round:
  assumes "pmm_inv p" "get_zone_from_flags g = Some k" "order \<le> 10"
    and "free_run (mem_map p) b (2 ^ order)" "{b..<b + 2 ^ order} \<subseteq> zone_pages (node_zones p ! k)"
  shows "\<exists>b' p'. alloc_pages g order p = Inr (b' * 4096, p') \<and> b' \<le> b \<and>
    {b'..<b' + 2 ^ order} \<subseteq> zone_pages (node_zones p ! k) \<and>
    free_run (mem_map p) b' (2 ^ order) \<and> mem_map p' = fill 0 b' (2 ^ order) (mem_map p) \<and>
    (\<forall>c. zone_mem_map (node_zones p ! k) \<le> c \<and> c < b' \<longrightarrow> \<not> free_run (mem_map p) c (2 ^ order)) \<and>
    pmm_inv p' \<and> free_pages (b' * 4096) order p' = Inr p"
proof -
  let ?z = "node_zones p ! k" and ?n = "2 ^ order :: nat"
  have k2: "k < 2" using gfp_zone_lt [OF assms(2)] .
  obtain b' where b': "alloc_pages g order p = Inr (b' * 4096, mark k 0 b' ?n (zone_free ?z - ?n) p)"
    "b' \<le> b" "free_run (mem_map p) b' ?n" "{b'..<b' + ?n} \<subseteq> zone_pages ?z"
    "\<And>c. zone_mem_map ?z \<le> c \<Longrightarrow> c < b' \<Longrightarrow> \<not> free_run (mem_map p) c ?n"
    "?n \<le> zone_free ?z" "pmm_inv (mark k 0 b' ?n (zone_free ?z - ?n) p)"
    using alloc_pages_in_zone [OF assms] by metis
  let ?q = "mark k 0 b' ?n (zone_free ?z - ?n) p"
  have qz: "node_zones ?q ! k = ?z\<lparr>zone_free := zone_free ?z - ?n\<rparr>"
    using pmm_inv_zones(2) [OF assms(1) k2] by (simp add: mark_def)
  have "zone_free ?z \<le> 2 ^ 20"
    using pmm_inv_zones(1) [OF assms(1) k2] card_free_in_le [of "mem_map p" ?z] assms(1)
    by (auto simp: zone_ok_def pmm_inv_def)
  with free_pages_in_zone [OF b'(7) k2, of b' order] b'(4,6) qz
  have "free_pages (b' * 4096) order ?q = Inr (mark k (-1) b' ?n (zone_free ?z) ?q)" by (simp add: zone_pages_def)
  with mark_undo [OF assms(1) k2 b'(3)] have "free_pages (b' * 4096) order ?q = Inr p" by simp
  moreover have "mem_map ?q = fill 0 b' ?n (mem_map p)" by (simp add: mark_def)
  ultimately show ?thesis using b' by blast
qed

section \<open>Properties\<close>

text \<open>
  The search of \<open>__alloc_pages\<close>, which restarts behind the first taken page it meets, finds the
  same block as the plain first-fit search that tries every position, and ends; it stays inside
  \<open>mem_map\<close> whenever the last position it may try does.
\<close>

theorem search_is_first_fit:
  assumes "0 < n" "last_frame + n \<le> length cs + 1"
  shows "search_block cs n last_frame block = Inr (first_fit cs n block last_frame)"
  using assms by (rule search_block_first_fit)

theorem search_is_first_fit_witness:
  "search_block [0, -1, -1, 0, -1, -1, -1, -1] 4 5 0 = Inr (first_fit [0, -1, -1, 0, -1, -1, -1, -1] 4 0 5) \<and>
   first_fit [0, -1, -1, 0, -1, -1, -1, -1] 4 0 5 = Some 4"
  using search_is_first_fit [of 4 5 "[0, -1, -1, 0, -1, -1, -1, -1]" 0]
  by (simp add: first_fit_def upt_rec free_run_def)

text \<open>
  C19. When the zone of the flags has a free run of \<open>2^order\<close> pages, \<open>__alloc_pages\<close> returns the page
  address of the lowest such run of the zone, marks exactly its pages as used, keeps the zones'
  page counts right, and \<open>free_pages\<close> of that address restores the memory exactly.
\<close>

theorem alloc_pages_correct:
  assumes "pmm_inv p" "get_zone_from_flags g = Some k" "order \<le> 10"
    and "free_run (mem_map p) b (2 ^ order)" "{b..<b + 2 ^ order} \<subseteq> zone_pages (node_zones p ! k)"
  shows "\<exists>b' p'. alloc_pages g order p = Inr (b' * 4096, p') \<and> b' \<le> b \<and>
    {b'..<b' + 2 ^ order} \<subseteq> zone_pages (node_zones p ! k) \<and>
    free_run (mem_map p) b' (2 ^ order) \<and> mem_map p' = fill 0 b' (2 ^ order) (mem_map p) \<and>
    (\<forall>c. zone_mem_map (node_zones p ! k) \<le> c \<and> c < b' \<longrightarrow> \<not> free_run (mem_map p) c (2 ^ order)) \<and>
    pmm_inv p' \<and> free_pages (b' * 4096) order p' = Inr p"
  using assms by (rule alloc_pages_round)

definition small_pmm :: pmm where
  "small_pmm = \<lparr>mem_map = [0, -1, 0, -1, -1, -1],
     node_zones = [\<lparr>zone_free = 3, zone_mem_map = 1, zone_start_pfn = 1, zone_name = ''Normal'', zone_size = 4\<rparr>,
                   \<lparr>zone_free = 1, zone_mem_map = 5, zone_start_pfn = 5, zone_name = ''HighMem'', zone_size = 1\<rparr>]\<rparr>"

lemma card_free_in_filter:
  "card (free_in cs z) = length (filter (\<lambda>i. cs ! i = -1) [zone_mem_map z..<zone_mem_map z + zone_size z])"
proof -
  have "free_in cs z = set (filter (\<lambda>i. cs ! i = -1) [zone_mem_map z..<zone_mem_map z + zone_size z])"
    by (auto simp: free_in_def zone_pages_def)
  then show ?thesis by (simp only: distinct_card distinct_filter distinct_upt)
qed

lemma small_pmm_inv: "pmm_inv small_pmm"
  unfolding pmm_inv_def all_less_small zone_ok_def card_free_in_filter by (simp add: small_pmm_def upt_rec)

theorem alloc_pages_correct_witness:
  "\<exists>b' p'. alloc_pages GFP_KERNEL 1 small_pmm = Inr (b' * 4096, p') \<and> b' \<le> 3 \<and> free_run (mem_map small_pmm) b' 2 \<and>
     pmm_inv p' \<and> free_pages (b' * 4096) 1 p' = Inr small_pmm"
proof -
  have "free_run (mem_map small_pmm) 3 (2 ^ 1)" "{3..<3 + 2 ^ 1} \<subseteq> zone_pages (node_zones small_pmm ! 0)"
    by (simp_all add: small_pmm_def free_run_def upt_rec zone_pages_def)
  from alloc_pages_correct [OF small_pmm_inv gfp_zone(1) _ this] show ?thesis by auto
qed

text \<open>
  C20. At boot, when the two zones come out non-empty, every page is free, the zones split the memory
  from the first multiple of 4 MiB behind the descriptors to its end, and the self-test
  \<open>pmm_check\<close> succeeds and leaves the memory clean, although its last step releases its bookkeeping
  page through the address of the page of the first step.
\<close>

theorem pmmngr_init_boots:
  assumes "mem_size < 2 ^ 32" "size_aligned = max_order_align mem_size"
    and "first = max_order_align (u32n (u32n (skip_modules module_end data_end + 20 * (size_aligned div 4096)) + 332))"
    and "border = max_order_align (size_aligned div 4)" "first < border" "border < size_aligned"
  shows "pmmngr_init data_end module_end mem_size =
    Inr (True, \<lparr>mem_map = replicate (size_aligned div 4096) (-1),
                node_zones = [boot_zone ''Normal'' first border, boot_zone ''HighMem'' border size_aligned]\<rparr>)"
proof -
  have u: "u32n x < 2 ^ 32" for x by (simp add: u32n_def)
  have s: "0x400000 dvd size_aligned" "size_aligned < 2 ^ 32" using max_order_align_dvd [OF assms(1)] assms(2) by auto
  have "size_aligned div 4 < 2 ^ 32" using s(2) by linarith
  then have b: "0x400000 dvd border" "border < 2 ^ 32" using max_order_align_dvd assms(4) by auto
  have f: "0x400000 dvd first" "first < 2 ^ 32" using max_order_align_dvd [OF u] assms(3) by auto
  have d: "4096 dvd size_aligned" "4096 dvd border" "4096 dvd first"
    using s(1) b(1) f(1) dvd_trans [of 4096 "0x400000 :: nat"] by (auto simp: dvd_def)
  have "zone_init n first border = Inr (boot_zone n first border)"
    "zone_init n border size_aligned = Inr (boot_zone n border size_aligned)" for n
    unfolding boot_zone_def using assms(5,6) b(2) s(2) d by (intro zone_init_aligned, auto)+
  then show ?thesis
    using boot_memory_clean [OF assms(5,6) s(2) f(1) b(1) s(1)] assms(2-4)
    by (simp add: pmmngr_init_def Let_def PAGE_SIZE_def sizeof_page_t_def sizeof_pg_data_t_def)
qed

text \<open>The memory of \<open>kernel.c\<close>: 1096 MiB and 2 MiB, with a kernel that ends at 2 MiB and no modules.\<close>

theorem pmmngr_init_boots_witness:
  "pmmngr_init 0x200000 [0, 0, 0, 0, 0, 0, 0, 0, 0, 0] (1096 * 2 ^ 20 + 2 ^ 21) =
    Inr (True, \<lparr>mem_map = replicate 281600 (-1),
                node_zones = [boot_zone ''Normal'' 0x800000 0x11400000, boot_zone ''HighMem'' 0x11400000 0x44C00000]\<rparr>)"
proof -
  have a: "max_order_align 1151336448 = 1153433600" "max_order_align 288358400 = 289406976"
    "max_order_align (u32n (u32n (2097152 + 20 * 281600) + 332)) = 0x800000"
    by (simp_all add: max_order_align_eq u32n_def)
  have "skip_modules [0, 0, 0, 0, 0, 0, 0, 0, 0, 0] 0x200000 = 0x200000" by simp
  with a pmmngr_init_boots [of "1096 * 2 ^ 20 + 2 ^ 21" 1153433600 "0x800000" "[0, 0, 0, 0, 0, 0, 0, 0, 0, 0]" "0x200000" 289406976]
  show ?thesis by simp
qed

section \<open>The end of a zone\<close>

text \<open>
  The search tries positions up to \<open>zone_mem_map + size - order\<close>, where a block of \<open>2^order\<close> pages no
  longer fits. A full zone hands out a page of the zone behind it, and a full last zone is read
  past the end of \<open>mem_map\<close>.
\<close>

definition full_zone :: "int \<Rightarrow> pmm" where
  "full_zone c = \<lparr>mem_map = [0, 0, c],
     node_zones = [\<lparr>zone_free = 0, zone_mem_map = 0, zone_start_pfn = 0, zone_name = ''Normal'', zone_size = 2\<rparr>,
                   \<lparr>zone_free = 1, zone_mem_map = 2, zone_start_pfn = 2, zone_name = ''HighMem'', zone_size = 1\<rparr>]\<rparr>"

lemma full_zone_takes_next:
  "\<exists>p. alloc_pages GFP_KERNEL 0 (full_zone (-1)) = Inr (2 * 4096, p) \<and> zone_free (node_zones p ! 0) = 2 ^ 32 - 1 \<and>
     zone_free (node_zones p ! 1) = 1"
  by (simp add: alloc_pages_def full_zone_def MAX_ORDER_def search_block.simps u32n_def PAGE_SIZE_def)

lemma full_last_zone_out_of_bounds: "alloc_pages GFP_HIGHUSER 0 (full_zone 0) = Inl OutOfBounds"
  by (simp add: alloc_pages_def full_zone_def MAX_ORDER_def search_block.simps get_at_def)

end
