(* ===== verification/Kheap_Client.thy ===== *)
theory Kheap_Client
  imports Kheap_Ops Zone_Correct
begin

text \<open>
  The contract of the heap towards its clients, as an interface: a state represents the set of the
  blocks in use; an allocation adds a block that is large enough and disjoint from all others, or
  fails an assertion; a release removes the block; neither touches the contents of the others. The
  kernel heap provides it, and what holds of sequences of calls is proved from the contract alone.
\<close>

section \<open>Allocators\<close>

definition disjoint_blocks :: "(nat \<times> nat) set \<Rightarrow> bool" where
  "disjoint_blocks U \<longleftrightarrow> (\<forall>(a, n)\<in>U. \<forall>(b, k)\<in>U. (a, n) = (b, k) \<or> a + 12 + n \<le> b \<or> b + 12 + k \<le> a)"

datatype call = Alloc nat | Free nat

locale allocator =
  fixes alloc :: "nat \<Rightarrow> 's \<Rightarrow> (nat \<times> 's) res option"
    and release :: "nat \<Rightarrow> 's \<Rightarrow> 's res option"
    and repr :: "'s \<Rightarrow> (nat \<times> nat) set \<Rightarrow> bool"
    and mem_of :: "'s \<Rightarrow> mem"
    and request_ok :: "nat \<Rightarrow> bool"
  assumes disjoint: "repr s U \<Longrightarrow> disjoint_blocks U"
    and alloc_law: "repr s U \<Longrightarrow> request_ok n \<Longrightarrow>
      alloc n s = Some (Inl AssertFail) \<or>
      (\<exists>a k s'. alloc n s = Some (Inr (a + 12, s')) \<and> (a, k) \<notin> U \<and> n \<le> k \<and> repr s' (insert (a, k) U) \<and>
         same_payload U (mem_of s) (mem_of s'))"
    and release_law: "repr s U \<Longrightarrow> (a, k) \<in> U \<Longrightarrow>
      \<exists>s'. release (a + 12) s = Some (Inr s') \<and> repr s' (U - {(a, k)}) \<and>
         same_payload (U - {(a, k)}) (mem_of s) (mem_of s')"
begin

text \<open>
  A sequence of calls with the pointers that are live: \<open>Free i\<close> releases the \<open>i\<close>-th live pointer
  and does nothing when there are not so many.
\<close>

fun calls :: "call list \<Rightarrow> nat list \<Rightarrow> 's \<Rightarrow> (nat list \<times> 's) res option" where
  "calls [] live s = Some (Inr (live, s))"
| "calls (Alloc n # cs) live s = bindO (alloc n s) (\<lambda>(p, s). calls cs (live @ [p]) s)"
| "calls (Free i # cs) live s =
     (if i < length live
      then bindO (release (live ! i) s) (\<lambda>s. calls cs (take i live @ drop (Suc i) live) s)
      else calls cs live s)"

lemma same_payload_trans:
  "same_payload U m m' \<Longrightarrow> same_payload V m' m'' \<Longrightarrow> W \<subseteq> U \<inter> V \<Longrightarrow> same_payload W m m''"
  unfolding same_payload_def by fastforce

text \<open>An allocation and its release restore the blocks in use and keep their contents.\<close>

lemma alloc_release:
  assumes "repr s U" "request_ok n" "alloc n s = Some (Inr (p, s1))"
  shows "\<exists>s2. release p s1 = Some (Inr s2) \<and> repr s2 U \<and> same_payload U (mem_of s) (mem_of s2)"
proof -
  obtain a k where a: "p = a + 12" "(a, k) \<notin> U" "repr s1 (insert (a, k) U)" "same_payload U (mem_of s) (mem_of s1)"
    using alloc_law [OF assms(1,2)] assms(3) by auto
  moreover have "insert (a, k) U - {(a, k)} = U" using a(2) by simp
  ultimately show ?thesis
    using release_law [OF a(3), of a k] same_payload_trans [OF a(4), of U] by auto
qed

text \<open>
  Every sequence of calls ends, in a failed assertion or in a state whose blocks in use are exactly
  those of the live pointers.
\<close>

definition owns :: "(nat \<times> nat) list \<Rightarrow> (nat \<times> nat) set \<Rightarrow> bool" where
  "owns bs U \<longleftrightarrow> set bs \<subseteq> U \<and> distinct bs"

definition outcome :: "(nat \<times> nat) set \<Rightarrow> 's \<Rightarrow> (nat list \<times> 's) res option \<Rightarrow> bool" where
  "outcome V s r \<longleftrightarrow> r = Some (Inl AssertFail) \<or>
     (\<exists>bs s'. r = Some (Inr (map (\<lambda>(a, k). a + 12) bs, s')) \<and> repr s' (V \<union> set bs) \<and> distinct bs \<and>
        set bs \<inter> V = {} \<and> same_payload V (mem_of s) (mem_of s'))"

lemma outcome_step:
  assumes "same_payload U (mem_of s) (mem_of s1)" "V \<subseteq> U" "outcome V s1 r"
  shows "outcome V s r"
  using assms(3) same_payload_trans [OF assms(1), of V _ V] assms(2) unfolding outcome_def by blast

lemma calls_total:
  assumes "repr s U" "owns bs U" "\<forall>n. Alloc n \<in> set cs \<longrightarrow> request_ok n"
  shows "outcome (U - set bs) s (calls cs (map (\<lambda>(a, k). a + 12) bs) s)"
  using assms
proof (induction cs arbitrary: bs U s)
  case Nil
  moreover have "U - set bs \<union> set bs = U" using Nil(2) by (auto simp: owns_def)
  ultimately show ?case
    unfolding outcome_def by (intro disjI2 exI [of _ bs] exI [of _ s]) (auto simp: owns_def same_payload_def)
next
  case (Cons c cs)
  have reqs: "\<forall>n. Alloc n \<in> set cs \<longrightarrow> request_ok n" using Cons.prems(3) by simp
  show ?case
  proof (cases c)
    case (Alloc n)
    then have req: "request_ok n" using Cons.prems(3) by simp
    from alloc_law [OF Cons.prems(1) req] show ?thesis
    proof
      assume "alloc n s = Some (Inl AssertFail)"
      with Alloc show ?thesis by (simp add: outcome_def)
    next
      assume "\<exists>a k s'. alloc n s = Some (Inr (a + 12, s')) \<and> (a, k) \<notin> U \<and> n \<le> k \<and> repr s' (insert (a, k) U) \<and>
         same_payload U (mem_of s) (mem_of s')"
      then obtain a k s1 where s1: "alloc n s = Some (Inr (a + 12, s1))" "(a, k) \<notin> U" "repr s1 (insert (a, k) U)"
        "same_payload U (mem_of s) (mem_of s1)" by blast
      have "owns (bs @ [(a, k)]) (insert (a, k) U)" using Cons.prems(2) s1(2) by (auto simp: owns_def)
      from Cons.IH [OF s1(3) this reqs]
      have "outcome (insert (a, k) U - set (bs @ [(a, k)])) s1 (calls cs (map (\<lambda>(a, k). a + 12) (bs @ [(a, k)])) s1)" .
      moreover have "insert (a, k) U - set (bs @ [(a, k)]) = U - set bs" using s1(2) by auto
      ultimately show ?thesis using outcome_step [OF s1(4)] s1(1) Alloc by auto
    qed
  next
    case (Free i)
    show ?thesis
    proof (cases "i < length bs")
      case True
      obtain a k where ak: "bs ! i = (a, k)" by (cases "bs ! i")
      have split: "bs = take i bs @ (a, k) # drop (Suc i) bs" using True ak by (metis id_take_nth_drop)
      let ?bs = "take i bs @ drop (Suc i) bs"
      have mem: "(a, k) \<notin> set ?bs" "distinct ?bs" "set bs = insert (a, k) (set ?bs)"
      proof -
        have "distinct (take i bs @ (a, k) # drop (Suc i) bs)" using Cons.prems(2) split unfolding owns_def by metis
        then show "(a, k) \<notin> set ?bs" "distinct ?bs" by (simp_all only: distinct_append distinct.simps set_append list.set) blast+
        have "set bs = set (take i bs @ (a, k) # drop (Suc i) bs)" using split by metis
        then show "set bs = insert (a, k) (set ?bs)" by (simp only: set_append list.set Un_insert_right)
      qed
      have U: "(a, k) \<in> U" "owns ?bs (U - {(a, k)})" using Cons.prems(2) mem by (auto simp: owns_def)
      obtain s1 where s1: "release (a + 12) s = Some (Inr s1)" "repr s1 (U - {(a, k)})"
        "same_payload (U - {(a, k)}) (mem_of s) (mem_of s1)" using release_law [OF Cons.prems(1) U(1)] by blast
      have "U - {(a, k)} - set ?bs = U - set bs" using mem by auto
      with Cons.IH [OF s1(2) U(2) reqs] have "outcome (U - set bs) s1 (calls cs (map (\<lambda>(a, k). a + 12) ?bs) s1)" by simp
      moreover have "calls (c # cs) (map (\<lambda>(a, k). a + 12) bs) s = calls cs (map (\<lambda>(a, k). a + 12) ?bs) s1"
        using Free True ak s1(1) by (simp add: take_map drop_map)
      moreover have "U - set bs \<subseteq> U - {(a, k)}" using mem(3) by auto
      ultimately show ?thesis using outcome_step [OF s1(3)] by simp
    next
      case False
      with Free Cons reqs show ?thesis by simp
    qed
  qed
qed

end

section \<open>The kernel heap as an allocator\<close>

definition kheap_repr :: "kheap \<Rightarrow> (nat \<times> nat) set \<Rightarrow> bool" where
  "kheap_repr s U \<longleftrightarrow> (\<exists>bs fs. kheap_inv s bs fs \<and> U = used bs)"

definition request_ok :: "nat \<Rightarrow> bool" where
  "request_ok n \<longleftrightarrow> 0 < n \<and> n + 15 < 2 ^ 32"

lemma kheap_inv_ordered: "kheap_inv s bs fs \<Longrightarrow> ordered (vm_start (kernel_heap s) + 12) bs (kernel_heap_curr s)"
  by (simp add: kheap_inv_def heap_ok_def)

lemma used_disjoint: "ordered lo bs hi \<Longrightarrow> disjoint_blocks (used bs)"
  unfolding disjoint_blocks_def using used_distinct by blast

lemma malloc_blocks_fresh:
  assumes "malloc_blocks bs hc r bs' p" "ordered lo bs hc"
  obtains k where "(p, k) \<in> used bs'" "r \<le> k" "used bs' = insert (p, k) (used bs)" "(p, k) \<notin> used bs"
proof -
  obtain k where k: "(p, k) \<in> used bs'" "r \<le> k" "used bs' = insert (p, k) (used bs)"
    using malloc_blocks_used [OF assms(1)] .
  have "(p, k) \<notin> used bs" using assms(1)
  proof cases
    case (fit n xs ys)
    have "(p, n, True) \<in> set bs" using fit by simp
    with ordered_apart [OF assms(2) this, of p k False] show ?thesis by (auto simp: used_def)
  next
    case grow
    with ordered_bounds [OF assms(2), of p k False] show ?thesis by (auto simp: used_def)
  qed
  with k that show thesis by blast
qed

text \<open>The blocks an allocation leaves are where they were: only headers are written.\<close>

lemma kmalloc_law:
  assumes inv: "kheap_inv s bs fs" and n: "request_ok n"
  obtains (got) a k s' bs' fs' where "kmalloc n s = Some (Inr (a + 12, s'))" "kheap_inv s' bs' fs'"
    "malloc_blocks bs (kernel_heap_curr s) (ceil_to n 16) bs' a" "(a, k) \<in> used bs'" "n \<le> k"
    "used bs' = insert (a, k) (used bs)" "(a, k) \<notin> used bs" "same_payload (used bs) (bytes s) (bytes s')"
    "ceil_to n 16 \<le> k"
  | (full) "kmalloc n s = Some (Inl AssertFail)"
    "vm_end (kernel_heap s) < kernel_heap_curr s + 12 + ceil_to n 16" "\<And>b k. (b, k, True) \<in> set bs \<Longrightarrow> k < ceil_to n 16"
proof -
  have n2: "0 < n" "n + 15 < 2 ^ 32" using n by (auto simp: request_ok_def)
  have payload: "same_payload (used bs) (bytes s) m'"
    if "malloc_blocks bs (kernel_heap_curr s) r bs' p" "kheap_inv s' bs' fs'" "kernel_heap s' = kernel_heap s"
      "only_hdrs (vm_start (kernel_heap s)) (addrs bs') (bytes s) m'" for r bs' p s' fs' m'
    using same_payload_hdrs [OF kheap_inv_ordered [OF that(2), unfolded that(3)] that(4)]
      malloc_blocks_used [OF that(1)] by (metis subset_insertI)
  from inv n2 refl [of "ceil_to n 16"] show thesis
  proof (cases rule: kmalloc_cases)
    case (fit bs' fs' p m')
    obtain k where k: "(p, k) \<in> used bs'" "ceil_to n 16 \<le> k" "used bs' = insert (p, k) (used bs)" "(p, k) \<notin> used bs"
      using malloc_blocks_fresh [OF fit(2) kheap_inv_ordered [OF inv]] .
    show thesis
      using got [OF fit(1,3,2) k(1) _ k(3,4)] payload [OF fit(2,3) _ fit(4)] ceil_16(1) [OF n2] k(2) by auto
  next
    case (grow bs' fs' p m')
    obtain k where k: "(p, k) \<in> used bs'" "ceil_to n 16 \<le> k" "used bs' = insert (p, k) (used bs)" "(p, k) \<notin> used bs"
      using malloc_blocks_fresh [OF grow(2) kheap_inv_ordered [OF inv]] .
    show thesis
      using got [OF grow(1,3,2) k(1) _ k(3,4)] payload [OF grow(2,3) _ grow(4)] ceil_16(1) [OF n2] k(2) by auto
  next
    case full
    then show thesis using that(2) by blast
  qed
qed

lemma kfree_law:
  assumes inv: "kheap_inv s bs fs" and a: "(a, n) \<in> used bs"
  obtains s' bs' fs' where "kfree (a + 12) s = Some (Inr s')" "kheap_inv s' bs' fs'" "used bs' = used bs - {(a, n)}"
    "same_payload (used bs - {(a, n)}) (bytes s) (bytes s')"
proof -
  have "(a, n, False) \<in> set bs" using a by (simp add: used_def)
  then obtain xs ys where bs: "bs = xs @ (a, n, False) # ys" by (auto dest: split_list)
  note ord = kheap_inv_ordered [OF inv, unfolded bs]
  from inv have inv': "kheap_inv s (xs @ (a, n, False) # ys) fs" using bs by simp
  from kfree_ok [OF inv'] obtain m' fs' where m': "kfree (a + 12) s = Some (Inr (s\<lparr>bytes := m'\<rparr>))"
    "kheap_inv (s\<lparr>bytes := m'\<rparr>) (free_blocks xs a n ys) fs'"
    "only_hdrs (vm_start (kernel_heap s)) (addrs (xs @ (a, n, False) # ys)) (bytes s) m'" by blast
  have "(a, n) \<notin> used xs \<union> used ys" using ordered_distinct [OF ord] by (auto simp: used_def)
  then have "used (free_blocks xs a n ys) = used bs - {(a, n)}" unfolding free_blocks_used bs by auto
  moreover have "same_payload (used bs - {(a, n)}) (bytes s) (bytes (s\<lparr>bytes := m'\<rparr>))"
    using same_payload_hdrs [OF ord m'(3) Diff_subset [of _ "{(a, n)}"]] unfolding bs by simp
  ultimately show thesis using that m'(1,2) by blast
qed

interpretation kh: allocator kmalloc kfree kheap_repr bytes request_ok
proof
  fix s U assume "kheap_repr s U"
  then show "disjoint_blocks U" using used_disjoint kheap_inv_ordered unfolding kheap_repr_def by blast
next
  fix s U n assume r: "kheap_repr s U" and n: "request_ok n"
  from r obtain bs fs where inv: "kheap_inv s bs fs" "U = used bs" by (auto simp: kheap_repr_def)
  from inv(1) n show "kmalloc n s = Some (Inl AssertFail) \<or>
      (\<exists>a k s'. kmalloc n s = Some (Inr (a + 12, s')) \<and> (a, k) \<notin> U \<and> n \<le> k \<and> kheap_repr s' (insert (a, k) U) \<and>
         same_payload U (bytes s) (bytes s'))"
  proof (cases rule: kmalloc_law)
    case (got a k s' bs' fs')
    then have "kheap_repr s' (insert (a, k) U)" using inv(2) unfolding kheap_repr_def by metis
    with got inv(2) show ?thesis by blast
  qed simp
next
  fix s U a k assume r: "kheap_repr s U" and a: "(a, k) \<in> U"
  from r obtain bs fs where inv: "kheap_inv s bs fs" "U = used bs" by (auto simp: kheap_repr_def)
  from inv(1) a [unfolded inv(2)] obtain s' bs' fs' where "kfree (a + 12) s = Some (Inr s')" "kheap_inv s' bs' fs'"
    "used bs' = used bs - {(a, k)}" "same_payload (used bs - {(a, k)}) (bytes s) (bytes s')" by (rule kfree_law)
  then show "\<exists>s'. kfree (a + 12) s = Some (Inr s') \<and> kheap_repr s' (U - {(a, k)}) \<and>
         same_payload (U - {(a, k)}) (bytes s) (bytes s')"
    using inv(2) unfolding kheap_repr_def by metis
qed

section \<open>Writing into a block\<close>

lemma heap_ok_frame:
  assumes ok: "heap_ok m st hc bs fs" and same: "\<And>x. x \<in> hdr_bytes st (addrs bs) \<Longrightarrow> m' x = m x"
  shows "heap_ok m' st hc bs fs"
proof -
  have load: "read32 m' x = read32 m x" if "{x..<x + 4} \<subseteq> hdr_bytes st (addrs bs)" for x
    using that same by (simp add: read32_def subset_iff)
  have hdr: "read32 m' (a + i) = read32 m (a + i)" if "a \<in> addrs bs" "i \<le> 8" for a i
    using that by (intro load) (force simp: hdr_bytes_def)
  have words: "read32 m' (st + i) = read32 m (st + i)" if "i \<le> 8" for i
    using that by (intro load) (auto simp: hdr_bytes_def)
  have f: "blk_size m' a = blk_size m a \<and> next_blk m' a = next_blk m a" "nextfree m' a = nextfree m a" if "a \<in> addrs bs" for a
    using hdr [OF that, of 0] hdr [OF that, of 4] hdr [OF that, of 8] by (simp_all add: field_defs)
  have "fseg m' (read32 m (st + 8)) fs 0" by (rule fseg_keep [OF heap_ok_fs(4,1) [OF ok] f(2)])
  then show ?thesis
    using ok linked_cong [of bs m' m] f(1) words [of 0] words [of 4] words [of 8] by (simp add: heap_ok_def)
qed

lemma kheap_inv_write:
  assumes inv: "kheap_inv s bs fs" and a: "(a, k) \<in> used bs"
    and same: "\<And>x. x < a + 12 \<or> a + 12 + k \<le> x \<Longrightarrow> m' x = bytes s x"
  shows "kheap_inv (s\<lparr>bytes := m'\<rparr>) bs fs"
proof -
  note ord = kheap_inv_ordered [OF inv]
  have mem: "(a, k, False) \<in> set bs" using a by (simp add: used_def)
  have "m' x = bytes s x" if "x \<in> hdr_bytes (vm_start (kernel_heap s)) (addrs bs)" for x
  proof (rule same, rule ccontr)
    assume "\<not> (x < a + 12 \<or> a + 12 + k \<le> x)"
    moreover from this obtain b where "b \<in> addrs bs" "b \<le> x" "x < b + 12"
      using \<open>x \<in> hdr_bytes (vm_start (kernel_heap s)) (addrs bs)\<close> ordered_bounds [OF ord mem] by (auto simp: hdr_bytes_def)
    moreover from this(1) obtain j f where "(b, j, f) \<in> set bs" by blast
    ultimately show False using ordered_apart [OF ord mem, of b j f] by auto
  qed
  with inv heap_ok_frame show ?thesis unfolding kheap_inv_def by (auto simp: kheap_inv_def)
qed

text \<open>What is written into one block in use does not touch the others.\<close>

lemma block_write:
  assumes inv: "kheap_inv s bs fs" and a: "(a, k) \<in> used bs"
    and same: "\<And>x. x < a + 12 \<or> a + 12 + k \<le> x \<Longrightarrow> m' x = bytes s x" and U: "U \<subseteq> used bs" "(a, k) \<notin> U"
  shows "kheap_inv (s\<lparr>bytes := m'\<rparr>) bs fs" and "same_payload U (bytes s) m'"
proof -
  show "kheap_inv (s\<lparr>bytes := m'\<rparr>) bs fs" by (rule kheap_inv_write [OF inv a same])
  show "same_payload U (bytes s) m'"
    unfolding same_payload_def
  proof clarify
    fix b j x assume b: "(b, j) \<in> U" and x: "b + 12 \<le> x" "x < b + 12 + j"
    have "(b, j) \<noteq> (a, k)" "(b, j) \<in> used bs" using b U by auto
    with used_distinct [OF kheap_inv_ordered [OF inv] a, of b j] x show "m' x = bytes s x" by (intro same) auto
  qed
qed

section \<open>The start of the kernel heap\<close>

lemma memset_zero_word:
  assumes "b \<le> a" "a + 4 \<le> b + n"
  shows "read32 (memset m b 0 n) a = 0"
proof -
  have "memset m b 0 n x = 0" if "b \<le> x" "x < b + n" for x
    using that by (simp add: memset_def memset_loop_eq)
  with assms show ?thesis by (simp add: read32_def)
qed

lemma heap_ok_empty:
  assumes "0 < st" "st + 12 < 2 ^ 32"
  shows "heap_ok (memset m st 0 12) st (st + 12) [] []"
  using assms memset_zero_word [of st st 12 m] memset_zero_word [of st "st + 8" 12 m]
  by (simp add: heap_ok_def)

lemma order_loop_spec:
  "amount \<le> 2 ^ order_loop amount order \<and> (\<forall>k. order \<le> k \<and> k < order_loop amount order \<longrightarrow> 2 ^ k < amount)"
proof (induction amount order rule: order_loop.induct)
  case (1 amount order)
  show ?case
  proof (cases "2 ^ order < amount")
    case True
    then have "order_loop amount order = order_loop amount (Suc order)" by (subst order_loop.simps) simp
    moreover have "2 ^ k < amount" if "order \<le> k" "k < order_loop amount (Suc order)" for k
      using "1.IH" [OF True] that True by (cases "k = order") auto
    ultimately show ?thesis using "1.IH" [OF True] by simp
  next
    case False
    then show ?thesis by (subst (1 2) order_loop.simps) auto
  qed
qed

lemma find_nearest_order:
  assumes "n + 4095 < 2 ^ 32"
  shows "n \<le> 2 ^ find_nearest_order_greater n * 4096"
    and "k < find_nearest_order_greater n \<Longrightarrow> 2 ^ k * 4096 < n"
proof -
  let ?p = "(n + 4095) div 4096"
  have f: "find_nearest_order_greater n = order_loop ?p 0"
    using assms by (simp add: find_nearest_order_greater_def PAGE_SIZE_def add.commute)
  have "n \<le> ?p * 4096" by linarith
  also have "\<dots> \<le> 2 ^ find_nearest_order_greater n * 4096" using order_loop_spec [of ?p 0] f by simp
  finally show "n \<le> 2 ^ find_nearest_order_greater n * 4096" .
  assume "k < find_nearest_order_greater n"
  then have "2 ^ k < ?p" using order_loop_spec [of ?p 0] f by simp
  then have "(2 ^ k + 1) * 4096 \<le> ?p * 4096" by simp
  moreover have "?p * 4096 \<le> n + 4095" by (rule div_times_less_eq_dividend)
  ultimately have "(2 ^ k + 1) * 4096 \<le> n + 4095" by (rule le_trans)
  then show "2 ^ k * 4096 < n" by simp
qed

lemma kheap_init_run:
  assumes inv: "pmm_inv (pages s)" and n: "n + 4095 < 2 ^ 32" "find_nearest_order_greater n \<le> 10"
    and run: "free_run (mem_map (pages s)) b (2 ^ find_nearest_order_greater n)"
      "{b..<b + 2 ^ find_nearest_order_greater n} \<subseteq> zone_pages (node_zones (pages s) ! 0)"
    and zone: "0 < zone_mem_map (node_zones (pages s) ! 0)"
      "zone_mem_map (node_zones (pages s) ! 0) + zone_size (node_zones (pages s) ! 0) \<le> 2 ^ 19"
  shows "\<exists>s'. kheap_init False n s = Inr s' \<and> kheap_inv s' [] [] \<and> n \<le> vm_end (kernel_heap s') - vm_start (kernel_heap s') \<and>
    pmm_inv (pages s')"
proof -
  let ?o = "find_nearest_order_greater n" and ?z = "node_zones (pages s) ! 0"
  obtain b' p where b': "alloc_pages GFP_KERNEL ?o (pages s) = Inr (b' * 4096, p)"
    "{b'..<b' + 2 ^ ?o} \<subseteq> zone_pages ?z" "pmm_inv p"
    using alloc_pages_in_zone [OF inv gfp_zone(1) n(2) run] by metis
  have pos: "(0::nat) < 2 ^ ?o" by simp
  with b'(2) zone have b: "0 < b'" "b' + 2 ^ ?o \<le> 2 ^ 19" by (auto simp: zone_pages_def)
  have top: "b' * 4096 + 2 ^ ?o * 4096 \<le> 2 ^ 31"
    using mult_le_mono1 [OF b(2), of 4096] by (simp add: add_mult_distrib)
  define s' where "s' = s\<lparr>pages := p, kernel_heap := \<lparr>vm_start = b' * 4096, vm_end = b' * 4096 + 2 ^ ?o * 4096\<rparr>,
    bytes := memset (bytes s) (b' * 4096) 0 12, kernel_heap_curr := b' * 4096 + 12, kheap_enabled := True\<rparr>"
  have room: "4096 \<le> 2 ^ ?o * (4096 :: nat)" using pos by simp
  then have small: "b' * 4096 + 12 < 2 ^ 32" "b' * 4096 + 2 ^ ?o * 4096 < 2 ^ 32" using top by simp_all
  have "kheap_init False n s = Inr s'"
    unfolding kheap_init_def Let_def b'(1) s'_def using small by (simp add: PAGE_SIZE_def)
  moreover have "kheap_inv s' [] []"
    using heap_ok_empty [of "b' * 4096" "bytes s"] b(1) small top by (simp add: s'_def kheap_inv_def) (use pos in linarith)
  moreover have "n \<le> vm_end (kernel_heap s') - vm_start (kernel_heap s')"
    using find_nearest_order(1) [OF n(1)] by (simp add: s'_def)
  moreover have "pmm_inv (pages s')" using b'(3) by (simp add: s'_def)
  ultimately show ?thesis by blast
qed

section \<open>Properties\<close>

text \<open>
  C6. \<open>kmalloc\<close> of a size whose rounding does not wrap ends and either returns a block in use of at
  least that size, taken from the smallest free block that is large enough or from the top of the
  heap, disjoint from every other block in use, whose contents it keeps; or fails its assertion,
  and then no free block is large enough and the heap cannot grow by the block. In the first case
  the invariant of the heap is kept: no blocks overlap, the free list holds exactly the free
  blocks and no two free blocks are neighbours.
\<close>

theorem kmalloc_correct:
  assumes "kheap_inv s bs fs" "request_ok n"
  shows "(\<exists>a k s' bs' fs'. kmalloc n s = Some (Inr (a + 12, s')) \<and> kheap_inv s' bs' fs' \<and>
      malloc_blocks bs (kernel_heap_curr s) (ceil_to n 16) bs' a \<and> n \<le> k \<and> (a, k) \<notin> used bs \<and>
      used bs' = insert (a, k) (used bs) \<and> disjoint_blocks (used bs') \<and>
      same_payload (used bs) (bytes s) (bytes s')) \<or>
    (kmalloc n s = Some (Inl AssertFail) \<and> vm_end (kernel_heap s) < kernel_heap_curr s + 12 + ceil_to n 16 \<and>
      (\<forall>(b, k, f)\<in>set bs. f \<longrightarrow> k < ceil_to n 16))"
  using assms
proof (cases rule: kmalloc_law)
  case (got a k s' bs' fs')
  then show ?thesis using used_disjoint [OF kheap_inv_ordered [OF got(2)]] by blast
next
  case full
  then show ?thesis by auto
qed

text \<open>A heap of one page at \<open>0x1000\<close>, as \<open>kheap_init\<close> leaves it.\<close>

definition page_heap :: kheap where
  "page_heap = \<lparr>bytes = memset (\<lambda>_. 0) 4096 0 12, kernel_heap = \<lparr>vm_start = 4096, vm_end = 8192\<rparr>,
     kernel_heap_curr = 4108, kheap_enabled = True,
     cur_mm = \<lparr>mm_addr = 0, mmap = [], mmap_cache = 0, map_count = 0, start_brk = 0, brk = 0, start_stack = 0, total_vm = 0\<rparr>,
     pages = \<lparr>mem_map = [], node_zones = []\<rparr>\<rparr>"

lemma page_heap_inv: "kheap_inv page_heap [] []"
  using heap_ok_empty [of 4096 "\<lambda>_. 0"] by (simp add: page_heap_def kheap_inv_def)

lemma ceil_8: "ceil_to 8 16 = 16"
  by (simp add: ceil_to_def)

theorem kmalloc_correct_witness:
  "\<exists>a k s' bs' fs'. kmalloc 8 page_heap = Some (Inr (a + 12, s')) \<and> kheap_inv s' bs' fs' \<and> 8 \<le> k \<and> used bs' = {(a, k)}"
proof -
  have "request_ok 8" by (simp add: request_ok_def)
  from kmalloc_correct [OF page_heap_inv this] show ?thesis
    by (simp add: page_heap_def ceil_8) blast
qed

text \<open>
  C7. \<open>kfree\<close> of the pointer of a block in use ends without a fault, removes exactly that block from
  the blocks in use, keeps the contents of all others and the invariant of the heap: the freed
  block is merged with its free neighbours, so that still no two free blocks are neighbours.
\<close>

theorem kfree_correct:
  assumes "kheap_inv s bs fs" "(a, n) \<in> used bs"
  shows "\<exists>s' bs' fs'. kfree (a + 12) s = Some (Inr s') \<and> kheap_inv s' bs' fs' \<and> coalesced bs' \<and>
    used bs' = used bs - {(a, n)} \<and> same_payload (used bs - {(a, n)}) (bytes s) (bytes s')"
proof -
  obtain s' bs' fs' where "kfree (a + 12) s = Some (Inr s')" "kheap_inv s' bs' fs'" "used bs' = used bs - {(a, n)}"
    "same_payload (used bs - {(a, n)}) (bytes s) (bytes s')" using kfree_law [OF assms] .
  moreover from this(2) have "coalesced bs'" by (simp add: kheap_inv_def heap_ok_def)
  ultimately show ?thesis by blast
qed

theorem kfree_correct_witness:
  "\<exists>a s s' bs'. kmalloc 8 page_heap = Some (Inr (a + 12, s)) \<and> kfree (a + 12) s = Some (Inr s') \<and> used bs' = {} \<and> coalesced bs'"
proof -
  have "request_ok 8" by (simp add: request_ok_def)
  from page_heap_inv this obtain a k s bs fs where "kmalloc 8 page_heap = Some (Inr (a + 12, s))" "kheap_inv s bs fs"
    "used bs = {(a, k)}"
    by (cases rule: kmalloc_law) (auto simp: page_heap_def ceil_8)
  moreover from kfree_correct [OF this(2), of a k] this(3) obtain s' bs' where
    "kfree (a + 12) s = Some (Inr s')" "used bs' = {}" "coalesced bs'" by auto
  ultimately show ?thesis by blast
qed

text \<open>
  C8. The kernel heap refines the contract of an allocator: from a heap of the invariant every
  sequence of \<open>kmalloc\<close> and \<open>kfree\<close> of live pointers ends, in a failed assertion or in a heap
  whose blocks in use are the ones that were in use and not handed over, with their contents, and
  those of the live pointers, which are all distinct.
\<close>

theorem heap_calls_refine:
  assumes "kheap_repr s U" "set bs \<subseteq> U" "distinct bs" "list_all (\<lambda>c. case c of Alloc n \<Rightarrow> request_ok n | Free i \<Rightarrow> True) cs"
  shows "kh.calls cs (map (\<lambda>(a, k). a + 12) bs) s = Some (Inl AssertFail) \<or>
    (\<exists>bs' s'. kh.calls cs (map (\<lambda>(a, k). a + 12) bs) s = Some (Inr (map (\<lambda>(a, k). a + 12) bs', s')) \<and>
       kheap_repr s' (U - set bs \<union> set bs') \<and> distinct bs' \<and> set bs' \<inter> (U - set bs) = {} \<and>
       same_payload (U - set bs) (bytes s) (bytes s'))"
proof -
  have "\<forall>n. Alloc n \<in> set cs \<longrightarrow> request_ok n" using assms(4) by (fastforce simp: list_all_iff)
  with kh.calls_total [OF assms(1), of bs cs] assms(2,3) show ?thesis
    by (simp add: kh.owns_def kh.outcome_def)
qed

theorem heap_calls_refine_witness:
  "kh.calls [Alloc 8, Free 0, Alloc 100] [] page_heap = Some (Inl AssertFail) \<or>
    (\<exists>bs' s'. kh.calls [Alloc 8, Free 0, Alloc 100] [] page_heap = Some (Inr (map (\<lambda>(a, k). a + 12) bs', s')) \<and>
       kheap_repr s' (set bs'))"
proof -
  have "kheap_repr page_heap {}" using page_heap_inv unfolding kheap_repr_def by (metis used_simps(1))
  from heap_calls_refine [OF this, of "[]" "[Alloc 8, Free 0, Alloc 100]"] show ?thesis
    by (auto simp: request_ok_def)
qed

text \<open>
  \<open>kheap_init\<close> takes the lowest run of page frames of the kernel zone that holds the requested
  size and leaves an empty heap of the invariant there, when the zone has such a run and lies
  between the first page and 2 GiB; the page frames keep their invariant.
\<close>

theorem kheap_init_correct:
  assumes "pmm_inv (pages s)" "n + 4095 < 2 ^ 32" "find_nearest_order_greater n \<le> 10"
    and "free_run (mem_map (pages s)) b (2 ^ find_nearest_order_greater n)"
      "{b..<b + 2 ^ find_nearest_order_greater n} \<subseteq> zone_pages (node_zones (pages s) ! 0)"
    and "0 < zone_mem_map (node_zones (pages s) ! 0)"
      "zone_mem_map (node_zones (pages s) ! 0) + zone_size (node_zones (pages s) ! 0) \<le> 2 ^ 19"
  shows "\<exists>s'. kheap_init False n s = Inr s' \<and> kheap_inv s' [] [] \<and> n \<le> vm_end (kernel_heap s') - vm_start (kernel_heap s') \<and>
    pmm_inv (pages s')"
  using assms by (rule kheap_init_run)

theorem kheap_init_correct_witness:
  "\<exists>s'. kheap_init False 5000 (page_heap\<lparr>pages := small_pmm\<rparr>) = Inr s' \<and> kheap_inv s' [] [] \<and>
     5000 \<le> vm_end (kernel_heap s') - vm_start (kernel_heap s')"
proof -
  have order: "find_nearest_order_greater 5000 = 1"
    by (simp add: find_nearest_order_greater_def PAGE_SIZE_def order_loop.simps)
  have "free_run (mem_map small_pmm) 3 2" "{3..<3 + 2} \<subseteq> zone_pages (node_zones small_pmm ! 0)"
    "0 < zone_mem_map (node_zones small_pmm ! 0)"
    "zone_mem_map (node_zones small_pmm ! 0) + zone_size (node_zones small_pmm ! 0) \<le> 2 ^ 19"
    by (simp_all add: small_pmm_def free_run_def upt_rec zone_pages_def)
  with kheap_init_correct [of "page_heap\<lparr>pages := small_pmm\<rparr>" 5000 3] small_pmm_inv order show ?thesis by auto
qed

section \<open>Reallocation and very large requests\<close>

text \<open>
  When \<open>krealloc\<close> expands a block into its free right neighbour, the copy of the size behind the
  block lands on the header of the block after that one, which takes the size of the expanded
  block; and \<open>next\<close> of the expanded block still points into its own payload.
\<close>

lemma realloc_next_overwrites:
  assumes ok: "heap_ok m st hc (xs @ (a, n, False) # (a + 12 + n, k, True) # (a + 24 + n + k, j, g) # zs) fs"
    and B: "vm_start B = st"
  shows "\<exists>m'. realloc_next B (read32 m (st + 4)) a (a + 12 + n) m = Some (Inr (a + 12, m')) \<and>
    blk_size m' (a + 24 + n + k) = n + 12 + k \<and> next_blk m' a = a + 12 + n"
proof -
  let ?b = "a + 12 + n" and ?c = "a + 24 + n + k" and ?v = "n + 12 + k"
  let ?bs = "xs @ (a, n, False) # (?b, k, True) # (?c, j, g) # zs"
  have sep: "sep st (addrs ?bs)" and d: "distinct (map fst ?bs)" using heap_ok_sep heap_ok_distinct ok by blast+
  have ok2: "heap_ok m st hc ((xs @ [(a, n, False)]) @ (?b, k, True) # (?c, j, g) # zs) fs" using ok by simp
  note w = heap_ok_words [OF ok B]
  have "ordered (st + 12) ?bs hc" using ok by (simp add: heap_ok_def)
  then have c32: "?c < 2 ^ 32" using ordered_bounds [of "st + 12" ?bs hc ?c j g] w(6) by simp
  have tail: "read32 m (st + 4) \<noteq> ?b" using tail_iff [OF ok2] by simp
  have sz: "blk_size m a = n" "blk_size m ?b = k + 1" "even n" "even k"
    using is_free_block [OF ok, of a n False] is_free_block [OF ok, of ?b k True] by auto
  have "?b \<in> set fs" using heap_ok_fs(5) [OF ok] by simp
  then obtain m1 where m1: "blkmngr_remove_from_freelist ?b (st + 8) m = Some (Inr m1)"
    "\<And>x. x \<in> addrs ?bs \<Longrightarrow> blk_size m1 x = blk_size m x" "\<And>x. x \<in> addrs ?bs \<Longrightarrow> next_blk m1 x = next_blk m x"
    "read32 m1 st = read32 m st" "read32 m1 (st + 4) = read32 m (st + 4)"
    "fseg m1 (read32 m1 (st + 8)) (remove1 ?b fs) 0" "only_hdrs st (addrs ?bs) m m1"
    using remove_from_freelist [OF sep heap_ok_fs(1,2) [OF ok] _ heap_ok_fs(4) [OF ok]] by blast
  have v: "even ?v" "?v < 2 ^ 32" using sz(3,4) c32 by auto
  note F = sep_fields [OF sep _ _ v(2)]
  have "blk_size (set_size a ?v m1) a = ?v" using F(1) [of a a m1] by simp
  then have "realloc_next B (read32 m (st + 4)) a ?b m = Some (Inr (a + 12, set_size ?c ?v (set_size a ?v m1)))"
    using m1(1) m1(2) [of a] m1(2) [of ?b] sz v tail c32 w(3) set_size_set_free [OF v, of a False m1]
    by (simp add: realloc_next_def Let_def overhead_def add.commute add.left_commute) (simp add: set_size_def)
  moreover have "blk_size (set_size ?c ?v (set_size a ?v m1)) ?c = ?v" using F(1) [of ?c ?c] by simp
  moreover have "next_blk (set_size ?c ?v (set_size a ?v m1)) a = ?b"
    using F(7) [of ?c a] F(7) [of a a] m1(3) [of a] ok by (auto simp: heap_ok_def linked_append)
  ultimately show ?thesis by blast
qed

text \<open>A request of more than \<open>2^32 - 16\<close> bytes is rounded to zero: it is granted with an empty block.\<close>

lemma ceil_wraps: "ceil_to (2 ^ 32 - 8) 16 = 0"
  by (simp add: ceil_to_def)

lemma kmalloc_wraps:
  "\<exists>s. kmalloc (2 ^ 32 - 8) page_heap = Some (Inr (4120, s)) \<and> blk_size (bytes s) 4108 = 0"
proof -
  have inv: "kheap_inv page_heap [] []" by (rule page_heap_inv)
  then have ok: "heap_ok (bytes page_heap) 4096 4108 [] []" by (simp add: kheap_inv_def page_heap_def)
  have fl: "read32 (bytes page_heap) 4104 = 0" using heap_ok_fs(4) [OF ok] by simp
  obtain m' where m': "malloc_grow Kernel_Heap (0 + 12) page_heap =
      Inr (4108 + 12, page_heap\<lparr>kernel_heap_curr := 4108 + 12 + 0, bytes := m'\<rparr>)"
    "heap_ok m' 4096 (4108 + 12 + 0) ([] @ [(4108, 0, False)]) []"
    using malloc_grow_ok [OF inv, of 0] by (auto simp: page_heap_def)
  have "kmalloc (2 ^ 32 - 8) page_heap = Some (Inr (4120, page_heap\<lparr>kernel_heap_curr := 4120, bytes := m'\<rparr>))"
    using m'(1) fl ceil_wraps
    by (simp add: kmalloc_def do_malloc_def Let_def heap_area_def blkmngr_find_best_fitting_def overhead_def
        page_heap_def freelist_at_def)
  moreover have "blk_size m' 4108 = 0" using is_free_block(2) [OF m'(2), of 4108 0 False] by simp
  ultimately show ?thesis by simp
qed

end
