(* ===== verification/Paging.thy ===== *)
theory Paging
  imports Kheap_Client
begin

text \<open>
  Segments and memory descriptors of processes (\<open>src/mem/paging.c\<close>) and the user heap
  (\<open>umalloc\<close>, \<open>ufree\<close> of \<open>src/mem/kheap.c\<close>). The structures are allocated on the kernel heap; their
  fields are kept in the records \<open>mm_struct\<close> and \<open>vm_area\<close>, beside the heap bytes. A new image is
  built in a fresh record, which the functions return.
\<close>

section \<open>Definitions\<close>

definition sizeof_vm_area :: nat where "sizeof_vm_area = 24"
definition sizeof_mm_struct :: nat where "sizeof_mm_struct = 68"
definition UHEAP_INITIAL_SIZE :: nat where "UHEAP_INITIAL_SIZE = 2 ^ 20"

definition paging_is_enabled :: bool where "paging_is_enabled = False"

definition create_segment :: "mm_struct \<Rightarrow> nat \<Rightarrow> kheap \<Rightarrow> (nat \<times> mm_struct \<times> kheap) res option" where
  "create_segment mm n s =
     bindO (kmalloc sizeof_vm_area s) (\<lambda>(new_segment, s).
     if paging_is_enabled then Some (Inl AssertFail)
     else let order = find_nearest_order_greater n
     in bindO (Some (alloc_pages GFP_HIGHUSER order (pages s))) (\<lambda>(start, p).
        Some (Inr (start,
          mm\<lparr>mmap := (new_segment, \<lparr>vm_start = start, vm_end = u32n (start + 2 ^ order * PAGE_SIZE)\<rparr>) # mmap mm,
             mmap_cache := new_segment,
             map_count := map_count mm + 1,
             total_vm := u32n (total_vm mm + 2 ^ order)\<rparr>,
          s\<lparr>pages := p\<rparr>))))"

definition empty_mm :: "nat \<Rightarrow> mm_struct" where
  "empty_mm a = \<lparr>mm_addr = a, mmap = [], mmap_cache = 0, map_count = 0, start_brk = 0, brk = 0, start_stack = 0, total_vm = 0\<rparr>"

definition create_process_image :: "nat \<Rightarrow> kheap \<Rightarrow> (mm_struct \<times> kheap) res option" where
  "create_process_image stack_size s =
     bindO (kmalloc sizeof_mm_struct s) (\<lambda>(a, s).
     let s = s\<lparr>bytes := memset (bytes s) a 0 sizeof_mm_struct\<rparr>
     in bindO (create_segment (empty_mm a) stack_size s) (\<lambda>(start, mm, s).
        Some (Inr (mm\<lparr>start_stack := start\<rparr>, s))))"

fun destroy_segments :: "(nat \<times> vm_area) list \<Rightarrow> kheap \<Rightarrow> kheap res option" where
  "destroy_segments [] s = Some (Inr s)"
| "destroy_segments ((at, g) # gs) s =
     (if paging_is_enabled then Some (Inl AssertFail)
      else let n = sub32 (vm_end g) (vm_start g); order = find_nearest_order_greater n
      in bindO (Some (free_pages (vm_start g) order (pages s))) (\<lambda>p.
         bindO (kfree at (s\<lparr>pages := p\<rparr>)) (destroy_segments gs)))"

definition destroy_process_image :: "mm_struct \<Rightarrow> kheap \<Rightarrow> kheap res option" where
  "destroy_process_image mm s =
     (if mm_addr mm = 0 then Some (Inl AssertFail)
      else bindO (destroy_segments (mmap mm) s) (kfree (mm_addr mm)))"

text \<open>The user heap: the first request creates its segment and reserves the three words at its start.\<close>

definition umalloc :: "nat \<Rightarrow> kheap \<Rightarrow> (nat \<times> kheap) res option" where
  "umalloc n s =
     bindO (Some (find_user_heap s)) (\<lambda>h. case h of
         Some g \<Rightarrow> do_malloc (User_Heap g) n s
       | None \<Rightarrow>
           bindO (create_segment (cur_mm s) UHEAP_INITIAL_SIZE s) (\<lambda>(start, mm, s).
           let s = s\<lparr>cur_mm := mm\<lparr>start_brk := start, brk := u32n (start + 3 * 4)\<rparr>\<rparr>
           in bindO (Some (find_user_heap s)) (\<lambda>h. case h of
                None \<Rightarrow> Some (Inl NullDeref)
              | Some g \<Rightarrow> do_malloc (User_Heap g) n s)))"

definition ufree :: "nat \<Rightarrow> kheap \<Rightarrow> kheap res option" where
  "ufree ptr s =
     bindO (Some (find_user_heap s)) (\<lambda>h. case h of
         None \<Rightarrow> Some (Inr s)
       | Some g \<Rightarrow> bindO (do_free g ptr (bytes s)) (\<lambda>m. Some (Inr (s\<lparr>bytes := m\<rparr>))))"

section \<open>Zeroed blocks\<close>

lemma memset_bytes: "memset m b v n x = (if b \<le> x \<and> x < b + n then word_of_int (v AND 0xFF) else m x)"
  by (simp add: memset_def memset_loop_eq)

text \<open>A block that was just allocated is filled with zeroes.\<close>

lemma zero_block:
  assumes inv: "kheap_inv s bs fs" and a: "(a, k) \<in> used bs" "n \<le> k" and U: "U \<subseteq> used bs" "(a, k) \<notin> U"
  shows "kheap_inv (s\<lparr>bytes := memset (bytes s) (a + 12) 0 n\<rparr>) bs fs"
    and "same_payload U (bytes s) (memset (bytes s) (a + 12) 0 n)"
  by (rule block_write [OF inv a(1) _ U], use a(2) in \<open>auto simp: memset_bytes\<close>)+

text \<open>
  \<open>kcalloc\<close> of a number of elements whose total size does not wrap ends and returns a block in
  use of at least that size with all its requested bytes zero, apart from which nothing in use
  changes; or fails its assertion.
\<close>

theorem kcalloc_zeroes:
  assumes "kheap_inv s bs fs" "request_ok (num * n)"
  shows "kcalloc num n s = Some (Inl AssertFail) \<or>
    (\<exists>a k s' bs' fs'. kcalloc num n s = Some (Inr (a + 12, s')) \<and> kheap_inv s' bs' fs' \<and> num * n \<le> k \<and>
       (a, k) \<notin> used bs \<and> used bs' = insert (a, k) (used bs) \<and> same_payload (used bs) (bytes s) (bytes s') \<and>
       (\<forall>x. a + 12 \<le> x \<and> x < a + 12 + num * n \<longrightarrow> bytes s' x = 0))"
proof -
  have wrap: "u32n (num * n) = num * n" using assms(2) by (simp add: request_ok_def)
  from assms show ?thesis
  proof (cases rule: kmalloc_law)
    case (got a k s' bs' fs')
    let ?m = "memset (bytes s') (a + 12) 0 (num * n)"
    have z: "kheap_inv (s'\<lparr>bytes := ?m\<rparr>) bs' fs'" "same_payload (used bs) (bytes s') ?m"
      using zero_block [OF got(2,4,5), of "used bs"] got(6,7) by auto
    have "kcalloc num n s = Some (Inr (a + 12, s'\<lparr>bytes := ?m\<rparr>))"
      using got(1) wrap by (simp add: kcalloc_def)
    moreover have "same_payload (used bs) (bytes s) ?m" using kh.same_payload_trans [OF got(8) z(2)] by simp
    moreover have "\<forall>x. a + 12 \<le> x \<and> x < a + 12 + num * n \<longrightarrow> ?m x = 0" by (simp add: memset_bytes)
    ultimately show ?thesis using got(5-7) z(1)
      by (intro disjI2 exI [of _ a] exI [of _ k] exI [of _ "s'\<lparr>bytes := ?m\<rparr>"] exI [of _ bs'] exI [of _ fs']) simp
  next
    case full
    then show ?thesis using wrap by (simp add: kcalloc_def)
  qed
qed

theorem kcalloc_zeroes_witness:
  "kcalloc 3 4 page_heap = Some (Inl AssertFail) \<or>
    (\<exists>a k s' bs' fs'. kcalloc 3 4 page_heap = Some (Inr (a + 12, s')) \<and> kheap_inv s' bs' fs' \<and> 12 \<le> k \<and> used bs' = {(a, k)})"
proof -
  have "request_ok (3 * 4)" by (simp add: request_ok_def)
  from kcalloc_zeroes [OF page_heap_inv this] show ?thesis by simp blast
qed

section \<open>Images of processes\<close>

lemma kmalloc_keeps:
  assumes "kmalloc n s = Some (Inr (p, s'))"
  shows "pages s' = pages s" "cur_mm s' = cur_mm s"
  using assms
  by (auto simp: kmalloc_def do_malloc_def malloc_grow_def heap_sbrk_def ksbrk_def do_brk_def Let_def bindO_Inr
      split: if_splits prod.splits)

lemma kfree_keeps:
  assumes "kfree p s = Some (Inr s')"
  shows "pages s' = pages s" "cur_mm s' = cur_mm s"
  using assms by (auto simp: kfree_def bindO_Inr)

lemma kheap_inv_pages [simp]: "kheap_inv (s\<lparr>pages := p\<rparr>) bs fs \<longleftrightarrow> kheap_inv s bs fs"
  by (simp add: kheap_inv_def)

lemma kheap_repr_pages [simp]: "kheap_repr (s\<lparr>pages := p\<rparr>) U \<longleftrightarrow> kheap_repr s U"
  by (simp add: kheap_repr_def)

lemma order_of_block:
  assumes "k \<le> 10"
  shows "find_nearest_order_greater (2 ^ k * 4096) = k"
proof -
  have small: "(2 ^ k * 4096 :: nat) \<le> 2 ^ 10 * 4096" using power_increasing [OF assms, of "2 :: nat"] by simp
  then have n: "2 ^ k * 4096 + 4095 < (2 ^ 32 :: nat)" by simp
  let ?f = "find_nearest_order_greater (2 ^ k * 4096)"
  have "k \<le> ?f" using find_nearest_order(1) [OF n] by simp
  moreover have "\<not> k < ?f" using find_nearest_order(2) [OF n, of k] by auto
  ultimately show ?thesis by simp
qed

lemma kmalloc_got:
  assumes "kheap_repr s U" "request_ok n" "kmalloc n s = Some (Inr (p, s'))"
  obtains a k where "p = a + 12" "(a, k) \<notin> U" "n \<le> k" "kheap_repr s' (insert (a, k) U)" "same_payload U (bytes s) (bytes s')"
  using kh.alloc_law [OF assms(1,2)] assms(3) by auto

lemma kheap_repr_zero:
  assumes "kheap_repr s (insert (a, k) U)" "(a, k) \<notin> U" "n \<le> k"
  shows "kheap_repr (s\<lparr>bytes := memset (bytes s) (a + 12) 0 n\<rparr>) (insert (a, k) U)"
    and "same_payload U (bytes s) (memset (bytes s) (a + 12) 0 n)"
proof -
  obtain bs fs where "kheap_inv s bs fs" "used bs = insert (a, k) U" using assms(1) by (auto simp: kheap_repr_def)
  with zero_block [of s bs fs a k n U] assms(2,3)
  show "kheap_repr (s\<lparr>bytes := memset (bytes s) (a + 12) 0 n\<rparr>) (insert (a, k) U)"
    "same_payload U (bytes s) (memset (bytes s) (a + 12) 0 n)" unfolding kheap_repr_def by (metis insertI1 subset_insertI)+
qed

lemma segment_size:
  assumes "x + y \<le> 2 ^ 32" "y < 2 ^ 32"
  shows "sub32 (u32n (x + y)) x = y"
proof (cases "x + y = 2 ^ 32")
  case True
  then have "u32n (x + y) = 0" "2 ^ 32 - x = y" by (simp_all add: u32n_def)
  with assms(2) show ?thesis by (simp add: sub32_def)
next
  case False
  with assms show ?thesis by simp
qed

text \<open>The release of the only segment of a new image gives its page frames and its structure back.\<close>

lemma create_process_image_inv:
  assumes repr: "kheap_repr s U" and pmm: "pmm_inv (pages s)" and o: "find_nearest_order_greater n \<le> 10"
    and run: "free_run (mem_map (pages s)) b (2 ^ find_nearest_order_greater n)"
      "{b..<b + 2 ^ find_nearest_order_greater n} \<subseteq> zone_pages (node_zones (pages s) ! 1)"
    and made: "create_process_image n s = Some (Inr (mm, s1))"
  obtains a1 k1 a2 k2 c p where "mm_addr mm = a1 + 12" "(a1, k1) \<notin> U" "(a2, k2) \<notin> insert (a1, k1) U"
    "mmap mm = [(a2 + 12, \<lparr>vm_start = c * 4096, vm_end = u32n (c * 4096 + 2 ^ find_nearest_order_greater n * 4096)\<rparr>)]"
    "kheap_repr s1 (insert (a2, k2) (insert (a1, k1) U))" "pages s1 = p" "pmm_inv p"
    "free_pages (c * 4096) (find_nearest_order_greater n) p = Inr (pages s)" "c + 2 ^ find_nearest_order_greater n \<le> 2 ^ 20"
    "same_payload U (bytes s) (bytes s1)"
proof -
  let ?o = "find_nearest_order_greater n"
  have req: "request_ok sizeof_mm_struct" "request_ok sizeof_vm_area"
    by (simp_all add: request_ok_def sizeof_mm_struct_def sizeof_vm_area_def)
  from made obtain q sa where sa: "kmalloc sizeof_mm_struct s = Some (Inr (q, sa))"
    by (auto simp: create_process_image_def bindO_Inr)
  obtain a1 k1 where a1: "q = a1 + 12" "(a1, k1) \<notin> U" "sizeof_mm_struct \<le> k1" "kheap_repr sa (insert (a1, k1) U)"
    "same_payload U (bytes s) (bytes sa)" using kmalloc_got [OF repr req(1) sa] .
  define sb where "sb = sa\<lparr>bytes := memset (bytes sa) (a1 + 12) 0 sizeof_mm_struct\<rparr>"
  have sb: "kheap_repr sb (insert (a1, k1) U)" "same_payload U (bytes sa) (bytes sb)" "pages sb = pages s"
    using kheap_repr_zero [OF a1(4,2,3)] kmalloc_keeps(1) [OF sa] by (auto simp: sb_def)
  from made sa a1(1) obtain r sc where sc: "kmalloc sizeof_vm_area sb = Some (Inr (r, sc))"
    by (auto simp: create_process_image_def create_segment_def sb_def bindO_Inr)
  obtain a2 k2 where a2: "r = a2 + 12" "(a2, k2) \<notin> insert (a1, k1) U" "kheap_repr sc (insert (a2, k2) (insert (a1, k1) U))"
    "same_payload (insert (a1, k1) U) (bytes sb) (bytes sc)" using kmalloc_got [OF sb(1) req(2) sc] by metis
  have pc: "pages sc = pages s" using kmalloc_keeps(1) [OF sc] sb(3) by simp
  obtain c p where c: "alloc_pages GFP_HIGHUSER ?o (pages s) = Inr (c * 4096, p)" "free_run (mem_map (pages s)) c (2 ^ ?o)"
    "pmm_inv p" "free_pages (c * 4096) ?o p = Inr (pages s)"
    using alloc_pages_round [OF pmm gfp_zone(2) o run] by auto
  have "mm = (empty_mm (a1 + 12))\<lparr>mmap := [(a2 + 12, \<lparr>vm_start = c * 4096, vm_end = u32n (c * 4096 + 2 ^ ?o * 4096)\<rparr>)],
      mmap_cache := a2 + 12, map_count := 1, total_vm := u32n (2 ^ ?o), start_stack := c * 4096\<rparr>" "s1 = sc\<lparr>pages := p\<rparr>"
    using made sa a1(1) sc a2(1) c(1) pc
    by (auto simp: create_process_image_def create_segment_def sb_def paging_is_enabled_def Let_def PAGE_SIZE_def empty_mm_def)
  moreover have "c + 2 ^ ?o \<le> 2 ^ 20" using c(2) pmm by (auto simp: free_run_iff pmm_inv_def)
  moreover have "same_payload U (bytes s) (bytes sc)"
    using kh.same_payload_trans [OF kh.same_payload_trans [OF a1(5) sb(2), of U] a2(4), of U] by auto
  ultimately show thesis using that [of a1 k1 a2 k2 c p] a1(2) a2(2,3) c(3,4) by (simp add: empty_mm_def)
qed

lemma block_freed:
  assumes "kheap_repr s (insert (a, k) U)" "(a, k) \<notin> U"
  obtains s' where "kfree (a + 12) s = Some (Inr s')" "kheap_repr s' U" "same_payload U (bytes s) (bytes s')" "pages s' = pages s"
proof -
  have "insert (a, k) U - {(a, k)} = U" using assms(2) by simp
  with kh.release_law [OF assms(1), of a k] kfree_keeps(1) that show thesis by (metis insertI1)
qed

text \<open>
  C21. A process image is destroyed without a trace: when \<open>create_process_image\<close> returns an image, with
  a free run of page frames of the user zone for its stack, \<open>destroy_process_image\<close> of it ends
  without a fault, the page frames are exactly as before, the blocks in use on the kernel heap are
  those from before and their contents are unchanged.
\<close>

theorem process_image_roundtrip:
  assumes "kheap_repr s U" "pmm_inv (pages s)" "find_nearest_order_greater n \<le> 10"
    and "free_run (mem_map (pages s)) b (2 ^ find_nearest_order_greater n)"
      "{b..<b + 2 ^ find_nearest_order_greater n} \<subseteq> zone_pages (node_zones (pages s) ! 1)"
    and "create_process_image n s = Some (Inr (mm, s1))"
  shows "\<exists>s2. destroy_process_image mm s1 = Some (Inr s2) \<and> pages s2 = pages s \<and> kheap_repr s2 U \<and>
    same_payload U (bytes s) (bytes s2)"
proof -
  let ?o = "find_nearest_order_greater n"
  obtain a1 k1 a2 k2 c p where i: "mm_addr mm = a1 + 12" "(a1, k1) \<notin> U" "(a2, k2) \<notin> insert (a1, k1) U"
    "mmap mm = [(a2 + 12, \<lparr>vm_start = c * 4096, vm_end = u32n (c * 4096 + 2 ^ ?o * 4096)\<rparr>)]"
    "kheap_repr s1 (insert (a2, k2) (insert (a1, k1) U))" "pages s1 = p" "pmm_inv p"
    "free_pages (c * 4096) ?o p = Inr (pages s)" "c + 2 ^ ?o \<le> 2 ^ 20" "same_payload U (bytes s) (bytes s1)"
    by (rule create_process_image_inv [OF assms])
  have "(c + 2 ^ ?o) * 4096 \<le> 2 ^ 20 * 4096" using i(9) by (rule mult_le_mono1)
  then have "c * 4096 + 2 ^ ?o * 4096 \<le> 2 ^ 32" by (simp add: add_mult_distrib)
  moreover have "(2 ^ ?o * 4096 :: nat) \<le> 2 ^ 10 * 4096" using power_increasing [OF assms(3), of "2 :: nat"] by simp
  then have "(2 ^ ?o * 4096 :: nat) < 2 ^ 32" by simp
  ultimately have sz: "find_nearest_order_greater (sub32 (u32n (c * 4096 + 2 ^ ?o * 4096)) (c * 4096)) = ?o"
    using segment_size order_of_block [OF assms(3)] by metis
  obtain sa where sa: "kfree (a2 + 12) (s1\<lparr>pages := pages s\<rparr>) = Some (Inr sa)" "kheap_repr sa (insert (a1, k1) U)"
    "same_payload (insert (a1, k1) U) (bytes s1) (bytes sa)" "pages sa = pages s"
    using block_freed [of "s1\<lparr>pages := pages s\<rparr>" a2 k2 "insert (a1, k1) U"] i(3,5) by auto
  obtain sb where sb: "kfree (a1 + 12) sa = Some (Inr sb)" "kheap_repr sb U" "same_payload U (bytes sa) (bytes sb)" "pages sb = pages s"
    using block_freed [OF sa(2) i(2)] sa(4) by auto
  have "destroy_process_image mm s1 = Some (Inr sb)"
    using i(1,4,6,8) sz sa(1) sb(1) by (simp add: destroy_process_image_def paging_is_enabled_def Let_def)
  moreover have "same_payload U (bytes s) (bytes sb)"
    using kh.same_payload_trans [OF kh.same_payload_trans [OF i(10) sa(3), of U] sb(3), of U] by auto
  ultimately show ?thesis using sb(2,4) by blast
qed

text \<open>A stack of one page, on a heap of one page and a memory with a free page in the user zone.\<close>

lemma order_4096: "find_nearest_order_greater 4096 = 0"
  using order_of_block [of 0] by simp

lemma kmalloc_room:
  assumes "kheap_inv s bs fs" "request_ok n" "kernel_heap_curr s + 12 + ceil_to n 16 \<le> vm_end (kernel_heap s)"
  obtains a k s' bs' fs' where "kmalloc n s = Some (Inr (a + 12, s'))" "kheap_inv s' bs' fs'" "(a, k) \<in> used bs'" "n \<le> k"
    "kernel_heap s' = kernel_heap s" "kernel_heap_curr s' \<le> kernel_heap_curr s + 12 + ceil_to n 16"
proof -
  have n: "0 < n" "n + 15 < 2 ^ 32" using assms(2) by (auto simp: request_ok_def)
  have big: "\<exists>k. (p, k) \<in> used bs' \<and> n \<le> k" if "malloc_blocks bs hc (ceil_to n 16) bs' p" for hc bs' p
    using malloc_blocks_used [OF that] ceil_16(1) [OF n] by (metis le_trans)
  from assms(1) n refl [of "ceil_to n 16"] show thesis
  proof (cases rule: kmalloc_cases)
    case (fit bs' fs' p m')
    with big [OF fit(2)] that show thesis by force
  next
    case (grow bs' fs' p m')
    with big [OF grow(2)] that show thesis by force
  next
    case full
    with assms(3) show thesis by simp
  qed
qed

lemma page_heap_image:
  "\<exists>mm s1. create_process_image 4096 (page_heap\<lparr>pages := small_pmm\<rparr>) = Some (Inr (mm, s1))"
proof -
  let ?s = "page_heap\<lparr>pages := small_pmm\<rparr>"
  have inv: "kheap_inv ?s [] []" using page_heap_inv by simp
  have c: "ceil_to 68 16 = 80" "ceil_to 24 16 = 32" by (simp_all add: ceil_to_def)
  have top: "kernel_heap_curr ?s = 4108" "vm_end (kernel_heap ?s) = 8192" "pages ?s = small_pmm" by (simp_all add: page_heap_def)
  obtain a k s' bs' fs' where m: "kmalloc 68 ?s = Some (Inr (a + 12, s'))" "kheap_inv s' bs' fs'" "(a, k) \<in> used bs'" "68 \<le> k"
    "kernel_heap s' = kernel_heap ?s" "kernel_heap_curr s' \<le> kernel_heap_curr ?s + 12 + ceil_to 68 16"
    by (rule kmalloc_room [OF inv, of 68]) (simp_all only: c top, simp_all add: request_ok_def)
  let ?t = "s'\<lparr>bytes := memset (bytes s') (a + 12) 0 68\<rparr>"
  have t: "kheap_inv ?t bs' fs'" using zero_block(1) [OF m(2-4), of "{}"] by simp
  have "kernel_heap_curr ?t + 12 + ceil_to 24 16 \<le> vm_end (kernel_heap ?t)" using m(5,6) c top by simp
  then obtain q u where u: "kmalloc 24 ?t = Some (Inr (q, u))"
    by (rule kmalloc_room [OF t, of 24, rotated]) (auto simp: request_ok_def)
  have pu: "pages u = small_pmm" using kmalloc_keeps(1) [OF u] kmalloc_keeps(1) [OF m(1)] top(3) by simp
  have "alloc_pages GFP_HIGHUSER 0 small_pmm = Inr (5 * 4096, snd (projr (alloc_pages GFP_HIGHUSER 0 small_pmm)))"
    by (simp add: alloc_pages_def small_pmm_def MAX_ORDER_def search_block.simps PAGE_SIZE_def)
  then obtain r where "alloc_pages GFP_HIGHUSER 0 small_pmm = Inr r" by blast
  with m(1) u pu order_4096 show ?thesis
    by (cases r) (simp add: create_process_image_def create_segment_def sizeof_mm_struct_def sizeof_vm_area_def
        paging_is_enabled_def Let_def)
qed

theorem process_image_roundtrip_witness:
  "\<exists>mm s1 s2. create_process_image 4096 (page_heap\<lparr>pages := small_pmm\<rparr>) = Some (Inr (mm, s1)) \<and>
     destroy_process_image mm s1 = Some (Inr s2) \<and> pages s2 = small_pmm \<and> kheap_repr s2 {}"
proof -
  let ?s = "page_heap\<lparr>pages := small_pmm\<rparr>"
  obtain mm s1 where made: "create_process_image 4096 ?s = Some (Inr (mm, s1))" using page_heap_image by blast
  have "kheap_repr ?s {}" using page_heap_inv unfolding kheap_repr_pages unfolding kheap_repr_def by (metis used_simps(1))
  moreover have "free_run (mem_map (pages ?s)) 5 (2 ^ find_nearest_order_greater 4096)"
    "{5..<5 + 2 ^ find_nearest_order_greater 4096} \<subseteq> zone_pages (node_zones (pages ?s) ! 1)"
    by (simp_all add: order_4096 small_pmm_def free_run_def upt_rec zone_pages_def)
  moreover have "pmm_inv (pages ?s)" "find_nearest_order_greater 4096 \<le> 10" using small_pmm_inv order_4096 by simp_all
  ultimately show ?thesis using process_image_roundtrip [of ?s "{}" 4096 5 mm s1] made by auto
qed

end
