(* ===== verification/Rbtree.thy ===== *)
theory Rbtree
  imports Prelude
begin

text \<open>
  The red-black trees of \<open>src/libc/rbtree.c\<close>: top-down insertion and removal without parent pointers,
  search, iterators and the self-test, on a store of nodes. A direction is a \<open>bool\<close> (\<open>link[0]\<close> is the
  link at \<open>False\<close>, \<open>link[1]\<close> the one at \<open>True\<close>), a value is a pointer with \<open>0\<close> for \<open>NULL\<close>. Nodes are
  opaque to the comparison, which reads them through \<open>rbtree_node_get_value\<close> only, so it is a function
  of two values. The addresses of the local variable \<open>head\<close> and of a new node are arguments.
\<close>

section \<open>Nodes\<close>

record rbnode =
  red :: bool
  link :: "bool \<Rightarrow> nat option"
  rbvalue :: nat

type_synonym rbheap = "nat \<Rightarrow> rbnode option"

record rbtree =
  root :: "nat option"
  cmp :: "nat \<Rightarrow> nat \<Rightarrow> int"
  rbsize :: u32

definition node_of :: "rbheap \<Rightarrow> nat option \<Rightarrow> rbnode res" where
  "node_of H p = (case p of None \<Rightarrow> Inl NullDeref
     | Some a \<Rightarrow> (case H a of None \<Rightarrow> Inl OutOfBounds | Some n \<Rightarrow> Inr n))"

definition set_link :: "nat option \<Rightarrow> bool \<Rightarrow> nat option \<Rightarrow> rbheap \<Rightarrow> rbheap res" where
  "set_link p d x H = bindR (node_of H p) (\<lambda>n. Inr (H(the p \<mapsto> n\<lparr>link := (link n)(d := x)\<rparr>)))"

definition set_red :: "nat option \<Rightarrow> bool \<Rightarrow> rbheap \<Rightarrow> rbheap res" where
  "set_red p c H = bindR (node_of H p) (\<lambda>n. Inr (H(the p \<mapsto> n\<lparr>red := c\<rparr>)))"

definition set_rbvalue :: "nat option \<Rightarrow> nat \<Rightarrow> rbheap \<Rightarrow> rbheap res" where
  "set_rbvalue p v H = bindR (node_of H p) (\<lambda>n. Inr (H(the p \<mapsto> n\<lparr>rbvalue := v\<rparr>)))"

text \<open>\<open>free\<close> of a node; a second release of the same node is an error.\<close>

definition free_rbnode :: "nat option \<Rightarrow> rbheap \<Rightarrow> rbheap res" where
  "free_rbnode p H = bindR (node_of H p) (\<lambda>n. Inr (H(the p := None)))"

definition rbtree_node_init :: "nat option \<Rightarrow> nat \<Rightarrow> rbheap \<Rightarrow> rbheap" where
  "rbtree_node_init self v H =
     (case self of None \<Rightarrow> H | Some a \<Rightarrow> H(a \<mapsto> \<lparr>red = True, link = (\<lambda>_. None), rbvalue = v\<rparr>))"

text \<open>\<open>new\<close> is what \<open>malloc\<close> returns.\<close>

definition rbtree_node_create :: "nat option \<Rightarrow> nat \<Rightarrow> rbheap \<Rightarrow> nat option \<times> rbheap" where
  "rbtree_node_create new v H = (new, rbtree_node_init new v H)"

definition rbtree_node_get_value :: "rbheap \<Rightarrow> nat option \<Rightarrow> nat res" where
  "rbtree_node_get_value H self =
     (case self of None \<Rightarrow> Inr 0 | Some _ \<Rightarrow> bindR (node_of H self) (\<lambda>n. Inr (rbvalue n)))"

definition rbtree_node_dealloc :: "nat option \<Rightarrow> rbheap \<Rightarrow> rbheap res" where
  "rbtree_node_dealloc self H = (case self of None \<Rightarrow> Inr H | Some _ \<Rightarrow> free_rbnode self H)"

definition rbtree_node_is_red :: "rbheap \<Rightarrow> nat option \<Rightarrow> bool res" where
  "rbtree_node_is_red H self =
     (case self of None \<Rightarrow> Inr False | Some _ \<Rightarrow> bindR (node_of H self) (\<lambda>n. Inr (red n)))"

definition rbtree_node_rotate :: "nat option \<Rightarrow> bool \<Rightarrow> rbheap \<Rightarrow> (nat option \<times> rbheap) res" where
  "rbtree_node_rotate self dir H =
     (case self of
        None \<Rightarrow> Inr (None, H)
      | Some _ \<Rightarrow>
          bindR (node_of H self) (\<lambda>s.
          let result = link s (\<not> dir) in
          bindR (node_of H result) (\<lambda>r.
          bindR (set_link self (\<not> dir) (link r dir) H) (\<lambda>H.
          bindR (set_link result dir self H) (\<lambda>H.
          bindR (set_red self True H) (\<lambda>H.
          bindR (set_red result False H) (\<lambda>H.
          Inr (result, H))))))))"

definition rbtree_node_rotate2 :: "nat option \<Rightarrow> bool \<Rightarrow> rbheap \<Rightarrow> (nat option \<times> rbheap) res" where
  "rbtree_node_rotate2 self dir H =
     (case self of
        None \<Rightarrow> Inr (None, H)
      | Some _ \<Rightarrow>
          bindR (node_of H self) (\<lambda>s.
          bindR (rbtree_node_rotate (link s (\<not> dir)) (\<not> dir) H) (\<lambda>(r, H).
          bindR (set_link self (\<not> dir) r H) (\<lambda>H.
          rbtree_node_rotate self dir H))))"

section \<open>Trees\<close>

definition rbtree_tree_node_cmp_ptr_cb :: "nat \<Rightarrow> nat \<Rightarrow> int" where
  "rbtree_tree_node_cmp_ptr_cb a b = of_bool (a > b) - of_bool (a < b)"

definition rbtree_tree_node_dealloc_cb :: "rbtree option \<Rightarrow> nat option \<Rightarrow> rbheap \<Rightarrow> rbheap res" where
  "rbtree_tree_node_dealloc_cb self node H =
     (case self of None \<Rightarrow> Inr H | Some _ \<Rightarrow> (case node of None \<Rightarrow> Inr H | Some _ \<Rightarrow> rbtree_node_dealloc node H))"

definition rbtree_tree_init :: "rbtree option \<Rightarrow> (nat \<Rightarrow> nat \<Rightarrow> int) option \<Rightarrow> rbtree option" where
  "rbtree_tree_init self node_cmp_cb =
     (case self of None \<Rightarrow> None
      | Some t \<Rightarrow> Some (t\<lparr>root := None, rbsize := 0,
          cmp := (case node_cmp_cb of Some f \<Rightarrow> f | None \<Rightarrow> rbtree_tree_node_cmp_ptr_cb)\<rparr>))"

definition rbtree_tree_size :: "rbtree option \<Rightarrow> u32" where
  "rbtree_tree_size self = (case self of None \<Rightarrow> 0 | Some t \<Rightarrow> rbsize t)"

subsection \<open>Search\<close>

text \<open>The loop of both searches; \<open>c u\<close> is the comparison of the value \<open>u\<close> of a node with what is searched.\<close>

partial_function (option) find_loop :: "(nat \<Rightarrow> int) \<Rightarrow> rbheap \<Rightarrow> nat option \<Rightarrow> nat option res option" where
  "find_loop c H it =
     (case it of
        None \<Rightarrow> Some (Inr None)
      | Some _ \<Rightarrow>
         (case node_of H it of
            Inl e \<Rightarrow> Some (Inl e)
          | Inr n \<Rightarrow>
              if c (rbvalue n) \<noteq> 0 then find_loop c H (link n (c (rbvalue n) < 0))
              else Some (Inr it)))"

definition found_value :: "rbheap \<Rightarrow> nat option \<Rightarrow> nat res" where
  "found_value H it = (case it of None \<Rightarrow> Inr 0 | Some _ \<Rightarrow> bindR (node_of H it) (\<lambda>n. Inr (rbvalue n)))"

definition rbtree_tree_find :: "rbtree option \<Rightarrow> nat \<Rightarrow> rbheap \<Rightarrow> nat res option" where
  "rbtree_tree_find self v H =
     (case self of None \<Rightarrow> Some (Inr 0)
      | Some t \<Rightarrow> bindO (find_loop (\<lambda>u. cmp t u v) H (root t)) (\<lambda>it. Some (found_value H it)))"

definition rbtree_tree_find_by_value :: "rbtree option \<Rightarrow> (nat \<Rightarrow> nat \<Rightarrow> int) \<Rightarrow> nat \<Rightarrow> rbheap \<Rightarrow> nat res option" where
  "rbtree_tree_find_by_value self cmp_fun v H =
     (case self of None \<Rightarrow> Some (Inr 0)
      | Some t \<Rightarrow> bindO (find_loop (\<lambda>u. cmp_fun u v) H (root t)) (\<lambda>it. Some (found_value H it)))"

subsection \<open>Insertion\<close>

text \<open>First part of the loop body: the node is linked at a null link, or the colours are flipped.\<close>

definition insert_place :: "nat \<Rightarrow> nat option \<Rightarrow> nat option \<Rightarrow> bool \<Rightarrow> rbheap \<Rightarrow> (nat option \<times> rbheap) res" where
  "insert_place node p q dir H =
     (case q of
        None \<Rightarrow> bindR (set_link p dir (Some node) H) (\<lambda>H. Inr (Some node, H))
      | Some _ \<Rightarrow>
          bindR (node_of H q) (\<lambda>n.
          bindR (rbtree_node_is_red H (link n False)) (\<lambda>l.
          if \<not> l then Inr (q, H)
          else bindR (rbtree_node_is_red H (link n True)) (\<lambda>r.
          if \<not> r then Inr (q, H)
          else
            bindR (set_red q True H) (\<lambda>H.
            bindR (set_red (link n False) False H) (\<lambda>H.
            bindR (set_red (link n True) False H) (\<lambda>H.
            Inr (q, H))))))))"

text \<open>Second part: two red nodes in a row are rotated away.\<close>

definition insert_rotate :: "nat option \<Rightarrow> nat option \<Rightarrow> nat option \<Rightarrow> nat option \<Rightarrow> bool \<Rightarrow> rbheap \<Rightarrow> rbheap res" where
  "insert_rotate t g p q ldir H =
     bindR (rbtree_node_is_red H q) (\<lambda>rq.
     if \<not> rq then Inr H
     else bindR (rbtree_node_is_red H p) (\<lambda>rp.
     if \<not> rp then Inr H
     else
       bindR (node_of H t) (\<lambda>tn.
       let dir2 = (link tn True = g) in
       bindR (node_of H p) (\<lambda>pn.
       bindR (if q = link pn ldir then rbtree_node_rotate g (\<not> ldir) H
              else rbtree_node_rotate2 g (\<not> ldir) H) (\<lambda>(r, H).
       set_link t dir2 r H)))))"

definition insert_body ::
  "nat \<Rightarrow> nat option \<Rightarrow> nat option \<Rightarrow> nat option \<Rightarrow> nat option \<Rightarrow> bool \<Rightarrow> bool \<Rightarrow> rbheap \<Rightarrow>
     (nat option \<times> rbnode \<times> rbnode \<times> rbheap) res" where
  "insert_body node t g p q dir ldir H =
     bindR (insert_place node p q dir H) (\<lambda>(q, H).
     bindR (insert_rotate t g p q ldir H) (\<lambda>H.
     bindR (node_of H q) (\<lambda>qn.
     bindR (node_of H (Some node)) (\<lambda>nn.
     Inr (q, qn, nn, H)))))"

partial_function (option) insert_loop ::
  "(nat \<Rightarrow> nat \<Rightarrow> int) \<Rightarrow> nat \<Rightarrow> nat option \<Rightarrow> nat option \<Rightarrow> nat option \<Rightarrow> nat option \<Rightarrow> bool \<Rightarrow> bool \<Rightarrow>
     rbheap \<Rightarrow> rbheap res option" where
  "insert_loop cmpf node t g p q dir ldir H =
     (case insert_body node t g p q dir ldir H of
        Inl e \<Rightarrow> Some (Inl e)
      | Inr (q, qn, nn, H) \<Rightarrow>
          if cmpf (rbvalue qn) (rbvalue nn) = 0 then Some (Inr H)
          else
            let ldir = dir;
                dir = (cmpf (rbvalue qn) (rbvalue nn) < 0);
                t = (if g \<noteq> None then g else t)
            in insert_loop cmpf node t p q (link qn dir) dir ldir H)"

text \<open>The false root \<open>head\<close> is a node on the stack, zero but for its right link.\<close>

definition false_root :: "nat option \<Rightarrow> rbnode" where
  "false_root r = \<lparr>red = False, link = (\<lambda>d. if d then r else None), rbvalue = 0\<rparr>"

definition insert_into :: "nat \<Rightarrow> nat \<Rightarrow> rbtree \<Rightarrow> rbheap \<Rightarrow> (nat option \<times> rbheap) res option" where
  "insert_into head node self H =
     bindO (insert_loop (cmp self) node (Some head) None None (root self) False False
              (H(head \<mapsto> false_root (root self)))) (\<lambda>H.
     bindO (Some (node_of H (Some head))) (\<lambda>h. Some (Inr (link h True, H(head := None)))))"

definition rbtree_tree_insert_node ::
  "nat \<Rightarrow> rbtree option \<Rightarrow> nat option \<Rightarrow> rbheap \<Rightarrow> (int \<times> rbtree option \<times> rbheap) res option" where
  "rbtree_tree_insert_node head self node H =
     (case (self, node) of
        (Some t, Some a) \<Rightarrow>
          bindO (if root t = None then Some (Inr (node, H)) else insert_into head a t H) (\<lambda>(r, H).
          bindO (Some (set_red r False H)) (\<lambda>H.
          Some (Inr (1, Some (t\<lparr>root := r, rbsize := rbsize t + 1\<rparr>), H))))
      | _ \<Rightarrow> Some (Inr (1, self, H)))"

definition rbtree_tree_insert ::
  "nat \<Rightarrow> nat option \<Rightarrow> rbtree option \<Rightarrow> nat \<Rightarrow> rbheap \<Rightarrow> (int \<times> rbtree option \<times> rbheap) res option" where
  "rbtree_tree_insert head new self v H =
     (let (node, H) = rbtree_node_create new v H in rbtree_tree_insert_node head self node H)"

subsection \<open>Removal\<close>

text \<open>The sibling of a black node without red children, when one of its own children is red.\<close>

definition push_rotate ::
  "nat option \<Rightarrow> nat option \<Rightarrow> nat option \<Rightarrow> bool \<Rightarrow> bool \<Rightarrow> rbheap \<Rightarrow> rbheap res" where
  "push_rotate g p q ldir inner H =
     bindR (node_of H g) (\<lambda>gn.
     let dir2 = (link gn True = p) in
     bindR (if inner then rbtree_node_rotate2 p ldir H else rbtree_node_rotate p ldir H) (\<lambda>(r, H).
     bindR (set_link g dir2 r H) (\<lambda>H.
     bindR (node_of H g) (\<lambda>gn.
     let top = link gn dir2 in
     bindR (set_red top True H) (\<lambda>H.
     bindR (set_red q True H) (\<lambda>H.
     bindR (node_of H top) (\<lambda>n.
     bindR (set_red (link n False) False H) (\<lambda>H.
     set_red (link n True) False H))))))))"

definition push_sibling :: "nat option \<Rightarrow> nat option \<Rightarrow> nat option \<Rightarrow> bool \<Rightarrow> rbheap \<Rightarrow> rbheap res" where
  "push_sibling g p q ldir H =
     bindR (node_of H p) (\<lambda>pn.
     let s = link pn (\<not> ldir) in
     case s of
       None \<Rightarrow> Inr H
     | Some _ \<Rightarrow>
         bindR (node_of H s) (\<lambda>sn.
         bindR (rbtree_node_is_red H (link sn (\<not> ldir))) (\<lambda>outer.
         bindR (rbtree_node_is_red H (link sn ldir)) (\<lambda>inner.
         if \<not> outer \<and> \<not> inner then
           bindR (set_red p False H) (\<lambda>H.
           bindR (set_red s True H) (\<lambda>H.
           set_red q True H))
         else push_rotate g p q ldir inner H))))"

text \<open>Push a red node down; the result is the new parent of \<open>q\<close>.\<close>

definition push_red ::
  "nat option \<Rightarrow> nat option \<Rightarrow> nat option \<Rightarrow> bool \<Rightarrow> bool \<Rightarrow> rbheap \<Rightarrow> (nat option \<times> rbheap) res" where
  "push_red g p q dir ldir H =
     bindR (node_of H q) (\<lambda>qn.
     bindR (rbtree_node_is_red H q) (\<lambda>rq.
     bindR (rbtree_node_is_red H (link qn dir)) (\<lambda>rd.
     if rq \<or> rd then Inr (p, H)
     else
       bindR (rbtree_node_is_red H (link qn (\<not> dir))) (\<lambda>rn.
       if rn then
         bindR (rbtree_node_rotate q dir H) (\<lambda>(r, H).
         bindR (set_link p ldir r H) (\<lambda>H. Inr (r, H)))
       else bindR (push_sibling g p q ldir H) (\<lambda>H. Inr (p, H))))))"

partial_function (option) remove_loop ::
  "(nat \<Rightarrow> int) \<Rightarrow> nat option \<Rightarrow> nat option \<Rightarrow> nat option \<Rightarrow> bool \<Rightarrow> rbheap \<Rightarrow>
     (nat option \<times> nat option \<times> nat option \<times> rbheap) res option" where
  "remove_loop c p q f dir H =
     (case node_of H q of
        Inl e \<Rightarrow> Some (Inl e)
      | Inr qn \<Rightarrow>
          if link qn dir = None then Some (Inr (p, q, f, H))
          else
            let ldir = dir; g = p; p = q; q = link qn dir in
            (case node_of H q of
               Inl e \<Rightarrow> Some (Inl e)
             | Inr qn \<Rightarrow>
                 let dir = (c (rbvalue qn) < 0);
                     f = (if c (rbvalue qn) = 0 then q else f)
                 in (case push_red g p q dir ldir H of
                       Inl e \<Rightarrow> Some (Inl e)
                     | Inr (p, H) \<Rightarrow> remove_loop c p q f dir H)))"

definition unlink_node :: "(nat option \<Rightarrow> rbheap \<Rightarrow> rbheap res) option \<Rightarrow> nat option \<Rightarrow> nat option \<Rightarrow> nat option \<Rightarrow> rbheap \<Rightarrow> rbheap res" where
  "unlink_node node_cb p q f H =
     bindR (node_of H f) (\<lambda>fn.
     bindR (node_of H q) (\<lambda>qn.
     bindR (set_rbvalue f (rbvalue qn) H) (\<lambda>H.
     bindR (set_rbvalue q (rbvalue fn) H) (\<lambda>H.
     bindR (node_of H p) (\<lambda>pn.
     bindR (node_of H q) (\<lambda>qn.
     bindR (set_link p (link pn True = q) (link qn (link qn False = None)) H) (\<lambda>H.
     case node_cb of None \<Rightarrow> Inr H | Some cb \<Rightarrow> cb q H)))))))"

definition rbtree_tree_remove_with_cb ::
  "nat \<Rightarrow> rbtree option \<Rightarrow> nat \<Rightarrow> (rbtree option \<Rightarrow> nat option \<Rightarrow> rbheap \<Rightarrow> rbheap res) option \<Rightarrow> rbheap \<Rightarrow>
     (int \<times> rbtree option \<times> rbheap) res option" where
  "rbtree_tree_remove_with_cb head self v node_cb H =
     (case self of
        None \<Rightarrow> Some (Inl NullDeref)
      | Some t \<Rightarrow>
          if root t = None then Some (Inr (1, self, H))
          else
            bindO (remove_loop (\<lambda>u. cmp t u v) None (Some head) None True (H(head \<mapsto> false_root (root t))))
              (\<lambda>(p, q, f, H).
            bindO (if f = None then Some (Inr H)
                   else Some (unlink_node (map_option (\<lambda>cb. cb self) node_cb) p q f H)) (\<lambda>H.
            bindO (Some (node_of H (Some head))) (\<lambda>h.
            let r = link h True; H = H(head := None) in
            bindO (if r = None then Some (Inr H) else Some (set_red r False H)) (\<lambda>H.
            Some (Inr (1, Some (t\<lparr>root := r, rbsize := rbsize t - 1\<rparr>), H)))))))"

definition rbtree_tree_remove ::
  "nat \<Rightarrow> rbtree option \<Rightarrow> nat \<Rightarrow> rbheap \<Rightarrow> (int \<times> rbtree option \<times> rbheap) res option" where
  "rbtree_tree_remove head self v H =
     (case self of None \<Rightarrow> Some (Inr (0, None, H))
      | Some _ \<Rightarrow> rbtree_tree_remove_with_cb head self v (Some rbtree_tree_node_dealloc_cb) H)"

subsection \<open>Deallocation\<close>

partial_function (option) dealloc_loop :: "(nat option \<Rightarrow> rbheap \<Rightarrow> rbheap res) \<Rightarrow> nat option \<Rightarrow> rbheap \<Rightarrow> rbheap res option" where
  "dealloc_loop cb node H =
     (case node of
        None \<Rightarrow> Some (Inr H)
      | Some _ \<Rightarrow>
         (case node_of H node of
            Inl e \<Rightarrow> Some (Inl e)
          | Inr n \<Rightarrow>
              if link n False = None then
                (case bindR (cb node H) (\<lambda>H. free_rbnode node H) of
                   Inl e \<Rightarrow> Some (Inl e)
                 | Inr H \<Rightarrow> dealloc_loop cb (link n True) H)
              else
                (case bindR (node_of H (link n False)) (\<lambda>s.
                      bindR (set_link node False (link s True) H) (\<lambda>H.
                      set_link (link n False) True node H)) of
                   Inl e \<Rightarrow> Some (Inl e)
                 | Inr H \<Rightarrow> dealloc_loop cb (link n False) H)))"

definition rbtree_tree_dealloc ::
  "rbtree option \<Rightarrow> (rbtree option \<Rightarrow> nat option \<Rightarrow> rbheap \<Rightarrow> rbheap res) option \<Rightarrow> rbheap \<Rightarrow> rbheap res option" where
  "rbtree_tree_dealloc self node_cb H =
     (case self of
        None \<Rightarrow> Some (Inl AssertFail)
      | Some t \<Rightarrow> (case node_cb of None \<Rightarrow> Some (Inr H) | Some cb \<Rightarrow> dealloc_loop (cb self) (root t) H))"

section \<open>Iterators\<close>

definition RBTREE_ITER_MAX_HEIGHT :: nat where "RBTREE_ITER_MAX_HEIGHT = 64"

text \<open>The path is an array of 64 entries, of which the first \<open>top\<close> are in use.\<close>

record rbiter =
  inode :: "nat option"
  path :: "nat option list"
  top :: nat

definition rbtree_iter_init :: "rbiter option \<Rightarrow> rbiter option" where
  "rbtree_iter_init self = map_option (\<lambda>i. i\<lparr>inode := None, top := 0\<rparr>) self"

text \<open>\<open>self->path[self->top++] = self->node; self->node = x\<close>\<close>

definition iter_push :: "nat option \<Rightarrow> rbiter \<Rightarrow> rbiter res" where
  "iter_push x i = bindR (set_at (path i) (top i) (inode i)) (\<lambda>ps. Inr (i\<lparr>path := ps, top := top i + 1, inode := x\<rparr>))"

partial_function (option) iter_down :: "bool \<Rightarrow> rbheap \<Rightarrow> rbiter \<Rightarrow> rbiter res option" where
  "iter_down dir H i =
     (case node_of H (inode i) of
        Inl e \<Rightarrow> Some (Inl e)
      | Inr n \<Rightarrow>
          if link n dir = None then Some (Inr i)
          else (case iter_push (link n dir) i of
                  Inl e \<Rightarrow> Some (Inl e)
                | Inr i \<Rightarrow> iter_down dir H i))"

definition rbtree_iter_start :: "bool \<Rightarrow> rbtree \<Rightarrow> rbiter option \<Rightarrow> rbheap \<Rightarrow> (nat \<times> rbiter option) res option" where
  "rbtree_iter_start dir t self H =
     (case self of
        None \<Rightarrow> Some (Inr (0, None))
      | Some i \<Rightarrow>
          let i = i\<lparr>inode := root t, top := 0\<rparr> in
          bindO (if inode i = None then Some (Inr i) else iter_down dir H i) (\<lambda>i.
          bindO (Some (found_value H (inode i))) (\<lambda>v. Some (Inr (v, Some i)))))"

text \<open>The loop that climbs the path; \<open>self->path[--self->top]\<close> is read after \<open>top\<close> is tested.\<close>

fun iter_up :: "bool \<Rightarrow> rbheap \<Rightarrow> rbiter \<Rightarrow> nat \<Rightarrow> rbiter res" where
  "iter_up dir H i 0 = Inr (i\<lparr>top := 0, inode := None\<rparr>)"
| "iter_up dir H i (Suc k) =
     bindR (get_at (path i) k) (\<lambda>x.
     bindR (node_of H x) (\<lambda>n.
     if inode i = link n dir then iter_up dir H (i\<lparr>inode := x\<rparr>) k
     else Inr (i\<lparr>top := k, inode := x\<rparr>)))"

definition rbtree_iter_move :: "bool \<Rightarrow> rbiter \<Rightarrow> rbheap \<Rightarrow> (nat \<times> rbiter) res option" where
  "rbtree_iter_move dir self H =
     bindO (Some (node_of H (inode self))) (\<lambda>n.
     bindO (if link n dir \<noteq> None
            then bindO (Some (iter_push (link n dir) self)) (\<lambda>i. iter_down (\<not> dir) H i)
            else Some (iter_up dir H self (top self))) (\<lambda>i.
     bindO (Some (found_value H (inode i))) (\<lambda>v. Some (Inr (v, i)))))"

definition rbtree_iter_first :: "rbtree \<Rightarrow> rbiter option \<Rightarrow> rbheap \<Rightarrow> (nat \<times> rbiter option) res option" where
  "rbtree_iter_first t self H = rbtree_iter_start False t self H"

definition rbtree_iter_last :: "rbtree \<Rightarrow> rbiter option \<Rightarrow> rbheap \<Rightarrow> (nat \<times> rbiter option) res option" where
  "rbtree_iter_last t self H = rbtree_iter_start True t self H"

definition rbtree_iter_next :: "rbiter \<Rightarrow> rbheap \<Rightarrow> (nat \<times> rbiter) res option" where
  "rbtree_iter_next self H = rbtree_iter_move True self H"

definition rbtree_iter_prev :: "rbiter \<Rightarrow> rbheap \<Rightarrow> (nat \<times> rbiter) res option" where
  "rbtree_iter_prev self H = rbtree_iter_move False self H"

section \<open>The self-test\<close>

text \<open>The comparison of a child with its parent, false for a null child.\<close>

definition child_violates :: "(int \<Rightarrow> bool) \<Rightarrow> (nat \<Rightarrow> nat \<Rightarrow> int) \<Rightarrow> rbheap \<Rightarrow> nat option \<Rightarrow> nat \<Rightarrow> bool res" where
  "child_violates bad cmpf H p v =
     (case p of None \<Rightarrow> Inr False | Some _ \<Rightarrow> bindR (node_of H p) (\<lambda>n. Inr (bad (cmpf (rbvalue n) v))))"

definition test_node :: "(nat \<Rightarrow> nat \<Rightarrow> int) \<Rightarrow> rbheap \<Rightarrow> rbnode \<Rightarrow> int \<Rightarrow> int \<Rightarrow> int res" where
  "test_node cmpf H n lh rh =
     bindR (child_violates (\<lambda>c. c \<ge> 0) cmpf H (link n False) (rbvalue n)) (\<lambda>lbad.
     bindR (child_violates (\<lambda>c. c \<le> 0) cmpf H (link n True) (rbvalue n)) (\<lambda>rbad.
     if lbad \<or> rbad then Inr 0
     else if lh \<noteq> 0 \<and> rh \<noteq> 0 \<and> lh \<noteq> rh then Inr 0
     else if lh \<noteq> 0 \<and> rh \<noteq> 0 then Inr (if red n then lh else lh + 1)
     else Inr 0))"

partial_function (option) rbtree_tree_test :: "(nat \<Rightarrow> nat \<Rightarrow> int) \<Rightarrow> rbheap \<Rightarrow> nat option \<Rightarrow> int res option" where
  "rbtree_tree_test cmpf H r =
     (case r of
        None \<Rightarrow> Some (Inr 1)
      | Some _ \<Rightarrow>
          bindO (Some (node_of H r)) (\<lambda>n.
          bindO (Some (rbtree_node_is_red H (link n False))) (\<lambda>ln.
          bindO (Some (rbtree_node_is_red H (link n True))) (\<lambda>rn.
          if red n \<and> (ln \<or> rn) then Some (Inr 0)
          else
            bindO (rbtree_tree_test cmpf H (link n False)) (\<lambda>lh.
            bindO (rbtree_tree_test cmpf H (link n True)) (\<lambda>rh.
            Some (test_node cmpf H n lh rh)))))))"

end
