(* ===== verification/Rbtree_Heap.thy ===== *)
theory Rbtree_Heap
  imports Rbtree
begin

text \<open>
  Trees in the store. \<open>ptree\<close> is a tree whose nodes know their address; \<open>holds H x\<close> says that the store
  \<open>H\<close> contains \<open>x\<close>. The children are a function of the direction, so that the two mirror images of each
  case of the code are one case here. The loops hold pointers into the middle of a tree: a tree is
  split into the subtree below a pointer and the list of frames above it.
\<close>

section \<open>Trees with addresses\<close>

datatype ptree = Lf | Nd nat bool nat "bool \<Rightarrow> ptree"

primrec ptr :: "ptree \<Rightarrow> nat option" where
  "ptr Lf = None"
| "ptr (Nd a c v k) = Some a"

primrec is_red :: "ptree \<Rightarrow> bool" where
  "is_red Lf = False"
| "is_red (Nd a c v k) = c"

primrec addrs :: "ptree \<Rightarrow> nat set" where
  "addrs Lf = {}"
| "addrs (Nd a c v k) = insert a (addrs (k False) \<union> addrs (k True))"

primrec inorder :: "ptree \<Rightarrow> nat list" where
  "inorder Lf = []"
| "inorder (Nd a c v k) = inorder (k False) @ v # inorder (k True)"

primrec nodes :: "ptree \<Rightarrow> nat" where
  "nodes Lf = 0"
| "nodes (Nd a c v k) = Suc (nodes (k False) + nodes (k True))"

definition cell :: "bool \<Rightarrow> nat \<Rightarrow> (bool \<Rightarrow> nat option) \<Rightarrow> rbnode" where
  "cell c v l = \<lparr>red = c, link = l, rbvalue = v\<rparr>"

primrec holds :: "rbheap \<Rightarrow> ptree \<Rightarrow> bool" where
  "holds H Lf = True"
| "holds H (Nd a c v k) \<longleftrightarrow>
     H a = Some (cell c v (\<lambda>d. ptr (k d))) \<and> holds H (k False) \<and> holds H (k True)"

primrec dist :: "ptree \<Rightarrow> bool" where
  "dist Lf = True"
| "dist (Nd a c v k) \<longleftrightarrow>
     a \<notin> addrs (k False) \<and> a \<notin> addrs (k True) \<and> addrs (k False) \<inter> addrs (k True) = {} \<and>
     dist (k False) \<and> dist (k True)"

lemma cell_sel [simp]: "red (cell c v l) = c" "link (cell c v l) = l" "rbvalue (cell c v l) = v"
  "(cell c v l)\<lparr>red := c'\<rparr> = cell c' v l" "(cell c v l)\<lparr>link := l'\<rparr> = cell c v l'"
  "(cell c v l)\<lparr>rbvalue := v'\<rparr> = cell c v' l"
  by (simp_all add: cell_def)

text \<open>The facts on a node with its children named by an arbitrary direction.\<close>

lemma addrs_dir: "addrs (Nd a c v k) = insert a (addrs (k d) \<union> addrs (k (\<not> d)))"
  by (cases d) auto

lemma nodes_dir: "nodes (Nd a c v k) = Suc (nodes (k d) + nodes (k (\<not> d)))"
  by (cases d) auto

lemma holds_dir: "holds H (Nd a c v k) \<longleftrightarrow>
    H a = Some (cell c v (\<lambda>d. ptr (k d))) \<and> holds H (k d) \<and> holds H (k (\<not> d))"
  by (cases d) auto

lemma dist_dir: "dist (Nd a c v k) \<longleftrightarrow>
    a \<notin> addrs (k d) \<and> a \<notin> addrs (k (\<not> d)) \<and> addrs (k d) \<inter> addrs (k (\<not> d)) = {} \<and>
    dist (k d) \<and> dist (k (\<not> d))"
  by (cases d) auto

lemma holds_frame [simp]: "a \<notin> addrs x \<Longrightarrow> holds (H(a := n)) x = holds H x"
  by (induction x) auto

lemma holds_cong: "(\<And>a. a \<in> addrs x \<Longrightarrow> H a = H' a) \<Longrightarrow> holds H x = holds H' x"
  by (induction x) auto

lemma ptr_Some: "ptr x = Some a \<Longrightarrow> a \<in> addrs x"
  by (cases x) auto

lemma ptr_None [simp]: "ptr x = None \<longleftrightarrow> x = Lf"
  by (cases x) auto

lemma finite_addrs [simp]: "finite (addrs x)"
  by (induction x) auto

lemma card_addrs: "dist x \<Longrightarrow> card (addrs x) = nodes x"
  by (induction x) (auto simp: card_Un_disjoint)

lemma length_inorder [simp]: "length (inorder x) = nodes x"
  by (induction x) auto

text \<open>Reading and writing nodes of a tree.\<close>

lemma node_of_Some [simp]: "node_of H (Some a) = (case H a of None \<Rightarrow> Inl OutOfBounds | Some n \<Rightarrow> Inr n)"
  by (simp add: node_of_def)

lemma node_of_None [simp]: "node_of H None = Inl NullDeref"
  by (simp add: node_of_def)

lemma is_red_ptr [simp]: "holds H x \<Longrightarrow> rbtree_node_is_red H (ptr x) = Inr (is_red x)"
  by (cases x) (auto simp: rbtree_node_is_red_def)

lemma is_red_cell [simp]: "H a = Some (cell c v l) \<Longrightarrow> rbtree_node_is_red H (Some a) = Inr c"
  by (simp add: rbtree_node_is_red_def)

lemma set_link_cell [simp]:
  "H a = Some (cell c v l) \<Longrightarrow> set_link (Some a) d x H = Inr (H(a \<mapsto> cell c v (l(d := x))))"
  by (simp add: set_link_def)

lemma set_red_cell [simp]:
  "H a = Some (cell c v l) \<Longrightarrow> set_red (Some a) c' H = Inr (H(a \<mapsto> cell c' v l))"
  by (simp add: set_red_def)

lemma set_rbvalue_cell [simp]:
  "H a = Some (cell c v l) \<Longrightarrow> set_rbvalue (Some a) v' H = Inr (H(a \<mapsto> cell c v' l))"
  by (simp add: set_rbvalue_def)

section \<open>Rotations\<close>

text \<open>\<open>two d x y\<close>: the child \<open>x\<close> in direction \<open>d\<close>, \<open>y\<close> in the other.\<close>

definition two :: "bool \<Rightarrow> 'a \<Rightarrow> 'a \<Rightarrow> bool \<Rightarrow> 'a" where
  "two d x y = (\<lambda>e. if e = d then x else y)"

lemma two_apply [simp]: "two d x y d = x" "two d x y (\<not> d) = y" "two (\<not> d) x y d = y"
  "two False x y True = y" "two True x y False = y"
  by (simp_all add: two_def)

lemma two_upd [simp]: "(two d x y)(d := z) = two d z y" "(two d x y)((\<not> d) := z) = two d x z"
  by (auto simp: two_def fun_eq_iff)

lemma two_inj [simp]: "two d x y = two d x' y' \<longleftrightarrow> x = x' \<and> y = y'"
  by (auto simp: two_def fun_eq_iff)

lemma two_swap: "two (\<not> d) x y = two d y x"
  by (auto simp: two_def fun_eq_iff)

lemma two_other: "d \<noteq> e \<Longrightarrow> two d x y = two e y x"
  by (auto simp: two_def fun_eq_iff)

lemma two_ptr: "(\<lambda>e. ptr (two d x y e)) = two d (ptr x) (ptr y)"
  by (auto simp: two_def fun_eq_iff)

lemma kids_two: "k = two d (k d) (k (\<not> d))"
  by (auto simp: two_def fun_eq_iff)

lemma two_exhaust: obtains x y where "k = two d x y"
  using kids_two by blast

lemma holds_two: "holds H (Nd a c v (two d x y)) \<longleftrightarrow>
    H a = Some (cell c v (two d (ptr x) (ptr y))) \<and> holds H x \<and> holds H y"
  by (subst holds_dir[of _ _ _ _ _ d]) (simp add: two_ptr)

lemma dist_two: "dist (Nd a c v (two d x y)) \<longleftrightarrow>
    a \<notin> addrs x \<and> a \<notin> addrs y \<and> addrs x \<inter> addrs y = {} \<and> dist x \<and> dist y"
  by (subst dist_dir[of _ _ _ _ d]) simp

lemma addrs_two: "addrs (Nd a c v (two d x y)) = insert a (addrs x \<union> addrs y)"
  by (subst addrs_dir[of _ _ _ _ d]) simp

lemma nodes_two: "nodes (Nd a c v (two d x y)) = Suc (nodes x + nodes y)"
  by (subst nodes_dir[of _ _ _ _ d]) simp

lemmas two_simps = holds_two dist_two addrs_two nodes_two

text \<open>From here on the children of a node are written with \<open>two\<close>.\<close>

declare holds.simps(2) [simp del] dist.simps(2) [simp del] addrs.simps(2) [simp del] nodes.simps(2) [simp del]
declare two_simps [simp]

lemma rotate_ok:
  assumes "holds H (Nd a c v (two d y (Nd b c' w (two d m z))))"
    and "dist (Nd a c v (two d y (Nd b c' w (two d m z))))"
  obtains H' where "rbtree_node_rotate (Some a) d H = Inr (Some b, H')"
    "holds H' (Nd b False w (two d (Nd a True v (two d y m)) z))"
    "dist (Nd b False w (two d (Nd a True v (two d y m)) z))"
    "\<And>i. i \<notin> {a, b} \<Longrightarrow> H' i = H i"
proof -
  let ?H = "H(a \<mapsto> cell True v (two d (ptr y) (ptr m)), b \<mapsto> cell False w (two d (Some a) (ptr z)))"
  have *: "H a = Some (cell c v (two d (ptr y) (Some b)))" "H b = Some (cell c' w (two d (ptr m) (ptr z)))"
    "a \<noteq> b" using assms by auto
  show thesis
  proof (rule that)
    show "rbtree_node_rotate (Some a) d H = Inr (Some b, ?H)"
      using * by (simp add: rbtree_node_rotate_def)
    show "holds ?H (Nd b False w (two d (Nd a True v (two d y m)) z))"
      "dist (Nd b False w (two d (Nd a True v (two d y m)) z))"
      using assms by auto
  qed simp
qed

lemma rotate2_ok:
  assumes "holds H (Nd a c v (two d y (Nd b c' w (two d (Nd e c'' u (two d m n)) z))))"
    and "dist (Nd a c v (two d y (Nd b c' w (two d (Nd e c'' u (two d m n)) z))))"
  obtains H' where "rbtree_node_rotate2 (Some a) d H = Inr (Some e, H')"
    "holds H' (Nd e False u (two d (Nd a True v (two d y m)) (Nd b True w (two d n z))))"
    "dist (Nd e False u (two d (Nd a True v (two d y m)) (Nd b True w (two d n z))))"
    "\<And>i. i \<notin> {a, b, e} \<Longrightarrow> H' i = H i"
proof -
  let ?inner = "Nd b c' w (two (\<not> d) z (Nd e c'' u (two (\<not> d) n m)))"
  have in1: "holds H ?inner" "dist ?inner" using assms by (auto simp: two_swap)
  obtain H1 where H1: "rbtree_node_rotate (Some b) (\<not> d) H = Inr (Some e, H1)"
    "holds H1 (Nd e False u (two (\<not> d) (Nd b True w (two (\<not> d) z n)) m))"
    "dist (Nd e False u (two (\<not> d) (Nd b True w (two (\<not> d) z n)) m))"
    "\<And>i. i \<notin> {b, e} \<Longrightarrow> H1 i = H i"
    using rotate_ok[OF in1] by blast
  define H2 where "H2 = H1(a \<mapsto> cell c v (two d (ptr y) (Some e)))"
  have ab: "a \<noteq> b" "a \<noteq> e" "b \<noteq> e" and y: "b \<notin> addrs y" "e \<notin> addrs y" "holds H y"
    using assms by auto
  have a1: "H1 a = Some (cell c v (two d (ptr y) (Some b)))" "H a = Some (cell c v (two d (ptr y) (Some b)))"
    using assms ab by (auto simp: H1(4))
  have "holds H1 y" using y H1(4) holds_cong[of y H H1] by (metis insertE singletonD)
  let ?mid = "Nd a c v (two d y (Nd e False u (two d m (Nd b True w (two d n z)))))"
  have mid: "holds H2 ?mid" "dist ?mid"
    using assms H1(2,3) \<open>holds H1 y\<close> unfolding H2_def by (auto simp: two_swap)
  obtain H' where H': "rbtree_node_rotate (Some a) d H2 = Inr (Some e, H')"
    "holds H' (Nd e False u (two d (Nd a True v (two d y m)) (Nd b True w (two d n z))))"
    "dist (Nd e False u (two d (Nd a True v (two d y m)) (Nd b True w (two d n z))))"
    "\<And>i. i \<notin> {a, e} \<Longrightarrow> H' i = H2 i"
    using rotate_ok[OF mid] by blast
  show thesis
  proof (rule that)
    show "rbtree_node_rotate2 (Some a) d H = Inr (Some e, H')"
      using H'(1) H1(1) a1 by (simp add: rbtree_node_rotate2_def H2_def)
  qed (use H'(2-4) H1(4) in \<open>simp_all add: H2_def\<close>)
qed

section \<open>Frames\<close>

text \<open>A node on the path with the direction taken and its other subtree.\<close>

datatype frame = Fr (faddr: nat) (fred: bool) (fval: nat) (fdir: bool) (fother: ptree)

fun fill :: "frame \<Rightarrow> ptree \<Rightarrow> ptree" where
  "fill (Fr a c v d s) x = Nd a c v (two d x s)"

fun plug :: "frame list \<Rightarrow> ptree \<Rightarrow> ptree" where
  "plug [] x = x"
| "plug (f # fs) x = plug fs (fill f x)"

text \<open>The frames in the store, below the false root at \<open>hd\<close>; \<open>p\<close> is the pointer to the subtree.\<close>

fun cholds :: "nat \<Rightarrow> rbheap \<Rightarrow> frame list \<Rightarrow> nat option \<Rightarrow> bool" where
  "cholds h H [] p \<longleftrightarrow> H h = Some (false_root p)"
| "cholds h H (Fr a c v d s # fs) p \<longleftrightarrow>
     H a = Some (cell c v (two d p (ptr s))) \<and> holds H s \<and> cholds h H fs (Some a)"

fun caddrs :: "nat \<Rightarrow> frame list \<Rightarrow> nat set" where
  "caddrs h [] = {h}"
| "caddrs h (Fr a c v d s # fs) = insert a (addrs s \<union> caddrs h fs)"

fun cdist :: "nat \<Rightarrow> frame list \<Rightarrow> bool" where
  "cdist h [] = True"
| "cdist h (Fr a c v d s # fs) \<longleftrightarrow>
     a \<notin> addrs s \<and> a \<notin> caddrs h fs \<and> addrs s \<inter> caddrs h fs = {} \<and> dist s \<and> cdist h fs"

definition zip_ok :: "nat \<Rightarrow> rbheap \<Rightarrow> frame list \<Rightarrow> ptree \<Rightarrow> bool" where
  "zip_ok h H fs x \<longleftrightarrow> cholds h H fs (ptr x) \<and> holds H x \<and> cdist h fs \<and> dist x \<and> addrs x \<inter> caddrs h fs = {}"

lemma zip_ok_fill: "zip_ok h H (f # fs) x \<longleftrightarrow> zip_ok h H fs (fill f x)"
  by (cases f) (auto simp: zip_ok_def)

lemma zip_ok_apart: "zip_ok h H fs x \<Longrightarrow> i \<in> caddrs h fs \<Longrightarrow> i \<notin> addrs x"
  by (auto simp: zip_ok_def)

lemma zip_ok_plug: "zip_ok h H fs x \<longleftrightarrow> zip_ok h H [] (plug fs x)"
  by (induction fs arbitrary: x) (simp_all add: zip_ok_fill)

lemma addrs_plug: "insert h (addrs (plug fs x)) = addrs x \<union> caddrs h fs"
proof (induction fs arbitrary: x)
  case (Cons f fs) then show ?case by (cases f) auto
qed auto

lemma cholds_frame: "a \<notin> caddrs h fs \<Longrightarrow> cholds h (H(a := n)) fs p = cholds h H fs p"
  by (induction h H fs p rule: cholds.induct) auto

lemma cholds_cong: "(\<And>a. a \<in> caddrs h fs \<Longrightarrow> H a = H' a) \<Longrightarrow> cholds h H fs p = cholds h H' fs p"
proof (induction h H fs p rule: cholds.induct)
  case (2 h H a c v d s fs p)
  then show ?case using holds_cong[of s H H'] by simp
qed simp

text \<open>A subtree is exchanged: the new one uses addresses of the old one or others outside the frames.\<close>

lemma zip_ok_subst:
  assumes "zip_ok h H fs x" "holds H' y" "dist y" "addrs y \<inter> caddrs h fs = {}" "ptr y = ptr x"
    and "\<And>a. a \<in> caddrs h fs \<Longrightarrow> H' a = H a"
  shows "zip_ok h H' fs y"
  using assms cholds_cong[of h fs H H'] by (auto simp: zip_ok_def)

text \<open>The link to the subtree is redirected: the code writes it in the first frame, or in the false root.\<close>

fun link_dir :: "frame list \<Rightarrow> bool" where
  "link_dir [] = True"
| "link_dir (f # fs) = fdir f"

fun parent :: "nat \<Rightarrow> frame list \<Rightarrow> nat" where
  "parent h [] = h"
| "parent h (f # fs) = faddr f"

lemma parent_in: "parent h fs \<in> caddrs h fs"
  by (cases fs; cases "hd fs") auto

lemma false_root_cell: "false_root p = cell False 0 (two True p None)"
  by (simp add: false_root_def cell_def two_def)

lemma relink:
  assumes "cholds h H fs p" "cdist h fs"
  obtains H' where "set_link (Some (parent h fs)) (link_dir fs) p' H = Inr H'" "cholds h H' fs p'"
    "\<And>a. a \<noteq> parent h fs \<Longrightarrow> H' a = H a"
proof (cases fs)
  case Nil
  then show ?thesis using assms that[of "H(h \<mapsto> false_root p')"]
    by (simp add: false_root_cell)
next
  case (Cons f gs)
  then show ?thesis using assms that by (cases f) (simp add: cholds_frame)
qed

lemma parent_link:
  assumes "cholds h H fs p" "cdist h fs" "\<And>a. p = Some a \<Longrightarrow> a \<notin> caddrs h fs" "p \<noteq> None"
  obtains n where "H (parent h fs) = Some n" "link n (link_dir fs) = p" "(link n True = p) = link_dir fs"
proof (cases fs)
  case Nil
  then show ?thesis using assms that by (simp add: false_root_cell two_def)
next
  case (Cons f gs)
  obtain a c v d s where f: "f = Fr a c v d s" by (cases f)
  have "ptr s \<noteq> p" using assms(3,4) ptr_Some[of s] Cons f by auto
  then show ?thesis using assms that Cons f by (auto simp: two_def)
qed

end
