(* ===== verification/Rbtree_Insert.thy ===== *)
theory Rbtree_Insert
  imports Rbtree_Heap
begin

text \<open>
  Insertion. The loop of \<open>rbtree_tree_insert_node\<close> keeps four pointers to consecutive nodes of the path;
  after a rotation they are stale for one or two rounds, in which the colours guarantee that no
  rotation is due. The proof follows the path: the nodes above \<open>q\<close> are frames, \<open>q\<close> is a subtree.
\<close>

section \<open>Colours, black heights and order\<close>

primrec bh :: "ptree \<Rightarrow> nat" where
  "bh Lf = 0"
| "bh (Nd a c v k) = bh (k False) + (if c then 0 else 1)"

primrec invh :: "ptree \<Rightarrow> bool" where
  "invh Lf = True"
| "invh (Nd a c v k) \<longleftrightarrow> bh (k False) = bh (k True) \<and> invh (k False) \<and> invh (k True)"

primrec invc :: "ptree \<Rightarrow> bool" where
  "invc Lf = True"
| "invc (Nd a c v k) \<longleftrightarrow> (c \<longrightarrow> \<not> is_red (k False) \<and> \<not> is_red (k True)) \<and> invc (k False) \<and> invc (k True)"

lemma invh_two: "invh (Nd a c v (two d x y)) \<longleftrightarrow> bh x = bh y \<and> invh x \<and> invh y"
  by (cases d) (auto simp: two_def)

lemma bh_two: "bh x = bh y \<Longrightarrow> bh (Nd a c v (two d x y)) = bh x + (if c then 0 else 1)"
  by (auto simp: two_def)

lemma invc_two: "invc (Nd a c v (two d x y)) \<longleftrightarrow> (c \<longrightarrow> \<not> is_red x \<and> \<not> is_red y) \<and> invc x \<and> invc y"
  by (cases d) (auto simp: two_def)

lemma inorder_two:
  "inorder (Nd a c v (two d x y)) = (if d then inorder y @ v # inorder x else inorder x @ v # inorder y)"
  by (auto simp: two_def)

declare bh.simps(2) [simp del] invh.simps(2) [simp del] invc.simps(2) [simp del] inorder.simps(2) [simp del]
declare bh_two [simp] invh_two [simp] invc_two [simp] inorder_two [simp]

text \<open>The same for a list of frames: \<open>n\<close> is the black height of the subtree, \<open>r\<close> whether its root is red.\<close>

fun cinvh :: "frame list \<Rightarrow> nat \<Rightarrow> bool" where
  "cinvh [] n = True"
| "cinvh (Fr a c v d s # fs) n \<longleftrightarrow> bh s = n \<and> invh s \<and> cinvh fs (n + (if c then 0 else 1))"

fun cinvc :: "frame list \<Rightarrow> bool \<Rightarrow> bool" where
  "cinvc [] r = True"
| "cinvc (Fr a c v d s # fs) r \<longleftrightarrow> (c \<longrightarrow> \<not> r \<and> \<not> is_red s) \<and> invc s \<and> cinvc fs c"

fun lefts :: "frame list \<Rightarrow> nat list" where
  "lefts [] = []"
| "lefts (Fr a c v d s # fs) = lefts fs @ (if d then inorder s @ [v] else [])"

fun rights :: "frame list \<Rightarrow> nat list" where
  "rights [] = []"
| "rights (Fr a c v d s # fs) = (if d then [] else v # inorder s) @ rights fs"

lemma invh_plug: "invh (plug fs x) \<longleftrightarrow> invh x \<and> cinvh fs (bh x)"
proof (induction fs arbitrary: x)
  case (Cons f fs)
  obtain a c v d s where f: "f = Fr a c v d s" by (cases f)
  show ?case using Cons by (cases "bh x = bh s") (simp_all add: f)
qed auto

lemma invc_plug: "invc (plug fs x) \<longleftrightarrow> invc x \<and> cinvc fs (is_red x)"
proof (induction fs arbitrary: x)
  case (Cons f fs) then show ?case by (cases f) auto
qed auto

lemma inorder_plug: "inorder (plug fs x) = lefts fs @ inorder x @ rights fs"
proof (induction fs arbitrary: x)
  case (Cons f fs) then show ?case by (cases f) auto
qed auto

lemma cinvc_black: "cinvc fs r \<Longrightarrow> cinvc fs False"
  by (cases fs; cases "hd fs") auto

section \<open>The rotations of the loop\<close>

text \<open>The helpers of the loop: parent, grandparent and the parent of the grandparent.\<close>

fun p_of :: "frame list \<Rightarrow> nat option" where
  "p_of [] = None"
| "p_of (f # fs) = Some (faddr f)"

fun g_of :: "frame list \<Rightarrow> nat option" where
  "g_of (f # g # fs) = Some (faddr g)"
| "g_of _ = None"

fun t_of :: "nat \<Rightarrow> frame list \<Rightarrow> nat option" where
  "t_of h (f # g # fs) = Some (parent h fs)"
| "t_of h _ = Some h"

text \<open>What the second part of the loop body does to frames and subtree, when parent and child are red.\<close>

fun rotated :: "frame list \<Rightarrow> ptree \<Rightarrow> frame list \<times> ptree" where
  "rotated (Fr p cp vp dp sp # Fr g cg vg dg sg # fs) (Nd q cq vq k) =
     (if dp = dg then (Fr p False vp dp (Nd g True vg (two dp sp sg)) # fs, Nd q cq vq k)
      else (fs, Nd q False vq (two dg (Nd p True vp (two dg sp (k dg))) (Nd g True vg (two dg (k (\<not> dg)) sg)))))"
| "rotated fs x = (fs, x)"

lemma zip_ok_relink:
  assumes z: "zip_ok h H fs x" and H1: "holds H1 y" "dist y" "addrs y \<subseteq> addrs x"
    and keep: "\<And>i. i \<notin> addrs x \<Longrightarrow> H1 i = H i"
  obtains H' where "set_link (Some (parent h fs)) (link_dir fs) (ptr y) H1 = Inr H'" "zip_ok h H' fs y"
    "\<And>i. i \<notin> addrs x \<union> caddrs h fs \<Longrightarrow> H' i = H i"
proof -
  have "H i = H1 i" if "i \<in> caddrs h fs" for i
  proof -
    have "i \<notin> addrs x" using that z by (auto simp: zip_ok_def)
    then show ?thesis by (simp add: keep)
  qed
  then have c: "cholds h H1 fs (ptr x)" "cdist h fs" using z cholds_cong[of h fs H H1] by (auto simp: zip_ok_def)
  obtain H' where H': "set_link (Some (parent h fs)) (link_dir fs) (ptr y) H1 = Inr H'" "cholds h H' fs (ptr y)"
    "\<And>a. a \<noteq> parent h fs \<Longrightarrow> H' a = H1 a" using relink[OF c] by blast
  have "parent h fs \<notin> addrs x" using parent_in[of h fs] z by (auto simp: zip_ok_def)
  then have "holds H' y" using holds_cong[of y H' H1] H'(3) H1(1,3) by (metis subsetD)
  then have "zip_ok h H' fs y" using H'(2) z H1(2,3) by (auto simp: zip_ok_def)
  moreover have "H' i = H i" if "i \<notin> addrs x \<union> caddrs h fs" for i
    using that H'(3) keep parent_in[of h fs] by (metis UnCI)
  ultimately show ?thesis using that H'(1) by blast
qed

lemma insert_rotate_ok:
  assumes z: "zip_ok h H (Fr p True vp dp sp # Fr g cg vg dg sg # fs) (Nd q True vq k)"
  obtains H' where "insert_rotate (Some (parent h fs)) (Some g) (Some p) (Some q) dg H = Inr H'"
    "zip_ok h H' (fst (rotated (Fr p True vp dp sp # Fr g cg vg dg sg # fs) (Nd q True vq k)))
       (snd (rotated (Fr p True vp dp sp # Fr g cg vg dg sg # fs) (Nd q True vq k)))"
    "\<And>i. i \<notin> addrs (Nd q True vq k) \<union> caddrs h (Fr p True vp dp sp # Fr g cg vg dg sg # fs) \<Longrightarrow> H' i = H i"
proof -
  obtain m n where k: "k = two (\<not> dg) m n" by (rule two_exhaust)
  let ?q = "Nd q True vq k" let ?p = "Nd p True vp (two dp ?q sp)" let ?g = "Nd g cg vg (two dg ?p sg)"
  have zg: "zip_ok h H fs ?g" using z by (simp add: zip_ok_fill)
  have hq: "H q = Some (cell True vq (\<lambda>d. ptr (k d)))" and hp: "H p = Some (cell True vp (two dp (Some q) (ptr sp)))"
    and g: "g \<notin> caddrs h fs" and hold: "holds H ?g" "dist ?g"
    using zg by (auto simp: zip_ok_def k two_ptr)
  have sp: "ptr sp \<noteq> Some q" using zg ptr_Some[of sp q] by (auto simp: zip_ok_def k)
  obtain tn where tn: "H (parent h fs) = Some tn" "(link tn True = Some g) = link_dir fs"
    using parent_link[of h H fs "Some g"] zg g unfolding zip_ok_def ptr.simps by (metis option.distinct(1) option.inject)
  define y where "y = (if dp = dg then Nd p False vp (two dg ?q (Nd g True vg (two dg sp sg)))
      else Nd q False vq (two dg (Nd p True vp (two dg sp n)) (Nd g True vg (two dg m sg))))"
  obtain H1 where H1: "(if dp = dg then rbtree_node_rotate (Some g) (\<not> dg) H else rbtree_node_rotate2 (Some g) (\<not> dg) H) =
      Inr (ptr y, H1)" "holds H1 y" "dist y" "\<And>i. i \<notin> {g, p, q} \<Longrightarrow> H1 i = H i"
  proof (cases "dp = dg")
    case True
    then have "?g = Nd g cg vg (two (\<not> dg) sg (Nd p True vp (two (\<not> dg) sp ?q)))" by (simp add: two_swap)
    with hold have hold': "holds H (Nd g cg vg (two (\<not> dg) sg (Nd p True vp (two (\<not> dg) sp ?q))))"
      "dist (Nd g cg vg (two (\<not> dg) sg (Nd p True vp (two (\<not> dg) sp ?q))))" by (simp_all only:)
    then show thesis
    proof (rule rotate_ok)
      fix H1 assume "rbtree_node_rotate (Some g) (\<not> dg) H = Inr (Some p, H1)"
        "holds H1 (Nd p False vp (two (\<not> dg) (Nd g True vg (two (\<not> dg) sg sp)) ?q))"
        "dist (Nd p False vp (two (\<not> dg) (Nd g True vg (two (\<not> dg) sg sp)) ?q))"
        "\<And>i. i \<notin> {g, p} \<Longrightarrow> H1 i = H i"
      then show thesis using True by (intro that[of H1]) (simp_all add: y_def two_swap)
    qed
  next
    case False
    then have dp: "dp = (\<not> dg)" by simp
    have "?g = Nd g cg vg (two (\<not> dg) sg (Nd p True vp (two (\<not> dg) (Nd q True vq (two (\<not> dg) m n)) sp)))"
      by (simp add: dp two_swap k)
    with hold have hold': "holds H (Nd g cg vg (two (\<not> dg) sg (Nd p True vp (two (\<not> dg) (Nd q True vq (two (\<not> dg) m n)) sp))))"
      "dist (Nd g cg vg (two (\<not> dg) sg (Nd p True vp (two (\<not> dg) (Nd q True vq (two (\<not> dg) m n)) sp))))"
      by (simp_all only:)
    then show thesis
    proof (rule rotate2_ok)
      fix H1 assume "rbtree_node_rotate2 (Some g) (\<not> dg) H = Inr (Some q, H1)"
        "holds H1 (Nd q False vq (two (\<not> dg) (Nd g True vg (two (\<not> dg) sg m)) (Nd p True vp (two (\<not> dg) n sp))))"
        "dist (Nd q False vq (two (\<not> dg) (Nd g True vg (two (\<not> dg) sg m)) (Nd p True vp (two (\<not> dg) n sp))))"
        "\<And>i. i \<notin> {g, p, q} \<Longrightarrow> H1 i = H i"
      then show thesis using False by (intro that[of H1]) (simp_all add: y_def two_swap)
    qed
  qed
  have sub: "addrs y \<subseteq> addrs ?g" by (auto simp: y_def k)
  have keep: "H1 i = H i" if "i \<notin> addrs ?g" for i using that H1(4) by (auto simp: k)
  obtain H' where H': "set_link (Some (parent h fs)) (link_dir fs) (ptr y) H1 = Inr H'" "zip_ok h H' fs y"
    "\<And>i. i \<notin> addrs ?g \<union> caddrs h fs \<Longrightarrow> H' i = H i"
    using zip_ok_relink[OF zg H1(2,3) sub keep] by blast
  show thesis
  proof (rule that)
    have "(Some q = two dp (Some q) (ptr sp) dg) = (dp = dg)" using sp by (auto simp: two_def)
    then show "insert_rotate (Some (parent h fs)) (Some g) (Some p) (Some q) dg H = Inr H'"
      using H1(1) H'(1) tn hq hp by (auto simp: insert_rotate_def rbtree_node_is_red_def)
    show "zip_ok h H' (fst (rotated (Fr p True vp dp sp # Fr g cg vg dg sg # fs) ?q))
       (snd (rotated (Fr p True vp dp sp # Fr g cg vg dg sg # fs) ?q))"
      using H'(2) by (cases "dp = dg") (auto simp: y_def zip_ok_fill k)
  qed (use H'(3) in auto)
qed

lemma rotated_inv:
  assumes "invh (plug (Fr p True vp dp sp # Fr g cg vg dg sg # fs) (Nd q True vq k))"
    and "cinvc (Fr p True vp dp sp # Fr g cg vg dg sg # fs) False"
    and "invc (Nd q True vq k)" "\<not> is_red sg"
    and "rotated (Fr p True vp dp sp # Fr g cg vg dg sg # fs) (Nd q True vq k) = (fs', x')"
  shows "invh (plug fs' x')" "invc (plug fs' x')"
    "inorder (plug fs' x') = inorder (plug (Fr p True vp dp sp # Fr g cg vg dg sg # fs) (Nd q True vq k))"
proof -
  obtain m n where k: "k = two (\<not> dg) m n" by (rule two_exhaust)
  have e: "(fs', x') = rotated (Fr p True vp dp sp # Fr g cg vg dg sg # fs) (Nd q True vq k)" using assms(5) by simp
  show "invh (plug fs' x')" "invc (plug fs' x')"
    "inorder (plug fs' x') = inorder (plug (Fr p True vp dp sp # Fr g cg vg dg sg # fs) (Nd q True vq k))"
    using assms(1-4) e by (auto simp: invh_plug invc_plug inorder_plug k split: if_splits)
qed

section \<open>The first part of the loop body\<close>

primrec paint :: "bool \<Rightarrow> ptree \<Rightarrow> ptree" where
  "paint c' Lf = Lf"
| "paint c' (Nd a c v k) = Nd a c' v k"

lemma paint_simps [simp]: "ptr (paint c x) = ptr x" "addrs (paint c x) = addrs x" "inorder (paint c x) = inorder x"
  "dist (paint c x) = dist x" "\<not> is_red (paint False x)" "nodes (paint c x) = nodes x"
  "invh (paint c x) = invh x" "invc x \<Longrightarrow> invc (paint False x)"
  "is_red x \<Longrightarrow> bh (paint False x) = Suc (bh x)"
  by (cases x; simp add: addrs.simps inorder.simps dist.simps nodes.simps invh.simps invc.simps bh.simps)+

definition both_red :: "ptree \<Rightarrow> bool" where
  "both_red x = (case x of Lf \<Rightarrow> False | Nd a c v k \<Rightarrow> is_red (k False) \<and> is_red (k True))"

lemma both_red_two [simp]: "both_red (Nd a c v (two d x y)) \<longleftrightarrow> is_red x \<and> is_red y" "\<not> both_red Lf"
  by (auto simp: both_red_def two_def)

lemma holds_paint: "holds H x \<Longrightarrow> dist x \<Longrightarrow> ptr x = Some a \<Longrightarrow>
    \<exists>cl. set_red (Some a) c H = Inr (H(a \<mapsto> cl)) \<and> holds (H(a \<mapsto> cl)) (paint c x)"
  by (cases x) (auto simp: holds.simps dist.simps)

lemma place_quiet:
  assumes "holds H x" "x \<noteq> Lf" "\<not> both_red x"
  shows "insert_place node p (ptr x) dir H = Inr (ptr x, H)"
proof (cases x)
  case (Nd q c v k)
  obtain y z where k: "k = two False y z" by (rule two_exhaust)
  have "H q = Some (cell c v (two False (ptr y) (ptr z)))" "holds H y" "holds H z" "\<not> (is_red y \<and> is_red z)"
    using assms by (simp_all add: Nd k)
  then show ?thesis by (auto simp: insert_place_def Nd)
qed (use assms in auto)

lemma place_flip:
  assumes z: "zip_ok h H fs (Nd q c v (two False x y))" and "is_red x" "is_red y"
  obtains H' where "insert_place node p (Some q) dir H = Inr (Some q, H')"
    "zip_ok h H' fs (Nd q True v (two False (paint False x) (paint False y)))"
    "\<And>i. i \<notin> addrs (Nd q c v (two False x y)) \<Longrightarrow> H' i = H i"
proof -
  obtain a b where ab: "ptr x = Some a" "ptr y = Some b" using assms(2,3) by (cases x; cases y) auto
  define H1 where "H1 = H(q \<mapsto> cell True v (two False (Some a) (Some b)))"
  have H: "H q = Some (cell c v (two False (Some a) (Some b)))" "holds H x" "holds H y" "dist x" "dist y"
    "q \<notin> addrs x" "q \<notin> addrs y" "addrs x \<inter> addrs y = {}" using z ab by (auto simp: zip_ok_def)
  then have h1: "holds H1 x" "holds H1 y" by (auto simp: H1_def)
  obtain ca where ca: "set_red (Some a) False H1 = Inr (H1(a \<mapsto> ca))" "holds (H1(a \<mapsto> ca)) (paint False x)"
    using holds_paint[OF h1(1) H(4) ab(1)] by blast
  have a: "a \<in> addrs x" "a \<notin> addrs y" "a \<noteq> q" "b \<in> addrs y" "b \<notin> addrs x" "b \<noteq> q" using ab H ptr_Some by auto
  have "holds (H1(a \<mapsto> ca)) y" using h1 a by simp
  then obtain cb where cb: "set_red (Some b) False (H1(a \<mapsto> ca)) = Inr (H1(a \<mapsto> ca, b \<mapsto> cb))"
      "holds (H1(a \<mapsto> ca, b \<mapsto> cb)) (paint False y)"
    using holds_paint[OF _ H(5) ab(2)] by blast
  show thesis
  proof (rule that)
    show "insert_place node p (Some q) dir H = Inr (Some q, H1(a \<mapsto> ca, b \<mapsto> cb))"
      using H ca(1) cb(1) assms(2,3) ab is_red_ptr[OF H(2)] is_red_ptr[OF H(3)]
      by (simp add: insert_place_def H1_def)
    have "holds (H1(a \<mapsto> ca, b \<mapsto> cb)) (Nd q True v (two False (paint False x) (paint False y)))"
      using ca(2) cb(2) a ab by (simp add: H1_def)
    then show "zip_ok h (H1(a \<mapsto> ca, b \<mapsto> cb)) fs (Nd q True v (two False (paint False x) (paint False y)))"
      by (rule zip_ok_subst[OF z]) (use z a in \<open>auto simp: zip_ok_def H1_def\<close>)
  qed (use a in \<open>auto simp: H1_def\<close>)
qed

lemma place_leaf:
  assumes z: "zip_ok h H (f # fs) Lf" and "H node = Some (cell True v (two False None None))" "node \<notin> caddrs h (f # fs)"
  obtains H' where "insert_place node (Some (faddr f)) None (fdir f) H = Inr (Some node, H')"
    "zip_ok h H' (f # fs) (Nd node True v (two False Lf Lf))"
    "\<And>i. i \<notin> insert node (caddrs h (f # fs)) \<Longrightarrow> H' i = H i"
proof -
  have c: "cholds h H (f # fs) None" "cdist h (f # fs)" using z by (auto simp: zip_ok_def)
  obtain H' where H': "set_link (Some (faddr f)) (fdir f) (Some node) H = Inr H'" "cholds h H' (f # fs) (Some node)"
    "\<And>a. a \<noteq> faddr f \<Longrightarrow> H' a = H a"
    using relink[OF c] by auto
  have f: "faddr f \<in> caddrs h (f # fs)" by (cases f) auto
  then have "H' node = H node" using assms(3) H'(3) by metis
  then have "zip_ok h H' (f # fs) (Nd node True v (two False Lf Lf))"
    using H'(2) c(2) assms by (auto simp: zip_ok_def)
  moreover have "H' i = H i" if "i \<notin> insert node (caddrs h (f # fs))" for i
    using that f H'(3) by (metis insertCI)
  ultimately show thesis using that[of H'] H'(1) by (simp add: insert_place_def)
qed

section \<open>One round of the loop\<close>

fun parent_red :: "frame list \<Rightarrow> bool" where
  "parent_red [] = False"
| "parent_red (f # fs) = fred f"

fun uncle_black :: "frame list \<Rightarrow> bool" where
  "uncle_black (f # g # fs) \<longleftrightarrow> \<not> is_red (fother g)"
| "uncle_black _ = False"

text \<open>The direction the loop took to the parent, when there is a grandparent.\<close>

fun ldir_ok :: "frame list \<Rightarrow> bool \<Rightarrow> bool" where
  "ldir_ok (f # g # fs) d \<longleftrightarrow> d = fdir g"
| "ldir_ok _ d = True"

text \<open>Frames and subtree after the second part of the loop body, when the subtree is red.\<close>

definition settled :: "frame list \<Rightarrow> ptree \<Rightarrow> frame list \<times> ptree" where
  "settled fs x = (if parent_red fs then rotated fs x else (fs, x))"

lemma is_red_parent: "cholds h H fs r \<Longrightarrow> rbtree_node_is_red H (p_of fs) = Inr (parent_red fs)"
  by (cases fs; cases "hd fs") (auto simp: rbtree_node_is_red_def)

lemma red_parent_frames:
  assumes "parent_red fs" "uncle_black fs"
  obtains p vp dp sp g cg vg dg sg gs where "fs = Fr p True vp dp sp # Fr g cg vg dg sg # gs" "\<not> is_red sg"
proof -
  obtain f g gs where fs: "fs = f # g # gs" using assms(2) by (cases fs rule: uncle_black.cases) auto
  show thesis using assms that unfolding fs by (cases f; cases g) auto
qed

lemma settled_ok:
  assumes z: "zip_ok h H fs x" and x: "is_red x"
    and inv: "invh (plug fs x)" "cinvc fs False" "invc x" "parent_red fs \<longrightarrow> uncle_black fs"
    and dir: "ldir_ok fs ldir"
  obtains H' fs' x' where "settled fs x = (fs', x')"
    "insert_rotate (t_of h fs) (g_of fs) (p_of fs) (ptr x) ldir H = Inr H'"
    "zip_ok h H' fs' x'" "invh (plug fs' x')" "invc (plug fs' x')" "inorder (plug fs' x') = inorder (plug fs x)"
    "addrs x' \<union> caddrs h fs' = addrs x \<union> caddrs h fs"
    "\<And>i. i \<notin> addrs x \<union> caddrs h fs \<Longrightarrow> H' i = H i"
proof (cases "parent_red fs")
  case False
  have "cholds h H fs (ptr x)" "holds H x" using z by (auto simp: zip_ok_def)
  then have "insert_rotate (t_of h fs) (g_of fs) (p_of fs) (ptr x) ldir H = Inr H"
    using False x by (simp add: insert_rotate_def is_red_parent)
  moreover have "cinvc fs (is_red x)" using inv(2) False by (cases fs; cases "hd fs") auto
  ultimately show thesis using that[of fs x H] False z inv by (simp add: settled_def invc_plug)
next
  case True
  obtain p vp dp sp g cg vg dg sg gs
    where fs: "fs = Fr p True vp dp sp # Fr g cg vg dg sg # gs" and sg: "\<not> is_red sg"
    using True inv(4) by (auto elim: red_parent_frames)
  obtain q vq k where q: "x = Nd q True vq k" using x by (cases x) auto
  obtain m n where k: "k = two (\<not> dg) m n" by (rule two_exhaust)
  obtain fs' x' where r: "rotated fs x = (fs', x')" by (cases "rotated fs x")
  obtain H' where H': "insert_rotate (Some (parent h gs)) (Some g) (Some p) (Some q) dg H = Inr H'"
    "zip_ok h H' (fst (rotated fs x)) (snd (rotated fs x))"
    "\<And>i. i \<notin> addrs x \<union> caddrs h fs \<Longrightarrow> H' i = H i"
    using insert_rotate_ok[OF z[unfolded fs q]] unfolding fs q by blast
  note inv' = rotated_inv[OF inv(1)[unfolded fs q] inv(2)[unfolded fs] inv(3)[unfolded q] sg r[unfolded fs q], folded fs q]
  show thesis
  proof (rule that)
    show "settled fs x = (fs', x')" using True r by (simp add: settled_def)
    show "insert_rotate (t_of h fs) (g_of fs) (p_of fs) (ptr x) ldir H = Inr H'"
      using H'(1) dir by (simp add: fs q)
    show "zip_ok h H' fs' x'" using H'(2) r by simp
    show "addrs x' \<union> caddrs h fs' = addrs x \<union> caddrs h fs"
      using r by (auto simp: fs q k split: if_splits)
  qed (use inv' H'(3) in auto)
qed

lemma insert_loop_step:
  assumes "insert_body node t g p q dir ldir H = Inr (q', qn, nn, H')"
  shows "insert_loop cmpf node t g p q dir ldir H =
    (if cmpf (rbvalue qn) (rbvalue nn) = 0 then Some (Inr H')
     else insert_loop cmpf node (if g \<noteq> None then g else t) p q' (link qn (cmpf (rbvalue qn) (rbvalue nn) < 0))
       (cmpf (rbvalue qn) (rbvalue nn) < 0) dir H')"
  using assms by (subst insert_loop.simps) (simp add: Let_def)

lemma loop_quiet:
  assumes "holds H (Nd q c w (two e y z))" "e = (cmpf w v < 0)" "\<not> (is_red y \<and> is_red z)"
    and "rbtree_node_is_red H p = Inr rp" "\<not> (c \<and> rp)" "H node = Some nn" "rbvalue nn = v"
  shows "insert_loop cmpf node t g p (Some q) dir ldir H =
    (if cmpf w v = 0 then Some (Inr H)
     else insert_loop cmpf node (if g \<noteq> None then g else t) p (Some q) (ptr y) e dir H)"
proof -
  have "insert_place node p (ptr (Nd q c w (two e y z))) dir H = Inr (Some q, H)"
    using place_quiet[OF assms(1)] assms(3) by simp
  then have "insert_body node t g p (Some q) dir ldir H = Inr (Some q, cell c w (two e (ptr y) (ptr z)), nn, H)"
    using assms(1,4-6) by (auto simp: insert_body_def insert_rotate_def rbtree_node_is_red_def)
  from insert_loop_step[OF this] show ?thesis using assms(2,7) by simp
qed

section \<open>Keys\<close>

text \<open>What the trees need of the comparison: it orders the values linearly, up to equivalent values.\<close>

locale key_order =
  fixes cmpf :: "nat \<Rightarrow> nat \<Rightarrow> int"
  assumes cmp_flip: "cmpf a b < 0 \<longleftrightarrow> 0 < cmpf b a"
    and cmp_trans: "cmpf a b \<le> 0 \<Longrightarrow> cmpf b c \<le> 0 \<Longrightarrow> cmpf a c \<le> 0"
begin

lemma less_trans: "cmpf a b < 0 \<Longrightarrow> cmpf b c < 0 \<Longrightarrow> cmpf a c < 0"
  using cmp_trans[of b c a] cmp_flip[of a b] cmp_flip[of a c] by force

lemma cmp_refl [simp]: "cmpf a a = 0"
  using cmp_flip[of a a] by linarith

end

interpretation ptr_cb: key_order rbtree_tree_node_cmp_ptr_cb
  by unfold_locales (auto simp: rbtree_tree_node_cmp_ptr_cb_def split: if_splits)

definition ascending :: "(nat \<Rightarrow> nat \<Rightarrow> int) \<Rightarrow> nat list \<Rightarrow> bool" where
  "ascending cmpf vs = sorted_wrt (\<lambda>a b. cmpf a b < 0) vs"

text \<open>Insertion into an ascending list: an equivalent value stays, otherwise the value gets its place.\<close>

definition ins_list :: "(nat \<Rightarrow> nat \<Rightarrow> int) \<Rightarrow> nat \<Rightarrow> nat list \<Rightarrow> nat list" where
  "ins_list cmpf v vs =
     (if \<exists>u\<in>set vs. cmpf u v = 0 then vs
      else takeWhile (\<lambda>u. cmpf u v < 0) vs @ v # dropWhile (\<lambda>u. cmpf u v < 0) vs)"

text \<open>The values left of the path are smaller than \<open>v\<close>, those right of it larger.\<close>

definition on_path :: "(nat \<Rightarrow> nat \<Rightarrow> int) \<Rightarrow> nat \<Rightarrow> frame list \<Rightarrow> bool" where
  "on_path cmpf v fs \<longleftrightarrow> (\<forall>u\<in>set (lefts fs). cmpf u v < 0) \<and> (\<forall>u\<in>set (rights fs). 0 < cmpf u v)"

lemma ins_list_path:
  assumes "on_path cmpf v fs"
  shows "ins_list cmpf v (lefts fs @ rights fs) = lefts fs @ v # rights fs"
proof -
  have no: "\<not> (\<exists>u\<in>set (lefts fs @ rights fs). cmpf u v = 0)" using assms by (fastforce simp: on_path_def)
  have r: "takeWhile (\<lambda>u. cmpf u v < 0) (rights fs) = []" "dropWhile (\<lambda>u. cmpf u v < 0) (rights fs) = rights fs"
    using assms by (cases "rights fs"; auto simp: on_path_def)+
  show ?thesis using assms no r
    by (simp add: ins_list_def on_path_def takeWhile_append2 dropWhile_append2)
qed

lemma ins_list_found: "u \<in> set vs \<Longrightarrow> cmpf u v = 0 \<Longrightarrow> ins_list cmpf v vs = vs"
  by (auto simp: ins_list_def)

context key_order
begin

lemma on_path_down:
  assumes "ascending cmpf (inorder (plug fs (Nd q c w (two e y z))))" "on_path cmpf v fs"
    and "e = (cmpf w v < 0)" "cmpf w v \<noteq> 0"
  shows "on_path cmpf v (Fr q c w e z # fs)"
proof (cases e)
  case True
  then have "cmpf u w < 0" if "u \<in> set (inorder z)" for u
    using assms(1) that by (auto simp: inorder_plug ascending_def sorted_wrt_append)
  then show ?thesis using assms True less_trans by (auto simp: on_path_def)
next
  case False
  then have "cmpf w u < 0" if "u \<in> set (inorder z)" for u
    using assms(1) that by (auto simp: inorder_plug ascending_def sorted_wrt_append)
  moreover have "cmpf v w < 0" using False assms(3,4) cmp_flip[of v w] by linarith
  ultimately have "cmpf v u < 0" if "u \<in> set (inorder z)" for u using less_trans that by blast
  then show ?thesis using assms False \<open>cmpf v w < 0\<close> cmp_flip by (auto simp: on_path_def)
qed

end

section \<open>The loop\<close>

definition quiet :: "ptree \<Rightarrow> bool" where
  "quiet x \<longleftrightarrow> x \<noteq> Lf \<and> \<not> is_red x \<and> \<not> both_red x"

text \<open>When a rotation can become necessary, there is a grandparent and the uncle is black.\<close>

fun helper_ok :: "frame list \<Rightarrow> ptree \<Rightarrow> bool" where
  "helper_ok [] x \<longleftrightarrow> x \<noteq> Lf \<and> \<not> is_red x"
| "helper_ok (f # fs) x \<longleftrightarrow> \<not> (is_red x \<and> is_red (fother f)) \<and> (fred f \<longrightarrow> quiet x \<or> uncle_black (f # fs))"

definition fresh_at :: "nat \<Rightarrow> nat \<Rightarrow> rbheap \<Rightarrow> bool" where
  "fresh_at node v H \<longleftrightarrow> H node = Some (cell True v (two False None None))"

definition walk_inv :: "(nat \<Rightarrow> nat \<Rightarrow> int) \<Rightarrow> nat \<Rightarrow> nat \<Rightarrow> nat \<Rightarrow> rbheap \<Rightarrow> frame list \<Rightarrow> ptree \<Rightarrow> bool" where
  "walk_inv cmpf v node h H fs x \<longleftrightarrow>
     zip_ok h H fs x \<and> invh (plug fs x) \<and> invc (plug fs x) \<and> ascending cmpf (inorder (plug fs x)) \<and>
     on_path cmpf v fs \<and> fresh_at node v H \<and> node \<notin> addrs x \<union> caddrs h fs"

text \<open>The result of the loop that starts with the tree \<open>fs\<close>, \<open>x\<close>.\<close>

definition loop_result ::
  "(nat \<Rightarrow> nat \<Rightarrow> int) \<Rightarrow> nat \<Rightarrow> nat \<Rightarrow> nat \<Rightarrow> rbheap \<Rightarrow> frame list \<Rightarrow> ptree \<Rightarrow> rbheap res option \<Rightarrow> bool" where
  "loop_result cmpf v node h H fs x r \<longleftrightarrow>
     (\<exists>H' T. r = Some (Inr H') \<and> zip_ok h H' [] T \<and> invh T \<and> invc T \<and>
        inorder T = ins_list cmpf v (inorder (plug fs x)) \<and>
        insert h (addrs T) = (if \<exists>u\<in>set (inorder (plug fs x)). cmpf u v = 0 then {} else {node}) \<union> (addrs x \<union> caddrs h fs) \<and>
        (\<forall>i. i \<notin> insert node (addrs x \<union> caddrs h fs) \<longrightarrow> H' i = H i))"

text \<open>The tree \<open>fs\<close>, \<open>x\<close> in \<open>H\<close> becomes \<open>fs'\<close>, \<open>x'\<close> in \<open>H'\<close> with the same values at the same addresses.\<close>

definition evolves :: "nat \<Rightarrow> nat \<Rightarrow> rbheap \<Rightarrow> frame list \<Rightarrow> ptree \<Rightarrow> rbheap \<Rightarrow> frame list \<Rightarrow> ptree \<Rightarrow> bool" where
  "evolves node h H fs x H' fs' x' \<longleftrightarrow>
     inorder (plug fs' x') = inorder (plug fs x) \<and> addrs x' \<union> caddrs h fs' = addrs x \<union> caddrs h fs \<and>
     (\<forall>i. i \<notin> insert node (addrs x \<union> caddrs h fs) \<longrightarrow> H' i = H i)"

lemma evolves_refl: "evolves node h H fs x H fs x"
  by (simp add: evolves_def)

lemma evolves_down:
  "evolves node h H fs x H' fs' (Nd q c w (two e y z)) \<Longrightarrow> evolves node h H fs x H' (Fr q c w e z # fs') y"
  by (auto simp: evolves_def)

lemma loop_result_found:
  assumes "walk_inv cmpf v node h H' fs' (Nd q c w k)" "evolves node h H fs x H' fs' (Nd q c w k)" "cmpf w v = 0"
  shows "loop_result cmpf v node h H fs x (Some (Inr H'))"
  unfolding loop_result_def
proof (intro exI conjI)
  let ?x = "Nd q c w k"
  have eq: "inorder (plug fs' ?x) = inorder (plug fs x)" "addrs ?x \<union> caddrs h fs' = addrs x \<union> caddrs h fs"
    using assms(2) by (auto simp: evolves_def)
  have w: "w \<in> set (inorder (plug fs x))" unfolding eq(1)[symmetric] by (simp add: inorder_plug inorder.simps)
  show "zip_ok h H' [] (plug fs' ?x)" using assms(1) zip_ok_plug by (auto simp: walk_inv_def)
  show "inorder (plug fs' ?x) = ins_list cmpf v (inorder (plug fs x))"
    using ins_list_found[of w _ cmpf v, OF w assms(3)] eq(1) by simp
  show "insert h (addrs (plug fs' ?x)) = (if \<exists>u\<in>set (inorder (plug fs x)). cmpf u v = 0 then {} else {node}) \<union> (addrs x \<union> caddrs h fs)"
    using addrs_plug[of h fs' ?x] eq(2) w assms(3) by auto
qed (use assms in \<open>auto simp: walk_inv_def evolves_def\<close>)

lemma loop_result_later:
  assumes "loop_result cmpf v node h H' fs' x' r" "evolves node h H fs x H' fs' x'"
  shows "loop_result cmpf v node h H fs x r"
proof -
  have eq: "inorder (plug fs' x') = inorder (plug fs x)" "addrs x' \<union> caddrs h fs' = addrs x \<union> caddrs h fs"
    and keep: "\<And>i. i \<notin> insert node (addrs x \<union> caddrs h fs) \<Longrightarrow> H' i = H i"
    using assms(2) unfolding evolves_def by blast+
  show ?thesis using assms(1) keep unfolding loop_result_def eq by metis
qed

lemma t_of_next: "(if g_of fs \<noteq> None then g_of fs else t_of h fs) = t_of h (f # fs)"
  by (cases fs rule: g_of.cases) auto

lemma g_of_next: "g_of (f # fs) = p_of fs"
  by (cases fs) auto

lemma walk_down:
  assumes inv: "walk_inv cmpf v node h H fs (Nd q c w (two e y z))" "key_order cmpf"
    and "e = (cmpf w v < 0)" "cmpf w v \<noteq> 0"
  shows "walk_inv cmpf v node h H (Fr q c w e z # fs) y"
proof -
  have "on_path cmpf v (Fr q c w e z # fs)"
    by (rule key_order.on_path_down[OF inv(2) _ _ assms(3,4)]) (use inv(1) in \<open>auto simp: walk_inv_def\<close>)
  moreover have "zip_ok h H (Fr q c w e z # fs) y" using inv(1) by (simp add: walk_inv_def zip_ok_fill)
  ultimately show ?thesis using inv(1) by (auto simp: walk_inv_def)
qed

text \<open>A round of the loop that changes nothing, whatever the stale helpers are.\<close>

lemma walk_step:
  assumes inv: "walk_inv cmpf v node h H fs (Nd q c w (two e y z))"
    and "e = (cmpf w v < 0)" "\<not> (is_red y \<and> is_red z)"
  shows "insert_loop cmpf node t g (p_of fs) (Some q) dir ldir H =
    (if cmpf w v = 0 then Some (Inr H)
     else insert_loop cmpf node (if g \<noteq> None then g else t) (p_of fs) (Some q) (ptr y) e dir H)"
proof (rule loop_quiet[where v = v])
  show "rbtree_node_is_red H (p_of fs) = Inr (parent_red fs)"
    using inv is_red_parent by (auto simp: walk_inv_def zip_ok_def)
  show "\<not> (c \<and> parent_red fs)"
    using inv by (cases fs; cases "hd fs") (auto simp: walk_inv_def invc_plug)
qed (use assms in \<open>auto simp: walk_inv_def zip_ok_def fresh_at_def\<close>)

lemma helper_down:
  assumes "helper_ok fs (Nd q c w (two e y z))" "\<not> (is_red y \<and> is_red z)"
  shows "helper_ok (Fr q c w e z # fs) y"
  using assms by (cases fs) auto

lemma settled_path:
  assumes "settled fs x = (fs', x')" "on_path cmpf v fs" "is_red x" "parent_red fs \<longrightarrow> uncle_black fs"
  shows "on_path cmpf v fs' \<and> ptr x' = ptr x"
proof (cases "parent_red fs")
  case True
  obtain p vp dp sp g cg vg dg sg gs where fs: "fs = Fr p True vp dp sp # Fr g cg vg dg sg # gs" "\<not> is_red sg"
    using True assms(4) by (auto elim: red_parent_frames)
  obtain q vq k where q: "x = Nd q True vq k" using assms(3) by (cases x) auto
  show ?thesis using assms(1,2) True by (auto simp: settled_def fs q on_path_def split: if_splits)
qed (use assms in \<open>auto simp: settled_def\<close>)

text \<open>A round that flips colours at \<open>q\<close>, with the rotation it may cause.\<close>

definition flipped :: "ptree \<Rightarrow> ptree" where
  "flipped x = (case x of Lf \<Rightarrow> Lf | Nd q c w k \<Rightarrow> Nd q True w (two False (paint False (k False)) (paint False (k True))))"

lemma flipped_two: "flipped (Nd q c w (two e y z)) = Nd q True w (two e (paint False y) (paint False z))"
  by (cases e) (simp_all add: flipped_def two_def fun_eq_iff)

lemma flip_round:
  assumes inv: "walk_inv cmpf v node h H fs x" "helper_ok fs x" "both_red x"
    and dir: "ldir_ok fs ldir"
  obtains H' fs' q c w k where "settled fs (flipped x) = (fs', Nd q c w k)" "ptr x = Some q"
    "insert_body node (t_of h fs) (g_of fs) (p_of fs) (Some q) dir ldir H =
       Inr (Some q, cell c w (\<lambda>d. ptr (k d)), cell True v (two False None None), H')"
    "walk_inv cmpf v node h H' fs' (Nd q c w k)" "evolves node h H fs x H' fs' (Nd q c w k)"
proof -
  obtain q c w k where "x = Nd q c w k" using inv(3) by (cases x) auto
  moreover obtain a b where "k = two False a b" by (rule two_exhaust)
  ultimately have x: "x = Nd q c w (two False a b)" by simp
  have red: "is_red a" "is_red b" using inv(3) by (auto simp: x)
  have c: "\<not> c" using inv(1) red by (auto simp: walk_inv_def x invc_plug)
  let ?x = "Nd q True w (two False (paint False a) (paint False b))"
  have fl: "flipped x = ?x" by (simp add: x flipped_two)
  have z: "zip_ok h H fs (Nd q c w (two False a b))" using inv(1) by (simp add: walk_inv_def x)
  obtain H1 where H1: "insert_place node (p_of fs) (Some q) dir H = Inr (Some q, H1)" "zip_ok h H1 fs ?x"
    "\<And>i. i \<notin> addrs x \<Longrightarrow> H1 i = H i" using place_flip[OF z red] unfolding x by blast
  have i1: "invh (plug fs ?x)" "cinvc fs False" "invc ?x" "is_red ?x"
    using inv(1) red c by (auto simp: walk_inv_def x invh_plug invc_plug)
  have un: "parent_red fs \<longrightarrow> uncle_black fs"
    using inv(2,3) by (cases fs) (auto simp: quiet_def)
  obtain H' fs' x' where s: "settled fs ?x = (fs', x')"
    "insert_rotate (t_of h fs) (g_of fs) (p_of fs) (ptr ?x) ldir H1 = Inr H'"
    "zip_ok h H' fs' x'" "invh (plug fs' x')" "invc (plug fs' x')" "inorder (plug fs' x') = inorder (plug fs ?x)"
    "addrs x' \<union> caddrs h fs' = addrs ?x \<union> caddrs h fs" "\<And>i. i \<notin> addrs ?x \<union> caddrs h fs \<Longrightarrow> H' i = H1 i"
    by (rule settled_ok[OF H1(2) i1(4,1,2,3) un dir], rule that)
  have path: "on_path cmpf v fs'" "ptr x' = Some q"
    using settled_path[OF s(1) _ i1(4) un] inv(1) by (auto simp: walk_inv_def)
  obtain c' w' k' where x': "x' = Nd q c' w' k'" using path(2) by (cases x') auto
  have same: "inorder (plug fs ?x) = inorder (plug fs x)" "addrs ?x = addrs x" by (simp_all add: x inorder_plug)
  have keep: "H' i = H i" if "i \<notin> addrs x \<union> caddrs h fs" for i
    using that s(8)[of i] H1(3)[of i] unfolding same by simp
  have node: "node \<notin> addrs x \<union> caddrs h fs" using inv(1) by (simp add: walk_inv_def)
  have ev: "evolves node h H fs x H' fs' x'"
    using s(6,7) keep unfolding same by (simp add: evolves_def)
  have w: "walk_inv cmpf v node h H' fs' x'"
    using s(3-7) keep[OF node] node path(1) inv(1) unfolding walk_inv_def fresh_at_def same by simp
  have "insert_body node (t_of h fs) (g_of fs) (p_of fs) (Some q) dir ldir H =
       Inr (Some q, cell c' w' (\<lambda>d. ptr (k' d)), cell True v (two False None None), H')"
    using H1(1) s(2) w by (simp add: insert_body_def walk_inv_def zip_ok_def x' holds.simps fresh_at_def)
  then show thesis using s(1) w ev unfolding x' by (intro that) (simp_all add: fl, simp_all add: x)
qed

lemma leaf_round:
  assumes inv: "walk_inv cmpf v node h H (f # fs) Lf" "helper_ok (f # fs) Lf" "key_order cmpf"
    and dir: "dir = fdir f" "ldir_ok (f # fs) ldir"
  shows "loop_result cmpf v node h H (f # fs) Lf
     (insert_loop cmpf node (t_of h (f # fs)) (g_of (f # fs)) (p_of (f # fs)) None dir ldir H)"
proof -
  let ?fs = "f # fs" and ?x = "Nd node True v (two False Lf Lf)"
  have z: "zip_ok h H ?fs Lf" and node: "H node = Some (cell True v (two False None None))" "node \<notin> caddrs h ?fs"
    using inv(1) by (auto simp: walk_inv_def fresh_at_def)
  obtain H1 where H1: "insert_place node (Some (faddr f)) None (fdir f) H = Inr (Some node, H1)" "zip_ok h H1 ?fs ?x"
    "\<And>i. i \<notin> insert node (caddrs h ?fs) \<Longrightarrow> H1 i = H i" using place_leaf[OF z node] by blast
  have i1: "invh (plug ?fs ?x)" "cinvc ?fs False" "invc ?x" "is_red ?x"
    using inv(1) by (cases f; simp add: walk_inv_def invh_plug invc_plug)+
  have un: "parent_red ?fs \<longrightarrow> uncle_black ?fs" using inv(2) by (auto simp: quiet_def)
  obtain H' fs' x' where s: "settled ?fs ?x = (fs', x')"
    "insert_rotate (t_of h ?fs) (g_of ?fs) (p_of ?fs) (ptr ?x) ldir H1 = Inr H'"
    "zip_ok h H' fs' x'" "invh (plug fs' x')" "invc (plug fs' x')" "inorder (plug fs' x') = inorder (plug ?fs ?x)"
    "addrs x' \<union> caddrs h fs' = addrs ?x \<union> caddrs h ?fs" "\<And>i. i \<notin> addrs ?x \<union> caddrs h ?fs \<Longrightarrow> H' i = H1 i"
    by (rule settled_ok[OF H1(2) i1(4,1,2,3) un dir(2)], rule that)
  have path: "on_path cmpf v ?fs" using inv(1) by (simp add: walk_inv_def)
  have no: "\<not> (\<exists>u\<in>set (inorder (plug ?fs Lf)). cmpf u v = 0)"
    using path inorder_plug[of ?fs Lf] by (auto simp del: plug.simps lefts.simps rights.simps simp: on_path_def)
  obtain c' w' k' where x': "x' = Nd node c' w' k'"
    using settled_path[OF s(1) path i1(4) un] by (cases x') auto
  have "holds H' x'" using s(3) by (simp add: zip_ok_def)
  then have "insert_body node (t_of h ?fs) (g_of ?fs) (p_of ?fs) None dir ldir H =
       Inr (Some node, cell c' w' (\<lambda>d. ptr (k' d)), cell c' w' (\<lambda>d. ptr (k' d)), H')"
    using H1(1) s(2) dir(1) by (simp add: insert_body_def x' holds.simps)
  from insert_loop_step[OF this] have r: "insert_loop cmpf node (t_of h ?fs) (g_of ?fs) (p_of ?fs) None dir ldir H = Some (Inr H')"
    using key_order.cmp_refl[OF inv(3)] by simp
  show ?thesis unfolding loop_result_def r
  proof (intro exI conjI)
    show "zip_ok h H' [] (plug fs' x')" using s(3) zip_ok_plug by blast
    show "inorder (plug fs' x') = ins_list cmpf v (inorder (plug ?fs Lf))"
      using s(6) ins_list_path[OF path] inorder_plug[of ?fs] by simp
    show "insert h (addrs (plug fs' x')) =
        (if \<exists>u\<in>set (inorder (plug ?fs Lf)). cmpf u v = 0 then {} else {node}) \<union> (addrs Lf \<union> caddrs h ?fs)"
      using addrs_plug[of h fs' x'] s(7) no by auto
    show "\<forall>i. i \<notin> insert node (addrs Lf \<union> caddrs h ?fs) \<longrightarrow> H' i = H i"
      using s(8) H1(3) by auto
  qed (use s in auto)
qed

text \<open>A quiet round from a state that has evolved from \<open>fs\<close>, \<open>x\<close>; the helpers \<open>t\<close> and \<open>g\<close> may be stale.\<close>

lemma quiet_round:
  assumes "key_order cmpf" and inv: "walk_inv cmpf v node h H' gs (Nd q c w (two e y z))"
    and e: "e = (cmpf w v < 0)" and black: "\<not> (is_red y \<and> is_red z)"
    and ev: "evolves node h H fs x H' gs (Nd q c w (two e y z))"
    and cont: "cmpf w v \<noteq> 0 \<Longrightarrow> walk_inv cmpf v node h H' (Fr q c w e z # gs) y \<Longrightarrow>
      evolves node h H fs x H' (Fr q c w e z # gs) y \<Longrightarrow>
      loop_result cmpf v node h H fs x
        (insert_loop cmpf node (if g \<noteq> None then g else t) (p_of gs) (Some q) (ptr y) e dir H')"
  shows "loop_result cmpf v node h H fs x (insert_loop cmpf node t g (p_of gs) (Some q) dir ldir H')"
proof (cases "cmpf w v = 0")
  case True
  then show ?thesis using walk_step[OF inv e black] loop_result_found[OF inv ev] by simp
next
  case False
  then show ?thesis
    using walk_step[OF inv e black] cont[OF False walk_down[OF inv assms(1) e False] evolves_down[OF ev]] by simp
qed

text \<open>The loop continues correctly from any smaller subtree in which the helpers are right again.\<close>

definition resumes ::
  "(nat \<Rightarrow> nat \<Rightarrow> int) \<Rightarrow> nat \<Rightarrow> nat \<Rightarrow> nat \<Rightarrow> rbheap \<Rightarrow> frame list \<Rightarrow> ptree \<Rightarrow> bool" where
  "resumes cmpf v node h H fs x \<longleftrightarrow>
     (\<forall>H' f gs y d. nodes y < nodes x \<longrightarrow> walk_inv cmpf v node h H' (f # gs) y \<longrightarrow> helper_ok (f # gs) y \<longrightarrow>
        ldir_ok (f # gs) d \<longrightarrow> evolves node h H fs x H' (f # gs) y \<longrightarrow>
        loop_result cmpf v node h H fs x
          (insert_loop cmpf node (t_of h (f # gs)) (g_of (f # gs)) (Some (faddr f)) (ptr y) (fdir f) d H'))"

lemma resumesD:
  assumes "resumes cmpf v node h H fs x" "nodes y < nodes x" "walk_inv cmpf v node h H' (f # gs) y" "helper_ok (f # gs) y"
    "ldir_ok (f # gs) d" "evolves node h H fs x H' (f # gs) y"
  shows "loop_result cmpf v node h H fs x
    (insert_loop cmpf node (t_of h (f # gs)) (g_of (f # gs)) (Some (faddr f)) (ptr y) (fdir f) d H')"
  using assms unfolding resumes_def by blast

text \<open>The round at a child of a node whose colours were flipped: the child is black and so are its children.\<close>

lemma painted_round:
  assumes ord: "key_order cmpf" and res: "resumes cmpf v node h H fs x" and y: "invc y" "is_red y" "nodes y < nodes x"
    and inv: "walk_inv cmpf v node h H' (f # f' # gs) (paint False y)"
    and ev: "evolves node h H fs x H' (f # f' # gs) (paint False y)"
  shows "loop_result cmpf v node h H fs x
    (insert_loop cmpf node t (Some (faddr f')) (Some (faddr f)) (ptr y) (fdir f) ldir H')"
proof -
  obtain a u k where a: "y = Nd a True u k" using y(2) by (cases y) auto
  define e where "e = (cmpf u v < 0)"
  obtain m n where k: "k = two e m n" by (rule two_exhaust)
  have mn: "\<not> is_red m" "\<not> is_red n" using y(1) by (auto simp: a k)
  have p: "paint False y = Nd a False u (two e m n)" by (simp add: a k)
  have "loop_result cmpf v node h H fs x
      (insert_loop cmpf node t (Some (faddr f')) (p_of (f # f' # gs)) (Some a) (fdir f) ldir H')"
  proof (rule quiet_round[OF ord inv[unfolded p] e_def _ ev[unfolded p]])
    assume "walk_inv cmpf v node h H' (Fr a False u e n # f # f' # gs) m"
      "evolves node h H fs x H' (Fr a False u e n # f # f' # gs) m"
    then have "loop_result cmpf v node h H fs x (insert_loop cmpf node (t_of h (Fr a False u e n # f # f' # gs))
        (g_of (Fr a False u e n # f # f' # gs)) (Some (faddr (Fr a False u e n))) (ptr m) (fdir (Fr a False u e n)) (fdir f) H')"
      by (intro resumesD[OF res]) (use y(3) mn in \<open>simp_all add: a k\<close>)
    then show "loop_result cmpf v node h H fs x
      (insert_loop cmpf node (if Some (faddr f') \<noteq> None then Some (faddr f') else t) (p_of (f # f' # gs)) (Some a) (ptr m) e (fdir f) H')"
      by simp
  qed (use mn in simp)
  then show ?thesis by (simp add: a)
qed

text \<open>The move down after a flip, without rotation, after a single and after a double rotation.\<close>

lemma flip_down_plain:
  assumes ord: "key_order cmpf" and res: "resumes cmpf v node h H fs (Nd q c w (two e y z))"
    and red: "is_red y" "invc y"
    and inv: "walk_inv cmpf v node h H' (Fr q True w e (paint False z) # fs) (paint False y)"
    and ev: "evolves node h H fs (Nd q c w (two e y z)) H' (Fr q True w e (paint False z) # fs) (paint False y)"
    and dir: "fs \<noteq> [] \<Longrightarrow> dir = fdir (hd fs)"
  shows "loop_result cmpf v node h H fs (Nd q c w (two e y z))
    (insert_loop cmpf node (if g_of fs \<noteq> None then g_of fs else t_of h fs) (p_of fs) (Some q) (ptr y) e dir H')"
proof -
  obtain a u k where a: "y = Nd a True u k" using red(1) by (cases y) auto
  have q: "quiet (paint False y)" using red(2) by (simp add: a quiet_def both_red_def invc.simps)
  have "ldir_ok (Fr q True w e (paint False z) # fs) dir" using dir by (cases fs) auto
  then have "loop_result cmpf v node h H fs (Nd q c w (two e y z)) (insert_loop cmpf node (t_of h (Fr q True w e (paint False z) # fs))
      (g_of (Fr q True w e (paint False z) # fs)) (Some (faddr (Fr q True w e (paint False z)))) (ptr (paint False y))
      (fdir (Fr q True w e (paint False z))) dir H')"
    using q by (intro resumesD[OF res _ inv _ _ ev]) simp_all
  then show ?thesis unfolding t_of_next[of fs h "Fr q True w e (paint False z)"] by (simp add: g_of_next)
qed

lemma flip_down_single:
  assumes ord: "key_order cmpf" and res: "resumes cmpf v node h H fs (Nd q c w (two e y z))"
    and red: "is_red y" "invc y"
    and inv: "walk_inv cmpf v node h H' (Fr q True w e (paint False z) # f # gs) (paint False y)"
    and ev: "evolves node h H fs (Nd q c w (two e y z)) H' (Fr q True w e (paint False z) # f # gs) (paint False y)"
  shows "loop_result cmpf v node h H fs (Nd q c w (two e y z))
    (insert_loop cmpf node t (Some (faddr f)) (Some q) (ptr y) e dir H')"
  using painted_round[OF ord res red(2,1) _ inv ev, of t dir] by simp

lemma flip_down_double:
  assumes ord: "key_order cmpf" and res: "resumes cmpf v node h H fs (Nd q c w (two e y z))"
    and red: "is_red y" "invc y" and m: "cmpf vm v \<noteq> 0" "dm = (cmpf vm v < 0)" "\<not> is_red sm"
    and inv: "walk_inv cmpf v node h H' (Fr q False w e s # gs) (Nd m True vm (two dm (paint False y) sm))"
    and ev: "evolves node h H fs (Nd q c w (two e y z)) H' (Fr q False w e s # gs) (Nd m True vm (two dm (paint False y) sm))"
  shows "loop_result cmpf v node h H fs (Nd q c w (two e y z))
    (insert_loop cmpf node t (Some g) (Some q) (Some m) e dir H')"
proof -
  have "loop_result cmpf v node h H fs (Nd q c w (two e y z))
    (insert_loop cmpf node t (Some g) (p_of (Fr q False w e s # gs)) (Some m) e dir H')"
  proof (rule quiet_round[OF ord inv m(2) _ ev])
    assume *: "walk_inv cmpf v node h H' (Fr m True vm dm sm # Fr q False w e s # gs) (paint False y)"
      "evolves node h H fs (Nd q c w (two e y z)) H' (Fr m True vm dm sm # Fr q False w e s # gs) (paint False y)"
    show "loop_result cmpf v node h H fs (Nd q c w (two e y z))
       (insert_loop cmpf node (if Some g \<noteq> None then Some g else t) (p_of (Fr q False w e s # gs)) (Some m) (ptr (paint False y)) dm e H')"
      using painted_round[OF ord res red(2,1) _ *] by simp
  qed simp
  then show ?thesis by simp
qed

text \<open>On the path, a frame's direction is the comparison of its value with \<open>v\<close>.\<close>

lemma on_path_dir:
  assumes "on_path cmpf v (Fr a c u d s # fs)"
  shows "cmpf u v \<noteq> 0" "d = (cmpf u v < 0)" "on_path cmpf v fs"
  using assms by (cases d; auto simp: on_path_def)+

lemma settled_root: "settled fs (Nd q c w k) = (fs', Nd q' c' w' k') \<Longrightarrow> q' = q \<and> w' = w"
  by (cases "(fs, Nd q c w k)" rule: rotated.cases) (auto simp: settled_def split: if_splits)

lemma flip_down:
  assumes ord: "key_order cmpf" and x: "x = Nd q c w (two e y z)" and res: "resumes cmpf v node h H fs x"
    and inv: "walk_inv cmpf v node h H fs x" "helper_ok fs x" "both_red x"
    and dir: "fs \<noteq> [] \<Longrightarrow> dir = fdir (hd fs)" and e: "e = (cmpf w v < 0)"
    and set: "settled fs (flipped x) = (fs', Nd q c' w (two e y' z'))"
    and down: "walk_inv cmpf v node h H' (Fr q c' w e z' # fs') y'" "evolves node h H fs x H' (Fr q c' w e z' # fs') y'"
  shows "loop_result cmpf v node h H fs x
     (insert_loop cmpf node (if g_of fs \<noteq> None then g_of fs else t_of h fs) (p_of fs) (Some q) (ptr y') e dir H')"
proof -
  have y: "is_red y" "is_red z" "invc y" using inv(1,3) by (auto simp: x walk_inv_def invc_plug)
  show ?thesis
  proof (cases "parent_red fs")
    case False
    then have "fs' = fs" "c'" "y' = paint False y" "z' = paint False z"
      using set by (auto simp: settled_def x flipped_two)
    then show ?thesis
      using flip_down_plain[OF ord res[unfolded x] y(1,3) _ _ dir] down by (simp add: x)
  next
    case True
    then have "uncle_black fs" using inv(2,3) by (cases fs) (auto simp: quiet_def)
    then obtain p vp dp sp g cg vg dg sg gs where fs: "fs = Fr p True vp dp sp # Fr g cg vg dg sg # gs" "\<not> is_red sg"
      using True by (auto elim: red_parent_frames)
    have op: "on_path cmpf v (Fr p True vp dp sp # Fr g cg vg dg sg # gs)"
      using inv(1) unfolding walk_inv_def fs(1) by blast
    have sp: "\<not> is_red sp" using inv(1) by (simp add: walk_inv_def fs(1) invc_plug)
    note p = on_path_dir(1,2)[OF op] on_path_dir(1,2)[OF on_path_dir(3)[OF op]] sp
    show ?thesis
    proof (cases "dp = dg")
      case True
      then have "fs' = Fr p False vp dp (Nd g True vg (two dp sp sg)) # gs" "c'" "y' = paint False y" "z' = paint False z"
        using set by (auto simp: settled_def x flipped_two fs)
      then show ?thesis using flip_down_single[OF ord res[unfolded x] y(1,3), where f = "Fr p False vp dp (Nd g True vg (two dp sp sg))"] down
        by (simp add: x fs)
    next
      case False
      define k where "k = two e (paint False y) (paint False z)"
      have eq: "fs' = gs" "\<not> c'" "two e y' z' =
          two dg (Nd p True vp (two dg sp (k dg))) (Nd g True vg (two dg (k (\<not> dg)) sg))"
        using set False by (auto simp: settled_def x flipped_two fs k_def)
      show ?thesis
      proof (cases "e = dg")
        case True
        then have "y' = Nd p True vp (two dp (paint False y) sp)" using eq(3) by (simp add: k_def two_other[OF False])
        then show ?thesis
          using flip_down_double[OF ord res[unfolded x] y(1,3) p(1,2,5)] down eq(1,2) by (simp add: x fs)
      next
        case False
        then have "k (\<not> dg) = paint False y" by (auto simp: k_def two_def)
        then have "y' = Nd g True vg (two dg (paint False y) sg)" using eq(3) False by (simp add: two_swap)
        then show ?thesis
          using flip_down_double[OF ord res[unfolded x] y(1,3) p(3,4) fs(2)] down eq(1,2) by (simp add: x fs)
      qed
    qed
  qed
qed

lemma flip_case:
  assumes ord: "key_order cmpf" and res: "resumes cmpf v node h H fs x"
    and inv: "walk_inv cmpf v node h H fs x" "helper_ok fs x" "both_red x"
    and dir: "ldir_ok fs ldir" "fs \<noteq> [] \<Longrightarrow> dir = fdir (hd fs)"
  shows "loop_result cmpf v node h H fs x
     (insert_loop cmpf node (t_of h fs) (g_of fs) (p_of fs) (ptr x) dir ldir H)"
proof -
  obtain H' fs' q c' w k where r: "settled fs (flipped x) = (fs', Nd q c' w k)" "ptr x = Some q"
    "insert_body node (t_of h fs) (g_of fs) (p_of fs) (Some q) dir ldir H =
       Inr (Some q, cell c' w (\<lambda>d. ptr (k d)), cell True v (two False None None), H')"
    "walk_inv cmpf v node h H' fs' (Nd q c' w k)" "evolves node h H fs x H' fs' (Nd q c' w k)"
    by (rule flip_round[OF inv dir(1)], rule that)
  define e where "e = (cmpf w v < 0)"
  obtain y' z' where k: "k = two e y' z'" by (rule two_exhaust)
  obtain c w' k' where "x = Nd q c w' k'" using r(2) by (cases x) auto
  moreover from this have "w' = w" using r(1) by (auto simp: flipped_def dest: settled_root)
  moreover obtain y z where "k' = two e y z" by (rule two_exhaust)
  ultimately have x: "x = Nd q c w (two e y z)" by simp
  have step: "insert_loop cmpf node (t_of h fs) (g_of fs) (p_of fs) (ptr x) dir ldir H =
      (if cmpf w v = 0 then Some (Inr H')
       else insert_loop cmpf node (if g_of fs \<noteq> None then g_of fs else t_of h fs) (p_of fs) (Some q) (ptr y') e dir H')"
    using insert_loop_step[OF r(3), of cmpf] r(2) by (simp add: e_def[symmetric] k)
  show ?thesis
  proof (cases "cmpf w v = 0")
    case True
    then show ?thesis using step loop_result_found[OF r(4,5)] by simp
  next
    case False
    note down = walk_down[OF r(4)[unfolded k] ord e_def False] evolves_down[OF r(5)[unfolded k]]
    show ?thesis using step False flip_down[OF ord x res inv dir(2) e_def r(1)[unfolded k] down] by simp
  qed
qed

lemma insert_loop_ok:
  assumes ord: "key_order cmpf"
  shows "walk_inv cmpf v node h H fs x \<Longrightarrow> helper_ok fs x \<Longrightarrow> ldir_ok fs ldir \<Longrightarrow> (fs \<noteq> [] \<Longrightarrow> dir = fdir (hd fs)) \<Longrightarrow>
    loop_result cmpf v node h H fs x (insert_loop cmpf node (t_of h fs) (g_of fs) (p_of fs) (ptr x) dir ldir H)"
proof (induction x arbitrary: H fs dir ldir rule: measure_induct_rule[where f = nodes])
  case (less x)
  have res: "resumes cmpf v node h H fs x"
    unfolding resumes_def
  proof (intro allI impI)
    fix H' f gs y d
    assume *: "nodes y < nodes x" "walk_inv cmpf v node h H' (f # gs) y" "helper_ok (f # gs) y"
      "ldir_ok (f # gs) d" "evolves node h H fs x H' (f # gs) y"
    show "loop_result cmpf v node h H fs x
        (insert_loop cmpf node (t_of h (f # gs)) (g_of (f # gs)) (Some (faddr f)) (ptr y) (fdir f) d H')"
      by (rule loop_result_later[OF _ *(5)]) (use less.IH[OF *(1-4), of "fdir f"] in simp)
  qed
  consider (leaf) f gs where "x = Lf" "fs = f # gs" | (flip) "both_red x" | (plain) q c w k where "x = Nd q c w k" "\<not> both_red x"
    using less.prems(2) by (cases x; cases fs) auto
  then show ?case
  proof cases
    case leaf
    then show ?thesis using leaf_round[OF _ _ ord, of v node h H f gs dir ldir] less.prems by simp
  next
    case flip
    show ?thesis by (rule flip_case[OF ord res less.prems(1,2) flip less.prems(3,4)])
  next
    case plain
    define e where "e = (cmpf w v < 0)"
    obtain y z where "k = two e y z" by (rule two_exhaust)
    then have x: "x = Nd q c w (two e y z)" using plain by simp
    let ?F = "Fr q c w e z"
    have ld: "ldir_ok (?F # fs) dir" using less.prems(4) by (cases fs) auto
    have hp: "helper_ok (?F # fs) y" using helper_down[of fs q c w e y z] less.prems(2) plain(2) by (simp add: x)
    have "loop_result cmpf v node h H fs x
        (insert_loop cmpf node (t_of h fs) (g_of fs) (p_of fs) (Some q) dir ldir H)"
    proof (rule quiet_round[OF ord less.prems(1)[unfolded x] e_def])
      assume *: "walk_inv cmpf v node h H (?F # fs) y" "evolves node h H fs x H (?F # fs) y"
      from resumesD[OF res _ *(1) hp ld *(2)]
      show "loop_result cmpf v node h H fs x
         (insert_loop cmpf node (if g_of fs \<noteq> None then g_of fs else t_of h fs) (p_of fs) (Some q) (ptr y) e dir H)"
        unfolding t_of_next[of fs h ?F] by (simp add: x g_of_next)
    qed (use plain(2) evolves_refl in \<open>auto simp: x\<close>)
    then show ?thesis by (simp add: x)
  qed
qed

end
