(* ===== verification/Rbtree_Remove.thy ===== *)
theory Rbtree_Remove
  imports Rbtree_Insert
begin

text \<open>
  Removal. The loop of \<open>rbtree_tree_remove_with_cb\<close> pushes a red node down the path, so that the node at
  its end can be unlinked without a change of the black heights; the value that is removed is swapped
  into that node. Nodes and their values are followed by address, as pairs.
\<close>

section \<open>Addresses with their values\<close>

primrec pairs :: "ptree \<Rightarrow> (nat \<times> nat) list" where
  "pairs Lf = []"
| "pairs (Nd a c v k) = pairs (k False) @ (a, v) # pairs (k True)"

lemma pairs_two:
  "pairs (Nd a c v (two d x y)) = (if d then pairs y @ (a, v) # pairs x else pairs x @ (a, v) # pairs y)"
  by (auto simp: two_def)

declare pairs.simps(2) [simp del] pairs_two [simp]

lemma pairs_inorder: "map snd (pairs x) = inorder x"
  by (induction x) (auto simp: pairs.simps inorder.simps)

lemma pairs_addrs: "fst ` set (pairs x) = addrs x"
  by (induction x) (auto simp: pairs.simps addrs.simps image_Un)

lemma pairs_paint [simp]: "pairs (paint c x) = pairs x"
  by (cases x) (simp_all add: pairs.simps)

lemma pairs_distinct: "dist x \<Longrightarrow> distinct (map fst (pairs x))"
proof (induction x)
  case (Nd a c v k)
  have "set (map fst (pairs (k d))) = addrs (k d)" for d using pairs_addrs[of "k d"] by simp
  then show ?case using Nd by (auto simp: pairs.simps dist.simps)
qed simp

fun plefts :: "frame list \<Rightarrow> (nat \<times> nat) list" where
  "plefts [] = []"
| "plefts (Fr a c v d s # fs) = plefts fs @ (if d then pairs s @ [(a, v)] else [])"

fun prights :: "frame list \<Rightarrow> (nat \<times> nat) list" where
  "prights [] = []"
| "prights (Fr a c v d s # fs) = (if d then [] else (a, v) # pairs s) @ prights fs"

lemma pairs_plug: "pairs (plug fs x) = plefts fs @ pairs x @ prights fs"
proof (induction fs arbitrary: x)
  case (Cons f fs) then show ?case by (cases f) auto
qed auto

text \<open>The value at an address is exchanged.\<close>

primrec setv :: "nat \<Rightarrow> nat \<Rightarrow> ptree \<Rightarrow> ptree" where
  "setv b u Lf = Lf"
| "setv b u (Nd a c v k) = Nd a c (if a = b then u else v) (\<lambda>d. setv b u (k d))"

lemma setv_simps [simp]: "ptr (setv b u x) = ptr x" "addrs (setv b u x) = addrs x" "is_red (setv b u x) = is_red x"
  "bh (setv b u x) = bh x" "invh (setv b u x) = invh x" "invc (setv b u x) = invc x" "dist (setv b u x) = dist x"
  by (induction x) (simp_all add: addrs.simps bh.simps invh.simps invc.simps dist.simps)

lemma pairs_setv: "pairs (setv b u x) = map (\<lambda>(a, v). (a, if a = b then u else v)) (pairs x)"
  by (induction x) (auto simp: pairs.simps)

lemma setv_other: "b \<notin> addrs x \<Longrightarrow> setv b u x = x"
  by (induction x) (auto simp: addrs.simps fun_eq_iff all_bool_eq)

lemma holds_setv:
  "holds H x \<Longrightarrow> dist x \<Longrightarrow> (b, w) \<in> set (pairs x) \<Longrightarrow>
     \<exists>c l. H b = Some (cell c w l) \<and> holds (H(b \<mapsto> cell c u l)) (setv b u x)"
proof (induction x)
  case (Nd a c v k)
  have in_kid: "b \<in> addrs (k d)" if "(b, w) \<in> set (pairs (k d))" for d
    using that pairs_addrs[of "k d"] by force
  have off: "setv b u (k d) = k d" if "b \<notin> addrs (k d)" for d using that by (rule setv_other)
  show ?case
  proof (cases "b = a")
    case True
    then have "v = w" using Nd.prems in_kid by (auto simp: pairs.simps dist.simps)
    then show ?thesis using Nd.prems off True
      by (intro exI[of _ c] exI[of _ "\<lambda>d. ptr (k d)"]) (simp add: holds.simps dist.simps del: fun_upd_apply, simp)
  next
    case False
    then obtain d where d: "(b, w) \<in> set (pairs (k d))" using Nd.prems(3) by (auto simp: pairs.simps)
    have n: "b \<notin> addrs (k (\<not> d))" using in_kid[OF d] Nd.prems(2) by (cases d) (auto simp: dist.simps)
    have "holds H (k d)" "dist (k d)" using Nd.prems by (cases d; simp add: holds.simps dist.simps)+
    then obtain c' l where "H b = Some (cell c' w l)" "holds (H(b \<mapsto> cell c' u l)) (setv b u (k d))"
      using Nd.IH[of "k d"] d by blast
    then show ?thesis using Nd.prems off[OF n] n False
      by (intro exI[of _ c'] exI[of _ l]; cases d) (simp_all add: holds.simps del: fun_upd_apply, simp_all)
  qed
qed simp

section \<open>One round of the loop\<close>

text \<open>
  The round that enters the node \<open>x\<close> and turns to \<open>d\<close>: \<open>pushes fs x d fs' y\<close> relates the tree before to
  the frames and the subtree after it.
\<close>

inductive pushes :: "frame list \<Rightarrow> ptree \<Rightarrow> bool \<Rightarrow> frame list \<Rightarrow> ptree \<Rightarrow> bool" where
  keep: "c \<or> is_red y \<Longrightarrow> pushes fs (Nd a c w (two d y z)) d (Fr a c w d z # fs) y"
| top: "\<not> is_red y \<Longrightarrow> \<not> is_red z \<Longrightarrow> pushes [] (Nd a False w (two d y z)) d [Fr a False w d z] y"
| turn: "\<not> is_red y \<Longrightarrow> pushes fs (Nd a False w (two d y (Nd b True u (two d m n)))) d
    (Fr a True w d m # Fr b False u d n # fs) y"
| flip: "\<not> is_red y \<Longrightarrow> \<not> is_red z \<Longrightarrow> \<not> is_red m \<Longrightarrow> \<not> is_red n \<Longrightarrow>
    pushes (Fr p cp vp dp (Nd b cs u (two dp m n)) # gs) (Nd a False w (two d y z)) d
      (Fr a True w d z # Fr p False vp dp (Nd b True u (two dp m n)) # gs) y"
| outer: "\<not> is_red y \<Longrightarrow> \<not> is_red z \<Longrightarrow> \<not> is_red m \<Longrightarrow> is_red n \<Longrightarrow>
    pushes (Fr p cp vp dp (Nd b cs u (two dp m n)) # gs) (Nd a False w (two d y z)) d
      (Fr a True w d z # Fr p False vp dp m # Fr b True u dp (paint False n) # gs) y"
| inner: "\<not> is_red y \<Longrightarrow> \<not> is_red z \<Longrightarrow>
    pushes (Fr p cp vp dp (Nd b cs u (two dp (Nd i True vi (two dp m1 m2)) n)) # gs) (Nd a False w (two d y z)) d
      (Fr a True w d z # Fr p False vp dp m1 # Fr i True vi dp (Nd b False u (two dp m2 n)) # gs) y"

text \<open>
  The invariant of the loop: the current node or the subtree that is entered next is red. The root
  counts as red, when its other child is black: its own colour does not matter for the black heights.
\<close>

fun push_ok :: "frame list \<Rightarrow> ptree \<Rightarrow> bool" where
  "push_ok [] x \<longleftrightarrow> x \<noteq> Lf \<and> \<not> is_red x"
| "push_ok (f # fs) x \<longleftrightarrow> fred f \<or> is_red x \<or> (fs = [] \<and> \<not> is_red (fother f))"

lemma pushes_inv:
  assumes "pushes fs x d fs' y" "invh (plug fs x)" "invc (plug fs x)" "push_ok fs x"
  shows "invh (plug fs' y) \<and> invc (plug fs' y) \<and> push_ok fs' y \<and> pairs (plug fs' y) = pairs (plug fs x)"
proof -
  note [simp del] = plug.simps(2) and [simp] = invh_plug invc_plug pairs_plug
  show ?thesis using assms
  proof cases
    case (keep c a w z)
    then have "plug fs' y = plug fs x" by (simp add: plug.simps)
    moreover have "push_ok fs' y" using keep assms(4) by (cases fs) auto
    ultimately show ?thesis using assms(2,3) by simp
  next
    case (turn a w b u m n) then show ?thesis using assms(2-4) by (auto intro: cinvc_black)
  next
    case (flip z m n p cp vp dp b cs u gs a w)
    then show ?thesis using assms(2-4) by (auto split: if_splits intro: cinvc_black)
  next
    case (outer z m n p cp vp dp b cs u gs a w)
    then show ?thesis using assms(2-4) by (auto split: if_splits)
  next
    case (inner z p cp vp dp b cs u i vi m1 m2 n gs a w)
    then show ?thesis using assms(2-4) by (auto split: if_splits)
  qed auto
qed

text \<open>The colours after a rotation at the parent: the new top and \<open>q\<close> red, the children of the top black.\<close>

lemma recolour:
  assumes "holds H x" "dist x" and s: "s \<noteq> Lf" and x: "x = Nd t ct vt (two dp (Nd p cp vp (two dp (Nd a ca w k) m)) s)"
  obtains H' where "set_red (Some t) True H = Inr (H(t \<mapsto> cell True vt (two dp (Some p) (ptr s))))"
    "bindR (set_red (Some a) True (H(t \<mapsto> cell True vt (two dp (Some p) (ptr s))))) (\<lambda>H. bindR (node_of H (Some t)) (\<lambda>n.
       bindR (set_red (link n False) False H) (\<lambda>H. set_red (link n True) False H))) = Inr H'"
    "holds H' (Nd t True vt (two dp (Nd p False vp (two dp (Nd a True w k) m)) (paint False s)))"
    "\<And>i. i \<notin> addrs x \<Longrightarrow> H' i = H i"
proof -
  obtain y z where k: "k = two False y z" by (rule two_exhaust)
  obtain b c u j where b: "s = Nd b c u j" using s by (cases s) auto
  obtain m' n' where j: "j = two False m' n'" by (rule two_exhaust)
  define H' where "H' = H(t \<mapsto> cell True vt (two dp (Some p) (Some b)), a \<mapsto> cell True w (two False (ptr y) (ptr z)),
      p \<mapsto> cell False vp (two dp (Some a) (ptr m)), b \<mapsto> cell False u (two False (ptr m') (ptr n')))"
  have d: "t \<noteq> p" "t \<noteq> a" "t \<noteq> b" "p \<noteq> a" "p \<noteq> b" "a \<noteq> b" using assms(2) by (auto simp: x k b j)
  have c: "H t = Some (cell ct vt (two dp (Some p) (Some b)))" "H p = Some (cell cp vp (two dp (Some a) (ptr m)))"
    "H a = Some (cell ca w (two False (ptr y) (ptr z)))" "H b = Some (cell c u (two False (ptr m') (ptr n')))"
    using assms(1) by (auto simp: x k b j)
  show thesis
  proof (rule that)
    show "set_red (Some t) True H = Inr (H(t \<mapsto> cell True vt (two dp (Some p) (ptr s))))" using c by (simp add: b)
    show "bindR (set_red (Some a) True (H(t \<mapsto> cell True vt (two dp (Some p) (ptr s))))) (\<lambda>H. bindR (node_of H (Some t)) (\<lambda>n.
       bindR (set_red (link n False) False H) (\<lambda>H. set_red (link n True) False H))) = Inr H'"
      using c d unfolding H'_def by (cases dp) (simp_all add: b fun_upd_twist)
    show "holds H' (Nd t True vt (two dp (Nd p False vp (two dp (Nd a True w k) m)) (paint False s)))"
      using assms(1,2) d by (auto simp: H'_def x k b j)
  qed (auto simp: H'_def x k b j)
qed

lemma push_rotate_gen:
  assumes z: "zip_ok h H gs x" and p: "ptr x = Some p"
    and rot: "(if inner then rbtree_node_rotate2 (Some p) dp H else rbtree_node_rotate (Some p) dp H) = Inr (Some t, H1)"
    and y: "y = Nd t False vt (two dp (Nd p True vp (two dp (Nd a ca w k) m)) s)" "s \<noteq> Lf"
    and H1: "holds H1 y" "dist y" "addrs y = addrs x" "\<And>i. i \<notin> addrs x \<Longrightarrow> H1 i = H i"
  obtains H' where "push_rotate (Some (parent h gs)) (Some p) (Some a) dp inner H = Inr H'"
    "zip_ok h H' gs (Nd t True vt (two dp (Nd p False vp (two dp (Nd a True w k) m)) (paint False s)))"
    "\<And>i. i \<notin> addrs x \<union> caddrs h gs \<Longrightarrow> H' i = H i"
proof -
  obtain y0 z0 where k: "k = two False y0 z0" by (rule two_exhaust)
  have px: "p \<in> addrs x" using p by (rule ptr_Some)
  have c: "cholds h H gs (Some p)" "cdist h gs" "p \<notin> caddrs h gs" using z p px by (auto simp: zip_ok_def)
  obtain gn where gn: "H (parent h gs) = Some gn" "(link gn True = Some p) = link_dir gs"
    using parent_link[OF c(1,2)] c(3) by (metis option.distinct(1) option.inject)
  obtain H2 where H2: "set_link (Some (parent h gs)) (link_dir gs) (ptr y) H1 = Inr H2" "zip_ok h H2 gs y"
    "\<And>i. i \<notin> addrs x \<union> caddrs h gs \<Longrightarrow> H2 i = H i"
    using zip_ok_relink[OF z H1(1,2) _ H1(4)] H1(3) by blast
  have "holds H2 y" "cholds h H2 gs (Some t)" using H2(2) by (auto simp: zip_ok_def y)
  moreover have ty: "t \<notin> caddrs h gs" using H2(2) by (auto simp: zip_ok_def y)
  ultimately obtain gn2 where gn2: "H2 (parent h gs) = Some gn2" "link gn2 (link_dir gs) = Some t"
    using parent_link[of h H2 gs "Some t"] c(2) by (metis option.distinct(1) option.inject)
  obtain H' where H': "set_red (Some t) True H2 = Inr (H2(t \<mapsto> cell True vt (two dp (Some p) (ptr s))))"
    "bindR (set_red (Some a) True (H2(t \<mapsto> cell True vt (two dp (Some p) (ptr s))))) (\<lambda>H. bindR (node_of H (Some t)) (\<lambda>n.
       bindR (set_red (link n False) False H) (\<lambda>H. set_red (link n True) False H))) = Inr H'"
    "holds H' (Nd t True vt (two dp (Nd p False vp (two dp (Nd a True w k) m)) (paint False s)))"
    "\<And>i. i \<notin> addrs y \<Longrightarrow> H' i = H2 i"
    by (rule recolour[OF \<open>holds H2 y\<close> H1(2) y(2,1)], rule that)
  show thesis
  proof (rule that)
    show "push_rotate (Some (parent h gs)) (Some p) (Some a) dp inner H = Inr H'"
      using gn rot H2(1) gn2 H'(1,2) y(1) by (simp add: push_rotate_def Let_def bindR_assoc)
    show "zip_ok h H' gs (Nd t True vt (two dp (Nd p False vp (two dp (Nd a True w k) m)) (paint False s)))"
      using zip_ok_apart[OF H2(2)] H'(4) by (intro zip_ok_subst[OF H2(2) H'(3)]) (use H1(2) H2(2) in \<open>auto simp: y k zip_ok_def\<close>)
  qed (use H'(4) H2(3) H1(3) in simp)
qed

text \<open>The red node is an inner or an outer child of the sibling.\<close>

lemma push_rotate_ok:
  assumes z: "zip_ok h H gs (Nd p cp vp (two dp (Nd a ca w k) (Nd b cs u (two dp m n))))"
    and red: "is_red m \<or> is_red n"
    and r: "if is_red m then m = Nd i True vi (two dp m1 m2) \<and> t = Nd b False u (two dp m2 n) \<and> j = m1 \<and> (e, ve) = (i, vi)
            else t = paint False n \<and> j = m \<and> (e, ve) = (b, u)"
  obtains H' where "push_rotate (Some (parent h gs)) (Some p) (Some a) dp (is_red m) H = Inr H'"
    "zip_ok h H' gs (Nd e True ve (two dp (Nd p False vp (two dp (Nd a True w k) j)) t))"
    "\<And>i. i \<notin> addrs (Nd p cp vp (two dp (Nd a ca w k) (Nd b cs u (two dp m n)))) \<union> caddrs h gs \<Longrightarrow> H' i = H i"
proof -
  let ?x = "Nd p cp vp (two dp (Nd a ca w k) (Nd b cs u (two dp m n)))"
  have hx: "holds H ?x" "dist ?x" using z by (auto simp: zip_ok_def)
  obtain y z where k: "k = two False y z" by (rule two_exhaust)
  show thesis
  proof (cases "is_red m")
    case True
    then have m: "m = Nd i True vi (two dp m1 m2)" and t: "t = Nd b False u (two dp m2 n)" "j = m1" "e = i" "ve = vi" using r by auto
    let ?y = "Nd i False vi (two dp (Nd p True vp (two dp (Nd a ca w k) m1)) (Nd b True u (two dp m2 n)))"
    obtain H1 where H1: "rbtree_node_rotate2 (Some p) dp H = Inr (Some i, H1)" "holds H1 ?y" "dist ?y"
      "\<And>l. l \<notin> {p, b, i} \<Longrightarrow> H1 l = H l"
      by (rule rotate2_ok[OF hx[unfolded m]], rule that)
    have ad: "addrs ?y = addrs ?x" "\<And>l. l \<notin> addrs ?x \<Longrightarrow> H1 l = H l" using H1(4) by (auto simp: m)
    have rot: "(if is_red m then rbtree_node_rotate2 (Some p) dp H else rbtree_node_rotate (Some p) dp H) = Inr (Some i, H1)"
      "Nd b True u (two dp m2 n) \<noteq> Lf" using True H1(1) by simp_all
    show thesis
      by (rule push_rotate_gen[OF z _ rot(1) refl rot(2) H1(2,3) ad]) (simp, assumption, rule that, assumption, simp add: t, blast)
  next
    case False
    then have t: "t = paint False n" "j = m" "e = b" "ve = u" "n \<noteq> Lf" using r red by auto
    let ?y = "Nd b False u (two dp (Nd p True vp (two dp (Nd a ca w k) m)) n)"
    obtain H1 where H1: "rbtree_node_rotate (Some p) dp H = Inr (Some b, H1)" "holds H1 ?y" "dist ?y"
      "\<And>l. l \<notin> {p, b} \<Longrightarrow> H1 l = H l"
      by (rule rotate_ok[OF hx], rule that)
    have ad: "addrs ?y = addrs ?x" "\<And>l. l \<notin> addrs ?x \<Longrightarrow> H1 l = H l" using H1(4) by auto
    have rot: "(if is_red m then rbtree_node_rotate2 (Some p) dp H else rbtree_node_rotate (Some p) dp H) = Inr (Some b, H1)"
      using False H1(1) by simp
    show thesis
      by (rule push_rotate_gen[OF z _ rot refl t(5) H1(2,3) ad]) (simp, assumption, rule that, assumption, simp add: t, blast)
  qed
qed

fun pp_of :: "nat \<Rightarrow> frame list \<Rightarrow> nat option" where
  "pp_of h [] = None"
| "pp_of h (f # fs) = Some (parent h fs)"

lemma pushes_shape:
  assumes "pushes fs x d fs' y"
  obtains f gs where "fs' = f # gs" "faddr f = the (ptr x)" "fdir f = d"
    "addrs y \<union> caddrs h fs' = addrs x \<union> caddrs h fs" "nodes y < nodes x"
  using assms by cases auto

lemma push_red_keep:
  assumes z: "zip_ok h H fs (Nd a c w (two d y z))" and "c \<or> is_red y"
  shows "push_red g p (Some a) d l H = Inr (p, H)"
proof -
  have "H a = Some (cell c w (two d (ptr y) (ptr z)))" "holds H y" using z by (auto simp: zip_ok_def)
  then show ?thesis using assms(2) is_red_ptr[of H y] by (simp add: push_red_def)
qed

lemma push_red_turn:
  assumes z: "zip_ok h H fs (Nd a False w (two d y (Nd b True u (two d m n))))" and y: "\<not> is_red y"
  obtains H' where "push_red g (Some (parent h fs)) (Some a) d (link_dir fs) H = Inr (Some b, H')"
    "zip_ok h H' (Fr a True w d m # Fr b False u d n # fs) y"
    "\<And>i. i \<notin> addrs (Nd a False w (two d y (Nd b True u (two d m n)))) \<union> caddrs h fs \<Longrightarrow> H' i = H i"
proof -
  let ?x = "Nd a False w (two d y (Nd b True u (two d m n)))" let ?y = "Nd b False u (two d (Nd a True w (two d y m)) n)"
  have hx: "holds H ?x" "dist ?x" using z by (auto simp: zip_ok_def)
  obtain H1 where H1: "rbtree_node_rotate (Some a) d H = Inr (Some b, H1)" "holds H1 ?y" "dist ?y" "\<And>i. i \<notin> {a, b} \<Longrightarrow> H1 i = H i"
    by (rule rotate_ok[OF hx], rule that)
  have ad: "addrs ?y \<subseteq> addrs ?x" "\<And>i. i \<notin> addrs ?x \<Longrightarrow> H1 i = H i" using H1(4) by auto
  obtain H' where H': "set_link (Some (parent h fs)) (link_dir fs) (ptr ?y) H1 = Inr H'" "zip_ok h H' fs ?y"
    "\<And>i. i \<notin> addrs ?x \<union> caddrs h fs \<Longrightarrow> H' i = H i"
    by (rule zip_ok_relink[OF z H1(2,3) ad(1)], rule ad(2), assumption, rule that)
  have "H a = Some (cell False w (two d (ptr y) (Some b)))" "holds H y" "H b = Some (cell True u (two d (ptr m) (ptr n)))"
    using hx by auto
  then have "push_red g (Some (parent h fs)) (Some a) d (link_dir fs) H = Inr (Some b, H')"
    using y is_red_ptr[of H y] H1(1) H'(1) by (simp add: push_red_def)
  moreover have "zip_ok h H' (Fr a True w d m # Fr b False u d n # fs) y" using H'(2) by (simp add: zip_ok_fill)
  ultimately show thesis using that H'(3) by blast
qed

text \<open>With two black children, the node asks its sibling.\<close>

lemma push_red_sibling:
  assumes z: "zip_ok h H fs (Nd a False w (two d y z))" and "\<not> is_red y" "\<not> is_red z"
  shows "push_red g p (Some a) d l H = bindR (push_sibling g p (Some a) l H) (\<lambda>H. Inr (p, H))"
proof -
  have "H a = Some (cell False w (two d (ptr y) (ptr z)))" "holds H y" "holds H z" using z by (auto simp: zip_ok_def)
  then show ?thesis using assms(2,3) is_red_ptr[of H y] is_red_ptr[of H z]
    by (simp add: push_red_def)
qed

lemma push_sibling_flip:
  assumes z: "zip_ok h H (Fr p cp vp dp (Nd b cs u (two dp m n)) # gs) (Nd a False w k)" and mn: "\<not> is_red m" "\<not> is_red n"
  obtains H' where "push_sibling g (Some p) (Some a) dp H = Inr H'"
    "zip_ok h H' (Fr p False vp dp (Nd b True u (two dp m n)) # gs) (Nd a True w k)"
    "\<And>i. i \<notin> addrs (Nd a False w k) \<union> caddrs h (Fr p cp vp dp (Nd b cs u (two dp m n)) # gs) \<Longrightarrow> H' i = H i"
proof -
  obtain y z' where k: "k = two False y z'" by (rule two_exhaust)
  let ?H = "H(p \<mapsto> cell False vp (two dp (Some a) (Some b)), b \<mapsto> cell True u (two dp (ptr m) (ptr n)),
      a \<mapsto> cell True w (two False (ptr y) (ptr z')))"
  have c: "H p = Some (cell cp vp (two dp (Some a) (Some b)))" "H b = Some (cell cs u (two dp (ptr m) (ptr n)))"
    "H a = Some (cell False w (two False (ptr y) (ptr z')))" "holds H m" "holds H n" "p \<noteq> b" "p \<noteq> a" "a \<noteq> b"
    using z by (auto simp: zip_ok_def k)
  show thesis
  proof (rule that)
    show "push_sibling g (Some p) (Some a) dp H = Inr ?H"
      using c mn is_red_ptr[of H m] is_red_ptr[of H n] by (simp add: push_sibling_def Let_def)
    have "holds ?H (Nd p False vp (two dp (Nd a True w k) (Nd b True u (two dp m n))))"
      using z c by (auto simp: zip_ok_def k)
    then show "zip_ok h ?H (Fr p False vp dp (Nd b True u (two dp m n)) # gs) (Nd a True w k)"
      unfolding zip_ok_fill fill.simps
      by (intro zip_ok_subst[OF z[unfolded zip_ok_fill fill.simps]]) (use z in \<open>auto simp: zip_ok_def k\<close>)
  qed (use c in \<open>auto simp: k\<close>)
qed

lemma push_sibling_rotate:
  assumes z: "zip_ok h H (Fr p cp vp dp (Nd b cs u (two dp m n)) # gs) (Nd a ca w k)" and "is_red m \<or> is_red n"
  shows "push_sibling g (Some p) (Some a) dp H = push_rotate g (Some p) (Some a) dp (is_red m) H"
proof -
  have "H p = Some (cell cp vp (two dp (Some a) (Some b)))" "H b = Some (cell cs u (two dp (ptr m) (ptr n)))"
    "holds H m" "holds H n" using z by (auto simp: zip_ok_def)
  then show ?thesis using assms(2) is_red_ptr[of H m] is_red_ptr[of H n] by (auto simp: push_sibling_def Let_def)
qed

lemma push_red_below:
  assumes z: "zip_ok h H (Fr p cp vp dp (Nd b cs u (two dp m n)) # gs) (Nd a False w (two d y z))"
    and black: "\<not> is_red y" "\<not> is_red z"
  obtains H' f fs' where "pushes (Fr p cp vp dp (Nd b cs u (two dp m n)) # gs) (Nd a False w (two d y z)) d (f # fs') y"
    "push_red (Some (parent h gs)) (Some p) (Some a) d dp H = Inr (Some (parent h fs'), H')" "zip_ok h H' (f # fs') y"
    "\<And>i. i \<notin> addrs (Nd a False w (two d y z)) \<union> caddrs h (Fr p cp vp dp (Nd b cs u (two dp m n)) # gs) \<Longrightarrow> H' i = H i"
proof (cases "is_red m \<or> is_red n")
  case False
  obtain H' where H': "push_sibling (Some (parent h gs)) (Some p) (Some a) dp H = Inr H'"
    "zip_ok h H' (Fr p False vp dp (Nd b True u (two dp m n)) # gs) (Nd a True w (two d y z))"
    "\<And>i. i \<notin> addrs (Nd a False w (two d y z)) \<union> caddrs h (Fr p cp vp dp (Nd b cs u (two dp m n)) # gs) \<Longrightarrow> H' i = H i"
    using False by (elim push_sibling_flip[OF z, rotated 2]) auto
  let ?fs = "Fr p False vp dp (Nd b True u (two dp m n)) # gs"
  have r: "push_red (Some (parent h gs)) (Some p) (Some a) d dp H = Inr (Some (parent h ?fs), H')"
    "zip_ok h H' (Fr a True w d z # ?fs) y" and mn: "\<not> is_red m" "\<not> is_red n"
    using False H'(1,2) push_red_sibling[OF z black] by (simp_all add: zip_ok_fill)
  show thesis by (rule that[OF pushes.flip[OF black mn] r]) (rule H'(3), assumption)
next
  case True
  note zg = z[unfolded zip_ok_fill[of h H _ gs] fill.simps]
  note eq = push_red_sibling[OF z black] push_sibling_rotate[OF z True]
  have ad: "addrs (Nd a False w (two d y z)) \<union> caddrs h (Fr p cp vp dp (Nd b cs u (two dp m n)) # gs) =
      addrs (Nd p cp vp (two dp (Nd a False w (two d y z)) (Nd b cs u (two dp m n)))) \<union> caddrs h gs" by auto
  show thesis
  proof (cases "is_red m")
    case red: True
    then obtain i vi k where "m = Nd i True vi k" by (cases m) auto
    moreover obtain m1 m2 where "k = two dp m1 m2" by (rule two_exhaust)
    ultimately have m: "m = Nd i True vi (two dp m1 m2)" by simp
    have r: "if is_red m then m = Nd i True vi (two dp m1 m2) \<and> Nd b False u (two dp m2 n) = Nd b False u (two dp m2 n) \<and> m1 = m1 \<and> (i, vi) = (i, vi)
        else Nd b False u (two dp m2 n) = paint False n \<and> m1 = m \<and> (i, vi) = (b, u)" using m by simp
    obtain H' where H': "push_rotate (Some (parent h gs)) (Some p) (Some a) dp (is_red m) H = Inr H'"
      "zip_ok h H' gs (Nd i True vi (two dp (Nd p False vp (two dp (Nd a True w (two d y z)) m1)) (Nd b False u (two dp m2 n))))"
      "\<And>i. i \<notin> addrs (Nd p cp vp (two dp (Nd a False w (two d y z)) (Nd b cs u (two dp m n)))) \<union> caddrs h gs \<Longrightarrow> H' i = H i"
      by (rule push_rotate_ok[OF zg True r], rule that)
    let ?fs = "Fr p False vp dp m1 # Fr i True vi dp (Nd b False u (two dp m2 n)) # gs"
    have r: "push_red (Some (parent h gs)) (Some p) (Some a) d dp H = Inr (Some (parent h ?fs), H')"
      "zip_ok h H' (Fr a True w d z # ?fs) y" using eq H'(1,2) by (simp_all add: zip_ok_fill)
    show thesis
      by (rule that[OF pushes.inner[OF black, of p cp vp dp b cs u i vi m1 m2 n gs a w d, folded m] r]) (rule H'(3), simp only: ad not_False_eq_True)
  next
    case False
    have r: "if is_red m then m = Nd i True vi (two dp m1 m2) \<and> paint False n = Nd b False u (two dp m2 n) \<and> m = m1 \<and> (b, u) = (i, vi)
        else paint False n = paint False n \<and> m = m \<and> (b, u) = (b, u)" for i vi m1 m2 using False by simp
    obtain H' where H': "push_rotate (Some (parent h gs)) (Some p) (Some a) dp (is_red m) H = Inr H'"
      "zip_ok h H' gs (Nd b True u (two dp (Nd p False vp (two dp (Nd a True w (two d y z)) m)) (paint False n)))"
      "\<And>i. i \<notin> addrs (Nd p cp vp (two dp (Nd a False w (two d y z)) (Nd b cs u (two dp m n)))) \<union> caddrs h gs \<Longrightarrow> H' i = H i"
      by (rule push_rotate_ok[OF zg True r], rule that)
    let ?fs = "Fr p False vp dp m # Fr b True u dp (paint False n) # gs"
    have r: "push_red (Some (parent h gs)) (Some p) (Some a) d dp H = Inr (Some (parent h ?fs), H')"
      "zip_ok h H' (Fr a True w d z # ?fs) y" and n: "is_red n" using eq H'(1,2) True False by (simp_all add: zip_ok_fill)
    show thesis by (rule that[OF pushes.outer[OF black False n] r]) (rule H'(3), simp only: ad not_False_eq_True)
  qed
qed

lemma black_node_sibling:
  assumes "invh (plug (f # fs) (Nd a False w k))"
  obtains p cp vp dp b cs u m n where "f = Fr p cp vp dp (Nd b cs u (two dp m n))"
proof -
  obtain p cp vp dp s where f: "f = Fr p cp vp dp s" by (cases f)
  have "bh s = bh (Nd a False w k)" using assms by (simp add: f invh_plug del: bh_two)
  then have "s \<noteq> Lf" by (auto simp: bh.simps)
  then obtain b cs u k where "s = Nd b cs u k" by (cases s) auto
  moreover obtain m n where "k = two dp m n" by (rule two_exhaust)
  ultimately show thesis using that f by simp
qed

lemma push_red_ok:
  assumes z: "zip_ok h H fs (Nd a c w (two d y z))" and inv: "invh (plug fs (Nd a c w (two d y z)))"
  obtains H' f fs' where "pushes fs (Nd a c w (two d y z)) d (f # fs') y"
    "push_red (pp_of h fs) (Some (parent h fs)) (Some a) d (link_dir fs) H = Inr (Some (parent h fs'), H')"
    "zip_ok h H' (f # fs') y"
    "\<And>i. i \<notin> addrs (Nd a c w (two d y z)) \<union> caddrs h fs \<Longrightarrow> H' i = H i"
proof -
  let ?x = "Nd a c w (two d y z)"
  consider (keep) "c \<or> is_red y" | (turn) "\<not> c" "\<not> is_red y" "is_red z" | (black) "\<not> c" "\<not> is_red y" "\<not> is_red z" by blast
  then show thesis
  proof cases
    case keep
    show thesis using z push_red_keep[OF z keep] by (intro that[OF pushes.keep[OF keep]]) (auto simp: zip_ok_fill)
  next
    case turn
    obtain b u k where "z = Nd b True u k" using turn(3) by (cases z) auto
    moreover obtain m n where "k = two d m n" by (rule two_exhaust)
    ultimately have zz: "z = Nd b True u (two d m n)" by simp
    have x: "?x = Nd a False w (two d y (Nd b True u (two d m n)))" using turn(1) zz by simp
    obtain H' where H': "push_red (pp_of h fs) (Some (parent h fs)) (Some a) d (link_dir fs) H = Inr (Some b, H')"
      "zip_ok h H' (Fr a True w d m # Fr b False u d n # fs) y"
      "\<And>i. i \<notin> addrs (Nd a False w (two d y (Nd b True u (two d m n)))) \<union> caddrs h fs \<Longrightarrow> H' i = H i"
      by (rule push_red_turn[OF z[unfolded x] turn(2)], rule that)
    show thesis
      by (rule that[OF pushes.turn[OF turn(2), of fs a w d b u m n, folded x] _ H'(2)])
        (use H' x in simp_all)
  next
    case black
    then have x: "?x = Nd a False w (two d y z)" by simp
    show thesis
    proof (cases fs)
      case Nil
      have "push_sibling None (Some h) (Some a) True H = Inr H"
        using z by (simp add: Nil zip_ok_def push_sibling_def false_root_cell)
      then show thesis using z push_red_sibling[OF z[unfolded x] black(2,3)] black
        by (intro that[OF pushes.top[OF black(2,3), of a w d, folded x, folded Nil]]) (auto simp: zip_ok_fill Nil)
    next
      case (Cons f gs)
      obtain p cp vp dp b cs u m n where f: "f = Fr p cp vp dp (Nd b cs u (two dp m n))"
        using inv unfolding x Cons by (rule black_node_sibling)
      show thesis
        by (rule push_red_below[OF z[unfolded x Cons f] black(2,3)],
            rule that[unfolded x Cons f pp_of.simps parent.simps link_dir.simps frame.sel])
    qed
  qed
qed

section \<open>The loop\<close>

lemma pushes_pairs:
  assumes "pushes fs (Nd a c w (two d y z)) d fs' y'"
  shows "y' = y" "plefts fs' = plefts (Fr a c w d z # fs)" "prights fs' = prights (Fr a c w d z # fs)"
  using assms by (cases; auto)+

definition rm_path :: "(nat \<Rightarrow> nat \<Rightarrow> int) \<Rightarrow> nat \<Rightarrow> frame list \<Rightarrow> bool" where
  "rm_path cmpf v fs \<longleftrightarrow> (\<forall>b\<in>set (plefts fs). cmpf (snd b) v < 0) \<and> (\<forall>b\<in>set (prights fs). 0 \<le> cmpf (snd b) v)"

text \<open>\<open>f\<close> is the node with the value, once the path has passed it.\<close>

definition found_at :: "(nat \<Rightarrow> nat \<Rightarrow> int) \<Rightarrow> nat \<Rightarrow> frame list \<Rightarrow> nat option \<Rightarrow> bool" where
  "found_at cmpf v fs f \<longleftrightarrow>
     (case f of None \<Rightarrow> \<forall>b\<in>set (prights fs). cmpf (snd b) v \<noteq> 0
      | Some a \<Rightarrow> \<exists>u. (a, u) \<in> set (prights fs) \<and> cmpf u v = 0)"

definition rm_inv :: "(nat \<Rightarrow> nat \<Rightarrow> int) \<Rightarrow> nat \<Rightarrow> nat \<Rightarrow> rbheap \<Rightarrow> frame list \<Rightarrow> ptree \<Rightarrow> nat option \<Rightarrow> bool" where
  "rm_inv cmpf v h H fs x f \<longleftrightarrow>
     zip_ok h H fs x \<and> invh (plug fs x) \<and> invc (plug fs x) \<and> push_ok fs x \<and>
     ascending cmpf (inorder (plug fs x)) \<and> rm_path cmpf v fs \<and> found_at cmpf v fs f"

lemma ascending_pairs: "ascending cmpf (inorder x) = sorted_wrt (\<lambda>a b. cmpf (snd a) (snd b) < 0) (pairs x)"
  by (simp add: ascending_def pairs_inorder[symmetric] sorted_wrt_map)

context key_order
begin

lemma less_equiv_trans: "cmpf a b < 0 \<Longrightarrow> cmpf b c \<le> 0 \<Longrightarrow> cmpf a c < 0"
  using cmp_trans[of b c a] cmp_flip[of a b] cmp_flip[of a c] by force

lemma equiv_less_trans: "cmpf a b \<le> 0 \<Longrightarrow> cmpf b c < 0 \<Longrightarrow> cmpf a c < 0"
  using cmp_trans[of c a b] cmp_flip[of b c] cmp_flip[of a c] by force

lemma rm_path_down:
  assumes asc: "ascending cmpf (inorder (plug fs (Nd a c w (two d y z))))" and p: "rm_path cmpf v fs" "found_at cmpf v fs f"
    and d: "d = (cmpf w v < 0)"
  shows "rm_path cmpf v (Fr a c w d z # fs)" "found_at cmpf v (Fr a c w d z # fs) (if cmpf w v = 0 then Some a else f)"
proof -
  have s: "sorted_wrt (\<lambda>a b. cmpf (snd a) (snd b) < 0) (plefts fs @ pairs (Nd a c w (two d y z)) @ prights fs)"
    using asc by (simp only: ascending_pairs pairs_plug)
  have z: "if d then cmpf (snd b) v < 0 else 0 < cmpf (snd b) v" if "b \<in> set (pairs z)" for b
  proof (cases d)
    case True
    then have "cmpf (snd b) w < 0" using s that by (auto simp: sorted_wrt_append)
    then show ?thesis using True d less_trans by auto
  next
    case False
    then have "cmpf w (snd b) < 0" using s that by (auto simp: sorted_wrt_append)
    moreover have "cmpf v w \<le> 0" using False d cmp_flip[of v w] cmp_flip[of w v] by linarith
    ultimately have "cmpf v (snd b) < 0" using equiv_less_trans by blast
    then show ?thesis using False cmp_flip[of v "snd b"] by simp
  qed
  show "rm_path cmpf v (Fr a c w d z # fs)" using p(1) d z by (fastforce simp: rm_path_def)
  show "found_at cmpf v (Fr a c w d z # fs) (if cmpf w v = 0 then Some a else f)"
    using p(2) d z by (fastforce simp: found_at_def split: option.splits if_splits)
qed

end

lemma parent_node:
  assumes "cholds h H fs p"
  obtains n where "H (parent h fs) = Some n" "link n (link_dir fs) = p"
proof (cases fs)
  case Nil then show ?thesis using assms that by (simp add: false_root_cell)
next
  case (Cons f gs) then show ?thesis using assms that by (cases f) simp
qed

lemma remove_loop_step:
  assumes "node_of H q = Inr n" "link n dir = Some a" "node_of H (Some a) = Inr m" "d = (c (rbvalue m) < 0)"
    and "push_red p q (Some a) d dir H = Inr (p', H')"
  shows "remove_loop c p q f dir H = remove_loop c p' (Some a) (if c (rbvalue m) = 0 then Some a else f) d H'"
  using assms by (subst remove_loop.simps) (simp add: Let_def)

lemma rm_inv_push:
  assumes inv: "rm_inv cmpf v h H fs (Nd a c w (two d y z)) f" and ord: "key_order cmpf" and d: "d = (cmpf w v < 0)"
  obtains H' g gs where
    "push_red (pp_of h fs) (Some (parent h fs)) (Some a) d (link_dir fs) H = Inr (pp_of h (g # gs), H')"
    "rm_inv cmpf v h H' (g # gs) y (if cmpf w v = 0 then Some a else f)" "faddr g = a" "fdir g = d"
    "pairs (plug (g # gs) y) = pairs (plug fs (Nd a c w (two d y z)))"
    "addrs y \<union> caddrs h (g # gs) = addrs (Nd a c w (two d y z)) \<union> caddrs h fs"
    "\<And>i. i \<notin> addrs (Nd a c w (two d y z)) \<union> caddrs h fs \<Longrightarrow> H' i = H i"
proof -
  let ?x = "Nd a c w (two d y z)"
  have i: "zip_ok h H fs ?x" "invh (plug fs ?x)" "invc (plug fs ?x)" "push_ok fs ?x" "ascending cmpf (inorder (plug fs ?x))"
    "rm_path cmpf v fs" "found_at cmpf v fs f" using inv by (auto simp: rm_inv_def)
  obtain H' g gs where p: "pushes fs ?x d (g # gs) y"
    "push_red (pp_of h fs) (Some (parent h fs)) (Some a) d (link_dir fs) H = Inr (Some (parent h gs), H')"
    "zip_ok h H' (g # gs) y" "\<And>i. i \<notin> addrs ?x \<union> caddrs h fs \<Longrightarrow> H' i = H i"
    by (rule push_red_ok[OF i(1,2)], rule that)
  note q = pushes_inv[OF p(1) i(2-4)] and pq = pushes_pairs[OF p(1)]
  note down = key_order.rm_path_down[OF ord i(5-7) d]
  have "rm_inv cmpf v h H' (g # gs) y (if cmpf w v = 0 then Some a else f)"
    using p(3) q down i(5) unfolding rm_inv_def rm_path_def found_at_def pq(2,3) ascending_pairs by simp
  moreover have "faddr g = a \<and> fdir g = d \<and> addrs y \<union> caddrs h (g # gs) = addrs ?x \<union> caddrs h fs"
    by (rule pushes_shape[OF p(1), where h = h]) simp
  ultimately show thesis using p(2,4) q by (intro that[of g gs H']) simp_all
qed

definition rm_result :: "(nat \<Rightarrow> nat \<Rightarrow> int) \<Rightarrow> nat \<Rightarrow> nat \<Rightarrow> rbheap \<Rightarrow> frame list \<Rightarrow> ptree \<Rightarrow>
    (nat option \<times> nat option \<times> nat option \<times> rbheap) res option \<Rightarrow> bool" where
  "rm_result cmpf v h H fs x r \<longleftrightarrow>
     (\<exists>H' g gs f. r = Some (Inr (Some (parent h gs), Some (faddr g), f, H')) \<and> rm_inv cmpf v h H' (g # gs) Lf f \<and>
        pairs (plug (g # gs) Lf) = pairs (plug fs x) \<and> caddrs h (g # gs) = addrs x \<union> caddrs h fs \<and>
        (\<forall>i. i \<notin> addrs x \<union> caddrs h fs \<longrightarrow> H' i = H i))"

lemma remove_loop_ok:
  assumes ord: "key_order cmpf"
  shows "rm_inv cmpf v h H fs x f \<Longrightarrow>
    rm_result cmpf v h H fs x (remove_loop (\<lambda>u. cmpf u v) (pp_of h fs) (Some (parent h fs)) f (link_dir fs) H)"
proof (induction x arbitrary: H fs f rule: measure_induct_rule[where f = nodes])
  case (less x)
  have c: "cholds h H fs (ptr x)" "holds H x" using less.prems by (auto simp: rm_inv_def zip_ok_def)
  obtain n where n: "H (parent h fs) = Some n" "link n (link_dir fs) = ptr x" using parent_node[OF c(1)] .
  show ?case
  proof (cases x)
    case Lf
    then obtain g gs where fs: "fs = g # gs" using less.prems by (cases fs) (auto simp: rm_inv_def)
    have "remove_loop (\<lambda>u. cmpf u v) (pp_of h fs) (Some (parent h fs)) f (link_dir fs) H =
        Some (Inr (Some (parent h gs), Some (faddr g), f, H))"
      using n Lf by (subst remove_loop.simps) (simp add: fs)
    then show ?thesis using less.prems unfolding rm_result_def
      by (intro exI[of _ H] exI[of _ g] exI[of _ gs] exI[of _ f]) (simp add: Lf fs)
  next
    case (Nd a c0 w k)
    define d where "d = (cmpf w v < 0)"
    obtain y z where k: "k = two d y z" by (rule two_exhaust)
    have x: "x = Nd a c0 w (two d y z)" using Nd k by simp
    obtain H' g gs where p: "push_red (pp_of h fs) (Some (parent h fs)) (Some a) d (link_dir fs) H = Inr (pp_of h (g # gs), H')"
      "rm_inv cmpf v h H' (g # gs) y (if cmpf w v = 0 then Some a else f)" "faddr g = a" "fdir g = d"
      "pairs (plug (g # gs) y) = pairs (plug fs x)" "addrs y \<union> caddrs h (g # gs) = addrs x \<union> caddrs h fs"
      "\<And>i. i \<notin> addrs x \<union> caddrs h fs \<Longrightarrow> H' i = H i"
      by (rule rm_inv_push[OF less.prems[unfolded x] ord d_def], rule that[unfolded x])
    have "remove_loop (\<lambda>u. cmpf u v) (pp_of h fs) (Some (parent h fs)) f (link_dir fs) H =
        remove_loop (\<lambda>u. cmpf u v) (pp_of h (g # gs)) (Some (parent h (g # gs))) (if cmpf w v = 0 then Some a else f) (link_dir (g # gs)) H'"
      using remove_loop_step[OF _ _ _ _ p(1), of n "cell c0 w (\<lambda>d. ptr (k d))" "\<lambda>u. cmpf u v"] n c(2) p(3,4) d_def
      by (simp add: Nd holds.simps)
    then have "rm_result cmpf v h H' (g # gs) y (remove_loop (\<lambda>u. cmpf u v) (pp_of h fs) (Some (parent h fs)) f (link_dir fs) H)"
      using less.IH[OF _ p(2)] by (simp add: x)
    then show ?thesis using p(7) unfolding rm_result_def p(5,6) by metis
  qed
qed

section \<open>Unlinking the last node\<close>

lemma last_other:
  assumes "rm_inv cmpf v h H (Fr q c w d s # gs) Lf f"
  shows "s = Lf"
proof -
  have "bh s = 0" "\<not> is_red s" using assms by (auto simp: rm_inv_def invh_plug invc_plug)
  then show ?thesis by (cases s) (auto simp: bh.simps)
qed

definition setp :: "nat \<Rightarrow> nat \<Rightarrow> nat \<times> nat \<Rightarrow> nat \<times> nat" where
  "setp b u p = (fst p, if fst p = b then u else snd p)"

fun fsetv :: "nat \<Rightarrow> nat \<Rightarrow> frame \<Rightarrow> frame" where
  "fsetv b u (Fr a c v d s) = Fr a c (if a = b then u else v) d (setv b u s)"

lemma setv_two: "setv b u (Nd a c v (two d x y)) = Nd a c (if a = b then u else v) (two d (setv b u x) (setv b u y))"
  by (simp add: two_def fun_eq_iff)

lemma setv_plug: "setv b u (plug fs x) = plug (map (fsetv b u) fs) (setv b u x)"
proof (induction fs arbitrary: x)
  case (Cons f fs) then show ?case by (cases f) (simp add: setv_two del: setv.simps)
qed simp

lemma fsetv_sel [simp]: "faddr (fsetv b u f) = faddr f" "fdir (fsetv b u f) = fdir f"
  by (cases f; simp)+

lemma parent_setv [simp]: "parent h (map (fsetv b u) fs) = parent h fs" "link_dir (map (fsetv b u) fs) = link_dir fs"
  by (cases fs; simp)+

lemma pairs_setv': "pairs (setv b u x) = map (setp b u) (pairs x)"
  by (simp add: pairs_setv setp_def case_prod_beta')

lemma plefts_setv: "plefts (map (fsetv b u) fs) = map (setp b u) (plefts fs)"
  "prights (map (fsetv b u) fs) = map (setp b u) (prights fs)"
  by (induction fs rule: plefts.induct) (auto simp: pairs_setv' setp_def)

lemma caddrs_setv [simp]: "caddrs h (map (fsetv b u) fs) = caddrs h fs"
  by (induction fs rule: plefts.induct) auto

lemma zip_setv:
  assumes "zip_ok h H [] x" "(b, w) \<in> set (pairs x)"
  obtains c l where "H b = Some (cell c w l)" "zip_ok h (H(b \<mapsto> cell c u l)) [] (setv b u x)"
proof -
  have b: "b \<in> addrs x" "b \<noteq> h" using assms pairs_addrs[of x] by (force simp: zip_ok_def)+
  obtain c l where "H b = Some (cell c w l)" "holds (H(b \<mapsto> cell c u l)) (setv b u x)"
    using holds_setv[of H x b w u] assms unfolding zip_ok_def by blast
  then show thesis using that assms(1) b by (auto simp: zip_ok_def)
qed

text \<open>The node behind the pointer \<open>p\<close> of the loop lets go of the leaf \<open>q\<close>, which is released.\<close>

lemma unlink_leaf:
  assumes z: "zip_ok h H gs (Nd q c w (two d Lf Lf))"
  obtains pn qn H' where "H (parent h gs) = Some pn" "H q = Some qn"
    "bindR (set_link (Some (parent h gs)) (link pn True = Some q) (link qn (link qn False = None)) H)
       (\<lambda>H. free_rbnode (Some q) H) = Inr H'"
    "zip_ok h H' gs Lf" "H' q = None" "\<And>i. i \<notin> insert q (caddrs h gs) \<Longrightarrow> H' i = H i"
proof -
  have c: "cholds h H gs (Some q)" "cdist h gs" "q \<notin> caddrs h gs" "H q = Some (cell c w (two d None None))"
    using z by (auto simp: zip_ok_def)
  obtain pn where pn: "H (parent h gs) = Some pn" "(link pn True = Some q) = link_dir gs"
    using parent_link[OF c(1,2)] c(3) by (metis option.distinct(1) option.inject)
  obtain H1 where H1: "set_link (Some (parent h gs)) (link_dir gs) None H = Inr H1" "cholds h H1 gs None"
    "\<And>a. a \<noteq> parent h gs \<Longrightarrow> H1 a = H a" using relink[OF c(1,2)] by blast
  have "q \<noteq> parent h gs" using parent_in[of h gs] c(3) by auto
  then have q1: "H1 q = Some (cell c w (two d None None))" using H1(3) c(4) by simp
  have l: "link (cell c w (two d None None)) (link (cell c w (two d None None)) False = None) = None" by (simp add: two_def)
  show thesis
  proof (rule that[OF pn(1) c(4)])
    show "bindR (set_link (Some (parent h gs)) (link pn True = Some q)
        (link (cell c w (two d None None)) (link (cell c w (two d None None)) False = None)) H)
        (\<lambda>H. free_rbnode (Some q) H) = Inr (H1(q := None))"
      using H1(1) q1 unfolding pn(2) l by (simp add: free_rbnode_def)
    show "zip_ok h (H1(q := None)) gs Lf" using H1(2) c(2,3) by (simp add: zip_ok_def cholds_frame)
  next
    fix i assume "i \<notin> insert q (caddrs h gs)"
    then show "(H1(q := None)) i = H i" using H1(3)[of i] parent_in[of h gs] by (cases "i = parent h gs") auto
  qed simp
qed

definition del_list :: "(nat \<Rightarrow> nat \<Rightarrow> int) \<Rightarrow> nat \<Rightarrow> nat list \<Rightarrow> nat list" where
  "del_list cmpf v vs = filter (\<lambda>u. cmpf u v \<noteq> 0) vs"

lemma setp_id: "b \<notin> fst ` set ps \<Longrightarrow> map (setp b u) ps = ps"
  by (induction ps) (auto simp: setp_def)

context key_order
begin

text \<open>What the swap of the values and the removal of \<open>q\<close> do to the list of the values.\<close>

lemma swapped_values:
  assumes inv: "rm_inv cmpf v h H (Fr q c w d Lf # gs) Lf (Some a)"
  obtains u where "(a, u) \<in> set (pairs (plug (Fr q c w d Lf # gs) Lf))"
    "map snd (map (setp q u) (map (setp a w) (plefts gs @ prights gs))) = del_list cmpf v (inorder (plug (Fr q c w d Lf # gs) Lf))"
proof -
  let ?T = "plug (Fr q c w d Lf # gs) Lf" and ?P = "plefts gs" and ?R = "prights gs"
  have L: "pairs ?T = ?P @ (q, w) # ?R" by (simp only: pairs_plug) (cases d, simp_all)
  have V: "inorder ?T = map snd ?P @ w # map snd ?R" using arg_cong[OF L, of "map snd"] by (simp only: pairs_inorder) simp
  have "zip_ok h H [] ?T" using inv zip_ok_plug unfolding rm_inv_def by blast
  then have "dist ?T" by (simp only: zip_ok_def)
  then have dst: "distinct (map fst (?P @ (q, w) # ?R))" using pairs_distinct L by metis
  have srt: "sorted_wrt (\<lambda>a b. cmpf (snd a) (snd b) < 0) (?P @ (q, w) # ?R)"
    using inv unfolding rm_inv_def ascending_pairs L by blast
  have path: "\<And>b. b \<in> set ?P \<Longrightarrow> cmpf (snd b) v < 0" "\<And>b. b \<in> set ?R \<Longrightarrow> 0 \<le> cmpf (snd b) v"
    "if d then cmpf w v < 0 else 0 \<le> cmpf w v"
    using inv by (auto simp: rm_inv_def rm_path_def split: if_splits)
  have P: "filter (\<lambda>u. cmpf u v \<noteq> 0) (map snd ?P) = map snd ?P" using path(1) by (force simp: filter_id_conv)
  have above: "0 < cmpf (snd b) v" if "cmpf u (snd b) < 0" "cmpf u v = 0" for u b
    using that cmp_flip[of u v] equiv_less_trans[of v u "snd b"] cmp_flip[of v "snd b"] cmp_flip[of v u] by force
  obtain u where u: "(a, u) \<in> set (prights (Fr q c w d Lf # gs))" "cmpf u v = 0"
    using inv by (auto simp: rm_inv_def found_at_def)
  show thesis
  proof (cases d)
    case True
    then obtain R1 R2 where R: "?R = R1 @ (a, u) # R2" using u(1) split_list by fastforce
    have "cmpf (snd b) v < 0" if "b \<in> set R1" for b
      using that srt u(2) less_equiv_trans[of "snd b" u v] by (auto simp: R sorted_wrt_append)
    then have R1: "R1 = []" using path(2) by (cases R1) (force simp: R)+
    have "filter (\<lambda>u. cmpf u v \<noteq> 0) (map snd R2) = map snd R2"
      using above[OF _ u(2)] srt by (force simp: R sorted_wrt_append filter_id_conv)
    then have "map snd (map (setp q u) (map (setp a w) (?P @ ?R))) = del_list cmpf v (inorder ?T)"
      using dst P True path(3) u(2) unfolding V del_list_def by (simp add: R R1 setp_id setp_def)
    then show thesis using that[of u] unfolding L R by simp
  next
    case False
    have "(a, u) \<notin> set ?R" using srt less_equiv_trans[of w u v] path(3) u(2) False by (auto simp: sorted_wrt_append)
    then have au: "a = q" "u = w" using u(1) False by auto
    have "filter (\<lambda>u. cmpf u v \<noteq> 0) (map snd ?R) = map snd ?R"
      using above[OF _ u(2)] srt au by (force simp: sorted_wrt_append filter_id_conv)
    then have "map snd (map (setp q u) (map (setp a w) (?P @ ?R))) = del_list cmpf v (inorder ?T)"
      using dst P u(2) au unfolding V del_list_def by (simp add: setp_id)
    then show thesis using that[of u] au unfolding L by simp
  qed
qed

end

lemma unlink_ok:
  assumes ord: "key_order cmpf" and inv: "rm_inv cmpf v h H (Fr q c w d Lf # gs) Lf (Some a)"
    and cb: "\<And>H. cb (Some q) H = free_rbnode (Some q) H"
  obtains H' T where "unlink_node (Some cb) (Some (parent h gs)) (Some q) (Some a) H = Inr H'"
    "zip_ok h H' [] T" "invh T" "invc T" "inorder T = del_list cmpf v (inorder (plug (Fr q c w d Lf # gs) Lf))"
    "insert h (addrs T) = caddrs h gs" "\<And>i. i \<notin> insert q (caddrs h gs) \<Longrightarrow> H' i = H i" "H' q = None"
proof -
  let ?T = "plug (Fr q c w d Lf # gs) Lf"
  have z: "zip_ok h H [] ?T" using inv zip_ok_plug unfolding rm_inv_def by blast
  obtain u where u: "(a, u) \<in> set (pairs ?T)"
    "map snd (map (setp q u) (map (setp a w) (plefts gs @ prights gs))) = del_list cmpf v (inorder ?T)"
    by (rule key_order.swapped_values[OF ord inv], rule that)
  define gs' where "gs' = map (fsetv q u) (map (fsetv a w) gs)"
  have sv: "setv q u (setv a w ?T) = plug gs' (Nd q c u (two d Lf Lf))"
    by (simp add: gs'_def setv_plug setv_two del: setv.simps(2))
  have qw: "(q, w) \<in> set (pairs ?T)" by (simp only: pairs_plug) (cases d, simp_all)
  obtain ca la where ca: "H a = Some (cell ca u la)" "zip_ok h (H(a \<mapsto> cell ca w la)) [] (setv a w ?T)"
    using zip_setv[OF z u(1)] by blast
  have "(q, w) \<in> set (pairs (setv a w ?T))" using qw unfolding pairs_setv' by (force simp: setp_def)
  then obtain cq lq where cq: "(H(a \<mapsto> cell ca w la)) q = Some (cell cq w lq)"
    "zip_ok h (H(a \<mapsto> cell ca w la, q \<mapsto> cell cq u lq)) [] (setv q u (setv a w ?T))"
    using zip_setv[OF ca(2)] by blast
  define H2 where "H2 = H(a \<mapsto> cell ca w la, q \<mapsto> cell cq u lq)"
  have z2: "zip_ok h H2 gs' (Nd q c u (two d Lf Lf))" using cq(2) unfolding sv H2_def by (subst zip_ok_plug)
  obtain pn qn H' where H': "H2 (parent h gs') = Some pn" "H2 q = Some qn"
    "bindR (set_link (Some (parent h gs')) (link pn True = Some q) (link qn (link qn False = None)) H2)
       (\<lambda>H. free_rbnode (Some q) H) = Inr H'"
    "zip_ok h H' gs' Lf" "H' q = None" "\<And>i. i \<notin> insert q (caddrs h gs') \<Longrightarrow> H' i = H2 i"
    by (rule unlink_leaf[OF z2], rule that)
  have par: "parent h gs' = parent h gs" "caddrs h gs' = caddrs h gs" by (simp_all add: gs'_def del: map_map)
  obtain c0 l0 where c0: "H q = Some (cell c0 w l0)" using zip_setv[OF z qw] by blast
  have un: "unlink_node (Some cb) (Some (parent h gs)) (Some q) (Some a) H = Inr H'"
    using ca(1) c0 cq(1) H'(1-3) unfolding H2_def[symmetric] par
    by (simp add: unlink_node_def cb H2_def[symmetric] del: fun_upd_apply)
  have sub: "a \<in> insert q (caddrs h gs)"
    using pairs_addrs[of ?T] u(1) addrs_plug[of h "Fr q c w d Lf # gs" Lf] by force
  have invs: "invh (plug gs' (Nd q c u (two d Lf Lf)))" "invc (plug gs' (Nd q c u (two d Lf Lf)))" "c \<or> gs' = []"
    using inv unfolding sv[symmetric] by (auto simp: rm_inv_def gs'_def)
  show thesis
  proof (rule that[OF un])
    show "zip_ok h H' [] (plug gs' Lf)" using H'(4) zip_ok_plug by blast
    show "invh (plug gs' Lf)" "invc (plug gs' Lf)" using invs by (auto simp: invh_plug invc_plug intro: cinvc_black)
    have "inorder (plug gs' Lf) = map snd (plefts gs' @ prights gs')"
      by (simp add: pairs_inorder[symmetric] pairs_plug)
    also have "\<dots> = del_list cmpf v (inorder ?T)" using u(2) unfolding gs'_def plefts_setv map_append by simp
    finally show "inorder (plug gs' Lf) = del_list cmpf v (inorder ?T)" .
    show "insert h (addrs (plug gs' Lf)) = caddrs h gs" using addrs_plug[of h gs' Lf] par by simp
  next
    fix i assume "i \<notin> insert q (caddrs h gs)"
    then show "H' i = H i" using H'(6)[of i] sub par by (auto simp: H2_def)
  qed (rule H'(5))
qed

end
