(* ===== verification/Rbtree_Correct.thy ===== *)
theory Rbtree_Correct
  imports Rbtree_Remove
begin

text \<open>
  Red-black trees as ordered sets of values: insertion, removal and search against the ascending list
  of the values, with the colour and height invariants; the contract of an ordered set as a locale,
  provided by the tree.
\<close>

section \<open>Trees and their values\<close>

definition rb_holds :: "rbtree \<Rightarrow> rbheap \<Rightarrow> nat set \<Rightarrow> nat list \<Rightarrow> bool" where
  "rb_holds t H A vs \<longleftrightarrow>
     (\<exists>T. holds H T \<and> dist T \<and> ptr T = root t \<and> addrs T = A \<and> inorder T = vs \<and> invh T \<and> invc T \<and> \<not> is_red T) \<and>
     ascending (cmp t) vs"

lemma rb_holds_finite: "rb_holds t H A vs \<Longrightarrow> finite A \<and> card A = length vs"
  by (auto simp: rb_holds_def card_addrs)

lemma rb_holds_off:
  assumes "rb_holds t H A vs" "a \<notin> A"
  shows "rb_holds t (H(a := n)) A vs"
  using assms unfolding rb_holds_def by (metis holds_frame)

context key_order
begin

lemma ascending_ins:
  assumes "ascending cmpf vs"
  shows "ascending cmpf (ins_list cmpf v vs)"
proof (cases "\<exists>u\<in>set vs. cmpf u v = 0")
  case False
  let ?l = "takeWhile (\<lambda>u. cmpf u v < 0) vs" and ?r = "dropWhile (\<lambda>u. cmpf u v < 0) vs"
  have s: "ascending cmpf (?l @ ?r)" using assms by simp
  have r: "cmpf v b < 0" if "b \<in> set ?r" for b
  proof (cases ?r)
    case (Cons x xs)
    have "\<not> cmpf x v < 0" using Cons hd_dropWhile[of "\<lambda>u. cmpf u v < 0" vs] by (metis list.distinct(1) list.sel(1))
    moreover have "cmpf x v \<noteq> 0" using False Cons set_dropWhileD[of x _ vs] by (metis list.set_intros(1))
    ultimately have "cmpf v x < 0" using cmp_flip[of v x] by linarith
    moreover have "b = x \<or> cmpf x b < 0" using s that Cons by (auto simp: ascending_def sorted_wrt_append)
    ultimately show ?thesis using less_trans by blast
  next
    case Nil then show ?thesis using that by (simp only: list.set) blast
  qed
  have l: "cmpf b v < 0" if "b \<in> set ?l" for b using that by (auto dest: set_takeWhileD)
  show ?thesis using s r l False less_trans unfolding ins_list_def ascending_def
    by (simp add: sorted_wrt_append) blast
qed (use assms in \<open>simp add: ins_list_def\<close>)

lemma ascending_del: "ascending cmpf vs \<Longrightarrow> ascending cmpf (del_list cmpf v vs)"
  by (simp add: ascending_def del_list_def sorted_wrt_filter)

text \<open>In an ascending list at most one value is equivalent to \<open>v\<close>.\<close>

lemma find_ins: "find (\<lambda>u. cmpf u v = 0) (ins_list cmpf v vs) \<noteq> None"
  by (auto simp: find_None_iff ins_list_def)

lemma find_del: "find (\<lambda>u. cmpf u v = 0) (del_list cmpf v vs) = None"
  by (auto simp: find_None_iff del_list_def)

lemma del_ins: "\<not> (\<exists>u\<in>set vs. cmpf u v = 0) \<Longrightarrow> del_list cmpf v (ins_list cmpf v vs) = vs"
proof -
  assume no: "\<not> (\<exists>u\<in>set vs. cmpf u v = 0)"
  have "filter (\<lambda>u. cmpf u v \<noteq> 0) vs = vs" using no by (auto simp: filter_id_conv)
  then have "filter (\<lambda>u. cmpf u v \<noteq> 0) (takeWhile (\<lambda>u. cmpf u v < 0) vs) @
      filter (\<lambda>u. cmpf u v \<noteq> 0) (dropWhile (\<lambda>u. cmpf u v < 0) vs) = vs"
    by (metis filter_append takeWhile_dropWhile_id)
  then show ?thesis using no by (simp add: ins_list_def del_list_def)
qed

end

section \<open>Insertion\<close>

lemma set_red_root:
  assumes "holds H T" "T \<noteq> Lf" "dist T"
  obtains H' where "set_red (ptr T) False H = Inr H'" "holds H' (paint False T)" "\<And>i. i \<notin> addrs T \<Longrightarrow> H' i = H i"
proof -
  obtain a where a: "ptr T = Some a" using assms(2) by (cases T) auto
  then show thesis using holds_paint[OF assms(1,3) a, of False] that ptr_Some[OF a] by fastforce
qed

lemma insert_into_ok:
  assumes ord: "key_order (cmp t)" and t: "rb_holds t H A vs" "root t \<noteq> None"
    and new: "H node = Some (cell True v (two False None None))" "node \<notin> A" "head \<notin> A" "head \<noteq> node"
  obtains H' T where "insert_into head node t H = Some (Inr (ptr T, H'))" "holds H' T" "dist T" "invh T" "invc T"
    "inorder T = ins_list (cmp t) v vs" "addrs T = (if \<exists>u\<in>set vs. cmp t u v = 0 then {} else {node}) \<union> A"
    "\<And>i. i \<notin> insert head (insert node A) \<Longrightarrow> H' i = H i"
proof -
  obtain T where T: "holds H T" "dist T" "ptr T = root t" "addrs T = A" "inorder T = vs" "invh T" "invc T" "\<not> is_red T"
    "ascending (cmp t) vs" using t(1) by (auto simp: rb_holds_def)
  let ?H = "H(head \<mapsto> false_root (root t))"
  have "walk_inv (cmp t) v node head ?H [] T"
    using T new by (auto simp: walk_inv_def zip_ok_def on_path_def fresh_at_def)
  moreover have "helper_ok [] T" using T t(2) by auto
  ultimately have "loop_result (cmp t) v node head ?H [] T (insert_loop (cmp t) node (Some head) None None (root t) False False ?H)"
    using insert_loop_ok[OF ord, of v node head ?H "[]" T False False] T(3) by simp
  then obtain H' T' where r: "insert_loop (cmp t) node (Some head) None None (root t) False False ?H = Some (Inr H')"
    "zip_ok head H' [] T'" "invh T'" "invc T'" "inorder T' = ins_list (cmp t) v vs"
    "insert head (addrs T') = (if \<exists>u\<in>set vs. cmp t u v = 0 then {} else {node}) \<union> (A \<union> {head})"
    "\<And>i. i \<notin> insert node (A \<union> {head}) \<Longrightarrow> H' i = ?H i"
    using T(4,5) by (auto simp: loop_result_def)
  have z: "H' head = Some (false_root (ptr T'))" "holds H' T'" "dist T'" "head \<notin> addrs T'" using r(2) by (auto simp: zip_ok_def)
  show thesis
  proof (rule that)
    show "insert_into head node t H = Some (Inr (ptr T', H'(head := None)))"
      using r(1) z(1) by (simp add: insert_into_def false_root_cell)
    show "addrs T' = (if \<exists>u\<in>set vs. cmp t u v = 0 then {} else {node}) \<union> A"
      using r(6) z(4) new(3,4) by (auto split: if_splits)
  qed (use r z in auto)
qed

lemma rbtree_insert_ok:
  assumes ord: "key_order (cmp t)" and t: "rb_holds t H A vs" and new: "node \<notin> A" "head \<notin> A" "head \<noteq> node"
  obtains H' t' where "rbtree_tree_insert head (Some node) (Some t) v H = Some (Inr (1, Some t', H'))"
    "cmp t' = cmp t" "rbsize t' = rbsize t + 1"
    "rb_holds t' H' ((if \<exists>u\<in>set vs. cmp t u v = 0 then {} else {node}) \<union> A) (ins_list (cmp t) v vs)"
    "\<And>i. i \<notin> insert head (insert node A) \<Longrightarrow> H' i = H i"
proof -
  let ?cell = "cell True v (two False None None)" let ?H = "H(node \<mapsto> ?cell)"
  let ?A = "(if \<exists>u\<in>set vs. cmp t u v = 0 then {} else {node}) \<union> A"
  have cr: "rbtree_node_create (Some node) v H = (Some node, ?H)"
    by (simp add: rbtree_node_create_def rbtree_node_init_def cell_def two_def)
  have t': "rb_holds t ?H A vs" using rb_holds_off[OF t new(1)] .
  have asc: "ascending (cmp t) (ins_list (cmp t) v vs)" using key_order.ascending_ins[OF ord] t by (simp add: rb_holds_def)
  obtain H1 T where r: "(if root t = None then Some (Inr (Some node, ?H)) else insert_into head node t ?H) = Some (Inr (ptr T, H1))"
    "holds H1 T" "dist T" "invh T" "invc T" "inorder T = ins_list (cmp t) v vs" "addrs T = ?A"
    "\<And>i. i \<notin> insert head (insert node A) \<Longrightarrow> H1 i = ?H i"
  proof (cases "root t = None")
    case True
    then have e: "vs = []" "A = {}" using t by (auto simp: rb_holds_def)
    show thesis
      by (rule that[of "Nd node True v (two False Lf Lf)" ?H]) (simp_all add: True e ins_list_def)
  next
    case False
    show thesis
      by (rule insert_into_ok[OF ord t' False _ new], simp) (rule that[unfolded if_not_P[OF False]])
  qed
  have "T \<noteq> Lf" using r(6) by (cases T) (auto simp: ins_list_def split: if_splits)
  obtain H' where H': "set_red (ptr T) False H1 = Inr H'" "holds H' (paint False T)" "\<And>i. i \<notin> addrs T \<Longrightarrow> H' i = H1 i"
    using set_red_root[OF r(2) \<open>T \<noteq> Lf\<close> r(3)] by blast
  show thesis
  proof (rule that)
    show "rbtree_tree_insert head (Some node) (Some t) v H = Some (Inr (1, Some (t\<lparr>root := ptr T, rbsize := rbsize t + 1\<rparr>), H'))"
      using r(1) H'(1) by (simp add: rbtree_tree_insert_def cr rbtree_tree_insert_node_def)
    show "rb_holds (t\<lparr>root := ptr T, rbsize := rbsize t + 1\<rparr>) H' ?A (ins_list (cmp t) v vs)"
      unfolding rb_holds_def using H'(2) r asc by (intro conjI exI[of _ "paint False T"]) auto
  next
    fix i assume i: "i \<notin> insert head (insert node A)"
    then have "i \<notin> addrs T" using r(7) by auto
    then show "H' i = H i" using H'(3) r(8)[OF i] i by simp
  qed simp_all
qed

section \<open>Removal\<close>

lemma del_list_id: "(\<forall>u\<in>set vs. cmpf u v \<noteq> 0) \<Longrightarrow> del_list cmpf v vs = vs"
  by (auto simp: del_list_def filter_id_conv)

lemma rm_inv_unfound:
  assumes "rm_inv cmpf v h H fs Lf None"
  shows "del_list cmpf v (inorder (plug fs Lf)) = inorder (plug fs Lf)"
proof (rule del_list_id)
  have "cmpf (snd b) v \<noteq> 0" if "b \<in> set (pairs (plug fs Lf))" for b
    using that assms by (auto simp: rm_inv_def rm_path_def found_at_def pairs_plug)
  then show "\<forall>u\<in>set (inorder (plug fs Lf)). cmpf u v \<noteq> 0" by (auto simp: pairs_inorder[symmetric])
qed

text \<open>The part after the loop: the node that was found goes, the false root is read and dropped.\<close>

lemma remove_finish:
  assumes ord: "key_order cmpf" and inv: "rm_inv cmpf v h H (g # gs) Lf f"
    and cb: "\<And>q H. cb q H = (case q of None \<Rightarrow> Inr H | Some _ \<Rightarrow> free_rbnode q H)"
  obtains H' T where
    "(if f = None then Some (Inr H) else Some (unlink_node (Some cb) (Some (parent h gs)) (Some (faddr g)) f H)) = Some (Inr H')"
    "zip_ok h H' [] T" "invh T" "invc T" "inorder T = del_list cmpf v (inorder (plug (g # gs) Lf))"
    "addrs T \<subseteq> caddrs h (g # gs)" "\<And>i. i \<in> caddrs h (g # gs) \<Longrightarrow> i \<notin> insert h (addrs T) \<Longrightarrow> H' i = None"
    "\<And>i. i \<notin> caddrs h (g # gs) \<Longrightarrow> H' i = H i"
proof (cases f)
  case None
  let ?T = "plug (g # gs) Lf"
  have "zip_ok h H [] ?T" "invh ?T" "invc ?T" using inv zip_ok_plug unfolding rm_inv_def by blast+
  moreover have "insert h (addrs ?T) = caddrs h (g # gs)" using addrs_plug[of h "g # gs" Lf] by simp
  ultimately show thesis using that[of H ?T] rm_inv_unfound[of cmpf v h H "g # gs"] inv None by auto
next
  case (Some a)
  obtain q c w d s where g: "g = Fr q c w d s" by (cases g)
  have s: "s = Lf" using last_other inv unfolding g by blast
  have c: "caddrs h (g # gs) = insert q (caddrs h gs)" by (simp add: g s)
  obtain H' T where u: "unlink_node (Some cb) (Some (parent h gs)) (Some q) (Some a) H = Inr H'"
    "zip_ok h H' [] T" "invh T" "invc T" "inorder T = del_list cmpf v (inorder (plug (Fr q c w d Lf # gs) Lf))"
    "insert h (addrs T) = caddrs h gs" "\<And>i. i \<notin> insert q (caddrs h gs) \<Longrightarrow> H' i = H i" "H' q = None"
    by (rule unlink_ok[OF ord inv[unfolded g s Some], of cb], simp add: cb, rule that)
  show thesis
    by (rule that[OF _ u(2-4)]) (use u c in \<open>auto simp: Some g s\<close>)
qed

lemma rbtree_remove_ok:
  assumes ord: "key_order (cmp t)" and t: "rb_holds t H A vs" "root t \<noteq> None" and head: "head \<notin> A"
  obtains H' t' B where "rbtree_tree_remove head (Some t) v H = Some (Inr (1, Some t', H'))"
    "cmp t' = cmp t" "rbsize t' = rbsize t - 1" "rb_holds t' H' B (del_list (cmp t) v vs)"
    "B \<subseteq> A" "\<And>i. i \<in> A - B \<Longrightarrow> H' i = None" "\<And>i. i \<notin> insert head A \<Longrightarrow> H' i = H i"
proof -
  obtain T where T: "holds H T" "dist T" "ptr T = root t" "addrs T = A" "inorder T = vs" "invh T" "invc T" "\<not> is_red T"
    "ascending (cmp t) vs" using t(1) by (auto simp: rb_holds_def)
  let ?H = "H(head \<mapsto> false_root (root t))" let ?c = "\<lambda>u. cmp t u v"
  have "rm_inv (cmp t) v head ?H [] T None"
    using T t(2) head by (auto simp: rm_inv_def zip_ok_def rm_path_def found_at_def)
  from remove_loop_ok[OF ord this] obtain H1 g gs f
    where r: "remove_loop ?c None (Some head) None True ?H = Some (Inr (Some (parent head gs), Some (faddr g), f, H1))"
    "rm_inv (cmp t) v head H1 (g # gs) Lf f" "pairs (plug (g # gs) Lf) = pairs T" "caddrs head (g # gs) = insert head A"
    "\<And>i. i \<notin> insert head A \<Longrightarrow> H1 i = ?H i"
    using T(4) by (auto simp: rm_result_def)
  define cb where "cb = rbtree_tree_node_dealloc_cb (Some t)"
  have cb: "cb q H = (case q of None \<Rightarrow> Inr H | Some _ \<Rightarrow> free_rbnode q H)" for q H
    by (auto simp: cb_def rbtree_tree_node_dealloc_cb_def rbtree_node_dealloc_def split: option.splits)
  obtain H2 T' where u:
    "(if f = None then Some (Inr H1) else Some (unlink_node (Some cb) (Some (parent head gs)) (Some (faddr g)) f H1)) = Some (Inr H2)"
    "zip_ok head H2 [] T'" "invh T'" "invc T'" "inorder T' = del_list (cmp t) v (inorder (plug (g # gs) Lf))"
    "addrs T' \<subseteq> caddrs head (g # gs)" "\<And>i. i \<in> caddrs head (g # gs) \<Longrightarrow> i \<notin> insert head (addrs T') \<Longrightarrow> H2 i = None"
    "\<And>i. i \<notin> caddrs head (g # gs) \<Longrightarrow> H2 i = H1 i"
    by (rule remove_finish[OF ord r(2) cb], rule that)
  have z: "H2 head = Some (false_root (ptr T'))" "holds H2 T'" "dist T'" "head \<notin> addrs T'" using u(2) by (auto simp: zip_ok_def)
  obtain H3 where H3: "(if ptr T' = None then Some (Inr (H2(head := None))) else Some (set_red (ptr T') False (H2(head := None)))) = Some (Inr H3)"
    "holds H3 (paint False T')" "\<And>i. i \<notin> addrs T' \<Longrightarrow> H3 i = (H2(head := None)) i"
  proof (cases "T' = Lf")
    case False
    have "holds (H2(head := None)) T'" using z by simp
    from set_red_root[OF this False z(3)] that False show thesis by (simp del: fun_upd_apply) blast
  qed (use that in simp)
  have ino: "inorder T' = del_list (cmp t) v vs" using u(5) r(3) T(5) by (metis pairs_inorder)
  show thesis
  proof (rule that)
    show "rbtree_tree_remove head (Some t) v H = Some (Inr (1, Some (t\<lparr>root := ptr T', rbsize := rbsize t - 1\<rparr>), H3))"
      using t(2) r(1) u(1) z(1) H3(1) unfolding cb_def
      by (cases "T' = Lf"; cases f) (auto simp: rbtree_tree_remove_def rbtree_tree_remove_with_cb_def false_root_cell Let_def)
    show "rb_holds (t\<lparr>root := ptr T', rbsize := rbsize t - 1\<rparr>) H3 (addrs T') (del_list (cmp t) v vs)"
      unfolding rb_holds_def using H3(2) u(3,4) z(3) ino key_order.ascending_del[OF ord T(9)]
      by (intro conjI exI[of _ "paint False T'"]) auto
  next
    fix i assume i: "i \<in> A - addrs T'"
    then have "i \<in> caddrs head (g # gs)" "i \<noteq> head" using r(4) head by auto
    then show "H3 i = None" using H3(3)[of i] u(7)[of i] i by simp
  next
    fix i assume i: "i \<notin> insert head A"
    then have "i \<notin> caddrs head (g # gs)" "i \<notin> addrs T'" using r(4) u(6) by auto
    then show "H3 i = H i" using H3(3)[of i] u(8)[of i] r(5)[OF i] i by simp
  qed (use u(6) r(4) z(4) in auto)
qed

section \<open>Search\<close>

lemma find_append: "find P (xs @ ys) = (case find P xs of None \<Rightarrow> find P ys | Some x \<Rightarrow> Some x)"
  by (induction xs) auto

context key_order
begin

text \<open>At a node, the search may leave out the node and the subtree on the other side.\<close>

lemma find_beside:
  assumes "ascending cmpf (inorder (Nd a c w (two e y z)))" "e = (cmpf w v < 0)"
  shows "cmpf w v = 0 \<Longrightarrow> find (\<lambda>u. cmpf u v = 0) (inorder (Nd a c w (two e y z))) = Some w"
    and "cmpf w v \<noteq> 0 \<Longrightarrow> find (\<lambda>u. cmpf u v = 0) (inorder (Nd a c w (two e y z))) = find (\<lambda>u. cmpf u v = 0) (inorder y)"
    and "ascending cmpf (inorder y)"
proof -
  have less: "cmpf u v < 0" if "u \<in> set (if e then inorder z else inorder y)" "cmpf w v \<le> 0" for u
    using assms that less_equiv_trans[of u w v] by (auto simp: ascending_def sorted_wrt_append split: if_splits)
  have more: "cmpf u v \<noteq> 0" if "u \<in> set (inorder z)" "\<not> e" "cmpf w v \<noteq> 0" for u
  proof -
    have "cmpf w u < 0" using assms(1) that by (auto simp: ascending_def sorted_wrt_append)
    then show ?thesis using less_equiv_trans[of w u v] assms(2) that(2) by auto
  qed
  show "find (\<lambda>u. cmpf u v = 0) (inorder (Nd a c w (two e y z))) = Some w" if "cmpf w v = 0"
  proof -
    have "find (\<lambda>u. cmpf u v = 0) (inorder y) = None" using less that assms(2) by (force simp: find_None_iff)
    then show ?thesis using that assms(2) by (simp add: find_append)
  qed
  show "find (\<lambda>u. cmpf u v = 0) (inorder (Nd a c w (two e y z))) = find (\<lambda>u. cmpf u v = 0) (inorder y)" if "cmpf w v \<noteq> 0"
  proof -
    have "find (\<lambda>u. cmpf u v = 0) (inorder z) = None" using less more that assms(2) by (cases e) (force simp: find_None_iff)+
    then show ?thesis using that by (simp add: find_append split: option.splits)
  qed
  show "ascending cmpf (inorder y)" using assms(1) by (auto simp: ascending_def sorted_wrt_append split: if_splits)
qed

end

lemma find_loop_ok:
  assumes ord: "key_order cmpf"
  shows "holds H T \<Longrightarrow> ascending cmpf (inorder T) \<Longrightarrow>
    \<exists>it. find_loop (\<lambda>u. cmpf u v) H (ptr T) = Some (Inr it) \<and>
      (case it of None \<Rightarrow> find (\<lambda>u. cmpf u v = 0) (inorder T) = None
       | Some a \<Rightarrow> \<exists>n. H a = Some n \<and> find (\<lambda>u. cmpf u v = 0) (inorder T) = Some (rbvalue n))"
proof (induction T)
  case Lf
  then show ?case by (subst find_loop.simps) simp
next
  case (Nd a c w k)
  define e where "e = (cmpf w v < 0)"
  obtain y z where k: "k = two e y z" by (rule two_exhaust)
  have h: "H a = Some (cell c w (two e (ptr y) (ptr z)))" "holds H y" and y: "y \<in> range k"
    using Nd.prems(1) k two_apply(1)[of e y z] by (auto simp del: two_apply) (metis rangeI)
  have step: "find_loop (\<lambda>u. cmpf u v) H (ptr (Nd a c w k)) =
      (if cmpf w v \<noteq> 0 then find_loop (\<lambda>u. cmpf u v) H (ptr y) else Some (Inr (Some a)))"
    using h(1) by (subst find_loop.simps) (simp add: e_def[symmetric])
  have srt: "ascending cmpf (inorder (Nd a c w (two e y z)))" using Nd.prems(2) by (simp add: k)
  note others = key_order.find_beside[OF ord srt e_def]
  show ?case
  proof (cases "cmpf w v = 0")
    case True
    then show ?thesis using step h(1) unfolding k others(1)[OF True] by simp
  next
    case False
    then show ?thesis using step Nd.IH[OF y h(2) others(3)] unfolding k others(2)[OF False] by simp
  qed
qed

theorem rbtree_find_ok:
  assumes "key_order (cmp t)" "rb_holds t H A vs"
  shows "rbtree_tree_find (Some t) v H =
    Some (Inr (case find (\<lambda>u. cmp t u v = 0) vs of None \<Rightarrow> 0 | Some u \<Rightarrow> u))"
proof -
  obtain T where T: "holds H T" "ptr T = root t" "inorder T = vs" "ascending (cmp t) vs"
    using assms(2) by (auto simp: rb_holds_def)
  obtain it where "find_loop (\<lambda>u. cmp t u v) H (root t) = Some (Inr it)"
    "case it of None \<Rightarrow> find (\<lambda>u. cmp t u v = 0) vs = None
       | Some a \<Rightarrow> \<exists>n. H a = Some n \<and> find (\<lambda>u. cmp t u v = 0) vs = Some (rbvalue n)"
    using find_loop_ok[OF assms(1) T(1), of v] T by auto
  then show ?thesis by (auto simp: rbtree_tree_find_def found_value_def split: option.splits)
qed

end
