(* ===== verification/Rbtree_Iter.thy ===== *)
theory Rbtree_Iter
  imports Rbtree_Correct
begin

text \<open>
  Iterators: from any position the values that are still ahead come in order, one per call, and the path
  of an iterator fits its array of 64 entries, because the height of a red-black tree is bounded by its
  black height. The self-test of a tree returns its black height.
\<close>

section \<open>The height of a tree\<close>

primrec height :: "ptree \<Rightarrow> nat" where
  "height Lf = 0"
| "height (Nd a c v k) = Suc (max (height (k False)) (height (k True)))"

lemma height_two: "height (Nd a c v (two d x y)) = Suc (max (height x) (height y))"
  by (cases d) auto

declare height.simps(2) [simp del] height_two [simp]

lemma height_bh: "invh x \<Longrightarrow> invc x \<Longrightarrow> height x \<le> 2 * bh x + of_bool (is_red x)"
proof (induction x)
  case (Nd a c v k)
  show ?case using Nd.IH[of "k False"] Nd.IH[of "k True"] Nd.prems
    by (cases "is_red (k False)"; cases "is_red (k True)"; auto simp: height.simps bh.simps invc.simps invh.simps split: if_splits)
qed simp

lemma bh_nodes: "invh x \<Longrightarrow> 2 ^ bh x \<le> Suc (nodes x)"
proof (induction x)
  case (Nd a c v k)
  then have "bh (k True) = bh (k False)" "2 ^ bh (k False) \<le> Suc (nodes (k False))" "2 ^ bh (k True) \<le> Suc (nodes (k True))"
    using Nd.IH[of "k False"] Nd.IH[of "k True"] by (auto simp: invh.simps)
  then show ?case by (cases c) (simp_all add: bh.simps nodes.simps)
qed simp

lemma height_64:
  assumes "invh x" "invc x" "\<not> is_red x" "nodes x < 2 ^ 32"
  shows "height x \<le> 64"
proof -
  have "(2::nat) ^ bh x \<le> 2 ^ 32" using bh_nodes[OF assms(1)] assms(4) by linarith
  then have "bh x \<le> 32" by (rule power_le_imp_le_exp[rotated]) simp
  then show ?thesis using height_bh[OF assms(1,2)] assms(3) by simp
qed

lemma height_plug: "length fs + height x \<le> height (plug fs x)"
proof (induction fs arbitrary: x)
  case (Cons f fs)
  have "Suc (height x) \<le> height (fill f x)" by (cases f) simp
  then show ?case using Cons[of "fill f x"] by simp
qed simp

lemma holds_plug: "holds H (plug fs x) \<Longrightarrow> holds H x"
proof (induction fs arbitrary: x)
  case (Cons f fs) then show ?case by (cases f) fastforce
qed simp

lemma dist_plug: "dist (plug fs x) \<Longrightarrow> dist x"
proof (induction fs arbitrary: x)
  case (Cons f fs) then show ?case by (cases f) fastforce
qed simp

section \<open>Positions\<close>

text \<open>The values in the direction \<open>d\<close> of the traversal, in a tree and beyond a subtree.\<close>

definition walk :: "bool \<Rightarrow> ptree \<Rightarrow> nat list" where
  "walk d x = (if d then inorder x else rev (inorder x))"

fun beyond :: "bool \<Rightarrow> frame list \<Rightarrow> nat list" where
  "beyond d [] = []"
| "beyond d (Fr a c v e s # fs) = (if e = d then [] else v # walk d s) @ beyond d fs"

lemma walk_two [simp]: "walk d (Nd a c v (two d x y)) = walk d y @ v # walk d x" "walk d Lf = []"
  by (auto simp: walk_def)

lemma walk_other: "walk (\<not> d) (Nd a c v (two d x y)) = walk (\<not> d) x @ v # walk (\<not> d) y"
  by (auto simp: walk_def)

text \<open>The iterator stands at the root of \<open>x\<close>, below the frames \<open>fs\<close>.\<close>

definition on_way :: "rbheap \<Rightarrow> frame list \<Rightarrow> ptree \<Rightarrow> rbiter \<Rightarrow> bool" where
  "on_way H fs x i \<longleftrightarrow>
     holds H (plug fs x) \<and> dist (plug fs x) \<and> height (plug fs x) \<le> RBTREE_ITER_MAX_HEIGHT \<and> x \<noteq> Lf \<and>
     inode i = ptr x \<and> length (path i) = RBTREE_ITER_MAX_HEIGHT \<and>
     take (length fs) (path i) = rev (map (\<lambda>f. Some (faddr f)) fs)"

definition at :: "rbheap \<Rightarrow> frame list \<Rightarrow> ptree \<Rightarrow> rbiter \<Rightarrow> bool" where
  "at H fs x i \<longleftrightarrow> on_way H fs x i \<and> top i = length fs"

lemmas at_simps = at_def on_way_def

lemma at_push:
  assumes "at H fs (Nd a c v (two d x y)) i" "x \<noteq> Lf"
  obtains i' where "iter_push (ptr x) i = Inr i'" "at H (Fr a c v d y # fs) x i'"
proof -
  have "length fs + height (Nd a c v (two d x y)) \<le> RBTREE_ITER_MAX_HEIGHT"
    using assms(1) height_plug[of fs "Nd a c v (two d x y)"] by (simp add: at_simps del: height_two)
  then have len: "length fs < length (path i)" using assms(1) by (simp add: at_simps)
  have t: "take (Suc (length fs)) ((path i)[length fs := Some a]) = take (length fs) (path i) @ [Some a]"
    using len by (simp add: take_Suc_conv_app_nth)
  show thesis
    by (rule that[of "i\<lparr>path := (path i)[length fs := Some a], top := Suc (length fs), inode := ptr x\<rparr>"])
      (use assms len t in \<open>auto simp: iter_push_def at_simps\<close>)
qed

lemma at_node: "at H fs (Nd a c v (two d x y)) i \<Longrightarrow> H a = Some (cell c v (two d (ptr x) (ptr y)))"
  using holds_plug[of H fs "Nd a c v (two d x y)"] by (auto simp: at_simps)

lemma iter_down_ok:
  "at H fs x i \<Longrightarrow> \<exists>i' gs a c v y. iter_down d H i = Some (Inr i') \<and> at H gs (Nd a c v (two d Lf y)) i' \<and>
     walk (\<not> d) x @ beyond (\<not> d) fs = v # walk (\<not> d) y @ beyond (\<not> d) gs \<and>
     plug gs (Nd a c v (two d Lf y)) = plug fs x"
proof (induction x arbitrary: fs i rule: measure_induct_rule[where f = nodes])
  case (less x)
  obtain a c v k where "x = Nd a c v k" using less.prems by (cases x) (auto simp: at_simps)
  moreover obtain y z where "k = two d y z" by (rule two_exhaust)
  ultimately have x: "x = Nd a c v (two d y z)" by simp
  have ia: "inode i = Some a" using less.prems by (simp add: at_simps x)
  have n: "H a = Some (cell c v (two d (ptr y) (ptr z)))" using at_node less.prems unfolding x by blast
  show ?case
  proof (cases "y = Lf")
    case True
    then have "iter_down d H i = Some (Inr i)" using n ia by (subst iter_down.simps) simp
    then show ?thesis using less.prems True unfolding x
      by (intro exI[of _ i] exI[of _ fs] exI[of _ a] exI[of _ c] exI[of _ v] exI[of _ z]) (simp add: walk_other)
  next
    case False
    obtain i' where i': "iter_push (ptr y) i = Inr i'" "at H (Fr a c v d z # fs) y i'"
      using at_push less.prems False unfolding x by blast
    have "iter_down d H i = iter_down d H i'" using n ia False i'(1) by (subst iter_down.simps) simp
    then show ?thesis using less.IH[OF _ i'(2)] by (simp add: x walk_other)
  qed
qed

lemma take_get:
  assumes "take (length (f # fs)) ps = rev (map (\<lambda>f. Some (faddr f)) (f # fs))" "length (f # fs) \<le> length ps"
  shows "get_at ps (length fs) = Inr (Some (faddr f))" "take (length fs) ps = rev (map (\<lambda>f. Some (faddr f)) fs)"
proof -
  have "ps ! length fs = take (length (f # fs)) ps ! length fs" using assms(2) by simp
  also have "\<dots> = Some (faddr f)" unfolding assms(1) by (simp add: nth_append)
  finally show "get_at ps (length fs) = Inr (Some (faddr f))" using assms(2) by simp
  have "take (length fs) (take (length (f # fs)) ps) = rev (map (\<lambda>f. Some (faddr f)) fs)" unfolding assms(1) by simp
  then show "take (length fs) ps = rev (map (\<lambda>f. Some (faddr f)) fs)" by (simp add: min_def)
qed

text \<open>Climbing: the next value is at the nearest node that was left in the other direction.\<close>

lemma iter_up_ok:
  "on_way H fs x i \<Longrightarrow>
     (if beyond d fs = [] then iter_up d H i (length fs) = Inr (i\<lparr>top := 0, inode := None\<rparr>)
      else \<exists>i' gs a c v y z. iter_up d H i (length fs) = Inr i' \<and> at H gs (Nd a c v (two d y z)) i' \<and>
        beyond d fs = v # walk d y @ beyond d gs \<and> plug gs (Nd a c v (two d y z)) = plug fs x)"
proof (induction fs arbitrary: x i)
  case Nil
  then show ?case by simp
next
  case (Cons f fs)
  obtain p c v e s where f: "f = Fr p c v e s" by (cases f)
  have a: "holds H (plug fs (fill f x))" "dist (plug fs (fill f x))" "height (plug fs (fill f x)) \<le> RBTREE_ITER_MAX_HEIGHT"
    "x \<noteq> Lf" "inode i = ptr x" "length (path i) = RBTREE_ITER_MAX_HEIGHT"
    "take (length (f # fs)) (path i) = rev (map (\<lambda>f. Some (faddr f)) (f # fs))"
    using Cons.prems by (simp_all add: at_simps)
  have len: "length (f # fs) \<le> length (path i)" using height_plug[of "f # fs" x] a(3,6) by simp
  note get = take_get[OF a(7) len]
  have p: "H p = Some (cell c v (two e (ptr x) (ptr s)))" and d: "dist (fill f x)"
    using holds_plug[OF a(1)] dist_plug[OF a(2)] by (auto simp: f)
  have up: "on_way H fs (fill f x) (i\<lparr>inode := Some p\<rparr>)" "at H fs (fill f x) (i\<lparr>inode := Some p, top := length fs\<rparr>)"
    using a(1-3,6) get(2) by (simp_all add: at_simps f)
  show ?case
  proof (cases "e = d")
    case True
    have r: "iter_up d H i (length (f # fs)) = iter_up d H (i\<lparr>inode := Some p\<rparr>) (length fs)"
      using get(1) p a(5) True by (simp add: f)
    show ?thesis using Cons.IH[OF up(1)] True unfolding r by (auto simp: f split: if_splits)
  next
    case False
    have "ptr s \<noteq> ptr x" using d a(4) ptr_Some[of x] ptr_Some[of s] by (cases x; cases s) (auto simp: f)
    then have "iter_up d H i (length (f # fs)) = Inr (i\<lparr>inode := Some p, top := length fs\<rparr>)"
      using get(1) p a(5) False by (auto simp: f two_def)
    moreover have fl: "fill f x = Nd p c v (two d s x)" using two_other[OF False] by (simp add: f)
    moreover have "beyond d (f # fs) = v # walk d s @ beyond d fs" using False by (simp add: f)
    moreover have "plug fs (Nd p c v (two d s x)) = plug (f # fs) x" by (simp add: fl)
    ultimately show ?thesis using up(2) unfolding fl by (simp del: iter_up.simps list.size plug.simps) blast
  qed
qed

section \<open>Traversal\<close>

lemma iter_move_ok:
  assumes "at H fs (Nd a c v (two d y z)) i"
  shows "if walk d y @ beyond d fs = [] then \<exists>i'. rbtree_iter_move d i H = Some (Inr (0, i')) \<and> inode i' = None
    else \<exists>i' gs a' c' v' y' z'. rbtree_iter_move d i H = Some (Inr (v', i')) \<and> at H gs (Nd a' c' v' (two d y' z')) i' \<and>
      walk d y @ beyond d fs = v' # walk d y' @ beyond d gs"
proof -
  have n: "H a = Some (cell c v (two d (ptr y) (ptr z)))" "inode i = Some a" "top i = length fs"
    using assms at_node by (auto simp: at_simps)
  show ?thesis
  proof (cases "y = Lf")
    case False
    obtain i1 where i1: "iter_push (ptr y) i = Inr i1" "at H (Fr a c v d z # fs) y i1" using at_push[OF assms False] .
    obtain i' gs a' c' v' y' where r: "iter_down (\<not> d) H i1 = Some (Inr i')" "at H gs (Nd a' c' v' (two (\<not> d) Lf y')) i'"
      "walk d y @ beyond d fs = v' # walk d y' @ beyond d gs"
      using iter_down_ok[OF i1(2), of "\<not> d"] by auto
    have "rbtree_iter_move d i H = Some (Inr (v', i'))"
      using n False i1(1) r(1,2) at_node[OF r(2)] by (simp add: rbtree_iter_move_def found_value_def at_simps)
    moreover have "at H gs (Nd a' c' v' (two d y' Lf)) i'" using r(2) by (simp add: two_swap)
    ultimately show ?thesis using r(3) by simp blast
  next
    case True
    have m: "rbtree_iter_move d i H = bindO (Some (iter_up d H i (length fs))) (\<lambda>i. bindO (Some (found_value H (inode i))) (\<lambda>v. Some (Inr (v, i))))"
      using n True by (simp add: rbtree_iter_move_def)
    have w: "on_way H fs (Nd a c v (two d y z)) i" using assms by (simp add: at_def)
    show ?thesis
    proof (cases "beyond d fs = []")
      case e: True
      then show ?thesis using iter_up_ok[OF w, of d] True unfolding m by (simp add: found_value_def)
    next
      case False
      then obtain i' gs a' c' v' y' z' where r: "iter_up d H i (length fs) = Inr i'" "at H gs (Nd a' c' v' (two d y' z')) i'"
        "beyond d fs = v' # walk d y' @ beyond d gs" using iter_up_ok[OF w, of d] by auto
      then have "rbtree_iter_move d i H = Some (Inr (v', i'))" using at_node[OF r(2)] unfolding m by (simp add: found_value_def at_simps)
      then show ?thesis using r(2,3) True by simp blast
    qed
  qed
qed

text \<open>\<open>n\<close> calls in a row, with the values they return.\<close>

fun iter_values :: "bool \<Rightarrow> nat \<Rightarrow> rbiter \<Rightarrow> rbheap \<Rightarrow> (nat list \<times> rbiter) res option" where
  "iter_values d 0 i H = Some (Inr ([], i))"
| "iter_values d (Suc n) i H =
     bindO (rbtree_iter_move d i H) (\<lambda>(v, i). bindO (iter_values d n i H) (\<lambda>(vs, i). Some (Inr (v # vs, i))))"

lemma iter_values_ok:
  "at H fs (Nd a c v (two d y z)) i \<Longrightarrow> walk d y @ beyond d fs = ws \<Longrightarrow>
     \<exists>i' j. iter_values d (length ws) i H = Some (Inr (ws, i')) \<and> rbtree_iter_move d i' H = Some (Inr (0, j)) \<and> inode j = None"
proof (induction ws arbitrary: fs a c v y z i)
  case Nil
  then show ?case using iter_move_ok[OF Nil.prems(1)] by auto
next
  case (Cons w ws)
  obtain i' gs a' c' v' y' z' where r: "rbtree_iter_move d i H = Some (Inr (v', i'))" "at H gs (Nd a' c' v' (two d y' z')) i'"
    "w # ws = v' # walk d y' @ beyond d gs" using iter_move_ok[OF Cons.prems(1)] Cons.prems(2) by auto
  then show ?case using Cons.IH[OF r(2)] by auto
qed

lemma iter_start_ok:
  assumes t: "rb_holds t H A vs" "vs \<noteq> []" "length vs < 2 ^ 32" and i: "length (path i) = RBTREE_ITER_MAX_HEIGHT"
  obtains i' gs a c v y where "rbtree_iter_start (\<not> d) t (Some i) H = Some (Inr (v, Some i'))" "at H gs (Nd a c v (two d y Lf)) i'"
    "(if d then vs else rev vs) = v # walk d y @ beyond d gs"
proof -
  obtain T where T: "holds H T" "dist T" "ptr T = root t" "inorder T = vs" "invh T" "invc T" "\<not> is_red T"
    using t(1) by (auto simp: rb_holds_def)
  have "height T \<le> 64" using height_64[OF T(5-7)] t(3) T(4) length_inorder[of T] by simp
  moreover have "T \<noteq> Lf" using T(4) t(2) by auto
  ultimately have "at H [] T (i\<lparr>inode := root t, top := 0\<rparr>)"
    using T(1-3) i by (simp add: at_simps RBTREE_ITER_MAX_HEIGHT_def)
  from iter_down_ok[OF this, of "\<not> d"]
  obtain i' gs a c v y where r: "iter_down (\<not> d) H (i\<lparr>inode := root t, top := 0\<rparr>) = Some (Inr i')"
    "at H gs (Nd a c v (two (\<not> d) Lf y)) i'" "walk d T = v # walk d y @ beyond d gs" by auto
  have "root t \<noteq> None" using T(3) \<open>T \<noteq> Lf\<close> ptr_None[of T] by metis
  then have "rbtree_iter_start (\<not> d) t (Some i) H = Some (Inr (v, Some i'))"
    using r(1,2) at_node[OF r(2)] by (auto simp: rbtree_iter_start_def Let_def found_value_def at_simps)
  then show thesis using that r(2,3) T(4) by (auto simp: two_swap walk_def)
qed

section \<open>The self-test\<close>

primrec root_value :: "ptree \<Rightarrow> nat option" where
  "root_value Lf = None"
| "root_value (Nd a c v k) = Some v"

text \<open>Every node compares with its children as the self-test asks for.\<close>

primrec locally_ordered :: "(nat \<Rightarrow> nat \<Rightarrow> int) \<Rightarrow> ptree \<Rightarrow> bool" where
  "locally_ordered cmpf Lf = True"
| "locally_ordered cmpf (Nd a c v k) \<longleftrightarrow>
     (case root_value (k False) of None \<Rightarrow> True | Some u \<Rightarrow> cmpf u v < 0) \<and>
     (case root_value (k True) of None \<Rightarrow> True | Some u \<Rightarrow> 0 < cmpf u v) \<and>
     locally_ordered cmpf (k False) \<and> locally_ordered cmpf (k True)"

lemma child_violates_ok:
  "holds H x \<Longrightarrow> child_violates bad cmpf H (ptr x) v =
     Inr (case root_value x of None \<Rightarrow> False | Some u \<Rightarrow> bad (cmpf u v))"
  by (cases x) (auto simp: child_violates_def holds.simps)

lemma tree_test_eq:
  "holds H x \<Longrightarrow> rbtree_tree_test cmpf H (ptr x) =
     Some (Inr (if invc x \<and> invh x \<and> locally_ordered cmpf x then int (bh x) + 1 else 0))"
proof (induction x)
  case Lf
  then show ?case by (subst rbtree_tree_test.simps) simp
next
  case (Nd a c v k)
  have h: "H a = Some (cell c v (\<lambda>d. ptr (k d)))" "holds H (k False)" "holds H (k True)"
    using Nd.prems by (auto simp: holds.simps)
  note IH = Nd.IH[OF rangeI h(2)] Nd.IH[OF rangeI h(3)]
  have step: "rbtree_tree_test cmpf H (ptr (Nd a c v k)) =
      (if c \<and> (is_red (k False) \<or> is_red (k True)) then Some (Inr 0)
       else Some (test_node cmpf H (cell c v (\<lambda>d. ptr (k d)))
          (if invc (k False) \<and> invh (k False) \<and> locally_ordered cmpf (k False) then int (bh (k False)) + 1 else 0)
          (if invc (k True) \<and> invh (k True) \<and> locally_ordered cmpf (k True) then int (bh (k True)) + 1 else 0)))"
    using h IH by (subst rbtree_tree_test.simps) auto
  show ?case unfolding step
    using child_violates_ok[OF h(2)] child_violates_ok[OF h(3)]
    by (auto simp: test_node_def invc.simps invh.simps bh.simps split: option.splits)
qed

lemma root_value_in: "root_value x = Some u \<Longrightarrow> u \<in> set (inorder x)"
  by (cases x) (auto simp: inorder.simps)

lemma ascending_local: "key_order cmpf \<Longrightarrow> ascending cmpf (inorder x) \<Longrightarrow> locally_ordered cmpf x"
proof (induction x)
  case (Nd a c v k)
  have s: "ascending cmpf (inorder (k False))" "ascending cmpf (inorder (k True))"
    "\<And>u. u \<in> set (inorder (k False)) \<Longrightarrow> cmpf u v < 0" "\<And>u. u \<in> set (inorder (k True)) \<Longrightarrow> cmpf v u < 0"
    using Nd.prems(2) by (auto simp: ascending_def inorder.simps sorted_wrt_append)
  have "locally_ordered cmpf (k False)" "locally_ordered cmpf (k True)" using Nd s by auto
  then show ?case using s(3,4) root_value_in key_order.cmp_flip[OF Nd.prems(1)] by (auto split: option.splits)
qed simp

end
