(* ===== verification/Rbtree_Set.thy ===== *)
theory Rbtree_Set
  imports Rbtree_Iter
begin

text \<open>
  The contract of an ordered set of values, as an interface, and what holds of every sequence of calls;
  the red-black tree provides it for every comparison that orders the values, in particular for the
  default one on pointers. The properties of the tree follow.
\<close>

section \<open>The interface\<close>

datatype set_cmd = Add nat nat | Del nat

text \<open>The calls of a client in order, what they mean for the values, and the new nodes they use.\<close>

fun exec_all :: "(nat \<Rightarrow> nat \<Rightarrow> 's \<Rightarrow> 's res option) \<Rightarrow> (nat \<Rightarrow> 's \<Rightarrow> 's res option) \<Rightarrow> set_cmd list \<Rightarrow> 's \<Rightarrow> 's res option" where
  "exec_all add del [] s = Some (Inr s)"
| "exec_all add del (Add a v # cs) s = bindO (add a v s) (exec_all add del cs)"
| "exec_all add del (Del v # cs) s = bindO (del v s) (exec_all add del cs)"

fun effect :: "(nat \<Rightarrow> nat \<Rightarrow> int) \<Rightarrow> set_cmd list \<Rightarrow> nat list \<Rightarrow> nat list" where
  "effect cmpf [] vs = vs"
| "effect cmpf (Add a v # cs) vs = effect cmpf cs (ins_list cmpf v vs)"
| "effect cmpf (Del v # cs) vs = effect cmpf cs (del_list cmpf v vs)"

fun fresh_nodes :: "set_cmd list \<Rightarrow> nat list" where
  "fresh_nodes [] = []"
| "fresh_nodes (Add a v # cs) = a # fresh_nodes cs"
| "fresh_nodes (Del v # cs) = fresh_nodes cs"

locale ordered_set = key_order cmpf
  for cmpf :: "nat \<Rightarrow> nat \<Rightarrow> int" +
  fixes add :: "nat \<Rightarrow> nat \<Rightarrow> 's \<Rightarrow> 's res option"
    and del :: "nat \<Rightarrow> 's \<Rightarrow> 's res option"
    and look :: "nat \<Rightarrow> 's \<Rightarrow> nat res option"
    and repr :: "'s \<Rightarrow> nat list \<Rightarrow> bool"
    and fresh :: "nat \<Rightarrow> 's \<Rightarrow> bool"
  assumes add_law: "repr s vs \<Longrightarrow> fresh a s \<Longrightarrow> \<exists>s'. add a v s = Some (Inr s') \<and> repr s' (ins_list cmpf v vs) \<and>
      (\<forall>b. fresh b s \<longrightarrow> b \<noteq> a \<longrightarrow> fresh b s')"
    and del_law: "repr s vs \<Longrightarrow> \<exists>s'. del v s = Some (Inr s') \<and> repr s' (del_list cmpf v vs) \<and> (\<forall>b. fresh b s \<longrightarrow> fresh b s')"
    and look_law: "repr s vs \<Longrightarrow> look v s = Some (Inr (case find (\<lambda>u. cmpf u v = 0) vs of None \<Rightarrow> 0 | Some u \<Rightarrow> u))"
begin

lemma exec_refines:
  "repr s vs \<Longrightarrow> distinct (fresh_nodes cs) \<Longrightarrow> (\<And>a. a \<in> set (fresh_nodes cs) \<Longrightarrow> fresh a s) \<Longrightarrow>
     \<exists>s'. exec_all add del cs s = Some (Inr s') \<and> repr s' (effect cmpf cs vs)"
proof (induction cs arbitrary: s vs)
  case (Cons c cs)
  show ?case
  proof (cases c)
    case (Add a v)
    obtain s' where s': "add a v s = Some (Inr s')" "repr s' (ins_list cmpf v vs)" "\<forall>b. fresh b s \<longrightarrow> b \<noteq> a \<longrightarrow> fresh b s'"
      using add_law[of s vs a v] Cons.prems by (auto simp: Add)
    then show ?thesis using Cons.IH[OF s'(2)] Cons.prems by (auto simp: Add)
  next
    case (Del v)
    obtain s' where s': "del v s = Some (Inr s')" "repr s' (del_list cmpf v vs)" "\<forall>b. fresh b s \<longrightarrow> fresh b s'"
      using del_law[of s vs v] Cons.prems by (auto simp: Del)
    then show ?thesis using Cons.IH[OF s'(2)] Cons.prems by (auto simp: Del)
  qed
qed simp

text \<open>A value that was not there is found after its insertion and gone after its removal.\<close>

lemma add_look_del:
  assumes "repr s vs" "fresh a s" "\<not> (\<exists>u\<in>set vs. cmpf u v = 0)"
  shows "\<exists>s1 s2. add a v s = Some (Inr s1) \<and> look v s1 = Some (Inr v) \<and> del v s1 = Some (Inr s2) \<and> repr s2 vs \<and>
    look v s2 = Some (Inr 0)"
proof -
  obtain s1 where s1: "add a v s = Some (Inr s1)" "repr s1 (ins_list cmpf v vs)" using add_law[OF assms(1,2)] by blast
  obtain s2 where s2: "del v s1 = Some (Inr s2)" "repr s2 (del_list cmpf v (ins_list cmpf v vs))" using del_law[OF s1(2)] by blast
  have "find (\<lambda>u. cmpf u v = 0) (takeWhile (\<lambda>u. cmpf u v < 0) vs) = None"
    using assms(3) by (auto simp: find_None_iff dest: set_takeWhileD)
  then have "find (\<lambda>u. cmpf u v = 0) (ins_list cmpf v vs) = Some v" using assms(3) by (simp add: ins_list_def find_append)
  moreover have "find (\<lambda>u. cmpf u v = 0) vs = None" using assms(3) by (auto simp: find_None_iff)
  ultimately show ?thesis using s1 s2 look_law[OF s1(2), of v] look_law[OF s2(2), of v] del_ins[OF assms(3)] by simp
qed

end

section \<open>The red-black tree provides it\<close>

type_synonym rbstate = "rbtree \<times> rbheap"

text \<open>The calls on a tree, with the address 0 for the local variable \<open>head\<close>.\<close>

definition rb_result :: "(int \<times> rbtree option \<times> rbheap) res option \<Rightarrow> rbstate res option" where
  "rb_result r = bindO r (\<lambda>(i, t, H). case t of None \<Rightarrow> Some (Inl NullDeref) | Some t \<Rightarrow> Some (Inr (t, H)))"

definition rb_add :: "nat \<Rightarrow> nat \<Rightarrow> rbstate \<Rightarrow> rbstate res option" where
  "rb_add a v s = rb_result (rbtree_tree_insert 0 (Some a) (Some (fst s)) v (snd s))"

definition rb_del :: "nat \<Rightarrow> rbstate \<Rightarrow> rbstate res option" where
  "rb_del v s = rb_result (rbtree_tree_remove 0 (Some (fst s)) v (snd s))"

definition rb_look :: "nat \<Rightarrow> rbstate \<Rightarrow> nat res option" where
  "rb_look v s = rbtree_tree_find (Some (fst s)) v (snd s)"

definition rb_repr :: "(nat \<Rightarrow> nat \<Rightarrow> int) \<Rightarrow> rbstate \<Rightarrow> nat list \<Rightarrow> bool" where
  "rb_repr cmpf s vs \<longleftrightarrow> cmp (fst s) = cmpf \<and> (\<exists>A. 0 \<notin> A \<and> rb_holds (fst s) (snd s) A vs)"

definition rb_fresh :: "nat \<Rightarrow> rbstate \<Rightarrow> bool" where
  "rb_fresh a s \<longleftrightarrow> a \<noteq> 0 \<and> snd s a = None"

lemma holds_live: "holds H T \<Longrightarrow> a \<in> addrs T \<Longrightarrow> H a \<noteq> None"
  by (induction T) (auto simp: holds.simps addrs.simps)

lemma rb_live: "rb_holds t H A vs \<Longrightarrow> a \<in> A \<Longrightarrow> H a \<noteq> None"
  using holds_live by (auto simp: rb_holds_def)

lemma rb_del_ok:
  assumes ord: "key_order (cmp t)" and t: "rb_holds t H A vs" "0 \<notin> A"
  shows "\<exists>t' H' B. rb_del v (t, H) = Some (Inr (t', H')) \<and> cmp t' = cmp t \<and> rb_holds t' H' B (del_list (cmp t) v vs) \<and>
    B \<subseteq> A \<and> (\<forall>i. i \<notin> insert 0 A \<longrightarrow> H' i = H i)"
proof (cases "root t = None")
  case True
  then have "vs = []" using t(1) by (auto simp: rb_holds_def)
  then show ?thesis using t True
    by (auto simp: rb_del_def rb_result_def rbtree_tree_remove_def rbtree_tree_remove_with_cb_def del_list_def)
next
  case False
  show ?thesis
    by (rule rbtree_remove_ok[OF ord t(1) False t(2), of v]) (auto simp: rb_del_def rb_result_def)
qed

sublocale key_order \<subseteq> rbset: ordered_set cmpf rb_add rb_del rb_look "rb_repr cmpf" rb_fresh
proof unfold_locales
  fix s :: rbstate and vs a v
  assume s: "rb_repr cmpf s vs" "rb_fresh a s"
  obtain t H where tH: "s = (t, H)" by (cases s)
  obtain A where A: "cmp t = cmpf" "0 \<notin> A" "rb_holds t H A vs" using s(1) by (auto simp: rb_repr_def tH)
  have ord: "key_order (cmp t)" using A(1) key_order_axioms by simp
  have a: "a \<notin> A" "0 \<noteq> a" using s(2) rb_live[OF A(3), of a] by (auto simp: rb_fresh_def tH)
  show "\<exists>s'. rb_add a v s = Some (Inr s') \<and> rb_repr cmpf s' (ins_list cmpf v vs) \<and> (\<forall>b. rb_fresh b s \<longrightarrow> b \<noteq> a \<longrightarrow> rb_fresh b s')"
  proof (rule rbtree_insert_ok[OF ord A(3) a(1) A(2) a(2)])
    fix H' t' assume r: "rbtree_tree_insert 0 (Some a) (Some t) v H = Some (Inr (1, Some t', H'))" "cmp t' = cmp t"
      "rb_holds t' H' ((if \<exists>u\<in>set vs. cmp t u v = 0 then {} else {a}) \<union> A) (ins_list (cmp t) v vs)"
      "\<And>i. i \<notin> insert 0 (insert a A) \<Longrightarrow> H' i = H i"
    have "rb_fresh b (t', H')" if "rb_fresh b s" "b \<noteq> a" for b
      using that r(4)[of b] rb_live[OF A(3), of b] by (auto simp: rb_fresh_def tH)
    moreover have "rb_repr cmpf (t', H') (ins_list cmpf v vs)"
      unfolding rb_repr_def using r(2,3) A(1,2) a(2)
      by (intro conjI exI[of _ "(if \<exists>u\<in>set vs. cmp t u v = 0 then {} else {a}) \<union> A"]) auto
    ultimately show ?thesis using r(1) by (intro exI[of _ "(t', H')"]) (simp add: rb_add_def rb_result_def tH)
  qed
next
  fix s :: rbstate and vs v
  assume s: "rb_repr cmpf s vs"
  obtain t H where tH: "s = (t, H)" by (cases s)
  obtain A where A: "cmp t = cmpf" "0 \<notin> A" "rb_holds t H A vs" using s by (auto simp: rb_repr_def tH)
  have ord: "key_order (cmp t)" using A(1) key_order_axioms by simp
  obtain t' H' B where r: "rb_del v (t, H) = Some (Inr (t', H'))" "cmp t' = cmp t" "rb_holds t' H' B (del_list (cmp t) v vs)"
    "B \<subseteq> A" "\<forall>i. i \<notin> insert 0 A \<longrightarrow> H' i = H i" using rb_del_ok[OF ord A(3,2), of v] by blast
  have "rb_fresh b (t', H')" if "rb_fresh b s" for b
    using that r(5) rb_live[OF A(3), of b] by (auto simp: rb_fresh_def tH)
  then show "\<exists>s'. rb_del v s = Some (Inr s') \<and> rb_repr cmpf s' (del_list cmpf v vs) \<and> (\<forall>b. rb_fresh b s \<longrightarrow> rb_fresh b s')"
    using r A by (intro exI[of _ "(t', H')"]) (auto simp: rb_repr_def tH)
  show "rb_look v s = Some (Inr (case find (\<lambda>u. cmpf u v = 0) vs of None \<Rightarrow> 0 | Some u \<Rightarrow> u))"
    using rbtree_find_ok[OF ord A(3), of v] A(1) by (simp add: rb_look_def tH)
qed


section \<open>Deallocation\<close>

primrec spine :: "ptree \<Rightarrow> nat" where
  "spine Lf = 0"
| "spine (Nd a c v k) = Suc (spine (k True))"

lemma spine_nodes: "spine x \<le> nodes x"
  by (induction x) (auto simp: nodes.simps trans_le_add2)

lemma dealloc_round:
  assumes x: "holds H (Nd a c v k)" "dist (Nd a c v k)" "k False = Nd b e w l"
  obtains T H1 where "dealloc_loop cb (Some a) H = dealloc_loop cb (ptr T) H1" "holds H1 T" "dist T"
    "addrs T = addrs (Nd a c v k)" "nodes T = nodes (Nd a c v k)" "spine (Nd a c v k) < spine T" "T \<noteq> Lf"
    "\<And>i. i \<notin> addrs T \<Longrightarrow> H1 i = H i"
proof -
  let ?T = "Nd b e w (two False (l False) (Nd a c v (two False (l True) (k True))))"
  let ?H = "H(a \<mapsto> cell c v (two False (ptr (l True)) (ptr (k True))), b \<mapsto> cell e w (two False (ptr (l False)) (Some a)))"
  have l: "(\<lambda>d. ptr (k d))(False := x) = two False x (ptr (k True))" "(\<lambda>d. ptr (l d))(True := x) = two False (ptr (l False)) x" for x
    by (auto simp: two_def fun_eq_iff)
  have h: "H a = Some (cell c v (\<lambda>d. ptr (k d)))" "H b = Some (cell e w (\<lambda>d. ptr (l d)))" "a \<noteq> b"
    "ptr (k False) = Some b" using x by (auto simp: holds.simps dist.simps addrs.simps)
  have e: "(\<lambda>d. ptr (two False y z d)) = two False (ptr y) (ptr z)" for y z by (auto simp: two_def)
  show thesis
  proof (rule that[of ?T ?H])
    show "dealloc_loop cb (Some a) H = dealloc_loop cb (ptr ?T) ?H"
      using h by (subst dealloc_loop.simps) (simp add: l)
    show "holds ?H ?T" using x by (auto simp: holds.simps dist.simps addrs.simps e)
    show "dist ?T" "addrs ?T = addrs (Nd a c v k)" using x by (auto simp: dist.simps addrs.simps)
    show "nodes ?T = nodes (Nd a c v k)" using x by (simp add: nodes.simps)
    show "\<And>i. i \<notin> addrs ?T \<Longrightarrow> ?H i = H i" by (auto simp: addrs.simps)
  qed auto
qed

text \<open>Each round releases a node or moves one to the right spine.\<close>

lemma dealloc_loop_ok:
  "holds H x \<Longrightarrow> dist x \<Longrightarrow> (\<And>p H. cb p H = Inr H) \<Longrightarrow>
     dealloc_loop cb (ptr x) H = Some (Inr (\<lambda>i. if i \<in> addrs x then None else H i))"
proof (induction "2 * nodes x - spine x" arbitrary: x H rule: less_induct)
  case less
  show ?case
  proof (cases x)
    case Lf then show ?thesis by (subst dealloc_loop.simps) simp
  next
    case x: (Nd a c v k)
    note h = less.prems(1,2)[unfolded x]
    have s: "spine (k True) \<le> nodes (k True)" by (rule spine_nodes)
    show ?thesis
    proof (cases "k False")
      case Lf
      have "holds (H(a := None)) (k True)" "dist (k True)" using h by (auto simp: holds.simps dist.simps)
      then have "dealloc_loop cb (ptr (k True)) (H(a := None)) = Some (Inr (\<lambda>i. if i \<in> addrs (k True) then None else (H(a := None)) i))"
        using s by (intro less.hyps) (auto simp: x Lf nodes.simps less.prems(3))
      then show ?thesis using h
        by (subst dealloc_loop.simps) (auto simp: x Lf less.prems(3) free_rbnode_def fun_eq_iff holds.simps addrs.simps)
    next
      case (Nd b e w l)
      obtain T H1 where r: "dealloc_loop cb (ptr x) H = dealloc_loop cb (ptr T) H1" "holds H1 T" "dist T" "addrs T = addrs x"
        "nodes T = nodes x" "spine x < spine T" "\<And>i. i \<notin> addrs T \<Longrightarrow> H1 i = H i"
        by (rule dealloc_round[OF h Nd, of cb], rule that) (assumption | simp only: x ptr.simps)+
      have "dealloc_loop cb (ptr T) H1 = Some (Inr (\<lambda>i. if i \<in> addrs T then None else H1 i))"
        using r(2,3,5,6) spine_nodes[of T] by (intro less.hyps) (auto simp: less.prems(3))
      then show ?thesis using r(1,4,7) by (auto simp: fun_eq_iff)
    qed
  qed
qed

text \<open>A callback that releases the node, as the one of \<open>rbtree_tree_remove\<close> does, makes the loop release it twice.\<close>

lemma dealloc_default_cb:
  "holds H x \<Longrightarrow> dist x \<Longrightarrow> x \<noteq> Lf \<Longrightarrow> dealloc_loop (rbtree_tree_node_dealloc_cb (Some t)) (ptr x) H = Some (Inl OutOfBounds)"
proof (induction "2 * nodes x - spine x" arbitrary: x H rule: less_induct)
  case less
  obtain a c v k where x: "x = Nd a c v k" using less.prems(3) by (cases x) auto
  note h = less.prems(1,2)[unfolded x]
  let ?cb = "rbtree_tree_node_dealloc_cb (Some t)"
  show ?case
  proof (cases "k False")
    case Lf
    then show ?thesis using h
      by (subst dealloc_loop.simps) (auto simp: x rbtree_tree_node_dealloc_cb_def rbtree_node_dealloc_def free_rbnode_def holds.simps)
  next
    case (Nd b e w l)
    obtain T H1 where r: "dealloc_loop ?cb (ptr x) H = dealloc_loop ?cb (ptr T) H1" "holds H1 T" "dist T"
      "nodes T = nodes x" "spine x < spine T" "T \<noteq> Lf"
      by (rule dealloc_round[OF h Nd, of ?cb], rule that) (assumption | simp only: x ptr.simps)+
    then show ?thesis using spine_nodes[of T] less.hyps[of T H1] by auto
  qed
qed


context key_order
begin

lemmas rb_exec_refines = rbset.exec_refines
lemmas rb_add_look_del = rbset.add_look_del

end

end
