(* ===== verification/Rbtree_Props.thy ===== *)
theory Rbtree_Props
  imports Rbtree_Set
begin

text \<open>
  The properties of the red-black tree, for every comparison that orders the values, each with an
  instance on a tree of one node under the default comparison of pointers.
\<close>

definition one_tree :: rbtree where
  "one_tree = \<lparr>root = Some 10, cmp = rbtree_tree_node_cmp_ptr_cb, rbsize = 1\<rparr>"

definition one_heap :: rbheap where
  "one_heap = [10 \<mapsto> \<lparr>red = False, link = (\<lambda>_. None), rbvalue = 5\<rparr>]"

lemma one_holds: "rb_holds one_tree one_heap {10} [5]"
  unfolding rb_holds_def
  by (intro conjI exI[of _ "Nd 10 False 5 (two False Lf Lf)"])
     (auto simp: one_tree_def one_heap_def cell_def two_def ascending_def holds.simps dist.simps addrs.simps
        inorder.simps invh.simps invc.simps bh.simps)

lemma one_repr: "rb_repr rbtree_tree_node_cmp_ptr_cb (one_tree, one_heap) [5]"
  unfolding rb_repr_def using one_holds by (intro conjI exI[of _ "{10}"]) (simp_all add: one_tree_def)

lemma one_order: "key_order (cmp one_tree)"
  using ptr_cb.key_order_axioms by (simp add: one_tree_def)

text \<open>
  C11. Insertion ends without a fault and returns 1. The tree then holds the ascending list of its values
  with the new one in its place; a value that compares equal is left as it is and the new node is
  not linked. The result is a red-black tree again, the counter \<open>size\<close> is incremented in both cases,
  and no other node of the store changes.
\<close>

theorem rbtree_insert_correct:
  assumes "key_order (cmp t)" "rb_holds t H A vs" "node \<notin> A" "head \<notin> A" "head \<noteq> node"
  shows "\<exists>t' H'. rbtree_tree_insert head (Some node) (Some t) v H = Some (Inr (1, Some t', H')) \<and>
    cmp t' = cmp t \<and> rbsize t' = rbsize t + 1 \<and>
    rb_holds t' H' ((if \<exists>u\<in>set vs. cmp t u v = 0 then {} else {node}) \<union> A) (ins_list (cmp t) v vs) \<and>
    (\<forall>i. i \<notin> insert head (insert node A) \<longrightarrow> H' i = H i)"
  by (rule rbtree_insert_ok[OF assms, of v]) blast

theorem rbtree_insert_correct_witness:
  "\<exists>t' H'. rbtree_tree_insert 0 (Some 20) (Some one_tree) 7 one_heap = Some (Inr (1, Some t', H')) \<and>
     rb_holds t' H' {10, 20} [5, 7]"
proof -
  have "ins_list (cmp one_tree) 7 [5] = [5, 7]" by (simp add: ins_list_def one_tree_def rbtree_tree_node_cmp_ptr_cb_def)
  moreover have "\<not> (\<exists>u\<in>set [5]. cmp one_tree u 7 = 0)" by (simp add: one_tree_def rbtree_tree_node_cmp_ptr_cb_def)
  ultimately show ?thesis using rbtree_insert_correct[OF one_order one_holds, of 20 0 7] by auto
qed

text \<open>
  C12. Removal ends without a fault and returns 1, whether the value is there or not. The tree then holds
  the ascending list of its values without those that compare equal to the argument, is a red-black
  tree again, and the store has lost exactly the node that left the tree. The counter \<open>size\<close> of a
  tree that is not empty is decremented, also when nothing was removed.
\<close>

theorem rbtree_remove_correct:
  assumes "key_order (cmp t)" "rb_holds t H A vs" "head \<notin> A"
  shows "\<exists>t' H' B. rbtree_tree_remove head (Some t) v H = Some (Inr (1, Some t', H')) \<and>
    cmp t' = cmp t \<and> rbsize t' = (if vs = [] then rbsize t else rbsize t - 1) \<and>
    rb_holds t' H' B (del_list (cmp t) v vs) \<and> B \<subseteq> A \<and> (\<forall>i. i \<in> A - B \<longrightarrow> H' i = None) \<and>
    (\<forall>i. i \<notin> insert head A \<longrightarrow> H' i = H i)"
proof (cases "root t = None")
  case True
  then have "vs = []" using assms(2) by (auto simp: rb_holds_def)
  then show ?thesis using assms True by (auto simp: rbtree_tree_remove_def rbtree_tree_remove_with_cb_def del_list_def)
next
  case False
  then have "A \<noteq> {}" using assms(2) ptr_Some by (fastforce simp: rb_holds_def)
  then have "vs \<noteq> []" using rb_holds_finite[OF assms(2)] by auto
  show ?thesis
    by (rule rbtree_remove_ok[OF assms(1,2) False assms(3), of v]) (use \<open>vs \<noteq> []\<close> in auto)
qed

theorem rbtree_remove_correct_witness:
  "\<exists>t' H'. rbtree_tree_remove 0 (Some one_tree) 5 one_heap = Some (Inr (1, Some t', H')) \<and> rb_holds t' H' {} [] \<and> H' 10 = None"
proof -
  have "del_list (cmp one_tree) 5 [5] = []" by (simp add: del_list_def one_tree_def rbtree_tree_node_cmp_ptr_cb_def)
  then obtain t' H' B where r: "rbtree_tree_remove 0 (Some one_tree) 5 one_heap = Some (Inr (1, Some t', H'))"
    "rb_holds t' H' B []" "\<forall>i. i \<in> {10} - B \<longrightarrow> H' i = None"
    using rbtree_remove_correct[OF one_order one_holds, of 0 5] by auto
  then have "B = {}" using rb_holds_finite[OF r(2)] by auto
  then show ?thesis using r by auto
qed

text \<open>
  C13. Every sequence of insertions and removals, with fresh nodes, runs to its end without a fault and
  implements the same sequence on the ascending list of values.
\<close>

theorem rbtree_calls_refine:
  assumes "key_order cmpf" "rb_repr cmpf s vs" "distinct (fresh_nodes cs)" "list_all (\<lambda>a. rb_fresh a s) (fresh_nodes cs)"
  shows "\<exists>s'. exec_all rb_add rb_del cs s = Some (Inr s') \<and> rb_repr cmpf s' (effect cmpf cs vs)"
  using key_order.rb_exec_refines[OF assms(1-3)] assms(4) by (simp add: list_all_iff)

theorem rbtree_calls_refine_witness:
  "\<exists>s'. exec_all rb_add rb_del [Add 20 7, Add 30 3, Del 5, Add 40 7] (one_tree, one_heap) = Some (Inr s') \<and>
     rb_repr rbtree_tree_node_cmp_ptr_cb s' [3, 7]"
proof -
  have "effect rbtree_tree_node_cmp_ptr_cb [Add 20 7, Add 30 3, Del 5, Add 40 7] [5] = [3, 7]"
    by (simp add: ins_list_def del_list_def rbtree_tree_node_cmp_ptr_cb_def)
  then show ?thesis
    using rbtree_calls_refine[OF ptr_cb.key_order_axioms one_repr, of "[Add 20 7, Add 30 3, Del 5, Add 40 7]"]
    by (simp add: rb_fresh_def one_heap_def)
qed


text \<open>
  A value that the tree does not have is found after its insertion and no longer found after its
  removal, and the tree then has the values it had before.
\<close>

theorem rbtree_insert_find_remove:
  assumes "key_order cmpf" "rb_repr cmpf s vs" "rb_fresh a s" "find (\<lambda>u. cmpf u v = 0) vs = None"
  shows "\<exists>s1 s2. rb_add a v s = Some (Inr s1) \<and> rb_look v s1 = Some (Inr v) \<and> rb_del v s1 = Some (Inr s2) \<and>
    rb_repr cmpf s2 vs \<and> rb_look v s2 = Some (Inr 0)"
  using key_order.rb_add_look_del[OF assms(1-3), of v] assms(4) by (simp add: find_None_iff)

theorem rbtree_insert_find_remove_witness:
  "\<exists>s1 s2. rb_add 20 7 (one_tree, one_heap) = Some (Inr s1) \<and> rb_look 7 s1 = Some (Inr 7) \<and>
     rb_del 7 s1 = Some (Inr s2) \<and> rb_repr rbtree_tree_node_cmp_ptr_cb s2 [5] \<and> rb_look 7 s2 = Some (Inr 0)"
  using rbtree_insert_find_remove[OF ptr_cb.key_order_axioms one_repr, of 20 7]
  by (simp add: rb_fresh_def one_heap_def rbtree_tree_node_cmp_ptr_cb_def)

text \<open>
  C23. An iterator visits every value once: from \<open>rbtree_iter_first\<close> on, the calls of \<open>rbtree_iter_next\<close> return the
  values in ascending order, from \<open>rbtree_iter_last\<close> on those of \<open>rbtree_iter_prev\<close> in descending order, and the
  call after the last value returns \<open>NULL\<close>. A tree of fewer than \<open>2 ^ 32\<close> values is never higher than the
  64 entries of the path, so that no call writes beyond it.
\<close>

theorem rbtree_iter_visits:
  assumes "rb_holds t H A vs" "vs \<noteq> []" "length vs < 2 ^ 32" "length (path i) = RBTREE_ITER_MAX_HEIGHT"
  shows "(\<exists>i1 i2 j. rbtree_iter_first t (Some i) H = Some (Inr (hd vs, Some i1)) \<and>
      iter_values True (length vs - 1) i1 H = Some (Inr (tl vs, i2)) \<and>
      rbtree_iter_next i2 H = Some (Inr (0, j)) \<and> inode j = None) \<and>
    (\<exists>i1 i2 j. rbtree_iter_last t (Some i) H = Some (Inr (last vs, Some i1)) \<and>
      iter_values False (length vs - 1) i1 H = Some (Inr (rev (butlast vs), i2)) \<and>
      rbtree_iter_prev i2 H = Some (Inr (0, j)) \<and> inode j = None)"
proof -
  have walk: "\<exists>i1 i2 j. rbtree_iter_start (\<not> d) t (Some i) H = Some (Inr (hd ws, Some i1)) \<and>
      iter_values d (length ws - 1) i1 H = Some (Inr (tl ws, i2)) \<and>
      rbtree_iter_move d i2 H = Some (Inr (0, j)) \<and> inode j = None"
    if "ws = (if d then vs else rev vs)" for d ws
  proof (rule iter_start_ok[OF assms, of d])
    fix i' gs a c v y
    assume r: "rbtree_iter_start (\<not> d) t (Some i) H = Some (Inr (v, Some i'))" "at H gs (Nd a c v (two d y Lf)) i'"
      "(if d then vs else rev vs) = v # walk d y @ beyond d gs"
    show ?thesis using iter_values_ok[OF r(2) refl] r(1,3) that by auto
  qed
  have "tl (rev vs) = rev (butlast vs)" using assms(2) by (metis butlast_rev rev_swap)
  then show ?thesis using walk[of vs True] walk[of "rev vs" False] assms(2)
    by (simp add: rbtree_iter_first_def rbtree_iter_last_def rbtree_iter_next_def rbtree_iter_prev_def hd_rev)
qed

definition start_iter :: rbiter where
  "start_iter = \<lparr>inode = None, path = replicate RBTREE_ITER_MAX_HEIGHT None, top = 0\<rparr>"

theorem rbtree_iter_visits_witness:
  "\<exists>i1 j. rbtree_iter_first one_tree (Some start_iter) one_heap = Some (Inr (5, Some i1)) \<and>
     rbtree_iter_next i1 one_heap = Some (Inr (0, j)) \<and> inode j = None"
  using rbtree_iter_visits[OF one_holds, of start_iter] by (auto simp: start_iter_def)

text \<open>
  The self-test decides the structure it is written for: on any binary tree in the store, balanced or
  not, it ends and returns the black height plus one when no red node has a red child, all paths have
  the same number of black nodes and every node compares with its children as it should; otherwise it
  returns 0. So it accepts every tree that the operations build.
\<close>

theorem rbtree_test_decides:
  assumes "key_order cmpf" "holds H x"
  shows "rbtree_tree_test cmpf H (ptr x) =
      Some (Inr (if invc x \<and> invh x \<and> locally_ordered cmpf x then int (bh x) + 1 else 0)) \<and>
    (invc x \<and> invh x \<and> ascending cmpf (inorder x) \<longrightarrow> rbtree_tree_test cmpf H (ptr x) = Some (Inr (int (bh x) + 1)))"
  using tree_test_eq[OF assms(2), of cmpf] ascending_local[OF assms(1), of x] by auto

theorem rbtree_test_decides_witness:
  "rbtree_tree_test rbtree_tree_node_cmp_ptr_cb one_heap (Some 10) = Some (Inr 2)"
proof -
  have "holds one_heap (Nd 10 False 5 (two False Lf Lf))" by (auto simp: one_heap_def cell_def two_def holds.simps)
  from rbtree_test_decides[OF ptr_cb.key_order_axioms this] show ?thesis
    by (simp add: two_def invc.simps invh.simps bh.simps inorder.simps ascending_def)
qed

text \<open>
  \<open>rbtree_tree_dealloc\<close> with a callback that leaves the store alone ends and releases exactly the nodes of
  the tree, each once; with the default callback of the module, which releases the node itself, it
  releases a node a second time.
\<close>

theorem rbtree_dealloc_releases:
  assumes "rb_holds t H A vs"
  shows "rbtree_tree_dealloc (Some t) (Some (\<lambda>_ _. Inr)) H = Some (Inr (\<lambda>i. if i \<in> A then None else H i)) \<and>
    (vs \<noteq> [] \<longrightarrow> rbtree_tree_dealloc (Some t) (Some rbtree_tree_node_dealloc_cb) H = Some (Inl OutOfBounds))"
proof -
  obtain T where T: "holds H T" "dist T" "ptr T = root t" "addrs T = A" "inorder T = vs" using assms by (auto simp: rb_holds_def)
  have "T \<noteq> Lf" if "vs \<noteq> []" using T(5) that by auto
  then show ?thesis using dealloc_loop_ok[OF T(1,2), of "\<lambda>_. Inr"] dealloc_default_cb[OF T(1,2), of t] T(3,4)
    by (simp add: rbtree_tree_dealloc_def)
qed

theorem rbtree_dealloc_releases_witness:
  "rbtree_tree_dealloc (Some one_tree) (Some (\<lambda>_ _. Inr)) one_heap = Some (Inr (\<lambda>_. None)) \<and>
   rbtree_tree_dealloc (Some one_tree) (Some rbtree_tree_node_dealloc_cb) one_heap = Some (Inl OutOfBounds)"
proof -
  have "(\<lambda>i. if i \<in> {10} then None else one_heap i) = (\<lambda>_. None)" by (auto simp: one_heap_def)
  then show ?thesis using rbtree_dealloc_releases[OF one_holds] by simp
qed

end
