(* ===== verification/Libgen.thy ===== *)
theory Libgen
  imports Prelude
begin

text \<open>
  Path names (\<open>libc/libgen.c\<close>). A string that is copied and compared whole is the list of its
  characters before the terminator; a copy into a buffer that is too short is a fault. The result of
  \<open>dirname\<close> is a static buffer that every caller compares before the next call.
\<close>

definition PATH_MAX :: nat where "PATH_MAX = 4096"
definition NAME_MAX :: nat where "NAME_MAX = 255"

text \<open>\<open>strcpy\<close> into a buffer of \<open>n\<close> characters.\<close>

definition copy_into :: "nat \<Rightarrow> string \<Rightarrow> string res" where
  "copy_into n s = (if length s < n then Inr s else Inl OutOfBounds)"

text \<open>The positions that \<open>memchr\<close> and \<open>strrchr\<close> return, relative to the start.\<close>

fun first_pos :: "char \<Rightarrow> string \<Rightarrow> nat option" where
  "first_pos c [] = None"
| "first_pos c (x # xs) = (if x = c then Some 0 else map_option Suc (first_pos c xs))"

fun last_pos :: "char \<Rightarrow> string \<Rightarrow> nat option" where
  "last_pos c [] = None"
| "last_pos c (x # xs) =
     (case last_pos c xs of Some k \<Rightarrow> Some (Suc k) | None \<Rightarrow> if x = c then Some 0 else None)"

text \<open>The result is the component that was copied to \<open>out\<close> and the rest of the path; \<open>mx\<close> is unsigned.\<close>

definition parse_path :: "string \<Rightarrow> char \<Rightarrow> u32 \<Rightarrow> (string \<times> string) option" where
  "parse_path cur sep mx =
     (case cur of
        [] \<Rightarrow> None
      | c # cs \<Rightarrow> let w = takeWhile (\<lambda>x. x \<noteq> sep) (take (unat (mx - 1)) cs) in Some (c # w, drop (length w) cs))"

definition dirname :: "string option \<Rightarrow> string res" where
  "dirname path =
     (case path of
        None \<Rightarrow> Inr ''.''
      | Some path \<Rightarrow>
          bindR (copy_into PATH_MAX path) (\<lambda>s.
          let last_slash = last_pos (CHR ''/'') s;
              last_slash =
                (if last_slash = Some 0 then Some 1
                 else case last_slash of
                        Some k \<Rightarrow> if k + 1 = length s then first_pos (CHR ''/'') (take k s) else Some k
                      | None \<Rightarrow> None)
          in case last_slash of Some k \<Rightarrow> Inr (take k s) | None \<Rightarrow> Inr ''.''))"

definition basename :: "string \<Rightarrow> string" where
  "basename path = (case last_pos (CHR ''/'') path of Some k \<Rightarrow> drop (k + 1) path | None \<Rightarrow> path)"

section \<open>Splitting a path\<close>

lemma last_pos_None: "last_pos c s = None \<longleftrightarrow> c \<notin> set s"
  by (induction s) (auto split: option.splits)

lemma last_pos_append: "c \<notin> set b \<Longrightarrow> last_pos c (d @ c # b) = Some (length d)"
  by (induction d) (auto simp: last_pos_None split: option.splits)

lemma first_pos_less: "first_pos c s = Some k \<Longrightarrow> k < length s"
  by (induction s arbitrary: k) (auto split: if_splits)

lemma dirname_plain:
  assumes "CHR ''/'' \<notin> set b" "b \<noteq> []" "length d + length b + 1 < PATH_MAX"
  shows "dirname (Some (d @ ''/'' @ b)) = Inr (if d = [] then ''/'' else d)"
  using assms by (simp add: dirname_def copy_into_def last_pos_append)

lemma dirname_no_slash: "CHR ''/'' \<notin> set s \<Longrightarrow> length s < PATH_MAX \<Longrightarrow> dirname (Some s) = Inr ''.''"
  using last_pos_None[of "CHR ''/''" s] by (simp add: dirname_def copy_into_def)

lemma basename_plain: "CHR ''/'' \<notin> set b \<Longrightarrow> basename (d @ ''/'' @ b) = b"
  by (simp add: basename_def last_pos_append)

lemma slash_split:
  assumes "CHR ''/'' \<in> set p"
  obtains d b where "p = d @ ''/'' @ b" "CHR ''/'' \<notin> set b"
  using split_list_last[OF assms] by auto

lemma dirname_total: "length p < PATH_MAX \<Longrightarrow> \<exists>d. dirname (Some p) = Inr d"
  by (auto simp: dirname_def copy_into_def Let_def split: option.splits)

text \<open>
  A path that does not end in a slash is its directory, a slash and its base name: \<open>dirname\<close> and
  \<open>basename\<close> split it at its last slash (the directory of a path below the root is the root itself,
  that of a path without slash is a dot). With a slash at the end, \<open>dirname\<close> goes back to the first
  slash instead of the last but one.
\<close>

theorem dirname_basename_split:
  assumes "length p + 1 < PATH_MAX" "p \<noteq> []" "last p \<noteq> CHR ''/''"
  shows "\<exists>d b. basename p = b \<and> CHR ''/'' \<notin> set b \<and> b \<noteq> [] \<and>
    (p = b \<and> dirname (Some p) = Inr ''.'' \<or>
     p = d @ ''/'' @ b \<and> dirname (Some p) = Inr (if d = [] then ''/'' else d)) \<and>
    dirname (Some (p @ ''/'')) = Inr (case first_pos (CHR ''/'') p of None \<Rightarrow> ''.'' | Some k \<Rightarrow> take k p)"
proof -
  have e: "dirname (Some (p @ ''/'')) = Inr (case first_pos (CHR ''/'') p of None \<Rightarrow> ''.'' | Some k \<Rightarrow> take k p)"
    using assms(1,2) last_pos_append[of "CHR ''/''" "[]" p] first_pos_less[of "CHR ''/''" p]
    by (auto simp: dirname_def copy_into_def split: option.splits)
  show ?thesis
  proof (cases "CHR ''/'' \<in> set p")
    case True
    then obtain d b where p: "p = d @ ''/'' @ b" "CHR ''/'' \<notin> set b" by (rule slash_split)
    then have "b \<noteq> []" using assms(3) by auto
    then show ?thesis using e dirname_plain[of b d] basename_plain[of b d] p assms(1) by auto
  next
    case False
    then have "basename p = p" using last_pos_None[of "CHR ''/''" p] by (simp add: basename_def)
    then show ?thesis using e dirname_no_slash[OF False] False assms by auto
  qed
qed

theorem dirname_basename_split_witness:
  "(\<exists>d. ''/home/a'' = d @ ''/'' @ basename ''/home/a'' \<and> dirname (Some ''/home/a'') = Inr d) \<and>
   dirname (Some ''/home/a/'') = Inr []"
  using dirname_basename_split[of "''/home/a''"]
  by (auto simp: PATH_MAX_def basename_def)

end
