(* ===== verification/Bitops.thy ===== *)
theory Bitops
  imports Prelude
begin

text \<open>
  The functions on flag words of \<open>misc/bitops.c\<close>, and how they read and change the bits of a word.
\<close>

definition find_first_bit :: "u16 \<Rightarrow> int" where
  "find_first_bit irq_mask =
     (if irq_mask = 0 then 0
      else case find (\<lambda>i. bit irq_mask i) [0..<8] of Some i \<Rightarrow> int i | None \<Rightarrow> 8)"

definition has_flag :: "u32 \<Rightarrow> u32 \<Rightarrow> bool" where
  "has_flag flags flag \<longleftrightarrow> flags AND flag \<noteq> 0"

definition set_flag :: "u32 \<Rightarrow> u32 \<Rightarrow> u32" where
  "set_flag flags flag = flags OR flag"

definition clear_flag :: "u32 \<Rightarrow> u32 \<Rightarrow> u32" where
  "clear_flag flags flag = flags AND NOT flag"

section \<open>Flags as bits\<close>

lemma has_flag_bit: "has_flag f (2 ^ n) \<longleftrightarrow> bit f n"
  by (simp add: has_flag_def and_exp_eq_0_iff_not_bit)

lemma has_flag_or: "has_flag f (a OR b) \<longleftrightarrow> has_flag f a \<or> has_flag f b"
  by (auto simp: has_flag_def bit_eq_iff bit_simps)

lemma bit_set_flag: "n < 32 \<Longrightarrow> bit (set_flag f (2 ^ n)) m \<longleftrightarrow> bit f m \<or> m = n"
  by (auto simp: set_flag_def bit_simps)

lemma bit_clear_flag: "bit (clear_flag f (2 ^ n)) m \<longleftrightarrow> bit f m \<and> m \<noteq> n"
  by (auto simp: clear_flag_def bit_simps dest: bit_imp_le_length)

lemma bit_toggle_flag: "n < 32 \<Longrightarrow> bit ((f :: u32) XOR 2 ^ n) m \<longleftrightarrow> bit f m \<noteq> (m = n)"
  by (auto simp: bit_simps)

lemmas flag_bits = bit_set_flag bit_clear_flag bit_toggle_flag

end
