(* ===== verification/Initrd.thy ===== *)
theory Initrd
  imports Libgen Bitops Kheap
begin

text \<open>
  The initial file system (\<open>fs/initrd.c\<close>): 32 headers, the table
  of open files and the bytes of the module that the boot loader put into memory. The headers lie at
  the start of the module; an access to file data before their end or behind the end of the module is
  a fault. Messages to the console are not modelled.
\<close>

section \<open>Flags\<close>

definition O_WRONLY :: u32 where "O_WRONLY = 0x01"
definition O_RDWR :: u32 where "O_RDWR = 0x02"
definition O_CREAT :: u32 where "O_CREAT = 0x40"
definition O_APPEND :: u32 where "O_APPEND = 0x400"

definition FS_FILE :: int where "FS_FILE = 0x01"
definition FS_DIRECTORY :: int where "FS_DIRECTORY = 0x02"
definition FS_MOUNTPOINT :: int where "FS_MOUNTPOINT = 0x40"

section \<open>State\<close>

definition MAX_FILES :: nat where "MAX_FILES = 32"
definition MAX_OPEN_FD :: nat where "MAX_OPEN_FD = 4"
definition MAX_INITRD_DESCRIPTORS :: nat where "MAX_INITRD_DESCRIPTORS = MAX_OPEN_FD"

record initrd_file =
  magic :: int
  fileName :: string
  file_type :: int
  file_uid :: int
  data_start :: u32
  data_len :: u32

record initrd_fd =
  file_descriptor :: int
  cur_pos :: int

text \<open>
  \<open>module_bytes\<close> and \<open>module_size\<close>: what \<open>module_start[0]\<close> points to; \<open>user_uid\<close> is \<open>current_user.uid\<close>;
  \<open>ird_heap\<close> is the kernel heap, from which \<open>initrd_write\<close> takes its buffer.
\<close>

record initrd =
  nfiles :: u32
  fs_headers :: "initrd_file list"
  fs_end :: u32
  ird_descriptors :: "initrd_fd list"
  cur_irdfd :: nat
  module_bytes :: "nat \<Rightarrow> u8"
  module_size :: nat
  user_uid :: int
  ird_heap :: kheap

text \<open>The count \<open>nfiles\<close> and 32 headers of 276 bytes.\<close>

definition headers_end :: nat where "headers_end = 4 + MAX_FILES * 276"

definition module_at :: "initrd \<Rightarrow> int \<Rightarrow> nat res" where
  "module_at s i = (if int headers_end \<le> i \<and> i < int (module_size s) then Inr (nat i) else Inl OutOfBounds)"

text \<open>An array access with a signed index.\<close>

definition get_int :: "'a list \<Rightarrow> int \<Rightarrow> 'a res" where
  "get_int xs i = (if i < 0 then Inl OutOfBounds else get_at xs (nat i))"

definition set_int :: "'a list \<Rightarrow> int \<Rightarrow> 'a \<Rightarrow> 'a list res" where
  "set_int xs i v = (if i < 0 then Inl OutOfBounds else set_at xs (nat i) v)"

definition free_desc :: initrd_fd where
  "free_desc = \<lparr>file_descriptor = -1, cur_pos = 0\<rparr>"

section \<open>Headers\<close>

text \<open>A pointer to a header is its index.\<close>

definition get_initrd_file :: "string \<Rightarrow> initrd \<Rightarrow> nat option" where
  "get_initrd_file name s = find (\<lambda>i. name = fileName (fs_headers s ! i)) [0..<MAX_FILES]"

definition get_free_header :: "initrd \<Rightarrow> nat option" where
  "get_free_header s = find (\<lambda>i. file_type (fs_headers s ! i) = 0) [0..<MAX_FILES]"

definition initfs_init :: "initrd \<Rightarrow> (u32 \<times> initrd) res" where
  "initfs_init s =
     bindR (get_at (fs_headers s) (unat (nfiles s - 1))) (\<lambda>h.
     Inr (nfiles s, s\<lparr>ird_descriptors := replicate MAX_INITRD_DESCRIPTORS free_desc, cur_irdfd := 0,
            fs_end := data_start h + data_len h\<rparr>))"

definition blank :: "initrd_file \<Rightarrow> initrd_file" where
  "blank h = h\<lparr>magic := 0, fileName := [], file_type := 0, file_uid := 0, data_start := 0, data_len := 0\<rparr>"

text \<open>The header that \<open>initrd_mkdir\<close> and \<open>initfs_open\<close> fill in.\<close>

definition fill_header :: "string \<Rightarrow> int \<Rightarrow> nat \<Rightarrow> initrd \<Rightarrow> initrd res" where
  "fill_header name ty i s =
     bindR (copy_into NAME_MAX name) (\<lambda>name.
     bindR (get_at (fs_headers s) i) (\<lambda>h.
     bindR (set_at (fs_headers s) i (h\<lparr>magic := 0xBF, fileName := name, file_type := ty,
              file_uid := user_uid s, data_start := fs_end s + 1, data_len := 0\<rparr>)) (\<lambda>hs.
     Inr (s\<lparr>fs_headers := hs, fs_end := fs_end s + 1\<rparr>))))"

definition clear_header :: "nat \<Rightarrow> initrd \<Rightarrow> initrd res" where
  "clear_header i s =
     bindR (get_at (fs_headers s) i) (\<lambda>h.
     bindR (set_at (fs_headers s) i (blank h)) (\<lambda>hs.
     Inr (s\<lparr>fs_headers := hs, nfiles := nfiles s - 1\<rparr>)))"

section \<open>Directories\<close>

record dirent =
  d_ino :: nat
  d_type :: int
  d_name :: string

record DIR =
  dir_fd :: int
  cur_entry :: nat
  dir_path :: string
  dir_entry :: dirent

definition initfs_opendir :: "DIR \<Rightarrow> string \<Rightarrow> initrd \<Rightarrow> DIR option res" where
  "initfs_opendir pdir path s =
     (if get_initrd_file path s = None \<and> path \<noteq> ''/'' then Inr None
      else bindR (copy_into (NAME_MAX + 1) path) (\<lambda>path.
             Inr (Some (pdir\<lparr>dir_fd := -1, cur_entry := 0, dir_path := path\<rparr>))))"

text \<open>The loop of \<open>initrd_readdir\<close> from \<open>cur_entry\<close> on; \<open>k\<close> headers are left.\<close>

fun readdir_loop :: "initrd \<Rightarrow> DIR \<Rightarrow> nat \<Rightarrow> (dirent option \<times> DIR) res" where
  "readdir_loop s dirp 0 = Inr (None, dirp)"
| "readdir_loop s dirp (Suc k) =
     bindR (get_at (fs_headers s) (cur_entry dirp)) (\<lambda>entry.
     if fileName entry = [] then readdir_loop s (dirp\<lparr>cur_entry := cur_entry dirp + 1\<rparr>) k
     else
       bindR (dirname (Some (fileName entry))) (\<lambda>filedir.
       if dir_path dirp = filedir then
         let e = \<lparr>d_ino = cur_entry dirp, d_type = file_type entry, d_name = fileName entry\<rparr>
         in Inr (Some e, dirp\<lparr>dir_entry := e, cur_entry := cur_entry dirp + 1\<rparr>)
       else readdir_loop s (dirp\<lparr>cur_entry := cur_entry dirp + 1\<rparr>) k))"

definition initrd_readdir :: "DIR \<Rightarrow> initrd \<Rightarrow> (dirent option \<times> DIR) res" where
  "initrd_readdir dirp s =
     (if cur_entry dirp \<ge> MAX_FILES then Inr (None, dirp)
      else readdir_loop s dirp (MAX_FILES - cur_entry dirp))"

text \<open>Whether the directory of a new name has to be looked up, and its header.\<close>

definition parent_header :: "string \<Rightarrow> initrd \<Rightarrow> (bool \<times> nat option) res" where
  "parent_header path s =
     bindR (dirname (Some path)) (\<lambda>d.
     if d \<noteq> ''.'' \<and> d \<noteq> ''/'' then Inr (True, get_initrd_file d s) else Inr (False, None))"

definition initrd_mkdir :: "string \<Rightarrow> initrd \<Rightarrow> (int \<times> initrd) res" where
  "initrd_mkdir path s =
     (if get_initrd_file path s \<noteq> None then Inr (-1, s)
      else
        bindR (parent_header path s) (\<lambda>(check, direntry).
        if check \<and> direntry = None then Inr (-1, s)
        else if check \<and> file_type (fs_headers s ! the direntry) \<noteq> FS_DIRECTORY \<and>
                file_type (fs_headers s ! the direntry) \<noteq> FS_MOUNTPOINT then Inr (-1, s)
        else
          (case get_free_header s of
             None \<Rightarrow> Inr (-1, s)
           | Some i \<Rightarrow> bindR (fill_header path FS_DIRECTORY i s) (\<lambda>s. Inr (1, s\<lparr>nfiles := nfiles s + 1\<rparr>)))))"

text \<open>The loop of \<open>initrd_rmdir\<close>: a file below the directory is looked for.\<close>

fun has_entry :: "string \<Rightarrow> initrd_file list \<Rightarrow> bool res" where
  "has_entry d [] = Inr False"
| "has_entry d (h # hs) =
     (if fileName h = [] then has_entry d hs
      else bindR (dirname (Some (fileName h))) (\<lambda>filedir. if d = filedir then Inr True else has_entry d hs))"

definition initrd_rmdir :: "string \<Rightarrow> initrd \<Rightarrow> (int \<times> initrd) res" where
  "initrd_rmdir path s =
     (case get_initrd_file path s of
        None \<Rightarrow> Inr (-1, s)
      | Some i \<Rightarrow>
          if file_type (fs_headers s ! i) \<noteq> FS_DIRECTORY then Inr (-1, s)
          else
            bindR (has_entry (fileName (fs_headers s ! i)) (take MAX_FILES (fs_headers s))) (\<lambda>used.
            if used then Inr (-1, s) else bindR (clear_header i s) (\<lambda>s. Inr (0, s))))"

section \<open>Files\<close>

text \<open>
  The search for an unused descriptor. The loop reads the entry before it tests the bound, so with
  all descriptors in use it reads behind the table.
\<close>

fun free_fd_slot :: "initrd_fd list \<Rightarrow> nat \<Rightarrow> nat \<Rightarrow> nat res" where
  "free_fd_slot ds i 0 = bindR (get_at ds i) (\<lambda>d. Inr i)"
| "free_fd_slot ds i (Suc k) =
     bindR (get_at ds i) (\<lambda>d. if file_descriptor d \<noteq> -1 \<and> i < MAX_INITRD_DESCRIPTORS then free_fd_slot ds (i + 1) k else Inr i)"

text \<open>The scan over the first \<open>nfiles\<close> headers: an index, or none.\<close>

fun scan_files :: "string \<Rightarrow> initrd_file list \<Rightarrow> nat \<Rightarrow> nat \<Rightarrow> nat option res" where
  "scan_files path hs i 0 = Inr None"
| "scan_files path hs i (Suc k) =
     bindR (get_at hs i) (\<lambda>h. if path \<noteq> fileName h then scan_files path hs (i + 1) k else Inr (Some i))"

definition set_descriptor :: "int \<Rightarrow> int \<Rightarrow> initrd \<Rightarrow> (int \<times> initrd) res" where
  "set_descriptor fd pos s =
     bindR (set_at (ird_descriptors s) (cur_irdfd s) \<lparr>file_descriptor = fd, cur_pos = pos\<rparr>) (\<lambda>ds.
     Inr (int (cur_irdfd s), s\<lparr>ird_descriptors := ds, cur_irdfd := cur_irdfd s + 1\<rparr>))"

definition open_create :: "string \<Rightarrow> initrd \<Rightarrow> (int \<times> initrd) res" where
  "open_create path s =
     bindR (parent_header path s) (\<lambda>(check, direntry).
     if check \<and> direntry = None then Inr (-1, s)
     else
       (case get_free_header s of
          None \<Rightarrow> Inr (-1, s)
        | Some i \<Rightarrow>
            bindR (fill_header path FS_FILE i s) (\<lambda>s.
            set_descriptor (int i) 0 (s\<lparr>nfiles := nfiles s + 1\<rparr>))))"

text \<open>The first part of \<open>initfs_open\<close> chooses the descriptor, the second looks for the file.\<close>

definition open_slot :: "initrd \<Rightarrow> initrd res" where
  "open_slot s =
     (if cur_irdfd s \<ge> MAX_INITRD_DESCRIPTORS
      then bindR (free_fd_slot (ird_descriptors s) 0 MAX_INITRD_DESCRIPTORS) (\<lambda>i. Inr (s\<lparr>cur_irdfd := i\<rparr>))
      else Inr s)"

definition open_file :: "string \<Rightarrow> u32 \<Rightarrow> initrd \<Rightarrow> (int \<times> initrd) res" where
  "open_file path flags s =
     bindR (scan_files path (fs_headers s) 0 (unat (nfiles s))) (\<lambda>found.
     case found of
       Some it \<Rightarrow>
         let h = fs_headers s ! it in
         if file_type h = FS_DIRECTORY \<or> file_type h = FS_MOUNTPOINT then Inr (-1, s)
         else if has_flag flags O_CREAT then Inr (-1, s)
         else set_descriptor (int it) (if has_flag flags O_APPEND then sint (data_len h) else 0) s
     | None \<Rightarrow> if has_flag flags O_CREAT then open_create path s else Inr (-1, s))"

definition initfs_open :: "string \<Rightarrow> u32 \<Rightarrow> initrd \<Rightarrow> (int \<times> initrd) res" where
  "initfs_open path flags s = bindR (open_slot s) (open_file path flags)"

definition initfs_remove :: "string \<Rightarrow> initrd \<Rightarrow> (int \<times> initrd) res" where
  "initfs_remove path s =
     (case get_initrd_file path s of
        None \<Rightarrow> Inr (-1, s)
      | Some i \<Rightarrow>
          if file_type (fs_headers s ! i) \<noteq> FS_FILE then Inr (-1, s)
          else bindR (clear_header i s) (\<lambda>s. Inr (0, s)))"

text \<open>The loop of \<open>initfs_read\<close>; the result is what was stored at \<open>buf\<close> and the new position.\<close>

fun read_loop :: "initrd \<Rightarrow> nat \<Rightarrow> nat \<Rightarrow> int \<Rightarrow> int \<Rightarrow> (u8 list \<times> int) res" where
  "read_loop s start 0 pos size' = Inr ([], pos)"
| "read_loop s start (Suc k) pos size' =
     (if pos < size' then
        bindR (module_at s (int start + pos)) (\<lambda>i.
        bindR (read_loop s start k (pos + 1) size') (\<lambda>(bs, pos). Inr (module_bytes s i # bs, pos)))
      else Inr ([], pos))"

definition initfs_read :: "int \<Rightarrow> nat \<Rightarrow> initrd \<Rightarrow> (int \<times> u8 list \<times> initrd) res" where
  "initfs_read fildes nbyte s =
     (if nbyte = 0 then Inr (0, [], s)
      else
        bindR (get_int (ird_descriptors s) fildes) (\<lambda>d.
        bindR (get_int (fs_headers s) (file_descriptor d)) (\<lambda>h.
        let file_size = sint (data_len h) in
        bindR (read_loop s (unat (data_start h)) nbyte (cur_pos d) file_size) (\<lambda>(bs, pos).
        bindR (set_int (ird_descriptors s) fildes (d\<lparr>cur_pos := pos\<rparr>)) (\<lambda>ds.
        Inr (if pos = file_size then -1 else int nbyte, bs, s\<lparr>ird_descriptors := ds\<rparr>))))))"

record stat =
  st_dev :: int
  st_ino :: int
  st_mode :: int
  st_uid :: int
  st_gid :: int
  st_size :: int
  st_atime :: int
  st_mtime :: int
  st_ctime :: int

definition initrd_stat :: "string \<Rightarrow> stat \<Rightarrow> initrd \<Rightarrow> int \<times> stat" where
  "initrd_stat path st s =
     (case get_initrd_file path s of
        None \<Rightarrow> (-1, st)
      | Some i \<Rightarrow> (0, st\<lparr>st_uid := file_uid (fs_headers s ! i) mod 2 ^ 32, st_size := uint (data_len (fs_headers s ! i))\<rparr>))"

text \<open>The loop of \<open>initrd_write\<close> copies \<open>nbyte + 1\<close> bytes.\<close>

fun write_loop :: "u8 list \<Rightarrow> int \<Rightarrow> initrd \<Rightarrow> initrd res" where
  "write_loop [] i s = Inr s"
| "write_loop (b # bs) i s =
     bindR (module_at s i) (\<lambda>k. write_loop bs (i + 1) (s\<lparr>module_bytes := (module_bytes s)(k := b)\<rparr>))"

text \<open>
  \<open>buf\<close> is the memory from the pointer on. The copy is one byte longer than the block that is requested
  for it; where it goes past the block it overwrites what follows in the heap. \<open>None\<close> when the heap
  routines do not return.
\<close>

definition text_of :: "u8 list \<Rightarrow> u8 list res" where
  "text_of buf =
     (let text = takeWhile (\<lambda>b. b \<noteq> 0) buf in if length text = length buf then Inl OutOfBounds else Inr text)"

fun store_text :: "mem \<Rightarrow> nat \<Rightarrow> u8 list \<Rightarrow> mem" where
  "store_text m a [] = m"
| "store_text m a (b # bs) = store_text (m(a := b)) (a + 1) bs"

definition heap_strcpy :: "nat \<Rightarrow> u8 list \<Rightarrow> kheap \<Rightarrow> kheap res" where
  "heap_strcpy dst text h = (if dst = 0 then Inl NullDeref else Inr (h\<lparr>bytes := store_text (bytes h) dst (text @ [0])\<rparr>))"

definition initrd_write :: "int \<Rightarrow> u8 list \<Rightarrow> nat \<Rightarrow> initrd \<Rightarrow> (int \<times> initrd) res option" where
  "initrd_write fildes buf nbyte s =
     (if nbyte = 0 then Some (Inr (0, s))
      else
        bindO (Some (text_of buf)) (\<lambda>text.
        bindO (kmalloc (length text) (ird_heap s)) (\<lambda>(tmp, heap).
        bindO (Some (heap_strcpy tmp text heap)) (\<lambda>heap.
        bindO (Some (get_int (ird_descriptors s) fildes)) (\<lambda>d.
        bindO (Some (get_int (fs_headers s) (file_descriptor d))) (\<lambda>h.
        bindO (Some (write_loop (map (\<lambda>it. bytes heap (tmp + it)) [0..<nbyte + 1]) (uint (data_start h) + cur_pos d) s)) (\<lambda>s.
        bindO (Some (set_int (fs_headers s) (file_descriptor d) (h\<lparr>data_len := data_len h + of_nat (nbyte + 1)\<rparr>))) (\<lambda>hs.
        bindO (kfree tmp heap) (\<lambda>heap.
        Some (Inr (int (nbyte + 1), s\<lparr>fs_headers := hs, ird_heap := heap\<rparr>)))))))))))"

definition initrd_close :: "int \<Rightarrow> initrd \<Rightarrow> (int \<times> initrd) res" where
  "initrd_close fildes s =
     bindR (set_int (ird_descriptors s) fildes free_desc) (\<lambda>ds. Inr (0, s\<lparr>ird_descriptors := ds\<rparr>))"

definition initrd_nfiles :: "initrd \<Rightarrow> nat" where
  "initrd_nfiles s = length (filter (\<lambda>h. file_type h \<noteq> 0) (take MAX_FILES (fs_headers s)))"

end
