(* ===== verification/Initrd_Correct.thy ===== *)
theory Initrd_Correct
  imports Initrd Kheap_Client
begin

text \<open>
  The file system keeps its tables consistent under every operation that returns; what creation,
  removal, listing, reading and writing do; and where the tables and the data of files collide.
\<close>

section \<open>The invariant\<close>

definition header_ok :: "initrd_file \<Rightarrow> bool" where
  "header_ok h \<longleftrightarrow> (file_type h = 0 \<longleftrightarrow> fileName h = []) \<and> length (fileName h) < NAME_MAX"

definition wf_ird :: "initrd \<Rightarrow> bool" where
  "wf_ird s \<longleftrightarrow> length (fs_headers s) = MAX_FILES \<and> length (ird_descriptors s) = MAX_INITRD_DESCRIPTORS \<and>
     cur_irdfd s \<le> MAX_INITRD_DESCRIPTORS \<and> list_all header_ok (fs_headers s) \<and> unat (nfiles s) = initrd_nfiles s"

lemma length_filter_update:
  "i < length xs \<Longrightarrow> length (filter P (xs[i := v])) + of_bool (P (xs ! i)) = length (filter P xs) + of_bool (P v)"
proof (induction xs arbitrary: i)
  case (Cons x xs)
  then show ?case using Cons.IH[of "i - 1"] by (cases i) auto
qed simp

lemma find_upt: "find P [0..<n] = Some i \<Longrightarrow> i < n \<and> P i \<and> (\<forall>j<i. \<not> P j)"
  by (auto simp: find_Some_iff)

lemma get_initrd_file_Some:
  "get_initrd_file p s = Some i \<Longrightarrow> i < MAX_FILES \<and> fileName (fs_headers s ! i) = p \<and> (\<forall>j<i. fileName (fs_headers s ! j) \<noteq> p)"
  unfolding get_initrd_file_def by (drule find_upt) auto

lemma get_initrd_file_None: "get_initrd_file p s = None \<longleftrightarrow> (\<forall>i<MAX_FILES. fileName (fs_headers s ! i) \<noteq> p)"
  unfolding get_initrd_file_def by (auto simp: find_None_iff)

lemma get_free_header_Some:
  "get_free_header s = Some i \<Longrightarrow> i < MAX_FILES \<and> file_type (fs_headers s ! i) = 0 \<and> (\<forall>j<i. file_type (fs_headers s ! j) \<noteq> 0)"
  unfolding get_free_header_def by (drule find_upt) auto

lemma wf_sel:
  assumes "wf_ird s"
  shows "length (fs_headers s) = MAX_FILES" "length (ird_descriptors s) = MAX_INITRD_DESCRIPTORS"
    "i < MAX_FILES \<Longrightarrow> header_ok (fs_headers s ! i)" "unat (nfiles s) = initrd_nfiles s"
  using assms by (auto simp: wf_ird_def list_all_length)

lemma nfiles_update:
  assumes "length (fs_headers s) = MAX_FILES" "i < MAX_FILES"
  shows "length (filter (\<lambda>h. file_type h \<noteq> 0) ((fs_headers s)[i := h])) + of_bool (file_type (fs_headers s ! i) \<noteq> 0) =
    initrd_nfiles s + of_bool (file_type h \<noteq> 0)"
  using length_filter_update[of i "fs_headers s" "\<lambda>h. file_type h \<noteq> 0" h] assms by (simp add: initrd_nfiles_def)

lemma nfiles_bound: "length (fs_headers s) = MAX_FILES \<Longrightarrow> initrd_nfiles s \<le> MAX_FILES"
  by (metis initrd_nfiles_def length_filter_le take_all order_refl)

lemma fill_header_eq:
  assumes "wf_ird s" "i < MAX_FILES" "length p < NAME_MAX"
  shows "fill_header p ty i s = Inr (s\<lparr>fs_end := fs_end s + 1, fs_headers := (fs_headers s)[i :=
    (fs_headers s ! i)\<lparr>magic := 0xBF, fileName := p, file_type := ty, file_uid := user_uid s, data_start := fs_end s + 1, data_len := 0\<rparr>]\<rparr>)"
  using assms wf_sel[OF assms(1)] by (simp add: fill_header_def copy_into_def)

lemma fill_header_wf:
  assumes s: "wf_ird s" and i: "i < MAX_FILES" "file_type (fs_headers s ! i) = 0" and p: "p \<noteq> []" "length p < NAME_MAX" "ty \<noteq> 0"
    and r: "fill_header p ty i s = Inr s'"
  shows "wf_ird (s'\<lparr>nfiles := nfiles s' + 1\<rparr>)"
proof -
  let ?h = "(fs_headers s ! i)\<lparr>magic := 0xBF, fileName := p, file_type := ty, file_uid := user_uid s, data_start := fs_end s + 1, data_len := 0\<rparr>"
  have s': "s' = s\<lparr>fs_end := fs_end s + 1, fs_headers := (fs_headers s)[i := ?h]\<rparr>" using fill_header_eq[OF s i(1) p(2)] r by simp
  note len = wf_sel(1)[OF s]
  have c: "length (filter (\<lambda>h. file_type h \<noteq> 0) ((fs_headers s)[i := ?h])) = initrd_nfiles s + 1"
    using nfiles_update[OF len i(1), of ?h] i(2) p(3) by simp
  have "initrd_nfiles s + 1 \<le> MAX_FILES" using c length_filter_le[of "\<lambda>h. file_type h \<noteq> 0" "(fs_headers s)[i := ?h]"] len by simp
  then have "unat (nfiles s + 1) = initrd_nfiles s + 1"
    using wf_sel(4)[OF s] unat_add_no_wrap[of "nfiles s" 1] by (simp add: MAX_FILES_def)
  moreover have "header_ok ?h" using p by (simp add: header_ok_def)
  ultimately show ?thesis using s c len i(1)
    by (auto simp: wf_ird_def s' initrd_nfiles_def list_all_length nth_list_update)
qed

lemma clear_header_wf:
  assumes s: "wf_ird s" and i: "i < MAX_FILES" "file_type (fs_headers s ! i) \<noteq> 0" and r: "clear_header i s = Inr s'"
  shows "wf_ird s'"
proof -
  let ?h = "blank (fs_headers s ! i)"
  note len = wf_sel(1)[OF s]
  have s': "s' = s\<lparr>fs_headers := (fs_headers s)[i := ?h], nfiles := nfiles s - 1\<rparr>" using r len i(1) by (simp add: clear_header_def)
  have c: "length (filter (\<lambda>h. file_type h \<noteq> 0) ((fs_headers s)[i := ?h])) + 1 = initrd_nfiles s"
    using nfiles_update[OF len i(1), of ?h] i(2) by (simp add: blank_def)
  then have "unat (nfiles s - 1) = initrd_nfiles s - 1" using wf_sel(4)[OF s] unat_sub_le[of 1 "nfiles s"] by simp
  moreover have "header_ok ?h" by (simp add: header_ok_def blank_def NAME_MAX_def)
  ultimately show ?thesis using s c len i(1)
    by (auto simp: wf_ird_def s' initrd_nfiles_def list_all_length nth_list_update)
qed


section \<open>Sequences of operations\<close>

datatype name_op = Mkdir string | Rmdir string | Remove string

datatype ird_op =
    Name name_op
  | Open string u32
  | Read int nat
  | Write int "u8 list" nat
  | Close int

fun name_step :: "name_op \<Rightarrow> initrd \<Rightarrow> (int \<times> initrd) res" where
  "name_step (Mkdir p) s = initrd_mkdir p s"
| "name_step (Rmdir p) s = initrd_rmdir p s"
| "name_step (Remove p) s = initfs_remove p s"

fun ird_step :: "ird_op \<Rightarrow> initrd \<Rightarrow> (int \<times> initrd) res option" where
  "ird_step (Name x) s = Some (name_step x s)"
| "ird_step (Open p f) s = Some (initfs_open p f s)"
| "ird_step (Read d n) s = Some (bindR (initfs_read d n s) (\<lambda>(r, bs, s). Inr (r, s)))"
| "ird_step (Write d b n) s = initrd_write d b n s"
| "ird_step (Close d) s = Some (initrd_close d s)"

text \<open>
  The one operation that breaks the tables: a file with an empty name is created by opening it, as the
  search for an existing name stops at the count of files. \<open>mkdir\<close> of an empty name is refused.
\<close>

definition creates_unnamed :: "ird_op \<Rightarrow> bool" where
  "creates_unnamed x \<longleftrightarrow> (\<exists>f. x = Open [] f \<and> has_flag f O_CREAT)"

lemma fill_header_short: "fill_header p ty i s = Inr s' \<Longrightarrow> length p < NAME_MAX"
  by (auto simp: fill_header_def copy_into_def split: if_splits)

lemma free_is_unnamed:
  assumes "wf_ird s" "get_free_header s = Some i"
  shows "get_initrd_file [] s \<noteq> None"
proof -
  have "i < MAX_FILES" "fileName (fs_headers s ! i) = []"
    using get_free_header_Some[OF assms(2)] wf_sel(3)[OF assms(1)] by (auto simp: header_ok_def)
  then show ?thesis by (auto simp: get_initrd_file_None)
qed

lemma create_wf:
  "wf_ird s \<Longrightarrow> get_free_header s = Some i \<Longrightarrow> fill_header p ty i s = Inr s' \<Longrightarrow> p \<noteq> [] \<Longrightarrow> ty \<noteq> 0 \<Longrightarrow>
     wf_ird (s'\<lparr>nfiles := nfiles s' + 1\<rparr>)"
  using fill_header_wf fill_header_short get_free_header_Some by blast

lemma delete_wf:
  "wf_ird s \<Longrightarrow> get_initrd_file p s = Some i \<Longrightarrow> file_type (fs_headers s ! i) \<noteq> 0 \<Longrightarrow> clear_header i s = Inr s' \<Longrightarrow> wf_ird s'"
  using clear_header_wf get_initrd_file_Some by blast

lemma mkdir_wf:
  assumes "wf_ird s" "initrd_mkdir p s = Inr (r, s')"
  shows "wf_ird s'"
proof -
  from assms(2) consider "s' = s" | i s1 where "get_initrd_file p s = None" "get_free_header s = Some i"
      "fill_header p FS_DIRECTORY i s = Inr s1" "s' = s1\<lparr>nfiles := nfiles s1 + 1\<rparr>"
    by (auto simp: initrd_mkdir_def split: if_splits option.splits)
  then show ?thesis
  proof cases
    case 2
    then have "p \<noteq> []" using free_is_unnamed[OF assms(1)] by auto
    then show ?thesis using create_wf[OF assms(1) 2(2,3)] 2(4) by (simp add: FS_DIRECTORY_def)
  qed (use assms in simp)
qed

lemma rmdir_wf:
  assumes "wf_ird s" "initrd_rmdir p s = Inr (r, s')"
  shows "wf_ird s'"
  using assms by (auto simp: initrd_rmdir_def FS_DIRECTORY_def intro: delete_wf split: if_splits option.splits)

lemma remove_wf:
  assumes "wf_ird s" "initfs_remove p s = Inr (r, s')"
  shows "wf_ird s'"
  using assms by (auto simp: initfs_remove_def FS_FILE_def intro: delete_wf split: if_splits option.splits)

lemma set_descriptor_wf:
  "wf_ird s \<Longrightarrow> set_descriptor fd pos s = Inr (r, s') \<Longrightarrow> wf_ird s'"
  by (auto simp: set_descriptor_def set_at_def wf_ird_def initrd_nfiles_def split: if_splits)

lemma free_fd_slot_less: "free_fd_slot ds i k = Inr j \<Longrightarrow> j < length ds"
  by (induction ds i k rule: free_fd_slot.induct) (auto simp: get_at_def split: if_splits)

lemma open_slot_wf: "wf_ird s \<Longrightarrow> open_slot s = Inr s1 \<Longrightarrow> wf_ird s1"
  using free_fd_slot_less[of "ird_descriptors s" 0 MAX_INITRD_DESCRIPTORS]
  by (auto simp: open_slot_def wf_ird_def initrd_nfiles_def split: if_splits intro: less_imp_le)

lemma open_create_wf:
  assumes "wf_ird s" "open_create p s = Inr (r, s')" "p \<noteq> []"
  shows "wf_ird s'"
proof -
  have "wf_ird s'" if "get_free_header s = Some i" "fill_header p FS_FILE i s = Inr s1"
    "set_descriptor (int i) 0 (s1\<lparr>nfiles := nfiles s1 + 1\<rparr>) = Inr (r, s')" for i s1
    using set_descriptor_wf[OF create_wf[OF assms(1) that(1,2) assms(3)] that(3)] by (simp add: FS_FILE_def)
  then show ?thesis using assms by (auto simp: open_create_def split: if_splits option.splits)
qed

lemma open_file_wf:
  assumes "wf_ird s" "open_file p f s = Inr (r, s')" "p \<noteq> [] \<or> \<not> has_flag f O_CREAT"
  shows "wf_ird s'"
proof -
  obtain found where "scan_files p (fs_headers s) 0 (unat (nfiles s)) = Inr found" using assms(2) by (auto simp: open_file_def)
  then show ?thesis using assms set_descriptor_wf[OF assms(1)] open_create_wf[OF assms(1)]
    by (cases found) (simp_all add: open_file_def Let_def split: if_splits)
qed

lemma open_wf:
  assumes "wf_ird s" "initfs_open p f s = Inr (r, s')" "p \<noteq> [] \<or> \<not> has_flag f O_CREAT"
  shows "wf_ird s'"
  using assms open_file_wf open_slot_wf unfolding initfs_open_def bindR_eq_Inr by blast

lemma header_ok_len: "header_ok (h\<lparr>data_len := n\<rparr>) = header_ok h"
  by (simp add: header_ok_def)

lemma write_loop_keep: "write_loop bs i s = Inr s' \<Longrightarrow> \<exists>m. s' = s\<lparr>module_bytes := m\<rparr>"
proof (induction bs i s rule: write_loop.induct)
  case (1 i s)
  then show ?case by (intro exI[of _ "module_bytes s"]) simp
next
  case (2 b bs i s)
  then show ?case by fastforce
qed

lemma wf_data_len:
  assumes "wf_ird s" "i < MAX_FILES"
  shows "wf_ird (s\<lparr>module_bytes := m, fs_headers := (fs_headers s)[i := (fs_headers s ! i)\<lparr>data_len := n\<rparr>]\<rparr>)"
proof -
  note len = wf_sel(1)[OF assms(1)]
  have "length (filter (\<lambda>h. file_type h \<noteq> 0) ((fs_headers s)[i := (fs_headers s ! i)\<lparr>data_len := n\<rparr>])) = initrd_nfiles s"
    using nfiles_update[OF len assms(2), of "(fs_headers s ! i)\<lparr>data_len := n\<rparr>"] by simp
  then show ?thesis using assms len
    by (auto simp: wf_ird_def initrd_nfiles_def list_all_length nth_list_update header_ok_len)
qed

lemma wf_heap: "wf_ird (s\<lparr>ird_heap := h\<rparr>) = wf_ird s"
  by (simp add: wf_ird_def initrd_nfiles_def)

lemma write_wf:
  assumes s: "wf_ird s" and r: "initrd_write d b n s = Some (Inr (r, s'))"
  shows "wf_ird s'"
proof (cases "n = 0")
  case False
  with r obtain f h m i' n' hs heap s2 where w: "get_int (fs_headers s) f = Inr h" "write_loop m i' s = Inr s2"
      "set_int (fs_headers s2) f (h\<lparr>data_len := n'\<rparr>) = Inr hs" "s' = s2\<lparr>fs_headers := hs, ird_heap := heap\<rparr>"
    unfolding initrd_write_def by (simp only: if_False bindO_Inr split_paired_Ex prod.case) blast
  obtain m' where m': "s2 = s\<lparr>module_bytes := m'\<rparr>" using write_loop_keep[OF w(2)] by blast
  then have "nat f < MAX_FILES" "h = fs_headers s ! nat f" "hs = (fs_headers s)[nat f := (fs_headers s ! nat f)\<lparr>data_len := n'\<rparr>]"
    using w(1,3) wf_sel(1)[OF s] by (auto simp: get_int_def set_int_def get_at_def set_at_def split: if_splits)
  then show ?thesis using wf_data_len[OF s] w(4) m' wf_heap by simp
qed (use assms in \<open>simp add: initrd_write_def\<close>)

lemma desc_wf: "wf_ird s \<Longrightarrow> set_int (ird_descriptors s) i d = Inr ds \<Longrightarrow> wf_ird (s\<lparr>ird_descriptors := ds\<rparr>)"
  by (auto simp: set_int_def set_at_def wf_ird_def initrd_nfiles_def split: if_splits)

lemma read_wf: "wf_ird s \<Longrightarrow> initfs_read d n s = Inr (r, bs, s') \<Longrightarrow> wf_ird s'"
  using desc_wf by (auto simp: initfs_read_def Let_def split: if_splits)

lemma close_wf: "wf_ird s \<Longrightarrow> initrd_close d s = Inr (r, s') \<Longrightarrow> wf_ird s'"
  using desc_wf by (auto simp: initrd_close_def)

lemma name_step_wf: "name_step x s = Inr (r, s') \<Longrightarrow> wf_ird s \<Longrightarrow> wf_ird s'"
  by (cases x) (auto dest: mkdir_wf rmdir_wf remove_wf)

lemma ird_step_wf: "ird_step x s = Some (Inr (r, s')) \<Longrightarrow> wf_ird s \<Longrightarrow> \<not> creates_unnamed x \<Longrightarrow> wf_ird s'"
proof (cases x)
  case (Open p f)
  then show "ird_step x s = Some (Inr (r, s')) \<Longrightarrow> wf_ird s \<Longrightarrow> \<not> creates_unnamed x \<Longrightarrow> wf_ird s'"
    using open_wf[of s p f r s'] by (auto simp: creates_unnamed_def)
qed (auto dest: name_step_wf write_wf read_wf close_wf)

section \<open>Operations on names\<close>

lemma name_dirname: "header_ok h \<Longrightarrow> \<exists>d. dirname (Some (fileName h)) = Inr d"
  by (intro dirname_total) (simp add: header_ok_def NAME_MAX_def PATH_MAX_def)

text \<open>The header lies in the directory \<open>d\<close>.\<close>

definition in_dir :: "string \<Rightarrow> initrd_file \<Rightarrow> bool" where
  "in_dir d h \<longleftrightarrow> fileName h \<noteq> [] \<and> dirname (Some (fileName h)) = Inr d"

lemma has_entry_eq: "list_all header_ok hs \<Longrightarrow> has_entry d hs = Inr (list_ex (in_dir d) hs)"
proof (induction hs)
  case (Cons h hs)
  then show ?case using name_dirname[of h] by (auto simp: in_dir_def)
qed simp

definition parent_ok :: "string \<Rightarrow> initrd \<Rightarrow> bool" where
  "parent_ok p s \<longleftrightarrow> (\<exists>d. dirname (Some p) = Inr d \<and> (d = ''.'' \<or> d = ''/'' \<or>
     (\<exists>i. get_initrd_file d s = Some i \<and> file_type (fs_headers s ! i) \<in> {FS_DIRECTORY, FS_MOUNTPOINT})))"

definition new_header :: "string \<Rightarrow> int \<Rightarrow> nat \<Rightarrow> initrd \<Rightarrow> initrd_file" where
  "new_header p ty i s = (fs_headers s ! i)\<lparr>magic := 0xBF, fileName := p, file_type := ty, file_uid := user_uid s,
     data_start := fs_end s + 1, data_len := 0\<rparr>"

lemma new_header_sel [simp]: "fileName (new_header p ty i s) = p" "file_type (new_header p ty i s) = ty"
  "data_start (new_header p ty i s) = fs_end s + 1" "data_len (new_header p ty i s) = 0"
  by (simp_all add: new_header_def)

definition with_new :: "string \<Rightarrow> int \<Rightarrow> nat \<Rightarrow> initrd \<Rightarrow> initrd" where
  "with_new p ty i s = s\<lparr>nfiles := nfiles s + 1, fs_end := fs_end s + 1, fs_headers := (fs_headers s)[i := new_header p ty i s]\<rparr>"

lemma initrd_mkdir_eq:
  assumes s: "wf_ird s" and p: "length p < NAME_MAX"
  shows "initrd_mkdir p s = Inr (if get_initrd_file p s = None \<and> parent_ok p s \<and> get_free_header s \<noteq> None
    then (1, with_new p FS_DIRECTORY (the (get_free_header s)) s) else (-1, s))"
proof -
  obtain d where d: "dirname (Some p) = Inr d" using dirname_total[of p] p by (auto simp: NAME_MAX_def PATH_MAX_def)
  have "fill_header p FS_DIRECTORY i s = Inr (s\<lparr>fs_end := fs_end s + 1, fs_headers := (fs_headers s)[i := new_header p FS_DIRECTORY i s]\<rparr>)"
    if "get_free_header s = Some i" for i
    using fill_header_eq[OF s _ p] get_free_header_Some[OF that] by (simp add: new_header_def)
  note fill = this
  have po: "parent_ok p s \<longleftrightarrow> d = ''.'' \<or> d = ''/'' \<or>
     (\<exists>i. get_initrd_file d s = Some i \<and> file_type (fs_headers s ! i) \<in> {FS_DIRECTORY, FS_MOUNTPOINT})"
    using d by (simp add: parent_ok_def)
  show ?thesis
  proof (cases "d = ''.'' \<or> d = ''/''")
    case True
    then show ?thesis using fill po d
      by (cases "get_free_header s") (auto simp: initrd_mkdir_def parent_header_def with_new_def)
  next
    case False
    then show ?thesis using fill po d
      by (cases "get_free_header s"; cases "get_initrd_file d s") (auto simp: initrd_mkdir_def parent_header_def with_new_def)
  qed
qed

definition without :: "nat \<Rightarrow> initrd \<Rightarrow> initrd" where
  "without i s = s\<lparr>nfiles := nfiles s - 1, fs_headers := (fs_headers s)[i := blank (fs_headers s ! i)]\<rparr>"

lemma clear_header_eq: "wf_ird s \<Longrightarrow> i < MAX_FILES \<Longrightarrow> clear_header i s = Inr (without i s)"
  using wf_sel(1)[of s] by (simp add: clear_header_def without_def)

lemma initrd_rmdir_eq:
  assumes s: "wf_ird s"
  shows "initrd_rmdir p s = Inr (case get_initrd_file p s of None \<Rightarrow> (-1, s) | Some i \<Rightarrow>
    if file_type (fs_headers s ! i) = FS_DIRECTORY \<and> \<not> list_ex (in_dir p) (fs_headers s) then (0, without i s) else (-1, s))"
proof -
  have "list_all header_ok (fs_headers s)" "length (fs_headers s) = MAX_FILES" using s by (auto simp: wf_ird_def)
  then show ?thesis using has_entry_eq[of "fs_headers s" p] get_initrd_file_Some[of p s] clear_header_eq[OF s]
    by (auto simp: initrd_rmdir_def split: option.splits)
qed

lemma initfs_remove_eq:
  assumes s: "wf_ird s"
  shows "initfs_remove p s = Inr (case get_initrd_file p s of None \<Rightarrow> (-1, s) | Some i \<Rightarrow>
    if file_type (fs_headers s ! i) = FS_FILE then (0, without i s) else (-1, s))"
  using get_initrd_file_Some[of p s] clear_header_eq[OF s] by (auto simp: initfs_remove_def split: option.splits)

text \<open>
  The operations on names cannot fault, whatever the sequence, but for a new directory whose name does not fit its
  field.
\<close>

lemma mkdir_long:
  assumes "NAME_MAX \<le> length p"
  shows "initrd_mkdir p s = Inr (-1, s) \<or> initrd_mkdir p s = Inl OutOfBounds"
proof -
  have "fill_header p ty i s = Inl OutOfBounds" for ty i using assms by (simp add: fill_header_def copy_into_def)
  moreover have "parent_header p s = Inl OutOfBounds \<or> (\<exists>c e. parent_header p s = Inr (c, e))"
    by (auto simp: parent_header_def dirname_def copy_into_def Let_def split: option.splits)
  ultimately show ?thesis
    by (elim disjE exE) (simp_all add: initrd_mkdir_def split: option.splits)
qed

lemma name_step_total:
  assumes "wf_ird s"
  shows "(\<exists>r s'. name_step x s = Inr (r, s') \<and> (r = -1 \<longrightarrow> s' = s)) \<or>
    (\<exists>p. x = Mkdir p \<and> NAME_MAX \<le> length p \<and> name_step x s = Inl OutOfBounds)"
proof (cases x)
  case (Mkdir p)
  then show ?thesis using mkdir_long[of p s] initrd_mkdir_eq[OF assms, of p] by (cases "length p < NAME_MAX") auto
qed (auto simp: initrd_rmdir_eq[OF assms] initfs_remove_eq[OF assms] split: option.splits)

definition short_name :: "name_op \<Rightarrow> bool" where
  "short_name x \<longleftrightarrow> (\<forall>p. x = Mkdir p \<longrightarrow> length p < NAME_MAX)"

interpretation names: total_ops name_step wf_ird short_name
proof
  fix s x assume s: "wf_ird s" and x: "short_name x"
  obtain r s' where r: "name_step x s = Inr (r, s')" using name_step_total[OF s, of x] x by (auto simp: short_name_def)
  then show "\<exists>r s'. name_step x s = Inr (r, s') \<and> wf_ird s'" using name_step_wf s by blast
qed

text \<open>Lookups after an update of one header.\<close>

lemma find_cong_upt: "(\<And>i. i < n \<Longrightarrow> P i = Q i) \<Longrightarrow> find P [0..<n] = find Q [0..<n]"
  by (rule find_cong) auto

lemma lookup_new:
  assumes s: "wf_ird s" "get_initrd_file p s = None" "get_free_header s = Some i"
  shows "get_initrd_file p (with_new p ty i s) = Some i"
    "q \<noteq> p \<Longrightarrow> q \<noteq> [] \<Longrightarrow> get_initrd_file q (with_new p ty i s) = get_initrd_file q s"
proof -
  note i = get_free_header_Some[OF s(3)] and len = wf_sel(1)[OF s(1)]
  have h: "header_ok (fs_headers s ! i)" using wf_sel(3)[OF s(1)] i by blast
  have "\<forall>j<i. fileName (fs_headers s ! j) \<noteq> p" using s(2) i by (auto simp: get_initrd_file_None)
  then show "get_initrd_file p (with_new p ty i s) = Some i"
    using i len
    by (auto simp: get_initrd_file_def with_new_def nth_list_update find_Some_iff intro!: exI[of _ i])
  show "get_initrd_file q (with_new p ty i s) = get_initrd_file q s" if "q \<noteq> p" "q \<noteq> []"
    unfolding get_initrd_file_def using that len i h
    by (intro find_cong_upt) (auto simp: with_new_def nth_list_update header_ok_def)
qed


lemma lookup_without:
  assumes s: "wf_ird s" "get_initrd_file p s = Some i" and q: "q \<noteq> p" "q \<noteq> []"
  shows "get_initrd_file q (without i s) = get_initrd_file q s"
  unfolding get_initrd_file_def using q wf_sel(1)[OF s(1)] get_initrd_file_Some[OF s(2)]
  by (intro find_cong_upt) (auto simp: without_def nth_list_update blank_def)

text \<open>Removing a directory right after it was made.\<close>

lemma mkdir_rmdir:
  assumes s: "wf_ird s" and p: "p \<noteq> []" "length p < NAME_MAX" and r: "initrd_mkdir p s = Inr (1, s1)"
    and empty: "\<not> list_ex (in_dir p) (fs_headers s)" "dirname (Some p) \<noteq> Inr p"
  shows "\<exists>i. get_free_header s = Some i \<and> s1 = with_new p FS_DIRECTORY i s \<and>
    initrd_rmdir p s1 = Inr (0, s\<lparr>fs_end := fs_end s + 1, fs_headers := (fs_headers s)[i := blank (fs_headers s ! i)]\<rparr>)"
proof -
  obtain i where i: "get_free_header s = Some i" "get_initrd_file p s = None" "s1 = with_new p FS_DIRECTORY i s"
    using r initrd_mkdir_eq[OF s p(2)] by (auto split: if_splits)
  have wf: "wf_ird s1" using mkdir_wf[OF s r] .
  note len = wf_sel(1)[OF s] and i' = get_free_header_Some[OF i(1)]
  have "\<not> in_dir p (fs_headers s1 ! n)" if "n < MAX_FILES" for n
    using empty len that by (cases "n = i") (auto simp: i(3) with_new_def list_ex_length in_dir_def)
  then have "\<not> list_ex (in_dir p) (fs_headers s1)" using wf_sel(1)[OF wf] by (auto simp: list_ex_length)
  moreover have "file_type (fs_headers s1 ! i) = FS_DIRECTORY" using len i' by (simp add: i(3) with_new_def)
  ultimately have "initrd_rmdir p s1 = Inr (0, without i s1)"
    using initrd_rmdir_eq[OF wf, of p] lookup_new(1)[OF s i(2,1)] by (simp add: i(3))
  moreover have "without i s1 = s\<lparr>fs_end := fs_end s + 1, fs_headers := (fs_headers s)[i := blank (fs_headers s ! i)]\<rparr>"
    using len i' by (simp add: i(3) without_def with_new_def blank_def new_header_def)
  ultimately show ?thesis using i by auto
qed

section \<open>Listing a directory\<close>

definition dir_entries :: "initrd \<Rightarrow> string \<Rightarrow> nat \<Rightarrow> dirent list" where
  "dir_entries s d k = map (\<lambda>i. \<lparr>d_ino = i, d_type = file_type (fs_headers s ! i), d_name = fileName (fs_headers s ! i)\<rparr>)
     (filter (\<lambda>i. in_dir d (fs_headers s ! i)) [k..<MAX_FILES])"

lemma dir_entries_step:
  "k < MAX_FILES \<Longrightarrow> dir_entries s d k = (if in_dir d (fs_headers s ! k)
     then \<lparr>d_ino = k, d_type = file_type (fs_headers s ! k), d_name = fileName (fs_headers s ! k)\<rparr> # dir_entries s d (Suc k)
     else dir_entries s d (Suc k))"
  by (simp add: dir_entries_def upt_conv_Cons)

text \<open>A call returns the next entry and moves the stream behind it.\<close>

lemma readdir_loop_ok:
  "wf_ird s \<Longrightarrow> cur_entry dirp + k = MAX_FILES \<Longrightarrow>
     (case dir_entries s (dir_path dirp) (cur_entry dirp) of
        [] \<Rightarrow> \<exists>dirp'. readdir_loop s dirp k = Inr (None, dirp')
      | e # es \<Rightarrow> \<exists>dirp'. readdir_loop s dirp k = Inr (Some e, dirp') \<and> dir_path dirp' = dir_path dirp \<and>
          cur_entry dirp < cur_entry dirp' \<and> cur_entry dirp' \<le> MAX_FILES \<and> dir_entries s (dir_path dirp) (cur_entry dirp') = es)"
proof (induction k arbitrary: dirp)
  case 0
  then show ?case by (simp add: dir_entries_def)
next
  case (Suc k)
  let ?i = "cur_entry dirp" let ?h = "fs_headers s ! ?i" let ?next = "dirp\<lparr>cur_entry := ?i + 1\<rparr>"
  have i: "?i < MAX_FILES" "?i < length (fs_headers s)" using Suc.prems wf_sel(1)[OF Suc.prems(1)] by simp_all
  obtain d where d: "dirname (Some (fileName ?h)) = Inr d" using name_dirname[OF wf_sel(3)[OF Suc.prems(1) i(1)]] by blast
  show ?case
  proof (cases "in_dir (dir_path dirp) ?h")
    case True
    then show ?thesis using i d by (auto simp: dir_entries_step in_dir_def Let_def)
  next
    case False
    then have "readdir_loop s dirp (Suc k) = readdir_loop s ?next k" using i d by (auto simp: in_dir_def)
    moreover have "dir_entries s (dir_path dirp) ?i = dir_entries s (dir_path dirp) (Suc ?i)" using False i by (simp add: dir_entries_step)
    ultimately show ?thesis using Suc.IH[of ?next] Suc.prems by (auto split: list.splits)
  qed
qed

text \<open>All the calls of a client that reads until \<open>NULL\<close> is returned, \<open>n\<close> at most.\<close>

fun readdir_all :: "initrd \<Rightarrow> nat \<Rightarrow> DIR \<Rightarrow> dirent list res" where
  "readdir_all s 0 dirp = Inr []"
| "readdir_all s (Suc n) dirp =
     bindR (initrd_readdir dirp s) (\<lambda>(e, dirp).
     case e of None \<Rightarrow> Inr [] | Some e \<Rightarrow> bindR (readdir_all s n dirp) (\<lambda>es. Inr (e # es)))"

lemma readdir_all_ok:
  "wf_ird s \<Longrightarrow> cur_entry dirp \<le> MAX_FILES \<Longrightarrow> MAX_FILES - cur_entry dirp < n \<Longrightarrow>
     readdir_all s n dirp = Inr (dir_entries s (dir_path dirp) (cur_entry dirp))"
proof (induction n arbitrary: dirp)
  case (Suc n)
  show ?case
  proof (cases "cur_entry dirp = MAX_FILES")
    case True
    then show ?thesis by (simp add: initrd_readdir_def dir_entries_def)
  next
    case False
    then have k: "cur_entry dirp + (MAX_FILES - cur_entry dirp) = MAX_FILES" "initrd_readdir dirp s = readdir_loop s dirp (MAX_FILES - cur_entry dirp)"
      using Suc.prems by (simp_all add: initrd_readdir_def)
    show ?thesis
    proof (cases "dir_entries s (dir_path dirp) (cur_entry dirp)")
      case Nil
      then show ?thesis using readdir_loop_ok[OF Suc.prems(1) k(1)] k(2) by auto
    next
      case (Cons e es)
      then obtain dirp' where r: "initrd_readdir dirp s = Inr (Some e, dirp')" "dir_path dirp' = dir_path dirp"
        "cur_entry dirp < cur_entry dirp'" "cur_entry dirp' \<le> MAX_FILES" "dir_entries s (dir_path dirp) (cur_entry dirp') = es"
        using readdir_loop_ok[OF Suc.prems(1) k(1)] k(2) by auto
      then have "readdir_all s n dirp' = Inr es" using Suc.IH[of dirp'] Suc.prems by auto
      then show ?thesis using r(1) Cons by simp
    qed
  qed
qed simp


section \<open>Reading and writing\<close>

text \<open>The bytes of a file, and that they lie in the data area of the module.\<close>

definition stored :: "initrd \<Rightarrow> nat \<Rightarrow> u8 list \<Rightarrow> bool" where
  "stored s a bs \<longleftrightarrow> headers_end \<le> a \<and> a + length bs \<le> module_size s \<and> (\<forall>i<length bs. module_bytes s (a + i) = bs ! i)"

lemma write_loop_ok:
  "headers_end \<le> a \<Longrightarrow> a + length bs \<le> module_size s \<Longrightarrow>
     write_loop bs (int a) s = Inr (s\<lparr>module_bytes := (\<lambda>i. if a \<le> i \<and> i < a + length bs then bs ! (i - a) else module_bytes s i)\<rparr>)"
proof (induction bs arbitrary: a s)
  case (Cons b bs)
  let ?s = "s\<lparr>module_bytes := (module_bytes s)(a := b)\<rparr>"
  have "module_at s (int a) = Inr a" using Cons.prems by (simp add: module_at_def)
  then have "write_loop (b # bs) (int a) s = write_loop bs (int (a + 1)) ?s" by (simp add: add.commute)
  also have "\<dots> = Inr (?s\<lparr>module_bytes := (\<lambda>i. if a + 1 \<le> i \<and> i < a + 1 + length bs then bs ! (i - (a + 1)) else module_bytes ?s i)\<rparr>)"
    using Cons.IH[of "a + 1" ?s] Cons.prems by simp
  finally show ?case by (auto simp: fun_eq_iff nth_Cons' Suc_diff_Suc)
qed (auto simp: fun_eq_iff intro!: initrd.equality)

lemma read_loop_ok:
  assumes "stored s a bs" "pos \<le> length bs"
  shows "read_loop s a n (int pos) (int (length bs)) = Inr (take n (drop pos bs), int (min (pos + n) (length bs)))"
  using assms(2)
proof (induction n arbitrary: pos)
  case (Suc n)
  show ?case
  proof (cases "pos < length bs")
    case True
    then have "module_at s (int a + int pos) = Inr (a + pos)" "module_bytes s (a + pos) = bs ! pos"
      using assms(1) by (auto simp: module_at_def stored_def nat_int_add)
    then show ?thesis using Suc.IH[of "pos + 1"] True by (simp add: add.commute Cons_nth_drop_Suc[symmetric])
  qed (use Suc.prems in simp)
qed simp

text \<open>An open file with its contents: the descriptor, the header and the bytes.\<close>

definition open_on :: "initrd \<Rightarrow> nat \<Rightarrow> nat \<Rightarrow> nat \<Rightarrow> u8 list \<Rightarrow> bool" where
  "open_on s fd lfd pos bs \<longleftrightarrow> fd < length (ird_descriptors s) \<and> lfd < length (fs_headers s) \<and>
     ird_descriptors s ! fd = \<lparr>file_descriptor = int lfd, cur_pos = int pos\<rparr> \<and> pos \<le> length bs \<and> length bs < 2 ^ 31 \<and>
     data_len (fs_headers s ! lfd) = of_nat (length bs) \<and> stored s (unat (data_start (fs_headers s ! lfd))) bs"

lemma sint_of_nat32: "n < 2 ^ 31 \<Longrightarrow> sint (of_nat n :: u32) = int n"
proof -
  assume n: "n < 2 ^ 31"
  have "sint (word_of_int (int n) :: u32) = int n"
    unfolding sint_sbintrunc' by (rule signed_take_bit_int_eq_self) (use n in simp_all)
  then show ?thesis by simp
qed


lemma read_ok:
  assumes o: "open_on s fd lfd pos bs" and n: "n > 0"
  shows "\<exists>s'. initfs_read (int fd) n s = Inr (if length bs \<le> pos + n then -1 else int n, take n (drop pos bs), s') \<and>
    open_on s' fd lfd (min (pos + n) (length bs)) bs \<and> fs_headers s' = fs_headers s"
proof -
  let ?d = "\<lparr>file_descriptor = int lfd, cur_pos = int pos\<rparr>" let ?q = "min (pos + n) (length bs)"
  have l: "get_int (ird_descriptors s) (int fd) = Inr ?d" "get_int (fs_headers s) (int lfd) = Inr (fs_headers s ! lfd)"
    "sint (data_len (fs_headers s ! lfd)) = int (length bs)"
    using o by (auto simp: open_on_def get_int_def sint_of_nat32)
  have "read_loop s (unat (data_start (fs_headers s ! lfd))) n (int pos) (int (length bs)) = Inr (take n (drop pos bs), int ?q)"
    using o by (intro read_loop_ok) (auto simp: open_on_def)
  then have "initfs_read (int fd) n s = Inr (if int ?q = int (length bs) then -1 else int n, take n (drop pos bs),
      s\<lparr>ird_descriptors := (ird_descriptors s)[fd := ?d\<lparr>cur_pos := int ?q\<rparr>]\<rparr>)"
    using l n o by (simp add: initfs_read_def set_int_def open_on_def)
  moreover have "int ?q = int (length bs) \<longleftrightarrow> length bs \<le> pos + n" by auto
  moreover have "open_on (s\<lparr>ird_descriptors := (ird_descriptors s)[fd := ?d\<lparr>cur_pos := int ?q\<rparr>]\<rparr>) fd lfd ?q bs"
    using o by (auto simp: open_on_def stored_def)
  ultimately show ?thesis by auto
qed

lemma store_text_at: "store_text m a bs x = (if a \<le> x \<and> x < a + length bs then bs ! (x - a) else m x)"
  by (induction bs arbitrary: m a) (auto simp: nth_Cons' Suc_diff_Suc)

lemma ceil_above:
  assumes "request_ok n" "\<not> 16 dvd n"
  shows "n < ceil_to n 16"
  using ceil_16(1,3)[of n] assms by (cases "n = ceil_to n 16") (auto simp: request_ok_def)

text \<open>
  The buffer of \<open>initrd_write\<close>: a text whose length is not a multiple of 16 fits its block with the terminator, so
  allocation, copy and release leave the blocks in use and their contents as they were.
\<close>

lemma buffer_ok:
  assumes inv: "kheap_inv h bs fs" and n: "request_ok (length text)" "\<not> 16 dvd length text"
  shows "kmalloc (length text) h = Some (Inl AssertFail) \<and> vm_end (kernel_heap h) < kernel_heap_curr h + 12 + ceil_to (length text) 16 \<or>
    (\<exists>p h1 h2 h3 bs' fs'. kmalloc (length text) h = Some (Inr (p, h1)) \<and> heap_strcpy p text h1 = Inr h2 \<and>
      map (\<lambda>it. bytes h2 (p + it)) [0..<length text + 1] = text @ [0] \<and> kfree p h2 = Some (Inr h3) \<and>
      kheap_inv h3 bs' fs' \<and> used bs' = used bs \<and> same_payload (used bs) (bytes h) (bytes h3))"
  using inv n(1)
proof (cases rule: kmalloc_law)
  case (got a k h1 bs1 fs1)
  let ?m = "store_text (bytes h1) (a + 12) (text @ [0])"
  let ?h2 = "h1\<lparr>bytes := ?m\<rparr>"
  have k: "length text + 1 \<le> k" using ceil_above[OF n] got(9) by simp
  have w: "kheap_inv ?h2 bs1 fs1" "same_payload (used bs) (bytes h1) ?m"
    by (rule block_write[OF got(2,4), of ?m "used bs"], use k got(6,7) in \<open>auto simp: store_text_at\<close>)+
  from kfree_law[OF w(1) got(4)] obtain h3 bs' fs' where h3: "kfree (a + 12) ?h2 = Some (Inr h3)" "kheap_inv h3 bs' fs'"
    "used bs' = used bs1 - {(a, k)}" "same_payload (used bs1 - {(a, k)}) (bytes ?h2) (bytes h3)" .
  have u: "used bs1 - {(a, k)} = used bs" using got(6,7) by auto
  have "same_payload (used bs) (bytes h) ?m" by (rule kh.same_payload_trans[OF got(8) w(2)]) simp
  then have "same_payload (used bs) (bytes h) (bytes ?h2)" by simp
  then have "same_payload (used bs) (bytes h) (bytes h3)" by (rule kh.same_payload_trans[OF _ h3(4)[unfolded u]]) simp
  moreover have "map (\<lambda>it. bytes ?h2 (a + 12 + it)) [0..<length text + 1] = text @ [0]"
    by (rule nth_equalityI) (auto simp: store_text_at nth_append simp del: upt_Suc)
  ultimately show ?thesis using got(1) h3(1-3) u
    by (intro disjI2 exI[of _ "a + 12"] exI[of _ h1] exI[of _ ?h2] exI[of _ h3] exI[of _ bs'] exI[of _ fs']) (simp add: heap_strcpy_def)
qed simp

text \<open>
  A text written to an empty file: the terminator is written too, and the position of the
  descriptor stays where it was.
\<close>

lemma write_ok:
  assumes o: "open_on s fd lfd 0 []" and t: "0 \<notin> set text" "request_ok (length text)" "\<not> 16 dvd length text"
    "length text + 1 < 2 ^ 31" "unat (data_start (fs_headers s ! lfd)) + length text + 1 \<le> module_size s"
    and inv: "kheap_inv (ird_heap s) bs fs"
  shows "initrd_write (int fd) (text @ 0 # rest) (length text) s = Some (Inl AssertFail) \<and>
      vm_end (kernel_heap (ird_heap s)) < kernel_heap_curr (ird_heap s) + 12 + ceil_to (length text) 16 \<or>
    (\<exists>s' bs' fs'. initrd_write (int fd) (text @ 0 # rest) (length text) s = Some (Inr (int (length text + 1), s')) \<and>
      open_on s' fd lfd 0 (text @ [0]) \<and> kheap_inv (ird_heap s') bs' fs' \<and> used bs' = used bs \<and>
      same_payload (used bs) (bytes (ird_heap s)) (bytes (ird_heap s')))"
proof -
  let ?n = "length text" let ?h = "fs_headers s ! lfd" let ?a = "unat (data_start ?h)" let ?bs = "text @ [0]"
  let ?s = "s\<lparr>module_bytes := (\<lambda>i. if ?a \<le> i \<and> i < ?a + length ?bs then ?bs ! (i - ?a) else module_bytes s i)\<rparr>"
  have tw: "takeWhile (\<lambda>b. b \<noteq> 0) (text @ 0 # rest) = text" using t(1) by (subst takeWhile_append2) auto
  have n: "?n \<noteq> 0" using t(2) by (simp add: request_ok_def)
  have c: "text_of (text @ 0 # rest) = Inr text" by (simp add: text_of_def tw)
  have l: "get_int (ird_descriptors s) (int fd) = Inr \<lparr>file_descriptor = int lfd, cur_pos = 0\<rparr>"
    "get_int (fs_headers s) (int lfd) = Inr ?h" "lfd < length (fs_headers s)" "data_len ?h = 0" "headers_end \<le> ?a"
    using o by (auto simp: open_on_def get_int_def stored_def)
  have w: "write_loop ?bs (uint (data_start ?h) + 0) s = Inr ?s"
    using write_loop_ok[of ?a ?bs s] l(5) t(5) by simp
  from buffer_ok[OF inv t(2,3)] show ?thesis
  proof (elim disjE conjE exE)
    assume "kmalloc ?n (ird_heap s) = Some (Inl AssertFail)"
    then show ?thesis if "vm_end (kernel_heap (ird_heap s)) < kernel_heap_curr (ird_heap s) + 12 + ceil_to ?n 16"
      using that n c by (simp add: initrd_write_def)
  next
    fix p h1 h2 h3 bs' fs'
    assume m: "kmalloc ?n (ird_heap s) = Some (Inr (p, h1))" "heap_strcpy p text h1 = Inr h2"
      "map (\<lambda>it. bytes h2 (p + it)) [0..<?n + 1] = ?bs" "kfree p h2 = Some (Inr h3)"
      "kheap_inv h3 bs' fs'" "used bs' = used bs" "same_payload (used bs) (bytes (ird_heap s)) (bytes h3)"
    let ?s' = "?s\<lparr>fs_headers := (fs_headers s)[lfd := ?h\<lparr>data_len := of_nat (?n + 1)\<rparr>], ird_heap := h3\<rparr>"
    have "initrd_write (int fd) (text @ 0 # rest) ?n s = Some (Inr (int (?n + 1), ?s'))"
      using n c m(1,2,4) l w m(3)[unfolded Suc_eq_plus1[symmetric]] unfolding initrd_write_def Suc_eq_plus1[symmetric]
      by (simp add: set_int_def del: upt_Suc)
    moreover have "open_on ?s' fd lfd 0 ?bs" using o t(4,5) l(5) by (auto simp: open_on_def stored_def)
    ultimately show ?thesis using m(5-7) by (intro disjI2 exI[of _ ?s'] exI[of _ bs'] exI[of _ fs']) simp
  qed
qed

text \<open>A text of 16 characters in an empty heap: its block has 16 bytes, and the copy writes 17.\<close>

lemma buffer_too_short:
  "\<exists>h bs fs. kmalloc 16 page_heap = Some (Inr (4108 + 12, h)) \<and> kheap_inv h bs fs \<and> used bs = {(4108, 16)}"
proof -
  have r: "request_ok 16" "ceil_to 16 16 = 16" by (simp_all add: request_ok_def ceil_to_def)
  from page_heap_inv r(1) show ?thesis
  proof (cases rule: kmalloc_law)
    case (got a k h bs fs)
    then have "bs = [(4108, 16, False)]" "a = 4108"
      using r(2) by (auto simp: page_heap_def elim: malloc_blocks.cases)
    then show ?thesis using got(1,2) by (auto simp: used_def)
  qed (simp add: r page_heap_def)
qed

section \<open>Opening\<close>

lemma scan_files_eq:
  "i + k \<le> length hs \<Longrightarrow> scan_files p hs i k = Inr (find (\<lambda>j. fileName (hs ! j) = p) [i..<i + k])"
  by (induction k arbitrary: i) (auto simp: upt_conv_Cons simp del: upt_Suc)

lemma scan_nfiles:
  assumes "wf_ird s"
  shows "scan_files p (fs_headers s) 0 (unat (nfiles s)) = Inr (find (\<lambda>j. fileName (fs_headers s ! j) = p) [0..<initrd_nfiles s])"
  using scan_files_eq[of 0 "unat (nfiles s)" "fs_headers s" p] wf_sel[OF assms] nfiles_bound[of s] by simp

text \<open>
  Below the end of the table the next descriptor is handed out without a look at it: after a wrap it may
  belong to another open file.
\<close>

lemma open_create_eq:
  assumes s: "wf_ird s" "cur_irdfd s < MAX_INITRD_DESCRIPTORS" and p: "length p < NAME_MAX"
    and free: "get_free_header s = Some i"
    and parent: "dirname (Some p) = Inr d" "d = ''.'' \<or> d = ''/'' \<or> get_initrd_file d s \<noteq> None"
  shows "open_create p s = Inr (int (cur_irdfd s), (with_new p FS_FILE i s)\<lparr>cur_irdfd := cur_irdfd s + 1,
    ird_descriptors := (ird_descriptors s)[cur_irdfd s := \<lparr>file_descriptor = int i, cur_pos = 0\<rparr>]\<rparr>)"
  using assms wf_sel[OF s(1)] fill_header_eq[OF s(1) _ p, of i FS_FILE] get_free_header_Some[OF free]
  by (auto simp: open_create_def parent_header_def set_descriptor_def with_new_def new_header_def)

lemma open_existing:
  assumes s: "wf_ird s" "cur_irdfd s < MAX_INITRD_DESCRIPTORS" and i: "get_initrd_file p s = Some i" "i < initrd_nfiles s"
    and f: "\<not> has_flag f O_CREAT" and h: "file_type (fs_headers s ! i) \<notin> {FS_DIRECTORY, FS_MOUNTPOINT}"
  shows "initfs_open p f s = Inr (int (cur_irdfd s), s\<lparr>cur_irdfd := cur_irdfd s + 1, ird_descriptors := (ird_descriptors s)[cur_irdfd s :=
    \<lparr>file_descriptor = int i, cur_pos = (if has_flag f O_APPEND then sint (data_len (fs_headers s ! i)) else 0)\<rparr>]\<rparr>)"
proof -
  have "find (\<lambda>j. fileName (fs_headers s ! j) = p) [0..<initrd_nfiles s] = Some i"
    using get_initrd_file_Some[OF i(1)] i(2) by (auto simp: find_Some_iff intro!: exI[of _ i])
  then show ?thesis using s f h scan_nfiles[OF s(1), of p] wf_sel(2)[OF s(1)]
    by (simp add: initfs_open_def open_slot_def open_file_def set_descriptor_def Let_def)
qed

text \<open>
  After a removal the last header lies behind the first \<open>nfiles\<close> ones: the file is still there for
  \<open>stat\<close>, but can no longer be opened, and \<open>O_CREAT\<close> makes a second header with its name.
\<close>

lemma open_misses:
  assumes s: "wf_ird s" "cur_irdfd s < MAX_INITRD_DESCRIPTORS" and i: "get_initrd_file p s = Some i" "initrd_nfiles s \<le> i"
    and f: "\<not> has_flag f O_CREAT"
  shows "initfs_open p f s = Inr (-1, s)"
proof -
  have "find (\<lambda>j. fileName (fs_headers s ! j) = p) [0..<initrd_nfiles s] = None"
    using get_initrd_file_Some[OF i(1)] i(2) by (auto simp: find_None_iff)
  then show ?thesis using s f scan_nfiles[OF s(1), of p] by (simp add: initfs_open_def open_slot_def open_file_def)
qed

text \<open>With all descriptors in use the search runs over the end of the table.\<close>

lemma free_fd_slot_full:
  "i + k = MAX_INITRD_DESCRIPTORS \<Longrightarrow> length ds = MAX_INITRD_DESCRIPTORS \<Longrightarrow> \<forall>d\<in>set ds. file_descriptor d \<noteq> -1 \<Longrightarrow>
     free_fd_slot ds i k = Inl OutOfBounds"
  by (induction ds i k rule: free_fd_slot.induct) (auto simp: get_at_def)

lemma open_full:
  assumes "wf_ird s" "cur_irdfd s = MAX_INITRD_DESCRIPTORS" "\<forall>d\<in>set (ird_descriptors s). file_descriptor d \<noteq> -1"
  shows "initfs_open p f s = Inl OutOfBounds"
  using assms wf_sel(2)[OF assms(1)] free_fd_slot_full[of 0 MAX_INITRD_DESCRIPTORS "ird_descriptors s"]
  by (simp add: initfs_open_def open_slot_def)

text \<open>Two files created one after the other overlap: the second starts one byte behind the first.\<close>

lemma created_overlap:
  assumes "wf_ird s" "get_free_header s = Some i" "get_free_header (with_new p FS_FILE i s) = Some j"
  shows "data_start (fs_headers (with_new q FS_FILE j (with_new p FS_FILE i s)) ! j) =
    data_start (fs_headers (with_new q FS_FILE j (with_new p FS_FILE i s)) ! i) + 1 \<and> i \<noteq> j"
proof -
  note len = wf_sel(1)[OF assms(1)] and i = get_free_header_Some[OF assms(2)] and j = get_free_header_Some[OF assms(3)]
  have "i \<noteq> j" using j i len by (auto simp: with_new_def FS_FILE_def)
  then show ?thesis using i j len by (simp add: with_new_def)
qed


section \<open>Properties\<close>

definition example_ird :: initrd where
  "example_ird = \<lparr>nfiles = 2,
     fs_headers = [\<lparr>magic = 0xBF, fileName = ''/home'', file_type = FS_DIRECTORY, file_uid = 0, data_start = 0, data_len = 0\<rparr>,
                   \<lparr>magic = 0xBF, fileName = ''/home/a'', file_type = FS_FILE, file_uid = 0, data_start = 9000, data_len = 0\<rparr>] @
       replicate 30 \<lparr>magic = 0, fileName = [], file_type = 0, file_uid = 0, data_start = 0, data_len = 0\<rparr>,
     fs_end = 9000,
     ird_descriptors = \<lparr>file_descriptor = 1, cur_pos = 0\<rparr> # replicate 3 free_desc,
     cur_irdfd = 1, module_bytes = (\<lambda>_. 0), module_size = 20000, user_uid = 7, ird_heap = page_heap\<rparr>"

lemma example_wf: "wf_ird example_ird"
  by (simp add: wf_ird_def example_ird_def MAX_FILES_def MAX_INITRD_DESCRIPTORS_def MAX_OPEN_FD_def header_ok_def
      FS_DIRECTORY_def FS_FILE_def NAME_MAX_def initrd_nfiles_def list_all_iff)

text \<open>
  C24. The tables of the file system stay consistent: there are 32 headers and 4 descriptors, a header has a name
  exactly when it has a type, every name fits its field with the terminator, and \<open>nfiles\<close> counts the
  headers in use. Every operation that returns keeps this, with any names, but for opening the empty name with \<open>O_CREAT\<close>,
  which may create a file without a name. \<open>rmdir\<close> and \<open>remove\<close> always return, with -1 and nothing changed when they refuse; so
  does \<open>mkdir\<close>, unless the name has \<open>NAME_MAX\<close> (255) characters or more, when it may write past the field of the name. Sequences of the
  three with names to create that are shorter run to their end.
\<close>

theorem initrd_tables_consistent:
  assumes "wf_ird s"
  shows "(\<forall>x r s'. ird_step x s = Some (Inr (r, s')) \<and> \<not> creates_unnamed x \<longrightarrow> wf_ird s') \<and>
    (\<forall>x. (\<exists>r s'. name_step x s = Inr (r, s') \<and> (r = -1 \<longrightarrow> s' = s)) \<or>
      (\<exists>p. x = Mkdir p \<and> NAME_MAX \<le> length p \<and> name_step x s = Inl OutOfBounds)) \<and>
    (\<forall>xs. list_all short_name xs \<longrightarrow>
      (\<exists>rs s'. total_ops.run name_step xs s = Inr (rs, s') \<and> length rs = length xs \<and> wf_ird s'))"
proof (intro conjI allI impI)
  show "wf_ird s'" if "ird_step x s = Some (Inr (r, s')) \<and> \<not> creates_unnamed x" for x r s' using ird_step_wf assms that by blast
  show "(\<exists>r s'. name_step x s = Inr (r, s') \<and> (r = -1 \<longrightarrow> s' = s)) \<or>
      (\<exists>p. x = Mkdir p \<and> NAME_MAX \<le> length p \<and> name_step x s = Inl OutOfBounds)" for x by (rule name_step_total[OF assms])
  show "\<exists>rs s'. total_ops.run name_step xs s = Inr (rs, s') \<and> length rs = length xs \<and> wf_ird s'" if "list_all short_name xs" for xs
    using names.run_total[OF assms, of xs] that by (simp add: list_all_iff)
qed

theorem initrd_tables_consistent_witness:
  "(\<exists>r s'. initrd_rmdir ''/home'' example_ird = Inr (r, s') \<and> (r = -1 \<longrightarrow> s' = example_ird)) \<and>
   (\<exists>rs s'. total_ops.run name_step [Mkdir ''/tmp'', Remove ''/home/a'', Rmdir ''/home''] example_ird = Inr (rs, s') \<and> wf_ird s')"
proof -
  note c = initrd_tables_consistent[OF example_wf]
  have "list_all short_name [Mkdir ''/tmp'', Remove ''/home/a'', Rmdir ''/home'']" by (simp add: short_name_def NAME_MAX_def)
  then show ?thesis using c by (metis name_op.distinct(1) name_step.simps(2))
qed

text \<open>With all files in the first headers, opening the empty name for creation leaves a file without a name.\<close>

lemma open_unnamed_breaks: "\<exists>r s'. initfs_open [] O_CREAT example_ird = Inr (r, s') \<and> \<not> wf_ird s'"
proof -
  have two: "unat (nfiles example_ird) = Suc (Suc 0)" by (simp add: example_ird_def)
  have "scan_files [] (fs_headers example_ird) 0 (unat (nfiles example_ird)) = Inr None"
    unfolding two by (simp add: example_ird_def)
  moreover have c: "cur_irdfd example_ird < MAX_INITRD_DESCRIPTORS"
    by (simp add: example_ird_def MAX_INITRD_DESCRIPTORS_def MAX_OPEN_FD_def)
  moreover have "get_free_header example_ird = Some 2"
    by (simp add: get_free_header_def example_ird_def MAX_FILES_def upt_rec FS_DIRECTORY_def FS_FILE_def)
  moreover have "dirname (Some []) = Inr ''.''" by (simp add: dirname_def copy_into_def PATH_MAX_def)
  ultimately obtain r s' where "initfs_open [] O_CREAT example_ird = Inr (r, s')"
      "fs_headers s' = fs_headers (with_new [] FS_FILE 2 example_ird)"
    using open_create_eq[OF example_wf c, of "[]" 2 "''.''"]
    by (auto simp: initfs_open_def open_slot_def open_file_def has_flag_def O_CREAT_def NAME_MAX_def)
  moreover have "\<not> header_ok (fs_headers (with_new [] FS_FILE 2 example_ird) ! 2)"
    using wf_sel(1)[OF example_wf] by (simp add: with_new_def header_ok_def FS_FILE_def MAX_FILES_def)
  ultimately show ?thesis using wf_sel(3)[of s' 2] by (auto simp: MAX_FILES_def)
qed

text \<open>
  \<open>initrd_mkdir\<close> succeeds exactly when the name is new, its directory exists and a header is free; the name is
  then found at the first free header and every other name where it was. \<open>initrd_rmdir\<close> of a new
  directory with nothing below it gives the header back: the files are those from before, only
  \<open>fs_end\<close> has moved by one.
\<close>

theorem initrd_mkdir_rmdir:
  assumes "wf_ird s" "p \<noteq> []" "length p < NAME_MAX" "\<not> list_ex (in_dir p) (fs_headers s)" "dirname (Some p) \<noteq> Inr p"
  shows "if get_initrd_file p s = None \<and> parent_ok p s \<and> get_free_header s \<noteq> None
    then \<exists>i s1. get_free_header s = Some i \<and> initrd_mkdir p s = Inr (1, s1) \<and> wf_ird s1 \<and>
      get_initrd_file p s1 = Some i \<and> (\<forall>q. q \<noteq> p \<and> q \<noteq> [] \<longrightarrow> get_initrd_file q s1 = get_initrd_file q s) \<and>
      initrd_rmdir p s1 = Inr (0, s\<lparr>fs_end := fs_end s + 1, fs_headers := (fs_headers s)[i := blank (fs_headers s ! i)]\<rparr>)
    else initrd_mkdir p s = Inr (-1, s)"
proof (cases "get_initrd_file p s = None \<and> parent_ok p s \<and> get_free_header s \<noteq> None")
  case True
  then obtain i where i: "get_free_header s = Some i" by auto
  have r: "initrd_mkdir p s = Inr (1, with_new p FS_DIRECTORY i s)" using initrd_mkdir_eq[OF assms(1,3)] True i by simp
  show ?thesis unfolding if_P[OF True]
  proof (intro exI conjI)
    show "wf_ird (with_new p FS_DIRECTORY i s)" by (rule mkdir_wf[OF assms(1) r])
    show "\<forall>q. q \<noteq> p \<and> q \<noteq> [] \<longrightarrow> get_initrd_file q (with_new p FS_DIRECTORY i s) = get_initrd_file q s"
      using lookup_new(2)[OF assms(1) _ i] True by auto
    show "get_initrd_file p (with_new p FS_DIRECTORY i s) = Some i" using lookup_new(1)[OF assms(1) _ i] True by auto
    show "initrd_rmdir p (with_new p FS_DIRECTORY i s) =
      Inr (0, s\<lparr>fs_end := fs_end s + 1, fs_headers := (fs_headers s)[i := blank (fs_headers s ! i)]\<rparr>)"
      using mkdir_rmdir[OF assms(1-3) r assms(4,5)] i by auto
  qed (use i r in auto)
next
  case False
  then show ?thesis using initrd_mkdir_eq[OF assms(1,3)] by (simp only: if_False)
qed

theorem initrd_mkdir_rmdir_witness:
  "\<exists>s1. initrd_mkdir ''/home/b'' example_ird = Inr (1, s1) \<and> get_initrd_file ''/home/b'' s1 = Some 2"
proof -
  have d: "dirname (Some ''/home/b'') = Inr ''/home''" by (simp add: dirname_def copy_into_def PATH_MAX_def)
  have l: "get_initrd_file ''/home/b'' example_ird = None" "get_initrd_file ''/home'' example_ird = Some 0" "get_free_header example_ird = Some 2"
    by (simp_all add: get_initrd_file_def get_free_header_def example_ird_def MAX_FILES_def upt_rec FS_DIRECTORY_def FS_FILE_def)
  have "\<not> list_ex (in_dir ''/home/b'') (fs_headers example_ird)"
    by (simp add: example_ird_def in_dir_def dirname_def copy_into_def PATH_MAX_def list_ex_iff)
  moreover have "parent_ok ''/home/b'' example_ird" using d l by (auto simp: parent_ok_def example_ird_def)
  ultimately show ?thesis
    using initrd_mkdir_rmdir[OF example_wf, of "''/home/b''"] d l by (auto simp: NAME_MAX_def)
qed


text \<open>
  Reading a directory to its end lists every file and directory whose path has it as its directory, each
  once, in the order of the headers, with its index, type and name; 33 calls are always enough.
\<close>

theorem initrd_readdir_lists:
  assumes "wf_ird s" "initfs_opendir pdir d s = Inr (Some dirp)"
  shows "readdir_all s (MAX_FILES + 1) dirp =
      Inr (map (\<lambda>i. \<lparr>d_ino = i, d_type = file_type (fs_headers s ! i), d_name = fileName (fs_headers s ! i)\<rparr>)
        (filter (\<lambda>i. in_dir d (fs_headers s ! i)) [0..<MAX_FILES])) \<and>
    (d = ''/'' \<or> (\<exists>i<MAX_FILES. fileName (fs_headers s ! i) = d))"
proof -
  have "dir_path dirp = d" "cur_entry dirp = 0" "d = ''/'' \<or> get_initrd_file d s \<noteq> None"
    using assms(2) by (auto simp: initfs_opendir_def copy_into_def split: if_splits)
  then show ?thesis
    using readdir_all_ok[OF assms(1), of dirp "MAX_FILES + 1"] get_initrd_file_Some[of d s] by (auto simp: dir_entries_def)
qed

theorem initrd_readdir_lists_witness:
  "\<exists>dirp. initfs_opendir (undefined :: DIR) ''/home'' example_ird = Inr (Some dirp) \<and>
     readdir_all example_ird 33 dirp = Inr [\<lparr>d_ino = 1, d_type = FS_FILE, d_name = ''/home/a''\<rparr>]"
proof -
  have "get_initrd_file ''/home'' example_ird \<noteq> None"
    by (simp add: get_initrd_file_def example_ird_def MAX_FILES_def upt_rec)
  then obtain dirp where r: "initfs_opendir (undefined :: DIR) ''/home'' example_ird = Inr (Some dirp)"
    by (auto simp: initfs_opendir_def copy_into_def NAME_MAX_def)
  have u: "[0..<32] = [0, 1] @ [2..<32]" by (simp add: upt_rec)
  have "\<not> in_dir ''/home'' (fs_headers example_ird ! i)" if "i \<in> set [2..<32]" for i
    using that by (auto simp: in_dir_def example_ird_def nth_append nth_Cons')
  then have "filter (\<lambda>i. in_dir ''/home'' (fs_headers example_ird ! i)) [2..<32] = []" by (simp add: filter_empty_conv)
  moreover have "in_dir ''/home'' (fs_headers example_ird ! 1)" "\<not> in_dir ''/home'' (fs_headers example_ird ! 0)"
    by (simp_all add: in_dir_def example_ird_def dirname_def copy_into_def PATH_MAX_def)
  ultimately have "filter (\<lambda>i. in_dir ''/home'' (fs_headers example_ird ! i)) [0..<32] = [1]" by (simp add: u del: upt_Suc)
  then show ?thesis using initrd_readdir_lists[OF example_wf r] r by (auto simp: MAX_FILES_def example_ird_def)
qed

text \<open>
  A text that is written to an open empty file is read back: after \<open>initrd_write\<close> of its \<open>n\<close> characters,
  which stores the terminator too and returns \<open>n + 1\<close>, reading \<open>k\<close> bytes returns the first \<open>k\<close> of them
  and \<open>k\<close>, or end of file when the last byte is read, and moves the position by what was read.
\<close>

theorem initrd_write_read:
  assumes "open_on s fd lfd 0 []" "0 \<notin> set text" "request_ok (length text)" "\<not> 16 dvd length text"
    "length text + 1 < 2 ^ 31" "unat (data_start (fs_headers s ! lfd)) + length text + 1 \<le> module_size s"
    "kheap_inv (ird_heap s) bs fs" "0 < k"
  shows "initrd_write (int fd) (text @ 0 # rest) (length text) s = Some (Inl AssertFail) \<or>
    (\<exists>s1 s2. initrd_write (int fd) (text @ 0 # rest) (length text) s = Some (Inr (int (length text + 1), s1)) \<and>
      initfs_read (int fd) k s1 = Inr (if length text < k then -1 else int k, take k (text @ [0]), s2) \<and>
      open_on s2 fd lfd (min k (length text + 1)) (text @ [0]))"
  using write_ok[OF assms(1-7), of rest]
proof (elim disjE conjE exE)
  fix s1 bs' fs'
  assume s1: "initrd_write (int fd) (text @ 0 # rest) (length text) s = Some (Inr (int (length text + 1), s1))"
    "open_on s1 fd lfd 0 (text @ [0])"
  then show ?thesis using read_ok[OF s1(2) assms(8)] by auto
qed simp

end
