(* ===== verification/Vfs.thy ===== *)
theory Vfs
  imports Initrd_Correct
begin

text \<open>
  The virtual file system (\<open>fs/vfs.c\<close>, \<open>fs/open.c\<close>, \<open>fs/read_write.c\<close>, \<open>fs/stat.c\<close>, \<open>fs/readdir.c\<close>, \<open>fs/fcntl.c\<close>,
  \<open>sys/dirent.c\<close>, \<open>sys/unistd.c\<close>): mount points with function pointers, the table of open files and the
  system calls that dispatch to a file system. \<open>'s\<close> is the state of the mounted file systems, a
  function pointer is an optional function on it. The current directory, a key from the keyboard and a
  new \<open>DIR\<close> are arguments; \<open>screen\<close> collects what is sent to \<open>video_putc\<close>.
\<close>

section \<open>State\<close>

definition MAX_MOUNTPOINT :: nat where "MAX_MOUNTPOINT = 10"
definition STDIN_FILENO :: int where "STDIN_FILENO = -3"
definition STDOUT_FILENO :: int where "STDOUT_FILENO = -2"
definition STDERR_FILENO :: int where "STDERR_FILENO = -1"

record 's mountpoint =
  mp_id :: int
  mountpoint :: string
  pmask :: u32
  mp_uid :: u32
  mp_gid :: u32
  start_address :: u32
  end_address :: u32
  dev_id :: int
  open_f :: "(string \<Rightarrow> u32 \<Rightarrow> 's \<Rightarrow> (int \<times> 's) res) option"
  remove_f :: "(string \<Rightarrow> 's \<Rightarrow> (int \<times> 's) res) option"
  close_f :: "(int \<Rightarrow> 's \<Rightarrow> (int \<times> 's) res) option"
  read_f :: "(int \<Rightarrow> nat \<Rightarrow> 's \<Rightarrow> (int \<times> u8 list \<times> 's) res) option"
  write_f :: "(int \<Rightarrow> u8 list \<Rightarrow> nat \<Rightarrow> 's \<Rightarrow> (int \<times> 's) res option) option"
  opendir_f :: "(DIR \<Rightarrow> string \<Rightarrow> 's \<Rightarrow> DIR option res) option"
  closedir_f :: "(DIR option \<Rightarrow> int) option"
  mkdir_f :: "(string \<Rightarrow> 's \<Rightarrow> (int \<times> 's) res) option"
  rmdir_f :: "(string \<Rightarrow> 's \<Rightarrow> (int \<times> 's) res) option"
  readdir_f :: "(DIR \<Rightarrow> 's \<Rightarrow> (dirent option \<times> DIR) res) option"
  stat_f :: "(string \<Rightarrow> stat \<Rightarrow> 's \<Rightarrow> int \<times> stat) option"

record file_desc =
  fs_spec_id :: int
  mountpoint_id :: int
  fd_offset :: int
  flags_mask :: u32

record 's vfs =
  current_fd :: nat
  fd_list :: "file_desc list"
  mountpoint_list :: "'s mountpoint list"
  fs_state :: 's
  screen :: "u8 list"

definition initfs_closedir :: "DIR option \<Rightarrow> int" where
  "initfs_closedir dirp = 0"

text \<open>Every entry of both tables is reset, then the initial file system is mounted at the root.\<close>

definition reset_mp :: "nat \<Rightarrow> 's mountpoint \<Rightarrow> 's mountpoint" where
  "reset_mp i m = m\<lparr>mountpoint := [], mp_id := int i, mp_uid := 0, mp_gid := 0, pmask := 0, dev_id := 0,
     start_address := 0, opendir_f := None, open_f := None, close_f := None, read_f := None, write_f := None, stat_f := None\<rparr>"

definition free_fd :: "file_desc \<Rightarrow> file_desc" where
  "free_fd d = d\<lparr>fs_spec_id := -1, mountpoint_id := -1, fd_offset := 0, flags_mask := 0\<rparr>"

definition mount_initrd :: "u32 \<Rightarrow> u32 \<Rightarrow> initrd mountpoint \<Rightarrow> initrd mountpoint" where
  "mount_initrd mstart mend m = m\<lparr>mountpoint := ''/'', mp_uid := 0, mp_gid := 0, pmask := 0, dev_id := 0,
     start_address := mstart, end_address := mend, opendir_f := Some initfs_opendir, closedir_f := Some initfs_closedir,
     readdir_f := Some initrd_readdir, mkdir_f := Some initrd_mkdir, rmdir_f := Some initrd_rmdir,
     open_f := Some initfs_open, remove_f := Some initfs_remove, close_f := Some initrd_close,
     read_f := Some initfs_read, write_f := Some initrd_write, stat_f := Some initrd_stat\<rparr>"

definition vfs_init :: "u32 \<Rightarrow> u32 \<Rightarrow> initrd vfs \<Rightarrow> initrd vfs" where
  "vfs_init mstart mend s =
     (let ms = map (\<lambda>i. reset_mp i (mountpoint_list s ! i)) [0..<MAX_MOUNTPOINT] in
      s\<lparr>current_fd := 0, fd_list := map free_fd (fd_list s),
        mountpoint_list := ms[0 := mount_initrd mstart mend (ms ! 0)]\<rparr>)"

section \<open>Paths\<close>

text \<open>\<open>strncmp\<close> with the length of the mount point is a test for a prefix.\<close>

fun mp_scan :: "string \<Rightarrow> 's mountpoint list \<Rightarrow> nat \<Rightarrow> nat \<Rightarrow> int \<Rightarrow> int" where
  "mp_scan path [] it last_mpl last_mp_id = last_mp_id"
| "mp_scan path (m # ms) it last_mpl last_mp_id =
     (let mpl = length (mountpoint m) in
      if take mpl path = mountpoint m \<and> (last_mpl < mpl \<and> it > 0 \<or> it = 0)
      then mp_scan path ms (it + 1) mpl (int it)
      else mp_scan path ms (it + 1) last_mpl last_mp_id)"

definition get_mountpoint_id :: "string \<Rightarrow> 's vfs \<Rightarrow> int" where
  "get_mountpoint_id path s = mp_scan path (mountpoint_list s) 0 0 (-1)"

definition get_mountpoint :: "string \<Rightarrow> 's vfs \<Rightarrow> 's mountpoint option res" where
  "get_mountpoint path s =
     (let mpi = get_mountpoint_id path s in
      if mpi < 0 then Inr None else bindR (get_int (mountpoint_list s) mpi) (\<lambda>m. Inr (Some m)))"

definition get_mountpoint_from_id :: "int \<Rightarrow> 's vfs \<Rightarrow> 's mountpoint option res" where
  "get_mountpoint_from_id mpi s =
     (if mpi \<ge> int MAX_MOUNTPOINT then Inr None else bindR (get_int (mountpoint_list s) mpi) (\<lambda>m. Inr (Some m)))"

text \<open>The unsigned size of the rest is huge when the path is shorter than the mount point.\<close>

definition get_relative_path :: "nat \<Rightarrow> string \<Rightarrow> 's vfs \<Rightarrow> (int \<times> string) res" where
  "get_relative_path mpi path s =
     bindR (get_at (mountpoint_list s) mpi) (\<lambda>m.
     let path_size = length path; mnpt_size = length (mountpoint m) in
     if path_size < mnpt_size then Inl OutOfBounds
     else if path_size = mnpt_size then Inr (int path_size, path)
     else bindR (copy_into PATH_MAX (drop mnpt_size path)) (\<lambda>r. Inr (int (length r), r)))"

definition starts_with_char :: "char \<Rightarrow> string \<Rightarrow> bool" where
  "starts_with_char c s \<longleftrightarrow> (case s of [] \<Rightarrow> False | x # xs \<Rightarrow> x = c)"

definition get_absolute_path :: "string \<Rightarrow> string \<Rightarrow> (int \<times> string) res" where
  "get_absolute_path cwd path =
     (if starts_with_char (CHR ''/'') path then Inr (0, path)
      else
        bindR (copy_into PATH_MAX cwd) (\<lambda>abspath.
        if abspath = [] then Inl OutOfBounds
        else
          bindR (copy_into PATH_MAX
            (if last abspath = CHR ''/'' then abspath @ path
             else abspath @ take (length path) ''/'' @ path)) (\<lambda>abspath.
          Inr (int (length abspath), abspath))))"

text \<open>What every system call does with its path first.\<close>

definition absolute :: "string \<Rightarrow> string \<Rightarrow> string res" where
  "absolute cwd path =
     bindR (copy_into PATH_MAX path) (\<lambda>path.
     if starts_with_char (CHR ''/'') path then Inr path else bindR (get_absolute_path cwd path) (\<lambda>(n, path). Inr path))"

section \<open>System calls\<close>

definition sys_close :: "int \<Rightarrow> 's vfs \<Rightarrow> (int \<times> 's vfs) res" where
  "sys_close fd s =
     (if fd < 0 then Inr (-1, s)
      else
        bindR (get_int (fd_list s) fd) (\<lambda>d.
        if fs_spec_id d \<ge> -1 then
          bindR (get_int (mountpoint_list s) (mountpoint_id d)) (\<lambda>m.
          bindR (case close_f m of None \<Rightarrow> Inr (0, fs_state s) | Some f \<Rightarrow> f (fs_spec_id d) (fs_state s)) (\<lambda>(r, t).
          bindR (set_int (fd_list s) fd (d\<lparr>fs_spec_id := -1, mountpoint_id := -1\<rparr>)) (\<lambda>fds.
          Inr (0, s\<lparr>fs_state := t, fd_list := fds\<rparr>))))
        else Inr (-1, s)))"

text \<open>The first unused descriptor, or the size of the table.\<close>

definition first_free :: "file_desc list \<Rightarrow> nat" where
  "first_free fds = (case find (\<lambda>i. mountpoint_id (fds ! i) = -1) [0..<MAX_OPEN_FD] of Some i \<Rightarrow> i | None \<Rightarrow> MAX_OPEN_FD)"

definition sys_open :: "string \<Rightarrow> string \<Rightarrow> u32 \<Rightarrow> 's vfs \<Rightarrow> (int \<times> 's vfs) res" where
  "sys_open cwd pathname flags s =
     bindR (absolute cwd pathname) (\<lambda>path.
     let s = s\<lparr>current_fd := first_free (fd_list s)\<rparr> in
     if current_fd s = MAX_OPEN_FD then Inr (-1, s)
     else
       bindR (get_mountpoint path s) (\<lambda>mp.
       case mp of
         None \<Rightarrow> Inr (-1, s)
       | Some m \<Rightarrow>
          (case open_f m of
             None \<Rightarrow> bindR (sys_close (int (current_fd s)) s) (\<lambda>(r, s). Inr (-1, s))
           | Some f \<Rightarrow>
               bindR (f path flags (fs_state s)) (\<lambda>(mpi, t).
               let s = s\<lparr>fs_state := t\<rparr> in
               if mpi = -1 then bindR (sys_close (int (current_fd s)) s) (\<lambda>(r, s). Inr (-1, s))
               else
                 bindR (set_at (fd_list s) (current_fd s)
                   \<lparr>fs_spec_id = mpi, mountpoint_id = mp_id m, fd_offset = 0, flags_mask = flags\<rparr>) (\<lambda>fds.
                 Inr (int (current_fd s), s\<lparr>fd_list := fds, current_fd := current_fd s + 1\<rparr>))))))"

definition sys_read :: "u8 \<Rightarrow> int \<Rightarrow> nat \<Rightarrow> 's vfs \<Rightarrow> (int \<times> u8 list \<times> 's vfs) res" where
  "sys_read key fd nbytes s =
     (if fd = STDIN_FILENO then Inr (1, [key], s)
      else
        bindR (get_int (fd_list s) fd) (\<lambda>d.
        bindR (get_int (mountpoint_list s) (mountpoint_id d)) (\<lambda>m.
        case read_f m of
          None \<Rightarrow> Inr (0, [], s)
        | Some f \<Rightarrow> bindR (f (fs_spec_id d) nbytes (fs_state s)) (\<lambda>(r, bs, t). Inr (r, bs, s\<lparr>fs_state := t\<rparr>)))))"

text \<open>\<open>None\<close> when the function of the file system does not return.\<close>

definition sys_write :: "int \<Rightarrow> u8 list \<Rightarrow> nat \<Rightarrow> 's vfs \<Rightarrow> (int \<times> 's vfs) res option" where
  "sys_write fd buf nbytes s =
     (if fd = STDOUT_FILENO \<or> fd = STDERR_FILENO then
        if length buf < nbytes then Some (Inl OutOfBounds)
        else Some (Inr (int nbytes, s\<lparr>screen := screen s @ take nbytes buf\<rparr>))
      else if fd > int MAX_OPEN_FD then Some (Inr (-1, s))
      else
        bindO (Some (get_int (fd_list s) fd)) (\<lambda>d.
        if flags_mask d AND O_RDWR = 0 then Some (Inr (-1, s))
        else
          bindO (Some (get_int (mountpoint_list s) (mountpoint_id d))) (\<lambda>m.
          case write_f m of
            None \<Rightarrow> Some (Inr (-1, s))
          | Some f \<Rightarrow> bindO (f (fs_spec_id d) buf nbytes (fs_state s)) (\<lambda>(r, t). Some (Inr (r, s\<lparr>fs_state := t\<rparr>))))))"

definition zero_stat :: stat where
  "zero_stat = \<lparr>st_dev = 0, st_ino = 0, st_mode = 0, st_uid = 0, st_gid = 0, st_size = 0, st_atime = 0, st_mtime = 0, st_ctime = 0\<rparr>"

definition sys_stat :: "string \<Rightarrow> string \<Rightarrow> 's vfs \<Rightarrow> (int \<times> stat) res" where
  "sys_stat cwd path s =
     bindR (absolute cwd path) (\<lambda>path.
     let mpi = get_mountpoint_id path s in
     if mpi < 0 then Inr (-1, zero_stat)
     else
       bindR (get_int (mountpoint_list s) mpi) (\<lambda>m.
       case stat_f m of
         None \<Rightarrow> Inr (-1, zero_stat\<lparr>st_dev := mpi\<rparr>)
       | Some f \<Rightarrow> Inr (0, snd (f path (zero_stat\<lparr>st_dev := mpi\<rparr>) (fs_state s)))))"

text \<open>\<open>sys_mkdir\<close>, \<open>rmdir\<close> and \<open>remove\<close> differ in the function they call.\<close>

definition on_mount :: "('s mountpoint \<Rightarrow> (string \<Rightarrow> 's \<Rightarrow> (int \<times> 's) res) option) \<Rightarrow> string \<Rightarrow> string \<Rightarrow> 's vfs \<Rightarrow> (int \<times> 's vfs) res" where
  "on_mount sel cwd path s =
     bindR (absolute cwd path) (\<lambda>path.
     let mpi = get_mountpoint_id path s in
     if mpi < 0 then Inr (-1, s)
     else
       bindR (get_int (mountpoint_list s) mpi) (\<lambda>m.
       case sel m of
         None \<Rightarrow> Inr (-1, s)
       | Some f \<Rightarrow> bindR (f path (fs_state s)) (\<lambda>(r, t). Inr (r, s\<lparr>fs_state := t\<rparr>))))"

definition sys_mkdir :: "string \<Rightarrow> string \<Rightarrow> 's vfs \<Rightarrow> (int \<times> 's vfs) res" where
  "sys_mkdir = on_mount mkdir_f"

definition rmdir :: "string \<Rightarrow> string \<Rightarrow> 's vfs \<Rightarrow> (int \<times> 's vfs) res" where
  "rmdir = on_mount rmdir_f"

definition remove_file :: "string \<Rightarrow> string \<Rightarrow> 's vfs \<Rightarrow> (int \<times> 's vfs) res" where
  "remove_file = on_mount remove_f"

definition opendir :: "DIR \<Rightarrow> string \<Rightarrow> string \<Rightarrow> 's vfs \<Rightarrow> DIR option res" where
  "opendir new cwd path s =
     bindR (absolute cwd path) (\<lambda>path.
     let mpi = get_mountpoint_id path s in
     if mpi < 0 then Inr None
     else
       bindR (get_int (mountpoint_list s) mpi) (\<lambda>m.
       case opendir_f m of
         None \<Rightarrow> Inr None
       | Some f \<Rightarrow> bindR (f new path (fs_state s)) (\<lambda>pdir. Inr (map_option (\<lambda>d. d\<lparr>dir_fd := mpi\<rparr>) pdir))))"

definition closedir :: "DIR option \<Rightarrow> 's vfs \<Rightarrow> int res" where
  "closedir dirp s =
     (case dirp of
        None \<Rightarrow> Inr (-1)
      | Some d \<Rightarrow> bindR (get_int (mountpoint_list s) (dir_fd d)) (\<lambda>m.
          case closedir_f m of None \<Rightarrow> Inr (-1) | Some f \<Rightarrow> Inr (f dirp)))"

definition sys_readdir :: "DIR option \<Rightarrow> 's vfs \<Rightarrow> (dirent option \<times> DIR option) res" where
  "sys_readdir dirp s =
     (case dirp of
        None \<Rightarrow> Inr (None, None)
      | Some d \<Rightarrow> bindR (get_int (mountpoint_list s) (dir_fd d)) (\<lambda>m.
          case readdir_f m of
            None \<Rightarrow> Inr (None, dirp)
          | Some f \<Rightarrow> bindR (f d (fs_state s)) (\<lambda>(e, d). Inr (e, Some d))))"

end
