(* ===== verification/Vfs_Correct.thy ===== *)
theory Vfs_Correct
  imports Vfs
begin

text \<open>
  The virtual file system on top of the initial file system: which mount point a path belongs to, how
  the two tables of descriptors fit together, and what the system calls on files do.
\<close>

section \<open>Mount points\<close>







section \<open>The root file system\<close>

text \<open>The state after \<open>vfs_init\<close>: the initial file system at \<open>/\<close>, and no other mount point has a name.\<close>

definition root_only :: "initrd vfs \<Rightarrow> bool" where
  "root_only s \<longleftrightarrow> (\<exists>m ms. mountpoint_list s = m # ms \<and> length ms = 9 \<and> (\<forall>n\<in>set ms. mountpoint n = []) \<and>
     mountpoint m = ''/'' \<and> mp_id m = 0 \<and> open_f m = Some initfs_open \<and> close_f m = Some initrd_close \<and>
     read_f m = Some initfs_read \<and> write_f m = Some initrd_write)"

lemma vfs_init_sel [simp]:
  "fd_list (vfs_init a b s) = map free_fd (fd_list s)" "fs_state (vfs_init a b s) = fs_state s"
  by (simp_all add: vfs_init_def Let_def)

lemma vfs_init_root: "root_only (vfs_init a b s)"
proof -
  have "[0..<10] = 0 # [Suc 0..<10]" by (simp add: upt_conv_Cons)
  then show ?thesis
    by (auto simp: root_only_def vfs_init_def MAX_MOUNTPOINT_def Let_def mount_initrd_def reset_mp_def simp del: upt_Suc)
qed



section \<open>The two tables of descriptors\<close>












section \<open>Opening and closing\<close>










section \<open>Properties\<close>

definition example_mp :: "initrd mountpoint" where
  "example_mp = \<lparr>mp_id = 0, mountpoint = [], pmask = 0, mp_uid = 0, mp_gid = 0, start_address = 0, end_address = 0, dev_id = 0,
     open_f = None, remove_f = None, close_f = None, read_f = None, write_f = None, opendir_f = None, closedir_f = None,
     mkdir_f = None, rmdir_f = None, readdir_f = None, stat_f = None\<rparr>"

text \<open>The system at boot, and with the file \<open>/home/a\<close> open for reading and writing.\<close>

definition boot_vfs :: "initrd vfs" where
  "boot_vfs = vfs_init 0 0 \<lparr>current_fd = 0,
     fd_list = replicate 4 \<lparr>fs_spec_id = 0, mountpoint_id = 0, fd_offset = 0, flags_mask = 0\<rparr>,
     mountpoint_list = replicate 10 example_mp, fs_state = example_ird\<lparr>ird_descriptors := replicate 4 free_desc, cur_irdfd := 0\<rparr>,
     screen = []\<rparr>"

definition example_vfs :: "initrd vfs" where
  "example_vfs = boot_vfs\<lparr>fs_state := example_ird,
     fd_list := \<lparr>fs_spec_id = 0, mountpoint_id = 0, fd_offset = 0, flags_mask = O_RDWR\<rparr> # tl (fd_list boot_vfs)\<rparr>"

lemma boot_root: "root_only boot_vfs"
  unfolding boot_vfs_def by (rule vfs_init_root)






text \<open>
  C26. Through the system calls, too, a text (not empty, without zero bytes, and with room for it in the module) is read back as it was written: \<open>sys_write\<close> to a descriptor that is
  open for reading and writing on an empty file, followed by \<open>sys_read\<close>. The buffer of \<open>initrd_write\<close> comes from the
  kernel heap: when it has no room, the heap's assertion fails; otherwise the blocks in use and their
  contents are afterwards what they were. This holds for texts whose length is not a multiple of 16; for the others
  the block has no room for the terminator, which is copied behind it (\<open>buffer_too_short\<close>). The descriptor
  has to have been opened with \<open>O_RDWR\<close>: with \<open>O_WRONLY\<close> alone \<open>sys_write\<close> returns -1.
\<close>

theorem syscall_write_read:
  assumes "root_only s" "k < length (fd_list s)" "k < MAX_OPEN_FD" "mountpoint_id (fd_list s ! k) = 0" "fs_spec_id (fd_list s ! k) = int i"
    "open_on (fs_state s) i lfd 0 []" "0 \<notin> set text" "request_ok (length text)" "\<not> 16 dvd length text"
    "length text + 1 < 2 ^ 31" "unat (data_start (fs_headers (fs_state s) ! lfd)) + length text + 1 \<le> module_size (fs_state s)"
    "kheap_inv (ird_heap (fs_state s)) bs fs" "0 < n"
  shows "if flags_mask (fd_list s ! k) AND O_RDWR = 0 then sys_write (int k) (text @ 0 # rest) (length text) s = Some (Inr (-1, s))
    else sys_write (int k) (text @ 0 # rest) (length text) s = Some (Inl AssertFail) \<and>
        vm_end (kernel_heap (ird_heap (fs_state s))) < kernel_heap_curr (ird_heap (fs_state s)) + 12 + ceil_to (length text) 16 \<or>
      (\<exists>s1 s2 bs' fs'. sys_write (int k) (text @ 0 # rest) (length text) s = Some (Inr (int (length text + 1), s1)) \<and>
        sys_read key (int k) n s1 = Inr (if length text < n then -1 else int n, take n (text @ [0]), s2) \<and>
        kheap_inv (ird_heap (fs_state s1)) bs' fs' \<and> used bs' = used bs \<and>
        same_payload (used bs) (bytes (ird_heap (fs_state s))) (bytes (ird_heap (fs_state s1))))"
proof -
  let ?text = "text @ 0 # rest"
  obtain m ms where m: "mountpoint_list s = m # ms" "read_f m = Some initfs_read" "write_f m = Some initrd_write"
    using assms(1) by (auto simp: root_only_def)
  have nonstd: "int k \<noteq> STDOUT_FILENO" "int k \<noteq> STDERR_FILENO" "int k \<noteq> STDIN_FILENO"
    by (simp_all add: STDOUT_FILENO_def STDERR_FILENO_def STDIN_FILENO_def)
  have w: "sys_write (int k) ?text (length text) s = (if flags_mask (fd_list s ! k) AND O_RDWR = 0 then Some (Inr (-1, s))
    else bindO (initrd_write (int i) ?text (length text) (fs_state s)) (\<lambda>(r, t). Some (Inr (r, s\<lparr>fs_state := t\<rparr>))))"
    using assms(2-5) m nonstd by (simp add: sys_write_def get_int_def)
  from write_ok[OF assms(6-12), of rest] show ?thesis
  proof (elim disjE exE conjE)
    fix t1 bs' fs'
    assume t1: "initrd_write (int i) ?text (length text) (fs_state s) = Some (Inr (int (length text + 1), t1))"
      "open_on t1 i lfd 0 (text @ [0])" "kheap_inv (ird_heap t1) bs' fs'" "used bs' = used bs"
      "same_payload (used bs) (bytes (ird_heap (fs_state s))) (bytes (ird_heap t1))"
    obtain t2 where t2: "initfs_read (int i) n t1 = Inr (if length text < n then -1 else int n, take n (text @ [0]), t2)"
      using read_ok[OF t1(2) assms(13)] by auto
    then have "sys_read key (int k) n (s\<lparr>fs_state := t1\<rparr>) =
        Inr (if length text < n then -1 else int n, take n (text @ [0]), s\<lparr>fs_state := t2\<rparr>)"
      using assms(2-5) m nonstd by (simp add: sys_read_def get_int_def)
    then show ?thesis using w t1 by fastforce
  qed (simp add: w)
qed

lemma example_root: "root_only example_vfs"
  using boot_root by (simp add: example_vfs_def root_only_def)

theorem syscall_write_read_witness:
  "\<exists>s1 s2 bs fs. sys_write 0 [104, 105, 0] (length [104, 105 :: u8]) example_vfs = Some (Inr (3, s1)) \<and>
     sys_read 0 0 2 s1 = Inr (2, [104, 105], s2) \<and> kheap_inv (ird_heap (fs_state s1)) bs fs \<and> used bs = {}"
proof -
  have f: "fd_list example_vfs ! 0 = \<lparr>fs_spec_id = 0, mountpoint_id = 0, fd_offset = 0, flags_mask = O_RDWR\<rparr>"
    "0 < length (fd_list example_vfs)" "fs_state example_vfs = example_ird" by (simp_all add: example_vfs_def)
  have o: "open_on (fs_state example_vfs) 0 1 0 []"
    by (simp add: f open_on_def example_ird_def stored_def headers_end_def MAX_FILES_def)
  have b: "unat (data_start (fs_headers (fs_state example_vfs) ! 1)) + 2 + 1 \<le> module_size (fs_state example_vfs)"
    by (simp add: f example_ird_def)
  have h: "ird_heap (fs_state example_vfs) = page_heap" by (simp add: f example_ird_def)
  have room: "\<not> vm_end (kernel_heap page_heap) < kernel_heap_curr page_heap + 12 + ceil_to (Suc (Suc 0)) 16"
    by (simp add: page_heap_def ceil_to_def)
  have fl: "O_RDWR AND O_RDWR \<noteq> (0 :: u32)" by (simp add: O_RDWR_def)
  have c: "request_ok (Suc (Suc 0))" "\<not> 16 dvd Suc (Suc 0)"
    by (simp_all add: request_ok_def dvd_eq_mod_eq_0)
  show ?thesis
    using syscall_write_read[OF example_root f(2), of 0 1 "[104, 105]" "[]" "[]" 2 "[]" 0] f(1) o b fl page_heap_inv room c
    by (auto simp: h used_def MAX_OPEN_FD_def simp del: One_nat_def)
qed

end
