(* ===== verification/Printf.thy ===== *)
theory Printf
  imports Prelude
begin

text \<open>
  Formatted output (\<open>libc/vsprintf.c\<close>) and \<open>atoi\<close> of \<open>libc/stdio.c\<close>. A routine that writes through a pointer
  and returns the new pointer returns the characters it writes. The arguments of a call are a list;
  an argument that is missing or of another kind is a fault. Widths and precisions are unbounded
  integers. Doubles are a type parameter: the record \<open>fp\<close> has what the code asks of them, with the digit
  conversion of \<open>fcvt.c\<close>.
\<close>

section \<open>Flags and digits\<close>

definition FLAGS_ZEROPAD :: u32 where "FLAGS_ZEROPAD = 1"
definition FLAGS_LEFT :: u32 where "FLAGS_LEFT = 2"
definition FLAGS_PLUS :: u32 where "FLAGS_PLUS = 4"
definition FLAGS_SPACE :: u32 where "FLAGS_SPACE = 8"
definition FLAGS_HASH :: u32 where "FLAGS_HASH = 16"
definition FLAGS_UPPERCASE :: u32 where "FLAGS_UPPERCASE = 32"
definition FLAGS_SIGN :: u32 where "FLAGS_SIGN = 64"

definition flag :: "u32 \<Rightarrow> u32 \<Rightarrow> bool" where
  "flag ty f \<longleftrightarrow> ty AND f \<noteq> 0"

definition digits :: string where "digits = ''0123456789abcdefghijklmnopqrstuvwxyz''"
definition upper_digits :: string where "upper_digits = ''0123456789ABCDEFGHIJKLMNOPQRSTUVWXYZ''"

definition code :: "char \<Rightarrow> int" where "code c = of_char c"

definition is_digit :: "char \<Rightarrow> bool" where
  "is_digit c \<longleftrightarrow> code c \<ge> 48 \<and> code c \<le> 57"

text \<open>Called on a string that starts with a digit; the value and the rest.\<close>

definition skip_atoi :: "string \<Rightarrow> int \<times> string" where
  "skip_atoi s = (foldl (\<lambda>i c. i * 10 + code c - 48) 0 (takeWhile is_digit s), dropWhile is_digit s)"

section \<open>Numbers\<close>

text \<open>The digits in \<open>tmp\<close>, lowest first.\<close>

fun rev_digits :: "string \<Rightarrow> nat \<Rightarrow> nat \<Rightarrow> string" where
  "rev_digits dig base n = (if n = 0 \<or> base < 2 then [] else dig ! (n mod base) # rev_digits dig base (n div base))"

declare rev_digits.simps [simp del]

text \<open>\<open>while (size-- > 0) *str++ = c\<close>: what is written and \<open>size\<close> afterwards.\<close>

definition pad :: "char \<Rightarrow> int \<Rightarrow> string \<times> int" where
  "pad c n = (replicate (nat n) c, if n > 0 then -1 else n - 1)"

text \<open>The sign, the magnitude and what the sign takes from the field.\<close>

definition sign_of :: "u32 \<Rightarrow> u32 \<Rightarrow> string \<times> u32 \<times> int" where
  "sign_of ty num =
     (if flag ty FLAGS_SIGN then
        if sint num < 0 then (''-'', - num, 1)
        else if flag ty FLAGS_PLUS then (''+'', num, 1)
        else if flag ty FLAGS_SPACE then ('' '', num, 1)
        else ([], num, 0)
      else ([], num, 0))"

definition dig_of :: "u32 \<Rightarrow> string" where
  "dig_of ty = (if flag ty FLAGS_UPPERCASE then upper_digits else digits)"

definition tmp_of :: "string \<Rightarrow> nat \<Rightarrow> u32 \<Rightarrow> string" where
  "tmp_of dig base num = (if num = 0 then ''0'' else rev_digits dig base (unat num))"

definition number :: "u32 \<Rightarrow> nat \<Rightarrow> int \<Rightarrow> int \<Rightarrow> u32 \<Rightarrow> string option" where
  "number num base size' precision ty =
     (let dig = dig_of ty;
          ty = (if flag ty FLAGS_LEFT then ty AND NOT FLAGS_ZEROPAD else ty)
      in if base < 2 \<or> base > 36 then None
      else
        let c = (if flag ty FLAGS_ZEROPAD then CHR ''0'' else CHR '' '');
            (sign, num, taken) = sign_of ty num;
            size' = size' - taken;
            size' = (if flag ty FLAGS_HASH then if base = 16 then size' - 2 else if base = 8 then size' - 1 else size' else size');
            tmp = tmp_of dig base num;
            precision = max (int (length tmp)) precision;
            size' = size' - precision;
            (spaces, size') = (if \<not> flag ty FLAGS_ZEROPAD \<and> \<not> flag ty FLAGS_LEFT then pad (CHR '' '') size' else ([], size'));
            prefix = (if flag ty FLAGS_HASH then if base = 8 then ''0'' else if base = 16 then ''0'' @ [digits ! 33] else [] else []);
            (fill, size') = (if \<not> flag ty FLAGS_LEFT then pad c size' else ([], size'));
            zeros = replicate (nat (precision - int (length tmp))) (CHR ''0'')
        in Some (spaces @ sign @ prefix @ fill @ zeros @ rev tmp @ fst (pad (CHR '' '') size')))"

section \<open>Addresses\<close>

text \<open>\<open>while (len < size--) *str++ = ' '\<close>\<close>

definition pad_to :: "nat \<Rightarrow> int \<Rightarrow> string \<times> int" where
  "pad_to len n = (replicate (nat (n - int len)) (CHR '' ''), if int len < n then int len - 1 else n - 1)"

definition in_field :: "string \<Rightarrow> int \<Rightarrow> u32 \<Rightarrow> string" where
  "in_field tmp size' ty =
     (let (before, size') = (if flag ty FLAGS_LEFT then ([], size') else pad_to (length tmp) size')
      in before @ tmp @ fst (pad_to (length tmp) size'))"

definition hex2 :: "string \<Rightarrow> u8 \<Rightarrow> string" where
  "hex2 dig b = [dig ! unat (drop_bit 4 b), dig ! unat (b AND 0x0F)]"

fun joined :: "char \<Rightarrow> string list \<Rightarrow> string" where
  "joined c [] = []"
| "joined c [x] = x"
| "joined c (x # xs) = x @ c # joined c xs"

definition eaddr :: "u8 list \<Rightarrow> int \<Rightarrow> int \<Rightarrow> u32 \<Rightarrow> string res" where
  "eaddr addr size' precision ty =
     (if length addr < 6 then Inl OutOfBounds
      else
        let dig = dig_of ty
        in Inr (in_field (joined (CHR '':'') (map (hex2 dig) (take 6 addr))) size' ty))"

definition decimal3 :: "nat \<Rightarrow> string" where
  "decimal3 n =
     (if n = 0 then [digits ! 0]
      else if n \<ge> 100 then [digits ! (n div 100), digits ! (n mod 100 div 10), digits ! (n mod 100 mod 10)]
      else if n \<ge> 10 then [digits ! (n div 10), digits ! (n mod 10)]
      else [digits ! n])"

definition iaddr :: "u8 list \<Rightarrow> int \<Rightarrow> int \<Rightarrow> u32 \<Rightarrow> string res" where
  "iaddr addr size' precision ty =
     (if length addr < 4 then Inl OutOfBounds
      else Inr (in_field (joined (CHR ''.'') (map (\<lambda>b. decimal3 (unat b)) (take 4 addr))) size' ty))"


section \<open>Floating point\<close>

text \<open>
  What the code asks of a double: whether it is negative or zero, its negation, and the digits, the
  place of the decimal point and the sign that \<open>ecvtbuf\<close> and \<open>fcvtbuf\<close> compute.
\<close>

record 'd fp =
  negative :: "'d \<Rightarrow> bool"
  is_zero :: "'d \<Rightarrow> bool"
  negated :: "'d \<Rightarrow> 'd"
  ecvtbuf :: "'d \<Rightarrow> int \<Rightarrow> string \<times> int \<times> bool"
  fcvtbuf :: "'d \<Rightarrow> int \<Rightarrow> string \<times> int \<times> bool"

definition exp_digits :: "int \<Rightarrow> string" where
  "exp_digits e = map (\<lambda>k. digits ! nat (k mod 10)) [e div 10 div 10, e div 10, e]"

definition fmt_e :: "'d fp \<Rightarrow> 'd \<Rightarrow> bool \<Rightarrow> int \<Rightarrow> string res" where
  "fmt_e F value' capexp precision =
     (let (ds, decpt, sign) = ecvtbuf F value' (precision + 1) in
      if int (length ds) \<le> max 0 precision then Inl OutOfBounds
      else
        let e = (if decpt = 0 then if is_zero F value' then 0 else -1 else decpt - 1)
        in Inr ((if sign then ''-'' else []) @ [hd ds] @ (if precision > 0 then ''.'' else []) @ take (nat precision) (tl ds) @
             [if capexp then CHR ''E'' else CHR ''e''] @ (if e < 0 then ''-'' else ''+'') @ exp_digits \<bar>e\<bar>))"

text \<open>The loop that puts the point before the digit with number \<open>decpt\<close>.\<close>

definition with_point :: "string \<Rightarrow> int \<Rightarrow> string" where
  "with_point ds decpt = (if decpt < int (length ds) then take (nat decpt) ds @ ''.'' @ drop (nat decpt) ds else ds)"

definition fmt_f :: "'d fp \<Rightarrow> 'd \<Rightarrow> int \<Rightarrow> string" where
  "fmt_f F value' precision =
     (let (ds, decpt, sign) = fcvtbuf F value' precision in
      (if sign then ''-'' else []) @
      (if ds \<noteq> [] then
         if decpt \<le> 0 then ''0.'' @ replicate (nat (- decpt)) (CHR ''0'') @ ds else with_point ds decpt
       else ''0'' @ (if precision > 0 then ''.'' @ replicate (nat precision) (CHR ''0'') else [])))"

definition cfltcvt :: "'d fp \<Rightarrow> 'd \<Rightarrow> char \<Rightarrow> int \<Rightarrow> string res" where
  "cfltcvt F value' fmt precision =
     (let capexp = (fmt = CHR ''G'' \<or> fmt = CHR ''E'');
          fmt = (if fmt = CHR ''G'' then CHR ''g'' else if fmt = CHR ''E'' then CHR ''e'' else fmt);
          (fmt, precision) =
            (if fmt = CHR ''g'' then
               let (ds, decpt, sign) = ecvtbuf F value' precision; magnitude = decpt - 1 in
               if magnitude < -4 \<or> magnitude > precision - 1 then (CHR ''e'', precision - 1) else (CHR ''f'', precision - decpt)
             else (fmt, precision))
      in if fmt = CHR ''e'' then fmt_e F value' capexp precision
         else if fmt = CHR ''f'' then Inr (fmt_f F value' precision)
         else Inr [])"

text \<open>
  A decimal point is forced in front of an exponent. The loop moves the characters behind the \<open>e\<close> by one place,
  but not the \<open>e\<close> itself, which the point replaces; the character behind it stays where it was, too.
\<close>

definition forcdecpt :: "string \<Rightarrow> string" where
  "forcdecpt s =
     (let pre = takeWhile (\<lambda>c. c \<notin> {CHR ''.'', CHR ''e'', CHR ''E''}) s; rest = drop (length pre) s in
      case rest of
        [] \<Rightarrow> s @ ''.''
      | c # r \<Rightarrow> if c = CHR ''.'' then s else pre @ ''.'' @ (case r of [] \<Rightarrow> [] | x # xs \<Rightarrow> x # r))"

definition cropzeros :: "string \<Rightarrow> string" where
  "cropzeros s =
     (let pre = takeWhile (\<lambda>c. c \<noteq> CHR ''.'') s; rest = drop (length pre) s in
      case rest of
        [] \<Rightarrow> s
      | c # r \<Rightarrow>
          let frac = takeWhile (\<lambda>c. c \<notin> {CHR ''e'', CHR ''E''}) r; stop = drop (length frac) r;
              kept = rev (dropWhile (\<lambda>c. c = CHR ''0'') (rev (c # frac)))
          in pre @ (if kept = [c] then [] else kept) @ stop)"

definition flt :: "'d fp \<Rightarrow> 'd \<Rightarrow> int \<Rightarrow> int \<Rightarrow> char \<Rightarrow> u32 \<Rightarrow> string res" where
  "flt F num size' precision fmt flags =
     (let flags = (if flag flags FLAGS_LEFT then flags AND NOT FLAGS_ZEROPAD else flags);
          c = (if flag flags FLAGS_ZEROPAD then CHR ''0'' else CHR '' '');
          (sign, num, size') =
            (if flag flags FLAGS_SIGN then
               if negative F num then (''-'', negated F num, size' - 1)
               else if flag flags FLAGS_PLUS then (''+'', num, size' - 1)
               else if flag flags FLAGS_SPACE then ('' '', num, size' - 1)
               else ([], num, size')
             else ([], num, size'));
          precision = (if precision < 0 then 6 else if precision = 0 \<and> fmt = CHR ''g'' then 1 else precision)
      in
        bindR (cfltcvt F num fmt precision) (\<lambda>tmp.
        if length tmp \<ge> 80 then Inl OutOfBounds
        else
          let tmp = (if flag flags FLAGS_HASH \<and> precision = 0 then forcdecpt tmp else tmp);
              tmp = (if fmt = CHR ''g'' \<and> \<not> flag flags FLAGS_HASH then cropzeros tmp else tmp);
              size' = size' - int (length tmp);
              (spaces, size') = (if \<not> flag flags FLAGS_ZEROPAD \<and> \<not> flag flags FLAGS_LEFT then pad (CHR '' '') size' else ([], size'));
              (fill, size') = (if \<not> flag flags FLAGS_LEFT then pad c size' else ([], size'))
          in Inr (spaces @ sign @ fill @ tmp @ fst (pad (CHR '' '') size'))))"

section \<open>Formats\<close>

text \<open>An argument: an integer or pointer, a string, the bytes of an address, a double, or a place for \<open>%n\<close>.\<close>

datatype 'd arg = IntA u32 | Str "string option" | Bytes "u8 list" | Dbl 'd | Ref nat

fun next_int :: "'d arg list \<Rightarrow> (u32 \<times> 'd arg list) res" where
  "next_int (IntA w # args) = Inr (w, args)"
| "next_int _ = Inl OutOfBounds"

fun parse_flags :: "string \<Rightarrow> u32 \<Rightarrow> u32 \<times> string" where
  "parse_flags [] flags = (flags, [])"
| "parse_flags (c # cs) flags =
     (if c = CHR ''-'' then parse_flags cs (flags OR FLAGS_LEFT)
      else if c = CHR ''+'' then parse_flags cs (flags OR FLAGS_PLUS)
      else if c = CHR '' '' then parse_flags cs (flags OR FLAGS_SPACE)
      else if c = CHR ''#'' then parse_flags cs (flags OR FLAGS_HASH)
      else if c = CHR ''0'' then parse_flags cs (flags OR FLAGS_ZEROPAD)
      else (flags, c # cs))"

definition parse_width :: "string \<Rightarrow> u32 \<Rightarrow> 'd arg list \<Rightarrow> (int \<times> u32 \<times> string \<times> 'd arg list) res" where
  "parse_width fmt flags args =
     (case fmt of
        [] \<Rightarrow> Inr (-1, flags, fmt, args)
      | c # cs \<Rightarrow>
          if is_digit c then let (n, fmt) = skip_atoi fmt in Inr (n, flags, fmt, args)
          else if c = CHR ''*'' then
            bindR (next_int args) (\<lambda>(w, args).
            if sint w < 0 then Inr (- sint w, flags OR FLAGS_LEFT, cs, args) else Inr (sint w, flags, cs, args))
          else Inr (-1, flags, fmt, args))"

definition parse_precision :: "string \<Rightarrow> 'd arg list \<Rightarrow> (int \<times> string \<times> 'd arg list) res" where
  "parse_precision fmt args =
     (case fmt of
        [] \<Rightarrow> Inr (-1, fmt, args)
      | c # cs \<Rightarrow>
          if c \<noteq> CHR ''.'' then Inr (-1, fmt, args)
          else
            (case cs of
               [] \<Rightarrow> Inr (0, cs, args)
             | d # ds \<Rightarrow>
                 if is_digit d then let (n, fmt) = skip_atoi cs in Inr (max 0 n, fmt, args)
                 else if d = CHR ''*'' then bindR (next_int args) (\<lambda>(w, args). Inr (max 0 (sint w), ds, args))
                 else Inr (0, cs, args)))"

definition parse_qualifier :: "string \<Rightarrow> char option \<times> string" where
  "parse_qualifier fmt =
     (case fmt of [] \<Rightarrow> (None, fmt)
      | c # cs \<Rightarrow> if c \<in> {CHR ''h'', CHR ''l'', CHR ''L''} then (Some c, cs) else (None, fmt))"

text \<open>The argument of an integer conversion at the width of the qualifier: signed or unsigned.\<close>

definition narrow :: "bool \<Rightarrow> char option \<Rightarrow> u32 \<Rightarrow> u32" where
  "narrow signed' q w =
     (if q = Some (CHR ''h'') then if signed' then word_of_int (sint (ucast w :: u16)) else ucast (ucast w :: u16) else w)"

definition conv_int :: "nat \<Rightarrow> char option \<Rightarrow> int \<Rightarrow> int \<Rightarrow> u32 \<Rightarrow> 'd arg list \<Rightarrow> (string \<times> 'd arg list) res" where
  "conv_int base q width precision flags args =
     bindR (next_int args) (\<lambda>(w, args).
     case number (narrow (flag flags FLAGS_SIGN) q w) base width precision flags of
       None \<Rightarrow> Inl NullDeref
     | Some s \<Rightarrow> Inr (s, args))"

definition conv_char :: "int \<Rightarrow> u32 \<Rightarrow> 'd arg list \<Rightarrow> (string \<times> 'd arg list) res" where
  "conv_char width flags args =
     bindR (next_int args) (\<lambda>(w, args).
     let (before, width) = (if flag flags FLAGS_LEFT then ([], width)
            else (replicate (nat (width - 1)) (CHR '' ''), if width - 1 > 0 then 0 else width - 1))
     in Inr (before @ [char_of (uint w)] @ replicate (nat (width - 1)) (CHR '' ''), args))"

fun conv_str :: "int \<Rightarrow> int \<Rightarrow> u32 \<Rightarrow> 'd arg list \<Rightarrow> (string \<times> 'd arg list) res" where
  "conv_str width precision flags (Str s # args) =
     (let s = (case s of None \<Rightarrow> ''<NULL>'' | Some s \<Rightarrow> s);
          s = (if precision < 0 then s else take (nat precision) s)
      in Inr (in_field s width flags, args))"
| "conv_str width precision flags _ = Inl OutOfBounds"

text \<open>The conversion; the result is what is written, the rest of the arguments and a store of \<open>%n\<close>.\<close>

definition convert ::
  "'d fp \<Rightarrow> char \<Rightarrow> char option \<Rightarrow> int \<Rightarrow> int \<Rightarrow> u32 \<Rightarrow> nat \<Rightarrow> 'd arg list \<Rightarrow> (string \<times> 'd arg list \<times> (nat \<times> nat) list) res" where
  "convert F c q width precision flags n args =
     (let plain = (\<lambda>r. bindR r (\<lambda>(s, args). Inr (s, args, []))) in
      if c = CHR ''c'' then plain (conv_char width flags args)
      else if c = CHR ''s'' then plain (conv_str width precision flags args)
      else if c = CHR ''p'' then
        (if width = -1 then plain (conv_int 16 None 8 precision (flags OR FLAGS_ZEROPAD) args)
         else plain (conv_int 16 None width precision flags args))
      else if c = CHR ''n'' then (case args of Ref p # args \<Rightarrow> Inr ([], args, [(p, n)]) | _ \<Rightarrow> Inl OutOfBounds)
      else if c = CHR ''A'' then plain (conv_int 10 q width precision (flags OR FLAGS_UPPERCASE) args)
      else if c = CHR ''a'' then
        (case args of
           Bytes a # args \<Rightarrow>
             bindR (if q = Some (CHR ''l'') then eaddr a width precision flags else iaddr a width precision flags) (\<lambda>s. Inr (s, args, []))
         | _ \<Rightarrow> Inl OutOfBounds)
      else if c = CHR ''o'' then plain (conv_int 8 q width precision flags args)
      else if c = CHR ''X'' then plain (conv_int 10 q width precision (flags OR FLAGS_UPPERCASE) args)
      else if c = CHR ''x'' then plain (conv_int 16 q width precision flags args)
      else if c = CHR ''d'' \<or> c = CHR ''i'' then plain (conv_int 10 q width precision (flags OR FLAGS_SIGN) args)
      else if c = CHR ''u'' then plain (conv_int 10 q width precision flags args)
      else if c \<in> {CHR ''E'', CHR ''G'', CHR ''e'', CHR ''f'', CHR ''g''} then
        (case args of
           Dbl x # args \<Rightarrow> bindR (flt F x width precision c (flags OR FLAGS_SIGN)) (\<lambda>s. Inr (s, args, []))
         | _ \<Rightarrow> Inl OutOfBounds)
      else Inr ((if c \<noteq> CHR ''%'' then ''%'' else []) @ [c], args, []))"

text \<open>A conversion specification from behind its percent sign on; the end of the format stands for its terminator.\<close>

definition directive ::
  "'d fp \<Rightarrow> string \<Rightarrow> nat \<Rightarrow> 'd arg list \<Rightarrow> (string \<times> string \<times> 'd arg list \<times> (nat \<times> nat) list) res" where
  "directive F fmt n args =
     (let (flags, fmt) = parse_flags fmt 0 in
      bindR (parse_width fmt flags args) (\<lambda>(width, flags, fmt, args).
      bindR (parse_precision fmt args) (\<lambda>(precision, fmt, args).
      let (q, fmt) = parse_qualifier fmt in
      case fmt of
        [] \<Rightarrow> Inr (''%'', [], args, [])
      | c # fmt \<Rightarrow> bindR (convert F c q width precision flags n args) (\<lambda>(s, args, st). Inr (s, fmt, args, st)))))"


lemma parse_flags_shorter: "length (snd (parse_flags fmt f)) \<le> length fmt"
  by (induction fmt f rule: parse_flags.induct) (auto split: if_splits)

lemma parse_width_shorter: "parse_width fmt f args = Inr (w, f', fmt', args') \<Longrightarrow> length fmt' \<le> length fmt"
  using length_dropWhile_le[of is_digit fmt]
  by (auto simp: parse_width_def skip_atoi_def split: list.splits if_splits)

lemma parse_precision_shorter: "parse_precision fmt args = Inr (p, fmt', args') \<Longrightarrow> length fmt' \<le> length fmt"
  using length_dropWhile_le[of is_digit "tl fmt"]
  by (auto simp: parse_precision_def skip_atoi_def split: list.splits if_splits)

lemma parse_qualifier_shorter: "parse_qualifier fmt = (q, fmt') \<Longrightarrow> length fmt' \<le> length fmt"
  by (auto simp: parse_qualifier_def split: list.splits if_splits)

lemma directive_shorter:
  assumes "directive F fmt n args = Inr (s, fmt', args', st)"
  shows "length fmt' \<le> length fmt"
proof -
  obtain fl f1 where f1: "parse_flags fmt 0 = (fl, f1)" by fastforce
  obtain w fl' f2 a2 p f3 a3 where r: "parse_width f1 fl args = Inr (w, fl', f2, a2)" "parse_precision f2 a2 = Inr (p, f3, a3)"
    using assms by (auto simp: directive_def f1)
  obtain q f4 where f4: "parse_qualifier f3 = (q, f4)" by fastforce
  have "length f4 \<le> length fmt"
    using parse_flags_shorter[of fmt 0] parse_width_shorter[OF r(1)] parse_precision_shorter[OF r(2)] parse_qualifier_shorter[OF f4] f1 by simp
  then show ?thesis using assms by (cases f4) (auto simp: directive_def f1 r f4)
qed

text \<open>The loop over the format: \<open>out\<close> has been written so far, \<open>st\<close> was stored by \<open>%n\<close>.\<close>

function vsprintf_loop :: "'d fp \<Rightarrow> string \<Rightarrow> 'd arg list \<Rightarrow> string \<Rightarrow> (nat \<times> nat) list \<Rightarrow> (string \<times> (nat \<times> nat) list) res" where
  "vsprintf_loop F [] args out st = Inr (out, st)"
| "vsprintf_loop F (c # fmt) args out st =
     (if c \<noteq> CHR ''%'' then vsprintf_loop F fmt args (out @ [c]) st
      else
        bindR (directive F fmt (length out) args) (\<lambda>(s, fmt, args, st'). vsprintf_loop F fmt args (out @ s) (st @ st')))"
  by pat_completeness auto

termination
  by (relation "measure (\<lambda>(F, fmt, args, out, st). length fmt)") (auto dest!: directive_shorter)

text \<open>The length that is returned, the text and the stores.\<close>

definition vsprintf :: "'d fp \<Rightarrow> string \<Rightarrow> 'd arg list \<Rightarrow> (int \<times> string \<times> (nat \<times> nat) list) res" where
  "vsprintf F fmt args = bindR (vsprintf_loop F fmt args [] []) (\<lambda>(out, st). Inr (int (length out), out, st))"

definition sprintf :: "'d fp \<Rightarrow> string \<Rightarrow> 'd arg list \<Rightarrow> (int \<times> string \<times> (nat \<times> nat) list) res" where
  "sprintf F fmt args = vsprintf F fmt args"

section \<open>Reading numbers\<close>

text \<open>The arithmetic of \<open>int\<close> at 32 bits, with the wrap-around of the machine.\<close>

definition atoi :: "string option \<Rightarrow> u32" where
  "atoi str =
     (case str of
        None \<Rightarrow> 0
      | Some s \<Rightarrow>
          let neg = (case s of [] \<Rightarrow> False | c # cs \<Rightarrow> c = CHR ''-'');
              ds = (if neg then tl s else s)
          in if \<not> list_all is_digit ds then -1
             else
               let result = foldl (\<lambda>r c. r * 10 + word_of_int (code c) - 48) 0 ds
               in if neg then - result else result)"

end
