(* ===== verification/Printf_Correct.thy ===== *)
theory Printf_Correct
  imports Printf
begin

text \<open>
  The layout of a formatted number in its field, that its digits denote its value, and that a number
  that is printed and read again is the same number.
\<close>

section \<open>Digits\<close>

fun remainders :: "nat \<Rightarrow> nat \<Rightarrow> nat list" where
  "remainders base n = (if n = 0 \<or> base < 2 then [] else n mod base # remainders base (n div base))"

declare remainders.simps [simp del]

lemma rev_digits_map: "rev_digits dig base n = map ((!) dig) (remainders base n)"
  by (induction base n rule: remainders.induct) (subst rev_digits.simps, subst remainders.simps, simp)

definition horner :: "nat \<Rightarrow> nat list \<Rightarrow> nat" where
  "horner base ds = foldl (\<lambda>n d. n * base + d) 0 ds"

lemma horner_snoc [simp]: "horner base (ds @ [d]) = horner base ds * base + d" "horner base [] = 0"
  by (simp_all add: horner_def)

lemma horner_remainders: "2 \<le> base \<Longrightarrow> horner base (rev (remainders base n)) = n"
proof (induction base n rule: remainders.induct)
  case (1 base n)
  then show ?case by (subst remainders.simps) auto
qed

lemma remainders_less: "2 \<le> base \<Longrightarrow> list_all (\<lambda>d. d < base) (remainders base n)"
proof (induction base n rule: remainders.induct)
  case (1 base n)
  then show ?case by (subst remainders.simps) auto
qed

lemma remainders_nonzero: "2 \<le> base \<Longrightarrow> 0 < n \<Longrightarrow> remainders base n \<noteq> [] \<and> last (remainders base n) \<noteq> 0"
proof (induction base n rule: remainders.induct)
  case (1 base n)
  show ?case
  proof (cases "n div base = 0")
    case True
    then have "remainders base (n div base) = []" by (subst remainders.simps) simp
    moreover have "n mod base \<noteq> 0" using True 1 by (simp add: div_eq_0_iff)
    ultimately show ?thesis using 1 by (subst remainders.simps, subst remainders.simps) simp
  next
    case False
    then show ?thesis using 1 by (subst remainders.simps, subst remainders.simps) simp
  qed
qed

text \<open>The digits of a number, highest first; zero has one.\<close>

definition digit_list :: "nat \<Rightarrow> nat \<Rightarrow> nat list" where
  "digit_list base n = (if n = 0 then [0] else rev (remainders base n))"

lemma digit_list_ok:
  assumes "2 \<le> base"
  shows "horner base (digit_list base n) = n" "list_all (\<lambda>d. d < base) (digit_list base n)" "digit_list base n \<noteq> []"
    "hd (digit_list base n) = 0 \<Longrightarrow> n = 0"
  using assms horner_remainders[of base n] remainders_less[of base n] remainders_nonzero[of base n]
  by (auto simp: digit_list_def horner_def hd_rev split: if_splits)

section \<open>The field of a number\<close>

lemma flag_clear [simp]:
  "flag (ty AND NOT FLAGS_ZEROPAD) FLAGS_LEFT = flag ty FLAGS_LEFT" "flag (ty AND NOT FLAGS_ZEROPAD) FLAGS_SIGN = flag ty FLAGS_SIGN"
  "flag (ty AND NOT FLAGS_ZEROPAD) FLAGS_PLUS = flag ty FLAGS_PLUS" "flag (ty AND NOT FLAGS_ZEROPAD) FLAGS_SPACE = flag ty FLAGS_SPACE"
  "flag (ty AND NOT FLAGS_ZEROPAD) FLAGS_HASH = flag ty FLAGS_HASH" "\<not> flag (ty AND NOT FLAGS_ZEROPAD) FLAGS_ZEROPAD"
  by (simp_all add: flag_def and.assoc FLAGS_ZEROPAD_def FLAGS_LEFT_def FLAGS_SIGN_def FLAGS_PLUS_def FLAGS_SPACE_def FLAGS_HASH_def)

lemma sign_of_clear [simp]: "sign_of (ty AND NOT FLAGS_ZEROPAD) num = sign_of ty num"
  by (simp add: sign_of_def)

lemma sign_taken: "sign_of ty num = (sg, mag, taken) \<Longrightarrow> taken = int (length sg)"
  by (auto simp: sign_of_def split: if_splits)

definition prefix_of :: "nat \<Rightarrow> u32 \<Rightarrow> string" where
  "prefix_of base ty = (if flag ty FLAGS_HASH then if base = 8 then ''0'' else if base = 16 then ''0x'' else [] else [])"

text \<open>Head (sign and prefix) and body (digits with leading zeros) in a field of a given width.\<close>

definition laid_out :: "string \<Rightarrow> string \<Rightarrow> int \<Rightarrow> u32 \<Rightarrow> string" where
  "laid_out h b width ty =
     (let w = nat (width - int (length h + length b)) in
      if flag ty FLAGS_LEFT then h @ b @ replicate w (CHR '' '')
      else if flag ty FLAGS_ZEROPAD then h @ replicate w (CHR ''0'') @ b
      else replicate w (CHR '' '') @ h @ b)"

lemma laid_out_length: "length (laid_out h b width ty) = max (length h + length b) (nat width)"
  by (auto simp: laid_out_def Let_def)

lemma pad_done [simp]: "fst (pad c z) = replicate (nat z) c" "nat (snd (pad c z)) = 0" "snd (pad c z) \<le> 0"
    "nat (snd (pad c (snd (pad d z)))) = 0"
  by (simp_all add: pad_def)

lemma hash_size:
  "(if flag ty FLAGS_HASH then if base = 16 then n - 2 else if base = 8 then n - 1 else n else n) = n - int (length (prefix_of base ty))"
  by (simp add: prefix_of_def)

lemma hash_prefix:
  "(if flag ty FLAGS_HASH then if base = 8 then ''0'' else if base = 16 then ''0'' @ [digits ! 33] else [] else []) = prefix_of base ty"
  by (simp add: prefix_of_def digits_def)

lemma prefix_clear [simp]: "prefix_of base (ty AND NOT FLAGS_ZEROPAD) = prefix_of base ty"
  by (simp add: prefix_of_def)

lemma number_eq:
  assumes base: "2 \<le> base" "base \<le> 36" and sg: "sign_of ty num = (sg, mag, taken)"
  shows "number num base size' prec ty = Some (laid_out (sg @ prefix_of base ty)
    (replicate (nat (prec - int (length (digit_list base (unat mag))))) (CHR ''0'') @
       map ((!) (dig_of ty)) (digit_list base (unat mag))) size' ty)"
proof -
  let ?dig = "dig_of ty"
  let ?ds = "digit_list base (unat mag)" let ?n = "int (length ?ds)" let ?p = "int (length (prefix_of base ty))"
  have "?dig ! 0 = CHR ''0''" by (simp add: dig_of_def digits_def upper_digits_def)
  then have tmp: "tmp_of ?dig base mag = rev (map ((!) ?dig) ?ds)"
    by (simp add: tmp_of_def rev_digits_map digit_list_def rev_map unat_eq_zero)
  have z: "size' - taken - ?p - max ?n prec = size' - int (length (sg @ prefix_of base ty) + (nat (prec - ?n) + length ?ds))"
    "nat (max ?n prec - ?n) = nat (prec - ?n)"
    using sign_taken[OF sg] by auto
  have b: "\<not> (base < 2 \<or> base > 36)" using base by simp
  show ?thesis
  proof (cases "flag ty FLAGS_LEFT")
    case True
    then show ?thesis unfolding number_def Let_def hash_size hash_prefix if_not_P[OF b]
      by (simp add: sg tmp z laid_out_def Let_def)
  next
    case False
    then show ?thesis unfolding number_def Let_def hash_size hash_prefix if_not_P[OF b]
      by (cases "flag ty FLAGS_ZEROPAD") (simp_all add: sg tmp z laid_out_def Let_def case_prod_beta)
  qed
qed

section \<open>Formats\<close>

lemma plain_text: "CHR ''%'' \<notin> set a \<Longrightarrow> vsprintf_loop F (a @ b) args out st = vsprintf_loop F b args (out @ a) st"
  by (induction a arbitrary: out) auto

lemma directive_d:
  "directive F (CHR ''d'' # fmt) n (IntA x # args) =
     Inr (laid_out (fst (sign_of FLAGS_SIGN x)) (map ((!) digits) (digit_list 10 (unat (fst (snd (sign_of FLAGS_SIGN x)))))) (-1) FLAGS_SIGN, fmt, args, [])"
proof -
  obtain sg mag taken where sg: "sign_of FLAGS_SIGN x = (sg, mag, taken)" by (cases "sign_of FLAGS_SIGN x") auto
  have l: "nat (- 1 - int k) = 0" for k by simp
  have f: "\<not> flag FLAGS_SIGN FLAGS_HASH" "\<not> flag FLAGS_SIGN FLAGS_UPPERCASE"
    by (simp_all add: flag_def FLAGS_SIGN_def FLAGS_HASH_def FLAGS_UPPERCASE_def)
  then have "number x 10 (-1) (-1) FLAGS_SIGN = Some (laid_out sg (map ((!) digits) (digit_list 10 (unat mag))) (-1) FLAGS_SIGN)"
    using number_eq[of 10 FLAGS_SIGN x sg mag taken "-1" "-1"] sg l by (simp add: prefix_of_def dig_of_def)
  then show ?thesis
    by (simp add: directive_def parse_width_def parse_precision_def parse_qualifier_def is_digit_def code_def convert_def Let_def
        conv_int_def narrow_def sg)
qed

lemma laid_out_narrow: "laid_out h b (-1) ty = h @ b"
  by (simp add: laid_out_def Let_def)

lemma sprintf_d:
  "sprintf F ''%d'' [IntA x] = Inr (int (length t), t, [])" if "t = fst (sign_of FLAGS_SIGN x) @
     map ((!) digits) (digit_list 10 (unat (fst (snd (sign_of FLAGS_SIGN x)))))"
  using that directive_d[of F "[]" 0 x "[]"] by (simp add: sprintf_def vsprintf_def laid_out_narrow)

section \<open>Reading a number back\<close>

lemma digit_code: "d < 10 \<Longrightarrow> code (digits ! d) = 48 + int d"
proof -
  assume "d < 10"
  then have "d \<in> {0, 1, 2, 3, 4, 5, 6, 7, 8, 9}" by auto
  then show ?thesis by (auto simp: code_def digits_def)
qed

lemma read_digits:
  "list_all (\<lambda>d. d < 10) ds \<Longrightarrow>
     foldl (\<lambda>r c. r * 10 + word_of_int (code c) - 48) (of_nat n) (map ((!) digits) ds) = (of_nat (foldl (\<lambda>n d. n * 10 + d) n ds) :: u32)"
proof (induction ds arbitrary: n)
  case (Cons d ds)
  have "(of_nat n * 10 + word_of_int (code (digits ! d)) - 48 :: u32) = of_nat (n * 10 + d)"
    using Cons.prems by (simp add: digit_code)
  then show ?case using Cons.IH[of "n * 10 + d"] Cons.prems by (simp del: of_nat_add of_nat_mult)
qed simp

lemma atoi_digits:
  assumes "list_all (\<lambda>d. d < 10) ds" "ds \<noteq> []"
  shows "atoi (Some (map ((!) digits) ds)) = of_nat (horner 10 ds)" "atoi (Some (''-'' @ map ((!) digits) ds)) = - of_nat (horner 10 ds)"
proof -
  have d: "list_all is_digit (map ((!) digits) ds)" using assms(1) by (auto simp: list_all_iff is_digit_def digit_code)
  moreover have "hd (map ((!) digits) ds) \<noteq> CHR ''-''"
  proof
    assume "hd (map ((!) digits) ds) = CHR ''-''"
    then have "is_digit (CHR ''-'')" using d assms(2) by (cases ds) auto
    then show False by (simp add: is_digit_def code_def)
  qed
  ultimately show "atoi (Some (map ((!) digits) ds)) = of_nat (horner 10 ds)" "atoi (Some (''-'' @ map ((!) digits) ds)) = - of_nat (horner 10 ds)"
    using read_digits[OF assms(1), of 0] assms(2)
    by (auto simp: atoi_def Let_def horner_def split: list.splits)
qed

section \<open>Properties\<close>

text \<open>
  \<open>number\<close> lays a number out as \<open>printf\<close> documents it: the digits, in the base and without a leading zero,
  denote the magnitude; leading zeros fill up to the precision; the sign (\<open>-\<close>, or \<open>+\<close> or a space when
  asked for) and the prefix of the base come in front; spaces or zeros fill the field on the side that
  the flags choose. The text is as long as the field or as what is written, whichever is longer.
\<close>

theorem number_formats:
  assumes "2 \<le> base" "base \<le> 36" "sign_of ty num = (sg, mag, taken)"
  shows "\<exists>ds t. number num base width prec ty = Some t \<and> ds \<noteq> [] \<and> list_all (\<lambda>d. d < base) ds \<and>
    foldl (\<lambda>n d. n * base + d) 0 ds = unat mag \<and> (hd ds = 0 \<longrightarrow> mag = 0) \<and>
    t = laid_out (sg @ prefix_of base ty) (replicate (nat (prec - int (length ds))) (CHR ''0'') @
          map ((!) (dig_of ty)) ds) width ty \<and>
    length t = max (length sg + length (prefix_of base ty) + max (length ds) (nat prec)) (nat width)"
proof -
  note ds = digit_list_ok[OF assms(1), of "unat mag"]
  have l: "nat (prec - int k) + k = max k (nat prec)" for k by (simp add: max_def nat_diff_distrib) linarith
  show ?thesis
    using number_eq[OF assms, of width prec] ds l[of "length (digit_list base (unat mag))"]
    by (intro exI[of _ "digit_list base (unat mag)"]) (auto simp: horner_def laid_out_length add.assoc unat_eq_zero)
qed


theorem number_formats_witness:
  "\<exists>t. number 255 16 8 (-1) (FLAGS_HASH OR FLAGS_ZEROPAD) = Some t \<and> 8 \<le> length t \<and> take 2 t = ''0x''"
proof -
  let ?ty = "FLAGS_HASH OR FLAGS_ZEROPAD"
  have s: "sign_of ?ty 255 = ([], 255, 0)"
    by (simp add: sign_of_def flag_def FLAGS_HASH_def FLAGS_ZEROPAD_def FLAGS_SIGN_def)
  have p: "prefix_of 16 ?ty = ''0x''" "\<not> flag ?ty FLAGS_LEFT" "flag ?ty FLAGS_ZEROPAD"
    by (simp_all add: prefix_of_def flag_def FLAGS_HASH_def FLAGS_ZEROPAD_def FLAGS_LEFT_def)
  show ?thesis using number_formats[OF _ _ s, of 16 8 "-1"] p by (auto simp: laid_out_def Let_def)
qed

text \<open>
  C27. Printing and reading are inverse: for every 32-bit integer the text of \<open>sprintf\<close> with \<open>%d\<close>, between any text
  without percent signs, is that text with the decimal number in its place, and \<open>atoi\<close> of the number is the
  integer again.
\<close>

theorem sprintf_atoi:
  assumes "CHR ''%'' \<notin> set a" "CHR ''%'' \<notin> set b"
  shows "\<exists>t. sprintf F (a @ ''%d'' @ b) [IntA x] = Inr (int (length (a @ t @ b)), a @ t @ b, []) \<and> atoi (Some t) = x"
proof -
  obtain sg mag taken where sg: "sign_of FLAGS_SIGN x = (sg, mag, taken)" by (cases "sign_of FLAGS_SIGN x") auto
  let ?ds = "digit_list 10 (unat mag)" let ?t = "sg @ map ((!) digits) ?ds"
  have "vsprintf_loop F (a @ ''%d'' @ b) [IntA x] [] [] = vsprintf_loop F (b @ []) [] (a @ ?t) []"
    using directive_d[of F b "length a" x "[]"] sg by (simp add: plain_text[OF assms(1)] laid_out_narrow)
  also have "\<dots> = Inr (a @ ?t @ b, [])" by (subst plain_text[OF assms(2)]) simp
  finally have "sprintf F (a @ ''%d'' @ b) [IntA x] = Inr (int (length (a @ ?t @ b)), a @ ?t @ b, [])"
    by (simp add: sprintf_def vsprintf_def)
  moreover have "atoi (Some ?t) = x"
  proof -
    have s: "(sg, mag) = (if sint x < 0 then (''-'', - x) else ([], x))"
      using sg by (auto simp: sign_of_def flag_def FLAGS_SIGN_def FLAGS_PLUS_def FLAGS_SPACE_def split: if_splits)
    show ?thesis using atoi_digits[of ?ds] digit_list_ok[of 10 "unat mag"] s by (auto split: if_splits)
  qed
  ultimately show ?thesis by blast
qed

theorem sprintf_atoi_witness:
  "\<exists>t. sprintf (undefined :: nat fp) ''pid %d'' [IntA (-42)] = Inr (int (length (''pid '' @ t)), ''pid '' @ t, []) \<and> atoi (Some t) = -42"
  using sprintf_atoi[of "''pid ''" "[]" "undefined :: nat fp" "-42"] by simp

text \<open>\<open>%X\<close> sets the flag for upper case and leaves the base at ten: it prints what \<open>%u\<close> prints.\<close>

lemma upper_digit: "d < 10 \<Longrightarrow> upper_digits ! d = digits ! d"
proof -
  assume "d < 10"
  then have "d \<in> {0, 1, 2, 3, 4, 5, 6, 7, 8, 9}" by auto
  then show ?thesis by (auto simp: digits_def upper_digits_def)
qed

lemma upper_hex_is_decimal: "sprintf F ''%X'' [IntA x] = sprintf F ''%u'' [IntA x]"
proof -
  have s: "sign_of ty x = ([], x, 0)" if "\<not> flag ty FLAGS_SIGN" for ty using that by (simp add: sign_of_def)
  have f: "\<not> flag FLAGS_UPPERCASE FLAGS_SIGN" "\<not> flag 0 FLAGS_SIGN" "flag FLAGS_UPPERCASE FLAGS_UPPERCASE" "\<not> flag 0 f"
    "\<not> flag FLAGS_UPPERCASE FLAGS_HASH" "\<not> flag FLAGS_UPPERCASE FLAGS_LEFT" "\<not> flag FLAGS_UPPERCASE FLAGS_ZEROPAD" for f
    by (simp_all add: flag_def FLAGS_UPPERCASE_def FLAGS_SIGN_def FLAGS_HASH_def FLAGS_LEFT_def FLAGS_ZEROPAD_def)
  have "map ((!) upper_digits) (digit_list 10 (unat x)) = map ((!) digits) (digit_list 10 (unat x))"
    using digit_list_ok(2)[of 10 "unat x"] by (auto simp: list_all_iff upper_digit)
  then have "number x 10 (-1) (-1) FLAGS_UPPERCASE = number x 10 (-1) (-1) 0"
    using number_eq[of 10 FLAGS_UPPERCASE x "[]" x 0 "-1" "-1"] number_eq[of 10 0 x "[]" x 0 "-1" "-1"] s f
    by (simp add: prefix_of_def dig_of_def laid_out_def)
  then show ?thesis using f
    by (simp add: sprintf_def vsprintf_def directive_def parse_width_def parse_precision_def parse_qualifier_def is_digit_def code_def
        convert_def Let_def conv_int_def narrow_def)
qed

end
