(* ===== verification/Video.thy ===== *)
theory Video
  imports Prelude
begin

text \<open>
  The text screen (\<open>io/video.c\<close>). The screen is 25 lines of 80 cells of two bytes at \<open>0xb8000\<close>, in a window of
  32 KiB; an access outside the window is a fault. Pointers are addresses at 32 bits, and the
  differences of pointers are divided as unsigned numbers, as the code does it. The position that is sent
  to the cursor registers is the field \<open>cursor\<close>. Width and height are constants: only \<open>video_init\<close> sets
  them.
\<close>

section \<open>State\<close>

definition SCREEN_HEIGHT :: nat where "SCREEN_HEIGHT = 25"
definition SCREEN_WIDTH :: nat where "SCREEN_WIDTH = 80"

text \<open>The bytes of a line, of the screen, and the start of the screen.\<close>

definition line_bytes :: u32 where "line_bytes = 160"
definition screen_bytes :: u32 where "screen_bytes = 4000"
definition video_memory :: u32 where "video_memory = 0xb8000"
definition video_window :: u32 where "video_window = 0x8000"

record screen_t =
  pointer :: u32
  foreground_color :: u8
  background_color :: u8
  upbuffer :: "u8 list list"
  downbuffer :: "u8 list list"
  is_scrolled :: bool
  is_shifted_once :: bool
  stored_x :: u32
  stored_y :: u32
  vmem :: "u32 \<Rightarrow> u8"
  cursor :: u32
  lower_bound_x :: u32
  lower_bound_y :: u32

definition WHITE :: u8 where "WHITE = 15"
definition GREY :: u8 where "GREY = 7"
definition BLACK :: u8 where "BLACK = 0"
definition BRIGHT_GREEN :: u8 where "BRIGHT_GREEN = 10"
definition BRIGHT_RED :: u8 where "BRIGHT_RED = 12"

definition in_window :: "u32 \<Rightarrow> bool" where
  "in_window a \<longleftrightarrow> video_memory \<le> a \<and> a < video_memory + video_window"

definition peek :: "u32 \<Rightarrow> screen_t \<Rightarrow> u8 res" where
  "peek a s = (if in_window a then Inr (vmem s a) else Inl OutOfBounds)"

definition poke :: "u32 \<Rightarrow> u8 \<Rightarrow> screen_t \<Rightarrow> screen_t res" where
  "poke a b s = (if in_window a then Inr (s\<lparr>vmem := (vmem s)(a := b)\<rparr>) else Inl OutOfBounds)"

definition offset :: "screen_t \<Rightarrow> u32" where
  "offset s = pointer s - video_memory"

section \<open>Cursor and colours\<close>

definition video_set_color :: "u8 \<Rightarrow> screen_t \<Rightarrow> screen_t" where
  "video_set_color c s = s\<lparr>foreground_color := c\<rparr>"

definition video_set_background :: "u8 \<Rightarrow> screen_t \<Rightarrow> screen_t" where
  "video_set_background c s = s\<lparr>background_color := c\<rparr>"

definition draw_char :: "u8 \<Rightarrow> screen_t \<Rightarrow> screen_t res" where
  "draw_char c s =
     bindR (poke (pointer s) c s) (\<lambda>s.
     bindR (poke (pointer s + 1) (foreground_color s + 16 * background_color s) s) (\<lambda>s.
     Inr (s\<lparr>pointer := pointer s + 2\<rparr>)))"

definition video_set_cursor :: "u32 \<Rightarrow> u32 \<Rightarrow> screen_t \<Rightarrow> screen_t" where
  "video_set_cursor x y s = s\<lparr>cursor := (x * 80 + y) AND 0xFFFF\<rparr>"

text \<open>The quotient and the remainder are unsigned, so that they are never negative as \<open>long\<close>.\<close>

definition video_set_cursor_auto :: "screen_t \<Rightarrow> screen_t" where
  "video_set_cursor_auto s =
     (let cells = word_of_int (sint (offset s) div 2 + (if sint (offset s) < 0 \<and> odd (sint (offset s)) then 1 else 0)) :: u32 in
      video_set_cursor (cells div 80) (cells mod 80) s)"

definition video_move_cursor :: "u32 \<Rightarrow> u32 \<Rightarrow> screen_t \<Rightarrow> screen_t" where
  "video_move_cursor x y s = video_set_cursor_auto (s\<lparr>pointer := video_memory + (y * 80 * 2 + x * 2)\<rparr>)"

definition video_get_column :: "screen_t \<Rightarrow> u32" where
  "video_get_column s = (if pointer s < video_memory then 0 else offset s mod line_bytes div 2)"

definition video_get_line :: "screen_t \<Rightarrow> u32" where
  "video_get_line s = (if pointer s < video_memory then 0 else offset s div line_bytes)"

section \<open>Scrolling\<close>

text \<open>\<open>n\<close> bytes from an address on.\<close>

definition bytes_at :: "(u32 \<Rightarrow> u8) \<Rightarrow> u32 \<Rightarrow> nat \<Rightarrow> u8 list" where
  "bytes_at m a n = map (\<lambda>i. m (a + of_nat i)) [0..<n]"

fun store_bytes :: "u8 list \<Rightarrow> u32 \<Rightarrow> (u32 \<Rightarrow> u8) \<Rightarrow> (u32 \<Rightarrow> u8)" where
  "store_bytes [] a m = m"
| "store_bytes (b # bs) a m = store_bytes bs (a + 1) (m(a := b))"

text \<open>Row by row, each row is replaced by the next one; the last row stays.\<close>

fun rotate_rows :: "nat \<Rightarrow> nat \<Rightarrow> 'a list \<Rightarrow> 'a list" where
  "rotate_rows y 0 rows = rows"
| "rotate_rows y (Suc k) rows = rotate_rows (y + 1) k (rows[y - 1 := rows ! y])"

definition video_rotate_scroll_buffer :: "screen_t \<Rightarrow> screen_t" where
  "video_rotate_scroll_buffer s = s\<lparr>upbuffer := rotate_rows 1 (SCREEN_HEIGHT - 1) (upbuffer s)\<rparr>"

text \<open>\<open>*i = i[width * 2]\<close> for \<open>n\<close> addresses in ascending order.\<close>

fun shift_loop :: "nat \<Rightarrow> u32 \<Rightarrow> (u32 \<Rightarrow> u8) \<Rightarrow> (u32 \<Rightarrow> u8)" where
  "shift_loop 0 i m = m"
| "shift_loop (Suc n) i m = shift_loop n (i + 1) (m(i := m (i + line_bytes)))"

definition video_shift_one_line :: "screen_t \<Rightarrow> screen_t" where
  "video_shift_one_line s =
     (if pointer s \<ge> video_memory + screen_bytes then
        let s = video_rotate_scroll_buffer s;
            s = s\<lparr>upbuffer := (upbuffer s)[SCREEN_HEIGHT - 1 := bytes_at (vmem s) video_memory 160]\<rparr>
        in s\<lparr>vmem := shift_loop 4161 video_memory (vmem s),
             pointer := video_memory + (offset s div line_bytes - 1) * line_bytes,
             is_shifted_once := True\<rparr>
      else s)"

definition video_scroll_up :: "screen_t \<Rightarrow> screen_t" where
  "video_scroll_up s =
     (if is_scrolled s \<or> \<not> is_shifted_once s then s
      else
        let s = s\<lparr>downbuffer := map (\<lambda>y. bytes_at (vmem s) (video_memory + of_nat y * line_bytes) 160) [0..<SCREEN_HEIGHT],
                  vmem := store_bytes (concat (upbuffer s)) video_memory (vmem s)\<rparr>;
            s = s\<lparr>is_scrolled := True, stored_x := video_get_column s, stored_y := video_get_line s\<rparr>
        in video_move_cursor 80 25 s)"

definition video_scroll_down :: "screen_t \<Rightarrow> screen_t" where
  "video_scroll_down s =
     (if \<not> is_scrolled s then s
      else
        let s = s\<lparr>vmem := store_bytes (concat (downbuffer s)) video_memory (vmem s), is_scrolled := False\<rparr>;
            s = video_move_cursor (stored_x s) (stored_y s) s
        in s\<lparr>stored_x := 0, stored_y := 0\<rparr>)"

section \<open>Characters\<close>

definition video_new_line :: "screen_t \<Rightarrow> screen_t" where
  "video_new_line s =
     video_set_cursor_auto (video_shift_one_line (s\<lparr>pointer := video_memory + (offset s div line_bytes + 1) * line_bytes\<rparr>))"

definition video_cartridge_return :: "screen_t \<Rightarrow> screen_t" where
  "video_cartridge_return s =
     video_set_cursor_auto (video_shift_one_line (video_new_line
       (s\<lparr>pointer := video_memory + (offset s div line_bytes - 1) * line_bytes\<rparr>)))"

fun draw_times :: "nat \<Rightarrow> u8 \<Rightarrow> screen_t \<Rightarrow> screen_t res" where
  "draw_times 0 c s = Inr s"
| "draw_times (Suc n) c s = bindR (draw_char c s) (draw_times n c)"

definition video_put_tab :: "screen_t \<Rightarrow> screen_t res" where
  "video_put_tab s =
     (let foreground = foreground_color s;
          s = video_set_color (background_color s) s
      in bindR (draw_times (4 - unat (video_get_column s) mod 4) 9 s) (\<lambda>s. Inr (video_set_color foreground s)))"

text \<open>One character back, overwritten by a space.\<close>

definition erase_one :: "screen_t \<Rightarrow> screen_t res" where
  "erase_one s =
     bindR (draw_char 32 (s\<lparr>pointer := pointer s - 2\<rparr>)) (\<lambda>s. Inr (s\<lparr>pointer := pointer s - 2\<rparr>))"

fun erase_tab :: "nat \<Rightarrow> screen_t \<Rightarrow> screen_t res" where
  "erase_tab 0 s = Inr s"
| "erase_tab (Suc n) s =
     bindR (peek (pointer s - 2) s) (\<lambda>b. if b \<noteq> 9 then Inr s else bindR (erase_one s) (erase_tab n))"

definition video_delete_last_character :: "screen_t \<Rightarrow> screen_t res" where
  "video_delete_last_character s =
     (if lower_bound_y s \<noteq> video_get_line s \<or> lower_bound_x s < video_get_column s then
        let s = video_set_background BLACK (video_set_color WHITE s) in
        bindR (peek (pointer s - 2) s) (\<lambda>b.
        if b = 9 then erase_tab (4 - unat (video_get_column s) mod 4) s else erase_one s)
      else Inr s)"

definition video_putc :: "u8 \<Rightarrow> screen_t \<Rightarrow> screen_t res" where
  "video_putc c s =
     (let s = (if stored_x s \<noteq> 0 \<and> stored_y s \<noteq> 0 then video_scroll_down s else s) in
      bindR (if c = 10 then Inr (video_new_line s)
             else if c = 27 then Inr s
             else if c = 9 then video_put_tab s
             else if c = 8 then video_delete_last_character s
             else if c = 13 then Inr (video_cartridge_return s)
             else draw_char c s) (\<lambda>s.
      Inr (video_set_cursor_auto (video_shift_one_line s))))"

text \<open>The loop over a string of which the terminator is not part; the colour behind an escape may be the terminator.\<close>

fun video_puts :: "u8 list \<Rightarrow> screen_t \<Rightarrow> screen_t res" where
  "video_puts [] s = Inr s"
| "video_puts (c # cs) s =
     (if c = 10 then video_puts cs (video_new_line s)
      else if c = 27 then
        (case cs of [] \<Rightarrow> Inl OutOfBounds | f # cs \<Rightarrow> video_puts cs (video_set_color f s))
      else if c = 9 then bindR (video_put_tab s) (video_puts cs)
      else if c = 8 then bindR (video_delete_last_character s) (video_puts cs)
      else if c = 13 then video_puts cs (video_cartridge_return s)
      else bindR (video_putc c s) (video_puts cs))"

fun clear_cells :: "nat \<Rightarrow> u32 \<Rightarrow> (u32 \<Rightarrow> u8) \<Rightarrow> (u32 \<Rightarrow> u8)" where
  "clear_cells 0 p m = m"
| "clear_cells (Suc n) p m = clear_cells n (p + 2) (m(p := 32, p + 1 := 7))"

definition video_clear :: "screen_t \<Rightarrow> screen_t" where
  "video_clear s = s\<lparr>vmem := clear_cells (SCREEN_HEIGHT * SCREEN_WIDTH) video_memory (vmem s), pointer := video_memory\<rparr>"

definition video_init :: "screen_t \<Rightarrow> screen_t" where
  "video_init s = video_clear (s\<lparr>pointer := video_memory, foreground_color := GREY, background_color := BLACK,
     is_scrolled := False, is_shifted_once := False\<rparr>)"

definition print_tag :: "u8 \<Rightarrow> u8 list \<Rightarrow> screen_t \<Rightarrow> screen_t res" where
  "print_tag colour text s =
     bindR (video_putc 91 (video_set_color WHITE (video_move_cursor 60 (video_get_line s) s))) (\<lambda>s.
     bindR (video_puts text (video_set_color colour s)) (\<lambda>s.
     video_puts [93, 10] (video_set_color WHITE s)))"

definition video_print_ok :: "screen_t \<Rightarrow> screen_t res" where
  "video_print_ok = print_tag BRIGHT_GREEN [79, 75]"

definition video_print_fail :: "screen_t \<Rightarrow> screen_t res" where
  "video_print_fail = print_tag BRIGHT_RED [70, 65, 73, 76]"

end
