(* ===== verification/Keyboard.thy ===== *)
theory Keyboard
  imports Video Bitops
begin

text \<open>
  The keyboard (\<open>drivers/keyboard/keyboard.c\<close> with the key map of \<open>keymap.c\<close>). What the handler reads from the ports is an
  argument: the status, the first byte and the byte after a prefix. The screen is part of the state, as the handler
  echoes what is typed; \<open>port_out\<close> is what is sent to the keyboard and \<open>eois\<close> counts the
  acknowledgements to the interrupt controller.
\<close>

section \<open>State\<close>

definition BUFSIZE :: nat where "BUFSIZE = 256"

record keyboard =
  circular_buffer :: "int list"
  buf_r :: nat
  buf_w :: nat
  ledstate :: u8
  shadow :: bool
  shadow_character :: u8
  keyboard_flags :: u32
  screen :: screen_t
  port_out :: "u8 list"
  eois :: nat

definition KBD_LEFT_SHIFT :: u32 where "KBD_LEFT_SHIFT = 1"
definition KBD_RIGHT_SHIFT :: u32 where "KBD_RIGHT_SHIFT = 2"
definition KBD_CAPS_LOCK :: u32 where "KBD_CAPS_LOCK = 4"
definition KBD_NUM_LOCK :: u32 where "KBD_NUM_LOCK = 8"
definition KBD_SCROLL_LOCK :: u32 where "KBD_SCROLL_LOCK = 16"
definition KBD_LEFT_CONTROL :: u32 where "KBD_LEFT_CONTROL = 32"
definition KBD_RIGHT_CONTROL :: u32 where "KBD_RIGHT_CONTROL = 64"

definition KEY_ESCAPE :: u32 where "KEY_ESCAPE = 0x01"
definition KEY_BACKSPACE :: u32 where "KEY_BACKSPACE = 0x0E"
definition KEY_ENTER :: u32 where "KEY_ENTER = 0x1C"
definition KEY_LEFT_CONTROL :: u32 where "KEY_LEFT_CONTROL = 0x1D"
definition KEY_LEFT_SHIFT :: u32 where "KEY_LEFT_SHIFT = 0x2A"
definition KEY_RIGHT_SHIFT :: u32 where "KEY_RIGHT_SHIFT = 0x36"
definition KEY_LEFT_ALT :: u32 where "KEY_LEFT_ALT = 0x38"
definition KEY_CAPS_LOCK :: u32 where "KEY_CAPS_LOCK = 0x3A"
definition KEY_NUM_LOCK :: u32 where "KEY_NUM_LOCK = 0x45"
definition KEY_SCROLL_LOCK :: u32 where "KEY_SCROLL_LOCK = 0x46"
definition KEY_KP_RETURN :: u32 where "KEY_KP_RETURN = 0xE01C"
definition KEY_RIGHT_CONTROL :: u32 where "KEY_RIGHT_CONTROL = 0xE01D"
definition KEY_RIGHT_ALT :: u32 where "KEY_RIGHT_ALT = 0xE038"
definition KEY_UP_ARROW :: u32 where "KEY_UP_ARROW = 0xE048"
definition KEY_PAGE_UP :: u32 where "KEY_PAGE_UP = 0xE049"
definition KEY_LEFT_ARROW :: u32 where "KEY_LEFT_ARROW = 0xE04B"
definition KEY_RIGHT_ARROW :: u32 where "KEY_RIGHT_ARROW = 0xE04D"
definition KEY_DOWN_ARROW :: u32 where "KEY_DOWN_ARROW = 0xE050"
definition KEY_PAGE_DOWN :: u32 where "KEY_PAGE_DOWN = 0xE051"
definition CODE_BREAK :: u32 where "CODE_BREAK = 0x80"

text \<open>
  The key map: the entries from 0 to 88 and the key \<open>KEY_KP_DIV\<close>; every other entry of the 65536 is 0.
\<close>

definition keymap_base :: "int list" where
  "keymap_base =
     [-1, 27, 49, 50, 51, 52, 53, 54, 55, 56, 57, 48, 39, 141, 8, 9,
      113, 119, 101, 114, 116, 121, 117, 105, 111, 112, 138, 43, 13, -1,
      97, 115, 100, 102, 103, 104, 106, 107, 108, 149, 133, 92, -1, 151,
      122, 120, 99, 118, 98, 110, 109, 44, 46, 45, -1, 42, -1, 32, -1,
      -1, -1, -1, -1, -1, -1, -1, -1, -1, -1, -1, -1,
      -1, -1, -1, 45, -1, -1, -1, 43, -1, -1, -1, -1, -1, -1, -1, 60, -1, -1]"

definition keymap_shift :: "int list" where
  "keymap_shift =
     [-1, -1, 33, 34, 156, 36, 37, 38, 47, 40, 41, 61, 63, 94, -1, -1,
      81, 87, 69, 82, 84, 89, 85, 73, 79, 80, 130, 42, -1, -1,
      65, 83, 68, 70, 71, 72, 74, 75, 76, 128, 167, 124, -1, -1,
      90, 88, 67, 86, 66, 78, 77, 59, 58, 95, -1, 42, -1, 32, -1,
      -1, -1, -1, -1, -1, -1, -1, -1, -1, -1, -1, -1,
      -1, -1, -1, 45, -1, -1, -1, 43, -1, -1, -1, -1, -1, -1, -1, 62, -1, -1]"

definition keymap_numlock :: "int list" where
  "keymap_numlock = replicate 71 0 @ [55, 56, 57, 0, 52, 53, 54, 0, 49, 50, 51, 48, 46]"

definition keymap_at :: "int list \<Rightarrow> int \<Rightarrow> u32 \<Rightarrow> int" where
  "keymap_at table kp_div scancode =
     (if unat scancode < length table then table ! unat scancode
      else if scancode = 0xE035 then kp_div else 0)"

section \<open>The buffer\<close>

definition STEP :: "nat \<Rightarrow> nat" where
  "STEP x = (if x = BUFSIZE - 1 then 0 else x + 1)"

text \<open>The argument is a signed \<open>char\<close>, stored as an \<open>int\<close>.\<close>

definition push_character :: "u8 \<Rightarrow> keyboard \<Rightarrow> keyboard res" where
  "push_character c k =
     (let k = (if STEP (buf_w k) = buf_r k then k\<lparr>buf_r := STEP (buf_r k)\<rparr> else k) in
      bindR (set_at (circular_buffer k) (buf_w k) (sint c)) (\<lambda>b.
      Inr (k\<lparr>circular_buffer := b, buf_w := STEP (buf_w k)\<rparr>)))"

fun push_all :: "u8 list \<Rightarrow> keyboard \<Rightarrow> keyboard res" where
  "push_all [] k = Inr k"
| "push_all (c # cs) k = bindR (push_character c k) (push_all cs)"

definition keyboard_getc :: "keyboard \<Rightarrow> (int \<times> keyboard) res" where
  "keyboard_getc k =
     (if buf_r k \<noteq> buf_w k
      then bindR (get_at (circular_buffer k) (buf_r k)) (\<lambda>c. Inr (c, k\<lparr>buf_r := STEP (buf_r k)\<rparr>))
      else Inr (-1, k))"

section \<open>The handler\<close>

definition update_led :: "bool \<Rightarrow> u8 \<Rightarrow> u8 \<Rightarrow> u8" where
  "update_led on b leds = (if on then leds OR b else leds XOR b)"

definition keyboard_update_leds :: "keyboard \<Rightarrow> keyboard" where
  "keyboard_update_leds k =
     (let leds = update_led (keyboard_flags k AND KBD_SCROLL_LOCK \<noteq> 0) 1 (ledstate k);
          leds = update_led (keyboard_flags k AND KBD_NUM_LOCK \<noteq> 0) 2 leds;
          leds = update_led (keyboard_flags k AND KBD_CAPS_LOCK \<noteq> 0) 4 leds
      in k\<lparr>ledstate := leds, port_out := port_out k @ [0xED, leds]\<rparr>)"

definition keyboard_enable :: "keyboard \<Rightarrow> keyboard" where
  "keyboard_enable k = k\<lparr>port_out := port_out k @ [0xF4]\<rparr>"

definition keyboard_disable :: "keyboard \<Rightarrow> keyboard" where
  "keyboard_disable k = k\<lparr>port_out := port_out k @ [0xF5]\<rparr>"

definition keyboard_set_shadow :: "bool \<Rightarrow> keyboard \<Rightarrow> keyboard" where
  "keyboard_set_shadow v k = (let k = k\<lparr>shadow := v\<rparr> in if \<not> v then k\<lparr>shadow_character := 0\<rparr> else k)"

definition keyboard_set_shadow_character :: "u8 \<Rightarrow> keyboard \<Rightarrow> keyboard" where
  "keyboard_set_shadow_character c k = k\<lparr>shadow_character := c\<rparr>"

definition keyboard_get_shadow :: "keyboard \<Rightarrow> bool" where
  "keyboard_get_shadow k = shadow k"

definition keyboard_is_ctrl_pressed :: "keyboard \<Rightarrow> bool" where
  "keyboard_is_ctrl_pressed k \<longleftrightarrow> keyboard_flags k AND KBD_LEFT_CONTROL \<noteq> 0"

definition keyboard_is_shifted :: "keyboard \<Rightarrow> bool" where
  "keyboard_is_shifted k \<longleftrightarrow> keyboard_flags k AND (KBD_LEFT_SHIFT OR KBD_RIGHT_SHIFT) \<noteq> 0"

definition release_key :: "u32 \<Rightarrow> u32 \<Rightarrow> u32" where
  "release_key scancode flags =
     (if scancode = KEY_LEFT_SHIFT OR CODE_BREAK then clear_flag flags KBD_LEFT_SHIFT
      else if scancode = KEY_RIGHT_SHIFT OR CODE_BREAK then clear_flag flags KBD_RIGHT_SHIFT
      else if scancode = KEY_LEFT_CONTROL OR CODE_BREAK then clear_flag flags KBD_LEFT_CONTROL
      else if scancode = KEY_RIGHT_CONTROL OR CODE_BREAK then clear_flag flags KBD_RIGHT_CONTROL
      else flags)"

text \<open>The character of a key under the flags; it is ignored unless it is positive.\<close>

definition key_character :: "u32 \<Rightarrow> u32 \<Rightarrow> int" where
  "key_character flags scancode =
     (let character = (if has_flag flags KBD_NUM_LOCK then keymap_at keymap_numlock 0 scancode else 0);
          character =
            (if character \<le> 0 then
               if has_flag flags (KBD_LEFT_SHIFT OR KBD_RIGHT_SHIFT) then keymap_at keymap_shift 47 scancode
               else keymap_at keymap_base 47 scancode
             else character)
      in if character > 0 \<and> has_flag flags KBD_CAPS_LOCK then
           if character \<ge> 97 \<and> character \<le> 122 then character - 32
           else if character \<ge> 65 \<and> character \<le> 90 then character + 32
           else character
         else character)"

definition on_screen :: "(screen_t \<Rightarrow> screen_t res) \<Rightarrow> keyboard \<Rightarrow> keyboard res" where
  "on_screen f k = bindR (f (screen k)) (\<lambda>s. Inr (k\<lparr>screen := s\<rparr>))"

definition type_key :: "u32 \<Rightarrow> keyboard \<Rightarrow> keyboard res" where
  "type_key scancode k =
     (let character = key_character (keyboard_flags k) scancode in
      if character > 0 then
        bindR (if \<not> shadow k then on_screen (video_putc (word_of_int character)) k
               else if shadow_character k \<noteq> 0 then on_screen (video_putc (shadow_character k)) k
               else Inr k) (\<lambda>k.
        push_character (word_of_int character) k)
      else Inr k)"

definition toggle_lock :: "u32 \<Rightarrow> keyboard \<Rightarrow> keyboard" where
  "toggle_lock b k = keyboard_update_leds (k\<lparr>keyboard_flags := keyboard_flags k XOR b\<rparr>)"

definition hold_key :: "u32 \<Rightarrow> keyboard \<Rightarrow> keyboard" where
  "hold_key b k = k\<lparr>keyboard_flags := set_flag (keyboard_flags k) b\<rparr>"

definition send_eoi :: "keyboard \<Rightarrow> keyboard" where
  "send_eoi k = k\<lparr>eois := eois k + 1\<rparr>"

definition press_key :: "u32 \<Rightarrow> keyboard \<Rightarrow> keyboard res" where
  "press_key scancode k =
     (if scancode = KEY_LEFT_SHIFT then Inr (hold_key KBD_LEFT_SHIFT k)
      else if scancode = KEY_RIGHT_SHIFT then Inr (hold_key KBD_RIGHT_SHIFT k)
      else if scancode = KEY_LEFT_CONTROL then Inr (hold_key KBD_LEFT_CONTROL k)
      else if scancode = KEY_RIGHT_CONTROL then Inr (hold_key KBD_RIGHT_CONTROL k)
      else if scancode = KEY_CAPS_LOCK then Inr (toggle_lock KBD_CAPS_LOCK k)
      else if scancode = KEY_NUM_LOCK then Inr (toggle_lock KBD_NUM_LOCK k)
      else if scancode = KEY_SCROLL_LOCK then Inr (toggle_lock KBD_SCROLL_LOCK k)
      else if scancode = KEY_PAGE_UP then on_screen (\<lambda>s. Inr (video_scroll_up s)) k
      else if scancode = KEY_PAGE_DOWN then on_screen (\<lambda>s. Inr (video_scroll_down s)) k
      else if scancode = KEY_ESCAPE \<or> scancode = KEY_LEFT_ALT \<or> scancode = KEY_RIGHT_ALT then Inr k
      else if scancode = KEY_BACKSPACE then
        bindR (push_character 8 k) (\<lambda>k.
        on_screen (\<lambda>s. bindR (video_delete_last_character s) (\<lambda>s. Inr (video_set_cursor_auto s))) k)
      else if scancode = KEY_KP_RETURN \<or> scancode = KEY_ENTER then
        bindR (push_character 10 k) (\<lambda>k.
        bindR (on_screen (\<lambda>s. Inr (video_set_cursor_auto (video_new_line s))) k) (\<lambda>k.
        Inr (send_eoi k)))
      else if scancode = KEY_UP_ARROW then push_all [27, 91, 72] k
      else if scancode = KEY_DOWN_ARROW then push_all [27, 91, 80] k
      else if scancode = KEY_LEFT_ARROW then push_all [27, 91, 75] k
      else if scancode = KEY_RIGHT_ARROW then push_all [27, 91, 77] k
      else type_key scancode k)"

definition scancode_of :: "u8 \<Rightarrow> u8 \<Rightarrow> u32" where
  "scancode_of first second = (if first = 0xE0 then 0xE000 OR ucast second else ucast first)"

definition keyboard_isr :: "u8 \<Rightarrow> u8 \<Rightarrow> u8 \<Rightarrow> keyboard \<Rightarrow> keyboard res" where
  "keyboard_isr status first second k =
     (if status AND 1 = 0 then Inr k
      else
        let scancode = scancode_of first second in
        bindR (if scancode AND 0x80 \<noteq> 0
               then Inr (k\<lparr>keyboard_flags := release_key scancode (keyboard_flags k)\<rparr>)
               else press_key scancode k) (\<lambda>k.
        Inr (send_eoi k)))"

end
