(* ===== verification/Video_Correct.thy ===== *)
theory Video_Correct
  imports Video
begin

text \<open>
  Correctness of the text screen. \<open>vaddr\<close> is the address of a byte of the screen; the position of the pointer is a
  number of cells from the start of the screen (\<open>at_cell\<close>), and \<open>cell_of\<close> reads a cell, its character and its
  attribute. \<open>screen_ok\<close> is the state of a screen that is not scrolled back: the two buffers have 25 lines of
  160 bytes and no position is stored.
\<close>

section \<open>Addresses\<close>

definition vaddr :: "nat \<Rightarrow> u32" where
  "vaddr n = video_memory + of_nat n"

definition at_cell :: "nat \<Rightarrow> screen_t \<Rightarrow> bool" where
  "at_cell p s \<longleftrightarrow> pointer s = vaddr (2 * p)"

definition cell_of :: "screen_t \<Rightarrow> nat \<Rightarrow> u8 \<times> u8" where
  "cell_of s i = (vmem s (vaddr (2 * i)), vmem s (vaddr (2 * i + 1)))"

definition buffer_ok :: "u8 list list \<Rightarrow> bool" where
  "buffer_ok rows \<longleftrightarrow> length rows = 25 \<and> list_all (\<lambda>r. length r = 160) rows"

definition screen_ok :: "screen_t \<Rightarrow> bool" where
  "screen_ok s \<longleftrightarrow> buffer_ok (upbuffer s) \<and> \<not> is_scrolled s \<and> stored_x s = 0 \<and> stored_y s = 0"

text \<open>The attribute byte of the current colours.\<close>

definition attr_of :: "screen_t \<Rightarrow> u8" where
  "attr_of s = foreground_color s + 16 * background_color s"

lemma unat_of_nat32: "n < 2 ^ 32 \<Longrightarrow> unat (of_nat n :: u32) = n"
  by (simp add: unat_of_nat take_bit_nat_eq_self)

lemma vaddr_eq: "m < 2 ^ 32 \<Longrightarrow> n < 2 ^ 32 \<Longrightarrow> vaddr m = vaddr n \<longleftrightarrow> m = n"
  unfolding vaddr_def by (metis add_left_cancel unat_of_nat32)

lemma vaddr_add: "vaddr n + of_nat k = vaddr (n + k)"
  by (simp add: vaddr_def)

lemma vaddr_plus:
  "vaddr n + 1 = vaddr (n + 1)"
  "vaddr n + 2 = vaddr (n + 2)"
  "vaddr n + line_bytes = vaddr (n + 160)"
  using vaddr_add[of n 1] vaddr_add[of n 2] vaddr_add[of n 160] by (simp_all add: line_bytes_def)

lemma vaddr_minus2: "2 \<le> n \<Longrightarrow> vaddr n - 2 = vaddr (n - 2)"
  using vaddr_plus(2)[of "n - 2"] by (simp add: diff_eq_eq del: add_2_eq_Suc')

lemma in_window_vaddr: "n < 2 ^ 31 \<Longrightarrow> in_window (vaddr n) \<longleftrightarrow> n < 32768"
  by (simp add: in_window_def vaddr_def video_memory_def video_window_def word_le_nat_alt word_less_nat_alt unat_word_ariths
      unat_of_nat take_bit_nat_eq_self)

lemma offset_vaddr: "pointer s = vaddr n \<Longrightarrow> offset s = of_nat n"
  by (simp add: offset_def vaddr_def)

lemma unat_offset: "pointer s = vaddr n \<Longrightarrow> n < 2 ^ 32 \<Longrightarrow> unat (offset s) = n"
  by (simp add: offset_vaddr unat_of_nat32)

lemma of_nat_div_line: "n < 2 ^ 32 \<Longrightarrow> (of_nat n :: u32) div line_bytes = of_nat (n div 160)"
  by (rule word_unat_eq_iff[THEN iffD2])
    (simp add: unat_div unat_of_nat32 line_bytes_def less_imp_diff_less div_less_dividend)

lemma of_nat_mod_line: "n < 2 ^ 32 \<Longrightarrow> (of_nat n :: u32) mod line_bytes div 2 = of_nat (n mod 160 div 2)"
  by (rule word_unat_eq_iff[THEN iffD2]) (simp add: unat_div unat_mod unat_of_nat32 line_bytes_def)

text \<open>The addresses of a block are told apart by their distance to its start.\<close>

lemma unat_dist_Suc:
  assumes "x \<noteq> (a :: u32)"
  shows "unat (x - a) = Suc (unat (x - (a + 1)))"
proof -
  have "x - a \<noteq> 0" using assms by simp
  then have "unat (x - a - 1) = unat (x - a) - 1" "unat (x - a) > 0"
    by (simp_all add: unat_minus_one unat_gt_0)
  then show ?thesis by (simp add: diff_diff_eq)
qed

lemma unat_minus_num: "unat (- 1 :: u32) = 4294967295" "unat (- 161 :: u32) = 4294967135"
proof -
  have "(- 1 :: u32) = 4294967295" "(- 161 :: u32) = 4294967135" by simp_all
  then show "unat (- 1 :: u32) = 4294967295" "unat (- 161 :: u32) = 4294967135"
    by (simp_all only: unat_numeral) simp_all
qed

lemma store_bytes_at:
  "length bs < 2 ^ 32 \<Longrightarrow> store_bytes bs a m x = (if unat (x - a) < length bs then bs ! unat (x - a) else m x)"
proof (induction bs arbitrary: a m)
  case (Cons b bs)
  show ?case
  proof (cases "x = a")
    case True
    then have "store_bytes bs (a + 1) (m(a := b)) x = (m(a := b)) x"
      using Cons.prems by (subst Cons.IH) (simp_all add: unat_minus_num)
    then show ?thesis using True by simp
  next
    case False
    then show ?thesis using Cons by (simp add: unat_dist_Suc)
  qed
qed simp

lemma shift_loop_at:
  "n + 160 < 2 ^ 32 \<Longrightarrow> shift_loop n a m x = (if unat (x - a) < n then m (x + line_bytes) else m x)"
proof (induction n arbitrary: a m)
  case (Suc n)
  have far: "x + line_bytes \<noteq> a" if "unat (x - (a + 1)) < n"
  proof
    assume "x + line_bytes = a"
    then have "x - (a + 1) = - 161" by (auto simp: line_bytes_def)
    with that Suc.prems show False by (simp add: unat_minus_num)
  qed
  show ?case
  proof (cases "x = a")
    case True
    then show ?thesis using Suc.prems Suc.IH[of "a + 1"] by (simp add: unat_minus_num)
  next
    case False
    then show ?thesis using Suc far by (auto simp: unat_dist_Suc)
  qed
qed simp

section \<open>A terminal\<close>

text \<open>
  The reference: a terminal is a sequence of cells with a position, colours and the place in front of which nothing
  is deleted. The window has 16384 cells, of which the first 2000 are visible. A step that would leave the
  window is \<open>None\<close>.
\<close>

record terminal =
  t_cells :: "nat \<Rightarrow> u8 \<times> u8"
  t_pos :: nat
  t_fg :: u8
  t_bg :: u8
  t_x :: u32
  t_y :: u32

text \<open>
  All lines move up by one. The loop of the code ends one byte late, in the middle of a cell behind the
  screen.
\<close>

definition up_cells :: "(nat \<Rightarrow> u8 \<times> u8) \<Rightarrow> nat \<Rightarrow> u8 \<times> u8" where
  "up_cells f i = (if i < 2080 then f (i + 80) else if i = 2080 then (fst (f 2160), snd (f 2080)) else f i)"

definition term_scroll :: "terminal \<Rightarrow> terminal" where
  "term_scroll t =
     (if t_pos t < 2000 then t else t\<lparr>t_cells := up_cells (t_cells t), t_pos := (t_pos t div 80 - 1) * 80\<rparr>)"

definition term_draw :: "u8 \<Rightarrow> terminal \<Rightarrow> terminal option" where
  "term_draw c t =
     (if t_pos t < 16384
      then Some (t\<lparr>t_cells := (t_cells t)(t_pos t := (c, t_fg t + 16 * t_bg t)), t_pos := t_pos t + 1\<rparr>)
      else None)"

fun term_draws :: "nat \<Rightarrow> u8 \<Rightarrow> terminal \<Rightarrow> terminal option" where
  "term_draws 0 c t = Some t"
| "term_draws (Suc n) c t = Option.bind (term_draw c t) (term_draws n c)"

definition term_newline :: "terminal \<Rightarrow> terminal" where
  "term_newline t = term_scroll (t\<lparr>t_pos := (t_pos t div 80 + 1) * 80\<rparr>)"

text \<open>
  A carriage return goes to the start of the current line, as the code does: \<open>video_cartridge_return\<close> goes one line
  up and starts the next one. The comment in \<open>video.h\<close> (line 83) says "Move to the up line" instead.
\<close>

definition term_return :: "terminal \<Rightarrow> terminal option" where
  "term_return t =
     (if t_pos t < 80 then None else Some (term_scroll (term_scroll (t\<lparr>t_pos := t_pos t div 80 * 80\<rparr>))))"

definition term_tab :: "terminal \<Rightarrow> terminal option" where
  "term_tab t =
     map_option (\<lambda>t'. t'\<lparr>t_fg := t_fg t\<rparr>) (term_draws (4 - t_pos t mod 4) 9 (t\<lparr>t_fg := t_bg t\<rparr>))"

definition term_erase1 :: "terminal \<Rightarrow> terminal option" where
  "term_erase1 t =
     (if t_pos t = 0 then None
      else Some (t\<lparr>t_cells := (t_cells t)(t_pos t - 1 := (32, t_fg t + 16 * t_bg t)), t_pos := t_pos t - 1\<rparr>))"

fun term_untab :: "nat \<Rightarrow> terminal \<Rightarrow> terminal option" where
  "term_untab 0 t = Some t"
| "term_untab (Suc n) t =
     (if t_pos t = 0 then None
      else if fst (t_cells t (t_pos t - 1)) \<noteq> 9 then Some t
      else Option.bind (term_erase1 t) (term_untab n))"

definition term_erase :: "terminal \<Rightarrow> terminal option" where
  "term_erase t =
     (if unat (t_y t) \<noteq> t_pos t div 80 \<or> unat (t_x t) < t_pos t mod 80 then
        let t = t\<lparr>t_fg := WHITE, t_bg := BLACK\<rparr> in
        if t_pos t = 0 then None
        else if fst (t_cells t (t_pos t - 1)) = 9 then term_untab (4 - t_pos t mod 4) t
        else term_erase1 t
      else Some t)"

definition term_char :: "u8 \<Rightarrow> terminal \<Rightarrow> terminal option" where
  "term_char c t = map_option term_scroll (term_draw c t)"

fun term_puts :: "u8 list \<Rightarrow> terminal \<Rightarrow> terminal option" where
  "term_puts [] t = Some t"
| "term_puts (c # cs) t =
     (if c = 10 then term_puts cs (term_newline t)
      else if c = 27 then (case cs of [] \<Rightarrow> None | f # cs \<Rightarrow> term_puts cs (t\<lparr>t_fg := f\<rparr>))
      else if c = 9 then Option.bind (term_tab t) (term_puts cs)
      else if c = 8 then Option.bind (term_erase t) (term_puts cs)
      else if c = 13 then Option.bind (term_return t) (term_puts cs)
      else Option.bind (term_char c t) (term_puts cs))"

definition shown_as :: "screen_t \<Rightarrow> terminal \<Rightarrow> bool" where
  "shown_as s t \<longleftrightarrow>
     at_cell (t_pos t) s \<and> (\<forall>i<16384. cell_of s i = t_cells t i) \<and>
     foreground_color s = t_fg t \<and> background_color s = t_bg t \<and> lower_bound_x s = t_x t \<and> lower_bound_y s = t_y t \<and>
     screen_ok s"

text \<open>Between the operations the position is in the window.\<close>

definition terminal_of :: "screen_t \<Rightarrow> terminal \<Rightarrow> bool" where
  "terminal_of s t \<longleftrightarrow> shown_as s t \<and> t_pos t \<le> 16384"

section \<open>Drawing and scrolling on the screen\<close>

lemma draw_char_at:
  assumes "at_cell p s" "p < 16384"
  shows "draw_char c s =
    Inr (s\<lparr>vmem := (vmem s)(vaddr (2 * p) := c, vaddr (2 * p + 1) := attr_of s), pointer := vaddr (2 * (p + 1))\<rparr>)"
  using assms vaddr_plus(2)[of "2 * p"]
  by (simp add: draw_char_def poke_def in_window_vaddr vaddr_plus(1) at_cell_def attr_of_def)

lemma draw_char_refines:
  assumes "terminal_of s t" "term_draw c t = Some t'"
  shows "\<exists>s'. draw_char c s = Inr s' \<and> terminal_of s' t' \<and> upbuffer s' = upbuffer s"
  using assms by (auto simp: terminal_of_def shown_as_def term_draw_def draw_char_at at_cell_def cell_of_def vaddr_eq attr_of_def screen_ok_def
      split: if_splits)

lemma rotate_rows_eq:
  "0 < y \<Longrightarrow> y + k = length rows \<Longrightarrow> rotate_rows y k rows = take (y - 1) rows @ drop y rows @ drop (length rows - 1) rows"
proof (induction k arbitrary: y rows)
  case (Suc k)
  let ?r = "rows[y - 1 := rows ! y]"
  have "rotate_rows y (Suc k) rows = take y ?r @ drop (y + 1) ?r @ drop (length rows - 1) ?r"
    using Suc.IH[of "y + 1" ?r] Suc.prems by simp
  also have "take y ?r = take (y - 1) rows @ [rows ! y]"
    using Suc.prems by (cases y) (simp_all add: take_Suc_conv_app_nth)
  also have "drop (y + 1) ?r = drop (y + 1) rows" using Suc.prems by simp
  also have "drop (length rows - 1) ?r = drop (length rows - 1) rows" using Suc.prems by simp
  finally show ?case using Suc.prems by (simp add: Cons_nth_drop_Suc[symmetric])
qed simp

lemma shift_buffer:
  assumes "buffer_ok rows" "length line = 160"
  shows "(rotate_rows 1 (SCREEN_HEIGHT - 1) rows)[SCREEN_HEIGHT - 1 := line] = tl rows @ [line]" "buffer_ok (tl rows @ [line])"
proof -
  have l: "length rows = 25" using assms(1) by (simp add: buffer_ok_def)
  have "rotate_rows 1 24 rows = drop 1 rows @ drop 24 rows" using rotate_rows_eq[of 1 24 rows] l by simp
  moreover have "drop 24 rows = [rows ! 24]" using l Cons_nth_drop_Suc[of 24 rows] by simp
  ultimately show "(rotate_rows 1 (SCREEN_HEIGHT - 1) rows)[SCREEN_HEIGHT - 1 := line] = tl rows @ [line]"
    using l by (auto simp: SCREEN_HEIGHT_def list_update_append drop_Suc)
  show "buffer_ok (tl rows @ [line])" using assms l by (cases rows) (auto simp: buffer_ok_def)
qed

lemma cursor_at:
  assumes "at_cell p s" "p < 65536"
  shows "video_set_cursor_auto s = s\<lparr>cursor := of_nat p\<rparr>"
proof -
  have "sint (offset s) = int (2 * p)"
    using assms by (simp add: sint_uint offset_vaddr at_cell_def signed_take_bit_int_eq_self_iff uint_nat unat_of_nat32 del: of_nat_mult)
  then have c: "(word_of_int (sint (offset s) div 2 + (if sint (offset s) < 0 \<and> odd (sint (offset s)) then 1 else 0)) :: u32) = of_nat p"
    by simp
  have "(of_nat p :: u32) div 80 * 80 + of_nat p mod 80 = of_nat p" by (simp add: word_mod_div_equality)
  moreover have "(of_nat p :: u32) AND 0xFFFF = of_nat p"
  proof -
    have "(of_nat p :: u32) AND mask 16 = take_bit 16 (of_nat p)" by (simp add: take_bit_eq_mask)
    also have "\<dots> = of_nat (take_bit 16 p)" by (simp add: take_bit_of_nat)
    also have "take_bit 16 p = p" using assms(2) by (simp add: take_bit_nat_eq_self)
    finally show ?thesis by (simp add: mask_eq_exp_minus_1)
  qed
  ultimately show ?thesis unfolding video_set_cursor_auto_def c Let_def video_set_cursor_def by simp
qed

lemma cursor_refines: "terminal_of s t \<Longrightarrow> terminal_of (video_set_cursor_auto s) t"
  by (auto simp: terminal_of_def shown_as_def cursor_at at_cell_def cell_of_def screen_ok_def)

lemma line_of_at: "at_cell p s \<Longrightarrow> p < 65536 \<Longrightarrow> offset s div line_bytes = of_nat (p div 80)"
  using of_nat_div_line[of "2 * p"] div_mult2_eq[of "2 * p" 2 80] by (simp add: at_cell_def offset_vaddr del: of_nat_mult)

lemma line_start: "video_memory + of_nat k * line_bytes = vaddr (2 * (k * 80))"
  by (simp add: vaddr_def line_bytes_def)

lemma prev_line: "0 < k \<Longrightarrow> (of_nat k - 1 :: u32) = of_nat (k - 1)"
  by (simp add: of_nat_diff)

lemma beyond_screen: "at_cell p s \<Longrightarrow> p < 65536 \<Longrightarrow> pointer s \<ge> video_memory + screen_bytes \<longleftrightarrow> 2000 \<le> p"
  by (simp add: at_cell_def vaddr_def video_memory_def screen_bytes_def word_le_nat_alt unat_word_ariths unat_of_nat take_bit_nat_eq_self
      del: of_nat_mult)

lemma shift_vmem: "n < 2 ^ 31 \<Longrightarrow> shift_loop 4161 video_memory m (vaddr n) = (if n < 4161 then m (vaddr (n + 160)) else m (vaddr n))"
  using vaddr_plus(3)[of n] by (simp add: shift_loop_at vaddr_def unat_of_nat32 add.assoc)

lemma shift_cells:
  assumes "i < 16384"
  shows "cell_of (s\<lparr>vmem := shift_loop 4161 video_memory (vmem s)\<rparr>) i = up_cells (cell_of s) i"
  using assms by (auto simp: cell_of_def shift_vmem up_cells_def algebra_simps)

lemma shift_one_line_eq:
  assumes "at_cell p s" "2000 \<le> p" "p < 65536" "screen_ok s"
  shows "video_shift_one_line s =
    s\<lparr>upbuffer := tl (upbuffer s) @ [bytes_at (vmem s) video_memory 160], vmem := shift_loop 4161 video_memory (vmem s),
      pointer := vaddr (2 * ((p div 80 - 1) * 80)), is_shifted_once := True\<rparr>"
proof -
  have b: "buffer_ok (upbuffer s)" "length (bytes_at (vmem s) video_memory 160) = 160"
    using assms(4) by (simp_all add: screen_ok_def bytes_at_def)
  have l: "video_memory + (offset s div line_bytes - 1) * line_bytes = vaddr (2 * ((p div 80 - 1) * 80))"
    using assms(2) by (simp only: line_of_at[OF assms(1,3)] prev_line line_start)
  have g: "pointer s \<ge> video_memory + screen_bytes" using beyond_screen[OF assms(1,3)] assms(2) by simp
  have o: "offset (s\<lparr>upbuffer := u\<rparr>) = offset s" for u by (simp add: offset_def)
  show ?thesis
    unfolding video_shift_one_line_def video_rotate_scroll_buffer_def Let_def
    using g l by (simp add: o shift_buffer(1)[OF b, simplified])
qed

lemma shift_shown:
  assumes "shown_as s t" "t_pos t < 65536"
  shows "shown_as (video_shift_one_line s) (term_scroll t)"
proof (cases "t_pos t < 2000")
  case True
  then have "video_shift_one_line s = s"
    using assms beyond_screen[of "t_pos t" s] by (simp add: video_shift_one_line_def shown_as_def)
  then show ?thesis using True assms by (simp add: term_scroll_def)
next
  case False
  let ?s = "s\<lparr>vmem := shift_loop 4161 video_memory (vmem s)\<rparr>"
  have t: "at_cell (t_pos t) s" "\<forall>i<16384. cell_of s i = t_cells t i" "screen_ok s" using assms by (auto simp: shown_as_def)
  have "cell_of ?s i = up_cells (t_cells t) i" if "i < 16384" for i
    using shift_cells[OF that, of s] t(2) that by (simp add: up_cells_def)
  moreover have "buffer_ok (tl (upbuffer s) @ [bytes_at (vmem s) video_memory 160])"
    using shift_buffer(2)[of "upbuffer s"] t(3) by (simp add: screen_ok_def bytes_at_def)
  ultimately show ?thesis
    using False assms shift_one_line_eq[OF t(1) _ assms(2) t(3)]
    by (simp add: term_scroll_def shown_as_def at_cell_def cell_of_def screen_ok_def)
qed

lemma shift_refines: "terminal_of s t \<Longrightarrow> terminal_of (video_shift_one_line s) (term_scroll t)"
  using shift_shown[of s t] by (auto simp: terminal_of_def term_scroll_def intro: le_trans[OF div_times_less_eq_dividend])

section \<open>The operations refine the terminal\<close>

lemma term_scroll_pos: "2000 \<le> t_pos t \<Longrightarrow> t_pos (term_scroll t) = (t_pos t div 80 - 1) * 80"
  by (simp add: term_scroll_def)

lemma newline_pos: "t_pos t \<le> 16384 \<Longrightarrow> t_pos (term_newline t) \<le> 16384"
  by (auto simp: term_newline_def term_scroll_def intro: le_trans[OF div_times_less_eq_dividend])

lemma cursor_shown: "shown_as s t \<Longrightarrow> t_pos t < 65536 \<Longrightarrow> shown_as (video_set_cursor_auto s) t"
  by (auto simp: shown_as_def cursor_at at_cell_def cell_of_def screen_ok_def)

lemma moved_shown: "shown_as s t \<Longrightarrow> shown_as (s\<lparr>pointer := vaddr (2 * p)\<rparr>) (t\<lparr>t_pos := p\<rparr>)"
  by (auto simp: shown_as_def at_cell_def cell_of_def screen_ok_def)

lemma moved_terminal:
  "shown_as s t \<Longrightarrow> p \<le> 16384 \<Longrightarrow> terminal_of (s\<lparr>pointer := vaddr (2 * p)\<rparr>) (t\<lparr>t_pos := p\<rparr>)"
  by (simp add: terminal_of_def moved_shown)

lemma cell_before: "shown_as s t \<Longrightarrow> 0 < t_pos t \<Longrightarrow> pointer s - 2 = vaddr (2 * (t_pos t - 1))"
  using vaddr_minus2[of "2 * t_pos t"] by (simp add: shown_as_def at_cell_def diff_mult_distrib2)

lemma newline_shown:
  assumes "shown_as s t" "t_pos t \<le> 16384"
  shows "shown_as (video_new_line s) (term_newline t)"
proof -
  have p: "at_cell (t_pos t) s" "t_pos t < 65536" using assms by (auto simp: shown_as_def)
  have l: "video_memory + (offset s div line_bytes + 1) * line_bytes = vaddr (2 * ((t_pos t div 80 + 1) * 80))"
    using line_start[of "t_pos t div 80 + 1"] by (simp add: line_of_at[OF p] add.commute)
  have b: "(t_pos t div 80 + 1) * 80 < 65536" using assms(2) by (simp add: less_mult_imp_div_less)
  note shift_shown[OF moved_shown[OF assms(1)], of "(t_pos t div 80 + 1) * 80", simplified, OF b[simplified]]
  then have "shown_as (video_shift_one_line (s\<lparr>pointer := vaddr (2 * ((t_pos t div 80 + 1) * 80))\<rparr>)) (term_newline t)"
    by (simp add: term_newline_def)
  then show ?thesis
    using cursor_shown newline_pos[OF assms(2)] by (simp add: video_new_line_def l)
qed

lemma newline_refines: "terminal_of s t \<Longrightarrow> terminal_of (video_new_line s) (term_newline t)"
  by (simp add: terminal_of_def newline_shown newline_pos)

lemma return_refines:
  assumes "terminal_of s t" "term_return t = Some t'"
  shows "terminal_of (video_cartridge_return s) t'"
proof -
  have t: "shown_as s t" "t_pos t \<le> 16384" "80 \<le> t_pos t" "t' = term_scroll (term_scroll (t\<lparr>t_pos := t_pos t div 80 * 80\<rparr>))"
    using assms by (auto simp: terminal_of_def term_return_def split: if_splits)
  have p: "at_cell (t_pos t) s" "t_pos t < 65536" "0 < t_pos t div 80" using t by (auto simp: shown_as_def)
  have l: "video_memory + (offset s div line_bytes - 1) * line_bytes = vaddr (2 * ((t_pos t div 80 - 1) * 80))"
    by (simp only: line_of_at[OF p(1,2)] prev_line[OF p(3)] line_start)
  let ?t = "t\<lparr>t_pos := (t_pos t div 80 - 1) * 80\<rparr>"
  have b: "(t_pos t div 80 - 1) * 80 \<le> 16384" using t(2) by linarith
  have "terminal_of (s\<lparr>pointer := vaddr (2 * ((t_pos t div 80 - 1) * 80))\<rparr>) ?t"
    by (rule moved_terminal[OF t(1) b])
  moreover have "term_newline ?t = term_scroll (t\<lparr>t_pos := t_pos t div 80 * 80\<rparr>)"
    using p(3) by (simp add: term_newline_def)
  ultimately show ?thesis
    using newline_refines shift_refines cursor_refines t(4) unfolding video_cartridge_return_def l by metis
qed

lemma draw_times_refines:
  "terminal_of s t \<Longrightarrow> term_draws n c t = Some t' \<Longrightarrow> \<exists>s'. draw_times n c s = Inr s' \<and> terminal_of s' t'"
proof (induction n arbitrary: s t)
  case (Suc n)
  then obtain t1 where t1: "term_draw c t = Some t1" "term_draws n c t1 = Some t'" by (auto simp: bind_eq_Some_conv)
  obtain s1 where "draw_char c s = Inr s1" "terminal_of s1 t1" using draw_char_refines[OF Suc.prems(1) t1(1)] by auto
  then show ?case using Suc.IH t1(2) by simp
qed simp

lemma on_screen_pointer: "at_cell p s \<Longrightarrow> p < 65536 \<Longrightarrow> \<not> pointer s < video_memory"
  by (simp add: at_cell_def vaddr_def video_memory_def word_less_nat_alt unat_word_ariths unat_of_nat take_bit_nat_eq_self del: of_nat_mult)

lemma column_at:
  assumes "at_cell p s" "p < 65536"
  shows "unat (video_get_column s) = p mod 80"
proof -
  have "offset s mod line_bytes div 2 = of_nat (2 * p mod 160 div 2)"
    using assms of_nat_mod_line[of "2 * p"] by (simp add: at_cell_def offset_vaddr del: of_nat_mult)
  moreover have "2 * p mod 160 div 2 = p mod 80" using mult_mod_right[of 2 p 80] by simp
  ultimately show ?thesis
    using on_screen_pointer[OF assms] by (simp add: video_get_column_def unat_of_nat32)
qed

lemma line_at: "at_cell p s \<Longrightarrow> p < 65536 \<Longrightarrow> unat (video_get_line s) = p div 80"
  using line_of_at[of p s] on_screen_pointer[of p s] by (simp add: video_get_line_def unat_of_nat32)

lemma mod_80_4: "p mod 80 mod 4 = p mod (4 :: nat)"
  by (rule mod_mod_cancel) simp

lemma colour_refines: "terminal_of s t \<Longrightarrow> terminal_of (video_set_color f s) (t\<lparr>t_fg := f\<rparr>)"
  "terminal_of s t \<Longrightarrow> terminal_of (video_set_background f s) (t\<lparr>t_bg := f\<rparr>)"
  by (auto simp: terminal_of_def shown_as_def video_set_color_def video_set_background_def at_cell_def cell_of_def screen_ok_def)

lemma tab_refines:
  assumes "terminal_of s t" "term_tab t = Some t'"
  shows "\<exists>s'. video_put_tab s = Inr s' \<and> terminal_of s' t'"
proof -
  let ?s = "video_set_color (background_color s) s"
  obtain t1 where t1: "term_draws (4 - t_pos t mod 4) 9 (t\<lparr>t_fg := t_bg t\<rparr>) = Some t1" "t' = t1\<lparr>t_fg := t_fg t\<rparr>"
    using assms(2) by (auto simp: term_tab_def)
  have c: "foreground_color s = t_fg t" "background_color s = t_bg t" "at_cell (t_pos t) ?s" "t_pos t < 65536"
    using assms(1) by (auto simp: terminal_of_def shown_as_def video_set_color_def at_cell_def)
  have "terminal_of ?s (t\<lparr>t_fg := t_bg t\<rparr>)" using colour_refines(1)[OF assms(1)] c(2) by simp
  from draw_times_refines[OF this t1(1)] obtain s1 where s1: "draw_times (4 - t_pos t mod 4) 9 ?s = Inr s1" "terminal_of s1 t1"
    by auto
  then have "video_put_tab s = Inr (video_set_color (t_fg t) s1)"
    by (simp add: video_put_tab_def column_at[OF c(3,4)] mod_80_4 c(1) Let_def)
  then show ?thesis using colour_refines(1)[OF s1(2)] t1(2) by simp
qed

lemma peek_at:
  assumes "terminal_of s t" "0 < t_pos t"
  shows "peek (pointer s - 2) s = Inr (fst (t_cells t (t_pos t - 1)))"
proof -
  have a: "pointer s - 2 = vaddr (2 * (t_pos t - 1))"
    using assms by (simp only: terminal_of_def cell_before)
  have "cell_of s (t_pos t - 1) = t_cells t (t_pos t - 1)" using assms by (auto simp: terminal_of_def shown_as_def)
  then have "vmem s (vaddr (2 * (t_pos t - 1))) = fst (t_cells t (t_pos t - 1))" by (metis cell_of_def fst_conv)
  moreover have "in_window (vaddr (2 * (t_pos t - 1)))"
    using assms in_window_vaddr[of "2 * (t_pos t - 1)"] by (auto simp: terminal_of_def)
  ultimately show ?thesis using a by (simp add: peek_def)
qed

lemma erase_one_refines:
  assumes "terminal_of s t" "term_erase1 t = Some t'"
  shows "\<exists>s'. erase_one s = Inr s' \<and> terminal_of s' t'"
proof -
  have p: "0 < t_pos t" "t_pos t \<le> 16384" "shown_as s t"
    and t': "t' = t\<lparr>t_cells := (t_cells t)(t_pos t - 1 := (32, t_fg t + 16 * t_bg t)), t_pos := t_pos t - 1\<rparr>"
    using assms by (auto simp: terminal_of_def term_erase1_def split: if_splits)
  let ?t = "t\<lparr>t_pos := t_pos t - 1\<rparr>"
  let ?t1 = "t\<lparr>t_cells := (t_cells t)(t_pos t - 1 := (32, t_fg t + 16 * t_bg t)), t_pos := t_pos t\<rparr>"
  have a: "pointer s - 2 = vaddr (2 * (t_pos t - 1))"
    by (rule cell_before[OF p(3,1)])
  have "terminal_of (s\<lparr>pointer := pointer s - 2\<rparr>) ?t"
    unfolding a using moved_terminal[OF p(3)] p(2) by (simp add: le_diff_conv)
  moreover have "term_draw 32 ?t = Some ?t1" using p by (simp add: term_draw_def)
  ultimately obtain s1 where s1: "draw_char 32 (s\<lparr>pointer := pointer s - 2\<rparr>) = Inr s1" "terminal_of s1 ?t1"
    using draw_char_refines by blast
  have b: "pointer s1 - 2 = vaddr (2 * (t_pos t - 1))"
    using s1(2) p(1) cell_before[of s1 ?t1] by (simp add: terminal_of_def)
  have "terminal_of (s1\<lparr>pointer := pointer s1 - 2\<rparr>) t'"
    using s1(2) moved_shown[of s1 ?t1 "t_pos t - 1"] p(2) unfolding b t' by (simp add: terminal_of_def le_diff_conv)
  then show ?thesis using s1(1) by (simp add: erase_one_def)
qed

lemma erase_tab_refines:
  "terminal_of s t \<Longrightarrow> term_untab n t = Some t' \<Longrightarrow> \<exists>s'. erase_tab n s = Inr s' \<and> terminal_of s' t'"
proof (induction n arbitrary: s t)
  case (Suc n)
  have p: "0 < t_pos t" using Suc.prems(2) by (auto split: if_splits)
  show ?case
  proof (cases "fst (t_cells t (t_pos t - 1)) = 9")
    case True
    then obtain t1 where t1: "term_erase1 t = Some t1" "term_untab n t1 = Some t'"
      using Suc.prems(2) p by (auto simp: bind_eq_Some_conv split: if_splits)
    obtain s1 where "erase_one s = Inr s1" "terminal_of s1 t1" using erase_one_refines[OF Suc.prems(1) t1(1)] by auto
    then show ?thesis using Suc.IH t1(2) True peek_at[OF Suc.prems(1) p] by simp
  next
    case False
    then show ?thesis using Suc.prems peek_at[OF Suc.prems(1) p] p by auto
  qed
qed simp

lemma erase_refines:
  assumes "terminal_of s t" "term_erase t = Some t'"
  shows "\<exists>s'. video_delete_last_character s = Inr s' \<and> terminal_of s' t'"
proof -
  have c: "at_cell (t_pos t) s" "t_pos t < 65536" "lower_bound_x s = t_x t" "lower_bound_y s = t_y t"
    using assms(1) by (auto simp: terminal_of_def shown_as_def)
  have g: "lower_bound_y s \<noteq> video_get_line s \<or> lower_bound_x s < video_get_column s \<longleftrightarrow>
      unat (t_y t) \<noteq> t_pos t div 80 \<or> unat (t_x t) < t_pos t mod 80"
    by (simp add: word_unat_eq_iff word_less_nat_alt column_at[OF c(1,2)] line_at[OF c(1,2)] c(3,4))
  let ?t = "t\<lparr>t_fg := WHITE, t_bg := BLACK\<rparr>"
  let ?s = "video_set_background BLACK (video_set_color WHITE s)"
  show ?thesis
  proof (cases "unat (t_y t) \<noteq> t_pos t div 80 \<or> unat (t_x t) < t_pos t mod 80")
    case True
    have r: "terminal_of ?s ?t" by (intro colour_refines assms(1))
    have "at_cell (t_pos t) ?s" using r by (simp add: terminal_of_def shown_as_def)
    then have x: "unat (video_get_column ?s) mod 4 = t_pos t mod 4" by (simp add: column_at c(2) mod_80_4)
    have p: "0 < t_pos ?t" and t': "(if fst (t_cells t (t_pos t - 1)) = 9 then term_untab (4 - t_pos t mod 4) ?t else term_erase1 ?t) = Some t'"
      using assms(2) True by (auto simp: term_erase_def Let_def split: if_splits)
    have e: "video_delete_last_character s =
        (if fst (t_cells t (t_pos t - 1)) = 9 then erase_tab (4 - t_pos t mod 4) ?s else erase_one ?s)"
      unfolding video_delete_last_character_def g Let_def peek_at[OF r p] x using True by simp
    show ?thesis
      unfolding e using erase_tab_refines[OF r] erase_one_refines[OF r] t' by (simp split: if_splits)
  next
    case False
    then show ?thesis unfolding video_delete_last_character_def g using assms by (auto simp: term_erase_def)
  qed
qed

text \<open>A character that is drawn: no stored position, so that nothing is scrolled first.\<close>

lemma putc_refines:
  assumes "terminal_of s t" "c \<notin> {8, 9, 10, 13, 27}" "term_char c t = Some t'"
  shows "\<exists>s'. video_putc c s = Inr s' \<and> terminal_of s' t'"
proof -
  obtain t1 where t1: "term_draw c t = Some t1" "t' = term_scroll t1" using assms(3) by (auto simp: term_char_def)
  obtain s1 where s1: "draw_char c s = Inr s1" "terminal_of s1 t1" using draw_char_refines[OF assms(1) t1(1)] by auto
  have "stored_x s = 0" using assms(1) by (simp add: terminal_of_def shown_as_def screen_ok_def)
  then have "video_putc c s = Inr (video_set_cursor_auto (video_shift_one_line s1))"
    using assms(2) s1(1) by (simp add: video_putc_def Let_def)
  then show ?thesis using cursor_refines[OF shift_refines[OF s1(2)]] t1(2) by simp
qed

lemma puts_refines:
  "terminal_of s t \<Longrightarrow> term_puts cs t = Some t' \<Longrightarrow> \<exists>s'. video_puts cs s = Inr s' \<and> terminal_of s' t'"
proof (induction cs t arbitrary: s rule: term_puts.induct)
  case (2 c cs t)
  consider "c = 10" | "c = 27" | "c = 9" | "c = 8" | "c = 13" | "c \<notin> {8, 9, 10, 13, 27}" by auto
  then show ?case
  proof cases
    case 1
    then show ?thesis using 2 newline_refines by simp
  next
    case c: 2
    then show ?thesis using 2(2)[of _ _ "video_set_color (hd cs) s"] 2(7,8) colour_refines(1) by (auto split: list.splits)
  next
    case 3
    then obtain t1 where t1: "term_tab t = Some t1" "term_puts cs t1 = Some t'" using 2(8) by (auto simp: bind_eq_Some_conv)
    then show ?thesis using tab_refines[OF 2(7) t1(1)] 2(3)[of t1] 3 by auto
  next
    case 4
    then obtain t1 where t1: "term_erase t = Some t1" "term_puts cs t1 = Some t'" using 2(8) by (auto simp: bind_eq_Some_conv)
    then show ?thesis using erase_refines[OF 2(7) t1(1)] 2(4)[of t1] 4 by auto
  next
    case 5
    then obtain t1 where t1: "term_return t = Some t1" "term_puts cs t1 = Some t'" using 2(8) by (auto simp: bind_eq_Some_conv)
    then show ?thesis using return_refines[OF 2(7) t1(1)] 2(5)[of t1] 5 by auto
  next
    case 6
    then obtain t1 where t1: "term_char c t = Some t1" "term_puts cs t1 = Some t'" using 2(8) by (auto simp: bind_eq_Some_conv)
    then show ?thesis using putc_refines[OF 2(7) 6 t1(1)] 2(6)[of t1] 6 by auto
  qed
qed simp

section \<open>Plain text and scrolling back\<close>

text \<open>Text without tabs, deletions, returns and colours stays on the visible part of the screen.\<close>

definition plain :: "u8 list \<Rightarrow> bool" where
  "plain cs \<longleftrightarrow> list_all (\<lambda>c. c \<notin> {8, 9, 13, 27}) cs"

lemma term_newline_pos: "t_pos t < 2000 \<Longrightarrow> t_pos (term_newline t) = (if t_pos t < 1920 then (t_pos t div 80 + 1) * 80 else 1920)"
proof -
  assume a: "t_pos t < 2000"
  show ?thesis
  proof (cases "t_pos t < 1920")
    case True
    then have "t_pos t div 80 < 24" by (simp add: less_mult_imp_div_less)
    then show ?thesis using True by (simp add: term_newline_def term_scroll_def)
  next
    case False
    then have "t_pos t div 80 = 24" using a by (intro div_nat_eqI) simp_all
    then show ?thesis using False by (simp add: term_newline_def term_scroll_def)
  qed
qed

lemma plain_stays:
  "plain cs \<Longrightarrow> t_pos t < 2000 \<Longrightarrow> \<exists>t'. term_puts cs t = Some t' \<and> t_pos t' < 2000"
proof (induction cs arbitrary: t)
  case (Cons c cs)
  show ?case
  proof (cases "c = 10")
    case True
    have "t_pos (term_newline t) < 2000"
      using Cons.prems(2) by (auto simp: term_newline_pos less_mult_imp_div_less)
    then show ?thesis using Cons True by (simp add: plain_def)
  next
    case False
    let ?t = "t\<lparr>t_cells := (t_cells t)(t_pos t := (c, t_fg t + 16 * t_bg t)), t_pos := t_pos t + 1\<rparr>"
    have "term_char c t = Some (term_scroll ?t)" using Cons.prems(2) by (simp add: term_char_def term_draw_def)
    moreover have "t_pos (term_scroll ?t) < 2000" using Cons.prems(2) by (auto simp: term_scroll_def)
    ultimately show ?thesis using Cons False by (simp add: plain_def)
  qed
qed simp

lemma length_rows: "list_all (\<lambda>r. length r = n) rows \<Longrightarrow> length (concat rows) = length rows * n"
  by (induction rows) simp_all

lemma length_bytes_at[simp]: "length (bytes_at m a n) = n"
  by (simp add: bytes_at_def)

lemma bytes_at_append: "bytes_at m a (n + k) = bytes_at m a n @ bytes_at m (a + of_nat n) k"
proof -
  have "[0..<n + k] = [0..<n] @ map (\<lambda>i. i + n) [0..<k]" 
    using upt_add_eq_append[of 0 n k] map_add_upt[of n k] by (simp add: add.commute[of k n])
  then show ?thesis by (simp add: bytes_at_def algebra_simps)
qed

lemma screen_rows: "concat (map (\<lambda>y. bytes_at m (a + of_nat y * line_bytes) 160) [0..<n]) = bytes_at m a (n * 160)"
proof (induction n)
  case (Suc n)
  then show ?case using bytes_at_append[of m a "n * 160" 160] by (simp add: line_bytes_def add.commute)
qed (simp add: bytes_at_def)

lemma store_screen_back:
  assumes "length bs = n" "n < 2 ^ 32"
  shows "store_bytes (bytes_at m a n) a (store_bytes bs a m) = m"
proof
  fix x
  show "store_bytes (bytes_at m a n) a (store_bytes bs a m) x = m x"
    using assms by (simp add: store_bytes_at bytes_at_def)
qed

lemma move_cursor_at:
  "video_move_cursor (of_nat x) (of_nat y) s = video_set_cursor_auto (s\<lparr>pointer := vaddr (2 * (y * 80 + x))\<rparr>)"
  by (simp add: video_move_cursor_def vaddr_def algebra_simps)

lemma scroll_up_eq:
  assumes "screen_ok s" "is_shifted_once s" "at_cell p s" "p < 2000"
  shows "video_scroll_up s =
    s\<lparr>downbuffer := map (\<lambda>y. bytes_at (vmem s) (video_memory + of_nat y * line_bytes) 160) [0..<25],
      vmem := store_bytes (concat (upbuffer s)) video_memory (vmem s), is_scrolled := True,
      stored_x := of_nat (p mod 80), stored_y := of_nat (p div 80), pointer := vaddr (2 * 2080), cursor := 2080\<rparr>"
proof -
  have xy: "video_get_column s = of_nat (p mod 80)" "video_get_line s = of_nat (p div 80)"
    using column_at[OF assms(3)] line_at[OF assms(3)] assms(4) by (simp_all add: word_unat_eq_iff unat_of_nat32)
  have same: "video_get_column (s\<lparr>downbuffer := d, vmem := m\<rparr>) = video_get_column s"
    "video_get_line (s\<lparr>downbuffer := d, vmem := m\<rparr>) = video_get_line s"
    "video_get_line (s\<lparr>downbuffer := d, vmem := m, is_scrolled := b, stored_x := x\<rparr>) = video_get_line s" for d m b x
    by (simp_all add: video_get_column_def video_get_line_def offset_def)
  have mv: "video_move_cursor 80 25 r = r\<lparr>pointer := vaddr (2 * 2080), cursor := 2080\<rparr>" for r
    using move_cursor_at[of 80 25 r] cursor_at[of 2080 "r\<lparr>pointer := vaddr 4160\<rparr>"] by (simp add: at_cell_def)
  show ?thesis
    using assms(1,2) by (simp add: video_scroll_up_def screen_ok_def Let_def SCREEN_HEIGHT_def same mv xy)
qed

lemma scroll_back:
  assumes "screen_ok s" "is_shifted_once s" "at_cell p s" "p < 2000"
  shows "video_scroll_down (video_scroll_up s) =
    s\<lparr>downbuffer := downbuffer (video_scroll_up s), cursor := of_nat p\<rparr>"
proof -
  let ?u = "video_scroll_up s"
  have len: "length (concat (upbuffer s)) = 25 * 160"
    using assms(1) length_rows[of 160 "upbuffer s"] by (simp add: screen_ok_def buffer_ok_def)
  have m: "store_bytes (concat (downbuffer ?u)) video_memory (vmem ?u) = vmem s"
    using store_screen_back[OF len] by (simp add: scroll_up_eq[OF assms] screen_rows)
  have "video_scroll_down ?u =
      (video_set_cursor_auto (?u\<lparr>vmem := vmem s, is_scrolled := False, pointer := vaddr (2 * p)\<rparr>))\<lparr>stored_x := 0, stored_y := 0\<rparr>"
    unfolding video_scroll_down_def m Let_def by (simp add: scroll_up_eq[OF assms] move_cursor_at)
  also have "\<dots> = ?u\<lparr>vmem := vmem s, is_scrolled := False, pointer := vaddr (2 * p), cursor := of_nat p, stored_x := 0, stored_y := 0\<rparr>"
    using assms(4) cursor_at[of p "?u\<lparr>vmem := vmem s, is_scrolled := False, pointer := vaddr (2 * p)\<rparr>"]
    by (simp add: at_cell_def)
  finally show ?thesis
    using assms by (simp add: scroll_up_eq[OF assms] screen_ok_def at_cell_def)
qed

lemma concat_rows_nth:
  "list_all (\<lambda>r. length r = n) rows \<Longrightarrow> y < length rows \<Longrightarrow> i < n \<Longrightarrow> concat rows ! (y * n + i) = rows ! y ! i"
proof (induction rows arbitrary: y)
  case (Cons r rows)
  then show ?case by (cases y) (auto simp: nth_append add.assoc)
qed simp

lemma scroll_up_rows:
  assumes "screen_ok s" "is_shifted_once s" "at_cell p s" "p < 2000" "y < 25"
  shows "bytes_at (vmem (video_scroll_up s)) (vaddr (y * 160)) 160 = upbuffer s ! y"
proof (rule nth_equalityI)
  have b: "length (upbuffer s) = 25" "list_all (\<lambda>r. length r = 160) (upbuffer s)"
    using assms(1) by (auto simp: screen_ok_def buffer_ok_def)
  then show "length (bytes_at (vmem (video_scroll_up s)) (vaddr (y * 160)) 160) = length (upbuffer s ! y)"
    using assms(5) by (simp add: list_all_length)
  fix i assume "i < length (bytes_at (vmem (video_scroll_up s)) (vaddr (y * 160)) 160)"
  then have i: "i < 160" by simp
  have u: "unat (vaddr (y * 160) + of_nat i - video_memory) = y * 160 + i"
    using assms(5) i by (simp add: vaddr_def unat_of_nat32 flip: of_nat_add of_nat_mult)
  have "concat (upbuffer s) ! (y * 160 + i) = upbuffer s ! y ! i"
    using b assms(5) i by (intro concat_rows_nth) auto
  then show "bytes_at (vmem (video_scroll_up s)) (vaddr (y * 160)) 160 ! i = upbuffer s ! y ! i"
    using i u assms(5) length_rows[OF b(2)] b(1) by (simp add: bytes_at_def scroll_up_eq[OF assms(1-4)] store_bytes_at)
qed

text \<open>The state after \<open>video_init\<close>; the buffers and the stored position are zero before it.\<close>

lemma init_shown:
  assumes "buffer_ok (upbuffer s)" "stored_x s = 0" "stored_y s = 0"
  shows "terminal_of (video_init s)
    \<lparr>t_cells = cell_of (video_init s), t_pos = 0, t_fg = GREY, t_bg = BLACK, t_x = lower_bound_x s, t_y = lower_bound_y s\<rparr>"
  using assms
  by (simp add: terminal_of_def shown_as_def video_init_def video_clear_def at_cell_def vaddr_def screen_ok_def)

section \<open>Where the screen code goes wrong\<close>

text \<open>A carriage return on the first line: the unsigned quotient wraps and the pointer ends 96 bytes before the screen.\<close>

lemma return_on_first_line:
  assumes "at_cell p s" "p < 80"
  shows "pointer (video_cartridge_return s) = video_memory - 96"
proof -
  have "offset s div line_bytes = 0" using line_of_at[OF assms(1)] assms(2) by simp
  then have "video_cartridge_return s = video_set_cursor_auto (video_shift_one_line (video_new_line (s\<lparr>pointer := video_memory - line_bytes\<rparr>)))"
    by (simp add: video_cartridge_return_def)
  moreover have "pointer (video_set_cursor_auto r) = pointer r" for r
    by (simp add: video_set_cursor_auto_def video_set_cursor_def Let_def)
  moreover have "pointer (video_shift_one_line r) = pointer r" if "pointer r = video_memory - 96" for r
    using that by (simp add: video_shift_one_line_def video_memory_def screen_bytes_def)
  ultimately show ?thesis
    by (simp add: video_new_line_def offset_def line_bytes_def video_memory_def)
qed

lemma term_draws_pos: "t_pos t + n \<le> 16384 \<Longrightarrow> \<exists>t'. term_draws n c t = Some t' \<and> t_pos t' = t_pos t + n"
proof (induction n arbitrary: t)
  case (Suc n)
  let ?t = "t\<lparr>t_cells := (t_cells t)(t_pos t := (c, t_fg t + 16 * t_bg t)), t_pos := t_pos t + 1\<rparr>"
  have "term_draw c t = Some ?t" using Suc.prems by (simp add: term_draw_def)
  then show ?case using Suc.IH[of ?t] Suc.prems by simp
qed simp

text \<open>
  A tab that fills the last line does not shift the screen when it comes from \<open>video_puts\<close>: the next character is
  drawn behind the screen, moved up with its line, and then the pointer is put on it, so that the
  character after it overwrites it.
\<close>

lemma tab_at_end_loses_character:
  assumes "t_pos t = 1996" "c \<notin> {8, 9, 10, 13, 27}"
  shows "\<exists>t'. term_puts [9, c] t = Some t' \<and> t_pos t' = 1920 \<and> fst (t_cells t' 1920) = c"
proof -
  obtain t1 where t1: "term_tab t = Some t1" "t_pos t1 = 2000"
    using term_draws_pos[of "t\<lparr>t_fg := t_bg t\<rparr>" 4 9] assms(1) by (auto simp: term_tab_def)
  then show ?thesis using assms(2) by (simp add: term_char_def term_draw_def term_scroll_def up_cells_def)
qed

text \<open>A character that is written while the screen is scrolled back from column 0 is not written where the text ends.\<close>

lemma putc_while_scrolled:
  assumes "screen_ok s" "is_shifted_once s" "at_cell p s" "p < 2000" "p mod 80 = 0 \<or> p div 80 = 0" "c \<notin> {8, 9, 10, 13, 27}"
  shows "\<exists>s'. video_putc c (video_scroll_up s) = Inr s' \<and> is_scrolled s'"
proof -
  let ?u = "video_scroll_up s"
  have u: "at_cell 2080 ?u" "is_scrolled ?u" "stored_x ?u = 0 \<or> stored_y ?u = 0"
    using assms(5) by (auto simp: scroll_up_eq[OF assms(1-4)] at_cell_def)
  have "is_scrolled (video_set_cursor_auto (video_shift_one_line r)) = is_scrolled r" for r
    by (simp add: video_set_cursor_auto_def video_set_cursor_def video_shift_one_line_def video_rotate_scroll_buffer_def Let_def)
  then show ?thesis
    using u assms(6) by (auto simp: video_putc_def Let_def draw_char_at)
qed

section \<open>Properties\<close>

definition blank_screen :: screen_t where
  "blank_screen = video_init
     \<lparr>pointer = 0, foreground_color = 0, background_color = 0, upbuffer = replicate 25 (replicate 160 0),
      downbuffer = replicate 25 (replicate 160 0), is_scrolled = False, is_shifted_once = False, stored_x = 0, stored_y = 0,
      vmem = (\<lambda>a. 0), cursor = 0, lower_bound_x = 0, lower_bound_y = 0\<rparr>"

definition blank_terminal :: terminal where
  "blank_terminal = \<lparr>t_cells = cell_of blank_screen, t_pos = 0, t_fg = 7, t_bg = 0, t_x = 0, t_y = 0\<rparr>"

lemma blank_shown: "terminal_of blank_screen blank_terminal"
  using init_shown[of "\<lparr>pointer = 0, foreground_color = 0, background_color = 0, upbuffer = replicate 25 (replicate 160 0),
      downbuffer = replicate 25 (replicate 160 0), is_scrolled = False, is_shifted_once = False, stored_x = 0, stored_y = 0,
      vmem = (\<lambda>a. 0), cursor = 0, lower_bound_x = 0, lower_bound_y = 0\<rparr>"]
  by (simp add: blank_screen_def blank_terminal_def buffer_ok_def list_all_length GREY_def BLACK_def)

lemma term_draws_3:
  "term_draws 3 c t = Option.bind (term_draw c t) (\<lambda>t. Option.bind (term_draw c t) (\<lambda>t. Option.bind (term_draw c t) Some))"
  unfolding numeral_3_eq_3 term_draws.simps by (auto simp: Option.bind_def split: option.splits)

text \<open>
  C36. The screen implements a terminal: \<open>video_puts\<close> on the bytes of the video memory does what the terminal does on cells,
  for every string in which no step leaves the window, with characters, line ends, tabs, deletions, carriage returns and
  colours, and with the lines that are scrolled out at the top. A carriage return goes to the start of the current line,
  below the first (\<open>video.h\<close> announces the line above instead; on the first line the pointer ends before the
  screen, \<open>return_on_first_line\<close>). Text of characters and line
  ends never leaves the visible part of the screen: it is printed without a fault and ends on a visible cell.
\<close>

theorem video_puts_refines:
  assumes "terminal_of s t"
  shows "(\<forall>t'. term_puts cs t = Some t' \<longrightarrow> (\<exists>s'. video_puts cs s = Inr s' \<and> terminal_of s' t')) \<and>
    (plain cs \<and> t_pos t < 2000 \<longrightarrow>
      (\<exists>s' t'. video_puts cs s = Inr s' \<and> term_puts cs t = Some t' \<and> terminal_of s' t' \<and> t_pos t' < 2000))"
  using puts_refines[OF assms] plain_stays by blast

theorem video_puts_refines_witness:
  "\<exists>s'. video_puts [72, 9, 10, 65] blank_screen = Inr s' \<and> cell_of s' 0 = (72, 7) \<and> cell_of s' 1 = (9, 0) \<and>
     cell_of s' 80 = (65, 7) \<and> at_cell 81 s'"
proof -
  obtain t' where t': "term_puts [72, 9, 10, 65] blank_terminal = Some t'" "t_pos t' = 81"
      "t_cells t' 0 = (72, 7)" "t_cells t' 1 = (9, 0)" "t_cells t' 80 = (65, 7)"
    by (simp add: term_char_def term_draw_def term_scroll_def term_tab_def term_draws_3 term_newline_def blank_terminal_def)
  then obtain s' where "video_puts [72, 9, 10, 65] blank_screen = Inr s'" "terminal_of s' t'"
    using video_puts_refines[OF blank_shown, of "[72, 9, 10, 65]"] by blast
  then show ?thesis using t' by (auto simp: terminal_of_def shown_as_def)
qed

text \<open>
  Scrolling back and forth is lossless: \<open>video_scroll_up\<close> shows the lines that were scrolled out last, the newest at the
  bottom, and does nothing when it is repeated or when nothing was scrolled out; \<open>video_scroll_down\<close> puts back
  every byte of the memory, the pointer and the cursor. A character that is written while the text is away, from
  a position that is neither on the first line nor in the first column, is written as if
  \<open>video_scroll_down\<close> had been called first.
\<close>

theorem video_scroll_roundtrip:
  assumes "screen_ok s" "at_cell p s" "p < 2000"
  shows "if is_shifted_once s then
      (\<forall>y<25. bytes_at (vmem (video_scroll_up s)) (vaddr (y * 160)) 160 = upbuffer s ! y) \<and>
      video_scroll_up (video_scroll_up s) = video_scroll_up s \<and>
      video_scroll_down (video_scroll_up s) = s\<lparr>downbuffer := downbuffer (video_scroll_up s), cursor := of_nat p\<rparr> \<and>
      (0 < p mod 80 \<and> 0 < p div 80 \<longrightarrow>
        video_putc c (video_scroll_up s) = video_putc c (video_scroll_down (video_scroll_up s)))
    else video_scroll_up s = s"
proof (cases "is_shifted_once s")
  case True
  note e = scroll_up_eq[OF assms(1) True assms(2,3)]
  have "stored_x (video_scroll_up s) \<noteq> 0 \<and> stored_y (video_scroll_up s) \<noteq> 0" if "0 < p mod 80" "0 < p div 80"
    using that assms(3) unat_of_nat32[of "p mod 80"] unat_of_nat32[of "p div 80"]
    by (auto simp: e word_unat_eq_iff)
  moreover have "stored_x (video_scroll_down (video_scroll_up s)) = 0"
    using scroll_back[OF assms(1) True assms(2,3)] assms(1) by (simp add: screen_ok_def)
  ultimately have "video_putc c (video_scroll_up s) = video_putc c (video_scroll_down (video_scroll_up s))"
    if "0 < p mod 80" "0 < p div 80"
    using that by (simp add: video_putc_def)
  moreover have "video_scroll_up (video_scroll_up s) = video_scroll_up s"
    by (simp add: e video_scroll_up_def[of "s\<lparr>downbuffer := _, vmem := _, is_scrolled := True, stored_x := _, stored_y := _, pointer := _, cursor := _\<rparr>"])
  ultimately show ?thesis
    using True scroll_up_rows[OF assms(1) True assms(2,3)] scroll_back[OF assms(1) True assms(2,3)] by simp
qed (simp add: video_scroll_up_def)

theorem video_scroll_roundtrip_witness:
  "let s = blank_screen\<lparr>is_shifted_once := True, pointer := vaddr (2 * 165)\<rparr> in
     pointer (video_scroll_down (video_scroll_up s)) = vaddr 330 \<and> vmem (video_scroll_down (video_scroll_up s)) = vmem s \<and>
     bytes_at (vmem (video_scroll_up s)) (vaddr (3 * 160)) 160 = replicate 160 0"
proof -
  let ?s = "blank_screen\<lparr>is_shifted_once := True, pointer := vaddr (2 * 165)\<rparr>"
  have "screen_ok ?s" using blank_shown by (simp add: terminal_of_def shown_as_def screen_ok_def)
  then have r: "\<forall>y<25. bytes_at (vmem (video_scroll_up ?s)) (vaddr (y * 160)) 160 = upbuffer ?s ! y"
    "video_scroll_down (video_scroll_up ?s) = ?s\<lparr>downbuffer := downbuffer (video_scroll_up ?s), cursor := of_nat 165\<rparr>"
    using video_scroll_roundtrip[of ?s 165] by (simp_all add: at_cell_def)
  have "upbuffer ?s ! 3 = replicate 160 0" by (simp add: blank_screen_def video_init_def video_clear_def)
  then show ?thesis using r(1)[rule_format, of 3] by (simp add: Let_def r(2)[simplified])
qed

end
