(* ===== verification/Keyboard_Correct.thy ===== *)
theory Keyboard_Correct
  imports Keyboard Video_Correct Queue
begin

text \<open>
  Correctness of the keyboard: the circular buffer against the list of the characters typed and not yet read, through the
  interface \<open>fifo\<close> of the queues, and the handler against a translation of scan codes into text that is echoed on the
  terminal.
\<close>

section \<open>The circular buffer\<close>

definition kbd_holds :: "keyboard \<Rightarrow> u8 list \<Rightarrow> bool" where
  "kbd_holds k xs \<longleftrightarrow>
     length (circular_buffer k) = 256 \<and> buf_r k < 256 \<and> length xs \<le> 255 \<and> buf_w k = (buf_r k + length xs) mod 256 \<and>
     (\<forall>i<length xs. circular_buffer k ! ((buf_r k + i) mod 256) = sint (xs ! i))"

lemma STEP_mod: "x < 256 \<Longrightarrow> STEP x = (x + 1) mod 256"
  by (auto simp: STEP_def BUFSIZE_def mod_Suc)

lemma ring_eq:
  assumes "i < 256" "j < 256"
  shows "(r + i) mod 256 = (r + j) mod (256 :: nat) \<longleftrightarrow> i = j"
proof -
  have "i = j" if "i + 256 * a = j + 256 * b" for a b
  proof -
    from that have "(i + 256 * a) mod 256 = (j + 256 * b) mod 256" by simp
    then show ?thesis using assms by simp
  qed
  then show ?thesis by (auto simp: nat_mod_eq_iff)
qed

lemma step_ring: "r < 256 \<Longrightarrow> (STEP r + i) mod 256 = (r + Suc i) mod 256"
  by (simp add: STEP_mod mod_add_left_eq)

lemma drop_first:
  assumes "kbd_holds k (x # xs)"
  shows "kbd_holds (k\<lparr>buf_r := STEP (buf_r k)\<rparr>) xs"
proof -
  note k = assms[unfolded kbd_holds_def]
  have "circular_buffer k ! ((STEP (buf_r k) + i) mod 256) = sint (xs ! i)" if "i < length xs" for i
    using k that by (auto simp: step_ring simp del: add_Suc_right dest: spec[of _ "Suc i"])
  moreover have "STEP (buf_r k) < 256" using k by (simp add: STEP_mod)
  ultimately show ?thesis using k by (simp add: kbd_holds_def step_ring)
qed

lemma push_room:
  assumes "kbd_holds k xs" "length xs < 255"
  shows "\<exists>k'. push_character c k = Inr k' \<and> kbd_holds k' (xs @ [c]) \<and>
    k' = k\<lparr>circular_buffer := circular_buffer k', buf_w := buf_w k'\<rparr>"
proof -
  note k = assms(1)[unfolded kbd_holds_def]
  let ?w = "(buf_r k + length xs) mod 256"
  let ?k = "k\<lparr>circular_buffer := (circular_buffer k)[?w := sint c], buf_w := (buf_r k + length (xs @ [c])) mod 256\<rparr>"
  have w: "STEP ?w = (buf_r k + length (xs @ [c])) mod 256" by (simp add: STEP_mod mod_Suc_eq)
  have "STEP ?w \<noteq> buf_r k" using ring_eq[of "length (xs @ [c])" 0 "buf_r k"] assms(2) k by (simp add: w)
  then have "push_character c k = Inr ?k" using k w by (simp add: push_character_def)
  moreover have "kbd_holds ?k (xs @ [c])"
    unfolding kbd_holds_def using k assms(2) by (auto simp: nth_append nth_list_update ring_eq less_Suc_eq)
  ultimately show ?thesis by auto
qed

text \<open>A full buffer drops its oldest character for a new one: it holds the newest 255.\<close>

definition newest :: "u8 list \<Rightarrow> u8 list" where
  "newest xs = drop (length xs - 255) xs"

lemma newest_small [simp]: "length xs \<le> 255 \<Longrightarrow> newest xs = xs"
  by (simp add: newest_def)

lemma newest_append: "newest (newest xs @ ys) = newest (xs @ ys)"
proof (cases "length xs \<le> 255")
  case False
  then have "newest xs @ ys = drop (length xs - 255) (xs @ ys)" by (simp add: newest_def)
  then show ?thesis using False by (simp add: newest_def add.commute)
qed simp

lemma push_newest:
  assumes "kbd_holds k xs"
  shows "\<exists>k'. push_character c k = Inr k' \<and> kbd_holds k' (newest (xs @ [c])) \<and>
    k' = k\<lparr>circular_buffer := circular_buffer k', buf_r := buf_r k', buf_w := buf_w k'\<rparr>"
proof (cases "length xs < 255")
  case True
  from push_room[OF assms True, of c] obtain k' where k': "push_character c k = Inr k'" "kbd_holds k' (xs @ [c])"
    "k' = k\<lparr>circular_buffer := circular_buffer k', buf_w := buf_w k'\<rparr>" by blast
  have "buf_r k' = buf_r k" by (subst k'(3)) simp
  then have "k' = k\<lparr>circular_buffer := circular_buffer k', buf_r := buf_r k', buf_w := buf_w k'\<rparr>" by (subst k'(3)) simp
  then show ?thesis using k'(1,2) True by auto
next
  case False
  then have "length xs = 255" using assms by (auto simp: kbd_holds_def)
  then obtain x ys where xs: "xs = x # ys" "length ys = 254" by (cases xs) auto
  let ?k = "k\<lparr>buf_r := STEP (buf_r k)\<rparr>"
  have r: "buf_r k < 256" "buf_w k = (buf_r k + 255) mod 256" using assms xs by (auto simp: kbd_holds_def)
  then have "STEP (buf_w k) = buf_r k" by (simp add: STEP_mod mod_Suc_eq)
  moreover have "STEP (buf_w k) \<noteq> STEP (buf_r k)"
    using r ring_eq[of 255 0 "buf_r k"] ring_eq[of 1 0 "buf_r k"] \<open>STEP (buf_w k) = buf_r k\<close> by (simp add: STEP_mod)
  ultimately have e: "push_character c k = push_character c ?k" by (simp add: push_character_def)
  have "kbd_holds ?k ys" using drop_first assms xs(1) by blast
  from push_room[OF this, of c] xs(2) obtain k' where k': "push_character c ?k = Inr k'" "kbd_holds k' (ys @ [c])"
    "k' = ?k\<lparr>circular_buffer := circular_buffer k', buf_w := buf_w k'\<rparr>" by auto
  have "buf_r k' = STEP (buf_r k)" by (subst k'(3)) simp
  then have "k' = k\<lparr>circular_buffer := circular_buffer k', buf_r := buf_r k', buf_w := buf_w k'\<rparr>" by (subst k'(3)) simp
  moreover have "newest (xs @ [c]) = ys @ [c]" using xs by (simp add: newest_def)
  ultimately show ?thesis using e k'(1,2) by auto
qed

lemma getc_first:
  assumes "kbd_holds k (x # xs)"
  shows "keyboard_getc k = Inr (sint x, k\<lparr>buf_r := STEP (buf_r k)\<rparr>)"
proof -
  note k = assms[unfolded kbd_holds_def]
  have "buf_r k \<noteq> buf_w k" using k ring_eq[of 0 "length (x # xs)" "buf_r k"] by simp
  moreover have "circular_buffer k ! buf_r k = sint x" using k by (auto dest: spec[of _ 0])
  ultimately show ?thesis using k by (simp add: keyboard_getc_def)
qed

lemma getc_empty: "kbd_holds k [] \<Longrightarrow> keyboard_getc k = Inr (- 1, k)"
  by (simp add: kbd_holds_def keyboard_getc_def)

interpretation kbd: fifo kbd_holds "\<lambda>x k. buf_r k \<noteq> STEP (buf_w k)" push_character
  "\<lambda>k. bindR (keyboard_getc k) (\<lambda>(c, k'). Inr c)" sint "\<lambda>k. bindR (keyboard_getc k) (\<lambda>(c, k'). Inr k')"
proof (unfold_locales, goal_cases)
  case (1 s xs x)
  have "length xs \<noteq> 255"
  proof
    assume "length xs = 255"
    then have "buf_r s < 256" "buf_w s = (buf_r s + 255) mod 256" using 1(1) by (auto simp: kbd_holds_def)
    then show False using 1(2) by (simp add: STEP_mod mod_Suc_eq)
  qed
  then have "length xs < 255" using 1(1) by (auto simp: kbd_holds_def)
  then show ?case using push_room[OF 1(1)] by blast
next
  case (2 s x xs)
  then show ?case by (simp add: getc_first)
next
  case (3 s x xs)
  then show ?case using drop_first[OF 3] by (simp add: getc_first)
qed

section \<open>Modifiers and text\<close>

text \<open>The keys that are held or locked, as truth values.\<close>

record mods =
  lshift :: bool
  rshift :: bool
  caps :: bool
  numl :: bool
  scroll :: bool
  lctrl :: bool
  rctrl :: bool

definition mods_of :: "u32 \<Rightarrow> mods" where
  "mods_of f = \<lparr>lshift = bit f 0, rshift = bit f 1, caps = bit f 2, numl = bit f 3, scroll = bit f 4, lctrl = bit f 5, rctrl = bit f 6\<rparr>"

text \<open>A scan code of the table: pressing and releasing the shift and control keys, and the three locks.\<close>

definition mods_step :: "u32 \<Rightarrow> mods \<Rightarrow> mods" where
  "mods_step c m =
     (if c = 0x2A then m\<lparr>lshift := True\<rparr> else if c = 0xAA then m\<lparr>lshift := False\<rparr>
      else if c = 0x36 then m\<lparr>rshift := True\<rparr> else if c = 0xB6 then m\<lparr>rshift := False\<rparr>
      else if c = 0x1D then m\<lparr>lctrl := True\<rparr> else if c = 0x9D then m\<lparr>lctrl := False\<rparr>
      else if c = 0xE01D then m\<lparr>rctrl := True\<rparr> else if c = 0xE09D then m\<lparr>rctrl := False\<rparr>
      else if c = 0x3A then m\<lparr>caps := \<not> caps m\<rparr>
      else if c = 0x45 then m\<lparr>numl := \<not> numl m\<rparr>
      else if c = 0x46 then m\<lparr>scroll := \<not> scroll m\<rparr>
      else m)"

text \<open>Keys without a character: releases, modifiers, locks, escape and the alternative keys.\<close>

definition silent :: "u32 \<Rightarrow> bool" where
  "silent c \<longleftrightarrow> c AND 0x80 \<noteq> 0 \<or> c \<in> {0x2A, 0x36, 0x1D, 0xE01D, 0x3A, 0x45, 0x46, 0x01, 0x38, 0xE038}"

text \<open>
  The Italian keyboard, independently of the tables of the driver: rows of keys from the scan code of their first one
  on, and single keys; letters with an accent, the pound and the degree sign by their codes on the screen. Keys without an entry
  have no character, which is 0.
\<close>

definition key_row :: "int \<Rightarrow> string \<Rightarrow> (int \<times> int) list" where
  "key_row k s = zip (map (\<lambda>i. k + int i) [0..<length s]) (map of_char s)"

definition plain_keys :: "(int \<times> int) list" where
  "plain_keys = key_row 0x02 ''1234567890'' @ key_row 0x10 ''qwertyuiop'' @ key_row 0x1E ''asdfghjkl'' @ key_row 0x2C ''zxcvbnm,.-'' @
     key_row 0x1B ''+'' @ key_row 0x37 ''*'' @ key_row 0x39 '' '' @ key_row 0x4A ''-'' @ key_row 0x4E ''+'' @ key_row 0x56 ''<'' @ key_row 0xE035 ''/'' @
     [(0x0C, 39), (0x0D, 141), (0x1A, 138), (0x27, 149), (0x28, 133), (0x29, 92), (0x2B, 151), (0x01, 27), (0x0E, 8), (0x0F, 9), (0x1C, 13)]"

definition shift_keys :: "(int \<times> int) list" where
  "shift_keys = key_row 0x05 ''$%&/()=?^'' @ key_row 0x10 ''QWERTYUIOP'' @ key_row 0x1E ''ASDFGHJKL'' @ key_row 0x2C ''ZXCVBNM;:_'' @
     key_row 0x02 ''!'' @ key_row 0x1B ''*'' @ key_row 0x29 ''|'' @ key_row 0x37 ''*'' @ key_row 0x39 '' '' @ key_row 0x4A ''-'' @ key_row 0x4E ''+'' @
     key_row 0x56 ''>'' @ key_row 0xE035 ''/'' @ [(0x03, 34), (0x04, 156), (0x1A, 130), (0x27, 128), (0x28, 167)]"

definition pad_keys :: "(int \<times> int) list" where
  "pad_keys = key_row 0x47 ''789'' @ key_row 0x4B ''456'' @ key_row 0x4F ''1230.''"

definition key_at :: "(int \<times> int) list \<Rightarrow> int \<Rightarrow> int" where
  "key_at t k = (case map_of t k of None \<Rightarrow> 0 | Some x \<Rightarrow> x)"

text \<open>The character of a key: the pad under num lock, then the shifted or the plain one; caps lock turns the case of letters.\<close>

definition char_of_key :: "mods \<Rightarrow> u32 \<Rightarrow> int" where
  "char_of_key m c =
     (let pad = key_at pad_keys (uint c);
          x = (if numl m \<and> pad > 0 then pad else key_at (if lshift m \<or> rshift m then shift_keys else plain_keys) (uint c))
      in if caps m \<and> 97 \<le> x \<and> x \<le> 122 then x - 32 else if caps m \<and> 65 \<le> x \<and> x \<le> 90 then x + 32 else x)"

definition text_key :: "mods \<Rightarrow> u32 \<Rightarrow> bool" where
  "text_key m c \<longleftrightarrow>
     \<not> silent c \<and> c \<notin> {0xE049, 0xE051, 0x0E, 0xE01C, 0x1C, 0xE048, 0xE050, 0xE04B, 0xE04D} \<and>
     0 < char_of_key m c \<and> (word_of_int (char_of_key m c) :: u8) \<notin> {8, 9, 10, 13, 27}"

text \<open>The text of a sequence of scan codes, and that every key of it is silent or has a character.\<close>

fun typed :: "mods \<Rightarrow> u32 list \<Rightarrow> u8 list" where
  "typed m [] = []"
| "typed m (c # cs) = (if silent c then typed (mods_step c m) cs else word_of_int (char_of_key m c) # typed m cs)"

fun typeable :: "mods \<Rightarrow> u32 list \<Rightarrow> bool" where
  "typeable m [] \<longleftrightarrow> True"
| "typeable m (c # cs) \<longleftrightarrow> (if silent c then typeable (mods_step c m) cs else text_key m c \<and> typeable m cs)"

text \<open>Interrupts with the bytes that the ports return.\<close>

fun isr_run :: "(u8 \<times> u8) list \<Rightarrow> keyboard \<Rightarrow> keyboard res" where
  "isr_run [] k = Inr k"
| "isr_run ((a, b) # bs) k = bindR (keyboard_isr 1 a b k) (isr_run bs)"

lemmas kbd_consts = KBD_LEFT_SHIFT_def KBD_RIGHT_SHIFT_def KBD_CAPS_LOCK_def KBD_NUM_LOCK_def KBD_SCROLL_LOCK_def
  KBD_LEFT_CONTROL_def KBD_RIGHT_CONTROL_def

lemmas key_consts = KEY_ESCAPE_def KEY_BACKSPACE_def KEY_ENTER_def KEY_LEFT_CONTROL_def KEY_LEFT_SHIFT_def KEY_RIGHT_SHIFT_def
  KEY_LEFT_ALT_def KEY_CAPS_LOCK_def KEY_NUM_LOCK_def KEY_SCROLL_LOCK_def KEY_KP_RETURN_def KEY_RIGHT_CONTROL_def KEY_RIGHT_ALT_def
  KEY_UP_ARROW_def KEY_PAGE_UP_def KEY_LEFT_ARROW_def KEY_RIGHT_ARROW_def KEY_DOWN_ARROW_def KEY_PAGE_DOWN_def CODE_BREAK_def

lemma kbd_powers:
  "KBD_LEFT_SHIFT = 2 ^ 0" "KBD_RIGHT_SHIFT = 2 ^ 1" "KBD_CAPS_LOCK = 2 ^ 2" "KBD_NUM_LOCK = 2 ^ 3" "KBD_SCROLL_LOCK = 2 ^ 4"
  "KBD_LEFT_CONTROL = 2 ^ 5" "KBD_RIGHT_CONTROL = 2 ^ 6"
  by (simp_all add: kbd_consts)

lemma flag_mods:
  "has_flag f KBD_NUM_LOCK = numl (mods_of f)" "has_flag f KBD_CAPS_LOCK = caps (mods_of f)"
  "has_flag f (KBD_LEFT_SHIFT OR KBD_RIGHT_SHIFT) = (lshift (mods_of f) \<or> rshift (mods_of f))"
  by (simp_all only: has_flag_or) (simp_all only: kbd_powers has_flag_bit mods_of_def mods.simps)

text \<open>The tables of the driver are those of the reference.\<close>

lemma keymap_tables:
  "list_all (\<lambda>i. key_at plain_keys (int i) = max 0 (keymap_base ! i)) [0..<89]"
  "list_all (\<lambda>i. key_at shift_keys (int i) = max 0 (keymap_shift ! i)) [0..<89]"
  "list_all (\<lambda>i. key_at pad_keys (int i) = max 0 (keymap_numlock ! i)) [0..<84]"
  "list_all (\<lambda>(k, x). 0 \<le> k \<and> k < int 89 \<or> k = 0xE035) plain_keys" "list_all (\<lambda>(k, x). 0 \<le> k \<and> k < int 89 \<or> k = 0xE035) shift_keys"
  "list_all (\<lambda>(k, x). 0 \<le> k \<and> k < int 84 \<or> k = 0xE035) pad_keys"
  "key_at plain_keys 0xE035 = 47" "key_at shift_keys 0xE035 = 47" "key_at pad_keys 0xE035 = 0"
  "length keymap_base = 89" "length keymap_shift = 89" "length keymap_numlock = 84"
  by code_simp+

lemma keymap_at_key:
  assumes "list_all (\<lambda>i. key_at t (int i) = max 0 (table ! i)) [0..<n]" "list_all (\<lambda>(k, x). 0 \<le> k \<and> k < int n \<or> k = 0xE035) t"
    "key_at t 0xE035 = kp" "length table = n" "n \<le> 89" "0 \<le> kp"
  shows "max 0 (keymap_at table kp c) = key_at t (uint c)"
proof (cases "unat c < n")
  case True
  then have "unat c \<in> set [0..<n]" by simp
  with assms(1) have "key_at t (int (unat c)) = max 0 (table ! unat c)" unfolding list_all_iff by blast
  then show ?thesis using assms(4) True by (simp add: keymap_at_def)
next
  case False
  show ?thesis
  proof (cases "c = 0xE035")
    case True
    then show ?thesis using assms False by (simp add: keymap_at_def)
  next
    case other: False
    then have "uint c \<noteq> 0xE035" by (simp add: word_uint_eq_iff)
    moreover have "int n \<le> int (unat c)" using False by linarith
    then have "int n \<le> uint c" by simp
    ultimately have "map_of t (uint c) = None" using assms(2) by (auto simp: map_of_eq_None_iff list_all_iff)
    then show ?thesis using assms(4) False other by (simp add: keymap_at_def key_at_def)
  qed
qed

lemmas driver_keys = keymap_at_key[OF keymap_tables(1,4,7,10)] keymap_at_key[OF keymap_tables(2,5,8,11)] keymap_at_key[OF keymap_tables(3,6,9,12)]

lemma caps_max:
  "max 0 (if 0 < x \<and> C then if 97 \<le> x \<and> x \<le> 122 then x - 32 else if 65 \<le> x \<and> x \<le> 90 then x + 32 else x else x) =
    (let y = max 0 x in if C \<and> 97 \<le> y \<and> y \<le> 122 then y - 32 else if C \<and> 65 \<le> y \<and> y \<le> 90 then y + 32 else y)" for x :: int
  by (simp add: max_def Let_def)

lemma pad_max:
  "max 0 (if (if N then p else 0) \<le> 0 then x else if N then p else 0) = (if N \<and> 0 < max 0 p then max 0 p else max 0 x)" for p :: int
  by (cases N) simp_all

lemma key_character_eq: "max 0 (key_character f c) = char_of_key (mods_of f) c"
proof -
  let ?m = "mods_of f"
  let ?p = "keymap_at keymap_numlock 0 c"
  let ?x = "if lshift ?m \<or> rshift ?m then keymap_at keymap_shift 47 c else keymap_at keymap_base 47 c"
  let ?y = "if (if numl ?m then ?p else 0) \<le> 0 then ?x else if numl ?m then ?p else 0"
  have "max 0 ?x = key_at (if lshift ?m \<or> rshift ?m then shift_keys else plain_keys) (uint c)"
    using driver_keys(1,2)[of c] by simp
  moreover have "max 0 ?p = key_at pad_keys (uint c)" using driver_keys(3)[of c] by simp
  ultimately have y: "max 0 ?y = (if numl ?m \<and> 0 < key_at pad_keys (uint c) then key_at pad_keys (uint c)
      else key_at (if lshift ?m \<or> rshift ?m then shift_keys else plain_keys) (uint c))"
    unfolding pad_max by simp
  have "key_character f c = (if 0 < ?y \<and> caps ?m then if 97 \<le> ?y \<and> ?y \<le> 122 then ?y - 32
      else if 65 \<le> ?y \<and> ?y \<le> 90 then ?y + 32 else ?y else ?y)"
    unfolding key_character_def flag_mods Let_def ..
  then show ?thesis unfolding char_of_key_def Let_def using caps_max[of ?y "caps ?m"] unfolding y Let_def by simp
qed

lemmas flag_bits_at = bit_set_flag[of 0, simplified] bit_set_flag[of 1, simplified] bit_set_flag[of 5, simplified] bit_set_flag[of 6, simplified]
  bit_clear_flag[of _ 0, simplified] bit_clear_flag[of _ 1, simplified] bit_clear_flag[of _ 5, simplified] bit_clear_flag[of _ 6, simplified]
  bit_toggle_flag[of 2, simplified] bit_toggle_flag[of 3, simplified] bit_toggle_flag[of 4, simplified]

lemma flags_mods:
  "mods_of (set_flag f KBD_LEFT_SHIFT) = (mods_of f)\<lparr>lshift := True\<rparr>"
  "mods_of (set_flag f KBD_RIGHT_SHIFT) = (mods_of f)\<lparr>rshift := True\<rparr>"
  "mods_of (set_flag f KBD_LEFT_CONTROL) = (mods_of f)\<lparr>lctrl := True\<rparr>"
  "mods_of (set_flag f KBD_RIGHT_CONTROL) = (mods_of f)\<lparr>rctrl := True\<rparr>"
  "mods_of (clear_flag f KBD_LEFT_SHIFT) = (mods_of f)\<lparr>lshift := False\<rparr>"
  "mods_of (clear_flag f KBD_RIGHT_SHIFT) = (mods_of f)\<lparr>rshift := False\<rparr>"
  "mods_of (clear_flag f KBD_LEFT_CONTROL) = (mods_of f)\<lparr>lctrl := False\<rparr>"
  "mods_of (clear_flag f KBD_RIGHT_CONTROL) = (mods_of f)\<lparr>rctrl := False\<rparr>"
  "mods_of (f XOR KBD_CAPS_LOCK) = (mods_of f)\<lparr>caps := \<not> caps (mods_of f)\<rparr>"
  "mods_of (f XOR KBD_NUM_LOCK) = (mods_of f)\<lparr>numl := \<not> numl (mods_of f)\<rparr>"
  "mods_of (f XOR KBD_SCROLL_LOCK) = (mods_of f)\<lparr>scroll := \<not> scroll (mods_of f)\<rparr>"
  by (simp_all add: mods_of_def kbd_consts flag_bits_at)

lemma release_mods:
  assumes "c AND 0x80 \<noteq> 0"
  shows "mods_of (release_key c f) = mods_step c (mods_of f)"
proof -
  have "c \<noteq> 0x2A" "c \<noteq> 0x36" "c \<noteq> 0x1D" "c \<noteq> 0xE01D" "c \<noteq> 0x3A" "c \<noteq> 0x45" "c \<noteq> 0x46" using assms by auto
  then show ?thesis by (simp add: release_key_def mods_step_def key_consts flags_mods)
qed

lemma press_silent:
  assumes "silent c" "c AND 0x80 = 0"
  shows "\<exists>k'. press_key c k = Inr k' \<and> mods_of (keyboard_flags k') = mods_step c (mods_of (keyboard_flags k)) \<and>
    k' = k\<lparr>keyboard_flags := keyboard_flags k', ledstate := ledstate k', port_out := port_out k'\<rparr>"
  using assms unfolding silent_def
  by (auto simp: press_key_def key_consts hold_key_def toggle_lock_def keyboard_update_leds_def Let_def flags_mods mods_step_def)

section \<open>Typing\<close>

definition echo :: "keyboard \<Rightarrow> u8 \<Rightarrow> u8 list" where
  "echo k c = (if \<not> shadow k then [c] else if shadow_character k \<noteq> 0 then [shadow_character k] else [])"

definition echoed :: "keyboard \<Rightarrow> u8 list \<Rightarrow> u8 list" where
  "echoed k cs = concat (map (echo k) cs)"

definition typing_ok :: "keyboard \<Rightarrow> u8 list \<Rightarrow> terminal \<Rightarrow> bool" where
  "typing_ok k xs t \<longleftrightarrow>
     kbd_holds k xs \<and> terminal_of (screen k) t \<and> t_pos t < 2000 \<and> shadow_character k \<notin> {8, 9, 10, 13, 27}"

lemma term_puts_char:
  "c \<notin> {8, 9, 10, 13, 27} \<Longrightarrow> term_puts (c # cs) t = Option.bind (term_char c t) (term_puts cs)"
  by simp

lemma term_char_visible:
  assumes "t_pos t < 2000" "c \<notin> {8, 9, 10, 13, 27}"
  shows "\<exists>t'. term_char c t = Some t' \<and> t_pos t' < 2000"
  using plain_stays[of "[c]" t] assms by (auto simp: plain_def bind_eq_Some_conv)

lemma putc_echo:
  assumes "typing_ok k xs t" "c \<notin> {8, 9, 10, 13, 27}"
  shows "\<exists>s' t'. video_putc c (screen k) = Inr s' \<and> terminal_of s' t' \<and> t_pos t' < 2000 \<and> term_char c t = Some t'"
proof -
  have t: "terminal_of (screen k) t" "t_pos t < 2000" using assms(1) by (simp_all add: typing_ok_def)
  obtain t' where "term_char c t = Some t'" "t_pos t' < 2000" using term_char_visible[OF t(2) assms(2)] by auto
  then show ?thesis using putc_refines[OF t(1) assms(2)] by auto
qed

text \<open>Only the buffer and the screen change when a character is typed.\<close>

definition same_modes :: "keyboard \<Rightarrow> keyboard \<Rightarrow> bool" where
  "same_modes k k' \<longleftrightarrow>
     keyboard_flags k' = keyboard_flags k \<and> shadow k' = shadow k \<and> shadow_character k' = shadow_character k"

lemma screen_change: "typing_ok (k\<lparr>screen := s\<rparr>) xs t \<longleftrightarrow>
    kbd_holds k xs \<and> terminal_of s t \<and> t_pos t < 2000 \<and> shadow_character k \<notin> {8, 9, 10, 13, 27}"
  by (simp add: typing_ok_def kbd_holds_def)

lemma type_key_types:
  assumes "typing_ok k xs t" "text_key (mods_of (keyboard_flags k)) c"
  shows "\<exists>k' t'. type_key c k = Inr k' \<and> typing_ok k' (newest (xs @ [word_of_int (char_of_key (mods_of (keyboard_flags k)) c)])) t' \<and>
    term_puts (echo k (word_of_int (char_of_key (mods_of (keyboard_flags k)) c))) t = Some t' \<and> same_modes k k'"
proof -
  let ?x = "char_of_key (mods_of (keyboard_flags k)) c"
  let ?c = "word_of_int ?x :: u8"
  have x: "0 < ?x" "?c \<notin> {8, 9, 10, 13, 27}" using assms(2) by (simp_all add: text_key_def)
  let ?e = "if \<not> shadow k then on_screen (video_putc ?c) k
    else if shadow_character k \<noteq> 0 then on_screen (video_putc (shadow_character k)) k else Inr k"
  have "\<exists>k1 t'. ?e = Inr k1 \<and> typing_ok k1 xs t' \<and> term_puts (echo k ?c) t = Some t' \<and> same_modes k k1"
  proof (cases "shadow k \<and> shadow_character k = 0")
    case True
    then show ?thesis using assms(1) by (simp add: echo_def same_modes_def)
  next
    case False
    define d where "d = (if shadow k then shadow_character k else ?c)"
    have d: "d \<notin> {8, 9, 10, 13, 27}" using x(2) assms(1) by (auto simp: d_def typing_ok_def)
    from putc_echo[OF assms(1) d] obtain s' t' where s': "video_putc d (screen k) = Inr s'" "terminal_of s' t'" "t_pos t' < 2000"
      "term_char d t = Some t'" by auto
    have "?e = Inr (k\<lparr>screen := s'\<rparr>)" using False s'(1) by (auto simp: on_screen_def d_def)
    moreover have "term_puts (echo k ?c) t = Some t'"
    proof -
      have "echo k ?c = [d]" using False by (auto simp: echo_def d_def)
      then show ?thesis using term_puts_char[OF d, of "[]" t] s'(4) by simp
    qed
    moreover have "typing_ok (k\<lparr>screen := s'\<rparr>) xs t'"
      using s'(2,3) assms(1) unfolding screen_change by (simp add: typing_ok_def)
    moreover have "same_modes k (k\<lparr>screen := s'\<rparr>)" by (simp add: same_modes_def)
    ultimately show ?thesis by blast
  qed
  then obtain k1 t' where k1: "?e = Inr k1" "typing_ok k1 xs t'" "term_puts (echo k ?c) t = Some t'" "same_modes k k1" by blast
  obtain k2 where k2: "push_character ?c k1 = Inr k2" "kbd_holds k2 (newest (xs @ [?c]))"
    "k2 = k1\<lparr>circular_buffer := circular_buffer k2, buf_r := buf_r k2, buf_w := buf_w k2\<rparr>"
    using push_newest[of k1 xs ?c] k1(2) by (auto simp: typing_ok_def)
  have f: "screen k2 = screen k1" "shadow_character k2 = shadow_character k1" "same_modes k1 k2"
    by (subst k2(3), simp add: same_modes_def)+
  have "type_key c k = Inr k2"
    unfolding type_key_def Let_def using key_character_eq[of "keyboard_flags k" c] x(1) k1(1) k2(1) by (simp add: max_def split: if_splits)
  moreover have "typing_ok k2 (newest (xs @ [?c])) t'" using k1(2) k2(2) f by (simp add: typing_ok_def)
  ultimately show ?thesis using k1(3,4) f(3) by (auto simp: same_modes_def)
qed

lemma press_text:
  assumes "text_key m c"
  shows "press_key c k = type_key c k" "c AND 0x80 = 0" "mods_step c m' = m'"
proof -
  show c: "c AND 0x80 = 0" using assms by (simp add: text_key_def silent_def)
  then have "c \<noteq> 0xAA" "c \<noteq> 0xB6" "c \<noteq> 0x9D" "c \<noteq> 0xE09D" by auto
  then show "mods_step c m' = m'" using assms by (simp add: text_key_def silent_def mods_step_def)
  show "press_key c k = type_key c k" using assms by (simp add: text_key_def silent_def press_key_def key_consts)
qed

lemma echo_append:
  assumes "c \<notin> {8, 9, 10, 13, 27}" "shadow_character k \<notin> {8, 9, 10, 13, 27}" "term_puts (echo k c) t = Some t'"
  shows "term_puts (echoed k (c # cs)) t = term_puts (echoed k cs) t'"
proof -
  have "echo k c = [] \<or> (\<exists>d. echo k c = [d] \<and> d \<notin> {8, 9, 10, 13, 27})" using assms(1,2) by (auto simp: echo_def)
  then show ?thesis
  proof
    assume "echo k c = []"
    then show ?thesis using assms(3) by (simp add: echoed_def)
  next
    assume "\<exists>d. echo k c = [d] \<and> d \<notin> {8, 9, 10, 13, 27}"
    then obtain d where d: "echo k c = [d]" "d \<notin> {8, 9, 10, 13, 27}" by blast
    then show ?thesis
      using assms(3) term_puts_char[OF d(2)] by (auto simp: echoed_def bind_eq_Some_conv)
  qed
qed

lemma send_eoi_ok: "typing_ok (send_eoi k) xs t = typing_ok k xs t" "keyboard_flags (send_eoi k) = keyboard_flags k"
  "echo (send_eoi k) c = echo k c"
  by (auto simp: send_eoi_def typing_ok_def kbd_holds_def echo_def)

lemma echoed_cong:
  assumes "shadow k' = shadow k" "shadow_character k' = shadow_character k"
  shows "echoed k' = echoed k"
proof -
  have "echo k' = echo k" by (rule ext) (simp add: echo_def assms)
  show ?thesis by (rule ext) (simp add: echoed_def \<open>echo k' = echo k\<close>)
qed

lemma isr_silent:
  assumes "typing_ok k xs t" "silent c" "c = scancode_of a b"
  shows "\<exists>k'. keyboard_isr 1 a b k = Inr k' \<and> typing_ok k' xs t \<and> echoed k' = echoed k \<and>
    mods_of (keyboard_flags k') = mods_step c (mods_of (keyboard_flags k))"
proof (cases "c AND 0x80 = 0")
  case True
  obtain k1 where k1: "press_key c k = Inr k1" "mods_of (keyboard_flags k1) = mods_step c (mods_of (keyboard_flags k))"
    "k1 = k\<lparr>keyboard_flags := keyboard_flags k1, ledstate := ledstate k1, port_out := port_out k1\<rparr>"
    using press_silent[OF assms(2) True] by metis
  have f: "shadow k1 = shadow k" "shadow_character k1 = shadow_character k" by (subst k1(3), simp)+
  have "typing_ok k1 xs t" by (subst k1(3)) (use assms(1) in \<open>simp add: typing_ok_def kbd_holds_def\<close>)
  moreover have "echoed (send_eoi k1) = echoed k" by (rule echoed_cong) (simp_all add: send_eoi_def f)
  ultimately show ?thesis using k1(1,2) True assms(3) by (simp add: keyboard_isr_def send_eoi_ok)
next
  case False
  let ?k = "send_eoi (k\<lparr>keyboard_flags := release_key c (keyboard_flags k)\<rparr>)"
  have "keyboard_isr 1 a b k = Inr ?k" using False assms(3) by (simp add: keyboard_isr_def)
  moreover have "echoed ?k = echoed k" by (rule echoed_cong) (simp_all add: send_eoi_def)
  moreover have "typing_ok ?k xs t" using assms(1) by (simp add: send_eoi_def typing_ok_def kbd_holds_def)
  ultimately show ?thesis using release_mods[OF False] by (simp add: send_eoi_ok)
qed

lemma isr_text:
  assumes "typing_ok k xs t" "text_key (mods_of (keyboard_flags k)) c" "c = scancode_of a b"
  shows "\<exists>k' t'. keyboard_isr 1 a b k = Inr k' \<and> typing_ok k' (newest (xs @ [word_of_int (char_of_key (mods_of (keyboard_flags k)) c)])) t' \<and>
    term_puts (echo k (word_of_int (char_of_key (mods_of (keyboard_flags k)) c))) t = Some t' \<and> echoed k' = echoed k \<and>
    keyboard_flags k' = keyboard_flags k"
proof -
  note p = press_text[OF assms(2)]
  obtain k1 t' where k1: "type_key c k = Inr k1" "same_modes k k1"
    "typing_ok k1 (newest (xs @ [word_of_int (char_of_key (mods_of (keyboard_flags k)) c)])) t'"
    "term_puts (echo k (word_of_int (char_of_key (mods_of (keyboard_flags k)) c))) t = Some t'"
    using type_key_types[OF assms(1,2)] by blast
  have "keyboard_isr 1 a b k = Inr (send_eoi k1)" using p k1(1) assms(3) by (simp add: keyboard_isr_def)
  moreover have "echoed (send_eoi k1) = echoed k"
    using k1(2) by (intro echoed_cong) (simp_all add: send_eoi_def same_modes_def)
  moreover have "keyboard_flags (send_eoi k1) = keyboard_flags k" using k1(2) by (simp add: send_eoi_ok same_modes_def)
  ultimately show ?thesis using k1(3,4) by (auto simp: send_eoi_ok)
qed

lemma isr_run_types:
  "typing_ok k xs t \<Longrightarrow> typeable (mods_of (keyboard_flags k)) (map (\<lambda>(a, b). scancode_of a b) bs) \<Longrightarrow>
   \<exists>k' t'. isr_run bs k = Inr k' \<and>
     typing_ok k' (newest (xs @ typed (mods_of (keyboard_flags k)) (map (\<lambda>(a, b). scancode_of a b) bs))) t' \<and>
     term_puts (echoed k (typed (mods_of (keyboard_flags k)) (map (\<lambda>(a, b). scancode_of a b) bs))) t = Some t' \<and>
     mods_of (keyboard_flags k') = fold mods_step (map (\<lambda>(a, b). scancode_of a b) bs) (mods_of (keyboard_flags k))"
proof (induction bs arbitrary: k xs t)
  case Nil
  then have "length xs \<le> 255" by (simp add: typing_ok_def kbd_holds_def)
  then show ?case using Nil by (simp add: echoed_def)
next
  case (Cons ab bs)
  obtain a b where ab: "ab = (a, b)" by (cases ab)
  let ?c = "scancode_of a b"
  let ?m = "mods_of (keyboard_flags k)"
  show ?case
  proof (cases "silent ?c")
    case True
    obtain k1 where k1: "keyboard_isr 1 a b k = Inr k1" "typing_ok k1 xs t" "echoed k1 = echoed k" "mods_of (keyboard_flags k1) = mods_step ?c ?m"
      using isr_silent[OF Cons.prems(1) True refl] by blast
    show ?thesis
      using Cons.IH[OF k1(2)] Cons.prems(2) k1 True by (simp add: ab)
  next
    case False
    let ?x = "word_of_int (char_of_key ?m ?c) :: u8"
    have tk: "text_key ?m ?c" using Cons.prems(2) False by (simp add: ab)
    obtain k1 t1 where k1: "keyboard_isr 1 a b k = Inr k1" "typing_ok k1 (newest (xs @ [?x])) t1" "term_puts (echo k ?x) t = Some t1"
      "echoed k1 = echoed k" "keyboard_flags k1 = keyboard_flags k"
      using isr_text[OF Cons.prems(1) tk refl] by blast
    have "term_puts (echoed k (?x # ys)) t = term_puts (echoed k ys) t1" for ys
      using echo_append[OF _ _ k1(3)] tk Cons.prems(1) by (simp add: text_key_def typing_ok_def)
    then show ?thesis
      using Cons.IH[OF k1(2)] Cons.prems(2) k1 False press_text(3)[OF tk] newest_append[of "xs @ [?x]"] by (simp add: ab)
  qed
qed

text \<open>Pressing caps lock once, with all lights out, switches on all three.\<close>

lemma leds_wrong:
  assumes "ledstate k = 0" "keyboard_flags k = 0"
  shows "ledstate (toggle_lock KBD_CAPS_LOCK k) = 7" "port_out (toggle_lock KBD_CAPS_LOCK k) = port_out k @ [0xED, 7]"
  using assms by (simp_all add: toggle_lock_def keyboard_update_leds_def update_led_def kbd_consts Let_def)

section \<open>Properties\<close>

definition idle_keyboard :: keyboard where
  "idle_keyboard =
     \<lparr>circular_buffer = replicate 256 0, buf_r = 0, buf_w = 0, ledstate = 0, shadow = False, shadow_character = 0,
      keyboard_flags = 0, screen = blank_screen, port_out = [], eois = 0\<rparr>"

lemma idle_typing: "typing_ok idle_keyboard [] blank_terminal" "mods_of (keyboard_flags idle_keyboard) =
    \<lparr>lshift = False, rshift = False, caps = False, numl = False, scroll = False, lctrl = False, rctrl = False\<rparr>"
  using blank_shown by (simp_all add: typing_ok_def kbd_holds_def idle_keyboard_def blank_terminal_def mods_of_def)

text \<open>
  C28. Typing, on a screen whose cursor is on the visible lines and with a shadow character that is not a control character: for every
  sequence of interrupts in which keys with a character are pressed and modifiers, locks, escape and alternative keys are
  pressed and any keys are released, the handler returns, and the buffer holds what it held followed by the text, or
  the newest 255 characters of that when it is more (the oldest are dropped). The text is echoed on the terminal, or
  the shadow character in place of each character (nothing, when it is 0). The text is the one of a reference keyboard with its own layout,
  which keeps the modifiers as truth values, and the flags at the end are those of the keys that are held or locked.
\<close>

theorem typing_is_buffered_and_echoed:
  assumes "kbd_holds k xs" "terminal_of (screen k) t" "t_pos t < 2000" "shadow_character k \<notin> {8, 9, 10, 13, 27}"
    and "cs = map (\<lambda>(a, b). scancode_of a b) bs" "m = mods_of (keyboard_flags k)" "typeable m cs"
  shows "\<exists>k' t'. isr_run bs k = Inr k' \<and> kbd_holds k' (newest (xs @ typed m cs)) \<and>
    term_puts (echoed k (typed m cs)) t = Some t' \<and> terminal_of (screen k') t' \<and>
    mods_of (keyboard_flags k') = fold mods_step cs m"
  using isr_run_types[of k xs t bs] assms by (auto simp: typing_ok_def)

theorem typing_is_buffered_and_echoed_witness:
  "\<exists>k'. isr_run [(0x2A, 0), (0x1E, 0), (0x9E, 0), (0xAA, 0), (0x1E, 0)] idle_keyboard = Inr k' \<and> kbd_holds k' [65, 97] \<and>
     \<not> lshift (mods_of (keyboard_flags k'))"
proof -
  let ?m = "\<lparr>lshift = False, rshift = False, caps = False, numl = False, scroll = False, lctrl = False, rctrl = False\<rparr>"
  have c: "map (\<lambda>(a, b). scancode_of a b) [(0x2A, 0), (0x1E, 0), (0x9E, 0), (0xAA, 0), (0x1E, 0)] = [0x2A, 0x1E, 0x9E, 0xAA, 0x1E]"
    by (simp add: scancode_of_def)
  have p: "key_at shift_keys 30 = 65" "key_at plain_keys 30 = 97" by code_simp+
  have k: "char_of_key \<lparr>lshift = l, rshift = False, caps = False, numl = False, scroll = False, lctrl = False, rctrl = False\<rparr> 0x1E =
      (if l then 65 else 97)" for l
    using p by (simp add: char_of_key_def)
  have e: "typeable ?m [0x2A, 0x1E, 0x9E, 0xAA, 0x1E]" "typed ?m [0x2A, 0x1E, 0x9E, 0xAA, 0x1E] = [65, 97]"
    "fold mods_step [0x2A, 0x1E, 0x9E, 0xAA, 0x1E] ?m = ?m"
    by (simp_all add: silent_def mods_step_def text_key_def k)
  have i: "kbd_holds idle_keyboard []" "terminal_of (screen idle_keyboard) blank_terminal" "t_pos blank_terminal < 2000"
    "shadow_character idle_keyboard \<notin> {8, 9, 10, 13, 27}" using idle_typing(1) by (simp_all add: typing_ok_def)
  have n: "newest [65, 97] = [65, 97]" by simp
  obtain k' where k': "isr_run [(0x2A, 0), (0x1E, 0), (0x9E, 0), (0xAA, 0), (0x1E, 0)] idle_keyboard = Inr k'"
      "kbd_holds k' [65, 97]" "mods_of (keyboard_flags k') = ?m"
    using typing_is_buffered_and_echoed[OF i c[symmetric] idle_typing(2)[symmetric] e(1)] unfolding e(2,3) append_Nil n by blast
  show ?thesis by (intro exI[of _ k'] conjI k'(1,2)) (simp only: k'(3) mods.simps simp_thms)
qed

text \<open>
  The buffer of the keyboard is first in, first out with room for 255 characters: \<open>push_character\<close> appends, and when
  the buffer is full drops the oldest character first; \<open>keyboard_getc\<close> takes the first character, as a signed
  number, and returns -1 when there is none.
\<close>

theorem keyboard_buffer_fifo:
  assumes "kbd_holds k xs"
  shows "(\<exists>k'. push_character c k = Inr k' \<and> kbd_holds k' ((if length xs < 255 then xs else tl xs) @ [c])) \<and>
    (case xs of [] \<Rightarrow> keyboard_getc k = Inr (- 1, k)
     | x # ys \<Rightarrow> \<exists>k'. keyboard_getc k = Inr (sint x, k') \<and> kbd_holds k' ys)"
proof
  have "length xs \<le> 255" using assms by (simp add: kbd_holds_def)
  then have "newest (xs @ [c]) = (if length xs < 255 then xs else tl xs) @ [c]" by (cases xs) (auto simp: newest_def)
  then show "\<exists>k'. push_character c k = Inr k' \<and> kbd_holds k' ((if length xs < 255 then xs else tl xs) @ [c])"
    using push_newest[OF assms, of c] by auto
  show "case xs of [] \<Rightarrow> keyboard_getc k = Inr (- 1, k) | x # ys \<Rightarrow> \<exists>k'. keyboard_getc k = Inr (sint x, k') \<and> kbd_holds k' ys"
    using assms getc_empty getc_first drop_first by (auto split: list.split)
qed

theorem keyboard_buffer_fifo_witness:
  "keyboard_getc idle_keyboard = Inr (- 1, idle_keyboard)"
  using keyboard_buffer_fifo[of idle_keyboard "[]" 65] idle_typing(1) by (simp add: typing_ok_def)

end
