(* ===== verification/C_Token.thy ===== *)
theory C_Token
  imports Char_Map Printf
begin

text \<open>
  The routines of \<open>libc/string.c\<close> that search, split and rewrite strings: \<open>strstr\<close>, the tokenizers \<open>strtok\<close>, \<open>strtok_r\<close>
  and \<open>strsep\<close>, \<open>trim\<close>, \<open>replace_char\<close>, the comparisons without case, the conversions of numbers and \<open>strmode\<close>. The memory and
  the conventions are those of \<open>C_String\<close>; the static variable \<open>last\<close> of \<open>strtok\<close> and the saved pointers of the other two
  are passed and returned.
\<close>

section \<open>Comparison and search\<close>

partial_function (option) stricmp :: "mem \<Rightarrow> nat \<Rightarrow> nat \<Rightarrow> int option" where
  "stricmp m s1 s2 =
     (if m s2 \<noteq> 0 \<and> toupper_c (schar (m s1)) = toupper_c (schar (m s2)) then stricmp m (Suc s1) (Suc s2)
      else Some (toupper_c (schar (m s1)) - toupper_c (schar (m s2))))"

definition lower_uchar :: "u8 \<Rightarrow> int" where
  "lower_uchar c = (if uchar c \<ge> 65 \<and> uchar c \<le> 90 then uchar c + 32 else uchar c)"

text \<open>\<open>n\<close> further characters after the current one; with \<open>n = 0\<close> on entry the counter of the code wraps.\<close>

fun strnicmp_loop :: "mem \<Rightarrow> nat \<Rightarrow> nat \<Rightarrow> nat \<Rightarrow> int" where
  "strnicmp_loop m s1 s2 0 = lower_uchar (m s1) - lower_uchar (m s2)"
| "strnicmp_loop m s1 s2 (Suc n) =
     (if lower_uchar (m s1) \<noteq> 0 \<and> lower_uchar (m s1) = lower_uchar (m s2) then strnicmp_loop m (Suc s1) (Suc s2) n
      else lower_uchar (m s1) - lower_uchar (m s2))"

definition strnicmp :: "mem \<Rightarrow> nat \<Rightarrow> nat \<Rightarrow> nat \<Rightarrow> int" where
  "strnicmp m s1 s2 n = strnicmp_loop m s1 s2 (if n = 0 then 2 ^ 32 - 1 else n - 1)"

fun kstrncmp_loop :: "mem \<Rightarrow> nat \<Rightarrow> nat \<Rightarrow> nat \<Rightarrow> int" where
  "kstrncmp_loop m s1 s2 0 = (if schar (m s1) > schar (m s2) then 1 else if schar (m s1) < schar (m s2) then -1 else 0)"
| "kstrncmp_loop m s1 s2 (Suc n) =
     (if m s1 = m s2 then kstrncmp_loop m (Suc s1) (Suc s2) n
      else if schar (m s1) > schar (m s2) then 1 else if schar (m s1) < schar (m s2) then -1 else 0)"

definition kstrncmp :: "mem \<Rightarrow> nat \<Rightarrow> nat \<Rightarrow> nat \<Rightarrow> int" where
  "kstrncmp m s1 s2 num = (if num = 0 then 0 else kstrncmp_loop m s1 s2 (num - 1))"

partial_function (option) strstr_match :: "mem \<Rightarrow> nat \<Rightarrow> nat \<Rightarrow> nat option" where
  "strstr_match m s1 s2 =
     (if m s1 \<noteq> 0 \<and> m s2 \<noteq> 0 \<and> m s1 = m s2 then strstr_match m (Suc s1) (Suc s2) else Some s2)"

partial_function (option) strstr_loop :: "mem \<Rightarrow> nat \<Rightarrow> nat \<Rightarrow> nat option option" where
  "strstr_loop m cp str2 =
     (if m cp = 0 then Some None
      else Option.bind (strstr_match m cp str2) (\<lambda>s2. if m s2 = 0 then Some (Some cp) else strstr_loop m (Suc cp) str2))"

definition strstr :: "mem \<Rightarrow> nat \<Rightarrow> nat \<Rightarrow> nat option option" where
  "strstr m str1 str2 = (if m str2 = 0 then Some (Some str1) else strstr_loop m str1 str2)"

text \<open>Copies up to and with the character \<open>c\<close>; the address behind it, or null.\<close>

fun memccpy :: "mem \<Rightarrow> nat \<Rightarrow> nat \<Rightarrow> u8 \<Rightarrow> nat \<Rightarrow> mem \<times> nat option" where
  "memccpy m dst src c 0 = (m, None)"
| "memccpy m dst src c (Suc n) =
     (let b = m src; m = m(dst := b) in if b \<noteq> c then memccpy m (Suc dst) (Suc src) c n else (m, Some (Suc dst)))"

section \<open>Tokenizers\<close>

text \<open>The two scans of the delimiters: without the terminator and with it.\<close>

partial_function (option) span_hit :: "mem \<Rightarrow> nat \<Rightarrow> u8 \<Rightarrow> bool option" where
  "span_hit m sp c = (if m sp = 0 then Some False else if c = m sp then Some True else span_hit m (Suc sp) c)"

partial_function (option) span_hit0 :: "mem \<Rightarrow> nat \<Rightarrow> u8 \<Rightarrow> bool option" where
  "span_hit0 m sp c = (if m sp = c then Some True else if m sp \<noteq> 0 then span_hit0 m (Suc sp) c else Some False)"

partial_function (option) skip_delims :: "mem \<Rightarrow> nat \<Rightarrow> nat \<Rightarrow> nat option" where
  "skip_delims m str delim =
     Option.bind (span_hit m delim (m str)) (\<lambda>hit. if hit then skip_delims m (Suc str) delim else Some str)"

partial_function (option) token_end :: "mem \<Rightarrow> nat \<Rightarrow> nat \<Rightarrow> nat option" where
  "token_end m str delim =
     Option.bind (span_hit0 m delim (m str)) (\<lambda>hit. if hit then Some str else token_end m (Suc str) delim)"

definition strtok :: "nat option \<Rightarrow> nat \<Rightarrow> nat option \<Rightarrow> mem \<Rightarrow> (nat option \<times> mem \<times> nat option) option" where
  "strtok str delim last' m =
     (case (if str = None then last' else str) of
        None \<Rightarrow> Some (None, m, last')
      | Some s \<Rightarrow>
          Option.bind (skip_delims m s delim) (\<lambda>tok.
          if m tok = 0 then Some (None, m, None)
          else
            Option.bind (token_end m (Suc tok) delim) (\<lambda>e.
            if m e = 0 then Some (Some tok, m, None) else Some (Some tok, m(e := 0), Some (Suc e)))))"

definition strsep :: "nat option \<Rightarrow> nat \<Rightarrow> mem \<Rightarrow> (nat option \<times> mem \<times> nat option) option" where
  "strsep stringp delim m =
     (case stringp of
        None \<Rightarrow> Some (None, m, None)
      | Some s \<Rightarrow>
          Option.bind (token_end m s delim) (\<lambda>e.
          if m e = 0 then Some (Some s, m, None) else Some (Some s, m(e := 0), Some (Suc e))))"

partial_function (option) tok_skip :: "mem \<Rightarrow> u8 list \<Rightarrow> nat \<Rightarrow> nat res option" where
  "tok_skip m mp str =
     (case map_test (m str) mp of
        Inl e \<Rightarrow> Some (Inl e)
      | Inr b \<Rightarrow> if b \<and> m str \<noteq> 0 then tok_skip m mp (Suc str) else Some (Inr str))"

partial_function (option) tok_cut :: "mem \<Rightarrow> u8 list \<Rightarrow> nat \<Rightarrow> (mem \<times> nat) res option" where
  "tok_cut m mp str =
     (if m str = 0 then Some (Inr (m, str))
      else case map_test (m str) mp of
             Inl e \<Rightarrow> Some (Inl e)
           | Inr b \<Rightarrow> if b then Some (Inr (m(str := 0), Suc str)) else tok_cut m mp (Suc str))"

definition delim_map :: "mem \<Rightarrow> nat \<Rightarrow> u8 list res option" where
  "delim_map m ctrl =
     (case set_bits m ctrl clear_map of None \<Rightarrow> None | Some (Inl e) \<Rightarrow> Some (Inl e) | Some (Inr mp) \<Rightarrow> Some (map_set 0 mp))"

definition strtok_r :: "nat option \<Rightarrow> nat \<Rightarrow> nat \<Rightarrow> mem \<Rightarrow> (nat option \<times> mem \<times> nat) res option" where
  "strtok_r string' control lasts m =
     (case delim_map m control of
        None \<Rightarrow> None
      | Some (Inl e) \<Rightarrow> Some (Inl e)
      | Some (Inr mp) \<Rightarrow>
          (case tok_skip m mp (case string' of Some s \<Rightarrow> s | None \<Rightarrow> lasts) of
             None \<Rightarrow> None
           | Some (Inl e) \<Rightarrow> Some (Inl e)
           | Some (Inr tok) \<Rightarrow>
               (case tok_cut m mp tok of
                  None \<Rightarrow> None
                | Some (Inl e) \<Rightarrow> Some (Inl e)
                | Some (Inr (m, str)) \<Rightarrow> Some (Inr (if tok = str then None else Some tok, m, str)))))"

section \<open>Rewriting\<close>

partial_function (option) trim_front :: "mem \<Rightarrow> nat \<Rightarrow> nat option" where
  "trim_front m p = (if isspace_c (uchar (m p)) then trim_front m (Suc p) else Some p)"

text \<open>\<open>while (isspace(*(--endp)) && endp != frontp)\<close>; it is entered with \<open>frontp < endp\<close>.\<close>

function trim_back :: "mem \<Rightarrow> nat \<Rightarrow> nat \<Rightarrow> nat" where
  "trim_back m frontp endp =
     (let endp' = endp - 1 in
      if isspace_c (uchar (m endp')) \<and> frontp < endp' then trim_back m frontp endp' else endp')"
  by pat_completeness auto

termination by (relation "measure (\<lambda>(m, f, e). e)") auto

declare trim_back.simps [simp del]

partial_function (option) trim_shift :: "mem \<Rightarrow> nat \<Rightarrow> nat \<Rightarrow> mem option" where
  "trim_shift m endp frontp =
     (if m frontp \<noteq> 0 then trim_shift (m(endp := m frontp)) (Suc endp) (Suc frontp) else Some (m(endp := 0)))"

definition trim :: "mem \<Rightarrow> nat \<Rightarrow> mem option" where
  "trim m str =
     (if m str = 0 then Some m
      else
        Option.bind (strlen m str) (\<lambda>len.
        Option.bind (trim_front m str) (\<lambda>frontp.
        let endp = (if str + len \<noteq> frontp then trim_back m frontp (str + len) else str + len);
            m = (if str + len - 1 \<noteq> endp then m(Suc endp := 0)
                 else if frontp \<noteq> str \<and> endp = frontp then m(str := 0) else m)
        in if frontp \<noteq> str then trim_shift m str frontp else Some m)))"

partial_function (option) replace_loop :: "mem \<Rightarrow> nat option \<Rightarrow> u8 \<Rightarrow> u8 \<Rightarrow> mem option" where
  "replace_loop m pos find' replace =
     (case pos of
        None \<Rightarrow> Some m
      | Some p \<Rightarrow>
          Option.bind (strchr (m(p := replace)) p find') (\<lambda>pos. replace_loop (m(p := replace)) pos find' replace))"

definition replace_char :: "mem \<Rightarrow> nat \<Rightarrow> u8 \<Rightarrow> u8 \<Rightarrow> mem option" where
  "replace_char m str find' replace = Option.bind (strchr m str find') (\<lambda>pos. replace_loop m pos find' replace)"

section \<open>Numbers\<close>

text \<open>
  The digits are written from the lowest on and then reversed in place; \<open>strrev_loop\<close> is that exchange of the ends of a
  range. With base 1 the loop does not end, with base 0 it divides by zero: \<open>None\<close>.
\<close>

function digit_loop :: "mem \<Rightarrow> nat \<Rightarrow> nat \<Rightarrow> nat \<Rightarrow> (mem \<times> nat) option" where
  "digit_loop m p num base =
     (if num = 0 then Some (m, p)
      else if base < 2 then None
      else digit_loop (m(p := 48 + of_nat (num mod base))) (Suc p) (num div base) base)"
  by pat_completeness auto

termination by (relation "measure (\<lambda>(m, p, num, base). num)") auto

declare digit_loop.simps [simp del]

fun store_text :: "string \<Rightarrow> nat \<Rightarrow> mem \<Rightarrow> mem" where
  "store_text [] a m = m(a := 0)"
| "store_text (c # cs) a m = store_text cs (Suc a) (m(a := of_char c))"

definition int_to_str :: "'d fp \<Rightarrow> mem \<Rightarrow> nat \<Rightarrow> u32 \<Rightarrow> u32 \<Rightarrow> mem res option" where
  "int_to_str fp m buffer num base =
     (if base = 16 then
        Some (bindR (sprintf fp ''%0x'' [IntA num]) (\<lambda>(n, text, refs). Inr (store_text text buffer m)))
      else
        let (m, p) = (if num = 0 then (m(buffer := 48), Suc buffer) else (m, buffer)) in
        Option.bind (digit_loop m p (unat num) (unat base)) (\<lambda>(m, p).
        Some (Inr (strrev_loop (m(p := 0)) buffer (p - 1)))))"

text \<open>The negation is at 32 bits: that of the lowest number is itself.\<close>

definition knntos :: "mem \<Rightarrow> nat \<Rightarrow> u32 \<Rightarrow> nat \<Rightarrow> mem option" where
  "knntos m buffer num base =
     (let (num, m, p) = (if sint num < 0 then (NOT num + 1, m(buffer := 45), Suc buffer) else (num, m, buffer)) in
      Option.bind (if sint num > 0 then digit_loop m p (unat num) base else Some (m, p)) (\<lambda>(m, e).
      Some (strrev_loop (m(e := 0)) p (e - 1))))"

definition mode_char :: "u32 \<Rightarrow> u32 \<Rightarrow> u8 \<Rightarrow> u8" where
  "mode_char mode b c = (if mode AND b \<noteq> 0 then c else 45)"

definition strmode :: "mem \<Rightarrow> u32 \<Rightarrow> nat \<Rightarrow> mem" where
  "strmode m mode p =
     m(p := mode_char mode 0x100 114, p + 1 := mode_char mode 0x80 119, p + 2 := mode_char mode 0x40 120,
       p + 3 := mode_char mode 0x20 114, p + 4 := mode_char mode 0x10 119, p + 5 := mode_char mode 0x08 120,
       p + 6 := mode_char mode 0x04 114, p + 7 := mode_char mode 0x02 119, p + 8 := mode_char mode 0x01 120,
       p + 9 := 32, p + 10 := 0)"

end
