(* ===== verification/Shell.thy ===== *)
theory Shell
  imports C_Token
begin

text \<open>
  The command line of the shell (\<open>ui/shell/shell.c\<close>): the editing of a line, the history, the split into arguments and the
  search of the command. The array \<open>cmd\<close> is a memory of 256 bytes from address 0 on; an access behind it is a
  fault. An entry of the history is the string in it. What is written to the standard output is appended to \<open>out\<close>.
  The input is a sequence of characters with the state of the control key when each is read; when it ends, the
  shell waits: \<open>None\<close>.
\<close>

definition CMD_LEN :: nat where "CMD_LEN = 256"
definition HISTORY_MAX :: nat where "HISTORY_MAX = 10"
definition MAX_NUM_COM :: nat where "MAX_NUM_COM = 50"
definition KEY_UP :: u8 where "KEY_UP = 72"
definition KEY_DOWN :: u8 where "KEY_DOWN = 80"

record shell =
  cmd :: mem
  cmd_cursor_index :: nat
  history :: "u8 list list"
  history_write_index :: nat
  history_read_index :: nat
  history_full :: bool
  out :: "u8 list"

section \<open>Editing\<close>

definition cmd_put :: "nat \<Rightarrow> u8 \<Rightarrow> shell \<Rightarrow> shell res" where
  "cmd_put i c s = (if i < CMD_LEN then Inr (s\<lparr>cmd := (cmd s)(i := c)\<rparr>) else Inl OutOfBounds)"

definition putchar :: "u8 \<Rightarrow> shell \<Rightarrow> shell" where
  "putchar c s = s\<lparr>out := out s @ [c]\<rparr>"

definition shell_command_clear :: "shell \<Rightarrow> shell" where
  "shell_command_clear s = s\<lparr>out := out s @ replicate (cmd_cursor_index s) 8, cmd_cursor_index := 0\<rparr>"

fun cmd_strcpy :: "nat \<Rightarrow> u8 list \<Rightarrow> shell \<Rightarrow> shell res" where
  "cmd_strcpy i [] s = cmd_put i 0 s"
| "cmd_strcpy i (c # cs) s = bindR (cmd_put i c s) (cmd_strcpy (Suc i) cs)"

text \<open>\<open>printf(_cmd)\<close>: the command is the format.\<close>

definition printf :: "'d fp \<Rightarrow> u8 list \<Rightarrow> shell \<Rightarrow> shell res" where
  "printf fp c s =
     bindR (vsprintf fp (map (\<lambda>b. char_of (unat b)) c) []) (\<lambda>(n, txt, refs). Inr (s\<lparr>out := out s @ map of_char txt\<rparr>))"

definition shell_command_set :: "'d fp \<Rightarrow> u8 list \<Rightarrow> shell \<Rightarrow> shell res" where
  "shell_command_set fp c s =
     bindR (printf fp c s) (\<lambda>s. cmd_strcpy 0 c (s\<lparr>cmd_cursor_index := cmd_cursor_index s + length c\<rparr>))"

definition shell_command_erase_char :: "shell \<Rightarrow> shell res" where
  "shell_command_erase_char s =
     (if cmd_cursor_index s > 0
      then cmd_put (cmd_cursor_index s - 1) 0 (s\<lparr>cmd_cursor_index := cmd_cursor_index s - 1\<rparr>)
      else Inr s)"

definition shell_command_append_char :: "u8 \<Rightarrow> shell \<Rightarrow> (bool \<times> shell) res" where
  "shell_command_append_char c s =
     (if cmd_cursor_index s + 1 < CMD_LEN then
        bindR (cmd_put (cmd_cursor_index s) c s) (\<lambda>s.
        bindR (cmd_put (cmd_cursor_index s + 1) 0 (s\<lparr>cmd_cursor_index := cmd_cursor_index s + 1\<rparr>)) (\<lambda>s.
        Inr (True, s)))
      else Inr (False, s))"

section \<open>History\<close>

definition history_push :: "u8 list \<Rightarrow> shell \<Rightarrow> shell res" where
  "history_push c s =
     (let s = s\<lparr>history_read_index := history_write_index s\<rparr> in
      bindR (if history_write_index s > 0
             then bindR (get_at (history s) (history_write_index s - 1)) (\<lambda>h. Inr (h = c))
             else Inr False) (\<lambda>dup.
      if dup then Inr s
      else
        bindR (if length c < CMD_LEN then set_at (history s) (history_write_index s) c else Inl OutOfBounds) (\<lambda>hs.
        let s = s\<lparr>history := hs, history_write_index := history_write_index s + 1\<rparr>;
            s = (if history_write_index s \<ge> HISTORY_MAX then s\<lparr>history_write_index := 0, history_full := True\<rparr> else s)
        in Inr (s\<lparr>history_read_index := history_write_index s\<rparr>))))"

definition history_fetch :: "u8 \<Rightarrow> shell \<Rightarrow> (u8 list option \<times> shell) res" where
  "history_fetch key s =
     (if history_write_index s = 0 \<and> \<not> history_full s then Inr (None, s)
      else
        let r = int (history_read_index s); w = int (history_write_index s);
            next' = (if key = KEY_DOWN then r + 1 else if key = KEY_UP then r - 1 else r);
            next' =
              (if history_full s then
                 let n = (if next' < 0 then int HISTORY_MAX - 1 else if next' \<ge> int HISTORY_MAX then 0 else next') in
                 if n = w then r else n
               else if next' < 0 then 0 else if next' \<ge> w then r else next')
        in bindR (get_at (history s) (nat next')) (\<lambda>c. Inr (Some c, s\<lparr>history_read_index := nat next'\<rparr>)))"

section \<open>Reading a command\<close>

fun get_loop :: "'d fp \<Rightarrow> (u8 \<times> bool) list \<Rightarrow> shell \<Rightarrow> (shell \<times> (u8 \<times> bool) list) res option" where
  "get_loop fp [] s = None"
| "get_loop fp ((c, ctrl) # cs) s =
     (if c = 10 then
        Some (Inr (if cmd s 0 = 0 then putchar 10 s else s, cs))
      else if c = 27 then
        (case cs of
           b # (k, ctrl') # cs \<Rightarrow>
             (case (if k = KEY_UP \<or> k = KEY_DOWN then history_fetch k s else Inr (None, s)) of
                Inl e \<Rightarrow> Some (Inl e)
              | Inr (None, s) \<Rightarrow> if cmd_cursor_index s < CMD_LEN then get_loop fp cs s else Some (Inr (s, cs))
              | Inr (Some h, s) \<Rightarrow>
                  (case shell_command_set fp h (shell_command_clear s) of
                     Inl e \<Rightarrow> Some (Inl e)
                   | Inr s \<Rightarrow> if cmd_cursor_index s < CMD_LEN then get_loop fp cs s else Some (Inr (s, cs))))
         | _ \<Rightarrow> None)
      else if ctrl \<and> c = 99 then
        Some (bindR (shell_command_set fp [] (s\<lparr>cmd_cursor_index := 0, out := out s @ [8, 10, 10]\<rparr>)) (\<lambda>s. Inr (s, cs)))
      else if c = 8 then
        (case shell_command_erase_char s of
           Inl e \<Rightarrow> Some (Inl e)
         | Inr s \<Rightarrow> if cmd_cursor_index s < CMD_LEN then get_loop fp cs s else Some (Inr (s, cs)))
      else
        (case shell_command_append_char c s of
           Inl e \<Rightarrow> Some (Inl e)
         | Inr (ok, s) \<Rightarrow>
             let s = (if ok then s else putchar 8 s) in
             if cmd_cursor_index s < CMD_LEN then get_loop fp cs s else Some (Inr (s, cs))))"

text \<open>The trimmed command. A byte behind the array shows whether \<open>trim\<close> clears it.\<close>

definition shell_get_command :: "'d fp \<Rightarrow> (u8 \<times> bool) list \<Rightarrow> shell \<Rightarrow> (shell \<times> (u8 \<times> bool) list) res option" where
  "shell_get_command fp input s =
     (case get_loop fp input (s\<lparr>cmd_cursor_index := 0, cmd := memset (cmd s) 0 0 CMD_LEN\<rparr>) of
        None \<Rightarrow> None
      | Some (Inl e) \<Rightarrow> Some (Inl e)
      | Some (Inr (s, cs)) \<Rightarrow>
          map_option (\<lambda>m. if m CMD_LEN = 1 then Inr (s\<lparr>cmd := m\<rparr>, cs) else Inl OutOfBounds) (trim ((cmd s)(CMD_LEN := 1)) 0))"

section \<open>Arguments and commands\<close>

definition shell_is_separator :: "u8 \<Rightarrow> bool" where
  "shell_is_separator c \<longleftrightarrow> c = 0 \<or> c = 32 \<or> c = 9 \<or> c = 10 \<or> c = 13"

text \<open>The loops run over the characters of the string and its terminator.\<close>

fun count_loop :: "u8 list \<Rightarrow> bool \<Rightarrow> nat \<Rightarrow> nat" where
  "count_loop [] inword result = result"
| "count_loop (c # cs) inword result =
     (if shell_is_separator c then count_loop cs False (if inword then result + 1 else result)
      else count_loop cs True result)"

definition shell_count_words :: "u8 list \<Rightarrow> nat" where
  "shell_count_words sentence = count_loop (sentence @ [0]) False 0"

text \<open>
  The arguments that are complete, the one that is being read, and its state; an argument has room for 256 bytes and
  the vector for \<open>argc + 1\<close> pointers.
\<close>

fun options_loop :: "nat \<Rightarrow> u8 list \<Rightarrow> bool \<Rightarrow> u8 list \<Rightarrow> u8 list list \<Rightarrow> u8 list list res" where
  "options_loop argc [] inword arg argv = (if length argv \<le> argc then Inr argv else Inl OutOfBounds)"
| "options_loop argc (c # cs) inword arg argv =
     (if shell_is_separator c then
        if inword then
          if length arg < CMD_LEN then options_loop argc cs False [] (argv @ [arg]) else Inl OutOfBounds
        else options_loop argc cs False arg argv
      else if length argv \<le> argc \<and> length arg < CMD_LEN then options_loop argc cs True (arg @ [c]) argv
      else Inl OutOfBounds)"

definition shell_get_options :: "u8 list \<Rightarrow> (nat \<times> u8 list list) res" where
  "shell_get_options command =
     (let argc = shell_count_words command in
      if argc = 0 then Inr (0, [])
      else bindR (options_loop argc (command @ [0]) False [] []) (\<lambda>argv. Inr (argc, argv)))"

definition shell_commands :: "string list" where
  "shell_commands =
     [''logo'', ''clear'', ''echo'', ''poweroff'', ''uname'', ''credits'', ''sleep'', ''cpuid'', ''help'', ''ls'', ''cd'', ''mkdir'',
      ''rm'', ''rmdir'', ''whoami'', ''pwd'', ''more'', ''touch'', ''newfile'', ''ps'', ''date'', ''clear'', ''showpid'', ''history'',
      ''nice'', ''deadlock'']"

text \<open>The index of the command; all entries of the table have a function.\<close>

function find_loop :: "string \<Rightarrow> nat \<Rightarrow> nat option res" where
  "find_loop command it =
     (if it < MAX_NUM_COM then
        bindR (get_at shell_commands it) (\<lambda>name. if command \<noteq> name then find_loop command (Suc it) else Inr (Some it))
      else Inr None)"
  by pat_completeness auto

termination by (relation "measure (\<lambda>(c, it). MAX_NUM_COM - it)") auto

declare find_loop.simps [simp del]

definition shell_find_command :: "string option \<Rightarrow> nat option res" where
  "shell_find_command command = (case command of None \<Rightarrow> Inr None | Some c \<Rightarrow> find_loop c 0)"

end
