(* ===== verification/C_Token_Correct.thy ===== *)
theory C_Token_Correct
  imports C_Token
begin

text \<open>
  What the tokenizers return: the words of a string are its longest pieces without delimiters, the fields are what lies
  between delimiters. The interface \<open>tokenizer\<close> is one call that cuts the next piece off; its lemma on the
  sequence of all calls is used for \<open>strtok\<close>, \<open>strtok_r\<close> and \<open>strsep\<close>.
\<close>

section \<open>Words and pieces_of\<close>

fun pieces_of :: "u8 set \<Rightarrow> u8 list \<Rightarrow> u8 list list" where
  "pieces_of D [] = [[]]"
| "pieces_of D (x # xs) = (if x \<in> D then [] # pieces_of D xs else (x # hd (pieces_of D xs)) # tl (pieces_of D xs))"

definition words :: "u8 set \<Rightarrow> u8 list \<Rightarrow> u8 list list" where
  "words D xs = filter (\<lambda>w. w \<noteq> []) (pieces_of D xs)"

lemma pieces_not_Nil: "pieces_of D xs \<noteq> []"
  by (induction xs) simp_all

lemma pieces_eq:
  "pieces_of D xs = takeWhile (\<lambda>x. x \<notin> D) xs #
     (case dropWhile (\<lambda>x. x \<notin> D) xs of [] \<Rightarrow> [] | y # ys \<Rightarrow> pieces_of D ys)"
  by (induction xs) (simp_all add: pieces_not_Nil)

lemma words_simps:
  "words D [] = []"
  "x \<in> D \<Longrightarrow> words D (x # xs) = words D xs"
  "x \<notin> D \<Longrightarrow> words D (x # xs) = (x # takeWhile (\<lambda>x. x \<notin> D) xs) # words D (dropWhile (\<lambda>x. x \<notin> D) xs)"
proof -
  show x: "words D (x # xs) = words D xs" if "x \<in> D" for x xs using that by (simp add: words_def)
  show "words D [] = []" by (simp add: words_def)
  assume n: "x \<notin> D"
  have f: "pieces_of D (x # xs) = (x # takeWhile (\<lambda>x. x \<notin> D) xs) #
      (case dropWhile (\<lambda>x. x \<notin> D) xs of [] \<Rightarrow> [] | y # ys \<Rightarrow> pieces_of D ys)"
    using pieces_eq[of D "x # xs"] n by simp
  show "words D (x # xs) = (x # takeWhile (\<lambda>x. x \<notin> D) xs) # words D (dropWhile (\<lambda>x. x \<notin> D) xs)"
  proof (cases "dropWhile (\<lambda>x. x \<notin> D) xs")
    case Nil
    then show ?thesis unfolding words_def f Nil by simp
  next
    case (Cons y ys)
    then have "y \<in> D" using dropWhile_eq_Cons_conv[of "\<lambda>x. x \<notin> D" xs y ys] by simp
    then show ?thesis using x[of y ys] unfolding words_def f Cons by simp
  qed
qed

lemma words_skip: "words D (dropWhile (\<lambda>x. x \<in> D) xs) = words D xs"
  by (induction xs) (simp_all add: words_simps)

text \<open>The words are non-empty, have no delimiter, and are all that is left when the delimiters are taken out.\<close>

lemma pieces_clean: "\<forall>w\<in>set (pieces_of D xs). set w \<inter> D = {}"
  by (induction xs) (use pieces_not_Nil in \<open>auto dest: list.set_sel\<close>)

lemma pieces_concat: "concat (pieces_of D xs) = filter (\<lambda>x. x \<notin> D) xs"
proof (induction xs)
  case (Cons x xs)
  then show ?case using pieces_not_Nil[of D xs] by (cases "pieces_of D xs") auto
qed simp

lemma concat_nonempty: "concat (filter (\<lambda>w. w \<noteq> []) xss) = concat xss"
  by (induction xss) auto

lemma words_laws: "w \<in> set (words D xs) \<Longrightarrow> w \<noteq> [] \<and> set w \<inter> D = {}" "concat (words D xs) = filter (\<lambda>x. x \<notin> D) xs"
  using pieces_clean pieces_concat by (auto simp: words_def concat_nonempty)

section \<open>The interface\<close>

text \<open>All tokens, as the loop of a caller that calls until it gets null.\<close>

partial_function (option) all_tokens :: "('l \<Rightarrow> mem \<Rightarrow> (nat option \<times> mem \<times> 'l) option) \<Rightarrow> 'l \<Rightarrow> mem \<Rightarrow> (nat list \<times> mem) option" where
  "all_tokens f l m =
     Option.bind (f l m) (\<lambda>(t, m, l).
     case t of None \<Rightarrow> Some ([], m) | Some t \<Rightarrow> Option.bind (all_tokens f l m) (\<lambda>(ts, m). Some (t # ts, m)))"

text \<open>
  \<open>holds l m lo hi ws\<close>: the pieces \<open>ws\<close> are still to be cut from the bytes between \<open>lo\<close> and \<open>hi\<close>.
\<close>

locale tokenizer =
  fixes next_tok :: "'l \<Rightarrow> mem \<Rightarrow> (nat option \<times> mem \<times> 'l) option"
    and holds :: "'l \<Rightarrow> mem \<Rightarrow> nat \<Rightarrow> nat \<Rightarrow> u8 list list \<Rightarrow> bool"
  assumes no_token: "holds l m lo hi [] \<Longrightarrow> \<exists>l'. next_tok l m = Some (None, m, l')"
    and token: "holds l m lo hi (w # ws) \<Longrightarrow>
      \<exists>t m' l' lo'. next_tok l m = Some (Some t, m', l') \<and> lo \<le> t \<and> t + length w < lo' \<and> lo' \<le> hi \<and> cstr m' t w \<and>
        holds l' m' lo' hi ws \<and> (\<forall>a. a < lo \<or> hi \<le> a \<longrightarrow> m' a = m a)"
begin

lemma all_tokens_pieces:
  "holds l m lo hi ws \<Longrightarrow>
   \<exists>ts m'. all_tokens next_tok l m = Some (ts, m') \<and> list_all2 (cstr m') ts ws \<and> (\<forall>a. a < lo \<or> hi \<le> a \<longrightarrow> m' a = m a)"
proof (induction ws arbitrary: l m lo)
  case Nil
  then obtain l' where "next_tok l m = Some (None, m, l')" using no_token by blast
  then show ?case by (subst all_tokens.simps) simp
next
  case (Cons w ws)
  obtain t m1 l1 lo1 where t: "next_tok l m = Some (Some t, m1, l1)" "lo \<le> t" "t + length w < lo1" "lo1 \<le> hi" "cstr m1 t w"
      "holds l1 m1 lo1 hi ws" "\<forall>a. a < lo \<or> hi \<le> a \<longrightarrow> m1 a = m a"
    using token[OF Cons.prems] by blast
  obtain ts m' where r: "all_tokens next_tok l1 m1 = Some (ts, m')" "list_all2 (cstr m') ts ws" "\<forall>a. a < lo1 \<or> hi \<le> a \<longrightarrow> m' a = m1 a"
    using Cons.IH[OF t(6)] by blast
  have "cstr m' t w" by (rule cstr_frame[OF t(5)]) (use r(3) t(3) in auto)
  moreover have "m' a = m a" if "a < lo \<or> hi \<le> a" for a using r(3) t that by auto
  moreover have "all_tokens next_tok l m = Some (t # ts, m')" using t(1) r(1) by (subst all_tokens.simps) simp
  ultimately show ?case using r(2) by auto
qed

end

section \<open>The scans\<close>

lemma span_hit_eq: "cstr m d ds \<Longrightarrow> span_hit m d c = Some (c \<in> set ds)"
proof (induction ds arbitrary: d)
  case Nil
  then show ?case by (subst span_hit.simps) simp
next
  case (Cons x ds)
  then show ?case by (subst span_hit.simps) auto
qed

lemma span_hit0_eq: "cstr m d ds \<Longrightarrow> span_hit0 m d c = Some (c \<in> set ds \<or> c = 0)"
proof (induction ds arbitrary: d)
  case Nil
  then show ?case by (subst span_hit0.simps) auto
next
  case (Cons x ds)
  then show ?case by (subst span_hit0.simps) auto
qed

lemma skip_delims_eq:
  assumes "cstr m d ds"
  shows "cstr m s xs \<Longrightarrow> skip_delims m s d = Some (s + length (takeWhile (\<lambda>x. x \<in> set ds) xs))"
proof (induction xs arbitrary: s)
  case Nil
  then show ?case using cstr_no_zero[OF assms] by (subst skip_delims.simps) (simp add: span_hit_eq[OF assms])
next
  case (Cons x xs)
  then show ?case by (subst skip_delims.simps) (simp add: span_hit_eq[OF assms])
qed

lemma token_end_eq:
  assumes "cstr m d ds"
  shows "cstr m s xs \<Longrightarrow> token_end m s d = Some (s + length (takeWhile (\<lambda>x. x \<notin> set ds) xs))"
proof (induction xs arbitrary: s)
  case Nil
  then show ?case by (subst token_end.simps) (simp add: span_hit0_eq[OF assms])
next
  case (Cons x xs)
  then show ?case by (subst token_end.simps) (simp add: span_hit0_eq[OF assms])
qed

lemma cstr_drop: "cstr m a (xs @ ys) \<Longrightarrow> cstr m (a + length xs) ys"
  by (simp add: cstr_append)

text \<open>A string is cut in two by a zero.\<close>

lemma cstr_cut:
  assumes "cstr m t (w @ z # zs)"
  shows "m (t + length w) = z" "z \<noteq> 0" "cstr (m(t + length w := 0)) t w" "cstr (m(t + length w := 0)) (Suc (t + length w)) zs"
proof -
  note a = assms[unfolded cstr_append]
  show "m (t + length w) = z" "z \<noteq> 0" using a by simp_all
  show "cstr (m(t + length w := 0)) t w" using a by (auto simp: cstr_nth)
  show "cstr (m(t + length w := 0)) (Suc (t + length w)) zs" using a by (auto simp: cstr_nth)
qed

text \<open>
  The state between two calls: the delimiters lie outside the block, and what is left of the string starts at the
  saved pointer.
\<close>

definition tok_holds :: "(u8 list \<Rightarrow> u8 list list) \<Rightarrow> nat \<Rightarrow> u8 list \<Rightarrow> nat option \<Rightarrow> mem \<Rightarrow> nat \<Rightarrow> nat \<Rightarrow> u8 list list \<Rightarrow> bool" where
  "tok_holds split d ds l m lo hi ws \<longleftrightarrow>
     cstr m d ds \<and> (d + length ds < lo \<or> hi \<le> d) \<and>
     (case l of None \<Rightarrow> ws = [] | Some a \<Rightarrow> lo \<le> a \<and> (\<exists>xs. cstr m a xs \<and> a + length xs < hi \<and> split xs = ws))"

lemma tok_cut_holds:
  assumes "cstr m d ds" "d + length ds < lo \<or> hi \<le> d" "lo \<le> t" "t + length w + Suc (length zs) < hi" "cstr m t (w @ z # zs)"
  shows "tok_holds split d ds (Some (Suc (t + length w))) (m(t + length w := 0)) (Suc (t + length w)) hi (split zs)"
proof -
  have "cstr (m(t + length w := 0)) d ds" by (rule cstr_frame[OF assms(1)]) (use assms(2-4) in auto)
  then show ?thesis using assms(2-4) cstr_cut(4)[OF assms(5)] by (auto simp: tok_holds_def)
qed

lemma tok_end_holds:
  "cstr m d ds \<Longrightarrow> d + length ds < lo \<or> hi \<le> d \<Longrightarrow> lo \<le> lo' \<Longrightarrow> tok_holds split d ds None m lo' hi []"
  by (auto simp: tok_holds_def)

text \<open>What both \<open>strtok\<close> and \<open>strsep\<close> do at the end \<open>e\<close> of a token.\<close>

definition cut_at :: "mem \<Rightarrow> nat \<Rightarrow> mem \<times> nat option" where
  "cut_at m e = (if m e = 0 then (m, None) else (m(e := 0), Some (Suc e)))"

lemma cut_at_holds:
  assumes "cstr m d ds" "d + length ds < lo \<or> hi \<le> d" "lo \<le> t" "t + length (v @ r) < hi" "cstr m t (v @ r)"
  shows "\<exists>m' l'. cut_at m (t + length v) = (m', l') \<and> cstr m' t v \<and> (\<forall>a. a < lo \<or> hi \<le> a \<longrightarrow> m' a = m a) \<and>
    tok_holds split d ds l' m' (Suc (t + length v)) hi (case r of [] \<Rightarrow> [] | z # zs \<Rightarrow> split zs)"
proof (cases r)
  case Nil
  then have "m (t + length v) = 0" using assms(5) by (simp add: cstr_nth)
  then show ?thesis using Nil assms tok_end_holds[OF assms(1,2), of "Suc (t + length v)"] by (auto simp: cut_at_def)
next
  case (Cons z zs)
  have c: "cstr m t (v @ z # zs)" using assms(5) Cons by simp
  have "cut_at m (t + length v) = (m(t + length v := 0), Some (Suc (t + length v)))"
    using cstr_cut(1,2)[OF c] by (simp add: cut_at_def)
  then show ?thesis
    using cstr_cut(3)[OF c] tok_cut_holds[OF assms(1-3) _ c, of split] assms(3,4) Cons by auto
qed

lemma strtok_eq:
  assumes "cstr m d ds" "cstr m a (pre @ y # ys)" "set pre \<subseteq> set ds" "y \<notin> set ds"
  shows "strtok None d (Some a) m =
    (let (m', l') = cut_at m (a + length pre + length (y # takeWhile (\<lambda>x. x \<notin> set ds) ys)) in Some (Some (a + length pre), m', l'))"
proof -
  have "takeWhile (\<lambda>x. x \<in> set ds) (pre @ y # ys) = pre" using assms(3,4) by (auto simp: takeWhile_append)
  then have "skip_delims m a d = Some (a + length pre)" using skip_delims_eq[OF assms(1,2)] by simp
  moreover have c: "cstr m (a + length pre) (y # ys)" using cstr_drop[OF assms(2)] .
  then have "token_end m (Suc (a + length pre)) d = Some (Suc (a + length pre) + length (takeWhile (\<lambda>x. x \<notin> set ds) ys))"
    using token_end_eq[OF assms(1), of "Suc (a + length pre)" ys] by simp
  moreover have "m (a + length pre) \<noteq> 0" using c by simp
  ultimately show ?thesis by (simp add: strtok_def cut_at_def Let_def)
qed

lemma words_split:
  assumes "words D xs = w # ws"
  obtains pre y ys where "xs = pre @ y # ys" "set pre \<subseteq> D" "y \<notin> D" "w = y # takeWhile (\<lambda>x. x \<notin> D) ys"
    "ws = (case dropWhile (\<lambda>x. x \<notin> D) ys of [] \<Rightarrow> [] | z # zs \<Rightarrow> words D zs)"
proof -
  let ?pre = "takeWhile (\<lambda>x. x \<in> D) xs"
  have "words D (dropWhile (\<lambda>x. x \<in> D) xs) = w # ws" using assms by (simp add: words_skip)
  then obtain y ys where y: "dropWhile (\<lambda>x. x \<in> D) xs = y # ys"
    using words_simps(1) by (cases "dropWhile (\<lambda>x. x \<in> D) xs") auto
  then have n: "y \<notin> D" using dropWhile_eq_Cons_conv[of "\<lambda>x. x \<in> D" xs y ys] by simp
  have w: "w = y # takeWhile (\<lambda>x. x \<notin> D) ys" "ws = words D (dropWhile (\<lambda>x. x \<notin> D) ys)"
    using \<open>words D (dropWhile _ xs) = w # ws\<close> y words_simps(3)[OF n] by simp_all
  have "xs = ?pre @ y # ys" using takeWhile_dropWhile_id[of "\<lambda>x. x \<in> D" xs] y by simp
  moreover have "set ?pre \<subseteq> D" by (auto dest: set_takeWhileD)
  moreover have "ws = (case dropWhile (\<lambda>x. x \<notin> D) ys of [] \<Rightarrow> [] | z # zs \<Rightarrow> words D zs)"
  proof (cases "dropWhile (\<lambda>x. x \<notin> D) ys")
    case (Cons z zs)
    then have "z \<in> D" using dropWhile_eq_Cons_conv[of "\<lambda>x. x \<notin> D" ys z zs] by simp
    then show ?thesis unfolding w(2) Cons by (simp add: words_simps(2))
  next
    case Nil
    show ?thesis unfolding w(2) Nil by (simp add: words_simps(1))
  qed
  ultimately show ?thesis using that n w(1) by blast
qed

lemma words_Nil: "words D xs = [] \<Longrightarrow> set xs \<subseteq> D"
  using words_laws(2)[of D xs] by (auto simp: filter_empty_conv dest: sym)

interpretation tok: tokenizer "\<lambda>l. strtok None d l" "tok_holds (words (set ds)) d ds" for d ds
proof (unfold_locales, goal_cases)
  case (1 l m lo hi)
  show ?case
  proof (cases l)
    case (Some a)
    then obtain xs where xs: "cstr m d ds" "cstr m a xs" "words (set ds) xs = []" using 1 by (auto simp: tok_holds_def)
    have t: "takeWhile (\<lambda>x. x \<in> set ds) xs = xs" using words_Nil[OF xs(3)] by (auto simp: takeWhile_eq_all_conv)
    have "skip_delims m a d = Some (a + length xs)" using skip_delims_eq[OF xs(1,2)] unfolding t .
    moreover have "m (a + length xs) = 0" using xs(2) by (simp add: cstr_nth)
    ultimately show ?thesis using Some by (simp add: strtok_def)
  qed (simp add: strtok_def)
next
  case (2 l m lo hi w ws)
  then obtain a xs where x: "l = Some a" "cstr m d ds" "d + length ds < lo \<or> hi \<le> d" "lo \<le> a" "cstr m a xs" "a + length xs < hi"
      "words (set ds) xs = w # ws"
    by (auto simp: tok_holds_def split: option.splits)
  obtain pre y ys where p: "xs = pre @ y # ys" "set pre \<subseteq> set ds" "y \<notin> set ds" "w = y # takeWhile (\<lambda>x. x \<notin> set ds) ys"
      "ws = (case dropWhile (\<lambda>x. x \<notin> set ds) ys of [] \<Rightarrow> [] | z # zs \<Rightarrow> words (set ds) zs)"
    using words_split[OF x(7)] by blast
  let ?r = "dropWhile (\<lambda>x. x \<notin> set ds) ys"
  have wr: "w @ ?r = y # ys" by (simp add: p(4))
  have c: "cstr m (a + length pre) (w @ ?r)" unfolding wr using cstr_drop[of m a pre "y # ys"] x(5) p(1) by simp
  have len: "a + length pre + length (w @ ?r) < hi" unfolding wr using x(6) p(1) by simp
  obtain m' l' where m': "cut_at m (a + length pre + length w) = (m', l')" "cstr m' (a + length pre) w"
      "\<forall>a. a < lo \<or> hi \<le> a \<longrightarrow> m' a = m a" "tok_holds (words (set ds)) d ds l' m' (Suc (a + length pre + length w)) hi ws"
    using cut_at_holds[OF x(2,3) _ len c, of "words (set ds)"] x(4) unfolding p(5) by auto
  have "strtok None d l m = Some (Some (a + length pre), m', l')"
    using strtok_eq[OF x(2) _ p(2,3)] x(1,5) p(1) m'(1) by (simp add: p(4))
  moreover have "Suc (a + length pre + length w) \<le> hi" using len by simp
  moreover have "lo \<le> a + length pre" using x(4) by simp
  ultimately show ?case using m'(2-4) lessI by blast
qed

interpretation sep: tokenizer "\<lambda>l. strsep l d" "tok_holds (pieces_of (set ds)) d ds" for d ds
proof (unfold_locales, goal_cases)
  case (1 l m lo hi)
  then show ?case by (auto simp: tok_holds_def strsep_def pieces_not_Nil split: option.splits)
next
  case (2 l m lo hi w ws)
  then obtain a xs where x: "l = Some a" "cstr m d ds" "d + length ds < lo \<or> hi \<le> d" "lo \<le> a" "cstr m a xs" "a + length xs < hi"
      "pieces_of (set ds) xs = w # ws"
    by (auto simp: tok_holds_def split: option.splits)
  let ?r = "dropWhile (\<lambda>x. x \<notin> set ds) xs"
  have w: "w = takeWhile (\<lambda>x. x \<notin> set ds) xs" "ws = (case ?r of [] \<Rightarrow> [] | z # zs \<Rightarrow> pieces_of (set ds) zs)"
    using x(7) pieces_eq[of "set ds" xs] by simp_all
  have wr: "w @ ?r = xs" by (simp add: w(1))
  obtain m' l' where m': "cut_at m (a + length w) = (m', l')" "cstr m' a w"
      "\<forall>a. a < lo \<or> hi \<le> a \<longrightarrow> m' a = m a" "tok_holds (pieces_of (set ds)) d ds l' m' (Suc (a + length w)) hi ws"
    using cut_at_holds[OF x(2-4), of w ?r "pieces_of (set ds)"] x(5,6) unfolding wr w(2) by auto
  have "strsep l d m = Some (Some a, m', l')"
    using m'(1) token_end_eq[OF x(2,5)] x(1) by (auto simp: strsep_def cut_at_def w(1) split: if_splits)
  moreover have "Suc (a + length w) \<le> hi" using x(6) arg_cong[OF wr, of length] by simp
  moreover have "lo \<le> a" using x(4) by simp
  ultimately show ?case using m'(2-4) lessI by blast
qed

section \<open>The tokenizer with a bit map\<close>

lemma delim_map_eq:
  assumes "cstr m d ds" "\<forall>c\<in>set ds. ascii c"
  shows "\<exists>mp. delim_map m d = Some (Inr mp) \<and> map_holds mp (insert 0 (set ds))"
proof -
  obtain mp where mp: "set_bits m d clear_map = Some (Inr mp)" "map_holds mp (set ds)"
    using set_bits_eq[OF assms(1) clear_map_holds] assms(2) by auto
  then show ?thesis using map_set_eq[OF mp(2), of 0] by (auto simp: delim_map_def ascii_def)
qed

lemma tok_skip_eq:
  assumes "map_holds mp (insert 0 D)"
  shows "cstr m s xs \<Longrightarrow> \<forall>x\<in>set xs. ascii x \<Longrightarrow> tok_skip m mp s = Some (Inr (s + length (takeWhile (\<lambda>x. x \<in> D) xs)))"
proof (induction xs arbitrary: s)
  case Nil
  then show ?case using map_test_eq[OF assms, of 0] by (subst tok_skip.simps) (simp add: ascii_def)
next
  case (Cons x xs)
  then show ?case using map_test_eq[OF assms, of x] by (subst tok_skip.simps) simp
qed

lemma tok_cut_eq:
  assumes "map_holds mp (insert 0 D)"
  shows "cstr m s xs \<Longrightarrow> \<forall>x\<in>set xs. ascii x \<Longrightarrow>
    tok_cut m mp s = Some (Inr (let e = s + length (takeWhile (\<lambda>x. x \<notin> D) xs) in if m e = 0 then (m, e) else (m(e := 0), Suc e)))"
proof (induction xs arbitrary: s)
  case Nil
  then show ?case by (subst tok_cut.simps) simp
next
  case (Cons x xs)
  then show ?case using map_test_eq[OF assms, of x] by (subst tok_cut.simps) (auto simp: Let_def)
qed

definition strtok_r_next :: "nat \<Rightarrow> nat \<Rightarrow> mem \<Rightarrow> (nat option \<times> mem \<times> nat) option" where
  "strtok_r_next d l m = (case strtok_r None d l m of Some (Inr r) \<Rightarrow> Some r | _ \<Rightarrow> None)"

text \<open>The saved pointer is on the terminator after the last token, which is then the end of the block that was cut.\<close>

definition tok_r_holds :: "nat \<Rightarrow> u8 list \<Rightarrow> nat \<Rightarrow> mem \<Rightarrow> nat \<Rightarrow> nat \<Rightarrow> u8 list list \<Rightarrow> bool" where
  "tok_r_holds d ds l m lo hi ws \<longleftrightarrow>
     cstr m d ds \<and> (d + length ds < lo \<or> hi \<le> d) \<and> (\<forall>c\<in>set ds. ascii c) \<and>
     (\<exists>xs. cstr m l xs \<and> (lo \<le> l \<or> xs = []) \<and> l + length xs < hi \<and> (\<forall>x\<in>set xs. ascii x) \<and> words (set ds) xs = ws)"

lemma strtok_r_next_eq:
  assumes "cstr m d ds" "\<forall>c\<in>set ds. ascii c" "cstr m l (pre @ xs)" "\<forall>x\<in>set (pre @ xs). ascii x" "set pre \<subseteq> set ds"
    "xs = [] \<or> hd xs \<notin> set ds"
  shows "strtok_r_next d l m =
    (let e = l + length pre + length (takeWhile (\<lambda>x. x \<notin> set ds) xs); (m', l') = (if m e = 0 then (m, e) else (m(e := 0), Suc e))
     in Some (if l + length pre = l' then None else Some (l + length pre), m', l'))"
proof -
  obtain mp where mp: "delim_map m d = Some (Inr mp)" "map_holds mp (insert 0 (set ds))" using delim_map_eq[OF assms(1,2)] by blast
  have t: "takeWhile (\<lambda>x. x \<in> set ds) (pre @ xs) = pre" using assms(5,6) by (cases xs) (auto simp: takeWhile_append)
  have "tok_skip m mp l = Some (Inr (l + length pre))" using tok_skip_eq[OF mp(2) assms(3,4)] unfolding t .
  moreover have "tok_cut m mp (l + length pre) =
      Some (Inr (let e = l + length pre + length (takeWhile (\<lambda>x. x \<notin> set ds) xs) in if m e = 0 then (m, e) else (m(e := 0), Suc e)))"
    using tok_cut_eq[OF mp(2) cstr_drop[OF assms(3)]] assms(4) by simp
  ultimately show ?thesis using mp(1) by (auto simp: strtok_r_next_def strtok_r_def Let_def)
qed

interpretation tokr: tokenizer "strtok_r_next d" "tok_r_holds d ds" for d ds
proof (unfold_locales, goal_cases)
  case (1 l m lo hi)
  then obtain xs where x: "cstr m d ds" "\<forall>c\<in>set ds. ascii c" "cstr m l xs" "\<forall>x\<in>set xs. ascii x" "words (set ds) xs = []"
    by (auto simp: tok_r_holds_def)
  have "m (l + length xs) = 0" using x(3) by (simp add: cstr_nth)
  then show ?case using strtok_r_next_eq[OF x(1,2), of l xs "[]"] x(3,4) words_Nil[OF x(5)] by (simp add: Let_def)
next
  case (2 l m lo hi w ws)
  then obtain xs where x: "cstr m d ds" "d + length ds < lo \<or> hi \<le> d" "\<forall>c\<in>set ds. ascii c" "cstr m l xs" "lo \<le> l \<or> xs = []"
      "l + length xs < hi" "\<forall>x\<in>set xs. ascii x" "words (set ds) xs = w # ws"
    unfolding tok_r_holds_def by blast
  obtain pre y ys where p: "xs = pre @ y # ys" "set pre \<subseteq> set ds" "y \<notin> set ds" "w = y # takeWhile (\<lambda>x. x \<notin> set ds) ys"
      "ws = (case dropWhile (\<lambda>x. x \<notin> set ds) ys of [] \<Rightarrow> [] | z # zs \<Rightarrow> words (set ds) zs)"
    using words_split[OF x(8)] by blast
  let ?r = "dropWhile (\<lambda>x. x \<notin> set ds) ys" and ?t = "l + length pre"
  have lo: "lo \<le> ?t" using x(5) p(1) by auto
  have wr: "w @ ?r = y # ys" by (simp add: p(4))
  have c: "cstr m ?t (w @ ?r)" unfolding wr using cstr_drop[of m l pre "y # ys"] x(4) p(1) by simp
  have len: "?t + length (w @ ?r) < hi" unfolding wr using x(6) p(1) by simp
  have asc: "\<forall>x\<in>set ?r. ascii x" using x(7) p(1) set_dropWhileD by fastforce
  have n: "strtok_r_next d l m =
      (let e = ?t + length w; (m', l') = (if m e = 0 then (m, e) else (m(e := 0), Suc e)) in Some (if ?t = l' then None else Some ?t, m', l'))"
    using strtok_r_next_eq[OF x(1,3), of l pre "y # ys"] x(4,7) p by simp
  obtain m' l' where m': "cut_at m (?t + length w) = (m', l')" "cstr m' ?t w" "\<forall>a. a < lo \<or> hi \<le> a \<longrightarrow> m' a = m a"
      "tok_holds (words (set ds)) d ds l' m' (Suc (?t + length w)) hi ws"
    using cut_at_holds[OF x(1,2) lo len c, of "words (set ds)"] unfolding p(5) by auto
  show ?case
  proof (cases ?r)
    case Nil
    have z: "m (?t + length w) = 0" using c unfolding Nil by (simp add: cstr_nth)
    have mm: "m' = m" using m'(1) z by (simp add: cut_at_def)
    have "strtok_r_next d l m = Some (Some ?t, m, ?t + length w)" using n z p(4) by (simp add: Let_def)
    moreover have "tok_r_holds d ds (?t + length w) m (Suc (?t + length w)) hi ws"
      unfolding tok_r_holds_def
      using x(1,2,3) z len lo p(5) Nil by (auto simp: words_simps(1) intro!: exI[of _ "[]"])
    moreover have "Suc (?t + length w) \<le> hi" using len by simp
    ultimately show ?thesis using m'(2) lo unfolding mm by blast
  next
    case (Cons z zs)
    have z: "m (?t + length w) \<noteq> 0" using cstr_cut(1,2)[of m ?t w z zs] c Cons by simp
    then have mm: "m' = m(?t + length w := 0)" "l' = Some (Suc (?t + length w))" using m'(1) by (simp_all add: cut_at_def)
    have "strtok_r_next d l m = Some (Some ?t, m', Suc (?t + length w))" using n z by (simp add: Let_def mm(1))
    moreover have "tok_r_holds d ds (Suc (?t + length w)) m' (Suc (?t + length w)) hi ws"
    proof -
      have zs: "cstr m' (Suc (?t + length w)) zs" using cstr_cut(4)[of m ?t w z zs] c Cons mm(1) by simp
      have "Suc (?t + length w) + length zs < hi" using len Cons by simp
      then show ?thesis
        using m'(4) zs x(3) asc Cons p(5) unfolding tok_r_holds_def tok_holds_def by (auto intro!: exI[of _ zs])
    qed
    moreover have "Suc (?t + length w) \<le> hi" using len by simp
    ultimately show ?thesis using m'(2,3) lo lessI by blast
  qed
qed

section \<open>Search, trimming and replacement\<close>

lemma isspace_32: "isspace_c (uchar c) \<longleftrightarrow> c = 32"
  by (simp add: isspace_c_def uchar_def word_uint_eq_iff)

lemma trim_front_eq: "cstr m p xs \<Longrightarrow> trim_front m p = Some (p + length (takeWhile (\<lambda>c. c = 32) xs))"
proof (induction xs arbitrary: p)
  case Nil
  then show ?case by (subst trim_front.simps) (simp add: isspace_32)
next
  case (Cons x xs)
  then show ?case by (subst trim_front.simps) (simp add: isspace_32)
qed

lemma trim_back_eq:
  "\<forall>i<length post. m (e + i) = 32 \<Longrightarrow> f < e \<Longrightarrow> m (e - 1) \<noteq> 32 \<Longrightarrow> trim_back m f (e + length post) = e - 1"
proof (induction post rule: rev_induct)
  case Nil
  then show ?case by (subst trim_back.simps) (simp add: isspace_32)
next
  case (snoc x post)
  then have "m (e + length post) = 32" "f < e + length post" by simp_all
  then show ?case using snoc by (subst trim_back.simps) (simp add: isspace_32)
qed

lemma trim_shift_eq:
  "cstr m b ys \<Longrightarrow> a < b \<Longrightarrow>
   \<exists>m'. trim_shift m a b = Some m' \<and> cstr m' a ys \<and> (\<forall>x. x < a \<or> b + length ys < x \<longrightarrow> m' x = m x)"
proof (induction ys arbitrary: m a b)
  case Nil
  then show ?case by (subst trim_shift.simps) simp
next
  case (Cons y ys)
  then have y: "m b = y" "y \<noteq> 0" "cstr m (Suc b) ys" by simp_all
  have "cstr (m(a := y)) (Suc b) ys" by (rule cstr_frame[OF y(3)]) (use Cons.prems(2) in auto)
  then obtain m' where m': "trim_shift (m(a := y)) (Suc a) (Suc b) = Some m'" "cstr m' (Suc a) ys"
      "\<forall>x. x < Suc a \<or> Suc b + length ys < x \<longrightarrow> m' x = (m(a := y)) x"
    using Cons.IH Cons.prems(2) by (meson Suc_less_eq)
  have "trim_shift m a b = Some m'" using m'(1) y(1,2) by (subst trim_shift.simps) simp
  moreover have "cstr m' a (y # ys)" using m'(2,3) y(2) by simp
  moreover have "\<forall>x. x < a \<or> b + length (y # ys) < x \<longrightarrow> m' x = m x" using m'(3) Cons.prems(2) by simp
  ultimately show ?case by blast
qed

text \<open>A string without the blanks at its ends.\<close>

definition trimmed :: "u8 list \<Rightarrow> u8 list" where
  "trimmed xs = rev (dropWhile (\<lambda>c. c = 32) (rev (dropWhile (\<lambda>c. c = 32) xs)))"

lemma trimmed_split:
  obtains (blank) "set xs \<subseteq> {32}" "trimmed xs = []"
  | (inner) pre post where "xs = pre @ trimmed xs @ post" "set pre \<subseteq> {32}" "set post \<subseteq> {32}" "trimmed xs \<noteq> []"
      "hd (trimmed xs) \<noteq> 32" "last (trimmed xs) \<noteq> 32" "takeWhile (\<lambda>c. c = 32) xs = pre"
proof -
  let ?b = "\<lambda>c :: u8. c = 32"
  let ?ys = "dropWhile ?b xs"
  have x: "xs = takeWhile ?b xs @ ?ys" by simp
  have y: "?ys = trimmed xs @ rev (takeWhile ?b (rev ?ys))"
    unfolding trimmed_def by (metis rev_append rev_rev_ident takeWhile_dropWhile_id)
  have s: "set (takeWhile ?b zs) \<subseteq> {32}" for zs by (auto dest: set_takeWhileD)
  show thesis
  proof (cases "trimmed xs = []")
    case True
    then have "set ?ys \<subseteq> {32}" using y s[of "rev ?ys"] by (metis append_Nil set_rev)
    then have "set xs \<subseteq> {32}" using x s[of xs] by (metis Un_least set_append)
    then show thesis using True blank by blast
  next
    case False
    then have "rev (trimmed xs) \<noteq> []" by simp
    then have l: "last (trimmed xs) \<noteq> 32" using hd_dropWhile[of ?b "rev ?ys"] unfolding trimmed_def by (metis hd_rev rev_rev_ident rev_is_Nil_conv)
    have "?ys \<noteq> []" using False y by force
    then have "hd ?ys \<noteq> 32" using hd_dropWhile[of ?b xs] by simp
    then have h: "hd (trimmed xs) \<noteq> 32" using y False by (metis hd_append2)
    have xs: "xs = takeWhile ?b xs @ trimmed xs @ rev (takeWhile ?b (rev ?ys))" using x y by metis
    have "set (rev (takeWhile ?b (rev ?ys))) \<subseteq> {32}" using s[of "rev ?ys"] by simp
    then show thesis using inner[OF xs s[of xs] _ False h l refl] by blast
  qed
qed

lemma trim_unfold:
  assumes "m s \<noteq> 0" "strlen m s = Some (n - s)" "trim_front m s = Some f" "n \<noteq> f" "trim_back m f n = e" "s \<le> n"
  shows "trim m s =
    (if f \<noteq> s then trim_shift (if n - 1 \<noteq> e then m(Suc e := 0) else if f \<noteq> s \<and> e = f then m(s := 0) else m) s f
     else Some (if n - 1 \<noteq> e then m(Suc e := 0) else if f \<noteq> s \<and> e = f then m(s := 0) else m))"
  using assms by (auto simp: trim_def Let_def)

text \<open>
  \<open>trim\<close> leaves the string without the blanks at its ends. On a string of blanks only it also clears the byte behind the
  terminator, which need not belong to the string.
\<close>

theorem trim_trims:
  assumes "cstr m s xs"
  shows "\<exists>m'. trim m s = Some m' \<and> cstr m' s (trimmed xs) \<and> (\<forall>a. a < s \<or> s + length xs + 1 < a \<longrightarrow> m' a = m a) \<and>
    (m' (s + length xs + 1) = (if xs \<noteq> [] \<and> set xs \<subseteq> {32} then 0 else m (s + length xs + 1)))"
proof (cases "xs = []")
  case True
  then show ?thesis using assms by (auto simp: trim_def trimmed_def)
next
  case False
  then have nz: "m s \<noteq> 0" using assms by (cases xs) auto
  have len: "strlen m s = Some (length xs)" using strlen_cstr[OF assms] .
  have fr: "trim_front m s = Some (s + length (takeWhile (\<lambda>c. c = 32) xs))" using trim_front_eq[OF assms] .
  show ?thesis
  proof (cases rule: trimmed_split[of xs])
    case blank
    then have t: "takeWhile (\<lambda>c. c = 32) xs = xs" by (auto simp: takeWhile_eq_all_conv)
    have "m (s + length xs) = 0" "s + length xs - 1 \<noteq> s + length xs"
      using assms False by (simp add: cstr_nth) (cases xs; use False in simp)
    then have "trim m s = Some (m(Suc (s + length xs) := 0, s := 0))"
      using nz len fr False unfolding trim_def t by (simp add: trim_shift.simps Let_def)
    then show ?thesis using blank False by auto
  next
    case (inner pre post)
    let ?b = "trimmed xs"
    let ?f = "s + length pre" and ?e = "s + length pre + length ?b"
    have c: "cstr m ?f (?b @ post)" using cstr_drop[of m s pre] assms inner(1) by metis
    have l: "s + length xs = ?e + length post" using arg_cong[OF inner(1), of length] by simp
    have e1: "?e - 1 = ?f + (length ?b - 1)" using inner(4) by (cases ?b) simp_all
    have "m (?e - 1) = last ?b" using c inner(4) unfolding e1 by (auto simp: cstr_append last_conv_nth)
    moreover have "m (?e + i) = 32" if "i < length post" for i
    proof -
      have "m (?e + i) = post ! i" using cstr_drop[OF c] that unfolding cstr_nth by blast
      then show ?thesis using nth_mem[OF that] inner(3) by auto
    qed
    ultimately have tb: "trim_back m ?f (?e + length post) = ?e - 1" using inner(4,6) by (intro trim_back_eq) auto
    have fne: "?e + length post \<noteq> ?f" using inner(4) by simp
    have len: "strlen m s = Some (?e + length post - s)" using len l by simp
    define m1 where "m1 = (if ?e + length post - 1 \<noteq> ?e - 1 then m(Suc (?e - 1) := 0)
        else if ?f \<noteq> s \<and> ?e - 1 = ?f then m(s := 0) else m)"
    have tr: "trim m s = (if ?f \<noteq> s then trim_shift m1 s ?f else Some m1)"
      unfolding m1_def by (rule trim_unfold[OF nz len fr[unfolded inner(7)] fne tb]) simp
    have c1: "cstr m1 ?f ?b"
    proof (cases post)
      case Nil
      then show ?thesis using c inner(4) by (auto simp: m1_def cstr_nth)
    next
      case (Cons z zs)
      have "?e + length post - 1 \<noteq> ?e - 1" "Suc (?e - 1) = ?f + length ?b" using inner(4) Cons by (cases ?b; simp)+
      then have "m1 = m(?f + length ?b := 0)" unfolding m1_def by (simp only: if_True not_False_eq_True)
      then show ?thesis using cstr_cut(3)[of m ?f ?b z zs] c Cons by simp
    qed
    have m1: "m1 a = m a" if "a < s \<or> s + length xs < a" for a using that l inner(4) by (auto simp: m1_def)
    have nb: "\<not> set xs \<subseteq> {32}" 
    proof -
      have "set xs = set pre \<union> (set ?b \<union> set post)" using arg_cong[OF inner(1), of set] by (simp only: set_append)
      then show ?thesis using hd_in_set[OF inner(4)] inner(5) by blast
    qed
    show ?thesis
    proof (cases "pre = []")
      case True
      then show ?thesis using tr c1 m1 nb by auto
    next
      case False
      then obtain m' where "trim_shift m1 s ?f = Some m'" "cstr m' s ?b" "\<forall>x. x < s \<or> ?f + length ?b < x \<longrightarrow> m' x = m1 x"
        using trim_shift_eq[OF c1, of s] by auto
      then show ?thesis using tr False m1 l nb by auto
    qed
  qed
qed

lemma strstr_match_eq:
  "cstr m a xs \<Longrightarrow> cstr m b ys \<Longrightarrow> \<exists>n\<le>length ys. strstr_match m a b = Some (b + n) \<and> (n = length ys \<longleftrightarrow> take (length ys) xs = ys)"
proof (induction ys arbitrary: a b xs)
  case Nil
  then show ?case by (subst strstr_match.simps) auto
next
  case (Cons y ys)
  show ?case
  proof (cases xs)
    case Nil
    then show ?thesis using Cons.prems by (subst strstr_match.simps) auto
  next
    case (Cons x zs)
    show ?thesis
    proof (cases "x = y")
      case True
      have "cstr m (Suc a) zs" "cstr m (Suc b) ys" "m a = m b" "m a \<noteq> 0" using Cons.prems Cons True by simp_all
      moreover from this obtain n where "n \<le> length ys" "strstr_match m (Suc a) (Suc b) = Some (Suc b + n)"
          "n = length ys \<longleftrightarrow> take (length ys) zs = ys" using Cons.IH[of "Suc a" zs "Suc b"] by auto
      ultimately show ?thesis using Cons True by (subst strstr_match.simps) (auto intro!: exI[of _ "Suc n"])
    next
      case False
      then show ?thesis using Cons.prems Cons by (subst strstr_match.simps) auto
    qed
  qed
qed

text \<open>The first position at which the pattern starts.\<close>

fun first_match :: "u8 list \<Rightarrow> u8 list \<Rightarrow> nat option" where
  "first_match ys [] = (if ys = [] then Some 0 else None)"
| "first_match ys (x # xs) = (if take (length ys) (x # xs) = ys then Some 0 else map_option Suc (first_match ys xs))"

lemma strstr_loop_eq:
  assumes "cstr m b ys" "ys \<noteq> []"
  shows "cstr m a xs \<Longrightarrow> strstr_loop m a b = Some (map_option (\<lambda>i. a + i) (first_match ys xs))"
proof (induction xs arbitrary: a)
  case Nil
  then show ?case using assms(2) by (subst strstr_loop.simps) simp
next
  case (Cons x xs)
  obtain n where n: "n \<le> length ys" "strstr_match m a b = Some (b + n)" "n = length ys \<longleftrightarrow> take (length ys) (x # xs) = ys"
    using strstr_match_eq[OF Cons.prems assms(1)] by blast
  have "m (b + n) = 0 \<longleftrightarrow> n = length ys"
    using assms(1) n(1) by (auto simp: cstr_nth le_less)
  moreover have "strstr_loop m (Suc a) b = Some (map_option (\<lambda>i. Suc a + i) (first_match ys xs))" using Cons by simp
  ultimately show ?case
    using Cons.prems n by (subst strstr_loop.simps) (auto simp: option.map_comp comp_def)
qed

lemma strstr_finds_first:
  "cstr m a xs \<Longrightarrow> cstr m b ys \<Longrightarrow> strstr m a b = Some (map_option (\<lambda>i. a + i) (first_match ys xs))"
  using strstr_loop_eq[of m b ys a xs] by (cases ys; cases xs) (auto simp: strstr_def)

text \<open>Replacing a character by another one; by itself, the loop never ends when the character occurs.\<close>

lemma replace_char_eq:
  assumes "f \<noteq> r" "f \<noteq> 0" "r \<noteq> 0"
  shows "cstr m a xs \<Longrightarrow> \<exists>m'. replace_char m a f r = Some m' \<and>
    cstr m' a (map (\<lambda>x. if x = f then r else x) xs) \<and> (\<forall>x. x < a \<or> a + length xs < x \<longrightarrow> m' x = m x)"
proof (induction xs arbitrary: m a rule: length_induct)
  case (1 xs)
  show ?case
  proof (cases "f \<in> set xs")
    case False
    then have "map (\<lambda>x. if x = f then r else x) xs = xs" by (intro map_idI) auto
    then show ?thesis
      using 1(2) False assms(2) by (simp add: replace_char_def strchr_cstr replace_loop.simps)
  next
    case True
    then obtain ys zs where x: "xs = ys @ f # zs" "f \<notin> set ys" using split_list_first by metis
    let ?p = "a + length ys"
    let ?m = "m(?p := r)"
    have p: "strchr m a f = Some (Some ?p)" using strchr_cstr[OF 1(2) assms(2)] x by (simp add: takeWhile_append)
    have c: "cstr m ?p (f # zs)" using cstr_drop[of m a ys "f # zs"] 1(2) x(1) by simp
    have "cstr ?m (Suc ?p) zs" using c by (auto simp: cstr_nth)
    then obtain m' where m': "replace_char ?m (Suc ?p) f r = Some m'" "cstr m' (Suc ?p) (map (\<lambda>x. if x = f then r else x) zs)"
        "\<forall>x. x < Suc ?p \<or> Suc ?p + length zs < x \<longrightarrow> m' x = ?m x"
      using 1(1)[rule_format, of zs ?m "Suc ?p"] x(1) by auto
    have "strchr ?m ?p f = strchr ?m (Suc ?p) f" using assms by (subst strchr.simps) simp
    then have "replace_char m a f r = Some m'"
      using m'(1) p unfolding replace_char_def by (subst replace_loop.simps) simp
    moreover have "map (\<lambda>x. if x = f then r else x) ys = ys" using x(2) by (intro map_idI) auto
    then have "cstr m' a (map (\<lambda>x. if x = f then r else x) xs)"
      using m'(2,3) 1(2) assms(3) unfolding x(1) by (simp add: cstr_append)
    moreover have "\<forall>b. b < a \<or> a + length xs < b \<longrightarrow> m' b = m b" using m'(3) x(1) by auto
    ultimately show ?thesis by blast
  qed
qed

lemma replace_by_itself_step:
  assumes "replace_loop m pos f r = Some m'"
  shows "\<not> (\<exists>p. pos = Some p \<and> m p = f \<and> f = r \<and> f \<noteq> 0)"
proof (rule replace_loop.raw_induct[of "\<lambda>m pos f r m'. \<not> (\<exists>p. pos = Some p \<and> m p = f \<and> f = r \<and> f \<noteq> 0)", OF _ assms])
  fix rec :: "mem \<Rightarrow> nat option \<Rightarrow> u8 \<Rightarrow> u8 \<Rightarrow> mem option" and m :: mem and pos f r m'
  assume ih: "\<And>m pos f r m'. rec m pos f r = Some m' \<Longrightarrow> \<not> (\<exists>p. pos = Some p \<and> m p = f \<and> f = r \<and> f \<noteq> 0)"
    and body: "(case pos of None \<Rightarrow> Some m
      | Some p \<Rightarrow> Option.bind (strchr (m(p := r)) p f) (\<lambda>pos. rec (m(p := r)) pos f r)) = Some m'"
  show "\<not> (\<exists>p. pos = Some p \<and> m p = f \<and> f = r \<and> f \<noteq> 0)"
  proof
    assume "\<exists>p. pos = Some p \<and> m p = f \<and> f = r \<and> f \<noteq> 0"
    then obtain p where p: "pos = Some p" "m p = f" "f = r" "f \<noteq> 0" by blast
    have "m(p := r) = m" using p by auto
    moreover have "strchr m p f = Some (Some p)" using p by (subst strchr.simps) simp
    ultimately have "rec m (Some p) f r = Some m'" using body p by simp
    then show False using ih p by blast
  qed
qed

lemma replace_by_itself: "cstr m a xs \<Longrightarrow> f \<in> set xs \<Longrightarrow> replace_char m a f f = None"
proof -
  assume a: "cstr m a xs" "f \<in> set xs"
  then have f: "f \<noteq> 0" using cstr_no_zero by blast
  obtain ys zs where x: "xs = ys @ f # zs" "f \<notin> set ys" using split_list_first[OF a(2)] by blast
  have "strchr m a f = Some (Some (a + length ys))" using strchr_cstr[OF a(1) f] x by (simp add: takeWhile_append)
  moreover have "m (a + length ys) = f" using cstr_drop[of m a ys "f # zs"] a(1) x(1) by simp
  ultimately show ?thesis
    using replace_by_itself_step[of m "Some (a + length ys)" f f] f unfolding replace_char_def
    by (cases "replace_loop m (Some (a + length ys)) f f") auto
qed

section \<open>Numbers\<close>

lemma digit_byte: "d < 10 \<Longrightarrow> (of_char (digits ! d) :: u8) = 48 + of_nat d"
proof -
  assume "d < 10"
  then have "d \<in> {0, 1, 2, 3, 4, 5, 6, 7, 8, 9}" by auto
  then show ?thesis by (auto simp: digits_def)
qed

lemma digit_loop_eq:
  assumes "2 \<le> base" "base \<le> 10"
  shows "\<exists>m'. digit_loop m p num base = Some (m', p + length (rev_digits digits base num)) \<and>
    (\<forall>i<length (rev_digits digits base num). m' (p + i) = of_char (rev_digits digits base num ! i)) \<and>
    (\<forall>a. a < p \<or> p + length (rev_digits digits base num) \<le> a \<longrightarrow> m' a = m a)"
proof (induction num arbitrary: m p rule: less_induct)
  case (less num)
  show ?case
  proof (cases "num = 0")
    case True
    then show ?thesis by (simp add: digit_loop.simps[of m p 0] rev_digits.simps[of _ _ 0])
  next
    case False
    let ?m = "m(p := 48 + of_nat (num mod base))"
    have "num div base < num" using False assms by simp
    from less.IH[OF this, of ?m "Suc p"] obtain m' where
      m': "digit_loop ?m (Suc p) (num div base) base = Some (m', Suc p + length (rev_digits digits base (num div base)))"
        "\<forall>i<length (rev_digits digits base (num div base)). m' (Suc p + i) = of_char (rev_digits digits base (num div base) ! i)"
        "\<forall>a. a < Suc p \<or> Suc p + length (rev_digits digits base (num div base)) \<le> a \<longrightarrow> m' a = ?m a"
      by blast
    have r: "rev_digits digits base num = digits ! (num mod base) # rev_digits digits base (num div base)"
      using False assms by (subst rev_digits.simps) simp
    have "m' p = of_char (digits ! (num mod base))"
      using m'(3) digit_byte[of "num mod base"] assms less_le_trans[OF mod_less_divisor[of base num] assms(2)] by simp
    moreover have "digit_loop m p num base = Some (m', p + length (rev_digits digits base num))"
      using m'(1) False assms by (subst digit_loop.simps) (simp add: r)
    ultimately show ?thesis
      using m'(2,3) unfolding r by (auto simp: nth_Cons split: nat.splits)
  qed
qed

lemma strrev_loop_cstr:
  assumes "\<forall>i<length xs. m (p + i) = xs ! i \<and> xs ! i \<noteq> 0" "m (p + length xs) = 0" "xs \<noteq> []"
  shows "cstr (strrev_loop m p (p + length xs - 1)) p (rev xs)"
proof -
  have "mirror p (p + length xs - 1) m (p + i) = xs ! (length xs - 1 - i)" if "i < length xs" for i
  proof -
    have "p + (p + length xs - 1) - (p + i) = p + (length xs - 1 - i)" using that by simp
    then have "mirror p (p + length xs - 1) m (p + i) = m (p + (length xs - 1 - i))"
      using that mirror_in[of p "p + i" "p + length xs - 1" m] by simp
    then show ?thesis using that assms(1)[rule_format, of "length xs - 1 - i"] by simp
  qed
  moreover have "mirror p (p + length xs - 1) m (p + length xs) = 0"
    using assms(2,3) by (subst mirror_out) (cases xs; simp)+
  ultimately show ?thesis
    unfolding strrev_loop_eq cstr_nth using assms(1) by (auto simp: rev_nth)
qed

text \<open>\<open>int_to_str\<close> writes the digits in the base, up to base 10, and \<open>_knntos\<close> with a sign; for 0 the latter writes nothing.\<close>

lemma rev_digits_bytes:
  assumes "2 \<le> base" "base \<le> 10" "i < length (rev_digits digits base n)"
  shows "(of_char (rev_digits digits base n ! i) :: u8) \<noteq> 0"
  using assms(3)
proof (induction n arbitrary: i rule: less_induct)
  case (less n)
  have "rev_digits digits base 0 = []" by (subst rev_digits.simps) simp
  then have n: "n \<noteq> 0" using less.prems by (metis list.size(3) not_less_zero)
  then have r: "rev_digits digits base n = digits ! (n mod base) # rev_digits digits base (n div base)"
    using assms(1) by (subst rev_digits.simps) simp
  have m: "n mod base < 10" using assms mod_less_divisor[of base n] by linarith
  have "(48 + of_nat (n mod base) :: u8) \<noteq> 0"
  proof
    assume "(48 + of_nat (n mod base) :: u8) = 0"
    then have "unat (48 + of_nat (n mod base) :: u8) = 0" by simp
    then show False using m by (simp add: unat_word_ariths unat_of_nat take_bit_nat_eq_self)
  qed
  then show ?case
    using less n assms(1) digit_byte[OF m] by (cases i) (auto simp: r)
qed

lemma int_to_str_digits:
  assumes "2 \<le> unat base" "unat base \<le> 10"
  shows "\<exists>m'. int_to_str fp m buffer num base = Some (Inr m') \<and>
    cstr m' buffer (map of_char (if num = 0 then ''0'' else rev (rev_digits digits (unat base) (unat num))))"
proof -
  let ?r = "rev_digits digits (unat base) (unat num)"
  have b: "base \<noteq> 16" using assms by auto
  show ?thesis
  proof (cases "num = 0")
    case True
    then show ?thesis using b by (simp add: int_to_str_def digit_loop.simps[of _ _ 0] strrev_loop.simps)
  next
    case False
    obtain m' where m': "digit_loop m buffer (unat num) (unat base) = Some (m', buffer + length ?r)"
        "\<forall>i<length ?r. m' (buffer + i) = of_char (?r ! i)"
      using digit_loop_eq[OF assms] by blast
    have ne: "?r \<noteq> []" using False assms(1) by (subst rev_digits.simps) (simp add: unat_eq_0)
    have "cstr (strrev_loop (m'(buffer + length ?r := 0)) buffer (buffer + length (map of_char ?r :: u8 list) - 1)) buffer (rev (map of_char ?r))"
      by (rule strrev_loop_cstr) (use m'(2) rev_digits_bytes[OF assms] ne in simp_all)
    then show ?thesis using m'(1) b False by (simp add: int_to_str_def rev_map)
  qed
qed

lemma knntos_zero: "cstr (the (knntos m buffer 0 base)) buffer []" "knntos m buffer 0 base = Some (m(buffer := 0))"
proof -
  have "\<not> buffer < buffer - 1" by linarith
  then have "strrev_loop (m(buffer := 0)) buffer (buffer - 1) = m(buffer := 0)" by (subst strrev_loop.simps) (simp only: if_False)
  then show k: "knntos m buffer 0 base = Some (m(buffer := 0))" by (simp add: knntos_def)
  show "cstr (the (knntos m buffer 0 base)) buffer []" unfolding k by simp
qed

section \<open>Properties\<close>

text \<open>
  C35. Calling a tokenizer until it returns null yields the pieces of the string, in their order, each a terminated string in
  the memory at the end, and changes no byte outside the string: \<open>strtok\<close> yields the words (the longest pieces without
  delimiters), \<open>strsep\<close> the fields between the delimiters, empty ones included, and \<open>strtok_r\<close>, which looks the
  delimiters up in a bit map, the same words as \<open>strtok\<close> when all characters are ASCII. The words are the
  fields that are not empty.
\<close>

theorem tokenizers_split:
  assumes "cstr m s xs" "cstr m d ds" "d + length ds < s \<or> s + length xs < d"
  shows "(\<exists>ts m'. all_tokens (strtok None d) (Some s) m = Some (ts, m') \<and> list_all2 (cstr m') ts (words (set ds) xs) \<and>
      (\<forall>a. a < s \<or> s + length xs < a \<longrightarrow> m' a = m a)) \<and>
    (\<exists>ts m'. all_tokens (\<lambda>l. strsep l d) (Some s) m = Some (ts, m') \<and> list_all2 (cstr m') ts (pieces_of (set ds) xs) \<and>
      (\<forall>a. a < s \<or> s + length xs < a \<longrightarrow> m' a = m a)) \<and>
    ((\<forall>c\<in>set xs \<union> set ds. ascii c) \<longrightarrow>
      (\<exists>ts m'. all_tokens (strtok_r_next d) s m = Some (ts, m') \<and> list_all2 (cstr m') ts (words (set ds) xs) \<and>
        (\<forall>a. a < s \<or> s + length xs < a \<longrightarrow> m' a = m a)))"
proof -
  let ?hi = "Suc (s + length xs)"
  have h: "tok_holds (words (set ds)) d ds (Some s) m s ?hi (words (set ds) xs)"
    "tok_holds (pieces_of (set ds)) d ds (Some s) m s ?hi (pieces_of (set ds) xs)"
    "\<forall>c\<in>set xs \<union> set ds. ascii c \<Longrightarrow> tok_r_holds d ds s m s ?hi (words (set ds) xs)"
    using assms by (auto simp: tok_holds_def tok_r_holds_def)
  show ?thesis
    using tok.all_tokens_pieces[OF h(1)] sep.all_tokens_pieces[OF h(2)] tokr.all_tokens_pieces[OF h(3)] by (simp add: Suc_le_eq)
qed

definition line_mem :: mem where
  "line_mem = (\<lambda>_. 0)(10 := 32, 11 := 97, 12 := 98, 13 := 32, 14 := 32, 15 := 99, 20 := 32)"

theorem tokenizers_split_witness:
  "(\<exists>ts m'. all_tokens (strtok None 20) (Some 10) line_mem = Some (ts, m') \<and> list_all2 (cstr m') ts [[97, 98], [99]]) \<and>
   (\<exists>ts m'. all_tokens (\<lambda>l. strsep l 20) (Some 10) line_mem = Some (ts, m') \<and> list_all2 (cstr m') ts [[], [97, 98], [], [99]]) \<and>
   (\<exists>ts m'. all_tokens (strtok_r_next 20) 10 line_mem = Some (ts, m') \<and> list_all2 (cstr m') ts [[97, 98], [99]])"
proof -
  have c: "cstr line_mem 10 [32, 97, 98, 32, 32, 99]" "cstr line_mem 20 [32]"
    "20 + length [32 :: u8] < 10 \<or> 10 + length [32, 97, 98, 32, 32, 99 :: u8] < 20" by (simp_all add: line_mem_def)
  have w: "words (set [32]) [32, 97, 98, 32, 32, 99] = [[97, 98], [99]]"
    "pieces_of (set [32]) [32, 97, 98, 32, 32, 99] = [[], [97, 98], [], [99]]" by (simp_all add: words_def)
  have a: "\<forall>c\<in>set [32, 97, 98, 32, 32, 99] \<union> set [32 :: u8]. ascii c" by (simp add: ascii_def)
  show ?thesis
    using tokenizers_split[OF c, unfolded w] a by blast
qed

end
