(* ===== verification/Shell_Correct.thy ===== *)
theory Shell_Correct
  imports Shell C_Token_Correct
begin

text \<open>
  Correctness of the command line: the line that is edited against a list of characters, the history against the list
  of the last commands, the arguments against the words of the command.
\<close>

section \<open>Editing\<close>










section \<open>History\<close>

text \<open>
  \<open>hs\<close> are the commands in the ring, the newest first; the next one shown by the arrow up is number \<open>k\<close>. Before the ring is full
  all commands can be reached, afterwards nine of the ten.
\<close>

definition reach :: "shell \<Rightarrow> nat" where
  "reach s = (if history_full s then 9 else history_write_index s)"

definition hist_ok :: "shell \<Rightarrow> u8 list list \<Rightarrow> nat \<Rightarrow> bool" where
  "hist_ok s hs k \<longleftrightarrow>
     length (history s) = 10 \<and> history_write_index s < 10 \<and> k \<le> reach s \<and>
     history_read_index s = (history_write_index s + (10 - k)) mod 10 \<and>
     length hs = (if history_full s then 10 else history_write_index s) \<and>
     (\<forall>i<length hs. history s ! ((history_write_index s + (9 - i)) mod 10) = hs ! i)"

lemma ring_mod: "w < 10 \<Longrightarrow> i \<le> 9 \<Longrightarrow> (w + (9 - i)) mod 10 = (if i < w then w - Suc i else w + 9 - i)" for w i :: nat
  by (auto simp: mod_if)

lemma ring_Suc: "w < 10 \<Longrightarrow> i < 9 \<Longrightarrow> (Suc w mod 10 + (9 - Suc i)) mod 10 = (w + (9 - i)) mod 10" for w i :: nat
  using ring_mod[of w i] ring_mod[of "Suc w mod 10" "Suc i"] by (auto simp: mod_Suc)

lemma ring_0: "w < 10 \<Longrightarrow> (Suc w mod 10 + 9) mod 10 = w" for w :: nat
  using ring_mod[of "Suc w mod 10" 0] by (auto simp: mod_Suc)

lemma push_ring:
  assumes h: "length h = 10" "w < 10" "length hs \<le> 10" "\<forall>i<length hs. h ! ((w + (9 - i)) mod 10) = hs ! i"
    and i: "i < length (take 10 (c # hs))"
  shows "h[w := c] ! ((Suc w mod 10 + (9 - i)) mod 10) = take 10 (c # hs) ! i"
proof (cases i)
  case 0
  then show ?thesis using h ring_0[of w] by simp
next
  case (Suc j)
  then have j: "j < 9" "j < length hs" using i by auto
  have "(w + (9 - j)) mod 10 \<noteq> w" using j h(2) ring_mod[of w j] by auto
  then have "h[w := c] ! ((w + (9 - j)) mod 10) = hs ! j" using h(4) j(2) by (simp del: add_diff_assoc Nat.add_diff_assoc)
  then show ?thesis using ring_Suc[OF h(2) j(1)] j by (simp add: Suc del: add_diff_assoc Nat.add_diff_assoc)
qed

text \<open>A command is pushed unless it repeats the last one; right after the ring was filled a repetition is not noticed.\<close>

lemma history_push_new:
  assumes "hist_ok s hs k" "length c < 256" "history_write_index s = 0 \<or> hd hs \<noteq> c" "history_write_index s > 0 \<Longrightarrow> history s ! (history_write_index s - 1) = hd hs"
  shows "history_push c s = Inr (s\<lparr>history := (history s)[history_write_index s := c], history_write_index := Suc (history_write_index s) mod 10,
    history_full := (history_full s \<or> history_write_index s = 9), history_read_index := Suc (history_write_index s) mod 10\<rparr>)"
proof -
  let ?w = "history_write_index s"
  have h: "length (history s) = 10" "?w < 10" using assms(1) by (simp_all add: hist_ok_def)
  have st: "set_at (history s) ?w c = Inr ((history s)[?w := c])" using h by (simp add: set_at_def)
  have dup: "?w = 0 \<or> (\<exists>a. get_at (history s) (?w - 1) = Inr a \<and> a \<noteq> c)"
    using assms(3,4) h by (auto simp: get_at_def)
  have w: "?w = 9 \<and> Suc ?w mod 10 = 0 \<or> Suc ?w < 10 \<and> ?w \<noteq> 9" using h(2) by (cases "?w = 9") (simp, linarith)
  show ?thesis
    using dup
  proof
    assume "?w = 0"
    then show ?thesis using st assms(2) by (simp add: history_push_def Let_def CMD_LEN_def HISTORY_MAX_def)
  next
    assume "\<exists>a. get_at (history s) (?w - 1) = Inr a \<and> a \<noteq> c"
    then obtain a where "get_at (history s) (?w - Suc 0) = Inr a" "a \<noteq> c" by auto
    then show ?thesis
      using st assms(2) w by (cases "?w = 0") (auto simp: history_push_def Let_def CMD_LEN_def HISTORY_MAX_def)
  qed
qed

lemma hist_first:
  assumes "hist_ok s hs k" "history_write_index s > 0"
  shows "history s ! (history_write_index s - 1) = hd hs"
proof -
  let ?w = "history_write_index s"
  note h = assms(1)[unfolded hist_ok_def]
  have ne: "hs \<noteq> []" using h assms(2) by (auto split: if_splits)
  then have "history s ! ((?w + 9) mod 10) = hs ! 0" using h by auto
  then show ?thesis using ring_mod[of ?w 0] h assms(2) ne by (simp add: hd_conv_nth)
qed

lemma history_push_dup:
  assumes "hist_ok s hs k" "history_write_index s > 0" "history s ! (history_write_index s - 1) = c"
  shows "history_push c s = Inr (s\<lparr>history_read_index := history_write_index s\<rparr>)"
proof -
  have "get_at (history s) (history_write_index s - 1) = Inr c" using assms by (auto simp: get_at_def hist_ok_def)
  then show ?thesis using assms(2) by (simp add: history_push_def Let_def)
qed

lemma hist_reset: "hist_ok s hs k \<Longrightarrow> hist_ok (s\<lparr>history_read_index := history_write_index s\<rparr>) hs 0"
  by (simp add: hist_ok_def reach_def)

lemma hist_ok_new:
  assumes "hist_ok s hs k"
  shows "hist_ok (s\<lparr>history := (history s)[history_write_index s := c], history_write_index := Suc (history_write_index s) mod 10,
    history_full := (history_full s \<or> history_write_index s = 9), history_read_index := Suc (history_write_index s) mod 10\<rparr>) (take 10 (c # hs)) 0"
proof -
  let ?w = "history_write_index s"
  note h = assms(1)[unfolded hist_ok_def]
  have len: "length (take 10 (c # hs)) = (if history_full s \<or> ?w = 9 then 10 else Suc ?w mod 10)"
    using h by (auto split: if_splits)
  have "\<forall>i<length (take 10 (c # hs)). (history s)[?w := c] ! ((Suc ?w mod 10 + (9 - i)) mod 10) = take 10 (c # hs) ! i"
    using h by (intro allI impI push_ring) (auto split: if_splits)
  then show ?thesis using len h by (simp add: hist_ok_def reach_def)
qed

text \<open>The arrow up shows the command before, as long as there is one.\<close>

lemma up_index:
  assumes "w < 10" "k \<le> (if full then 9 else w)" "0 < w \<or> full"
  defines "r \<equiv> int ((w + (10 - k)) mod 10)" and "k' \<equiv> min (k + 1) (if full then 9 else w)"
  shows "(if full then let n = (if r - 1 < 0 then 9 else if r - 1 \<ge> 10 then 0 else r - 1) in if n = int w then r else n
          else if r - 1 < 0 then 0 else if r - 1 \<ge> int w then r else r - 1) = int ((w + (10 - k')) mod 10)"
proof -
  define R where "R j = (w + (10 - j)) mod 10" for j
  have R: "R j = (if j = 0 then w else if j \<le> w then w - j else w + 10 - j)" if "j \<le> 9" for j
    using that assms(1) by (auto simp: R_def mod_if)
  have k: "k \<le> 9" using assms(1,2) by (auto split: if_splits)
  have r: "r = int (R k)" by (simp add: r_def R_def)
  show ?thesis
  proof (cases "k = (if full then 9 else w)")
    case True
    then have "k' = k" by (simp add: k'_def)
    have "R k = (if full then if w = 9 then 0 else Suc w else 0)" using R[OF k] True assms(1,3) by (auto split: if_splits)
    then show ?thesis unfolding R_def[symmetric] r Let_def \<open>k' = k\<close> using assms(1,3) by (cases full) (auto split: if_splits)
  next
    case False
    then have l: "k < (if full then 9 else w)" using assms(2) by linarith
    then have "k' = Suc k" "Suc k \<le> 9" using assms(1) by (auto simp: k'_def split: if_splits)
    have "R k < 10" using R[OF k] assms(1) by (auto split: if_splits)
    moreover have "R (Suc k) = (if R k = 0 then 9 else R k - 1)"
      using R[OF k] R[OF \<open>Suc k \<le> 9\<close>] assms(1) k by (auto split: if_splits)
    moreover have "R (Suc k) \<noteq> w" using R[OF \<open>Suc k \<le> 9\<close>] \<open>Suc k \<le> 9\<close> assms(1) by (auto split: if_splits)
    moreover have "\<not> full \<Longrightarrow> R k \<le> w \<and> R k > 0" using R[OF k] l by (auto split: if_splits)
    ultimately show ?thesis unfolding R_def[symmetric] r Let_def \<open>k' = Suc k\<close> by (cases full; cases "R k = 0") auto
  qed
qed

lemma history_up_ok:
  assumes "hist_ok s hs k" "hs \<noteq> []"
  defines "k' \<equiv> min (k + 1) (reach s)"
  shows "\<exists>s'. history_fetch KEY_UP s = Inr (Some (hs ! (k' - 1)), s') \<and> hist_ok s' hs k' \<and> cmd s' = cmd s"
proof -
  let ?w = "history_write_index s" and ?f = "history_full s"
  note h = assms(1)[unfolded hist_ok_def]
  have w: "?w < 10" "k \<le> (if ?f then 9 else ?w)" "0 < ?w \<or> ?f" using h length_greater_0_conv[of hs] assms(2) by (auto simp: reach_def split: if_splits)
  define n where "n = (?w + (10 - k')) mod 10"
  have k': "0 < k'" "k' \<le> reach s" "k' - 1 < length hs" using h w by (auto simp: k'_def reach_def split: if_splits)
  have "k' \<le> 9" using k' w by (auto simp: reach_def split: if_splits)
  then have n: "n < 10" "n = (?w + (9 - (k' - 1))) mod 10" using k'(1) by (auto simp: n_def)
  have "history s ! n = hs ! (k' - 1)" using h k'(3) n(2) by blast
  moreover have "history_fetch KEY_UP s = bindR (get_at (history s) n) (\<lambda>c. Inr (Some c, s\<lparr>history_read_index := n\<rparr>))"
  proof -
    have c: "(?w = 0 \<and> \<not> ?f) = False" using w(3) by auto
    have r: "history_read_index s = (?w + (10 - k)) mod 10" using h by blast
    have key: "(KEY_UP = KEY_DOWN) = False" by (simp add: KEY_UP_def KEY_DOWN_def)
    have i: "int HISTORY_MAX = 10" "(10 :: int) - 1 = 9" by (simp_all add: HISTORY_MAX_def)
    show ?thesis
      using up_index[OF w] unfolding history_fetch_def c key r i if_False Let_def simp_thms if_True
      by (simp only: n_def k'_def reach_def nat_int)
  qed
  ultimately have "history_fetch KEY_UP s = Inr (Some (hs ! (k' - 1)), s\<lparr>history_read_index := n\<rparr>)"
    using h n by (simp add: get_at_def)
  moreover have "hist_ok (s\<lparr>history_read_index := n\<rparr>) hs k'" using h k'(2) by (auto simp: hist_ok_def reach_def n_def split: if_split_asm)
  ultimately show ?thesis by auto
qed

section \<open>Arguments\<close>






section \<open>Commands\<close>

lemma find_loop_found:
  "it \<le> i \<Longrightarrow> i < length shell_commands \<Longrightarrow> shell_commands ! i = c \<Longrightarrow> c \<notin> set (take (i - it) (drop it shell_commands)) \<Longrightarrow>
   find_loop c it = Inr (Some i)"
proof (induction "i - it" arbitrary: it)
  case 0
  then show ?case by (subst find_loop.simps) (simp add: get_at_def MAX_NUM_COM_def shell_commands_def)
next
  case (Suc n)
  have it: "it < length shell_commands" using Suc.prems Suc.hyps(2) by simp
  have e: "take (i - it) (drop it shell_commands) = shell_commands ! it # take (i - Suc it) (drop (Suc it) shell_commands)"
    using it Suc.hyps(2) by (simp add: Cons_nth_drop_Suc[symmetric] take_Cons')
  have "find_loop c (Suc it) = Inr (Some i)" using Suc.hyps(1)[of "Suc it"] Suc.hyps(2) Suc.prems e by auto
  moreover have "it < MAX_NUM_COM" using it by (simp add: MAX_NUM_COM_def shell_commands_def)
  ultimately show ?case using it e Suc.prems(4) by (subst find_loop.simps) (auto simp: get_at_def)
qed

lemma find_loop_missing:
  "it \<le> length shell_commands \<Longrightarrow> c \<notin> set (drop it shell_commands) \<Longrightarrow> find_loop c it = Inl OutOfBounds"
proof (induction "length shell_commands - it" arbitrary: it)
  case 0
  then have "it = length shell_commands" by simp
  then show ?case by (subst find_loop.simps) (simp add: get_at_def MAX_NUM_COM_def shell_commands_def)
next
  case (Suc n)
  have it: "it < length shell_commands" using Suc.hyps(2) by simp
  have d: "drop it shell_commands = shell_commands ! it # drop (Suc it) shell_commands" using it by (simp add: Cons_nth_drop_Suc)
  have "find_loop c (Suc it) = Inl OutOfBounds" using Suc.hyps(1)[of "Suc it"] Suc.hyps(2) Suc.prems d it by auto
  moreover have "it < MAX_NUM_COM" using it by (simp add: MAX_NUM_COM_def shell_commands_def)
  ultimately show ?case using it d Suc.prems(2) by (subst find_loop.simps) (auto simp: get_at_def)
qed

text \<open>A command of the table is found; the search for any other name reads behind the table, which is shorter than the bound.\<close>

theorem find_command_total:
  "shell_find_command (Some c) =
     (if c \<in> set shell_commands then Inr (Some (length (takeWhile (\<lambda>n. n \<noteq> c) shell_commands))) else Inl OutOfBounds)"
proof (cases "c \<in> set shell_commands")
  case True
  let ?i = "length (takeWhile (\<lambda>n. n \<noteq> c) shell_commands)"
  have "takeWhile (\<lambda>n. n \<noteq> c) shell_commands \<noteq> shell_commands" using True by (auto simp: takeWhile_eq_all_conv)
  then have i: "?i < length shell_commands" by (metis length_takeWhile_le nat_less_le takeWhile_eq_take take_all_iff)
  have "shell_commands ! ?i = c" using nth_length_takeWhile[OF i] by simp
  moreover have "take ?i shell_commands = takeWhile (\<lambda>n. n \<noteq> c) shell_commands" by (metis takeWhile_eq_take)
  ultimately show ?thesis using True i find_loop_found[of 0 ?i c] by (auto simp: shell_find_command_def dest: set_takeWhileD)
next
  case False
  then show ?thesis using find_loop_missing[of 0 c] by (simp add: shell_find_command_def)
qed

section \<open>From the keys to the arguments\<close>









section \<open>Browsing the history\<close>

text \<open>The commands that were pushed, the newest first; every tenth place a repetition is kept.\<close>

fun pushed :: "u8 list list \<Rightarrow> u8 list list \<Rightarrow> u8 list list" where
  "pushed cs [] = cs"
| "pushed cs (c # new) = pushed (if length cs mod 10 \<noteq> 0 \<and> hd cs = c then cs else c # cs) new"

primrec history_pushes :: "u8 list list \<Rightarrow> shell \<Rightarrow> shell res" where
  "history_pushes [] s = Inr s"
| "history_pushes (c # cs) s = bindR (history_push c s) (history_pushes cs)"

primrec arrow_ups :: "nat \<Rightarrow> shell \<Rightarrow> (u8 list option \<times> shell) res" where
  "arrow_ups 0 s = Inr (None, s)"
| "arrow_ups (Suc n) s = bindR (arrow_ups n s) (\<lambda>(c, s). history_fetch KEY_UP s)"

definition hist_of :: "shell \<Rightarrow> u8 list list \<Rightarrow> nat \<Rightarrow> bool" where
  "hist_of s cs k \<longleftrightarrow> hist_ok s (take 10 cs) k \<and> history_write_index s = length cs mod 10 \<and> history_full s = (10 \<le> length cs)"

lemma push_hist_of:
  assumes "hist_of s cs k" "length c < 256"
  shows "\<exists>s'. history_push c s = Inr s' \<and> hist_of s' (if length cs mod 10 \<noteq> 0 \<and> hd cs = c then cs else c # cs) 0"
proof -
  have h: "hist_ok s (take 10 cs) k" "history_write_index s = length cs mod 10" "history_full s = (10 \<le> length cs)"
    using assms(1) by (simp_all add: hist_of_def)
  have w: "history_write_index s > 0 \<Longrightarrow> history s ! (history_write_index s - 1) = hd (take 10 cs)" by (rule hist_first[OF h(1)])
  have hd: "hd (take 10 cs) = hd cs" by (cases cs) simp_all
  show ?thesis
  proof (cases "length cs mod 10 \<noteq> 0 \<and> hd cs = c")
    case True
    then have "history_push c s = Inr (s\<lparr>history_read_index := history_write_index s\<rparr>)"
      using history_push_dup[OF h(1)] w h(2) hd by simp
    moreover have "hist_ok (s\<lparr>history_read_index := history_write_index s\<rparr>) (take 10 cs) 0" using h(1) by (rule hist_reset)
    ultimately show ?thesis using True h by (simp add: hist_of_def)
  next
    case False
    note n = history_push_new[OF h(1) assms(2) _ w] and t = hist_ok_new[OF h(1), of c]
    have "take 10 (c # take 10 cs) = take 10 (c # cs)" by (simp add: min_def)
    then show ?thesis using n t False h hd by (auto simp: hist_of_def mod_Suc)
  qed
qed

lemma pushes_hist_of:
  "hist_of s cs k \<Longrightarrow> \<forall>c\<in>set new. length c < 256 \<Longrightarrow> new \<noteq> [] \<Longrightarrow>
   \<exists>s'. history_pushes new s = Inr s' \<and> hist_of s' (pushed cs new) 0"
proof (induction new arbitrary: s cs k)
  case (Cons c new)
  obtain s1 where s1: "history_push c s = Inr s1" "hist_of s1 (if length cs mod 10 \<noteq> 0 \<and> hd cs = c then cs else c # cs) 0"
    using push_hist_of[OF Cons.prems(1)] Cons.prems(2) by auto
  show ?case
  proof (cases "new = []")
    case True
    then show ?thesis using s1 by simp
  next
    case False
    then show ?thesis using s1(1) Cons.IH[OF s1(2)] Cons.prems(2) by simp
  qed
qed simp

lemma reach_length: "hist_ok s hs k \<Longrightarrow> reach s = (if length hs = 10 then 9 else length hs)"
  by (cases "history_full s") (simp_all add: hist_ok_def reach_def)

lemma arrow_ups_ok:
  assumes "hist_ok s hs 0" "hs \<noteq> []"
  shows "\<exists>s'. arrow_ups n s = Inr (if n = 0 then None else Some (hs ! (min n (reach s) - 1)), s') \<and>
    hist_ok s' hs (min n (reach s)) \<and> reach s' = reach s"
proof (induction n)
  case 0
  then show ?case using assms(1) by simp
next
  case (Suc n)
  then obtain s1 c where s1: "arrow_ups n s = Inr (c, s1)" "hist_ok s1 hs (min n (reach s))" "reach s1 = reach s" by blast
  obtain s2 where s2: "history_fetch KEY_UP s1 = Inr (Some (hs ! (min (min n (reach s) + 1) (reach s1) - 1)), s2)"
      "hist_ok s2 hs (min (min n (reach s) + 1) (reach s1))"
    using history_up_ok[OF s1(2) assms(2)] by blast
  have e: "min (min n (reach s) + 1) (reach s1) = min (Suc n) (reach s)" using s1(3) by simp
  have "reach s2 = reach s" using reach_length[OF assms(1)] reach_length[OF s2(2)] by simp
  then show ?case using s1(1) s2 unfolding e by (intro exI[of _ s2]) simp
qed

lemma pushed_not_Nil: "new \<noteq> [] \<or> cs \<noteq> [] \<Longrightarrow> pushed cs new \<noteq> []"
proof (induction cs new rule: pushed.induct)
  case (2 cs c new)
  show ?case using 2 by (cases "cs = []") simp_all
qed simp

text \<open>
  After any sequence of commands, pressing the arrow up key \<open>n\<close> times shows the \<open>n\<close>-th last command of the history, where a
  command that repeats the one before it is entered once (except at every tenth place); at the oldest command it stays. Of ten and more
  commands the last nine can be shown, before that all.
\<close>

theorem history_shows_last_commands:
  assumes "length (history s) = 10" "history_write_index s = 0" "history_read_index s = 0" "\<not> history_full s"
    and "\<forall>c\<in>set new. length c < 256" "new \<noteq> []" "0 < n"
  defines "cs \<equiv> pushed [] new"
  shows "\<exists>s1 s2. history_pushes new s = Inr s1 \<and>
    arrow_ups n s1 = Inr (Some (cs ! (min n (if 10 \<le> length cs then 9 else length cs) - 1)), s2)"
proof -
  have "hist_of s [] 0" using assms(1-4) by (simp add: hist_of_def hist_ok_def reach_def)
  then obtain s1 where s1: "history_pushes new s = Inr s1" "hist_of s1 cs 0" using pushes_hist_of assms(5,6) unfolding cs_def by blast
  have h: "hist_ok s1 (take 10 cs) 0" "reach s1 = (if 10 \<le> length cs then 9 else length cs)"
    using s1(2) by (auto simp: hist_of_def reach_def)
  have "take 10 cs \<noteq> []" using pushed_not_Nil[of new "[]"] assms(6) by (simp add: cs_def)
  then obtain s2 where "arrow_ups n s1 = Inr (Some (take 10 cs ! (min n (reach s1) - 1)), s2)"
    using arrow_ups_ok[OF h(1), of n] assms(7) by force
  moreover have "min n (reach s1) - 1 < 10" using h(2) by (cases "10 \<le> length cs") auto
  ultimately show ?thesis using s1(1) h(2) by simp
qed

theorem history_shows_last_commands_witness:
  "\<exists>s1 s2. history_pushes [[108, 115], [112, 115], [112, 115]] \<lparr>cmd = (\<lambda>a. 0), cmd_cursor_index = 0, history = replicate 10 [],
      history_write_index = 0, history_read_index = 0, history_full = False, out = []\<rparr> = Inr s1 \<and>
    arrow_ups 2 s1 = Inr (Some [108, 115], s2)"
  using history_shows_last_commands[of "\<lparr>cmd = (\<lambda>a. 0), cmd_cursor_index = 0, history = replicate 10 [],
      history_write_index = 0, history_read_index = 0, history_full = False, out = []\<rparr>" "[[108, 115], [112, 115], [112, 115]]" 2]
  by simp

end
