(* ===== verification/Interrupts.thy ===== *)
theory Interrupts
  imports Scheduler
begin

text \<open>
  Descriptor tables, exceptions and interrupts (\<open>descriptor_tables/gdt.c\<close>, \<open>tss.c\<close>, \<open>idt.c\<close>, \<open>exception.c\<close>, \<open>interrupt.c\<close>), the
  interrupt controller (\<open>hardware/pic8259.c\<close>), the timer (\<open>hardware/timer.c\<close>) and the entry of the system calls (\<open>system/syscall.c\<close>).
  What is written to the ports is recorded; what a port returns is a parameter, a function of the writes so far. The assembly stubs are
  addresses. A handler is a parameter that changes the state, may fault and need not return.
\<close>

section \<open>Descriptor tables\<close>

record gdt_descriptor =
  limit_low :: u16
  base_low :: u16
  base_middle :: u8
  gdt_access :: u8
  granularity :: u8
  base_high :: u8

definition GDT_SIZE :: nat where "GDT_SIZE = 10"

definition zero_gate :: gdt_descriptor where
  "zero_gate = \<lparr>limit_low = 0, base_low = 0, base_middle = 0, gdt_access = 0, granularity = 0, base_high = 0\<rparr>"

definition gdt_set_gate :: "u8 \<Rightarrow> u32 \<Rightarrow> u32 \<Rightarrow> u8 \<Rightarrow> u8 \<Rightarrow> gdt_descriptor list \<Rightarrow> gdt_descriptor list res" where
  "gdt_set_gate index base limit acc granul gdt =
     set_at gdt (unat index)
       \<lparr>limit_low = ucast (and limit 0xFFFF), base_low = ucast (and base 0xFFFF), base_middle = ucast (and (drop_bit 16 base) 0xFF),
        gdt_access = acc, granularity = or (ucast (and (drop_bit 16 limit) 0x0F)) (and granul 0xF0),
        base_high = ucast (and (drop_bit 24 base) 0xFF)\<rparr>"

record tss_entry =
  prevTss :: u32  esp0 :: u32  ss0 :: u32  esp1 :: u32  ss1 :: u32  esp2 :: u32  ss2 :: u32  cr3 :: u32  tss_eip :: u32
  tss_eflags :: u32  tss_eax :: u32  tss_ecx :: u32  tss_edx :: u32  tss_ebx :: u32  tss_esp :: u32  tss_ebp :: u32  tss_esi :: u32
  tss_edi :: u32  tss_es :: u32  tss_cs :: u32  tss_ss :: u32  tss_ds :: u32  tss_fs :: u32  tss_gs :: u32  ldt :: u32  trap :: u16  iomap :: u16

definition zero_tss :: tss_entry where
  "zero_tss = \<lparr>prevTss = 0, esp0 = 0, ss0 = 0, esp1 = 0, ss1 = 0, esp2 = 0, ss2 = 0, cr3 = 0, tss_eip = 0, tss_eflags = 0, tss_eax = 0,
     tss_ecx = 0, tss_edx = 0, tss_ebx = 0, tss_esp = 0, tss_ebp = 0, tss_esi = 0, tss_edi = 0, tss_es = 0, tss_cs = 0, tss_ss = 0,
     tss_ds = 0, tss_fs = 0, tss_gs = 0, ldt = 0, trap = 0, iomap = 0\<rparr>"

definition sizeof_tss :: u32 where "sizeof_tss = 104"

text \<open>\<open>addr\<close> is the address of the task state segment.\<close>

definition tss_init :: "u32 \<Rightarrow> u8 \<Rightarrow> u32 \<Rightarrow> u32 \<Rightarrow> gdt_descriptor list \<Rightarrow> (gdt_descriptor list \<times> tss_entry) res" where
  "tss_init addr idx kss kesp gdt =
     bindR (gdt_set_gate idx addr (addr + sizeof_tss) 0xE9 0 gdt) (\<lambda>gdt.
     Inr (gdt, zero_tss\<lparr>ss0 := kss, esp0 := kesp, tss_cs := 0x0b, tss_ds := 0x13, tss_es := 0x13, tss_fs := 0x13, tss_gs := 0x13,
       tss_ss := 0x13, iomap := ucast sizeof_tss\<rparr>))"

definition tss_set_stack :: "u32 \<Rightarrow> u32 \<Rightarrow> tss_entry \<Rightarrow> tss_entry" where
  "tss_set_stack kss kesp tss = tss\<lparr>ss0 := kss, esp0 := kesp\<rparr>"

text \<open>The limit of the pointer that the processor gets, the table, and the task state segment.\<close>

definition init_gdt :: "u32 \<Rightarrow> (u16 \<times> gdt_descriptor list \<times> tss_entry) res" where
  "init_gdt tss_addr =
     bindR (gdt_set_gate 0 0 0 0 0 (replicate GDT_SIZE zero_gate)) (\<lambda>gdt.
     bindR (gdt_set_gate 1 0 0xFFFFFFFF (or (or (or 0x80 0x00) 0x10) 0x0A) (or (or 0x80 0x40) 0x0F) gdt) (\<lambda>gdt.
     bindR (gdt_set_gate 2 0 0xFFFFFFFF (or (or (or 0x80 0x00) 0x10) 0x02) (or (or 0x80 0x40) 0x0F) gdt) (\<lambda>gdt.
     bindR (gdt_set_gate 3 0 0xFFFFFFFF 0xFA (or (or 0x80 0x40) 0x0F) gdt) (\<lambda>gdt.
     bindR (gdt_set_gate 4 0 0xFFFFFFFF 0xF2 (or (or 0x80 0x40) 0x0F) gdt) (\<lambda>gdt.
     bindR (tss_init tss_addr 5 0x10 0x0 gdt) (\<lambda>(gdt, tss).
     Inr (8 * 6 - 1, gdt, tss)))))))"

record idt_descriptor =
  offset_low :: u16
  seg_selector :: u16
  null_par :: u8
  options :: u8
  offset_high :: u16

definition IDT_SIZE :: nat where "IDT_SIZE = 256"
definition IDT_PRESENT :: u16 where "IDT_PRESENT = 0x80"
definition IDT_KERNEL :: u16 where "IDT_KERNEL = 0"
definition IDT_USER :: u16 where "IDT_USER = 0x60"
definition IDT_PADDING :: u16 where "IDT_PADDING = 0x0E"

definition idt_set_gate :: "u8 \<Rightarrow> u32 \<Rightarrow> u16 \<Rightarrow> u8 \<Rightarrow> idt_descriptor list \<Rightarrow> idt_descriptor list res" where
  "idt_set_gate index handler opts seg_sel idt =
     set_at idt (unat index)
       \<lparr>offset_low = ucast (and handler 0xFFFF), seg_selector = ucast seg_sel, null_par = 0, options = ucast (or opts IDT_PADDING),
        offset_high = ucast (and (drop_bit 16 handler) 0xFFFF)\<rparr>"

fun set_gates :: "(nat \<times> u32 \<times> u16) list \<Rightarrow> idt_descriptor list \<Rightarrow> idt_descriptor list res" where
  "set_gates [] idt = Inr idt"
| "set_gates ((i, h, opts) # gates) idt = bindR (idt_set_gate (of_nat i) h opts 8 idt) (set_gates gates)"

text \<open>\<open>int_stub\<close> and \<open>irq_stub\<close> are the assembly routines \<open>INT_n\<close> and \<open>IRQ_n\<close>. The gates of the table in the order of the calls.\<close>

definition idt_gates :: "(nat \<Rightarrow> u32) \<Rightarrow> (nat \<Rightarrow> u32) \<Rightarrow> (nat \<times> u32 \<times> u16) list" where
  "idt_gates int_stub irq_stub =
     map (\<lambda>i. (i, int_stub i, or IDT_PRESENT IDT_KERNEL)) [0..<32] @
     map (\<lambda>i. (i + 32, irq_stub i, or IDT_PRESENT IDT_KERNEL)) [0..<16] @
     [(128, int_stub 80, or IDT_PRESENT IDT_USER)]"

definition zero_idt :: idt_descriptor where
  "zero_idt = \<lparr>offset_low = 0, seg_selector = 0, null_par = 0, options = 0, offset_high = 0\<rparr>"

definition init_idt :: "(nat \<Rightarrow> u32) \<Rightarrow> (nat \<Rightarrow> u32) \<Rightarrow> (u16 \<times> idt_descriptor list) res" where
  "init_idt int_stub irq_stub =
     bindR (set_gates (idt_gates int_stub irq_stub) (replicate IDT_SIZE zero_idt)) (\<lambda>idt. Inr (8 * 256 - 1, idt))"

section \<open>Handlers\<close>

datatype 'h handler = Default | Handler 'h

record 'h irq_struct =
  handler :: "'h handler"
  description :: "string option"
  irq_next :: "nat option"

text \<open>
  The tables of the handlers, with the store of the nodes of the chains, the masks that the driver of the controller keeps, the writes to the
  ports, and everything else.
\<close>

record ('h, 's) machine =
  isr_routines :: "'h handler list"
  isr_routines_description :: "string option list"
  shared_interrupt_handlers :: "nat list"
  irq_heap :: "nat \<Rightarrow> 'h irq_struct option"
  master_cur_mask :: u8
  slave_cur_mask :: u8
  written :: "(u16 \<times> u8) list"
  dev :: 's

definition IRQ_NUM :: nat where "IRQ_NUM = 16"

definition outportb :: "u16 \<Rightarrow> u8 \<Rightarrow> ('h, 's) machine \<Rightarrow> ('h, 's) machine" where
  "outportb port v s = s\<lparr>written := written s @ [(port, v)]\<rparr>"

definition isrs_init :: "('h, 's) machine \<Rightarrow> ('h, 's) machine" where
  "isrs_init s = s\<lparr>isr_routines := replicate IDT_SIZE Default\<rparr>"

definition isr_install_handler :: "u32 \<Rightarrow> 'h handler \<Rightarrow> string \<Rightarrow> ('h, 's) machine \<Rightarrow> (int \<times> ('h, 's) machine) res" where
  "isr_install_handler i h desc s =
     (if \<not> (0 \<le> i \<and> i \<le> 31) \<and> i \<noteq> 80 then Inr (-1, s)
      else bindR (set_at (isr_routines s) (unat i) h) (\<lambda>rs.
           bindR (set_at (isr_routines_description s) (unat i) (Some desc)) (\<lambda>ds.
           Inr (0, s\<lparr>isr_routines := rs, isr_routines_description := ds\<rparr>))))"

text \<open>The default handlers print a message and loop.\<close>

definition call_handler :: "('h \<Rightarrow> 's \<Rightarrow> 's res option) \<Rightarrow> 'h handler \<Rightarrow> 's \<Rightarrow> 's res option" where
  "call_handler call h s = (case h of Default \<Rightarrow> None | Handler x \<Rightarrow> call x s)"

definition isr_handler :: "('h \<Rightarrow> ('h, 's) machine \<Rightarrow> ('h, 's) machine res option) \<Rightarrow> u32 \<Rightarrow> ('h, 's) machine \<Rightarrow> ('h, 's) machine res option" where
  "isr_handler call isr_number s =
     (case get_at (isr_routines s) (unat isr_number) of Inl e \<Rightarrow> Some (Inl e) | Inr h \<Rightarrow> call_handler call h s)"

text \<open>The addresses \<open>new\<close> of the nodes are those that \<open>kmalloc\<close> returns.\<close>

fun irqs_init_loop :: "nat list \<Rightarrow> nat \<Rightarrow> ('h, 's) machine \<Rightarrow> ('h, 's) machine res" where
  "irqs_init_loop [] i s = Inr s"
| "irqs_init_loop (a # new) i s =
     bindR (set_at (shared_interrupt_handlers s) i a) (\<lambda>hs.
     irqs_init_loop new (Suc i) (s\<lparr>irq_heap := (irq_heap s)(a \<mapsto> \<lparr>handler = Default, description = None, irq_next = None\<rparr>),
                                   shared_interrupt_handlers := hs\<rparr>))"

definition irqs_init :: "nat list \<Rightarrow> ('h, 's) machine \<Rightarrow> ('h, 's) machine res" where
  "irqs_init new s = irqs_init_loop (take IRQ_NUM new) 0 s"

definition irq_node :: "('h, 's) machine \<Rightarrow> nat \<Rightarrow> 'h irq_struct res" where
  "irq_node s a = (case irq_heap s a of None \<Rightarrow> Inl NullDeref | Some n \<Rightarrow> Inr n)"

partial_function (option) last_node :: "('h, 's) machine \<Rightarrow> nat \<Rightarrow> nat res option" where
  "last_node s cur =
     (case irq_node s cur of
        Inl e \<Rightarrow> Some (Inl e)
      | Inr n \<Rightarrow> (case irq_next n of None \<Rightarrow> Some (Inr cur) | Some q \<Rightarrow> last_node s q))"

definition irq_install_handler :: "nat \<Rightarrow> u32 \<Rightarrow> 'h handler \<Rightarrow> string \<Rightarrow> ('h, 's) machine \<Rightarrow> (int \<times> ('h, 's) machine) res option" where
  "irq_install_handler new i h desc s =
     (if unat i > IRQ_NUM then Some (Inr (-1, s))
      else
        bindO (Some (get_at (shared_interrupt_handlers s) (unat i))) (\<lambda>cur.
        bindO (Some (irq_node s cur)) (\<lambda>n.
        case handler n of
          Default \<Rightarrow> Some (Inr (0, s\<lparr>irq_heap := (irq_heap s)(cur \<mapsto> n\<lparr>handler := h\<rparr>)\<rparr>))
        | Handler _ \<Rightarrow>
            bindO (last_node s cur) (\<lambda>cur.
            bindO (Some (irq_node s cur)) (\<lambda>n.
            Some (Inr (0, s\<lparr>irq_heap := (irq_heap s)(new \<mapsto> \<lparr>handler = h, description = Some desc, irq_next = None\<rparr>,
                                                        cur \<mapsto> n\<lparr>irq_next := Some new\<rparr>)\<rparr>)))))))"

section \<open>The interrupt controller\<close>

definition EOI :: u8 where "EOI = 0x20"
definition MASTER_PORT_COMMAND :: u16 where "MASTER_PORT_COMMAND = 0x20"
definition MASTER_PORT_DATA :: u16 where "MASTER_PORT_DATA = MASTER_PORT_COMMAND + 1"
definition SLAVE_PORT_COMMAND :: u16 where "SLAVE_PORT_COMMAND = 0xA0"
definition SLAVE_PORT_DATA :: u16 where "SLAVE_PORT_DATA = SLAVE_PORT_COMMAND + 1"
definition ICW1_ICW4 :: u8 where "ICW1_ICW4 = 0x01"
definition ICW1_INIT :: u8 where "ICW1_INIT = 0x10"
definition ICW4_8086 :: u8 where "ICW4_8086 = 0x01"
definition IRQ_TO_SLAVE_PIC :: u32 where "IRQ_TO_SLAVE_PIC = 2"
definition IRQ_TIMER :: u32 where "IRQ_TIMER = 0"

type_synonym inport = "(u16 \<times> u8) list \<Rightarrow> u16 \<Rightarrow> u8"

definition pic8259_irq_enable :: "inport \<Rightarrow> u32 \<Rightarrow> ('h, 's) machine \<Rightarrow> int \<times> ('h, 's) machine" where
  "pic8259_irq_enable inb irq s =
     (if unat irq \<ge> IRQ_NUM then (-1, s)
      else if irq < 8 then
        let new_mask = not (push_bit (unat irq) 1); cur_mask = inb (written s) MASTER_PORT_DATA;
            s = outportb MASTER_PORT_DATA (and new_mask cur_mask) s
        in (0, s\<lparr>master_cur_mask := and new_mask cur_mask\<rparr>)
      else
        let irq = irq - 8; new_mask = not (push_bit (unat irq) 1); cur_mask = inb (written s) SLAVE_PORT_DATA;
            s = outportb SLAVE_PORT_DATA (and new_mask cur_mask) s
        in (0, s\<lparr>slave_cur_mask := and new_mask cur_mask\<rparr>))"

definition pic8259_irq_disable :: "inport \<Rightarrow> u32 \<Rightarrow> ('h, 's) machine \<Rightarrow> int \<times> ('h, 's) machine" where
  "pic8259_irq_disable inb irq s =
     (if unat irq \<ge> IRQ_NUM then (-1, s)
      else if irq < 8 then
        let cur_mask = or (inb (written s) MASTER_PORT_DATA) (push_bit (unat irq) 1)
        in (0, outportb MASTER_PORT_DATA (and cur_mask 0xFF) s)
      else
        let irq = irq - 8; cur_mask = or (inb (written s) SLAVE_PORT_DATA) (push_bit (unat irq) 1)
        in (0, outportb SLAVE_PORT_DATA (and cur_mask 0xFF) s))"

definition pic8259_send_eoi :: "u32 \<Rightarrow> ('h, 's) machine \<Rightarrow> ('h, 's) machine" where
  "pic8259_send_eoi irq s =
     outportb MASTER_PORT_COMMAND EOI (if irq \<ge> 8 then outportb SLAVE_PORT_COMMAND EOI s else s)"

text \<open>The initialisation words, written in pairs to master and slave.\<close>

definition icw :: "(u16 \<times> u8) list" where
  "icw =
     [(MASTER_PORT_COMMAND, ICW1_INIT + ICW1_ICW4), (SLAVE_PORT_COMMAND, ICW1_INIT + ICW1_ICW4),
      (MASTER_PORT_DATA, 0x20), (SLAVE_PORT_DATA, 0x28), (MASTER_PORT_DATA, 4), (SLAVE_PORT_DATA, 2),
      (MASTER_PORT_DATA, ICW4_8086), (SLAVE_PORT_DATA, ICW4_8086)]"

definition pic8259_init_irq :: "inport \<Rightarrow> ('h, 's) machine \<Rightarrow> ('h, 's) machine" where
  "pic8259_init_irq inb s =
     (let s = s\<lparr>master_cur_mask := 0xFF, slave_cur_mask := 0xFF, written := written s @ icw\<rparr>;
          s = outportb MASTER_PORT_DATA (master_cur_mask s) s;
          s = outportb SLAVE_PORT_DATA (slave_cur_mask s) s;
          s = snd (pic8259_irq_enable inb IRQ_TO_SLAVE_PIC s)
      in outportb 0xFF (ucast SLAVE_PORT_DATA) (outportb 0xFF (ucast MASTER_PORT_DATA) s))"

section \<open>Interrupts\<close>

partial_function (option) irq_loop ::
  "('h \<Rightarrow> ('h, 's) machine \<Rightarrow> ('h, 's) machine res option) \<Rightarrow> nat \<Rightarrow> ('h, 's) machine \<Rightarrow> ('h, 's) machine res option" where
  "irq_loop call a s =
     (case irq_node s a of
        Inl e \<Rightarrow> Some (Inl e)
      | Inr n \<Rightarrow>
          bindO (call_handler call (handler n) s) (\<lambda>s.
          case irq_node s a of
            Inl e \<Rightarrow> Some (Inl e)
          | Inr n \<Rightarrow> (case irq_next n of None \<Rightarrow> Some (Inr s) | Some q \<Rightarrow> irq_loop call q s)))"

definition irq_handler :: "('h \<Rightarrow> ('h, 's) machine \<Rightarrow> ('h, 's) machine res option) \<Rightarrow> u32 \<Rightarrow> ('h, 's) machine \<Rightarrow> ('h, 's) machine res option" where
  "irq_handler call int_no s =
     (let irq_line = int_no - 32 in
      bindO (Some (get_at (shared_interrupt_handlers s) (unat irq_line))) (\<lambda>a.
      bindO (irq_loop call a s) (\<lambda>s. Some (Inr (pic8259_send_eoi irq_line s)))))"

end
