(* ===== verification/Interrupts_Correct.thy ===== *)
theory Interrupts_Correct
  imports Interrupts
begin

text \<open>
  Correctness of the tables and of the interrupts: what the processor reads from a descriptor, the chains of handlers against the lists of
  the handlers installed, and the masks of the controller against the set of the lines that are enabled.
\<close>

section \<open>Descriptors\<close>

text \<open>The base and the limit of a segment and the address of a handler, put together from their parts.\<close>

definition gate_base :: "gdt_descriptor \<Rightarrow> u32" where
  "gate_base d = or (or (ucast (base_low d)) (push_bit 16 (ucast (base_middle d)))) (push_bit 24 (ucast (base_high d)))"

definition gate_limit :: "gdt_descriptor \<Rightarrow> u32" where
  "gate_limit d = or (ucast (limit_low d)) (push_bit 16 (ucast (and (granularity d) 0x0F)))"

definition gate_offset :: "idt_descriptor \<Rightarrow> u32" where
  "gate_offset d = or (ucast (offset_low d)) (push_bit 16 (ucast (offset_high d)))"

lemma bits_low:
  "bit (0xFFFF :: int) n \<longleftrightarrow> n < 16" "bit (0xFF :: int) n \<longleftrightarrow> n < 8" "bit (0x0F :: int) n \<longleftrightarrow> n < 4" "bit (0xFFFFF :: int) n \<longleftrightarrow> n < 20"
  using bit_mask_iff[where 'a = int, of 16 n] bit_mask_iff[where 'a = int, of 8 n] bit_mask_iff[where 'a = int, of 4 n]
    bit_mask_iff[where 'a = int, of 20 n]
  by (auto simp: mask_eq_exp_minus_1)

lemma bits_high: "bit (0xF0 :: int) n \<longleftrightarrow> 4 \<le> n \<and> n < 8"
proof -
  have "(0xF0 :: int) = push_bit 4 0xF" by (simp add: push_bit_eq_mult)
  then have "bit (0xF0 :: int) n \<longleftrightarrow> bit (push_bit 4 0xF :: int) n" by (rule arg_cong)
  also have "\<dots> \<longleftrightarrow> 4 \<le> n \<and> n < 8" unfolding bit_push_bit_iff bits_low(3) by auto
  finally show ?thesis .
qed

lemma gate_offset_set:
  assumes "idt_set_gate i h opts sel idt = Inr idt'"
  shows "gate_offset (idt' ! unat i) = h"
proof -
  have d: "idt' ! unat i = \<lparr>offset_low = ucast (and h 0xFFFF), seg_selector = ucast sel, null_par = 0, options = ucast (or opts IDT_PADDING),
        offset_high = ucast (and (drop_bit 16 h) 0xFFFF)\<rparr>"
    using assms by (auto simp: idt_set_gate_def set_at_def split: if_splits)
  show ?thesis unfolding gate_offset_def d idt_descriptor.simps
    by (rule bit_word_eqI) (auto simp: bit_simps bits_low)
qed

lemma gate_base_limit:
  assumes "gdt_set_gate i base limit acc granul gdt = Inr gdt'"
  shows "gate_base (gdt' ! unat i) = base" "gate_limit (gdt' ! unat i) = and limit 0xFFFFF"
    "gdt_access (gdt' ! unat i) = acc" "and (granularity (gdt' ! unat i)) 0xF0 = and granul 0xF0"
proof -
  have d: "gdt' ! unat i =
    \<lparr>limit_low = ucast (and limit 0xFFFF), base_low = ucast (and base 0xFFFF), base_middle = ucast (and (drop_bit 16 base) 0xFF),
        gdt_access = acc, granularity = or (ucast (and (drop_bit 16 limit) 0x0F)) (and granul 0xF0),
        base_high = ucast (and (drop_bit 24 base) 0xFF)\<rparr>"
    using assms by (auto simp: gdt_set_gate_def set_at_def split: if_splits)
  show "gate_base (gdt' ! unat i) = base" unfolding gate_base_def d gdt_descriptor.simps
  proof (rule bit_word_eqI)
    fix n
    show "bit (or (or (ucast (ucast (and base 0xFFFF) :: u16)) (push_bit 16 (ucast (ucast (and (drop_bit 16 base) 0xFF) :: u8))))
        (push_bit 24 (ucast (ucast (and (drop_bit 24 base) 0xFF) :: u8))) :: u32) n \<longleftrightarrow> bit base n" if "n < LENGTH(32)"
      using that by (cases "n < 16"; cases "n < 24") (auto simp: bit_simps bits_low)
  qed
  show "gate_limit (gdt' ! unat i) = and limit 0xFFFFF" unfolding gate_limit_def d gdt_descriptor.simps
    by (rule bit_word_eqI) (auto simp: bit_simps bits_low bits_high)
  show "gdt_access (gdt' ! unat i) = acc" by (simp add: d)
  show "and (granularity (gdt' ! unat i)) 0xF0 = and granul 0xF0" unfolding d gdt_descriptor.simps
    by (rule bit_word_eqI) (auto simp: bit_simps bits_low bits_high)
qed

text \<open>The segments of code and data cover all memory; the last descriptor is the task state segment at its address.\<close>

lemma init_gdt_flat:
  "\<exists>gdt tss. init_gdt a = Inr (47, gdt, tss) \<and>
     (\<forall>i\<in>{1, 2, 3, 4}. gate_base (gdt ! i) = 0 \<and> gate_limit (gdt ! i) = 0xFFFFF \<and> and (granularity (gdt ! i)) 0xF0 = 0xC0) \<and>
     map gdt_access gdt = [0, 0x9A, 0x92, 0xFA, 0xF2, 0xE9, 0, 0, 0, 0] \<and>
     gate_base (gdt ! 5) = a \<and> gate_limit (gdt ! 5) = and (a + 104) 0xFFFFF \<and> ss0 tss = 0x10 \<and> esp0 tss = 0"
proof -
  let ?set = "\<lambda>(i :: u8) acc g. gdt_set_gate i 0 0xFFFFFFFF acc 0xCF g"
  let ?flat = "\<lambda>acc :: u8. \<lparr>limit_low = 0xFFFF, base_low = 0, base_middle = 0, gdt_access = acc, granularity = 0xCF, base_high = 0\<rparr>"
  have st: "?set i acc g = Inr (g[unat i := ?flat acc])" if "unat i < length g" for i acc g
    using that by (simp add: gdt_set_gate_def set_at_def)
  let ?g = "[zero_gate, ?flat 0x9A, ?flat 0x92, ?flat 0xFA, ?flat 0xF2, zero_gate, zero_gate, zero_gate, zero_gate, zero_gate]"
  have r: "replicate GDT_SIZE zero_gate = [zero_gate, zero_gate, zero_gate, zero_gate, zero_gate, zero_gate, zero_gate, zero_gate, zero_gate, zero_gate]"
    by (simp add: GDT_SIZE_def numeral_eq_Suc)
  obtain g where g: "gdt_set_gate 5 a (a + sizeof_tss) 0xE9 0 ?g = Inr g" "g = ?g[5 := g ! 5]"
    by (simp add: gdt_set_gate_def set_at_def)
  have "init_gdt a = bindR (tss_init a 5 0x10 0 ?g) (\<lambda>(gdt, tss). Inr (47, gdt, tss))"
    unfolding init_gdt_def r by (simp add: st gdt_set_gate_def[of 0] set_at_def zero_gate_def)
  then obtain tss where t: "init_gdt a = Inr (47, g, tss)" "ss0 tss = 0x10" "esp0 tss = 0" by (simp add: tss_init_def g(1))
  note d = gate_base_limit[OF g(1)]
  have f: "gate_base (?flat acc) = 0 \<and> gate_limit (?flat acc) = 0xFFFFF" for acc by (simp add: gate_base_def gate_limit_def)
  have n: "g ! i = ?g ! i" if "i \<noteq> 5" for i using g(2) that by (metis nth_list_update_neq)
  have "map gdt_access g = [0, 0x9A, 0x92, 0xFA, 0xF2, 0xE9, 0, 0, 0, 0]"
    by (subst g(2)) (use d(3) in \<open>simp add: zero_gate_def\<close>)
  moreover have "gate_base (g ! 5) = a" "gate_limit (g ! 5) = and (a + 104) 0xFFFFF" using d(1,2) by (simp_all add: sizeof_tss_def)
  moreover have "\<forall>i\<in>{1, 2, 3, 4}. gate_base (g ! i) = 0 \<and> gate_limit (g ! i) = 0xFFFFF \<and> and (granularity (g ! i)) 0xF0 = 0xC0"
    using n[of 1] n[of 2] n[of 3] n[of 4] f by auto
  ultimately show ?thesis using t by (intro exI[of _ g] exI[of _ tss] conjI)
qed

section \<open>The interrupt table\<close>

definition gate_of :: "u32 \<Rightarrow> u16 \<Rightarrow> idt_descriptor" where
  "gate_of h opts = \<lparr>offset_low = ucast (and h 0xFFFF), seg_selector = 8, null_par = 0, options = ucast (or opts IDT_PADDING),
     offset_high = ucast (and (drop_bit 16 h) 0xFFFF)\<rparr>"

lemma set_gates_eq:
  "length idt = 256 \<Longrightarrow> \<forall>g\<in>set gates. fst g < 256 \<Longrightarrow> distinct (map fst gates) \<Longrightarrow>
   \<exists>idt'. set_gates gates idt = Inr idt' \<and> length idt' = 256 \<and>
     (\<forall>v<256. idt' ! v = (case map_of gates v of None \<Rightarrow> idt ! v | Some (h, opts) \<Rightarrow> gate_of h opts))"
proof (induction gates idt rule: set_gates.induct)
  case (2 i h opts gates idt)
  have i: "i < 256" "unat (of_nat i :: u8) = i" using 2(3) by (simp_all add: unat_of_nat)
  let ?idt = "idt[i := gate_of h opts]"
  have "idt_set_gate (of_nat i) h opts 8 idt = Inr ?idt" using i 2(2) by (simp add: idt_set_gate_def set_at_def gate_of_def)
  moreover obtain idt' where "set_gates gates ?idt = Inr idt'" "length idt' = 256"
      "\<forall>v<256. idt' ! v = (case map_of gates v of None \<Rightarrow> ?idt ! v | Some (h, opts) \<Rightarrow> gate_of h opts)"
    using 2(1)[OF \<open>idt_set_gate (of_nat i) h opts 8 idt = Inr ?idt\<close>] 2(2-4) by auto
  moreover have "map_of gates i = None" using 2(4) by (auto simp: map_of_eq_None_iff)
  ultimately show ?case using 2(2) i by (auto simp: nth_list_update split: option.splits)
qed simp

text \<open>
  The vectors of the exceptions, of the interrupt lines and of the system call, and no other, are present and lead to their stubs; only the
  system call can be raised by user code.
\<close>

lemma init_idt_gates:
  "\<exists>idt. init_idt int_stub irq_stub = Inr (2047, idt) \<and> length idt = 256 \<and>
     (\<forall>v<256. if v < 48 \<or> v = 128
        then gate_offset (idt ! v) = (if v < 32 then int_stub v else if v < 48 then irq_stub (v - 32) else int_stub 80) \<and>
             options (idt ! v) = (if v = 128 then 0xEE else 0x8E) \<and> seg_selector (idt ! v) = 8
        else idt ! v = zero_idt)"
proof -
  let ?g = "idt_gates int_stub irq_stub"
  have d: "distinct (map fst ?g)" "\<forall>g\<in>set ?g. fst g < 256" by (auto simp: idt_gates_def comp_def distinct_map inj_on_def)
  obtain idt where i: "set_gates ?g (replicate IDT_SIZE zero_idt) = Inr idt" "length idt = 256"
      "\<forall>v<256. idt ! v = (case map_of ?g v of None \<Rightarrow> replicate IDT_SIZE zero_idt ! v | Some (h, opts) \<Rightarrow> gate_of h opts)"
    using set_gates_eq[OF _ d(2,1), of "replicate IDT_SIZE zero_idt"] by (auto simp: IDT_SIZE_def)
  have off: "gate_offset (gate_of h opts) = h" for h opts
    unfolding gate_offset_def gate_of_def idt_descriptor.simps by (rule bit_word_eqI) (auto simp: bit_simps bits_low)
  have m: "map_of ?g v = (if v < 32 then Some (int_stub v, 0x80) else if v < 48 then Some (irq_stub (v - 32), 0x80)
      else if v = 128 then Some (int_stub 80, 0xE0) else None)" for v
  proof -
    have "map (\<lambda>i. (i + 32, irq_stub i, or IDT_PRESENT IDT_KERNEL)) [0..<16] =
        map (\<lambda>i. (i, irq_stub (i - 32), or IDT_PRESENT IDT_KERNEL)) [32..<48]"
      by (rule nth_equalityI) (simp_all del: upt_rec_numeral)
    then show ?thesis
      by (auto simp: idt_gates_def map_of_map_restrict restrict_map_def map_add_def IDT_PRESENT_def IDT_KERNEL_def IDT_USER_def
          simp del: upt_rec_numeral)
  qed
  have opts: "options (gate_of h 0x80) = 0x8E" "options (gate_of h 0xE0) = 0xEE" "seg_selector (gate_of h opts) = 8" for h opts
    by (simp_all add: gate_of_def IDT_PADDING_def)
  have v: "idt ! v = (if v < 32 then gate_of (int_stub v) 0x80 else if v < 48 then gate_of (irq_stub (v - 32)) 0x80
      else if v = 128 then gate_of (int_stub 80) 0xE0 else zero_idt)" if "v < 256" for v
    using i(3)[rule_format, OF that] that by (simp add: m IDT_SIZE_def)
  have "init_idt int_stub irq_stub = Inr (2047, idt)" using i(1) by (simp add: init_idt_def)
  then show ?thesis using i(2) by (auto simp: v off opts)
qed

section \<open>Chains of handlers\<close>

fun irq_chain :: "(nat \<Rightarrow> 'h irq_struct option) \<Rightarrow> nat \<Rightarrow> nat list \<Rightarrow> 'h handler list \<Rightarrow> bool" where
  "irq_chain H a (x # xs) (h # hs) \<longleftrightarrow> x = a \<and>
     (case H a of None \<Rightarrow> False
      | Some n \<Rightarrow> handler n = h \<and> (case irq_next n of None \<Rightarrow> xs = [] \<and> hs = [] | Some q \<Rightarrow> irq_chain H q xs hs))"
| "irq_chain H a xs hs \<longleftrightarrow> False"

lemma irq_chain_Cons:
  "irq_chain H a (x # xs) hs \<longleftrightarrow> x = a \<and> (\<exists>n h gs. hs = h # gs \<and> H a = Some n \<and> handler n = h \<and>
     (irq_next n = None \<and> xs = [] \<and> gs = [] \<or> (\<exists>q. irq_next n = Some q \<and> irq_chain H q xs gs)))"
  by (cases hs) (auto split: option.splits)

lemma irq_chain_frame: "irq_chain H a xs hs \<Longrightarrow> \<forall>x\<in>set xs. H' x = H x \<Longrightarrow> irq_chain H' a xs hs"
  by (induction H a xs hs rule: irq_chain.induct) (auto split: option.splits)

lemma irq_chain_last: "irq_chain (irq_heap s) a xs hs \<Longrightarrow> last_node s a = Some (Inr (last xs))"
proof (induction xs arbitrary: a hs)
  case (Cons x xs)
  obtain n h gs where c: "x = a" "irq_heap s a = Some n"
      "irq_next n = None \<and> xs = [] \<and> gs = [] \<or> (\<exists>q. irq_next n = Some q \<and> irq_chain (irq_heap s) q xs gs)"
    using Cons.prems unfolding irq_chain_Cons by blast
  from c(3) show ?case
  proof
    assume "irq_next n = None \<and> xs = [] \<and> gs = []"
    then show ?thesis using c by (subst last_node.simps) (simp add: irq_node_def)
  next
    assume "\<exists>q. irq_next n = Some q \<and> irq_chain (irq_heap s) q xs gs"
    then obtain q where q: "irq_next n = Some q" "irq_chain (irq_heap s) q xs gs" by blast
    then have "xs \<noteq> []" by auto
    then show ?thesis using c q Cons.IH[OF q(2)] by (subst last_node.simps) (simp add: irq_node_def)
  qed
qed simp

lemma irq_chain_append:
  "irq_chain H a xs hs \<Longrightarrow> distinct xs \<Longrightarrow> new \<notin> set xs \<Longrightarrow> H (last xs) = Some n \<Longrightarrow>
   irq_chain (H(new \<mapsto> \<lparr>handler = h, description = d, irq_next = None\<rparr>, last xs \<mapsto> n\<lparr>irq_next := Some new\<rparr>)) a (xs @ [new]) (hs @ [h])"
proof (induction xs arbitrary: a hs)
  case (Cons x xs)
  obtain m g gs where c: "x = a" "hs = g # gs" "H a = Some m" "handler m = g"
      "irq_next m = None \<and> xs = [] \<and> gs = [] \<or> (\<exists>q. irq_next m = Some q \<and> irq_chain H q xs gs)"
    using Cons.prems(1) unfolding irq_chain_Cons by blast
  from c(5) show ?case
  proof
    assume "irq_next m = None \<and> xs = [] \<and> gs = []"
    then show ?thesis using c Cons.prems by auto
  next
    assume "\<exists>q. irq_next m = Some q \<and> irq_chain H q xs gs"
    then obtain q where q: "irq_next m = Some q" "irq_chain H q xs gs" by blast
    then have ne: "xs \<noteq> []" by auto
    then have "last xs \<in> set xs" by simp
    then have "a \<noteq> last xs" "a \<noteq> new" using Cons.prems(2,3) c(1) by auto
    then show ?thesis using c q ne Cons.IH[OF q(2)] Cons.prems by simp
  qed
qed simp

lemma irq_chain_sub: "irq_chain H a xs hs \<Longrightarrow> xs \<noteq> [] \<and> hd xs = a \<and> length hs = length xs \<and> (\<forall>x\<in>set xs. H x \<noteq> None)"
  by (induction H a xs hs rule: irq_chain.induct) (auto split: option.splits)

text \<open>The handlers of a list, one after the other.\<close>

fun run_handlers :: "('h \<Rightarrow> 'm \<Rightarrow> 'm res option) \<Rightarrow> 'h handler list \<Rightarrow> 'm \<Rightarrow> 'm res option" where
  "run_handlers call [] s = Some (Inr s)"
| "run_handlers call (h # hs) s = bindO (call_handler call h s) (run_handlers call hs)"

definition keeps_handlers :: "('h \<Rightarrow> ('h, 's) machine \<Rightarrow> ('h, 's) machine res option) \<Rightarrow> bool" where
  "keeps_handlers call \<longleftrightarrow> (\<forall>h s s'. call h s = Some (Inr s') \<longrightarrow> irq_heap s' = irq_heap s)"

lemma irq_loop_runs:
  assumes "keeps_handlers call"
  shows "irq_chain (irq_heap s) a xs hs \<Longrightarrow> irq_loop call a s = run_handlers call hs s"
proof (induction xs arbitrary: a hs s)
  case (Cons x xs)
  obtain n h gs where c: "hs = h # gs" "irq_heap s a = Some n" "handler n = h"
      "irq_next n = None \<and> xs = [] \<and> gs = [] \<or> (\<exists>q. irq_next n = Some q \<and> irq_chain (irq_heap s) q xs gs)"
    using Cons.prems unfolding irq_chain_Cons by blast
  have k: "irq_heap s' = irq_heap s" if "call_handler call h s = Some (Inr s')" for s'
    using that assms by (auto simp: call_handler_def keeps_handlers_def split: handler.splits)
  consider "call_handler call h s = None" | e where "call_handler call h s = Some (Inl e)" | s' where "call_handler call h s = Some (Inr s')"
    by (metis old.sum.exhaust option.exhaust)
  then show ?case
  proof cases
    case 3
    have n': "irq_heap s' a = Some n" using k[OF 3] c(2) by simp
    have l: "irq_loop call a s = (case irq_next n of None \<Rightarrow> Some (Inr s') | Some q \<Rightarrow> irq_loop call q s')"
      using c(2,3) 3 n' by (subst irq_loop.simps) (simp add: irq_node_def)
    from c(4) show ?thesis
    proof
      assume "irq_next n = None \<and> xs = [] \<and> gs = []"
      then show ?thesis using l c(1) 3 by simp
    next
      assume "\<exists>q. irq_next n = Some q \<and> irq_chain (irq_heap s) q xs gs"
      then obtain q where q: "irq_next n = Some q" "irq_chain (irq_heap s) q xs gs" by blast
      have "irq_loop call q s' = run_handlers call gs s'" by (rule Cons.IH) (use q(2) k[OF 3] in simp)
      then show ?thesis using l c(1) 3 q(1) by simp
    qed
  qed (use c in \<open>subst irq_loop.simps, simp add: irq_node_def\<close>)+
qed simp

text \<open>The state of the chains: \<open>A\<close> are the addresses of the nodes, \<open>L\<close> the handlers installed on each line, in their order.\<close>

definition handlers_of :: "'h list \<Rightarrow> 'h handler list" where
  "handlers_of hs = (if hs = [] then [Default] else map Handler hs)"

definition irqs_ok :: "('h, 's) machine \<Rightarrow> nat list list \<Rightarrow> 'h list list \<Rightarrow> bool" where
  "irqs_ok s A L \<longleftrightarrow> length (shared_interrupt_handlers s) = 16 \<and> length A = 16 \<and> length L = 16 \<and> distinct (concat A) \<and>
     (\<forall>i<16. irq_chain (irq_heap s) (shared_interrupt_handlers s ! i) (A ! i) (handlers_of (L ! i)))"

lemma distinct_concat_nth:
  "distinct (concat A) \<Longrightarrow> i < j \<Longrightarrow> j < length A \<Longrightarrow> set (A ! i) \<inter> set (A ! j) = {}"
proof (induction A arbitrary: i j)
  case (Cons xs A)
  show ?case
  proof (cases i)
    case 0
    then show ?thesis using Cons.prems by (cases j) fastforce+
  next
    case (Suc k)
    then show ?thesis using Cons.prems Cons.IH[of k "j - 1"] by (cases j) auto
  qed
qed simp

lemma mset_concat_append: "i < length A \<Longrightarrow> mset (concat (A[i := A ! i @ [x]])) = mset (x # concat A)"
proof (induction A arbitrary: i)
  case (Cons xs A)
  then show ?case by (cases i) simp_all
qed simp

lemma distinct_concat_append:
  "distinct (concat A) \<Longrightarrow> i < length A \<Longrightarrow> x \<notin> set (concat A) \<Longrightarrow> distinct (concat (A[i := A ! i @ [x]]))"
  using mset_eq_imp_distinct_iff[OF mset_concat_append[of i A x]] by simp

lemma install_ok:
  assumes "irqs_ok s A L" "unat i < 16" "new \<notin> set (concat A)"
  shows "\<exists>s' A'. irq_install_handler new i (Handler h) d s = Some (Inr (0, s')) \<and>
    irqs_ok s' A' (L[unat i := L ! unat i @ [h]]) \<and> set (concat A') \<subseteq> insert new (set (concat A)) \<and>
    s' = s\<lparr>irq_heap := irq_heap s'\<rparr>"
proof -
  let ?i = "unat i" and ?a = "shared_interrupt_handlers s ! unat i"
  note k = assms(1)[unfolded irqs_ok_def]
  have c: "irq_chain (irq_heap s) ?a (A ! ?i) (handlers_of (L ! ?i))" and l: "?i < length A" "?i < length L" using k assms(2) by auto
  have dj: "set (A ! j) \<inter> set (A ! ?i) = {}" if "j < 16" "j \<noteq> ?i" for j
    using distinct_concat_nth[of A j ?i] distinct_concat_nth[of A ?i j] that k assms(2) by (cases "j < ?i") auto
  have di: "distinct (A ! ?i)" using k l by (auto simp: distinct_concat_iff)
  have new: "new \<notin> set (A ! j)" if "j < 16" for j using assms(3) that k by auto
  obtain n ys g gs where n: "A ! ?i = ?a # ys" "handlers_of (L ! ?i) = g # gs" "irq_heap s ?a = Some n" "handler n = g"
      "irq_next n = None \<and> ys = [] \<and> gs = [] \<or> (\<exists>q. irq_next n = Some q \<and> irq_chain (irq_heap s) q ys gs)"
  proof -
    obtain x ys where x: "A ! ?i = x # ys" using irq_chain_sub[OF c] by (cases "A ! ?i") auto
    then have "irq_chain (irq_heap s) ?a (x # ys) (handlers_of (L ! ?i))" using c by simp
    then show thesis using that x unfolding irq_chain_Cons by blast
  qed
  have get: "get_at (shared_interrupt_handlers s) ?i = Inr ?a" "irq_node s ?a = Inr n" using k assms(2) n(3) by (simp_all add: get_at_def irq_node_def)
  show ?thesis
  proof (cases "L ! ?i = []")
    case True
    then have g: "g = Default" "gs = []" using n(2) by (simp_all add: handlers_of_def)
    then have ys: "ys = []" "irq_next n = None" using n(5) by auto
    let ?s = "s\<lparr>irq_heap := (irq_heap s)(?a \<mapsto> n\<lparr>handler := Handler h\<rparr>)\<rparr>"
    have "irq_install_handler new i (Handler h) d s = Some (Inr (0, ?s))"
      using get n(4) g assms(2) by (simp add: irq_install_handler_def IRQ_NUM_def)
    moreover have "irq_chain (irq_heap ?s) (shared_interrupt_handlers s ! j) (A ! j) (handlers_of (L[?i := L ! ?i @ [h]] ! j))" if "j < 16" for j
    proof (cases "j = ?i")
      case True
      then show ?thesis using ys n(1) l \<open>L ! ?i = []\<close> by (simp add: handlers_of_def)
    next
      case False
      have "irq_chain (irq_heap s) (shared_interrupt_handlers s ! j) (A ! j) (handlers_of (L ! j))" using k that by blast
      then show ?thesis using False dj[OF that False] n(1) by (auto elim!: irq_chain_frame)
    qed
    then have "irqs_ok ?s A (L[?i := L ! ?i @ [h]])" using k by (simp add: irqs_ok_def)
    ultimately show ?thesis by (intro exI[of _ ?s] exI[of _ A]) auto
  next
    case False
    then obtain x where g: "g = Handler x" using n(2) by (cases "L ! ?i") (auto simp: handlers_of_def)
    let ?z = "last (A ! ?i)"
    have z: "?z \<in> set (A ! ?i)" using n(1) by simp
    then obtain m where m: "irq_heap s ?z = Some m" using irq_chain_sub[OF c] by blast
    let ?A = "A[?i := A ! ?i @ [new]]"
    let ?s = "s\<lparr>irq_heap := (irq_heap s)(new \<mapsto> \<lparr>handler = Handler h, description = Some d, irq_next = None\<rparr>, ?z \<mapsto> m\<lparr>irq_next := Some new\<rparr>)\<rparr>"
    have "irq_install_handler new i (Handler h) d s = Some (Inr (0, ?s))"
      using get n(4) g assms(2) irq_chain_last[OF c] m by (simp add: irq_install_handler_def IRQ_NUM_def irq_node_def)
    moreover have "irq_chain (irq_heap ?s) (shared_interrupt_handlers s ! j) (?A ! j) (handlers_of (L[?i := L ! ?i @ [h]] ! j))" if "j < 16" for j
    proof (cases "j = ?i")
      case True
      have "handlers_of (L ! ?i @ [h]) = handlers_of (L ! ?i) @ [Handler h]" using False by (simp add: handlers_of_def)
      then show ?thesis using True l irq_chain_append[OF c di new[OF assms(2)] m] by simp
    next
      case jn: False
      have "irq_chain (irq_heap s) (shared_interrupt_handlers s ! j) (A ! j) (handlers_of (L ! j))" using k that by blast
      then show ?thesis using jn dj[OF that jn] z new[OF that] by (auto elim!: irq_chain_frame)
    qed
    moreover have "distinct (concat ?A)" using distinct_concat_append[OF _ l(1) assms(3)] k by blast
    ultimately have "irqs_ok ?s ?A (L[?i := L ! ?i @ [h]])" using k by (simp add: irqs_ok_def)
    moreover have "set (concat ?A) \<subseteq> insert new (set (concat A))"
      using mset_eq_setD[OF mset_concat_append[OF l(1), of new]] by simp
    ultimately show ?thesis using \<open>irq_install_handler new i (Handler h) d s = Some (Inr (0, ?s))\<close> by (intro exI[of _ ?s] exI[of _ ?A]) auto
  qed
qed

lemma irqs_init_loop_ok:
  "length (shared_interrupt_handlers s) = 16 \<Longrightarrow> i + length new \<le> 16 \<Longrightarrow> distinct new \<Longrightarrow>
   \<exists>s'. irqs_init_loop new i s = Inr s' \<and> length (shared_interrupt_handlers s') = 16 \<and>
     (\<forall>j<length new. shared_interrupt_handlers s' ! (i + j) = new ! j \<and>
        irq_heap s' (new ! j) = Some \<lparr>handler = Default, description = None, irq_next = None\<rparr>) \<and>
     (\<forall>j<i. shared_interrupt_handlers s' ! j = shared_interrupt_handlers s ! j) \<and> (\<forall>a. a \<notin> set new \<longrightarrow> irq_heap s' a = irq_heap s a)"
proof (induction new i s rule: irqs_init_loop.induct)
  case (2 a new i s)
  let ?s = "s\<lparr>irq_heap := (irq_heap s)(a \<mapsto> \<lparr>handler = Default, description = None, irq_next = None\<rparr>),
    shared_interrupt_handlers := (shared_interrupt_handlers s)[i := a]\<rparr>"
  have g: "set_at (shared_interrupt_handlers s) i a = Inr ((shared_interrupt_handlers s)[i := a])" using 2(2,3) by (simp add: set_at_def)
  obtain s' where s': "irqs_init_loop new (Suc i) ?s = Inr s'" "length (shared_interrupt_handlers s') = 16"
      "\<forall>j<length new. shared_interrupt_handlers s' ! (Suc i + j) = new ! j \<and>
        irq_heap s' (new ! j) = Some \<lparr>handler = Default, description = None, irq_next = None\<rparr>"
      "\<forall>j<Suc i. shared_interrupt_handlers s' ! j = shared_interrupt_handlers ?s ! j" "\<forall>a. a \<notin> set new \<longrightarrow> irq_heap s' a = irq_heap ?s a"
    using 2(1)[OF g] 2(2-4) by auto
  have "shared_interrupt_handlers s' ! (i + j) = (a # new) ! j \<and>
        irq_heap s' ((a # new) ! j) = Some \<lparr>handler = Default, description = None, irq_next = None\<rparr>" if "j < length (a # new)" for j
    using that s'(3,4,5) 2(2-4) by (cases j) auto
  moreover have "\<forall>j<i. shared_interrupt_handlers s' ! j = shared_interrupt_handlers s ! j" using s'(4) by auto
  ultimately show ?case using s' g by (intro exI[of _ s']) auto
qed simp

lemma irqs_init_ok:
  assumes "length (shared_interrupt_handlers s) = 16" "length new = 16" "distinct new"
  shows "\<exists>s'. irqs_init new s = Inr s' \<and> irqs_ok s' (map (\<lambda>a. [a]) new) (replicate 16 [])"
proof -
  obtain s' where s': "irqs_init_loop new 0 s = Inr s'" "length (shared_interrupt_handlers s') = 16"
      "\<forall>j<length new. shared_interrupt_handlers s' ! (0 + j) = new ! j \<and>
        irq_heap s' (new ! j) = Some \<lparr>handler = Default, description = None, irq_next = None\<rparr>"
    using irqs_init_loop_ok[of s 0 new] assms by auto
  have "concat (map (\<lambda>a. [a]) new) = new" by (induction new) auto
  then have "irqs_ok s' (map (\<lambda>a. [a]) new) (replicate 16 [])" using s' assms by (auto simp: irqs_ok_def handlers_of_def)
  then show ?thesis using s'(1) assms(2) by (simp add: irqs_init_def IRQ_NUM_def)
qed

text \<open>Handlers installed one after the other: the address of a new node, the line, the handler and its description.\<close>

fun install_all :: "(nat \<times> u32 \<times> 'h \<times> string) list \<Rightarrow> ('h, 's) machine \<Rightarrow> ('h, 's) machine res option" where
  "install_all [] s = Some (Inr s)"
| "install_all ((new, i, h, d) # xs) s = bindO (irq_install_handler new i (Handler h) d s) (\<lambda>(r, s). install_all xs s)"

definition on_line :: "nat \<Rightarrow> (nat \<times> u32 \<times> 'h \<times> string) list \<Rightarrow> 'h list" where
  "on_line l xs = map (\<lambda>(new, i, h, d). h) (filter (\<lambda>(new, i, h, d). unat i = l) xs)"

lemma install_all_ok:
  "irqs_ok s A L \<Longrightarrow> \<forall>(new, i, h, d)\<in>set xs. unat i < 16 \<and> new \<notin> set (concat A) \<Longrightarrow> distinct (map fst xs) \<Longrightarrow>
   \<exists>s' A'. install_all xs s = Some (Inr s') \<and> irqs_ok s' A' (map (\<lambda>l. L ! l @ on_line l xs) [0..<16])"
proof (induction xs s arbitrary: A L rule: install_all.induct)
  case (1 s)
  have "map (\<lambda>l. L ! l @ on_line l []) [0..<16] = L"
    using 1 by (intro nth_equalityI) (simp_all add: irqs_ok_def on_line_def del: upt_rec_numeral)
  then show ?case using 1 by auto
next
  case (2 new i h d xs s)
  have i: "unat i < 16" "new \<notin> set (concat A)" using 2(3) by auto
  obtain s1 A1 where s1: "irq_install_handler new i (Handler h) d s = Some (Inr (0, s1))" "irqs_ok s1 A1 (L[unat i := L ! unat i @ [h]])"
      "set (concat A1) \<subseteq> insert new (set (concat A))"
    using install_ok[OF 2(2) i] by blast
  have "\<forall>(new', i, h, d)\<in>set xs. unat i < 16 \<and> new' \<notin> set (concat A1)"
  proof clarify
    fix a j h' d'
    assume x: "(a, j, h', d') \<in> set xs"
    then have "a \<in> fst ` set xs" by force
    then have "a \<noteq> new" using 2(4) by auto
    moreover have "unat j < 16" "a \<notin> set (concat A)" using 2(3) x by auto
    ultimately show "unat j < 16 \<and> a \<notin> set (concat A1)" using s1(3) by blast
  qed
  then obtain s' A' where s': "install_all xs s1 = Some (Inr s')"
      "irqs_ok s' A' (map (\<lambda>l. L[unat i := L ! unat i @ [h]] ! l @ on_line l xs) [0..<16])"
    using 2(1)[OF s1(2)] 2(4) by auto
  have "length L = 16" using 2(2) by (simp add: irqs_ok_def)
  then have eq: "map (\<lambda>l. L[unat i := L ! unat i @ [h]] ! l @ on_line l xs) [0..<16] = map (\<lambda>l. L ! l @ on_line l ((new, i, h, d) # xs)) [0..<16]"
    using i(1) by (intro map_cong) (auto simp: nth_list_update on_line_def simp del: upt_rec_numeral)
  have "install_all ((new, i, h, d) # xs) s = Some (Inr s')" using s1(1) s'(1) by simp
  then show ?case using s'(2) unfolding eq by blast
qed

lemma send_eoi_eq:
  assumes "l < 16"
  shows "pic8259_send_eoi (of_nat l) s = s\<lparr>written := written s @ (if l < 8 then [(0x20, 0x20)] else [(0xA0, 0x20), (0x20, 0x20)])\<rparr>"
proof -
  have "8 \<le> (of_nat l :: u32) \<longleftrightarrow> \<not> l < 8" using assms by (simp add: word_le_nat_alt unat_of_nat not_less)
  then show ?thesis by (simp add: pic8259_send_eoi_def outportb_def EOI_def MASTER_PORT_COMMAND_def SLAVE_PORT_COMMAND_def)
qed

text \<open>
  C29. After the initialisation and any number of installations, an interrupt on a line runs the handlers installed on it, all of them and in the
  order of their installation, and then acknowledges the interrupt, at the slave controller first for the lines it serves. On a line without
  a handler the kernel stops.
\<close>

theorem interrupt_runs_handlers:
  assumes "length (shared_interrupt_handlers s) = 16" "length new = 16" "distinct (new @ map fst xs)"
    and "\<forall>(a, i, h, d)\<in>set xs. unat i < 16" "keeps_handlers call" "l < 16"
  shows "\<exists>s0 s1. irqs_init new s = Inr s0 \<and> install_all xs s0 = Some (Inr s1) \<and>
    (\<forall>s2. irq_heap s2 = irq_heap s1 \<and> shared_interrupt_handlers s2 = shared_interrupt_handlers s1 \<longrightarrow>
      irq_handler call (32 + of_nat l) s2 =
        (if on_line l xs = [] then None
         else bindO (run_handlers call (map Handler (on_line l xs)) s2) (\<lambda>s. Some (Inr (s\<lparr>written := written s @
           (if l < 8 then [(0x20, 0x20)] else [(0xA0, 0x20), (0x20, 0x20)])\<rparr>)))))"
proof -
  have d: "distinct new" "distinct (map fst xs)" "set new \<inter> fst ` set xs = {}" using assms(3) by auto
  obtain s0 where s0: "irqs_init new s = Inr s0" "irqs_ok s0 (map (\<lambda>a. [a]) new) (replicate 16 [])"
    using irqs_init_ok[OF assms(1,2) d(1)] by blast
  have "\<forall>(a, i, h, d)\<in>set xs. unat i < 16 \<and> a \<notin> set (concat (map (\<lambda>a. [a]) new))"
  proof clarify
    fix a j h' d'
    assume x: "(a, j, h', d') \<in> set xs"
    then have "a \<in> fst ` set xs" by force
    then have "a \<notin> set new" using d(3) by blast
    then show "unat j < 16 \<and> a \<notin> set (concat (map (\<lambda>a. [a]) new))" using assms(4) x by auto
  qed
  from install_all_ok[OF s0(2) this d(2)] obtain s1 A1 where s1: "install_all xs s0 = Some (Inr s1)"
      "irqs_ok s1 A1 (map (\<lambda>l. replicate 16 [] ! l @ on_line l xs) [0..<16])" by blast
  have c: "irq_chain (irq_heap s1) (shared_interrupt_handlers s1 ! l) (A1 ! l) (handlers_of (on_line l xs))" "length (shared_interrupt_handlers s1) = 16"
    using s1(2) assms(6) by (simp_all add: irqs_ok_def del: upt_rec_numeral)
  have u: "unat (32 + of_nat l - 32 :: u32) = l" "(32 + of_nat l - 32 :: u32) = of_nat l" using assms(6) by (simp_all add: unat_of_nat)
  have w: "unat (of_nat l :: u32) = l" using assms(6) by (simp add: unat_of_nat)
  have "irq_handler call (32 + of_nat l) s2 =
        (if on_line l xs = [] then None
         else bindO (run_handlers call (map Handler (on_line l xs)) s2) (\<lambda>s. Some (Inr (s\<lparr>written := written s @
           (if l < 8 then [(0x20, 0x20)] else [(0xA0, 0x20), (0x20, 0x20)])\<rparr>))))"
    if s2: "irq_heap s2 = irq_heap s1" "shared_interrupt_handlers s2 = shared_interrupt_handlers s1" for s2
  proof -
    have "irq_loop call (shared_interrupt_handlers s1 ! l) s2 = run_handlers call (handlers_of (on_line l xs)) s2"
      by (rule irq_loop_runs[OF assms(5)]) (use c(1) s2 in simp)
    moreover have "get_at (shared_interrupt_handlers s2) l = Inr (shared_interrupt_handlers s1 ! l)" using c(2) s2 assms(6) by (simp add: get_at_def)
    ultimately show ?thesis unfolding irq_handler_def Let_def u by (auto simp: handlers_of_def call_handler_def w send_eoi_eq[OF assms(6)])
  qed
  then show ?thesis using s0(1) s1(1) by blast
qed

theorem interrupt_runs_handlers_witness:
  "\<exists>s0 s1. irqs_init [0..<16] \<lparr>isr_routines = [], isr_routines_description = [], shared_interrupt_handlers = replicate 16 0, irq_heap = (\<lambda>a. None),
       master_cur_mask = 0, slave_cur_mask = 0, written = [], dev = []\<rparr> = Inr s0 \<and>
     install_all [(100, 0, 7, ''timer''), (101, 1, 9, ''keyboard''), (102, 0, 8 :: nat, '''')] s0 = Some (Inr s1) \<and>
     irq_handler (\<lambda>h s. Some (Inr (s\<lparr>dev := dev s @ [h]\<rparr>))) 32 s1 = Some (Inr (s1\<lparr>dev := dev s1 @ [7, 8], written := written s1 @ [(32, 32)]\<rparr>))"
proof -
  have k: "keeps_handlers (\<lambda>(h :: nat) s. Some (Inr (s\<lparr>dev := dev s @ [h]\<rparr>)))" by (simp add: keeps_handlers_def)
  have o: "on_line 0 [(100 :: nat, 0, 7 :: nat, ''timer''), (101, 1, 9, ''keyboard''), (102, 0, 8, '''')] = [7, 8]" by (simp add: on_line_def)
  show ?thesis
    using interrupt_runs_handlers[of "\<lparr>isr_routines = [], isr_routines_description = [], shared_interrupt_handlers = replicate 16 0, irq_heap = (\<lambda>a. None),
        master_cur_mask = 0, slave_cur_mask = 0, written = [], dev = []\<rparr>" "[0..<16]"
        "[(100, 0, 7, ''timer''), (101, 1, 9, ''keyboard''), (102, 0, 8, '''')]" "\<lambda>h s. Some (Inr (s\<lparr>dev := dev s @ [h]\<rparr>))" 0, OF _ _ _ _ k]
    unfolding o by (auto simp: call_handler_def simp del: upt_rec_numeral)
qed

text \<open>The test of the line in \<open>irq_install_handler\<close> lets the number 16 pass, one behind the table.\<close>

lemma install_behind_table:
  assumes "length (shared_interrupt_handlers s) = 16"
  shows "irq_install_handler new 16 h d s = Some (Inl OutOfBounds)"
  using assms by (simp add: irq_install_handler_def IRQ_NUM_def get_at_def)

section \<open>The masks of the controller\<close>

text \<open>The last byte written to a port.\<close>

definition last_write :: "u16 \<Rightarrow> (u16 \<times> u8) list \<Rightarrow> u8 option" where
  "last_write p log = (case rev (filter (\<lambda>(q, v). q = p) log) of [] \<Rightarrow> None | (q, v) # _ \<Rightarrow> Some v)"

lemma last_write_snoc [simp]: "last_write p (log @ [(q, v)]) = (if q = p then Some v else last_write p log)"
  by (simp add: last_write_def)

text \<open>
  What the controller promises: once it has been given the initialisation words, the data port returns the mask written last, as long as no
  new initialisation is started (a byte with bit 4 to the command port).
\<close>

definition no_init :: "(u16 \<times> u8) list \<Rightarrow> bool" where
  "no_init log \<longleftrightarrow> list_all (\<lambda>(p, v). p \<notin> {0x20, 0xA0} \<or> \<not> bit v 4) log"

definition returns_masks :: "inport \<Rightarrow> bool" where
  "returns_masks inb \<longleftrightarrow> (\<forall>pre more p v. p \<in> {0x21, 0xA1} \<and> no_init more \<and> last_write p more = Some v \<longrightarrow> inb (pre @ icw @ more) p = v)"

definition masks_ok :: "('h, 's) machine \<Rightarrow> nat set \<Rightarrow> bool" where
  "masks_ok s E \<longleftrightarrow> (\<exists>pre more m1 m2. written s = pre @ icw @ more \<and> no_init more \<and> last_write 0x21 more = Some m1 \<and> last_write 0xA1 more = Some m2 \<and>
     (\<forall>i<8. (bit m1 i \<longleftrightarrow> i \<notin> E) \<and> (bit m2 i \<longleftrightarrow> i + 8 \<notin> E)))"

lemmas pic_ports = MASTER_PORT_DATA_def SLAVE_PORT_DATA_def MASTER_PORT_COMMAND_def SLAVE_PORT_COMMAND_def EOI_def

lemma masks_other:
  assumes "masks_ok s E" "written s' = written s @ log" "list_all (\<lambda>(p, v). p \<notin> {0x21, 0xA1} \<and> (p \<notin> {0x20, 0xA0} \<or> \<not> bit v 4)) log"
  shows "masks_ok s' E"
proof -
  obtain pre more m1 m2 where m: "written s = pre @ icw @ more" "no_init more" "last_write 0x21 more = Some m1" "last_write 0xA1 more = Some m2"
      "\<forall>i<8. (bit m1 i \<longleftrightarrow> i \<notin> E) \<and> (bit m2 i \<longleftrightarrow> i + 8 \<notin> E)" using assms(1) unfolding masks_ok_def by blast
  have f: "filter (\<lambda>(q, v). q = p) log = []" if "p \<in> {0x21, 0xA1}" for p using assms(3) that by (auto simp: filter_empty_conv list_all_iff)
  have "last_write 0x21 (more @ log) = Some m1" "last_write 0xA1 (more @ log) = Some m2" using m(3,4) f by (simp_all add: last_write_def)
  moreover have "no_init (more @ log)" using m(2) assms(3) by (auto simp: no_init_def list_all_iff)
  ultimately show ?thesis using m assms(2) unfolding masks_ok_def by (intro exI[of _ pre] exI[of _ "more @ log"]) auto
qed

lemma bit_line: "bit (2 ^ k :: u8) i \<longleftrightarrow> i = k \<and> k < 8"
  by (auto simp: bit_simps)

lemma and_255: "and x 0xFF = x" for x :: u8
  by (rule bit_word_eqI) (auto simp: bit_simps bits_low)

lemma masks_read:
  assumes "returns_masks inb" "masks_ok s E" "i < 8"
  shows "bit (inb (written s) 0x21) i \<longleftrightarrow> i \<notin> E" "bit (inb (written s) 0xA1) i \<longleftrightarrow> i + 8 \<notin> E"
proof -
  obtain pre more m1 m2 where m: "written s = pre @ icw @ more" "no_init more" "last_write 0x21 more = Some m1" "last_write 0xA1 more = Some m2"
      "\<forall>i<8. (bit m1 i \<longleftrightarrow> i \<notin> E) \<and> (bit m2 i \<longleftrightarrow> i + 8 \<notin> E)" using assms(2) unfolding masks_ok_def by blast
  have "inb (written s) 0x21 = m1" "inb (written s) 0xA1 = m2" using assms(1) m(1-4) unfolding returns_masks_def by auto
  then show "bit (inb (written s) 0x21) i \<longleftrightarrow> i \<notin> E" "bit (inb (written s) 0xA1) i \<longleftrightarrow> i + 8 \<notin> E" using m(5) assms(3) by auto
qed

lemma masks_write:
  assumes "masks_ok s E" "written s' = written s @ [(if master then 0x21 else 0xA1, v)]"
    and "\<And>i. i < 8 \<Longrightarrow> bit v i \<longleftrightarrow> (if master then i else i + 8) \<notin> E'"
    and "\<And>i. i < 8 \<Longrightarrow> (if master then i + 8 else i) \<in> E' \<longleftrightarrow> (if master then i + 8 else i) \<in> E"
  shows "masks_ok s' E'"
proof -
  obtain pre more m1 m2 where m: "written s = pre @ icw @ more" "no_init more" "last_write 0x21 more = Some m1" "last_write 0xA1 more = Some m2"
      "\<forall>i<8. (bit m1 i \<longleftrightarrow> i \<notin> E) \<and> (bit m2 i \<longleftrightarrow> i + 8 \<notin> E)" using assms(1) unfolding masks_ok_def by blast
  let ?more = "more @ [(if master then 0x21 else 0xA1, v)]"
  have "written s' = pre @ icw @ ?more" "no_init ?more" using m(1,2) assms(2) by (simp_all add: no_init_def)
  moreover have "last_write 0x21 ?more = Some (if master then v else m1)" "last_write 0xA1 ?more = Some (if master then m2 else v)"
    using m(3,4) by simp_all
  moreover have "\<forall>i<8. (bit (if master then v else m1) i \<longleftrightarrow> i \<notin> E') \<and> (bit (if master then m2 else v) i \<longleftrightarrow> i + 8 \<notin> E')"
    using m(5) assms(3,4) by (cases master) auto
  ultimately show ?thesis unfolding masks_ok_def by blast
qed

lemma line_cases:
  fixes irq :: u32
  obtains "16 \<le> unat irq" | "unat irq < 8" "irq < 8" | "8 \<le> unat irq" "unat irq < 16" "\<not> irq < 8" "unat (irq - 8) = unat irq - 8"
  by (cases "unat irq < 8"; cases "unat irq < 16") (auto simp: word_less_nat_alt unat_sub word_le_nat_alt not_less)

lemma enable_ok:
  assumes "returns_masks inb" "masks_ok s E"
  shows "masks_ok (snd (pic8259_irq_enable inb irq s)) (if unat irq < 16 then insert (unat irq) E else E)"
proof (cases irq rule: line_cases)
  case 1
  then show ?thesis using assms(2) by (simp add: pic8259_irq_enable_def IRQ_NUM_def)
next
  case 2
  show ?thesis
    by (rule masks_write[OF assms(2), of _ True "and (not (push_bit (unat irq) 1)) (inb (written s) 0x21)"])
      (use 2 masks_read[OF assms] in \<open>auto simp: pic8259_irq_enable_def IRQ_NUM_def Let_def outportb_def pic_ports bit_and_iff bit_not_iff bit_line\<close>)
next
  case 3
  show ?thesis
    by (rule masks_write[OF assms(2), of _ False "and (not (push_bit (unat irq - 8) 1)) (inb (written s) 0xA1)"])
      (use 3 masks_read[OF assms] in \<open>auto simp: pic8259_irq_enable_def IRQ_NUM_def Let_def outportb_def pic_ports bit_and_iff bit_not_iff bit_line\<close>)
qed

lemma disable_ok:
  assumes "returns_masks inb" "masks_ok s E"
  shows "masks_ok (snd (pic8259_irq_disable inb irq s)) (if unat irq < 16 then E - {unat irq} else E)"
proof (cases irq rule: line_cases)
  case 1
  then show ?thesis using assms(2) by (simp add: pic8259_irq_disable_def IRQ_NUM_def)
next
  case 2
  show ?thesis
    by (rule masks_write[OF assms(2), of _ True "or (inb (written s) 0x21) (push_bit (unat irq) 1)"])
      (use 2 masks_read[OF assms] in \<open>auto simp: pic8259_irq_disable_def IRQ_NUM_def Let_def outportb_def pic_ports bit_or_iff bit_line and_255\<close>)
next
  case 3
  show ?thesis
    by (rule masks_write[OF assms(2), of _ False "or (inb (written s) 0xA1) (push_bit (unat irq - 8) 1)"])
      (use 3 masks_read[OF assms] in \<open>auto simp: pic8259_irq_disable_def IRQ_NUM_def Let_def outportb_def pic_ports bit_or_iff bit_line and_255\<close>)
qed

lemma init_ok:
  assumes "returns_masks inb"
  shows "masks_ok (pic8259_init_irq inb s) {2}"
proof -
  let ?s = "s\<lparr>master_cur_mask := 0xFF, slave_cur_mask := 0xFF, written := written s @ icw @ [(0x21, 0xFF), (0xA1, 0xFF)]\<rparr>"
  have "masks_ok ?s {}" unfolding masks_ok_def
    by (intro exI[of _ "written s"] exI[of _ "[(0x21, 0xFF), (0xA1, 0xFF)]"] exI[of _ "0xFF"]) (auto simp: no_init_def last_write_def bits_low)
  from enable_ok[OF assms this, of 2] have "masks_ok (snd (pic8259_irq_enable inb 2 ?s)) {2}" by simp
  moreover have "written (pic8259_init_irq inb s) = written (snd (pic8259_irq_enable inb 2 ?s)) @ [(0xFF, 0x21), (0xFF, 0xA1)]"
    by (simp add: pic8259_init_irq_def Let_def outportb_def pic_ports IRQ_TO_SLAVE_PIC_def)
  ultimately show ?thesis by (rule masks_other) simp
qed

text \<open>The calls of a driver: a line is enabled, disabled or acknowledged.\<close>

datatype pic_op = Enable u32 | Disable u32 | Acknowledge u32

fun pic_ops :: "inport \<Rightarrow> pic_op list \<Rightarrow> ('h, 's) machine \<Rightarrow> ('h, 's) machine" where
  "pic_ops inb [] s = s"
| "pic_ops inb (Enable l # ops) s = pic_ops inb ops (snd (pic8259_irq_enable inb l s))"
| "pic_ops inb (Disable l # ops) s = pic_ops inb ops (snd (pic8259_irq_disable inb l s))"
| "pic_ops inb (Acknowledge l # ops) s = pic_ops inb ops (pic8259_send_eoi l s)"

fun enabled_lines :: "pic_op list \<Rightarrow> nat set \<Rightarrow> nat set" where
  "enabled_lines [] E = E"
| "enabled_lines (Enable l # ops) E = enabled_lines ops (if unat l < 16 then insert (unat l) E else E)"
| "enabled_lines (Disable l # ops) E = enabled_lines ops (if unat l < 16 then E - {unat l} else E)"
| "enabled_lines (Acknowledge l # ops) E = enabled_lines ops E"

lemma eoi_ok: "masks_ok s E \<Longrightarrow> masks_ok (pic8259_send_eoi l s) E"
  by (erule masks_other[where log = "if l \<ge> 8 then [(0xA0, 0x20), (0x20, 0x20)] else [(0x20, 0x20)]"])
    (auto simp: pic8259_send_eoi_def outportb_def pic_ports bit_simps)

lemma pic_ops_ok: "returns_masks inb \<Longrightarrow> masks_ok s E \<Longrightarrow> masks_ok (pic_ops inb ops s) (enabled_lines ops E)"
  by (induction inb ops s arbitrary: E rule: pic_ops.induct) (auto simp: enable_ok disable_ok eoi_ok)

text \<open>
  C30. After the initialisation and any sequence of calls, the masks that the two controllers were given last have the bits of exactly the lines
  that are not enabled: the line of the slave controller and those enabled and not disabled since; a call with a number behind the last
  line changes nothing and fails.
\<close>

theorem masks_follow_calls:
  assumes "returns_masks inb" "l < 16" "16 \<le> unat n"
  shows "let s' = pic_ops inb ops (pic8259_init_irq inb s) in
      (\<exists>m. last_write (if l < 8 then 0x21 else 0xA1) (written s') = Some m \<and> (bit m (l mod 8) \<longleftrightarrow> l \<notin> enabled_lines ops {2})) \<and>
      pic8259_irq_enable inb n s' = (-1, s') \<and> pic8259_irq_disable inb n s' = (-1, s')"
proof -
  define s' where "s' = pic_ops inb ops (pic8259_init_irq inb s)"
  obtain pre more m1 m2 where m: "written s' = pre @ icw @ more" "no_init more" "last_write 0x21 more = Some m1" "last_write 0xA1 more = Some m2"
      "\<forall>i<8. (bit m1 i \<longleftrightarrow> i \<notin> enabled_lines ops {2}) \<and> (bit m2 i \<longleftrightarrow> i + 8 \<notin> enabled_lines ops {2})"
    using pic_ops_ok[OF assms(1) init_ok[OF assms(1)], of ops s] unfolding s'_def masks_ok_def by blast
  have "last_write p (pre @ icw @ more) = Some v" if "last_write p more = Some v" for p v
    using that by (auto simp: last_write_def split: list.splits)
  then have w: "last_write 0x21 (written s') = Some m1" "last_write 0xA1 (written s') = Some m2" using m(1,3,4) by simp_all
  have l: "\<not> l < 8 \<Longrightarrow> l = l mod 8 + 8" using assms(2) by (auto simp: mod_if)
  have "\<exists>m. last_write (if l < 8 then 0x21 else 0xA1) (written s') = Some m \<and> (bit m (l mod 8) \<longleftrightarrow> l \<notin> enabled_lines ops {2})"
  proof (cases "l < 8")
    case True
    then show ?thesis using w(1) m(5) by auto
  next
    case False
    then show ?thesis using w(2) m(5)[rule_format, of "l mod 8"] l by auto
  qed
  then show ?thesis
    using assms(3) unfolding s'_def[symmetric] Let_def by (simp add: pic8259_irq_enable_def pic8259_irq_disable_def IRQ_NUM_def)
qed

text \<open>A controller that returns what was written last keeps the promise.\<close>

theorem masks_follow_calls_witness:
  "let inb = (\<lambda>log p. case last_write p log of None \<Rightarrow> 0 | Some v \<Rightarrow> v);
       s' = pic_ops inb [Enable 0, Enable 14, Disable 0, Acknowledge 14] (pic8259_init_irq inb
         \<lparr>isr_routines = [], isr_routines_description = [], shared_interrupt_handlers = [], irq_heap = (\<lambda>a. None :: nat irq_struct option),
           master_cur_mask = 0, slave_cur_mask = 0, written = [], dev = ()\<rparr>) in
     \<exists>m. last_write 0xA1 (written s') = Some m \<and> \<not> bit m 6"
proof -
  let ?inb = "\<lambda>log p. case last_write p log of None \<Rightarrow> 0 | Some v \<Rightarrow> v"
  have "last_write p (pre @ icw @ more) = Some v" if "last_write p more = Some v" for p v pre more
    using that by (auto simp: last_write_def split: list.splits)
  then have "returns_masks ?inb" unfolding returns_masks_def by simp
  from masks_follow_calls[OF this, of 14 16 "[Enable 0, Enable 14, Disable 0, Acknowledge 14]"
      "\<lparr>isr_routines = [], isr_routines_description = [], shared_interrupt_handlers = [], irq_heap = (\<lambda>a. None :: nat irq_struct option),
           master_cur_mask = 0, slave_cur_mask = 0, written = [], dev = ()\<rparr>"]
  show ?thesis unfolding Let_def by auto
qed

end
