(* ===== verification/Traps.thy ===== *)
theory Traps
  imports Interrupts_Correct
begin

text \<open>
  The two ways into the scheduler: the timer interrupt (\<open>hardware/timer.c\<close>) and the system calls (\<open>system/syscall.c\<close>). The routine behind a system call
  is a parameter: it changes the state, may fault and need not return; \<open>kernel_schedule\<close> is the one of \<open>Scheduler\<close>. The registers are those
  that the entry stub pushed, which the scheduler exchanges.
\<close>

record cpu =
  krn :: kernel
  regs :: pt_regs
  timer_subticks :: u64
  timer_ticks :: u64

section \<open>The timer\<close>

definition SUBTICKS_PER_TICK :: u32 where "SUBTICKS_PER_TICK = 1000"
definition PIT_DATAREG0 :: u16 where "PIT_DATAREG0 = 0x40"
definition PIT_COMREG :: u16 where "PIT_COMREG = 0x43"
definition PIT_DIVISOR :: u32 where "PIT_DIVISOR = 1193180"
definition PIT_CONFIGURATION :: u8 where "PIT_CONFIGURATION = 0x36"
definition PIT_MASK :: u32 where "PIT_MASK = 0xFF"

definition timer_phase :: "u32 \<Rightarrow> ('h, 's) machine \<Rightarrow> ('h, 's) machine res" where
  "timer_phase hz s =
     (if hz = 0 then Inl DivZero
      else let divisor = PIT_DIVISOR div hz in
           Inr (outportb PIT_DATAREG0 (ucast (and (drop_bit 8 divisor) PIT_MASK))
               (outportb PIT_DATAREG0 (ucast (and divisor PIT_MASK))
               (outportb PIT_COMREG PIT_CONFIGURATION s))))"

text \<open>\<open>now\<close> is the time the scheduler reads.\<close>

definition timer_handler :: "u32 \<Rightarrow> ('h, cpu) machine \<Rightarrow> ('h, cpu) machine res" where
  "timer_handler now s =
     (let d = (dev s)\<lparr>timer_subticks := timer_subticks (dev s) + 1\<rparr>;
          d = (if timer_subticks d mod ucast SUBTICKS_PER_TICK = 0 then d\<lparr>timer_ticks := timer_ticks d + 1\<rparr> else d) in
      bindR (kernel_schedule now (regs d) (krn d)) (\<lambda>(k, f).
      Inr (pic8259_send_eoi IRQ_TIMER (s\<lparr>dev := d\<lparr>krn := k, regs := f\<rparr>\<rparr>))))"

definition timer_install :: "inport \<Rightarrow> nat \<Rightarrow> 'h \<Rightarrow> ('h, 's) machine \<Rightarrow> ('h, 's) machine res option" where
  "timer_install inb new h s =
     bindO (Some (timer_phase SUBTICKS_PER_TICK s)) (\<lambda>s.
     bindO (irq_install_handler new IRQ_TIMER (Handler h) ''timer'' s) (\<lambda>(r, s).
     Some (Inr (snd (pic8259_irq_enable inb IRQ_TIMER s)))))"

definition timer_get_ticks :: "cpu \<Rightarrow> u64" where "timer_get_ticks d = timer_ticks d"
definition timer_get_subticks :: "cpu \<Rightarrow> u64" where "timer_get_subticks d = timer_subticks d"

text \<open>The values of the counter at the reads of the loop; the rest of them when the loop ends, \<open>None\<close> when it has not ended.\<close>

fun sleep_loop :: "u32 \<Rightarrow> u64 list \<Rightarrow> u64 list option" where
  "sleep_loop future_time [] = None"
| "sleep_loop future_time (t # ts) = (if t \<le> ucast future_time then sleep_loop future_time ts else Some ts)"

fun sleep :: "u32 \<Rightarrow> u64 list \<Rightarrow> u64 list option" where
  "sleep seconds [] = None"
| "sleep seconds (t # ts) = sleep_loop (ucast (t + ucast seconds)) ts"

section \<open>System calls\<close>

datatype syscall =
  Sys_ni | Sys_exit | Sys_read | Sys_write | Sys_open | Sys_close | Sys_stat | Sys_mkdir | Sys_readdir | Sys_getpid | Sys_getppid | Sys_vfork | Sys_execve
| Sys_nice | Sys_reboot | Sys_waitpid | Sys_chdir | Sys_getcwd | Umalloc | Ufree | Sys_sem_create | Sys_sem_destroy | Sys_sem_init | Sys_sem_try_acquire
| Sys_sem_release

definition SYSCALL_NUMBER :: nat where "SYSCALL_NUMBER = 195"
definition ENOSYS :: u32 where "ENOSYS = 38"
definition NR_execve :: nat where "NR_execve = 11"
definition NR_clone :: nat where "NR_clone = 120"
definition NR_vfork :: nat where "NR_vfork = 188"

text \<open>The numbers of the calls that are entered, in the order of the assignments.\<close>

definition syscall_entries :: "(nat \<times> syscall) list" where
  "syscall_entries =
     [(1, Sys_exit), (3, Sys_read), (4, Sys_write), (5, Sys_open), (6, Sys_close), (18, Sys_stat), (39, Sys_mkdir), (89, Sys_readdir), (20, Sys_getpid),
      (64, Sys_getppid), (NR_vfork, Sys_vfork), (NR_execve, Sys_execve), (34, Sys_nice), (88, Sys_reboot), (7, Sys_waitpid), (12, Sys_chdir),
      (183, Sys_getcwd), (45, Umalloc), (189, Ufree), (190, Sys_sem_create), (191, Sys_sem_destroy), (192, Sys_sem_init),
      (193, Sys_sem_try_acquire), (194, Sys_sem_release)]"

definition sys_call_table :: "syscall list" where
  "sys_call_table = foldl (\<lambda>tab (n, c). tab[n := c]) (replicate SYSCALL_NUMBER Sys_ni) syscall_entries"

text \<open>A call gets five arguments; \<open>sys_ni_syscall\<close> returns \<open>ENOSYS\<close>.\<close>

definition call_syscall :: "(syscall \<Rightarrow> u32 list \<Rightarrow> cpu \<Rightarrow> (u32 \<times> cpu) res option) \<Rightarrow> syscall \<Rightarrow> u32 list \<Rightarrow> cpu \<Rightarrow> (u32 \<times> cpu) res option" where
  "call_syscall func c args d = (if c = Sys_ni then Some (Inr (ENOSYS, d)) else func c args d)"

text \<open>\<open>frame\<close> is the address of the saved registers.\<close>

definition syscall_handler :: "(syscall \<Rightarrow> u32 list \<Rightarrow> cpu \<Rightarrow> (u32 \<times> cpu) res option) \<Rightarrow> u32 \<Rightarrow> u32 \<Rightarrow> cpu \<Rightarrow> cpu res option" where
  "syscall_handler func frame now d =
     (let f = regs d; sc_index = unat (r_eax f) in
      bindO (if sc_index \<ge> SYSCALL_NUMBER then Some (Inr (ENOSYS, d))
             else
               bindO (Some (get_at sys_call_table sc_index)) (\<lambda>c.
               let arg0 = (if sc_index = NR_vfork \<or> sc_index = NR_clone then frame else if sc_index = NR_execve then frame else r_ebx f)
               in call_syscall func c [arg0, r_ecx f, r_edx f, r_esi f, r_edi f] d))
        (\<lambda>(ret, d).
         let f = (regs d)\<lparr>r_eax := ret\<rparr> in
         Some (bindR (kernel_schedule now f (krn d)) (\<lambda>(k, f). Inr (d\<lparr>krn := k, regs := f\<rparr>)))))"

section \<open>Ticks\<close>

text \<open>The bytes written to the timer make up the divisor, when it fits into 16 bits: at 19 interrupts a second and more.\<close>

lemma phase_divisor:
  assumes "19 \<le> hz"
  shows "\<exists>lo hi. timer_phase hz s = Inr (s\<lparr>written := written s @ [(0x43, 0x36), (0x40, lo), (0x40, hi)]\<rparr>) \<and>
    or (ucast lo) (push_bit 8 (ucast hi)) = 1193180 div hz"
proof -
  let ?d = "1193180 div hz" and ?lo = "ucast (and (1193180 div hz) 0xFF) :: u8" and ?hi = "ucast (and (drop_bit 8 (1193180 div hz)) 0xFF) :: u8"
  have "19 \<le> unat hz" using assms by (simp add: word_le_nat_alt)
  then have "1193180 div unat hz \<le> 1193180 div 19" by (intro div_le_mono2) simp_all
  then have "unat ?d \<le> 1193180 div 19" by (simp add: unat_div)
  then have d: "unat ?d < 2 ^ 16" by simp
  have "timer_phase hz s = Inr (s\<lparr>written := written s @ [(0x43, 0x36), (0x40, ?lo), (0x40, ?hi)]\<rparr>)"
    using assms by (auto simp: timer_phase_def Let_def outportb_def PIT_DATAREG0_def PIT_COMREG_def PIT_CONFIGURATION_def PIT_DIVISOR_def PIT_MASK_def)
  moreover have "or (ucast ?lo) (push_bit 8 (ucast ?hi)) = ?d"
  proof (rule bit_word_eqI)
    fix n
    assume "n < LENGTH(32)"
    have "\<not> bit ?d n" if "16 \<le> n"
    proof -
      have "?d = take_bit 16 ?d" by (rule word_unat_eq_iff[THEN iffD2]) (use d in \<open>simp add: unsigned_take_bit_eq take_bit_nat_eq_self\<close>)
      then show ?thesis using that by (metis bit_take_bit_iff leD)
    qed
    then show "bit (or (ucast ?lo) (push_bit 8 (ucast ?hi)) :: u32) n \<longleftrightarrow> bit ?d n"
      by (cases "n < 8"; cases "n < 16") (auto simp: bit_simps bits_low)
  qed
  ultimately show ?thesis by blast
qed

lemma ticks_are_seconds:
  assumes "timer_handler now s = Inr s'" "unat (timer_ticks (dev s)) = unat (timer_subticks (dev s)) div 1000"
    and "unat (timer_subticks (dev s)) + 1 < 2 ^ 64"
  shows "unat (timer_subticks (dev s')) = unat (timer_subticks (dev s)) + 1 \<and>
    unat (timer_ticks (dev s')) = unat (timer_subticks (dev s')) div 1000"
proof -
  let ?n = "unat (timer_subticks (dev s))"
  have dv: "timer_subticks (dev s') = timer_subticks (dev s) + 1 \<and>
      timer_ticks (dev s') = (if (timer_subticks (dev s) + 1) mod 1000 = 0 then timer_ticks (dev s) + 1 else timer_ticks (dev s))"
    using assms(1) by (auto simp: timer_handler_def Let_def SUBTICKS_PER_TICK_def pic8259_send_eoi_def outportb_def split: prod.splits if_splits)
  have n: "unat (timer_subticks (dev s) + 1) = ?n + 1" using assms(3) by (simp add: unat_add_lem[THEN iffD1])
  have "(timer_subticks (dev s) + 1) mod 1000 = 0 \<longleftrightarrow> (?n + 1) mod 1000 = 0"
    by (simp add: unat_eq_0[symmetric] unat_mod n)
  moreover have "unat (timer_ticks (dev s) + 1) = unat (timer_ticks (dev s)) + 1"
  proof -
    have "unat (timer_ticks (dev s)) + unat (1 :: u64) < 2 ^ LENGTH(64)" using assms(2,3) by simp
    then show ?thesis by (simp add: unat_add_lem[THEN iffD1])
  qed
  moreover have "(?n + 1) div 1000 = (if (?n + 1) mod 1000 = 0 then ?n div 1000 + 1 else ?n div 1000)"
    by (simp add: div_Suc)
  ultimately show ?thesis using dv n assms(2) by auto
qed

text \<open>
  \<open>sleep\<close> returns at the first read at which more seconds have begun than asked for. Behind \<open>2 ^ 32\<close> seconds the time is cut to 32
  bits, and it returns at once.
\<close>

lemma sleep_loop_eq: "sleep_loop w ts = (case dropWhile (\<lambda>t. t \<le> ucast w) ts of [] \<Rightarrow> None | t # rest \<Rightarrow> Some rest)"
  by (induction ts) auto

lemma unat_widen: "unat (ucast x :: u64) = unat x" for x :: u32
proof -
  have "unat x < 2 ^ 32" using unsigned_less[of x, where 'a = nat] by simp
  then show ?thesis by (simp add: unsigned_ucast_eq take_bit_nat_eq_self)
qed

lemma unat_cut: "unat x < 2 ^ 32 \<Longrightarrow> unat (ucast x :: u32) = unat x" for x :: u64
  by (simp add: unsigned_ucast_eq take_bit_nat_eq_self)

lemma sleep_waits:
  assumes "unat t + unat seconds < 2 ^ 32"
  shows "sleep seconds (t # ts) = (case dropWhile (\<lambda>u. unat u \<le> unat t + unat seconds) ts of [] \<Rightarrow> None | u # rest \<Rightarrow> Some rest)"
proof -
  have "unat (t + ucast seconds) = unat t + unat seconds"
    using assms by (subst unat_add_lem[THEN iffD1]) (simp_all add: unat_widen)
  then have "unat (ucast (ucast (t + ucast seconds) :: u32) :: u64) = unat t + unat seconds"
    using assms by (simp add: unat_cut unat_widen)
  then have "u \<le> ucast (ucast (t + ucast seconds) :: u32) \<longleftrightarrow> unat u \<le> unat t + unat seconds" for u :: u64
    by (simp add: word_le_nat_alt)
  then show ?thesis by (simp add: sleep_loop_eq)
qed

section \<open>Entries into the scheduler\<close>

text \<open>
  The timer interrupt, once the timer is installed, counts, lets the scheduler run once, and acknowledges the interrupt: once in
  \<open>timer_handler\<close> and once more in \<open>irq_handler\<close>.
\<close>

lemma timer_interrupt:
  assumes "irqs_ok s A (replicate 16 [])" "new \<notin> set (concat A)" "timer_install inb new h s = Some (Inr s1)"
    and "\<forall>s. call h s = Some (timer_handler now s)" "kernel_schedule now (regs (dev s1)) (krn (dev s1)) = Inr (k, f)"
    and "irq_heap s2 = irq_heap s1" "shared_interrupt_handlers s2 = shared_interrupt_handlers s1" "dev s2 = dev s1" "keeps_handlers call"
  shows "\<exists>s3. irq_handler call 32 s2 = Some (Inr s3) \<and> krn (dev s3) = k \<and> regs (dev s3) = f \<and>
    timer_subticks (dev s3) = timer_subticks (dev s2) + 1 \<and> written s3 = written s2 @ [(0x20, 0x20), (0x20, 0x20)]"
proof -
  obtain lo hi where p: "timer_phase SUBTICKS_PER_TICK s = Inr (s\<lparr>written := written s @ [(0x43, 0x36), (0x40, lo), (0x40, hi)]\<rparr>)"
    using phase_divisor[of SUBTICKS_PER_TICK s] by (auto simp: SUBTICKS_PER_TICK_def)
  let ?s = "s\<lparr>written := written s @ [(0x43, 0x36), (0x40, lo), (0x40, hi)]\<rparr>"
  have "irqs_ok ?s A (replicate 16 [])" using assms(1) by (simp add: irqs_ok_def)
  from install_ok[OF this, of 0 new h "''timer''"] obtain t A' where t: "irq_install_handler new 0 (Handler h) ''timer'' ?s = Some (Inr (0, t))"
      "irqs_ok t A' ((replicate 16 [])[0 := [h]])" using assms(2) by auto
  have s1: "irq_heap s1 = irq_heap t" "shared_interrupt_handlers s1 = shared_interrupt_handlers t"
    using assms(3) p t(1) by (auto simp: timer_install_def IRQ_TIMER_def pic8259_irq_enable_def IRQ_NUM_def Let_def outportb_def)
  have c: "irq_chain (irq_heap t) (shared_interrupt_handlers t ! 0) (A' ! 0) [Handler h]" "length (shared_interrupt_handlers t) = 16"
    using t(2) by (auto simp: irqs_ok_def handlers_of_def dest: spec[of _ 0])
  have "irq_loop call (shared_interrupt_handlers t ! 0) s2 = run_handlers call [Handler h] s2"
    by (rule irq_loop_runs[OF assms(9)]) (use c(1) s1 assms(6) in simp)
  then have "irq_handler call 32 s2 = bindO (run_handlers call [Handler h] s2) (\<lambda>s. Some (Inr (pic8259_send_eoi 0 s)))"
    using c(2) s1 assms(7) by (simp add: irq_handler_def Let_def get_at_def)
  also have "\<dots> = bindO (Some (timer_handler now s2)) (\<lambda>s. Some (Inr (pic8259_send_eoi 0 s)))"
    using assms(4) by (simp add: call_handler_def bindO_assoc)
  finally show ?thesis
    using assms(5,8) by (auto simp: timer_handler_def Let_def SUBTICKS_PER_TICK_def send_eoi_eq[of 0, simplified] IRQ_TIMER_def)
qed

text \<open>
  C32. A system call with a number of the table runs the routine entered for it, with the arguments from the registers (the address of the
  saved registers as the first one of \<open>vfork\<close> and \<open>execve\<close>), puts its result into the register \<open>eax\<close> and lets the scheduler run; for every
  other number nothing runs, whatever its size, and the result is \<open>ENOSYS\<close>.
\<close>

theorem syscall_dispatch:
  "syscall_handler func frame now d =
     (let n = unat (r_eax (regs d)); f = regs d;
          finish = (\<lambda>(ret, d'). Some (bindR (kernel_schedule now ((regs d')\<lparr>r_eax := ret\<rparr>) (krn d')) (\<lambda>(k, f). Inr (d'\<lparr>krn := k, regs := f\<rparr>)))) in
      case map_of syscall_entries n of
        None \<Rightarrow> finish (38, d)
      | Some c \<Rightarrow> bindO (func c [if c = Sys_vfork \<or> c = Sys_execve then frame else r_ebx f, r_ecx f, r_edx f, r_esi f, r_edi f] d) finish)"
proof -
  let ?n = "unat (r_eax (regs d))"
  have fold: "foldl (\<lambda>tab (n, c). tab[n := c]) tab es ! i = (case map_of es i of None \<Rightarrow> tab ! i | Some c \<Rightarrow> c) \<and>
      length (foldl (\<lambda>tab (n, c). tab[n := c]) tab es) = length tab"
    if "i < length tab" "distinct (map fst es)" for tab es and i :: nat
    using that
  proof (induction es arbitrary: tab)
    case (Cons e es)
    obtain n c where e: "e = (n, c)" by (cases e)
    show ?case using Cons.IH[of "tab[n := c]"] Cons.prems
      by (auto simp: e nth_list_update map_of_eq_None_iff split: option.splits dest: map_of_SomeD intro: rev_image_eqI)
  qed simp
  have dist: "distinct (map fst syscall_entries)" by (simp add: syscall_entries_def NR_vfork_def NR_execve_def)
  have tab: "sys_call_table ! i = (case map_of syscall_entries i of None \<Rightarrow> Sys_ni | Some c \<Rightarrow> c)" "length sys_call_table = 195" if "i < 195" for i
    using fold[of i "replicate SYSCALL_NUMBER Sys_ni" syscall_entries] that dist by (auto simp: sys_call_table_def SYSCALL_NUMBER_def split: option.splits)
  have in_table: "i < 195" "c \<noteq> Sys_ni" "(c = Sys_vfork \<or> c = Sys_execve) \<longleftrightarrow> (i = NR_vfork \<or> i = NR_clone \<or> i = NR_execve)" if "map_of syscall_entries i = Some c" for i c
    using that by (auto simp: syscall_entries_def NR_vfork_def NR_clone_def NR_execve_def split: if_splits)
  show ?thesis
  proof (cases "map_of syscall_entries ?n")
    case None
    show ?thesis
    proof (cases "?n < 195")
      case True
      then show ?thesis using None tab[OF True]
        by (simp add: syscall_handler_def Let_def SYSCALL_NUMBER_def get_at_def call_syscall_def ENOSYS_def)
    next
      case False
      then show ?thesis using None by (simp add: syscall_handler_def Let_def SYSCALL_NUMBER_def ENOSYS_def)
    qed
  next
    case (Some c)
    note i = in_table[OF Some]
    have "get_at sys_call_table ?n = Inr c" using tab[OF i(1)] i(1) Some by (simp add: get_at_def)
    then show ?thesis using Some i by (simp add: syscall_handler_def Let_def SYSCALL_NUMBER_def call_syscall_def split_def)
  qed
qed

end
