(* ===== verification/Locks.thy ===== *)
theory Locks
  imports Scheduler
begin

text \<open>
  The locks of the kernel library (\<open>libc/spinlock.c\<close>, \<open>libc/mutex.c\<close>, \<open>atomic_set_and_test\<close> of \<open>inc/libc/stdatomic.h\<close>) and
  \<open>sys_reboot\<close> (\<open>kernel/sys.c\<close>), which uses a mutex. A thread is a program counter with its local variables; one step is one
  access to the shared memory. A run is a sequence of steps in which the schedule chooses the thread, so that threads
  interleave at every access. What the two locks have in common is the locale \<open>exclusive_lock\<close>.
\<close>

section \<open>Interleaved threads\<close>

text \<open>The entry \<open>(t, c)\<close> of a schedule lets thread \<open>t\<close> make a step; \<open>c\<close> is what the thread chooses where it has a choice.\<close>

fun run :: "(nat \<Rightarrow> 'c \<Rightarrow> 'pc \<Rightarrow> 'm \<Rightarrow> 'pc \<times> 'm) \<Rightarrow> (nat \<times> 'c) list \<Rightarrow> (nat \<Rightarrow> 'pc) \<times> 'm \<Rightarrow> (nat \<Rightarrow> 'pc) \<times> 'm" where
  "run step [] s = s"
| "run step ((t, c) # sched) (ps, m) = (let (p, m') = step t c (ps t) m in run step sched (ps(t := p), m'))"

lemma run_appended: "run step (xs @ ys) s = run step ys (run step xs s)"
  by (induction step xs s rule: run.induct) (auto split: prod.splits)

locale exclusive_lock =
  fixes step :: "nat \<Rightarrow> 'c \<Rightarrow> 'pc \<Rightarrow> 'm \<Rightarrow> 'pc \<times> 'm"
    and owns :: "'pc \<Rightarrow> bool"
    and holds :: "nat \<Rightarrow> 'pc \<Rightarrow> 'm \<Rightarrow> bool"
    and free :: "'m \<Rightarrow> bool"
  assumes contend_free: "\<not> owns p \<Longrightarrow> free m \<Longrightarrow> step t c p m = (p', m') \<Longrightarrow> if owns p' then holds t p' m' else free m'"
    and contend_held: "\<not> owns p \<Longrightarrow> owns q \<Longrightarrow> holds u q m \<Longrightarrow> step t c p m = (p', m') \<Longrightarrow> \<not> owns p' \<and> m' = m"
    and owner_step: "owns p \<Longrightarrow> holds t p m \<Longrightarrow> step t c p m = (p', m') \<Longrightarrow> if owns p' then holds t p' m' else free m'"
    and can_enter: "\<not> owns p \<Longrightarrow> free m \<Longrightarrow> \<exists>cs. owns (fst (run step (map (\<lambda>c. (t, c)) cs) (ps(t := p), m)) t)"
    and can_leave: "owns p \<Longrightarrow> holds t p m \<Longrightarrow>
      \<exists>cs ps' m'. run step (map (\<lambda>c. (t, c)) cs) (ps(t := p), m) = (ps', m') \<and> \<not> owns (ps' t) \<and> free m' \<and> (\<forall>u. u \<noteq> t \<longrightarrow> ps' u = ps u)"
begin

text \<open>Either nobody owns the lock and it is free, or exactly one thread owns it.\<close>

definition lock_inv :: "(nat \<Rightarrow> 'pc) \<times> 'm \<Rightarrow> bool" where
  "lock_inv s \<longleftrightarrow> (case s of (ps, m) \<Rightarrow> (free m \<and> (\<forall>t. \<not> owns (ps t))) \<or>
     (\<exists>t. owns (ps t) \<and> holds t (ps t) m \<and> (\<forall>u. u \<noteq> t \<longrightarrow> \<not> owns (ps u))))"

lemma step_inv:
  assumes "lock_inv (ps, m)" "step t c (ps t) m = (p', m')"
  shows "lock_inv (ps(t := p'), m')"
proof -
  consider "free m" "\<forall>t. \<not> owns (ps t)"
    | u where "owns (ps u)" "holds u (ps u) m" "\<forall>v. v \<noteq> u \<longrightarrow> \<not> owns (ps v)"
    using assms(1) unfolding lock_inv_def by auto
  then show ?thesis
  proof cases
    case 1
    then have "if owns p' then holds t p' m' else free m'" using contend_free assms(2) by blast
    then show ?thesis using 1 unfolding lock_inv_def by (cases "owns p'") auto
  next
    case (2 u)
    show ?thesis
    proof (cases "t = u")
      case True
      then have "if owns p' then holds t p' m' else free m'" using owner_step 2 assms(2) by blast
      then show ?thesis using 2 True unfolding lock_inv_def by (cases "owns p'") auto
    next
      case False
      then have "\<not> owns p'" "m' = m" using contend_held[of "ps t" "ps u" u m t c p' m'] 2 assms(2) by blast+
      then show ?thesis using 2 False unfolding lock_inv_def by auto
    qed
  qed
qed

lemma run_inv: "lock_inv s \<Longrightarrow> lock_inv (run step sched s)"
proof (induction sched arbitrary: s)
  case (Cons x sched)
  obtain t c ps m where x: "x = (t, c)" "s = (ps, m)" by (cases x; cases s)
  obtain p' m' where st: "step t c (ps t) m = (p', m')" by (cases "step t c (ps t) m")
  have "lock_inv (ps(t := p'), m')" using step_inv[of ps m t c p' m'] st Cons.prems x by simp
  then show ?case using Cons.IH x st by simp
qed simp

lemma exclusive: "lock_inv s \<Longrightarrow> owns (fst s t) \<Longrightarrow> owns (fst s u) \<Longrightarrow> t = u"
  unfolding lock_inv_def by (cases s) (simp; metis)

lemma obtainable:
  assumes "lock_inv s"
  shows "\<exists>sched. owns (fst (run step sched s) t)"
proof -
  obtain ps m where s: "s = (ps, m)" by (cases s)
  have enter: "\<exists>sched. owns (fst (run step sched (ps, m)) t)" if "free m" "\<not> owns (ps t)" for ps m
    using can_enter[OF that(2,1), of t ps] by (metis fun_upd_triv)
  consider "free m" "\<not> owns (ps t)" | "owns (ps t)" | u where "u \<noteq> t" "owns (ps u)" "holds u (ps u) m" "\<not> owns (ps t)"
    using assms unfolding lock_inv_def s prod.case by metis
  then show ?thesis
  proof cases
    case 1
    then show ?thesis using enter s by blast
  next
    case 2
    then show ?thesis by (intro exI[of _ "[]"]) (simp add: s)
  next
    case (3 u)
    obtain cs ps' m' where r: "run step (map (\<lambda>c. (u, c)) cs) (ps, m) = (ps', m')" "free m'" "\<forall>v. v \<noteq> u \<longrightarrow> ps' v = ps v"
      using can_leave[OF 3(2,3), of ps] by (metis fun_upd_triv)
    obtain sched where "owns (fst (run step sched (ps', m')) t)" using enter[of m' ps'] r(2,3) 3(1,4) by auto
    then show ?thesis using r(1) s run_appended[of step "map (\<lambda>c. (u, c)) cs" sched] by metis
  qed
qed

end

section \<open>The spin lock\<close>

definition SPINLOCK_FREE :: u32 where "SPINLOCK_FREE = 0"
definition SPINLOCK_BUSY :: u32 where "SPINLOCK_BUSY = 1"

text \<open>The exchange stores the new value and returns the old one, at once.\<close>

definition xchg :: "u32 \<Rightarrow> u32 \<Rightarrow> u32 \<times> u32" where "xchg ptr i = (ptr, i)"

definition spinlock_init :: "u32 \<Rightarrow> u32" where "spinlock_init v = 0"

definition spinlock_trylock :: "u32 \<Rightarrow> bool \<times> u32" where
  "spinlock_trylock v = (let (old, v) = xchg v SPINLOCK_BUSY in (old = 0, v))"

definition spinlock_unlock :: "u32 \<Rightarrow> u32" where "spinlock_unlock v = snd (xchg v SPINLOCK_FREE)"

datatype spin_pc = Outside | SetTest | Waiting | Inside

text \<open>A thread outside chooses between \<open>spinlock_trylock\<close> (\<open>True\<close>) and \<open>spinlock_lock\<close>; inside its next call is \<open>spinlock_unlock\<close>.\<close>

fun spin_step :: "nat \<Rightarrow> bool \<Rightarrow> spin_pc \<Rightarrow> u32 \<Rightarrow> spin_pc \<times> u32" where
  "spin_step t try Outside v = (if try then let (ok, v) = spinlock_trylock v in (if ok then Inside else Outside, v) else (SetTest, v))"
| "spin_step t try SetTest v = (let (old, v) = xchg v SPINLOCK_BUSY in (if old = 0 then Inside else Waiting, v))"
| "spin_step t try Waiting v = (if v \<noteq> 0 then Waiting else SetTest, v)"
| "spin_step t try Inside v = (Outside, spinlock_unlock v)"

section \<open>The mutex\<close>

text \<open>
  The exchange instruction works on 32 bits, the field \<open>state\<close> has 8: the other three bytes are padding. \<open>mword\<close> is all four.
\<close>

record mutex =
  mword :: u32
  owner :: u32

definition mutex_state :: "mutex \<Rightarrow> u32" where "mutex_state x = and (mword x) 255"

definition mutex_unlock :: "mutex \<Rightarrow> mutex" where
  "mutex_unlock x = x\<lparr>mword := and (mword x) (not 255)\<rparr>"

text \<open>
  The places of \<open>mutex_lock\<close> where it reads or writes the mutex, with the local variable \<open>failure\<close> where it is tested: the
  condition of the loop (\<open>LoopState\<close>, \<open>LoopOwner\<close>), the test in the body, the exchange and the assignment of the owner.
\<close>

datatype mutex_pc = Unlocked | LoopState u32 | LoopOwner | BodyState | Exchange | SetOwner | Locked

fun mutex_step :: "u32 \<Rightarrow> mutex_pc \<Rightarrow> mutex \<Rightarrow> mutex_pc \<times> mutex" where
  "mutex_step own Unlocked x = (LoopState 1, x)"
| "mutex_step own (LoopState failure) x = (if mutex_state x = 0 \<or> failure \<noteq> 0 then BodyState else LoopOwner, x)"
| "mutex_step own LoopOwner x = (if owner x \<noteq> own then BodyState else Locked, x)"
| "mutex_step own BodyState x = (if mutex_state x = 0 then Exchange else LoopState 1, x)"
| "mutex_step own Exchange x =
     (let (failure, w) = xchg (mword x) 1 in (if failure = 0 then SetOwner else LoopState failure, x\<lparr>mword := w\<rparr>))"
| "mutex_step own SetOwner x = (LoopState 0, x\<lparr>owner := own\<rparr>)"
| "mutex_step own Locked x = (Unlocked, mutex_unlock x)"

text \<open>A call of \<open>mutex_lock\<close> that nobody disturbs; \<open>None\<close> when it never returns.\<close>

partial_function (option) lock_loop :: "u32 \<Rightarrow> mutex_pc \<Rightarrow> mutex \<Rightarrow> mutex option" where
  "lock_loop own pc mutex =
     (if pc = Locked then Some mutex else let (pc, mutex) = mutex_step own pc mutex in lock_loop own pc mutex)"

definition mutex_lock :: "mutex \<Rightarrow> u32 \<Rightarrow> mutex option" where
  "mutex_lock x own = lock_loop own (LoopState 1) x"

section \<open>Reboot\<close>

definition reboot_magic :: "u32 \<Rightarrow> u32 \<Rightarrow> bool" where
  "reboot_magic magic1 magic2 \<longleftrightarrow> magic1 = 0xfee1dead \<and> magic2 \<in> {672274793, 85072278, 369367448, 537993216}"

definition LINUX_REBOOT_CMD_POWER_OFF :: u32 where "LINUX_REBOOT_CMD_POWER_OFF = 0x4321FEDC"

text \<open>The commands that do nothing: restart, key sequence on and off, halt, restart with a string, kernel execution, suspend.\<close>

definition reboot_ignored :: "u32 list" where
  "reboot_ignored = [0x01234567, 0x89ABCDEF, 0x00000000, 0xCDEF0123, 0xA1B2C3D4, 0x45584543, 0xD000FCE2]"

text \<open>Powering off is an endless loop.\<close>

definition sys_reboot :: "u32 \<Rightarrow> u32 \<Rightarrow> u32 \<Rightarrow> mutex \<Rightarrow> (int \<times> mutex) option" where
  "sys_reboot magic1 magic2 command reboot_mutex =
     (if \<not> reboot_magic magic1 magic2 then Some (- EINVAL, reboot_mutex)
      else Option.bind (mutex_lock reboot_mutex 0) (\<lambda>x.
        if command = LINUX_REBOOT_CMD_POWER_OFF then None
        else if command \<in> set reboot_ignored then Some (0, mutex_unlock x)
        else Some (- EINVAL, x)))"

section \<open>Both are exclusive locks\<close>

interpretation spin: exclusive_lock spin_step "\<lambda>p. p = Inside" "\<lambda>t p v. v = SPINLOCK_BUSY" "\<lambda>v. v = SPINLOCK_FREE"
proof (unfold_locales, goal_cases)
  case (1 p m t c p' m')
  then show ?case
    by (cases p) (auto simp: spinlock_trylock_def xchg_def SPINLOCK_FREE_def split: if_splits)
next
  case (2 p q u m t c p' m')
  then show ?case
    by (cases p) (auto simp: spinlock_trylock_def xchg_def SPINLOCK_BUSY_def split: if_splits)
next
  case (3 p t m c p' m')
  then show ?case by (auto simp: spinlock_unlock_def xchg_def)
next
  case (4 p m t ps)
  show ?case
  proof (rule exI[of _ "if p = Waiting then [True, True] else [True]"])
    show "fst (run spin_step (map (\<lambda>c. (t, c)) (if p = Waiting then [True, True] else [True])) (ps(t := p), m)) t = Inside"
      using 4 by (cases p) (simp_all add: spinlock_trylock_def xchg_def SPINLOCK_FREE_def)
  qed
next
  case (5 p t m ps)
  show ?case by (rule exI[of _ "[True]"]) (use 5 in \<open>simp add: spinlock_unlock_def xchg_def\<close>)
qed

definition mutex_owns :: "mutex_pc \<Rightarrow> bool" where
  "mutex_owns p \<longleftrightarrow> p \<in> {LoopState 0, LoopOwner, SetOwner, Locked}"

definition mutex_holds :: "(nat \<Rightarrow> u32) \<Rightarrow> nat \<Rightarrow> mutex_pc \<Rightarrow> mutex \<Rightarrow> bool" where
  "mutex_holds ids t p x \<longleftrightarrow> mword x = 1 \<and> (p \<noteq> SetOwner \<longrightarrow> owner x = ids t)"

lemmas mutex_simps = mutex_owns_def mutex_holds_def mutex_state_def mutex_unlock_def xchg_def

definition mutex_steps :: "mutex_pc \<Rightarrow> nat" where
  "mutex_steps p = (case p of Unlocked \<Rightarrow> 4 | LoopState f \<Rightarrow> 3 | BodyState \<Rightarrow> 2 | Exchange \<Rightarrow> 1 | _ \<Rightarrow> 0)"

lemma mutex_enter_step:
  assumes "\<not> mutex_owns p" "mword x = 0" "mutex_step own p x = (p', x')"
  shows "if mutex_owns p' then mword x' = 1 \<and> p' = SetOwner else mword x' = 0 \<and> mutex_steps p' < mutex_steps p"
  using assms by (cases p) (auto simp: mutex_simps mutex_steps_def split: if_splits)

lemma mutex_enter:
  "\<not> mutex_owns p \<Longrightarrow> mword x = 0 \<Longrightarrow>
   \<exists>cs. mutex_owns (fst (run (\<lambda>t (c :: unit). mutex_step (ids t)) (map (\<lambda>c. (t, c)) cs) (ps(t := p), x)) t)"
proof (induction "mutex_steps p" arbitrary: p x ps rule: less_induct)
  case less
  obtain p' x' where s: "mutex_step (ids t) p x = (p', x')" by (cases "mutex_step (ids t) p x")
  note e = mutex_enter_step[OF less.prems s]
  show ?case
  proof (cases "mutex_owns p'")
    case True
    then show ?thesis by (intro exI[of _ "[()]"]) (simp add: s)
  next
    case False
    then obtain cs where "mutex_owns (fst (run (\<lambda>t (c :: unit). mutex_step (ids t)) (map (\<lambda>c. (t, c)) cs) (ps(t := p'), x')) t)"
      using less.hyps[of p' x' ps] e by auto
    then show ?thesis by (intro exI[of _ "() # cs"]) (simp add: s)
  qed
qed

interpretation mtx: exclusive_lock "\<lambda>t (c :: unit). mutex_step (ids t)" mutex_owns "mutex_holds ids" "\<lambda>x. mword x = 0" for ids
proof (unfold_locales, goal_cases)
  case (1 p m t c p' m')
  then show ?case by (cases p) (auto simp: mutex_simps split: if_splits)
next
  case (2 p q u m t c p' m')
  then show ?case by (cases p) (auto simp: mutex_simps split: if_splits)
next
  case (3 p t m c p' m')
  then show ?case by (cases p) (auto simp: mutex_simps split: if_splits)
next
  case (4 p m t ps)
  then show ?case by (rule mutex_enter)
next
  case (5 p t m ps)
  let ?cs = "case p of Locked \<Rightarrow> [()] | LoopOwner \<Rightarrow> [(), ()] | SetOwner \<Rightarrow> [(), (), (), ()] | _ \<Rightarrow> [(), (), ()]"
  show ?case by (rule exI[of _ ?cs]) (use 5 in \<open>cases p; auto simp: mutex_simps\<close>)
qed

lemma mutex_locked:
  assumes "mtx.lock_inv ids x" "mutex_owns (fst x t)"
  shows "\<exists>more. fst (run (\<lambda>t (c :: unit). mutex_step (ids t)) more x) t = Locked"
proof -
  obtain ps m where x: "x = (ps, m)" by (cases x)
  have h: "mutex_holds ids t (ps t) m" using assms unfolding x mtx.lock_inv_def prod.case fst_conv by metis
  let ?cs = "case ps t of Locked \<Rightarrow> [] | LoopOwner \<Rightarrow> [()] | SetOwner \<Rightarrow> [(), (), ()] | _ \<Rightarrow> [(), ()]"
  have "fst (run (\<lambda>t (c :: unit). mutex_step (ids t)) (map (\<lambda>c. (t, c)) ?cs) x) t = Locked"
    using h assms(2) unfolding x by (cases "ps t") (auto simp: mutex_simps)
  then show ?thesis by blast
qed

text \<open>
  C33. Under every interleaving of any number of threads, at every memory access, at most one thread is between the call that locked and the
  one that unlocks, for the spin lock (with \<open>spinlock_lock\<close> and \<open>spinlock_trylock\<close>) and for the mutex, also when threads share an
  owner number; and from every state that is reached every thread can still obtain the lock.
\<close>

theorem locks_exclude:
  "let s = run spin_step sched (\<lambda>t. Outside, spinlock_init v);
       step = (\<lambda>t (c :: unit). mutex_step (ids t)); x = run step sched' (\<lambda>t. Unlocked, \<lparr>mword = 0, owner = own\<rparr>) in
   \<not> (t \<noteq> u \<and> fst s t = Inside \<and> fst s u = Inside) \<and> \<not> (t \<noteq> u \<and> fst x t = Locked \<and> fst x u = Locked) \<and>
   (\<exists>more. fst (run spin_step more s) t = Inside) \<and> (\<exists>more. fst (run step more x) t = Locked)"
proof -
  let ?s = "run spin_step sched (\<lambda>t. Outside, spinlock_init v)" and ?step = "\<lambda>t (c :: unit). mutex_step (ids t)"
  let ?x = "run ?step sched' (\<lambda>t. Unlocked, \<lparr>mword = 0, owner = own\<rparr>)"
  have i: "spin.lock_inv ?s"
    by (rule spin.run_inv) (unfold spin.lock_inv_def, simp add: spinlock_init_def SPINLOCK_FREE_def)
  have j: "mtx.lock_inv ids ?x" by (rule mtx.run_inv) (simp add: mtx.lock_inv_def mutex_owns_def)
  have "\<not> (t \<noteq> u \<and> fst ?s t = Inside \<and> fst ?s u = Inside)" using spin.exclusive[OF i, of t u] by blast
  moreover have "\<not> (t \<noteq> u \<and> fst ?x t = Locked \<and> fst ?x u = Locked)"
    using mtx.exclusive[OF j, of t u] by (auto simp: mutex_owns_def)
  moreover have "\<exists>more. fst (run spin_step more ?s) t = Inside" by (rule spin.obtainable[OF i])
  moreover have "\<exists>more. fst (run ?step more ?x) t = Locked"
  proof -
    obtain more where "mutex_owns (fst (run ?step more ?x) t)" using mtx.obtainable[OF j, of t] by blast
    from mutex_locked[OF mtx.run_inv[OF j] this] show ?thesis by (metis run_appended)
  qed
  ultimately show ?thesis unfolding Let_def by blast
qed

section \<open>Reboot\<close>

text \<open>An undisturbed call of \<open>mutex_lock\<close> returns at once when the mutex is free, and never when it is locked.\<close>

lemma mutex_lock_free: "mword x = 0 \<Longrightarrow> mutex_lock x own = Some (x\<lparr>mword := 1, owner := own\<rparr>)"
  unfolding mutex_lock_def
  by (subst lock_loop.simps, simp add: mutex_simps)+

lemma lock_loop_stuck_step:
  assumes "lock_loop own p x = Some y"
  shows "\<not> (mutex_state x \<noteq> 0 \<and> p \<in> {LoopState 1, BodyState})"
proof (rule lock_loop.raw_induct[of "\<lambda>own p x y. \<not> (mutex_state x \<noteq> 0 \<and> p \<in> {LoopState 1, BodyState})", OF _ assms])
  fix rec :: "u32 \<Rightarrow> mutex_pc \<Rightarrow> mutex \<Rightarrow> mutex option" and own p x y
  assume ih: "\<And>own p x y. rec own p x = Some y \<Longrightarrow> \<not> (mutex_state x \<noteq> 0 \<and> p \<in> {LoopState 1, BodyState})"
    and body: "(if p = Locked then Some x else let (p, x) = mutex_step own p x in rec own p x) = Some y"
  show "\<not> (mutex_state x \<noteq> 0 \<and> p \<in> {LoopState 1, BodyState})" using ih body by (auto dest: ih)
qed

lemma mutex_lock_held: "mutex_state x \<noteq> 0 \<Longrightarrow> mutex_lock x own = None"
  using lock_loop_stuck_step[of own "LoopState 1" x] unfolding mutex_lock_def by (cases "lock_loop own (LoopState 1) x") auto

text \<open>With anything but zero in the padding the exchange reports a failure that leaves the mutex locked: nobody ever gets it.\<close>

lemma mutex_padding:
  assumes "mutex_state x = 0" "mword x \<noteq> 0"
  shows "mutex_lock x own = None"
proof -
  have "mutex_lock x own = lock_loop own (LoopState (mword x)) (x\<lparr>mword := 1\<rparr>)"
    unfolding mutex_lock_def using assms by (subst lock_loop.simps, simp add: xchg_def)+
  also have "\<dots> = lock_loop own BodyState (x\<lparr>mword := 1\<rparr>)" using assms by (subst lock_loop.simps) simp
  also have "\<dots> = None" using lock_loop_stuck_step[of own BodyState "x\<lparr>mword := 1\<rparr>"]
    by (cases "lock_loop own BodyState (x\<lparr>mword := 1\<rparr>)") (auto simp: mutex_state_def)
  finally show ?thesis .
qed

text \<open>
  A known command releases the mutex, so that the call can be repeated; an unknown one returns with the mutex locked, and every
  later call with the right magic numbers hangs.
\<close>

theorem reboot_hangs:
  assumes "mword x = 0" "reboot_magic m1 m2" "reboot_magic m1' m2'"
  shows "command \<in> set reboot_ignored \<Longrightarrow> \<exists>y. sys_reboot m1 m2 command x = Some (0, y) \<and> mword y = 0"
    and "command \<notin> set reboot_ignored \<Longrightarrow> command \<noteq> LINUX_REBOOT_CMD_POWER_OFF \<Longrightarrow>
      \<exists>y. sys_reboot m1 m2 command x = Some (- EINVAL, y) \<and> sys_reboot m1' m2' command' y = None"
proof -
  show "\<exists>y. sys_reboot m1 m2 command x = Some (0, y) \<and> mword y = 0" if "command \<in> set reboot_ignored"
    using that assms(2) mutex_lock_free[OF assms(1)]
    by (auto simp: sys_reboot_def mutex_unlock_def reboot_ignored_def LINUX_REBOOT_CMD_POWER_OFF_def)
  show "\<exists>y. sys_reboot m1 m2 command x = Some (- EINVAL, y) \<and> sys_reboot m1' m2' command' y = None"
    if "command \<notin> set reboot_ignored" "command \<noteq> LINUX_REBOOT_CMD_POWER_OFF"
    using that assms(2,3) mutex_lock_free[OF assms(1)] mutex_lock_held[of "x\<lparr>mword := 1, owner := 0\<rparr>"]
    by (auto simp: sys_reboot_def mutex_state_def)
qed

end
