(* ===== verification/Pci.thy ===== *)
theory Pci
  imports Prelude
begin

text \<open>
  Configuration of the PCI devices (\<open>devices/pci.c\<close>, \<open>inc/devices/pci.h\<close>). The ports are a parameter: what a write to a port does to the hardware
  and what a read returns; reads of the configuration ports do not change the hardware. The tables of names are those of the source. The
  recursion over the bridges is bounded by fuel, \<open>None\<close> when it runs out: the buses need not form a tree.
\<close>

section \<open>Fields\<close>

record 'd ports =
  out32 :: "u16 \<Rightarrow> u32 \<Rightarrow> 'd \<Rightarrow> 'd"
  in32 :: "u16 \<Rightarrow> 'd \<Rightarrow> u32"
  in16 :: "u16 \<Rightarrow> 'd \<Rightarrow> u16"
  in8 :: "u16 \<Rightarrow> 'd \<Rightarrow> u8"

definition PCI_VENDOR_ID :: u32 where "PCI_VENDOR_ID = 0x00"
definition PCI_DEVICE_ID :: u32 where "PCI_DEVICE_ID = 0x02"
definition PCI_PROG_IF :: u32 where "PCI_PROG_IF = 0x09"
definition PCI_SUBCLASS :: u32 where "PCI_SUBCLASS = 0x0a"
definition PCI_CLASS :: u32 where "PCI_CLASS = 0x0b"
definition PCI_HEADER_TYPE :: u32 where "PCI_HEADER_TYPE = 0x0e"
definition PCI_SECONDARY_BUS :: u32 where "PCI_SECONDARY_BUS = 0x19"
definition PCI_INTERRUPT_LINE :: u32 where "PCI_INTERRUPT_LINE = 0x3c"
definition PCI_INTERRUPT_PIN :: u32 where "PCI_INTERRUPT_PIN = 0x3d"
definition PCI_TYPE_BRIDGE :: u32 where "PCI_TYPE_BRIDGE = 0x060400"
definition PCI_ADDRESS_PORT :: u16 where "PCI_ADDRESS_PORT = 0xCF8"
definition PCI_VALUE_PORT :: u16 where "PCI_VALUE_PORT = 0xCFC"
definition PCI_NONE :: u32 where "PCI_NONE = 0xFFFF"

definition pci_extract_bus :: "u32 \<Rightarrow> u8" where "pci_extract_bus device = ucast (drop_bit 16 device)"
definition pci_extract_slot :: "u32 \<Rightarrow> u8" where "pci_extract_slot device = ucast (drop_bit 8 device)"
definition pci_extract_func :: "u32 \<Rightarrow> u8" where "pci_extract_func device = ucast device"

definition pci_get_addr :: "u32 \<Rightarrow> u32 \<Rightarrow> u32" where
  "pci_get_addr device field =
     or 0x80000000 (or (push_bit 16 (ucast (pci_extract_bus device))) (or (push_bit 11 (ucast (pci_extract_slot device)))
       (or (push_bit 8 (ucast (pci_extract_func device))) (and field 0xFC))))"

definition pci_box_device :: "u32 \<Rightarrow> u32 \<Rightarrow> u32 \<Rightarrow> u32" where
  "pci_box_device bus slot func = or (push_bit 16 bus) (or (push_bit 8 slot) func)"

definition pci_write_field :: "'d ports \<Rightarrow> u32 \<Rightarrow> u32 \<Rightarrow> u32 \<Rightarrow> 'd \<Rightarrow> 'd" where
  "pci_write_field hw device field v d = out32 hw PCI_VALUE_PORT v (out32 hw PCI_ADDRESS_PORT (pci_get_addr device field) d)"

definition pci_read_field :: "'d ports \<Rightarrow> u32 \<Rightarrow> u32 \<Rightarrow> nat \<Rightarrow> 'd \<Rightarrow> u32 \<times> 'd" where
  "pci_read_field hw device field n d =
     (let d = out32 hw PCI_ADDRESS_PORT (pci_get_addr device field) d in
      (if n = 4 then in32 hw PCI_VALUE_PORT d
       else if n = 2 then ucast (in16 hw (PCI_VALUE_PORT + ucast (and field 2)) d)
       else if n = 1 then ucast (in8 hw (PCI_VALUE_PORT + ucast (and field 3)) d)
       else 0xFFFF, d))"

definition pci_find_type :: "'d ports \<Rightarrow> u32 \<Rightarrow> 'd \<Rightarrow> u32 \<times> 'd" where
  "pci_find_type hw device d =
     (let (a, d) = pci_read_field hw device PCI_CLASS 1 d;
          (b, d) = pci_read_field hw device PCI_SUBCLASS 1 d;
          (c, d) = pci_read_field hw device PCI_PROG_IF 1 d
      in (or (push_bit 16 a) (or (push_bit 8 b) c), d))"

section \<open>Names\<close>

definition pci_vendors :: "(u16 \<times> string) list" where
  "pci_vendors =
     [(0x1022, ''AMD''),
      (0x106b, ''Apple, Inc.''),
      (0x1234, ''Bochs/QEMU''),
      (0x1274, ''Ensoniq''),
      (0x15ad, ''VMWare''),
      (0x8086, ''Intel Corporation''),
      (0x80EE, ''VirtualBox'')]"

definition pci_devices :: "(u16 \<times> u16 \<times> string) list" where
  "pci_devices =
     [(0x1022, 0x2000, ''PCNet Ethernet Controller (pcnet)''),
      (0x106b, 0x003f, ''OHCI Controller''),
      (0x1234, 0x1111, ''VGA BIOS Graphics Extensions''),
      (0x1274, 0x1371, ''Creative Labs CT2518 (ensoniq audio)''),
      (0x15ad, 0x0740, ''VM Communication Interface''),
      (0x15ad, 0x0405, ''SVGA II Adapter''),
      (0x15ad, 0x0790, ''PCI bridge''),
      (0x15ad, 0x07a0, ''PCI Express Root Port''),
      (0x8086, 0x100e, ''Gigabit Ethernet Controller (e1000)''),
      (0x8086, 0x100f, ''Gigabit Ethernet Controller (e1000)''),
      (0x8086, 0x1237, ''PCI & Memory''),
      (0x8086, 0x2415, ''AC'97 Audio Chipset''),
      (0x8086, 0x7000, ''PCI-to-ISA Bridge''),
      (0x8086, 0x7010, ''IDE Interface''),
      (0x8086, 0x7110, ''PIIX4 ISA''),
      (0x8086, 0x7111, ''PIIX4 IDE''),
      (0x8086, 0x7113, ''Power Management Controller''),
      (0x8086, 0x7190, ''Host Bridge''),
      (0x8086, 0x7191, ''AGP Bridge''),
      (0x80EE, 0xBEEF, ''Bochs/QEMU-compatible Graphics Adapter''),
      (0x80EE, 0xCAFE, ''Guest Additions Device'')]"

definition pci_classes :: "(u32 \<times> string) list" where
  "pci_classes =
     [(0x000000, ''Legacy Device''),
      (0x000100, ''VGA-Compatible Device''),
      (0x010000, ''SCSI bus controller''),
      (0x010100, ''ISA Compatibility mode-only controller''),
      (0x010105, ''PCI native mode-only controller''),
      (0x01010a, ''ISA Compatibility mode controller, supports both channels switched to PCI native mode''),
      (0x01010f, ''PCI native mode controller, supports both channels switched to ISA compatibility mode''),
      (0x010180, ''ISA Compatibility mode-only controller, supports bus mastering''),
      (0x010185, ''PCI native mode-only controller, supports bus mastering''),
      (0x01018a, ''ISA Compatibility mode controller, supports both channels switched to PCI native mode, supports bus mastering''),
      (0x01018f, ''PCI native mode controller, supports both channels switched '' @ CHR 0x09 # ''o ISA compatibility mode, supports bus mastering''),
      (0x010200, ''Floppy disk controller''),
      (0x010300, ''IPI bus controller''),
      (0x010400, ''RAID controller''),
      (0x010520, ''ATA controller, single stepping''),
      (0x010530, ''ATA controller, continuous''),
      (0x010600, ''Serial ATA controller - vendor specific interface''),
      (0x010601, ''Serial ATA controller - AHCI 1.0 interface''),
      (0x010700, ''Serial Attached SCSI controller''),
      (0x018000, ''Mass Storage controller''),
      (0x020000, ''Ethernet controller''),
      (0x020100, ''Token Ring controller''),
      (0x020200, ''FDDI controller''),
      (0x020300, ''ATM controller''),
      (0x020400, ''ISDN controller''),
      (0x020500, ''WorldFip controller''),
      (0x028000, ''Network controller''),
      (0x030000, ''VGA Display controller''),
      (0x030001, ''8514-compatible Display controller''),
      (0x030100, ''XGA Display controller''),
      (0x030200, ''3D Display controller''),
      (0x038000, ''Display controller''),
      (0x040000, ''Video device''),
      (0x040100, ''Audio device''),
      (0x040200, ''Computer Telephony device''),
      (0x048000, ''Multimedia device''),
      (0x050000, ''RAM memory controller''),
      (0x050100, ''Flash memory controller''),
      (0x058000, ''Memory controller''),
      (0x060000, ''Host bridge''),
      (0x060100, ''ISA bridge''),
      (0x060200, ''EISA bridge''),
      (0x060300, ''MCA bridge''),
      (0x060400, ''PCI-to-PCI bridge''),
      (0x060401, ''PCI-to-PCI bridge (subtractive decoding)''),
      (0x060500, ''PCMCIA bridge''),
      (0x060600, ''NuBus bridge''),
      (0x060700, ''CardBus bridge''),
      (0x060940, ''PCI-to-PCI bridge, Semi-transparent, primary facing Host''),
      (0x060980, ''PCI-to-PCI bridge, Semi-transparent, secondary facing Host''),
      (0x060A00, ''InfiniBand-to-PCI host bridge''),
      (0x068000, ''Bridge device''),
      (0x070000, ''Generic XT-compatible serial controller''),
      (0x070001, ''16450-compatible serial controller''),
      (0x070002, ''16550-compatible serial controller''),
      (0x070003, ''16650-compatible serial controller''),
      (0x070004, ''16750-compatible serial controller''),
      (0x070005, ''16850-compatible serial controller''),
      (0x070006, ''16950-compatible serial controller''),
      (0x070100, ''Parallel port''),
      (0x070101, ''Bi-directional parallel port''),
      (0x070102, ''ECP 1.X compliant parallel port''),
      (0x070103, ''IEEE1284 controller''),
      (0x0701FE, ''IEEE1284 target device''),
      (0x070200, ''Multiport serial controller''),
      (0x070300, ''Generic modem''),
      (0x070301, ''Hayes 16450-compatible modem''),
      (0x070302, ''Hayes 16550-compatible modem''),
      (0x070303, ''Hayes 16650-compatible modem''),
      (0x070304, ''Hayes 16750-compatible modem''),
      (0x070400, ''GPIB (IEEE 488.1/2) controller''),
      (0x070500, ''Smart Card''),
      (0x078000, ''Communications device''),
      (0x080000, ''Generic 8259 PIC''),
      (0x080001, ''ISA PIC''),
      (0x080002, ''EISA PIC''),
      (0x080010, ''I/O APIC interrupt controller''),
      (0x080020, ''I/O(x) APIC interrupt controller''),
      (0x080100, ''Generic 8237 DMA controller''),
      (0x080101, ''ISA DMA controller''),
      (0x080102, ''EISA DMA controller''),
      (0x080200, ''Generic 8254 system timer''),
      (0x080201, ''ISA system timer''),
      (0x080202, ''EISA system timer-pair''),
      (0x080300, ''Generic RTC controller''),
      (0x080301, ''ISA RTC controller''),
      (0x080400, ''Generic PCI Hot-Plug controller''),
      (0x080500, ''SD Host controller''),
      (0x088000, ''System peripheral''),
      (0x090000, ''Keyboard controller''),
      (0x090100, ''Digitizer (pen)''),
      (0x090200, ''Mouse controller''),
      (0x090300, ''Scanner controller''),
      (0x090400, ''Generic Gameport controller''),
      (0x090410, ''Legacy Gameport controller''),
      (0x098000, ''Input controller''),
      (0x0a0000, ''Generic docking station''),
      (0x0a8000, ''Docking station''),
      (0x0b0000, ''386 Processor''),
      (0x0b0100, ''486 Processor''),
      (0x0b0200, ''Pentium Processor''),
      (0x0b1000, ''Alpha Processor''),
      (0x0b2000, ''PowerPC Processor''),
      (0x0b3000, ''MIPS Processor''),
      (0x0b4000, ''Co-processor''),
      (0x0c0000, ''IEEE 1394 (FireWire)''),
      (0x0c0010, ''IEEE 1394 -- OpenHCI spec''),
      (0x0c0100, ''ACCESS.bus''),
      (0x0c0200, ''SSA''),
      (0x0c0300, ''Universal Serial Bus (UHC spec)''),
      (0x0c0310, ''Universal Serial Bus (Open Host spec)''),
      (0x0c0320, ''USB2 Host controller (Intel Enhanced HCI spec)''),
      (0x0c0380, ''Universal Serial Bus (no PI spec)''),
      (0x0c03FE, ''USB Target Device''),
      (0x0c0400, ''Fibre Channel''),
      (0x0c0500, ''System Management Bus''),
      (0x0c0600, ''InfiniBand''),
      (0x0c0700, ''IPMI SMIC Interface''),
      (0x0c0701, ''IPMI Kybd Controller Style Interface''),
      (0x0c0702, ''IPMI Block Transfer Interface''),
      (0x0c0900, ''CANbus''),
      (0x0d100, ''iRDA compatible controller''),
      (0x0d100, ''Consumer IR controller''),
      (0x0d100, ''RF controller''),
      (0x0d100, ''Bluetooth controller''),
      (0x0d100, ''Broadband controller''),
      (0x0d100, ''Ethernet (802.11a 5 GHz) controller''),
      (0x0d100, ''Ethernet (802.11b 2.4 GHz) controller''),
      (0x0d100, ''Wireless controller''),
      (0x0e0000, ''Message FIFO at offset 040h''),
      (0x0f0100, ''TV satellite comm. controller''),
      (0x0f0200, ''Audio satellite comm. controller''),
      (0x0f0300, ''Voice satellite comm. controller''),
      (0x0f0400, ''Data satellite comm. controller''),
      (0x100000, ''Network and computing en/decryption''),
      (0x101000, ''Entertainment en/decryption''),
      (0x108000, ''En/Decryption''),
      (0x110000, ''DPIO modules''),
      (0x110100, ''Perf. counters''),
      (0x111000, ''Comm. synch., time and freq. test''),
      (0x112000, ''Management card''),
      (0x118000, ''Data acq./Signal proc.'')]"

definition pci_vendor_lookup :: "u16 \<Rightarrow> string" where
  "pci_vendor_lookup vendor_id = (case List.find (\<lambda>(i, n). i = vendor_id) pci_vendors of None \<Rightarrow> ''Unknown'' | Some (i, n) \<Rightarrow> n)"

definition pci_device_lookup :: "u16 \<Rightarrow> u16 \<Rightarrow> string" where
  "pci_device_lookup vendor_id device_id =
     (case List.find (\<lambda>(v, e, n). v = vendor_id \<and> e = device_id) pci_devices of None \<Rightarrow> ''Unknown'' | Some (v, e, n) \<Rightarrow> n)"

definition pci_class_lookup :: "u32 \<Rightarrow> string" where
  "pci_class_lookup class_code = (case List.find (\<lambda>(i, n). i = class_code) pci_classes of None \<Rightarrow> ''Unknown'' | Some (i, n) \<Rightarrow> n)"

section \<open>Scanning\<close>

text \<open>A function that is called for every device found: it may use the ports and changes \<open>extra\<close>.\<close>

type_synonym ('d, 'x) pci_func = "u32 \<Rightarrow> u16 \<Rightarrow> u16 \<Rightarrow> 'd \<times> 'x \<Rightarrow> 'd \<times> 'x"

definition pci_scan_hit :: "'d ports \<Rightarrow> ('d, 'x) pci_func \<Rightarrow> u32 \<Rightarrow> 'd \<times> 'x \<Rightarrow> 'd \<times> 'x" where
  "pci_scan_hit hw f device s =
     (let (v, d) = pci_read_field hw device PCI_VENDOR_ID 2 (fst s);
          (e, d) = pci_read_field hw device PCI_DEVICE_ID 2 d
      in f device (ucast v) (ucast e) (d, snd s))"

text \<open>\<open>scan_bus\<close> is the call of \<open>pci_scan_bus\<close> for the bus behind a bridge. A type of \<open>None\<close> is \<open>-1\<close>: every type.\<close>

definition pci_scan_func :: "'d ports \<Rightarrow> (u32 \<Rightarrow> 'd \<times> 'x \<Rightarrow> ('d \<times> 'x) option) \<Rightarrow> ('d, 'x) pci_func \<Rightarrow> u32 option \<Rightarrow> u32 \<Rightarrow> u32 \<Rightarrow> u32 \<Rightarrow> 'd \<times> 'x \<Rightarrow> ('d \<times> 'x) option" where
  "pci_scan_func hw scan_bus f ty bus slot func s =
     (let device = pci_box_device bus slot func;
          s = (case ty of
                 None \<Rightarrow> pci_scan_hit hw f device s
               | Some t \<Rightarrow>
                   let (t', d) = pci_find_type hw device (fst s); s = (d, snd s) in
                   if t = t' then pci_scan_hit hw f device s else s);
          (t', d) = pci_find_type hw device (fst s); s = (d, snd s) in
      if t' = PCI_TYPE_BRIDGE then
        let (b, d) = pci_read_field hw device PCI_SECONDARY_BUS 1 (fst s) in scan_bus b (d, snd s)
      else Some s)"

fun scan_funcs :: "'d ports \<Rightarrow> (u32 \<Rightarrow> 'd \<times> 'x \<Rightarrow> ('d \<times> 'x) option) \<Rightarrow> ('d, 'x) pci_func \<Rightarrow> u32 option \<Rightarrow> u32 \<Rightarrow> u32 \<Rightarrow> nat list \<Rightarrow> 'd \<times> 'x \<Rightarrow> ('d \<times> 'x) option" where
  "scan_funcs hw scan_bus f ty bus slot [] s = Some s"
| "scan_funcs hw scan_bus f ty bus slot (func # funcs) s =
     (let (v, d) = pci_read_field hw (pci_box_device bus slot (of_nat func)) PCI_VENDOR_ID 2 (fst s); s = (d, snd s) in
      Option.bind (if v \<noteq> PCI_NONE then pci_scan_func hw scan_bus f ty bus slot (of_nat func) s else Some s)
        (scan_funcs hw scan_bus f ty bus slot funcs))"

definition pci_scan_slot :: "'d ports \<Rightarrow> (u32 \<Rightarrow> 'd \<times> 'x \<Rightarrow> ('d \<times> 'x) option) \<Rightarrow> ('d, 'x) pci_func \<Rightarrow> u32 option \<Rightarrow> u32 \<Rightarrow> u32 \<Rightarrow> 'd \<times> 'x \<Rightarrow> ('d \<times> 'x) option" where
  "pci_scan_slot hw scan_bus f ty bus slot s =
     (let device = pci_box_device bus slot 0;
          (v, d) = pci_read_field hw device PCI_VENDOR_ID 2 (fst s); s = (d, snd s) in
      if v = PCI_NONE then Some s
      else
        Option.bind (pci_scan_func hw scan_bus f ty bus slot 0 s) (\<lambda>s.
        let (h, d) = pci_read_field hw device PCI_HEADER_TYPE 1 (fst s); s = (d, snd s) in
        if h = 0 then Some s else scan_funcs hw scan_bus f ty bus slot [1..<8] s))"

fun scan_slots :: "(u32 \<Rightarrow> 's \<Rightarrow> 's option) \<Rightarrow> nat list \<Rightarrow> 's \<Rightarrow> 's option" where
  "scan_slots scan_slot [] s = Some s"
| "scan_slots scan_slot (slot # slots) s = Option.bind (scan_slot (of_nat slot) s) (scan_slots scan_slot slots)"

primrec pci_scan_bus :: "nat \<Rightarrow> 'd ports \<Rightarrow> ('d, 'x) pci_func \<Rightarrow> u32 option \<Rightarrow> u32 \<Rightarrow> 'd \<times> 'x \<Rightarrow> ('d \<times> 'x) option" where
  "pci_scan_bus 0 hw f ty bus s = None"
| "pci_scan_bus (Suc fuel) hw f ty bus s = scan_slots (pci_scan_slot hw (pci_scan_bus fuel hw f ty) f ty bus) [0..<32] s"

fun scan_hosts :: "nat \<Rightarrow> 'd ports \<Rightarrow> ('d, 'x) pci_func \<Rightarrow> u32 option \<Rightarrow> nat list \<Rightarrow> 'd \<times> 'x \<Rightarrow> ('d \<times> 'x) option" where
  "scan_hosts fuel hw f ty [] s = Some s"
| "scan_hosts fuel hw f ty (func # funcs) s =
     (let (v, d) = pci_read_field hw (pci_box_device 0 0 (of_nat func)) PCI_VENDOR_ID 2 (fst s); s = (d, snd s) in
      if v = PCI_NONE then Some s
      else Option.bind (pci_scan_bus fuel hw f ty (of_nat func) s) (scan_hosts fuel hw f ty funcs))"

definition pci_scan :: "nat \<Rightarrow> 'd ports \<Rightarrow> ('d, 'x) pci_func \<Rightarrow> u32 option \<Rightarrow> 'd \<times> 'x \<Rightarrow> ('d \<times> 'x) option" where
  "pci_scan fuel hw f ty s =
     (let (h, d) = pci_read_field hw 0 PCI_HEADER_TYPE 1 (fst s); s = (d, snd s) in
      if and h 0x80 = 0 then pci_scan_bus fuel hw f ty 0 s else scan_hosts fuel hw f ty [0..<8] s)"

section \<open>Interrupt lines\<close>

definition find_isa_bridge :: "('d, u32) pci_func" where
  "find_isa_bridge device vendorid deviceid s =
     (if vendorid = 0x8086 \<and> (deviceid = 0x7000 \<or> deviceid = 0x7110) then (fst s, device) else s)"

definition scan_count :: "('d, u32) pci_func" where
  "scan_count device vendorid deviceid s = (fst s, snd s + 1)"

record pci =
  pci_isa :: u32
  pci_remaps :: "u32 list"

fun read_remaps :: "'d ports \<Rightarrow> u32 \<Rightarrow> nat list \<Rightarrow> 'd \<Rightarrow> u32 list \<times> 'd" where
  "read_remaps hw isa [] d = ([], d)"
| "read_remaps hw isa (i # is) d =
     (let (v, d) = pci_read_field hw isa (0x60 + of_nat i) 1 d; (vs, d) = read_remaps hw isa is d in (v # vs, d))"

text \<open>\<open>memcpy(&out, &pci_remaps, 4)\<close> copies four bytes: the first entry of the array, whose entries have four bytes each.\<close>

definition pci_remap :: "nat \<Rightarrow> 'd ports \<Rightarrow> 'd \<times> pci \<Rightarrow> ('d \<times> pci) option" where
  "pci_remap fuel hw s =
     Option.bind (pci_scan fuel hw find_isa_bridge None (fst s, pci_isa (snd s))) (\<lambda>(d, isa).
     if isa \<noteq> 0 then
       let (rs, d) = read_remaps hw isa [0..<4] d; out = rs ! 0 in
       Some (pci_write_field hw isa 0x60 out d, \<lparr>pci_isa = isa, pci_remaps = rs\<rparr>)
     else Some (d, (snd s)\<lparr>pci_isa := isa\<rparr>))"

definition pci_get_interrupt :: "'d ports \<Rightarrow> u32 \<Rightarrow> 'd \<times> pci \<Rightarrow> (u32 \<times> 'd \<times> pci) res" where
  "pci_get_interrupt hw device s =
     (let (d, p) = s in
      if pci_isa p = 0 then let (v, d) = pci_read_field hw device PCI_INTERRUPT_LINE 1 d in Inr (v, d, p)
      else
        let (pin, d) = pci_read_field hw device PCI_INTERRUPT_PIN 1 d in
        if pin = 0 then let (v, d) = pci_read_field hw device PCI_INTERRUPT_LINE 1 d in Inr (v, d, p)
        else
          let pirq = unat ((pin + ucast (pci_extract_slot device) - 2) mod 4);
              (line, d) = pci_read_field hw device PCI_INTERRUPT_LINE 1 d in
          bindR (get_at (pci_remaps p) pirq) (\<lambda>r.
          if r = 0x80 then
            bindR (set_at (pci_remaps p) pirq line) (\<lambda>rs.
            let d = pci_write_field hw (pci_isa p) 0x60 (rs ! 0) d;
                (v, d) = pci_read_field hw device PCI_INTERRUPT_LINE 1 d
            in Inr (v, d, p\<lparr>pci_remaps := rs\<rparr>))
          else Inr (r, d, p)))"

end
