(* ===== verification/Pci_Correct.thy ===== *)
theory Pci_Correct
  imports Pci
begin

text \<open>
  What the configuration code finds: reading a field yields its bytes of the configuration space, and a scan calls the function for exactly the
  devices that can be reached from the first bus through bridges.
\<close>

section \<open>The configuration space\<close>

text \<open>
  The documented access: the address written to the first port selects a word of the configuration space \<open>cfg\<close>, and the second one gives its
  bytes; selecting a word changes nothing in it.
\<close>

definition config_ports :: "'d ports \<Rightarrow> ('d \<Rightarrow> u32 \<Rightarrow> u32) \<Rightarrow> bool" where
  "config_ports hw cfg \<longleftrightarrow> (\<forall>d a. cfg (out32 hw 0xCF8 a d) = cfg d \<and> in32 hw 0xCFC (out32 hw 0xCF8 a d) = cfg d a \<and>
     (\<forall>k<4. in8 hw (0xCFC + of_nat k) (out32 hw 0xCF8 a d) = ucast (drop_bit (8 * k) (cfg d a))) \<and>
     (\<forall>k\<in>{0, 2}. in16 hw (0xCFC + of_nat k) (out32 hw 0xCF8 a d) = ucast (drop_bit (8 * k) (cfg d a))))"

definition field8 :: "(u32 \<Rightarrow> u32) \<Rightarrow> u32 \<Rightarrow> u32 \<Rightarrow> u32" where
  "field8 c device field = ucast (ucast (drop_bit (8 * unat (and field 3)) (c (pci_get_addr device field))) :: u8)"

definition field16 :: "(u32 \<Rightarrow> u32) \<Rightarrow> u32 \<Rightarrow> u32 \<Rightarrow> u32" where
  "field16 c device field = ucast (ucast (drop_bit (8 * unat (and field 2)) (c (pci_get_addr device field))) :: u16)"

lemma and_2: "and x 2 = (if bit x 1 then 2 else 0)" for x :: u32
proof (rule bit_word_eqI)
  fix n
  have "bit (2 :: u32) n \<longleftrightarrow> n = 1" using bit_exp_iff[of 1 n, where 'a = "32 word"] by auto
  then show "bit (and x 2) n \<longleftrightarrow> bit (if bit x 1 then 2 else 0 :: u32) n" by (auto simp: bit_and_iff)
qed

lemma read_field:
  assumes "config_ports hw cfg"
  shows "cfg (snd (pci_read_field hw device field n d)) = cfg d"
    and "fst (pci_read_field hw device field 1 d) = field8 (cfg d) device field"
    and "fst (pci_read_field hw device field 2 d) = field16 (cfg d) device field"
    and "fst (pci_read_field hw device field 4 d) = cfg d (pci_get_addr device field)"
proof -
  let ?d = "out32 hw 0xCF8 (pci_get_addr device field) d"
  note h = assms[unfolded config_ports_def, rule_format]
  show "cfg (snd (pci_read_field hw device field n d)) = cfg d" using h by (simp add: pci_read_field_def Let_def PCI_ADDRESS_PORT_def)
  show "fst (pci_read_field hw device field 4 d) = cfg d (pci_get_addr device field)"
    using h by (simp add: pci_read_field_def Let_def PCI_ADDRESS_PORT_def PCI_VALUE_PORT_def)
  have u: "(ucast w :: u16) = of_nat (unat w)" for w :: u32 by simp
  have "and field 3 \<le> 3" by (rule word_and_le1)
  then have "unat (and field 3) < 4" by (simp add: word_le_nat_alt)
  then have "in8 hw (0xCFC + ucast (and field 3)) ?d = ucast (drop_bit (8 * unat (and field 3)) (cfg d (pci_get_addr device field)))"
    using h[of "pci_get_addr device field" d] unfolding u by blast
  then show "fst (pci_read_field hw device field 1 d) = field8 (cfg d) device field"
    by (simp add: pci_read_field_def Let_def PCI_ADDRESS_PORT_def PCI_VALUE_PORT_def field8_def)
  have "unat (and field 2) \<in> {0, 2}" by (simp add: and_2)
  then have "in16 hw (0xCFC + ucast (and field 2)) ?d = ucast (drop_bit (8 * unat (and field 2)) (cfg d (pci_get_addr device field)))"
    using h[of "pci_get_addr device field" d] unfolding u by blast
  then show "fst (pci_read_field hw device field 2 d) = field16 (cfg d) device field"
    by (simp add: pci_read_field_def Let_def PCI_ADDRESS_PORT_def PCI_VALUE_PORT_def field16_def)
qed

definition dev_type :: "(u32 \<Rightarrow> u32) \<Rightarrow> u32 \<Rightarrow> u32" where
  "dev_type c device =
     or (push_bit 16 (field8 c device PCI_CLASS)) (or (push_bit 8 (field8 c device PCI_SUBCLASS)) (field8 c device PCI_PROG_IF))"

lemma find_type:
  assumes "config_ports hw cfg"
  shows "fst (pci_find_type hw device d) = dev_type (cfg d) device" "cfg (snd (pci_find_type hw device d)) = cfg d"
  by (simp_all add: pci_find_type_def dev_type_def Let_def split_def read_field[OF assms] read_field(2)[OF assms, unfolded One_nat_def])

section \<open>Scans\<close>

text \<open>The functions of a slot that answer, and the devices that are found from a bus, directly or behind a bridge.\<close>

definition funcs_of :: "(u32 \<Rightarrow> u32) \<Rightarrow> u32 \<Rightarrow> u32 \<Rightarrow> nat list" where
  "funcs_of c bus slot =
     (if field16 c (pci_box_device bus slot 0) PCI_VENDOR_ID = PCI_NONE then []
      else 0 # (if field8 c (pci_box_device bus slot 0) PCI_HEADER_TYPE = 0 then []
                else filter (\<lambda>i. field16 c (pci_box_device bus slot (of_nat i)) PCI_VENDOR_ID \<noteq> PCI_NONE) [1..<8]))"

inductive found :: "(u32 \<Rightarrow> u32) \<Rightarrow> u32 \<Rightarrow> u32 \<Rightarrow> bool" for c where
  here: "slot < 32 \<Longrightarrow> func \<in> set (funcs_of c bus (of_nat slot)) \<Longrightarrow> found c bus (pci_box_device bus (of_nat slot) (of_nat func))"
| behind: "slot < 32 \<Longrightarrow> func \<in> set (funcs_of c bus (of_nat slot)) \<Longrightarrow>
    dev_type c (pci_box_device bus (of_nat slot) (of_nat func)) = PCI_TYPE_BRIDGE \<Longrightarrow>
    found c (field8 c (pci_box_device bus (of_nat slot) (of_nat func)) PCI_SECONDARY_BUS) device \<Longrightarrow> found c bus device"

inductive_simps found_iff: "found c bus device"

text \<open>
  A bridge that respects the numbering leads to a bus with a greater number. There are 256 buses: the address has
  eight bits for the bus.
\<close>

definition downward :: "(u32 \<Rightarrow> u32) \<Rightarrow> bool" where
  "downward c \<longleftrightarrow> (\<forall>bus slot func. unat bus < 256 \<and> slot < 32 \<and> func \<in> set (funcs_of c bus (of_nat slot)) \<and>
     dev_type c (pci_box_device bus (of_nat slot) (of_nat func)) = PCI_TYPE_BRIDGE \<longrightarrow>
     bus < field8 c (pci_box_device bus (of_nat slot) (of_nat func)) PCI_SECONDARY_BUS)"

text \<open>A call of the function for one device, of all devices of a list, and a scan that makes these calls.\<close>

definition visit :: "(u32 \<Rightarrow> u32) \<Rightarrow> u32 option \<Rightarrow> (u32 \<Rightarrow> u16 \<Rightarrow> u16 \<Rightarrow> 'x \<Rightarrow> 'x) \<Rightarrow> u32 \<Rightarrow> 'x \<Rightarrow> 'x" where
  "visit c ty g device x =
     (if ty = None \<or> ty = Some (dev_type c device)
      then g device (ucast (field16 c device PCI_VENDOR_ID)) (ucast (field16 c device PCI_DEVICE_ID)) x else x)"

definition pure_func :: "(u32 \<Rightarrow> u16 \<Rightarrow> u16 \<Rightarrow> 'x \<Rightarrow> 'x) \<Rightarrow> ('d, 'x) pci_func" where
  "pure_func g device v e s = (fst s, g device v e (snd s))"

definition scans :: "('d \<Rightarrow> u32 \<Rightarrow> u32) \<Rightarrow> (u32 \<Rightarrow> u32) \<Rightarrow> u32 option \<Rightarrow> (u32 \<Rightarrow> u16 \<Rightarrow> u16 \<Rightarrow> 'x \<Rightarrow> 'x) \<Rightarrow> ('d \<times> 'x \<Rightarrow> ('d \<times> 'x) option) \<Rightarrow> u32 list \<Rightarrow> bool" where
  "scans cfg c ty g P devs \<longleftrightarrow> (\<forall>d x. cfg d = c \<longrightarrow> (\<exists>d'. cfg d' = c \<and> P (d, x) = Some (d', fold (visit c ty g) devs x)))"

lemma scans_bind: "scans cfg c ty g P as \<Longrightarrow> scans cfg c ty g Q bs \<Longrightarrow> scans cfg c ty g (\<lambda>s. Option.bind (P s) Q) (as @ bs)"
  unfolding scans_def
proof (intro allI impI)
  fix d x
  assume P: "\<forall>d x. cfg d = c \<longrightarrow> (\<exists>d'. cfg d' = c \<and> P (d, x) = Some (d', fold (visit c ty g) as x))"
    and Q: "\<forall>d x. cfg d = c \<longrightarrow> (\<exists>d'. cfg d' = c \<and> Q (d, x) = Some (d', fold (visit c ty g) bs x))" and "cfg d = c"
  then obtain d1 where d1: "cfg d1 = c" "P (d, x) = Some (d1, fold (visit c ty g) as x)" by blast
  then show "\<exists>d'. cfg d' = c \<and> Option.bind (P (d, x)) Q = Some (d', fold (visit c ty g) (as @ bs) x)" using Q by simp
qed

lemma scans_Some: "scans cfg c ty g Some []"
  by (simp add: scans_def)

lemmas reads = read_field read_field(2)[unfolded One_nat_def] find_type

lemma scan_hit:
  assumes "config_ports hw cfg"
  shows "\<exists>d'. cfg d' = cfg d \<and> pci_scan_hit hw (pure_func g) device (d, x) =
    (d', g device (ucast (field16 (cfg d) device PCI_VENDOR_ID)) (ucast (field16 (cfg d) device PCI_DEVICE_ID)) x)"
  by (simp add: pci_scan_hit_def pure_func_def Let_def split_def reads[OF assms])

lemma scan_func:
  assumes "config_ports hw cfg"
    and "if dev_type c (pci_box_device bus slot func) = PCI_TYPE_BRIDGE
         then scans cfg c ty g (scan_bus (field8 c (pci_box_device bus slot func) PCI_SECONDARY_BUS)) ds else ds = []"
  shows "scans cfg c ty g (pci_scan_func hw scan_bus (pure_func g) ty bus slot func) (pci_box_device bus slot func # ds)"
  unfolding scans_def
proof (intro allI impI)
  fix d x
  assume d: "cfg d = c"
  let ?dev = "pci_box_device bus slot func"
  define s where "s = (case ty of None \<Rightarrow> pci_scan_hit hw (pure_func g) ?dev (d, x)
    | Some t \<Rightarrow> let (t', d) = pci_find_type hw ?dev (fst (d, x)); s = (d, snd (d, x)) in if t = t' then pci_scan_hit hw (pure_func g) ?dev s else s)"
  have s: "cfg (fst s) = c \<and> snd s = visit c ty g ?dev x"
  proof (cases ty)
    case None
    obtain d' where "cfg d' = c" "pci_scan_hit hw (pure_func g) ?dev (d, x) =
        (d', g ?dev (ucast (field16 c ?dev PCI_VENDOR_ID)) (ucast (field16 c ?dev PCI_DEVICE_ID)) x)"
      using scan_hit[OF assms(1), of d g ?dev x] d by auto
    then show ?thesis by (simp add: s_def None visit_def)
  next
    case (Some t)
    let ?d = "snd (pci_find_type hw ?dev d)"
    have t: "fst (pci_find_type hw ?dev d) = dev_type c ?dev" "cfg ?d = c" using d by (simp_all add: reads[OF assms(1)])
    obtain d' where "cfg d' = c" "pci_scan_hit hw (pure_func g) ?dev (?d, x) =
        (d', g ?dev (ucast (field16 c ?dev PCI_VENDOR_ID)) (ucast (field16 c ?dev PCI_DEVICE_ID)) x)"
      using scan_hit[OF assms(1), of ?d g ?dev x] t(2) by auto
    then show ?thesis using t by (auto simp: s_def Some visit_def Let_def split_def)
  qed
  let ?d = "snd (pci_find_type hw ?dev (fst s))"
  have t: "fst (pci_find_type hw ?dev (fst s)) = dev_type c ?dev" "cfg ?d = c" using s by (simp_all add: reads[OF assms(1)])
  have r: "fst (pci_read_field hw ?dev PCI_SECONDARY_BUS 1 ?d) = field8 c ?dev PCI_SECONDARY_BUS" "cfg (snd (pci_read_field hw ?dev PCI_SECONDARY_BUS 1 ?d)) = c"
    using t(2) by (simp_all add: reads[OF assms(1)])
  have e: "pci_scan_func hw scan_bus (pure_func g) ty bus slot func (d, x) =
      (if dev_type c ?dev = PCI_TYPE_BRIDGE
       then scan_bus (field8 c ?dev PCI_SECONDARY_BUS) (snd (pci_read_field hw ?dev PCI_SECONDARY_BUS 1 ?d), snd s) else Some (?d, snd s))"
  proof -
    have "pci_scan_func hw scan_bus (pure_func g) ty bus slot func (d, x) =
        (let (t', d) = pci_find_type hw ?dev (fst s); s = (d, snd s) in
         if t' = PCI_TYPE_BRIDGE then let (b, d) = pci_read_field hw ?dev PCI_SECONDARY_BUS 1 (fst s) in scan_bus b (d, snd s) else Some s)"
      by (cases ty) (simp_all add: pci_scan_func_def s_def Let_def split_def)
    then show ?thesis using t(1) r(1) by (simp add: split_def Let_def)
  qed
  show "\<exists>d'. cfg d' = c \<and> pci_scan_func hw scan_bus (pure_func g) ty bus slot func (d, x) = Some (d', fold (visit c ty g) (?dev # ds) x)"
  proof (cases "dev_type c ?dev = PCI_TYPE_BRIDGE")
    case True
    then show ?thesis using assms(2) r(2) s e unfolding scans_def by auto
  next
    case False
    then show ?thesis using assms(2) t(2) s e by auto
  qed
qed

lemma scan_funcs:
  assumes "config_ports hw cfg"
    and "\<And>i. i \<in> set is \<Longrightarrow> field16 c (pci_box_device bus slot (of_nat i)) PCI_VENDOR_ID \<noteq> PCI_NONE \<Longrightarrow>
      scans cfg c ty g (pci_scan_func hw scan_bus f ty bus slot (of_nat i)) (D i)"
  shows "scans cfg c ty g (scan_funcs hw scan_bus f ty bus slot is)
    (concat (map D (filter (\<lambda>i. field16 c (pci_box_device bus slot (of_nat i)) PCI_VENDOR_ID \<noteq> PCI_NONE) is)))"
  using assms(2)
proof (induction "is")
  case (Cons i js)
  let ?dev = "pci_box_device bus slot (of_nat i)"
  have ih: "scans cfg c ty g (scan_funcs hw scan_bus f ty bus slot js)
      (concat (map D (filter (\<lambda>i. field16 c (pci_box_device bus slot (of_nat i)) PCI_VENDOR_ID \<noteq> PCI_NONE) js)))"
    using Cons by simp
  show ?case
    unfolding scans_def
  proof (intro allI impI)
    fix d x
    assume d: "cfg d = c"
    let ?d = "snd (pci_read_field hw ?dev PCI_VENDOR_ID 2 d)"
    have r: "fst (pci_read_field hw ?dev PCI_VENDOR_ID 2 d) = field16 c ?dev PCI_VENDOR_ID" "cfg ?d = c" using d by (simp_all add: reads[OF assms(1)])
    have e: "scan_funcs hw scan_bus f ty bus slot (i # js) (d, x) =
        Option.bind (if field16 c ?dev PCI_VENDOR_ID \<noteq> PCI_NONE then pci_scan_func hw scan_bus f ty bus slot (of_nat i) (?d, x) else Some (?d, x))
          (scan_funcs hw scan_bus f ty bus slot js)"
      using r(1) by (simp add: Let_def split_def)
    show "\<exists>d'. cfg d' = c \<and> scan_funcs hw scan_bus f ty bus slot (i # js) (d, x) = Some (d', fold (visit c ty g) (concat (map D
        (filter (\<lambda>i. field16 c (pci_box_device bus slot (of_nat i)) PCI_VENDOR_ID \<noteq> PCI_NONE) (i # js)))) x)"
    proof (cases "field16 c ?dev PCI_VENDOR_ID = PCI_NONE")
      case True
      then show ?thesis using e ih r(2) unfolding scans_def by simp
    next
      case False
      then have "scans cfg c ty g (pci_scan_func hw scan_bus f ty bus slot (of_nat i)) (D i)" using Cons.prems by simp
      from scans_bind[OF this ih] show ?thesis using e False r(2) unfolding scans_def by simp
    qed
  qed
qed (simp add: scans_def)

lemma scan_slot:
  assumes "config_ports hw cfg"
    and "\<And>i. i \<in> set (funcs_of c bus slot) \<Longrightarrow> scans cfg c ty g (pci_scan_func hw scan_bus f ty bus slot (of_nat i)) (D i)"
  shows "scans cfg c ty g (pci_scan_slot hw scan_bus f ty bus slot) (concat (map D (funcs_of c bus slot)))"
  unfolding scans_def
proof (intro allI impI)
  fix d x
  assume d: "cfg d = c"
  let ?dev = "pci_box_device bus slot 0"
  let ?d = "snd (pci_read_field hw ?dev PCI_VENDOR_ID 2 d)"
  let ?rest = "filter (\<lambda>i. field16 c (pci_box_device bus slot (of_nat i)) PCI_VENDOR_ID \<noteq> PCI_NONE) [1..<8]"
  have r: "fst (pci_read_field hw ?dev PCI_VENDOR_ID 2 d) = field16 c ?dev PCI_VENDOR_ID" "cfg ?d = c" using d by (simp_all add: reads[OF assms(1)])
  show "\<exists>d'. cfg d' = c \<and> pci_scan_slot hw scan_bus f ty bus slot (d, x) = Some (d', fold (visit c ty g) (concat (map D (funcs_of c bus slot))) x)"
  proof (cases "field16 c ?dev PCI_VENDOR_ID = PCI_NONE")
    case True
    then have "pci_scan_slot hw scan_bus f ty bus slot (d, x) = Some (?d, x)" using r(1) by (simp add: pci_scan_slot_def Let_def split_def)
    then show ?thesis using True r(2) by (simp add: funcs_of_def)
  next
    case False
    have z: "scans cfg c ty g (pci_scan_func hw scan_bus f ty bus slot 0) (D 0)" using assms(2)[of 0] False by (simp add: funcs_of_def)
    then obtain d1 where d1: "cfg d1 = c" "pci_scan_func hw scan_bus f ty bus slot 0 (?d, x) = Some (d1, fold (visit c ty g) (D 0) x)"
      using r(2) unfolding scans_def by blast
    let ?d1 = "snd (pci_read_field hw ?dev PCI_HEADER_TYPE 1 d1)" and ?x1 = "fold (visit c ty g) (D 0) x"
    have h: "fst (pci_read_field hw ?dev PCI_HEADER_TYPE 1 d1) = field8 c ?dev PCI_HEADER_TYPE" "cfg ?d1 = c" using d1(1) by (simp_all add: reads[OF assms(1)])
    have e: "pci_scan_slot hw scan_bus f ty bus slot (d, x) =
        (if field8 c ?dev PCI_HEADER_TYPE = 0 then Some (?d1, ?x1) else scan_funcs hw scan_bus f ty bus slot [1..<8] (?d1, ?x1))"
      using r(1) False d1(2) h(1) unfolding pci_scan_slot_def Let_def split_def fst_conv snd_conv by (simp del: upt_rec_numeral)
    show ?thesis
    proof (cases "field8 c ?dev PCI_HEADER_TYPE = 0")
      case True
      then show ?thesis using e h(2) False by (simp add: funcs_of_def)
    next
      case more: False
      then have fo: "funcs_of c bus slot = 0 # ?rest" using False by (simp add: funcs_of_def)
      have "scans cfg c ty g (scan_funcs hw scan_bus f ty bus slot [1..<8]) (concat (map D ?rest))"
        by (rule scan_funcs[OF assms(1)]) (use assms(2) fo in auto)
      then obtain d2 where "cfg d2 = c" "scan_funcs hw scan_bus f ty bus slot [1..<8] (?d1, ?x1) = Some (d2, fold (visit c ty g) (concat (map D ?rest)) ?x1)"
        using h(2) unfolding scans_def by blast
      then show ?thesis using e more unfolding fo by (simp del: upt_rec_numeral)
    qed
  qed
qed

lemma scan_slots: "\<forall>i\<in>set is. scans cfg c ty g (P (of_nat i)) (E i) \<Longrightarrow> scans cfg c ty g (scan_slots P is) (concat (map E is))"
proof (induction "is")
  case (Cons i js)
  then have "scans cfg c ty g (P (of_nat i)) (E i)" "scans cfg c ty g (scan_slots P js) (concat (map E js))" by simp_all
  from scans_bind[OF this] show ?case by (simp add: scans_def)
qed (simp add: scans_def)

text \<open>The devices of a bus, given those behind its bridges.\<close>

definition bus_list :: "(u32 \<Rightarrow> u32) \<Rightarrow> (u32 \<Rightarrow> u32 list) \<Rightarrow> u32 \<Rightarrow> u32 list" where
  "bus_list c below bus = concat (map (\<lambda>slot. concat (map (\<lambda>func.
     let device = pci_box_device bus (of_nat slot) (of_nat func) in
     device # (if dev_type c device = PCI_TYPE_BRIDGE then below (field8 c device PCI_SECONDARY_BUS) else []))
     (funcs_of c bus (of_nat slot)))) [0..<32])"

lemma set_bus_list: "set (bus_list c below bus) = {device. \<exists>slot<32. \<exists>func\<in>set (funcs_of c bus (of_nat slot)).
    device = pci_box_device bus (of_nat slot) (of_nat func) \<or>
    dev_type c (pci_box_device bus (of_nat slot) (of_nat func)) = PCI_TYPE_BRIDGE \<and>
    device \<in> set (below (field8 c (pci_box_device bus (of_nat slot) (of_nat func)) PCI_SECONDARY_BUS))}"
  by (auto simp: bus_list_def Let_def simp del: upt_rec_numeral split: if_splits)

lemma field8_byte: "unat (field8 c device field) < 256"
proof -
  have "unat (ucast (w :: u8) :: u32) < 256" for w
    using unsigned_less[of w, where 'a = nat] by (simp add: unsigned_ucast_eq take_bit_nat_eq_self)
  then show ?thesis unfolding field8_def .
qed

lemma scan_bus:
  assumes "config_ports hw cfg" "downward c"
  shows "unat bus < 256 \<Longrightarrow> 256 \<le> n + unat bus \<Longrightarrow>
    \<exists>devs. scans cfg c ty g (pci_scan_bus n hw (pure_func g) ty bus) devs \<and> set devs = {device. found c bus device}"
proof (induction n arbitrary: bus)
  case (Suc n)
  let ?sec = "\<lambda>slot func. field8 c (pci_box_device bus (of_nat slot) (of_nat func)) PCI_SECONDARY_BUS"
  have "\<exists>below. \<forall>b. bus < b \<and> unat b < 256 \<longrightarrow> scans cfg c ty g (pci_scan_bus n hw (pure_func g) ty b) (below b) \<and> set (below b) = {device. found c b device}"
  proof (rule choice, rule allI)
    fix b
    show "\<exists>devs. bus < b \<and> unat b < 256 \<longrightarrow> scans cfg c ty g (pci_scan_bus n hw (pure_func g) ty b) devs \<and> set devs = {device. found c b device}"
    proof (cases "bus < b \<and> unat b < 256")
      case True
      then have "256 \<le> n + unat b" using Suc.prems(2) by (simp add: word_less_nat_alt)
      then show ?thesis using Suc.IH[of b] True by blast
    qed auto
  qed
  then obtain below where below: "\<And>b. bus < b \<Longrightarrow> unat b < 256 \<Longrightarrow> scans cfg c ty g (pci_scan_bus n hw (pure_func g) ty b) (below b)"
      "\<And>b. bus < b \<Longrightarrow> unat b < 256 \<Longrightarrow> set (below b) = {device. found c b device}" by blast
  have dn: "bus < ?sec slot func" if "slot < 32" "func \<in> set (funcs_of c bus (of_nat slot))"
      "dev_type c (pci_box_device bus (of_nat slot) (of_nat func)) = PCI_TYPE_BRIDGE" for slot func
    using assms(2) Suc.prems(1) that unfolding downward_def by blast
  have "scans cfg c ty g (pci_scan_bus (Suc n) hw (pure_func g) ty bus) (bus_list c below bus)"
  proof -
    have "scans cfg c ty g (scan_slots (pci_scan_slot hw (pci_scan_bus n hw (pure_func g) ty) (pure_func g) ty bus) [0..<32]) (bus_list c below bus)"
      unfolding bus_list_def
    proof (intro scan_slots ballI scan_slot[OF assms(1)])
      fix slot func
      assume s: "slot \<in> set [0..<32]" "func \<in> set (funcs_of c bus (of_nat slot))"
      show "scans cfg c ty g (pci_scan_func hw (pci_scan_bus n hw (pure_func g) ty) (pure_func g) ty bus (of_nat slot) (of_nat func))
          (let device = pci_box_device bus (of_nat slot) (of_nat func)
           in device # (if dev_type c device = PCI_TYPE_BRIDGE then below (field8 c device PCI_SECONDARY_BUS) else []))"
        unfolding Let_def by (rule scan_func[OF assms(1)]) (use below(1) dn s field8_byte in auto)
    qed
    then show ?thesis by (simp add: scans_def del: upt_rec_numeral)
  qed
  moreover have "set (bus_list c below bus) = {device. found c bus device}"
  proof -
    have "device \<in> set (bus_list c below bus) \<longleftrightarrow> found c bus device" for device
    proof -
      have "device \<in> set (bus_list c below bus) \<longleftrightarrow> (\<exists>slot<32. \<exists>func\<in>set (funcs_of c bus (of_nat slot)).
          device = pci_box_device bus (of_nat slot) (of_nat func) \<or>
          dev_type c (pci_box_device bus (of_nat slot) (of_nat func)) = PCI_TYPE_BRIDGE \<and> found c (?sec slot func) device)"
        unfolding set_bus_list mem_Collect_eq using below(2) dn field8_byte by (metis mem_Collect_eq)
      also have "\<dots> \<longleftrightarrow> found c bus device" by (subst found_iff[of c bus device]) blast
      finally show ?thesis .
    qed
    then show ?thesis by blast
  qed
  ultimately show ?case by blast
qed simp

















text \<open>A bridge that leads to its own bus makes the scan run forever: no fuel is enough.\<close>

lemma scan_endless:
  assumes "config_ports hw cfg" "cfg d = c" "field16 c (pci_box_device bus 0 0) PCI_VENDOR_ID \<noteq> PCI_NONE"
    and "dev_type c (pci_box_device bus 0 0) = PCI_TYPE_BRIDGE" "field8 c (pci_box_device bus 0 0) PCI_SECONDARY_BUS = bus"
  shows "pci_scan_bus n hw (pure_func g) None bus (d, x) = None"
  using assms(2)
proof (induction n arbitrary: d x)
  case (Suc n)
  let ?dev = "pci_box_device bus 0 0"
  let ?d = "snd (pci_read_field hw ?dev PCI_VENDOR_ID 2 d)"
  have r: "fst (pci_read_field hw ?dev PCI_VENDOR_ID 2 d) = field16 c ?dev PCI_VENDOR_ID" "cfg ?d = c" using Suc.prems by (simp_all add: reads[OF assms(1)])
  obtain d1 y where h: "pci_scan_hit hw (pure_func g) ?dev (?d, x) = (d1, y)" "cfg d1 = c" using scan_hit[OF assms(1), of ?d g ?dev x] r(2) by auto
  let ?d1 = "snd (pci_find_type hw ?dev d1)"
  have t: "fst (pci_find_type hw ?dev d1) = PCI_TYPE_BRIDGE" "cfg ?d1 = c" using h(2) assms(4) by (simp_all add: reads[OF assms(1)])
  have b: "fst (pci_read_field hw ?dev PCI_SECONDARY_BUS 1 ?d1) = bus" "cfg (snd (pci_read_field hw ?dev PCI_SECONDARY_BUS 1 ?d1)) = c"
    using t(2) assms(5) by (simp_all add: reads[OF assms(1)])
  have "pci_scan_func hw (pci_scan_bus n hw (pure_func g) None) (pure_func g) None bus 0 0 (?d, x) = None"
    unfolding pci_scan_func_def Let_def using h(1) t(1) b Suc.IH[OF b(2)] by (simp add: split_def)
  then have "pci_scan_slot hw (pci_scan_bus n hw (pure_func g) None) (pure_func g) None bus 0 (d, x) = None"
    unfolding pci_scan_slot_def Let_def using r(1) assms(3) by (simp add: split_def)
  then show ?case by (simp add: upt_conv_Cons del: upt_rec_numeral)
qed simp

text \<open>
  \<open>pci_remap\<close> reads the four bytes of the interrupt lines and writes back a word made of the first one only: the other three lines are lost.
\<close>

lemma remap_loses:
  assumes "config_ports hw cfg" "\<And>d a v. cfg (out32 hw 0xCFC v (out32 hw 0xCF8 a d)) = (cfg d)(a := v)"
    and "pci_remap n hw (d, p) = Some (d', p')" "pci_isa p' \<noteq> 0"
  shows "\<exists>d1. cfg d' (pci_get_addr (pci_isa p') 0x60) = field8 (cfg d1) (pci_isa p') 0x60 \<and> pci_remaps p' ! 0 = field8 (cfg d1) (pci_isa p') 0x60"
proof -
  obtain d1 isa where s: "pci_scan n hw find_isa_bridge None (d, pci_isa p) = Some (d1, isa)" using assms(3) by (auto simp: pci_remap_def bind_eq_Some_conv)
  have i: "isa = pci_isa p'" "isa \<noteq> 0" using assms(3,4) s by (auto simp: pci_remap_def Let_def split: if_splits prod.splits)
  obtain rs d2 where r: "read_remaps hw isa [0..<4] d1 = (rs, d2)" by (cases "read_remaps hw isa [0..<4] d1")
  have "rs ! 0 = field8 (cfg d1) isa 0x60"
    using r by (auto simp: upt_conv_Cons Let_def split_def reads[OF assms(1)] simp del: upt_rec_numeral)
  moreover have "d' = pci_write_field hw isa 0x60 (rs ! 0) d2" "pci_remaps p' = rs" using assms(3) s r i(2) by (auto simp: pci_remap_def Let_def)
  moreover have "cfg (pci_write_field hw isa 0x60 v d2) (pci_get_addr isa 0x60) = v" for v
    using assms(2) by (simp add: pci_write_field_def PCI_VALUE_PORT_def PCI_ADDRESS_PORT_def)
  ultimately show ?thesis using i(1) by (intro exI[of _ d1]) simp
qed

end
