(* ===== verification/Bitset.thy ===== *)
theory Bitset
  imports Prelude
begin

text \<open>
  Bit sets (\<open>libc/bitset.c\<close>). The array is the list of its bytes; an access behind it is a fault. \<open>bitset_set\<close> is declared in the header and
  commented out in the source.
\<close>

record bitset =
  data :: "u8 list"
  bs_size :: u32

definition get_index_and_mask :: "u32 \<Rightarrow> u32 \<times> u32" where
  "get_index_and_mask b =
     (let index = drop_bit 3 b; b = b - index * 8; offset = and b 7 in (index, push_bit (unat offset) 1))"

text \<open>The macro \<open>ceil\<close> of \<open>math.h\<close>: the next multiple of a power of two.\<close>

definition ceil_to :: "u32 \<Rightarrow> u32 \<Rightarrow> u32" where
  "ceil_to n base = and (n + base - 1) (not (base - 1))"

definition bitset_init :: "u32 \<Rightarrow> bitset" where
  "bitset_init n = (let n = ceil_to n 8 in \<lparr>data = replicate (unat n) 0, bs_size = n\<rparr>)"

definition bitset_clear :: "bitset \<Rightarrow> u32 \<Rightarrow> bitset res" where
  "bitset_clear s b =
     (let (index, mask) = get_index_and_mask b in
      bindR (get_at (data s) (unat index)) (\<lambda>v.
      bindR (set_at (data s) (unat index) (ucast (and (ucast v) (not mask)))) (\<lambda>d. Inr (s\<lparr>data := d\<rparr>))))"

definition bitset_test :: "bitset \<Rightarrow> u32 \<Rightarrow> bool res" where
  "bitset_test s b =
     (let (index, mask) = get_index_and_mask b in bindR (get_at (data s) (unat index)) (\<lambda>v. Inr (and mask (ucast v) \<noteq> 0)))"

fun unset_loop :: "bitset \<Rightarrow> u32 list \<Rightarrow> int res" where
  "unset_loop s [] = Inr (-1)"
| "unset_loop s (i # is) = bindR (bitset_test s i) (\<lambda>t. if \<not> t then Inr (sint i) else unset_loop s is)"

definition bitset_find_first_unset_bit :: "bitset \<Rightarrow> int res" where
  "bitset_find_first_unset_bit s = unset_loop s (map of_nat [0..<unat (bs_size s * 8)])"

section \<open>Bit sets as sets\<close>

text \<open>Element \<open>b\<close> is bit \<open>b mod 8\<close> of byte \<open>b div 8\<close>.\<close>

definition elem :: "bitset \<Rightarrow> nat \<Rightarrow> bool" where
  "elem s b \<longleftrightarrow> bit (data s ! (b div 8)) (b mod 8)"

lemma index_small: "unat b div 8 < 2 ^ 32" for b :: u32
  using unsigned_less[of b, where 'a = nat] by simp

lemma index_mask: "get_index_and_mask b = (of_nat (unat b div 8), push_bit (unat b mod 8) 1)"
proof -
  have i: "unat (drop_bit 3 b) = unat b div 8" by (simp add: unsigned_drop_bit_eq drop_bit_eq_div unat_div)
  then have "drop_bit 3 b = of_nat (unat b div 8)" using word_unat_eq_iff[of "drop_bit 3 b" "of_nat (unat b div 8)"] index_small[of b] by (simp add: unat_of_nat)
  moreover have "unat (and (b - drop_bit 3 b * 8) 7) = unat b mod 8"
  proof -
    have "drop_bit 3 b * 8 = push_bit 3 (drop_bit 3 b)" by (simp add: push_bit_eq_mult)
    then have "b - drop_bit 3 b * 8 = take_bit 3 b" using bits_ident[of 3 b] by (metis add_diff_cancel_left')
    moreover have "(7 :: u32) = mask 3" by (simp add: mask_eq_exp_minus_1)
    ultimately have "and (b - drop_bit 3 b * 8) 7 = take_bit 3 b" by (simp add: take_bit_eq_mask and.assoc)
    then show ?thesis by (simp add: unsigned_take_bit_eq take_bit_eq_mod unat_mod)
  qed
  ultimately show ?thesis by (simp add: get_index_and_mask_def Let_def)
qed

lemma unat_index: "unat (of_nat (unat b div 8) :: u32) = unat b div 8" for b :: u32
  using index_small[of b] by (simp add: unat_of_nat)

lemma test_elem:
  assumes "unat b div 8 < length (data s)"
  shows "bitset_test s b = Inr (elem s (unat b))"
proof -
  let ?v = "data s ! (unat b div 8)" and ?k = "unat b mod 8"
  have "(and (push_bit ?k 1) (ucast ?v) :: u32) \<noteq> 0 \<longleftrightarrow> bit ?v ?k"
  proof -
    have k: "?k < 8" by simp
    have "and (push_bit ?k 1) (ucast ?v) = (if bit ?v ?k then push_bit ?k 1 else 0 :: u32)"
      by (rule bit_word_eqI) (use k in \<open>auto simp: bit_simps\<close>)
    moreover have "bit (push_bit ?k 1 :: u32) ?k" using k by (simp add: bit_simps)
    ultimately show ?thesis by (metis bit_0_eq bot_apply bot_bool_def)
  qed
  then show ?thesis using assms by (simp add: bitset_test_def index_mask Let_def unat_index get_at_def elem_def)
qed

lemma clear_elem:
  assumes "unat b div 8 < length (data s)"
  shows "\<exists>s'. bitset_clear s b = Inr s' \<and> length (data s') = length (data s) \<and> bs_size s' = bs_size s \<and>
    (\<forall>i<8 * length (data s). elem s' i \<longleftrightarrow> elem s i \<and> i \<noteq> unat b)"
proof -
  let ?i = "unat b div 8" and ?k = "unat b mod 8"
  let ?v = "ucast (and (ucast (data s ! ?i)) (not (push_bit ?k 1)) :: u32) :: u8"
  let ?s = "s\<lparr>data := (data s)[?i := ?v]\<rparr>"
  have "bitset_clear s b = Inr ?s"
    using assms by (simp add: bitset_clear_def index_mask Let_def unat_index get_at_def set_at_def)
  moreover have v: "bit ?v j \<longleftrightarrow> bit (data s ! ?i) j \<and> j \<noteq> ?k" if "j < 8" for j using that by (auto simp: bit_simps)
  have "elem ?s j \<longleftrightarrow> elem s j \<and> j \<noteq> unat b" if "j < 8 * length (data s)" for j
  proof (cases "j div 8 = ?i")
    case True
    have "j = unat b \<longleftrightarrow> j mod 8 = ?k" using True by (metis div_mult_mod_eq)
    then show ?thesis using True v[of "j mod 8"] assms by (simp add: elem_def)
  next
    case False
    then show ?thesis by (auto simp: elem_def)
  qed
  ultimately show ?thesis by (intro exI[of _ ?s]) simp
qed

text \<open>The search returns the first bit that is not set, or \<open>-1\<close>, and reads nothing behind the array.\<close>

lemma unset_loop_eq:
  "\<forall>i\<in>set is. i div 8 < length (data s) \<and> i < 2 ^ 31 \<Longrightarrow>
   unset_loop s (map of_nat is) = Inr (case List.find (\<lambda>i. \<not> elem s i) is of None \<Rightarrow> -1 | Some i \<Rightarrow> int i)"
proof (induction "is")
  case (Cons i js)
  have u: "unat (of_nat i :: u32) = i" using Cons.prems by (simp add: unat_of_nat)
  have "sint (of_nat i :: u32) = int i"
    using Cons.prems by (simp add: sint_uint unsigned_of_nat take_bit_nat_eq_self signed_take_bit_int_eq_self)
  then show ?case using Cons u test_elem[of "of_nat i" s] by simp
qed simp

lemma find_first_unset:
  assumes "length (data s) = unat (bs_size s)" "unat (bs_size s) < 2 ^ 28"
  shows "bitset_find_first_unset_bit s =
    Inr (case List.find (\<lambda>i. \<not> elem s i) [0..<8 * unat (bs_size s)] of None \<Rightarrow> -1 | Some i \<Rightarrow> int i)"
proof -
  have "unat (bs_size s * 8) = unat (bs_size s) * 8" using assms(2) by (subst unat_mult_lem[THEN iffD1]) simp_all
  then show ?thesis
    unfolding bitset_find_first_unset_bit_def using assms
    by (subst unset_loop_eq) (auto simp: mult.commute[of 8] simp del: upt_rec_numeral)
qed

text \<open>
  The size is counted in bits by the caller and in bytes by the set, and both are rounded up to a multiple of eight: the set has eight times
  the room that was asked for, and the search finds bits behind it.
\<close>

lemma init_too_big:
  assumes "n < 2 ^ 32 - 7"
  shows "unat (bs_size (bitset_init (of_nat n))) = (n + 7) div 8 * 8 \<and> length (data (bitset_init (of_nat n))) = (n + 7) div 8 * 8"
proof -
  have e: "of_nat n + 8 - 1 = (of_nat (n + 7) :: u32)" by simp
  have "ceil_to (of_nat n) 8 = of_nat ((n + 7) div 8 * 8)"
  proof -
    have "and w (not (mask 3)) = push_bit 3 (drop_bit 3 w)" for w :: u32
      by (rule bit_word_eqI) (auto simp: bit_simps)
    moreover have "(8 :: u32) - 1 = mask 3" by (simp add: mask_eq_exp_minus_1)
    ultimately have "ceil_to (of_nat n) 8 = drop_bit 3 (of_nat (n + 7)) * 8" using e by (simp add: ceil_to_def push_bit_eq_mult add.commute)
    also have "drop_bit 3 (of_nat (n + 7) :: u32) = of_nat ((n + 7) div 8)"
    proof -
      have "unat (of_nat (n + 7) :: u32) = n + 7" unfolding unat_of_nat using assms by simp
      then have "unat (drop_bit 3 (of_nat (n + 7) :: u32)) = (n + 7) div 8" by (simp add: unsigned_drop_bit_eq drop_bit_eq_div unat_div)
      moreover have "unat (of_nat ((n + 7) div 8) :: u32) = (n + 7) div 8" unfolding unat_of_nat using assms by simp
      ultimately show ?thesis by (metis word_unat_eq_iff)
    qed
    finally show ?thesis by simp
  qed
  moreover have "unat (of_nat ((n + 7) div 8 * 8) :: u32) = (n + 7) div 8 * 8" unfolding unat_of_nat using assms by simp
  ultimately show ?thesis unfolding bitset_init_def Let_def bitset.simps length_replicate by (simp only: simp_thms)
qed

end
