(* ===== verification/Spec2Isabelle.thy ===== *)
theory Spec2Isabelle
  imports Ipc_Correct Hashmap C_List Deadlock_Simulation Process_Calls Smart_Sem Char_Map Ordered_Array Queue Paging Rbtree_Props Vfs_Correct Printf_Correct Keyboard_Correct Shell_Correct Traps Locks Pci_Correct Bitset
begin

text \<open>
  A verification development for the two programs of this repository: the teaching kernel MentOS
  under \<open>src/Mentos/mentos\<close> and the client/server exercise under \<open>src/system_call\<close>.

  \<^bold>\<open>How the parts interact.\<close> In the kernel a timer interrupt calls \<open>kernel_schedule\<close>, which stores the
  registers of the running process, picks the next one from the run queue (an intrusive list) and
  loads its registers. System calls create processes (\<open>sys_vfork\<close>), end them (\<open>sys_exit\<close>) and collect
  them (\<open>sys_waitpid\<close>). A semaphore is a resource of the kernel; \<open>sys_sem_try_acquire\<close> builds the
  matrices of the banker algorithm from the run queue and the list of resources and asks \<open>request\<close>
  whether the grant leaves a safe state. Processes live in segments: \<open>paging.c\<close> takes page frames
  from the zone allocator and descriptors from the kernel heap. In the exercise a client forks one
  child per file; each child splits its file into four messages, waits at a barrier and sends the
  parts through two FIFOs, a message queue and shared memory; the server collects them and writes
  the output files.

  \<^bold>\<open>Conventions.\<close> C integers are words (\<open>u32\<close>, \<open>u8\<close>) or numbers with the wrap-around written out
  (\<open>u32n\<close>, \<open>sub32\<close>, \<open>to_int32\<close>). Code that can fault returns \<open>fault + 'a\<close>: a null dereference, an
  access out of bounds, a failed assertion or a panic is \<open>Inl\<close>. A loop whose end depends on the data
  it runs over (a string without terminator, a list with a cycle) is a \<open>partial_function (option)\<close>,
  where \<open>None\<close> is a run that does not end; the theorems on such loops state that they end and with
  which result. Loops with a counter recurse on it. Structures that code shares through pointers are
  stores, functions from addresses to records; a structure that nobody shares is a record. What
  an allocator or the clock returns to a routine that only uses it is an argument of the routine.

  \<^bold>\<open>Theories.\<close>
  \<^item> \<open>Prelude\<close>: faults and their composition, arrays with checked access, arithmetic at 32 bits, and
    the locale \<open>total_ops\<close> for operations that keep an invariant and cannot fault.
  \<^item> \<open>Arr_Math\<close> (\<open>experimental/math/arr_math.c\<close>): the loops over vectors; one locale for the four
    tests, one for addition and subtraction.
  \<^item> \<open>Deadlock\<close> (\<open>experimental/deadlock_prevention.c\<close>): the banker algorithm; \<open>state_safe\<close> decides
    the existence of a safe order, \<open>request\<close> grants exactly what leaves a safe state and otherwise
    restores the state.
    \<open>Deadlock_Simulation\<close> (\<open>experimental/deadlock_simulation.c\<close>): the simulation, which never leaves
    the safe states; from a safe state all tasks can be served one after the other until everything is free.
  \<^item> \<open>List_Head\<close> (\<open>inc/libc/list_head.h\<close>): circular lists in a store of links; the locales \<open>member_list\<close>
    and \<open>ring_list\<close> are what the run queue and the resource list rely on.
  \<^item> \<open>Scheduler\<close>, \<open>Scheduler_Correct\<close>, \<open>Process_Calls\<close> (\<open>process/scheduler.c\<close>, \<open>scheduler_algorithm.c\<close>,
    \<open>process.c\<close>, \<open>devices/fpu.c\<close>): the run queue refines a list of tasks; a preempted process gets its
    registers back; Round-Robin serves every process within one round (locale \<open>rotation\<close>); what
    \<open>waitpid\<close>, \<open>vfork\<close>, \<open>exit\<close> and \<open>nice\<close> do on every path.
  \<^item> \<open>Interrupts\<close>, \<open>Interrupts_Correct\<close> (\<open>descriptor_tables\<close>, \<open>hardware/pic8259.c\<close>): the descriptor tables, the chains of handlers
    against lists, the masks of the interrupt controller against the set of the enabled lines. What a port returns is a
    parameter; what the controller promises about it is the hypothesis \<open>returns_masks\<close>. \<open>Traps\<close> (\<open>hardware/timer.c\<close>, \<open>system/syscall.c\<close>):
    the timer and the system calls, the two ways into the scheduler. \<open>Locks\<close> (\<open>libc/spinlock.c\<close>, \<open>libc/mutex.c\<close>, \<open>kernel/sys.c\<close>):
    threads that interleave at every memory access; the locale \<open>exclusive_lock\<close> gives mutual exclusion for both locks.
    \<open>Pci\<close>, \<open>Pci_Correct\<close> (\<open>devices/pci.c\<close>): the scan of the devices against the devices that can be reached through bridges.
  \<^item> \<open>Resource\<close>, \<open>Resource_Correct\<close> (\<open>experimental/resource.c\<close>): resources and the matrices built from
    them. \<open>Smart_Sem\<close> (\<open>experimental/smart_sem_kernel.c\<close>, \<open>smart_sem_user.c\<close>): semaphores on top of both; between two
    grants of a semaphore some task has released or initialised it.
  \<^item> \<open>Zone_Allocator\<close>, \<open>Zone_Correct\<close> (\<open>mem/zone_allocator.c\<close>): page frames; the search of the code is
    the plain first-fit search, allocation and release are inverse, the self-test at boot succeeds.
  \<^item> \<open>Kheap\<close> (\<open>mem/kheap.c\<close>): the heap on a byte memory. \<open>Kheap_Correct\<close>: the invariant of the block
    list and the free list in memory, and the block manager. \<open>Kheap_Ops\<close>: allocation and release.
    \<open>Kheap_Client\<close>: the contract of an allocator as the locale \<open>allocator\<close>, its interpretation on
    \<open>kmalloc\<close> and \<open>kfree\<close>, and sequences of calls. \<open>Paging\<close> (\<open>mem/paging.c\<close> and the user heap): process
    images.
  \<^item> \<open>C_String\<close>, \<open>Char_Map\<close> (\<open>libc/string.c\<close>, \<open>libc/ctype.c\<close>): strings and memory blocks on a byte
    memory, overlapping moves included; the bit map behind \<open>strspn\<close>. \<open>C_Token\<close>, \<open>C_Token_Correct\<close>: the rest of
    \<open>libc/string.c\<close>; what \<open>strtok\<close>, \<open>strsep\<close> and \<open>strtok_r\<close> have in common is the locale \<open>tokenizer\<close>.
  \<^item> \<open>Ordered_Array\<close>, \<open>Queue\<close>, \<open>C_List\<close>, \<open>Hashmap\<close>, \<open>Bitset\<close> (\<open>libc\<close>): containers against sorted lists, sequences
    and maps; a queue is used through the locale \<open>fifo\<close>, the keys of a hash map through \<open>hash_keys\<close>.
  \<^item> \<open>Rbtree\<close> (\<open>libc/rbtree.c\<close>): red-black trees without parent pointers on a store of nodes. \<open>Rbtree_Heap\<close>:
    trees with addresses, held by a store, and their split into a subtree and the frames above it.
    \<open>Rbtree_Insert\<close>, \<open>Rbtree_Remove\<close>: the two top-down loops. \<open>Rbtree_Correct\<close>, \<open>Rbtree_Iter\<close>: the operations
    against the ascending list of values; the iterators and the bound of their path; the self-test.
    \<open>Rbtree_Set\<close>: the contract of an ordered set as the locale \<open>ordered_set\<close>, which the tree provides for
    every comparison that orders the values (locale \<open>key_order\<close>), and deallocation. \<open>Rbtree_Props\<close>: the
    properties.
  \<^item> \<open>Libgen\<close> (\<open>libc/libgen.c\<close>): path names. \<open>Initrd\<close>, \<open>Initrd_Correct\<close> (\<open>fs/initrd.c\<close>): the initial file system, the
    consistency of its tables, creation, removal, listing, reading and writing through a buffer of the kernel heap. \<open>Vfs\<close>, \<open>Vfs_Correct\<close>
    (\<open>fs/vfs.c\<close>, \<open>open.c\<close>, \<open>read_write.c\<close>, \<open>stat.c\<close>, \<open>readdir.c\<close>, \<open>fcntl.c\<close>, \<open>sys/dirent.c\<close>, \<open>sys/unistd.c\<close>): mount points
    and the system calls on files, generic in the file systems and instantiated with the initial one.
  \<^item> \<open>Printf\<close>, \<open>Printf_Correct\<close> (\<open>libc/vsprintf.c\<close>, \<open>atoi\<close> of \<open>libc/stdio.c\<close>): formatted output with every directive;
    the conversion of doubles to digits is a parameter. \<open>Video\<close>, \<open>Video_Correct\<close> (\<open>io/video.c\<close>): the text screen on
    the bytes of the video memory against a terminal of cells. \<open>Bitops\<close> (\<open>misc/bitops.c\<close>). \<open>Keyboard\<close>,
    \<open>Keyboard_Correct\<close> (\<open>drivers/keyboard\<close>): the interrupt handler, which buffers what is typed, as a \<open>fifo\<close>, and
    echoes it on the terminal. \<open>Shell\<close>, \<open>Shell_Correct\<close> (\<open>ui/shell/shell.c\<close>): the command line, from the keys to the
    arguments and the command, and the history.
  \<^item> \<open>Ipc\<close>, \<open>Ipc_Files\<close>, \<open>Ipc_Correct\<close> (\<open>src/system_call\<close>): the files that are sent and their split; the
    children and the server as processes that interleave at each system call, with an invariant by
    rule induction over the reachable states: a process fails only when a system call that it checks
    fails, and when a round ends every file has been written whole. Which calls fail in a step is an argument of the
    step; the reachable states are those of runs with calls that succeed, in which a process may stop at any
    point, as one that has failed does.

  \<^bold>\<open>Bounds.\<close> Fuel is used for the recursion of the PCI scan only: bus numbers have eight bits and grow along bridges, so that
  256 is enough, and a configuration with a cycle exhausts any fuel (\<open>scan_endless\<close>). Searches that the code bounds by a counter or an array keep that
  bound; the heap theorems assume that sizes and addresses stay below \<open>2 ^ 32\<close> where the code does not
  test it, and the cases beyond are lemmas of their own (\<open>kmalloc_wraps\<close>, \<open>full_zone_takes_next\<close>).

  \<^bold>\<open>Not modelled.\<close> Disk, floppy and mouse drivers, ports and processor identification (what a
  port or the processor does is no code of the repository); boot, login and commands (output and
  calls of the parts above); shared memory (\<open>sys/shm.c\<close> is not built: it calls routines that do not exist),
  floating-point conversion; the trees of \<open>libc/tree.c\<close>, which no code uses; the buddy system, whose bodies are blank here;
  generated files.
\<close>

end
